(* ===== verification/Ubft_Prelude.thy ===== *)
theory Ubft_Prelude
  imports Main "HOL-Library.Word"
begin

text \<open>
  Shared types and facts of the development.

  \<^item> \<open>u64\<close> is \<open>size_t\<close> and \<open>uint64_t\<close>: arithmetic wraps, \<open>unat\<close> reads a value.
  \<^item> \<open>proc_id\<close> is the \<open>int\<close> of \<open>ubft/src/types.hpp\<close>.
  \<^item> \<open>failure\<close> is what the C++ may do instead of returning: throw one of the
    standard exceptions it uses (with the message it carries, or the fixed part of a
    formatted message), run into undefined behaviour (a read of an empty \<open>optional\<close>, an
    index out of range under \<open>NDEBUG\<close>, a division by zero), abort on a failed assertion, or spin forever.
  \<^item> \<open>'a result\<close> is the value of an operation that may fail, \<open>rbind\<close> its sequencing: the
    first failure ends the call, as an uncaught exception does.

  The two collections gather the facts component proofs are discharged with: \<open>ubft_simps\<close>
  for evaluation of the models, \<open>ubft_word\<close> for comparisons of words read as naturals.
\<close>

named_theorems ubft_simps
named_theorems ubft_word

type_synonym u64 = "64 word"
type_synonym u32 = "32 word"
type_synonym byte = "8 word"
type_synonym proc_id = int

datatype failure =
    Invalid_argument string
  | Logic_error string
  | Runtime_error string
  | Out_of_range
  | Bad_variant_access
  | Undefined_behaviour
  | Aborts
  | Spins

type_synonym 'a result = "failure + 'a"

definition rbind :: "'a result \<Rightarrow> ('a \<Rightarrow> 'b result) \<Rightarrow> 'b result" where
  "rbind r f = (case r of Inl e \<Rightarrow> Inl e | Inr a \<Rightarrow> f a)"

definition guard :: "bool \<Rightarrow> failure \<Rightarrow> 'a result \<Rightarrow> 'a result" where
  "guard ok e r = (if ok then r else Inl e)"

text \<open>A loop whose body may fail, over the elements of a range, left to right.\<close>

fun rfold :: "('a \<Rightarrow> 's \<Rightarrow> 's result) \<Rightarrow> 'a list \<Rightarrow> 's \<Rightarrow> 's result" where
  "rfold f [] s = Inr s"
| "rfold f (x # xs) s = rbind (f x s) (rfold f xs)"

text \<open>A loop that makes or replaces the elements of a vector.\<close>

fun rmap :: "('a \<Rightarrow> 'b result) \<Rightarrow> 'a list \<Rightarrow> 'b list result" where
  "rmap f [] = Inr []"
| "rmap f (x # xs) = rbind (f x) (\<lambda>y. rbind (rmap f xs) (\<lambda>ys. Inr (y # ys)))"

lemma rbind_simps [simp]:
  "rbind (Inl e) f = Inl e"
  "rbind (Inr a) f = f a"
  by (simp_all add: rbind_def)

lemma rbind_Inr_iff: "rbind r f = Inr b \<longleftrightarrow> (\<exists>a. r = Inr a \<and> f a = Inr b)"
  by (cases r) auto

lemma rbind_Inl_iff:
  "rbind r f = Inl e \<longleftrightarrow> r = Inl e \<or> (\<exists>a. r = Inr a \<and> f a = Inl e)"
  by (cases r) auto

lemma case_sum_Inr_iff:
  "(case s of Inl e \<Rightarrow> Inl (f e) | Inr x \<Rightarrow> g x) = Inr y \<longleftrightarrow> (\<exists>x. s = Inr x \<and> g x = Inr y)"
  by (cases s) auto

lemma if_Inl_Inr_iff:
  "(if b then Inl e else r) = Inr y \<longleftrightarrow> \<not> b \<and> r = Inr y"
  by simp

lemma rbind_InrE:
  assumes "rbind r f = Inr b"
  obtains a where "r = Inr a" "f a = Inr b"
  using assms by (auto simp: rbind_Inr_iff)

lemma rbind_assoc: "rbind (rbind r f) g = rbind r (\<lambda>a. rbind (f a) g)"
  by (cases r) auto

lemma guard_simps [simp]:
  "guard True e r = r"
  "guard False e r = Inl e"
  by (simp_all add: guard_def)

lemma guard_Inr_iff: "guard ok e r = Inr b \<longleftrightarrow> ok \<and> r = Inr b"
  by (simp add: guard_def)

lemma rfold_append: "rfold f (xs @ ys) s = rbind (rfold f xs s) (rfold f ys)"
  by (induction xs arbitrary: s) (auto simp: rbind_assoc rbind_def split: sum.splits)

lemma rmap_length: "rmap f xs = Inr ys \<Longrightarrow> length ys = length xs"
  by (induction xs arbitrary: ys) (auto simp: rbind_Inr_iff)

lemma rmap_mem: "rmap f xs = Inr ys \<Longrightarrow> y \<in> set ys \<Longrightarrow> \<exists>x \<in> set xs. f x = Inr y"
  by (induction xs arbitrary: ys) (auto simp: rbind_Inr_iff)

lemma rfold_invariant:
  assumes "rfold f xs s = Inr t" and "P s"
    and "\<And>x s t. x \<in> set xs \<Longrightarrow> f x s = Inr t \<Longrightarrow> P s \<Longrightarrow> P t"
  shows "P t"
  using assms
proof (induction xs arbitrary: s)
  case (Cons x xs)
  from Cons.prems(1) obtain u where "f x s = Inr u" "rfold f xs u = Inr t"
    by (auto simp: rbind_Inr_iff)
  with Cons show ?case by (metis list.set_intros(1,2))
qed auto

text \<open>
  \<open>always P r\<close>: whatever \<open>r\<close> returns satisfies \<open>P\<close>. The rules take a model apart along its
  control flow, one goal for every way to return.
\<close>

definition always :: "('a \<Rightarrow> bool) \<Rightarrow> 'a result \<Rightarrow> bool" where
  "always P r \<longleftrightarrow> (\<forall>x. r = Inr x \<longrightarrow> P x)"

lemma always_simps [simp]:
  "always P (Inl e)"
  "always P (Inr x) \<longleftrightarrow> P x"
  by (simp_all add: always_def)

lemma alwaysD: "always P r \<Longrightarrow> r = Inr x \<Longrightarrow> P x"
  by (simp add: always_def)

lemma alwaysI: "(\<And>x. r = Inr x \<Longrightarrow> P x) \<Longrightarrow> always P r"
  by (simp add: always_def)

lemma always_mono: "always Q r \<Longrightarrow> (\<And>x. Q x \<Longrightarrow> P x) \<Longrightarrow> always P r"
  by (simp add: always_def)

lemma always_bind: "always Q r \<Longrightarrow> (\<And>x. Q x \<Longrightarrow> always P (f x)) \<Longrightarrow> always P (rbind r f)"
  by (auto simp: always_def rbind_Inr_iff)

lemma always_rbind: "(\<And>x. r = Inr x \<Longrightarrow> always P (f x)) \<Longrightarrow> always P (rbind r f)"
  by (auto simp: always_def rbind_Inr_iff)

lemma always_if: "(b \<Longrightarrow> always P x) \<Longrightarrow> (\<not> b \<Longrightarrow> always P y) \<Longrightarrow> always P (if b then x else y)"
  by simp

lemma always_option:
  "(z = None \<Longrightarrow> always P x) \<Longrightarrow> (\<And>a. z = Some a \<Longrightarrow> always P (y a)) \<Longrightarrow>
   always P (case z of None \<Rightarrow> x | Some a \<Rightarrow> y a)"
  by (cases z) simp_all

lemma always_list:
  "(z = [] \<Longrightarrow> always P x) \<Longrightarrow> (\<And>a as. z = a # as \<Longrightarrow> always P (y a as)) \<Longrightarrow>
   always P (case z of [] \<Rightarrow> x | a # as \<Rightarrow> y a as)"
  by (cases z) simp_all

lemma always_sum:
  "(\<And>a. z = Inl a \<Longrightarrow> always P (x a)) \<Longrightarrow> (\<And>b. z = Inr b \<Longrightarrow> always P (y b)) \<Longrightarrow>
   always P (case z of Inl a \<Rightarrow> x a | Inr b \<Rightarrow> y b)"
  by (cases z) simp_all

lemma always_prod: "(\<And>a b. z = (a, b) \<Longrightarrow> always P (x a b)) \<Longrightarrow> always P (case z of (a, b) \<Rightarrow> x a b)"
  by (cases z) simp

lemma always_let: "(\<And>x. x = e \<Longrightarrow> always P (f x)) \<Longrightarrow> always P (let x = e in f x)"
  by simp

lemmas always_cases = always_if always_option always_list always_sum always_prod
lemmas always_intros = always_rbind always_cases always_let

lemma always_rfold:
  "P s \<Longrightarrow> (\<And>x s. x \<in> set xs \<Longrightarrow> P s \<Longrightarrow> always P (f x s)) \<Longrightarrow> always P (rfold f xs s)"
proof (induction xs arbitrary: s)
  case (Cons x xs)
  have "always P (f x s)" using Cons.prems by simp
  then show ?case
  unfolding rfold.simps using Cons by (intro always_bind [where Q = P]) simp_all
qed simp

section \<open>Words read as naturals\<close>

lemma unat_u64_less [simp]: "unat (w :: u64) < 18446744073709551616"
  using unsigned_less [of w] by (simp del: unsigned_less)

lemma u64_less_iff [ubft_word]: "(a :: u64) < b \<longleftrightarrow> unat a < unat b"
  by (rule word_less_nat_alt)

lemma u64_le_iff [ubft_word]: "(a :: u64) \<le> b \<longleftrightarrow> unat a \<le> unat b"
  by (rule word_le_nat_alt)

lemma u64_eq_iff: "(a :: u64) = b \<longleftrightarrow> unat a = unat b"
  by (metis unsigned_word_eqI)

lemma unat_add_no_wrap:
  "unat a + unat b < 2 ^ LENGTH('n) \<Longrightarrow> unat (a + b) = unat a + unat (b :: 'n::len word)"
  by (simp add: unat_word_ariths)

lemma unat_u64_add:
  "unat a + unat b < 18446744073709551616 \<Longrightarrow> unat (a + b :: u64) = unat a + unat b"
  using unat_add_no_wrap [of a b] by simp

lemma unat_u64_Suc:
  "unat a + 1 < 18446744073709551616 \<Longrightarrow> unat (a + 1 :: u64) = unat a + 1"
  using unat_u64_add [of a 1] by simp

lemma unat_u64_of_nat: "n < 18446744073709551616 \<Longrightarrow> unat (of_nat n :: u64) = n"
  by (simp add: unsigned_of_nat take_bit_nat_eq_self)

section \<open>Indices into vectors\<close>

text \<open>
  \<open>uat\<close> of \<open>ubft/src/unsafe-at.hpp\<close> on a vector: \<open>operator[]\<close> under \<open>NDEBUG\<close>, so an
  index out of range is undefined behaviour and not an exception.
\<close>

definition uat :: "'a list \<Rightarrow> nat \<Rightarrow> 'a result" where
  "uat xs i = (if i < length xs then Inr (xs ! i) else Inl Undefined_behaviour)"

lemma uat_simps [simp]: "i < length xs \<Longrightarrow> uat xs i = Inr (xs ! i)"
  by (simp add: uat_def)

lemma uat_Inr_iff: "uat xs i = Inr x \<longleftrightarrow> i < length xs \<and> x = xs ! i"
  by (auto simp: uat_def)

section \<open>Association lists in key order\<close>

text \<open>
  A \<open>std::map\<close> is the list of its entries in increasing key order. \<open>alist_insert\<close> is
  \<open>try_emplace\<close> (an existing entry stays), \<open>alist_set\<close> is \<open>operator[]\<close> followed by an
  assignment, \<open>alist_erase\<close> is \<open>erase\<close> of a key.
\<close>

fun alist_insert :: "'k::linorder \<Rightarrow> 'v \<Rightarrow> ('k \<times> 'v) list \<Rightarrow> ('k \<times> 'v) list" where
  "alist_insert k v [] = [(k, v)]"
| "alist_insert k v ((a, b) # ps) =
     (if k < a then (k, v) # (a, b) # ps
      else if k = a then (a, b) # ps else (a, b) # alist_insert k v ps)"

fun alist_set :: "'k::linorder \<Rightarrow> 'v \<Rightarrow> ('k \<times> 'v) list \<Rightarrow> ('k \<times> 'v) list" where
  "alist_set k v [] = [(k, v)]"
| "alist_set k v ((a, b) # ps) =
     (if k < a then (k, v) # (a, b) # ps
      else if k = a then (k, v) # ps else (a, b) # alist_set k v ps)"

definition alist_erase :: "'k \<Rightarrow> ('k \<times> 'v) list \<Rightarrow> ('k \<times> 'v) list" where
  "alist_erase k = filter (\<lambda>p. fst p \<noteq> k)"

abbreviation sorted_keys :: "('k::linorder \<times> 'v) list \<Rightarrow> bool" where
  "sorted_keys es \<equiv> sorted_wrt (<) (map fst es)"

lemma sorted_keys_distinct: "sorted_keys es \<Longrightarrow> distinct (map fst es)"
  by (simp add: strict_sorted_iff)

lemma map_of_notin: "k \<notin> fst ` set es \<Longrightarrow> map_of es k = None"
  by (simp add: map_of_eq_None_iff)

lemma map_of_None_below: "sorted_keys ((a, b) # ps) \<Longrightarrow> k < a \<Longrightarrow> map_of ps k = None"
  by (auto simp: map_of_eq_None_iff)

lemma set_alist_insert: "fst ` set (alist_insert k v ps) = insert k (fst ` set ps)"
  by (induction k v ps rule: alist_insert.induct) auto

lemma set_alist_set: "fst ` set (alist_set k v ps) = insert k (fst ` set ps)"
  by (induction k v ps rule: alist_set.induct) auto

lemma sorted_alist_insert: "sorted_keys ps \<Longrightarrow> sorted_keys (alist_insert k v ps)"
  by (induction k v ps rule: alist_insert.induct) (auto simp: set_alist_insert)

lemma sorted_alist_set: "sorted_keys ps \<Longrightarrow> sorted_keys (alist_set k v ps)"
  by (induction k v ps rule: alist_set.induct) (auto simp: set_alist_set)

lemma sorted_alist_erase: "sorted_keys ps \<Longrightarrow> sorted_keys (alist_erase k ps)"
  unfolding alist_erase_def by (induction ps) auto

lemma map_of_alist_insert:
  "sorted_keys ps \<Longrightarrow>
   map_of (alist_insert k v ps) = (if map_of ps k = None then (map_of ps)(k \<mapsto> v) else map_of ps)"
proof (induction k v ps rule: alist_insert.induct)
  case (2 k v a b ps)
  have "k < a \<Longrightarrow> map_of ps k = None"
    using "2.prems" by (intro map_of_None_below [of a b]) simp_all
  with 2 show ?case by (auto simp: fun_eq_iff split: if_splits)
qed auto

lemma map_of_alist_set: "sorted_keys ps \<Longrightarrow> map_of (alist_set k v ps) = (map_of ps)(k \<mapsto> v)"
  by (induction k v ps rule: alist_set.induct) (auto simp: fun_eq_iff)

lemma map_of_alist_erase: "map_of (alist_erase k ps) = (map_of ps)(k := None)"
  unfolding alist_erase_def by (induction ps) (auto simp: fun_eq_iff)

lemmas sorted_alist = sorted_alist_insert sorted_alist_set sorted_alist_erase
lemmas map_of_alist = map_of_alist_insert map_of_alist_set map_of_alist_erase

lemma map_of_filter_fst:
  "map_of (filter (\<lambda>p. P (fst p)) es) k = (if P k then map_of es k else None)"
  by (induction es) auto

lemma map_of_append_last:
  "k \<notin> fst ` set es \<Longrightarrow> map_of (es @ [(k, v)]) = (map_of es)(k \<mapsto> v)"
  by (auto simp: fun_eq_iff map_add_def map_of_notin split: option.splits)

section \<open>Queues\<close>

text \<open>Push to a queue that drops its oldest element beyond a bound.\<close>

definition push_bounded :: "u64 \<Rightarrow> 'a \<Rightarrow> 'a list \<Rightarrow> 'a list" where
  "push_bounded bound x xs = (let ys = xs @ [x] in if unat bound < length ys then tl ys else ys)"

definition remove_nth :: "nat \<Rightarrow> 'a list \<Rightarrow> 'a list" where
  "remove_nth i xs = take i xs @ drop (Suc i) xs"

lemma set_push_bounded: "set (push_bounded b x xs) \<subseteq> insert x (set xs)"
proof -
  have "set (tl ys) \<subseteq> set ys" for ys :: "'a list" by (cases ys) auto
  from this [of "xs @ [x]"] show ?thesis unfolding push_bounded_def Let_def by auto
qed

lemma set_remove_nth: "set (remove_nth i xs) \<subseteq> set xs"
  unfolding remove_nth_def by (auto dest: in_set_takeD in_set_dropD)

end
