(* ===== verification/Bytes.thy ===== *)
theory Bytes
  imports Ubft_Prelude
begin

text \<open>
  Raw memory as the program reads it through \<open>reinterpret_cast\<close>: a list of bytes, with
  little-endian integers at fixed offsets (the struct layouts of x86-64). A read or write that
  leaves the bytes there are is undefined behaviour. \<open>rd64\<close> and \<open>wr64\<close> are the accesses to
  \<open>uint64_t\<close>/\<open>size_t\<close> fields, \<open>rd32\<close> and \<open>wr32\<close> those to the \<open>int\<close> of a \<open>ProcId\<close>,
  \<open>slice\<close> and \<open>wr_bytes\<close> the two sides of \<open>std::copy\<close>.
\<close>

type_synonym bytes = "byte list"

primrec le_bytes :: "nat \<Rightarrow> nat \<Rightarrow> bytes" where
  "le_bytes 0 x = []"
| "le_bytes (Suc n) x = of_nat (x mod 256) # le_bytes n (x div 256)"

fun le_nat :: "bytes \<Rightarrow> nat" where
  "le_nat [] = 0"
| "le_nat (b # bs) = unat b + 256 * le_nat bs"

definition le64 :: "u64 \<Rightarrow> bytes" where
  "le64 w = le_bytes 8 (unat w)"

definition un64 :: "bytes \<Rightarrow> u64" where
  "un64 bs = of_nat (le_nat bs)"

definition le32 :: "proc_id \<Rightarrow> bytes" where
  "le32 i = le_bytes 4 (nat (i mod 4294967296))"

text \<open>Two's complement.\<close>

definition un32 :: "bytes \<Rightarrow> proc_id" where
  "un32 bs = (let n = int (le_nat bs) in if n < 2147483648 then n else n - 4294967296)"

definition proc_ok :: "proc_id \<Rightarrow> bool" where
  "proc_ok i \<longleftrightarrow> - 2147483648 \<le> i \<and> i < 2147483648"

definition slice :: "bytes \<Rightarrow> nat \<Rightarrow> nat \<Rightarrow> bytes result" where
  "slice bs off n = (if off + n \<le> length bs then Inr (take n (drop off bs)) else Inl Undefined_behaviour)"

definition wr_bytes :: "bytes \<Rightarrow> nat \<Rightarrow> bytes \<Rightarrow> bytes result" where
  "wr_bytes bs off xs =
     (if off + length xs \<le> length bs then Inr (take off bs @ xs @ drop (off + length xs) bs)
      else Inl Undefined_behaviour)"

definition rd64 :: "bytes \<Rightarrow> nat \<Rightarrow> u64 result" where
  "rd64 bs off = rbind (slice bs off 8) (\<lambda>f. Inr (un64 f))"

definition rd32 :: "bytes \<Rightarrow> nat \<Rightarrow> proc_id result" where
  "rd32 bs off = rbind (slice bs off 4) (\<lambda>f. Inr (un32 f))"

definition wr64 :: "bytes \<Rightarrow> nat \<Rightarrow> u64 \<Rightarrow> bytes result" where
  "wr64 bs off w = wr_bytes bs off (le64 w)"

definition wr32 :: "bytes \<Rightarrow> nat \<Rightarrow> proc_id \<Rightarrow> bytes result" where
  "wr32 bs off i = wr_bytes bs off (le32 i)"

section \<open>Little-endian round trips\<close>

lemma length_le_bytes [simp]: "length (le_bytes n x) = n"
  by (induction n arbitrary: x) simp_all

lemma length_le64 [simp]: "length (le64 w) = 8"
  by (simp add: le64_def)

lemma length_le32 [simp]: "length (le32 w) = 4"
  by (simp add: le32_def)

lemma le_nat_le_bytes: "le_nat (le_bytes n x) = x mod 256 ^ n"
proof (induction n arbitrary: x)
  case (Suc n)
  have "unat (of_nat (x mod 256) :: byte) = x mod 256"
    by (simp add: unsigned_of_nat take_bit_nat_eq_self)
  with Suc show ?case by (simp add: mod_mult2_eq)
qed simp

lemma le_nat_less: "le_nat bs < 256 ^ length bs"
proof (induction bs)
  case (Cons b bs)
  have "unat b < 256" using unsigned_less [of b] by simp
  with Cons show ?case by simp
qed simp

lemma le_bytes_le_nat: "le_bytes (length bs) (le_nat bs) = bs"
proof (induction bs)
  case (Cons b bs)
  have "unat b < 256" using unsigned_less [of b] by simp
  with Cons show ?case by simp
qed simp

lemma un64_le64 [simp]: "un64 (le64 w) = w"
  by (simp add: un64_def le64_def le_nat_le_bytes)

lemma le64_un64: "length bs = 8 \<Longrightarrow> le64 (un64 bs) = bs"
proof -
  assume l: "length bs = 8"
  have "le_nat bs < 18446744073709551616" using le_nat_less [of bs] l by simp
  then have "unat (un64 bs) = le_nat bs" by (simp add: un64_def unat_u64_of_nat)
  then show ?thesis using le_bytes_le_nat [of bs] l by (simp add: le64_def)
qed

lemma le64_inj: "le64 a = le64 b \<longleftrightarrow> a = b"
  by (metis un64_le64)

lemma un32_le32 [simp]: "proc_ok i \<Longrightarrow> un32 (le32 i) = i"
proof -
  assume ok: "proc_ok i"
  have n: "le_nat (le32 i) = nat (i mod 4294967296)"
  proof -
    have "nat (i mod 4294967296) < 4294967296" by simp
    then show ?thesis by (simp add: le32_def le_nat_le_bytes)
  qed
  show ?thesis
  proof (cases "0 \<le> i")
    case True
    with ok have "i mod 4294967296 = i" by (simp add: proc_ok_def)
    with True ok n show ?thesis by (simp add: un32_def proc_ok_def Let_def)
  next
    case False
    have "(i + 4294967296) mod 4294967296 = i + 4294967296"
      using False ok by (intro mod_pos_pos_trivial) (simp_all add: proc_ok_def)
    then have "i mod 4294967296 = i + 4294967296" by simp
    with False ok n show ?thesis by (simp add: un32_def proc_ok_def Let_def)
  qed
qed

lemma un32_bytes:
  assumes "length bs = 4"
  shows un32_proc_ok: "proc_ok (un32 bs)" and le32_un32: "le32 (un32 bs) = bs"
proof -
  have n: "le_nat bs < 4294967296" using le_nat_less [of bs] assms by simp
  then show "proc_ok (un32 bs)" by (auto simp: proc_ok_def un32_def Let_def)
  have "nat (un32 bs mod 4294967296) = le_nat bs"
  proof (cases "le_nat bs < 2147483648")
    case True
    then show ?thesis by (simp add: un32_def Let_def nat_mod_distrib)
  next
    case False
    have "(int (le_nat bs) - 4294967296) mod 4294967296 = int (le_nat bs) mod 4294967296"
      by (metis minus_mod_self2)
    with False n show ?thesis by (simp add: un32_def Let_def)
  qed
  then show "le32 (un32 bs) = bs" using le_bytes_le_nat [of bs] assms by (simp add: le32_def)
qed

section \<open>Reading what was laid out\<close>

lemma slice_append_mid:
  "length xs = off \<Longrightarrow> length ys = n \<Longrightarrow> slice (xs @ ys @ zs) off n = Inr ys"
  by (simp add: slice_def)

lemma slice_append_skip:
  "length xs \<le> off \<Longrightarrow> slice (xs @ ys) off n = slice ys (off - length xs) n"
  by (auto simp: slice_def)

lemma slice_prefix: "length ys = n \<Longrightarrow> slice (ys @ zs) 0 n = Inr ys"
  by (simp add: slice_def)

lemma slice_all: "length ys = n \<Longrightarrow> slice ys 0 n = Inr ys"
  by (simp add: slice_def)

lemma slice_Inr_length: "slice bs off n = Inr xs \<Longrightarrow> length xs = n \<and> off + n \<le> length bs"
  by (auto simp: slice_def split: if_splits)

lemma slice_zero: "off \<le> length bs \<Longrightarrow> slice bs off 0 = Inr []"
  by (simp add: slice_def)

lemma length_wr_bytes: "wr_bytes bs off xs = Inr bs' \<Longrightarrow> length bs' = length bs"
  by (auto simp: wr_bytes_def split: if_splits)

lemma slice_wr_bytes: "wr_bytes bs off xs = Inr bs' \<Longrightarrow> slice bs' off (length xs) = Inr xs"
  by (auto simp: wr_bytes_def slice_def split: if_splits)

lemma wr_bytes_append:
  "length ys = length xs \<Longrightarrow> wr_bytes (as @ ys @ zs) (length as) xs = Inr (as @ xs @ zs)"
  by (simp add: wr_bytes_def)

lemma take_drop_nth_eq:
  "(\<And>i. i < n \<Longrightarrow> xs ! (off + i) = ys ! (off + i)) \<Longrightarrow> off + n \<le> length xs \<Longrightarrow> off + n \<le> length ys \<Longrightarrow>
   take n (drop off xs) = take n (drop off ys)"
  by (rule nth_equalityI) simp_all

text \<open>Writes elsewhere do not change what a field holds.\<close>

lemma slice_wr_other:
  assumes "wr_bytes bs off xs = Inr bs'" "o2 + n \<le> off \<or> off + length xs \<le> o2"
  shows "slice bs' o2 n = slice bs o2 n"
proof -
  have w: "off + length xs \<le> length bs" "bs' = take off bs @ xs @ drop (off + length xs) bs"
    using assms(1) by (simp_all add: wr_bytes_def split: if_splits)
  have len: "length bs' = length bs" using w by simp
  have "bs' ! (o2 + i) = bs ! (o2 + i)" if "i < n" "o2 + n \<le> length bs" for i
    using assms(2) that w by (auto simp: nth_append)
  then show ?thesis using take_drop_nth_eq [of n bs' o2 bs] len by (auto simp: slice_def)
qed

lemma rd64_le64:
  "rd64 (le64 w @ zs) 0 = Inr w"
  "length xs = off \<Longrightarrow> rd64 (xs @ le64 w @ zs) off = Inr w"
  by (simp_all add: rd64_def slice_def)

lemma rd64_skip: "length xs \<le> off \<Longrightarrow> rd64 (xs @ ys) off = rd64 ys (off - length xs)"
  by (simp add: rd64_def slice_append_skip)

lemma rd32_skip: "length xs \<le> off \<Longrightarrow> rd32 (xs @ ys) off = rd32 ys (off - length xs)"
  by (simp add: rd32_def slice_append_skip)

lemma rd32_le32: "proc_ok i \<Longrightarrow> rd32 (le32 i @ zs) 0 = Inr i"
  by (simp add: rd32_def slice_def)

lemma rd64_wr64: "wr64 bs off w = Inr bs' \<Longrightarrow> rd64 bs' off = Inr w"
  unfolding wr64_def by (drule slice_wr_bytes) (simp add: rd64_def)

lemma rd64_wr_other:
  "wr_bytes bs off xs = Inr bs' \<Longrightarrow> o2 + 8 \<le> off \<or> off + length xs \<le> o2 \<Longrightarrow> rd64 bs' o2 = rd64 bs o2"
  by (simp add: rd64_def slice_wr_other)

lemma rd64_Inr_iff: "(\<exists>w. rd64 bs off = Inr w) \<longleftrightarrow> off + 8 \<le> length bs"
  by (auto simp: rd64_def slice_def)

lemmas bytes_read = slice_append_skip slice_prefix slice_all rd64_le64 rd64_skip rd32_skip rd32_le32

end
