(* ===== verification/Wire.thy ===== *)
theory Wire
  imports Bytes
begin

text \<open>
  The messages that carry signatures: \<open>certifier::Certificate\<close>
  (\<open>ubft/src/certifier/certificate.hpp\<close>), the certifier's \<open>ShareMessage\<close>
  (\<open>certifier/internal/share-message.hpp\<close>) and the two messages of the broadcast
  (\<open>tail-cb/message.hpp\<close>, \<open>tail-cb/internal/signature-message.hpp\<close>).

  The code keeps the raw buffer and reads fields through \<open>reinterpret_cast\<close>; the model parses
  it into a record whose selectors are those accessors, and the parse runs into
  \<open>Undefined_behaviour\<close> where an accessor would leave the buffer. \<open>cert_bytes\<close> is the buffer
  the constructor fills in.
\<close>

section \<open>Certificates\<close>

type_synonym signature = bytes

record certificate =
  cert_identifier :: u64
  cert_index :: u64
  cert_shares :: "(proc_id \<times> signature) list"
  cert_message :: bytes

text \<open>\<open>sizeof(Header)\<close>, \<open>sizeof(Share)\<close>, \<open>sizeof(Crypto::Signature)\<close>.\<close>

definition CertHeader :: nat where
  "CertHeader = 24"

definition SignatureLength :: nat where
  "SignatureLength = 64"

definition ShareSize :: nat where
  "ShareSize = 4 + SignatureLength"

text \<open>\<open>bufferSize\<close> multiplies and adds \<open>size_t\<close>: it wraps.\<close>

definition cert_buffer_size :: "u64 \<Rightarrow> u64 \<Rightarrow> u64" where
  "cert_buffer_size msg_size nb_shares =
     of_nat CertHeader + nb_shares * of_nat ShareSize + msg_size"

definition cert_nb_shares :: "certificate \<Rightarrow> u64" where
  "cert_nb_shares c = of_nat (length (cert_shares c))"

definition share_bytes :: "proc_id \<times> signature \<Rightarrow> bytes" where
  "share_bytes s = le32 (fst s) @ snd s"

definition cert_bytes :: "certificate \<Rightarrow> bytes" where
  "cert_bytes c =
     le64 (cert_identifier c) @ le64 (cert_index c) @ le64 (cert_nb_shares c) @
     concat (map share_bytes (cert_shares c)) @ cert_message c"

text \<open>The constructor from signatures and a message.\<close>

definition cert_build ::
  "u64 \<Rightarrow> u64 \<Rightarrow> (proc_id \<times> signature) list \<Rightarrow> bytes \<Rightarrow> certificate" where
  "cert_build identifier idx signatures msg =
     \<lparr>cert_identifier = identifier, cert_index = idx, cert_shares = signatures, cert_message = msg\<rparr>"

text \<open>\<open>tryFrom\<close> checks sizes only; the buffer is kept as it is.\<close>

definition cert_try_from :: "bytes \<Rightarrow> (string + bytes) result" where
  "cert_try_from bs =
     (let n = of_nat (length bs) :: u64 in
      if n < of_nat CertHeader then Inr (Inl ''Buffer is smaller than Header.'')
      else rbind (rd64 bs 16) (\<lambda>nb.
        if n < cert_buffer_size 0 nb then Inr (Inl ''Buffer too small to hold shares.'')
        else Inr (Inr bs)))"

primrec rd_shares :: "bytes \<Rightarrow> nat \<Rightarrow> nat \<Rightarrow> (proc_id \<times> signature) list result" where
  "rd_shares bs 0 off = Inr []"
| "rd_shares bs (Suc n) off =
     rbind (rd32 bs off) (\<lambda>p.
     rbind (slice bs (off + 4) SignatureLength) (\<lambda>sig.
     rbind (rd_shares bs n (off + ShareSize)) (\<lambda>ss. Inr ((p, sig) # ss))))"

text \<open>What the accessors of an accepted buffer return.\<close>

definition cert_parse :: "bytes \<Rightarrow> certificate result" where
  "cert_parse bs =
     rbind (rd64 bs 0) (\<lambda>identifier.
     rbind (rd64 bs 8) (\<lambda>idx.
     rbind (rd64 bs 16) (\<lambda>nb.
     rbind (rd_shares bs (unat nb) CertHeader) (\<lambda>shares.
     rbind (slice bs (CertHeader + unat nb * ShareSize)
              (unat (of_nat (length bs) - cert_buffer_size 0 nb))) (\<lambda>msg.
     Inr \<lparr>cert_identifier = identifier, cert_index = idx, cert_shares = shares,
          cert_message = msg\<rparr>)))))"

text \<open>Certificates a buffer can hold.\<close>

definition cert_ok :: "certificate \<Rightarrow> bool" where
  "cert_ok c \<longleftrightarrow>
     (\<forall>s \<in> set (cert_shares c). proc_ok (fst s) \<and> length (snd s) = SignatureLength) \<and>
     CertHeader + length (cert_shares c) * ShareSize + length (cert_message c) < 18446744073709551616"

lemma length_shares_bytes:
  "\<forall>s \<in> set ss. length (snd s) = SignatureLength \<Longrightarrow>
   length (concat (map share_bytes ss)) = length ss * ShareSize"
  by (induction ss) (simp_all add: share_bytes_def ShareSize_def)

lemma length_cert_bytes:
  "cert_ok c \<Longrightarrow> length (cert_bytes c) = CertHeader + length (cert_shares c) * ShareSize + length (cert_message c)"
  by (simp add: cert_bytes_def cert_ok_def length_shares_bytes CertHeader_def)

lemma unat_cert_nb_shares:
  "cert_ok c \<Longrightarrow> unat (cert_nb_shares c) = length (cert_shares c)"
proof -
  assume "cert_ok c"
  then have "CertHeader + length (cert_shares c) * ShareSize + length (cert_message c) < 18446744073709551616"
    by (simp add: cert_ok_def)
  then have "length (cert_shares c) < 18446744073709551616" by (simp add: ShareSize_def SignatureLength_def)
  then show ?thesis by (simp add: cert_nb_shares_def unat_u64_of_nat)
qed

lemma unat_length_cert_bytes:
  "cert_ok c \<Longrightarrow> unat (of_nat (length (cert_bytes c)) :: u64) = length (cert_bytes c)"
  by (rule unat_u64_of_nat) (simp add: length_cert_bytes, simp add: cert_ok_def)

lemma unat_cert_buffer_size:
  "CertHeader + unat nb * ShareSize + unat n < 18446744073709551616 \<Longrightarrow>
   unat (cert_buffer_size n nb) = CertHeader + unat nb * ShareSize + unat n"
  by (simp add: cert_buffer_size_def unat_word_ariths CertHeader_def ShareSize_def SignatureLength_def
      mod_simps)

lemma unat_cert_shares_size:
  assumes "cert_ok c"
  shows "unat (cert_buffer_size 0 (cert_nb_shares c)) = CertHeader + length (cert_shares c) * ShareSize"
  using assms unat_cert_nb_shares [OF assms] by (subst unat_cert_buffer_size) (auto simp: cert_ok_def)

lemma rd_shares_bytes:
  "\<forall>s \<in> set ss. proc_ok (fst s) \<and> length (snd s) = SignatureLength \<Longrightarrow>
   rd_shares (xs @ concat (map share_bytes ss) @ ys) (length ss) (length xs) = Inr ss"
proof (induction ss arbitrary: xs)
  case (Cons s ss)
  obtain p sig where s: "s = (p, sig)" by fastforce
  have sig: "length sig = SignatureLength" "proc_ok p" using Cons.prems s by auto
  let ?rest = "concat (map share_bytes ss) @ ys"
  have "rd32 (xs @ le32 p @ sig @ ?rest) (length xs) = Inr p"
    using sig by (simp add: rd32_skip rd32_le32)
  moreover have "slice (xs @ le32 p @ sig @ ?rest) (length xs + 4) SignatureLength = Inr sig"
    using sig slice_append_mid [of "xs @ le32 p" "length xs + 4" sig SignatureLength ?rest] by simp
  moreover have "rd_shares (xs @ le32 p @ sig @ ?rest) (length ss) (length xs + ShareSize) = Inr ss"
    using Cons.IH [of "xs @ le32 p @ sig"] Cons.prems sig by (simp add: ShareSize_def add.assoc)
  moreover have "concat (map share_bytes (s # ss)) @ ys = le32 p @ sig @ ?rest"
    using s by (simp add: share_bytes_def)
  ultimately show ?case using s by simp
qed simp

lemma cert_parse_bytes:
  assumes "cert_ok c"
  shows "cert_parse (cert_bytes c) = Inr c"
proof -
  let ?ss = "concat (map share_bytes (cert_shares c))"
  let ?nb = "unat (cert_nb_shares c)"
  have nb: "?nb = length (cert_shares c)" using assms by (rule unat_cert_nb_shares)
  have hd: "rd64 (cert_bytes c) 0 = Inr (cert_identifier c)" "rd64 (cert_bytes c) 8 = Inr (cert_index c)"
    "rd64 (cert_bytes c) 16 = Inr (cert_nb_shares c)"
    by (simp_all add: cert_bytes_def bytes_read)
  have sh: "rd_shares (cert_bytes c) ?nb CertHeader = Inr (cert_shares c)"
    using rd_shares_bytes [of "cert_shares c"
      "le64 (cert_identifier c) @ le64 (cert_index c) @ le64 (cert_nb_shares c)" "cert_message c"] assms
    by (simp add: cert_bytes_def cert_ok_def CertHeader_def nb)
  have len: "length ?ss = length (cert_shares c) * ShareSize"
    using assms by (intro length_shares_bytes) (simp add: cert_ok_def)
  have le: "cert_buffer_size 0 (cert_nb_shares c) \<le> of_nat (length (cert_bytes c))"
    unfolding u64_le_iff unat_length_cert_bytes [OF assms] unat_cert_shares_size [OF assms]
    by (simp add: length_cert_bytes [OF assms])
  have msg: "unat (of_nat (length (cert_bytes c)) - cert_buffer_size 0 (cert_nb_shares c)) = length (cert_message c)"
    unfolding unat_sub [OF le] unat_length_cert_bytes [OF assms] unat_cert_shares_size [OF assms]
    by (simp add: length_cert_bytes [OF assms])
  have "slice (cert_bytes c) (CertHeader + ?nb * ShareSize) (length (cert_message c)) = Inr (cert_message c)"
    using len by (simp add: cert_bytes_def slice_append_skip slice_all CertHeader_def nb)
  with hd sh msg show ?thesis by (simp add: cert_parse_def)
qed

lemma cert_try_from_bytes:
  assumes "cert_ok c"
  shows "cert_try_from (cert_bytes c) = Inr (Inr (cert_bytes c))"
proof -
  have "rd64 (cert_bytes c) 16 = Inr (cert_nb_shares c)"
    by (simp add: cert_bytes_def bytes_read)
  moreover have "\<not> of_nat (length (cert_bytes c)) < cert_buffer_size 0 (cert_nb_shares c)"
    unfolding u64_less_iff unat_length_cert_bytes [OF assms] unat_cert_shares_size [OF assms]
    by (simp add: length_cert_bytes [OF assms])
  moreover have "\<not> of_nat (length (cert_bytes c)) < (of_nat CertHeader :: u64)"
    unfolding u64_less_iff unat_length_cert_bytes [OF assms]
    by (simp add: length_cert_bytes [OF assms] CertHeader_def)
  ultimately show ?thesis by (simp add: cert_try_from_def Let_def)
qed

lemma cert_bytes_inj:
  "cert_ok c \<Longrightarrow> cert_ok d \<Longrightarrow> cert_bytes c = cert_bytes d \<longleftrightarrow> c = d"
  by (metis cert_parse_bytes sum.inject(2))

text \<open>
  Conversely a buffer that parses is the encoding of what it parses to: there is no second
  spelling of a certificate, so equality of buffers is equality of certificates.
\<close>

lemma rd_shares_sound:
  "rd_shares bs n off = Inr ss \<Longrightarrow>
   length ss = n \<and> (\<forall>s \<in> set ss. proc_ok (fst s) \<and> length (snd s) = SignatureLength) \<and>
   (n = 0 \<or> off + n * ShareSize \<le> length bs) \<and>
   (off \<le> length bs \<longrightarrow> take off bs @ concat (map share_bytes ss) @ drop (off + n * ShareSize) bs = bs)"
proof (induction n arbitrary: off ss)
  case (Suc n)
  obtain p sig rest where r: "rd32 bs off = Inr p" "slice bs (off + 4) SignatureLength = Inr sig"
    "rd_shares bs n (off + ShareSize) = Inr rest" "ss = (p, sig) # rest"
    using Suc.prems by (auto simp: rbind_Inr_iff)
  have len: "off + ShareSize \<le> length bs" "length sig = SignatureLength"
    using slice_Inr_length [OF r(2)] by (simp_all add: ShareSize_def)
  have p: "p = un32 (take 4 (drop off bs))" using r(1) len
    by (simp add: rd32_def slice_def ShareSize_def)
  have f: "length (take 4 (drop off bs)) = 4" using len by (simp add: ShareSize_def)
  have sb: "share_bytes (p, sig) = take ShareSize (drop off bs)"
  proof -
    have "take ShareSize (drop off bs) = take 4 (drop off bs) @ take SignatureLength (drop 4 (drop off bs))"
      unfolding ShareSize_def by (rule take_add)
    also have "take SignatureLength (drop 4 (drop off bs)) = sig"
      using r(2) by (simp add: slice_def add.commute split: if_splits)
    finally show ?thesis using le32_un32 [OF f] unfolding p by (simp add: share_bytes_def)
  qed
  note IH = Suc.IH [OF r(3)]
  have "take (off + ShareSize) bs = take off bs @ share_bytes (p, sig)"
    unfolding sb by (rule take_add)
  with IH len have "take off bs @ concat (map share_bytes ss) @ drop (off + Suc n * ShareSize) bs = bs"
    unfolding r(4) by (simp add: add.assoc add.commute add.left_commute)
  with IH r(4) len un32_proc_ok [OF f] p show ?case by (auto simp: add.assoc)
qed (simp add: append_take_drop_id)

lemma cert_parse_sound:
  assumes "cert_parse bs = Inr c" "length bs < 18446744073709551616"
  shows "cert_ok c \<and> cert_bytes c = bs"
proof -
  obtain ident idx nb shares msg where r: "rd64 bs 0 = Inr ident" "rd64 bs 8 = Inr idx"
    "rd64 bs 16 = Inr nb" "rd_shares bs (unat nb) CertHeader = Inr shares"
    "slice bs (CertHeader + unat nb * ShareSize) (unat (of_nat (length bs) - cert_buffer_size 0 nb)) = Inr msg"
    "c = \<lparr>cert_identifier = ident, cert_index = idx, cert_shares = shares, cert_message = msg\<rparr>"
    using assms(1) by (auto simp: cert_parse_def rbind_Inr_iff)
  have hd: "24 \<le> length bs" using slice_Inr_length r(3) unfolding rd64_def rbind_Inr_iff by fastforce
  note sh = rd_shares_sound [OF r(4)]
  have fit: "CertHeader + unat nb * ShareSize \<le> length bs"
    using sh hd by (cases "unat nb = 0") (auto simp: CertHeader_def)
  have small: "unat (cert_buffer_size 0 nb) = CertHeader + unat nb * ShareSize"
    using fit assms(2) by (subst unat_cert_buffer_size) simp_all
  have n: "unat (of_nat (length bs) :: u64) = length bs" using assms(2) by (rule unat_u64_of_nat)
  have le: "cert_buffer_size 0 nb \<le> of_nat (length bs)" unfolding u64_le_iff n small by (rule fit)
  have "unat (of_nat (length bs) - cert_buffer_size 0 nb) = length bs - (CertHeader + unat nb * ShareSize)"
    unfolding unat_sub [OF le] n small ..
  with r(5) fit have msg: "msg = drop (CertHeader + unat nb * ShareSize) bs"
    by (simp add: slice_def)
  have f: "le64 ident = take 8 bs" "le64 idx = take 8 (drop 8 bs)" "le64 nb = take 8 (drop 16 bs)"
    using r(1-3) hd by (auto simp: rd64_def slice_def le64_un64)
  have "take CertHeader bs = le64 ident @ le64 idx @ le64 nb"
    using take_add [of 8 16 bs] take_add [of 8 8 "drop 8 bs"] unfolding f CertHeader_def by simp
  with sh msg fit r(6) hd have "cert_bytes c = bs"
    by (simp add: cert_bytes_def cert_nb_shares_def CertHeader_def)
  moreover have "cert_ok c"
    using sh msg fit r(6) assms(2) by (simp add: cert_ok_def)
  ultimately show ?thesis by simp
qed

text \<open>
  The size test of \<open>tryFrom\<close> multiplies in 64 bits. With \<open>2 ^ 62\<close> shares the product is a
  multiple of \<open>2 ^ 64\<close> and a bare header passes, although no share is there to read.
\<close>

lemma rd_shares_short: "0 < n \<Longrightarrow> length bs < off + 4 \<Longrightarrow> rd_shares bs n off = Inl Undefined_behaviour"
  by (cases n) (simp_all add: rd32_def slice_def)

lemma cert_try_from_wraps:
  fixes ident idx :: u64
  defines "bs \<equiv> le64 ident @ le64 idx @ le64 4611686018427387904"
  shows "cert_try_from bs = Inr (Inr bs) \<and> cert_parse bs = Inl Undefined_behaviour"
proof -
  have r: "rd64 bs 0 = Inr ident" "rd64 bs 8 = Inr idx" "rd64 bs 16 = Inr 4611686018427387904"
    using bytes_read(4) [of 4611686018427387904 "[]"] by (simp_all add: bs_def bytes_read)
  have "cert_buffer_size 0 4611686018427387904 = 24"
    by (simp add: cert_buffer_size_def CertHeader_def ShareSize_def SignatureLength_def)
  with r have "cert_try_from bs = Inr (Inr bs)"
    by (simp add: cert_try_from_def CertHeader_def bs_def)
  moreover have "rd_shares bs (unat (4611686018427387904 :: u64)) CertHeader = Inl Undefined_behaviour"
    by (rule rd_shares_short) (simp_all add: bs_def CertHeader_def)
  ultimately show ?thesis using r by (simp add: cert_parse_def)
qed

section \<open>Shares\<close>

record share_message =
  sm_index :: u64
  sm_signature :: signature

definition share_message_bytes :: "share_message \<Rightarrow> bytes" where
  "share_message_bytes s = le64 (sm_index s) @ sm_signature s"

definition share_try_from :: "bytes \<Rightarrow> (string + share_message) result" where
  "share_try_from bs =
     (if length bs \<noteq> 8 + SignatureLength then Inr (Inl ''Buffer is smaller than BufferSize.'')
      else rbind (rd64 bs 0) (\<lambda>idx. rbind (slice bs 8 SignatureLength) (\<lambda>sig.
           Inr (Inr \<lparr>sm_index = idx, sm_signature = sig\<rparr>))))"

lemma share_try_from_bytes:
  "length (sm_signature s) = SignatureLength \<Longrightarrow> share_try_from (share_message_bytes s) = Inr (Inr s)"
  by (simp add: share_try_from_def share_message_bytes_def bytes_read)

section \<open>Broadcast messages\<close>

text \<open>
  \<open>tail_cb::Message\<close> is an index and the bytes after it; \<open>internal::SignatureMessage\<close> has the
  layout of a share.
\<close>

record cb_message =
  cb_index :: u64
  cb_data :: bytes

definition cb_message_bytes :: "cb_message \<Rightarrow> bytes" where
  "cb_message_bytes m = le64 (cb_index m) @ cb_data m"

definition cb_try_from :: "bytes \<Rightarrow> (string + cb_message) result" where
  "cb_try_from bs =
     (if length bs < 8 then Inr (Inl ''Buffer is smaller than Header.'')
      else rbind (rd64 bs 0) (\<lambda>idx. Inr (Inr \<lparr>cb_index = idx, cb_data = drop 8 bs\<rparr>)))"

definition signature_try_from :: "bytes \<Rightarrow> (string + share_message) result" where
  "signature_try_from bs =
     (if length bs \<noteq> 8 + SignatureLength then Inr (Inl ''Buffer is not of size BufferSize.'')
      else rbind (rd64 bs 0) (\<lambda>idx. rbind (slice bs 8 SignatureLength) (\<lambda>sig.
           Inr (Inr \<lparr>sm_index = idx, sm_signature = sig\<rparr>))))"

lemma cb_try_from_bytes: "cb_try_from (cb_message_bytes m) = Inr (Inr m)"
  by (simp add: cb_try_from_def cb_message_bytes_def bytes_read)

end
