(* ===== verification/Buffers.thy ===== *)
theory Buffers
  imports Bytes
begin

text \<open>
  \<open>Buffer\<close> and \<open>Pool\<close> of \<open>ubft/src/buffer.hpp\<close>. A buffer is a vector that never grows past
  its first size and whose visible part may start at an offset; a buffer taken from a pool goes
  back to it, whole, when it is destroyed. \<open>AllowDelayedBufferAlloc\<close> is true, so an empty pool
  allocates instead of returning nothing.

  \<open>std::vector::resize\<close> with the default-initialising allocator leaves new bytes
  indeterminate: \<open>junk i\<close> is the value found in the \<open>i\<close>-th byte.
\<close>

record buffer =
  max_size :: u64
  dynarray :: bytes
  left_offset :: u64

record pool =
  pool_buffers :: "buffer list"
  pool_buffer_size :: u64

section \<open>Buffer\<close>

definition resize_vector :: "(nat \<Rightarrow> byte) \<Rightarrow> nat \<Rightarrow> bytes \<Rightarrow> bytes" where
  "resize_vector junk n bs = take n bs @ map junk [length bs ..< n]"

definition buffer_new :: "(nat \<Rightarrow> byte) \<Rightarrow> u64 \<Rightarrow> buffer" where
  "buffer_new junk n = \<lparr>max_size = n, dynarray = resize_vector junk (unat n) [], left_offset = 0\<rparr>"

text \<open>The bytes between \<open>cbegin()\<close> and \<open>cend()\<close>.\<close>

definition buffer_bytes :: "buffer \<Rightarrow> bytes" where
  "buffer_bytes b = drop (unat (left_offset b)) (dynarray b)"

definition buffer_size :: "buffer \<Rightarrow> u64" where
  "buffer_size b = of_nat (length (dynarray b)) - left_offset b"

definition buffer_resize :: "(nat \<Rightarrow> byte) \<Rightarrow> u64 \<Rightarrow> buffer \<Rightarrow> buffer result" where
  "buffer_resize junk n b =
     (if n + left_offset b > max_size b
      then Inl (Runtime_error ''Resize tried to reallocate beyond the initial size.'')
      else Inr (b\<lparr>dynarray := resize_vector junk (unat (n + left_offset b)) (dynarray b)\<rparr>))"

definition buffer_trim_left :: "u64 \<Rightarrow> buffer \<Rightarrow> buffer result" where
  "buffer_trim_left offset b =
     (if buffer_size b < offset then Inl (Runtime_error ''Trimming too much.'')
      else Inr (b\<lparr>left_offset := left_offset b + offset\<rparr>))"

text \<open>
  \<open>operator==\<close> is the three-argument \<open>std::equal\<close>: it compares as many bytes as the left
  operand has, and reads past the end of a shorter right operand.
\<close>

definition buffer_eq :: "buffer \<Rightarrow> buffer \<Rightarrow> bool result" where
  "buffer_eq a b =
     (let xs = buffer_bytes a; ys = buffer_bytes b in
      if take (length ys) xs \<noteq> take (length xs) ys then Inr False
      else if length xs \<le> length ys then Inr True else Inl Undefined_behaviour)"

section \<open>Pool\<close>

definition pool_new :: "(nat \<Rightarrow> byte) \<Rightarrow> u64 \<Rightarrow> u64 \<Rightarrow> pool" where
  "pool_new junk nb_buffers sz =
     \<lparr>pool_buffers = replicate (unat nb_buffers) (buffer_new junk sz), pool_buffer_size = sz\<rparr>"

definition pool_refill :: "(nat \<Rightarrow> byte) \<Rightarrow> pool \<Rightarrow> pool" where
  "pool_refill junk p =
     (if pool_buffers p = [] then p\<lparr>pool_buffers := [buffer_new junk (pool_buffer_size p)]\<rparr> else p)"

definition pool_take ::
  "(nat \<Rightarrow> byte) \<Rightarrow> u64 option \<Rightarrow> pool \<Rightarrow> (buffer option \<times> pool) result" where
  "pool_take junk opt_size p =
     (let p1 = pool_refill junk p;
          b = last (pool_buffers p1);
          p2 = p1\<lparr>pool_buffers := butlast (pool_buffers p1)\<rparr>
      in case opt_size of
           None \<Rightarrow> Inr (Some b, p2)
         | Some n \<Rightarrow> rbind (buffer_resize junk n b) (\<lambda>b'. Inr (Some b', p2)))"

definition pool_borrow_next :: "(nat \<Rightarrow> byte) \<Rightarrow> pool \<Rightarrow> buffer option \<times> pool" where
  "pool_borrow_next junk p = (let p1 = pool_refill junk p in (Some (last (pool_buffers p1)), p1))"

text \<open>The destructor of a buffer that has a home: reset the offset, grow back, push.\<close>

definition buffer_destroy :: "(nat \<Rightarrow> byte) \<Rightarrow> buffer \<Rightarrow> pool \<Rightarrow> pool result" where
  "buffer_destroy junk b p =
     rbind (buffer_resize junk (max_size b) (b\<lparr>left_offset := 0\<rparr>))
       (\<lambda>b'. Inr (p\<lparr>pool_buffers := pool_buffers p @ [b']\<rparr>))"

section \<open>Invariants\<close>

definition buffer_inv :: "buffer \<Rightarrow> bool" where
  "buffer_inv b \<longleftrightarrow> unat (left_offset b) \<le> length (dynarray b) \<and> length (dynarray b) \<le> unat (max_size b)"

text \<open>A buffer at home is whole and of the size of its pool.\<close>

definition pool_inv :: "pool \<Rightarrow> bool" where
  "pool_inv p \<longleftrightarrow> (\<forall>b \<in> set (pool_buffers p).
     max_size b = pool_buffer_size p \<and> left_offset b = 0 \<and> length (dynarray b) = unat (max_size b))"

lemma length_resize_vector [simp]: "length (resize_vector junk n bs) = n"
  by (simp add: resize_vector_def)

lemma take_resize_vector: "k \<le> n \<Longrightarrow> k \<le> length bs \<Longrightarrow> take k (resize_vector junk n bs) = take k bs"
  by (simp add: resize_vector_def min_absorb1)

lemma buffer_new_inv: "buffer_inv (buffer_new junk n)"
  by (simp add: buffer_inv_def buffer_new_def)

lemma buffer_size_bytes:
  assumes "buffer_inv b"
  shows "unat (buffer_size b) = length (buffer_bytes b)"
proof -
  have l: "length (dynarray b) < 18446744073709551616"
    using assms unat_u64_less [of "max_size b"] unfolding buffer_inv_def by linarith
  have "left_offset b \<le> of_nat (length (dynarray b))"
    using assms l by (simp add: u64_le_iff unat_u64_of_nat buffer_inv_def)
  with l show ?thesis by (simp add: buffer_size_def buffer_bytes_def unat_sub unat_u64_of_nat)
qed

lemma buffer_trim_left_result:
  assumes "buffer_inv b"
  shows "buffer_trim_left n b =
    (if length (buffer_bytes b) < unat n then Inl (Runtime_error ''Trimming too much.'')
     else Inr (b\<lparr>left_offset := left_offset b + n\<rparr>))"
  by (simp add: buffer_trim_left_def u64_less_iff buffer_size_bytes [OF assms])

lemma buffer_trim_left_bytes:
  assumes "buffer_inv b" "buffer_trim_left n b = Inr b'"
  shows "buffer_inv b' \<and> max_size b' = max_size b \<and> buffer_bytes b' = drop (unat n) (buffer_bytes b)"
proof -
  have b': "b' = b\<lparr>left_offset := left_offset b + n\<rparr>" and le: "unat n \<le> length (buffer_bytes b)"
    using assms by (auto simp: buffer_trim_left_result split: if_splits)
  have "unat (left_offset b) + unat n \<le> length (dynarray b)"
    using le assms(1) by (auto simp: buffer_bytes_def buffer_inv_def)
  moreover have "length (dynarray b) < 18446744073709551616"
    using assms(1) unat_u64_less [of "max_size b"] unfolding buffer_inv_def by linarith
  ultimately have "unat (left_offset b + n) = unat (left_offset b) + unat n"
    by (intro unat_u64_add) linarith
  with b' le assms(1) show ?thesis
    by (auto simp: buffer_inv_def buffer_bytes_def add.commute)
qed

text \<open>
  Without wrap-around of \<open>size + left_offset\<close> a resize gives a buffer of exactly that size
  that keeps the bytes there were.
\<close>

lemma buffer_resize_bytes:
  assumes "buffer_inv b" "unat n + unat (left_offset b) < 18446744073709551616"
  shows "if unat n + unat (left_offset b) \<le> unat (max_size b)
    then \<exists>b'. buffer_resize junk n b = Inr b' \<and> buffer_inv b' \<and> max_size b' = max_size b \<and>
      left_offset b' = left_offset b \<and> length (buffer_bytes b') = unat n \<and>
      take (min (unat n) (length (buffer_bytes b))) (buffer_bytes b') =
      take (unat n) (buffer_bytes b)
    else buffer_resize junk n b =
      Inl (Runtime_error ''Resize tried to reallocate beyond the initial size.'')"
proof -
  have s: "unat (n + left_offset b) = unat n + unat (left_offset b)"
    using assms(2) by (rule unat_u64_add)
  have "take (min (unat n) (length (buffer_bytes b)))
      (drop (unat (left_offset b)) (resize_vector junk (unat n + unat (left_offset b)) (dynarray b))) =
    take (unat n) (buffer_bytes b)"
    using assms(1) unfolding resize_vector_def buffer_bytes_def buffer_inv_def
    by (simp add: take_drop min_def)
  with s assms(1) show ?thesis
    by (auto simp: buffer_resize_def u64_less_iff buffer_inv_def buffer_bytes_def)
qed

lemma pool_new_inv: "pool_inv (pool_new junk n sz)"
  by (simp add: pool_inv_def pool_new_def buffer_new_def)

lemma pool_refill_inv: "pool_inv p \<Longrightarrow> pool_inv (pool_refill junk p) \<and> pool_buffers (pool_refill junk p) \<noteq> []"
  by (simp add: pool_inv_def pool_refill_def buffer_new_def)

lemma pool_refill_size [simp]: "pool_buffer_size (pool_refill junk p) = pool_buffer_size p"
  by (simp add: pool_refill_def)

lemma pool_take_result:
  assumes "pool_inv p"
  shows "if unat n \<le> unat (pool_buffer_size p)
    then \<exists>b p'. pool_take junk (Some n) p = Inr (Some b, p') \<and> pool_inv p' \<and>
      pool_buffer_size p' = pool_buffer_size p \<and> buffer_inv b \<and> max_size b = pool_buffer_size p \<and>
      length (buffer_bytes b) = unat n
    else pool_take junk (Some n) p =
      Inl (Runtime_error ''Resize tried to reallocate beyond the initial size.'')"
proof -
  let ?p1 = "pool_refill junk p"
  obtain b where l: "last (pool_buffers ?p1) = b" by blast
  have inv: "pool_inv ?p1" and ne: "pool_buffers ?p1 \<noteq> []" using pool_refill_inv [OF assms] by auto
  then have b: "max_size b = pool_buffer_size p" "left_offset b = 0"
    "length (dynarray b) = unat (pool_buffer_size p)"
    using last_in_set [OF ne] unfolding pool_inv_def l by auto
  have p2: "pool_inv (?p1\<lparr>pool_buffers := butlast (pool_buffers ?p1)\<rparr>)"
    using inv by (auto simp: pool_inv_def dest: in_set_butlastD)
  show ?thesis
  proof (cases "unat n \<le> unat (pool_buffer_size p)")
    case True
    then obtain b' where "buffer_resize junk n b = Inr b'" "buffer_inv b'" "max_size b' = pool_buffer_size p"
      "length (buffer_bytes b') = unat n"
      using buffer_resize_bytes [of b n junk] b by (auto simp: buffer_inv_def)
    with True p2 show ?thesis by (simp add: pool_take_def l Let_def)
  next
    case False
    then have "buffer_resize junk n b = Inl (Runtime_error ''Resize tried to reallocate beyond the initial size.'')"
      using b by (simp add: buffer_resize_def u64_less_iff)
    with False show ?thesis by (simp add: pool_take_def l Let_def)
  qed
qed

text \<open>What is taken and destroyed is back in the pool, whole.\<close>

lemma buffer_destroy_result:
  assumes "pool_inv p" "max_size b = pool_buffer_size p"
  shows "\<exists>p' b'. buffer_destroy junk b p = Inr p' \<and> pool_inv p' \<and> pool_buffers p' = pool_buffers p @ [b']"
  using assms by (auto simp: buffer_destroy_def buffer_resize_def pool_inv_def)

text \<open>A larger left operand with a smaller one as its prefix: the comparison reads out of bounds.\<close>

lemma buffer_eq_equal_length:
  assumes "length (buffer_bytes a) = length (buffer_bytes b)"
  shows "buffer_eq a b = Inr (buffer_bytes a = buffer_bytes b)"
  by (simp add: buffer_eq_def Let_def assms)

lemma buffer_eq_prefix:
  assumes "buffer_bytes b = buffer_bytes a @ ys"
  shows "buffer_eq a b = Inr True \<and> (ys \<noteq> [] \<longrightarrow> buffer_eq b a = Inl Undefined_behaviour)"
  by (simp add: buffer_eq_def Let_def assms)

end
