(* ===== verification/Dynamic_Bitset.thy ===== *)
theory Dynamic_Bitset
  imports Ubft_Prelude
begin

text \<open>
  \<open>DynamicBitset\<close> of \<open>shared/src/dynamic-bitset.hpp\<close>: at most eight flags with a running
  count, used for the promises of a certifier, the echoes of a broadcast message and the
  commits of a consensus instance. The invariant ties the count to the flags; \<open>full\<close> and
  \<open>majority\<close> are then statements about how many distinct indices were set.
\<close>

record dynamic_bitset =
  bits :: "bool list"
  bcapacity :: u64
  bsize :: u64

definition MaxCapacity :: nat where
  "MaxCapacity = 8"

definition bitset_new :: "u64 \<Rightarrow> dynamic_bitset result" where
  "bitset_new capacity =
     (if of_nat MaxCapacity < capacity then Inl (Invalid_argument ''Max capacity violated.'')
      else Inr \<lparr>bits = replicate MaxCapacity False, bcapacity = capacity, bsize = 0\<rparr>)"

text \<open>\<open>bits[index]\<close> on a \<open>std::array\<close> is not checked.\<close>

definition bitset_set :: "dynamic_bitset \<Rightarrow> nat \<Rightarrow> (dynamic_bitset \<times> bool) result" where
  "bitset_set b index =
     rbind (uat (bits b) index) (\<lambda>ref.
       if ref then Inr (b, False)
       else Inr (b\<lparr>bits := (bits b)[index := True], bsize := bsize b + 1\<rparr>, True))"

definition bitset_get :: "dynamic_bitset \<Rightarrow> nat \<Rightarrow> bool result" where
  "bitset_get b index = uat (bits b) index"

definition bitset_empty :: "dynamic_bitset \<Rightarrow> bool" where
  "bitset_empty b \<longleftrightarrow> bsize b = 0"

definition bitset_full :: "dynamic_bitset \<Rightarrow> bool" where
  "bitset_full b \<longleftrightarrow> bsize b = bcapacity b"

definition bitset_majority :: "dynamic_bitset \<Rightarrow> bool" where
  "bitset_majority b \<longleftrightarrow> bcapacity b div 2 + 1 \<le> bsize b"

text \<open>The indices that were set, and the invariant: the count is their number.\<close>

definition bitset_elems :: "dynamic_bitset \<Rightarrow> nat set" where
  "bitset_elems b = {i. i < length (bits b) \<and> bits b ! i}"

definition bitset_inv :: "dynamic_bitset \<Rightarrow> bool" where
  "bitset_inv b \<longleftrightarrow>
     length (bits b) = MaxCapacity \<and> unat (bcapacity b) \<le> MaxCapacity \<and>
     unat (bsize b) = card (bitset_elems b)"

lemma finite_bitset_elems [simp]: "finite (bitset_elems b)"
  by (simp add: bitset_elems_def)

lemma bitset_elems_subset: "bitset_inv b \<Longrightarrow> bitset_elems b \<subseteq> {..<MaxCapacity}"
  by (auto simp: bitset_elems_def bitset_inv_def)

lemma bitset_card_le: "bitset_inv b \<Longrightarrow> card (bitset_elems b) \<le> MaxCapacity"
  using card_mono [OF _ bitset_elems_subset] by fastforce

lemma bitset_new_inv: "bitset_new c = Inr b \<Longrightarrow> bitset_inv b \<and> bitset_elems b = {} \<and> bcapacity b = c"
  by (auto simp: bitset_new_def bitset_inv_def bitset_elems_def MaxCapacity_def ubft_word
      split: if_splits)

lemma bitset_set_result:
  assumes "bitset_inv b" "i < MaxCapacity"
  shows "\<exists>b'. bitset_set b i = Inr (b', i \<notin> bitset_elems b) \<and> bitset_inv b' \<and>
    bitset_elems b' = insert i (bitset_elems b) \<and> bcapacity b' = bcapacity b"
proof (cases "bits b ! i")
  case True
  with assms show ?thesis
    by (auto simp: bitset_set_def bitset_inv_def bitset_elems_def insert_absorb)
next
  case False
  let ?b = "b\<lparr>bits := (bits b)[i := True], bsize := bsize b + 1\<rparr>"
  have len: "length (bits b) = MaxCapacity" and sz: "unat (bsize b) = card (bitset_elems b)"
    using assms by (auto simp: bitset_inv_def)
  have el: "bitset_elems ?b = insert i (bitset_elems b)"
    using assms len by (auto simp: bitset_elems_def nth_list_update)
  have nin: "i \<notin> bitset_elems b" using False by (simp add: bitset_elems_def)
  have "unat (bsize b + 1) = card (insert i (bitset_elems b))"
    using nin sz bitset_card_le [OF assms(1)] by (subst unat_u64_Suc) (auto simp: MaxCapacity_def)
  with assms len el have "bitset_inv ?b" by (simp add: bitset_inv_def)
  with False assms len nin el show ?thesis by (auto simp: bitset_set_def)
qed

lemma bitset_get_result: "bitset_inv b \<Longrightarrow> i < MaxCapacity \<Longrightarrow> bitset_get b i = Inr (i \<in> bitset_elems b)"
  by (simp add: bitset_get_def bitset_elems_def bitset_inv_def)

text \<open>
  When only indices below the capacity are set, \<open>full\<close> says that each of them was, and
  \<open>majority\<close> that more than half of them were.
\<close>

lemma bitset_full_iff:
  assumes "bitset_inv b" "bitset_elems b \<subseteq> {..<unat (bcapacity b)}"
  shows "bitset_full b \<longleftrightarrow> bitset_elems b = {..<unat (bcapacity b)}"
proof -
  have "bitset_full b \<longleftrightarrow> card (bitset_elems b) = card {..<unat (bcapacity b)}"
    using assms(1) by (auto simp: bitset_full_def bitset_inv_def u64_eq_iff)
  also have "\<dots> \<longleftrightarrow> bitset_elems b = {..<unat (bcapacity b)}"
    using assms(2) by (metis card_subset_eq finite_lessThan)
  finally show ?thesis .
qed

lemma bitset_majority_iff:
  assumes "bitset_inv b"
  shows "bitset_majority b \<longleftrightarrow> unat (bcapacity b) < 2 * card (bitset_elems b)"
proof -
  have "unat (bcapacity b div 2 + 1) = unat (bcapacity b) div 2 + 1"
    using assms by (subst unat_u64_Suc) (auto simp: unat_div bitset_inv_def MaxCapacity_def)
  with assms show ?thesis
    by (auto simp: bitset_majority_def u64_le_iff bitset_inv_def)
qed

end
