(* ===== verification/Tail_Map.thy ===== *)
theory Tail_Map
  imports Ubft_Prelude
begin

text \<open>
  The bounded ordered maps of \<open>ubft/src/tail-map/\<close>: \<open>VectorTailMap\<close> (the one in use,
  \<open>TAIL_MAP_VECTOR_IMPL\<close> is true) and \<open>TreeTailMap\<close>, and the two searches of
  \<open>shared/src/optimistic-find.hpp\<close>. A \<open>VectorTailMap\<close> keeps its entries in a ring of
  \<open>tail\<close> slots, the slot of a key being the key modulo \<open>tail\<close>, linked in insertion order.
  Keys are \<open>uint64_t\<close>/\<open>size_t\<close> in every use of the program.

  \<open>tm_rep m es\<close> is the representation relation: \<open>m\<close> holds exactly the entries \<open>es\<close>, in
  increasing key order. The laws at the end, stated in the locales \<open>bounded_map\<close> and
  \<open>total_bounded_map\<close> and discharged for the two implementations, are what the components
  that own such a map rest on.
\<close>

section \<open>VectorTailMap\<close>

type_synonym 'v tm_nodes = "((u64 \<times> 'v) \<times> nat option) option list"

record 'v tail_map =
  tm_tail :: u64
  dyn_array :: "'v tm_nodes"
  tm_head :: "nat option"
  tm_back :: "nat option"
  tm_min :: u64

text \<open>An iterator is the optional index of a slot; \<open>end()\<close> is the empty one.\<close>

type_synonym tm_iterator = "nat option"

definition tm_new :: "u64 \<Rightarrow> 'v tail_map" where
  "tm_new tail = \<lparr>tm_tail = tail, dyn_array = replicate (unat tail) None,
     tm_head = None, tm_back = None, tm_min = 0\<rparr>"

text \<open>Dereferencing an iterator: the slot must exist and hold a node.\<close>

definition tm_node :: "'v tail_map \<Rightarrow> tm_iterator \<Rightarrow> ((u64 \<times> 'v) \<times> nat option) result" where
  "tm_node m it = (case it of None \<Rightarrow> Inl Undefined_behaviour
     | Some i \<Rightarrow> rbind (uat (dyn_array m) i)
         (\<lambda>opt. case opt of None \<Rightarrow> Inl Undefined_behaviour | Some n \<Rightarrow> Inr n))"

definition tm_deref :: "'v tail_map \<Rightarrow> tm_iterator \<Rightarrow> (u64 \<times> 'v) result" where
  "tm_deref m it = rbind (tm_node m it) (\<lambda>n. Inr (fst n))"

definition tm_next :: "'v tail_map \<Rightarrow> tm_iterator \<Rightarrow> tm_iterator result" where
  "tm_next m it = rbind (tm_node m it) (\<lambda>n. Inr (snd n))"

definition tm_set_next :: "'v tail_map \<Rightarrow> tm_iterator \<Rightarrow> tm_iterator \<Rightarrow> 'v tail_map result" where
  "tm_set_next m it nxt = rbind (tm_node m it)
     (\<lambda>n. Inr (m\<lparr>dyn_array := (dyn_array m)[the it := Some (fst n, nxt)]\<rparr>))"

definition tm_erase :: "'v tail_map \<Rightarrow> tm_iterator \<Rightarrow> 'v tail_map result" where
  "tm_erase m it = (case it of None \<Rightarrow> Inl Undefined_behaviour
     | Some i \<Rightarrow> rbind (uat (dyn_array m) i) (\<lambda>_. Inr (m\<lparr>dyn_array := (dyn_array m)[i := None]\<rparr>)))"

definition tm_begin :: "'v tail_map \<Rightarrow> tm_iterator" where
  "tm_begin m = tm_head m"

definition tm_rbegin :: "'v tail_map \<Rightarrow> tm_iterator" where
  "tm_rbegin m = tm_back m"

definition tm_end :: "'v tail_map \<Rightarrow> tm_iterator" where
  "tm_end m = None"

definition tm_empty :: "'v tail_map \<Rightarrow> bool" where
  "tm_empty m \<longleftrightarrow> tm_begin m = tm_end m"

definition tm_pop_front :: "'v tail_map \<Rightarrow> 'v tail_map result" where
  "tm_pop_front m =
     (if tm_empty m then Inl (Runtime_error ''Empty map while accessing front.'')
      else
        let m1 = (if tm_head m = tm_back m then m\<lparr>tm_back := None\<rparr> else m) in
        rbind (tm_next m1 (tm_begin m1)) (\<lambda>new_head.
        rbind (tm_erase m1 (tm_begin m1)) (\<lambda>m2.
        Inr (m2\<lparr>tm_head := new_head\<rparr>))))"

definition tm_front :: "'v tail_map \<Rightarrow> 'v result" where
  "tm_front m =
     (if tm_empty m then Inl (Runtime_error ''Empty map while accessing front.'')
      else rbind (tm_deref m (tm_begin m)) (\<lambda>e. Inr (snd e)))"

definition tm_slot :: "u64 \<Rightarrow> u64 \<Rightarrow> nat" where
  "tm_slot tail key = unat (key mod tail)"

text \<open>A modulo by zero is undefined.\<close>

definition tm_find :: "'v tail_map \<Rightarrow> u64 \<Rightarrow> tm_iterator result" where
  "tm_find m key =
     (if tm_tail m = 0 then Inl Undefined_behaviour
      else
        let index = tm_slot (tm_tail m) key in
        rbind (uat (dyn_array m) index) (\<lambda>opt.
          case opt of
            None \<Rightarrow> Inr (tm_end m)
          | Some n \<Rightarrow> if fst (fst n) = key then Inr (Some index) else Inr (tm_end m)))"

text \<open>Every turn of a popping loop empties a slot, so the loops end.\<close>

definition tm_used :: "'v tail_map \<Rightarrow> nat" where
  "tm_used m = length (filter (\<lambda>n. \<not> Option.is_none n) (dyn_array m))"

lemma length_filter_update_None:
  "i < length xs \<Longrightarrow> \<not> Option.is_none (xs ! i) \<Longrightarrow>
   length (filter (\<lambda>n. \<not> Option.is_none n) (xs[i := None])) < length (filter (\<lambda>n. \<not> Option.is_none n) xs)"
proof (induction xs arbitrary: i)
  case (Cons x xs)
  then show ?case by (cases i) (auto split: if_splits)
qed simp

lemma tm_pop_front_used: "tm_pop_front m = Inr m' \<Longrightarrow> tm_used m' < tm_used m"
  by (auto simp: tm_pop_front_def tm_used_def tm_next_def tm_node_def tm_erase_def tm_begin_def
      rbind_Inr_iff uat_Inr_iff Let_def intro!: length_filter_update_None
      split: option.splits if_splits)

function tm_drop_behind :: "u64 \<Rightarrow> 'v tail_map \<Rightarrow> 'v tail_map result" where
  "tm_drop_behind key m =
     (if tm_empty m then Inr m
      else case tm_deref m (tm_begin m) of
        Inl e \<Rightarrow> Inl e
      | Inr p \<Rightarrow>
          if fst p + tm_tail m \<le> key then
            (case tm_pop_front m of Inl e \<Rightarrow> Inl e | Inr m' \<Rightarrow> tm_drop_behind key m')
          else Inr m)"
  by pat_completeness auto
termination
  by (relation "measure (\<lambda>(_, m). tm_used m)") (auto simp: tm_pop_front_used)

declare tm_drop_behind.simps [simp del]

text \<open>The second half of \<open>tryEmplace\<close>: fill the key's slot and link it behind the last one.\<close>

definition tm_append ::
  "'v tail_map \<Rightarrow> u64 \<Rightarrow> 'v \<Rightarrow> ('v tail_map \<times> tm_iterator \<times> bool) result" where
  "tm_append m key v =
     (if tm_tail m = 0 then Inl Undefined_behaviour
      else
        let it = tm_slot (tm_tail m) key in
        rbind (uat (dyn_array m) it) (\<lambda>_.
          let m2 = m\<lparr>dyn_array := (dyn_array m)[it := Some ((key, v), None)]\<rparr> in
          rbind (if tm_empty m2 then Inr (m2\<lparr>tm_head := Some it\<rparr>)
                 else tm_set_next m2 (tm_rbegin m2) (Some it)) (\<lambda>m3.
          Inr (m3\<lparr>tm_back := Some it\<rparr>, Some it, True))))"

definition tm_try_emplace ::
  "'v tail_map \<Rightarrow> u64 \<Rightarrow> 'v \<Rightarrow> ('v tail_map \<times> tm_iterator \<times> bool) result" where
  "tm_try_emplace m key v =
     (if key < tm_min m then
        rbind (tm_find m key) (\<lambda>it.
          if it = tm_end m then Inl (Invalid_argument ''Tried to emplace a past element.'')
          else Inr (m, it, False))
      else
        rbind (tm_drop_behind key (m\<lparr>tm_min := key\<rparr>)) (\<lambda>m1. tm_append m1 key v))"

function tm_pop_all :: "'v tail_map \<Rightarrow> 'v tail_map result" where
  "tm_pop_all m =
     (if tm_begin m = tm_end m then Inr m
      else case tm_pop_front m of Inl e \<Rightarrow> Inl e | Inr m' \<Rightarrow> tm_pop_all m')"
  by pat_completeness auto
termination
  by (relation "measure tm_used") (auto simp: tm_pop_front_used)

declare tm_pop_all.simps [simp del]

definition tm_clear :: "'v tail_map \<Rightarrow> 'v tail_map result" where
  "tm_clear m = rbind (tm_pop_all m) (\<lambda>m1. Inr (m1\<lparr>tm_min := 0\<rparr>))"

text \<open>
  Iteration from an iterator to \<open>end()\<close>. The fuel counts visited nodes; \<open>tm_entries\<close> gives
  one more than there are slots, so it runs out only when a slot is visited twice, and then
  the loop of the source does not end (\<open>tm_collect_cycle\<close>).
\<close>

fun tm_collect :: "nat \<Rightarrow> 'v tail_map \<Rightarrow> tm_iterator \<Rightarrow> (u64 \<times> 'v) list result" where
  "tm_collect 0 m it = Inl Spins"
| "tm_collect (Suc n) m it =
     (if it = tm_end m then Inr []
      else rbind (tm_deref m it) (\<lambda>e. rbind (tm_next m it) (\<lambda>it'.
           rbind (tm_collect n m it') (\<lambda>es. Inr (e # es)))))"

definition tm_entries :: "'v tail_map \<Rightarrow> (u64 \<times> 'v) list result" where
  "tm_entries m = tm_collect (Suc (length (dyn_array m))) m (tm_begin m)"

definition tm_size :: "'v tail_map \<Rightarrow> nat result" where
  "tm_size m = rbind (tm_entries m) (\<lambda>es. Inr (length es))"

text \<open>Assignment to the value an iterator points to (\<open>it->second = v\<close>).\<close>

definition tm_assign :: "'v tail_map \<Rightarrow> tm_iterator \<Rightarrow> 'v \<Rightarrow> 'v tail_map result" where
  "tm_assign m it v = rbind (tm_node m it) (\<lambda>n.
     Inr (m\<lparr>dyn_array := (dyn_array m)[the it := Some ((fst (fst n), v), snd n)]\<rparr>))"

section \<open>The searches of optimistic-find.hpp\<close>

definition optimistic_find_front :: "'v tail_map \<Rightarrow> u64 \<Rightarrow> tm_iterator result" where
  "optimistic_find_front m key =
     (let b = tm_begin m in
      if b = tm_end m then tm_find m key
      else rbind (tm_deref m b) (\<lambda>e. if fst e = key then Inr b else tm_find m key))"

definition pessimistic_find :: "'v tail_map \<Rightarrow> u64 \<Rightarrow> tm_iterator result" where
  "pessimistic_find m key =
     (let b = tm_begin m in if b = tm_end m then Inr b else tm_find m key)"

text \<open>The value under a key, as the code reads it through an iterator it compared to \<open>end()\<close>.\<close>

definition tm_lookup :: "'v tail_map \<Rightarrow> u64 \<Rightarrow> 'v option result" where
  "tm_lookup m key = rbind (tm_find m key) (\<lambda>it.
     if it = tm_end m then Inr None else rbind (tm_deref m it) (\<lambda>e. Inr (Some (snd e))))"

section \<open>The representation relation\<close>

fun tm_chain :: "'v tm_nodes \<Rightarrow> u64 \<Rightarrow> (u64 \<times> 'v) list \<Rightarrow> bool" where
  "tm_chain a t [] = True"
| "tm_chain a t [e] = (a ! tm_slot t (fst e) = Some (e, None))"
| "tm_chain a t (e # f # es) =
     (a ! tm_slot t (fst e) = Some (e, Some (tm_slot t (fst f))) \<and> tm_chain a t (f # es))"

lemma tm_slot_less: "t \<noteq> 0 \<Longrightarrow> tm_slot t k < unat t"
  by (simp add: tm_slot_def unat_mod unat_gt_0)

lemma nat_mod_inj_window:
  fixes a b t :: nat
  assumes "a mod t = b mod t" "a \<le> b" "b < a + t"
  shows "a = b"
proof -
  have "b - a < t" using assms by linarith
  moreover have "t dvd b - a" using assms(1,2) mod_eq_dvd_iff_nat by metis
  ultimately show ?thesis using assms(2) by (auto dest: dvd_imp_le)
qed

lemma tm_slot_inj:
  assumes "tm_slot t a = tm_slot t b" "a \<le> b" "unat b < unat a + unat t"
  shows "a = b"
  using nat_mod_inj_window [of "unat a" "unat t" "unat b"] assms
  by (simp add: tm_slot_def unat_mod u64_le_iff u64_eq_iff)

lemma sorted_keys_le_last:
  "sorted_keys es \<Longrightarrow> e \<in> set es \<Longrightarrow> fst e \<le> fst (last es)"
proof (induction es)
  case (Cons x xs)
  then show ?case by (cases "xs = []") (auto simp: less_imp_le)
qed simp

text \<open>Keys within one window of each other have slots of their own.\<close>

definition tm_window :: "u64 \<Rightarrow> u64 set \<Rightarrow> bool" where
  "tm_window t K \<longleftrightarrow> (\<forall>a \<in> K. \<forall>b \<in> K. a \<le> b \<longrightarrow> unat b < unat a + unat t)"

lemma tm_window_inj: "tm_window t K \<Longrightarrow> inj_on (tm_slot t) K"
  unfolding tm_window_def by (intro inj_onI) (metis linear tm_slot_inj)

definition tm_core :: "'v tail_map \<Rightarrow> (u64 \<times> 'v) list \<Rightarrow> bool" where
  "tm_core m es \<longleftrightarrow>
     tm_tail m \<noteq> 0 \<and> length (dyn_array m) = unat (tm_tail m) \<and> sorted_keys es \<and>
     tm_window (tm_tail m) (fst ` set es) \<and>
     tm_head m = (if es = [] then None else Some (tm_slot (tm_tail m) (fst (hd es)))) \<and>
     tm_back m = (if es = [] then None else Some (tm_slot (tm_tail m) (fst (last es)))) \<and>
     tm_chain (dyn_array m) (tm_tail m) es \<and>
     (\<forall>i < length (dyn_array m). i \<notin> tm_slot (tm_tail m) ` fst ` set es \<longrightarrow>
        dyn_array m ! i = None)"

text \<open>The last entry is always the last one inserted.\<close>

definition tm_rep :: "'v tail_map \<Rightarrow> (u64 \<times> 'v) list \<Rightarrow> bool" where
  "tm_rep m es \<longleftrightarrow> tm_core m es \<and> (es \<noteq> [] \<longrightarrow> fst (last es) = tm_min m)"

lemma tm_core_min [simp]: "tm_core (m\<lparr>tm_min := x\<rparr>) = tm_core m"
  by (simp add: fun_eq_iff tm_core_def)

lemma tm_rep_core: "tm_rep m es \<Longrightarrow> tm_core m es"
  by (simp add: tm_rep_def)

lemma tm_core_window: "tm_core m es \<Longrightarrow> tm_window (tm_tail m) (fst ` set es)"
  by (simp add: tm_core_def)

lemma tm_chain_update:
  "i \<notin> tm_slot t ` fst ` set es \<Longrightarrow> tm_chain (a[i := x]) t es = tm_chain a t es"
  by (induction a t es rule: tm_chain.induct) (auto simp: nth_list_update)

lemma tm_chain_node:
  "tm_chain a t es \<Longrightarrow> e \<in> set es \<Longrightarrow> \<exists>nxt. a ! tm_slot t (fst e) = Some (e, nxt)"
  by (induction a t es rule: tm_chain.induct) auto

lemma tm_chain_Cons:
  "tm_chain a t (e # es) \<longleftrightarrow>
   a ! tm_slot t (fst e) =
     Some (e, if es = [] then None else Some (tm_slot t (fst (hd es)))) \<and> tm_chain a t es"
  by (cases es) auto

lemma tm_chain_append:
  assumes "tm_chain a t es" "es \<noteq> []" "a ! tm_slot t k = Some ((k, v), None)"
    and "inj_on (tm_slot t) (insert k (fst ` set es))" "distinct (map fst es)" "k \<notin> fst ` set es"
    and "\<And>e. e \<in> set es \<Longrightarrow> tm_slot t (fst e) < length a"
  shows "tm_chain (a[tm_slot t (fst (last es)) := Some (last es, Some (tm_slot t k))]) t (es @ [(k, v)])"
  using assms
proof (induction a t es rule: tm_chain.induct)
  case (2 a t e)
  then have "tm_slot t (fst e) \<noteq> tm_slot t k" by (auto simp: inj_on_def)
  with 2 show ?case by simp
next
  case (3 a t e f es)
  have "fst e \<noteq> fst (last (f # es))"
    using "3.prems"(5) by (metis distinct.simps(2) image_eqI last_in_set list.distinct(1)
      list.set_map list.simps(9))
  then have ne: "tm_slot t (fst e) \<noteq> tm_slot t (fst (last (f # es)))"
  proof -
    have "fst (last (f # es)) \<in> fst ` set (f # es)"
      using last_in_set [of "f # es"] by blast
    then show ?thesis
      using inj_onD [OF "3.prems"(4), of "fst e" "fst (last (f # es))"] \<open>fst e \<noteq> _\<close> by auto
  qed
  have "inj_on (tm_slot t) (insert k (fst ` set (f # es)))"
    using "3.prems"(4) by (rule inj_on_subset) auto
  with "3.IH" "3.prems"
  have "tm_chain (a[tm_slot t (fst (last (f # es))) := Some (last (f # es), Some (tm_slot t k))]) t
     ((f # es) @ [(k, v)])"
    by simp
  with "3.prems" ne show ?case by simp
qed simp

section \<open>Every operation under the representation relation\<close>

lemma tm_new_rep: "t \<noteq> 0 \<Longrightarrow> tm_core (tm_new t) []"
  by (simp add: tm_core_def tm_new_def tm_window_def)

lemma tm_core_empty: "tm_core m es \<Longrightarrow> tm_empty m \<longleftrightarrow> es = []"
  by (simp add: tm_core_def tm_empty_def tm_begin_def tm_end_def)

lemma tm_core_node:
  assumes "tm_core m es" "e \<in> set es"
  shows "\<exists>nxt. dyn_array m ! tm_slot (tm_tail m) (fst e) = Some (e, nxt) \<and>
    tm_slot (tm_tail m) (fst e) < length (dyn_array m)"
  using assms tm_chain_node [of "dyn_array m" "tm_tail m" es e] tm_slot_less
  by (auto simp: tm_core_def)

lemma tm_core_deref:
  "tm_core m es \<Longrightarrow> e \<in> set es \<Longrightarrow> tm_deref m (Some (tm_slot (tm_tail m) (fst e))) = Inr e"
  using tm_core_node [of m es e] by (auto simp: tm_deref_def tm_node_def)

lemma tm_core_begin: "tm_core m (e # es) \<Longrightarrow> tm_begin m = Some (tm_slot (tm_tail m) (fst e))"
  by (simp add: tm_begin_def tm_core_def)

lemma tm_core_first:
  "tm_core m (e # es) \<Longrightarrow> tm_deref m (Some (tm_slot (tm_tail m) (fst e))) = Inr e"
  by (simp add: tm_core_deref)

text \<open>No read of the map depends on \<open>min\<close>, and clearing \<open>back\<close> changes no node.\<close>

lemma tm_min_update [simp]:
  "tm_deref (m\<lparr>tm_min := x\<rparr>) = tm_deref m" "tm_begin (m\<lparr>tm_min := x\<rparr>) = tm_begin m"
  "tm_empty (m\<lparr>tm_min := x\<rparr>) = tm_empty m"
  by (simp_all add: fun_eq_iff tm_node_def tm_deref_def tm_begin_def tm_empty_def
      tm_end_def split: option.split)

lemma tm_back_update [simp]:
  "tm_next (m\<lparr>tm_back := x\<rparr>) = tm_next m" "tm_begin (m\<lparr>tm_back := x\<rparr>) = tm_begin m"
  by (simp_all add: fun_eq_iff tm_node_def tm_next_def tm_begin_def split: option.split)

lemma tm_core_find:
  assumes "tm_core m es"
  shows "tm_find m k = Inr (if k \<in> fst ` set es then Some (tm_slot (tm_tail m) k) else None)"
proof -
  have t: "tm_tail m \<noteq> 0" and len: "length (dyn_array m) = unat (tm_tail m)"
    using assms by (auto simp: tm_core_def)
  let ?i = "tm_slot (tm_tail m) k"
  have i: "?i < length (dyn_array m)" using t len tm_slot_less by simp
  show ?thesis
  proof (cases "k \<in> fst ` set es")
    case True
    then obtain e where "e \<in> set es" "fst e = k" by auto
    with tm_core_node [OF assms, of e] t i True show ?thesis
      by (auto simp: tm_find_def Let_def)
  next
    case False
    have "fst (fst n) \<noteq> k" if n: "dyn_array m ! ?i = Some n" for n
    proof -
      have "?i \<in> tm_slot (tm_tail m) ` fst ` set es"
        using assms i n unfolding tm_core_def by (metis option.distinct(1))
      then obtain e where e: "e \<in> set es" "?i = tm_slot (tm_tail m) (fst e)" by blast
      with tm_core_node [OF assms e(1)] n have "fst n = e" by auto
      with e(1) False show ?thesis by auto
    qed
    with t i False show ?thesis
      by (cases "dyn_array m ! ?i") (auto simp: tm_find_def tm_end_def Let_def)
  qed
qed

lemma tm_core_lookup:
  assumes "tm_core m es"
  shows "tm_lookup m k = Inr (map_of es k)"
proof (cases "map_of es k")
  case None
  then have "k \<notin> fst ` set es" by (simp add: map_of_eq_None_iff)
  with assms None show ?thesis by (simp add: tm_lookup_def tm_core_find tm_end_def)
next
  case (Some v)
  then have "(k, v) \<in> set es" by (rule map_of_SomeD)
  with assms Some tm_core_deref [OF assms, of "(k, v)"] show ?thesis
    by (force simp: tm_lookup_def tm_core_find tm_end_def)
qed

lemma tm_core_pessimistic_find: "tm_core m es \<Longrightarrow> pessimistic_find m k = tm_find m k"
  using tm_core_find [of m es k] tm_core_empty [of m es]
  by (auto simp: pessimistic_find_def tm_end_def tm_empty_def Let_def)

lemma tm_core_optimistic_find:
  assumes "tm_core m es"
  shows "optimistic_find_front m k = tm_find m k"
proof (cases es)
  case Nil
  with assms show ?thesis
    by (simp add: optimistic_find_front_def tm_begin_def tm_end_def tm_core_def)
next
  case (Cons e es')
  with assms have b: "tm_begin m = Some (tm_slot (tm_tail m) (fst e))"
    and d: "tm_deref m (Some (tm_slot (tm_tail m) (fst e))) = Inr e"
    by (simp_all add: tm_core_begin tm_core_first)
  show ?thesis
  proof (cases "fst e = k")
    case True
    with Cons b d assms show ?thesis
      by (auto simp: optimistic_find_front_def tm_end_def tm_core_find)
  next
    case False
    with b d show ?thesis by (simp add: optimistic_find_front_def tm_end_def)
  qed
qed

lemma tm_core_next:
  assumes "tm_core m (e # es)"
  shows "tm_next m (tm_begin m) =
    Inr (if es = [] then None else Some (tm_slot (tm_tail m) (fst (hd es))))"
proof -
  have c: "dyn_array m ! tm_slot (tm_tail m) (fst e) =
      Some (e, if es = [] then None else Some (tm_slot (tm_tail m) (fst (hd es))))"
    and i: "tm_slot (tm_tail m) (fst e) < length (dyn_array m)"
    using assms tm_slot_less [of "tm_tail m" "fst e"] unfolding tm_core_def tm_chain_Cons by auto
  with assms show ?thesis by (simp add: tm_core_begin tm_next_def tm_node_def)
qed

lemma tm_core_pop_front:
  assumes "tm_core m (e # es)"
  shows "\<exists>m'. tm_pop_front m = Inr m' \<and> tm_core m' es \<and> tm_tail m' = tm_tail m \<and>
    tm_min m' = tm_min m"
proof -
  let ?t = "tm_tail m" and ?i = "tm_slot (tm_tail m) (fst e)"
  let ?h = "if es = [] then None else Some (tm_slot ?t (fst (hd es)))"
  let ?m1 = "if tm_head m = tm_back m then m\<lparr>tm_back := None\<rparr> else m"
  let ?m2 = "?m1\<lparr>dyn_array := (dyn_array m)[?i := None]\<rparr>"
  let ?m' = "?m2\<lparr>tm_head := ?h\<rparr>"
  have r: "?t \<noteq> 0" "length (dyn_array m) = unat ?t" "sorted_keys (e # es)"
    "tm_window ?t (fst ` set (e # es))" "tm_head m = Some ?i"
    "tm_back m = Some (tm_slot ?t (fst (last (e # es))))" "tm_chain (dyn_array m) ?t (e # es)"
    "\<forall>i < length (dyn_array m). i \<notin> tm_slot ?t ` fst ` set (e # es) \<longrightarrow> dyn_array m ! i = None"
    using assms unfolding tm_core_def by simp_all
  have i: "?i < length (dyn_array m)" using r(1,2) tm_slot_less by simp
  have nin: "fst e \<notin> fst ` set es" using r(3) by fastforce
  have slot_nin: "?i \<notin> tm_slot ?t ` fst ` set es"
    using tm_window_inj [OF r(4)] nin by (auto simp: inj_on_def)
  have last_ne: "?i \<noteq> tm_slot ?t (fst (last es))" if "es \<noteq> []"
    using slot_nin that by auto
  have nx: "tm_next ?m1 (tm_begin ?m1) = Inr ?h" using tm_core_next [OF assms] by simp
  have er: "tm_erase ?m1 (tm_begin ?m1) = Inr ?m2"
    using i tm_core_begin [OF assms] by (simp add: tm_erase_def)
  have "\<not> tm_empty m" using tm_core_empty [OF assms] by simp
  with nx er have pop: "tm_pop_front m = Inr ?m'" unfolding tm_pop_front_def Let_def by simp
  have bk: "tm_back ?m1 = (if es = [] then None else Some (tm_slot ?t (fst (last es))))"
    using r(5,6) last_ne by auto
  have "tm_core ?m' es"
    unfolding tm_core_def
  proof (intro conjI)
    show "tm_back ?m' = (if es = [] then None else Some (tm_slot (tm_tail ?m') (fst (last es))))"
      using bk by auto
    show "tm_chain (dyn_array ?m') (tm_tail ?m') es"
      using r(7) slot_nin by (simp add: tm_chain_Cons tm_chain_update)
    show "\<forall>i < length (dyn_array ?m'). i \<notin> tm_slot (tm_tail ?m') ` fst ` set es \<longrightarrow>
        dyn_array ?m' ! i = None"
      using r(8) i by (auto simp: nth_list_update)
    show "tm_window (tm_tail ?m') (fst ` set es)"
      using r(4) by (auto simp: tm_window_def)
  qed (use r in auto)
  with pop show ?thesis by auto
qed

lemma tm_core_drop_behind:
  assumes "tm_core m es" "unat k + unat (tm_tail m) < 18446744073709551616"
    and "\<forall>e \<in> set es. fst e \<le> k"
  shows "\<exists>m'. tm_drop_behind k m = Inr m' \<and> tm_min m' = tm_min m \<and> tm_tail m' = tm_tail m \<and>
    tm_core m' (dropWhile (\<lambda>e. unat (fst e) + unat (tm_tail m) \<le> unat k) es)"
  using assms
proof (induction es arbitrary: m)
  case Nil
  then have "tm_empty m" by (simp add: tm_core_empty)
  with Nil show ?case by (subst tm_drop_behind.simps) simp
next
  case (Cons e es)
  let ?q = "\<lambda>e. unat (fst e) + unat (tm_tail m) \<le> unat k"
  have ne: "\<not> tm_empty m" using tm_core_empty [OF Cons.prems(1)] by simp
  have d: "tm_deref m (tm_begin m) = Inr e"
    using tm_core_begin [OF Cons.prems(1)] tm_core_first [OF Cons.prems(1)] by simp
  have le: "unat (fst e) \<le> unat k" using Cons.prems(3) by (simp add: u64_le_iff)
  have cond: "fst e + tm_tail m \<le> k \<longleftrightarrow> ?q e"
    using Cons.prems(2) le by (simp add: u64_le_iff unat_u64_add)
  show ?case
  proof (cases "?q e")
    case False
    with Cons.prems(1) ne d cond show ?thesis by (subst tm_drop_behind.simps) simp
  next
    case True
    obtain m1 where m1: "tm_pop_front m = Inr m1" "tm_core m1 es"
      "tm_tail m1 = tm_tail m" "tm_min m1 = tm_min m"
      using tm_core_pop_front [OF Cons.prems(1)] by auto
    then obtain m' where "tm_drop_behind k m1 = Inr m'" "tm_min m' = tm_min m"
      "tm_tail m' = tm_tail m" "tm_core m' (dropWhile ?q es)"
      using Cons.IH [of m1] Cons.prems by auto
    with ne d cond True m1(1) show ?thesis by (subst tm_drop_behind.simps) simp
  qed
qed

section \<open>Insertion\<close>

lemma dropWhile_keys:
  "sorted_keys es \<Longrightarrow> sorted_keys (dropWhile P es) \<and> set (dropWhile P es) \<subseteq> set es"
  by (induction es) (auto dest: set_dropWhileD)

text \<open>
  The entries that survive an insertion of \<open>k\<close>: those whose key is less than \<open>tail\<close> behind.
\<close>

definition tm_kept :: "u64 \<Rightarrow> u64 \<Rightarrow> (u64 \<times> 'v) list \<Rightarrow> (u64 \<times> 'v) list" where
  "tm_kept t k es = dropWhile (\<lambda>e. unat (fst e) + unat t \<le> unat k) es"

lemma tm_kept_near:
  assumes "sorted_keys es" "e \<in> set (tm_kept t k es)"
  shows "unat k < unat (fst e) + unat t"
  using assms unfolding tm_kept_def
proof (induction es)
  case (Cons x xs)
  show ?case
  proof (cases "unat (fst x) + unat t \<le> unat k")
    case True
    with Cons show ?thesis by simp
  next
    case False
    have "unat (fst x) \<le> unat (fst e)"
      using Cons.prems False by (auto simp: u64_less_iff)
    with False show ?thesis by linarith
  qed
qed simp

lemma tm_kept_filter:
  "sorted_keys es \<Longrightarrow> tm_kept t k es = filter (\<lambda>e. unat k < unat (fst e) + unat t) es"
proof (induction es)
  case (Cons e es)
  have "filter (\<lambda>e. unat k < unat (fst e) + unat t) es = es" if "unat k < unat (fst e) + unat t"
    using Cons.prems that by (fastforce simp: filter_id_conv u64_less_iff)
  with Cons show ?case by (auto simp: tm_kept_def not_le)
qed (simp add: tm_kept_def)

lemma tm_kept_sorted: "sorted_keys es \<Longrightarrow> sorted_keys (tm_kept t k es)"
  unfolding tm_kept_def using dropWhile_keys by blast

lemma tm_kept_subset: "set (tm_kept t k es) \<subseteq> set es"
  unfolding tm_kept_def by (auto dest: set_dropWhileD)

text \<open>Writing a fresh last entry into the ring.\<close>

lemma tm_core_append:
  assumes "tm_core m es" "\<forall>e \<in> set es. fst e < k \<and> unat k < unat (fst e) + unat (tm_tail m)"
  shows "\<exists>m'. tm_append m k v = Inr (m', Some (tm_slot (tm_tail m) k), True) \<and>
    tm_core m' (es @ [(k, v)]) \<and> tm_tail m' = tm_tail m \<and> tm_min m' = tm_min m"
proof -
  let ?t = "tm_tail m" and ?i = "tm_slot (tm_tail m) k"
  let ?a = "(dyn_array m)[?i := Some ((k, v), None)]"
  have c: "?t \<noteq> 0" "length (dyn_array m) = unat ?t" "sorted_keys es"
    "tm_window ?t (fst ` set es)" "tm_chain (dyn_array m) ?t es"
    "\<forall>i < length (dyn_array m). i \<notin> tm_slot ?t ` fst ` set es \<longrightarrow> dyn_array m ! i = None"
    using assms(1) unfolding tm_core_def by simp_all
  have i: "?i < length (dyn_array m)" using c(1,2) tm_slot_less by simp
  have lt: "e \<in> set es \<Longrightarrow> fst e < k" for e using assms(2) by blast
  have nin: "k \<notin> fst ` set es" using lt by fastforce
  have win: "tm_window ?t (insert k (fst ` set es))"
    using c(1,4) assms(2) unfolding tm_window_def u64_le_iff u64_less_iff by (auto simp: unat_gt_0)
  have slot_nin: "?i \<notin> tm_slot ?t ` fst ` set es"
    using tm_window_inj [OF win] nin by (auto simp: inj_on_def)
  have sk: "sorted_keys (es @ [(k, v)])"
    using c(3) lt by (auto simp: sorted_wrt_append)
  have ch: "tm_chain ?a ?t es" using c(5) slot_nin by (simp add: tm_chain_update)
  show ?thesis
  proof (cases "es = []")
    case True
    then have "tm_core (m\<lparr>dyn_array := ?a, tm_head := Some ?i, tm_back := Some ?i\<rparr>) (es @ [(k, v)])"
      using c i win by (auto simp: tm_core_def nth_list_update)
    moreover have "tm_empty m" using True assms(1) by (simp add: tm_core_empty)
    ultimately show ?thesis using i c(1)
      by (simp add: tm_append_def tm_empty_def tm_begin_def tm_end_def Let_def)
  next
    case False
    let ?l = "last es" let ?j = "tm_slot ?t (fst ?l)"
    let ?b = "?a[?j := Some (?l, Some ?i)]"
    have l: "?l \<in> set es" using False by simp
    then have lk: "fst ?l \<in> fst ` set es" by (rule imageI)
    have j: "?j < length (dyn_array m)" using c(1,2) tm_slot_less by simp
    have ji: "?j \<noteq> ?i" using imageI [OF lk, of "tm_slot ?t"] slot_nin by metis
    obtain nxt where "?a ! ?j = Some (?l, nxt)" using tm_chain_node [OF ch l] by blast
    then have sn: "tm_set_next (m\<lparr>dyn_array := ?a\<rparr>) (Some ?j) (Some ?i) = Inr (m\<lparr>dyn_array := ?b\<rparr>)"
      using j ji by (simp add: tm_set_next_def tm_node_def)
    have "tm_chain ?b ?t (es @ [(k, v)])"
    proof (rule tm_chain_append [OF ch False])
      show "inj_on (tm_slot ?t) (insert k (fst ` set es))" using win by (rule tm_window_inj)
      show "distinct (map fst es)" using c(3) by (rule sorted_keys_distinct)
      show "\<And>e. e \<in> set es \<Longrightarrow> tm_slot ?t (fst e) < length ?a" using c(1,2) tm_slot_less by simp
    qed (use i nin in simp_all)
    then have "tm_core (m\<lparr>dyn_array := ?b, tm_back := Some ?i\<rparr>) (es @ [(k, v)])"
      using assms(1) False i j ji l lk sk win c unfolding tm_core_def
      by (auto simp: nth_list_update hd_append)
    moreover have "\<not> tm_empty m" using tm_core_empty [OF assms(1)] False by simp
    moreover have "tm_rbegin (m\<lparr>dyn_array := ?a\<rparr>) = Some ?j"
      using False assms(1) by (simp add: tm_core_def tm_rbegin_def)
    ultimately show ?thesis using i sn c(1)
      by (auto simp: tm_append_def tm_empty_def tm_begin_def tm_end_def Let_def)
  qed
qed

lemma tm_rep_try_emplace:
  assumes "tm_rep m es" "tm_min m \<le> k" "es = [] \<or> tm_min m < k"
    and "unat k + unat (tm_tail m) < 18446744073709551616"
  shows "\<exists>m'. tm_try_emplace m k v = Inr (m', Some (tm_slot (tm_tail m) k), True) \<and>
    tm_rep m' (tm_kept (tm_tail m) k es @ [(k, v)]) \<and> tm_tail m' = tm_tail m \<and> tm_min m' = k"
proof -
  let ?t = "tm_tail m" and ?ks = "tm_kept (tm_tail m) k es"
  have core: "tm_core m es" and sk: "sorted_keys es" and t: "?t \<noteq> 0"
    using assms(1) by (simp_all add: tm_rep_def tm_core_def)
  have lt: "fst e < k" if "e \<in> set es" for e
  proof -
    have "fst e \<le> fst (last es)" using sk that by (rule sorted_keys_le_last)
    also have "\<dots> = tm_min m" using assms(1) that by (auto simp: tm_rep_def)
    finally show ?thesis using assms(3) that by auto
  qed
  have "tm_core (m\<lparr>tm_min := k\<rparr>) es" using core by simp
  then obtain m1 where m1: "tm_drop_behind k (m\<lparr>tm_min := k\<rparr>) = Inr m1" "tm_min m1 = k"
    "tm_tail m1 = ?t" "tm_core m1 ?ks"
    using tm_core_drop_behind [of "m\<lparr>tm_min := k\<rparr>" es k] assms(4) lt
    by (auto simp: tm_kept_def less_imp_le)
  have "\<forall>e \<in> set ?ks. fst e < k \<and> unat k < unat (fst e) + unat (tm_tail m1)"
    using tm_kept_subset lt tm_kept_near [OF sk] m1(3) by fastforce
  from tm_core_append [OF m1(4) this, of v]
  obtain m' where m': "tm_append m1 k v = Inr (m', Some (tm_slot ?t k), True)"
    "tm_core m' (?ks @ [(k, v)])" "tm_tail m' = ?t" "tm_min m' = k"
    unfolding m1(2,3) by blast
  have "tm_try_emplace m k v = Inr (m', Some (tm_slot ?t k), True)"
    using assms(2) m1 m'(1) by (simp add: tm_try_emplace_def not_less [symmetric])
  with m' show ?thesis by (simp add: tm_rep_def)
qed

lemma tm_rep_pop_front:
  assumes "tm_rep m (e # es)"
  shows "\<exists>m'. tm_pop_front m = Inr m' \<and> tm_rep m' es \<and> tm_tail m' = tm_tail m \<and>
    tm_min m' = tm_min m"
  using assms tm_core_pop_front [of m e es] by (auto simp: tm_rep_def split: if_splits)

lemma tm_rep_past:
  "tm_rep m es \<Longrightarrow> k < tm_min m \<Longrightarrow> tm_try_emplace m k v =
     (if k \<in> fst ` set es then Inr (m, Some (tm_slot (tm_tail m) k), False)
      else Inl (Invalid_argument ''Tried to emplace a past element.''))"
  by (simp add: tm_try_emplace_def tm_core_find [OF tm_rep_core] tm_end_def)

section \<open>Iteration, size and clearing\<close>

lemma tm_core_length:
  assumes "tm_core m es"
  shows "length es \<le> length (dyn_array m)"
proof -
  have c: "sorted_keys es" "tm_window (tm_tail m) (fst ` set es)"
    using assms by (simp_all add: tm_core_def)
  have "distinct (map (tm_slot (tm_tail m)) (map fst es))"
    using sorted_keys_distinct [OF c(1)] tm_window_inj [OF c(2)]
    by (metis distinct_map list.set_map)
  then have "length es = card (tm_slot (tm_tail m) ` fst ` set es)"
    by (metis distinct_card length_map list.set_map)
  also have "\<dots> \<le> card {..<length (dyn_array m)}"
    using assms tm_slot_less by (intro card_mono) (auto simp: tm_core_def)
  finally show ?thesis by simp
qed

lemma tm_collect_chain:
  "tm_chain (dyn_array m) (tm_tail m) es \<Longrightarrow>
   (\<And>e. e \<in> set es \<Longrightarrow> tm_slot (tm_tail m) (fst e) < length (dyn_array m)) \<Longrightarrow> length es < n \<Longrightarrow>
   tm_collect n m (if es = [] then None else Some (tm_slot (tm_tail m) (fst (hd es)))) = Inr es"
proof (induction es arbitrary: n)
  case Nil
  then show ?case by (cases n) (simp_all add: tm_end_def)
next
  case (Cons e es)
  then obtain n' where n: "n = Suc n'" "length es < n'" by (cases n) auto
  let ?i = "tm_slot (tm_tail m) (fst e)"
  have node: "tm_node m (Some ?i) =
      Inr (e, if es = [] then None else Some (tm_slot (tm_tail m) (fst (hd es))))"
    using Cons.prems(1,2) unfolding tm_chain_Cons by (simp add: tm_node_def)
  have "tm_collect n' m (if es = [] then None else Some (tm_slot (tm_tail m) (fst (hd es)))) = Inr es"
    using Cons.prems n(2) unfolding tm_chain_Cons by (intro Cons.IH) auto
  with node n(1) show ?case by (simp add: tm_end_def tm_deref_def tm_next_def)
qed

lemma tm_core_entries:
  assumes "tm_core m es"
  shows "tm_entries m = Inr es"
proof -
  have b: "tm_begin m = (if es = [] then None else Some (tm_slot (tm_tail m) (fst (hd es))))"
    and ch: "tm_chain (dyn_array m) (tm_tail m) es"
    and sl: "\<And>e. tm_slot (tm_tail m) e < length (dyn_array m)"
    using assms tm_slot_less by (simp_all add: tm_begin_def tm_core_def)
  have "length es < Suc (length (dyn_array m))"
    using tm_core_length [OF assms] by simp
  then show ?thesis
    unfolding tm_entries_def b by (rule tm_collect_chain [OF ch sl])
qed

lemma tm_rep_entries: "tm_rep m es \<Longrightarrow> tm_entries m = Inr es"
  by (simp add: tm_core_entries tm_rep_core)

lemma tm_rep_unique: "tm_rep m es \<Longrightarrow> tm_rep m fs \<Longrightarrow> es = fs"
  by (metis sum.inject(2) tm_rep_entries)

lemma tm_rep_size: "tm_rep m es \<Longrightarrow> tm_size m = Inr (length es)"
  by (simp add: tm_size_def tm_rep_entries)

lemma tm_rep_size_le: "tm_rep m es \<Longrightarrow> length es \<le> unat (tm_tail m)"
  using tm_core_length [of m es] by (simp add: tm_rep_def tm_core_def)

lemma tm_core_pop_all:
  "tm_core m es \<Longrightarrow> \<exists>m'. tm_pop_all m = Inr m' \<and> tm_core m' [] \<and> tm_tail m' = tm_tail m"
proof (induction es arbitrary: m)
  case Nil
  then show ?case
    using tm_core_empty [OF Nil] by (subst tm_pop_all.simps) (simp add: tm_empty_def)
next
  case (Cons e es)
  then obtain m1 where "tm_pop_front m = Inr m1" "tm_core m1 es" "tm_tail m1 = tm_tail m"
    using tm_core_pop_front by blast
  moreover have "\<exists>m'. tm_pop_all m1 = Inr m' \<and> tm_core m' [] \<and> tm_tail m' = tm_tail m1"
    using calculation(2) by (rule Cons.IH)
  ultimately show ?case using tm_core_empty [OF Cons.prems]
    by (subst tm_pop_all.simps) (auto simp: tm_empty_def)
qed

lemma tm_rep_clear:
  "tm_rep m es \<Longrightarrow> \<exists>m'. tm_clear m = Inr m' \<and> tm_rep m' [] \<and> tm_tail m' = tm_tail m \<and> tm_min m' = 0"
  using tm_core_pop_all [of m es] by (auto simp: tm_clear_def tm_rep_def)

lemma tm_rep_front: "tm_rep m (e # es) \<Longrightarrow> tm_front m = Inr (snd e)"
  using tm_core_empty [of m "e # es"] tm_core_begin [of m e es] tm_core_first [of m e es]
  by (simp add: tm_front_def tm_rep_core)

section \<open>Inserting the last key again\<close>

text \<open>
  \<open>tryEmplace\<close> refuses keys below \<open>min\<close> only. The last inserted key equals \<open>min\<close>, so
  inserting it again takes the insertion branch: the slot is overwritten and then linked
  behind itself, and no iteration over the map ends any more.
\<close>

lemma tm_collect_self_loop:
  "i < length (dyn_array m) \<Longrightarrow> dyn_array m ! i = Some (e, Some i) \<Longrightarrow>
   tm_collect n m (Some i) = Inl Spins"
  by (induction n) (simp_all add: tm_end_def tm_deref_def tm_next_def tm_node_def)

lemma tm_collect_into_loop:
  assumes "tm_chain a (tm_tail m) (xs @ [(k, w)])"
    and "dyn_array m = a[tm_slot (tm_tail m) k := Some ((k, v), Some (tm_slot (tm_tail m) k))]"
    and "tm_slot (tm_tail m) k \<notin> tm_slot (tm_tail m) ` fst ` set xs"
    and "\<And>e. tm_slot (tm_tail m) e < length a"
  shows "tm_collect n m (Some (tm_slot (tm_tail m) (fst (hd (xs @ [(k, w)]))))) = Inl Spins"
  using assms(1,3)
proof (induction xs arbitrary: n)
  case Nil
  then show ?case using assms(2,4) by (simp add: tm_collect_self_loop)
next
  case (Cons x xs)
  let ?i = "tm_slot (tm_tail m) (fst x)"
  let ?j = "tm_slot (tm_tail m) (fst (hd (xs @ [(k, w)])))"
  have "a ! ?i = Some (x, Some ?j)" and ch: "tm_chain a (tm_tail m) (xs @ [(k, w)])"
    using Cons.prems(1) unfolding append_Cons tm_chain_Cons by simp_all
  then have node: "tm_node m (Some ?i) = Inr (x, Some ?j)"
    using Cons.prems(2) assms(2,4) by (simp add: tm_node_def)
  have "tm_collect n' m (Some ?j) = Inl Spins" for n'
    using ch Cons.prems(2) by (intro Cons.IH) auto
  with node show ?case by (cases n) (simp_all add: tm_end_def tm_deref_def tm_next_def)
qed

lemma tm_rep_reinsert:
  assumes "tm_rep m es" "es \<noteq> []"
    and "unat (tm_min m) + unat (tm_tail m) < 18446744073709551616"
  shows "\<exists>m'. tm_try_emplace m (tm_min m) v = Inr (m', Some (tm_slot (tm_tail m) (tm_min m)), True) \<and>
    tm_entries m' = Inl Spins"
proof -
  let ?k = "tm_min m" and ?t = "tm_tail m" and ?ks = "tm_kept (tm_tail m) (tm_min m) es"
  let ?i = "tm_slot ?t ?k"
  have core: "tm_core m es" and sk: "sorted_keys es" and t: "?t \<noteq> 0" and l: "fst (last es) = ?k"
    using assms(1,2) by (simp_all add: tm_rep_def tm_core_def)
  have le: "fst e \<le> ?k" if "e \<in> set es" for e
  proof -
    have "fst e \<le> fst (last es)" using sk that by (rule sorted_keys_le_last)
    then show ?thesis using l by simp
  qed
  obtain m1 where m1: "tm_drop_behind ?k (m\<lparr>tm_min := ?k\<rparr>) = Inr m1" "tm_tail m1 = ?t" "tm_core m1 ?ks"
    using tm_core_drop_behind [of "m\<lparr>tm_min := ?k\<rparr>" es ?k] assms(3) core le
    by (auto simp: tm_kept_def)
  have lk: "last es \<in> set ?ks"
    using sk assms(2) l t by (simp add: tm_kept_filter unat_gt_0)
  have "\<exists>xs w. ?ks = xs @ [(?k, w)]"
  proof -
    obtain xs y where xy: "?ks = xs @ [y]" using lk by (metis append_butlast_last_id empty_iff list.set(1))
    have "fst (last es) \<le> fst y"
      using tm_kept_sorted [OF sk, of ?t ?k] lk unfolding xy by (auto simp: sorted_wrt_append less_imp_le)
    moreover have "fst y \<le> ?k"
      using le subsetD [OF tm_kept_subset, of y ?t ?k es] unfolding xy by simp
    ultimately have "fst y = ?k" using l by simp
    with xy show ?thesis by (metis prod.collapse)
  qed
  then obtain xs w where xs: "?ks = xs @ [(?k, w)]" by blast
  have c: "length (dyn_array m1) = unat ?t" "tm_chain (dyn_array m1) ?t (xs @ [(?k, w)])"
    "tm_head m1 = Some (tm_slot ?t (fst (hd (xs @ [(?k, w)]))))" "tm_back m1 = Some ?i"
    "inj_on (tm_slot ?t) (fst ` set (xs @ [(?k, w)]))" "distinct (map fst (xs @ [(?k, w)]))"
  proof -
    have cc: "length (dyn_array m1) = unat ?t" "tm_chain (dyn_array m1) ?t ?ks"
      "tm_head m1 = Some (tm_slot ?t (fst (hd ?ks)))" "tm_back m1 = Some (tm_slot ?t (fst (last ?ks)))"
      "tm_window ?t (fst ` set ?ks)" "sorted_keys ?ks"
      using m1(3) xs unfolding tm_core_def m1(2) by simp_all
    show "length (dyn_array m1) = unat ?t" by (rule cc(1))
    show "tm_chain (dyn_array m1) ?t (xs @ [(?k, w)])" using cc(2) unfolding xs .
    show "tm_head m1 = Some (tm_slot ?t (fst (hd (xs @ [(?k, w)]))))" using cc(3) unfolding xs .
    show "tm_back m1 = Some ?i" using cc(4) unfolding xs by simp
    show "inj_on (tm_slot ?t) (fst ` set (xs @ [(?k, w)]))"
      using tm_window_inj [OF cc(5)] unfolding xs .
    show "distinct (map fst (xs @ [(?k, w)]))" using sorted_keys_distinct [OF cc(6)] unfolding xs .
  qed
  have i: "tm_slot ?t e < length (dyn_array m1)" for e using c(1) t tm_slot_less by simp
  have nin: "?i \<notin> tm_slot ?t ` fst ` set xs"
    using c(5,6) by (auto simp: inj_on_def image_iff)
  let ?m' = "m1\<lparr>dyn_array := (dyn_array m1)[?i := Some ((?k, v), Some ?i)]\<rparr>"
  have "tm_append m1 ?k v = Inr (?m', Some ?i, True)"
    using c(3,4) i m1(2) t
    by (simp add: tm_append_def tm_empty_def tm_begin_def tm_end_def tm_rbegin_def tm_set_next_def
        tm_node_def Let_def)
  moreover have "tm_entries ?m' = Inl Spins"
    using tm_collect_into_loop [of "dyn_array m1" ?m' xs ?k w v] c(2,3) nin i m1(2)
    by (simp add: tm_entries_def tm_begin_def)
  ultimately show ?thesis using m1(1) by (auto simp: tm_try_emplace_def)
qed

section \<open>TreeTailMap\<close>

text \<open>
  The alternative implementation over \<open>std::map\<close> (\<open>tree.hpp\<close>). Iterators are the optional key
  they point to. Its loop reads \<open>begin()->first\<close> without asking whether the map is empty.
\<close>

record 'v tree_map =
  tt_tail :: u64
  tt_map :: "(u64 \<times> 'v) list"
  tt_min :: u64

definition tt_new :: "u64 \<Rightarrow> 'v tree_map" where
  "tt_new tail = \<lparr>tt_tail = tail, tt_map = [], tt_min = 0\<rparr>"

definition tt_find :: "'v tree_map \<Rightarrow> u64 \<Rightarrow> u64 option" where
  "tt_find m key = (if map_of (tt_map m) key = None then None else Some key)"

definition tt_pop_front :: "'v tree_map \<Rightarrow> 'v tree_map result" where
  "tt_pop_front m =
     (if tt_map m = [] then Inl (Runtime_error ''Empty map while accessing front.'')
      else Inr (m\<lparr>tt_map := tl (tt_map m)\<rparr>))"

definition tt_front :: "'v tree_map \<Rightarrow> 'v result" where
  "tt_front m =
     (if tt_map m = [] then Inl (Runtime_error ''Empty map while accessing front.'')
      else Inr (snd (hd (tt_map m))))"

fun tt_drop_behind :: "u64 \<Rightarrow> u64 \<Rightarrow> (u64 \<times> 'v) list \<Rightarrow> (u64 \<times> 'v) list result" where
  "tt_drop_behind tail key [] = Inl Undefined_behaviour"
| "tt_drop_behind tail key (e # es) =
     (if fst e + tail \<le> key then tt_drop_behind tail key es else Inr (e # es))"

definition tt_try_emplace ::
  "'v tree_map \<Rightarrow> u64 \<Rightarrow> 'v \<Rightarrow> ('v tree_map \<times> u64 option \<times> bool) result" where
  "tt_try_emplace m key v =
     (if key < tt_min m then Inr (m, tt_find m key, False)
      else
        rbind (tt_drop_behind (tt_tail m) key (tt_map m)) (\<lambda>es.
          Inr (m\<lparr>tt_min := key, tt_map := alist_insert key v es\<rparr>, Some key, map_of es key = None)))"

definition tt_clear :: "'v tree_map \<Rightarrow> 'v tree_map" where
  "tt_clear m = m\<lparr>tt_map := [], tt_min := 0\<rparr>"

definition tt_lookup :: "'v tree_map \<Rightarrow> u64 \<Rightarrow> 'v option result" where
  "tt_lookup m key = Inr (map_of (tt_map m) key)"

definition tt_rep :: "'v tree_map \<Rightarrow> (u64 \<times> 'v) list \<Rightarrow> bool" where
  "tt_rep m es \<longleftrightarrow> tt_map m = es \<and> tt_tail m \<noteq> 0 \<and> sorted_keys es \<and>
     (es \<noteq> [] \<longrightarrow> fst (last es) = tt_min m)"

lemma tt_empty_undefined:
  "tt_map m = [] \<Longrightarrow> tt_min m \<le> k \<Longrightarrow> tt_try_emplace m k v = Inl Undefined_behaviour"
  by (simp add: tt_try_emplace_def not_less [symmetric])

lemma alist_insert_last: "\<forall>e \<in> set es. fst e < k \<Longrightarrow> alist_insert k v es = es @ [(k, v)]"
proof (induction k v es rule: alist_insert.induct)
  case (2 k v a b ps)
  then have "\<not> k < a" "k \<noteq> a" by auto
  with 2 show ?case by simp
qed simp

lemma tt_drop_behind_kept:
  "sorted_keys es \<Longrightarrow> tm_kept t k es \<noteq> [] \<Longrightarrow>
   \<forall>e \<in> set es. unat (fst e) + unat t < 18446744073709551616 \<Longrightarrow>
   tt_drop_behind t k es = Inr (tm_kept t k es)"
  by (induction t k es rule: tt_drop_behind.induct)
    (auto simp: tm_kept_def u64_le_iff unat_u64_add)

lemma tt_rep_try_emplace:
  assumes "tt_rep m es" "\<forall>e \<in> set es. fst e < k" "tm_kept (tt_tail m) k es \<noteq> []"
    and "unat k + unat (tt_tail m) < 18446744073709551616"
  shows "\<exists>m'. tt_try_emplace m k v = Inr (m', Some k, True) \<and>
    tt_rep m' (tm_kept (tt_tail m) k es @ [(k, v)]) \<and> tt_tail m' = tt_tail m \<and> tt_min m' = k"
proof -
  let ?ks = "tm_kept (tt_tail m) k es"
  have m: "tt_map m = es" "tt_tail m \<noteq> 0" "sorted_keys es" "es \<noteq> [] \<longrightarrow> fst (last es) = tt_min m"
    using assms(1) by (simp_all add: tt_rep_def)
  have ne: "es \<noteq> []" using assms(3) by (auto simp: tm_kept_def)
  then have "tt_min m < k" using m(4) assms(2) by (metis last_in_set)
  moreover have lt: "\<forall>e \<in> set ?ks. fst e < k" using assms(2) tm_kept_subset by blast
  moreover have "tt_drop_behind (tt_tail m) k es = Inr ?ks"
    using m(3) assms(2-4) by (intro tt_drop_behind_kept) (auto simp: u64_less_iff)
  moreover have "map_of ?ks k = None" using lt by (auto simp: map_of_eq_None_iff)
  moreover have "sorted_keys (?ks @ [(k, v)])"
    using tm_kept_sorted [OF m(3)] lt by (auto simp: sorted_wrt_append)
  ultimately show ?thesis
    using m by (auto simp: tt_try_emplace_def tt_rep_def alist_insert_last)
qed

section \<open>The contract of a tail map\<close>

text \<open>
  What the owners of a tail map use: it represents a list of entries in key order, a lookup
  reads that list, and inserting a key above all others keeps the entries within \<open>tail\<close> of it
  and appends the new one. \<open>bounded_map\<close> promises the insertion only where an entry survives
  it (all that the tree gives), \<open>total_bounded_map\<close> always (the vector).
\<close>

locale bounded_map =
  fixes rep :: "'m \<Rightarrow> (u64 \<times> 'v) list \<Rightarrow> bool"
    and lookup :: "'m \<Rightarrow> u64 \<Rightarrow> 'v option result"
    and ins :: "'m \<Rightarrow> u64 \<Rightarrow> 'v \<Rightarrow> ('m \<times> 'i \<times> bool) result"
    and tail :: "'m \<Rightarrow> u64"
    and low :: "'m \<Rightarrow> u64"
  assumes rep_sorted: "rep m es \<Longrightarrow> sorted_keys es"
    and rep_tail: "rep m es \<Longrightarrow> tail m \<noteq> 0"
    and lookup_rep: "rep m es \<Longrightarrow> lookup m k = Inr (map_of es k)"
    and ins_kept: "rep m es \<Longrightarrow> \<forall>e \<in> set es. fst e < k \<Longrightarrow> tm_kept (tail m) k es \<noteq> [] \<Longrightarrow>
      unat k + unat (tail m) < 18446744073709551616 \<Longrightarrow>
      \<exists>m' i. ins m k v = Inr (m', i, True) \<and> rep m' (tm_kept (tail m) k es @ [(k, v)]) \<and>
        tail m' = tail m \<and> low m' = k"
begin

lemma lookup_kept:
  assumes "rep m es" "\<forall>e \<in> set es. fst e < k" "rep m' (tm_kept (tail m) k es @ [(k, v)])"
  shows "lookup m' j = Inr (if j = k then Some v
    else if unat k < unat j + unat (tail m) then map_of es j else None)"
proof -
  have "k \<notin> fst ` set (tm_kept (tail m) k es)"
    using assms(2) tm_kept_subset [of "tail m" k es] by fastforce
  from map_of_append_last [OF this]
  have upd: "map_of (tm_kept (tail m) k es @ [(k, v)]) = (map_of (tm_kept (tail m) k es))(k \<mapsto> v)" .
  have kept: "map_of (tm_kept (tail m) k es) j =
      (if unat k < unat j + unat (tail m) then map_of es j else None)"
    unfolding tm_kept_filter [OF rep_sorted [OF assms(1)]] by (rule map_of_filter_fst)
  show ?thesis unfolding lookup_rep [OF assms(3)] upd by (simp add: kept)
qed

lemma lookup_ins:
  assumes "rep m es" "\<forall>e \<in> set es. fst e < k" "tm_kept (tail m) k es \<noteq> []"
    and "unat k + unat (tail m) < 18446744073709551616"
  shows "\<exists>m' i. ins m k v = Inr (m', i, True) \<and> (\<forall>j. lookup m' j = Inr (
    if j = k then Some v
    else if unat k < unat j + unat (tail m) then map_of es j else None))"
  using ins_kept [OF assms, of v] lookup_kept [OF assms(1,2)] by blast

end

locale total_bounded_map = bounded_map +
  assumes ins_always: "rep m es \<Longrightarrow> \<forall>e \<in> set es. fst e < k \<Longrightarrow> low m \<le> k \<Longrightarrow>
      unat k + unat (tail m) < 18446744073709551616 \<Longrightarrow>
      \<exists>m' i. ins m k v = Inr (m', i, True) \<and> rep m' (tm_kept (tail m) k es @ [(k, v)]) \<and>
        tail m' = tail m \<and> low m' = k"
begin

lemma lookup_ins_always:
  assumes "rep m es" "\<forall>e \<in> set es. fst e < k" "low m \<le> k"
    and "unat k + unat (tail m) < 18446744073709551616"
  shows "\<exists>m' i. ins m k v = Inr (m', i, True) \<and> (\<forall>j. lookup m' j = Inr (
    if j = k then Some v
    else if unat k < unat j + unat (tail m) then map_of es j else None))"
  using ins_always [OF assms, of v] lookup_kept [OF assms(1,2)] by blast

definition ins_all :: "(u64 \<times> 'b) list \<Rightarrow> 'a \<Rightarrow> 'a result" where
  "ins_all = rfold (\<lambda>p m. rbind (ins m (fst p) (snd p)) (\<lambda>r. Inr (fst r)))"

lemma ins_all_rep:
  "rep m es \<Longrightarrow> sorted_keys (es @ ps) \<Longrightarrow> ps \<noteq> [] \<Longrightarrow>
   \<forall>p \<in> set ps. low m \<le> fst p \<and> unat (fst p) + unat (tail m) < 18446744073709551616 \<Longrightarrow>
   \<exists>m'. ins_all ps m = Inr m' \<and> tail m' = tail m \<and>
     rep m' (filter (\<lambda>e. unat (fst (last ps)) < unat (fst e) + unat (tail m)) (es @ ps))"
proof (induction ps arbitrary: m es)
  case (Cons p ps)
  let ?f = "\<lambda>k. filter (\<lambda>e. unat k < unat (fst e) + unat (tail m))"
  have sk: "sorted_keys es" "\<forall>e \<in> set es. fst e < fst p" "sorted_keys (p # ps)"
    using Cons.prems(2) by (auto simp: sorted_wrt_append)
  have t: "0 < unat (tail m)" using rep_tail [OF Cons.prems(1)] by (simp add: unat_gt_0)
  obtain m1 i where m1: "ins m (fst p) (snd p) = Inr (m1, i, True)" "tail m1 = tail m" "low m1 = fst p"
    "rep m1 (?f (fst p) es @ [p])"
    using ins_always [OF Cons.prems(1) sk(2), of "snd p"] Cons.prems(4) tm_kept_filter [OF sk(1)]
    by auto
  have step: "ins_all (p # ps) m = ins_all ps m1" using m1(1) by (simp add: ins_all_def)
  show ?case
  proof (cases "ps = []")
    case True
    with step m1 t show ?thesis by (auto simp: ins_all_def)
  next
    case False
    have lt: "\<forall>q \<in> set ps. fst p < fst q" using sk(3) by simp
    have s: "sorted_keys ((?f (fst p) es @ [p]) @ ps)"
      using Cons.prems(2) by (auto simp: sorted_wrt_append sorted_wrt_filter sorted_wrt_map)
    obtain m' where m': "ins_all ps m1 = Inr m'" "tail m' = tail m"
      "rep m' (?f (fst (last ps)) ((?f (fst p) es @ [p]) @ ps))"
      using Cons.IH [OF m1(4) s False] Cons.prems(4) lt m1(2,3) by (auto simp: less_imp_le)
    have "fst p < fst (last ps)" using lt False by simp
    then have "?f (fst (last ps)) (?f (fst p) es) = ?f (fst (last ps)) es"
      by (auto simp: u64_less_iff intro: filter_cong)
    with m' step False show ?thesis by auto
  qed
qed simp

end

interpretation vector_map: total_bounded_map tm_rep tm_lookup tm_try_emplace tm_tail tm_min
proof
  show "tm_rep m es \<Longrightarrow> sorted_keys es" and "tm_rep m es \<Longrightarrow> tm_tail m \<noteq> 0" for m and es :: "(u64 \<times> 'a) list"
    by (simp_all add: tm_rep_def tm_core_def)
  show "tm_rep m es \<Longrightarrow> tm_lookup m k = Inr (map_of es k)" for m es and k :: u64
    by (simp add: tm_core_lookup tm_rep_core)
  show ins: "\<exists>m' i. tm_try_emplace m k v = Inr (m', i, True) \<and>
      tm_rep m' (tm_kept (tm_tail m) k es @ [(k, v)]) \<and> tm_tail m' = tm_tail m \<and> tm_min m' = k"
    if "tm_rep m es" "\<forall>e \<in> set es. fst e < k" "tm_min m \<le> k"
      "unat k + unat (tm_tail m) < 18446744073709551616" for m es k and v :: 'a
  proof -
    have "es = [] \<or> tm_min m < k"
      using that(1,2) by (metis last_in_set tm_rep_def)
    with tm_rep_try_emplace [OF that(1,3) _ that(4)] show ?thesis by blast
  qed
  show "\<exists>m' i. tm_try_emplace m k v = Inr (m', i, True) \<and>
      tm_rep m' (tm_kept (tm_tail m) k es @ [(k, v)]) \<and> tm_tail m' = tm_tail m \<and> tm_min m' = k"
    if "tm_rep m es" "\<forall>e \<in> set es. fst e < k" "tm_kept (tm_tail m) k es \<noteq> []"
      "unat k + unat (tm_tail m) < 18446744073709551616" for m es k and v :: 'a
  proof (rule ins [OF that(1,2) _ that(4)])
    have "es \<noteq> []" using that(3) by (auto simp: tm_kept_def)
    then show "tm_min m \<le> k" using that(1,2) by (metis last_in_set less_imp_le tm_rep_def)
  qed
qed

interpretation tree_map: bounded_map tt_rep tt_lookup tt_try_emplace tt_tail tt_min
proof
  show "\<exists>m' i. tt_try_emplace m k v = Inr (m', i, True) \<and>
      tt_rep m' (tm_kept (tt_tail m) k es @ [(k, v)]) \<and> tt_tail m' = tt_tail m \<and> tt_min m' = k"
    if "tt_rep m es" "\<forall>e \<in> set es. fst e < k" "tm_kept (tt_tail m) k es \<noteq> []"
      "unat k + unat (tt_tail m) < 18446744073709551616" for m es k and v :: 'a
    using tt_rep_try_emplace [OF that] by blast
qed (simp_all add: tt_rep_def tt_lookup_def)

section \<open>A property of every entry\<close>

text \<open>
  \<open>tm_all P m\<close> says \<open>P\<close> of every entry stored in the ring, linked or not, and that the ring has
  its slots. Every operation keeps it, also where it breaks the links, so invariants of stored
  values need no representation.
\<close>

definition tm_all :: "(u64 \<Rightarrow> 'v \<Rightarrow> bool) \<Rightarrow> 'v tail_map \<Rightarrow> bool" where
  "tm_all P m \<longleftrightarrow> tm_tail m \<noteq> 0 \<and> length (dyn_array m) = unat (tm_tail m) \<and>
     (\<forall>n \<in> set (dyn_array m). case n of None \<Rightarrow> True | Some n \<Rightarrow> P (fst (fst n)) (snd (fst n)))"

lemma tm_all_new: "t \<noteq> 0 \<Longrightarrow> tm_all P (tm_new t)"
  by (simp add: tm_all_def tm_new_def)

lemma tm_all_find:
  assumes "tm_all P m"
  shows "\<exists>it. tm_find m k = Inr it \<and> (it = None \<or> (\<exists>v. tm_deref m it = Inr (k, v)))"
proof -
  have t: "tm_tail m \<noteq> 0" "length (dyn_array m) = unat (tm_tail m)" using assms by (simp_all add: tm_all_def)
  have i: "tm_slot (tm_tail m) k < length (dyn_array m)" using t tm_slot_less by simp
  show ?thesis
  proof (cases "dyn_array m ! tm_slot (tm_tail m) k")
    case None
    with t(1) i show ?thesis by (simp add: tm_find_def tm_end_def)
  next
    case (Some n)
    obtain a v nxt where n: "n = ((a, v), nxt)" by (metis prod.exhaust)
    with Some t(1) i show ?thesis by (simp add: tm_find_def tm_end_def tm_deref_def tm_node_def)
  qed
qed

lemma tm_all_mono: "tm_all P m \<Longrightarrow> (\<And>k v. P k v \<Longrightarrow> Q k v) \<Longrightarrow> tm_all Q m"
  by (auto simp: tm_all_def split: option.splits)

lemma tm_node_in: "tm_node m it = Inr n \<Longrightarrow> Some n \<in> set (dyn_array m)"
  by (auto simp: tm_node_def rbind_Inr_iff uat_Inr_iff split: option.splits)
    (metis nth_mem)

lemma tm_all_deref: "tm_all P m \<Longrightarrow> tm_deref m it = Inr e \<Longrightarrow> P (fst e) (snd e)"
  by (auto simp: tm_all_def tm_deref_def rbind_Inr_iff dest!: tm_node_in split: option.splits)

lemma tm_all_update:
  "tm_all P m \<Longrightarrow> (case n of None \<Rightarrow> True | Some n \<Rightarrow> P (fst (fst n)) (snd (fst n))) \<Longrightarrow>
   tm_all P (m\<lparr>dyn_array := (dyn_array m)[i := n]\<rparr>)"
  by (auto simp: tm_all_def dest!: set_update_subset_insert [THEN subsetD])

lemma tm_all_more [simp]:
  "tm_all P (m\<lparr>tm_head := h\<rparr>) = tm_all P m" "tm_all P (m\<lparr>tm_back := b\<rparr>) = tm_all P m"
  "tm_all P (m\<lparr>tm_min := x\<rparr>) = tm_all P m"
  by (simp_all add: tm_all_def)

lemma tm_all_pop_front:
  assumes "tm_all P m" "tm_pop_front m = Inr m'"
  shows "tm_all P m'"
proof -
  let ?m1 = "if tm_head m = tm_back m then m\<lparr>tm_back := None\<rparr> else m"
  obtain h m2 where m2: "tm_erase ?m1 (tm_begin ?m1) = Inr m2" "m' = m2\<lparr>tm_head := h\<rparr>"
    using assms(2) by (auto simp: tm_pop_front_def rbind_Inr_iff Let_def split: if_splits)
  have "tm_all P ?m1" using assms(1) by simp
  moreover obtain i where "m2 = ?m1\<lparr>dyn_array := (dyn_array ?m1)[i := None]\<rparr>"
    using m2(1) unfolding tm_erase_def by (auto simp: rbind_Inr_iff split: option.splits)
  ultimately have "tm_all P m2" using tm_all_update [of P ?m1 None i] by simp
  with m2(2) show ?thesis by simp
qed

lemma tm_all_drop_behind: "tm_drop_behind k m = Inr m' \<Longrightarrow> tm_all P m \<Longrightarrow> tm_all P m'"
proof (induction k m rule: tm_drop_behind.induct)
  case (1 k m)
  show ?case
  proof (cases "tm_empty m")
    case True
    with "1.prems" show ?thesis by (simp add: tm_drop_behind.simps [of k m])
  next
    case ne: False
    obtain p where p: "tm_deref m (tm_begin m) = Inr p"
      using "1.prems"(1) ne by (auto simp: tm_drop_behind.simps [of k m] split: sum.splits)
    show ?thesis
    proof (cases "fst p + tm_tail m \<le> k")
      case True
      then obtain m1 where m1: "tm_pop_front m = Inr m1" "tm_drop_behind k m1 = Inr m'"
        using "1.prems"(1) ne p by (auto simp: tm_drop_behind.simps [of k m] split: sum.splits)
      with "1.IH" [OF ne p True] "1.prems"(2) tm_all_pop_front show ?thesis by blast
    next
      case False
      with "1.prems" ne p show ?thesis by (simp add: tm_drop_behind.simps [of k m])
    qed
  qed
qed

lemma tm_all_set_next: "tm_all P m \<Longrightarrow> tm_set_next m it nxt = Inr m' \<Longrightarrow> tm_all P m'"
  using tm_all_deref [of P m it]
  by (auto simp: tm_set_next_def tm_deref_def rbind_Inr_iff intro!: tm_all_update)

lemma tm_all_assign:
  assumes "tm_all P m" "tm_deref m it = Inr e" "P (fst e) v" "tm_assign m it v = Inr m'"
  shows "tm_all P m'"
  using assms by (auto simp: tm_assign_def tm_deref_def rbind_Inr_iff intro!: tm_all_update)

lemma tm_all_append:
  assumes "tm_all P m" "P k v" "tm_append m k v = Inr (m', it, ok)"
  shows "tm_all P m' \<and> ok \<and> it = Some (tm_slot (tm_tail m) k)"
proof -
  let ?i = "tm_slot (tm_tail m) k"
  let ?m2 = "m\<lparr>dyn_array := (dyn_array m)[?i := Some ((k, v), None)]\<rparr>"
  let ?link = "if tm_empty ?m2 then Inr (?m2\<lparr>tm_head := Some ?i\<rparr>)
    else tm_set_next ?m2 (tm_rbegin ?m2) (Some ?i)"
  have t: "tm_tail m \<noteq> 0" using assms(3) by (auto simp: tm_append_def)
  have "rbind (uat (dyn_array m) ?i) (\<lambda>_. rbind ?link (\<lambda>m3.
      Inr (m3\<lparr>tm_back := Some ?i\<rparr>, Some ?i, True))) = Inr (m', it, ok)"
    using assms(3) unfolding tm_append_def Let_def if_not_P [OF t] .
  then obtain m3 where m3: "?link = Inr m3"
    and r: "Inr (m3\<lparr>tm_back := Some ?i\<rparr>, Some ?i, True) = (Inr (m', it, ok) :: (_ \<times> _ \<times> bool) result)"
    by (elim rbind_InrE)
  have all: "tm_all P ?m2" using assms(1,2) by (intro tm_all_update) simp_all
  have "tm_all P m3"
  proof (cases "tm_empty ?m2")
    case True
    with m3 have "m3 = ?m2\<lparr>tm_head := Some ?i\<rparr>" by simp
    with all show ?thesis by (simp only: tm_all_more)
  next
    case False
    then show ?thesis using m3 tm_all_set_next [OF all] by simp
  qed
  with r show ?thesis by auto
qed

lemma tm_all_try_emplace:
  assumes "tm_all P m" "tm_try_emplace m k v = Inr (m', it, ok)" "P k v"
  shows "tm_all P m'"
proof (cases "k < tm_min m")
  case True
  with assms(1,2) show ?thesis
    by (auto simp: tm_try_emplace_def rbind_Inr_iff split: if_splits)
next
  case False
  then obtain m1 where "tm_drop_behind k (m\<lparr>tm_min := k\<rparr>) = Inr m1" "tm_append m1 k v = Inr (m', it, ok)"
    using assms(2) by (auto simp: tm_try_emplace_def rbind_Inr_iff)
  with tm_all_drop_behind [of k "m\<lparr>tm_min := k\<rparr>" m1 P] tm_all_append [of P m1 k v m' it ok] assms(1,3)
  show ?thesis by simp
qed

text \<open>A search that finds something finds an entry of that key.\<close>

lemma tm_find_key:
  assumes "tm_find m k = Inr it" "tm_deref m it = Inr e"
  shows "fst e = k"
proof -
  obtain n where n: "tm_node m it = Inr n" "e = fst n" using assms(2) by (auto simp: tm_deref_def rbind_Inr_iff)
  then obtain i where i: "it = Some i" by (cases it) (auto simp: tm_node_def)
  show ?thesis
    using assms(1) n unfolding i tm_find_def tm_node_def tm_end_def
    by (auto simp: rbind_Inr_iff uat_Inr_iff Let_def split: if_splits option.splits)
qed

lemma optimistic_find_front_key:
  assumes "optimistic_find_front m k = Inr it" "tm_deref m it = Inr e"
  shows "fst e = k"
  using assms tm_find_key [of m k it e]
  by (auto simp: optimistic_find_front_def rbind_Inr_iff Let_def split: if_splits)

end
