(* ===== verification/Certifier.thy ===== *)
theory Certifier
  imports Wire Buffers Dynamic_Bitset Tail_Map
begin

text \<open>
  \<open>certifier::Certifier\<close> (\<open>ubft/src/certifier/certifier.hpp\<close>). A certifier acknowledges
  messages by index. On the fast path replicas promise to certify an index; on the slow path
  each signs the hash of (identifier, index, message), sends the signature, and a quorum of
  verified signatures makes a certificate.

  What is outside the class is kept as follows.
  \<^item> \<open>Crypto\<close> (\<open>ubft/src/crypto.hpp\<close>) and the hash are a record of functions: \<open>crypto_verify\<close>
    throws for a process without a known key, the primitives behind it are parameters.
  \<^item> A \<open>tail_p2p\<close> sender is the list of what was sent, a receiver the list of what it will
    deliver; \<open>cf_deliver_promise\<close> and \<open>cf_deliver_share\<close> are the network.
  \<^item> A task queue of the thread pool is the list of its closures' data, the oldest dropped when
    it grows beyond \<open>tail\<close>; \<open>cf_run_compute\<close> and \<open>cf_run_check\<close> are a worker running any one
    of them.
  \<^item> \<open>[begin, end)\<close> of an acknowledged message is the bytes there, and a buffer of
    \<open>buffer_pool\<close> only matters through the size it refuses.
\<close>

section \<open>Crypto\<close>

record crypto =
  my_id :: proc_id
  public_keys :: "proc_id list"
  sign_hash :: "bytes \<Rightarrow> signature"
  verify_hash :: "signature \<Rightarrow> bytes \<Rightarrow> proc_id \<Rightarrow> bool"
  blake3 :: "bytes \<Rightarrow> bytes"

definition crypto_verify :: "crypto \<Rightarrow> signature \<Rightarrow> bytes \<Rightarrow> proc_id \<Rightarrow> bool result" where
  "crypto_verify cr sig msg node_id =
     (if node_id \<notin> set (public_keys cr) then Inl (Runtime_error ''Missing public key for {}!'')
      else Inr (verify_hash cr sig msg node_id))"

text \<open>\<open>blake3_init\<close>, three \<open>blake3_update\<close>s and \<open>blake3_final\<close>: the hash of what was fed.\<close>

definition cert_digest :: "crypto \<Rightarrow> u64 \<Rightarrow> u64 \<Rightarrow> bytes \<Rightarrow> bytes" where
  "cert_digest cr ident idx msg = blake3 cr (le64 ident @ le64 idx @ msg)"

section \<open>MessageData\<close>

record message_data =
  md_identifier :: u64
  md_index :: u64
  md_bytes :: bytes
  md_hash :: "bytes option"
  md_other_replicas :: u64
  md_shares :: "(nat \<times> share_message) list"
  md_promised :: dynamic_bitset

definition md_new :: "u64 \<Rightarrow> u64 \<Rightarrow> bytes \<Rightarrow> u64 \<Rightarrow> message_data result" where
  "md_new ident idx bs other_replicas =
     rbind (bitset_new other_replicas) (\<lambda>promised.
     Inr \<lparr>md_identifier = ident, md_index = idx, md_bytes = bs, md_hash = None,
          md_other_replicas = other_replicas, md_shares = [], md_promised = promised\<rparr>)"

definition md_compute_hash :: "crypto \<Rightarrow> message_data \<Rightarrow> bytes \<times> message_data" where
  "md_compute_hash cr md =
     (case md_hash md of
        Some h \<Rightarrow> (h, md)
      | None \<Rightarrow> let h = cert_digest cr (md_identifier md) (md_index md) (md_bytes md)
                in (h, md\<lparr>md_hash := Some h\<rparr>))"

definition md_received_promise :: "nat \<Rightarrow> message_data \<Rightarrow> (message_data \<times> bool) result" where
  "md_received_promise replica_index md =
     rbind (bitset_set (md_promised md) replica_index) (\<lambda>r. Inr (md\<lparr>md_promised := fst r\<rparr>, snd r))"

definition md_received_share :: "nat \<Rightarrow> share_message \<Rightarrow> message_data \<Rightarrow> message_data \<times> bool" where
  "md_received_share replica_index share md =
     (md\<lparr>md_shares := alist_insert replica_index share (md_shares md)\<rparr>,
      map_of (md_shares md) replica_index = None)"

definition md_pollable_promise :: "message_data \<Rightarrow> bool" where
  "md_pollable_promise md \<longleftrightarrow> bitset_full (md_promised md)"

definition md_quorum :: "message_data \<Rightarrow> u64" where
  "md_quorum md = (md_other_replicas md + 1) div 2 + 1"

definition md_pollable_certificate :: "message_data \<Rightarrow> bool" where
  "md_pollable_certificate md \<longleftrightarrow> md_quorum md \<le> of_nat (length (md_shares md))"

text \<open>Who sent a share: a receiver's process, or ourselves for the index after the last receiver.\<close>

definition share_source :: "proc_id list \<Rightarrow> proc_id \<Rightarrow> nat \<Rightarrow> proc_id" where
  "share_source receivers me replica = (if replica < length receivers then receivers ! replica else me)"

definition md_build_certificate :: "proc_id list \<Rightarrow> proc_id \<Rightarrow> message_data \<Rightarrow> certificate result" where
  "md_build_certificate receivers me md =
     (if \<not> md_pollable_certificate md
      then Inl (Logic_error ''Trying to build a non-pollable certificate.'')
      else Inr (cert_build (md_identifier md) (md_index md)
        (map (\<lambda>p. (share_source receivers me (fst p), sm_signature (snd p)))
           (take (unat (md_quorum md)) (md_shares md)))
        (md_bytes md)))"

text \<open>The first share of the source decides.\<close>

fun md_signature_verified ::
  "proc_id list \<Rightarrow> proc_id \<Rightarrow> (nat \<times> share_message) list \<Rightarrow> proc_id \<Rightarrow> signature \<Rightarrow> bool" where
  "md_signature_verified receivers me [] source sig = False"
| "md_signature_verified receivers me ((r, s) # ss) source sig =
     (if share_source receivers me r = source then sig = sm_signature s
      else md_signature_verified receivers me ss source sig)"

section \<open>The state of a certifier\<close>

record verified_share =
  vs_replica :: nat
  vs_share :: share_message
  vs_valid :: bool

record certifier =
  cf_crypto :: crypto
  cf_tail :: u64
  cf_max_msg_size :: u64
  cf_identifier :: u64
  cf_promise_receivers :: "proc_id list"
  cf_share_receivers :: "proc_id list"
  cf_promise_inbox :: "u64 list list"
  cf_share_inbox :: "bytes list list"
  cf_promise_sent :: "u64 list list"
  cf_share_sent :: "share_message list list"
  run_fast_path :: bool
  run_slow_path :: bool
  msg_tail :: "message_data tail_map"
  sorted_computed_shares :: "share_message option tail_map"
  buffered_promises :: "u64 list list"
  buffered_shares :: "share_message list list"
  next_promise :: u64
  next_certificate :: u64
  cf_ticks :: u64
  computed_shares :: "share_message list"
  verified_shares :: "verified_share list"
  my_shares :: "verified_share list"
  queued_share_computations :: "(u64 \<times> bytes) list"
  compute_tasks :: "(u64 \<times> bytes) list"
  check_tasks :: "(share_message \<times> bytes) list list"

text \<open>
  The constructor, for as many promise senders, promise receivers, share senders and share
  receivers as the assertion demands; \<open>ident\<close> is the hash of the name (\<open>XXH64\<close>).
\<close>

definition certifier_new ::
  "crypto \<Rightarrow> u64 \<Rightarrow> u64 \<Rightarrow> u64 \<Rightarrow> proc_id list \<Rightarrow> proc_id list \<Rightarrow> certifier" where
  "certifier_new cr tail max_msg_size ident promise_ids share_ids =
     (let n = length share_ids in
      \<lparr>cf_crypto = cr, cf_tail = tail, cf_max_msg_size = max_msg_size, cf_identifier = ident,
       cf_promise_receivers = promise_ids, cf_share_receivers = share_ids,
       cf_promise_inbox = replicate n [], cf_share_inbox = replicate n [],
       cf_promise_sent = replicate n [], cf_share_sent = replicate n [],
       run_fast_path = True, run_slow_path = False,
       msg_tail = tm_new tail, sorted_computed_shares = tm_new tail,
       buffered_promises = replicate n [], buffered_shares = replicate n [],
       next_promise = 0, next_certificate = 0, cf_ticks = 0,
       computed_shares = [], verified_shares = [], my_shares = [],
       queued_share_computations = [], compute_tasks = [], check_tasks = replicate n []\<rparr>)"

section \<open>Shares\<close>

definition enqueue_share_verification :: "share_message \<Rightarrow> nat \<Rightarrow> certifier \<Rightarrow> certifier result" where
  "enqueue_share_verification share replica c =
     rbind (optimistic_find_front (msg_tail c) (sm_index share)) (\<lambda>it.
     rbind (tm_deref (msg_tail c) it) (\<lambda>e.
       let hm = md_compute_hash (cf_crypto c) (snd e) in
       rbind (tm_assign (msg_tail c) it (snd hm)) (\<lambda>m.
       rbind (uat (check_tasks c) replica) (\<lambda>q.
       Inr (c\<lparr>msg_tail := m,
              check_tasks := (check_tasks c)[replica := push_bounded (cf_tail c) (share, fst hm) q]\<rparr>)))))"

definition handle_share :: "share_message \<Rightarrow> nat \<Rightarrow> certifier \<Rightarrow> certifier result" where
  "handle_share share replica c =
     rbind (optimistic_find_front (msg_tail c) (sm_index share)) (\<lambda>md_it.
       if md_it \<noteq> tm_end (msg_tail c) then enqueue_share_verification share replica c
       else
         rbind (uat (buffered_shares c) replica) (\<lambda>shares.
           if shares \<noteq> [] \<and> sm_index (last shares) \<ge> sm_index share
           then Inl (Logic_error ''Unexpected Byzantine behavior.'')
           else if length shares + 1 > unat (cf_tail c) \<and> shares = [] then Inl Undefined_behaviour
           else Inr (c\<lparr>buffered_shares := (buffered_shares c)[replica :=
                  (if length shares + 1 > unat (cf_tail c) then tl shares else shares) @ [share]]\<rparr>)))"

text \<open>One share per receiver and turn; a polled message that is no share is thrown on.\<close>

definition poll_share :: "nat \<Rightarrow> certifier \<Rightarrow> certifier result" where
  "poll_share r c =
     rbind (uat (cf_share_inbox c) r) (\<lambda>inbox.
       case inbox of
         [] \<Rightarrow> Inr c
       | bs # rest \<Rightarrow>
           let c1 = c\<lparr>cf_share_inbox := (cf_share_inbox c)[r := rest]\<rparr> in
           if length bs > 8 + SignatureLength
           then Inl (Runtime_error ''Resize tried to reallocate beyond the initial size.'')
           else rbind (share_try_from bs) (\<lambda>share.
             case share of
               Inl err \<Rightarrow> Inl (Invalid_argument err)
             | Inr sm \<Rightarrow> handle_share sm r c1))"

definition poll_shares :: "certifier \<Rightarrow> certifier result" where
  "poll_shares c = rfold poll_share [0 ..< length (cf_share_receivers c)] c"

definition handle_verified_share :: "verified_share \<Rightarrow> certifier \<Rightarrow> certifier result" where
  "handle_verified_share vs c =
     (if \<not> vs_valid vs then Inl (Logic_error ''Unexpected Byzantine behavior.'')
      else
        rbind (optimistic_find_front (msg_tail c) (sm_index (vs_share vs))) (\<lambda>md_it.
          if md_it = tm_end (msg_tail c) then Inr c
          else
            rbind (tm_deref (msg_tail c) md_it) (\<lambda>e.
              let r = md_received_share (vs_replica vs) (vs_share vs) (snd e) in
              if \<not> snd r then Inl (Logic_error ''Unimplemented: Byzantine behavior, share sent twice.'')
              else rbind (tm_assign (msg_tail c) md_it (fst r)) (\<lambda>m. Inr (c\<lparr>msg_tail := m\<rparr>)))))"

definition poll_verified_shares :: "certifier \<Rightarrow> certifier result" where
  "poll_verified_shares c =
     rbind (rfold handle_verified_share (verified_shares c) (c\<lparr>verified_shares := []\<rparr>)) (\<lambda>c1.
     rfold handle_verified_share (my_shares c1) (c1\<lparr>my_shares := []\<rparr>))"

text \<open>Every queued computation gets its place in \<open>sorted_computed_shares\<close> and becomes a task.\<close>

definition offload_share_computation :: "certifier \<Rightarrow> certifier result" where
  "offload_share_computation c =
     rbind (rfold (\<lambda>(index, buffer) c.
         rbind (tm_try_emplace (sorted_computed_shares c) index None) (\<lambda>r.
         Inr (c\<lparr>sorted_computed_shares := fst r,
                compute_tasks := push_bounded (cf_tail c) (index, buffer) (compute_tasks c)\<rparr>)))
       (queued_share_computations c) c) (\<lambda>c1.
     Inr (c1\<lparr>queued_share_computations := []\<rparr>))"

text \<open>\<open>pollComputedShares\<close>: file what was computed, then send in order and without gaps.\<close>

definition file_computed_share :: "share_message \<Rightarrow> certifier \<Rightarrow> certifier result" where
  "file_computed_share share c =
     rbind (tm_find (sorted_computed_shares c) (sm_index share)) (\<lambda>it.
       if it = tm_end (sorted_computed_shares c) then Inr c
       else rbind (tm_assign (sorted_computed_shares c) it (Some share)) (\<lambda>m.
         Inr (c\<lparr>sorted_computed_shares := m\<rparr>)))"

function send_computed_shares :: "certifier \<Rightarrow> certifier result" where
  "send_computed_shares c =
     (if tm_empty (msg_tail c) \<or> tm_empty (sorted_computed_shares c) then Inr c
      else case (tm_deref (msg_tail c) (tm_begin (msg_tail c)),
                 tm_deref (sorted_computed_shares c) (tm_begin (sorted_computed_shares c))) of
        (Inl e, _) \<Rightarrow> Inl e
      | (_, Inl e) \<Rightarrow> Inl e
      | (Inr first_msg, Inr first_share) \<Rightarrow>
          if fst first_share < fst first_msg then
            (case tm_pop_front (sorted_computed_shares c) of
               Inl e \<Rightarrow> Inl e
             | Inr m \<Rightarrow> send_computed_shares (c\<lparr>sorted_computed_shares := m\<rparr>))
          else (case snd first_share of
              None \<Rightarrow> Inr c
            | Some share \<Rightarrow>
                (case tm_pop_front (sorted_computed_shares c) of
                   Inl e \<Rightarrow> Inl e
                 | Inr m \<Rightarrow> send_computed_shares
                     (c\<lparr>cf_share_sent := map (\<lambda>out. out @ [share]) (cf_share_sent c),
                        my_shares := my_shares c @ [\<lparr>vs_replica = length (cf_share_receivers c),
                                                    vs_share = share, vs_valid = True\<rparr>],
                        sorted_computed_shares := m\<rparr>))))"
  by pat_completeness auto
termination
  by (relation "measure (\<lambda>c. tm_used (sorted_computed_shares c))") (auto simp: tm_pop_front_used)

declare send_computed_shares.simps [simp del]

definition poll_computed_shares :: "certifier \<Rightarrow> certifier result" where
  "poll_computed_shares c =
     rbind (rfold file_computed_share (computed_shares c) (c\<lparr>computed_shares := []\<rparr>)) send_computed_shares"

section \<open>Promises\<close>

definition handle_promise :: "u64 \<Rightarrow> nat \<Rightarrow> certifier \<Rightarrow> certifier result" where
  "handle_promise index replica c =
     rbind (optimistic_find_front (msg_tail c) index) (\<lambda>md_it.
       if md_it = tm_end (msg_tail c) then
         rbind (uat (buffered_promises c) replica) (\<lambda>buffer.
           if buffer \<noteq> [] \<and> last buffer \<ge> index
           then Inl (Logic_error ''Unimplemented: Byzantine behavior, promises sent out of order.'')
           else Inr (c\<lparr>buffered_promises :=
                  (buffered_promises c)[replica := push_bounded (cf_tail c) index buffer]\<rparr>))
       else
         rbind (tm_deref (msg_tail c) md_it) (\<lambda>e.
         rbind (md_received_promise replica (snd e)) (\<lambda>r.
           if \<not> snd r then Inl (Logic_error ''Unimplemented: Byzantine behavior, promised twice.'')
           else rbind (tm_assign (msg_tail c) md_it (fst r)) (\<lambda>m. Inr (c\<lparr>msg_tail := m\<rparr>)))))"

definition poll_promise_from :: "nat \<Rightarrow> certifier \<Rightarrow> certifier result" where
  "poll_promise_from r c =
     rbind (uat (cf_promise_inbox c) r) (\<lambda>inbox.
       case inbox of
         [] \<Rightarrow> Inr c
       | index # rest \<Rightarrow>
           handle_promise index r (c\<lparr>cf_promise_inbox := (cf_promise_inbox c)[r := rest]\<rparr>))"

definition poll_promises :: "certifier \<Rightarrow> certifier result" where
  "poll_promises c = rfold poll_promise_from [0 ..< length (cf_promise_receivers c)] c"

text \<open>The position of the first receiver of a process.\<close>

fun receiver_of :: "proc_id \<Rightarrow> proc_id list \<Rightarrow> nat option" where
  "receiver_of from [] = None"
| "receiver_of from (p # ps) = (if p = from then Some 0 else map_option Suc (receiver_of from ps))"

definition received_implicit_promise :: "proc_id \<Rightarrow> u64 \<Rightarrow> certifier \<Rightarrow> certifier result" where
  "received_implicit_promise from index c =
     rbind (optimistic_find_front (msg_tail c) index) (\<lambda>it.
       if it = tm_end (msg_tail c) then Inr c
       else case receiver_of from (cf_promise_receivers c) of
           None \<Rightarrow> Inl (Runtime_error ''Replica {} not found'')
         | Some replica \<Rightarrow>
             rbind (tm_deref (msg_tail c) it) (\<lambda>e.
             rbind (md_received_promise replica (snd e)) (\<lambda>r.
             rbind (tm_assign (msg_tail c) it (fst r)) (\<lambda>m. Inr (c\<lparr>msg_tail := m\<rparr>)))))"

section \<open>Acknowledging a message\<close>

text \<open>Buffered promises and shares below the index are dropped, the one that matches is replayed.\<close>

definition replay_promise :: "u64 \<Rightarrow> tm_iterator \<Rightarrow> nat \<Rightarrow> certifier \<Rightarrow> certifier result" where
  "replay_promise index it replica c =
     rbind (uat (buffered_promises c) replica) (\<lambda>buffer.
       let promises = dropWhile (\<lambda>p. p < index) buffer;
           c1 = c\<lparr>buffered_promises := (buffered_promises c)[replica := promises]\<rparr> in
       if promises = [] \<or> hd promises \<noteq> index then Inr c1
       else
         rbind (tm_deref (msg_tail c) it) (\<lambda>e.
         rbind (md_received_promise replica (snd e)) (\<lambda>r.
           if \<not> snd r then Inl (Logic_error ''Unimplemented: Byzantine behavior, promised twice.'')
           else rbind (tm_assign (msg_tail c) it (fst r)) (\<lambda>m.
             Inr (c1\<lparr>buffered_promises := (buffered_promises c)[replica := tl promises],
                     msg_tail := m\<rparr>)))))"

definition replay_share :: "u64 \<Rightarrow> nat \<Rightarrow> certifier \<Rightarrow> certifier result" where
  "replay_share index replica c =
     rbind (uat (buffered_shares c) replica) (\<lambda>buffer.
       let shares = dropWhile (\<lambda>s. sm_index s < index) buffer in
       if shares = [] \<or> sm_index (hd shares) \<noteq> index
       then Inr (c\<lparr>buffered_shares := (buffered_shares c)[replica := shares]\<rparr>)
       else enqueue_share_verification (hd shares) replica
         (c\<lparr>buffered_shares := (buffered_shares c)[replica := tl shares]\<rparr>))"

text \<open>The end of \<open>acknowledge\<close>: stale results make room, the message is kept for signing.\<close>

definition queue_share_computation :: "u64 \<Rightarrow> bytes \<Rightarrow> certifier \<Rightarrow> certifier result" where
  "queue_share_computation index bs c =
     (if cf_tail c = 0 then Inl Spins
      else
        let c1 = c\<lparr>computed_shares :=
                     drop (length (computed_shares c) + 1 - unat (cf_tail c)) (computed_shares c)\<rparr>;
            c2 = (if length (queued_share_computations c1) + 1 > unat (cf_tail c1)
                  then c1\<lparr>queued_share_computations := tl (queued_share_computations c1)\<rparr> else c1)
        in if length bs > unat (cf_max_msg_size c)
           then Inl (Runtime_error ''Resize tried to reallocate beyond the initial size.'')
           else Inr (c2\<lparr>queued_share_computations := queued_share_computations c2 @ [(index, bs)]\<rparr>))"

definition acknowledge :: "u64 \<Rightarrow> bytes \<Rightarrow> bool \<Rightarrow> certifier \<Rightarrow> certifier result" where
  "acknowledge index bs implicit_promise c =
     rbind (md_new (cf_identifier c) index bs (of_nat (length (cf_share_receivers c)))) (\<lambda>md.
     rbind (tm_try_emplace (msg_tail c) index md) (\<lambda>(m, it, ok).
       if \<not> ok then Inl (Runtime_error ''Acknowledged messages out of order.'')
       else
         let c1 = c\<lparr>msg_tail := m\<rparr> in
         rbind (if run_fast_path c1 then
                  rfold (replay_promise index it) [0 ..< length (buffered_promises c1)]
                    (if implicit_promise then c1
                     else c1\<lparr>cf_promise_sent := map (\<lambda>out. out @ [index]) (cf_promise_sent c1)\<rparr>)
                else Inr c1) (\<lambda>c2.
         rbind (rfold (replay_share index) [0 ..< length (buffered_shares c2)] c2)
           (queue_share_computation index bs))))"

section \<open>Polling\<close>

definition poll_promise :: "certifier \<Rightarrow> (u64 option \<times> certifier) result" where
  "poll_promise c =
     (if tm_empty (msg_tail c) then Inr (None, c)
      else
        rbind (tm_deref (msg_tail c) (tm_begin (msg_tail c))) (\<lambda>b.
          let c1 = c\<lparr>next_promise := max (next_promise c) (fst b)\<rparr> in
          rbind (tm_find (msg_tail c1) (next_promise c1)) (\<lambda>it.
            if it = tm_end (msg_tail c1) then Inr (None, c1)
            else rbind (tm_deref (msg_tail c1) it) (\<lambda>e.
              if \<not> md_pollable_promise (snd e) then Inr (None, c1)
              else Inr (Some (next_promise c1), c1\<lparr>next_promise := next_promise c1 + 1\<rparr>)))))"

definition poll_certificate :: "certifier \<Rightarrow> (certificate option \<times> certifier) result" where
  "poll_certificate c =
     (if tm_empty (msg_tail c) then Inr (None, c)
      else
        rbind (tm_deref (msg_tail c) (tm_begin (msg_tail c))) (\<lambda>b.
          let c1 = c\<lparr>next_certificate := max (next_certificate c) (fst b)\<rparr> in
          rbind (tm_find (msg_tail c1) (next_certificate c1)) (\<lambda>it.
            if it = tm_end (msg_tail c1) then Inr (None, c1)
            else rbind (tm_deref (msg_tail c1) it) (\<lambda>e.
              if \<not> md_pollable_certificate (snd e) then Inr (None, c1)
              else rbind (md_build_certificate (cf_share_receivers c1) (my_id (cf_crypto c1)) (snd e))
                (\<lambda>certificate.
                  Inr (Some certificate, c1\<lparr>next_certificate := next_certificate c1 + 1\<rparr>))))))"

section \<open>Checking a certificate\<close>

definition signature_verified :: "certifier \<Rightarrow> u64 \<Rightarrow> proc_id \<Rightarrow> signature \<Rightarrow> bool result" where
  "signature_verified c idx source sig =
     rbind (tm_find (msg_tail c) idx) (\<lambda>it.
       if it = tm_end (msg_tail c) then Inr False
       else rbind (tm_deref (msg_tail c) it) (\<lambda>e.
         Inr (md_signature_verified (cf_share_receivers c) (my_id (cf_crypto c))
               (md_shares (snd e)) source sig)))"

definition cf_quorum :: "certifier \<Rightarrow> u64" where
  "cf_quorum c = (of_nat (length (cf_share_receivers c)) + 1) div 2 + 1"

fun check_shares :: "certifier \<Rightarrow> certificate \<Rightarrow> (proc_id \<times> signature) list \<Rightarrow> bool result" where
  "check_shares c cert [] = Inr True"
| "check_shares c cert ((signer, sig) # rest) =
     rbind (signature_verified c (cert_index cert) signer sig) (\<lambda>known.
       if known then check_shares c cert rest
       else
         rbind (crypto_verify (cf_crypto c) sig
           (cert_digest (cf_crypto c) (cert_identifier cert) (cert_index cert) (cert_message cert)) signer)
         (\<lambda>valid. if \<not> valid then Inr False else check_shares c cert rest))"

definition certifier_check :: "certifier \<Rightarrow> certificate \<Rightarrow> bool result" where
  "certifier_check c cert =
     (if cert_identifier cert \<noteq> cf_identifier c then Inr False
      else if cert_nb_shares cert \<noteq> cf_quorum c then Inr False
      else if \<not> distinct (map fst (cert_shares cert)) then Inr False
      else check_shares c cert (cert_shares cert))"

section \<open>The rest of the interface\<close>

definition toggle_fast_path :: "bool \<Rightarrow> certifier \<Rightarrow> certifier" where
  "toggle_fast_path enable c = c\<lparr>run_fast_path := enable\<rparr>"

definition toggle_slow_path :: "bool \<Rightarrow> certifier \<Rightarrow> certifier" where
  "toggle_slow_path enable c = c\<lparr>run_slow_path := enable\<rparr>"

function pop_messages :: "u64 option \<Rightarrow> message_data tail_map \<Rightarrow> message_data tail_map result" where
  "pop_messages index m =
     (if tm_empty m then Inr m
      else case tm_deref m (tm_begin m) of
        Inl e \<Rightarrow> Inl e
      | Inr b \<Rightarrow>
          if (case index of None \<Rightarrow> True | Some i \<Rightarrow> fst b \<le> i) then
            (case tm_pop_front m of Inl e \<Rightarrow> Inl e | Inr m' \<Rightarrow> pop_messages index m')
          else Inr m)"
  by pat_completeness auto
termination
  by (relation "measure (\<lambda>(_, m). tm_used m)") (auto simp: tm_pop_front_used)

declare pop_messages.simps [simp del]

definition forget_messages :: "u64 option \<Rightarrow> certifier \<Rightarrow> certifier result" where
  "forget_messages index c = rbind (pop_messages index (msg_tail c)) (\<lambda>m. Inr (c\<lparr>msg_tail := m\<rparr>))"

definition genesis_certificate :: "certifier \<Rightarrow> bytes \<Rightarrow> certificate" where
  "genesis_certificate c value = cert_build (cf_identifier c) 0 [] value"

definition cf_tick :: "certifier \<Rightarrow> certifier result" where
  "cf_tick c =
     (if tm_empty (msg_tail c) then Inr c
      else
        rbind (if run_fast_path c then poll_promises c else Inr c) (\<lambda>c1.
          if \<not> run_slow_path c1 then Inr c1
          else
            let c2 = c1\<lparr>cf_ticks := cf_ticks c1 + 1\<rparr> in
            if cf_ticks c2 mod 16 \<noteq> 0 then Inr c2
            else
              rbind (poll_shares c2) (\<lambda>c3.
              rbind (poll_computed_shares c3) (\<lambda>c4.
              rbind (offload_share_computation c4) poll_verified_shares))))"

section \<open>The network and the workers\<close>

definition cf_deliver_promise :: "nat \<Rightarrow> u64 \<Rightarrow> certifier \<Rightarrow> certifier" where
  "cf_deliver_promise r index c =
     c\<lparr>cf_promise_inbox := (cf_promise_inbox c)[r := cf_promise_inbox c ! r @ [index]]\<rparr>"

definition cf_deliver_share :: "nat \<Rightarrow> bytes \<Rightarrow> certifier \<Rightarrow> certifier" where
  "cf_deliver_share r bs c =
     c\<lparr>cf_share_inbox := (cf_share_inbox c)[r := cf_share_inbox c ! r @ [bs]]\<rparr>"

definition cf_run_compute :: "nat \<Rightarrow> certifier \<Rightarrow> certifier" where
  "cf_run_compute i c =
     (if i < length (compute_tasks c) then
        let t = compute_tasks c ! i;
            sig = sign_hash (cf_crypto c) (cert_digest (cf_crypto c) (cf_identifier c) (fst t) (snd t))
        in c\<lparr>compute_tasks := remove_nth i (compute_tasks c),
             computed_shares := computed_shares c @ [\<lparr>sm_index = fst t, sm_signature = sig\<rparr>]\<rparr>
      else c)"

definition cf_run_check :: "nat \<Rightarrow> nat \<Rightarrow> certifier \<Rightarrow> certifier result" where
  "cf_run_check replica i c =
     (if replica < length (check_tasks c) \<and> i < length (check_tasks c ! replica) then
        let t = check_tasks c ! replica ! i in
        rbind (uat (cf_share_receivers c) replica) (\<lambda>from.
        rbind (crypto_verify (cf_crypto c) (sm_signature (fst t)) (snd t) from) (\<lambda>valid.
        Inr (c\<lparr>check_tasks := (check_tasks c)[replica := remove_nth i (check_tasks c ! replica)],
               verified_shares := verified_shares c @
                 [\<lparr>vs_replica = replica, vs_share = fst t, vs_valid = valid\<rparr>]\<rparr>)))
      else Inr c)"

end
