(* ===== verification/Certifier_Safety.thy ===== *)
theory Certifier_Safety
  imports Certifier
begin

text \<open>
  What certificates are worth. \<open>cf_inv\<close> ties everything a certifier stores to a relation \<open>H\<close>
  of indices and messages: the shares it counts for an index are signatures of the hash of a
  message related to that index. For an owner that acknowledges an index once, the relation is the
  history of what was acknowledged (\<open>acked\<close>); for any owner, it is the full relation
  (\<open>cf_sound\<close>). Every step keeps it, whatever arrives from the network
  and in whatever order workers run, so a certificate that is polled carries a quorum of valid
  signatures of distinct processes, and another certifier accepts it.
\<close>

section \<open>The invariant\<close>

definition signed_by :: "crypto \<Rightarrow> proc_id list \<Rightarrow> bytes \<Rightarrow> nat \<Rightarrow> signature \<Rightarrow> bool" where
  "signed_by cr recv digest r sig \<longleftrightarrow>
     (if r < length recv then verify_hash cr sig digest (recv ! r)
      else r = length recv \<and> sig = sign_hash cr digest)"

definition share_signed ::
  "crypto \<Rightarrow> u64 \<Rightarrow> proc_id list \<Rightarrow> (u64 \<Rightarrow> bytes \<Rightarrow> bool) \<Rightarrow> nat \<Rightarrow> share_message \<Rightarrow> bool" where
  "share_signed cr ident recv H r s \<longleftrightarrow> (\<exists>msg. H (sm_index s) msg \<and>
     signed_by cr recv (cert_digest cr ident (sm_index s) msg) r (sm_signature s))"

definition md_inv ::
  "crypto \<Rightarrow> u64 \<Rightarrow> proc_id list \<Rightarrow> (u64 \<Rightarrow> bytes \<Rightarrow> bool) \<Rightarrow> u64 \<Rightarrow> message_data \<Rightarrow> bool" where
  "md_inv cr ident recv H k md \<longleftrightarrow>
     md_identifier md = ident \<and> md_index md = k \<and> H k (md_bytes md) \<and>
     md_other_replicas md = of_nat (length recv) \<and>
     (\<forall>h. md_hash md = Some h \<longrightarrow> h = cert_digest cr ident k (md_bytes md)) \<and>
     bitset_inv (md_promised md) \<and> bcapacity (md_promised md) = of_nat (length recv) \<and>
     sorted_keys (md_shares md) \<and>
     (\<forall>p \<in> set (md_shares md). sm_index (snd p) = k \<and> share_signed cr ident recv H (fst p) (snd p))"

definition cf_inv ::
  "crypto \<Rightarrow> u64 \<Rightarrow> proc_id list \<Rightarrow> (u64 \<Rightarrow> bytes \<Rightarrow> bool) \<Rightarrow> certifier \<Rightarrow> bool" where
  "cf_inv cr ident recv H c \<longleftrightarrow>
     cf_crypto c = cr \<and> cf_identifier c = ident \<and> cf_share_receivers c = recv \<and>
     length (check_tasks c) = length recv \<and>
     tm_all (md_inv cr ident recv H) (msg_tail c) \<and>
     tm_all (\<lambda>_ so. \<forall>s. so = Some s \<longrightarrow> share_signed cr ident recv H (length recv) s)
       (sorted_computed_shares c) \<and>
     (\<forall>s \<in> set (computed_shares c). share_signed cr ident recv H (length recv) s) \<and>
     (\<forall>vs \<in> set (verified_shares c) \<union> set (my_shares c).
        vs_valid vs \<longrightarrow> share_signed cr ident recv H (vs_replica vs) (vs_share vs)) \<and>
     (\<forall>q \<in> set (queued_share_computations c) \<union> set (compute_tasks c). H (fst q) (snd q)) \<and>
     (\<forall>q \<in> set (check_tasks c). \<forall>t \<in> set q. \<exists>msg. H (sm_index (fst t)) msg \<and>
        snd t = cert_digest cr ident (sm_index (fst t)) msg)"

lemma share_signed_mono:
  "share_signed cr ident recv H r s \<Longrightarrow> H \<le> H' \<Longrightarrow> share_signed cr ident recv H' r s"
  unfolding share_signed_def by (auto simp: le_fun_def)

lemma md_inv_mono: "md_inv cr ident recv H k md \<Longrightarrow> H \<le> H' \<Longrightarrow> md_inv cr ident recv H' k md"
  unfolding md_inv_def using share_signed_mono [of cr ident recv H _ _ H'] by (auto simp: le_fun_def)

lemma cf_inv_mono:
  assumes "cf_inv cr ident recv H c" "H \<le> H'"
  shows "cf_inv cr ident recv H' c"
proof -
  have H: "H k m \<Longrightarrow> H' k m" for k m using assms(2) by (auto simp: le_fun_def)
  have "tm_all (md_inv cr ident recv H') (msg_tail c)"
    using assms md_inv_mono by (auto simp: cf_inv_def intro: tm_all_mono)
  moreover have "tm_all (\<lambda>_ so. \<forall>s. so = Some s \<longrightarrow> share_signed cr ident recv H' (length recv) s)
      (sorted_computed_shares c)"
    by (rule tm_all_mono [of "\<lambda>_ so. \<forall>s. so = Some s \<longrightarrow> share_signed cr ident recv H (length recv) s"])
      (use assms share_signed_mono in \<open>auto simp: cf_inv_def\<close>)
  ultimately show ?thesis
    using assms share_signed_mono [OF _ assms(2)] H unfolding cf_inv_def by meson
qed

lemma cf_inv_frame [simp]:
  "cf_inv cr ident recv H (c\<lparr>buffered_shares := bs\<rparr>) = cf_inv cr ident recv H c"
  "cf_inv cr ident recv H (c\<lparr>buffered_promises := bp\<rparr>) = cf_inv cr ident recv H c"
  "cf_inv cr ident recv H (c\<lparr>cf_share_inbox := si\<rparr>) = cf_inv cr ident recv H c"
  "cf_inv cr ident recv H (c\<lparr>cf_promise_inbox := pi\<rparr>) = cf_inv cr ident recv H c"
  "cf_inv cr ident recv H (c\<lparr>cf_share_sent := ss\<rparr>) = cf_inv cr ident recv H c"
  "cf_inv cr ident recv H (c\<lparr>cf_promise_sent := ps\<rparr>) = cf_inv cr ident recv H c"
  "cf_inv cr ident recv H (c\<lparr>next_promise := np\<rparr>) = cf_inv cr ident recv H c"
  "cf_inv cr ident recv H (c\<lparr>next_certificate := np\<rparr>) = cf_inv cr ident recv H c"
  "cf_inv cr ident recv H (c\<lparr>cf_ticks := t\<rparr>) = cf_inv cr ident recv H c"
  "cf_inv cr ident recv H (c\<lparr>run_fast_path := b\<rparr>) = cf_inv cr ident recv H c"
  "cf_inv cr ident recv H (c\<lparr>run_slow_path := b\<rparr>) = cf_inv cr ident recv H c"
  by (simp_all add: cf_inv_def)

text \<open>Emptying a queue, and exchanging the message map for one that keeps its invariant.\<close>

lemma cf_inv_drop:
  "cf_inv cr ident recv H c \<Longrightarrow> cf_inv cr ident recv H (c\<lparr>verified_shares := []\<rparr>)"
  "cf_inv cr ident recv H c \<Longrightarrow> cf_inv cr ident recv H (c\<lparr>my_shares := []\<rparr>)"
  "cf_inv cr ident recv H c \<Longrightarrow> cf_inv cr ident recv H (c\<lparr>computed_shares := []\<rparr>)"
  "cf_inv cr ident recv H c \<Longrightarrow> cf_inv cr ident recv H (c\<lparr>queued_share_computations := []\<rparr>)"
  by (simp_all add: cf_inv_def)

lemma cf_inv_msg_tail:
  "cf_inv cr ident recv H c \<Longrightarrow> tm_all (md_inv cr ident recv H) m \<Longrightarrow>
   cf_inv cr ident recv H (c\<lparr>msg_tail := m\<rparr>)"
  by (simp add: cf_inv_def)

lemma cf_inv_messages: "cf_inv cr ident recv H c \<Longrightarrow> tm_all (md_inv cr ident recv H) (msg_tail c)"
  by (simp add: cf_inv_def)

section \<open>Every step keeps it\<close>

lemma md_hash_inv:
  "md_inv cr ident recv H k md \<Longrightarrow>
   fst (md_compute_hash cr md) = cert_digest cr ident k (md_bytes md) \<and>
   md_inv cr ident recv H k (snd (md_compute_hash cr md))"
  by (auto simp: md_inv_def md_compute_hash_def Let_def split: option.splits)

lemma enqueue_share_verification_inv:
  assumes "cf_inv cr ident recv H c" "enqueue_share_verification share r c = Inr c'"
  shows "cf_inv cr ident recv H c'"
proof -
  obtain it e m q where s: "optimistic_find_front (msg_tail c) (sm_index share) = Inr it"
    "tm_deref (msg_tail c) it = Inr e"
    "tm_assign (msg_tail c) it (snd (md_compute_hash (cf_crypto c) (snd e))) = Inr m"
    "uat (check_tasks c) r = Inr q"
    "c' = c\<lparr>msg_tail := m, check_tasks := (check_tasks c)[r :=
       push_bounded (cf_tail c) (share, fst (md_compute_hash (cf_crypto c) (snd e))) q]\<rparr>"
    using assms(2) by (auto simp: enqueue_share_verification_def rbind_Inr_iff Let_def)
  have k: "fst e = sm_index share" using s(1,2) by (rule optimistic_find_front_key)
  have cr: "cf_crypto c = cr" and all: "tm_all (md_inv cr ident recv H) (msg_tail c)"
    using assms(1) by (simp_all add: cf_inv_def)
  have md: "md_inv cr ident recv H (sm_index share) (snd e)"
    using tm_all_deref [OF all s(2)] k by simp
  note h = md_hash_inv [OF md]
  have "tm_all (md_inv cr ident recv H) m"
    using tm_all_assign [OF all s(2) _ s(3)] h k cr by simp
  moreover have "q \<in> set (check_tasks c)" using s(4) by (auto simp: uat_Inr_iff)
  moreover have "H (sm_index share) (md_bytes (snd e))" using md by (simp add: md_inv_def)
  ultimately show ?thesis
    using assms(1) h cr unfolding cf_inv_def s(5)
    by (auto dest!: set_update_subset_insert [THEN subsetD] set_push_bounded [THEN subsetD])
qed

lemma handle_share_inv:
  assumes "cf_inv cr ident recv H c" "handle_share share r c = Inr c'"
  shows "cf_inv cr ident recv H c'"
proof -
  obtain it where it: "optimistic_find_front (msg_tail c) (sm_index share) = Inr it"
    using assms(2) by (auto simp: handle_share_def rbind_Inr_iff)
  show ?thesis
  proof (cases "it = tm_end (msg_tail c)")
    case True
    with assms it show ?thesis by (auto simp: handle_share_def rbind_Inr_iff split: if_split_asm)
  next
    case False
    with assms(2) it have "enqueue_share_verification share r c = Inr c'"
      by (simp add: handle_share_def)
    with assms(1) show ?thesis by (rule enqueue_share_verification_inv)
  qed
qed

lemma poll_share_inv:
  assumes "cf_inv cr ident recv H c" "poll_share r c = Inr c'"
  shows "cf_inv cr ident recv H c'"
proof -
  obtain inbox where inbox: "uat (cf_share_inbox c) r = Inr inbox"
    using assms(2) by (auto simp: poll_share_def rbind_Inr_iff)
  show ?thesis
  proof (cases inbox)
    case Nil
    with assms inbox show ?thesis by (simp add: poll_share_def)
  next
    case (Cons bs rest)
    let ?c1 = "c\<lparr>cf_share_inbox := (cf_share_inbox c)[r := rest]\<rparr>"
    obtain sm where "share_try_from bs = Inr (Inr sm)" "handle_share sm r ?c1 = Inr c'"
      using assms(2) inbox Cons
      by (auto simp: poll_share_def rbind_Inr_iff case_sum_Inr_iff if_Inl_Inr_iff Let_def)
    with assms(1) handle_share_inv [of cr ident recv H ?c1] show ?thesis by simp
  qed
qed

lemma handle_verified_share_inv:
  assumes "cf_inv cr ident recv H c" "handle_verified_share vs c = Inr c'"
    and "vs_valid vs \<Longrightarrow> share_signed cr ident recv H (vs_replica vs) (vs_share vs)"
  shows "cf_inv cr ident recv H c'"
proof (cases "c' = c")
  case False
  then obtain it e m where s: "optimistic_find_front (msg_tail c) (sm_index (vs_share vs)) = Inr it"
    "tm_deref (msg_tail c) it = Inr e" "vs_valid vs"
    "tm_assign (msg_tail c) it (fst (md_received_share (vs_replica vs) (vs_share vs) (snd e))) = Inr m"
    "c' = c\<lparr>msg_tail := m\<rparr>"
    using assms(2) by (auto simp: handle_verified_share_def rbind_Inr_iff Let_def split: if_splits)
  have k: "fst e = sm_index (vs_share vs)" using s(1,2) by (rule optimistic_find_front_key)
  have all: "tm_all (md_inv cr ident recv H) (msg_tail c)" using assms(1) by (simp add: cf_inv_def)
  have md: "md_inv cr ident recv H (fst e) (snd e)" using tm_all_deref [OF all s(2)] .
  have "set (alist_insert k x ps) \<subseteq> insert (k, x) (set ps)" for k x and ps :: "(nat \<times> share_message) list"
    by (induction k x ps rule: alist_insert.induct) auto
  from this [of "vs_replica vs" "vs_share vs" "md_shares (snd e)"]
  have "md_inv cr ident recv H (fst e) (fst (md_received_share (vs_replica vs) (vs_share vs) (snd e)))"
    using md assms(3) [OF s(3)] k
    by (auto simp: md_inv_def md_received_share_def sorted_alist_insert dest!: subsetD)
  from tm_all_assign [OF all s(2) this s(4)] assms(1) show ?thesis
    by (simp add: s(5) cf_inv_msg_tail)
qed (use assms in simp)

lemma poll_verified_shares_inv:
  assumes "cf_inv cr ident recv H c" "poll_verified_shares c = Inr c'"
  shows "cf_inv cr ident recv H c'"
proof -
  obtain c1 where c1: "rfold handle_verified_share (verified_shares c) (c\<lparr>verified_shares := []\<rparr>) = Inr c1"
    "rfold handle_verified_share (my_shares c1) (c1\<lparr>my_shares := []\<rparr>) = Inr c'"
    using assms(2) by (auto simp: poll_verified_shares_def rbind_Inr_iff)
  have vs: "\<And>vs. vs \<in> set (verified_shares c) \<Longrightarrow> vs_valid vs \<Longrightarrow>
      share_signed cr ident recv H (vs_replica vs) (vs_share vs)"
    using assms(1) by (simp add: cf_inv_def)
  have i1: "cf_inv cr ident recv H c1"
    by (rule rfold_invariant [OF c1(1), where P = "cf_inv cr ident recv H"])
      (simp add: assms(1) cf_inv_drop, metis handle_verified_share_inv vs)
  then have vs: "\<And>vs. vs \<in> set (my_shares c1) \<Longrightarrow> vs_valid vs \<Longrightarrow>
      share_signed cr ident recv H (vs_replica vs) (vs_share vs)"
    by (simp add: cf_inv_def)
  show ?thesis
    by (rule rfold_invariant [OF c1(2), where P = "cf_inv cr ident recv H"])
      (simp add: i1 cf_inv_drop, metis handle_verified_share_inv vs)
qed

lemma push_task_inv:
  assumes "cf_inv cr ident recv H c" "H idx bs" "tm_try_emplace (sorted_computed_shares c) idx None = Inr (m, it, ok)"
  shows "cf_inv cr ident recv H (c\<lparr>sorted_computed_shares := m,
    compute_tasks := push_bounded (cf_tail c) (idx, bs) (compute_tasks c)\<rparr>)"
proof -
  let ?P = "\<lambda>_ so. \<forall>s. so = Some s \<longrightarrow> share_signed cr ident recv H (length recv) s"
  have "tm_all ?P (sorted_computed_shares c)" using assms(1) by (simp add: cf_inv_def)
  then have "tm_all ?P m" using assms(3) by (rule tm_all_try_emplace) simp
  with assms(1,2) show ?thesis unfolding cf_inv_def
    by (auto dest!: set_push_bounded [THEN subsetD])
qed

lemma offload_share_computation_inv:
  assumes "cf_inv cr ident recv H c" "offload_share_computation c = Inr c'"
  shows "cf_inv cr ident recv H c'"
proof -
  obtain c1 where c1: "rfold (\<lambda>(index, buffer) c.
         rbind (tm_try_emplace (sorted_computed_shares c) index None) (\<lambda>r.
         Inr (c\<lparr>sorted_computed_shares := fst r,
                compute_tasks := push_bounded (cf_tail c) (index, buffer) (compute_tasks c)\<rparr>)))
       (queued_share_computations c) c = Inr c1" "c' = c1\<lparr>queued_share_computations := []\<rparr>"
    using assms(2) by (auto simp: offload_share_computation_def rbind_Inr_iff)
  have q: "\<And>x. x \<in> set (queued_share_computations c) \<Longrightarrow> H (fst x) (snd x)"
    using assms(1) by (simp add: cf_inv_def)
  have "cf_inv cr ident recv H c1"
    by (rule rfold_invariant [OF c1(1), where P = "cf_inv cr ident recv H"])
      (auto simp: rbind_Inr_iff split: prod.splits intro: assms(1) dest: q intro!: push_task_inv)
  then show ?thesis unfolding c1(2) by (rule cf_inv_drop)
qed

lemma file_computed_share_inv:
  assumes "cf_inv cr ident recv H c" "file_computed_share s c = Inr c'"
    and "share_signed cr ident recv H (length recv) s"
  shows "cf_inv cr ident recv H c'"
proof -
  let ?P = "\<lambda>_ so. \<forall>s. so = Some s \<longrightarrow> share_signed cr ident recv H (length recv) s"
  have all: "tm_all ?P (sorted_computed_shares c)" using assms(1) by (simp add: cf_inv_def)
  obtain it where it: "tm_find (sorted_computed_shares c) (sm_index s) = Inr it"
    using assms(2) by (auto simp: file_computed_share_def rbind_Inr_iff)
  show ?thesis
  proof (cases "it = tm_end (sorted_computed_shares c)")
    case True
    with assms(1,2) it show ?thesis by (simp add: file_computed_share_def)
  next
    case False
    with assms(2) it obtain m where m: "tm_assign (sorted_computed_shares c) it (Some s) = Inr m"
      "c' = c\<lparr>sorted_computed_shares := m\<rparr>"
      by (auto simp: file_computed_share_def rbind_Inr_iff)
    then obtain e where e: "tm_deref (sorted_computed_shares c) it = Inr e"
      by (auto simp: tm_assign_def tm_deref_def rbind_Inr_iff)
    have "tm_all ?P m" using tm_all_assign [OF all e _ m(1)] assms(3) by simp
    with assms(1) show ?thesis unfolding m(2) cf_inv_def by simp
  qed
qed

lemma send_computed_shares_inv:
  "cf_inv cr ident recv H c \<Longrightarrow> send_computed_shares c = Inr c' \<Longrightarrow> cf_inv cr ident recv H c'"
proof (induction c arbitrary: c' rule: send_computed_shares.induct)
  case (1 c)
  let ?P = "\<lambda>_ so. \<forall>s. so = Some s \<longrightarrow> share_signed cr ident recv H (length recv) s"
  have all: "tm_all ?P (sorted_computed_shares c)" and recv: "cf_share_receivers c = recv"
    using "1.prems"(1) by (simp_all add: cf_inv_def)
  note run = "1.prems"(2) [unfolded send_computed_shares.simps [of c]]
  show ?case
  proof (cases "tm_empty (msg_tail c) \<or> tm_empty (sorted_computed_shares c)")
    case True
    with run "1.prems"(1) show ?thesis by simp
  next
    case ne: False
    obtain a b where ab: "tm_deref (msg_tail c) (tm_begin (msg_tail c)) = Inr a"
      "tm_deref (sorted_computed_shares c) (tm_begin (sorted_computed_shares c)) = Inr b"
      using run ne by (auto split: sum.split_asm)
    show ?thesis
    proof (cases "fst b < fst a")
      case True
      with run ne ab obtain m where m: "tm_pop_front (sorted_computed_shares c) = Inr m"
        "send_computed_shares (c\<lparr>sorted_computed_shares := m\<rparr>) = Inr c'"
        by (auto simp: case_sum_Inr_iff)
      have "cf_inv cr ident recv H (c\<lparr>sorted_computed_shares := m\<rparr>)"
        using "1.prems"(1) tm_all_pop_front [OF all m(1)] unfolding cf_inv_def by simp
      with "1.IH"(1) [OF ne _ ab(1) ab(2) True m(1)] m(2) show ?thesis by blast
    next
      case ge: False
      show ?thesis
      proof (cases "snd b")
        case None
        with run ne ab ge "1.prems"(1) show ?thesis by simp
      next
        case (Some s)
        let ?c = "\<lambda>m. c\<lparr>cf_share_sent := map (\<lambda>out. out @ [s]) (cf_share_sent c),
          my_shares := my_shares c @ [\<lparr>vs_replica = length (cf_share_receivers c),
                                      vs_share = s, vs_valid = True\<rparr>],
          sorted_computed_shares := m\<rparr>"
        from run ne ab ge Some obtain m where m: "tm_pop_front (sorted_computed_shares c) = Inr m"
          "send_computed_shares (?c m) = Inr c'"
          by (auto simp: case_sum_Inr_iff)
        have "share_signed cr ident recv H (length recv) s"
          using tm_all_deref [OF all ab(2)] Some by simp
        then have "cf_inv cr ident recv H (?c m)"
          using "1.prems"(1) tm_all_pop_front [OF all m(1)] recv unfolding cf_inv_def by auto
        with "1.IH"(2) [OF ne _ ab(1) ab(2) ge Some m(1)] m(2) show ?thesis by blast
      qed
    qed
  qed
qed

lemma poll_computed_shares_inv:
  assumes "cf_inv cr ident recv H c" "poll_computed_shares c = Inr c'"
  shows "cf_inv cr ident recv H c'"
proof -
  obtain c1 where c1: "rfold file_computed_share (computed_shares c) (c\<lparr>computed_shares := []\<rparr>) = Inr c1"
    "send_computed_shares c1 = Inr c'"
    using assms(2) by (auto simp: poll_computed_shares_def rbind_Inr_iff)
  have s: "\<And>s. s \<in> set (computed_shares c) \<Longrightarrow> share_signed cr ident recv H (length recv) s"
    using assms(1) by (simp add: cf_inv_def)
  have "cf_inv cr ident recv H c1"
    by (rule rfold_invariant [OF c1(1), where P = "cf_inv cr ident recv H"])
      (simp add: assms(1) cf_inv_drop, metis file_computed_share_inv s)
  then show ?thesis using c1(2) by (rule send_computed_shares_inv)
qed

text \<open>Promises touch only the flags of a message.\<close>

lemma md_received_promise_inv:
  assumes "md_inv cr ident recv H k md" "md_received_promise r md = Inr (md', b)"
  shows "md_inv cr ident recv H k md'"
proof -
  obtain p where p: "bitset_set (md_promised md) r = Inr (p, b)" "md' = md\<lparr>md_promised := p\<rparr>"
    using assms(2) by (auto simp: md_received_promise_def rbind_Inr_iff)
  have inv: "bitset_inv (md_promised md)" using assms(1) by (simp add: md_inv_def)
  have "r < MaxCapacity"
    using p(1) inv by (auto simp: bitset_set_def rbind_Inr_iff uat_Inr_iff bitset_inv_def)
  with bitset_set_result [OF inv this] p(1) have "bitset_inv p" "bcapacity p = bcapacity (md_promised md)"
    by auto
  with assms(1) show ?thesis unfolding p(2) md_inv_def by simp
qed

lemma assign_promise_inv:
  assumes "cf_inv cr ident recv H c" "tm_deref (msg_tail c) it = Inr e"
    and "md_received_promise r (snd e) = Inr x" "tm_assign (msg_tail c) it (fst x) = Inr m"
  shows "cf_inv cr ident recv H (c\<lparr>msg_tail := m\<rparr>)"
proof -
  note all = cf_inv_messages [OF assms(1)]
  have "md_inv cr ident recv H (fst e) (fst x)"
    using md_received_promise_inv [OF tm_all_deref [OF all assms(2)]] assms(3) by (metis prod.collapse)
  from tm_all_assign [OF all assms(2) this assms(4)] assms(1) show ?thesis by (simp add: cf_inv_msg_tail)
qed

lemma handle_promise_inv:
  assumes "cf_inv cr ident recv H c" "handle_promise idx r c = Inr c'"
  shows "cf_inv cr ident recv H c'"
proof -
  obtain it where it: "optimistic_find_front (msg_tail c) idx = Inr it"
    using assms(2) by (auto simp: handle_promise_def rbind_Inr_iff)
  show ?thesis
  proof (cases "it = tm_end (msg_tail c)")
    case True
    with assms it show ?thesis by (auto simp: handle_promise_def rbind_Inr_iff if_Inl_Inr_iff)
  next
    case False
    with assms(2) it obtain e x m where "tm_deref (msg_tail c) it = Inr e"
      "md_received_promise r (snd e) = Inr x" "tm_assign (msg_tail c) it (fst x) = Inr m"
      "c' = c\<lparr>msg_tail := m\<rparr>"
      by (auto simp: handle_promise_def rbind_Inr_iff split: if_split_asm)
    with assms(1) assign_promise_inv show ?thesis by blast
  qed
qed

lemma poll_promise_from_inv:
  assumes "cf_inv cr ident recv H c" "poll_promise_from r c = Inr c'"
  shows "cf_inv cr ident recv H c'"
proof -
  obtain inbox where inbox: "uat (cf_promise_inbox c) r = Inr inbox"
    using assms(2) by (auto simp: poll_promise_from_def rbind_Inr_iff)
  show ?thesis
  proof (cases inbox)
    case Nil
    with assms inbox show ?thesis by (simp add: poll_promise_from_def)
  next
    case (Cons idx rest)
    with assms inbox handle_promise_inv
      [of cr ident recv H "c\<lparr>cf_promise_inbox := (cf_promise_inbox c)[r := rest]\<rparr>"]
    show ?thesis by (simp add: poll_promise_from_def)
  qed
qed

lemma poll_shares_inv: "cf_inv cr ident recv H c \<Longrightarrow> poll_shares c = Inr c' \<Longrightarrow> cf_inv cr ident recv H c'"
  unfolding poll_shares_def by (erule rfold_invariant) (simp_all add: poll_share_inv)

lemma poll_promises_inv: "cf_inv cr ident recv H c \<Longrightarrow> poll_promises c = Inr c' \<Longrightarrow> cf_inv cr ident recv H c'"
  unfolding poll_promises_def by (erule rfold_invariant) (simp_all add: poll_promise_from_inv)

lemma received_implicit_promise_inv:
  assumes "cf_inv cr ident recv H c" "received_implicit_promise from idx c = Inr c'"
  shows "cf_inv cr ident recv H c'"
proof -
  obtain it where it: "optimistic_find_front (msg_tail c) idx = Inr it"
    using assms(2) by (auto simp: received_implicit_promise_def rbind_Inr_iff)
  show ?thesis
  proof (cases "it = tm_end (msg_tail c)")
    case True
    with assms it show ?thesis by (simp add: received_implicit_promise_def)
  next
    case False
    with assms(2) it obtain e r x m where "tm_deref (msg_tail c) it = Inr e"
      "md_received_promise r (snd e) = Inr x" "tm_assign (msg_tail c) it (fst x) = Inr m"
      "c' = c\<lparr>msg_tail := m\<rparr>"
      by (auto simp: received_implicit_promise_def rbind_Inr_iff split: option.split_asm)
    with assms(1) assign_promise_inv show ?thesis by blast
  qed
qed

lemma replay_promise_inv:
  assumes "cf_inv cr ident recv H c" "replay_promise idx it r c = Inr c'"
  shows "cf_inv cr ident recv H c'"
proof -
  obtain buffer where b: "uat (buffered_promises c) r = Inr buffer"
    using assms(2) by (auto simp: replay_promise_def rbind_Inr_iff)
  let ?ps = "dropWhile (\<lambda>p. p < idx) buffer"
  show ?thesis
  proof (cases "?ps = [] \<or> hd ?ps \<noteq> idx")
    case True
    then have "c' = c\<lparr>buffered_promises := (buffered_promises c)[r := ?ps]\<rparr>"
      using assms(2) b by (simp add: replay_promise_def Let_def)
    with assms(1) show ?thesis by simp
  next
    case False
    with assms(2) b obtain e x m where s: "tm_deref (msg_tail c) it = Inr e"
      "md_received_promise r (snd e) = Inr x" "tm_assign (msg_tail c) it (fst x) = Inr m"
      "c' = c\<lparr>buffered_promises := (buffered_promises c)[r := tl ?ps], msg_tail := m\<rparr>"
      by (auto simp: replay_promise_def rbind_Inr_iff Let_def split: if_split_asm)
    let ?c = "c\<lparr>buffered_promises := (buffered_promises c)[r := tl ?ps]\<rparr>"
    have "cf_inv cr ident recv H ?c" using assms(1) by simp
    from assign_promise_inv [OF this _ s(2) _, of it m] s show ?thesis by simp
  qed
qed

lemma replay_share_inv:
  assumes "cf_inv cr ident recv H c" "replay_share idx r c = Inr c'"
  shows "cf_inv cr ident recv H c'"
proof -
  obtain buffer where b: "uat (buffered_shares c) r = Inr buffer"
    using assms(2) by (auto simp: replay_share_def rbind_Inr_iff)
  define ss where "ss = dropWhile (\<lambda>s. sm_index s < idx) buffer"
  have run: "(if ss = [] \<or> sm_index (hd ss) \<noteq> idx
      then Inr (c\<lparr>buffered_shares := (buffered_shares c)[r := ss]\<rparr>)
      else enqueue_share_verification (hd ss) r
        (c\<lparr>buffered_shares := (buffered_shares c)[r := tl ss]\<rparr>)) = Inr c'"
    using assms(2) unfolding replay_share_def b rbind_simps Let_def ss_def .
  then show ?thesis
    using assms(1) enqueue_share_verification_inv
      [of cr ident recv H "c\<lparr>buffered_shares := (buffered_shares c)[r := tl ss]\<rparr>"]
    by (auto split: if_split_asm)
qed

lemma queue_share_computation_inv:
  assumes "cf_inv cr ident recv H c" "queue_share_computation idx bs c = Inr c'" "H idx bs"
  shows "cf_inv cr ident recv H c'"
proof -
  let ?cs = "drop (length (computed_shares c) + 1 - unat (cf_tail c)) (computed_shares c)"
  obtain qs where qs: "c' = c\<lparr>computed_shares := ?cs, queued_share_computations := qs @ [(idx, bs)]\<rparr>"
    "qs = queued_share_computations c \<or> qs = tl (queued_share_computations c)"
    using assms(2) by (auto simp: queue_share_computation_def Let_def split: if_splits)
  have "set qs \<subseteq> set (queued_share_computations c)"
    using qs(2) by (cases "queued_share_computations c") auto
  moreover have "set ?cs \<subseteq> set (computed_shares c)" by (auto dest: in_set_dropD)
  ultimately show ?thesis using assms(1,3) unfolding qs(1) cf_inv_def by auto
qed

lemma md_new_inv:
  assumes "md_new ident idx bs (of_nat (length recv)) = Inr md" "H idx bs"
  shows "md_inv cr ident recv H idx md"
  using assms by (auto simp: md_new_def rbind_Inr_iff md_inv_def dest!: bitset_new_inv)

text \<open>An acknowledgement extends the history with the message it is given.\<close>

lemma acknowledge_inv:
  assumes "cf_inv cr ident recv H c" "acknowledge idx bs imp c = Inr c'" "H idx bs"
  shows "cf_inv cr ident recv H c'"
proof -
  have cfg: "cf_identifier c = ident" "cf_share_receivers c = recv" using assms(1) by (simp_all add: cf_inv_def)
  obtain md m it where s: "md_new ident idx bs (of_nat (length recv)) = Inr md"
    "tm_try_emplace (msg_tail c) idx md = Inr (m, it, True)"
    using assms(2) cfg by (auto simp: acknowledge_def rbind_Inr_iff if_Inl_Inr_iff split: prod.split_asm)
  let ?c1 = "c\<lparr>msg_tail := m\<rparr>"
  let ?c1' = "if imp then ?c1 else ?c1\<lparr>cf_promise_sent := map (\<lambda>out. out @ [idx]) (cf_promise_sent ?c1)\<rparr>"
  obtain c2 c3 where r: "(if run_fast_path ?c1
      then rfold (replay_promise idx it) [0 ..< length (buffered_promises ?c1)] ?c1' else Inr ?c1) = Inr c2"
    "rfold (replay_share idx) [0 ..< length (buffered_shares c2)] c2 = Inr c3"
    "queue_share_computation idx bs c3 = Inr c'"
    using assms(2) s cfg by (auto simp: acknowledge_def rbind_Inr_iff Let_def split: prod.split_asm)
  have "tm_all (md_inv cr ident recv H) m"
    using cf_inv_messages [OF assms(1)] s(2) md_new_inv [where H = H, OF s(1) assms(3)]
    by (rule tm_all_try_emplace)
  then have i1: "cf_inv cr ident recv H ?c1" using assms(1) by (simp add: cf_inv_msg_tail)
  have "cf_inv cr ident recv H c2"
  proof (cases "run_fast_path ?c1")
    case True
    then have "rfold (replay_promise idx it) [0 ..< length (buffered_promises ?c1)] ?c1' = Inr c2"
      using r(1) by simp
    then show ?thesis by (rule rfold_invariant) (use i1 replay_promise_inv in \<open>auto\<close>)
  qed (use i1 r(1) in simp)
  with r(2) have "cf_inv cr ident recv H c3"
    by (rule rfold_invariant) (simp add: replay_share_inv)
  then show ?thesis using r(3) assms(3) by (rule queue_share_computation_inv)
qed

lemma pop_messages_all: "pop_messages idx m = Inr m' \<Longrightarrow> tm_all P m \<Longrightarrow> tm_all P m'"
proof (induction idx m rule: pop_messages.induct)
  case (1 idx m)
  let ?go = "\<lambda>b. case idx of None \<Rightarrow> True | Some i \<Rightarrow> fst b \<le> i"
  show ?case
  proof (cases "tm_empty m")
    case True
    with "1.prems" show ?thesis by (simp add: pop_messages.simps [of idx m])
  next
    case ne: False
    obtain b where b: "tm_deref m (tm_begin m) = Inr b"
      using "1.prems"(1) ne by (auto simp: pop_messages.simps [of idx m] case_sum_Inr_iff)
    show ?thesis
    proof (cases "?go b")
      case True
      then obtain m1 where m1: "tm_pop_front m = Inr m1" "pop_messages idx m1 = Inr m'"
        using "1.prems"(1) ne b by (auto simp: pop_messages.simps [of idx m] case_sum_Inr_iff)
      with "1.IH" [OF ne b True] "1.prems"(2) tm_all_pop_front show ?thesis by blast
    next
      case False
      with "1.prems" ne b show ?thesis by (simp add: pop_messages.simps [of idx m])
    qed
  qed
qed

lemma forget_messages_inv:
  "cf_inv cr ident recv H c \<Longrightarrow> forget_messages idx c = Inr c' \<Longrightarrow> cf_inv cr ident recv H c'"
  by (auto simp: forget_messages_def rbind_Inr_iff cf_inv_messages
      intro!: cf_inv_msg_tail elim: pop_messages_all)

lemma poll_promise_inv:
  assumes "cf_inv cr ident recv H c" "poll_promise c = Inr (p, c')"
  shows "cf_inv cr ident recv H c'"
proof -
  obtain x where "c' = c \<or> c' = c\<lparr>next_promise := x\<rparr>"
    using assms(2) by (auto simp: poll_promise_def rbind_Inr_iff Let_def split: if_split_asm)
  with assms(1) show ?thesis by auto
qed

lemma poll_certificate_step:
  assumes "poll_certificate c = Inr (r, c')"
  obtains "r = None" "c' = c \<or> (\<exists>x. c' = c\<lparr>next_certificate := x\<rparr>)"
  | k it md cert where "r = Some cert" "c' = c\<lparr>next_certificate := k + 1\<rparr>"
      "tm_find (msg_tail c) k = Inr it" "it \<noteq> None" "tm_deref (msg_tail c) it = Inr (k, md)"
      "md_build_certificate (cf_share_receivers c) (my_id (cf_crypto c)) md = Inr cert"
      "next_certificate c \<le> k"
proof (cases "tm_empty (msg_tail c)")
  case True
  with assms have "r = None" "c' = c" by (simp_all add: poll_certificate_def)
  then show ?thesis by (intro that(1)) simp_all
next
  case ne: False
  note run = assms [unfolded poll_certificate_def if_not_P [OF ne]]
  then obtain b where b: "tm_deref (msg_tail c) (tm_begin (msg_tail c)) = Inr b"
    by (rule rbind_InrE)
  define k where "k = max (next_certificate c) (fst b)"
  let ?build = "md_build_certificate (cf_share_receivers c) (my_id (cf_crypto c))"
  have run: "rbind (tm_find (msg_tail c) k) (\<lambda>it.
      if it = tm_end (msg_tail c) then Inr (None, c\<lparr>next_certificate := k\<rparr>)
      else rbind (tm_deref (msg_tail c) it) (\<lambda>e.
        if \<not> md_pollable_certificate (snd e) then Inr (None, c\<lparr>next_certificate := k\<rparr>)
        else rbind (?build (snd e)) (\<lambda>cert. Inr (Some cert, c\<lparr>next_certificate := k + 1\<rparr>)))) = Inr (r, c')"
    using run unfolding b rbind_simps Let_def k_def [symmetric] by (simp cong: if_cong flip: k_def)
  then obtain it where it: "tm_find (msg_tail c) k = Inr it"
    by (rule rbind_InrE)
  note run = run [unfolded it rbind_simps]
  show ?thesis
  proof (cases "it = tm_end (msg_tail c)")
    case True
    with run have "r = None" "c' = c\<lparr>next_certificate := k\<rparr>" by simp_all
    then show ?thesis by (intro that(1)) blast+
  next
    case some: False
    with run obtain e where e: "tm_deref (msg_tail c) it = Inr e"
      by (auto elim: rbind_InrE)
    show ?thesis
    proof (cases "md_pollable_certificate (snd e)")
      case False
      with run some e have "r = None" "c' = c\<lparr>next_certificate := k\<rparr>" by simp_all
      then show ?thesis by (intro that(1)) blast+
    next
      case True
      with run some e obtain cert where cert: "?build (snd e) = Inr cert" "r = Some cert"
        "c' = c\<lparr>next_certificate := k + 1\<rparr>"
        by (auto elim: rbind_InrE)
      have "fst e = k" using it e by (rule tm_find_key)
      moreover have "next_certificate c \<le> k" by (simp add: k_def)
      moreover have "it \<noteq> None" using some by (simp add: tm_end_def)
      ultimately show ?thesis
        using that(2) [OF cert(2,3) it _ _ cert(1)] e by (metis prod.collapse)
    qed
  qed
qed

lemma poll_certificate_inv:
  assumes "cf_inv cr ident recv H c" "poll_certificate c = Inr (r, c')"
  shows "cf_inv cr ident recv H c'"
  by (rule poll_certificate_step [OF assms(2)]) (use assms(1) in auto)

lemma cf_tick_inv:
  assumes "cf_inv cr ident recv H c" "cf_tick c = Inr c'"
  shows "cf_inv cr ident recv H c'"
proof (cases "tm_empty (msg_tail c)")
  case True
  with assms show ?thesis by (simp add: cf_tick_def)
next
  case ne: False
  obtain c1 where c1: "(if run_fast_path c then poll_promises c else Inr c) = Inr c1"
    using assms(2) ne by (auto simp: cf_tick_def rbind_Inr_iff)
  then have i1: "cf_inv cr ident recv H c1"
    using assms(1) poll_promises_inv by (auto split: if_split_asm)
  let ?c2 = "c1\<lparr>cf_ticks := cf_ticks c1 + 1\<rparr>"
  have i2: "cf_inv cr ident recv H ?c2" using i1 by simp
  note run = assms(2) [unfolded cf_tick_def if_not_P [OF ne] c1 rbind_simps Let_def]
  show ?thesis
  proof (cases "\<not> run_slow_path c1 \<or> cf_ticks ?c2 mod 16 \<noteq> 0")
    case True
    with run i1 i2 show ?thesis by (auto split: if_split_asm)
  next
    case False
    then have slow: "\<not> \<not> run_slow_path c1" "\<not> cf_ticks ?c2 mod 16 \<noteq> 0" by blast+
    note run = run [unfolded if_not_P [OF slow(1)] if_not_P [OF slow(2)]]
    then obtain c3 where c3: "poll_shares ?c2 = Inr c3" by (rule rbind_InrE)
    note run = run [unfolded c3 rbind_simps]
    then obtain c4 where c4: "poll_computed_shares c3 = Inr c4" by (rule rbind_InrE)
    note run = run [unfolded c4 rbind_simps]
    then obtain c5 where c5: "offload_share_computation c4 = Inr c5" by (rule rbind_InrE)
    note run = run [unfolded c5 rbind_simps]
    from poll_shares_inv [OF i2 c3] have "cf_inv cr ident recv H c4"
      using c4 by (rule poll_computed_shares_inv)
    then have "cf_inv cr ident recv H c5" using c5 by (rule offload_share_computation_inv)
    then show ?thesis using run by (rule poll_verified_shares_inv)
  qed
qed

lemma cf_run_compute_inv:
  assumes "cf_inv cr ident recv H c"
  shows "cf_inv cr ident recv H (cf_run_compute i c)"
proof (cases "i < length (compute_tasks c)")
  case True
  have cfg: "cf_crypto c = cr" "cf_identifier c = ident" using assms by (simp_all add: cf_inv_def)
  have "H (fst (compute_tasks c ! i)) (snd (compute_tasks c ! i))"
    using assms nth_mem [OF True] by (auto simp: cf_inv_def)
  then have "share_signed cr ident recv H (length recv)
      \<lparr>sm_index = fst (compute_tasks c ! i),
       sm_signature = sign_hash cr (cert_digest cr ident (fst (compute_tasks c ! i)) (snd (compute_tasks c ! i)))\<rparr>"
    by (auto simp: share_signed_def signed_by_def)
  then show ?thesis using assms True cfg set_remove_nth [of i "compute_tasks c"]
    unfolding cf_run_compute_def cf_inv_def Let_def by auto
qed (use assms in \<open>simp add: cf_run_compute_def\<close>)

lemma cf_run_check_inv:
  assumes "cf_inv cr ident recv H c" "cf_run_check r i c = Inr c'"
  shows "cf_inv cr ident recv H c'"
proof (cases "r < length (check_tasks c) \<and> i < length (check_tasks c ! r)")
  case True
  have cfg: "cf_crypto c = cr" "cf_share_receivers c = recv" "length (check_tasks c) = length recv"
    using assms by (simp_all add: cf_inv_def)
  obtain s h where t: "check_tasks c ! r ! i = (s, h)" by fastforce
  have r: "r < length recv" using True cfg by simp
  obtain valid where v: "crypto_verify cr (sm_signature s) h (recv ! r) = Inr valid"
    "c' = c\<lparr>check_tasks := (check_tasks c)[r := remove_nth i (check_tasks c ! r)],
       verified_shares := verified_shares c @ [\<lparr>vs_replica = r, vs_share = s, vs_valid = valid\<rparr>]\<rparr>"
    using assms(2) True cfg t r by (auto simp: cf_run_check_def rbind_Inr_iff Let_def)
  have q: "check_tasks c ! r \<in> set (check_tasks c)" "(s, h) \<in> set (check_tasks c ! r)"
    using True t nth_mem by (metis, metis)
  then obtain msg where msg: "H (sm_index s) msg" "h = cert_digest cr ident (sm_index s) msg"
    using assms(1) unfolding cf_inv_def by fastforce
  have "valid \<Longrightarrow> share_signed cr ident recv H r s"
    using v(1) msg r by (auto simp: share_signed_def signed_by_def crypto_verify_def split: if_split_asm)
  moreover have "\<exists>msg. H (sm_index (fst t)) msg \<and> snd t = cert_digest cr ident (sm_index (fst t)) msg"
    if "q \<in> set ((check_tasks c)[r := remove_nth i (check_tasks c ! r)])" "t \<in> set q" for q t
  proof -
    have "\<exists>q' \<in> set (check_tasks c). t \<in> set q'"
      using that q(1) set_remove_nth [of i "check_tasks c ! r"] set_update_subset_insert by fastforce
    with assms(1) show ?thesis unfolding cf_inv_def by blast
  qed
  ultimately show ?thesis using assms(1) unfolding v(2) cf_inv_def by auto
next
  case False
  with assms show ?thesis by (simp add: cf_run_check_def)
qed

lemma certifier_new_inv: "tail \<noteq> 0 \<Longrightarrow> cf_inv cr ident recv H (certifier_new cr tail mx ident pids recv)"
  by (simp add: cf_inv_def certifier_new_def tm_all_new Let_def)

section \<open>Reachable certifiers\<close>

text \<open>
  What the owner, the network and the workers do, in any order. An owner acknowledges an index
  at most once (the consensus engine uses views, instances and broadcast indices, which grow).
\<close>

datatype cf_event =
    Acknowledge u64 bytes bool
  | Implicit_promise proc_id u64
  | Poll_promise
  | Poll_certificate
  | Tick
  | Forget "u64 option"
  | Fast_path bool
  | Slow_path bool
  | Deliver_promise nat u64
  | Deliver_share nat bytes
  | Run_compute nat
  | Run_check nat nat

fun cf_apply :: "cf_event \<Rightarrow> certifier \<Rightarrow> certifier result" where
  "cf_apply (Acknowledge idx bs imp) c = acknowledge idx bs imp c"
| "cf_apply (Implicit_promise p idx) c = received_implicit_promise p idx c"
| "cf_apply Poll_promise c = rbind (poll_promise c) (\<lambda>r. Inr (snd r))"
| "cf_apply Poll_certificate c = rbind (poll_certificate c) (\<lambda>r. Inr (snd r))"
| "cf_apply Tick c = cf_tick c"
| "cf_apply (Forget idx) c = forget_messages idx c"
| "cf_apply (Fast_path b) c = Inr (toggle_fast_path b c)"
| "cf_apply (Slow_path b) c = Inr (toggle_slow_path b c)"
| "cf_apply (Deliver_promise r idx) c = Inr (cf_deliver_promise r idx c)"
| "cf_apply (Deliver_share r bs) c = Inr (cf_deliver_share r bs c)"
| "cf_apply (Run_compute i) c = Inr (cf_run_compute i c)"
| "cf_apply (Run_check r i) c = cf_run_check r i c"

fun cf_history :: "cf_event \<Rightarrow> (u64 \<Rightarrow> bytes option) \<Rightarrow> (u64 \<Rightarrow> bytes option)" where
  "cf_history (Acknowledge idx bs imp) H = H(idx \<mapsto> bs)"
| "cf_history _ H = H"

fun cf_fresh :: "cf_event \<Rightarrow> (u64 \<Rightarrow> bytes option) \<Rightarrow> bool" where
  "cf_fresh (Acknowledge idx bs imp) H \<longleftrightarrow> H idx = None"
| "cf_fresh _ H \<longleftrightarrow> True"

inductive cf_reach ::
  "crypto \<Rightarrow> u64 \<Rightarrow> proc_id list \<Rightarrow> (u64 \<Rightarrow> bytes option) \<Rightarrow> certifier \<Rightarrow> bool"
  for cr :: crypto and ident :: u64 and recv :: "proc_id list" where
  init: "tail \<noteq> 0 \<Longrightarrow> cf_reach cr ident recv Map.empty (certifier_new cr tail mx ident pids recv)"
| step: "cf_reach cr ident recv H c \<Longrightarrow> cf_fresh ev H \<Longrightarrow> cf_apply ev c = Inr c' \<Longrightarrow>
    cf_reach cr ident recv (cf_history ev H) c'"

text \<open>The relation of a history.\<close>

definition acked :: "(u64 \<Rightarrow> bytes option) \<Rightarrow> u64 \<Rightarrow> bytes \<Rightarrow> bool" where
  "acked H k m \<longleftrightarrow> H k = Some m"

lemma cf_apply_inv:
  assumes "cf_inv cr ident recv (acked H) c" "cf_fresh ev H" "cf_apply ev c = Inr c'"
  shows "cf_inv cr ident recv (acked (cf_history ev H)) c'"
proof (cases ev)
  case (Acknowledge idx bs imp)
  with assms(2,3) have f: "H idx = None" "acknowledge idx bs imp c = Inr c'" by simp_all
  have "cf_inv cr ident recv (acked (H(idx \<mapsto> bs))) c"
    by (rule cf_inv_mono [OF assms(1)]) (use f(1) in \<open>auto simp: acked_def le_fun_def\<close>)
  from acknowledge_inv [OF this f(2)] Acknowledge show ?thesis by (simp add: acked_def)
next
  case Poll_promise
  with assms(3) obtain r where "poll_promise c = Inr (r, c')" by (auto simp: rbind_Inr_iff)
  from poll_promise_inv [OF assms(1) this] Poll_promise show ?thesis by simp
next
  case Poll_certificate
  with assms(3) obtain r where "poll_certificate c = Inr (r, c')" by (auto simp: rbind_Inr_iff)
  from poll_certificate_inv [OF assms(1) this] Poll_certificate show ?thesis by simp
next
  case (Implicit_promise p idx)
  with assms received_implicit_promise_inv show ?thesis by simp
next
  case Tick
  with assms cf_tick_inv show ?thesis by simp
next
  case (Forget idx)
  with assms forget_messages_inv show ?thesis by simp
next
  case (Run_check r i)
  with assms cf_run_check_inv show ?thesis by simp
next
  case (Run_compute i)
  with assms cf_run_compute_inv [OF assms(1)] show ?thesis by auto
qed (use assms in \<open>auto simp: toggle_fast_path_def toggle_slow_path_def cf_deliver_promise_def
  cf_deliver_share_def\<close>)

lemma cf_reach_inv: "cf_reach cr ident recv H c \<Longrightarrow> cf_inv cr ident recv (acked H) c"
  by (induction rule: cf_reach.induct) (simp_all add: certifier_new_inv cf_apply_inv)

text \<open>Runs from a list of events.\<close>

fun cf_exec :: "cf_event list \<Rightarrow> certifier \<Rightarrow> certifier result" where
  "cf_exec [] c = Inr c"
| "cf_exec (ev # evs) c = rbind (cf_apply ev c) (cf_exec evs)"

fun cf_exec_fresh :: "cf_event list \<Rightarrow> (u64 \<Rightarrow> bytes option) \<Rightarrow> bool" where
  "cf_exec_fresh [] H \<longleftrightarrow> True"
| "cf_exec_fresh (ev # evs) H \<longleftrightarrow> cf_fresh ev H \<and> cf_exec_fresh evs (cf_history ev H)"

lemma cf_exec_reach:
  "cf_reach cr ident recv H c \<Longrightarrow> cf_exec_fresh evs H \<Longrightarrow> cf_exec evs c = Inr c' \<Longrightarrow>
   cf_reach cr ident recv (fold cf_history evs H) c'"
proof (induction evs arbitrary: c H)
  case (Cons ev evs)
  then obtain c1 where c1: "cf_apply ev c = Inr c1" "cf_exec evs c1 = Inr c'" by (auto simp: rbind_Inr_iff)
  have "cf_reach cr ident recv (cf_history ev H) c1"
    using Cons.prems(1,2) c1(1) by (intro cf_reach.step) simp_all
  then show ?case using Cons.prems(2) c1(2) by (simp add: Cons.IH)
qed simp

section \<open>Certificates that are polled are valid\<close>

text \<open>
  A valid certificate for \<open>n\<close> other replicas: the size of a majority, distinct signers, and
  every signature verifies against the hash of identifier, index and message.
\<close>

definition cert_valid :: "crypto \<Rightarrow> u64 \<Rightarrow> nat \<Rightarrow> certificate \<Rightarrow> bool" where
  "cert_valid cr ident n cert \<longleftrightarrow>
     cert_identifier cert = ident \<and> length (cert_shares cert) = (n + 1) div 2 + 1 \<and>
     distinct (map fst (cert_shares cert)) \<and>
     (\<forall>s \<in> set (cert_shares cert). fst s \<in> set (public_keys cr) \<and>
        verify_hash cr (snd s) (cert_digest cr ident (cert_index cert) (cert_message cert)) (fst s))"

text \<open>What the signature scheme and the key exchange give: our own signatures verify, the keys of all are known.\<close>

definition crypto_ok :: "crypto \<Rightarrow> proc_id list \<Rightarrow> bool" where
  "crypto_ok cr recv \<longleftrightarrow>
     distinct (my_id cr # recv) \<and> set (my_id cr # recv) \<subseteq> set (public_keys cr) \<and>
     (\<forall>d. verify_hash cr (sign_hash cr d) d (my_id cr))"

lemma share_source_inj:
  assumes "distinct (me # recv)" "r \<le> length recv" "r' \<le> length recv"
    and "share_source recv me r = share_source recv me r'"
  shows "r = r'"
  using assms by (auto simp: share_source_def nth_eq_iff_index_eq le_less split: if_split_asm)

lemma md_quorum_unat:
  "md_other_replicas md = of_nat n \<Longrightarrow> n \<le> 8 \<Longrightarrow> unat (md_quorum md) = (n + 1) div 2 + 1"
proof -
  assume a: "md_other_replicas md = of_nat n" "n \<le> 8"
  have "unat (of_nat n + 1 :: u64) = n + 1" using a(2) by (subst unat_u64_Suc) (simp_all add: unat_u64_of_nat)
  then have "unat ((of_nat n + 1 :: u64) div 2) = (n + 1) div 2" by (simp add: unat_div)
  with a show ?thesis unfolding md_quorum_def by (subst unat_u64_Suc) simp_all
qed

lemma md_inv_bound: "md_inv cr ident recv H k md \<Longrightarrow> length recv < 18446744073709551616 \<Longrightarrow> length recv \<le> 8"
  by (auto simp: md_inv_def bitset_inv_def MaxCapacity_def unat_u64_of_nat)

lemma md_build_certificate_valid:
  assumes "md_inv cr ident recv (acked H) k md" "crypto_ok cr recv" "length recv < 18446744073709551616"
    and "md_build_certificate recv (my_id cr) md = Inr cert"
  shows "cert_valid cr ident (length recv) cert \<and> cert_index cert = k \<and> H k = Some (cert_message cert) \<and>
    fst ` set (cert_shares cert) \<subseteq> set (my_id cr # recv)"
proof -
  let ?src = "share_source recv (my_id cr)"
  define q where "q = (length recv + 1) div 2 + 1"
  have md: "md_identifier md = ident" "md_index md = k" "H k = Some (md_bytes md)"
    "md_other_replicas md = of_nat (length recv)" "sorted_keys (md_shares md)"
    "\<And>p. p \<in> set (md_shares md) \<Longrightarrow> sm_index (snd p) = k \<and> share_signed cr ident recv (acked H) (fst p) (snd p)"
    using assms(1) by (simp_all add: md_inv_def acked_def)
  have q: "unat (md_quorum md) = q"
    unfolding q_def by (rule md_quorum_unat [OF md(4) md_inv_bound [OF assms(1,3)]])
  define ss where "ss = take q (md_shares md)"
  have cert: "cert = cert_build ident k (map (\<lambda>p. (?src (fst p), sm_signature (snd p))) ss) (md_bytes md)"
    and poll: "md_pollable_certificate md"
    using assms(4) md(1,2) unfolding md_build_certificate_def q ss_def by (auto split: if_split_asm)
  have sub: "set ss \<subseteq> set (md_shares md)" unfolding ss_def by (rule set_take_subset)
  have r: "fst p \<le> length recv \<and> signed_by cr recv (cert_digest cr ident k (md_bytes md)) (fst p) (sm_signature (snd p))"
    if "p \<in> set (md_shares md)" for p
    using md(6) [OF that] md(3) by (auto simp: share_signed_def signed_by_def acked_def split: if_split_asm)
  have "distinct (map fst (md_shares md))" using md(5) by (rule sorted_keys_distinct)
  then have "length (md_shares md) = card (fst ` set (md_shares md))"
    by (metis distinct_card length_map list.set_map)
  also have "\<dots> \<le> card {..length recv}" by (rule card_mono) (use r in auto)
  finally have "length (md_shares md) \<le> length recv + 1" by simp
  then have "length (md_shares md) < 18446744073709551616"
    using md_inv_bound [OF assms(1,3)] by simp
  then have "q \<le> length (md_shares md)"
    using poll q by (simp add: md_pollable_certificate_def u64_le_iff unat_u64_of_nat)
  then have len: "length ss = q" by (simp add: ss_def)
  have dss: "distinct (map fst ss)"
    using \<open>distinct (map fst (md_shares md))\<close> unfolding ss_def take_map [symmetric] by (rule distinct_take)
  have "inj_on ?src (fst ` set ss)"
    using share_source_inj [of "my_id cr" recv] assms(2) r sub
    unfolding crypto_ok_def by (intro inj_onI) blast
  then have dist: "distinct (map fst (cert_shares cert))"
    using dss unfolding cert cert_build_def by (simp add: comp_def distinct_map comp_inj_on image_image inj_on_def)
  have src: "?src i \<in> set (my_id cr # recv)" for i by (simp add: share_source_def)
  have "verify_hash cr (sm_signature (snd p)) (cert_digest cr ident k (md_bytes md)) (?src (fst p))"
    if "p \<in> set ss" for p
    using r [OF subsetD [OF sub that]] assms(2)
    by (auto simp: signed_by_def share_source_def crypto_ok_def split: if_split_asm)
  moreover have "?src i \<in> set (public_keys cr)" for i
    using src [of i] assms(2) unfolding crypto_ok_def by blast
  moreover have "fst ` set (cert_shares cert) \<subseteq> set (my_id cr # recv)"
    unfolding cert cert_build_def using src by (auto simp del: set_simps)
  ultimately show ?thesis
    using len dist md(3) unfolding cert_valid_def by (simp add: cert cert_build_def q_def)
qed

theorem poll_certificate_valid:
  assumes "cf_inv cr ident recv (acked H) c" "crypto_ok cr recv" "length recv < 18446744073709551616"
    and "poll_certificate c = Inr (Some cert, c')"
  shows "cert_valid cr ident (length recv) cert \<and> H (cert_index cert) = Some (cert_message cert) \<and>
    fst ` set (cert_shares cert) \<subseteq> set (my_id cr # recv) \<and>
    next_certificate c \<le> cert_index cert \<and> next_certificate c' = cert_index cert + 1"
proof (rule poll_certificate_step [OF assms(4)])
  fix k it md cert'
  assume k: "Some cert = Some cert'" "c' = c\<lparr>next_certificate := k + 1\<rparr>"
    "tm_deref (msg_tail c) it = Inr (k, md)"
    "md_build_certificate (cf_share_receivers c) (my_id (cf_crypto c)) md = Inr cert'"
    "next_certificate c \<le> k"
  have "md_inv cr ident recv (acked H) k md"
    using tm_all_deref [OF cf_inv_messages [OF assms(1)] k(3)] by simp
  moreover have "cf_share_receivers c = recv" "cf_crypto c = cr" using assms(1) by (simp_all add: cf_inv_def)
  ultimately show ?thesis
    using md_build_certificate_valid [OF _ assms(2,3)] k by auto
qed simp

section \<open>Checking certificates\<close>

lemma cf_quorum_eq:
  "length (cf_share_receivers c) + 1 < 18446744073709551616 \<Longrightarrow>
   cf_quorum c = of_nat ((length (cf_share_receivers c) + 1) div 2 + 1)"
proof -
  let ?n = "length (cf_share_receivers c)"
  assume a: "?n + 1 < 18446744073709551616"
  have "unat (of_nat ?n + 1 :: u64) = ?n + 1" using a by (subst unat_u64_Suc) (simp_all add: unat_u64_of_nat)
  then have d: "unat ((of_nat ?n + 1 :: u64) div 2) = (?n + 1) div 2" by (simp add: unat_div)
  have "unat (cf_quorum c) = (?n + 1) div 2 + 1"
    unfolding cf_quorum_def using a d by (subst unat_u64_Suc) simp_all
  moreover have "unat (of_nat ((?n + 1) div 2 + 1) :: u64) = (?n + 1) div 2 + 1"
    using a by (intro unat_u64_of_nat) simp
  ultimately show ?thesis by (simp only: u64_eq_iff)
qed

lemma signature_verified_result:
  assumes "cf_inv cr ident recv H c"
  shows "\<exists>b. signature_verified c idx source sig = Inr b \<and> (b \<longrightarrow>
    (\<exists>r s. share_source recv (my_id cr) r = source \<and> sig = sm_signature s \<and> sm_index s = idx \<and>
       share_signed cr ident recv H r s))"
proof -
  have cfg: "cf_crypto c = cr" "cf_share_receivers c = recv" using assms by (simp_all add: cf_inv_def)
  obtain it where it: "tm_find (msg_tail c) idx = Inr it"
    "it = None \<or> (\<exists>md. tm_deref (msg_tail c) it = Inr (idx, md))"
    using tm_all_find [OF cf_inv_messages [OF assms]] by blast
  show ?thesis
  proof (cases "it = None")
    case True
    with it show ?thesis by (auto simp: signature_verified_def tm_end_def)
  next
    case False
    with it(2) obtain md where md: "tm_deref (msg_tail c) it = Inr (idx, md)" by blast
    have "md_signature_verified recv me ss source sig \<Longrightarrow>
        \<exists>p \<in> set ss. share_source recv me (fst p) = source \<and> sig = sm_signature (snd p)" for me ss
      by (induction recv me ss source sig rule: md_signature_verified.induct) (auto split: if_split_asm)
    moreover have "md_inv cr ident recv H idx md"
      using tm_all_deref [OF cf_inv_messages [OF assms] md] by simp
    ultimately show ?thesis
      using it(1) md cfg False unfolding signature_verified_def md_inv_def
      by (fastforce simp: tm_end_def)
  qed
qed

text \<open>A valid certificate is accepted, whatever the checker has stored itself.\<close>

lemma check_shares_complete:
  assumes "cf_inv cr ident recv H c"
    and "\<forall>s \<in> set ss. fst s \<in> set (public_keys cr) \<and>
      verify_hash cr (snd s) (cert_digest cr (cert_identifier cert) (cert_index cert) (cert_message cert)) (fst s)"
  shows "check_shares c cert ss = Inr True"
  using assms(2)
proof (induction ss)
  case (Cons s ss)
  obtain p sig where s: "s = (p, sig)" by fastforce
  obtain b where "signature_verified c (cert_index cert) p sig = Inr b"
    using signature_verified_result [OF assms(1)] by blast
  moreover have "cf_crypto c = cr" using assms(1) by (simp add: cf_inv_def)
  ultimately show ?case using Cons s by (simp add: crypto_verify_def)
qed simp

theorem check_complete:
  assumes "cf_inv cr ident recv H c" "cert_valid cr ident (length recv) cert"
    and "length recv + 1 < 18446744073709551616"
  shows "certifier_check c cert = Inr True"
proof -
  have "cf_share_receivers c = recv" "cf_identifier c = ident" using assms(1) by (simp_all add: cf_inv_def)
  then show ?thesis
    using assms(2,3) cf_quorum_eq [of c] check_shares_complete [OF assms(1)]
    by (simp add: certifier_check_def cert_valid_def cert_nb_shares_def)
qed

text \<open>
  Conversely what is accepted is valid, provided the checker has not itself acknowledged
  another message under the index of the certificate.
\<close>

lemma check_shares_sound:
  assumes "cf_inv cr ident recv (acked H) c" "crypto_ok cr recv" "cert_identifier cert = ident"
    and "\<And>m. H (cert_index cert) = Some m \<Longrightarrow> m = cert_message cert"
    and "check_shares c cert ss = Inr True" "s \<in> set ss"
  shows "fst s \<in> set (public_keys cr) \<and>
    verify_hash cr (snd s) (cert_digest cr ident (cert_index cert) (cert_message cert)) (fst s)"
  using assms(5,6)
proof (induction ss)
  case (Cons t ss)
  obtain p sig where t: "t = (p, sig)" by fastforce
  have cr: "cf_crypto c = cr" using assms(1) by (simp add: cf_inv_def)
  obtain b where b: "signature_verified c (cert_index cert) p sig = Inr b"
    "b \<Longrightarrow> \<exists>r s. share_source recv (my_id cr) r = p \<and> sig = sm_signature s \<and>
      sm_index s = cert_index cert \<and> share_signed cr ident recv (acked H) r s"
    using signature_verified_result [OF assms(1)] by blast
  have "p \<in> set (public_keys cr) \<and>
    verify_hash cr sig (cert_digest cr ident (cert_index cert) (cert_message cert)) p \<and>
    check_shares c cert ss = Inr True"
  proof (cases b)
    case True
    with b(2) obtain r s where "share_source recv (my_id cr) r = p" "sig = sm_signature s"
      "sm_index s = cert_index cert" "share_signed cr ident recv (acked H) r s" by blast
    moreover from this(3,4) have "signed_by cr recv
        (cert_digest cr ident (cert_index cert) (cert_message cert)) r (sm_signature s)"
      using assms(4) by (auto simp: share_signed_def acked_def)
    ultimately show ?thesis using Cons.prems(1) t b(1) True assms(2)
      by (auto simp: signed_by_def share_source_def crypto_ok_def split: if_split_asm)
  next
    case False
    with Cons.prems(1) t b(1) cr assms(3) show ?thesis
      by (auto simp: crypto_verify_def split: if_split_asm)
  qed
  with Cons t show ?case by auto
qed simp

theorem check_sound:
  assumes "cf_inv cr ident recv (acked H) c" "crypto_ok cr recv" "length recv + 1 < 18446744073709551616"
    and "length (cert_shares cert) < 18446744073709551616"
    and "\<And>m. H (cert_index cert) = Some m \<Longrightarrow> m = cert_message cert"
    and "certifier_check c cert = Inr True"
  shows "cert_valid cr ident (length recv) cert"
proof -
  have cfg: "cf_share_receivers c = recv" "cf_identifier c = ident" using assms(1) by (simp_all add: cf_inv_def)
  have acc: "cert_identifier cert = ident" "cert_nb_shares cert = cf_quorum c"
    "distinct (map fst (cert_shares cert))" "check_shares c cert (cert_shares cert) = Inr True"
    using assms(6) cfg(2) by (auto simp: certifier_check_def split: if_split_asm)
  have "of_nat (length (cert_shares cert)) = (of_nat ((length recv + 1) div 2 + 1) :: u64)"
    using acc(2) cf_quorum_eq [of c] assms(3) cfg(1) by (simp add: cert_nb_shares_def)
  moreover have "(length recv + 1) div 2 + 1 < 18446744073709551616" using assms(3) by linarith
  ultimately have "length (cert_shares cert) = (length recv + 1) div 2 + 1"
    using assms(4) by (metis unat_u64_of_nat)
  with acc check_shares_sound [OF assms(1,2) acc(1) assms(5) acc(4)] show ?thesis
    by (simp add: cert_valid_def)
qed

text \<open>
  Without the condition, what is accepted still carries a quorum of signatures of distinct known
  processes, each over the hash of some message under the index of the certificate.
\<close>

definition cf_sound :: "certifier \<Rightarrow> bool" where
  "cf_sound c \<longleftrightarrow> cf_inv (cf_crypto c) (cf_identifier c) (cf_share_receivers c) (\<lambda>_ _. True) c"

definition cert_signed :: "crypto \<Rightarrow> u64 \<Rightarrow> certificate \<Rightarrow> bool" where
  "cert_signed cr ident cert \<longleftrightarrow> distinct (map fst (cert_shares cert)) \<and>
     (\<forall>(p, sig) \<in> set (cert_shares cert). p \<in> set (public_keys cr) \<and>
        (\<exists>msg. verify_hash cr sig (cert_digest cr ident (cert_index cert) msg) p))"

lemma cf_soundI: "cf_inv cr ident recv H c \<Longrightarrow> cf_sound c"
proof -
  assume inv: "cf_inv cr ident recv H c"
  have "cf_inv cr ident recv (\<lambda>_ _. True) c" by (rule cf_inv_mono [OF inv]) (simp add: le_fun_def)
  with inv show ?thesis by (simp add: cf_sound_def cf_inv_def)
qed

lemma cf_soundD: "cf_sound c \<Longrightarrow> cf_inv (cf_crypto c) (cf_identifier c) (cf_share_receivers c) (\<lambda>_ _. True) c"
  by (simp add: cf_sound_def)

lemma check_shares_signed:
  assumes "cf_inv cr ident recv H c" "crypto_ok cr recv" "cert_identifier cert = ident"
    and "check_shares c cert ss = Inr True" "(p, sig) \<in> set ss"
  shows "p \<in> set (public_keys cr) \<and> (\<exists>msg. verify_hash cr sig (cert_digest cr ident (cert_index cert) msg) p)"
  using assms(4,5)
proof (induction ss)
  case (Cons t ss)
  obtain q sg where t: "t = (q, sg)" by fastforce
  have cr: "cf_crypto c = cr" using assms(1) by (simp add: cf_inv_def)
  obtain b where b: "signature_verified c (cert_index cert) q sg = Inr b"
    "b \<Longrightarrow> \<exists>r s. share_source recv (my_id cr) r = q \<and> sg = sm_signature s \<and>
      sm_index s = cert_index cert \<and> share_signed cr ident recv H r s"
    using signature_verified_result [OF assms(1)] by blast
  have "q \<in> set (public_keys cr) \<and> (\<exists>msg. verify_hash cr sg (cert_digest cr ident (cert_index cert) msg) q) \<and>
    check_shares c cert ss = Inr True"
  proof (cases b)
    case True
    with b(2) obtain r s where "share_source recv (my_id cr) r = q" "sg = sm_signature s"
      "sm_index s = cert_index cert" "share_signed cr ident recv H r s" by blast
    then show ?thesis using Cons.prems(1) t b(1) True assms(2)
      by (auto simp: share_signed_def signed_by_def share_source_def crypto_ok_def split: if_split_asm)
  next
    case False
    with Cons.prems(1) t b(1) cr assms(3) show ?thesis
      by (auto simp: crypto_verify_def split: if_split_asm)
  qed
  with Cons t show ?case by auto
qed simp

theorem check_signed:
  assumes "cf_inv cr ident recv H c" "crypto_ok cr recv" "certifier_check c cert = Inr True"
  shows "cert_signed cr ident cert"
proof -
  have "cert_identifier cert = ident" "distinct (map fst (cert_shares cert))"
    "check_shares c cert (cert_shares cert) = Inr True"
    using assms(1,3) by (auto simp: certifier_check_def cf_inv_def split: if_split_asm)
  with check_shares_signed [OF assms(1,2)] show ?thesis by (auto simp: cert_signed_def)
qed

text \<open>
  The condition of \<open>check_sound\<close> is needed. A share that the checker has stored for an index is not verified
  again, whatever message the certificate carries: once a certificate has been polled, its
  signatures under any other message are accepted too.
\<close>

lemma md_signature_verified_own:
  assumes "distinct (me # recv)" "\<forall>p \<in> set ss. fst p \<le> length recv" "distinct (map fst ss)"
    and "(r, s) \<in> set ss"
  shows "md_signature_verified recv me ss (share_source recv me r) (sm_signature s)"
  using assms(2-4)
proof (induction ss)
  case (Cons p ss)
  obtain r' s' where p: "p = (r', s')" by fastforce
  have le: "r \<le> length recv" "r' \<le> length recv" using Cons.prems p by auto
  show ?case
  proof (cases "r' = r")
    case True
    with Cons.prems p have "s' = s" by (auto simp: image_iff)
    with True p show ?thesis by simp
  next
    case False
    then have "share_source recv me r' \<noteq> share_source recv me r"
      using share_source_inj [OF assms(1) le(2,1)] by blast
    with Cons p False show ?thesis by simp
  qed
qed simp

lemma check_shares_known:
  assumes "\<And>s. s \<in> set ss \<Longrightarrow> signature_verified c (cert_index cert) (fst s) (snd s) = Inr True"
  shows "check_shares c cert ss = Inr True"
  using assms
proof (induction ss)
  case (Cons s ss)
  then show ?case using Cons.prems [of s] by (cases s) simp
qed simp

theorem check_ignores_message:
  assumes "cf_inv cr ident recv (acked H) c" "crypto_ok cr recv" "length recv + 1 < 18446744073709551616"
    and "poll_certificate c = Inr (Some cert, c')"
  shows "certifier_check c' (cert\<lparr>cert_message := m\<rparr>) = Inr True"
proof -
  have small: "length recv < 18446744073709551616" using assms(3) by simp
  have valid: "cert_valid cr ident (length recv) cert"
    using poll_certificate_valid [OF assms(1,2) small assms(4)] by blast
  have cfg: "cf_crypto c = cr" "cf_share_receivers c = recv" "cf_identifier c = ident"
    using assms(1) by (simp_all add: cf_inv_def)
  obtain k it md where k: "c' = c\<lparr>next_certificate := k + 1\<rparr>" "tm_find (msg_tail c) k = Inr it" "it \<noteq> None"
    "tm_deref (msg_tail c) it = Inr (k, md)" "md_build_certificate recv (my_id cr) md = Inr cert"
    using poll_certificate_step [OF assms(4)] cfg by (metis option.inject option.discI)
  have md: "md_inv cr ident recv (acked H) k md"
    using tm_all_deref [OF cf_inv_messages [OF assms(1)] k(4)] by simp
  then have ss: "distinct (map fst (md_shares md))" "\<forall>p \<in> set (md_shares md). fst p \<le> length recv"
    using sorted_keys_distinct by (auto simp: md_inv_def share_signed_def signed_by_def split: if_split_asm)
  have shares: "cert_shares cert = map (\<lambda>p. (share_source recv (my_id cr) (fst p), sm_signature (snd p)))
      (take (unat (md_quorum md)) (md_shares md))" and idx: "cert_index cert = k"
    using k(5) md by (auto simp: md_build_certificate_def cert_build_def md_inv_def split: if_split_asm)
  have known: "signature_verified c' k (fst s) (snd s) = Inr True" if s: "s \<in> set (cert_shares cert)" for s
  proof -
    obtain r sm where "(r, sm) \<in> set (md_shares md)" "s = (share_source recv (my_id cr) r, sm_signature sm)"
      using s unfolding shares by (auto dest: in_set_takeD)
    then have "md_signature_verified recv (my_id cr) (md_shares md) (fst s) (snd s)"
      using md_signature_verified_own [of "my_id cr" recv] ss assms(2) unfolding crypto_ok_def by simp
    with k cfg show ?thesis by (simp add: signature_verified_def tm_end_def)
  qed
  have "check_shares c' (cert\<lparr>cert_message := m\<rparr>) (cert_shares cert) = Inr True"
    using known idx by (intro check_shares_known) simp
  then show ?thesis
    using valid cfg k(1) cf_quorum_eq [of c'] assms(3)
    by (simp add: certifier_check_def cert_valid_def cert_nb_shares_def)
qed

section \<open>Quorums\<close>

text \<open>
  Majorities of a finite set: two of them meet, and one that is larger than the number of
  faulty members has a correct member. The interpretation is on the replica sets and the
  quorum size of the certifier.
\<close>

locale quorum_system =
  fixes members :: "'p set" and q :: nat
  assumes finite_members: "finite members"
    and majority: "card members < 2 * q"
begin

lemma quorums_meet:
  assumes "A \<subseteq> members" "B \<subseteq> members" "q \<le> card A" "q \<le> card B"
  shows "A \<inter> B \<noteq> {}"
proof
  assume "A \<inter> B = {}"
  then have "card (A \<union> B) = card A + card B"
    using assms(1,2) finite_members by (intro card_Un_disjoint) (auto intro: finite_subset)
  moreover have "card (A \<union> B) \<le> card members"
    using assms(1,2) finite_members by (intro card_mono) auto
  ultimately show False using assms(3,4) majority by linarith
qed

lemma correct_member:
  assumes "A \<subseteq> members" "q \<le> card A" "finite F" "card F < q"
  shows "\<exists>p \<in> A. p \<notin> F"
  using card_mono [OF assms(3), of A] assms(2,4) by (metis linorder_not_less order.trans subsetI)

end

interpretation replicas: quorum_system "set ids" "length ids div 2 + 1" for ids :: "proc_id list"
proof
  show "card (set ids) < 2 * (length ids div 2 + 1)" using card_length [of ids] by presburger
qed simp

lemma cert_valid_quorum:
  assumes "cert_valid cr ident (length recv) cert"
  shows "length (me # recv) div 2 + 1 \<le> card (fst ` set (cert_shares cert))"
  using assms unfolding cert_valid_def by (metis Suc_eq_plus1 distinct_card length_Cons length_map list.set_map order.refl)

text \<open>Two valid certificates of the same replicas share a signer, and one has a correct signer.\<close>

theorem certificates_share_signer:
  assumes "cert_valid cr ident (length recv) c1" "cert_valid cr ident (length recv) c2"
    and "fst ` set (cert_shares c1) \<subseteq> set (me # recv)" "fst ` set (cert_shares c2) \<subseteq> set (me # recv)"
  shows "fst ` set (cert_shares c1) \<inter> fst ` set (cert_shares c2) \<noteq> {}"
  using assms by (intro replicas.quorums_meet [of _ "me # recv"] cert_valid_quorum)

theorem certificate_correct_signer:
  assumes "cert_valid cr ident (length recv) cert" "fst ` set (cert_shares cert) \<subseteq> set (me # recv)"
    and "finite F" "2 * card F < length (me # recv) + 1"
  shows "\<exists>s \<in> set (cert_shares cert). fst s \<notin> F \<and>
    verify_hash cr (snd s) (cert_digest cr ident (cert_index cert) (cert_message cert)) (fst s)"
proof -
  have "\<exists>p \<in> fst ` set (cert_shares cert). p \<notin> F"
    using assms by (intro replicas.correct_member [of _ "me # recv"] cert_valid_quorum) simp_all
  with assms(1) show ?thesis unfolding cert_valid_def by blast
qed

end
