(* ===== verification/Toy_Instances.thy ===== *)
theory Toy_Instances
  imports Certifier_Safety
begin

text \<open>
  Concrete inputs for the witnesses of the properties: a signature scheme whose signatures can
  be computed, and a certifier of process 1 with the receivers 2 and 3 run through one
  certification: it acknowledges a message, signs it, verifies the share of process 2 and has
  its quorum.
\<close>

definition toy_sign :: "proc_id \<Rightarrow> bytes \<Rightarrow> signature" where
  "toy_sign p d = take 64 (le32 p @ d @ replicate 64 0)"

definition toy_crypto :: "proc_id \<Rightarrow> crypto" where
  "toy_crypto p = \<lparr>my_id = p, public_keys = [1, 2, 3], sign_hash = toy_sign p,
     verify_hash = (\<lambda>sig d q. sig = toy_sign q d), blake3 = (\<lambda>bs. bs)\<rparr>"

definition toy_run :: "cf_event list" where
  "toy_run = [Fast_path False, Slow_path True, Acknowledge 5 [7, 8] False,
     Deliver_share 0 (share_message_bytes
       \<lparr>sm_index = 5, sm_signature = toy_sign 2 (le64 9 @ le64 5 @ [7, 8])\<rparr>)] @
     replicate 16 Tick @ [Run_compute 0, Run_check 0 0] @ replicate 16 Tick"

definition toy_certifier :: certifier where
  "toy_certifier = certifier_new (toy_crypto 1) 4 16 9 [2, 3] [2, 3]"

definition toy_poll :: "(certificate option \<times> certifier) result" where
  "toy_poll = rbind (cf_exec toy_run toy_certifier) poll_certificate"

lemma toy_crypto_ok: "crypto_ok (toy_crypto 1) [2, 3]"
  by (simp add: crypto_ok_def toy_crypto_def)

lemma toy_poll_value: "case toy_poll of Inr (Some cert, _) \<Rightarrow> cert_index cert = 5 | _ \<Rightarrow> False"
  by code_simp

lemma toy_poll_some:
  "\<exists>H c cert c'. cf_reach (toy_crypto 1) 9 [2, 3] H c \<and> poll_certificate c = Inr (Some cert, c') \<and>
     cert_index cert = 5"
proof -
  obtain c cert c' where c: "cf_exec toy_run toy_certifier = Inr c" "poll_certificate c = Inr (Some cert, c')"
    "cert_index cert = 5"
    using toy_poll_value by (auto simp: toy_poll_def rbind_def split: sum.split_asm option.split_asm prod.split_asm)
  have "cf_reach (toy_crypto 1) 9 [2, 3] Map.empty toy_certifier"
    unfolding toy_certifier_def by (rule cf_reach.init) simp
  moreover have "cf_exec_fresh toy_run Map.empty" by (simp add: toy_run_def numeral_eq_Suc)
  ultimately have "cf_reach (toy_crypto 1) 9 [2, 3] (fold cf_history toy_run Map.empty) c"
    using c(1) by (rule cf_exec_reach)
  with c(2,3) show ?thesis by blast
qed

end
