(* ===== verification/Packing.thy ===== *)
theory Packing
  imports Bytes
begin

text \<open>
  \<open>consensus/internal/packing.hpp\<close>: a view (16 bits) and an instance (48 bits) in one index, and
  \<open>Checkpoint\<close> of \<open>consensus/types.hpp\<close>, the window of instances a certified application state
  opens. The certifier of prepares is indexed by packed pairs, so it matters that packing loses
  nothing within the bounds and orders pairs first by view.
\<close>

unbundle bit_operations_syntax

definition pack :: "u64 \<Rightarrow> u64 \<Rightarrow> u64" where
  "pack view inst = push_bit 48 view OR (inst AND NOT (push_bit 48 0xFFFF))"

definition unpack :: "u64 \<Rightarrow> u64 \<times> u64" where
  "unpack packed = (drop_bit 48 packed, packed AND NOT (push_bit 48 0xFFFF))"


lemma and_low: "and w (not (push_bit 48 0xFFFF)) = take_bit 48 (w :: u64)"
proof -
  have "not (push_bit 48 0xFFFF) = (mask 48 :: u64)" by (simp add: mask_eq_exp_minus_1)
  then show ?thesis by (simp only: take_bit_eq_mask)
qed

lemma unat_take_bit48: "unat (take_bit 48 (w :: u64)) = unat w mod 2 ^ 48"
  unfolding unsigned_take_bit_eq by (rule take_bit_eq_mod)

lemma unat_pack: "unat (pack v i) = 2 ^ 48 * (unat v mod 2 ^ 16) + unat i mod 2 ^ 48"
proof -
  have "pack v i = push_bit 48 v + take_bit 48 i"
    unfolding pack_def and_low
    by (rule disjunctive_add [symmetric]) (auto simp: bit_simps)
  moreover have "unat (push_bit 48 v) = 2 ^ 48 * (unat v mod 2 ^ 16)"
  proof -
    have "push_bit 48 v = v * 281474976710656" by (simp add: push_bit_eq_mult)
    moreover have "unat v * 281474976710656 mod (65536 * 281474976710656) = unat v mod 65536 * 281474976710656"
      by (rule mult_mod_left [symmetric])
    ultimately show ?thesis by (simp add: unat_word_ariths mult.commute)
  qed
  moreover have "unat (take_bit 48 i) = unat i mod 2 ^ 48"
    by (rule unat_take_bit48)
  moreover have "2 ^ 48 * (unat v mod 2 ^ 16) + unat i mod 2 ^ 48 < 18446744073709551616"
  proof -
    have "unat v mod 2 ^ 16 \<le> 2 ^ 16 - 1" "unat i mod 2 ^ 48 < 2 ^ 48" by simp_all
    then show ?thesis by simp
  qed
  ultimately show ?thesis by (simp add: unat_u64_add)
qed

lemma unat_unpack: "unat (fst (unpack p)) = unat p div 2 ^ 48" "unat (snd (unpack p)) = unat p mod 2 ^ 48"
  unfolding unpack_def and_low fst_conv snd_conv
  by (simp add: drop_bit_eq_div unat_div) (rule unat_take_bit48)

lemma unpack_pack:
  assumes "unat v < 2 ^ 16" "unat i < 2 ^ 48"
  shows "unpack (pack v i) = (v, i)"
proof -
  have "unat (pack v i) = 2 ^ 48 * unat v + unat i" using assms by (simp add: unat_pack)
  then have "unat (fst (unpack (pack v i))) = unat v" "unat (snd (unpack (pack v i))) = unat i"
    using assms(2) by (simp_all add: unat_unpack)
  then show ?thesis by (metis prod.collapse u64_eq_iff)
qed

lemma pack_less_iff:
  assumes "unat v < 2 ^ 16" "unat i < 2 ^ 48" "unat v' < 2 ^ 16" "unat i' < 2 ^ 48"
  shows "pack v i < pack v' i' \<longleftrightarrow> v < v' \<or> (v = v' \<and> i < i')"
  using assms by (auto simp: u64_less_iff unat_pack u64_eq_iff)

lemma pack_unpack: "pack (fst (unpack p)) (snd (unpack p)) = p"
proof -
  have "unat (fst (unpack p)) < 2 ^ 16" unfolding unat_unpack using unat_u64_less [of p]
    by (simp add: less_mult_imp_div_less)
  then show ?thesis unfolding u64_eq_iff unat_pack unat_unpack by simp
qed

section \<open>Checkpoint\<close>

record checkpoint =
  cp_low :: u64
  cp_high :: u64
  cp_digest :: bytes

definition DigestLength :: nat where
  "DigestLength = 32"

definition CheckpointSize :: nat where
  "CheckpointSize = 16 + DigestLength"

definition checkpoint_new :: "u64 \<Rightarrow> u64 \<Rightarrow> bytes \<Rightarrow> checkpoint" where
  "checkpoint_new nxt window digest = \<lparr>cp_low = nxt, cp_high = nxt + window, cp_digest = digest\<rparr>"

definition range_contains :: "checkpoint \<Rightarrow> u64 \<Rightarrow> bool" where
  "range_contains c i \<longleftrightarrow> i \<ge> cp_low c \<and> i < cp_high c"

text \<open>The order compares the lower bounds only, equality all three fields.\<close>

definition checkpoint_le :: "checkpoint \<Rightarrow> checkpoint \<Rightarrow> bool" where
  "checkpoint_le a b \<longleftrightarrow> cp_low a \<le> cp_low b"

definition checkpoint_bytes :: "checkpoint \<Rightarrow> bytes" where
  "checkpoint_bytes c = le64 (cp_low c) @ le64 (cp_high c) @ cp_digest c"

definition rd_checkpoint :: "bytes \<Rightarrow> nat \<Rightarrow> checkpoint result" where
  "rd_checkpoint bs off =
     rbind (rd64 bs off) (\<lambda>low. rbind (rd64 bs (off + 8)) (\<lambda>high.
     rbind (slice bs (off + 16) DigestLength) (\<lambda>digest.
     Inr \<lparr>cp_low = low, cp_high = high, cp_digest = digest\<rparr>)))"

lemma length_checkpoint_bytes:
  "length (cp_digest c) = DigestLength \<Longrightarrow> length (checkpoint_bytes c) = CheckpointSize"
  by (simp add: checkpoint_bytes_def CheckpointSize_def)

lemma rd_checkpoint_bytes:
  assumes "length (cp_digest c) = DigestLength" "length xs = off"
  shows "rd_checkpoint (xs @ checkpoint_bytes c @ ys) off = Inr c"
  using assms by (simp add: rd_checkpoint_def checkpoint_bytes_def bytes_read)

end
