(* ===== verification/Messages.thy ===== *)
theory Messages
  imports Wire Packing Tail_Map
begin

text \<open>
  The messages of the consensus engine and the states it serialises: \<open>broadcast-commit.hpp\<close>,
  \<open>serialized-state.hpp\<close>, \<open>cb-checkpoint.hpp\<close>, \<open>view-change.hpp\<close> and \<open>messages.hpp\<close> of
  \<open>ubft/src/consensus/internal/\<close>. Buffers are bytes in the layouts of the structs; where a
  constructor leaves bytes of its buffer unwritten, they are an argument.
\<close>

section \<open>Commits\<close>

text \<open>\<open>BroadcastCommit\<close>: its buffer is trimmed to these fields.\<close>

record broadcast_commit =
  bc_view :: u64
  bc_instance :: u64
  bc_proposal :: bytes

definition CommitHeader :: nat where
  "CommitHeader = 24"

definition bc_size :: "u64 \<Rightarrow> u64" where
  "bc_size max_proposal_size = of_nat CommitHeader + max_proposal_size"

definition bc_bytes :: "broadcast_commit \<Rightarrow> bytes" where
  "bc_bytes c = le64 (bc_view c) @ le64 (bc_instance c) @ le64 (of_nat (length (bc_proposal c))) @ bc_proposal c"

text \<open>The constructor: \<open>capacity\<close> is the size of the buffer it is handed.\<close>

definition bc_new :: "u64 \<Rightarrow> certificate \<Rightarrow> broadcast_commit result" where
  "bc_new capacity cert =
     (if capacity < bc_size (of_nat (length (cert_message cert)))
      then Inl (Logic_error ''Insufficient buffer size: {} vs {}.'')
      else Inr \<lparr>bc_view = fst (unpack (cert_index cert)), bc_instance = snd (unpack (cert_index cert)),
                bc_proposal = cert_message cert\<rparr>)"

definition rd_commit :: "bytes \<Rightarrow> nat \<Rightarrow> broadcast_commit result" where
  "rd_commit bs off =
     rbind (rd64 bs off) (\<lambda>v. rbind (rd64 bs (off + 8)) (\<lambda>i. rbind (rd64 bs (off + 16)) (\<lambda>n.
     rbind (slice bs (off + CommitHeader) (unat n)) (\<lambda>p.
     Inr \<lparr>bc_view = v, bc_instance = i, bc_proposal = p\<rparr>))))"

text \<open>\<open>maxSize\<close> of both serialisers.\<close>

definition max_length :: "bytes list \<Rightarrow> nat" where
  "max_length ps = fold (\<lambda>p m. if m < length p then length p else m) ps 0"

section \<open>SerializedState\<close>

text \<open>
  The commits of a replica at the end of a view. Every commit has a slot of the largest size;
  \<open>junk j k\<close> is the \<open>k\<close>-th of the bytes of slot \<open>j\<close> that the constructor does not write.
\<close>

definition ss_buffer_size :: "u64 \<Rightarrow> u64 \<Rightarrow> u64" where
  "ss_buffer_size nb_commits max_proposal_size = 24 + nb_commits * bc_size max_proposal_size"

fun ss_slots :: "(nat \<Rightarrow> nat \<Rightarrow> byte) \<Rightarrow> nat \<Rightarrow> nat \<Rightarrow> broadcast_commit list \<Rightarrow> bytes" where
  "ss_slots junk mx j [] = []"
| "ss_slots junk mx j (c # cs) =
     bc_bytes c @ map (junk j) [0 ..< mx - length (bc_proposal c)] @ ss_slots junk mx (Suc j) cs"

definition ss_bytes :: "(nat \<Rightarrow> nat \<Rightarrow> byte) \<Rightarrow> u64 \<Rightarrow> (u64 \<times> broadcast_commit) list \<Rightarrow> bytes" where
  "ss_bytes junk view commits =
     (let cs = map snd commits; mx = max_length (map bc_proposal cs) in
      le64 view @ le64 (of_nat (length cs)) @ le64 (of_nat mx) @ ss_slots junk mx 0 cs)"

definition ss_view :: "bytes \<Rightarrow> u64 result" where
  "ss_view bs = rd64 bs 0"

definition ss_nb_commits :: "bytes \<Rightarrow> u64 result" where
  "ss_nb_commits bs = rd64 bs 8"

definition ss_max_proposal_size :: "bytes \<Rightarrow> u64 result" where
  "ss_max_proposal_size bs = rd64 bs 16"

definition ss_commit :: "bytes \<Rightarrow> nat \<Rightarrow> broadcast_commit result" where
  "ss_commit bs j = rbind (ss_max_proposal_size bs) (\<lambda>mx.
     rd_commit bs (unat (24 + of_nat j * bc_size mx)))"

definition ss_commits :: "bytes \<Rightarrow> broadcast_commit list result" where
  "ss_commits bs = rbind (ss_nb_commits bs) (\<lambda>n. rmap (ss_commit bs) [0 ..< unat n])"

section \<open>CbCheckpoint\<close>

text \<open>
  The state of a replica that fills gaps of the broadcast. Here the rest of every slot is
  filled with zeros, so the bytes are a function of the state.
\<close>

record cb_state =
  cs_next_cb :: u64
  cs_view :: u64
  cs_checkpoint :: checkpoint
  cs_next_prepare :: u64
  cs_valid_values :: "(u64 \<times> bytes) list"
  cs_commits :: "broadcast_commit list"

definition CbHeader :: nat where
  "CbHeader = 104"

definition vv_buffer_size :: "u64 \<Rightarrow> u64" where
  "vv_buffer_size max_valid_value_size = 16 + max_valid_value_size"

definition cbc_buffer_size :: "u64 \<Rightarrow> u64 \<Rightarrow> u64 \<Rightarrow> u64 \<Rightarrow> u64" where
  "cbc_buffer_size nb_valid_values max_valid_value_size nb_commits max_proposal_size =
     of_nat CbHeader + nb_valid_values * vv_buffer_size max_valid_value_size +
     nb_commits * bc_size max_proposal_size"

definition vv_slot :: "nat \<Rightarrow> u64 \<times> bytes \<Rightarrow> bytes" where
  "vv_slot mx v = le64 (fst v) @ le64 (of_nat (length (snd v))) @ snd v @ replicate (mx - length (snd v)) 0"

definition commit_slot :: "nat \<Rightarrow> broadcast_commit \<Rightarrow> bytes" where
  "commit_slot mx c = bc_bytes c @ replicate (mx - length (bc_proposal c)) 0"

definition cbc_bytes :: "cb_state \<Rightarrow> bytes" where
  "cbc_bytes s =
     (let vmax = max_length (map snd (cs_valid_values s));
          cmax = max_length (map bc_proposal (cs_commits s)) in
      le64 (cs_next_cb s) @ le64 (cs_view s) @ checkpoint_bytes (cs_checkpoint s) @
      le64 (cs_next_prepare s) @ le64 (of_nat (length (cs_valid_values s))) @ le64 (of_nat vmax) @
      le64 (of_nat (length (cs_commits s))) @ le64 (of_nat cmax) @
      concat (map (vv_slot vmax) (cs_valid_values s)) @ concat (map (commit_slot cmax) (cs_commits s)))"

definition rd_valid_value :: "bytes \<Rightarrow> u64 \<Rightarrow> nat \<Rightarrow> (u64 \<times> bytes) result" where
  "rd_valid_value bs vmax j =
     (let off = unat (of_nat CbHeader + of_nat j * vv_buffer_size vmax) in
      rbind (rd64 bs off) (\<lambda>i. rbind (rd64 bs (off + 8)) (\<lambda>n.
      rbind (slice bs (off + 16) (unat n)) (\<lambda>v. Inr (i, v)))))"

definition rd_cb_commit :: "bytes \<Rightarrow> u64 \<Rightarrow> u64 \<Rightarrow> u64 \<Rightarrow> nat \<Rightarrow> broadcast_commit result" where
  "rd_cb_commit bs nvv vmax cmax j =
     rd_commit bs (unat (of_nat CbHeader + nvv * vv_buffer_size vmax + of_nat j * bc_size cmax))"

text \<open>What the accessors return.\<close>

definition cbc_parse :: "bytes \<Rightarrow> cb_state result" where
  "cbc_parse bs =
     rbind (rd64 bs 0) (\<lambda>next_cb. rbind (rd64 bs 8) (\<lambda>view. rbind (rd_checkpoint bs 16) (\<lambda>cp.
     rbind (rd64 bs 64) (\<lambda>next_prepare. rbind (rd64 bs 72) (\<lambda>nvv. rbind (rd64 bs 80) (\<lambda>vmax.
     rbind (rd64 bs 88) (\<lambda>nc. rbind (rd64 bs 96) (\<lambda>cmax.
     rbind (rmap (rd_valid_value bs vmax) [0 ..< unat nvv]) (\<lambda>vvs.
     rbind (rmap (rd_cb_commit bs nvv vmax cmax) [0 ..< unat nc]) (\<lambda>cs.
     Inr \<lparr>cs_next_cb = next_cb, cs_view = view, cs_checkpoint = cp, cs_next_prepare = next_prepare,
          cs_valid_values = vvs, cs_commits = cs\<rparr>))))))))))"

section \<open>Messages delivered by the broadcast\<close>

definition PrepareKind :: byte where "PrepareKind = 1"
definition CommitKind :: byte where "CommitKind = 2"
definition CheckpointKind :: byte where "CheckpointKind = 3"
definition SealViewKind :: byte where "SealViewKind = 4"
definition NewViewKind :: byte where "NewViewKind = 6"

record prepare_message =
  pm_view :: u64
  pm_instance :: u64
  pm_data :: bytes

text \<open>The three messages that are parsed further keep the payload of the broadcast message.\<close>

datatype message =
    Prepare prepare_message
  | Commit bytes
  | Checkpoint_msg bytes
  | Seal_view
  | New_view bytes

definition PrepareHeader :: nat where
  "PrepareHeader = 24"

definition prepare_buffer_size :: "u64 \<Rightarrow> u64" where
  "prepare_buffer_size proposal_size = of_nat PrepareHeader + proposal_size"

definition commit_buffer_size :: "u64 \<Rightarrow> u64 \<Rightarrow> u64" where
  "commit_buffer_size proposal_size nb_shares = 1 + cert_buffer_size proposal_size nb_shares"

definition checkpoint_buffer_size :: "u64 \<Rightarrow> u64" where
  "checkpoint_buffer_size nb_shares = 1 + cert_buffer_size (of_nat CheckpointSize) nb_shares"

definition nv_entry_size :: "u64 \<Rightarrow> u64 \<Rightarrow> u64 \<Rightarrow> u64" where
  "nv_entry_size window max_proposal_size quorum =
     16 + cert_buffer_size (ss_buffer_size window max_proposal_size) quorum"

definition nv_buffer_size :: "u64 \<Rightarrow> u64 \<Rightarrow> u64 \<Rightarrow> u64 \<Rightarrow> u64" where
  "nv_buffer_size window max_proposal_size quorum nb_certificates =
     16 + nb_certificates * nv_entry_size window max_proposal_size quorum"

text \<open>\<open>pad\<close> is the seven bytes between the kind and the view, which nobody writes.\<close>

definition prepare_bytes :: "bytes \<Rightarrow> prepare_message \<Rightarrow> bytes" where
  "prepare_bytes pad p = PrepareKind # pad @ le64 (pm_view p) @ le64 (pm_instance p) @ pm_data p"

definition prepare_try_from :: "bytes \<Rightarrow> (string + prepare_message) result" where
  "prepare_try_from bs =
     (if of_nat (length bs) < prepare_buffer_size 0
      then Inr (Inl ''Message smaller than minimum prepare size.'')
      else rbind (rd64 bs 8) (\<lambda>v. rbind (rd64 bs 16) (\<lambda>i.
           Inr (Inr \<lparr>pm_view = v, pm_instance = i, pm_data = drop PrepareHeader bs\<rparr>))))"

definition message_try_from :: "u64 \<Rightarrow> u64 \<Rightarrow> u64 \<Rightarrow> bytes \<Rightarrow> (string + message) result" where
  "message_try_from window max_proposal_size quorum bs =
     (let size = of_nat (length bs) :: u64 in
      if bs = [] then Inr (Inl ''Message smaller than Kind.'')
      else if hd bs = PrepareKind then
        rbind (prepare_try_from bs) (\<lambda>p. Inr (case p of Inl e \<Rightarrow> Inl e | Inr p \<Rightarrow> Inr (Prepare p)))
      else if hd bs = CommitKind then
        Inr (if size < commit_buffer_size 0 quorum then Inl ''Message smaller than minimum commit size.''
             else Inr (Commit bs))
      else if hd bs = CheckpointKind then
        Inr (if size \<noteq> checkpoint_buffer_size quorum then Inl ''Checkpoint message size doesn't match.''
             else Inr (Checkpoint_msg bs))
      else if hd bs = SealViewKind then
        Inr (if size \<noteq> 1 then Inl ''Seal view size doesn't match.'' else Inr Seal_view)
      else if hd bs = NewViewKind then
        Inr (if size \<noteq> nv_buffer_size window max_proposal_size quorum quorum
             then Inl ''New view size doesn't match.'' else Inr (New_view bs))
      else Inr (Inl ''Unknown kind {}''))"

text \<open>\<open>tryIntoCertificate\<close>: the certificate after the kind, of an expected size if one is given.\<close>

definition try_into_certificate :: "bytes \<Rightarrow> (u64 \<times> u64) option \<Rightarrow> (string + certificate) result" where
  "try_into_certificate bs exp_size_quorum =
     (if bs = [] then Inl (Runtime_error ''Trimming too much.'')
      else
        let buffer = tl bs in
        if (case exp_size_quorum of None \<Rightarrow> False
            | Some (sz, quorum) \<Rightarrow> of_nat (length buffer) \<noteq> cert_buffer_size sz quorum)
        then Inr (Inl ''Message too small for a certificate with an object of size {} and a quorum of {}.'')
        else rbind (cert_try_from buffer) (\<lambda>c.
          case c of Inl e \<Rightarrow> Inr (Inl e) | Inr raw \<Rightarrow> rbind (cert_parse raw) (\<lambda>cert. Inr (Inr cert))))"

section \<open>NewView\<close>

definition nv_view :: "bytes \<Rightarrow> u64 result" where
  "nv_view bs = rd64 bs 8"

definition nv_clone_certificate ::
  "u64 \<Rightarrow> u64 \<Rightarrow> u64 \<Rightarrow> bytes \<Rightarrow> nat \<Rightarrow> (proc_id \<times> bytes) result" where
  "nv_clone_certificate window max_proposal_size quorum bs index =
     (let off = unat (nv_buffer_size window max_proposal_size quorum (of_nat index)) in
      rbind (rd32 bs off) (\<lambda>p. rbind (rd64 bs (off + 8)) (\<lambda>n.
      rbind (slice bs (off + 16) (unat n)) (\<lambda>c. Inr (p, c)))))"

text \<open>\<open>std::get\<close> on a certificate that is malformed throws.\<close>

definition nv_clone_state :: "u64 \<Rightarrow> u64 \<Rightarrow> u64 \<Rightarrow> bytes \<Rightarrow> nat \<Rightarrow> bytes result" where
  "nv_clone_state window max_proposal_size quorum bs index =
     rbind (nv_clone_certificate window max_proposal_size quorum bs index) (\<lambda>pc.
     rbind (cert_try_from (snd pc)) (\<lambda>c.
       case c of Inl e \<Rightarrow> Inl Bad_variant_access
       | Inr raw \<Rightarrow> rbind (cert_parse raw) (\<lambda>cert. Inr (cert_message cert))))"

text \<open>Of all commits for an instance, the one of the highest view (the first of several).\<close>

definition best_proposal ::
  "broadcast_commit \<Rightarrow> (u64 \<times> u64 \<times> bytes) list \<Rightarrow> (u64 \<times> u64 \<times> bytes) list" where
  "best_proposal c best =
     (case map_of best (bc_instance c) of
        None \<Rightarrow> alist_set (bc_instance c) (bc_view c, bc_proposal c) best
      | Some (v, p) \<Rightarrow>
          if v < bc_view c then alist_set (bc_instance c) (bc_view c, bc_proposal c) best else best)"

definition valid_values :: "u64 \<Rightarrow> u64 \<Rightarrow> u64 \<Rightarrow> bytes \<Rightarrow> bytes tail_map result" where
  "valid_values window max_proposal_size quorum bs =
     rbind (rfold (\<lambda>i best.
         rbind (nv_clone_state window max_proposal_size quorum bs i) (\<lambda>ss.
         rbind (ss_commits ss) (\<lambda>cs. Inr (fold best_proposal cs best))))
       [0 ..< unat quorum] []) (\<lambda>best.
     rfold (\<lambda>(inst, _, proposal) m. rbind (tm_try_emplace m inst proposal) (\<lambda>r. Inr (fst r)))
       best (tm_new window))"

text \<open>
  \<open>ViewChangeState::buildNewView\<close>. \<open>pad7\<close>, \<open>pad4\<close> are the padding bytes of the two structs and
  \<open>junk j k\<close> what follows the certificate in slot \<open>j\<close>. A certificate that outgrows its slot is
  copied over memory that is not its own.
\<close>

fun nv_slots ::
  "bytes \<Rightarrow> (nat \<Rightarrow> nat \<Rightarrow> byte) \<Rightarrow> nat \<Rightarrow> nat \<Rightarrow> (proc_id \<times> certificate) list \<Rightarrow> bytes result" where
  "nv_slots pad4 junk room j [] = Inr []"
| "nv_slots pad4 junk room j ((p, c) # cs) =
     (let raw = cert_bytes c in
      if room < length raw then Inl Undefined_behaviour
      else rbind (nv_slots pad4 junk room (Suc j) cs) (\<lambda>rest.
        Inr (le32 p @ pad4 @ le64 (of_nat (length raw)) @ raw @
             map (junk j) [0 ..< room - length raw] @ rest)))"

definition build_new_view ::
  "bytes \<Rightarrow> bytes \<Rightarrow> (nat \<Rightarrow> nat \<Rightarrow> byte) \<Rightarrow> u64 \<Rightarrow> u64 \<Rightarrow> u64 \<Rightarrow> u64 \<Rightarrow> (proc_id \<times> certificate) list \<Rightarrow>
   bytes result" where
  "build_new_view pad7 pad4 junk window max_proposal_size quorum view certs =
     rbind (nv_slots pad4 junk
       (unat (cert_buffer_size (ss_buffer_size window max_proposal_size) quorum)) 0 certs) (\<lambda>slots.
     Inr (NewViewKind # pad7 @ le64 (view + 1) @ slots))"

section \<open>Round trips of the serialised states\<close>

lemma rmap_Inr: "(\<And>y. y \<in> set ys \<Longrightarrow> f y = Inr (g y)) \<Longrightarrow> rmap f ys = Inr (map g ys)"
  by (induction ys) simp_all

lemma rmap_nth: "(\<And>j. j < length xs \<Longrightarrow> f j = Inr (xs ! j)) \<Longrightarrow> rmap f [0 ..< length xs] = Inr xs"
  using rmap_Inr [of "[0 ..< length xs]" f "(!) xs"] by (simp add: map_nth)

lemma max_length_grows: "m \<le> fold (\<lambda>p m. if m < length p then length p else m) ps m"
proof (induction ps arbitrary: m)
  case (Cons p ps)
  have "m \<le> (if m < length p then length p else m)" by simp
  also have "\<dots> \<le> fold (\<lambda>p m. if m < length p then length p else m) ps (if m < length p then length p else m)"
    by (rule Cons.IH)
  finally show ?case by simp
qed simp

lemma max_length_member:
  "p \<in> set ps \<Longrightarrow> length p \<le> fold (\<lambda>p m. if m < length p then length p else m) ps m"
proof (induction ps arbitrary: m)
  case (Cons q ps)
  show ?case
  proof (cases "p = q")
    case True
    have "length q \<le> (if m < length q then length q else m)" by simp
    also have "\<dots> \<le> fold (\<lambda>p m. if m < length p then length p else m) ps (if m < length q then length q else m)"
      by (rule max_length_grows)
    finally show ?thesis by (simp add: True)
  next
    case False
    with Cons.prems have "p \<in> set ps" by simp
    then have "length p \<le> fold (\<lambda>p m. if m < length p then length p else m) ps (if m < length q then length q else m)"
      by (rule Cons.IH)
    then show ?thesis by simp
  qed
qed simp

lemma length_le_max: "p \<in> set ps \<Longrightarrow> length p \<le> max_length ps"
  unfolding max_length_def by (rule max_length_member)

lemma length_bc_bytes: "length (bc_bytes c) = CommitHeader + length (bc_proposal c)"
  by (simp add: bc_bytes_def CommitHeader_def)

lemma rd_commit_bytes:
  assumes "length xs = off" "length (bc_proposal c) < 18446744073709551616"
  shows "rd_commit (xs @ bc_bytes c @ zs) off = Inr c"
  using assms by (simp add: rd_commit_def bc_bytes_def bytes_read CommitHeader_def unat_u64_of_nat)

text \<open>Slots of one size: the \<open>j\<close>-th starts at \<open>j\<close> times the size.\<close>

lemma concat_slot:
  assumes "j < length xs" "\<And>x. x \<in> set xs \<Longrightarrow> length (f x) = n"
  shows "\<exists>ys zs. length ys = j * n \<and> concat (map f xs) = ys @ f (xs ! j) @ zs"
  using assms
proof (induction xs arbitrary: j)
  case (Cons x xs)
  show ?case
  proof (cases j)
    case 0
    then have "length [] = j * n \<and> concat (map f (x # xs)) = [] @ f ((x # xs) ! j) @ concat (map f xs)"
      by simp
    then show ?thesis by blast
  next
    case (Suc i)
    with Cons obtain ys zs where "length ys = i * n" "concat (map f xs) = ys @ f (xs ! i) @ zs"
      by (metis Suc_less_eq length_Cons list.set_intros(2))
    with Cons.prems(2) [of x] Suc
    have "length (f x @ ys) = j * n \<and> concat (map f (x # xs)) = (f x @ ys) @ f ((x # xs) ! j) @ zs"
      by simp
    then show ?thesis by blast
  qed
qed simp

lemma ss_slots_slot:
  assumes "j < length cs" "\<And>c. c \<in> set cs \<Longrightarrow> length (bc_proposal c) \<le> mx"
  shows "\<exists>ys zs. length ys = j * (CommitHeader + mx) \<and> ss_slots junk mx i cs = ys @ bc_bytes (cs ! j) @ zs"
  using assms
proof (induction cs arbitrary: i j)
  case (Cons c cs)
  show ?case
  proof (cases j)
    case 0
    then have "length [] = j * (CommitHeader + mx) \<and> ss_slots junk mx i (c # cs) = [] @ bc_bytes ((c # cs) ! j) @
        map (junk i) [0 ..< mx - length (bc_proposal c)] @ ss_slots junk mx (Suc i) cs" by simp
    then show ?thesis by blast
  next
    case (Suc k)
    with Cons obtain ys zs where yz: "length ys = k * (CommitHeader + mx)"
      "ss_slots junk mx (Suc i) cs = ys @ bc_bytes (cs ! k) @ zs"
      by (metis Suc_less_eq length_Cons list.set_intros(2))
    let ?h = "bc_bytes c @ map (junk i) [0 ..< mx - length (bc_proposal c)]"
    have "length (?h @ ys) = j * (CommitHeader + mx)"
      using Cons.prems(2) [of c] Suc yz(1) by (simp add: length_bc_bytes)
    moreover have "ss_slots junk mx i (c # cs) = (?h @ ys) @ bc_bytes ((c # cs) ! j) @ zs"
      using Suc yz(2) by simp
    ultimately show ?thesis by blast
  qed
qed simp

lemma u64_offset: "a + j * (b + m) < 18446744073709551616 \<Longrightarrow>
  unat (of_nat a + of_nat j * (of_nat b + of_nat m) :: u64) = a + j * (b + m)"
proof -
  assume "a + j * (b + m) < 18446744073709551616"
  then have "unat (of_nat (a + j * (b + m)) :: u64) = a + j * (b + m)" by (rule unat_u64_of_nat)
  then show ?thesis by simp
qed

definition ss_fits :: "(u64 \<times> broadcast_commit) list \<Rightarrow> bool" where
  "ss_fits commits \<longleftrightarrow>
     24 + length commits * (CommitHeader + max_length (map (bc_proposal \<circ> snd) commits)) < 18446744073709551616"

lemma ss_fits_bounds:
  assumes "ss_fits commits" "c \<in> set (map snd commits)"
  shows "length (bc_proposal c) \<le> max_length (map (bc_proposal \<circ> snd) commits) \<and>
    max_length (map (bc_proposal \<circ> snd) commits) < 18446744073709551616 \<and> length commits < 18446744073709551616"
proof -
  let ?mx = "max_length (map (bc_proposal \<circ> snd) commits)"
  define P where "P = length commits * (CommitHeader + ?mx)"
  have ne: "1 \<le> length commits" using assms(2) by (cases commits) auto
  have "1 * (CommitHeader + ?mx) \<le> P" unfolding P_def using ne by (intro mult_le_mono1)
  moreover have "length commits * 1 \<le> P"
    unfolding P_def by (intro mult_le_mono2) (simp add: CommitHeader_def)
  moreover have "24 + P < 18446744073709551616"
    using assms(1) by (simp add: ss_fits_def P_def)
  ultimately have "?mx < 18446744073709551616" "length commits < 18446744073709551616" by simp_all
  moreover have "bc_proposal c \<in> set (map (bc_proposal \<circ> snd) commits)" using assms(2) by auto
  ultimately show ?thesis using length_le_max by blast
qed

theorem serialized_state_roundtrip:
  assumes "ss_fits commits"
  shows "ss_view (ss_bytes junk v commits) = Inr v \<and>
    ss_commits (ss_bytes junk v commits) = Inr (map snd commits)"
proof -
  let ?cs = "map snd commits"
  define mx where "mx = max_length (map (bc_proposal \<circ> snd) commits)"
  let ?hd = "le64 v @ le64 (of_nat (length ?cs)) @ le64 (of_nat mx)"
  let ?bs = "ss_bytes junk v commits"
  have bs: "?bs = ?hd @ ss_slots junk mx 0 ?cs" by (simp add: ss_bytes_def Let_def mx_def)
  have hd: "ss_view ?bs = Inr v" "ss_nb_commits ?bs = Inr (of_nat (length ?cs))"
    "ss_max_proposal_size ?bs = Inr (of_nat mx)"
    unfolding bs ss_view_def ss_nb_commits_def ss_max_proposal_size_def by (simp_all add: bytes_read)
  have len: "unat (of_nat (length ?cs) :: u64) = length ?cs"
  proof (cases commits)
    case (Cons p ps)
    with ss_fits_bounds [OF assms, of "snd p"] show ?thesis by (intro unat_u64_of_nat) simp
  qed simp
  have "ss_commit ?bs j = Inr (?cs ! j)" if j: "j < length ?cs" for j
  proof -
    have b: "\<And>c. c \<in> set ?cs \<Longrightarrow> length (bc_proposal c) \<le> mx" and "mx < 18446744073709551616"
      using ss_fits_bounds [OF assms] nth_mem [OF j] unfolding mx_def by blast+
    obtain ys zs where yz: "length ys = j * (CommitHeader + mx)"
      "ss_slots junk mx 0 ?cs = ys @ bc_bytes (?cs ! j) @ zs"
      using ss_slots_slot [OF j b] by blast
    have "24 + j * (CommitHeader + mx) \<le> 24 + length commits * (CommitHeader + mx)"
      using j by (intro add_left_mono mult_le_mono1) simp
    then have "24 + j * (CommitHeader + mx) < 18446744073709551616"
      using assms unfolding ss_fits_def mx_def by linarith
    from u64_offset [OF this] have off: "unat (24 + of_nat j * bc_size (of_nat mx)) = 24 + j * (CommitHeader + mx)"
      by (simp add: bc_size_def)
    have "length (bc_proposal (?cs ! j)) < 18446744073709551616"
      using b [OF nth_mem [OF j]] \<open>mx < _\<close> by simp
    then have "rd_commit ((?hd @ ys) @ bc_bytes (?cs ! j) @ zs) (24 + j * (CommitHeader + mx)) = Inr (?cs ! j)"
      using yz(1) by (intro rd_commit_bytes) simp_all
    then show ?thesis unfolding ss_commit_def hd(3) rbind_simps off unfolding bs yz(2) by simp
  qed
  from rmap_nth [OF this] hd len show ?thesis by (simp add: ss_commits_def)
qed


text \<open>
  The state that a replica seals and the share it signs are functions of these bytes: as long as
  one proposal is shorter than another, they depend on memory that nobody wrote.
\<close>

lemma ss_slots_junk:
  assumes "c \<in> set cs" "length (bc_proposal c) < mx" "\<And>c. c \<in> set cs \<Longrightarrow> length (bc_proposal c) \<le> mx"
  shows "ss_slots (\<lambda>j k. 0) mx i cs \<noteq> ss_slots (\<lambda>j k. 1) mx i cs"
  using assms(1,3)
proof (induction cs arbitrary: i)
  case (Cons d cs)
  show ?case
  proof (cases "length (bc_proposal d) < mx")
    case True
    then obtain n where "mx - length (bc_proposal d) = Suc n" by (metis Suc_diff_Suc)
    then have "map (\<lambda>_. 0) [0 ..< mx - length (bc_proposal d)] @ xs \<noteq>
        map (\<lambda>_. 1) [0 ..< mx - length (bc_proposal d)] @ ys" for xs ys :: bytes
      by (simp add: upt_conv_Cons)
    then show ?thesis by simp
  next
    case False
    with Cons assms(2) have "ss_slots (\<lambda>j k. 0) mx (Suc i) cs \<noteq> ss_slots (\<lambda>j k. 1) mx (Suc i) cs" by auto
    then show ?thesis using False by simp
  qed
qed simp

theorem serialized_state_indeterminate:
  assumes "(i, c) \<in> set commits" "(i', c') \<in> set commits" "length (bc_proposal c) < length (bc_proposal c')"
  shows "ss_bytes (\<lambda>j k. 0) v commits \<noteq> ss_bytes (\<lambda>j k. 1) v commits"
proof -
  let ?cs = "map snd commits"
  let ?mx = "max_length (map bc_proposal ?cs)"
  have m: "d \<in> set ?cs \<Longrightarrow> length (bc_proposal d) \<le> ?mx" for d by (intro length_le_max) auto
  have mem: "c \<in> set ?cs" "c' \<in> set ?cs" using assms by force+
  have "length (bc_proposal c) < ?mx" using m [OF mem(2)] assms(3) by linarith
  from ss_slots_junk [OF mem(1) this m] show ?thesis by (simp add: ss_bytes_def Let_def)
qed

section \<open>Round trip of the checkpoints of the broadcast\<close>

definition cbc_fits :: "cb_state \<Rightarrow> bool" where
  "cbc_fits s \<longleftrightarrow>
     CbHeader + length (cs_valid_values s) * (16 + max_length (map snd (cs_valid_values s))) +
     length (cs_commits s) * (CommitHeader + max_length (map bc_proposal (cs_commits s))) < 18446744073709551616"

lemma length_vv_slot: "v \<in> set vvs \<Longrightarrow> length (vv_slot (max_length (map snd vvs)) v) =
  16 + max_length (map snd vvs)"
  using length_le_max [of "snd v" "map snd vvs"] by (simp add: vv_slot_def)

lemma length_commit_slot: "c \<in> set cs \<Longrightarrow> length (commit_slot (max_length (map bc_proposal cs)) c) =
  CommitHeader + max_length (map bc_proposal cs)"
  using length_le_max [of "bc_proposal c" "map bc_proposal cs"]
  by (simp add: commit_slot_def length_bc_bytes)

lemma length_concat_slots: "(\<And>x. x \<in> set xs \<Longrightarrow> length (f x) = n) \<Longrightarrow> length (concat (map f xs)) = length xs * n"
  by (induction xs) simp_all

lemma u64_offset2: "h + n * (b + m) + j * (d + k) < 18446744073709551616 \<Longrightarrow>
  unat (of_nat h + of_nat n * (of_nat b + of_nat m) + of_nat j * (of_nat d + of_nat k) :: u64) =
    h + n * (b + m) + j * (d + k)"
proof -
  assume "h + n * (b + m) + j * (d + k) < 18446744073709551616"
  then have "unat (of_nat (h + n * (b + m) + j * (d + k)) :: u64) = h + n * (b + m) + j * (d + k)"
    by (rule unat_u64_of_nat)
  then show ?thesis by simp
qed

lemma rd_valid_value_slot:
  assumes "length pre = CbHeader + j * (16 + vmax)" "CbHeader + j * (16 + vmax) < 18446744073709551616"
    "length (snd v) < 18446744073709551616"
  shows "rd_valid_value (pre @ vv_slot vmax v @ zs) (of_nat vmax) j = Inr v"
proof -
  have "unat (of_nat CbHeader + of_nat j * vv_buffer_size (of_nat vmax)) = length pre"
    using u64_offset [OF assms(2)] assms(1) by (simp add: vv_buffer_size_def)
  then show ?thesis
    using assms(3) by (simp add: rd_valid_value_def vv_slot_def bytes_read unat_u64_of_nat)
qed

lemma rd_cb_commit_slot:
  assumes "length pre = CbHeader + n * (16 + vmax) + j * (CommitHeader + cmax)"
    "CbHeader + n * (16 + vmax) + j * (CommitHeader + cmax) < 18446744073709551616"
    "length (bc_proposal c) < 18446744073709551616"
  shows "rd_cb_commit (pre @ commit_slot cmax c @ zs) (of_nat n) (of_nat vmax) (of_nat cmax) j = Inr c"
proof -
  have "unat (of_nat CbHeader + of_nat n * vv_buffer_size (of_nat vmax) + of_nat j * bc_size (of_nat cmax)) = length pre"
    using u64_offset2 [OF assms(2)] assms(1) by (simp add: vv_buffer_size_def bc_size_def)
  then show ?thesis
    using rd_commit_bytes [OF refl assms(3), of pre "replicate (cmax - length (bc_proposal c)) 0 @ zs"]
    by (simp add: rd_cb_commit_def commit_slot_def)
qed


lemma cbc_bounds:
  assumes "cbc_fits s"
  shows "v \<in> set (cs_valid_values s) \<Longrightarrow> length (snd v) < 18446744073709551616"
    and "c \<in> set (cs_commits s) \<Longrightarrow> length (bc_proposal c) < 18446744073709551616"
    and "length (cs_valid_values s) < 18446744073709551616"
    and "length (cs_commits s) < 18446744073709551616"
proof -
  let ?vmax = "max_length (map snd (cs_valid_values s))"
  let ?cmax = "max_length (map bc_proposal (cs_commits s))"
  define P where "P = length (cs_valid_values s) * (16 + ?vmax)"
  define Q where "Q = length (cs_commits s) * (CommitHeader + ?cmax)"
  have fits: "CbHeader + P + Q < 18446744073709551616" using assms by (simp add: cbc_fits_def P_def Q_def)
  have p: "length (cs_valid_values s) * 1 \<le> P" unfolding P_def by (intro mult_le_mono2) simp
  have q: "length (cs_commits s) * 1 \<le> Q" unfolding Q_def by (intro mult_le_mono2) (simp add: CommitHeader_def)
  show "length (cs_valid_values s) < 18446744073709551616" "length (cs_commits s) < 18446744073709551616"
    using fits p q by linarith+
  show "length (snd v) < 18446744073709551616" if v: "v \<in> set (cs_valid_values s)"
  proof -
    have "1 * (16 + ?vmax) \<le> P" unfolding P_def using v by (intro mult_le_mono1) (cases "cs_valid_values s"; simp)
    moreover have "length (snd v) \<le> ?vmax" using v by (intro length_le_max) simp
    ultimately show ?thesis using fits by simp
  qed
  show "length (bc_proposal c) < 18446744073709551616" if c: "c \<in> set (cs_commits s)"
  proof -
    have "1 * (CommitHeader + ?cmax) \<le> Q" unfolding Q_def using c by (intro mult_le_mono1) (cases "cs_commits s"; simp)
    moreover have "length (bc_proposal c) \<le> ?cmax" using c by (intro length_le_max) simp
    ultimately show ?thesis using fits by simp
  qed
qed

definition cbc_header :: "cb_state \<Rightarrow> bytes" where
  "cbc_header s =
     le64 (cs_next_cb s) @ le64 (cs_view s) @ checkpoint_bytes (cs_checkpoint s) @
     le64 (cs_next_prepare s) @ le64 (of_nat (length (cs_valid_values s))) @
     le64 (of_nat (max_length (map snd (cs_valid_values s)))) @
     le64 (of_nat (length (cs_commits s))) @ le64 (of_nat (max_length (map bc_proposal (cs_commits s))))"

lemma cbc_bytes_split:
  "cbc_bytes s = cbc_header s @
     concat (map (vv_slot (max_length (map snd (cs_valid_values s)))) (cs_valid_values s)) @
     concat (map (commit_slot (max_length (map bc_proposal (cs_commits s)))) (cs_commits s))"
  by (simp add: cbc_bytes_def cbc_header_def Let_def)

lemma length_cbc_header:
  "length (cp_digest (cs_checkpoint s)) = DigestLength \<Longrightarrow> length (cbc_header s) = CbHeader"
  by (simp add: cbc_header_def length_checkpoint_bytes CheckpointSize_def DigestLength_def CbHeader_def)

lemma cbc_header_read:
  assumes "length (cp_digest (cs_checkpoint s)) = DigestLength"
  shows "rd64 (cbc_header s @ zs) 0 = Inr (cs_next_cb s)"
    and "rd64 (cbc_header s @ zs) 8 = Inr (cs_view s)"
    and "rd_checkpoint (cbc_header s @ zs) 16 = Inr (cs_checkpoint s)"
    and "rd64 (cbc_header s @ zs) 64 = Inr (cs_next_prepare s)"
    and "rd64 (cbc_header s @ zs) 72 = Inr (of_nat (length (cs_valid_values s)))"
    and "rd64 (cbc_header s @ zs) 80 = Inr (of_nat (max_length (map snd (cs_valid_values s))))"
    and "rd64 (cbc_header s @ zs) 88 = Inr (of_nat (length (cs_commits s)))"
    and "rd64 (cbc_header s @ zs) 96 = Inr (of_nat (max_length (map bc_proposal (cs_commits s))))"
proof -
  have l: "length (checkpoint_bytes (cs_checkpoint s)) = 48"
    using length_checkpoint_bytes [OF assms] by (simp add: CheckpointSize_def DigestLength_def)
  show "rd64 (cbc_header s @ zs) 0 = Inr (cs_next_cb s)" "rd64 (cbc_header s @ zs) 8 = Inr (cs_view s)"
    by (simp_all add: cbc_header_def bytes_read)
  show "rd64 (cbc_header s @ zs) 64 = Inr (cs_next_prepare s)"
    "rd64 (cbc_header s @ zs) 72 = Inr (of_nat (length (cs_valid_values s)))"
    "rd64 (cbc_header s @ zs) 80 = Inr (of_nat (max_length (map snd (cs_valid_values s))))"
    "rd64 (cbc_header s @ zs) 88 = Inr (of_nat (length (cs_commits s)))"
    "rd64 (cbc_header s @ zs) 96 = Inr (of_nat (max_length (map bc_proposal (cs_commits s))))"
    by (simp_all add: cbc_header_def bytes_read l)
  show "rd_checkpoint (cbc_header s @ zs) 16 = Inr (cs_checkpoint s)"
    using rd_checkpoint_bytes [OF assms, of "le64 (cs_next_cb s) @ le64 (cs_view s)" 16]
    by (simp add: cbc_header_def)
qed

theorem cb_state_roundtrip:
  assumes "cbc_fits s" "length (cp_digest (cs_checkpoint s)) = DigestLength"
  shows "cbc_parse (cbc_bytes s) = Inr s"
proof -
  let ?vvs = "cs_valid_values s" and ?cs = "cs_commits s"
  let ?vmax = "max_length (map snd ?vvs)" and ?cmax = "max_length (map bc_proposal ?cs)"
  let ?bs = "cbc_bytes s"
  let ?V = "concat (map (vv_slot ?vmax) ?vvs)" and ?C = "concat (map (commit_slot ?cmax) ?cs)"
  note bs = cbc_bytes_split [of s]
  note hdl = length_cbc_header [OF assms(2)]
  have fits: "CbHeader + length ?vvs * (16 + ?vmax) + length ?cs * (CommitHeader + ?cmax) < 18446744073709551616"
    using assms(1) by (simp add: cbc_fits_def)
  note bounds = cbc_bounds [OF assms(1)]
  have vv: "rd_valid_value ?bs (of_nat ?vmax) j = Inr (?vvs ! j)" if j: "j < length ?vvs" for j
  proof -
    obtain ys zs where yz: "length ys = j * (16 + ?vmax)" "?V = ys @ vv_slot ?vmax (?vvs ! j) @ zs"
      using concat_slot [of j ?vvs "vv_slot ?vmax", OF j length_vv_slot] by blast
    have "j * (16 + ?vmax) \<le> length ?vvs * (16 + ?vmax)" using j by (intro mult_le_mono1) simp
    then have "CbHeader + j * (16 + ?vmax) < 18446744073709551616" using fits by linarith
    moreover have "?bs = (cbc_header s @ ys) @ vv_slot ?vmax (?vvs ! j) @ zs @ ?C"
      unfolding bs yz(2) by simp
    moreover have "length (cbc_header s @ ys) = CbHeader + j * (16 + ?vmax)" using yz(1) hdl by simp
    ultimately show ?thesis using rd_valid_value_slot bounds(1) [OF nth_mem [OF j]] by metis
  qed
  have cc: "rd_cb_commit ?bs (of_nat (length ?vvs)) (of_nat ?vmax) (of_nat ?cmax) j = Inr (?cs ! j)"
    if j: "j < length ?cs" for j
  proof -
    obtain ys zs where yz: "length ys = j * (CommitHeader + ?cmax)" "?C = ys @ commit_slot ?cmax (?cs ! j) @ zs"
      using concat_slot [of j ?cs "commit_slot ?cmax", OF j length_commit_slot] by blast
    have "j * (CommitHeader + ?cmax) \<le> length ?cs * (CommitHeader + ?cmax)" using j by (intro mult_le_mono1) simp
    then have "CbHeader + length ?vvs * (16 + ?vmax) + j * (CommitHeader + ?cmax) < 18446744073709551616"
      using fits by linarith
    moreover have "?bs = (cbc_header s @ ?V @ ys) @ commit_slot ?cmax (?cs ! j) @ zs"
      unfolding bs yz(2) by simp
    moreover have "length (cbc_header s @ ?V @ ys) = CbHeader + length ?vvs * (16 + ?vmax) + j * (CommitHeader + ?cmax)"
      using yz(1) hdl length_concat_slots [of ?vvs "vv_slot ?vmax", OF length_vv_slot] by simp
    ultimately show ?thesis using rd_cb_commit_slot bounds(2) [OF nth_mem [OF j]] by metis
  qed
  have n: "unat (of_nat (length ?vvs) :: u64) = length ?vvs" "unat (of_nat (length ?cs) :: u64) = length ?cs"
    using bounds(3,4) by (simp_all only: unat_u64_of_nat)
  note rd = cbc_header_read [OF assms(2), of "?V @ ?C", folded bs]
  have "rmap (rd_valid_value ?bs (of_nat ?vmax)) [0 ..< length ?vvs] = Inr ?vvs" by (rule rmap_nth) (rule vv)
  moreover have "rmap (rd_cb_commit ?bs (of_nat (length ?vvs)) (of_nat ?vmax) (of_nat ?cmax)) [0 ..< length ?cs] = Inr ?cs"
    by (rule rmap_nth) (rule cc)
  ultimately show ?thesis unfolding cbc_parse_def rd rbind_simps n by simp
qed


section \<open>Prepare messages and new views\<close>

lemma prepare_roundtrip:
  assumes "length pad = 7" "length (pm_data p) + PrepareHeader < 18446744073709551616"
  shows "message_try_from window mx quorum (prepare_bytes pad p) = Inr (Inr (Prepare p))"
proof -
  let ?bs = "prepare_bytes pad p"
  have len: "length ?bs = PrepareHeader + length (pm_data p)"
    using assms(1) by (simp add: prepare_bytes_def PrepareHeader_def)
  have "unat (of_nat (length ?bs) :: u64) = PrepareHeader + length (pm_data p)"
    unfolding len using assms(2) by (intro unat_u64_of_nat) simp
  then have enough: "\<not> of_nat (length ?bs) < prepare_buffer_size 0"
    by (simp add: u64_less_iff prepare_buffer_size_def PrepareHeader_def)
  define k where "k = PrepareKind # pad"
  have "?bs = k @ le64 (pm_view p) @ le64 (pm_instance p) @ pm_data p" "length k = 8"
    using assms(1) by (simp_all add: prepare_bytes_def k_def)
  then have "rd64 ?bs 8 = Inr (pm_view p)" "rd64 ?bs 16 = Inr (pm_instance p)" "drop 24 ?bs = pm_data p"
    by (simp_all add: bytes_read)
  moreover have "?bs \<noteq> []" "hd ?bs = PrepareKind" by (simp_all add: prepare_bytes_def)
  ultimately show ?thesis
    using enough by (simp add: message_try_from_def prepare_try_from_def Let_def PrepareHeader_def)
qed

lemma nv_slots_slot:
  assumes "nv_slots pad4 junk room j0 cs = Inr bs" "j < length cs" "length pad4 = 4"
  shows "\<exists>ys zs. length ys = j * (16 + room) \<and> length (cert_bytes (snd (cs ! j))) \<le> room \<and>
    bs = ys @ le32 (fst (cs ! j)) @ pad4 @ le64 (of_nat (length (cert_bytes (snd (cs ! j))))) @
      cert_bytes (snd (cs ! j)) @ zs"
  using assms(1,2)
proof (induction cs arbitrary: j0 j bs)
  case (Cons pc cs)
  obtain p c where pc: "pc = (p, c)" by (cases pc)
  obtain rest where fit: "length (cert_bytes c) \<le> room"
    and rest: "nv_slots pad4 junk room (Suc j0) cs = Inr rest"
    and bs: "bs = le32 p @ pad4 @ le64 (of_nat (length (cert_bytes c))) @ cert_bytes c @
      map (junk j0) [0 ..< room - length (cert_bytes c)] @ rest"
    using Cons.prems(1) by (auto simp: pc Let_def rbind_Inr_iff not_less split: if_splits)
  show ?case
  proof (cases j)
    case 0
    then have "length [] = j * (16 + room)" "bs = [] @ le32 (fst ((pc # cs) ! j)) @ pad4 @
      le64 (of_nat (length (cert_bytes (snd ((pc # cs) ! j))))) @ cert_bytes (snd ((pc # cs) ! j)) @
      map (junk j0) [0 ..< room - length (cert_bytes c)] @ rest"
      using bs by (simp_all add: pc)
    with 0 fit show ?thesis unfolding pc by (metis nth_Cons_0 snd_conv)
  next
    case (Suc k)
    with Cons.IH [OF rest, of k] Cons.prems(2) obtain ys zs where yz: "length ys = k * (16 + room)"
      "length (cert_bytes (snd (cs ! k))) \<le> room"
      "rest = ys @ le32 (fst (cs ! k)) @ pad4 @ le64 (of_nat (length (cert_bytes (snd (cs ! k))))) @
        cert_bytes (snd (cs ! k)) @ zs" by auto
    let ?h = "le32 p @ pad4 @ le64 (of_nat (length (cert_bytes c))) @ cert_bytes c @
      map (junk j0) [0 ..< room - length (cert_bytes c)]"
    have "length (?h @ ys) = j * (16 + room)" using fit Suc yz(1) assms(3) by simp
    moreover have "bs = (?h @ ys) @ le32 (fst ((pc # cs) ! j)) @ pad4 @
      le64 (of_nat (length (cert_bytes (snd ((pc # cs) ! j))))) @ cert_bytes (snd ((pc # cs) ! j)) @ zs"
      using bs yz(3) Suc by simp
    ultimately show ?thesis using Suc yz(2) by (metis nth_Cons_Suc)
  qed
qed simp

theorem new_view_clone:
  assumes "build_new_view pad7 pad4 junk window mx quorum view certs = Inr bs"
    and "length pad7 = 7" "length pad4 = 4" "j < length certs" "proc_ok (fst (certs ! j))"
    and "16 + length certs * (16 + unat (cert_buffer_size (ss_buffer_size window mx) quorum)) < 18446744073709551616"
  shows "nv_view bs = Inr (view + 1) \<and>
    nv_clone_certificate window mx quorum bs j = Inr (fst (certs ! j), cert_bytes (snd (certs ! j)))"
proof -
  define room where "room = unat (cert_buffer_size (ss_buffer_size window mx) quorum)"
  have fits: "16 + length certs * (16 + room) < 18446744073709551616" using assms(6) by (simp only: room_def)
  obtain slots where slots: "nv_slots pad4 junk room 0 certs = Inr slots"
    and bs: "bs = NewViewKind # pad7 @ le64 (view + 1) @ slots"
    using assms(1) by (auto simp: build_new_view_def room_def rbind_Inr_iff)
  obtain ys zs where yz: "length ys = j * (16 + room)" "length (cert_bytes (snd (certs ! j))) \<le> room"
    "slots = ys @ le32 (fst (certs ! j)) @ pad4 @ le64 (of_nat (length (cert_bytes (snd (certs ! j))))) @
      cert_bytes (snd (certs ! j)) @ zs"
    using nv_slots_slot [OF slots assms(4,3)] by blast
  have le: "(j + 1) * (16 + room) \<le> length certs * (16 + room)"
    using assms(4) by (intro mult_le_mono1) simp
  then have small: "16 + j * (16 + room) < 18446744073709551616" "room < 18446744073709551616"
    using fits by simp_all
  have "nv_buffer_size window mx quorum (of_nat j) = of_nat 16 + of_nat j * (of_nat 16 + of_nat room)"
    by (simp add: nv_buffer_size_def nv_entry_size_def room_def)
  then have off: "unat (nv_buffer_size window mx quorum (of_nat j)) = 16 + j * (16 + room)"
    using u64_offset [OF small(1)] by simp
  let ?pre = "(NewViewKind # pad7) @ le64 (view + 1) @ ys"
  have "length (cert_bytes (snd (certs ! j))) < 18446744073709551616" using yz(2) small(2) by linarith
  then have n: "unat (of_nat (length (cert_bytes (snd (certs ! j)))) :: u64) = length (cert_bytes (snd (certs ! j)))"
    by (rule unat_u64_of_nat)
  have bs': "bs = ?pre @ le32 (fst (certs ! j)) @ pad4 @ le64 (of_nat (length (cert_bytes (snd (certs ! j))))) @
      cert_bytes (snd (certs ! j)) @ zs" using bs yz(3) by simp
  have l: "length ?pre = 16 + j * (16 + room)" using assms(2) yz(1) by simp
  have rd: "rd32 bs (16 + j * (16 + room)) = Inr (fst (certs ! j))"
    "rd64 bs (16 + j * (16 + room) + 8) = Inr (of_nat (length (cert_bytes (snd (certs ! j)))))"
    "slice bs (16 + j * (16 + room) + 16) (length (cert_bytes (snd (certs ! j)))) = Inr (cert_bytes (snd (certs ! j)))"
    unfolding bs' l [symmetric] using assms(3,5) by (simp_all only: bytes_read) (simp_all add: bytes_read)
  have "nv_view bs = Inr (view + 1)"
    using rd64_le64(2) [of "NewViewKind # pad7" 8 "view + 1" slots] assms(2) by (simp add: bs nv_view_def)
  then show ?thesis using rd n by (simp add: nv_clone_certificate_def off Let_def)
qed


section \<open>The values a new view may propose\<close>

text \<open>The entry of an instance is the value of one of its commits of the highest view.\<close>

definition is_best :: "broadcast_commit set \<Rightarrow> u64 \<Rightarrow> (u64 \<times> bytes) option \<Rightarrow> bool" where
  "is_best cs i b =
     (case b of
        None \<Rightarrow> \<forall>c \<in> cs. bc_instance c \<noteq> i
      | Some (v, p) \<Rightarrow> (\<exists>c \<in> cs. bc_instance c = i \<and> bc_view c = v \<and> bc_proposal c = p) \<and>
          (\<forall>c \<in> cs. bc_instance c = i \<longrightarrow> bc_view c \<le> v))"

lemma best_proposal_step:
  assumes "sorted_keys best" "\<And>i. is_best cs i (map_of best i)"
  shows "sorted_keys (best_proposal c best)" "is_best (insert c cs) i (map_of (best_proposal c best) i)"
proof -
  show "sorted_keys (best_proposal c best)"
    using assms(1) by (simp add: best_proposal_def sorted_alist_set split: option.split)
  have u: "map_of (best_proposal c best) =
      (case map_of best (bc_instance c) of
         None \<Rightarrow> (map_of best)(bc_instance c \<mapsto> (bc_view c, bc_proposal c))
       | Some (v, p) \<Rightarrow> if v < bc_view c then (map_of best)(bc_instance c \<mapsto> (bc_view c, bc_proposal c))
                        else map_of best)"
    using assms(1) by (simp add: best_proposal_def map_of_alist split: option.split)
  show "is_best (insert c cs) i (map_of (best_proposal c best) i)"
  proof (cases "bc_instance c = i")
    case False
    then have "map_of (best_proposal c best) i = map_of best i"
      unfolding u by (simp split: option.split)
    then show ?thesis using assms(2) [of i] False by (auto simp: is_best_def split: option.splits)
  next
    case True
    show ?thesis
    proof (cases "map_of best i")
      case None
      then show ?thesis using assms(2) [of i] True by (simp add: u is_best_def)
    next
      case (Some vp)
      obtain v p where "vp = (v, p)" by (cases vp)
      with Some assms(2) [of i] True show ?thesis by (auto simp: u is_best_def)
    qed
  qed
qed

lemma fold_best_proposal:
  assumes "sorted_keys best" "\<And>i. is_best S i (map_of best i)"
  shows "sorted_keys (fold best_proposal cs best)"
    and "\<And>i. is_best (S \<union> set cs) i (map_of (fold best_proposal cs best) i)"
proof -
  have "sorted_keys (fold best_proposal cs best) \<and> (\<forall>i. is_best (S \<union> set cs) i (map_of (fold best_proposal cs best) i))"
    using assms
  proof (induction cs arbitrary: best S)
    case (Cons c cs)
    show ?case using Cons.IH [of "best_proposal c best" "insert c S"] best_proposal_step [OF Cons.prems]
      by simp
  qed simp
  then show "sorted_keys (fold best_proposal cs best)"
    and "\<And>i. is_best (S \<union> set cs) i (map_of (fold best_proposal cs best) i)" by simp_all
qed

lemma rfold_map: "rfold f (map g xs) = rfold (\<lambda>x. f (g x)) xs"
proof (induction xs)
  case (Cons x xs)
  then show ?case by (intro ext) simp
qed (simp add: fun_eq_iff)

lemma rfold_best_proposals:
  assumes "\<And>i. i \<in> set ns \<Longrightarrow> rbind (nv_clone_state w mx q bs i) ss_commits = Inr (css i)"
  shows "rfold (\<lambda>i best. rbind (nv_clone_state w mx q bs i) (\<lambda>ss. rbind (ss_commits ss) (\<lambda>cs.
      Inr (fold best_proposal cs best)))) ns best = Inr (fold best_proposal (concat (map css ns)) best)"
  using assms
proof (induction ns arbitrary: best)
  case (Cons n ns)
  obtain ss where ss: "nv_clone_state w mx q bs n = Inr ss" "ss_commits ss = Inr (css n)"
    using Cons.prems [of n] by (auto simp: rbind_Inr_iff)
  show ?case using Cons.IH Cons.prems by (simp add: ss)
qed simp

theorem valid_values_best:
  assumes "\<And>i. i < unat quorum \<Longrightarrow> rbind (nv_clone_state window mx quorum bs i) ss_commits = Inr (css i)"
    and "window \<noteq> 0" "all = (\<Union>i < unat quorum. set (css i))"
    and "\<And>c. c \<in> all \<Longrightarrow> unat (bc_instance c) + unat window < 18446744073709551616"
    and "\<And>c d. c \<in> all \<Longrightarrow> d \<in> all \<Longrightarrow> unat (bc_instance c) < unat (bc_instance d) + unat window"
  shows "\<exists>m. valid_values window mx quorum bs = Inr m \<and>
    (\<forall>i. \<exists>b. is_best all i b \<and> tm_lookup m i = Inr (map_option snd b))"
proof -
  define best where "best = fold best_proposal (concat (map css [0 ..< unat quorum])) []"
  have all: "{} \<union> set (concat (map css [0 ..< unat quorum])) = all" by (auto simp: assms(3))
  have "is_best {} i (map_of [] i)" for i by (simp add: is_best_def)
  from fold_best_proposal [of "[]", OF _ this, of "concat (map css [0 ..< unat quorum])"]
  have sk: "sorted_keys best" and bst: "\<And>i. is_best all i (map_of best i)"
    unfolding best_def all by simp_all
  have key: "\<exists>c \<in> all. bc_instance c = fst e" if "e \<in> set best" for e
  proof -
    have "map_of best (fst e) = Some (snd e)"
      using that sorted_keys_distinct [OF sk] by (simp add: map_of_eq_Some_iff)
    with bst [of "fst e"] show ?thesis by (auto simp: is_best_def split: prod.splits)
  qed
  define ps where "ps = map (\<lambda>e. (fst e, snd (snd e))) best"
  have ps_keys: "map fst ps = map fst best" by (simp add: ps_def)
  have look: "map_of ps i = map_option snd (map_of best i)" for i
    unfolding ps_def by (induction best) auto
  have split: "(\<lambda>(inst :: u64, _ :: u64, proposal :: bytes) m. rbind (tm_try_emplace m inst proposal) (\<lambda>r. Inr (fst r))) =
      (\<lambda>x m. rbind (tm_try_emplace m (fst x) (snd (snd x))) (\<lambda>r. Inr (fst r)))"
    by (simp add: fun_eq_iff split: prod.split)
  have run: "valid_values window mx quorum bs = vector_map.ins_all ps (tm_new window)"
    using rfold_best_proposals [of "[0 ..< unat quorum]" window mx quorum bs css "[]"] assms(1)
    by (simp add: valid_values_def vector_map.ins_all_def best_def [symmetric] ps_def rfold_map split)
  have new: "tm_rep (tm_new window :: bytes tail_map) []"
    using assms(2) by (simp add: tm_rep_def tm_new_rep)
  have "\<exists>m. vector_map.ins_all ps (tm_new window) = Inr m \<and> (\<forall>i. tm_lookup m i = Inr (map_of ps i))"
  proof (cases "ps = []")
    case True
    then show ?thesis
      using vector_map.lookup_rep [OF new] by (simp add: vector_map.ins_all_def)
  next
    case False
    have mem: "\<exists>c \<in> all. bc_instance c = fst p" if "p \<in> set ps" for p
      using that key by (auto simp: ps_def)
    have "\<forall>p \<in> set ps. tm_min (tm_new window :: bytes tail_map) \<le> fst p \<and>
        unat (fst p) + unat (tm_tail (tm_new window :: bytes tail_map)) < 18446744073709551616"
      using mem assms(4) by (fastforce simp: tm_new_def)
    moreover have "sorted_keys ([] @ ps)" using sk ps_keys by simp
    ultimately obtain m where m: "vector_map.ins_all ps (tm_new window) = Inr m"
      "tm_rep m (filter (\<lambda>e. unat (fst (last ps)) < unat (fst e) + unat (tm_tail (tm_new window :: bytes tail_map))) ([] @ ps))"
      using vector_map.ins_all_rep [OF new _ False] by blast
    have "filter (\<lambda>e. unat (fst (last ps)) < unat (fst e) + unat (tm_tail (tm_new window :: bytes tail_map))) ([] @ ps) = ps"
    proof -
      have "unat (fst (last ps)) < unat (fst e) + unat window" if "e \<in> set ps" for e
        using mem [OF that] mem [OF last_in_set [OF False]] assms(5) by metis
      then show ?thesis by (simp add: tm_new_def)
    qed
    with m(2) have "tm_rep m ps" by simp
    then show ?thesis using m(1) vector_map.lookup_rep by blast
  qed
  then show ?thesis using run bst look by metis
qed

end
