(* ===== verification/Consensus_State.thy ===== *)
theory Consensus_State
  imports Dynamic_Bitset Messages
begin

text \<open>
  What a replica keeps about the instances of the current view (\<open>instance-state.hpp\<close>) and about
  every replica (\<open>replica-state.hpp\<close>), from \<open>ubft/src/consensus/internal/\<close>.

  \<open>Pool::take\<close> never comes back empty (\<open>Buffers.pool_take_result\<close>: an empty pool allocates), so
  the branches for a missing buffer are dead, and a pool only matters through the size it refuses.
\<close>

section \<open>InstanceState\<close>

record instance_state =
  is_prepare :: prepare_message
  fast_committed :: dynamic_bitset
  slow_committed :: dynamic_bitset
  is_decided :: bool
  certified_prepare :: bool

definition instance_new :: "prepare_message \<Rightarrow> u64 \<Rightarrow> instance_state result" where
  "instance_new prepare replicas =
     rbind (bitset_new replicas) (\<lambda>fast. rbind (bitset_new replicas) (\<lambda>slow.
     Inr \<lparr>is_prepare = prepare, fast_committed = fast, slow_committed = slow,
          is_decided = False, certified_prepare = False\<rparr>))"

definition received_fast_commit :: "nat \<Rightarrow> instance_state \<Rightarrow> (instance_state \<times> bool) result" where
  "received_fast_commit from_index d =
     rbind (bitset_set (fast_committed d) from_index) (\<lambda>r. Inr (d\<lparr>fast_committed := fst r\<rparr>, snd r))"

definition received_commit :: "nat \<Rightarrow> instance_state \<Rightarrow> (instance_state \<times> bool) result" where
  "received_commit from_index d =
     rbind (bitset_set (slow_committed d) from_index) (\<lambda>r. Inr (d\<lparr>slow_committed := fst r\<rparr>, snd r))"

definition decidable :: "instance_state \<Rightarrow> bool" where
  "decidable d \<longleftrightarrow>
     \<not> is_decided d \<and> (bitset_full (fast_committed d) \<or> bitset_majority (slow_committed d))"

definition is_fast_committed :: "instance_state \<Rightarrow> nat \<Rightarrow> bool result" where
  "is_fast_committed d index = bitset_get (fast_committed d) index"

definition is_slow_committed :: "instance_state \<Rightarrow> nat \<Rightarrow> bool result" where
  "is_slow_committed d index = bitset_get (slow_committed d) index"

section \<open>ReplicaState\<close>

text \<open>\<open>commit_capacity\<close> is the size of the buffers of its pool.\<close>

record replica_state =
  at_view :: u64
  commits :: "(u64 \<times> broadcast_commit) list"
  next_prepare :: u64
  rs_valid_values :: "(u64 \<times> bytes tail_map) option"
  rs_checkpoint :: checkpoint
  rs_next_cb :: u64
  outstanding :: u64
  serialized_state :: "bytes option"
  last_cb_checkpoint :: "bytes option"
  commit_capacity :: u64

definition zero_digest :: bytes where
  "zero_digest = replicate DigestLength 0"

definition replica_new :: "u64 \<Rightarrow> u64 \<Rightarrow> replica_state" where
  "replica_new window max_proposal_size =
     \<lparr>at_view = 0, commits = [], next_prepare = 0, rs_valid_values = None,
      rs_checkpoint = checkpoint_new 0 window zero_digest, rs_next_cb = 0, outstanding = 0,
      serialized_state = None, last_cb_checkpoint = None,
      commit_capacity = bc_size max_proposal_size\<rparr>"

text \<open>\<open>ReplicaState::committed\<close>: only a commit of a higher view replaces one.\<close>

definition replica_committed :: "certificate \<Rightarrow> replica_state \<Rightarrow> (replica_state \<times> bool) result" where
  "replica_committed cert s =
     (let (view, inst) = unpack (cert_index cert); prev = map_of (commits s) inst in
      if (case prev of None \<Rightarrow> False | Some p \<Rightarrow> bc_view p \<ge> view) then Inr (s, False)
      else rbind (bc_new (commit_capacity s) cert) (\<lambda>c.
        Inr (s\<lparr>commits := alist_insert inst c (alist_erase inst (commits s))\<rparr>, True)))"

definition serialize_state :: "(nat \<Rightarrow> nat \<Rightarrow> byte) \<Rightarrow> replica_state \<Rightarrow> bytes \<times> replica_state" where
  "serialize_state junk s =
     (let bs = ss_bytes junk (at_view s) (commits s) in (bs, s\<lparr>serialized_state := Some bs\<rparr>))"

definition cb_state_of :: "replica_state \<Rightarrow> cb_state result" where
  "cb_state_of s =
     rbind (case rs_valid_values s of None \<Rightarrow> Inr [] | Some vv \<Rightarrow> tm_entries (snd vv)) (\<lambda>vvs.
     Inr \<lparr>cs_next_cb = rs_next_cb s, cs_view = at_view s, cs_checkpoint = rs_checkpoint s,
          cs_next_prepare = next_prepare s, cs_valid_values = vvs, cs_commits = map snd (commits s)\<rparr>)"

definition checkpoint_cb :: "replica_state \<Rightarrow> (bytes \<times> replica_state) result" where
  "checkpoint_cb s = rbind (cb_state_of s) (\<lambda>st.
     let bs = cbc_bytes st in Inr (bs, s\<lparr>last_cb_checkpoint := Some bs\<rparr>))"

text \<open>The loop of \<open>handleCheckpoint\<close> that prunes the commits below a checkpoint.\<close>

definition prune_commits :: "u64 \<Rightarrow> replica_state \<Rightarrow> replica_state" where
  "prune_commits low s = s\<lparr>commits := dropWhile (\<lambda>p. fst p < low) (commits s)\<rparr>"

section \<open>Pruning a tail map from the front\<close>

function tm_pop_while :: "(u64 \<Rightarrow> bool) \<Rightarrow> 'v tail_map \<Rightarrow> 'v tail_map result" where
  "tm_pop_while P m =
     (if tm_empty m then Inr m
      else case tm_deref m (tm_begin m) of
        Inl e \<Rightarrow> Inl e
      | Inr b \<Rightarrow>
          if P (fst b) then
            (case tm_pop_front m of Inl e \<Rightarrow> Inl e | Inr m' \<Rightarrow> tm_pop_while P m')
          else Inr m)"
  by pat_completeness auto
termination
  by (relation "measure (\<lambda>(_, m). tm_used m)") (auto simp: tm_pop_front_used)

declare tm_pop_while.simps [simp del]

lemma tm_pop_while_all: "tm_pop_while P m = Inr m' \<Longrightarrow> tm_all Q m \<Longrightarrow> tm_all Q m'"
proof (induction P m arbitrary: m' rule: tm_pop_while.induct)
  case (1 P m)
  note run = "1.prems"(1) [unfolded tm_pop_while.simps [of P m]]
  show ?case
  proof (cases "tm_empty m")
    case True
    with run "1.prems"(2) show ?thesis by simp
  next
    case ne: False
    then obtain b where b: "tm_deref m (tm_begin m) = Inr b"
      using run by (auto split: sum.splits)
    show ?thesis
    proof (cases "P (fst b)")
      case False
      with run ne b "1.prems"(2) show ?thesis by simp
    next
      case True
      with run ne b obtain m1 where m1: "tm_pop_front m = Inr m1" "tm_pop_while P m1 = Inr m'"
        by (auto split: sum.splits)
      show ?thesis
        using "1.IH" [OF ne b True m1(1) m1(2)] tm_all_pop_front [OF "1.prems"(2) m1(1)] by blast
    qed
  qed
qed

section \<open>Invariants of an instance\<close>

text \<open>Of \<open>n\<close> replicas, the two bitsets record some.\<close>

definition instance_inv :: "nat \<Rightarrow> instance_state \<Rightarrow> bool" where
  "instance_inv n d \<longleftrightarrow>
     bitset_inv (fast_committed d) \<and> bitset_inv (slow_committed d) \<and>
     unat (bcapacity (fast_committed d)) = n \<and> unat (bcapacity (slow_committed d)) = n \<and>
     bitset_elems (fast_committed d) \<subseteq> {..<n} \<and> bitset_elems (slow_committed d) \<subseteq> {..<n}"

lemma instance_new_inv:
  "instance_new p r = Inr d \<Longrightarrow> instance_inv (unat r) d \<and> is_prepare d = p \<and> \<not> is_decided d \<and>
     \<not> certified_prepare d \<and> bitset_elems (fast_committed d) = {} \<and> bitset_elems (slow_committed d) = {}"
  by (auto simp: instance_new_def instance_inv_def rbind_Inr_iff dest: bitset_new_inv)

lemma bitset_capacity_bound: "bitset_inv b \<Longrightarrow> i < unat (bcapacity b) \<Longrightarrow> i < MaxCapacity"
  by (simp add: bitset_inv_def)

lemma received_commit_result:
  assumes "instance_inv n d" "i < n"
  shows "\<exists>d'. received_commit i d = Inr (d', i \<notin> bitset_elems (slow_committed d)) \<and> instance_inv n d' \<and>
    bitset_elems (slow_committed d') = insert i (bitset_elems (slow_committed d)) \<and>
    fast_committed d' = fast_committed d \<and> is_prepare d' = is_prepare d \<and> is_decided d' = is_decided d \<and>
    certified_prepare d' = certified_prepare d"
proof -
  have "bitset_inv (slow_committed d)" "i < MaxCapacity"
    using assms bitset_capacity_bound by (auto simp: instance_inv_def)
  from bitset_set_result [OF this] obtain b where
    b: "bitset_set (slow_committed d) i = Inr (b, i \<notin> bitset_elems (slow_committed d))" "bitset_inv b"
      "bitset_elems b = insert i (bitset_elems (slow_committed d))" "bcapacity b = bcapacity (slow_committed d)"
    by blast
  have "instance_inv n (d\<lparr>slow_committed := b\<rparr>)" using assms b by (simp add: instance_inv_def)
  with b show ?thesis by (simp add: received_commit_def)
qed

lemma received_fast_commit_result:
  assumes "instance_inv n d" "i < n"
  shows "\<exists>d'. received_fast_commit i d = Inr (d', i \<notin> bitset_elems (fast_committed d)) \<and> instance_inv n d' \<and>
    bitset_elems (fast_committed d') = insert i (bitset_elems (fast_committed d)) \<and>
    slow_committed d' = slow_committed d \<and> is_prepare d' = is_prepare d \<and> is_decided d' = is_decided d \<and>
    certified_prepare d' = certified_prepare d"
proof -
  have "bitset_inv (fast_committed d)" "i < MaxCapacity"
    using assms bitset_capacity_bound by (auto simp: instance_inv_def)
  from bitset_set_result [OF this] obtain b where
    b: "bitset_set (fast_committed d) i = Inr (b, i \<notin> bitset_elems (fast_committed d))" "bitset_inv b"
      "bitset_elems b = insert i (bitset_elems (fast_committed d))" "bcapacity b = bcapacity (fast_committed d)"
    by blast
  have "instance_inv n (d\<lparr>fast_committed := b\<rparr>)" using assms b by (simp add: instance_inv_def)
  with b show ?thesis by (simp add: received_fast_commit_def)
qed

theorem decidable_iff:
  assumes "instance_inv n d"
  shows "decidable d \<longleftrightarrow> \<not> is_decided d \<and>
    (bitset_elems (fast_committed d) = {..<n} \<or> n < 2 * card (bitset_elems (slow_committed d)))"
  using assms bitset_full_iff [of "fast_committed d"] bitset_majority_iff [of "slow_committed d"]
  by (simp add: decidable_def instance_inv_def)

section \<open>Invariants of a replica state\<close>

text \<open>The commits are a map, and each sits under the instance it is for.\<close>

definition replica_inv :: "replica_state \<Rightarrow> bool" where
  "replica_inv s \<longleftrightarrow> sorted_keys (commits s) \<and> (\<forall>(i, c) \<in> set (commits s). bc_instance c = i)"

lemma replica_new_inv: "replica_inv (replica_new window mx)"
  by (simp add: replica_inv_def replica_new_def)

lemma replica_inv_frame [simp]:
  "replica_inv (s\<lparr>at_view := v\<rparr>) = replica_inv s"
  "replica_inv (s\<lparr>next_prepare := i\<rparr>) = replica_inv s"
  "replica_inv (s\<lparr>rs_valid_values := vv\<rparr>) = replica_inv s"
  "replica_inv (s\<lparr>rs_checkpoint := cp\<rparr>) = replica_inv s"
  "replica_inv (s\<lparr>rs_next_cb := i\<rparr>) = replica_inv s"
  "replica_inv (s\<lparr>outstanding := i\<rparr>) = replica_inv s"
  "replica_inv (s\<lparr>serialized_state := o1\<rparr>) = replica_inv s"
  "replica_inv (s\<lparr>last_cb_checkpoint := o2\<rparr>) = replica_inv s"
  by (simp_all add: replica_inv_def)

lemma bc_new_fields: "bc_new cap cert = Inr c \<Longrightarrow>
  bc_view c = fst (unpack (cert_index cert)) \<and> bc_instance c = snd (unpack (cert_index cert)) \<and>
  bc_proposal c = cert_message cert"
  by (auto simp: bc_new_def split: if_splits)

lemma map_of_members: "distinct (map fst ps) \<Longrightarrow> (\<forall>(i, c) \<in> set ps. P i c) \<longleftrightarrow> (\<forall>i c. map_of ps i = Some c \<longrightarrow> P i c)"
  by (auto simp: map_of_eq_Some_iff)

theorem replica_committed_result:
  assumes "replica_inv s" "unpack (cert_index cert) = (view, inst)"
    and "unat (bc_size (of_nat (length (cert_message cert)))) \<le> unat (commit_capacity s)"
  shows "\<exists>s' ok. replica_committed cert s = Inr (s', ok) \<and> replica_inv s' \<and>
    ok = (case map_of (commits s) inst of None \<Rightarrow> True | Some p \<Rightarrow> bc_view p < view) \<and>
    map_of (commits s') = (if ok
      then (map_of (commits s))(inst \<mapsto> \<lparr>bc_view = view, bc_instance = inst, bc_proposal = cert_message cert\<rparr>)
      else map_of (commits s))"
proof (cases "case map_of (commits s) inst of None \<Rightarrow> False | Some p \<Rightarrow> bc_view p \<ge> view")
  case True
  then have "replica_committed cert s = Inr (s, False)" by (simp add: replica_committed_def assms(2))
  moreover have "\<not> (case map_of (commits s) inst of None \<Rightarrow> True | Some p \<Rightarrow> bc_view p < view)"
    using True by (simp add: not_less split: option.splits)
  ultimately show ?thesis using assms(1) by (intro exI [of _ s] exI [of _ False]) simp
next
  case False
  let ?c = "\<lparr>bc_view = view, bc_instance = inst, bc_proposal = cert_message cert\<rparr>"
  let ?s = "s\<lparr>commits := alist_insert inst ?c (alist_erase inst (commits s))\<rparr>"
  have "bc_new (commit_capacity s) cert = Inr ?c"
    using assms(2,3) by (simp add: bc_new_def u64_less_iff)
  then have run: "replica_committed cert s = Inr (?s, True)"
    using False by (simp add: replica_committed_def assms(2))
  have sk: "sorted_keys (commits s)" using assms(1) by (simp add: replica_inv_def)
  then have sk': "sorted_keys (commits ?s)" by (simp add: sorted_alist)
  have upd: "map_of (commits ?s) = (map_of (commits s))(inst \<mapsto> ?c)"
    using sk by (simp add: sorted_alist map_of_alist)
  have "replica_inv ?s"
    using assms(1) sk sk' unfolding replica_inv_def map_of_members [OF sorted_keys_distinct [OF sk]]
      map_of_members [OF sorted_keys_distinct [OF sk']] upd by simp
  moreover have "(case map_of (commits s) inst of None \<Rightarrow> True | Some p \<Rightarrow> bc_view p < view)"
    using False by (simp add: not_le split: option.splits)
  ultimately show ?thesis using run upd by (intro exI [of _ ?s] exI [of _ True]) simp
qed

lemma replica_committed_inv:
  assumes "replica_committed cert s = Inr (s', ok)" "replica_inv s"
  shows "replica_inv s'"
proof (cases ok)
  case False
  with assms show ?thesis
    by (auto simp: replica_committed_def rbind_Inr_iff Let_def split: prod.splits if_splits)
next
  case True
  let ?i = "snd (unpack (cert_index cert))"
  obtain c where c: "bc_new (commit_capacity s) cert = Inr c"
    "s' = s\<lparr>commits := alist_insert ?i c (alist_erase ?i (commits s))\<rparr>"
    using assms(1) True
    by (auto simp: replica_committed_def rbind_Inr_iff Let_def split: prod.splits if_splits)
  have sk: "sorted_keys (commits s)" using assms(2) by (simp add: replica_inv_def)
  then have sk': "sorted_keys (commits s')" by (simp add: sorted_alist c(2))
  have upd: "map_of (commits s') = (map_of (commits s))(?i \<mapsto> c)"
    using sk by (simp add: sorted_alist map_of_alist c(2))
  show ?thesis
    using assms(2) sk sk' bc_new_fields [OF c(1)]
    unfolding replica_inv_def map_of_members [OF sorted_keys_distinct [OF sk]]
      map_of_members [OF sorted_keys_distinct [OF sk']] upd by simp
qed

lemma sorted_keys_dropWhile: "sorted_keys ps \<Longrightarrow> sorted_keys (dropWhile P ps)"
  by (induction ps) auto

lemma prune_commits_inv: "replica_inv s \<Longrightarrow> replica_inv (prune_commits low s)"
  unfolding replica_inv_def prune_commits_def
  by (simp add: sorted_keys_dropWhile) (blast dest: set_dropWhileD)

lemma map_of_dropWhile_below:
  "sorted_keys ps \<Longrightarrow> map_of (dropWhile (\<lambda>p. fst p < low) ps) i = (if i < low then None else map_of ps i)"
proof (induction ps)
  case (Cons p ps)
  obtain a b where p: "p = (a, b)" by (cases p)
  have sk: "sorted_keys ps" "\<forall>x \<in> set ps. a < fst x" using Cons.prems by (auto simp: p)
  show ?case
  proof (cases "a < low")
    case True
    with Cons.IH [OF sk(1)] show ?thesis by (auto simp: p)
  next
    case False
    have "map_of ((a, b) # ps) i = None" if "i < low"
      using that False sk(2) by (auto simp: map_of_eq_None_iff)
    with False show ?thesis by (simp add: p)
  qed
qed simp

lemma prune_commits_low:
  "replica_inv s \<Longrightarrow>
   map_of (commits (prune_commits low s)) i = (if i < low then None else map_of (commits s) i)"
  by (simp add: replica_inv_def prune_commits_def map_of_dropWhile_below)

end
