(* ===== verification/Requests.thy ===== *)
theory Requests
  imports Bytes Tail_Map
begin

text \<open>
  \<open>consensus/internal/requests.hpp\<close>: the batch of requests inside a proposal, the iterator that
  walks it, and the log of requests received from clients against which a replica checks that
  the leader did not make a request up.

  A batch does not own its bytes; reading past them is undefined behaviour. A buffer kept by the
  log is the bytes copied into it, and its pool only matters through the size it refuses.
\<close>

section \<open>Batch\<close>

text \<open>
  A request in place: the three header fields, and the memory that starts at its payload.
  \<open>RequestHeader\<close> is \<open>offsetof(Layout, payload)\<close>.
\<close>

record request =
  rq_client :: proc_id
  rq_id :: u64
  rq_size :: u64
  rq_memory :: bytes

definition RequestHeader :: nat where
  "RequestHeader = 24"

definition request_buffer_size :: "u64 \<Rightarrow> u64" where
  "request_buffer_size request_size = of_nat RequestHeader + request_size"

definition batch_buffer_size :: "u64 \<Rightarrow> u64 \<Rightarrow> u64" where
  "batch_buffer_size batch_size request_size = batch_size * request_buffer_size request_size"

definition rd_request :: "bytes \<Rightarrow> nat \<Rightarrow> request result" where
  "rd_request bs off =
     rbind (rd32 bs off) (\<lambda>client. rbind (rd64 bs (off + 8)) (\<lambda>i.
     rbind (rd64 bs (off + 16)) (\<lambda>sz.
     Inr \<lparr>rq_client = client, rq_id = i, rq_size = sz, rq_memory = drop (off + RequestHeader) bs\<rparr>)))"

text \<open>\<open>[begin(), end())\<close>.\<close>

definition rq_payload :: "request \<Rightarrow> bytes result" where
  "rq_payload rq = slice (rq_memory rq) 0 (unat (rq_size rq))"

text \<open>
  A loop over a batch, \<open>for (auto it = batch.requests(); !it.done(); ++it)\<close>; the body says
  whether to go on. The offset wraps. A loop that visits more requests than the batch has bytes
  has visited one twice and never ends.
\<close>

fun batch_each ::
  "nat \<Rightarrow> bytes \<Rightarrow> u64 \<Rightarrow> (request \<Rightarrow> 's \<Rightarrow> ('s \<times> bool) result) \<Rightarrow> 's \<Rightarrow> 's result" where
  "batch_each 0 bs off f s = Inl Spins"
| "batch_each (Suc n) bs off f s =
     (if off \<ge> of_nat (length bs) then Inr s
      else rbind (rd_request bs (unat off)) (\<lambda>rq.
           rbind (f rq s) (\<lambda>(s', go).
             if go then batch_each n bs (off + request_buffer_size (rq_size rq)) f s' else Inr s')))"

definition batch_loop :: "bytes \<Rightarrow> (request \<Rightarrow> 's \<Rightarrow> ('s \<times> bool) result) \<Rightarrow> 's \<Rightarrow> 's result" where
  "batch_loop bs f s = batch_each (Suc (Suc (length bs))) bs 0 f s"

section \<open>SingleClientRequests\<close>

record client_requests =
  sc_window :: u64
  sc_max_request_size :: u64
  sc_requests :: "bytes tail_map"
  sc_accept_below :: "u64 option"

definition client_new :: "u64 \<Rightarrow> u64 \<Rightarrow> client_requests" where
  "client_new window max_request_size =
     \<lparr>sc_window = window, sc_max_request_size = max_request_size, sc_requests = tm_new window,
      sc_accept_below = None\<rparr>"

definition client_add_request :: "u64 \<Rightarrow> bytes \<Rightarrow> client_requests \<Rightarrow> (client_requests \<times> bool) result" where
  "client_add_request request_id bs c =
     (if (case sc_accept_below c of None \<Rightarrow> False | Some b \<Rightarrow> request_id \<ge> b) then Inr (c, False)
      else
        let c1 = c\<lparr>sc_accept_below := Some (request_id + sc_window c)\<rparr> in
        if length bs > unat (sc_max_request_size c)
        then Inl (Runtime_error ''Resize tried to reallocate beyond the initial size.'')
        else rbind (tm_try_emplace (sc_requests c1) request_id bs) (\<lambda>(m, it, ok).
          Inr (c1\<lparr>sc_requests := m\<rparr>, ok)))"

text \<open>The four-iterator \<open>std::equal\<close>: sizes first, then bytes.\<close>

definition client_is_valid :: "request \<Rightarrow> client_requests \<Rightarrow> bool result" where
  "client_is_valid rq c =
     rbind (tm_find (sc_requests c) (rq_id rq)) (\<lambda>it.
       if it = tm_end (sc_requests c) then Inr False
       else rbind (tm_deref (sc_requests c) it) (\<lambda>e.
         if length (snd e) \<noteq> unat (rq_size rq) then Inr False
         else rbind (rq_payload rq) (\<lambda>p. Inr (snd e = p))))"

definition client_decided :: "request \<Rightarrow> client_requests \<Rightarrow> client_requests" where
  "client_decided rq c = c\<lparr>sc_accept_below := Some (rq_id rq + sc_window c + 1)\<rparr>"

section \<open>RequestLog\<close>

record request_log =
  rl_client_window :: u64
  rl_max_request_size :: u64
  rl_clients :: "client_requests option list"

definition log_new :: "u64 \<Rightarrow> u64 \<Rightarrow> request_log" where
  "log_new window max_request_size =
     \<lparr>rl_client_window = window, rl_max_request_size = max_request_size, rl_clients = []\<rparr>"

text \<open>\<open>static_cast<size_t>\<close> of a process id, and \<open>client_requests.at\<close> of it, which is checked.\<close>

definition client_slot :: "proc_id \<Rightarrow> u64" where
  "client_slot client_id = of_int client_id"

definition log_client :: "proc_id \<Rightarrow> request_log \<Rightarrow> client_requests option result" where
  "log_client client_id l =
     (let i = unat (client_slot client_id) in
      if i < length (rl_clients l) then Inr (rl_clients l ! i) else Inl Out_of_range)"

definition log_client_exists :: "proc_id \<Rightarrow> request_log \<Rightarrow> bool result" where
  "log_client_exists client_id l =
     (if of_nat (length (rl_clients l)) \<ge> client_slot client_id + 1
      then rbind (log_client client_id l) (\<lambda>c. Inr (\<not> Option.is_none c))
      else Inr False)"

definition log_put_client :: "proc_id \<Rightarrow> client_requests \<Rightarrow> request_log \<Rightarrow> request_log" where
  "log_put_client client_id c l =
     l\<lparr>rl_clients := (rl_clients l)[unat (client_slot client_id) := Some c]\<rparr>"

definition log_add_client :: "proc_id \<Rightarrow> request_log \<Rightarrow> (request_log \<times> bool) result" where
  "log_add_client client_id l =
     rbind (log_client_exists client_id l) (\<lambda>known.
       if known then Inr (l, False)
       else
         let missing = unat (client_slot client_id + 1) - length (rl_clients l);
             l1 = l\<lparr>rl_clients := rl_clients l @ replicate missing None\<rparr>
         in rbind (log_client client_id l1) (\<lambda>_.
              Inr (log_put_client client_id
                     (client_new (rl_client_window l1) (rl_max_request_size l1)) l1, True)))"

text \<open>The client's requests, where the code dereferences the optional without a test.\<close>

definition log_the_client :: "proc_id \<Rightarrow> request_log \<Rightarrow> client_requests result" where
  "log_the_client client_id l =
     rbind (log_client client_id l) (\<lambda>c. case c of None \<Rightarrow> Inl Undefined_behaviour | Some c \<Rightarrow> Inr c)"

definition log_add_request ::
  "proc_id \<Rightarrow> u64 \<Rightarrow> bytes \<Rightarrow> request_log \<Rightarrow> (request_log \<times> bool) result" where
  "log_add_request client_id request_id bs l =
     rbind (log_client_exists client_id l) (\<lambda>known.
     rbind (if known then Inr l else rbind (log_add_client client_id l) (\<lambda>r. Inr (fst r))) (\<lambda>l1.
     rbind (log_the_client client_id l1) (\<lambda>c.
     rbind (client_add_request request_id bs c) (\<lambda>(c', ok).
     Inr (log_put_client client_id c' l1, ok)))))"

definition log_request_valid :: "request_log \<Rightarrow> request \<Rightarrow> bool result" where
  "log_request_valid l rq =
     rbind (log_client_exists (rq_client rq) l) (\<lambda>known.
       if \<not> known then Inr False
       else rbind (log_the_client (rq_client rq) l) (client_is_valid rq))"

definition log_is_valid :: "bytes \<Rightarrow> request_log \<Rightarrow> bool result" where
  "log_is_valid batch l =
     batch_loop batch (\<lambda>rq _. rbind (log_request_valid l rq) (\<lambda>ok. Inr (ok, ok))) True"

text \<open>An unknown client is only logged; the access that follows is the same.\<close>

definition log_decided_request :: "request \<Rightarrow> request_log \<Rightarrow> request_log result" where
  "log_decided_request rq l =
     rbind (log_client_exists (rq_client rq) l) (\<lambda>_.
     rbind (log_the_client (rq_client rq) l) (\<lambda>c.
     Inr (log_put_client (rq_client rq) (client_decided rq c) l)))"

definition log_decided :: "bytes \<Rightarrow> request_log \<Rightarrow> request_log result" where
  "log_decided batch l =
     batch_loop batch (\<lambda>rq l. rbind (log_decided_request rq l) (\<lambda>l'. Inr (l', True))) l"

section \<open>Walking a batch\<close>

text \<open>The bytes of a request as the leader writes them; the four padding bytes are arbitrary.\<close>

definition request_bytes :: "bytes \<Rightarrow> proc_id \<times> u64 \<times> bytes \<Rightarrow> bytes" where
  "request_bytes pad r = (case r of (client, i, payload) \<Rightarrow>
     le32 client @ pad @ le64 i @ le64 (of_nat (length payload)) @ payload)"

definition batch_bytes :: "bytes \<Rightarrow> (proc_id \<times> u64 \<times> bytes) list \<Rightarrow> bytes" where
  "batch_bytes pad rs = concat (map (request_bytes pad) rs)"

definition request_view :: "proc_id \<times> u64 \<times> bytes \<Rightarrow> bytes \<Rightarrow> request" where
  "request_view r rest = (case r of (client, i, payload) \<Rightarrow>
     \<lparr>rq_client = client, rq_id = i, rq_size = of_nat (length payload), rq_memory = payload @ rest\<rparr>)"

lemma rd_request_bytes:
  assumes "length pad = 4" "proc_ok (fst r)" "length xs = off"
  shows "rd_request (xs @ request_bytes pad r @ rest) off = Inr (request_view r rest)"
proof -
  obtain client i payload where r: "r = (client, i, payload)" by (metis prod.exhaust)
  with assms show ?thesis
    by (simp add: rd_request_def request_bytes_def request_view_def bytes_read RequestHeader_def)
qed

lemma rq_payload_view:
  "length (snd (snd r)) < 18446744073709551616 \<Longrightarrow> rq_payload (request_view r rest) = Inr (snd (snd r))"
  by (cases r) (simp add: rq_payload_def request_view_def unat_u64_of_nat slice_prefix)

lemma length_request_bytes:
  "length pad = 4 \<Longrightarrow> length (request_bytes pad r) = RequestHeader + length (snd (snd r))"
  by (cases r) (simp add: request_bytes_def RequestHeader_def)

text \<open>The loop visits the requests of a well-formed batch in order, and it ends.\<close>

fun requests_loop ::
  "bytes \<Rightarrow> (proc_id \<times> u64 \<times> bytes) list \<Rightarrow> (request \<Rightarrow> 's \<Rightarrow> ('s \<times> bool) result) \<Rightarrow> 's \<Rightarrow> 's result" where
  "requests_loop pad [] f s = Inr s"
| "requests_loop pad (r # rs) f s =
     rbind (f (request_view r (batch_bytes pad rs)) s) (\<lambda>(s', go).
       if go then requests_loop pad rs f s' else Inr s')"

lemma batch_each_bytes:
  assumes "length pad = 4" "\<forall>r \<in> set rs. proc_ok (fst r)"
    and "length xs + length (batch_bytes pad rs) < 18446744073709551616" "length rs < n"
  shows "batch_each n (xs @ batch_bytes pad rs) (of_nat (length xs)) f s = requests_loop pad rs f s"
  using assms(2-4)
proof (induction rs arbitrary: xs n s)
  case Nil
  then show ?case by (cases n) (simp_all add: batch_bytes_def)
next
  case (Cons r rs)
  then obtain n' where n: "n = Suc n'" "length rs < n'" by (cases n) auto
  let ?rb = "request_bytes pad r" and ?rest = "batch_bytes pad rs"
  have bs: "batch_bytes pad (r # rs) = ?rb @ ?rest" by (simp add: batch_bytes_def)
  have lr: "length ?rb = RequestHeader + length (snd (snd r))" using assms(1) by (rule length_request_bytes)
  have bound: "length (xs @ ?rb) + length ?rest < 18446744073709551616" using Cons.prems(2) bs by simp
  have ux: "unat (of_nat (length xs) :: u64) = length xs" using bound by (intro unat_u64_of_nat) simp
  have ub: "unat (of_nat (length (xs @ ?rb @ ?rest)) :: u64) = length (xs @ ?rb @ ?rest)"
    using bound by (intro unat_u64_of_nat) simp
  have lt: "\<not> of_nat (length (xs @ ?rb @ ?rest)) \<le> (of_nat (length xs) :: u64)"
    unfolding u64_le_iff ux ub using lr by (auto simp: RequestHeader_def)
  have rd: "rd_request (xs @ ?rb @ ?rest) (length xs) = Inr (request_view r ?rest)"
    using Cons.prems(1) assms(1) by (intro rd_request_bytes) simp_all
  have off: "of_nat (length xs) + request_buffer_size (rq_size (request_view r ?rest)) =
      (of_nat (length (xs @ ?rb)) :: u64)"
  proof -
    have "request_buffer_size (rq_size (request_view r ?rest)) = of_nat (length ?rb)"
      unfolding lr by (cases r) (simp add: request_view_def request_buffer_size_def)
    then show ?thesis by simp
  qed
  have "batch_each n' ((xs @ ?rb) @ ?rest) (of_nat (length (xs @ ?rb))) f s' = requests_loop pad rs f s'" for s'
    using Cons.prems(1) bound n(2) by (intro Cons.IH) simp_all
  then have IH: "batch_each n' (xs @ ?rb @ ?rest) (of_nat (length (xs @ ?rb))) f s' = requests_loop pad rs f s'" for s'
    by (simp only: append_assoc)
  show ?case unfolding n(1) bs batch_each.simps if_not_P [OF lt] ux rd rbind_simps off IH requests_loop.simps ..
qed

lemma batch_loop_bytes:
  assumes "length pad = 4" "\<forall>r \<in> set rs. proc_ok (fst r)"
    and "length (batch_bytes pad rs) < 18446744073709551616"
  shows "batch_loop (batch_bytes pad rs) f s = requests_loop pad rs f s"
proof -
  have "length rs \<le> length (batch_bytes pad rs)"
  proof (induction rs)
    case (Cons r rs)
    then show ?case using length_request_bytes [OF assms(1), of r] by (simp add: batch_bytes_def RequestHeader_def)
  qed simp
  then have "length rs < Suc (Suc (length (batch_bytes pad rs)))" by simp
  from batch_each_bytes [OF assms(1,2) _ this, of "[]" f s] assms(3) show ?thesis
    unfolding batch_loop_def by (simp del: batch_each.simps)
qed

text \<open>
  A size of \<open>2 ^ 64 - 24\<close> brings the offset back to the same request: the iterator does not
  advance and a loop whose body goes on never ends.
\<close>

lemma batch_each_stuck:
  assumes "rd_request bs 0 = Inr rq" "rq_size rq = - of_nat RequestHeader" "bs \<noteq> []"
    and "length bs < 18446744073709551616" "\<And>s. \<exists>s'. f rq s = Inr (s', True)"
  shows "batch_each n bs 0 f s = Inl Spins"
proof (induction n arbitrary: s)
  case (Suc n)
  have "unat (of_nat (length bs) :: u64) = length bs" using assms(4) by (rule unat_u64_of_nat)
  then have "of_nat (length bs) \<noteq> (0 :: u64)" using assms(3) by (metis length_0_conv unat_0)
  moreover obtain s' where "f rq s = Inr (s', True)" using assms(5) by blast
  ultimately show ?case using Suc assms(1,2) by (simp add: request_buffer_size_def)
qed simp

section \<open>The log of one client\<close>

text \<open>
  \<open>sc_rep c es\<close>: the log holds the requests \<open>es\<close>. Requests are numbered upwards by their client;
  each accepted request leaves the last \<open>window\<close> of them available.
\<close>

definition sc_rep :: "client_requests \<Rightarrow> (u64 \<times> bytes) list \<Rightarrow> bool" where
  "sc_rep c es \<longleftrightarrow> tm_rep (sc_requests c) es \<and> tm_tail (sc_requests c) = sc_window c"

definition sc_accepts :: "client_requests \<Rightarrow> u64 \<Rightarrow> bool" where
  "sc_accepts c i \<longleftrightarrow> (case sc_accept_below c of None \<Rightarrow> True | Some b \<Rightarrow> i < b)"

lemma client_new_rep: "w \<noteq> 0 \<Longrightarrow> sc_rep (client_new w m) []"
  using tm_new_rep [of w] by (simp add: sc_rep_def client_new_def tm_rep_def, simp add: tm_new_def)

lemma client_refuses:
  "\<not> sc_accepts c i \<Longrightarrow> client_add_request i bs c = Inr (c, False)"
  by (auto simp: sc_accepts_def client_add_request_def not_less split: option.splits)

lemma client_add_request_rep:
  assumes "sc_rep c es" "sc_accepts c i" "length bs \<le> unat (sc_max_request_size c)"
    and "tm_min (sc_requests c) \<le> i" "\<forall>e \<in> set es. fst e < i"
    and "unat i + unat (sc_window c) < 18446744073709551616"
  shows "\<exists>c'. client_add_request i bs c = Inr (c', True) \<and>
    sc_rep c' (filter (\<lambda>e. unat i < unat (fst e) + unat (sc_window c)) es @ [(i, bs)]) \<and>
    sc_accept_below c' = Some (i + sc_window c) \<and> sc_window c' = sc_window c \<and>
    sc_max_request_size c' = sc_max_request_size c"
proof -
  let ?m = "sc_requests c"
  have rep: "tm_rep ?m es" and t: "tm_tail ?m = sc_window c" using assms(1) by (simp_all add: sc_rep_def)
  have fresh: "es = [] \<or> tm_min ?m < i" using rep assms(5) by (metis last_in_set tm_rep_def)
  obtain m' where m': "tm_try_emplace ?m i bs = Inr (m', Some (tm_slot (sc_window c) i), True)"
    "tm_rep m' (tm_kept (sc_window c) i es @ [(i, bs)])" "tm_tail m' = sc_window c"
    using tm_rep_try_emplace [OF rep assms(4) fresh, of bs] assms(6) t by auto
  have sk: "sorted_keys es" using rep by (simp add: tm_rep_def tm_core_def)
  let ?c' = "c\<lparr>sc_accept_below := Some (i + sc_window c), sc_requests := m'\<rparr>"
  have "client_add_request i bs c = Inr (?c', True)"
    using assms(2,3) m'(1) by (auto simp: client_add_request_def sc_accepts_def not_less Let_def
        split: option.splits)
  moreover have "sc_rep ?c' (filter (\<lambda>e. unat i < unat (fst e) + unat (sc_window c)) es @ [(i, bs)])"
    using m'(2,3) tm_kept_filter [OF sk, of "sc_window c" i] by (simp add: sc_rep_def)
  ultimately show ?thesis by auto
qed

lemma client_is_valid_rep:
  assumes "sc_rep c es" "length (snd (snd r)) < 18446744073709551616"
  shows "client_is_valid (request_view r rest) c = Inr (map_of es (fst (snd r)) = Some (snd (snd r)))"
proof -
  obtain client i payload where r: "r = (client, i, payload)" by (metis prod.exhaust)
  have rep: "tm_core (sc_requests c) es" using assms(1) by (simp add: sc_rep_def tm_rep_def)
  have sz: "unat (of_nat (length payload) :: u64) = length payload"
    using assms(2) r by (simp add: unat_u64_of_nat)
  have vi: "rq_id (request_view r rest) = i" "rq_size (request_view r rest) = of_nat (length payload)"
    by (simp_all add: r request_view_def)
  note payload = rq_payload_view [OF assms(2), of rest]
  show ?thesis
  proof (cases "i \<in> fst ` set es")
    case True
    then obtain bs where bs: "(i, bs) \<in> set es" by auto
    have "distinct (map fst es)" using rep by (simp add: tm_core_def sorted_keys_distinct)
    then have m: "map_of es i = Some bs" using bs by simp
    have "tm_find (sc_requests c) i = Inr (Some (tm_slot (tm_tail (sc_requests c)) i))"
      "tm_deref (sc_requests c) (Some (tm_slot (tm_tail (sc_requests c)) i)) = Inr (i, bs)"
      using tm_core_find [OF rep, of i] tm_core_deref [OF rep bs] True by simp_all
    with m payload sz show ?thesis
      unfolding client_is_valid_def vi by (auto simp: r tm_end_def)
  next
    case False
    with tm_core_find [OF rep, of i] map_of_notin [OF False] show ?thesis
      unfolding client_is_valid_def vi by (simp add: r tm_end_def)
  qed
qed

section \<open>The log of all clients\<close>

text \<open>
  \<open>log_lookup\<close> is the request a log holds for a client and an identifier. A well-formed batch is
  valid exactly when the log holds every request in it, with the same payload.
\<close>

definition log_rep :: "request_log \<Rightarrow> (proc_id \<Rightarrow> (u64 \<times> bytes) list option) \<Rightarrow> bool" where
  "log_rep l R \<longleftrightarrow> length (rl_clients l) < 2147483648 \<and>
     (\<forall>client. 0 \<le> client \<and> client < 2147483648 \<longrightarrow>
        (if nat client < length (rl_clients l)
         then (case rl_clients l ! nat client of
                 None \<Rightarrow> R client = None
               | Some c \<Rightarrow> \<exists>es. R client = Some es \<and> sc_rep c es)
         else R client = None))"

definition log_lookup :: "(proc_id \<Rightarrow> (u64 \<times> bytes) list option) \<Rightarrow> proc_id \<Rightarrow> u64 \<Rightarrow> bytes option" where
  "log_lookup R client i = (case R client of None \<Rightarrow> None | Some es \<Rightarrow> map_of es i)"

lemma client_slot_nat: "0 \<le> client \<Longrightarrow> client < 2147483648 \<Longrightarrow> unat (client_slot client) = nat client"
proof -
  assume a: "0 \<le> client" "client < 2147483648"
  then obtain n where "client = int n" by (metis nonneg_int_cases)
  with a show ?thesis by (simp add: client_slot_def unat_u64_of_nat)
qed

lemma log_client_exists_result:
  assumes "length (rl_clients l) < 2147483648" "0 \<le> client" "client < 2147483648"
  shows "log_client_exists client l = Inr (nat client < length (rl_clients l) \<and> rl_clients l ! nat client \<noteq> None)"
proof -
  have s: "unat (client_slot client) = nat client" using assms(2,3) by (rule client_slot_nat)
  then have "unat (client_slot client + 1) = nat client + 1" using assms(3) by (subst unat_u64_Suc) simp_all
  moreover have "unat (of_nat (length (rl_clients l)) :: u64) = length (rl_clients l)"
    using assms(1) by (intro unat_u64_of_nat) simp
  ultimately show ?thesis using s
    by (auto simp: log_client_exists_def log_client_def u64_le_iff Option.is_none_def)
qed

lemma log_request_valid_rep:
  assumes "log_rep l R" "0 \<le> fst r" "fst r < 2147483648" "length (snd (snd r)) < 18446744073709551616"
  shows "log_request_valid l (request_view r rest) =
    Inr (log_lookup R (fst r) (fst (snd r)) = Some (snd (snd r)))"
proof -
  let ?c = "fst r"
  have vc: "rq_client (request_view r rest) = ?c" by (cases r) (simp add: request_view_def)
  have len: "length (rl_clients l) < 2147483648" using assms(1) by (simp add: log_rep_def)
  have R: "if nat ?c < length (rl_clients l)
      then (case rl_clients l ! nat ?c of None \<Rightarrow> R ?c = None | Some c \<Rightarrow> \<exists>es. R ?c = Some es \<and> sc_rep c es)
      else R ?c = None"
    using assms(1-3) unfolding log_rep_def by blast
  note ex = log_client_exists_result [OF len assms(2,3)]
  show ?thesis
  proof (cases "nat ?c < length (rl_clients l) \<and> rl_clients l ! nat ?c \<noteq> None")
    case True
    then obtain c where c: "rl_clients l ! nat ?c = Some c" by blast
    with R True obtain es where es: "R ?c = Some es" "sc_rep c es" by auto
    have "log_the_client ?c l = Inr c"
      using True c client_slot_nat [OF assms(2,3)] by (simp add: log_the_client_def log_client_def)
    with es c True ex client_is_valid_rep [OF es(2) assms(4)] show ?thesis
      by (simp add: log_request_valid_def vc log_lookup_def)
  next
    case False
    with R have "R ?c = None" by (auto split: if_split_asm)
    with False ex show ?thesis by (auto simp: log_request_valid_def vc log_lookup_def)
  qed
qed

theorem log_is_valid_rep:
  assumes "log_rep l R" "length pad = 4" "length (batch_bytes pad rs) < 18446744073709551616"
    and "\<forall>r \<in> set rs. 0 \<le> fst r \<and> fst r < 2147483648"
  shows "log_is_valid (batch_bytes pad rs) l =
    Inr (\<forall>r \<in> set rs. log_lookup R (fst r) (fst (snd r)) = Some (snd (snd r)))"
proof -
  let ?f = "\<lambda>rq _. rbind (log_request_valid l rq) (\<lambda>ok. Inr (ok, ok))"
  have "requests_loop pad rs ?f True =
      Inr (\<forall>r \<in> set rs. log_lookup R (fst r) (fst (snd r)) = Some (snd (snd r)))"
    using assms(3,4)
  proof (induction rs)
    case (Cons r rs)
    have "length (snd (snd r)) < 18446744073709551616"
      using Cons.prems(1) length_request_bytes [OF assms(2), of r] by (simp add: batch_bytes_def)
    then have v: "log_request_valid l (request_view r (batch_bytes pad rs)) =
        Inr (log_lookup R (fst r) (fst (snd r)) = Some (snd (snd r)))"
      using Cons.prems(2) by (intro log_request_valid_rep [OF assms(1)]) simp_all
    have "length (batch_bytes pad rs) < 18446744073709551616"
      using Cons.prems(1) by (simp add: batch_bytes_def)
    then have IH: "requests_loop pad rs ?f True =
        Inr (\<forall>r \<in> set rs. log_lookup R (fst r) (fst (snd r)) = Some (snd (snd r)))"
      using Cons.prems(2) by (intro Cons.IH) simp_all
    show ?case
      using IH by (cases "log_lookup R (fst r) (fst (snd r)) = Some (snd (snd r))") (simp_all add: v)
  qed simp
  moreover have ok: "\<forall>r \<in> set rs. proc_ok (fst r)" using assms(4) by (auto simp: proc_ok_def)
  ultimately show ?thesis unfolding log_is_valid_def batch_loop_bytes [OF assms(2) ok assms(3)] by simp
qed

text \<open>
  Deciding a well-formed batch succeeds when the log knows the clients of all its requests, and
  leaves the clients known; the code makes no use of the answer whether a client is known.
\<close>

definition log_knows :: "request_log \<Rightarrow> proc_id \<Rightarrow> bool" where
  "log_knows l client \<longleftrightarrow> 0 \<le> client \<and> client < 2147483648 \<and> nat client < length (rl_clients l) \<and>
     rl_clients l ! nat client \<noteq> None"

lemma log_decided_request_known:
  assumes "length (rl_clients l) < 2147483648" "log_knows l (rq_client rq)"
  shows "\<exists>l'. log_decided_request rq l = Inr l' \<and> length (rl_clients l') = length (rl_clients l) \<and>
    (\<forall>client. log_knows l client \<longrightarrow> log_knows l' client)"
proof -
  have k: "0 \<le> rq_client rq" "rq_client rq < 2147483648" using assms(2) by (simp_all add: log_knows_def)
  obtain c where c: "rl_clients l ! nat (rq_client rq) = Some c" "nat (rq_client rq) < length (rl_clients l)"
    using assms(2) by (auto simp: log_knows_def)
  show ?thesis
    using log_client_exists_result [OF assms(1) k] c client_slot_nat [OF k]
    by (auto simp: log_decided_request_def log_the_client_def log_client_def log_put_client_def
        log_knows_def nth_list_update)
qed

theorem log_decided_known:
  assumes "length (rl_clients l) < 2147483648" "length pad = 4" "length (batch_bytes pad rs) < 18446744073709551616"
    and "\<forall>r \<in> set rs. log_knows l (fst r)"
  shows "\<exists>l'. log_decided (batch_bytes pad rs) l = Inr l'"
proof -
  let ?f = "\<lambda>rq l. rbind (log_decided_request rq l) (\<lambda>l'. Inr (l', True))"
  have "\<exists>l'. requests_loop pad rs ?f l = Inr l'"
    using assms(1,4)
  proof (induction rs arbitrary: l)
    case (Cons r rs)
    have "rq_client (request_view r (batch_bytes pad rs)) = fst r" by (cases r) (simp add: request_view_def)
    with Cons.prems log_decided_request_known [of l "request_view r (batch_bytes pad rs)"]
    obtain l1 where l1: "log_decided_request (request_view r (batch_bytes pad rs)) l = Inr l1"
      "length (rl_clients l1) = length (rl_clients l)" "\<forall>client. log_knows l client \<longrightarrow> log_knows l1 client"
      by auto
    with Cons.IH [of l1] Cons.prems show ?case by simp
  qed simp
  moreover have "\<forall>r \<in> set rs. proc_ok (fst r)" using assms(4) by (auto simp: log_knows_def proc_ok_def)
  ultimately show ?thesis unfolding log_decided_def using batch_loop_bytes [OF assms(2) _ assms(3)] by metis
qed

text \<open>A request that claims to come from client -1 passes the size test and is looked up out of range.\<close>

lemma log_negative_client:
  assumes "length (rl_clients l) < 18446744073709551615"
  shows "log_client_exists (- 1) l = Inl Out_of_range"
proof -
  have "unat (- 1 :: u64) = 18446744073709551615"
    by (subst unsigned_minus_1_eq_mask) (simp add: mask_eq_exp_minus_1)
  then have "log_client (- 1) l = Inl Out_of_range"
    using assms by (simp add: log_client_def client_slot_def)
  moreover have "client_slot (- 1) + 1 \<le> of_nat (length (rl_clients l))" by (simp add: client_slot_def)
  ultimately show ?thesis by (simp add: log_client_exists_def)
qed

end
