(* ===== verification/Consensus.thy ===== *)
theory Consensus
  imports Consensus_State Requests Certifier_Safety
begin

text \<open>
  The consensus engine of a replica, \<open>ubft/src/consensus/consensus.hpp\<close>: propose, prepare,
  commit (fast and slow), checkpoints, and view changes.

  \<^item> A broadcaster is the index of its next message and the log of what it sent, a receiver the
    list of messages it will deliver, each with its index; the channels of fast commits and of
    certificates are lists in the same way.
  \<^item> Worker threads and the network act between the operations and between the rounds of the
    loops that wait for them. What happens during those waits is a script, \<open>cn_env\<close>: one list
    of events for every round.
  \<^item> \<open>handleCbMessage\<close> calls itself through \<open>changeView\<close> and \<open>waitForCbSlack\<close>. The operations in
    between take the handler \<open>h\<close> they call as an argument, and \<open>handle_cb_message\<close> ties the knot:
    its first argument bounds the depth of the calls and the rounds of a loop, and a loop that
    exceeds it is reported as \<open>Spins\<close>.
\<close>

section \<open>State\<close>

type_synonym cb_delivery = "u64 \<times> bytes"

record verified_commit =
  vc_from :: nat
  vc_certificate :: certificate
  vc_valid :: bool

record view_change =
  vc_view :: u64
  vc_certificates :: "(proc_id \<times> certificate) list"

datatype which_certifier = The_prepare | The_checkpoint | The_vc_state nat | The_cb_checkpoint nat

text \<open>What workers and network do.\<close>

datatype env_event =
    Cb_arrives nat cb_delivery
  | Fast_commit_arrives nat bytes
  | Commit_checked nat nat
  | Certifier_event which_certifier cf_event

record consensus =
  broadcast_next :: u64
  broadcast_tail :: u64
  broadcast_log :: "bytes list"
  broadcast_slow_path :: bool
  cb_inbox :: "cb_delivery list list"
  fast_inbox :: "bytes list list"
  fast_commits_sent :: "(u64 \<times> u64) list"
  cb_checkpoints_sent :: "bytes list"
  cn_env :: "env_event list list"
  cn_junk :: "nat \<Rightarrow> nat \<Rightarrow> byte"
  prepare_certifier :: certifier
  checkpoint_certifier :: certifier
  vc_state_certifiers :: "certifier list"
  cb_checkpoint_certifiers :: "certifier list"
  cn_local_id :: proc_id
  local_index :: nat
  cn_quorum :: u64
  local_checkpoint :: checkpoint
  checkpoint_certificate :: certificate
  send_checkpoint_above :: u64
  cn_window :: u64
  can_cb_until :: u64
  max_proposal_size :: u64
  cn_ids :: "proc_id list"
  sorted_ids :: "proc_id list"
  cn_indices :: "(proc_id \<times> nat) list"
  next_proposal :: u64
  cn_proposed :: u64
  next_to_decide :: u64
  to_propose :: "prepare_message list"
  slow_path_enabled :: bool
  replica_states :: "replica_state list"
  buffered_commits :: "certificate list list"
  instance_states :: "instance_state tail_map"
  ongoing_view_change :: "view_change option"
  verified_commits :: "verified_commit list"
  commit_tasks :: "certificate list list"
  cn_request_log :: request_log

type_synonym handler = "nat \<Rightarrow> cb_delivery \<Rightarrow> consensus \<Rightarrow> consensus result"

text \<open>
  The constructor. \<open>receivers\<close> are the processes of the broadcast receivers; the local replica
  comes last. The slow path of a certifier that only serves checkpoints or states is switched on,
  its fast path off.
\<close>

definition slow_only :: "certifier \<Rightarrow> certifier" where
  "slow_only c = toggle_slow_path True (toggle_fast_path False c)"

definition consensus_new ::
  "u64 \<Rightarrow> proc_id list \<Rightarrow> certifier \<Rightarrow> certifier list \<Rightarrow> certifier \<Rightarrow> certifier list \<Rightarrow> proc_id \<Rightarrow>
   u64 \<Rightarrow> u64 \<Rightarrow> u64 \<Rightarrow> u64 \<Rightarrow> (nat \<Rightarrow> nat \<Rightarrow> byte) \<Rightarrow> consensus" where
  "consensus_new tail receivers prepare vc_states cp cb_cps me window max_request_size max_batch_size
     client_window junk =
     (let n = length receivers; all_ids = receivers @ [me];
          mps = batch_buffer_size max_batch_size max_request_size in
      \<lparr>broadcast_next = 0, broadcast_tail = tail, broadcast_log = [], broadcast_slow_path = False,
       cb_inbox = replicate n [], fast_inbox = replicate n [], fast_commits_sent = [],
       cb_checkpoints_sent = [], cn_env = [], cn_junk = junk, prepare_certifier = prepare,
       checkpoint_certifier = slow_only cp, vc_state_certifiers = map slow_only vc_states,
       cb_checkpoint_certifiers = map slow_only cb_cps, cn_local_id = me, local_index = n,
       cn_quorum = (of_nat n + 1) div 2 + 1, local_checkpoint = checkpoint_new 0 window zero_digest,
       checkpoint_certificate =
         genesis_certificate cp (checkpoint_bytes (checkpoint_new 0 window zero_digest)),
       send_checkpoint_above = 0, cn_window = window, can_cb_until = tail - 1,
       max_proposal_size = mps, cn_ids = all_ids, sorted_ids = sort all_ids,
       cn_indices = zip all_ids [0 ..< Suc n], next_proposal = 0, cn_proposed = 0, next_to_decide = 0,
       to_propose = [], slow_path_enabled = False,
       replica_states = replicate (Suc n) (replica_new window mps),
       buffered_commits = replicate (Suc n) [], instance_states = tm_new window,
       ongoing_view_change = None, verified_commits = [], commit_tasks = replicate n [],
       cn_request_log = log_new client_window max_request_size\<rparr>)"

definition put_state :: "nat \<Rightarrow> replica_state \<Rightarrow> consensus \<Rightarrow> consensus" where
  "put_state i s c = c\<lparr>replica_states := (replica_states c)[i := s]\<rparr>"

definition get_state :: "consensus \<Rightarrow> nat \<Rightarrow> replica_state result" where
  "get_state c i = uat (replica_states c) i"

definition local_state :: "consensus \<Rightarrow> replica_state result" where
  "local_state c = get_state c (local_index c)"

definition leader :: "consensus \<Rightarrow> u64 \<Rightarrow> proc_id result" where
  "leader c view = uat (sorted_ids c) (unat (view mod of_nat (length (cn_ids c))))"

definition certified_checkpoint :: "consensus \<Rightarrow> checkpoint result" where
  "certified_checkpoint c = rd_checkpoint (cert_message (checkpoint_certificate c)) 0"

section \<open>Workers and network\<close>

text \<open>The events of a certifier that are not operations of its owner.\<close>

fun outside_event :: "cf_event \<Rightarrow> bool" where
  "outside_event (Deliver_promise r i) = True"
| "outside_event (Deliver_share r bs) = True"
| "outside_event (Run_compute i) = True"
| "outside_event (Run_check r i) = True"
| "outside_event _ = False"

fun on_certifier ::
  "which_certifier \<Rightarrow> (certifier \<Rightarrow> certifier result) \<Rightarrow> consensus \<Rightarrow> consensus result" where
  "on_certifier The_prepare f c =
     rbind (f (prepare_certifier c)) (\<lambda>x. Inr (c\<lparr>prepare_certifier := x\<rparr>))"
| "on_certifier The_checkpoint f c =
     rbind (f (checkpoint_certifier c)) (\<lambda>x. Inr (c\<lparr>checkpoint_certifier := x\<rparr>))"
| "on_certifier (The_vc_state i) f c =
     rbind (uat (vc_state_certifiers c) i) (\<lambda>y. rbind (f y) (\<lambda>x.
     Inr (c\<lparr>vc_state_certifiers := (vc_state_certifiers c)[i := x]\<rparr>)))"
| "on_certifier (The_cb_checkpoint i) f c =
     rbind (uat (cb_checkpoint_certifiers c) i) (\<lambda>y. rbind (f y) (\<lambda>x.
     Inr (c\<lparr>cb_checkpoint_certifiers := (cb_checkpoint_certifiers c)[i := x]\<rparr>)))"

text \<open>A worker checks a commit with the prepare certifier and hands the result back.\<close>

definition run_commit_check :: "nat \<Rightarrow> nat \<Rightarrow> consensus \<Rightarrow> consensus result" where
  "run_commit_check r i c =
     (if r < length (commit_tasks c) \<and> i < length (commit_tasks c ! r) then
        let cert = commit_tasks c ! r ! i in
        rbind (certifier_check (prepare_certifier c) cert) (\<lambda>valid.
        Inr (c\<lparr>commit_tasks := (commit_tasks c)[r := remove_nth i (commit_tasks c ! r)],
               verified_commits := verified_commits c @
                 [\<lparr>vc_from = r, vc_certificate = cert, vc_valid = valid\<rparr>]\<rparr>))
      else Inr c)"

fun env_apply :: "env_event \<Rightarrow> consensus \<Rightarrow> consensus result" where
  "env_apply (Cb_arrives r m) c = Inr (c\<lparr>cb_inbox := (cb_inbox c)[r := cb_inbox c ! r @ [m]]\<rparr>)"
| "env_apply (Fast_commit_arrives r bs) c =
     Inr (c\<lparr>fast_inbox := (fast_inbox c)[r := fast_inbox c ! r @ [bs]]\<rparr>)"
| "env_apply (Commit_checked r i) c = run_commit_check r i c"
| "env_apply (Certifier_event w e) c = (if outside_event e then on_certifier w (cf_apply e) c else Inr c)"

definition env_step :: "consensus \<Rightarrow> consensus result" where
  "env_step c = (case cn_env c of [] \<Rightarrow> Inr c | es # rest \<Rightarrow> rfold env_apply es (c\<lparr>cn_env := rest\<rparr>))"

section \<open>Commits\<close>

text \<open>
  \<open>handleVerifiedCommit\<close>. The early return for commits of older views is compiled out
  (\<open>DontDecideOnCheckpointedInstances\<close> is false).
\<close>

definition handle_verified_commit :: "nat \<Rightarrow> certificate \<Rightarrow> consensus \<Rightarrow> consensus result" where
  "handle_verified_commit from_index cert c0 =
     rbind (get_state c0 from_index) (\<lambda>s.
       let c = put_state from_index (s\<lparr>outstanding := outstanding s - 1\<rparr>) c0;
           inst = snd (unpack (cert_index cert)) in
       rbind (tm_find (instance_states c) inst) (\<lambda>it.
         if it = tm_end (instance_states c) then
           rbind (uat (buffered_commits c) from_index) (\<lambda>buffer.
           Inr (c\<lparr>buffered_commits :=
                  (buffered_commits c)[from_index := push_bounded (cn_window c) cert buffer]\<rparr>))
         else
           rbind (tm_deref (instance_states c) it) (\<lambda>e.
           rbind (received_commit from_index (snd e)) (\<lambda>r.
             if \<not> snd r then Inl (Logic_error ''Should have been detected before.'')
             else rbind (tm_assign (instance_states c) it (fst r)) (\<lambda>m.
               Inr (c\<lparr>instance_states := m\<rparr>))))))"

definition poll_verified_commit :: "verified_commit \<Rightarrow> consensus \<Rightarrow> consensus result" where
  "poll_verified_commit vc c =
     (if \<not> vc_valid vc
      then Inl (Logic_error ''Byzantine commit received from {}, invalid prepare certificate.'')
      else handle_verified_commit (vc_from vc) (vc_certificate vc) c)"

definition poll_verified_commits :: "consensus \<Rightarrow> consensus result" where
  "poll_verified_commits c =
     rfold poll_verified_commit (verified_commits c) (c\<lparr>verified_commits := []\<rparr>)"

definition is_byzantine_commit :: "nat \<Rightarrow> certificate \<Rightarrow> consensus \<Rightarrow> bool result" where
  "is_byzantine_commit from_index cert c =
     rbind (get_state c from_index) (\<lambda>s.
       let (view, inst) = unpack (cert_index cert) in
       Inr (if cp_high (rs_checkpoint s) \<le> inst then True else at_view s \<noteq> view))"

definition handle_commit :: "nat \<Rightarrow> bytes \<Rightarrow> consensus \<Rightarrow> consensus result" where
  "handle_commit from_index bs c =
     rbind (try_into_certificate bs None) (\<lambda>ok.
       case ok of Inl err \<Rightarrow> Inl (Runtime_error ''Byzantine behavior: malformed certificate: {}'')
       | Inr cert \<Rightarrow>
         rbind (is_byzantine_commit from_index cert c) (\<lambda>byz.
           if byz then Inl (Logic_error ''Byzantine commit received from {}.'')
           else rbind (get_state c from_index) (\<lambda>s.
             rbind (replica_committed cert s) (\<lambda>r.
               if \<not> snd r then Inl (Runtime_error ''Byzantine {} committed twice.'')
               else
                 let c1 = put_state from_index ((fst r)\<lparr>outstanding := outstanding (fst r) + 1\<rparr>) c in
                 if from_index \<noteq> local_index c then
                   rbind (uat (commit_tasks c1) from_index) (\<lambda>q.
                   Inr (c1\<lparr>commit_tasks :=
                          (commit_tasks c1)[from_index := push_bounded (cn_window c1) cert q]\<rparr>))
                 else Inr (c1\<lparr>verified_commits := verified_commits c1 @
                        [\<lparr>vc_from = from_index, vc_certificate = cert, vc_valid = True\<rparr>]\<rparr>)))))"

section \<open>Prepares\<close>

definition check_valid_value :: "prepare_message \<Rightarrow> replica_state \<Rightarrow> bool result" where
  "check_valid_value prepare s =
     (case rs_valid_values s of
        None \<Rightarrow> Inr True
      | Some vv \<Rightarrow>
          rbind (tm_find (snd vv) (pm_instance prepare)) (\<lambda>it.
            if it = tm_end (snd vv) then Inr False
            else rbind (tm_deref (snd vv) it) (\<lambda>e. Inr (snd e \<noteq> pm_data prepare))))"

definition is_byzantine_prepare :: "nat \<Rightarrow> prepare_message \<Rightarrow> consensus \<Rightarrow> bool result" where
  "is_byzantine_prepare from_index prepare c =
     rbind (uat (cn_ids c) from_index) (\<lambda>ident.
     rbind (leader c (pm_view prepare)) (\<lambda>l.
       if l \<noteq> ident then Inr True
       else
         rbind (get_state c from_index) (\<lambda>s.
           if at_view s \<noteq> pm_view prepare then Inr True
           else
             rbind (pessimistic_find (instance_states c) (pm_instance prepare)) (\<lambda>it.
               if it \<noteq> tm_end (instance_states c) then Inr True
               else if next_prepare s > pm_instance prepare then Inr True
               else if \<not> range_contains (rs_checkpoint s) (pm_instance prepare) then Inr True
               else if pm_view prepare \<noteq> 0 then check_valid_value prepare s
               else Inr False))))"

definition replay_commit :: "u64 \<Rightarrow> nat \<Rightarrow> consensus \<Rightarrow> consensus result" where
  "replay_commit useful from_index c =
     rbind (uat (buffered_commits c) from_index) (\<lambda>buffer.
       let useable = dropWhile (\<lambda>cert. cert_index cert < useful) buffer;
           c1 = c\<lparr>buffered_commits := (buffered_commits c)[from_index := useable]\<rparr> in
       if useable \<noteq> [] \<and> cert_index (hd useable) = useful then
         rbind (handle_verified_commit from_index (hd useable) c1) (\<lambda>c2.
         rbind (uat (buffered_commits c2) from_index) (\<lambda>b.
         Inr (c2\<lparr>buffered_commits := (buffered_commits c2)[from_index := tl b]\<rparr>)))
       else Inr c1)"

definition try_certify_prepare :: "tm_iterator \<Rightarrow> consensus \<Rightarrow> consensus result" where
  "try_certify_prepare it c =
     rbind (tm_deref (instance_states c) it) (\<lambda>e.
       let data = snd e; pm = is_prepare data in
       if certified_prepare data then Inr c
       else
         rbind (log_is_valid (pm_data pm) (cn_request_log c)) (\<lambda>valid.
           if \<not> valid then Inr c
           else
             rbind (leader c (pm_view pm)) (\<lambda>l.
               let from_me = l = cn_local_id c; index = pack (pm_view pm) (pm_instance pm) in
               rbind (acknowledge index (pm_data pm) from_me (prepare_certifier c)) (\<lambda>cf.
               rbind (if from_me then Inr cf
                      else rbind (local_state c) (\<lambda>s. rbind (leader c (at_view s)) (\<lambda>l'.
                             received_implicit_promise l' index cf))) (\<lambda>cf'.
               rbind (tm_assign (instance_states c) it (data\<lparr>certified_prepare := True\<rparr>)) (\<lambda>m.
               Inr (c\<lparr>prepare_certifier := cf', instance_states := m\<rparr>)))))))"

text \<open>The loop over all instances: each is reached by its key.\<close>

definition try_certify_prepares :: "consensus \<Rightarrow> consensus result" where
  "try_certify_prepares c =
     rbind (tm_entries (instance_states c)) (\<lambda>es.
     rfold (\<lambda>e c. rbind (tm_find (instance_states c) (fst e)) (\<lambda>it. try_certify_prepare it c)) es c)"

definition prune_valid_values :: "u64 \<Rightarrow> nat \<Rightarrow> consensus \<Rightarrow> consensus result" where
  "prune_valid_values inst from_index c =
     rbind (get_state c from_index) (\<lambda>s.
       case rs_valid_values s of
         None \<Rightarrow> Inr c
       | Some (v, vv) \<Rightarrow>
           rbind (tm_pop_while (\<lambda>k. k \<le> inst) vv) (\<lambda>vv'.
           Inr (put_state from_index (s\<lparr>rs_valid_values := Some (v, vv')\<rparr>) c)))"

text \<open>\<open>accept_prepare\<close> is what \<open>handlePrepare\<close> does once the message is known to be of use.\<close>

definition accept_prepare :: "nat \<Rightarrow> prepare_message \<Rightarrow> consensus \<Rightarrow> consensus result" where
  "accept_prepare from_index prepare c =
     rbind (get_state c from_index) (\<lambda>s.
       let inst = pm_instance prepare;
           c1 = put_state from_index (s\<lparr>next_prepare := inst\<rparr>) c in
       rbind (instance_new prepare (of_nat (length (cn_ids c1)))) (\<lambda>data.
       rbind (tm_try_emplace (instance_states c1) inst data) (\<lambda>(m, it, _).
       rbind (rfold (replay_commit (pack (pm_view prepare) inst)) [0 ..< length (buffered_commits c1)]
                (c1\<lparr>instance_states := m\<rparr>)) (\<lambda>c2.
       rbind (prune_valid_values inst from_index c2) (\<lambda>c3.
       try_certify_prepare it c3)))))"

definition handle_prepare :: "nat \<Rightarrow> prepare_message \<Rightarrow> consensus \<Rightarrow> consensus result" where
  "handle_prepare from_index prepare c =
     rbind (local_state c) (\<lambda>ls.
     rbind (is_byzantine_prepare from_index prepare c) (\<lambda>byz.
       if byz then Inl (Logic_error ''Byzantine prepare received from {}.'')
       else if pm_view prepare \<noteq> at_view ls then Inr c
       else rbind (certified_checkpoint c) (\<lambda>cp.
         if pm_instance prepare < cp_low cp then Inr c
         else accept_prepare from_index prepare c)))"

section \<open>The fast path\<close>

fun poll_prepare_certificate_promises :: "nat \<Rightarrow> consensus \<Rightarrow> consensus result" where
  "poll_prepare_certificate_promises 0 c = Inl Spins"
| "poll_prepare_certificate_promises (Suc n) c =
     rbind (poll_promise (prepare_certifier c)) (\<lambda>(polled, cf).
       let c1 = c\<lparr>prepare_certifier := cf\<rparr> in
       case polled of
         None \<Rightarrow> Inr c1
       | Some promise \<Rightarrow>
           let (view, inst) = unpack promise in
           rbind (tm_find (instance_states c1) inst) (\<lambda>it.
             if it = tm_end (instance_states c1) then poll_prepare_certificate_promises n c1
             else
               rbind (tm_deref (instance_states c1) it) (\<lambda>e.
               rbind (received_fast_commit (local_index c1) (snd e)) (\<lambda>r.
               rbind (tm_assign (instance_states c1) it (fst r)) (\<lambda>m.
               poll_prepare_certificate_promises n
                 (c1\<lparr>fast_commits_sent := fast_commits_sent c1 @ [(view, inst)], instance_states := m\<rparr>))))))"

definition FastCommitSize :: nat where
  "FastCommitSize = 16"

text \<open>A fast commit of another view is only logged.\<close>

definition poll_fast_commit :: "nat \<Rightarrow> consensus \<Rightarrow> consensus result" where
  "poll_fast_commit from_index c =
     rbind (uat (fast_inbox c) from_index) (\<lambda>inbox.
       case inbox of
         [] \<Rightarrow> Inr c
       | bs # rest \<Rightarrow>
           let c1 = c\<lparr>fast_inbox := (fast_inbox c)[from_index := rest]\<rparr> in
           if length bs \<noteq> FastCommitSize then Inl (Runtime_error ''Faulty Fast Commit received.'')
           else rbind (local_state c1) (\<lambda>_. rbind (rd64 bs 8) (\<lambda>inst.
             rbind (tm_find (instance_states c1) inst) (\<lambda>it.
               if it = tm_end (instance_states c1) then Inr c1
               else
                 rbind (tm_deref (instance_states c1) it) (\<lambda>e.
                 rbind (received_fast_commit from_index (snd e)) (\<lambda>r.
                   if \<not> snd r then Inl (Runtime_error ''Byzantine behavior, received twice.'')
                   else rbind (tm_assign (instance_states c1) it (fst r)) (\<lambda>m.
                     Inr (c1\<lparr>instance_states := m\<rparr>))))))))"

definition poll_fast_commits :: "consensus \<Rightarrow> consensus result" where
  "poll_fast_commits c = rfold poll_fast_commit [0 ..< length (fast_inbox c)] c"

section \<open>Decisions\<close>

definition poll_decision :: "consensus \<Rightarrow> ((u64 \<times> bytes \<times> bool) option \<times> consensus) result" where
  "poll_decision c =
     (if tm_empty (instance_states c) then Inr (None, c)
      else
        rbind (tm_find (instance_states c) (next_to_decide c)) (\<lambda>it.
          if it = tm_end (instance_states c) then Inr (None, c)
          else
            rbind (tm_deref (instance_states c) it) (\<lambda>e.
              if \<not> decidable (snd e) then Inr (None, c)
              else if cn_window c div 2 = 0 then Inl Undefined_behaviour
              else
                rbind (tm_assign (instance_states c) it ((snd e)\<lparr>is_decided := True\<rparr>)) (\<lambda>m.
                  let inst = next_to_decide c; half = cn_window c div 2;
                      batch = pm_data (is_prepare (snd e)) in
                  rbind (log_decided batch (cn_request_log c)) (\<lambda>l.
                  Inr (Some (inst, batch, inst mod half = half - 1),
                       c\<lparr>instance_states := m, next_to_decide := inst + 1, cn_request_log := l\<rparr>))))))"

section \<open>Checkpoints\<close>

definition handle_checkpoint_certificate :: "certificate \<Rightarrow> consensus \<Rightarrow> consensus result" where
  "handle_checkpoint_certificate cert c =
     rbind (rd_checkpoint (cert_message cert) 0) (\<lambda>raw.
     rbind (certified_checkpoint c) (\<lambda>cp.
       if checkpoint_le raw cp then Inr c else Inr (c\<lparr>checkpoint_certificate := cert\<rparr>)))"

definition poll_checkpoint_certificate :: "consensus \<Rightarrow> consensus result" where
  "poll_checkpoint_certificate c =
     rbind (poll_certificate (checkpoint_certifier c)) (\<lambda>(polled, cf).
       let c1 = c\<lparr>checkpoint_certifier := cf\<rparr> in
       case polled of None \<Rightarrow> Inr c1 | Some cert \<Rightarrow> handle_checkpoint_certificate cert c1)"

definition is_byzantine_checkpoint :: "nat \<Rightarrow> certificate \<Rightarrow> consensus \<Rightarrow> bool result" where
  "is_byzantine_checkpoint from_index cert c =
     rbind (get_state c from_index) (\<lambda>s. Inr (cert_index cert \<le> cp_low (rs_checkpoint s)))"

text \<open>A checkpoint that equals the one we certified ourselves is not verified.\<close>

definition checkpoint_acceptable :: "nat \<Rightarrow> certificate \<Rightarrow> checkpoint \<Rightarrow> consensus \<Rightarrow> bool result" where
  "checkpoint_acceptable from_index cert raw c =
     rbind (certified_checkpoint c) (\<lambda>cp.
       if from_index \<noteq> local_index c \<and> cp \<noteq> raw
       then certifier_check (checkpoint_certifier c) cert else Inr True)"

definition handle_checkpoint :: "nat \<Rightarrow> bytes \<Rightarrow> consensus \<Rightarrow> consensus result" where
  "handle_checkpoint from_index bs c =
     rbind (try_into_certificate bs (Some (of_nat CheckpointSize, cn_quorum c))) (\<lambda>ok.
       case ok of Inl err \<Rightarrow> Inl (Runtime_error ''Byzantine behavior by {}: malformed certificate: {}'')
       | Inr cert \<Rightarrow>
         rbind (is_byzantine_checkpoint from_index cert c) (\<lambda>byz.
           if byz then Inl (Logic_error ''Byzantine checkpoint received from {}.'')
           else
             rbind (rd_checkpoint (cert_message cert) 0) (\<lambda>raw.
             rbind (checkpoint_acceptable from_index cert raw c) (\<lambda>valid.
               if \<not> valid
               then Inl (Logic_error ''Byzantine checkpoint received from {}, invalid certificate.'')
               else rbind (get_state c from_index) (\<lambda>s.
                 handle_checkpoint_certificate cert
                   (put_state from_index (prune_commits (cp_low raw) (s\<lparr>rs_checkpoint := raw\<rparr>)) c))))))"

definition trigger_checkpoint :: "u64 \<Rightarrow> bytes \<Rightarrow> consensus \<Rightarrow> consensus result" where
  "trigger_checkpoint last_applied state c =
     (let next_instance = last_applied + 1 in
      if next_instance \<le> cp_low (local_checkpoint c) then Inl (Logic_error ''App digests went backwards.'')
      else
        rbind (forget_messages (Some next_instance) (checkpoint_certifier c)) (\<lambda>cf.
          let cp = checkpoint_new next_instance (cn_window c) (blake3 (cf_crypto cf) state) in
          rbind (acknowledge next_instance (checkpoint_bytes cp) False cf) (\<lambda>cf'.
          Inr (c\<lparr>checkpoint_certifier := cf', local_checkpoint := cp\<rparr>))))"

section \<open>Checkpoints of the broadcast, and its flow control\<close>

text \<open>Waiting until no commit of a replica is under verification.\<close>

fun wait_for_verifications :: "nat \<Rightarrow> nat \<Rightarrow> consensus \<Rightarrow> consensus result" where
  "wait_for_verifications 0 from_index c = Inl Spins"
| "wait_for_verifications (Suc n) from_index c =
     rbind (get_state c from_index) (\<lambda>s.
       if outstanding s = 0 then Inr c
       else rbind (env_step c) (\<lambda>c1. rbind (poll_verified_commits c1) (wait_for_verifications n from_index)))"

definition certify_cb_checkpoint :: "nat \<Rightarrow> nat \<Rightarrow> consensus \<Rightarrow> consensus result" where
  "certify_cb_checkpoint n from_index c =
     rbind (wait_for_verifications n from_index c) (\<lambda>c1.
     rbind (uat (cb_checkpoint_certifiers c1) from_index) (\<lambda>cf.
     rbind (forget_messages None cf) (\<lambda>cf1.
     rbind (get_state c1 from_index) (\<lambda>s.
     rbind (checkpoint_cb s) (\<lambda>(bs, s').
     rbind (acknowledge (rs_next_cb s') bs False cf1) (\<lambda>cf2.
     Inr ((put_state from_index s' c1)\<lparr>cb_checkpoint_certifiers :=
            (cb_checkpoint_certifiers c1)[from_index := cf2]\<rparr>)))))))"

definition maybe_certify_cb_checkpoint :: "nat \<Rightarrow> nat \<Rightarrow> consensus \<Rightarrow> consensus result" where
  "maybe_certify_cb_checkpoint n from_index c =
     rbind (get_state c from_index) (\<lambda>s.
       if broadcast_tail c div 2 = 0 then Inl Undefined_behaviour
       else if rs_next_cb s mod (broadcast_tail c div 2) = 0 then certify_cb_checkpoint n from_index c
       else Inr c)"

definition poll_cb_checkpoint_certificate :: "consensus \<Rightarrow> consensus result" where
  "poll_cb_checkpoint_certificate c =
     rbind (uat (cb_checkpoint_certifiers c) (local_index c)) (\<lambda>cf.
     rbind (poll_certificate cf) (\<lambda>(polled, cf').
       let c1 = c\<lparr>cb_checkpoint_certifiers := (cb_checkpoint_certifiers c)[local_index c := cf']\<rparr> in
       Inr (case polled of
              None \<Rightarrow> c1
            | Some cert \<Rightarrow> c1\<lparr>can_cb_until := cert_index cert + broadcast_tail c - 1,
                             cb_checkpoints_sent := cb_checkpoints_sent c1 @ [cert_bytes cert]\<rparr>)))"

definition poll_cb :: "handler \<Rightarrow> nat \<Rightarrow> consensus \<Rightarrow> consensus result" where
  "poll_cb h replica c =
     rbind (uat (cb_inbox c) replica) (\<lambda>inbox.
       case inbox of [] \<Rightarrow> Inr c
       | m # rest \<Rightarrow> h replica m (c\<lparr>cb_inbox := (cb_inbox c)[replica := rest]\<rparr>))"

definition poll_cbs :: "handler \<Rightarrow> consensus \<Rightarrow> consensus result" where
  "poll_cbs h c = rfold (poll_cb h) [0 ..< length (cb_inbox c)] c"

definition tick_cb_checkpoint_certifiers :: "consensus \<Rightarrow> consensus result" where
  "tick_cb_checkpoint_certifiers c =
     rfold (\<lambda>i. on_certifier (The_cb_checkpoint i) cf_tick) [0 ..< length (cb_checkpoint_certifiers c)] c"

fun wait_for_cb_slack :: "handler \<Rightarrow> nat \<Rightarrow> consensus \<Rightarrow> consensus result" where
  "wait_for_cb_slack h 0 c = Inl Spins"
| "wait_for_cb_slack h (Suc n) c =
     (if broadcast_next c \<le> can_cb_until c then Inr c
      else
        rbind (tick_cb_checkpoint_certifiers c) (\<lambda>c1.
        rbind (poll_cb_checkpoint_certificate c1) (\<lambda>c2.
        rbind (env_step c2) (\<lambda>c3.
        rbind (poll_cbs h c3) (wait_for_cb_slack h n)))))"

text \<open>Broadcast a message once there is room, and deliver it locally.\<close>

definition cb_broadcast :: "bytes \<Rightarrow> consensus \<Rightarrow> cb_delivery \<times> consensus" where
  "cb_broadcast bs c =
     ((broadcast_next c, bs),
      c\<lparr>broadcast_next := broadcast_next c + 1, broadcast_log := broadcast_log c @ [bs]\<rparr>)"

definition broadcast_and_handle :: "handler \<Rightarrow> nat \<Rightarrow> bytes \<Rightarrow> consensus \<Rightarrow> consensus result" where
  "broadcast_and_handle h n bs c =
     rbind (wait_for_cb_slack h n c) (\<lambda>c1.
       let (m, c2) = cb_broadcast bs c1 in h (local_index c2) m c2)"

text \<open>
  \<open>broadcastCheckpointCertificate\<close> keeps a reference into the checkpoint certificate across the
  broadcast; if a newer one was adopted in the meantime the reference dangles.
\<close>

definition forget_decided :: "u64 \<Rightarrow> consensus \<Rightarrow> consensus result" where
  "forget_decided low c =
     rbind (local_state c) (\<lambda>s.
     rbind (forget_messages (Some (pack (at_view s) (low - 1))) (prepare_certifier c)) (\<lambda>cf.
     rbind (tm_pop_while (\<lambda>k. k < low) (instance_states c)) (\<lambda>m.
     Inr (c\<lparr>prepare_certifier := cf, instance_states := m\<rparr>))))"

definition broadcast_checkpoint_certificate ::
  "handler \<Rightarrow> nat \<Rightarrow> bool \<Rightarrow> consensus \<Rightarrow> consensus result" where
  "broadcast_checkpoint_certificate h n force c =
     rbind (certified_checkpoint c) (\<lambda>cp.
       if cp_low cp \<le> send_checkpoint_above c then Inr c
       else
         rbind (local_state c) (\<lambda>s.
           if \<not> force \<and> cp_high (rs_checkpoint s) > next_to_decide c + 10 then Inr c
           else if checkpoint_buffer_size (of_nat (length (cert_shares (checkpoint_certificate c))))
                   > checkpoint_buffer_size (cn_quorum c)
           then Inl (Runtime_error ''Resize tried to reallocate beyond the initial size.'')
           else
             rbind (broadcast_and_handle h n (CheckpointKind # cert_bytes (checkpoint_certificate c))
                      (c\<lparr>send_checkpoint_above := cp_low cp\<rparr>)) (\<lambda>c1.
               if checkpoint_certificate c1 \<noteq> checkpoint_certificate c then Inl Undefined_behaviour
               else forget_decided (cp_low cp) c1)))"

section \<open>The slow path\<close>

text \<open>\<open>pollPrepareCertificates\<close>: every certificate of our view becomes our commit.\<close>

definition commit_certificate :: "handler \<Rightarrow> nat \<Rightarrow> certificate \<Rightarrow> consensus \<Rightarrow> consensus result" where
  "commit_certificate h n cert c =
     rbind (local_state c) (\<lambda>s.
       let (view, inst) = unpack (cert_index cert) in
       if view \<noteq> at_view s then Inr c
       else
         rbind (if inst \<ge> cp_high (rs_checkpoint s)
                then broadcast_checkpoint_certificate h n True c else Inr c) (\<lambda>c1.
         rbind (local_state c1) (\<lambda>s1.
           if inst < cp_low (rs_checkpoint s1) then Inr c1
           else if commit_buffer_size (of_nat (length (cert_message cert))) (of_nat (length (cert_shares cert)))
                   > commit_buffer_size (max_proposal_size c1) (cn_quorum c1)
           then Inl (Runtime_error ''Resize tried to reallocate beyond the initial size.'')
           else broadcast_and_handle h n (CommitKind # cert_bytes cert) c1)))"

fun poll_prepare_certificates :: "handler \<Rightarrow> nat \<Rightarrow> consensus \<Rightarrow> consensus result" where
  "poll_prepare_certificates h 0 c = Inl Spins"
| "poll_prepare_certificates h (Suc n) c =
     rbind (poll_certificate (prepare_certifier c)) (\<lambda>(polled, cf).
       let c1 = c\<lparr>prepare_certifier := cf\<rparr> in
       case polled of
         None \<Rightarrow> Inr c1
       | Some cert \<Rightarrow> rbind (commit_certificate h n cert c1) (poll_prepare_certificates h n))"

section \<open>View changes\<close>

definition handle_seal_view :: "nat \<Rightarrow> nat \<Rightarrow> consensus \<Rightarrow> consensus result" where
  "handle_seal_view n from_index c =
     rbind (wait_for_verifications n from_index c) (\<lambda>c1.
     rbind (get_state c1 from_index) (\<lambda>s.
     rbind (uat (vc_state_certifiers c1) from_index) (\<lambda>cf.
     rbind (forget_messages (Some (at_view s)) cf) (\<lambda>cf1.
       let sealed_view = at_view s;
           (vc_state, s1) = serialize_state (cn_junk c1) s;
           next_view = sealed_view + 1 in
       rbind (acknowledge sealed_view vc_state False cf1) (\<lambda>cf2.
         let c2 = (put_state from_index (s1\<lparr>at_view := next_view\<rparr>) c1)\<lparr>vc_state_certifiers :=
                    (vc_state_certifiers c1)[from_index := cf2]\<rparr> in
         rbind (leader c2 next_view) (\<lambda>l.
           Inr (if cn_local_id c2 = l \<and>
                   (case ongoing_view_change c2 of None \<Rightarrow> True | Some vc \<Rightarrow> vc_view vc < sealed_view)
                then c2\<lparr>ongoing_view_change := Some \<lparr>vc_view = sealed_view, vc_certificates = []\<rparr>\<rparr>
                else c2)))))))"

text \<open>Whether some instance was fast committed by us and not yet slow committed.\<close>

fun uncommitted :: "nat \<Rightarrow> (u64 \<times> instance_state) list \<Rightarrow> bool result" where
  "uncommitted i [] = Inr False"
| "uncommitted i (e # es) =
     rbind (is_fast_committed (snd e) i) (\<lambda>fast. rbind (is_slow_committed (snd e) i) (\<lambda>slow.
       if fast \<and> \<not> slow then Inr True else uncommitted i es))"

fun commit_all :: "handler \<Rightarrow> nat \<Rightarrow> consensus \<Rightarrow> consensus result" where
  "commit_all h 0 c = Inl Spins"
| "commit_all h (Suc n) c =
     rbind (env_step c) (\<lambda>c0.
     rbind (on_certifier The_prepare cf_tick c0) (\<lambda>c1.
     rbind (poll_prepare_certificates h n c1) (\<lambda>c2.
     rbind (poll_verified_commits c2) (\<lambda>c3.
     rbind (tm_entries (instance_states c3)) (\<lambda>es.
     rbind (uncommitted (local_index c3) es) (\<lambda>waiting.
       if waiting then commit_all h n c3 else Inr c3))))))"

definition change_view :: "handler \<Rightarrow> nat \<Rightarrow> consensus \<Rightarrow> consensus result" where
  "change_view h n c =
     rbind (commit_all h n c) (\<lambda>c1.
     rbind (broadcast_and_handle h n [SealViewKind] c1) (\<lambda>c2.
     rbind (local_state c2) (\<lambda>s.
     rbind (forget_messages (Some (pack (at_view s) 0)) (prepare_certifier c2)) (\<lambda>cf.
     rbind (tm_clear (instance_states c2)) (\<lambda>m.
     Inr (c2\<lparr>prepare_certifier := cf, instance_states := m\<rparr>))))))"

text \<open>\<open>indices[proc_id]\<close>: an unknown process is added with index 0.\<close>

definition index_of_proc :: "proc_id \<Rightarrow> consensus \<Rightarrow> nat" where
  "index_of_proc p c = (case map_of (cn_indices c) p of None \<Rightarrow> 0 | Some i \<Rightarrow> i)"

definition learn_proc :: "proc_id \<Rightarrow> consensus \<Rightarrow> consensus" where
  "learn_proc p c = (if map_of (cn_indices c) p = None then c\<lparr>cn_indices := (p, 0) # cn_indices c\<rparr> else c)"

fun is_byzantine_new_view :: "nat list \<Rightarrow> bytes \<Rightarrow> consensus \<Rightarrow> (bool \<times> consensus) result" where
  "is_byzantine_new_view [] bs c = Inr (False, c)"
| "is_byzantine_new_view (i # is) bs c =
     rbind (nv_clone_certificate (cn_window c) (max_proposal_size c) (cn_quorum c) bs i) (\<lambda>(p, raw).
     rbind (cert_try_from raw) (\<lambda>ok.
       case ok of Inl err \<Rightarrow> Inr (True, c)
       | Inr checked \<Rightarrow>
         rbind (cert_parse checked) (\<lambda>cert.
         rbind (uat (vc_state_certifiers c) (index_of_proc p c)) (\<lambda>cf.
         rbind (certifier_check cf cert) (\<lambda>valid.
           if \<not> valid then Inr (True, learn_proc p c)
           else is_byzantine_new_view is bs (learn_proc p c))))))"

fun reach_view :: "handler \<Rightarrow> nat \<Rightarrow> u64 \<Rightarrow> consensus \<Rightarrow> consensus result" where
  "reach_view h 0 view c = Inl Spins"
| "reach_view h (Suc n) view c =
     rbind (local_state c) (\<lambda>s.
       if at_view s \<ge> view then Inr c
       else rbind (change_view h n c) (reach_view h n view))"

definition handle_new_view :: "handler \<Rightarrow> nat \<Rightarrow> nat \<Rightarrow> bytes \<Rightarrow> consensus \<Rightarrow> consensus result" where
  "handle_new_view h n from_index bs c =
     rbind (is_byzantine_new_view [0 ..< unat (cn_quorum c)] bs c) (\<lambda>(byz, c1).
       if byz then Inl (Logic_error ''Byzantine new view received from {}.'')
       else
         rbind (nv_view bs) (\<lambda>view.
         rbind (reach_view h n view c1) (\<lambda>c2.
         rbind (get_state c2 from_index) (\<lambda>s.
         rbind (valid_values (cn_window c2) (max_proposal_size c2) (cn_quorum c2) bs) (\<lambda>vv.
         Inr (put_state from_index (s\<lparr>next_prepare := cp_low (rs_checkpoint s),
                                     rs_valid_values := Some (view, vv)\<rparr>) c2))))))"

section \<open>The handler of broadcast messages\<close>

text \<open>
  A gap in the indices spins on purpose; a malformed message is logged. \<open>count_cb\<close> is the
  test with its increment.
\<close>

definition count_cb :: "nat \<Rightarrow> u64 \<Rightarrow> consensus \<Rightarrow> consensus result" where
  "count_cb from_index index c =
     rbind (get_state c from_index) (\<lambda>s.
       if index \<noteq> rs_next_cb s then Inl Spins
       else Inr (put_state from_index (s\<lparr>rs_next_cb := rs_next_cb s + 1\<rparr>) c))"

definition dispatch :: "handler \<Rightarrow> nat \<Rightarrow> nat \<Rightarrow> bytes \<Rightarrow> consensus \<Rightarrow> consensus result" where
  "dispatch h n from_index bs c =
     rbind (message_try_from (cn_window c) (max_proposal_size c) (cn_quorum c) bs) (\<lambda>parsed.
       case parsed of
         Inl err \<Rightarrow> Inr c
       | Inr (Prepare p) \<Rightarrow> handle_prepare from_index p c
       | Inr (Commit b) \<Rightarrow> handle_commit from_index b c
       | Inr (Checkpoint_msg b) \<Rightarrow> handle_checkpoint from_index b c
       | Inr Seal_view \<Rightarrow> handle_seal_view n from_index c
       | Inr (New_view b) \<Rightarrow> handle_new_view h n from_index b c)"

definition handle_cb_with :: "handler \<Rightarrow> nat \<Rightarrow> handler" where
  "handle_cb_with h n from_index m c =
     rbind (count_cb from_index (fst m) c) (\<lambda>c1.
     rbind (dispatch h n from_index (snd m) c1) (maybe_certify_cb_checkpoint n from_index))"

fun handle_cb_message :: "nat \<Rightarrow> handler" where
  "handle_cb_message 0 from_index m c = Inl Spins"
| "handle_cb_message (Suc n) from_index m c = handle_cb_with (handle_cb_message n) n from_index m c"

section \<open>Proposing\<close>

datatype proposal_error = No_error | Not_leader | Ongoing_view_change | Nothing_to_propose | Wait_checkpoint

text \<open>A slot of the given size; \<open>contents\<close> is what its owner writes there before it is proposed.\<close>

definition get_slot :: "bytes \<Rightarrow> consensus \<Rightarrow> consensus result" where
  "get_slot contents c =
     (if of_nat (length contents) > max_proposal_size c
      then Inl (Invalid_argument ''Requested size {} > max proposal size {}.'')
      else rbind (local_state c) (\<lambda>s.
        Inr (c\<lparr>to_propose := to_propose c @
                 [\<lparr>pm_view = at_view s, pm_instance = next_proposal c, pm_data = contents\<rparr>],
               next_proposal := next_proposal c + 1\<rparr>)))"

definition prepare_padding :: "consensus \<Rightarrow> bytes" where
  "prepare_padding c = map (cn_junk c 0) [0 ..< 7]"

fun propose_all :: "handler \<Rightarrow> nat \<Rightarrow> consensus \<Rightarrow> (proposal_error \<times> consensus) result" where
  "propose_all h 0 c = Inl Spins"
| "propose_all h (Suc n) c =
     (case to_propose c of
        [] \<Rightarrow> Inr (No_error, c)
      | pm # _ \<Rightarrow>
          rbind (local_state c) (\<lambda>s.
            if cn_proposed c \<ge> cp_high (rs_checkpoint s) then Inr (Wait_checkpoint, c)
            else
              rbind (wait_for_cb_slack h n (c\<lparr>cn_proposed := cn_proposed c + 1\<rparr>)) (\<lambda>c1.
                let (m, c2) = cb_broadcast (prepare_bytes (prepare_padding c1) pm) c1;
                    c3 = c2\<lparr>to_propose := tl (to_propose c2)\<rparr> in
                rbind (h (local_index c3) m c3) (propose_all h n))))"

definition propose :: "handler \<Rightarrow> nat \<Rightarrow> consensus \<Rightarrow> (proposal_error \<times> consensus) result" where
  "propose h n c =
     rbind (local_state c) (\<lambda>s.
     rbind (leader c (at_view s)) (\<lambda>l.
       if l \<noteq> cn_local_id c then Inr (Not_leader, c)
       else if ongoing_view_change c \<noteq> None then Inr (Ongoing_view_change, c)
       else if to_propose c = [] then Inr (Nothing_to_propose, c)
       else propose_all h n c))"

definition can_propose :: "consensus \<Rightarrow> bool result" where
  "can_propose c = rbind (local_state c) (\<lambda>s. rbind (leader c (at_view s)) (\<lambda>l.
     Inr (l = cn_local_id c \<and> ongoing_view_change c = None)))"

section \<open>The new leader\<close>

text \<open>The values of the new view, from the checkpoint to the last; gaps get empty proposals.\<close>

fun fill_slots :: "nat \<Rightarrow> bytes tail_map \<Rightarrow> u64 \<Rightarrow> u64 \<Rightarrow> consensus \<Rightarrow> consensus result" where
  "fill_slots 0 vv i last_instance c = Inl Spins"
| "fill_slots (Suc n) vv i last_instance c =
     (if i > last_instance then Inr c
      else
        rbind (tm_find vv i) (\<lambda>it.
        rbind (if it \<noteq> tm_end vv then rbind (tm_deref vv it) (\<lambda>e. get_slot (snd e) c) else get_slot [] c)
          (fill_slots n vv (i + 1) last_instance)))"

definition repropose :: "handler \<Rightarrow> nat \<Rightarrow> consensus \<Rightarrow> consensus result" where
  "repropose h n c =
     rbind (local_state c) (\<lambda>s.
     rbind (case rs_valid_values s of None \<Rightarrow> Inl Undefined_behaviour | Some vv \<Rightarrow> Inr (snd vv)) (\<lambda>vv.
     rbind (certified_checkpoint c) (\<lambda>cp.
       let first_instance = cp_low cp;
           c1 = c\<lparr>to_propose := [], next_proposal := first_instance, cn_proposed := first_instance\<rparr> in
       rbind (if tm_empty vv then Inr first_instance
              else rbind (tm_deref vv (tm_rbegin vv)) (\<lambda>e. Inr (fst e))) (\<lambda>last_instance.
       rbind (fill_slots n vv first_instance last_instance c1) (\<lambda>c2.
         if first_instance \<noteq> last_instance then rbind (propose h n c2) (\<lambda>r. Inr (snd r)) else Inr c2)))))"

definition announce_new_view :: "handler \<Rightarrow> nat \<Rightarrow> view_change \<Rightarrow> consensus \<Rightarrow> consensus result" where
  "announce_new_view h n vc c =
     rbind (build_new_view (map (cn_junk c 0) [0 ..< 7]) (map (cn_junk c 1) [0 ..< 4]) (cn_junk c)
              (cn_window c) (max_proposal_size c) (cn_quorum c) (vc_view vc) (vc_certificates vc)) (\<lambda>bs.
     rbind (broadcast_and_handle h n bs (c\<lparr>ongoing_view_change := None\<rparr>)) (repropose h n))"

fun poll_vc_states :: "handler \<Rightarrow> nat \<Rightarrow> nat list \<Rightarrow> consensus \<Rightarrow> consensus result" where
  "poll_vc_states h n [] c = Inr c"
| "poll_vc_states h n (i # is) c =
     rbind (uat (vc_state_certifiers c) i) (\<lambda>cf.
     rbind (poll_certificate cf) (\<lambda>(polled, cf').
       let c1 = c\<lparr>vc_state_certifiers := (vc_state_certifiers c)[i := cf']\<rparr> in
       case (polled, ongoing_view_change c1) of
         (_, None) \<Rightarrow> Inl Undefined_behaviour
       | (None, Some vc) \<Rightarrow> poll_vc_states h n is c1
       | (Some cert, Some vc) \<Rightarrow>
           if cert_index cert \<noteq> vc_view vc then poll_vc_states h n is c1
           else
             rbind (uat (cn_ids c1) i) (\<lambda>p.
               let vc' = vc\<lparr>vc_certificates := alist_insert p cert (vc_certificates vc)\<rparr>;
                   c2 = c1\<lparr>ongoing_view_change := Some vc'\<rparr> in
               if of_nat (length (vc_certificates vc')) \<noteq> cn_quorum c2 then poll_vc_states h n is c2
               else announce_new_view h n vc' c2)))"

definition poll_vc_state_certificates :: "handler \<Rightarrow> nat \<Rightarrow> consensus \<Rightarrow> consensus result" where
  "poll_vc_state_certificates h n c =
     (if ongoing_view_change c = None then Inr c
      else poll_vc_states h n [0 ..< length (vc_state_certifiers c)] c)"

section \<open>The rest of the interface\<close>

definition slow_path_tick :: "handler \<Rightarrow> nat \<Rightarrow> consensus \<Rightarrow> consensus result" where
  "slow_path_tick h n c =
     rbind (try_certify_prepares c) (\<lambda>c1.
     rbind (poll_prepare_certificates h n c1) (\<lambda>c2.
     rbind (poll_verified_commits c2) (\<lambda>c3.
     rbind (rfold (\<lambda>i. on_certifier (The_vc_state i) cf_tick) [0 ..< length (vc_state_certifiers c3)] c3)
       (poll_vc_state_certificates h n))))"

text \<open>The ticks of the broadcaster, receivers and senders only move messages (\<open>env_apply\<close>).\<close>

definition consensus_tick :: "nat \<Rightarrow> consensus \<Rightarrow> consensus result" where
  "consensus_tick n c =
     (let h = handle_cb_message n in
      rbind (on_certifier The_prepare cf_tick c) (\<lambda>c1.
      rbind (tick_cb_checkpoint_certifiers c1) (\<lambda>c2.
      rbind (on_certifier The_checkpoint cf_tick c2) (\<lambda>c3.
      rbind (poll_checkpoint_certificate c3) (\<lambda>c4.
      rbind (broadcast_checkpoint_certificate h n False c4) (\<lambda>c5.
      rbind (poll_cbs h c5) (\<lambda>c6.
      rbind (poll_prepare_certificate_promises n c6) (\<lambda>c7.
      rbind (if slow_path_enabled c7 then slow_path_tick h n c7 else Inr c7) (\<lambda>c8.
      rbind (poll_fast_commits c8) poll_cb_checkpoint_certificate)))))))))"

definition cn_toggle_slow_path :: "bool \<Rightarrow> consensus \<Rightarrow> consensus" where
  "cn_toggle_slow_path enable c =
     c\<lparr>slow_path_enabled := enable, broadcast_slow_path := enable,
       prepare_certifier := toggle_slow_path enable (prepare_certifier c),
       vc_state_certifiers := map (toggle_slow_path enable) (vc_state_certifiers c)\<rparr>"

definition accept_request :: "proc_id \<Rightarrow> u64 \<Rightarrow> bytes \<Rightarrow> consensus \<Rightarrow> (bool \<times> consensus) result" where
  "accept_request client_id request_id bs c =
     rbind (log_add_request client_id request_id bs (cn_request_log c)) (\<lambda>(l, ok).
     Inr (ok, c\<lparr>cn_request_log := l\<rparr>))"

end
