(* ===== verification/Certifier_Config.thy ===== *)
theory Certifier_Config
  imports Certifier_Safety
begin

text \<open>
  Nothing that happens to a certifier changes what it was built with: its keys, its identifier,
  the replicas it exchanges shares with; and a certifier that is sound stays so (\<open>cf_keeps\<close>). The
  engine built on certifiers relies on both.
\<close>

definition cf_config :: "certifier \<Rightarrow> crypto \<times> u64 \<times> proc_id list" where
  "cf_config c = (cf_crypto c, cf_identifier c, cf_share_receivers c)"

lemma cf_config_frame [simp]:
  "cf_config (c\<lparr>cf_promise_inbox := a1\<rparr>) = cf_config c"
  "cf_config (c\<lparr>cf_share_inbox := a2\<rparr>) = cf_config c"
  "cf_config (c\<lparr>cf_promise_sent := a3\<rparr>) = cf_config c"
  "cf_config (c\<lparr>cf_share_sent := a4\<rparr>) = cf_config c"
  "cf_config (c\<lparr>run_fast_path := b\<rparr>) = cf_config c"
  "cf_config (c\<lparr>run_slow_path := b\<rparr>) = cf_config c"
  "cf_config (c\<lparr>msg_tail := m\<rparr>) = cf_config c"
  "cf_config (c\<lparr>sorted_computed_shares := sm\<rparr>) = cf_config c"
  "cf_config (c\<lparr>buffered_promises := a5\<rparr>) = cf_config c"
  "cf_config (c\<lparr>buffered_shares := a6\<rparr>) = cf_config c"
  "cf_config (c\<lparr>next_promise := i\<rparr>) = cf_config c"
  "cf_config (c\<lparr>next_certificate := i\<rparr>) = cf_config c"
  "cf_config (c\<lparr>cf_ticks := i\<rparr>) = cf_config c"
  "cf_config (c\<lparr>computed_shares := a7\<rparr>) = cf_config c"
  "cf_config (c\<lparr>verified_shares := a8\<rparr>) = cf_config c"
  "cf_config (c\<lparr>my_shares := a8\<rparr>) = cf_config c"
  "cf_config (c\<lparr>queued_share_computations := a9\<rparr>) = cf_config c"
  "cf_config (c\<lparr>compute_tasks := a9\<rparr>) = cf_config c"
  "cf_config (c\<lparr>check_tasks := a10\<rparr>) = cf_config c"
  by (simp_all add: cf_config_def)

abbreviation same_config :: "certifier \<Rightarrow> certifier \<Rightarrow> bool" where
  "same_config c \<equiv> \<lambda>d. cf_config d = cf_config c"

lemma same_config_bind:
  "always (same_config c) r \<Longrightarrow> (\<And>d. cf_config d = cf_config c \<Longrightarrow> always (same_config d) (f d)) \<Longrightarrow>
   always (same_config c) (rbind r f)"
  by (rule always_bind [where Q = "same_config c"]) auto

lemma same_config_rfold:
  "cf_config d = cf_config c \<Longrightarrow> (\<And>x e. always (same_config e) (f x e)) \<Longrightarrow> always (same_config c) (rfold f xs d)"
proof (rule always_rfold)
  show "always (same_config c) (f x s)" if "\<And>x e. always (same_config e) (f x e)" "cf_config s = cf_config c" for x s
    using that(1) [of s x] that(2) by simp
qed

lemma same_config_trans: "always (same_config d) r \<Longrightarrow> cf_config d = cf_config c \<Longrightarrow> always (same_config c) r"
  by simp

section \<open>Every operation\<close>

lemma enqueue_share_verification_config: "always (same_config c) (enqueue_share_verification s r c)"
  unfolding enqueue_share_verification_def by (intro always_intros) simp

lemma handle_share_config: "always (same_config c) (handle_share s r c)"
  unfolding handle_share_def
  by (intro always_intros) (simp_all add: enqueue_share_verification_config)

lemma poll_share_config: "always (same_config c) (poll_share r c)"
  unfolding poll_share_def
  by (intro always_intros) (simp_all add: same_config_trans [OF handle_share_config])

lemma handle_verified_share_config: "always (same_config c) (handle_verified_share v c)"
  unfolding handle_verified_share_def by (intro always_intros) simp_all

lemma poll_verified_shares_config: "always (same_config c) (poll_verified_shares c)"
  unfolding poll_verified_shares_def
  by (intro same_config_bind same_config_rfold handle_verified_share_config) simp_all

lemma offload_share_computation_config: "always (same_config c) (offload_share_computation c)"
  unfolding offload_share_computation_def
  by (intro same_config_bind same_config_rfold) (auto intro!: always_intros)

lemma file_computed_share_config: "always (same_config c) (file_computed_share s c)"
  unfolding file_computed_share_def by (intro always_intros) simp_all

lemma send_computed_shares_config: "always (same_config c) (send_computed_shares c)"
proof (induction c rule: send_computed_shares.induct)
  case (1 c)
  show ?case
  proof (rule alwaysI)
    fix c'
    assume run: "send_computed_shares c = Inr c'"
    note run = run [unfolded send_computed_shares.simps [of c]]
    show "cf_config c' = cf_config c"
    proof (cases "tm_empty (msg_tail c) \<or> tm_empty (sorted_computed_shares c)")
      case True
      with run show ?thesis by simp
    next
      case ne: False
      obtain a b where ab: "tm_deref (msg_tail c) (tm_begin (msg_tail c)) = Inr a"
        "tm_deref (sorted_computed_shares c) (tm_begin (sorted_computed_shares c)) = Inr b"
        using run ne by (auto split: sum.split_asm)
      show ?thesis
      proof (cases "fst b < fst a")
        case True
        with run ne ab obtain m where m: "tm_pop_front (sorted_computed_shares c) = Inr m"
          "send_computed_shares (c\<lparr>sorted_computed_shares := m\<rparr>) = Inr c'"
          by (auto simp: case_sum_Inr_iff)
        from "1.IH"(1) [OF ne _ ab(1) ab(2) True m(1)] alwaysD [OF _ m(2)] show ?thesis by simp
      next
        case ge: False
        show ?thesis
        proof (cases "snd b")
          case None
          with run ne ab ge show ?thesis by simp
        next
          case (Some s)
          from run ne ab ge Some obtain m where m: "tm_pop_front (sorted_computed_shares c) = Inr m"
            "send_computed_shares (c\<lparr>cf_share_sent := map (\<lambda>out. out @ [s]) (cf_share_sent c),
               my_shares := my_shares c @ [\<lparr>vs_replica = length (cf_share_receivers c),
                                           vs_share = s, vs_valid = True\<rparr>],
               sorted_computed_shares := m\<rparr>) = Inr c'"
            by (auto simp: case_sum_Inr_iff)
          from "1.IH"(2) [OF ne _ ab(1) ab(2) ge Some m(1)] alwaysD [OF _ m(2)] show ?thesis by simp
        qed
      qed
    qed
  qed
qed

lemma poll_computed_shares_config: "always (same_config c) (poll_computed_shares c)"
  unfolding poll_computed_shares_def
  by (intro same_config_bind same_config_rfold file_computed_share_config send_computed_shares_config) simp

lemma poll_shares_config: "always (same_config c) (poll_shares c)"
  unfolding poll_shares_def by (intro same_config_rfold poll_share_config) simp

lemma handle_promise_config: "always (same_config c) (handle_promise i r c)"
  unfolding handle_promise_def by (intro always_intros) simp_all

lemma poll_promise_from_config: "always (same_config c) (poll_promise_from r c)"
  unfolding poll_promise_from_def
  by (intro always_intros) (simp_all add: same_config_trans [OF handle_promise_config])

lemma poll_promises_config: "always (same_config c) (poll_promises c)"
  unfolding poll_promises_def by (intro same_config_rfold poll_promise_from_config) simp

lemma received_implicit_promise_config: "always (same_config c) (received_implicit_promise p i c)"
  unfolding received_implicit_promise_def by (intro always_intros) simp_all

lemma replay_promise_config: "always (same_config c) (replay_promise i it r c)"
  unfolding replay_promise_def by (intro always_intros) simp_all

lemma replay_share_config: "always (same_config c) (replay_share i r c)"
  unfolding replay_share_def
  by (intro always_intros) (simp_all add: same_config_trans [OF enqueue_share_verification_config])

lemma queue_share_computation_config: "always (same_config c) (queue_share_computation i bs c)"
  unfolding queue_share_computation_def by (intro always_intros) simp_all

lemma acknowledge_config: "always (same_config c) (acknowledge i bs imp c)"
proof -
  have "always (same_config c) (rbind (if run_fast_path c1
      then rfold (replay_promise i it) ns (if imp then c1 else c1\<lparr>cf_promise_sent := out\<rparr>) else Inr c1)
    (\<lambda>c2. rbind (rfold (replay_share i) [0 ..< length (buffered_shares c2)] c2) (queue_share_computation i bs)))"
    if "cf_config c1 = cf_config c" for c1 it ns out
  proof (rule same_config_bind)
    show "always (same_config c) (if run_fast_path c1
      then rfold (replay_promise i it) ns (if imp then c1 else c1\<lparr>cf_promise_sent := out\<rparr>) else Inr c1)"
      using that by (auto intro: same_config_rfold replay_promise_config)
    show "always (same_config d) (rbind (rfold (replay_share i) [0 ..< length (buffered_shares d)] d)
        (queue_share_computation i bs))" for d
      by (intro same_config_bind same_config_rfold replay_share_config queue_share_computation_config) simp
  qed
  note after = this
  show ?thesis
    unfolding acknowledge_def Let_def
    by (rule always_rbind, rule always_rbind, rule always_prod, rule always_prod, rule always_if, simp)
      (rule after, simp)
qed

lemma forget_messages_config: "always (same_config c) (forget_messages i c)"
  unfolding forget_messages_def by (intro always_intros) simp

lemma poll_promise_config: "always (\<lambda>(_, d). cf_config d = cf_config c) (poll_promise c)"
  unfolding poll_promise_def by (intro always_intros) simp_all

lemma poll_certificate_config: "always (\<lambda>(_, d). cf_config d = cf_config c) (poll_certificate c)"
  unfolding poll_certificate_def by (intro always_intros) simp_all

lemma cf_tick_config: "always (same_config c) (cf_tick c)"
  unfolding cf_tick_def Let_def
  by (intro always_if always_bind [where Q = "same_config c"])
    (auto intro: same_config_trans [OF poll_shares_config] same_config_trans [OF poll_computed_shares_config]
      same_config_trans [OF offload_share_computation_config] same_config_trans [OF poll_verified_shares_config]
      poll_promises_config)

lemma cf_run_compute_config: "cf_config (cf_run_compute i c) = cf_config c"
  by (simp add: cf_run_compute_def Let_def)

lemma cf_run_check_config: "always (same_config c) (cf_run_check r i c)"
  unfolding cf_run_check_def by (intro always_intros) simp_all

lemma toggle_config [simp]:
  "cf_config (toggle_fast_path b c) = cf_config c" "cf_config (toggle_slow_path b c) = cf_config c"
  by (simp_all add: toggle_fast_path_def toggle_slow_path_def)

theorem cf_apply_config: "always (same_config c) (cf_apply e c)"
proof (cases e)
  case Poll_promise
  then show ?thesis
    using poll_promise_config [of c] by (auto intro!: always_rbind dest: alwaysD)
next
  case Poll_certificate
  then show ?thesis
    using poll_certificate_config [of c] by (auto intro!: always_rbind dest: alwaysD)
qed (simp_all add: acknowledge_config received_implicit_promise_config cf_tick_config forget_messages_config
    cf_run_compute_config cf_run_check_config cf_deliver_promise_def cf_deliver_share_def)

text \<open>What a check decides rests on more than the configuration, but the quorum does not.\<close>

lemma cf_quorum_config: "cf_config c = cf_config d \<Longrightarrow> cf_quorum c = cf_quorum d"
  by (simp add: cf_config_def cf_quorum_def)

section \<open>Soundness\<close>

text \<open>What the owner of a certifier can rely on after any of its operations.\<close>

definition cf_keeps :: "certifier \<Rightarrow> certifier \<Rightarrow> bool" where
  "cf_keeps c d \<longleftrightarrow> cf_config d = cf_config c \<and> (cf_sound c \<longrightarrow> cf_sound d)"

lemma cf_keeps_config: "cf_keeps c d \<Longrightarrow> cf_config d = cf_config c"
  by (simp add: cf_keeps_def)

lemma cf_keeps_refl [simp]: "cf_keeps c c"
  by (simp add: cf_keeps_def)

lemma cf_keeps_trans: "cf_keeps c d \<Longrightarrow> cf_keeps d e \<Longrightarrow> cf_keeps c e"
  by (simp add: cf_keeps_def)

lemma cf_keepsI:
  assumes "cf_config d = cf_config c" "\<And>cr ident recv. cf_inv cr ident recv (\<lambda>_ _. True) c \<Longrightarrow> cf_inv cr ident recv (\<lambda>_ _. True) d"
  shows "cf_keeps c d"
  using assms(1) cf_soundI [OF assms(2) [OF cf_soundD]] by (simp add: cf_keeps_def)

lemma always_cf_keeps:
  assumes "always (same_config c) r"
    and "\<And>cr ident recv d. cf_inv cr ident recv (\<lambda>_ _. True) c \<Longrightarrow> r = Inr d \<Longrightarrow> cf_inv cr ident recv (\<lambda>_ _. True) d"
  shows "always (cf_keeps c) r"
  by (rule alwaysI, rule cf_keepsI) (use alwaysD [OF assms(1)] assms(2) in blast)+

lemma acknowledge_kept: "always (cf_keeps c) (acknowledge i bs imp c)"
  by (rule always_cf_keeps [OF acknowledge_config]) (erule acknowledge_inv, simp_all)

lemma received_implicit_promise_kept: "always (cf_keeps c) (received_implicit_promise p i c)"
  by (rule always_cf_keeps [OF received_implicit_promise_config]) (erule received_implicit_promise_inv)

lemma forget_messages_kept: "always (cf_keeps c) (forget_messages i c)"
  by (rule always_cf_keeps [OF forget_messages_config]) (erule forget_messages_inv)

lemma cf_tick_kept: "always (cf_keeps c) (cf_tick c)"
  by (rule always_cf_keeps [OF cf_tick_config]) (erule cf_tick_inv)

lemma poll_promise_kept: "always (\<lambda>(_, d). cf_keeps c d) (poll_promise c)"
proof (rule alwaysI)
  fix r
  assume r: "poll_promise c = Inr r"
  obtain o' d where rd: "r = (o', d)" by fastforce
  have "cf_keeps c d"
    by (rule cf_keepsI) (use alwaysD [OF poll_promise_config r] r rd poll_promise_inv in auto)
  with rd show "case r of (_, d) \<Rightarrow> cf_keeps c d" by simp
qed

lemma poll_certificate_kept: "always (\<lambda>(_, d). cf_keeps c d) (poll_certificate c)"
proof (rule alwaysI)
  fix r
  assume r: "poll_certificate c = Inr r"
  obtain o' d where rd: "r = (o', d)" by fastforce
  have "cf_keeps c d"
    by (rule cf_keepsI) (use alwaysD [OF poll_certificate_config r] r rd poll_certificate_inv in auto)
  with rd show "case r of (_, d) \<Rightarrow> cf_keeps c d" by simp
qed

lemma toggle_kept [simp]: "cf_keeps c (toggle_fast_path b c)" "cf_keeps c (toggle_slow_path b c)"
  by (rule cf_keepsI; simp add: toggle_fast_path_def toggle_slow_path_def cf_config_def)+

theorem cf_apply_kept: "always (cf_keeps c) (cf_apply ev c)"
proof (cases ev)
  case Poll_promise
  then show ?thesis using poll_promise_kept [of c] by (auto intro!: always_rbind dest: alwaysD)
next
  case Poll_certificate
  then show ?thesis using poll_certificate_kept [of c] by (auto intro!: always_rbind dest: alwaysD)
next
  case (Run_compute i)
  then show ?thesis
    using cf_run_compute_inv by (auto intro!: cf_keepsI simp: cf_run_compute_config)
next
  case (Run_check r i)
  have "always (cf_keeps c) (cf_run_check r i c)"
    by (rule always_cf_keeps [OF cf_run_check_config]) (erule cf_run_check_inv)
  with Run_check show ?thesis by simp
next
  case (Deliver_promise r i)
  then show ?thesis by (auto intro!: cf_keepsI simp: cf_deliver_promise_def)
next
  case (Deliver_share r i)
  then show ?thesis by (auto intro!: cf_keepsI simp: cf_deliver_share_def)
qed (simp_all add: acknowledge_kept received_implicit_promise_kept cf_tick_kept forget_messages_kept)

end
