(* ===== verification/Engine_Invariant.thy ===== *)
theory Engine_Invariant
  imports Consensus Certifier_Config
begin

text \<open>
  An invariant of the consensus engine that every operation, every message, however Byzantine,
  and every event of workers and network preserves. It says that the bookkeeping is sound, that a commit
  of another replica is only ever counted for an instance on the strength of a certificate for
  this instance that the prepare certifier accepted in a sound state (when it was built in one), and
  that no replica is believed to be
  beyond the certified checkpoint, whose lower bound \<open>low\<close> never gives way.
\<close>

section \<open>The invariant\<close>

record engine =
  ec_config :: "crypto \<times> u64 \<times> proc_id list"
  ec_sound :: bool
  ec_replicas :: nat
  ec_local :: nat
  ec_sorted :: "proc_id list"
  ec_window :: u64
  ec_quorum :: u64
  ec_next :: u64

definition accepted :: "engine \<Rightarrow> certificate \<Rightarrow> bool" where
  "accepted e cert \<longleftrightarrow> (\<exists>cf. cf_config cf = ec_config e \<and> (ec_sound e \<longrightarrow> cf_sound cf) \<and>
     certifier_check cf cert = Inr True)"

definition commit_backed :: "engine \<Rightarrow> u64 \<Rightarrow> bool" where
  "commit_backed e inst \<longleftrightarrow> (\<exists>cert. accepted e cert \<and> snd (unpack (cert_index cert)) = inst)"

definition instance_ok :: "engine \<Rightarrow> u64 \<Rightarrow> instance_state \<Rightarrow> bool" where
  "instance_ok e inst d \<longleftrightarrow>
     instance_inv (ec_replicas e) d \<and> pm_instance (is_prepare d) = inst \<and>
     (\<forall>r \<in> bitset_elems (slow_committed d). r \<noteq> ec_local e \<longrightarrow> commit_backed e inst)"

definition shape_ok :: "engine \<Rightarrow> consensus \<Rightarrow> bool" where
  "shape_ok e c \<longleftrightarrow>
     cf_config (prepare_certifier c) = ec_config e \<and> (ec_sound e \<longrightarrow> cf_sound (prepare_certifier c)) \<and>
     length (cn_ids c) = ec_replicas e \<and>
     ec_replicas e < 18446744073709551616 \<and> local_index c = ec_local e \<and> ec_local e < ec_replicas e \<and>
     length (replica_states c) = ec_replicas e \<and> length (fast_inbox c) \<le> ec_replicas e \<and>
     sorted_ids c = ec_sorted e \<and> cn_window c = ec_window e \<and> cn_quorum c = ec_quorum e \<and>
     next_to_decide c = ec_next e"

definition commits_ok :: "engine \<Rightarrow> consensus \<Rightarrow> bool" where
  "commits_ok e c \<longleftrightarrow>
     tm_all (instance_ok e) (instance_states c) \<and>
     (\<forall>i < length (buffered_commits c). i \<noteq> ec_local e \<longrightarrow>
        (\<forall>cert \<in> set (buffered_commits c ! i). accepted e cert)) \<and>
     (\<forall>vc \<in> set (verified_commits c). vc_valid vc \<longrightarrow> vc_from vc \<noteq> ec_local e \<longrightarrow>
        accepted e (vc_certificate vc))"

definition checkpoints_ok :: "u64 \<Rightarrow> consensus \<Rightarrow> bool" where
  "checkpoints_ok low c \<longleftrightarrow>
     (\<exists>cp. certified_checkpoint c = Inr cp \<and> low \<le> cp_low cp \<and>
       (\<forall>s \<in> set (replica_states c). cp_low (rs_checkpoint s) \<le> cp_low cp))"

definition cn_inv :: "engine \<Rightarrow> u64 \<Rightarrow> consensus \<Rightarrow> bool" where
  "cn_inv e low c \<longleftrightarrow>
     shape_ok e c \<and> (\<forall>s \<in> set (replica_states c). replica_inv s) \<and> commits_ok e c \<and> checkpoints_ok low c"

lemma cn_inv_frame [simp]:
  "cn_inv e low (c\<lparr>broadcast_next := a\<rparr>) = cn_inv e low c"
  "cn_inv e low (c\<lparr>broadcast_log := b\<rparr>) = cn_inv e low c"
  "cn_inv e low (c\<lparr>broadcast_slow_path := t\<rparr>) = cn_inv e low c"
  "cn_inv e low (c\<lparr>cb_inbox := ci\<rparr>) = cn_inv e low c"
  "cn_inv e low (c\<lparr>fast_commits_sent := fs\<rparr>) = cn_inv e low c"
  "cn_inv e low (c\<lparr>cb_checkpoints_sent := b\<rparr>) = cn_inv e low c"
  "cn_inv e low (c\<lparr>cn_env := ev\<rparr>) = cn_inv e low c"
  "cn_inv e low (c\<lparr>checkpoint_certifier := cf\<rparr>) = cn_inv e low c"
  "cn_inv e low (c\<lparr>vc_state_certifiers := cfs\<rparr>) = cn_inv e low c"
  "cn_inv e low (c\<lparr>cb_checkpoint_certifiers := cfs\<rparr>) = cn_inv e low c"
  "cn_inv e low (c\<lparr>local_checkpoint := lc\<rparr>) = cn_inv e low c"
  "cn_inv e low (c\<lparr>send_checkpoint_above := a\<rparr>) = cn_inv e low c"
  "cn_inv e low (c\<lparr>can_cb_until := a\<rparr>) = cn_inv e low c"
  "cn_inv e low (c\<lparr>cn_indices := ix\<rparr>) = cn_inv e low c"
  "cn_inv e low (c\<lparr>next_proposal := a\<rparr>) = cn_inv e low c"
  "cn_inv e low (c\<lparr>cn_proposed := a\<rparr>) = cn_inv e low c"
  "cn_inv e low (c\<lparr>to_propose := tp\<rparr>) = cn_inv e low c"
  "cn_inv e low (c\<lparr>slow_path_enabled := t\<rparr>) = cn_inv e low c"
  "cn_inv e low (c\<lparr>commit_tasks := ct\<rparr>) = cn_inv e low c"
  "cn_inv e low (c\<lparr>ongoing_view_change := vc\<rparr>) = cn_inv e low c"
  "cn_inv e low (c\<lparr>cn_request_log := rl\<rparr>) = cn_inv e low c"
  by (simp_all add: cn_inv_def shape_ok_def commits_ok_def checkpoints_ok_def certified_checkpoint_def)

lemma cn_inv_prepare_certifier:
  "cn_inv e low c \<Longrightarrow> cf_keeps (prepare_certifier c) cf \<Longrightarrow> cn_inv e low (c\<lparr>prepare_certifier := cf\<rparr>)"
  by (simp add: cn_inv_def cf_keeps_def shape_ok_def commits_ok_def checkpoints_ok_def certified_checkpoint_def)

lemma cn_inv_instances:
  "cn_inv e low c \<Longrightarrow> tm_all (instance_ok e) m \<Longrightarrow> cn_inv e low (c\<lparr>instance_states := m\<rparr>)"
  by (simp add: cn_inv_def shape_ok_def commits_ok_def checkpoints_ok_def certified_checkpoint_def)

lemma cn_inv_fast_inbox:
  "cn_inv e low c \<Longrightarrow> length fi = length (fast_inbox c) \<Longrightarrow> cn_inv e low (c\<lparr>fast_inbox := fi\<rparr>)"
  by (simp add: cn_inv_def shape_ok_def commits_ok_def checkpoints_ok_def certified_checkpoint_def)

lemma cn_inv_verified:
  "cn_inv e low c \<Longrightarrow> (\<And>vc. vc \<in> set vcs \<Longrightarrow> vc_valid vc \<Longrightarrow> vc_from vc \<noteq> ec_local e \<Longrightarrow> accepted e (vc_certificate vc)) \<Longrightarrow>
   cn_inv e low (c\<lparr>verified_commits := vcs\<rparr>)"
  by (simp add: cn_inv_def shape_ok_def commits_ok_def checkpoints_ok_def certified_checkpoint_def)

lemma cn_inv_buffered:
  assumes "cn_inv e low c" "\<And>cert. cert \<in> set b \<Longrightarrow> i \<noteq> ec_local e \<Longrightarrow> accepted e cert"
  shows "cn_inv e low (c\<lparr>buffered_commits := (buffered_commits c)[i := b]\<rparr>)"
proof -
  have "(buffered_commits c)[i := b] ! j = (if j = i then b else buffered_commits c ! j)"
    if "j < length (buffered_commits c)" for j
    using that by (cases "j = i") simp_all
  then show ?thesis
    using assms by (simp add: cn_inv_def shape_ok_def commits_ok_def checkpoints_ok_def certified_checkpoint_def)
qed

lemma cn_inv_put:
  assumes "cn_inv e low c" "replica_inv s" "certified_checkpoint c = Inr cp" "cp_low (rs_checkpoint s) \<le> cp_low cp"
  shows "cn_inv e low (put_state i s c)"
proof -
  have "\<forall>t \<in> set ((replica_states c)[i := s]). replica_inv t \<and> cp_low (rs_checkpoint t) \<le> cp_low cp"
    using assms set_update_subset_insert [of "replica_states c" i s]
    unfolding cn_inv_def checkpoints_ok_def by auto
  then show ?thesis
    using assms(1,3)
    by (simp add: put_state_def cn_inv_def shape_ok_def commits_ok_def checkpoints_ok_def certified_checkpoint_def)
qed

lemma cn_inv_state:
  assumes "cn_inv e low c" "get_state c i = Inr s"
  shows "replica_inv s" "i < ec_replicas e" "s \<in> set (replica_states c)"
  using assms by (auto simp: cn_inv_def shape_ok_def get_state_def uat_Inr_iff)

text \<open>The usual case: a replica's state keeps its commits and its checkpoint.\<close>

lemma cn_inv_put_same:
  assumes "cn_inv e low c" "get_state c i = Inr s" "replica_inv t" "rs_checkpoint t = rs_checkpoint s"
  shows "cn_inv e low (put_state i t c)"
proof -
  obtain cp where "certified_checkpoint c = Inr cp" "cp_low (rs_checkpoint s) \<le> cp_low cp"
    using assms(1) cn_inv_state(3) [OF assms(1,2)] by (auto simp: cn_inv_def checkpoints_ok_def)
  with assms cn_inv_put show ?thesis by metis
qed

lemma cn_inv_fields:
  assumes "cn_inv e low c"
  shows "cf_config (prepare_certifier c) = ec_config e" "length (cn_ids c) = ec_replicas e"
    "ec_replicas e < 18446744073709551616" "local_index c = ec_local e" "ec_local e < ec_replicas e"
    "length (replica_states c) = ec_replicas e" "length (fast_inbox c) \<le> ec_replicas e"
    "tm_all (instance_ok e) (instance_states c)" "sorted_ids c = ec_sorted e" "cn_window c = ec_window e"
    "cn_quorum c = ec_quorum e" "next_to_decide c = ec_next e"
    "ec_sound e \<Longrightarrow> cf_sound (prepare_certifier c)"
  using assms by (simp_all add: cn_inv_def shape_ok_def commits_ok_def)

lemma put_state_fields [simp]:
  "instance_states (put_state i s c) = instance_states c"
  "buffered_commits (put_state i s c) = buffered_commits c"
  "verified_commits (put_state i s c) = verified_commits c"
  "commit_tasks (put_state i s c) = commit_tasks c"
  "cn_window (put_state i s c) = cn_window c"
  "prepare_certifier (put_state i s c) = prepare_certifier c"
  "local_index (put_state i s c) = local_index c"
  "cn_ids (put_state i s c) = cn_ids c"
  "certified_checkpoint (put_state i s c) = certified_checkpoint c"
  by (simp_all add: put_state_def certified_checkpoint_def)

text \<open>Marking an instance, through an iterator.\<close>

lemma cn_inv_assign:
  assumes "cn_inv e low c" "tm_deref (instance_states c) it = Inr p" "instance_ok e (fst p) d"
    and "tm_assign (instance_states c) it d = Inr m"
  shows "cn_inv e low (c\<lparr>instance_states := m\<rparr>)"
  using assms(1) tm_all_assign [OF cn_inv_fields(8) [OF assms(1)] assms(2-4)] by (rule cn_inv_instances)

lemma cn_inv_deref:
  "cn_inv e low c \<Longrightarrow> tm_deref (instance_states c) it = Inr p \<Longrightarrow> instance_ok e (fst p) (snd p)"
  using tm_all_deref [OF cn_inv_fields(8)] .

lemma instance_ok_commit:
  assumes "instance_ok e k d" "received_commit r d = Inr (d', b)" "r < ec_replicas e"
    and "r \<noteq> ec_local e \<Longrightarrow> commit_backed e k"
  shows "instance_ok e k d'"
  using assms received_commit_result [of "ec_replicas e" d r] by (auto simp: instance_ok_def)

lemma instance_ok_fast_commit:
  assumes "instance_ok e k d" "received_fast_commit r d = Inr (d', b)" "r < ec_replicas e"
  shows "instance_ok e k d'"
  using assms received_fast_commit_result [of "ec_replicas e" d r] by (auto simp: instance_ok_def)

lemma instance_ok_flags [simp]:
  "instance_ok e k (d\<lparr>is_decided := t\<rparr>) = instance_ok e k d"
  "instance_ok e k (d\<lparr>certified_prepare := t\<rparr>) = instance_ok e k d"
  by (simp_all add: instance_ok_def instance_inv_def)

section \<open>Commits\<close>

abbreviation keeps :: "engine \<Rightarrow> u64 \<Rightarrow> consensus result \<Rightarrow> bool" where
  "keeps e low \<equiv> always (cn_inv e low)"

lemma set_push_bounded_member: "y \<in> set (push_bounded b x xs) \<Longrightarrow> y = x \<or> y \<in> set xs"
  using set_push_bounded [of b x xs] by auto

lemma buffered_accepted:
  "cn_inv e low c \<Longrightarrow> uat (buffered_commits c) i = Inr b \<Longrightarrow> i \<noteq> ec_local e \<Longrightarrow> cert \<in> set b \<Longrightarrow> accepted e cert"
  by (auto simp: cn_inv_def commits_ok_def uat_Inr_iff)

lemma handle_verified_commit_keeps:
  assumes "cn_inv e low c" "i \<noteq> ec_local e \<Longrightarrow> accepted e cert"
  shows "keeps e low (handle_verified_commit i cert c)"
  unfolding handle_verified_commit_def Let_def
proof (intro always_rbind always_if)
  let ?inst = "snd (unpack (cert_index cert))"
  fix s it
  assume s: "get_state c i = Inr s"
  let ?c = "put_state i (s\<lparr>outstanding := outstanding s - 1\<rparr>) c"
  assume it: "tm_find (instance_states ?c) ?inst = Inr it"
  have inv: "cn_inv e low ?c"
    using cn_inv_put_same [OF assms(1) s, of "s\<lparr>outstanding := outstanding s - 1\<rparr>"] cn_inv_state(1) [OF assms(1) s]
    by simp
  show "always (cn_inv e low) (Inr (?c\<lparr>buffered_commits := (buffered_commits ?c)[i := push_bounded (cn_window ?c) cert b]\<rparr>))"
    if "uat (buffered_commits ?c) i = Inr b" for b
    using cn_inv_buffered [OF inv, of "push_bounded (cn_window ?c) cert b" i] assms(2)
      buffered_accepted [OF inv that] set_push_bounded_member by fastforce
  show "always (cn_inv e low) (Inr (?c\<lparr>instance_states := m\<rparr>))"
    if "it \<noteq> tm_end (instance_states ?c)" "tm_deref (instance_states ?c) it = Inr p"
      "received_commit i (snd p) = Inr r" "tm_assign (instance_states ?c) it (fst r) = Inr m" for p r m
  proof -
    have "fst p = ?inst" using tm_find_key [OF it] that(2) by blast
    then have "i \<noteq> ec_local e \<Longrightarrow> commit_backed e (fst p)"
      using assms(2) by (auto simp: commit_backed_def)
    then have "instance_ok e (fst p) (fst r)"
      using instance_ok_commit [OF cn_inv_deref [OF inv that(2)] _ cn_inv_state(2) [OF assms(1) s], of "fst r" "snd r"]
        that(3) by simp
    then show ?thesis using cn_inv_assign [OF inv that(2) _ that(4)] by simp
  qed
qed simp_all

lemma poll_verified_commits_keeps:
  assumes "cn_inv e low c"
  shows "keeps e low (poll_verified_commits c)"
  unfolding poll_verified_commits_def
proof (rule always_rfold)
  show "cn_inv e low (c\<lparr>verified_commits := []\<rparr>)" using assms by (rule cn_inv_verified) simp
  show "keeps e low (poll_verified_commit vc d)" if "vc \<in> set (verified_commits c)" "cn_inv e low d" for vc d
    unfolding poll_verified_commit_def
  proof (intro always_if)
    assume "\<not> \<not> vc_valid vc"
    then have "vc_from vc \<noteq> ec_local e \<Longrightarrow> accepted e (vc_certificate vc)"
      using assms that(1) by (simp add: cn_inv_def commits_ok_def)
    with that(2) show "keeps e low (handle_verified_commit (vc_from vc) (vc_certificate vc) d)"
      by (rule handle_verified_commit_keeps)
  qed simp
qed

lemma handle_commit_keeps:
  assumes "cn_inv e low c"
  shows "keeps e low (handle_commit i bs c)"
  unfolding handle_commit_def Let_def
proof (intro always_rbind always_sum always_if)
  fix cert s r
  assume s: "get_state c i = Inr s" and r: "replica_committed cert s = Inr r"
  let ?c = "put_state i ((fst r)\<lparr>outstanding := outstanding (fst r) + 1\<rparr>) c"
  have "rs_checkpoint (fst r) = rs_checkpoint s"
    using r by (auto simp: replica_committed_def rbind_Inr_iff Let_def split: prod.splits if_splits)
  moreover have "replica_inv (fst r)"
    using replica_committed_inv [of cert s "fst r" "snd r"] r cn_inv_state(1) [OF assms s] by simp
  ultimately have inv: "cn_inv e low ?c"
    using cn_inv_put_same [OF assms s, of "(fst r)\<lparr>outstanding := outstanding (fst r) + 1\<rparr>"] by simp
  show "always (cn_inv e low) (Inr (?c\<lparr>commit_tasks := (commit_tasks ?c)[i := push_bounded (cn_window ?c) cert q]\<rparr>))" for q
    using inv by simp
  show "always (cn_inv e low) (Inr (?c\<lparr>verified_commits := verified_commits ?c @
      [\<lparr>vc_from = i, vc_certificate = cert, vc_valid = True\<rparr>]\<rparr>))" if "\<not> i \<noteq> local_index c"
  proof -
    have "cn_inv e low (?c\<lparr>verified_commits := verified_commits ?c @
        [\<lparr>vc_from = i, vc_certificate = cert, vc_valid = True\<rparr>]\<rparr>)"
      using inv that cn_inv_fields(4) [OF assms]
      by (intro cn_inv_verified) (auto simp: cn_inv_def commits_ok_def)
    then show ?thesis by simp
  qed
qed simp_all

lemma run_commit_check_keeps:
  assumes "cn_inv e low c"
  shows "keeps e low (run_commit_check r i c)"
  unfolding run_commit_check_def Let_def
proof (intro always_if always_rbind)
  fix valid
  let ?cert = "commit_tasks c ! r ! i"
  assume "certifier_check (prepare_certifier c) ?cert = Inr valid"
  then have "valid \<Longrightarrow> accepted e ?cert" using cn_inv_fields(1,13) [OF assms] by (auto simp: accepted_def)
  then have "cn_inv e low (c\<lparr>verified_commits := verified_commits c @
      [\<lparr>vc_from = r, vc_certificate = ?cert, vc_valid = valid\<rparr>]\<rparr>)"
    using assms by (intro cn_inv_verified) (auto simp: cn_inv_def commits_ok_def)
  then have "cn_inv e low (c\<lparr>verified_commits := verified_commits c @
      [\<lparr>vc_from = r, vc_certificate = ?cert, vc_valid = valid\<rparr>],
      commit_tasks := (commit_tasks c)[r := remove_nth i (commit_tasks c ! r)]\<rparr>)" by simp
  then show "always (cn_inv e low) (Inr (c\<lparr>commit_tasks := (commit_tasks c)[r := remove_nth i (commit_tasks c ! r)],
      verified_commits := verified_commits c @ [\<lparr>vc_from = r, vc_certificate = ?cert, vc_valid = valid\<rparr>]\<rparr>))"
    by (simp only: always_simps) (simp add: cn_inv_def shape_ok_def commits_ok_def checkpoints_ok_def certified_checkpoint_def)
qed (simp_all add: assms)

section \<open>Workers and network\<close>

lemma on_certifier_keeps:
  assumes "cn_inv e low c" "\<And>cf. always (cf_keeps cf) (f cf)"
  shows "keeps e low (on_certifier w f c)"
proof (cases w)
  case The_prepare
  have "cn_inv e low (c\<lparr>prepare_certifier := x\<rparr>)" if "f (prepare_certifier c) = Inr x" for x
    using cn_inv_prepare_certifier [OF assms(1)] alwaysD [OF assms(2) that] by blast
  then show ?thesis by (auto simp: The_prepare intro!: always_rbind)
qed (use assms(1) in \<open>auto intro!: always_rbind\<close>)

lemma env_apply_keeps:
  assumes "cn_inv e low c"
  shows "keeps e low (env_apply ev c)"
proof (cases ev)
  case (Certifier_event w ce)
  then show ?thesis using assms on_certifier_keeps [OF assms cf_apply_kept] by simp
qed (use assms in \<open>auto simp: run_commit_check_keeps intro!: cn_inv_fast_inbox\<close>)

lemma env_step_keeps: "cn_inv e low c \<Longrightarrow> keeps e low (env_step c)"
  unfolding env_step_def by (intro always_list always_rfold) (simp_all add: env_apply_keeps)

section \<open>Prepares\<close>

lemma replay_commit_keeps:
  assumes "cn_inv e low c"
  shows "keeps e low (replay_commit useful i c)"
  unfolding replay_commit_def Let_def
proof (intro always_rbind always_if)
  fix buffer :: "certificate list"
  define ready where "ready = dropWhile (\<lambda>cert. cert_index cert < useful) buffer"
  let ?c = "c\<lparr>buffered_commits := (buffered_commits c)[i := ready]\<rparr>"
  assume b: "uat (buffered_commits c) i = Inr buffer"
  have acc: "accepted e cert" if "cert \<in> set ready" "i \<noteq> ec_local e" for cert
    using buffered_accepted [OF assms b that(2)] that(1) by (auto simp: ready_def dest: set_dropWhileD)
  then have inv: "cn_inv e low ?c" using assms by (intro cn_inv_buffered) auto
  then show "always (cn_inv e low) (Inr (c\<lparr>buffered_commits := (buffered_commits c)
      [i := dropWhile (\<lambda>cert. cert_index cert < useful) buffer]\<rparr>))" by (simp add: ready_def)
  fix c2 b2
  assume "dropWhile (\<lambda>cert. cert_index cert < useful) buffer \<noteq> [] \<and>
      cert_index (hd (dropWhile (\<lambda>cert. cert_index cert < useful) buffer)) = useful"
    and run: "handle_verified_commit i (hd (dropWhile (\<lambda>cert. cert_index cert < useful) buffer))
      (c\<lparr>buffered_commits := (buffered_commits c)[i := dropWhile (\<lambda>cert. cert_index cert < useful) buffer]\<rparr>) = Inr c2"
    and b2: "uat (buffered_commits c2) i = Inr b2"
  then have "ready \<noteq> []" and run: "handle_verified_commit i (hd ready) ?c = Inr c2"
    unfolding ready_def by blast+
  then have "i \<noteq> ec_local e \<Longrightarrow> accepted e (hd ready)" using acc by simp
  from alwaysD [OF handle_verified_commit_keeps [OF inv this] run]
  have inv2: "cn_inv e low c2" .
  have "set (tl b2) \<subseteq> set b2" by (cases b2) auto
  then show "always (cn_inv e low) (Inr (c2\<lparr>buffered_commits := (buffered_commits c2)[i := tl b2]\<rparr>))"
    using cn_inv_buffered [OF inv2, of "tl b2" i] buffered_accepted [OF inv2 b2] by auto
qed

lemma try_certify_prepare_keeps:
  assumes "cn_inv e low c"
  shows "keeps e low (try_certify_prepare it c)"
  unfolding try_certify_prepare_def Let_def
proof (intro always_rbind always_if)
  fix p :: "u64 \<times> instance_state" and l cf cf' m valid
  let ?pm = "is_prepare (snd p)"
  assume p: "tm_deref (instance_states c) it = Inr p"
    and cf: "acknowledge (pack (pm_view ?pm) (pm_instance ?pm)) (pm_data ?pm) (l = cn_local_id c)
      (prepare_certifier c) = Inr cf"
    and cf': "(if l = cn_local_id c then Inr cf
      else rbind (local_state c) (\<lambda>s. rbind (leader c (at_view s)) (\<lambda>l'.
        received_implicit_promise l' (pack (pm_view ?pm) (pm_instance ?pm)) cf))) = Inr cf'"
    and m: "tm_assign (instance_states c) it ((snd p)\<lparr>certified_prepare := True\<rparr>) = Inr m"
  have "always (cf_keeps cf) (if l = cn_local_id c then Inr cf
      else rbind (local_state c) (\<lambda>s. rbind (leader c (at_view s)) (\<lambda>l'.
        received_implicit_promise l' (pack (pm_view ?pm) (pm_instance ?pm)) cf)))"
    by (intro always_if always_rbind received_implicit_promise_kept) simp
  from cf_keeps_trans [OF alwaysD [OF acknowledge_kept cf] alwaysD [OF this cf']]
  have "cf_keeps (prepare_certifier c) cf'" .
  then have "cn_inv e low (c\<lparr>prepare_certifier := cf'\<rparr>)" by (rule cn_inv_prepare_certifier [OF assms])
  from cn_inv_assign [OF this, of it p "(snd p)\<lparr>certified_prepare := True\<rparr>" m] p m cn_inv_deref [OF assms p]
  show "always (cn_inv e low) (Inr (c\<lparr>prepare_certifier := cf', instance_states := m\<rparr>))" by simp
qed (simp_all add: assms)

lemma try_certify_prepares_keeps:
  "cn_inv e low c \<Longrightarrow> keeps e low (try_certify_prepares c)"
  unfolding try_certify_prepares_def
  by (intro always_rbind always_rfold) (simp_all add: try_certify_prepare_keeps)

lemma prune_valid_values_keeps:
  assumes "cn_inv e low c"
  shows "keeps e low (prune_valid_values inst i c)"
  unfolding prune_valid_values_def
proof (intro always_rbind always_option always_prod)
  fix s z v vv vv'
  assume s: "get_state c i = Inr s"
  show "always (cn_inv e low) (Inr (put_state i (s\<lparr>rs_valid_values := Some (v, vv')\<rparr>) c))"
    using cn_inv_put_same [OF assms s] cn_inv_state(1) [OF assms s] by simp
qed (simp_all add: assms)

lemma accept_prepare_keeps:
  assumes "cn_inv e low c"
  shows "keeps e low (accept_prepare i prepare c)"
  unfolding accept_prepare_def Let_def
proof (intro always_rbind always_prod)
  fix s data x m y it ok c2 c3
  let ?inst = "pm_instance prepare"
  let ?c = "put_state i (s\<lparr>next_prepare := ?inst\<rparr>) c"
  assume s: "get_state c i = Inr s"
    and data: "instance_new prepare (of_nat (length (cn_ids ?c))) = Inr data"
    and m: "tm_try_emplace (instance_states ?c) ?inst data = Inr x" "x = (m, y)"
    and c2: "rfold (replay_commit (pack (pm_view prepare) ?inst)) [0 ..< length (buffered_commits ?c)]
      (?c\<lparr>instance_states := m\<rparr>) = Inr c2"
    and c3: "prune_valid_values ?inst i c2 = Inr c3"
  have inv: "cn_inv e low ?c" using cn_inv_put_same [OF assms s] cn_inv_state(1) [OF assms s] by simp
  have "unat (of_nat (length (cn_ids ?c)) :: u64) = ec_replicas e"
    using cn_inv_fields(2,3) [OF assms] by (simp add: unat_u64_of_nat)
  then have "instance_ok e ?inst data" using instance_new_inv [OF data] by (simp add: instance_ok_def)
  then have "tm_all (instance_ok e) m"
    using tm_all_try_emplace [OF cn_inv_fields(8) [OF inv], of ?inst data m] m by (cases y) simp
  then have "cn_inv e low (?c\<lparr>instance_states := m\<rparr>)" by (rule cn_inv_instances [OF inv])
  then have "keeps e low (rfold (replay_commit (pack (pm_view prepare) ?inst))
      [0 ..< length (buffered_commits ?c)] (?c\<lparr>instance_states := m\<rparr>))"
    by (rule always_rfold) (simp add: replay_commit_keeps)
  from alwaysD [OF this c2] have "cn_inv e low c2" .
  from alwaysD [OF prune_valid_values_keeps [OF this] c3] have "cn_inv e low c3" .
  then show "keeps e low (try_certify_prepare it c3)" by (rule try_certify_prepare_keeps)
qed

lemma handle_prepare_keeps: "cn_inv e low c \<Longrightarrow> keeps e low (handle_prepare i prepare c)"
  unfolding handle_prepare_def by (intro always_rbind always_if) (simp_all add: accept_prepare_keeps)

section \<open>The fast path and decisions\<close>

lemma poll_promises_keeps:
  "cn_inv e low c \<Longrightarrow> keeps e low (poll_prepare_certificate_promises n c)"
proof (induction n arbitrary: c)
  case (Suc n)
  show ?case
    unfolding poll_prepare_certificate_promises.simps Let_def
  proof (intro always_rbind always_prod always_option always_if)
    fix x polled cf promise view inst it p r m
    let ?c = "c\<lparr>prepare_certifier := cf\<rparr>"
    assume poll: "poll_promise (prepare_certifier c) = Inr x" "x = (polled, cf)"
    have inv: "cn_inv e low ?c"
      using Suc.prems alwaysD [OF poll_promise_kept poll(1)] poll(2) by (simp add: cn_inv_prepare_certifier)
    then show "always (cn_inv e low) (Inr ?c)" "keeps e low (poll_prepare_certificate_promises n ?c)"
      by (simp_all add: Suc.IH)
    assume p: "tm_deref (instance_states ?c) it = Inr p"
      and r: "received_fast_commit (local_index ?c) (snd p) = Inr r"
      and m: "tm_assign (instance_states ?c) it (fst r) = Inr m"
    have "local_index ?c < ec_replicas e" using cn_inv_fields(4,5) [OF inv] by simp
    with cn_inv_deref [OF inv p] r have "instance_ok e (fst p) (fst r)"
      by (metis instance_ok_fast_commit prod.collapse)
    moreover have "cn_inv e low (?c\<lparr>fast_commits_sent := fast_commits_sent ?c @ [(view, inst)]\<rparr>)"
      using inv by simp
    ultimately have "cn_inv e low (?c\<lparr>fast_commits_sent := fast_commits_sent ?c @ [(view, inst)], instance_states := m\<rparr>)"
      using cn_inv_assign [of e low "?c\<lparr>fast_commits_sent := fast_commits_sent ?c @ [(view, inst)]\<rparr>" it p "fst r" m] p m
      by simp
    then show "keeps e low (poll_prepare_certificate_promises n
        (?c\<lparr>fast_commits_sent := fast_commits_sent ?c @ [(view, inst)], instance_states := m\<rparr>))"
      by (intro Suc.IH) simp
  qed
qed simp

lemma poll_fast_commit_keeps:
  assumes "cn_inv e low c" "i < ec_replicas e"
  shows "keeps e low (poll_fast_commit i c)"
  unfolding poll_fast_commit_def Let_def
proof (intro always_rbind always_list always_if)
  fix inbox bs rest s inst it p r m
  let ?c = "c\<lparr>fast_inbox := (fast_inbox c)[i := rest]\<rparr>"
  have inv: "cn_inv e low ?c" using assms(1) by (rule cn_inv_fast_inbox) simp
  then show "always (cn_inv e low) (Inr ?c)" by simp
  assume p: "tm_deref (instance_states ?c) it = Inr p" and r: "received_fast_commit i (snd p) = Inr r"
    and m: "tm_assign (instance_states ?c) it (fst r) = Inr m"
  from cn_inv_deref [OF inv p] r assms(2) have "instance_ok e (fst p) (fst r)"
    by (metis instance_ok_fast_commit prod.collapse)
  then show "always (cn_inv e low) (Inr (?c\<lparr>instance_states := m\<rparr>))"
    using cn_inv_assign [OF inv p _ m] by simp
qed (simp_all add: assms)

lemma poll_fast_commits_keeps:
  assumes "cn_inv e low c"
  shows "keeps e low (poll_fast_commits c)"
  unfolding poll_fast_commits_def
proof (rule always_rfold)
  show "keeps e low (poll_fast_commit i d)" if "i \<in> set [0 ..< length (fast_inbox c)]" "cn_inv e low d" for i d
    using that cn_inv_fields(7) [OF assms] by (intro poll_fast_commit_keeps) simp_all
qed (rule assms)

text \<open>A decision moves on to the next instance.\<close>

definition next_engine :: "engine \<Rightarrow> engine" where
  "next_engine e = e\<lparr>ec_next := ec_next e + 1\<rparr>"

lemma cn_inv_next:
  assumes "cn_inv e low c"
  shows "cn_inv (next_engine e) low (c\<lparr>next_to_decide := ec_next e + 1\<rparr>)"
proof -
  have "accepted (next_engine e) = accepted e"
    by (simp add: fun_eq_iff accepted_def next_engine_def)
  moreover from this have "instance_ok (next_engine e) = instance_ok e"
    by (simp add: fun_eq_iff instance_ok_def commit_backed_def) (simp add: next_engine_def)
  ultimately show ?thesis
    using assms
    by (simp add: cn_inv_def shape_ok_def commits_ok_def checkpoints_ok_def certified_checkpoint_def)
      (simp add: next_engine_def)
qed

lemma poll_decision_keeps:
  assumes "cn_inv e low c"
  shows "always (\<lambda>(out, d). case out of None \<Rightarrow> cn_inv e low d
    | Some (inst, batch, flag) \<Rightarrow> inst = ec_next e \<and> cn_inv (next_engine e) low d) (poll_decision c)"
  unfolding poll_decision_def Let_def
proof (intro always_if always_rbind)
  fix it p m l
  assume p: "tm_deref (instance_states c) it = Inr p"
    and m: "tm_assign (instance_states c) it ((snd p)\<lparr>is_decided := True\<rparr>) = Inr m"
  have nxt: "next_to_decide c = ec_next e" using cn_inv_fields(12) [OF assms] .
  have "cn_inv e low (c\<lparr>instance_states := m\<rparr>)"
    using cn_inv_assign [OF assms p _ m] cn_inv_deref [OF assms p] by simp
  then have "cn_inv (next_engine e) low (c\<lparr>instance_states := m, next_to_decide := ec_next e + 1\<rparr>)"
    by (rule cn_inv_next)
  then show "always (\<lambda>(out, d). case out of None \<Rightarrow> cn_inv e low d
      | Some (inst, batch, flag) \<Rightarrow> inst = ec_next e \<and> cn_inv (next_engine e) low d)
    (Inr (Some (next_to_decide c, pm_data (is_prepare (snd p)),
      next_to_decide c mod (cn_window c div 2) = cn_window c div 2 - 1),
      c\<lparr>instance_states := m, next_to_decide := next_to_decide c + 1, cn_request_log := l\<rparr>))"
    by (simp add: nxt)
qed (simp_all add: assms)

section \<open>Checkpoints\<close>

lemma cn_inv_certified: "cn_inv e low c \<Longrightarrow> \<exists>cp. certified_checkpoint c = Inr cp \<and> low \<le> cp_low cp \<and>
    (\<forall>s \<in> set (replica_states c). cp_low (rs_checkpoint s) \<le> cp_low cp)"
  by (simp add: cn_inv_def checkpoints_ok_def)

lemma cn_inv_adopt:
  assumes "cn_inv e low c" "certified_checkpoint c = Inr cp" "rd_checkpoint (cert_message cert) 0 = Inr raw"
    and "cp_low cp \<le> cp_low raw"
  shows "cn_inv e low (c\<lparr>checkpoint_certificate := cert\<rparr>)"
proof -
  have "low \<le> cp_low raw" "\<forall>s \<in> set (replica_states c). cp_low (rs_checkpoint s) \<le> cp_low raw"
    using cn_inv_certified [OF assms(1)] assms(2,4) by (auto elim: order.trans)
  then show ?thesis
    using assms(1,3) by (simp add: cn_inv_def shape_ok_def commits_ok_def checkpoints_ok_def certified_checkpoint_def)
qed

lemma handle_checkpoint_certificate_keeps:
  assumes "cn_inv e low c"
  shows "keeps e low (handle_checkpoint_certificate cert c)"
  unfolding handle_checkpoint_certificate_def
proof (intro always_rbind always_if)
  fix raw cp
  assume "rd_checkpoint (cert_message cert) 0 = Inr raw" "certified_checkpoint c = Inr cp" "\<not> checkpoint_le raw cp"
  then show "always (cn_inv e low) (Inr (c\<lparr>checkpoint_certificate := cert\<rparr>))"
    using cn_inv_adopt [OF assms] by (simp add: checkpoint_le_def)
qed (simp add: assms)

lemma poll_checkpoint_certificate_keeps:
  "cn_inv e low c \<Longrightarrow> keeps e low (poll_checkpoint_certificate c)"
  unfolding poll_checkpoint_certificate_def Let_def
  by (intro always_rbind always_prod always_option) (simp_all add: handle_checkpoint_certificate_keeps)

lemma handle_checkpoint_keeps:
  assumes "cn_inv e low c"
  shows "keeps e low (handle_checkpoint i bs c)"
  unfolding handle_checkpoint_def
proof (intro always_rbind always_sum always_if)
  fix cert :: certificate and raw s
  let ?s = "prune_commits (cp_low raw) (s\<lparr>rs_checkpoint := raw\<rparr>)"
  assume raw: "rd_checkpoint (cert_message cert) 0 = Inr raw" and s: "get_state c i = Inr s"
  obtain cp where cp: "certified_checkpoint c = Inr cp" using cn_inv_certified [OF assms] by blast
  have s': "replica_inv ?s" "rs_checkpoint ?s = raw"
    using cn_inv_state(1) [OF assms s] by (simp_all add: prune_commits_inv, simp add: prune_commits_def)
  show "keeps e low (handle_checkpoint_certificate cert (put_state i ?s c))"
    unfolding handle_checkpoint_certificate_def raw put_state_fields cp rbind_simps
  proof (intro always_if)
    assume "checkpoint_le raw cp"
    then show "always (cn_inv e low) (Inr (put_state i ?s c))"
      using cn_inv_put [OF assms s'(1) cp] s'(2) by (simp add: checkpoint_le_def)
  next
    assume "\<not> checkpoint_le raw cp"
    then have inv: "cn_inv e low (c\<lparr>checkpoint_certificate := cert\<rparr>)"
      using cn_inv_adopt [OF assms cp raw] by (simp add: checkpoint_le_def)
    have "certified_checkpoint (c\<lparr>checkpoint_certificate := cert\<rparr>) = Inr raw"
      using raw by (simp add: certified_checkpoint_def)
    then have "cn_inv e low (put_state i ?s (c\<lparr>checkpoint_certificate := cert\<rparr>))"
      using cn_inv_put [OF inv s'(1)] s'(2) by simp
    moreover have "put_state i ?s (c\<lparr>checkpoint_certificate := cert\<rparr>) = put_state i ?s c\<lparr>checkpoint_certificate := cert\<rparr>"
      by (cases c) (simp add: put_state_def)
    ultimately show "always (cn_inv e low) (Inr (put_state i ?s c\<lparr>checkpoint_certificate := cert\<rparr>))" by simp
  qed
qed simp_all

lemma trigger_checkpoint_keeps: "cn_inv e low c \<Longrightarrow> keeps e low (trigger_checkpoint i st c)"
  unfolding trigger_checkpoint_def Let_def by (intro always_rbind always_if) simp_all

section \<open>Waiting and broadcasting\<close>

lemma wait_for_verifications_keeps: "cn_inv e low c \<Longrightarrow> keeps e low (wait_for_verifications n i c)"
proof (induction n arbitrary: c)
  case (Suc n)
  show ?case
    unfolding wait_for_verifications.simps
  proof (intro always_rbind always_if)
    fix s c1 c2
    assume c: "env_step c = Inr c1" "poll_verified_commits c1 = Inr c2"
    from alwaysD [OF env_step_keeps [OF Suc.prems] c(1)] have "cn_inv e low c1" .
    from alwaysD [OF poll_verified_commits_keeps [OF this] c(2)]
    show "keeps e low (wait_for_verifications n i c2)" by (rule Suc.IH)
  qed (simp add: Suc.prems)
qed simp

lemma certify_cb_checkpoint_keeps:
  assumes "cn_inv e low c"
  shows "keeps e low (certify_cb_checkpoint n i c)"
  unfolding certify_cb_checkpoint_def
proof (intro always_rbind always_prod)
  fix c1 cf cf1 s x bs s' cf2
  assume c1: "wait_for_verifications n i c = Inr c1" and s: "get_state c1 i = Inr s"
    and x: "checkpoint_cb s = Inr x" "x = (bs, s')"
  have inv: "cn_inv e low c1" using alwaysD [OF wait_for_verifications_keeps [OF assms] c1] .
  have "s' = s\<lparr>last_cb_checkpoint := Some bs\<rparr>"
    using x by (auto simp: checkpoint_cb_def rbind_Inr_iff Let_def)
  then have "cn_inv e low (put_state i s' c1)"
    using cn_inv_put_same [OF inv s] cn_inv_state(1) [OF inv s] by simp
  then show "always (cn_inv e low) (Inr (put_state i s' c1\<lparr>cb_checkpoint_certifiers :=
      (cb_checkpoint_certifiers c1)[i := cf2]\<rparr>))" by simp
qed

lemma maybe_certify_cb_checkpoint_keeps:
  "cn_inv e low c \<Longrightarrow> keeps e low (maybe_certify_cb_checkpoint n i c)"
  unfolding maybe_certify_cb_checkpoint_def
  by (intro always_rbind always_if) (simp_all add: certify_cb_checkpoint_keeps)

lemma poll_cb_checkpoint_certificate_keeps:
  "cn_inv e low c \<Longrightarrow> keeps e low (poll_cb_checkpoint_certificate c)"
  unfolding poll_cb_checkpoint_certificate_def Let_def
  by (intro always_rbind always_prod) (simp split: option.split)

lemma tick_cb_checkpoint_certifiers_keeps:
  "cn_inv e low c \<Longrightarrow> keeps e low (tick_cb_checkpoint_certifiers c)"
  unfolding tick_cb_checkpoint_certifiers_def
  by (intro always_rfold on_certifier_keeps cf_tick_kept)

text \<open>The operations below call the handler \<open>h\<close>, which is assumed to keep the invariant.\<close>

definition handler_keeps :: "engine \<Rightarrow> u64 \<Rightarrow> handler \<Rightarrow> bool" where
  "handler_keeps e low h \<longleftrightarrow> (\<forall>i m c. cn_inv e low c \<longrightarrow> keeps e low (h i m c))"

lemma handler_keepsD: "handler_keeps e low h \<Longrightarrow> cn_inv e low c \<Longrightarrow> keeps e low (h i m c)"
  unfolding handler_keeps_def by blast

lemma poll_cbs_keeps:
  assumes "handler_keeps e low h" "cn_inv e low c"
  shows "keeps e low (poll_cbs h c)"
  unfolding poll_cbs_def
proof (rule always_rfold)
  show "keeps e low (poll_cb h i d)" if "cn_inv e low d" for i d
    unfolding poll_cb_def
    by (intro always_rbind always_list) (simp_all add: that handler_keepsD [OF assms(1)])
qed (rule assms(2))

lemma wait_for_cb_slack_keeps:
  assumes "handler_keeps e low h"
  shows "cn_inv e low c \<Longrightarrow> keeps e low (wait_for_cb_slack h n c)"
proof (induction n arbitrary: c)
  case (Suc n)
  show ?case
    unfolding wait_for_cb_slack.simps
    by (intro always_if always_bind [where Q = "cn_inv e low"] tick_cb_checkpoint_certifiers_keeps
        poll_cb_checkpoint_certificate_keeps env_step_keeps poll_cbs_keeps [OF assms] Suc.IH)
      (simp_all add: Suc.prems)
qed simp

lemma cb_broadcast_keeps: "cn_inv e low c \<Longrightarrow> cn_inv e low (snd (cb_broadcast bs c))"
  by (simp add: cb_broadcast_def)

lemma broadcast_and_handle_keeps:
  assumes "handler_keeps e low h" "cn_inv e low c"
  shows "keeps e low (broadcast_and_handle h n bs c)"
  unfolding broadcast_and_handle_def
proof (rule always_bind [where Q = "cn_inv e low"])
  show "keeps e low (wait_for_cb_slack h n c)" using assms by (rule wait_for_cb_slack_keeps)
  show "keeps e low (let (m, c2) = cb_broadcast bs c1 in h (local_index c2) m c2)" if "cn_inv e low c1" for c1
    using handler_keepsD [OF assms(1) cb_broadcast_keeps [OF that]] by (simp add: case_prod_beta)
qed

lemma forget_decided_keeps:
  assumes "cn_inv e low c"
  shows "keeps e low (forget_decided inst c)"
  unfolding forget_decided_def
proof (intro always_rbind)
  fix s cf m
  assume "forget_messages (Some (pack (at_view s) (inst - 1))) (prepare_certifier c) = Inr cf"
    and m: "tm_pop_while (\<lambda>k. k < inst) (instance_states c) = Inr m"
  from alwaysD [OF forget_messages_kept this(1)] have inv: "cn_inv e low (c\<lparr>prepare_certifier := cf\<rparr>)"
    by (rule cn_inv_prepare_certifier [OF assms])
  then show "always (cn_inv e low) (Inr (c\<lparr>prepare_certifier := cf, instance_states := m\<rparr>))"
    using tm_pop_while_all [OF m cn_inv_fields(8) [OF assms]] by (simp add: cn_inv_instances)
qed

lemma broadcast_checkpoint_certificate_keeps:
  assumes "handler_keeps e low h" "cn_inv e low c"
  shows "keeps e low (broadcast_checkpoint_certificate h n force c)"
  unfolding broadcast_checkpoint_certificate_def
proof (intro always_if always_rbind)
  fix cp c1
  let ?b = "broadcast_and_handle h n (CheckpointKind # cert_bytes (checkpoint_certificate c))
    (c\<lparr>send_checkpoint_above := cp_low cp\<rparr>)"
  assume "?b = Inr c1"
  moreover have "keeps e low ?b" using assms by (intro broadcast_and_handle_keeps) simp_all
  ultimately show "keeps e low (forget_decided (cp_low cp) c1)" by (blast intro: forget_decided_keeps dest: alwaysD)
qed (simp_all add: assms(2))

lemma commit_certificate_keeps:
  assumes "handler_keeps e low h" "cn_inv e low c"
  shows "keeps e low (commit_certificate h n cert c)"
  unfolding commit_certificate_def Let_def
proof (intro always_rbind always_prod always_if)
  fix s view inst c1
  assume "(if cp_high (rs_checkpoint s) \<le> inst then broadcast_checkpoint_certificate h n True c else Inr c) = Inr c1"
  moreover have "keeps e low (if cp_high (rs_checkpoint s) \<le> inst
      then broadcast_checkpoint_certificate h n True c else Inr c)"
    using assms by (simp add: broadcast_checkpoint_certificate_keeps)
  ultimately have inv: "cn_inv e low c1" by (blast dest: alwaysD)
  then show "always (cn_inv e low) (Inr c1)" by simp
  show "keeps e low (broadcast_and_handle h n (CommitKind # cert_bytes cert) c1)"
    using assms(1) inv by (rule broadcast_and_handle_keeps)
qed (simp_all add: assms(2))

lemma poll_prepare_certificates_keeps:
  assumes "handler_keeps e low h"
  shows "cn_inv e low c \<Longrightarrow> keeps e low (poll_prepare_certificates h n c)"
proof (induction n arbitrary: c)
  case (Suc n)
  show ?case
    unfolding poll_prepare_certificates.simps Let_def
  proof (intro always_rbind always_prod always_option)
    fix x polled cf cert c1
    let ?c = "c\<lparr>prepare_certifier := cf\<rparr>"
    assume poll: "poll_certificate (prepare_certifier c) = Inr x" "x = (polled, cf)"
    have inv: "cn_inv e low ?c"
      using Suc.prems alwaysD [OF poll_certificate_kept poll(1)] poll(2) by (simp add: cn_inv_prepare_certifier)
    then show "always (cn_inv e low) (Inr ?c)" by simp
    assume "commit_certificate h n cert ?c = Inr c1"
    from alwaysD [OF commit_certificate_keeps [OF assms inv] this]
    show "keeps e low (poll_prepare_certificates h n c1)" by (rule Suc.IH)
  qed
qed simp

section \<open>View changes\<close>

lemma handle_seal_view_keeps:
  assumes "cn_inv e low c"
  shows "keeps e low (handle_seal_view n i c)"
  unfolding handle_seal_view_def Let_def serialize_state_def prod.case
proof (intro always_rbind)
  fix c1 :: consensus and s :: replica_state and cf cf1 cf2 l
  let ?s = "s\<lparr>serialized_state := Some (ss_bytes (cn_junk c1) (at_view s) (commits s))\<rparr>\<lparr>at_view := at_view s + 1\<rparr>"
  let ?c = "put_state i ?s c1\<lparr>vc_state_certifiers := (vc_state_certifiers c1)[i := cf2]\<rparr>"
  assume c1: "wait_for_verifications n i c = Inr c1" and s: "get_state c1 i = Inr s"
  have inv: "cn_inv e low c1" using alwaysD [OF wait_for_verifications_keeps [OF assms] c1] .
  then have "cn_inv e low ?c" using cn_inv_put_same [OF inv s] cn_inv_state(1) [OF inv s] by simp
  then show "always (cn_inv e low) (Inr (if cn_local_id ?c = l \<and> (case ongoing_view_change ?c of None \<Rightarrow> True
        | Some vc \<Rightarrow> vc_view vc < at_view s)
      then ?c\<lparr>ongoing_view_change := Some \<lparr>vc_view = at_view s, vc_certificates = []\<rparr>\<rparr> else ?c))"
    by simp
qed

lemma commit_all_keeps:
  assumes "handler_keeps e low h"
  shows "cn_inv e low c \<Longrightarrow> keeps e low (commit_all h n c)"
proof (induction n arbitrary: c)
  case (Suc n)
  have "keeps e low (rbind (tm_entries (instance_states d)) (\<lambda>es. rbind (uncommitted (local_index d) es) (\<lambda>waiting.
      if waiting then commit_all h n d else Inr d)))" if "cn_inv e low d" for d
    by (intro always_rbind always_if) (simp_all add: that Suc.IH)
  then show ?case
    unfolding commit_all.simps
    by (intro always_bind [where Q = "cn_inv e low"] env_step_keeps on_certifier_keeps cf_tick_kept
        poll_prepare_certificates_keeps [OF assms] poll_verified_commits_keeps Suc.prems)
qed simp

lemma tm_pop_all_all: "tm_pop_all m = Inr m' \<Longrightarrow> tm_all Q m \<Longrightarrow> tm_all Q m'"
proof (induction m arbitrary: m' rule: tm_pop_all.induct)
  case (1 m)
  show ?case
  proof (cases "tm_begin m = tm_end m")
    case True
    with "1.prems" show ?thesis by (simp add: tm_pop_all.simps [of m])
  next
    case False
    with "1.prems"(1) obtain m1 where m1: "tm_pop_front m = Inr m1" "tm_pop_all m1 = Inr m'"
      by (auto simp: tm_pop_all.simps [of m] split: sum.splits)
    from "1.IH" [OF False m1(1,2)] tm_all_pop_front [OF "1.prems"(2) m1(1)] show ?thesis by blast
  qed
qed

lemma change_view_keeps:
  assumes "handler_keeps e low h" "cn_inv e low c"
  shows "keeps e low (change_view h n c)"
  unfolding change_view_def
proof (intro always_bind [where Q = "cn_inv e low"] commit_all_keeps assms broadcast_and_handle_keeps)
  show "keeps e low (rbind (local_state d) (\<lambda>s.
      rbind (forget_messages (Some (pack (at_view s) 0)) (prepare_certifier d)) (\<lambda>cf.
      rbind (tm_clear (instance_states d)) (\<lambda>m.
      Inr (d\<lparr>prepare_certifier := cf, instance_states := m\<rparr>)))))" if inv: "cn_inv e low d" for d
  proof (intro always_rbind)
    fix s cf m
    assume "forget_messages (Some (pack (at_view s) 0)) (prepare_certifier d) = Inr cf"
      and m: "tm_clear (instance_states d) = Inr m"
    from alwaysD [OF forget_messages_kept this(1)] have "cn_inv e low (d\<lparr>prepare_certifier := cf\<rparr>)"
      by (rule cn_inv_prepare_certifier [OF inv])
    moreover have "tm_all (instance_ok e) m"
      using m tm_pop_all_all [OF _ cn_inv_fields(8) [OF inv]] by (auto simp: tm_clear_def rbind_Inr_iff)
    ultimately show "always (cn_inv e low) (Inr (d\<lparr>prepare_certifier := cf, instance_states := m\<rparr>))"
      using cn_inv_instances by fastforce
  qed
qed

lemma learn_proc_keeps: "cn_inv e low c \<Longrightarrow> cn_inv e low (learn_proc p c)"
  by (simp add: learn_proc_def)

lemma is_byzantine_new_view_keeps:
  "cn_inv e low c \<Longrightarrow> always (\<lambda>r. cn_inv e low (snd r)) (is_byzantine_new_view is bs c)"
proof (induction "is" arbitrary: c)
  case (Cons i "is")
  show ?case
    unfolding is_byzantine_new_view.simps
    by (intro always_rbind always_prod always_sum always_if)
      (simp_all add: Cons learn_proc_keeps)
qed simp

lemma reach_view_keeps:
  assumes "handler_keeps e low h"
  shows "cn_inv e low c \<Longrightarrow> keeps e low (reach_view h n v c)"
proof (induction n arbitrary: c)
  case (Suc n)
  have "keeps e low (rbind (change_view h n c) (reach_view h n v))"
    by (intro always_bind [where Q = "cn_inv e low"] change_view_keeps assms Suc)
  with Suc.prems show ?case unfolding reach_view.simps by (intro always_rbind always_if) simp_all
qed simp

lemma handle_new_view_keeps:
  assumes "handler_keeps e low h" "cn_inv e low c"
  shows "keeps e low (handle_new_view h n i bs c)"
  unfolding handle_new_view_def
proof (intro always_rbind always_prod always_if)
  fix x byz c1 view c2 s vv
  assume "is_byzantine_new_view [0 ..< unat (cn_quorum c)] bs c = Inr x" "x = (byz, c1)"
  with alwaysD [OF is_byzantine_new_view_keeps [OF assms(2)]] have "cn_inv e low c1" by fastforce
  moreover assume "reach_view h n view c1 = Inr c2"
  ultimately have inv: "cn_inv e low c2" using alwaysD [OF reach_view_keeps [OF assms(1)]] by blast
  assume s: "get_state c2 i = Inr s"
  show "always (cn_inv e low) (Inr (put_state i (s\<lparr>next_prepare := cp_low (rs_checkpoint s),
      rs_valid_values := Some (view, vv)\<rparr>) c2))"
    using cn_inv_put_same [OF inv s] cn_inv_state(1) [OF inv s] by simp
qed simp

section \<open>Every message\<close>

lemma count_cb_keeps:
  assumes "cn_inv e low c"
  shows "keeps e low (count_cb i idx c)"
  unfolding count_cb_def
proof (intro always_rbind always_if)
  fix s
  assume s: "get_state c i = Inr s"
  show "always (cn_inv e low) (Inr (put_state i (s\<lparr>rs_next_cb := rs_next_cb s + 1\<rparr>) c))"
    using cn_inv_put_same [OF assms s] cn_inv_state(1) [OF assms s] by simp
qed simp

lemma dispatch_keeps:
  assumes "handler_keeps e low h" "cn_inv e low c"
  shows "keeps e low (dispatch h n i bs c)"
  unfolding dispatch_def
proof (intro always_rbind always_sum)
  fix x msg
  show "keeps e low (case msg of Prepare p \<Rightarrow> handle_prepare i p c | Commit b \<Rightarrow> handle_commit i b c
      | Checkpoint_msg b \<Rightarrow> handle_checkpoint i b c | Seal_view \<Rightarrow> handle_seal_view n i c
      | New_view b \<Rightarrow> handle_new_view h n i b c)"
    by (cases msg) (simp_all add: assms handle_prepare_keeps handle_commit_keeps handle_checkpoint_keeps
        handle_seal_view_keeps handle_new_view_keeps)
qed (simp_all add: assms)

theorem handle_cb_message_keeps: "handler_keeps e low (handle_cb_message n)"
proof (induction n)
  case (Suc n)
  have "keeps e low (handle_cb_with (handle_cb_message n) n i m c)" if "cn_inv e low c" for i m c
    unfolding handle_cb_with_def
    by (intro always_bind [where Q = "cn_inv e low"] count_cb_keeps dispatch_keeps Suc
        maybe_certify_cb_checkpoint_keeps that)
  then show ?case by (simp add: handler_keeps_def)
qed (simp add: handler_keeps_def)

section \<open>Every operation\<close>

lemma get_slot_keeps: "cn_inv e low c \<Longrightarrow> keeps e low (get_slot bs c)"
  unfolding get_slot_def by (intro always_if always_rbind) simp_all

lemma propose_all_keeps:
  assumes "handler_keeps e low h"
  shows "cn_inv e low c \<Longrightarrow> always (\<lambda>r. cn_inv e low (snd r)) (propose_all h n c)"
proof (induction n arbitrary: c)
  case (Suc n)
  have sent: "always (\<lambda>r. cn_inv e low (snd r)) (let (m, c2) = cb_broadcast bs d;
      c3 = c2\<lparr>to_propose := tl (to_propose c2)\<rparr> in rbind (h (local_index c3) m c3) (propose_all h n))"
    if "cn_inv e low d" for d bs
    unfolding cb_broadcast_def Let_def prod.case
    by (rule always_bind [where Q = "cn_inv e low"])
      (use that handler_keepsD [OF assms] Suc.IH in simp_all)
  have slack: "keeps e low (wait_for_cb_slack h n (c\<lparr>cn_proposed := cn_proposed c + 1\<rparr>))"
    using assms Suc.prems by (intro wait_for_cb_slack_keeps) simp_all
  show ?case
    unfolding propose_all.simps
  proof (intro always_list always_rbind always_if)
    fix pm pms s c1
    assume "wait_for_cb_slack h n (c\<lparr>cn_proposed := cn_proposed c + 1\<rparr>) = Inr c1"
    from alwaysD [OF slack this] show "always (\<lambda>r. cn_inv e low (snd r))
        (let (m, c2) = cb_broadcast (prepare_bytes (prepare_padding c1) pm) c1;
             c3 = c2\<lparr>to_propose := tl (to_propose c2)\<rparr>
         in rbind (h (local_index c3) m c3) (propose_all h n))" by (rule sent)
  qed (simp_all add: Suc.prems)
qed simp

lemma propose_keeps:
  "handler_keeps e low h \<Longrightarrow> cn_inv e low c \<Longrightarrow> always (\<lambda>r. cn_inv e low (snd r)) (propose h n c)"
  unfolding propose_def by (intro always_rbind always_if) (simp_all add: propose_all_keeps)

lemma fill_slots_keeps: "cn_inv e low c \<Longrightarrow> keeps e low (fill_slots n vv i l c)"
proof (induction n arbitrary: i c)
  case (Suc n)
  have "keeps e low (if it \<noteq> tm_end vv then rbind (tm_deref vv it) (\<lambda>e. get_slot (snd e) c) else get_slot [] c)"
    for it
    by (intro always_if always_rbind) (simp_all add: get_slot_keeps Suc.prems)
  then have "keeps e low (rbind (if it \<noteq> tm_end vv then rbind (tm_deref vv it) (\<lambda>e. get_slot (snd e) c) else get_slot [] c)
      (fill_slots n vv (i + 1) l))" for it
    by (rule always_bind) (rule Suc.IH)
  note filled = this
  show ?case
    unfolding fill_slots.simps
    by (rule always_if, simp add: Suc.prems, rule always_rbind, rule filled)
qed simp

lemma repropose_keeps:
  assumes "handler_keeps e low h" "cn_inv e low c"
  shows "keeps e low (repropose h n c)"
  unfolding repropose_def Let_def
proof (intro always_rbind always_if)
  fix s vv cp l c2 r
  let ?c = "c\<lparr>to_propose := [], next_proposal := cp_low cp, cn_proposed := cp_low cp\<rparr>"
  assume c2: "fill_slots n vv (cp_low cp) l ?c = Inr c2"
  have "cn_inv e low ?c" using assms(2) by simp
  from alwaysD [OF fill_slots_keeps [OF this] c2] have inv: "cn_inv e low c2" .
  then show "always (cn_inv e low) (Inr c2)" by simp
  assume "propose h n c2 = Inr r"
  from alwaysD [OF propose_keeps [OF assms(1) inv] this] show "always (cn_inv e low) (Inr (snd r))" by simp
qed

lemma announce_new_view_keeps:
  assumes "handler_keeps e low h" "cn_inv e low c"
  shows "keeps e low (announce_new_view h n vc c)"
proof -
  have "keeps e low (broadcast_and_handle h n bs (c\<lparr>ongoing_view_change := None\<rparr>))" for bs
    using assms by (intro broadcast_and_handle_keeps) simp_all
  then show ?thesis
    unfolding announce_new_view_def
    by (intro always_rbind) (blast intro: repropose_keeps [OF assms(1)] dest: alwaysD)
qed

lemma poll_vc_states_keeps:
  assumes "handler_keeps e low h"
  shows "cn_inv e low c \<Longrightarrow> keeps e low (poll_vc_states h n is c)"
proof (induction "is" arbitrary: c)
  case (Cons i "is")
  show ?case
    unfolding poll_vc_states.simps Let_def
    by (intro always_rbind always_prod always_option always_if)
      (simp_all add: Cons announce_new_view_keeps assms)
qed simp

lemma slow_path_tick_keeps:
  assumes "handler_keeps e low h" "cn_inv e low c"
  shows "keeps e low (slow_path_tick h n c)"
  unfolding slow_path_tick_def poll_vc_state_certificates_def
  by (intro always_bind [where Q = "cn_inv e low"] try_certify_prepares_keeps
      poll_prepare_certificates_keeps poll_verified_commits_keeps always_rfold on_certifier_keeps
      cf_tick_kept always_if poll_vc_states_keeps assms) simp_all

theorem consensus_tick_keeps:
  assumes "cn_inv e low c"
  shows "keeps e low (consensus_tick n c)"
proof -
  note h = handle_cb_message_keeps [of e low n]
  have slow: "keeps e low (if slow_path_enabled d then slow_path_tick (handle_cb_message n) n d else Inr d)"
    if "cn_inv e low d" for d
    using that slow_path_tick_keeps [OF h that] by simp
  show ?thesis
    unfolding consensus_tick_def Let_def
    by (intro always_bind [where Q = "cn_inv e low"] on_certifier_keeps cf_tick_kept
        tick_cb_checkpoint_certifiers_keeps poll_checkpoint_certificate_keeps
        broadcast_checkpoint_certificate_keeps poll_cbs_keeps poll_promises_keeps
        poll_fast_commits_keeps poll_cb_checkpoint_certificate_keeps slow h assms)
qed

lemma cn_toggle_slow_path_keeps: "cn_inv e low c \<Longrightarrow> cn_inv e low (cn_toggle_slow_path b c)"
proof -
  assume "cn_inv e low c"
  then have "cn_inv e low (c\<lparr>prepare_certifier := toggle_slow_path b (prepare_certifier c)\<rparr>)"
    by (rule cn_inv_prepare_certifier) simp
  then have "cn_inv e low (c\<lparr>prepare_certifier := toggle_slow_path b (prepare_certifier c)\<rparr>
    \<lparr>slow_path_enabled := b\<rparr>\<lparr>broadcast_slow_path := b\<rparr>
    \<lparr>vc_state_certifiers := map (toggle_slow_path b) (vc_state_certifiers c)\<rparr>)" by (simp only: cn_inv_frame)
  moreover have "c\<lparr>prepare_certifier := toggle_slow_path b (prepare_certifier c)\<rparr>
    \<lparr>slow_path_enabled := b\<rparr>\<lparr>broadcast_slow_path := b\<rparr>
    \<lparr>vc_state_certifiers := map (toggle_slow_path b) (vc_state_certifiers c)\<rparr> = cn_toggle_slow_path b c"
    by (cases c) (simp add: cn_toggle_slow_path_def)
  ultimately show ?thesis by simp
qed

lemma accept_request_keeps: "cn_inv e low c \<Longrightarrow> always (\<lambda>r. cn_inv e low (snd r)) (accept_request p i bs c)"
  unfolding accept_request_def by (intro always_rbind always_prod) simp

section \<open>Reachable engines\<close>

text \<open>
  The application calls the engine and looks at what it decides; workers and network act in
  between and, by script, during the waits.
\<close>

datatype cn_event =
    Call_tick
  | Call_poll_decision
  | Call_trigger_checkpoint u64 bytes
  | Call_change_view
  | Call_toggle_slow_path bool
  | Call_accept_request proc_id u64 bytes
  | Call_get_slot bytes
  | Call_propose
  | Outside env_event
  | Script "env_event list list"

fun cn_apply :: "nat \<Rightarrow> cn_event \<Rightarrow> consensus \<Rightarrow> (u64 list \<times> consensus) result" where
  "cn_apply n Call_tick c = rbind (consensus_tick n c) (\<lambda>d. Inr ([], d))"
| "cn_apply n Call_poll_decision c = rbind (poll_decision c) (\<lambda>(out, d).
     Inr (case out of None \<Rightarrow> [] | Some (inst, _, _) \<Rightarrow> [inst], d))"
| "cn_apply n (Call_trigger_checkpoint i bs) c = rbind (trigger_checkpoint i bs c) (\<lambda>d. Inr ([], d))"
| "cn_apply n Call_change_view c = rbind (change_view (handle_cb_message n) n c) (\<lambda>d. Inr ([], d))"
| "cn_apply n (Call_toggle_slow_path b) c = Inr ([], cn_toggle_slow_path b c)"
| "cn_apply n (Call_accept_request p i bs) c = rbind (accept_request p i bs c) (\<lambda>r. Inr ([], snd r))"
| "cn_apply n (Call_get_slot bs) c = rbind (get_slot bs c) (\<lambda>d. Inr ([], d))"
| "cn_apply n Call_propose c = rbind (propose (handle_cb_message n) n c) (\<lambda>r. Inr ([], snd r))"
| "cn_apply n (Outside ev) c = rbind (env_apply ev c) (\<lambda>d. Inr ([], d))"
| "cn_apply n (Script evs) c = Inr ([], c\<lparr>cn_env := evs\<rparr>)"

text \<open>A run, and the instances it decided.\<close>

inductive cn_run :: "consensus \<Rightarrow> u64 list \<Rightarrow> consensus \<Rightarrow> bool" where
  cn_run_refl: "cn_run c [] c"
| cn_run_step: "cn_run c ds d \<Longrightarrow> cn_apply n ev d = Inr (out, d') \<Longrightarrow> cn_run c (ds @ out) d'"

fun engine_after :: "u64 list \<Rightarrow> engine \<Rightarrow> engine" where
  "engine_after [] e = e"
| "engine_after (i # is) e = engine_after is (next_engine e)"

lemma engine_after_append: "engine_after (xs @ ys) e = engine_after ys (engine_after xs e)"
  by (induction xs arbitrary: e) simp_all

lemma cn_apply_keeps:
  assumes "cn_inv e low c"
  shows "always (\<lambda>(out, d). cn_inv (engine_after out e) low d \<and> (out = [] \<or> out = [ec_next e])) (cn_apply n ev c)"
proof -
  let ?P = "\<lambda>(out, d). cn_inv (engine_after out e) low d \<and> (out = [] \<or> out = [ec_next e])"
  have plain: "always ?P (rbind r (\<lambda>d. Inr ([], d)))" if "keeps e low r" for r
    using that by (intro always_rbind) (auto dest: alwaysD)
  have pair: "always ?P (rbind r (\<lambda>x. Inr ([], snd x)))" if "always (\<lambda>x. cn_inv e low (snd x)) r"
    for r :: "('x \<times> consensus) result"
    using that by (intro always_rbind) (auto dest: alwaysD)
  show ?thesis
  proof (cases ev)
    case Call_poll_decision
    have "always ?P (Inr (case out of None \<Rightarrow> [] | Some (inst, _, _) \<Rightarrow> [inst], d))"
      if "poll_decision c = Inr (out, d)" for out d
      using alwaysD [OF poll_decision_keeps [OF assms] that] by (auto split: option.splits)
    then show ?thesis unfolding Call_poll_decision cn_apply.simps
      by (intro always_rbind) (auto simp del: always_simps)
  next
    case Call_tick
    then show ?thesis using plain [OF consensus_tick_keeps [OF assms]] by simp
  next
    case (Call_trigger_checkpoint i bs)
    then show ?thesis using plain [OF trigger_checkpoint_keeps [OF assms]] by simp
  next
    case Call_change_view
    then show ?thesis using plain [OF change_view_keeps [OF handle_cb_message_keeps assms]] by simp
  next
    case (Call_accept_request p i bs)
    then show ?thesis using pair [OF accept_request_keeps [OF assms]] by simp
  next
    case (Call_get_slot bs)
    then show ?thesis using plain [OF get_slot_keeps [OF assms]] by simp
  next
    case Call_propose
    then show ?thesis using pair [OF propose_keeps [OF handle_cb_message_keeps assms]] by simp
  next
    case (Outside ev)
    then show ?thesis using plain [OF env_apply_keeps [OF assms]] by simp
  qed (simp_all add: assms cn_toggle_slow_path_keeps)
qed

theorem cn_run_inv: "cn_run c ds d \<Longrightarrow> cn_inv e low c \<Longrightarrow> cn_inv (engine_after ds e) low d"
proof (induction rule: cn_run.induct)
  case (cn_run_step c ds d n ev out d')
  then show ?case using alwaysD [OF cn_apply_keeps] by (fastforce simp: engine_after_append)
qed simp

end
