(* ===== verification/Engine_Properties.thy ===== *)
theory Engine_Properties
  imports Engine_Invariant
begin

text \<open>
  What the invariant gives for every run of an engine, and the behaviour of its handlers: what
  they accept, what they reject, and where they do not do what they were meant to.
\<close>

section \<open>The initial state\<close>

definition engine_new :: "consensus \<Rightarrow> engine" where
  "engine_new c =
     \<lparr>ec_config = cf_config (prepare_certifier c), ec_sound = cf_sound (prepare_certifier c),
      ec_replicas = length (cn_ids c),
      ec_local = local_index c, ec_sorted = sorted_ids c, ec_window = cn_window c,
      ec_quorum = cn_quorum c, ec_next = 0\<rparr>"

lemma genesis_message [simp]: "cert_message (genesis_certificate cf bs) = bs"
  by (simp add: genesis_certificate_def cert_build_def)

lemma consensus_new_inv:
  fixes receivers :: "proc_id list"
  assumes "window \<noteq> 0" "length receivers + 1 < 18446744073709551616"
    and "c = consensus_new tail receivers prepare vcs cp cbs me window mrs mbs cw junk"
  shows "cn_inv (engine_new c) 0 c"
proof -
  let ?cp = "checkpoint_new 0 window zero_digest"
  have "length (cp_digest ?cp) = DigestLength" by (simp add: checkpoint_new_def zero_digest_def)
  from rd_checkpoint_bytes [OF this, of "[]" 0 "[]"]
  have "rd_checkpoint (checkpoint_bytes ?cp) 0 = Inr ?cp" by simp
  then have "checkpoints_ok 0 c"
    unfolding assms(3)
    by (simp add: checkpoints_ok_def certified_checkpoint_def consensus_new_def Let_def replica_new_def)
  moreover have "shape_ok (engine_new c) c"
    using assms(2) unfolding assms(3) by (simp add: shape_ok_def engine_new_def consensus_new_def Let_def)
  moreover have "commits_ok (engine_new c) c"
    using assms(1) unfolding assms(3)
    by (simp add: commits_ok_def consensus_new_def Let_def tm_all_new del: replicate.simps upt_Suc)
  moreover have "\<forall>s \<in> set (replica_states c). replica_inv s"
    unfolding assms(3) by (simp add: consensus_new_def Let_def replica_new_inv)
  ultimately show ?thesis by (simp add: cn_inv_def)
qed

section \<open>Runs\<close>

lemma engine_after_next: "ec_next (engine_after ds e) = ec_next e + of_nat (length ds)"
  by (induction ds arbitrary: e) (simp_all add: next_engine_def)

lemma engine_after_config: "accepted (engine_after ds e) = accepted e \<and> ec_local (engine_after ds e) = ec_local e \<and>
    ec_replicas (engine_after ds e) = ec_replicas e \<and> ec_quorum (engine_after ds e) = ec_quorum e"
  by (induction ds arbitrary: e) (simp_all add: next_engine_def accepted_def fun_eq_iff)

text \<open>Decisions come in the order of the instances, without gap or repetition.\<close>

theorem run_decisions:
  assumes "cn_run c ds d" "cn_inv e low c"
  shows "ds = map (\<lambda>k. ec_next e + of_nat k) [0 ..< length ds]"
  using assms
proof (induction rule: cn_run.induct)
  case (cn_run_step c ds d n ev out d')
  have "cn_inv (engine_after ds e) low d" using cn_run_inv [OF cn_run_step.hyps(1) cn_run_step.prems] .
  from alwaysD [OF cn_apply_keeps [OF this] cn_run_step.hyps(2)]
  have "out = [] \<or> out = [ec_next e + of_nat (length ds)]" by (auto simp: engine_after_next)
  with cn_run_step show ?case by auto
qed simp

text \<open>The checkpoint that is certified never goes back, and no replica is ahead of it.\<close>

lemma cn_inv_raise: "cn_inv e low c \<Longrightarrow> certified_checkpoint c = Inr cp \<Longrightarrow> cn_inv e (cp_low cp) c"
  by (auto simp: cn_inv_def checkpoints_ok_def)

theorem run_checkpoint_monotone:
  assumes "cn_run c ds d" "cn_inv e low c"
  shows "\<exists>a b. certified_checkpoint c = Inr a \<and> certified_checkpoint d = Inr b \<and> cp_low a \<le> cp_low b \<and>
    (\<forall>s \<in> set (replica_states d). cp_low (rs_checkpoint s) \<le> cp_low b)"
proof -
  obtain a where a: "certified_checkpoint c = Inr a" using cn_inv_certified [OF assms(2)] by blast
  from cn_inv_certified [OF cn_run_inv [OF assms(1) cn_inv_raise [OF assms(2) a]]] a
  show ?thesis by blast
qed

section \<open>What a decision rests on\<close>

text \<open>
  A certificate for an instance: a quorum of signatures of distinct known processes, each over the
  hash of some message under an index of the instance.
\<close>

definition quorum_certificate :: "crypto \<Rightarrow> u64 \<Rightarrow> nat \<Rightarrow> u64 \<Rightarrow> certificate \<Rightarrow> bool" where
  "quorum_certificate cr ident n inst cert \<longleftrightarrow> snd (unpack (cert_index cert)) = inst \<and>
     cert_nb_shares cert = of_nat ((n + 1) div 2 + 1) \<and> cert_signed cr ident cert"

lemma commit_backed_quorum:
  assumes "commit_backed e inst" "ec_sound e" "ec_config e = (cr, ident, recv)"
    and "crypto_ok cr recv" "length recv + 1 < 18446744073709551616"
  shows "\<exists>cert. quorum_certificate cr ident (length recv) inst cert"
proof -
  obtain cert cf where c: "snd (unpack (cert_index cert)) = inst" "cf_config cf = (cr, ident, recv)"
    "cf_sound cf" "certifier_check cf cert = Inr True"
    using assms(1-3) by (auto simp: commit_backed_def accepted_def)
  then have cfg: "cf_crypto cf = cr" "cf_identifier cf = ident" "cf_share_receivers cf = recv"
    by (simp_all add: cf_config_def)
  have "cert_signed cr ident cert"
    using check_signed [OF _ assms(4) c(4)] cf_soundD [OF c(3)] cfg by simp
  moreover have "cert_nb_shares cert = cf_quorum cf" using c(4) by (auto simp: certifier_check_def split: if_splits)
  ultimately show ?thesis
    using c(1) cf_quorum_eq [of cf] assms(5) cfg by (auto simp: quorum_certificate_def)
qed

theorem decision_backed:
  assumes "cn_inv e low c" "poll_decision c = Inr (Some (inst, batch, flag), c')"
  shows "inst = next_to_decide c \<and> inst = ec_next e \<and>
    (\<exists>d. tm_lookup (instance_states c) inst = Inr (Some d) \<and> instance_ok e inst d \<and>
       pm_data (is_prepare d) = batch \<and> \<not> is_decided d \<and>
       (bitset_elems (fast_committed d) = {..<ec_replicas e} \<or>
        ec_replicas e < 2 * card (bitset_elems (slow_committed d))))"
proof -
  obtain it p where p: "tm_deref (instance_states c) it = Inr p" "decidable (snd p)"
    "tm_find (instance_states c) (next_to_decide c) = Inr it" "inst = next_to_decide c"
    "batch = pm_data (is_prepare (snd p))" "it \<noteq> tm_end (instance_states c)"
    using assms(2) by (auto simp: poll_decision_def rbind_Inr_iff Let_def split: if_split_asm)
  have ok: "instance_ok e (fst p) (snd p)" using cn_inv_deref [OF assms(1) p(1)] .
  have "fst p = inst" using tm_find_key [OF p(3,1)] p(4) by simp
  moreover have "tm_lookup (instance_states c) inst = Inr (Some (snd p))"
    using p by (simp add: tm_lookup_def)
  ultimately show ?thesis
    using ok p decidable_iff [of "ec_replicas e" "snd p"] cn_inv_fields(12) [OF assms(1)]
    unfolding instance_ok_def by (intro conjI exI [of _ "snd p"]) auto
qed

section \<open>Prepares\<close>

text \<open>What a prepare must satisfy to be accepted, whoever sends it.\<close>

definition prepare_justified :: "nat \<Rightarrow> prepare_message \<Rightarrow> consensus \<Rightarrow> bool" where
  "prepare_justified i p c \<longleftrightarrow>
     (\<exists>s. get_state c i = Inr s \<and> leader c (pm_view p) = uat (cn_ids c) i \<and> at_view s = pm_view p \<and>
       next_prepare s \<le> pm_instance p \<and> range_contains (rs_checkpoint s) (pm_instance p) \<and>
       pessimistic_find (instance_states c) (pm_instance p) = Inr None \<and>
       (pm_view p \<noteq> 0 \<longrightarrow> check_valid_value p s = Inr False))"

lemma is_byzantine_prepare_justified:
  "is_byzantine_prepare i p c = Inr False \<Longrightarrow> prepare_justified i p c"
  unfolding is_byzantine_prepare_def prepare_justified_def
  by (auto simp: rbind_Inr_iff uat_Inr_iff tm_end_def not_less split: if_split_asm)

theorem handle_prepare_result:
  assumes "handle_prepare i p c = Inr c'"
  shows "prepare_justified i p c \<and> (c' = c \<or> accept_prepare i p c = Inr c' \<and>
    (\<exists>s cp. local_state c = Inr s \<and> pm_view p = at_view s \<and> certified_checkpoint c = Inr cp \<and>
       cp_low cp \<le> pm_instance p))"
  using assms
  by (auto simp: handle_prepare_def rbind_Inr_iff not_less is_byzantine_prepare_justified split: if_split_asm)

text \<open>
  A value that the new view fixed for an instance is the only one that its leader can prepare
  there.
\<close>

theorem new_view_value_kept:
  assumes "handle_prepare i p c = Inr c'" "pm_view p \<noteq> 0"
    and "get_state c i = Inr s" "rs_valid_values s = Some (v, vv)" "tm_lookup vv (pm_instance p) = Inr (Some value)"
  shows "pm_data p = value"
proof -
  have "check_valid_value p s = Inr False"
    using handle_prepare_result [OF assms(1)] assms(2,3) by (auto simp: prepare_justified_def)
  then show ?thesis
    using assms(4,5) by (auto simp: check_valid_value_def tm_lookup_def rbind_Inr_iff split: if_split_asm)
qed

text \<open>
  The test for a second prepare looks at the instances of our own view, whatever the view of
  the message: a late prepare of a correct leader counts as Byzantine, although it would be
  ignored if our view had not reached the instance yet.
\<close>

theorem late_prepare_rejected:
  assumes "get_state c i = Inr s" "at_view s = pm_view p" "leader c (pm_view p) = uat (cn_ids c) i"
    and "i < length (cn_ids c)" "local_state c = Inr ls" "pm_view p \<noteq> at_view ls"
    and "next_prepare s \<le> pm_instance p" "range_contains (rs_checkpoint s) (pm_instance p)" "pm_view p = 0"
    and "pessimistic_find (instance_states c) (pm_instance p) = Inr it"
  shows "handle_prepare i p c =
    (if it = None then Inr c else Inl (Logic_error ''Byzantine prepare received from {}.''))"
proof -
  have l: "leader c 0 = Inr (cn_ids c ! i)" using assms(3,4,9) by simp
  show ?thesis
    using assms l by (auto simp: handle_prepare_def is_byzantine_prepare_def tm_end_def not_less)
qed

section \<open>Commits\<close>

lemma tm_lookup_assign:
  assumes "tm_find m k = Inr it" "it \<noteq> tm_end m" "tm_deref m it = Inr p" "tm_assign m it v = Inr m'"
  shows "tm_lookup m' k = Inr (Some v)"
proof -
  let ?i = "tm_slot (tm_tail m) k"
  obtain n where n: "it = Some ?i" "?i < length (dyn_array m)" "dyn_array m ! ?i = Some n" "fst (fst n) = k" "tm_tail m \<noteq> 0"
    using assms(1,2) by (auto simp: tm_find_def rbind_Inr_iff uat_Inr_iff Let_def tm_end_def split: if_split_asm option.split_asm)
  then have "m' = m\<lparr>dyn_array := (dyn_array m)[?i := Some ((k, v), snd n)]\<rparr>"
    using assms(4) by (simp add: tm_assign_def tm_node_def)
  with n show ?thesis
    by (simp add: tm_lookup_def tm_find_def tm_deref_def tm_node_def tm_end_def Let_def)
qed

text \<open>
  A commit whose prepare is unknown waits; otherwise its sender is recorded for the instance,
  and a second commit of the sender is an error.
\<close>

theorem verified_commit_result:
  assumes "cn_inv e low c" "get_state c i = Inr s" "tm_lookup (instance_states c) (snd (unpack (cert_index cert))) = Inr x"
    and "i < length (buffered_commits c)"
  shows "case x of
      None \<Rightarrow> \<exists>c'. handle_verified_commit i cert c = Inr c' \<and> instance_states c' = instance_states c \<and>
        buffered_commits c' ! i = push_bounded (cn_window c) cert (buffered_commits c ! i)
    | Some d \<Rightarrow>
        if i \<in> bitset_elems (slow_committed d)
        then handle_verified_commit i cert c = Inl (Logic_error ''Should have been detected before.'')
        else \<exists>c' d'. handle_verified_commit i cert c = Inr c' \<and>
          tm_lookup (instance_states c') (snd (unpack (cert_index cert))) = Inr (Some d') \<and>
          bitset_elems (slow_committed d') = insert i (bitset_elems (slow_committed d)) \<and>
          fast_committed d' = fast_committed d \<and> is_prepare d' = is_prepare d"
proof -
  let ?inst = "snd (unpack (cert_index cert))"
  obtain it where it: "tm_find (instance_states c) ?inst = Inr it"
    using assms(3) by (auto simp: tm_lookup_def rbind_Inr_iff)
  show ?thesis
  proof (cases x)
    case None
    then have "it = tm_end (instance_states c)"
      using assms(3) it by (auto simp: tm_lookup_def rbind_Inr_iff split: if_split_asm)
    with None show ?thesis
      using assms(2,4) it by (simp add: handle_verified_commit_def Let_def)
  next
    case (Some d)
    obtain p where p: "tm_deref (instance_states c) it = Inr p" "d = snd p" "it \<noteq> tm_end (instance_states c)"
      using assms(3) it Some by (auto simp: tm_lookup_def rbind_Inr_iff split: if_split_asm)
    have "instance_inv (ec_replicas e) d" "i < ec_replicas e"
      using cn_inv_deref [OF assms(1) p(1)] cn_inv_state(2) [OF assms(1,2)] p(2) by (auto simp: instance_ok_def)
    from received_commit_result [OF this] obtain d' where d':
      "received_commit i d = Inr (d', i \<notin> bitset_elems (slow_committed d))"
      "bitset_elems (slow_committed d') = insert i (bitset_elems (slow_committed d))"
      "fast_committed d' = fast_committed d" "is_prepare d' = is_prepare d" by blast
    obtain m where m: "tm_assign (instance_states c) it d' = Inr m"
      using p(1) by (auto simp: tm_assign_def tm_deref_def rbind_Inr_iff)
    have "tm_lookup m ?inst = Inr (Some d')" using tm_lookup_assign [OF it p(3,1) m] .
    with Some d' p m show ?thesis
      using assms(2) it by (auto simp: handle_verified_commit_def Let_def)
  qed
qed

text \<open>The view of a commit plays no part: a commit of an old view counts for the current one.\<close>

theorem old_commit_counts:
  assumes "snd (unpack (cert_index cert)) = snd (unpack (cert_index old))"
    and "tm_lookup (instance_states c) (snd (unpack (cert_index cert))) = Inr (Some d)"
  shows "handle_verified_commit i old c = handle_verified_commit i cert c"
proof -
  obtain it where it: "tm_find (instance_states c) (snd (unpack (cert_index cert))) = Inr it"
    "it \<noteq> tm_end (instance_states c)"
    using assms(2) by (auto simp: tm_lookup_def rbind_Inr_iff split: if_split_asm)
  then show ?thesis using assms(1) by (simp add: handle_verified_commit_def Let_def)
qed

section \<open>The count of commits under verification\<close>

text \<open>
  When no commit is under verification, waiting for a count that is not zero never ends, whatever
  workers and network do.
\<close>

lemma no_commit_env_apply:
  assumes "\<forall>q \<in> set (commit_tasks c). q = []" "verified_commits c = []" "env_apply ev c = Inr c'"
  shows "(\<forall>q \<in> set (commit_tasks c'). q = []) \<and> verified_commits c' = [] \<and> replica_states c' = replica_states c"
proof (cases ev)
  case (Commit_checked r i)
  have "commit_tasks c ! r = []" if "r < length (commit_tasks c)"
    using assms(1) nth_mem [OF that] by blast
  then have "\<not> (r < length (commit_tasks c) \<and> i < length (commit_tasks c ! r))" by auto
  then have "run_commit_check r i c = Inr c" unfolding run_commit_check_def by (rule if_not_P)
  with assms Commit_checked show ?thesis by simp
next
  case (Certifier_event w x)
  have "always (\<lambda>d. commit_tasks d = commit_tasks c \<and> verified_commits d = verified_commits c \<and>
      replica_states d = replica_states c) (env_apply ev c)"
    unfolding Certifier_event by (cases w) (auto intro!: always_rbind)
  from alwaysD [OF this assms(3)] assms(1,2) show ?thesis by simp
next
  case (Cb_arrives r m)
  then show ?thesis using assms by (auto simp del: env_apply.simps simp: env_apply.simps(1))
next
  case (Fast_commit_arrives r bs)
  then show ?thesis using assms by (auto simp del: env_apply.simps simp: env_apply.simps(2))
qed

lemma no_commit_env_step:
  assumes "\<forall>q \<in> set (commit_tasks c). q = []" "verified_commits c = []" "env_step c = Inr c'"
  shows "(\<forall>q \<in> set (commit_tasks c'). q = []) \<and> verified_commits c' = [] \<and> replica_states c' = replica_states c"
proof (cases "cn_env c")
  case Nil
  with assms show ?thesis by (simp add: env_step_def)
next
  case (Cons es rest)
  let ?P = "\<lambda>d. (\<forall>q \<in> set (commit_tasks d). q = []) \<and> verified_commits d = [] \<and> replica_states d = replica_states c"
  have "rfold env_apply es (c\<lparr>cn_env := rest\<rparr>) = Inr c'" using assms(3) Cons by (simp add: env_step_def)
  then show ?thesis
  proof (rule rfold_invariant [where P = ?P])
    show "?P t" if "env_apply ev u = Inr t" "?P u" for ev u t
      using no_commit_env_apply [of u ev t] that by simp
  qed (use assms in simp)
qed

theorem wait_never_ends:
  assumes "\<forall>q \<in> set (commit_tasks c). q = []" "verified_commits c = []"
    and "get_state c i = Inr s" "outstanding s \<noteq> 0"
  shows "wait_for_verifications n i c \<noteq> Inr c'"
  using assms
proof (induction n arbitrary: c)
  case (Suc n)
  show ?case
  proof
    assume "wait_for_verifications (Suc n) i c = Inr c'"
    then obtain c1 where c1: "env_step c = Inr c1" "rbind (poll_verified_commits c1) (wait_for_verifications n i) = Inr c'"
      using Suc.prems(3,4) by (auto simp: rbind_Inr_iff)
    note keep = no_commit_env_step [OF Suc.prems(1,2) c1(1)]
    then have "poll_verified_commits c1 = Inr (c1\<lparr>verified_commits := []\<rparr>)" by (simp add: poll_verified_commits_def)
    moreover have "get_state (c1\<lparr>verified_commits := []\<rparr>) i = Inr s" using keep Suc.prems(3) by (simp add: get_state_def)
    ultimately show False using Suc.IH [of "c1\<lparr>verified_commits := []\<rparr>"] keep Suc.prems(4) c1(2) by simp
  qed
qed simp

text \<open>
  A commit that arrived before its prepare is counted as verified twice: when it is buffered
  and again when the prepare replays it. The count falls below zero, to \<open>2 ^ 64 - 1\<close>.
\<close>

theorem replay_counts_again:
  assumes "buffered_commits c ! i = cert # rest" "i < length (buffered_commits c)" "cert_index cert = useful"
    and "tm_lookup (instance_states c) (snd (unpack useful)) = Inr (Some d)"
    and "instance_inv (length (cn_ids c)) d" "i < length (cn_ids c)" "i \<notin> bitset_elems (slow_committed d)"
    and "get_state c i = Inr s" "outstanding s = 0"
  shows "\<exists>c' s'. replay_commit useful i c = Inr c' \<and> get_state c' i = Inr s' \<and>
    outstanding s' = 18446744073709551615 \<and> commit_tasks c' = commit_tasks c \<and>
    verified_commits c' = verified_commits c"
proof -
  let ?inst = "snd (unpack useful)"
  obtain it p where it: "tm_find (instance_states c) ?inst = Inr it" "it \<noteq> tm_end (instance_states c)"
    "tm_deref (instance_states c) it = Inr p" "d = snd p"
    using assms(4) by (auto simp: tm_lookup_def rbind_Inr_iff split: if_split_asm)
  from received_commit_result [OF assms(5,6)] assms(7) obtain d' where d':
    "received_commit i d = Inr (d', True)" by auto
  obtain m where m: "tm_assign (instance_states c) it d' = Inr m"
    using it(3) by (auto simp: tm_assign_def tm_deref_def rbind_Inr_iff)
  let ?s = "s\<lparr>outstanding := outstanding s - 1\<rparr>"
  let ?c1 = "c\<lparr>buffered_commits := (buffered_commits c)[i := cert # rest]\<rparr>"
  have i: "i < length (replica_states c)" using assms(8) by (simp add: get_state_def uat_Inr_iff)
  have "get_state ?c1 i = Inr s" using assms(8) by (simp add: get_state_def)
  then have "handle_verified_commit i cert ?c1 = Inr (put_state i ?s ?c1\<lparr>instance_states := m\<rparr>)"
    using it d' m by (simp add: handle_verified_commit_def Let_def assms(3) put_state_def)
  then have "replay_commit useful i c = Inr (put_state i ?s ?c1\<lparr>instance_states := m,
      buffered_commits := (buffered_commits ?c1)[i := rest]\<rparr>)"
    using assms(1-3) by (simp add: replay_commit_def put_state_def)
  then show ?thesis
    using assms(9) i by (simp add: put_state_def get_state_def)
qed

section \<open>The fast path\<close>

text \<open>The view of a fast commit plays no part either.\<close>

theorem fast_commit_view_ignored:
  assumes "uat (fast_inbox c) i = Inr ((le64 v @ le64 inst) # rest)" "uat (fast_inbox d) i = Inr ((le64 w @ le64 inst) # rest)"
    and "d = c\<lparr>fast_inbox := (fast_inbox c)[i := (le64 w @ le64 inst) # rest]\<rparr>"
  shows "poll_fast_commit i d = poll_fast_commit i c"
proof -
  have rd: "rd64 (le64 u @ le64 inst) 8 = Inr inst" for u
    using rd64_le64(2) [of "le64 u" 8 inst "[]"] by simp
  have len: "length (le64 u @ le64 inst) = FastCommitSize" for u by (simp add: FastCommitSize_def)
  have same: "d\<lparr>fast_inbox := (fast_inbox d)[i := rest]\<rparr> = c\<lparr>fast_inbox := (fast_inbox c)[i := rest]\<rparr>"
    using assms(3) by simp
  show ?thesis
    unfolding poll_fast_commit_def assms(1,2) rbind_simps list.case Let_def len rd same ..
qed

section \<open>Checkpoints\<close>

text \<open>
  A checkpoint certificate of another replica is adopted only if the checkpoint certifier
  accepts it; one that merely repeats our own checkpoint is taken on trust and never adopted.
\<close>

theorem checkpoint_adopted_checked:
  assumes "handle_checkpoint i bs c = Inr c'" "i \<noteq> local_index c"
    and "checkpoint_certificate c' \<noteq> checkpoint_certificate c"
  shows "certifier_check (checkpoint_certifier c) (checkpoint_certificate c') = Inr True \<and>
    (\<exists>a b. certified_checkpoint c = Inr a \<and> certified_checkpoint c' = Inr b \<and> cp_low a < cp_low b)"
proof -
  obtain cert raw s a where h: "rd_checkpoint (cert_message cert) 0 = Inr raw"
    "checkpoint_acceptable i cert raw c = Inr True" "certified_checkpoint c = Inr a"
    "handle_checkpoint_certificate cert (put_state i (prune_commits (cp_low raw) (s\<lparr>rs_checkpoint := raw\<rparr>)) c) = Inr c'"
    using assms(1)
    by (auto simp: handle_checkpoint_def checkpoint_acceptable_def rbind_Inr_iff case_sum_Inr_iff if_Inl_Inr_iff)
  let ?c = "put_state i (prune_commits (cp_low raw) (s\<lparr>rs_checkpoint := raw\<rparr>)) c"
  note run = h(4) [unfolded handle_checkpoint_certificate_def h(1) put_state_fields h(3) rbind_simps]
  have same: "checkpoint_certificate ?c = checkpoint_certificate c" by (simp add: put_state_def)
  have adopted: "\<not> checkpoint_le raw a" "c' = put_state i (prune_commits (cp_low raw) (s\<lparr>rs_checkpoint := raw\<rparr>)) c
      \<lparr>checkpoint_certificate := cert\<rparr>"
    using run assms(3) same by (auto split: if_split_asm)
  then have "a \<noteq> raw" by (auto simp: checkpoint_le_def)
  then have "certifier_check (checkpoint_certifier c) cert = Inr True"
    using h(2,3) assms(2) by (simp add: checkpoint_acceptable_def)
  moreover have "certified_checkpoint c' = Inr raw" using adopted(2) h(1) by (simp add: certified_checkpoint_def)
  ultimately show ?thesis using adopted h(3) by (simp add: checkpoint_le_def not_le)
qed

lemma handle_checkpoint_certificate_states:
  "always (\<lambda>d. replica_states d = replica_states c) (handle_checkpoint_certificate cert c)"
  unfolding handle_checkpoint_certificate_def by (intro always_rbind always_if) simp_all

text \<open>The state of the sender moves to the checkpoint, and its commits below are forgotten.\<close>

theorem checkpoint_prunes:
  assumes "handle_checkpoint i bs c = Inr c'" "get_state c i = Inr s" "replica_inv s"
  shows "\<exists>s' cert. try_into_certificate bs (Some (of_nat CheckpointSize, cn_quorum c)) = Inr (Inr cert) \<and>
    cp_low (rs_checkpoint s) < cert_index cert \<and>
    get_state c' i = Inr s' \<and> rd_checkpoint (cert_message cert) 0 = Inr (rs_checkpoint s') \<and>
    (\<forall>k. map_of (commits s') k = (if k < cp_low (rs_checkpoint s') then None else map_of (commits s) k))"
proof -
  obtain cert raw where h: "try_into_certificate bs (Some (of_nat CheckpointSize, cn_quorum c)) = Inr (Inr cert)"
    "rd_checkpoint (cert_message cert) 0 = Inr raw" "\<not> cert_index cert \<le> cp_low (rs_checkpoint s)"
    "handle_checkpoint_certificate cert (put_state i (prune_commits (cp_low raw) (s\<lparr>rs_checkpoint := raw\<rparr>)) c) = Inr c'"
    using assms(1,2)
    by (auto simp: handle_checkpoint_def is_byzantine_checkpoint_def rbind_Inr_iff case_sum_Inr_iff if_Inl_Inr_iff)
  let ?s = "prune_commits (cp_low raw) (s\<lparr>rs_checkpoint := raw\<rparr>)"
  have "replica_states c' = replica_states (put_state i ?s c)"
    using h(4) by (rule alwaysD [OF handle_checkpoint_certificate_states])
  moreover have "i < length (replica_states c)" using assms(2) by (simp add: get_state_def uat_Inr_iff)
  ultimately have "get_state c' i = Inr ?s" by (simp add: get_state_def put_state_def)
  moreover have "rs_checkpoint ?s = raw" by (simp add: prune_commits_def)
  moreover have "map_of (commits ?s) k = (if k < cp_low raw then None else map_of (commits s) k)" for k
    using prune_commits_low [of "s\<lparr>rs_checkpoint := raw\<rparr>" "cp_low raw" k] assms(3) by simp
  ultimately show ?thesis using h(1-3) by (intro exI [of _ ?s] exI [of _ cert]) simp
qed

section \<open>Flow control of the broadcast\<close>

theorem slack_before_broadcast:
  assumes "wait_for_cb_slack h n c = Inr c'"
  shows "broadcast_next c' \<le> can_cb_until c'"
  using assms
proof (induction n arbitrary: c)
  case (Suc n)
  then show ?case by (auto simp: rbind_Inr_iff split: if_split_asm)
qed simp

section \<open>View changes\<close>

text \<open>
  The new leader's certificates are checked one by one. Nothing asks for distinct replicas, for
  the view they seal, or for the sender to be the leader: one good certificate, repeated, is a
  quorum.
\<close>

theorem repeated_certificate_accepted:
  assumes "\<And>j. j \<in> set is \<Longrightarrow> nv_clone_certificate (cn_window c) (max_proposal_size c) (cn_quorum c) bs j = Inr (p, raw)"
    and "cert_try_from raw = Inr (Inr checked)" "cert_parse checked = Inr cert"
    and "map_of (cn_indices c) p = Some k" "k < length (vc_state_certifiers c)"
    and "certifier_check (vc_state_certifiers c ! k) cert = Inr True"
  shows "is_byzantine_new_view is bs c = Inr (False, c)"
  using assms(1)
proof (induction "is")
  case (Cons j "is")
  then show ?case using assms(2-) by (simp add: index_of_proc_def learn_proc_def)
qed simp

text \<open>
  Sealing a view serialises the commits, asks for shares of the result and moves the replica
  to the next view.
\<close>

theorem seal_view_result:
  assumes "get_state c i = Inr s" "outstanding s = 0" "0 < n" "handle_seal_view n i c = Inr c'"
  shows "\<exists>s' cf cf'. get_state c' i = Inr s' \<and> at_view s' = at_view s + 1 \<and> commits s' = commits s \<and>
    serialized_state s' = Some (ss_bytes (cn_junk c) (at_view s) (commits s)) \<and>
    uat (vc_state_certifiers c) i = Inr cf \<and>
    rbind (forget_messages (Some (at_view s)) cf) (acknowledge (at_view s) (ss_bytes (cn_junk c) (at_view s) (commits s)) False)
      = Inr cf' \<and>
    vc_state_certifiers c' = (vc_state_certifiers c)[i := cf']"
proof -
  have i: "i < length (replica_states c)" using assms(1) by (simp add: get_state_def uat_Inr_iff)
  obtain m where n: "n = Suc m" using assms(3) by (cases n) auto
  have "wait_for_verifications n i c = Inr c" using assms(1,2) by (simp add: n)
  then obtain cf cf1 cf2 l where run: "uat (vc_state_certifiers c) i = Inr cf"
    "forget_messages (Some (at_view s)) cf = Inr cf1"
    "acknowledge (at_view s) (ss_bytes (cn_junk c) (at_view s) (commits s)) False cf1 = Inr cf2"
    "c' = (let c2 = put_state i (s\<lparr>serialized_state := Some (ss_bytes (cn_junk c) (at_view s) (commits s))\<rparr>
                \<lparr>at_view := at_view s + 1\<rparr>) c\<lparr>vc_state_certifiers := (vc_state_certifiers c)[i := cf2]\<rparr>
           in if cn_local_id c2 = l \<and>
                (case ongoing_view_change c2 of None \<Rightarrow> True | Some vc \<Rightarrow> vc_view vc < at_view s)
              then c2\<lparr>ongoing_view_change := Some \<lparr>vc_view = at_view s, vc_certificates = []\<rparr>\<rparr> else c2)"
    using assms(1,4) by (auto simp: handle_seal_view_def serialize_state_def rbind_Inr_iff Let_def)
  let ?s = "s\<lparr>serialized_state := Some (ss_bytes (cn_junk c) (at_view s) (commits s))\<rparr>\<lparr>at_view := at_view s + 1\<rparr>"
  have "get_state c' i = Inr ?s" "vc_state_certifiers c' = (vc_state_certifiers c)[i := cf2]"
    using run(4) i by (simp_all add: Let_def put_state_def get_state_def)
  then show ?thesis using run(1-3) by (intro exI [of _ ?s] exI [of _ cf] exI [of _ cf2]) simp
qed

section \<open>Proposing\<close>

theorem get_slots_numbered:
  assumes "rfold get_slot bss c = Inr c'"
  shows "\<exists>pms. to_propose c' = to_propose c @ pms \<and> map pm_data pms = bss \<and>
    map pm_instance pms = map (\<lambda>k. next_proposal c + of_nat k) [0 ..< length bss] \<and>
    next_proposal c' = next_proposal c + of_nat (length bss)"
  using assms
proof (induction bss arbitrary: c)
  case (Cons bs bss)
  obtain c1 where c1: "get_slot bs c = Inr c1" "rfold get_slot bss c1 = Inr c'"
    using Cons.prems by (auto simp: rbind_Inr_iff)
  obtain v where "to_propose c1 = to_propose c @ [\<lparr>pm_view = v, pm_instance = next_proposal c, pm_data = bs\<rparr>]"
    "next_proposal c1 = next_proposal c + 1"
    using c1(1) by (auto simp: get_slot_def rbind_Inr_iff split: if_split_asm)
  with Cons.IH [OF c1(2)] obtain pms where pms:
    "to_propose c' = to_propose c @ \<lparr>pm_view = v, pm_instance = next_proposal c, pm_data = bs\<rparr> # pms"
    "map pm_data pms = bss" "map pm_instance pms = map (\<lambda>k. next_proposal c + 1 + of_nat k) [0 ..< length bss]"
    "next_proposal c' = next_proposal c + 1 + of_nat (length bss)" by auto
  have "map (\<lambda>k. next_proposal c + of_nat k) [0 ..< length (bs # bss)] =
      next_proposal c # map (\<lambda>k. next_proposal c + 1 + of_nat k) [0 ..< length bss]"
    by (simp add: upt_conv_Cons map_Suc_upt [symmetric] add.assoc comp_def del: upt_Suc)
  with pms show ?case
    by (intro exI [of _ "\<lparr>pm_view = v, pm_instance = next_proposal c, pm_data = bs\<rparr> # pms"]) (simp add: add.assoc)
qed simp

section \<open>Progress\<close>

lemma poll_decision_progress:
  assumes "tm_rep (instance_states c) es" "map_of es (next_to_decide c) = Some d" "decidable d"
    and "cn_window c div 2 \<noteq> 0" "log_decided (pm_data (is_prepare d)) (cn_request_log c) = Inr l"
  shows "\<exists>c' flag. poll_decision c = Inr (Some (next_to_decide c, pm_data (is_prepare d), flag), c') \<and>
    next_to_decide c' = next_to_decide c + 1"
proof -
  have core: "tm_core (instance_states c) es" using assms(1) by (rule tm_rep_core)
  have "es \<noteq> []" using assms(2) by auto
  then have ne: "\<not> tm_empty (instance_states c)" using tm_core_empty [OF core] by simp
  have e: "(next_to_decide c, d) \<in> set es" using assms(2) by (rule map_of_SomeD)
  then have "next_to_decide c \<in> fst ` set es" by force
  with tm_core_find [OF core] have
    "tm_find (instance_states c) (next_to_decide c) = Inr (Some (tm_slot (tm_tail (instance_states c)) (next_to_decide c)))"
    by simp
  moreover obtain nxt where "dyn_array (instance_states c) ! tm_slot (tm_tail (instance_states c)) (next_to_decide c) =
      Some ((next_to_decide c, d), nxt)"
    "tm_slot (tm_tail (instance_states c)) (next_to_decide c) < length (dyn_array (instance_states c))"
    using tm_core_node [OF core e] by auto
  ultimately show ?thesis
    using assms(3-5) ne
    by (simp add: poll_decision_def tm_end_def tm_deref_def tm_assign_def tm_node_def Let_def)
qed

end
