(* ===== verification/Toy_Engine.thy ===== *)
theory Toy_Engine
  imports Toy_Instances Engine_Properties
begin

text \<open>
  A small engine for the witnesses: replica 1 of the three replicas 1, 2 and 3, which leads view 0,
  with a window of four instances and a broadcast tail of eight; replica 3 of the same system, which
  follows; and certificates that carry the signatures of replicas 1 and 2.
\<close>

section \<open>Engines\<close>

definition toy_cf :: "proc_id \<Rightarrow> proc_id list \<Rightarrow> u64 \<Rightarrow> certifier" where
  "toy_cf me recv ident = certifier_new (toy_crypto me) 8 256 ident recv recv"

definition toy_node :: "proc_id \<Rightarrow> proc_id list \<Rightarrow> consensus" where
  "toy_node me recv = consensus_new 8 recv (toy_cf me recv 9) (map (toy_cf me recv) [10, 11, 12])
     (toy_cf me recv 13) (map (toy_cf me recv) [14, 15, 16]) me 4 8 1 4 (\<lambda>_ _. 0)"

abbreviation toy_engine :: consensus where
  "toy_engine \<equiv> toy_node 1 [2, 3]"

abbreviation toy_follower :: consensus where
  "toy_follower \<equiv> toy_node 3 [1, 2]"

definition toy_state :: replica_state where
  "toy_state = replica_new 4 (batch_buffer_size 1 8)"

lemma toy_engine_inv: "cn_inv (engine_new toy_engine) 0 toy_engine"
  by (rule consensus_new_inv [OF _ _ toy_node_def]) simp_all

lemma toy_node_fields [simp]:
  "cn_ids (toy_node me recv) = recv @ [me]" "sorted_ids (toy_node me recv) = sort (recv @ [me])"
  "local_index (toy_node me recv) = length recv" "cn_local_id (toy_node me recv) = me"
  "cn_window (toy_node me recv) = 4" "next_to_decide (toy_node me recv) = 0"
  "instance_states (toy_node me recv) = tm_new 4"
  "replica_states (toy_node me recv) = replicate (Suc (length recv)) toy_state"
  "buffered_commits (toy_node me recv) = replicate (Suc (length recv)) []"
  "fast_inbox (toy_node me recv) = replicate (length recv) []"
  "cb_inbox (toy_node me recv) = replicate (length recv) []" "verified_commits (toy_node me recv) = []"
  "commit_tasks (toy_node me recv) = replicate (length recv) []"
  "ongoing_view_change (toy_node me recv) = None" "to_propose (toy_node me recv) = []"
  "next_proposal (toy_node me recv) = 0"
  "vc_state_certifiers (toy_node me recv) = map (slow_only \<circ> toy_cf me recv) [10, 11, 12]"
  "checkpoint_certifier (toy_node me recv) = slow_only (toy_cf me recv 13)"
  "prepare_certifier (toy_node me recv) = toy_cf me recv 9" "cn_request_log (toy_node me recv) = log_new 4 8"
  "cn_indices (toy_node me recv) = zip (recv @ [me]) [0 ..< Suc (length recv)]"
  "cn_junk (toy_node me recv) = (\<lambda>_ _. 0)" "broadcast_next (toy_node me recv) = 0"
  "can_cb_until (toy_node me recv) = 7" "max_proposal_size (toy_node me recv) = batch_buffer_size 1 8"
  "cn_quorum (toy_node me recv) = (of_nat (length recv) + 1) div 2 + 1"
  "cert_message (checkpoint_certificate (toy_node me recv)) = checkpoint_bytes (checkpoint_new 0 4 zero_digest)"
  by (simp_all add: toy_node_def consensus_new_def Let_def toy_state_def)

lemma toy_state_fields [simp]:
  "at_view toy_state = 0" "next_prepare toy_state = 0" "outstanding toy_state = 0" "commits toy_state = []"
  "rs_valid_values toy_state = None" "rs_checkpoint toy_state = checkpoint_new 0 4 zero_digest"
  by (simp_all add: toy_state_def replica_new_def)

section \<open>An instance\<close>

text \<open>An instance every replica has committed on the fast path, and a map that holds it.\<close>

definition toy_prepare :: "u64 \<Rightarrow> prepare_message" where
  "toy_prepare i = \<lparr>pm_view = 0, pm_instance = i, pm_data = []\<rparr>"

definition toy_bits :: "bool list \<Rightarrow> dynamic_bitset" where
  "toy_bits bs = \<lparr>bits = bs @ replicate 5 False, bcapacity = 3, bsize = of_nat (length (filter id bs))\<rparr>"

definition toy_data :: "bool list \<Rightarrow> bool list \<Rightarrow> instance_state" where
  "toy_data fast slow = \<lparr>is_prepare = toy_prepare 0, fast_committed = toy_bits fast, slow_committed = toy_bits slow,
     is_decided = False, certified_prepare = True\<rparr>"

definition toy_map :: "instance_state \<Rightarrow> instance_state tail_map" where
  "toy_map d = (case tm_try_emplace (tm_new 4) 0 d of Inr (m, _) \<Rightarrow> m | Inl _ \<Rightarrow> tm_new 4)"

lemma toy_map_value: "toy_map d =
  \<lparr>tm_tail = 4, dyn_array = [Some ((0, d), None), None, None, None], tm_head = Some 0, tm_back = Some 0, tm_min = 0\<rparr>"
  unfolding toy_map_def by code_simp

definition toy_with :: "instance_state \<Rightarrow> consensus" where
  "toy_with d = toy_engine\<lparr>instance_states := toy_map d\<rparr>"

lemma toy_bits_elems:
  "bitset_elems (toy_bits [a, b, c]) = (if a then {0} else {}) \<union> (if b then {1} else {}) \<union> (if c then {2} else {})"
  by (auto simp: bitset_elems_def toy_bits_def numeral_eq_Suc less_Suc_eq nth_Cons' split: if_splits)

lemma toy_bits_inv: "bitset_inv (toy_bits [a, b, c])"
  unfolding bitset_inv_def toy_bits_elems by (simp add: toy_bits_def MaxCapacity_def)

lemma toy_data_inv: "instance_inv 3 (toy_data [a, b, c] [d, e, f])"
  by (simp add: instance_inv_def toy_data_def toy_bits_inv toy_bits_elems) (simp add: toy_bits_def)

lemma toy_data_fields [simp]:
  "is_prepare (toy_data fast slow) = toy_prepare 0" "fast_committed (toy_data fast slow) = toy_bits fast"
  "slow_committed (toy_data fast slow) = toy_bits slow" "\<not> is_decided (toy_data fast slow)"
  "pm_instance (toy_prepare i) = i" "pm_view (toy_prepare i) = 0" "pm_data (toy_prepare i) = []"
  by (simp_all add: toy_data_def toy_prepare_def)

lemma toy_map_ops [simp]:
  "tm_find (toy_map d) 0 = Inr (Some 0)" "tm_end (toy_map d) = None" "\<not> tm_empty (toy_map d)"
  "tm_deref (toy_map d) (Some 0) = Inr (0, d)" "tm_assign (toy_map d) (Some 0) d' = Inr (toy_map d')"
  by (simp_all add: toy_map_value tm_empty_def tm_end_def tm_deref_def tm_node_def tm_assign_def tm_find_def tm_slot_def
    tm_begin_def Let_def)

lemma toy_decision:
  "poll_decision (toy_with (toy_data [True, True, True] [a, b, c])) = Inr (Some (0, [], False),
     toy_engine\<lparr>instance_states := toy_map (toy_data [True, True, True] [a, b, c]\<lparr>is_decided := True\<rparr>),
       next_to_decide := 1\<rparr>)"
  by (simp add: poll_decision_def toy_with_def decidable_def bitset_full_def toy_bits_def log_decided_def batch_loop_def)

section \<open>Certificates\<close>

definition toy_cert :: "u64 \<Rightarrow> u64 \<Rightarrow> bytes \<Rightarrow> certificate" where
  "toy_cert ident i m = \<lparr>cert_identifier = ident, cert_index = i,
     cert_shares = map (\<lambda>p. (p, toy_sign p (le64 ident @ le64 i @ m))) [1, 2], cert_message = m\<rparr>"

lemma toy_cert_fields [simp]: "cert_index (toy_cert ident i m) = i" "cert_message (toy_cert ident i m) = m"
  by (simp_all add: toy_cert_def)

lemma toy_cert_valid: "cert_valid (toy_crypto p) ident 2 (toy_cert ident i m)"
  by (simp add: cert_valid_def toy_cert_def toy_crypto_def cert_digest_def)

lemma toy_cert_ok: "length m < 1000 \<Longrightarrow> cert_ok (toy_cert ident i m)"
  by (simp add: cert_ok_def toy_cert_def toy_sign_def proc_ok_def SignatureLength_def CertHeader_def ShareSize_def)

lemma toy_cf_inv: "cf_inv (toy_crypto me) ident recv H (toy_cf me recv ident)"
  unfolding toy_cf_def by (rule certifier_new_inv) simp

lemma toy_engine_sound: "ec_sound (engine_new toy_engine)"
  by (simp add: engine_new_def cf_soundI [OF toy_cf_inv])

lemma toy_engine_config: "ec_config (engine_new toy_engine) = (toy_crypto 1, 9, [2, 3])"
  by (simp add: engine_new_def cf_config_def toy_cf_def certifier_new_def Let_def)

lemma toy_engine_shape: "ec_replicas (engine_new toy_engine) = 3" "ec_local (engine_new toy_engine) = 2"
  by (simp_all add: engine_new_def)

lemma toy_with_lookup: "tm_lookup (instance_states (toy_with d)) 0 = Inr (Some d)"
  by (simp add: toy_with_def toy_map_value tm_lookup_def tm_find_def tm_slot_def tm_end_def tm_deref_def tm_node_def Let_def)

lemma toy_engine_crypto: "crypto_ok (toy_crypto 1) [2, 3]"
  by (simp add: crypto_ok_def toy_crypto_def)

lemma toy_commit_backed: "commit_backed (engine_new toy_engine) 0"
proof -
  have "certifier_check (toy_cf 1 [2, 3] 9) (toy_cert 9 (pack 0 0) []) = Inr True"
  proof (rule check_complete [OF toy_cf_inv])
    have two: "length [2, 3 :: proc_id] = 2" by simp
    show "cert_valid (toy_crypto 1) 9 (length [2, 3 :: proc_id]) (toy_cert 9 (pack 0 0) [])"
      unfolding two by (rule toy_cert_valid)
  qed simp
  moreover have "cf_config (toy_cf 1 [2, 3] 9) = ec_config (engine_new toy_engine)"
    unfolding toy_engine_config by (simp add: cf_config_def toy_cf_def certifier_new_def Let_def)
  ultimately have "accepted (engine_new toy_engine) (toy_cert 9 (pack 0 0) [])"
    using cf_soundI [OF toy_cf_inv] unfolding accepted_def by blast
  moreover have "snd (unpack (cert_index (toy_cert 9 (pack 0 0) []))) = 0" by (simp add: pack_def unpack_def)
  ultimately show ?thesis unfolding commit_backed_def by blast
qed

lemma toy_with_inv: "cn_inv (engine_new toy_engine) 0 (toy_with (toy_data [a, b, c] [d, e, f]))"
proof -
  have "instance_ok (engine_new toy_engine) 0 (toy_data [a, b, c] [d, e, f])"
    using toy_data_inv [of a b c d e f] toy_commit_backed
    by (simp add: instance_ok_def) (simp add: engine_new_def eval_nat_numeral)
  then have "tm_all (instance_ok (engine_new toy_engine)) (toy_map (toy_data [a, b, c] [d, e, f]))"
    by (simp add: toy_map_value tm_all_def)
  with toy_engine_inv show ?thesis unfolding toy_with_def by (rule cn_inv_instances)
qed

definition toy_after_poll :: "instance_state \<Rightarrow> consensus" where
  "toy_after_poll d = toy_engine\<lparr>instance_states := toy_map (d\<lparr>is_decided := True\<rparr>), next_to_decide := 1\<rparr>"

lemma toy_slow_decision:
  "poll_decision (toy_with (toy_data [a, b, c] [True, False, True])) =
     Inr (Some (0, [], False), toy_after_poll (toy_data [a, b, c] [True, False, True]))"
  by (simp add: poll_decision_def toy_with_def toy_after_poll_def decidable_def bitset_majority_def toy_bits_def
    log_decided_def batch_loop_def)

lemma toy_slow_reach: "cf_reach (toy_crypto me) ident recv Map.empty (slow_only (toy_cf me recv ident))"
proof -
  have "cf_reach (toy_crypto me) ident recv Map.empty (toy_cf me recv ident)"
    unfolding toy_cf_def by (rule cf_reach.init) simp
  from cf_reach.step [OF this, of "Fast_path False" "toggle_fast_path False (toy_cf me recv ident)"]
  have "cf_reach (toy_crypto me) ident recv Map.empty (toggle_fast_path False (toy_cf me recv ident))" by simp
  from cf_reach.step [OF this, of "Slow_path True" "slow_only (toy_cf me recv ident)"] show ?thesis
    by (simp add: slow_only_def)
qed

lemma toy_cert_checked: "certifier_check (slow_only (toy_cf 1 [2, 3] ident)) (toy_cert ident i m) = Inr True"
  using check_complete [OF cf_reach_inv [OF toy_slow_reach] ] toy_cert_valid
  by (simp add: numeral_2_eq_2)

section \<open>A certified checkpoint\<close>

definition toy_checkpoint :: checkpoint where
  "toy_checkpoint = checkpoint_new 2 4 zero_digest"

definition toy_checkpoint_cert :: certificate where
  "toy_checkpoint_cert = toy_cert 13 2 (checkpoint_bytes toy_checkpoint)"

lemma toy_checkpoint_size: "length (checkpoint_bytes toy_checkpoint) = 48"
  using length_checkpoint_bytes [of toy_checkpoint]
  by (simp add: toy_checkpoint_def checkpoint_new_def zero_digest_def CheckpointSize_def DigestLength_def)

lemma toy_checkpoint_ok: "cert_ok toy_checkpoint_cert"
  unfolding toy_checkpoint_cert_def by (rule toy_cert_ok) (simp add: toy_checkpoint_size)

lemma toy_checkpoint_parsed:
  "try_into_certificate (CheckpointKind # cert_bytes toy_checkpoint_cert) (Some (of_nat CheckpointSize, 2)) =
     Inr (Inr toy_checkpoint_cert)"
proof -
  have "length (cert_bytes toy_checkpoint_cert) = 208"
    using length_cert_bytes [OF toy_checkpoint_ok] toy_checkpoint_size
    by (simp add: toy_checkpoint_cert_def toy_cert_def CertHeader_def ShareSize_def SignatureLength_def)
  then show ?thesis
    by (simp add: try_into_certificate_def cert_try_from_bytes [OF toy_checkpoint_ok]
      cert_parse_bytes [OF toy_checkpoint_ok] cert_buffer_size_def CertHeader_def ShareSize_def SignatureLength_def CheckpointSize_def
      DigestLength_def)
qed

lemma toy_rd_checkpoint:
  "rd_checkpoint (checkpoint_bytes (checkpoint_new i 4 zero_digest)) 0 = Inr (checkpoint_new i 4 zero_digest)"
  using rd_checkpoint_bytes [of "checkpoint_new i 4 zero_digest" "[]" 0 "[]"]
  by (simp add: checkpoint_new_def zero_digest_def)

lemma checkpoint_new_fields [simp]:
  "cp_low (checkpoint_new i w d) = i" "cp_high (checkpoint_new i w d) = i + w" "cp_digest (checkpoint_new i w d) = d"
  by (simp_all add: checkpoint_new_def)

lemma toy_certified: "certified_checkpoint toy_engine = Inr (checkpoint_new 0 4 zero_digest)"
  by (simp add: certified_checkpoint_def toy_rd_checkpoint)

lemma toy_checkpoint_handled:
  "\<exists>c'. handle_checkpoint 0 (CheckpointKind # cert_bytes toy_checkpoint_cert) toy_engine = Inr c' \<and>
     checkpoint_certificate c' = toy_checkpoint_cert"
proof -
  let ?s = "prune_commits 2 (toy_state\<lparr>rs_checkpoint := toy_checkpoint\<rparr>)"
  have "certified_checkpoint (put_state 0 ?s toy_engine) = certified_checkpoint toy_engine"
    by (simp add: put_state_def certified_checkpoint_def)
  moreover have "checkpoint_acceptable 0 toy_checkpoint_cert toy_checkpoint toy_engine = Inr True"
    using toy_cert_checked by (simp add: checkpoint_acceptable_def toy_certified toy_checkpoint_cert_def)
  moreover have "is_byzantine_checkpoint 0 toy_checkpoint_cert toy_engine = Inr False"
    by (simp add: is_byzantine_checkpoint_def get_state_def toy_checkpoint_cert_def)
  moreover have "rd_checkpoint (cert_message toy_checkpoint_cert) 0 = Inr toy_checkpoint"
    by (simp add: toy_checkpoint_cert_def toy_checkpoint_def toy_rd_checkpoint)
  ultimately show ?thesis using toy_checkpoint_parsed
    by (simp add: handle_checkpoint_def handle_checkpoint_certificate_def toy_certified get_state_def checkpoint_le_def)
       (simp add: toy_checkpoint_def)
qed

section \<open>Operations on them\<close>

lemma case_sum_returns: "(case r of Inl e \<Rightarrow> False | Inr a \<Rightarrow> True) \<Longrightarrow> \<exists>a. r = Inr a"
  by (cases r) simp_all

lemma toy_prepare_handled: "\<exists>c'. handle_prepare 2 (toy_prepare 0) toy_engine = Inr c'"
  by (rule case_sum_returns) code_simp

lemma toy_sealed: "\<exists>c'. handle_seal_view 1 0 toy_engine = Inr c'"
proof -
  let ?cf = "slow_only (toy_cf 1 [2, 3] 10)"
  have "\<exists>cf. rbind (forget_messages (Some 0) ?cf) (acknowledge 0 (ss_bytes (\<lambda>_ _. 0) 0 []) False) = Inr cf"
    by (rule case_sum_returns) code_simp
  then show ?thesis
    by (auto simp: handle_seal_view_def get_state_def serialize_state_def leader_def put_state_def rbind_Inr_iff Let_def)
qed

text \<open>A new-view message for view 1 that carries the certified state of replica 2 twice.\<close>

definition toy_commit :: broadcast_commit where
  "toy_commit = \<lparr>bc_view = 0, bc_instance = 0, bc_proposal = [7]\<rparr>"

definition toy_view_state :: bytes where
  "toy_view_state = ss_bytes (\<lambda>_ _. 0) 0 [(0, toy_commit)]"

definition toy_view_certs :: "(proc_id \<times> certificate) list" where
  "toy_view_certs = [(2, toy_cert 10 0 toy_view_state), (2, toy_cert 10 0 toy_view_state)]"

lemma toy_view_state_length: "length toy_view_state = 49"
  by (simp add: toy_view_state_def ss_bytes_def toy_commit_def bc_bytes_def max_length_def)

lemma toy_view_cert_ok: "cert_ok (toy_cert 10 0 toy_view_state)"
  by (rule toy_cert_ok) (simp add: toy_view_state_length)

lemma toy_view_room: "cert_buffer_size (ss_buffer_size 4 (batch_buffer_size 1 8)) 2 = 408"
  by (simp add: cert_buffer_size_def ss_buffer_size_def bc_size_def
      batch_buffer_size_def request_buffer_size_def CertHeader_def ShareSize_def SignatureLength_def
      CommitHeader_def RequestHeader_def)

lemma toy_new_view:
  "\<exists>bs. build_new_view (replicate 7 0) (replicate 4 0) (\<lambda>_ _. 0) 4 (batch_buffer_size 1 8) 2 0 toy_view_certs = Inr bs"
proof -
  have "length (cert_bytes (toy_cert 10 0 toy_view_state)) \<le> 408"
    unfolding length_cert_bytes [OF toy_view_cert_ok]
    by (simp add: toy_cert_def toy_view_state_length CertHeader_def ShareSize_def SignatureLength_def)
  then show ?thesis by (simp add: build_new_view_def toy_view_certs_def Let_def toy_view_room)
qed

lemma toy_new_view_certificates:
  assumes "build_new_view (replicate 7 0) (replicate 4 0) (\<lambda>_ _. 0) 4 (batch_buffer_size 1 8) 2 0 toy_view_certs = Inr bs"
    and "j < 2"
  shows "nv_clone_certificate 4 (batch_buffer_size 1 8) 2 bs j = Inr (2, cert_bytes (toy_cert 10 0 toy_view_state))"
proof -
  have "toy_view_certs ! j = (2, toy_cert 10 0 toy_view_state)" "length toy_view_certs = 2"
    using assms(2) by (auto simp: toy_view_certs_def less_2_cases_iff)
  with new_view_clone [OF assms(1), of j] assms(2) show ?thesis
    by (simp add: toy_view_room proc_ok_def)
qed

lemma toy_new_view_states:
  assumes "build_new_view (replicate 7 0) (replicate 4 0) (\<lambda>_ _. 0) 4 (batch_buffer_size 1 8) 2 0 toy_view_certs = Inr bs"
    and "j < 2"
  shows "rbind (nv_clone_state 4 (batch_buffer_size 1 8) 2 bs j) ss_commits = Inr [toy_commit]"
proof -
  have "ss_fits [(0, toy_commit)]" by (simp add: ss_fits_def toy_commit_def max_length_def CommitHeader_def)
  from serialized_state_roundtrip [OF this, of "\<lambda>_ _. 0" 0]
  have "ss_commits toy_view_state = Inr [toy_commit]" by (simp add: toy_view_state_def)
  then show ?thesis
    by (simp add: nv_clone_state_def toy_new_view_certificates [OF assms] cert_try_from_bytes [OF toy_view_cert_ok]
        cert_parse_bytes [OF toy_view_cert_ok])
qed

section \<open>Views\<close>

text \<open>A follower that has left view 0, and one that has heard of a leader of view 1 first.\<close>

definition toy_late :: "instance_state \<Rightarrow> consensus" where
  "toy_late d = toy_follower\<lparr>replica_states := [toy_state, toy_state, toy_state\<lparr>at_view := 1\<rparr>],
     instance_states := toy_map d\<rparr>"

definition toy_values :: "bytes tail_map" where
  "toy_values = (case tm_try_emplace (tm_new 4) 0 [] of Inr (m, _) \<Rightarrow> m | Inl _ \<Rightarrow> tm_new 4)"

definition toy_early :: consensus where
  "toy_early = toy_follower\<lparr>replica_states :=
     [toy_state, toy_state\<lparr>at_view := 1, rs_valid_values := Some (1, toy_values)\<rparr>, toy_state]\<rparr>"

lemma toy_values_lookup: "tm_lookup toy_values 0 = Inr (Some [])"
  by code_simp

lemma toy_map_pessimistic: "pessimistic_find (toy_map d) 0 = Inr (Some 0)"
  unfolding toy_map_value by code_simp

lemma toy_early_handled:
  "\<exists>c'. handle_prepare 1 \<lparr>pm_view = 1, pm_instance = 0, pm_data = []\<rparr> toy_early = Inr c'"
  by (rule case_sum_returns) code_simp

lemma toy_map_lookup [simp]: "tm_lookup (toy_map d) 0 = Inr (Some d)"
  by (simp add: tm_lookup_def)
lemma toy_map_rep: "tm_rep (toy_map d) [(0, d)]"
proof -
  have "tm_rep (tm_new 4 :: instance_state tail_map) []" using tm_new_rep [of 4] by (simp add: tm_rep_def)
  from tm_rep_try_emplace [OF this, of 0 d] show ?thesis
    by (auto simp: toy_map_def tm_kept_def tm_new_def)
qed

text \<open>An instance with a request of client 0, which the log knows.\<close>

definition toy_request_data :: instance_state where
  "toy_request_data = (toy_data [False, False, False] [True, False, True])
     \<lparr>is_prepare := \<lparr>pm_view = 0, pm_instance = 0, pm_data = batch_bytes [0, 0, 0, 0] [(0, 1, [9])]\<rparr>\<rparr>"

definition toy_one_request :: consensus where
  "toy_one_request = (toy_with toy_request_data)
     \<lparr>cn_request_log := (log_new 4 8)\<lparr>rl_clients := [Some (client_new 4 8)]\<rparr>\<rparr>"

lemma toy_one_request_rep: "tm_rep (instance_states toy_one_request) [(0, toy_request_data)]"
  by (simp add: toy_one_request_def toy_with_def toy_map_rep)

lemma toy_one_request_value: "map_of [(0, toy_request_data)] (next_to_decide toy_one_request) = Some toy_request_data"
  by (simp add: toy_one_request_def toy_with_def)

lemma toy_request_fields [simp]:
  "pm_data (is_prepare toy_request_data) = batch_bytes [0, 0, 0, 0] [(0, 1, [9])]" "decidable toy_request_data"
  by (simp_all add: toy_request_data_def decidable_def bitset_majority_def toy_bits_def)

end
