(* ===== verification/Thread_Pool.thy ===== *)
theory Thread_Pool
  imports Ubft_Prelude
begin

text \<open>
  \<open>LockingThreadPool\<close> of ubft/src/thread-pool/locking.hpp: task queues that drop their oldest task
  beyond a bound, served by workers that take a task of a fullest queue. The mutex makes the
  sections it guards atomic; each is one operation here, and a worker is idle, at a task, or has
  returned. Which of several fullest queues a worker takes is up to the vendored priority queue:
  it is the parameter \<open>pick\<close>, of which \<open>pick_ok\<close> says what the pool relies on.
\<close>

section \<open>TailTaskQueues\<close>

record 'a task_queues =
  tq_queues :: "('a list \<times> u64) list"
  tq_sizes :: "u64 list"
  tq_tasks :: u64

definition tq_new :: "'a task_queues" where
  "tq_new = \<lparr>tq_queues = [], tq_sizes = [], tq_tasks = 0\<rparr>"

definition tq_create :: "u64 \<Rightarrow> 'a task_queues \<Rightarrow> nat \<times> 'a task_queues" where
  "tq_create tail q =
     (length (tq_queues q), q\<lparr>tq_queues := tq_queues q @ [([], tail)], tq_sizes := tq_sizes q @ [0]\<rparr>)"

definition tq_enqueue :: "nat \<Rightarrow> 'a \<Rightarrow> 'a task_queues \<Rightarrow> 'a task_queues result" where
  "tq_enqueue index task q =
     rbind (uat (tq_queues q) index) (\<lambda>(queue, tail).
       let queue' = queue @ [task] in
       if length queue' > unat tail
       then Inr (q\<lparr>tq_queues := (tq_queues q)[index := (tl queue', tail)]\<rparr>)
       else rbind (uat (tq_sizes q) index) (\<lambda>size.
         Inr (q\<lparr>tq_queues := (tq_queues q)[index := (queue', tail)], tq_tasks := tq_tasks q + 1,
                tq_sizes := (tq_sizes q)[index := size + 1]\<rparr>)))"

definition tq_pop :: "(u64 list \<Rightarrow> nat) \<Rightarrow> 'a task_queues \<Rightarrow> (nat \<times> 'a \<times> 'a task_queues) result" where
  "tq_pop pick q =
     (if tq_tasks q = 0 then Inl (Runtime_error ''Empty queues.'')
      else
        let i = pick (tq_sizes q) in
        rbind (uat (tq_sizes q) i) (\<lambda>size.
        rbind (uat (tq_queues q) i) (\<lambda>(queue, tail).
          case queue of
            [] \<Rightarrow> Inl Undefined_behaviour
          | task # rest \<Rightarrow>
              Inr (i, task, q\<lparr>tq_tasks := tq_tasks q - 1, tq_sizes := (tq_sizes q)[i := size - 1],
                              tq_queues := (tq_queues q)[i := (rest, tail)]\<rparr>))))"

definition tq_clear :: "nat \<Rightarrow> 'a task_queues \<Rightarrow> 'a task_queues result" where
  "tq_clear index q =
     rbind (uat (tq_queues q) index) (\<lambda>(queue, tail).
       Inr (q\<lparr>tq_tasks := tq_tasks q - of_nat (length queue), tq_queues := (tq_queues q)[index := ([], tail)],
              tq_sizes := (tq_sizes q)[index := 0]\<rparr>))"

definition tq_empty :: "'a task_queues \<Rightarrow> bool" where
  "tq_empty q \<longleftrightarrow> tq_tasks q = 0"

section \<open>LockingThreadPool\<close>

datatype 'a worker = Idle | At_task nat 'a | Returned

record 'a thread_pool =
  tp_tasks :: "'a task_queues"
  tp_running :: "u64 list"
  tp_workers :: "'a worker list"
  tp_stop :: bool
  tp_frozen :: bool

definition tp_new :: "nat \<Rightarrow> 'a thread_pool" where
  "tp_new threads = \<lparr>tp_tasks = tq_new, tp_running = [], tp_workers = replicate threads Idle,
     tp_stop = False, tp_frozen = False\<rparr>"

definition tp_init_task_queue :: "u64 \<Rightarrow> 'a thread_pool \<Rightarrow> nat \<times> 'a thread_pool" where
  "tp_init_task_queue tail p =
     (let (i, q) = tq_create tail (tp_tasks p) in (i, p\<lparr>tp_tasks := q, tp_running := tp_running p @ [0]\<rparr>))"

definition tp_enqueue :: "nat \<Rightarrow> 'a \<Rightarrow> 'a thread_pool \<Rightarrow> 'a thread_pool result" where
  "tp_enqueue i task p =
     (if tp_stop p then Inl (Runtime_error ''enqueue on stopped ThreadPool'')
      else rbind (tq_enqueue i task (tp_tasks p)) (\<lambda>q. Inr (p\<lparr>tp_tasks := q\<rparr>)))"

text \<open>The condition a worker waits for, and the section behind it; a worker that is not idle does nothing.\<close>

definition tp_ready :: "'a thread_pool \<Rightarrow> bool" where
  "tp_ready p \<longleftrightarrow> tp_stop p \<or> (\<not> tp_frozen p \<and> \<not> tq_empty (tp_tasks p))"

definition tp_take :: "(u64 list \<Rightarrow> nat) \<Rightarrow> nat \<Rightarrow> 'a thread_pool \<Rightarrow> 'a thread_pool result" where
  "tp_take pick w p =
     rbind (uat (tp_workers p) w) (\<lambda>worker.
       case worker of
         Idle \<Rightarrow>
           if \<not> tp_ready p then Inr p
           else if tp_stop p then Inr (p\<lparr>tp_workers := (tp_workers p)[w := Returned]\<rparr>)
           else
             rbind (tq_pop pick (tp_tasks p)) (\<lambda>(i, task, q).
             rbind (uat (tp_running p) i) (\<lambda>r.
             Inr (p\<lparr>tp_tasks := q, tp_running := (tp_running p)[i := r + 1],
                    tp_workers := (tp_workers p)[w := At_task i task]\<rparr>)))
       | _ \<Rightarrow> Inr p)"

definition tp_finish :: "nat \<Rightarrow> 'a thread_pool \<Rightarrow> 'a thread_pool result" where
  "tp_finish w p =
     rbind (uat (tp_workers p) w) (\<lambda>worker.
       case worker of
         At_task i task \<Rightarrow>
           rbind (uat (tp_running p) i) (\<lambda>r.
           Inr (p\<lparr>tp_running := (tp_running p)[i := r - 1], tp_workers := (tp_workers p)[w := Idle]\<rparr>))
       | _ \<Rightarrow> Inr p)"

text \<open>What workers do while another thread waits: \<open>(w, True)\<close> takes, \<open>(w, False)\<close> finishes.\<close>

definition tp_work :: "(u64 list \<Rightarrow> nat) \<Rightarrow> nat \<times> bool \<Rightarrow> 'a thread_pool \<Rightarrow> 'a thread_pool result" where
  "tp_work pick e p = (if snd e then tp_take pick (fst e) p else tp_finish (fst e) p)"

fun tp_wait_idle :: "(u64 list \<Rightarrow> nat) \<Rightarrow> nat \<Rightarrow> (nat \<times> bool) list \<Rightarrow> 'a thread_pool \<Rightarrow> 'a thread_pool result" where
  "tp_wait_idle pick i es p =
     rbind (uat (tp_running p) i) (\<lambda>r.
       if r = 0 then Inr p
       else case es of [] \<Rightarrow> Inl Spins | e # es' \<Rightarrow> rbind (tp_work pick e p) (tp_wait_idle pick i es'))"

declare tp_wait_idle.simps [simp del]

definition tp_clear :: "(u64 list \<Rightarrow> nat) \<Rightarrow> nat \<Rightarrow> (nat \<times> bool) list \<Rightarrow> 'a thread_pool \<Rightarrow> 'a thread_pool result" where
  "tp_clear pick i es p =
     rbind (tq_clear i (tp_tasks p)) (\<lambda>q. tp_wait_idle pick i es (p\<lparr>tp_tasks := q\<rparr>))"

definition tp_shut_down :: "'a thread_pool \<Rightarrow> 'a thread_pool" where
  "tp_shut_down p = p\<lparr>tp_stop := True\<rparr>"

definition tp_freeze :: "'a thread_pool \<Rightarrow> 'a thread_pool" where
  "tp_freeze p = p\<lparr>tp_frozen := True\<rparr>"

definition tp_unfreeze :: "'a thread_pool \<Rightarrow> 'a thread_pool" where
  "tp_unfreeze p = p\<lparr>tp_frozen := False\<rparr>"

definition tp_nb_workers :: "'a thread_pool \<Rightarrow> u64" where
  "tp_nb_workers p = of_nat (length (tp_workers p))"

definition tp_max_outstanding :: "u64 \<Rightarrow> 'a thread_pool \<Rightarrow> u64" where
  "tp_max_outstanding tail p = tail + tp_nb_workers p"

section \<open>Invariants\<close>

definition pick_ok :: "(u64 list \<Rightarrow> nat) \<Rightarrow> bool" where
  "pick_ok pick \<longleftrightarrow> (\<forall>xs. xs \<noteq> [] \<longrightarrow> pick xs < length xs \<and> (\<forall>x \<in> set xs. x \<le> xs ! pick xs))"

definition tq_inv :: "'a task_queues \<Rightarrow> bool" where
  "tq_inv q \<longleftrightarrow>
     tq_sizes q = map (\<lambda>(queue, tail). of_nat (length queue)) (tq_queues q) \<and>
     tq_tasks q = sum_list (tq_sizes q) \<and>
     (\<forall>(queue, tail) \<in> set (tq_queues q). length queue \<le> unat tail)"

lemma sum_list_update_u64:
  "i < length xs \<Longrightarrow> sum_list (xs[i := x]) = sum_list xs + x - (xs ! i :: u64)"
  by (induction xs arbitrary: i) (auto split: nat.split)

lemma sum_list_zero: "\<forall>x \<in> set xs. x = 0 \<Longrightarrow> sum_list xs = (0 :: u64)"
  by (induction xs) auto

lemma tq_inv_new: "tq_inv tq_new"
  by (simp add: tq_inv_def tq_new_def)

lemma tq_inv_create: "tq_inv q \<Longrightarrow> tq_inv (snd (tq_create tail q))"
  by (auto simp: tq_inv_def tq_create_def)

text \<open>Every way to write a queue back.\<close>

lemma tq_inv_put:
  assumes "tq_inv q" "i < length (tq_queues q)" "length queue \<le> unat tail"
    and "tq_queues q' = (tq_queues q)[i := (queue, tail)]" "tq_sizes q' = (tq_sizes q)[i := of_nat (length queue)]"
    and "tq_tasks q' = tq_tasks q + of_nat (length queue) - tq_sizes q ! i"
  shows "tq_inv q'"
  using assms
  by (auto simp: tq_inv_def map_update sum_list_update_u64 dest!: set_update_subset_insert [THEN subsetD])

lemma tq_size: "tq_inv q \<Longrightarrow> i < length (tq_queues q) \<Longrightarrow> tq_sizes q ! i = of_nat (length (fst (tq_queues q ! i)))"
  by (simp add: tq_inv_def case_prod_beta)

lemma tq_length: "tq_inv q \<Longrightarrow> length (tq_sizes q) = length (tq_queues q)"
  by (simp add: tq_inv_def)

theorem tq_enqueue_result:
  assumes "tq_inv q" "i < length (tq_queues q)" "tq_queues q ! i = (queue, tail)"
  shows "\<exists>q'. tq_enqueue i task q = Inr q' \<and> tq_inv q' \<and>
    tq_queues q' = (tq_queues q)[i := (push_bounded tail task queue, tail)]"
proof -
  have len: "length queue \<le> unat tail" using assms nth_mem [OF assms(2)] by (fastforce simp: tq_inv_def)
  have size: "tq_sizes q ! i = of_nat (length queue)" using tq_size [OF assms(1,2)] assms(3) by simp
  note put = tq_inv_put [OF assms(1,2)]
  show ?thesis
  proof (cases "unat tail < Suc (length queue)")
    case True
    then have "length queue = unat tail" using len by simp
    with True assms size show ?thesis
      by (auto simp: tq_enqueue_def push_bounded_def list_update_same_conv tq_length intro!: put)
  next
    case False
    with assms size show ?thesis
      by (auto simp: tq_enqueue_def push_bounded_def tq_length algebra_simps intro!: put)
  qed
qed

theorem tq_pop_result:
  assumes "tq_inv q" "pick_ok pick" "tq_tasks q \<noteq> 0"
  shows "\<exists>i task rest tail q'. tq_pop pick q = Inr (i, task, q') \<and> i < length (tq_queues q) \<and>
    tq_queues q ! i = (task # rest, tail) \<and> (\<forall>(queue, _) \<in> set (tq_queues q). length queue \<le> Suc (length rest)) \<and>
    tq_inv q' \<and> tq_queues q' = (tq_queues q)[i := (rest, tail)]"
proof -
  let ?i = "pick (tq_sizes q)"
  have "tq_sizes q \<noteq> []" using assms(1,3) by (auto simp: tq_inv_def)
  with assms(2) have i: "?i < length (tq_queues q)" "\<And>x. x \<in> set (tq_sizes q) \<Longrightarrow> x \<le> tq_sizes q ! ?i"
    using tq_length [OF assms(1)] by (auto simp: pick_ok_def)
  obtain queue tail where e: "tq_queues q ! ?i = (queue, tail)" by (metis prod.exhaust)
  have bound: "length fs \<le> unat tl" if "(fs, tl) \<in> set (tq_queues q)" for fs tl
    using assms(1) that by (auto simp: tq_inv_def)
  have size: "tq_sizes q ! ?i = of_nat (length queue)" using tq_size [OF assms(1) i(1)] e by simp
  have len: "length queue \<le> unat tail" using bound nth_mem [OF i(1)] e by simp
  have longest: "length fs \<le> length queue" if "(fs, tl) \<in> set (tq_queues q)" for fs tl
  proof -
    have "of_nat (length fs) \<in> set (tq_sizes q)" using assms(1) that by (force simp: tq_inv_def)
    from i(2) [OF this] have "unat (of_nat (length fs) :: u64) \<le> unat (of_nat (length queue) :: u64)"
      by (simp add: size u64_le_iff)
    moreover have "length fs < 18446744073709551616" "length queue < 18446744073709551616"
      using bound [OF that] len unat_u64_less [of tl] unat_u64_less [of tail] by linarith+
    ultimately show ?thesis by (simp add: unat_u64_of_nat)
  qed
  have "queue \<noteq> []"
  proof
    assume "queue = []"
    with longest have "\<forall>x \<in> set (tq_sizes q). x = 0" using assms(1) by (force simp: tq_inv_def)
    then have "sum_list (tq_sizes q) = 0" by (simp add: sum_list_zero)
    with assms(1,3) show False by (simp add: tq_inv_def)
  qed
  then obtain task rest where q: "queue = task # rest" by (cases queue) auto
  have "tq_inv (q\<lparr>tq_queues := (tq_queues q)[?i := (rest, tail)], tq_sizes := (tq_sizes q)[?i := tq_sizes q ! ?i - 1],
    tq_tasks := tq_tasks q - 1\<rparr>)"
    by (rule tq_inv_put [OF assms(1) i(1), of rest tail]) (use len q size in simp_all)
  moreover have "length rest \<le> unat tail" using len q by simp
  ultimately show ?thesis
    using size i(1) e q longest assms(3) tq_length [OF assms(1)] by (auto simp: tq_pop_def Let_def intro!: tq_inv_put [OF assms(1) i(1), of rest tail])
qed

lemma tq_clear_result:
  assumes "tq_inv q" "i < length (tq_queues q)"
  shows "\<exists>q'. tq_clear i q = Inr q' \<and> tq_inv q' \<and> tq_queues q' = (tq_queues q)[i := ([], snd (tq_queues q ! i))]"
  using tq_size [OF assms] assms(2)
  by (auto simp: tq_clear_def case_prod_beta intro!: tq_inv_put [OF assms, of "[]" "snd (tq_queues q ! i)"])

text \<open>Workers that are at a task of a queue are counted.\<close>

definition at_queue :: "nat \<Rightarrow> 'a worker \<Rightarrow> nat" where
  "at_queue i w = (case w of At_task j _ \<Rightarrow> if j = i then 1 else 0 | _ \<Rightarrow> 0)"

definition busy :: "nat \<Rightarrow> 'a thread_pool \<Rightarrow> nat" where
  "busy i p = sum_list (map (at_queue i) (tp_workers p))"

definition tp_inv :: "'a thread_pool \<Rightarrow> bool" where
  "tp_inv p \<longleftrightarrow> tq_inv (tp_tasks p) \<and> length (tp_running p) = length (tq_queues (tp_tasks p)) \<and>
     length (tp_workers p) < 18446744073709551616 \<and>
     (\<forall>i < length (tp_running p). tp_running p ! i = of_nat (busy i p)) \<and>
     (\<forall>i t. At_task i t \<in> set (tp_workers p) \<longrightarrow> i < length (tp_running p))"

lemma busy_le: "busy i p \<le> length (tp_workers p)"
proof -
  have "sum_list (map (at_queue i) ws) \<le> length ws" for ws :: "'a worker list"
    by (induction ws) (auto simp: at_queue_def split: worker.split)
  then show ?thesis by (simp add: busy_def)
qed

lemma busy_update:
  assumes "w < length (tp_workers p)"
  shows "busy i (p\<lparr>tp_workers := (tp_workers p)[w := x]\<rparr>) = busy i p + at_queue i x - at_queue i (tp_workers p ! w)"
  unfolding busy_def using assms by (simp add: map_update sum_list_update del: sum_list_update_u64)

lemma busy_member: "w < length (tp_workers p) \<Longrightarrow> at_queue i (tp_workers p ! w) \<le> busy i p"
  unfolding busy_def by (rule member_le_sum_list) simp_all

lemma busy_frame [simp]:
  "busy i (p\<lparr>tp_tasks := q\<rparr>) = busy i p" "busy i (p\<lparr>tp_running := r\<rparr>) = busy i p"
  "busy i (p\<lparr>tp_stop := b\<rparr>) = busy i p" "busy i (p\<lparr>tp_frozen := b\<rparr>) = busy i p"
  by (simp_all add: busy_def)

lemma tp_inv_tasks:
  "tp_inv p \<Longrightarrow> tq_inv q \<Longrightarrow> length (tq_queues q) = length (tq_queues (tp_tasks p)) \<Longrightarrow> tp_inv (p\<lparr>tp_tasks := q\<rparr>)"
  unfolding tp_inv_def by fastforce

lemma tp_inv_set_worker:
  assumes "tp_inv p" "w < length (tp_workers p)" "tq_inv q" "length (tq_queues q) = length (tq_queues (tp_tasks p))"
    and "\<And>i t. x = At_task i t \<Longrightarrow> i < length (tp_running p)" "length r = length (tp_running p)"
    and "\<And>i. i < length (tp_running p) \<Longrightarrow>
      r ! i = tp_running p ! i + of_nat (at_queue i x) - of_nat (at_queue i (tp_workers p ! w))"
  shows "tp_inv (p\<lparr>tp_tasks := q, tp_running := r, tp_workers := (tp_workers p)[w := x]\<rparr>)"
proof -
  let ?p = "p\<lparr>tp_tasks := q, tp_running := r, tp_workers := (tp_workers p)[w := x]\<rparr>"
  have "busy i ?p = busy i p + at_queue i x - at_queue i (tp_workers p ! w)" for i
    using busy_update [OF assms(2), of i x] by (simp add: busy_def)
  moreover have "at_queue i (tp_workers p ! w) \<le> busy i p" for i using assms(2) by (rule busy_member)
  ultimately have "r ! i = of_nat (busy i ?p)" if "i < length (tp_running p)" for i
    using assms(1) assms(7) [OF that] that by (simp add: tp_inv_def of_nat_diff trans_le_add1)
  moreover have "i < length (tp_running p)" if "At_task i t \<in> set ((tp_workers p)[w := x])" for i t
    using assms(1,5) that by (auto simp: tp_inv_def dest!: set_update_subset_insert [THEN subsetD])
  ultimately show ?thesis using assms(1,3,4,6) by (simp add: tp_inv_def)
qed

theorem tp_new_inv: "n < 18446744073709551616 \<Longrightarrow> tp_inv (tp_new n)"
  by (simp add: tp_inv_def tp_new_def tq_inv_new) (simp add: tq_new_def)

lemma tp_init_task_queue_inv:
  assumes "tp_inv p"
  shows "tp_inv (snd (tp_init_task_queue tail p))"
proof -
  have none: "busy (length (tp_running p)) p = 0"
  proof -
    have "at_queue (length (tp_running p)) x = 0" if "x \<in> set (tp_workers p)" for x
      using assms that by (cases x) (auto simp: tp_inv_def at_queue_def)
    then show ?thesis by (simp add: busy_def)
  qed
  have "busy i (snd (tp_init_task_queue tail p)) = busy i p" for i
    by (simp add: tp_init_task_queue_def tq_create_def busy_def)
  then show ?thesis
    using assms tq_inv_create [of "tp_tasks p" tail] none
    by (fastforce simp: tp_inv_def tp_init_task_queue_def tq_create_def nth_append less_Suc_eq)
qed

lemma tp_enqueue_inv: "tp_inv p \<Longrightarrow> always tp_inv (tp_enqueue i task p)"
proof (rule alwaysI)
  fix p' assume inv: "tp_inv p" and e: "tp_enqueue i task p = Inr p'"
  then obtain q where q: "tq_enqueue i task (tp_tasks p) = Inr q" "p' = p\<lparr>tp_tasks := q\<rparr>"
    by (auto simp: tp_enqueue_def rbind_Inr_iff split: if_split_asm)
  then have i: "i < length (tq_queues (tp_tasks p))" by (auto simp: tq_enqueue_def rbind_Inr_iff uat_Inr_iff)
  obtain queue tail where "tq_queues (tp_tasks p) ! i = (queue, tail)" by (metis prod.exhaust)
  from tq_enqueue_result [OF _ i this, of task] q(1) inv
  have "tq_inv q \<and> length (tq_queues q) = length (tq_queues (tp_tasks p))" by (auto simp: tp_inv_def)
  with tp_inv_tasks [OF inv] q(2) show "tp_inv p'" by blast
qed

lemma tp_take_cases:
  assumes "tp_take pick w p = Inr p'" "pick_ok pick" "tp_inv p"
  shows "p' = p \<or> p' = p\<lparr>tp_workers := (tp_workers p)[w := Returned]\<rparr> \<and> w < length (tp_workers p) \<and>
      tp_workers p ! w = Idle \<or>
    (\<exists>i task rest tail q. w < length (tp_workers p) \<and> tp_workers p ! w = Idle \<and> \<not> tp_frozen p \<and> \<not> tp_stop p \<and>
      i < length (tp_running p) \<and> tq_queues (tp_tasks p) ! i = (task # rest, tail) \<and>
      (\<forall>(queue, _) \<in> set (tq_queues (tp_tasks p)). length queue \<le> Suc (length rest)) \<and> tq_inv q \<and>
      tq_queues q = (tq_queues (tp_tasks p))[i := (rest, tail)] \<and>
      p' = p\<lparr>tp_tasks := q, tp_running := (tp_running p)[i := tp_running p ! i + 1],
             tp_workers := (tp_workers p)[w := At_task i task]\<rparr>)"
proof (cases "p' = p \<or> tp_stop p")
  case True
  with assms(1) show ?thesis
    by (auto simp: tp_take_def rbind_Inr_iff uat_Inr_iff tp_ready_def split: worker.splits if_splits)
next
  case False
  with assms(1) have w: "w < length (tp_workers p)" "tp_workers p ! w = Idle" "\<not> tp_frozen p" "tq_tasks (tp_tasks p) \<noteq> 0"
    "\<not> tp_stop p"
    by (auto simp: tp_take_def rbind_Inr_iff uat_Inr_iff tp_ready_def tq_empty_def split: worker.splits if_splits)
  from assms(3) have "tq_inv (tp_tasks p)" by (simp add: tp_inv_def)
  from tq_pop_result [OF this assms(2) w(4)] obtain i task rest tail q where
    q: "tq_pop pick (tp_tasks p) = Inr (i, task, q)" "i < length (tq_queues (tp_tasks p))"
      "tq_queues (tp_tasks p) ! i = (task # rest, tail)"
      "\<forall>(queue, _) \<in> set (tq_queues (tp_tasks p)). length queue \<le> Suc (length rest)"
      "tq_inv q" "tq_queues q = (tq_queues (tp_tasks p))[i := (rest, tail)]"
    by blast
  moreover have "i < length (tp_running p)" using q(2) assms(3) by (simp add: tp_inv_def)
  ultimately show ?thesis
    using assms(1) w by (fastforce simp: tp_take_def tp_ready_def tq_empty_def split: if_splits)
qed

lemma tp_take_inv:
  assumes "tp_take pick w p = Inr p'" "pick_ok pick" "tp_inv p"
  shows "tp_inv p'"
  using tp_take_cases [OF assms]
proof (elim disjE exE conjE)
  assume "p' = p\<lparr>tp_workers := (tp_workers p)[w := Returned]\<rparr>" "w < length (tp_workers p)" "tp_workers p ! w = Idle"
  then show ?thesis
    using tp_inv_set_worker [OF assms(3), of w "tp_tasks p" Returned "tp_running p"] assms(3)
    by (simp add: at_queue_def tp_inv_def)
next
  fix i task rest tail q
  assume *: "w < length (tp_workers p)" "tp_workers p ! w = Idle" "i < length (tp_running p)" "tq_inv q"
    "tq_queues q = (tq_queues (tp_tasks p))[i := (rest, tail)]"
    "p' = p\<lparr>tp_tasks := q, tp_running := (tp_running p)[i := tp_running p ! i + 1],
           tp_workers := (tp_workers p)[w := At_task i task]\<rparr>"
  show ?thesis unfolding *(6)
    by (rule tp_inv_set_worker [OF assms(3) *(1,4)]) (use * in \<open>auto simp: at_queue_def nth_list_update\<close>)
qed (use assms(3) in simp)

lemma tp_finish_cases:
  assumes "tp_finish w p = Inr p'"
  shows "p' = p \<or> (\<exists>i task. w < length (tp_workers p) \<and> tp_workers p ! w = At_task i task \<and> i < length (tp_running p) \<and>
    p' = p\<lparr>tp_running := (tp_running p)[i := tp_running p ! i - 1], tp_workers := (tp_workers p)[w := Idle]\<rparr>)"
  using assms by (auto simp: tp_finish_def rbind_Inr_iff uat_Inr_iff split: worker.split_asm)

lemma tp_finish_workers:
  "tp_finish w p = Inr p' \<Longrightarrow> length (tp_running p') = length (tp_running p) \<and>
   tp_workers p' = (tp_workers p)[w := (case tp_workers p ! w of At_task i t \<Rightarrow> Idle | x \<Rightarrow> x)]"
  by (auto simp: tp_finish_def rbind_Inr_iff uat_Inr_iff list_update_id split: worker.split_asm)
     (metis list_update_id)+

lemma tp_finish_inv:
  assumes "tp_finish w p = Inr p'" "tp_inv p"
  shows "tp_inv p'"
  using tp_finish_cases [OF assms(1)]
proof (elim disjE exE conjE)
  fix i task
  assume *: "w < length (tp_workers p)" "tp_workers p ! w = At_task i task" "i < length (tp_running p)"
    "p' = p\<lparr>tp_running := (tp_running p)[i := tp_running p ! i - 1], tp_workers := (tp_workers p)[w := Idle]\<rparr>"
  have "tq_inv (tp_tasks p)" using assms(2) by (simp add: tp_inv_def)
  from tp_inv_set_worker [OF assms(2) *(1) this, of Idle "(tp_running p)[i := tp_running p ! i - 1]"] *
  show ?thesis by (auto simp: at_queue_def nth_list_update)
qed (use assms(2) in simp)

lemma tp_work_inv: "pick_ok pick \<Longrightarrow> tp_inv p \<Longrightarrow> always tp_inv (tp_work pick e p)"
  by (rule alwaysI) (auto simp: tp_work_def split: if_split_asm intro: tp_take_inv tp_finish_inv)

section \<open>Clearing a queue\<close>

definition queue_empty :: "nat \<Rightarrow> 'a thread_pool \<Rightarrow> bool" where
  "queue_empty i p \<longleftrightarrow> fst (tq_queues (tp_tasks p) ! i) = []"

lemma tp_work_queue_empty:
  assumes "pick_ok pick" "tp_inv p" "queue_empty i p" "tp_work pick e p = Inr p'"
  shows "queue_empty i p'"
proof (cases "snd e")
  case True
  with assms(4) have "tp_take pick (fst e) p = Inr p'" by (simp add: tp_work_def)
  from tp_take_cases [OF this assms(1,2)] assms(3) show ?thesis
  proof (elim disjE exE conjE)
    fix j task rest tail q
    assume *: "tq_queues (tp_tasks p) ! j = (task # rest, tail)" "tq_queues q = (tq_queues (tp_tasks p))[j := (rest, tail)]"
      "p' = p\<lparr>tp_tasks := q, tp_running := (tp_running p)[j := tp_running p ! j + 1],
             tp_workers := (tp_workers p)[fst e := At_task j task]\<rparr>"
    then have "j \<noteq> i" using assms(3) by (auto simp: queue_empty_def)
    with * assms(3) show ?thesis by (simp add: queue_empty_def)
  qed (simp_all add: queue_empty_def)
next
  case False
  with assms(4) have "tp_finish (fst e) p = Inr p'" by (simp add: tp_work_def)
  from tp_finish_cases [OF this] assms(3) show ?thesis by (auto simp: queue_empty_def)
qed

lemma busy_zero:
  assumes "tp_inv p" "i < length (tp_running p)"
  shows "tp_running p ! i = 0 \<longleftrightarrow> (\<forall>t. At_task i t \<notin> set (tp_workers p))"
proof -
  have "busy i p < 18446744073709551616"
    using busy_le [of i p] assms(1) by (simp add: tp_inv_def)
  then have "unat (of_nat (busy i p) :: u64) = busy i p" by (rule unat_u64_of_nat)
  then have "tp_running p ! i = 0 \<longleftrightarrow> busy i p = 0"
    using assms by (auto simp: tp_inv_def u64_eq_iff)
  also have "\<dots> \<longleftrightarrow> (\<forall>w \<in> set (tp_workers p). at_queue i w = 0)" by (auto simp: busy_def)
  also have "\<dots> \<longleftrightarrow> (\<forall>t. At_task i t \<notin> set (tp_workers p))"
    by (auto simp: at_queue_def split: worker.splits)
  finally show ?thesis .
qed

lemma tp_wait_idle_result:
  "tp_wait_idle pick i es p = Inr p' \<Longrightarrow> pick_ok pick \<Longrightarrow> tp_inv p \<Longrightarrow> queue_empty i p \<Longrightarrow>
   tp_inv p' \<and> queue_empty i p' \<and> i < length (tp_running p') \<and> tp_running p' ! i = 0"
proof (induction es arbitrary: p)
  case Nil
  then show ?case by (auto simp: tp_wait_idle.simps rbind_Inr_iff uat_Inr_iff split: if_split_asm)
next
  case (Cons e es)
  then show ?case
    using alwaysD [OF tp_work_inv [OF Cons.prems(2,3), of e]] tp_work_queue_empty [OF Cons.prems(2-4), of e]
    unfolding tp_wait_idle.simps [of pick i "e # es" p] by (auto simp: rbind_Inr_iff uat_Inr_iff split: if_split_asm)
qed

text \<open>Destroying a task queue waits for its tasks: none is queued or at a worker afterwards.\<close>

theorem tp_clear_result:
  assumes "tp_clear pick i es p = Inr p'" "pick_ok pick" "tp_inv p"
  shows "tp_inv p' \<and> queue_empty i p' \<and> (\<forall>t. At_task i t \<notin> set (tp_workers p'))"
proof -
  obtain q where q: "tq_clear i (tp_tasks p) = Inr q" "tp_wait_idle pick i es (p\<lparr>tp_tasks := q\<rparr>) = Inr p'"
    using assms(1) by (auto simp: tp_clear_def rbind_Inr_iff)
  then have i: "i < length (tq_queues (tp_tasks p))" by (auto simp: tq_clear_def rbind_Inr_iff uat_Inr_iff)
  have "tq_inv (tp_tasks p)" using assms(3) by (simp add: tp_inv_def)
  from tq_clear_result [OF this i] q(1) have c: "tq_inv q"
    "tq_queues q = (tq_queues (tp_tasks p))[i := ([], snd (tq_queues (tp_tasks p) ! i))]" by auto
  then have "tp_inv (p\<lparr>tp_tasks := q\<rparr>)" "queue_empty i (p\<lparr>tp_tasks := q\<rparr>)"
    using tp_inv_tasks [OF assms(3)] i by (simp_all add: queue_empty_def)
  from tp_wait_idle_result [OF q(2) assms(2) this] busy_zero show ?thesis by blast
qed

text \<open>It ends once every worker has finished the task it is at.\<close>

lemma tp_wait_idle_ends:
  "tp_inv p \<Longrightarrow> length (tp_workers p) = n \<Longrightarrow> i < length (tp_running p) \<Longrightarrow> k \<le> n \<Longrightarrow>
   \<forall>j < k. \<forall>t. tp_workers p ! j \<noteq> At_task i t \<Longrightarrow>
   \<exists>p'. tp_wait_idle pick i (map (\<lambda>w. (w, False)) [k ..< n]) p = Inr p'"
proof (induction "n - k" arbitrary: k p)
  case 0
  then have "\<forall>t. At_task i t \<notin> set (tp_workers p)" by (auto simp: in_set_conv_nth)
  with busy_zero [OF 0(2,4)] 0 show ?case by (subst tp_wait_idle.simps) simp
next
  case (Suc d)
  then have k: "k < n" by simp
  show ?case
  proof (cases "tp_running p ! i = 0")
    case True
    with Suc.prems show ?thesis by (subst tp_wait_idle.simps) simp
  next
    case False
    obtain p' where p': "tp_finish k p = Inr p'"
    proof (cases "tp_workers p ! k")
      case (At_task j t)
      then have "At_task j t \<in> set (tp_workers p)" using Suc.prems(2) k by (metis nth_mem)
      then have "j < length (tp_running p)" using Suc.prems(1) by (auto simp: tp_inv_def)
      with that At_task Suc.prems(2) k show ?thesis by (simp add: tp_finish_def)
    qed (use that Suc.prems(2) k in \<open>auto simp: tp_finish_def\<close>)
    from tp_finish_workers [OF this] have "length (tp_workers p') = n" "i < length (tp_running p')"
      "\<forall>j < Suc k. \<forall>t. tp_workers p' ! j \<noteq> At_task i t"
      using Suc.prems k by (auto simp: less_Suc_eq nth_list_update split: worker.split)
    moreover have "d = n - Suc k" using Suc.hyps(2) by simp
    ultimately obtain p'' where "tp_wait_idle pick i (map (\<lambda>w. (w, False)) [Suc k ..< n]) p' = Inr p''"
      using Suc.hyps(1) [OF _ tp_finish_inv [OF p' Suc.prems(1)], of "Suc k"] k by fastforce
    with k p' Suc.prems show ?thesis
      by (subst tp_wait_idle.simps) (simp add: upt_conv_Cons tp_work_def)
  qed
qed

theorem tp_clear_ends:
  assumes "tp_inv p" "i < length (tp_running p)"
  shows "\<exists>p'. tp_clear pick i (map (\<lambda>w. (w, False)) [0 ..< length (tp_workers p)]) p = Inr p'"
proof -
  have i: "i < length (tq_queues (tp_tasks p))" and "tq_inv (tp_tasks p)" using assms by (auto simp: tp_inv_def)
  from tq_clear_result [OF this(2,1)] obtain q where q: "tq_clear i (tp_tasks p) = Inr q" "tq_inv q"
    "tq_queues q = (tq_queues (tp_tasks p))[i := ([], snd (tq_queues (tp_tasks p) ! i))]" by blast
  have "tp_inv (p\<lparr>tp_tasks := q\<rparr>)" using tp_inv_tasks [OF assms(1) q(2)] q(3) by simp
  from tp_wait_idle_ends [OF this, of _ i 0] assms(2) q(1) show ?thesis by (simp add: tp_clear_def)
qed

section \<open>Reachable pools\<close>

inductive tp_step :: "(u64 list \<Rightarrow> nat) \<Rightarrow> 'a thread_pool \<Rightarrow> 'a thread_pool \<Rightarrow> bool" for pick where
  step_init: "tp_step pick p (snd (tp_init_task_queue tail p))"
| step_enqueue: "tp_enqueue i task p = Inr p' \<Longrightarrow> tp_step pick p p'"
| step_work: "tp_work pick e p = Inr p' \<Longrightarrow> tp_step pick p p'"
| step_clear: "tp_clear pick i es p = Inr p' \<Longrightarrow> tp_step pick p p'"
| step_shut_down: "tp_step pick p (tp_shut_down p)"
| step_freeze: "tp_step pick p (tp_freeze p)"
| step_unfreeze: "tp_step pick p (tp_unfreeze p)"

lemma tp_inv_flags:
  "tp_inv p \<Longrightarrow> tp_inv (tp_shut_down p)" "tp_inv p \<Longrightarrow> tp_inv (tp_freeze p)" "tp_inv p \<Longrightarrow> tp_inv (tp_unfreeze p)"
  by (auto simp: tp_inv_def tp_shut_down_def tp_freeze_def tp_unfreeze_def)

theorem tp_step_inv: "tp_step pick p p' \<Longrightarrow> pick_ok pick \<Longrightarrow> tp_inv p \<Longrightarrow> tp_inv p'"
  by (induction rule: tp_step.induct)
     (auto simp: tp_inv_flags intro: tp_init_task_queue_inv alwaysD [OF tp_enqueue_inv] alwaysD [OF tp_work_inv]
       dest: tp_clear_result)

theorem tp_reach_inv:
  "(tp_step pick)\<^sup>*\<^sup>* (tp_new n) p \<Longrightarrow> pick_ok pick \<Longrightarrow> n < 18446744073709551616 \<Longrightarrow> tp_inv p"
  by (induction rule: rtranclp_induct) (auto intro: tp_step_inv tp_new_inv)

text \<open>The first of the fullest queues is one choice the pool can work with.\<close>

definition first_max :: "u64 list \<Rightarrow> nat" where
  "first_max xs = length (takeWhile (\<lambda>x. x < fold max xs 0) xs)"

lemma fold_max_mem: "fold max xs a \<in> insert a (set xs)" for a :: u64
  by (induction xs arbitrary: a) (force simp: max_def split: if_split_asm)+

lemma fold_max_ge: "x \<in> insert a (set xs) \<Longrightarrow> x \<le> fold max xs a" for a :: u64
proof (induction xs arbitrary: a x)
  case (Cons y ys)
  have "max y a \<le> fold max ys (max y a)" using Cons.IH [of "max y a" "max y a"] by simp
  with Cons show ?case by fastforce
qed simp

lemma first_max_ok: "pick_ok first_max"
  unfolding pick_ok_def
proof (intro allI impI)
  fix xs :: "u64 list" assume "xs \<noteq> []"
  let ?m = "fold max xs 0"
  have "?m \<in> set xs"
  proof (cases "?m = 0")
    case True
    with \<open>xs \<noteq> []\<close> fold_max_ge [of _ 0 xs] show ?thesis by (cases xs) force+
  qed (use fold_max_mem [of xs 0] in auto)
  then have i: "first_max xs < length xs"
    unfolding first_max_def
    by (metis (no_types, lifting) length_takeWhile_le less_le less_irrefl set_takeWhileD takeWhile_eq_take take_all_iff)
  have "\<not> xs ! first_max xs < ?m" using nth_length_takeWhile [of "\<lambda>x. x < ?m" xs] i by (simp add: first_max_def)
  with fold_max_ge [of _ 0 xs] i show "first_max xs < length xs \<and> (\<forall>x\<in>set xs. x \<le> xs ! first_max xs)" by force
qed

end
