(* ===== verification/Rdma.thy ===== *)
theory Rdma
  imports Bytes
begin

text \<open>
  A queue pair as \<open>ReliableConnection\<close> of conn/src/rc.cpp shows it: requests that have been posted
  and not completed, oldest first, and completions (success, identifier of the request) that have
  not been polled. Two flags say whether the verbs library accepts posts and polls. A request
  is a tuple that starts with its identifier; what the rest of it is depends on the user.
\<close>

record 'r qp =
  qp_sq :: "(nat \<times> 'r) list"
  qp_cq :: "(bool \<times> nat) list"
  qp_post_ok :: bool
  qp_poll_ok :: bool

definition qp_new :: "'r qp" where
  "qp_new = \<lparr>qp_sq = [], qp_cq = [], qp_post_ok = True, qp_poll_ok = True\<rparr>"

definition qp_post :: "nat \<times> 'r \<Rightarrow> 'r qp \<Rightarrow> bool \<times> 'r qp" where
  "qp_post r q = (if qp_post_ok q then (True, q\<lparr>qp_sq := qp_sq q @ [r]\<rparr>) else (False, q))"

text \<open>\<open>pollCqIsOk\<close> on a vector of \<open>n\<close> entries: it keeps as many entries as there were completions.\<close>

definition qp_poll :: "nat \<Rightarrow> 'r qp \<Rightarrow> ((bool \<times> nat) list \<times> 'r qp) option" where
  "qp_poll n q = (if qp_poll_ok q then Some (take n (qp_cq q), q\<lparr>qp_cq := drop n (qp_cq q)\<rparr>) else None)"

text \<open>What the network card does: the oldest requests complete, in the order they were posted.\<close>

definition qp_complete :: "nat \<Rightarrow> 'r qp \<Rightarrow> 'r qp" where
  "qp_complete n q =
     q\<lparr>qp_sq := drop n (qp_sq q), qp_cq := qp_cq q @ map (\<lambda>r. (True, fst r)) (take n (qp_sq q))\<rparr>"

text \<open>The identifiers a queue pair still owes a completion to be polled for, in order.\<close>

definition qp_owed :: "'r qp \<Rightarrow> nat list" where
  "qp_owed q = map snd (qp_cq q) @ map fst (qp_sq q)"

lemma qp_owed_new [simp]: "qp_owed qp_new = []"
  by (simp add: qp_owed_def qp_new_def)

lemma qp_owed_post: "qp_post r q = (True, q') \<Longrightarrow> qp_owed q' = qp_owed q @ [fst r]"
  by (auto simp: qp_post_def qp_owed_def split: if_split_asm)

lemma qp_owed_complete [simp]: "qp_owed (qp_complete n q) = qp_owed q"
proof -
  have "map fst (take n (qp_sq q)) @ map fst (drop n (qp_sq q)) = map fst (qp_sq q)"
    by (metis append_take_drop_id map_append)
  then show ?thesis by (simp add: qp_owed_def qp_complete_def comp_def)
qed

lemma qp_owed_poll: "qp_poll n q = Some (wcs, q') \<Longrightarrow> qp_owed q = map snd wcs @ qp_owed q' \<and> length wcs \<le> n"
  unfolding qp_poll_def qp_owed_def
  by (auto split: if_split_asm) (metis append_take_drop_id map_append append_assoc)

end
