(* ===== verification/Swmr.thy ===== *)
theory Swmr
  imports Rdma
begin

text \<open>
  Single-writer multi-reader registers over RDMA (ubft/src/swmr): host.hpp and header.hpp (sizes and
  layout), writer.hpp and reader.hpp. A register is two subslots in the memory of the host; a
  subslot is a hash, an incarnation and a value. The writer alternates between the subslots, the
  reader fetches both and keeps the intact one of the higher incarnation.

  The hash is the parameter \<open>xxh\<close> (XXH3, a vendored function). A clock reading is the argument
  \<open>now\<close>, in nanoseconds; an operation reads the clock once. A pointer to a slot is the index of the
  register, a job handle the index of the local buffer it points to.
\<close>

section \<open>Host and Header\<close>

definition subslot_size :: "u64 \<Rightarrow> u64" where
  "subslot_size value_size = 12 + value_size"

definition register_size :: "u64 \<Rightarrow> u64" where
  "register_size value_size = subslot_size value_size * 2"

definition host_size :: "u64 \<Rightarrow> u64 \<Rightarrow> u64" where
  "host_size nb_registers value_size = register_size value_size * nb_registers"

definition write_cooldown :: int where
  "write_cooldown = 1000000"

definition le_inc :: "u32 \<Rightarrow> bytes" where
  "le_inc i = le_bytes 4 (unat i)"

definition un_inc :: "bytes \<Rightarrow> u32" where
  "un_inc bs = of_nat (le_nat bs)"

section \<open>Writer\<close>

record swmr_register =
  sr_content :: bytes
  sr_hash :: u64
  sr_incarnation :: u32
  sr_scheduled :: bool
  sr_last_write :: "int option"
  sr_subslot :: nat

text \<open>A register starts with what its local buffer holds; only the incarnation is reset.\<close>

definition sr_new :: "bytes \<Rightarrow> swmr_register" where
  "sr_new buffer = \<lparr>sr_content = drop 12 buffer, sr_hash = un64 (take 8 buffer), sr_incarnation = 0,
     sr_scheduled = False, sr_last_write = None, sr_subslot = 0\<rparr>"

definition raw_buffer :: "swmr_register \<Rightarrow> bytes" where
  "raw_buffer r = le64 (sr_hash r) @ le_inc (sr_incarnation r) @ sr_content r"

definition sr_increment :: "swmr_register \<Rightarrow> swmr_register" where
  "sr_increment r = r\<lparr>sr_incarnation := sr_incarnation r + 1\<rparr>"

definition sr_set_incarnation :: "u32 \<Rightarrow> swmr_register \<Rightarrow> swmr_register result" where
  "sr_set_incarnation custom r =
     (let real_ci = custom + 2 in
      if real_ci \<le> sr_incarnation r then Inl (Runtime_error ''Incarnation numbers must be monotonic'')
      else Inr (r\<lparr>sr_incarnation := real_ci\<rparr>))"

definition sr_change_subslot :: "swmr_register \<Rightarrow> swmr_register" where
  "sr_change_subslot r = r\<lparr>sr_subslot := (sr_subslot r + 1) mod 2\<rparr>"

text \<open>A posted write names its register; the rest is the subslot it goes to and the positions that
  the network card has moved so far.\<close>

record swmr_writer =
  sw_nb :: u64
  sw_value_size :: u64
  sw_allow_custom :: bool
  sw_rc :: "(nat \<times> nat list) qp"
  sw_registers :: "swmr_register list"
  sw_queued :: "nat list"
  sw_outstanding :: u64

definition sw_get_slot :: "nat \<Rightarrow> swmr_writer \<Rightarrow> nat option result" where
  "sw_get_slot i w =
     rbind (uat (sw_registers w) i) (\<lambda>reg. Inr (if sr_scheduled reg then None else Some i))"

text \<open>What a client does with the slot: copy a value to it.\<close>

definition sw_memcpy :: "nat \<Rightarrow> bytes \<Rightarrow> swmr_writer \<Rightarrow> swmr_writer" where
  "sw_memcpy slot v w =
     w\<lparr>sw_registers := (sw_registers w)[slot := (sw_registers w ! slot)\<lparr>sr_content := v\<rparr>]\<rparr>"

definition cooling :: "int \<Rightarrow> swmr_register \<Rightarrow> bool" where
  "cooling now reg \<longleftrightarrow> (case sr_last_write reg of None \<Rightarrow> False | Some t \<Rightarrow> now < t + write_cooldown)"

function sw_push_from :: "nat \<Rightarrow> int \<Rightarrow> swmr_writer \<Rightarrow> swmr_writer result" where
  "sw_push_from i now w =
     (case sw_queued w of
        [] \<Rightarrow> Inr w
      | index # queued \<Rightarrow>
          if i < length (sw_queued w) \<and> sw_outstanding w < 128 then
            rbind (uat (sw_registers w) index) (\<lambda>reg.
              if cooling now reg then sw_push_from (i + 1) now (w\<lparr>sw_queued := queued @ [index]\<rparr>)
              else
                let (posted, rc) = qp_post (index, sr_subslot reg, []) (sw_rc w) in
                if \<not> posted then Inl (Runtime_error ''Failed to post WRITE'')
                else sw_push_from (i + 1) now
                       (w\<lparr>sw_queued := queued, sw_rc := rc, sw_outstanding := sw_outstanding w + 1\<rparr>))
          else Inr w)"
  by pat_completeness auto
termination
  by (relation "measure (\<lambda>(i, now, w). length (sw_queued w) - i)") auto

declare sw_push_from.simps [simp del]

definition sw_push :: "int \<Rightarrow> swmr_writer \<Rightarrow> swmr_writer result" where
  "sw_push now w = sw_push_from 0 now w"

definition sw_write :: "(bytes \<Rightarrow> u64) \<Rightarrow> int \<Rightarrow> nat \<Rightarrow> u32 option \<Rightarrow> swmr_writer \<Rightarrow> swmr_writer result" where
  "sw_write xxh now index incarnation w =
     rbind (uat (sw_registers w) index) (\<lambda>reg.
     rbind (case incarnation of
              Some i \<Rightarrow>
                if \<not> sw_allow_custom w
                then Inl (Runtime_error ''Custom incarnation numbers were disabled in the constructor.'')
                else sr_set_incarnation i (reg\<lparr>sr_scheduled := True\<rparr>)
            | None \<Rightarrow> Inr (sr_increment (reg\<lparr>sr_scheduled := True\<rparr>))) (\<lambda>reg1.
       let reg2 = sr_change_subslot reg1;
           reg3 = reg2\<lparr>sr_hash := xxh (le_inc (sr_incarnation reg2) @ sr_content reg2)\<rparr> in
       sw_push now (w\<lparr>sw_registers := (sw_registers w)[index := reg3], sw_queued := sw_queued w @ [index]\<rparr>)))"

definition sw_completed :: "nat \<Rightarrow> swmr_writer \<Rightarrow> bool result" where
  "sw_completed index w = rbind (uat (sw_registers w) index) (\<lambda>reg. Inr (\<not> sr_scheduled reg))"

definition sw_complete :: "bool \<Rightarrow> int \<Rightarrow> bool \<times> nat \<Rightarrow> swmr_writer \<Rightarrow> swmr_writer result" where
  "sw_complete bypass now wc w =
     (if \<not> fst wc then Inl (Runtime_error ''Error in RDMA WRITE'')
      else rbind (uat (sw_registers w) (snd wc)) (\<lambda>reg.
        if \<not> sr_scheduled reg then Inl (Runtime_error ''WRITE completed without being scheduled.'')
        else Inr (w\<lparr>sw_registers := (sw_registers w)[snd wc :=
                      reg\<lparr>sr_last_write := if bypass then sr_last_write reg else Some now,
                          sr_scheduled := False\<rparr>],
                    sw_outstanding := sw_outstanding w - 1\<rparr>)))"

definition sw_poll :: "bool \<Rightarrow> int \<Rightarrow> swmr_writer \<Rightarrow> swmr_writer result" where
  "sw_poll bypass now w =
     (case qp_poll (unat (sw_outstanding w)) (sw_rc w) of
        None \<Rightarrow> Inl (Runtime_error ''Error while polling CQ.'')
      | Some (wcs, rc) \<Rightarrow> rfold (sw_complete bypass now) wcs (w\<lparr>sw_rc := rc\<rparr>))"

definition sw_tick :: "int \<Rightarrow> swmr_writer \<Rightarrow> swmr_writer result" where
  "sw_tick now w = rbind (if sw_outstanding w \<noteq> 0 then sw_poll False now w else Inr w) (sw_push now)"

text \<open>
  \<open>initializeRemoteRegisters\<close>. The loop that waits for the last register polls until the card has
  completed its write: the numbers in the script say how many requests the card completes before
  each poll.
\<close>

definition sw_init_register :: "(bytes \<Rightarrow> u64) \<Rightarrow> int \<Rightarrow> nat \<Rightarrow> swmr_writer \<Rightarrow> swmr_writer result" where
  "sw_init_register xxh now i w =
     rbind (sw_get_slot i w) (\<lambda>slot.
       case slot of
         None \<Rightarrow> Inl (Runtime_error ''Failed to initialize remote registers.'')
       | Some s \<Rightarrow> sw_write xxh now i None (sw_memcpy s (replicate (unat (sw_value_size w)) 0) w))"

fun sw_init_wait :: "int \<Rightarrow> nat list \<Rightarrow> swmr_writer \<Rightarrow> (nat list \<times> swmr_writer) result" where
  "sw_init_wait now script w =
     rbind (sw_completed (unat (of_nat (length (sw_registers w)) - 1 :: u64)) w) (\<lambda>done.
       if done then Inr (script, w)
       else case script of
         [] \<Rightarrow> Inl Spins
       | n # script' \<Rightarrow>
           rbind (sw_poll True now (w\<lparr>sw_rc := qp_complete n (sw_rc w)\<rparr>)) (\<lambda>w'.
           rbind (sw_push now w') (sw_init_wait now script')))"

declare sw_init_wait.simps [simp del]

definition sw_init :: "(bytes \<Rightarrow> u64) \<Rightarrow> int \<Rightarrow> nat list \<Rightarrow> swmr_writer \<Rightarrow> swmr_writer result" where
  "sw_init xxh now script w =
     rbind (rfold (sw_init_register xxh now) [0 ..< length (sw_registers w)] w) (\<lambda>w1.
     rbind (sw_init_wait now script w1) (\<lambda>(script2, w2).
     rbind (rfold (sw_init_register xxh now) [0 ..< length (sw_registers w2)] w2) (\<lambda>w3.
     rbind (sw_init_wait now script2 w3) (\<lambda>(script4, w4). Inr w4))))"

text \<open>The constructor, given the local buffers and the size of the remote memory.\<close>

definition sw_new :: "(bytes \<Rightarrow> u64) \<Rightarrow> int \<Rightarrow> nat list \<Rightarrow> u64 \<Rightarrow> u64 \<Rightarrow> bool \<Rightarrow> u64 \<Rightarrow> u64 \<Rightarrow> (nat \<Rightarrow> bytes) \<Rightarrow> swmr_writer result" where
  "sw_new xxh now script nb value_size allow_custom remote_size local_size local =
     (if remote_size < host_size nb value_size then Inl (Runtime_error ''Remote MR too small to host registers'')
      else if local_size < host_size nb value_size then Inl (Runtime_error ''Local MR too small to host register buffers'')
      else sw_init xxh now script
        \<lparr>sw_nb = nb, sw_value_size = value_size, sw_allow_custom = allow_custom, sw_rc = qp_new,
         sw_registers = map (\<lambda>i. sr_new (local i)) [0 ..< unat nb], sw_queued = [], sw_outstanding = 0\<rparr>)"

section \<open>Reader\<close>

text \<open>A posted read names its job; the rest is the register and the positions moved so far.\<close>

record swmr_reader =
  sd_nb :: u64
  sd_value_size :: u64
  sd_rc :: "(nat \<times> nat list) qp"
  sd_memory :: "bytes list"
  sd_pool :: "nat list"
  sd_queued :: "(nat \<times> nat) list"
  sd_outstanding :: "(nat \<times> nat \<times> int) list"
  sd_completed :: "(nat \<times> nat \<times> u32) list"

definition sd_new :: "u64 \<Rightarrow> u64 \<Rightarrow> u64 \<Rightarrow> u64 \<Rightarrow> (nat \<Rightarrow> bytes) \<Rightarrow> swmr_reader result" where
  "sd_new nb value_size remote_size local_size local =
     (if remote_size < host_size nb value_size then Inl (Runtime_error ''Remote MR too small to host registers'')
      else if register_size value_size = 0 then Inl Undefined_behaviour
      else
        let nb_buffers = unat (local_size div register_size value_size) in
        Inr \<lparr>sd_nb = nb, sd_value_size = value_size, sd_rc = qp_new, sd_memory = map local [0 ..< nb_buffers],
             sd_pool = [0 ..< nb_buffers], sd_queued = [], sd_outstanding = [], sd_completed = []\<rparr>)"

function sd_push :: "int \<Rightarrow> swmr_reader \<Rightarrow> swmr_reader result" where
  "sd_push now r =
     (case sd_queued r of
        [] \<Rightarrow> Inr r
      | (job, index) # queued \<Rightarrow>
          if length (sd_outstanding r) < 128 then
            let (posted, rc) = qp_post (job, index, []) (sd_rc r) in
            if \<not> posted then Inl (Runtime_error ''Failed to post read'')
            else sd_push now (r\<lparr>sd_queued := queued, sd_rc := rc,
                                sd_outstanding := sd_outstanding r @ [(job, index, now)]\<rparr>)
          else Inr r)"
  by pat_completeness auto
termination
  by (relation "measure (\<lambda>(now, r). length (sd_queued r))") auto

declare sd_push.simps [simp del]

definition sd_read :: "int \<Rightarrow> nat \<Rightarrow> swmr_reader \<Rightarrow> (nat option \<times> swmr_reader) result" where
  "sd_read now index r =
     (if sd_pool r = [] then Inr (None, r)
      else
        let job = last (sd_pool r) in
        rbind (sd_push now (r\<lparr>sd_pool := butlast (sd_pool r), sd_queued := sd_queued r @ [(job, index)]\<rparr>)) (\<lambda>r'.
        Inr (Some job, r')))"

text \<open>\<open>poll\<close> answers with a pointer to the value (a buffer and one of its subslots) and its incarnation.\<close>

definition sd_poll :: "nat \<Rightarrow> swmr_reader \<Rightarrow> ((nat \<times> nat) \<times> u32) option" where
  "sd_poll job r = map_option (\<lambda>(subslot, inc). ((job, subslot), inc)) (map_of (sd_completed r) job)"

definition sd_release :: "nat \<Rightarrow> swmr_reader \<Rightarrow> swmr_reader result" where
  "sd_release job r =
     (if map_of (sd_completed r) job = None then Inl (Runtime_error ''Job not found in completed set.'')
      else Inr (r\<lparr>sd_pool := sd_pool r @ [job], sd_completed := alist_erase job (sd_completed r)\<rparr>))"

text \<open>The bytes of a subslot, and what they say.\<close>

definition subslot_of :: "u64 \<Rightarrow> nat \<Rightarrow> bytes \<Rightarrow> bytes" where
  "subslot_of value_size k buffer =
     take (unat (subslot_size value_size)) (drop (unat (subslot_size value_size) * k) buffer)"

definition intact :: "(bytes \<Rightarrow> u64) \<Rightarrow> bytes \<Rightarrow> bool" where
  "intact xxh b \<longleftrightarrow> un64 (take 8 b) = xxh (drop 8 b)"

definition slot_incarnation :: "bytes \<Rightarrow> u32" where
  "slot_incarnation b = un_inc (take 4 (drop 8 b))"

definition slot_value :: "bytes \<Rightarrow> bytes" where
  "slot_value b = drop 12 b"

fun best_of :: "(bytes \<Rightarrow> u64) \<Rightarrow> (nat \<times> bytes) list \<Rightarrow> (u32 \<times> nat) option \<Rightarrow> (u32 \<times> nat) option" where
  "best_of xxh [] best = best"
| "best_of xxh ((k, b) # bs) best =
     best_of xxh bs
       (if intact xxh b \<and> (case best of None \<Rightarrow> True | Some (i, _) \<Rightarrow> i < slot_incarnation b)
        then Some (slot_incarnation b, k) else best)"

definition best_subslot :: "(bytes \<Rightarrow> u64) \<Rightarrow> u64 \<Rightarrow> bytes \<Rightarrow> (u32 \<times> nat) option" where
  "best_subslot xxh value_size buffer =
     best_of xxh (map (\<lambda>k. (k, subslot_of value_size k buffer)) [0, 1]) None"

definition sd_complete :: "(bytes \<Rightarrow> u64) \<Rightarrow> int \<Rightarrow> bool \<times> nat \<Rightarrow> swmr_reader \<Rightarrow> swmr_reader result" where
  "sd_complete xxh now wc r =
     (if \<not> fst wc then Inl (Runtime_error ''Error in RDMA READ'')
      else case sd_outstanding r of
        [] \<Rightarrow> Inl Undefined_behaviour
      | (expected, index, start) # outstanding \<Rightarrow>
          if snd wc \<noteq> expected then Inl (Runtime_error ''Polling returned an unexpected job_handle'')
          else rbind (uat (sd_memory r) (snd wc)) (\<lambda>buffer.
            case best_subslot xxh (sd_value_size r) buffer of
              Some (inc, k) \<Rightarrow>
                Inr (r\<lparr>sd_outstanding := outstanding,
                       sd_completed := alist_insert (snd wc) (k, inc - 2) (sd_completed r)\<rparr>)
            | None \<Rightarrow>
                if start + write_cooldown < now
                then Inr (r\<lparr>sd_outstanding := outstanding, sd_queued := sd_queued r @ [(snd wc, index)]\<rparr>)
                else Inl (Runtime_error ''Byzantine behavior detected, we should handle it.'')))"

definition sd_poll_completion :: "(bytes \<Rightarrow> u64) \<Rightarrow> int \<Rightarrow> swmr_reader \<Rightarrow> swmr_reader result" where
  "sd_poll_completion xxh now r =
     (case qp_poll (length (sd_outstanding r)) (sd_rc r) of
        None \<Rightarrow> Inl (Runtime_error ''Error while polling CQ.'')
      | Some (wcs, rc) \<Rightarrow> rfold (sd_complete xxh now) wcs (r\<lparr>sd_rc := rc\<rparr>))"

definition sd_tick :: "(bytes \<Rightarrow> u64) \<Rightarrow> int \<Rightarrow> swmr_reader \<Rightarrow> swmr_reader result" where
  "sd_tick xxh now r =
     (if sd_outstanding r \<noteq> [] then rbind (sd_poll_completion xxh now r) (sd_push now) else Inr r)"

end
