(* ===== verification/Swmr_Safety.thy ===== *)
theory Swmr_Safety
  imports Swmr "HOL-Library.Multiset"
begin

text \<open>
  A writer, a host and a reader of \<open>Swmr\<close> as one transition system: the network cards move the
  bytes of requests one by one in any order, so a read may see a torn subslot. What the alternation
  of the writer and its cooldown give a reader: in time, one subslot is intact and fresh.
\<close>

section \<open>The system\<close>

abbreviation slot_len :: "u64 \<Rightarrow> nat" where
  "slot_len value_size \<equiv> unat (subslot_size value_size)"

definition host_offset :: "u64 \<Rightarrow> nat \<Rightarrow> nat \<Rightarrow> nat \<Rightarrow> nat" where
  "host_offset vs i k p = slot_len vs * (2 * i + k) + p"

definition host_slot :: "u64 \<Rightarrow> (nat \<Rightarrow> byte) \<Rightarrow> nat \<Rightarrow> nat \<Rightarrow> bytes" where
  "host_slot vs h i k = map (\<lambda>p. h (host_offset vs i k p)) [0 ..< slot_len vs]"

definition move_write :: "nat \<Rightarrow> nat \<Rightarrow> swmr_writer \<Rightarrow> (nat \<Rightarrow> byte) \<Rightarrow> swmr_writer \<times> (nat \<Rightarrow> byte)" where
  "move_write j p w h =
     (case qp_sq (sw_rc w) ! j of (i, k, moved) \<Rightarrow>
        (w\<lparr>sw_rc := (sw_rc w)\<lparr>qp_sq := (qp_sq (sw_rc w))[j := (i, k, p # moved)]\<rparr>\<rparr>,
         h(host_offset (sw_value_size w) i k p := raw_buffer (sw_registers w ! i) ! p)))"

definition move_read :: "nat \<Rightarrow> nat \<Rightarrow> (nat \<Rightarrow> byte) \<Rightarrow> swmr_reader \<Rightarrow> swmr_reader" where
  "move_read j p h r =
     (case qp_sq (sd_rc r) ! j of (job, i, moved) \<Rightarrow>
        r\<lparr>sd_rc := (sd_rc r)\<lparr>qp_sq := (qp_sq (sd_rc r))[j := (job, i, p # moved)]\<rparr>,
          sd_memory := (sd_memory r)[job := (sd_memory r ! job)[p := h (host_offset (sd_value_size r) i 0 p)]]\<rparr>)"

record swmr_sys =
  sy_now :: int
  sy_writer :: swmr_writer
  sy_host :: "nat \<Rightarrow> byte"
  sy_reader :: swmr_reader
  sy_base :: "nat \<Rightarrow> u32"

text \<open>
  \<open>sy_base\<close> only serves statements: the incarnation that the host held complete for the register of
  a job when its read was posted, that is the one of the last write the writer saw completed.
\<close>

definition complete_slot :: "swmr_register \<Rightarrow> nat" where
  "complete_slot r = (if sr_scheduled r then 1 - sr_subslot r else sr_subslot r)"

definition last_done :: "swmr_writer \<Rightarrow> (nat \<Rightarrow> byte) \<Rightarrow> nat \<Rightarrow> u32" where
  "last_done w h i = slot_incarnation (host_slot (sw_value_size w) h i (complete_slot (sw_registers w ! i)))"

definition rebase :: "swmr_sys \<Rightarrow> swmr_reader \<Rightarrow> nat \<Rightarrow> u32" where
  "rebase s r job =
     (case map_of (sd_outstanding r) job of
        None \<Rightarrow> sy_base s job
      | Some (i, start) \<Rightarrow>
          if map_of (sd_outstanding (sy_reader s)) job = Some (i, start) then sy_base s job
          else last_done (sy_writer s) (sy_host s) i)"

definition with_reader :: "swmr_reader \<Rightarrow> swmr_sys \<Rightarrow> swmr_sys" where
  "with_reader r s = s\<lparr>sy_reader := r, sy_base := rebase s r\<rparr>"

inductive swmr_step :: "(bytes \<Rightarrow> u64) \<Rightarrow> swmr_sys \<Rightarrow> swmr_sys \<Rightarrow> bool" for xxh where
  step_time: "sy_now s \<le> t \<Longrightarrow> swmr_step xxh s (s\<lparr>sy_now := t\<rparr>)"
| step_write:
    "sw_get_slot i (sy_writer s) = Inr (Some slot) \<Longrightarrow> length v = unat (sw_value_size (sy_writer s)) \<Longrightarrow>
     sw_write xxh (sy_now s) i inc (sw_memcpy slot v (sy_writer s)) = Inr w \<Longrightarrow>
     swmr_step xxh s (s\<lparr>sy_writer := w\<rparr>)"
| step_writer_tick: "sw_tick (sy_now s) (sy_writer s) = Inr w \<Longrightarrow> swmr_step xxh s (s\<lparr>sy_writer := w\<rparr>)"
| step_move_write:
    "j < length (qp_sq (sw_rc (sy_writer s))) \<Longrightarrow> p < slot_len (sw_value_size (sy_writer s)) \<Longrightarrow>
     move_write j p (sy_writer s) (sy_host s) = (w, h) \<Longrightarrow>
     swmr_step xxh s (s\<lparr>sy_writer := w, sy_host := h\<rparr>)"
| step_write_done:
    "qp_sq (sw_rc (sy_writer s)) = (i, k, moved) # rest \<Longrightarrow>
     {0 ..< slot_len (sw_value_size (sy_writer s))} \<subseteq> set moved \<Longrightarrow>
     swmr_step xxh s (s\<lparr>sy_writer := (sy_writer s)\<lparr>sw_rc := qp_complete 1 (sw_rc (sy_writer s))\<rparr>\<rparr>)"
| step_read:
    "i < length (sw_registers (sy_writer s)) \<Longrightarrow> sd_read (sy_now s) i (sy_reader s) = Inr (job, r) \<Longrightarrow>
     swmr_step xxh s (with_reader r s)"
| step_reader_tick: "sd_tick xxh (sy_now s) (sy_reader s) = Inr r \<Longrightarrow> swmr_step xxh s (with_reader r s)"
| step_release: "sd_release job (sy_reader s) = Inr r \<Longrightarrow> swmr_step xxh s (with_reader r s)"
| step_move_read:
    "j < length (qp_sq (sd_rc (sy_reader s))) \<Longrightarrow> p < 2 * slot_len (sd_value_size (sy_reader s)) \<Longrightarrow>
     swmr_step xxh s (s\<lparr>sy_reader := move_read j p (sy_host s) (sy_reader s)\<rparr>)"
| step_read_done:
    "qp_sq (sd_rc (sy_reader s)) = (job, i, moved) # rest \<Longrightarrow>
     {0 ..< 2 * slot_len (sd_value_size (sy_reader s))} \<subseteq> set moved \<Longrightarrow>
     swmr_step xxh s (s\<lparr>sy_reader := (sy_reader s)\<lparr>sd_rc := qp_complete 1 (sd_rc (sy_reader s))\<rparr>\<rparr>)"

section \<open>Slots\<close>

lemma host_offset_inj:
  assumes "host_offset vs i k p = host_offset vs i' k' p'" "k < 2" "k' < 2" "p < slot_len vs" "p' < slot_len vs"
  shows "i = i' \<and> k = k' \<and> p = p'"
proof -
  let ?n = "slot_len vs"
  have "(?n * (2 * i + k) + p) div ?n = (?n * (2 * i' + k') + p') div ?n"
    "(?n * (2 * i + k) + p) mod ?n = (?n * (2 * i' + k') + p') mod ?n"
    using assms(1) by (simp_all add: host_offset_def)
  with assms(4,5) have "2 * i + k = 2 * i' + k'" "p = p'" by simp_all
  with assms(2,3) show ?thesis by presburger
qed

lemma length_host_slot [simp]: "length (host_slot vs h i k) = slot_len vs"
  by (simp add: host_slot_def)

lemma host_slot_nth: "p < slot_len vs \<Longrightarrow> host_slot vs h i k ! p = h (host_offset vs i k p)"
  by (simp add: host_slot_def)

lemma host_slot_other:
  "i' \<noteq> i \<or> k' \<noteq> k \<Longrightarrow> k < 2 \<Longrightarrow> k' < 2 \<Longrightarrow> p < slot_len vs \<Longrightarrow>
   host_slot vs (h(host_offset vs i k p := b)) i' k' = host_slot vs h i' k'"
  unfolding host_slot_def by (auto dest: host_offset_inj)

lemma host_offset_slot: "host_offset vs i 0 (slot_len vs * k + p) = host_offset vs i k p"
  by (simp add: host_offset_def algebra_simps)

lemma subslot_of_nth:
  "length buffer = 2 * slot_len vs \<Longrightarrow> k < 2 \<Longrightarrow>
   length (subslot_of vs k buffer) = slot_len vs \<and>
   (\<forall>p < slot_len vs. subslot_of vs k buffer ! p = buffer ! (slot_len vs * k + p))"
  by (auto simp: subslot_of_def less_2_cases_iff)

lemma subslot_of_eqI:
  assumes "length buffer = 2 * slot_len vs" "k < 2"
    and "\<And>p. p < slot_len vs \<Longrightarrow> buffer ! (slot_len vs * k + p) = h (host_offset vs i k p)"
  shows "subslot_of vs k buffer = host_slot vs h i k"
  using subslot_of_nth [OF assms(1,2)] assms(3) by (auto simp: host_slot_nth intro: nth_equalityI)

section \<open>The best subslot\<close>

lemma best_of_ge:
  "best = Some (i, j) \<Longrightarrow> \<exists>i' j'. best_of xxh bs best = Some (i', j') \<and> i \<le> i'"
proof (induction bs arbitrary: best i j)
  case (Cons b bs)
  show ?case
  proof (cases "intact xxh (snd b) \<and> i < slot_incarnation (snd b)")
    case True
    with Cons.IH [of "Some (slot_incarnation (snd b), fst b)"] Cons.prems show ?thesis
      by (cases b) (force dest: less_imp_le order_trans)
  qed (use Cons in \<open>cases b; auto\<close>)
qed simp

lemma best_of_mem:
  "(k, b) \<in> set bs \<Longrightarrow> intact xxh b \<Longrightarrow> \<exists>i j. best_of xxh bs best = Some (i, j) \<and> slot_incarnation b \<le> i"
proof (induction bs arbitrary: best)
  case (Cons c bs)
  show ?case
  proof (cases "c = (k, b)")
    case True
    then show ?thesis
      using Cons.prems(2) best_of_ge [of "Some (slot_incarnation b, k)"] best_of_ge [of best]
      by (cases best) (auto simp: not_less; meson order_trans)+
  qed (use Cons in \<open>cases c; auto\<close>)
qed simp

lemma best_of_sound:
  "best_of xxh bs best = Some (i, j) \<Longrightarrow>
   best = Some (i, j) \<or> (\<exists>b. (j, b) \<in> set bs \<and> intact xxh b \<and> slot_incarnation b = i)"
  by (induction xxh bs best rule: best_of.induct) (auto split: if_split_asm)

lemma best_subslot_ge:
  "k < 2 \<Longrightarrow> intact xxh (subslot_of vs k buffer) \<Longrightarrow>
   \<exists>i j. best_subslot xxh vs buffer = Some (i, j) \<and> slot_incarnation (subslot_of vs k buffer) \<le> i"
  unfolding best_subslot_def by (rule best_of_mem [of k]) (auto simp: less_2_cases_iff)

theorem best_subslot_sound:
  "best_subslot xxh vs buffer = Some (i, j) \<Longrightarrow>
   j < 2 \<and> intact xxh (subslot_of vs j buffer) \<and> slot_incarnation (subslot_of vs j buffer) = i \<and>
   (\<forall>k < 2. intact xxh (subslot_of vs k buffer) \<longrightarrow> slot_incarnation (subslot_of vs k buffer) \<le> i)"
  using best_of_sound [of xxh _ None i j] best_subslot_ge [of _ xxh vs buffer]
  unfolding best_subslot_def by fastforce

section \<open>What pushing does\<close>

text \<open>Pushing posts some of the queued writes whose registers are not cooling, and keeps the others.\<close>

definition pushed :: "int \<Rightarrow> swmr_writer \<Rightarrow> nat list \<Rightarrow> swmr_writer \<Rightarrow> bool" where
  "pushed now w new w' \<longleftrightarrow>
     (\<exists>rest. w' = w\<lparr>sw_queued := rest,
         sw_rc := (sw_rc w)\<lparr>qp_sq := qp_sq (sw_rc w) @ map (\<lambda>i. (i, sr_subslot (sw_registers w ! i), [])) new\<rparr>,
         sw_outstanding := sw_outstanding w + of_nat (length new)\<rparr> \<and>
       mset (new @ rest) = mset (sw_queued w) \<and>
       (\<forall>i \<in> set new. i < length (sw_registers w) \<and> \<not> cooling now (sw_registers w ! i)) \<and>
       (new \<noteq> [] \<longrightarrow> unat (sw_outstanding w) + length new \<le> 128))"

lemma pushed_refl: "pushed now w [] w"
  by (auto simp: pushed_def intro!: exI [of _ "sw_queued w"])

lemma pushed_rotate: "sw_queued w = i # q \<Longrightarrow> pushed now w [] (w\<lparr>sw_queued := q @ [i]\<rparr>)"
  by (auto simp: pushed_def intro!: exI [of _ "q @ [i]"])

lemma pushed_post:
  assumes "sw_queued w = i # q" "i < length (sw_registers w)" "\<not> cooling now (sw_registers w ! i)"
    and "qp_post (i, sr_subslot (sw_registers w ! i), []) (sw_rc w) = (True, rc)" "sw_outstanding w < 128"
  shows "pushed now w [i] (w\<lparr>sw_queued := q, sw_rc := rc, sw_outstanding := sw_outstanding w + 1\<rparr>)"
  using assms by (auto simp: pushed_def qp_post_def u64_less_iff split: if_split_asm intro!: exI [of _ q])

lemma pushed_trans: "pushed now w new1 w1 \<Longrightarrow> pushed now w1 new2 w2 \<Longrightarrow> pushed now w (new1 @ new2) w2"
  unfolding pushed_def
  apply (elim exE conjE)
  subgoal for rest1 rest2
    by (rule exI [of _ rest2]) (auto simp: unat_u64_add unat_u64_of_nat ac_simps)
  done

lemma sw_push_from_pushed: "sw_push_from i now w = Inr w' \<Longrightarrow> \<exists>new. pushed now w new w'"
proof (induction i now w arbitrary: w' rule: sw_push_from.induct)
  case (1 i now w)
  show ?case
  proof (cases "\<exists>index queued. sw_queued w = index # queued \<and> i < length (sw_queued w) \<and> sw_outstanding w < 128")
    case False
    with "1.prems" have "w' = w" by (subst (asm) sw_push_from.simps) (auto split: list.splits if_splits)
    with pushed_refl show ?thesis by blast
  next
    case True
    then obtain index queued where q: "sw_queued w = index # queued" "i < length (sw_queued w)" "sw_outstanding w < 128"
      by blast
    from "1.prems" q have index: "index < length (sw_registers w)"
      by (subst (asm) sw_push_from.simps) (auto simp: rbind_Inr_iff uat_Inr_iff)
    let ?reg = "sw_registers w ! index"
    show ?thesis
    proof (cases "cooling now ?reg")
      case True
      with "1.prems" q index have r: "sw_push_from (i + 1) now (w\<lparr>sw_queued := queued @ [index]\<rparr>) = Inr w'"
        by (subst (asm) sw_push_from.simps) simp
      from "1.IH"(1) [OF q(1) _ True r] q(2,3) pushed_rotate [OF q(1)] show ?thesis by (blast intro: pushed_trans)
    next
      case False
      obtain posted rc where p: "qp_post (index, sr_subslot ?reg, []) (sw_rc w) = (posted, rc)" by force
      let ?w = "w\<lparr>sw_queued := queued, sw_rc := rc, sw_outstanding := sw_outstanding w + 1\<rparr>"
      from "1.prems" q index False p have r: "posted \<and> sw_push_from (i + 1) now ?w = Inr w'"
        by (subst (asm) sw_push_from.simps) (simp split: if_split_asm)
      from "1.IH"(2) [OF q(1) _ False p [symmetric]] r q(2,3) obtain new where "pushed now ?w new w'" by auto
      with pushed_post [OF q(1) index False] p r q(3) show ?thesis by (auto intro: pushed_trans)
    qed
  qed
qed

lemma sw_push_pushed: "sw_push now w = Inr w' \<Longrightarrow> \<exists>new. pushed now w new w'"
  unfolding sw_push_def by (rule sw_push_from_pushed)

section \<open>The writer and the host\<close>

definition reg_ok :: "(bytes \<Rightarrow> u64) \<Rightarrow> u64 \<Rightarrow> (nat \<Rightarrow> byte) \<Rightarrow> nat \<Rightarrow> swmr_register \<Rightarrow> bool" where
  "reg_ok xxh vs h i r \<longleftrightarrow> sr_subslot r < 2 \<and> length (sr_content r) = unat vs \<and> intact xxh (raw_buffer r) \<and>
     (if sr_scheduled r then intact xxh (host_slot vs h i (1 - sr_subslot r))
      else host_slot vs h i (sr_subslot r) = raw_buffer r)"

text \<open>\<open>wcs\<close> are completions that have been polled and not yet been processed.\<close>

definition owes :: "(bool \<times> nat) list \<Rightarrow> swmr_writer \<Rightarrow> nat list" where
  "owes wcs w = map snd wcs @ qp_owed (sw_rc w)"

definition books_ok :: "(bool \<times> nat) list \<Rightarrow> swmr_writer \<Rightarrow> bool" where
  "books_ok wcs w \<longleftrightarrow> distinct (owes wcs w @ sw_queued w) \<and>
     set (owes wcs w @ sw_queued w) = {i. i < length (sw_registers w) \<and> sr_scheduled (sw_registers w ! i)} \<and>
     sw_outstanding w = of_nat (length (owes wcs w)) \<and> length (owes wcs w) \<le> 128 \<and>
     (\<forall>wc \<in> set wcs \<union> set (qp_cq (sw_rc w)). fst wc)"

definition fits :: "u64 \<Rightarrow> bool" where
  "fits vs \<longleftrightarrow> slot_len vs = 12 + unat vs"

definition writer_ok :: "(bytes \<Rightarrow> u64) \<Rightarrow> (nat \<Rightarrow> byte) \<Rightarrow> (bool \<times> nat) list \<Rightarrow> swmr_writer \<Rightarrow> bool" where
  "writer_ok xxh h wcs w \<longleftrightarrow> books_ok wcs w \<and> fits (sw_value_size w) \<and>
     (\<forall>i < length (sw_registers w). reg_ok xxh (sw_value_size w) h i (sw_registers w ! i)) \<and>
     (\<forall>(i, k, moved) \<in> set (qp_sq (sw_rc w)). k = sr_subslot (sw_registers w ! i) \<and>
        (\<forall>p \<in> set moved. p < slot_len (sw_value_size w) \<longrightarrow>
           h (host_offset (sw_value_size w) i k p) = raw_buffer (sw_registers w ! i) ! p)) \<and>
     (\<forall>wc \<in> set wcs \<union> set (qp_cq (sw_rc w)). host_slot (sw_value_size w) h (snd wc) (sr_subslot (sw_registers w ! snd wc)) =
        raw_buffer (sw_registers w ! snd wc))"

text \<open>
  Subslot \<open>k\<close> of register \<open>i\<close> is not written before \<open>start + write_cooldown\<close>: it is the one the
  writer leaves alone, or the next one to be written and the last write was seen complete after \<open>start\<close>.
\<close>

definition steady :: "swmr_writer \<Rightarrow> int \<Rightarrow> nat \<Rightarrow> nat \<Rightarrow> bool" where
  "steady w start i k \<longleftrightarrow> k < 2 \<and> (let r = sw_registers w ! i; recent = (\<exists>t. sr_last_write r = Some t \<and> start \<le> t) in
     if sr_scheduled r then k = 1 - sr_subslot r \<or> (k = sr_subslot r \<and> i \<in> set (sw_queued w) \<and> recent)
     else k = sr_subslot r \<or> (k = 1 - sr_subslot r \<and> recent))"

lemma writer_ok_books: "writer_ok xxh h wcs w \<Longrightarrow> books_ok wcs w"
  by (simp add: writer_ok_def)

lemma length_raw_buffer [simp]: "length (raw_buffer r) = 12 + length (sr_content r)"
  by (simp add: raw_buffer_def le_inc_def)

lemma books_ok_pushed:
  assumes "books_ok wcs w" "pushed now w new w'"
  shows "books_ok wcs w'"
proof -
  obtain rest where w': "w' = w\<lparr>sw_queued := rest,
      sw_rc := (sw_rc w)\<lparr>qp_sq := qp_sq (sw_rc w) @ map (\<lambda>i. (i, sr_subslot (sw_registers w ! i), [])) new\<rparr>,
      sw_outstanding := sw_outstanding w + of_nat (length new)\<rparr>"
    and m: "mset (new @ rest) = mset (sw_queued w)" and n: "new \<noteq> [] \<longrightarrow> unat (sw_outstanding w) + length new \<le> 128"
    using assms(2) by (auto simp: pushed_def)
  have o: "owes wcs w' = owes wcs w @ new" by (simp add: w' owes_def qp_owed_def comp_def)
  have "mset (owes wcs w' @ sw_queued w') = mset (owes wcs w @ sw_queued w)"
    unfolding o using m by (simp add: w')
  then have "distinct (owes wcs w' @ sw_queued w') = distinct (owes wcs w @ sw_queued w)"
    "set (owes wcs w' @ sw_queued w') = set (owes wcs w @ sw_queued w)"
    by (metis mset_eq_imp_distinct_iff, metis mset_eq_setD)
  moreover have "length (owes wcs w) \<le> 128 \<Longrightarrow> sw_outstanding w = of_nat (length (owes wcs w)) \<Longrightarrow> length (owes wcs w @ new) \<le> 128"
    using n by (cases "new = []") (simp_all add: unat_u64_of_nat)
  ultimately show ?thesis using assms(1) unfolding books_ok_def o by (simp add: w')
qed

lemma writer_ok_pushed:
  assumes "writer_ok xxh h wcs w" "pushed now w new w'"
  shows "writer_ok xxh h wcs w'"
proof -
  have "books_ok wcs w'" using assms books_ok_pushed by (auto simp: writer_ok_def)
  moreover obtain rest where "w' = w\<lparr>sw_queued := rest,
      sw_rc := (sw_rc w)\<lparr>qp_sq := qp_sq (sw_rc w) @ map (\<lambda>i. (i, sr_subslot (sw_registers w ! i), [])) new\<rparr>,
      sw_outstanding := sw_outstanding w + of_nat (length new)\<rparr>"
    using assms(2) by (auto simp: pushed_def)
  ultimately show ?thesis using assms(1) by (simp add: writer_ok_def ball_Un)
qed

lemma steady_pushed:
  assumes "steady w start i k" "pushed now w new w'" "now < start + write_cooldown" "i < length (sw_registers w)"
  shows "steady w' start i k"
proof -
  obtain rest where w': "sw_registers w' = sw_registers w" "sw_queued w' = rest"
    and m: "mset (new @ rest) = mset (sw_queued w)" and n: "\<forall>i \<in> set new. \<not> cooling now (sw_registers w ! i)"
    using assms(2) by (auto simp: pushed_def)
  have q: "set (sw_queued w) = set new \<union> set rest" using mset_eq_setD [OF m] by auto
  have "i \<notin> set new" if "sr_last_write (sw_registers w ! i) = Some t" "start \<le> t" for t
    using that n assms(3) by (auto simp: cooling_def)
  then show ?thesis using assms(1) unfolding steady_def w' q Let_def by auto
qed

lemma books_ok_complete:
  assumes "books_ok (wc # wcs) w" "sw_complete bypass now wc w = Inr w'"
  shows "books_ok wcs w'"
proof -
  let ?i = "snd wc"
  have o: "owes (wc # wcs) w = ?i # owes wcs w" "owes wcs w' = owes wcs w" "sw_queued w' = sw_queued w"
    "qp_cq (sw_rc w') = qp_cq (sw_rc w)"
    using assms(2) by (auto simp: owes_def sw_complete_def rbind_Inr_iff split: if_split_asm)
  have r: "?i < length (sw_registers w)" "sw_outstanding w' = sw_outstanding w - 1"
    "\<exists>r. sw_registers w' = (sw_registers w)[?i := r] \<and> \<not> sr_scheduled r"
    using assms(2) by (auto simp: sw_complete_def rbind_Inr_iff uat_Inr_iff split: if_split_asm)
  have s: "{i. i < length (sw_registers w') \<and> sr_scheduled (sw_registers w' ! i)} =
      {i. i < length (sw_registers w) \<and> sr_scheduled (sw_registers w ! i)} - {?i}"
    using r(1,3) by (auto simp: nth_list_update split: if_split_asm)
  from assms(1) have "?i \<notin> set (owes wcs w @ sw_queued w)" "distinct (owes wcs w @ sw_queued w)"
    "insert ?i (set (owes wcs w @ sw_queued w)) = {i. i < length (sw_registers w) \<and> sr_scheduled (sw_registers w ! i)}"
    unfolding books_ok_def o by auto
  then show ?thesis using assms(1) unfolding books_ok_def s unfolding o r(2) by auto
qed

lemma sw_completeE:
  assumes "sw_complete bypass now wc w = Inr w'"
  obtains "fst wc" "snd wc < length (sw_registers w)" "sr_scheduled (sw_registers w ! snd wc)"
    "w' = w\<lparr>sw_registers := (sw_registers w)[snd wc := (sw_registers w ! snd wc)
            \<lparr>sr_last_write := if bypass then sr_last_write (sw_registers w ! snd wc) else Some now, sr_scheduled := False\<rparr>],
          sw_outstanding := sw_outstanding w - 1\<rparr>"
  using assms by (auto simp: sw_complete_def rbind_Inr_iff uat_Inr_iff split: if_split_asm)

lemma raw_buffer_frame [simp]:
  "raw_buffer (r\<lparr>sr_last_write := t\<rparr>) = raw_buffer r" "raw_buffer (r\<lparr>sr_scheduled := b\<rparr>) = raw_buffer r"
  "raw_buffer (r\<lparr>sr_subslot := k\<rparr>) = raw_buffer r"
  by (simp_all add: raw_buffer_def)

lemma nth_upd: "xs[i := x] ! j = (if i = j \<and> i < length xs then x else xs ! j)"
  by (cases "i < length xs"; cases "i = j") (auto simp: list_update_beyond)

lemma writer_ok_complete:
  assumes "writer_ok xxh h (wc # wcs) w" "sw_complete bypass now wc w = Inr w'"
  shows "writer_ok xxh h wcs w'"
proof -
  have "books_ok wcs w'" by (rule books_ok_complete [OF writer_ok_books [OF assms(1)] assms(2)])
  moreover have slot: "host_slot (sw_value_size w) h (snd wc) (sr_subslot (sw_registers w ! snd wc)) =
      raw_buffer (sw_registers w ! snd wc)"
    using assms(1) by (simp add: writer_ok_def)
  from assms(2) obtain r where w': "w' = w\<lparr>sw_registers := (sw_registers w)[snd wc := r], sw_outstanding := sw_outstanding w - 1\<rparr>"
    and i: "snd wc < length (sw_registers w)"
    and r: "sr_subslot r = sr_subslot (sw_registers w ! snd wc)" "raw_buffer r = raw_buffer (sw_registers w ! snd wc)"
      "sr_content r = sr_content (sw_registers w ! snd wc)" "\<not> sr_scheduled r"
    by (elim sw_completeE) simp
  have "reg_ok xxh (sw_value_size w) h (snd wc) r"
    using assms(1) i slot r by (auto simp: writer_ok_def reg_ok_def)
  ultimately show ?thesis using assms(1) i r(1,2) by (auto simp: writer_ok_def w' nth_upd)
qed

lemma steady_complete:
  assumes "steady w start i k" "sw_complete False now wc w = Inr w'" "start \<le> now" "snd wc \<notin> set (sw_queued w)"
  shows "steady w' start i k"
proof -
  from assms(2) obtain r where w': "sw_registers w' = (sw_registers w)[snd wc := r]" "sw_queued w' = sw_queued w"
    and i: "snd wc < length (sw_registers w)" "sr_scheduled (sw_registers w ! snd wc)"
    and r: "sr_subslot r = sr_subslot (sw_registers w ! snd wc)" "sr_last_write r = Some now" "\<not> sr_scheduled r"
    by (elim sw_completeE) simp
  show ?thesis using assms(1,3,4) i r by (auto simp: steady_def Let_def w' nth_upd)
qed

definition same_shape :: "swmr_writer \<Rightarrow> swmr_writer \<Rightarrow> bool" where
  "same_shape w w' \<longleftrightarrow> length (sw_registers w') = length (sw_registers w) \<and> sw_value_size w' = sw_value_size w"

lemma same_shape_pushed: "pushed now w new w' \<Longrightarrow> same_shape w w'"
  by (auto simp: pushed_def same_shape_def)

lemma books_not_queued: "books_ok (wc # wcs) w \<Longrightarrow> snd wc \<notin> set (sw_queued w)"
  by (auto simp: books_ok_def owes_def)

lemma sw_complete_all:
  assumes "rfold (sw_complete False now) wcs w = Inr w'" "writer_ok xxh h wcs w"
  shows "writer_ok xxh h [] w' \<and> same_shape w w' \<and>
    (\<forall>start i k. steady w start i k \<longrightarrow> start \<le> now \<longrightarrow> steady w' start i k)"
  using assms
proof (induction wcs arbitrary: w)
  case (Cons wc wcs)
  then obtain w1 where w1: "sw_complete False now wc w = Inr w1" "rfold (sw_complete False now) wcs w1 = Inr w'"
    by (auto simp: rbind_Inr_iff)
  from Cons.IH [OF w1(2) writer_ok_complete [OF Cons.prems(2) w1(1)]]
  have IH: "writer_ok xxh h [] w'" "same_shape w1 w'"
    "\<And>start i k. steady w1 start i k \<Longrightarrow> start \<le> now \<Longrightarrow> steady w' start i k" by blast+
  have "same_shape w w1" using w1(1) by (elim sw_completeE) (simp add: same_shape_def)
  moreover have "snd wc \<notin> set (sw_queued w)" 
    by (rule books_not_queued [OF writer_ok_books [OF Cons.prems(2)]])
  then have "steady w1 start i k" if "steady w start i k" "start \<le> now" for start i k
    using steady_complete [OF that(1) w1(1) that(2)] by blast
  ultimately show ?case using IH by (auto simp: same_shape_def)
qed (simp add: same_shape_def)

lemma sw_poll_ok:
  assumes "sw_poll False now w = Inr w'" "writer_ok xxh h [] w"
  shows "writer_ok xxh h [] w' \<and> same_shape w w' \<and>
    (\<forall>start i k. steady w start i k \<longrightarrow> start \<le> now \<longrightarrow> steady w' start i k)"
proof -
  let ?n = "unat (sw_outstanding w)"
  have e: "rfold (sw_complete False now) (take ?n (qp_cq (sw_rc w)))
      (w\<lparr>sw_rc := (sw_rc w)\<lparr>qp_cq := drop ?n (qp_cq (sw_rc w))\<rparr>\<rparr>) = Inr w'" (is "rfold _ ?wcs ?w = _")
    using assms(1) by (auto simp: sw_poll_def qp_poll_def split: if_split_asm)
  have o: "owes ?wcs ?w = owes [] w" by (simp add: owes_def qp_owed_def flip: map_append)
  have c: "set ?wcs \<union> set (qp_cq (sw_rc ?w)) = set (qp_cq (sw_rc w))"
    by (simp flip: set_append)
  have "writer_ok xxh h ?wcs ?w" using assms(2) unfolding writer_ok_def books_ok_def o c by simp
  moreover have "steady ?w = steady w" by (intro ext) (simp add: steady_def)
  ultimately show ?thesis using sw_complete_all [OF e] by (simp add: same_shape_def)
qed

lemma sw_tick_ok:
  assumes "sw_tick now w = Inr w'" "writer_ok xxh h [] w"
  shows "writer_ok xxh h [] w' \<and> same_shape w w' \<and>
    (\<forall>start i k. steady w start i k \<longrightarrow> start \<le> now \<longrightarrow> now < start + write_cooldown \<longrightarrow>
       i < length (sw_registers w) \<longrightarrow> steady w' start i k)"
proof -
  obtain w1 where w1: "(if sw_outstanding w \<noteq> 0 then sw_poll False now w else Inr w) = Inr w1" "sw_push now w1 = Inr w'"
    using assms(1) by (auto simp: sw_tick_def rbind_Inr_iff)
  have 1: "writer_ok xxh h [] w1 \<and> same_shape w w1 \<and>
      (\<forall>start i k. steady w start i k \<longrightarrow> start \<le> now \<longrightarrow> steady w1 start i k)"
    using w1(1) sw_poll_ok [of now w w1 xxh h] assms(2) by (auto simp: same_shape_def split: if_split_asm)
  obtain new where new: "pushed now w1 new w'" using sw_push_pushed [OF w1(2)] by blast
  from writer_ok_pushed [OF _ new] steady_pushed [OF _ new] same_shape_pushed [OF new] 1
  show ?thesis by (auto simp: same_shape_def)
qed

lemma sw_get_slotD:
  "sw_get_slot i w = Inr (Some slot) \<Longrightarrow> slot = i \<and> i < length (sw_registers w) \<and> \<not> sr_scheduled (sw_registers w ! i)"
  by (auto simp: sw_get_slot_def rbind_Inr_iff uat_Inr_iff split: if_split_asm)

lemma intact_raw_buffer: "intact xxh (raw_buffer r) \<longleftrightarrow> sr_hash r = xxh (le_inc (sr_incarnation r) @ sr_content r)"
  by (simp add: intact_def raw_buffer_def)

text \<open>What a write does before it pushes.\<close>

lemma sw_writeE:
  assumes "sw_write xxh now i inc (sw_memcpy i v w) = Inr w'" "i < length (sw_registers w)" "sr_subslot (sw_registers w ! i) < 2"
  obtains r new where "sr_content r = v" "sr_scheduled r" "intact xxh (raw_buffer r)" "sr_subslot r = 1 - sr_subslot (sw_registers w ! i)"
    "sr_last_write r = sr_last_write (sw_registers w ! i)"
    "inc = None \<Longrightarrow> sr_incarnation r = sr_incarnation (sw_registers w ! i) + 1"
    "\<And>n. inc = Some n \<Longrightarrow> sr_incarnation r = n + 2 \<and> sr_incarnation (sw_registers w ! i) < sr_incarnation r"
    "pushed now (w\<lparr>sw_registers := (sw_registers w)[i := r], sw_queued := sw_queued w @ [i]\<rparr>) new w'"
proof -
  let ?reg = "(sw_registers w ! i)\<lparr>sr_content := v, sr_scheduled := True\<rparr>"
  have flip: "Suc (sr_subslot (sw_registers w ! i)) mod 2 = 1 - sr_subslot (sw_registers w ! i)"
    using assms(3) by (auto simp: less_2_cases_iff)
  obtain reg1 where reg1: "(case inc of None \<Rightarrow> reg1 = sr_increment ?reg | Some n \<Rightarrow> sr_set_incarnation n ?reg = Inr reg1)"
    and p: "sw_push now (w\<lparr>sw_registers := (sw_registers w)[i := (sr_change_subslot reg1)\<lparr>sr_hash :=
        xxh (le_inc (sr_incarnation (sr_change_subslot reg1)) @ sr_content (sr_change_subslot reg1))\<rparr>],
      sw_queued := sw_queued w @ [i]\<rparr>) = Inr w'"
    using assms(1,2)
    by (auto simp: sw_write_def sw_memcpy_def rbind_Inr_iff uat_Inr_iff Let_def split: option.splits if_split_asm)
  from sw_push_pushed [OF p] obtain new where "pushed now (w\<lparr>sw_registers := (sw_registers w)[i := (sr_change_subslot reg1)\<lparr>sr_hash :=
        xxh (le_inc (sr_incarnation (sr_change_subslot reg1)) @ sr_content (sr_change_subslot reg1))\<rparr>],
      sw_queued := sw_queued w @ [i]\<rparr>) new w'" by blast
  moreover have "sr_content reg1 = v" "sr_scheduled reg1" "sr_subslot reg1 = sr_subslot (sw_registers w ! i)"
    "sr_last_write reg1 = sr_last_write (sw_registers w ! i)"
    "inc = None \<Longrightarrow> sr_incarnation reg1 = sr_incarnation (sw_registers w ! i) + 1"
    "\<And>n. inc = Some n \<Longrightarrow> sr_incarnation reg1 = n + 2 \<and> sr_incarnation (sw_registers w ! i) < sr_incarnation reg1"
    using reg1 by (auto simp: sr_increment_def sr_set_incarnation_def Let_def split: option.splits if_split_asm)
  ultimately show ?thesis using flip by (intro that) (auto simp: intact_raw_buffer sr_change_subslot_def)
qed

lemma sw_write_ok:
  assumes "sw_write xxh now i inc (sw_memcpy i v w) = Inr w'" "i < length (sw_registers w)" "\<not> sr_scheduled (sw_registers w ! i)"
    and "writer_ok xxh h [] w" "length v = unat (sw_value_size w)"
  shows "writer_ok xxh h [] w' \<and> same_shape w w' \<and>
    (\<forall>start j k. steady w start j k \<longrightarrow> now < start + write_cooldown \<longrightarrow> j < length (sw_registers w) \<longrightarrow> steady w' start j k)"
proof -
  have ok: "reg_ok xxh (sw_value_size w) h i (sw_registers w ! i)" using assms(2,4) by (simp add: writer_ok_def)
  then have k: "sr_subslot (sw_registers w ! i) < 2" by (simp add: reg_ok_def)
  obtain r new where r: "sr_content r = v" "sr_scheduled r" "intact xxh (raw_buffer r)"
      "sr_subslot r = 1 - sr_subslot (sw_registers w ! i)" "sr_last_write r = sr_last_write (sw_registers w ! i)"
    and new: "pushed now (w\<lparr>sw_registers := (sw_registers w)[i := r], sw_queued := sw_queued w @ [i]\<rparr>) new w'"
      (is "pushed now ?w new w'")
    using sw_writeE [OF assms(1,2) k] by metis
  have fresh: "i \<notin> set (owes [] w @ sw_queued w)" using assms(3) writer_ok_books [OF assms(4)] by (auto simp: books_ok_def)
  have o: "owes [] ?w = owes [] w" by (simp add: owes_def)
  have "{j. j < length (sw_registers ?w) \<and> sr_scheduled (sw_registers ?w ! j)} =
      insert i {j. j < length (sw_registers w) \<and> sr_scheduled (sw_registers w ! j)}"
    using assms(2) r(2) by (auto simp: nth_upd)
  then have "books_ok [] ?w" using writer_ok_books [OF assms(4)] fresh unfolding books_ok_def o by auto
  moreover have "i \<noteq> fst e" if "e \<in> set (qp_sq (sw_rc w))" for e
    using fresh that by (auto simp: owes_def qp_owed_def)
  moreover have "i \<noteq> snd e" if "e \<in> set (qp_cq (sw_rc w))" for e
    using fresh that by (auto simp: owes_def qp_owed_def)
  moreover have "1 - (1 - sr_subslot (sw_registers w ! i)) = sr_subslot (sw_registers w ! i)" using k by simp
  then have "reg_ok xxh (sw_value_size w) h i r" using ok assms(3,5) r by (auto simp: reg_ok_def)
  ultimately have w: "writer_ok xxh h [] ?w" using assms(4) by (force simp: writer_ok_def nth_upd)
  have "steady ?w start j k" if "steady w start j k" for start j k
    using that assms(2,3) r k by (auto simp: steady_def Let_def nth_upd)
  with writer_ok_pushed [OF w new] steady_pushed [OF _ new] same_shape_pushed [OF new]
  show ?thesis by (auto simp: same_shape_def)
qed

lemma posted_scheduled:
  assumes "books_ok [] w" "(i, k, moved) \<in> set (qp_sq (sw_rc w))"
  shows "i < length (sw_registers w)" "sr_scheduled (sw_registers w ! i)" "i \<notin> set (sw_queued w)"
    "i \<notin> snd ` set (qp_cq (sw_rc w))"
proof -
  have "i \<in> fst ` set (qp_sq (sw_rc w))" using assms(2) by force
  with assms(1) show "i < length (sw_registers w)" "sr_scheduled (sw_registers w ! i)" "i \<notin> set (sw_queued w)"
    "i \<notin> snd ` set (qp_cq (sw_rc w))"
    by (auto simp: books_ok_def owes_def qp_owed_def)
qed

lemma move_write_ok:
  assumes "writer_ok xxh h [] w" "j < length (qp_sq (sw_rc w))" "p < slot_len (sw_value_size w)"
    and "move_write j p w h = (w', h')"
  shows "writer_ok xxh h' [] w'" "same_shape w w'" "steady w' = steady w"
    "steady w start i k \<Longrightarrow> i < length (sw_registers w) \<Longrightarrow> host_slot (sw_value_size w) h' i k = host_slot (sw_value_size w) h i k"
proof -
  let ?vs = "sw_value_size w"
  obtain i0 k0 moved where e: "qp_sq (sw_rc w) ! j = (i0, k0, moved)" by (metis prod.exhaust)
  then have mem: "(i0, k0, moved) \<in> set (qp_sq (sw_rc w))" using assms(2) by (metis nth_mem)
  note s = posted_scheduled [OF writer_ok_books [OF assms(1)] mem]
  have k0: "k0 = sr_subslot (sw_registers w ! i0)" "k0 < 2"
    using assms(1) mem s(1) by (auto simp: writer_ok_def reg_ok_def)
  have w': "w' = w\<lparr>sw_rc := (sw_rc w)\<lparr>qp_sq := (qp_sq (sw_rc w))[j := (i0, k0, p # moved)]\<rparr>\<rparr>"
    and h': "h' = h(host_offset ?vs i0 k0 p := raw_buffer (sw_registers w ! i0) ! p)"
    using assms(4) e by (auto simp: move_write_def)
  have other: "host_slot ?vs h' i k = host_slot ?vs h i k" if "i \<noteq> i0 \<or> k \<noteq> k0" "k < 2" for i k
    unfolding h' using host_slot_other [OF that(1) k0(2) that(2) assms(3)] .
  have "map fst (qp_sq (sw_rc w')) = map fst (qp_sq (sw_rc w))"
    using e assms(2) by (simp add: w' map_update list_update_same_conv)
  then have o: "owes [] w' = owes [] w" "sw_queued w' = sw_queued w" "sw_registers w' = sw_registers w"
    "sw_outstanding w' = sw_outstanding w" "qp_cq (sw_rc w') = qp_cq (sw_rc w)" "sw_value_size w' = ?vs"
    by (simp_all add: owes_def qp_owed_def w')
  have "books_ok [] w'" using writer_ok_books [OF assms(1)] unfolding books_ok_def o .
  moreover have "reg_ok xxh ?vs h' i (sw_registers w ! i)" if "i < length (sw_registers w)" for i
  proof -
    have ok: "reg_ok xxh ?vs h i (sw_registers w ! i)" using assms(1) that by (simp add: writer_ok_def)
    then have "host_slot ?vs h' i (if sr_scheduled (sw_registers w ! i) then 1 - sr_subslot (sw_registers w ! i)
        else sr_subslot (sw_registers w ! i)) = host_slot ?vs h i (if sr_scheduled (sw_registers w ! i)
        then 1 - sr_subslot (sw_registers w ! i) else sr_subslot (sw_registers w ! i))"
      by (intro other) (use k0 s(2) in \<open>auto simp: reg_ok_def less_2_cases_iff\<close>)
    with ok show ?thesis by (auto simp: reg_ok_def split: if_split_asm)
  qed
  moreover have "k = sr_subslot (sw_registers w ! i) \<and> (\<forall>q \<in> set moved'. q < slot_len ?vs \<longrightarrow>
      h' (host_offset ?vs i k q) = raw_buffer (sw_registers w ! i) ! q)"
    if "(i, k, moved') \<in> set (qp_sq (sw_rc w'))" for i k moved'
  proof (cases "(i, k, moved') = (i0, k0, p # moved)")
    case True
    have "\<forall>q \<in> set moved. q < slot_len ?vs \<longrightarrow> h (host_offset ?vs i0 k0 q) = raw_buffer (sw_registers w ! i0) ! q"
      using assms(1) mem by (auto simp: writer_ok_def)
    with True k0 assms(3) show ?thesis by (auto simp: h' dest: host_offset_inj)
  next
    case False
    then have m: "(i, k, moved') \<in> set (qp_sq (sw_rc w))"
      using that set_update_subset_insert [of "qp_sq (sw_rc w)" j] by (auto simp: w')
    note s' = posted_scheduled [OF writer_ok_books [OF assms(1)] m]
    have "k = sr_subslot (sw_registers w ! i) \<and> (\<forall>q \<in> set moved'. q < slot_len ?vs \<longrightarrow>
      h (host_offset ?vs i k q) = raw_buffer (sw_registers w ! i) ! q)" "k < 2"
      using assms(1) m s'(1) by (auto simp: writer_ok_def reg_ok_def)
    with k0(2) assms(3) show ?thesis by (auto simp: h' dest: host_offset_inj)
  qed
  moreover have "host_slot ?vs h' (snd wc) (sr_subslot (sw_registers w ! snd wc)) = raw_buffer (sw_registers w ! snd wc)"
    if "wc \<in> set (qp_cq (sw_rc w))" for wc
  proof -
    have "snd wc \<noteq> i0" "snd wc < length (sw_registers w)"
      using that s(4) writer_ok_books [OF assms(1)] by (auto simp: books_ok_def owes_def qp_owed_def)
    then show ?thesis using assms(1) that other [of "snd wc"] by (auto simp: writer_ok_def reg_ok_def)
  qed
  ultimately show "writer_ok xxh h' [] w'" using assms(1) unfolding writer_ok_def o by auto
  show "same_shape w w'" by (simp add: same_shape_def o)
  show "steady w' = steady w" by (intro ext) (simp add: steady_def o)
  show "host_slot ?vs h' i k = host_slot ?vs h i k" if "steady w start i k" "i < length (sw_registers w)"
    using that s(2,3) k0 by (intro other) (auto simp: steady_def Let_def less_2_cases_iff)
qed

lemma write_done_ok:
  assumes "writer_ok xxh h [] w" "qp_sq (sw_rc w) = (i, k, moved) # rest" "{0 ..< slot_len (sw_value_size w)} \<subseteq> set moved"
  shows "writer_ok xxh h [] (w\<lparr>sw_rc := qp_complete 1 (sw_rc w)\<rparr>)" "steady (w\<lparr>sw_rc := qp_complete 1 (sw_rc w)\<rparr>) = steady w"
proof -
  let ?w = "w\<lparr>sw_rc := qp_complete 1 (sw_rc w)\<rparr>" and ?vs = "sw_value_size w"
  have mem: "(i, k, moved) \<in> set (qp_sq (sw_rc w))" using assms(2) by simp
  note s = posted_scheduled [OF writer_ok_books [OF assms(1)] mem]
  have len: "length (raw_buffer (sw_registers w ! i)) = slot_len ?vs"
    using assms(1) s(1) by (simp add: writer_ok_def reg_ok_def fits_def)
  have "host_slot ?vs h i (sr_subslot (sw_registers w ! i)) = raw_buffer (sw_registers w ! i)"
  proof (rule nth_equalityI)
    fix p assume "p < length (host_slot ?vs h i (sr_subslot (sw_registers w ! i)))"
    then have p: "p < slot_len ?vs" by simp
    with assms(3) have "p \<in> set moved" by auto
    with p assms(1) mem show "host_slot ?vs h i (sr_subslot (sw_registers w ! i)) ! p = raw_buffer (sw_registers w ! i) ! p"
      by (auto simp: writer_ok_def host_slot_nth)
  qed (use len in simp)
  moreover have "owes [] ?w = owes [] w" by (simp add: owes_def)
  moreover have "qp_cq (sw_rc ?w) = qp_cq (sw_rc w) @ [(True, i)]" "qp_sq (sw_rc ?w) = rest"
    using assms(2) by (simp_all add: qp_complete_def)
  ultimately show "writer_ok xxh h [] ?w"
    using assms(1,2) unfolding writer_ok_def books_ok_def by (auto simp: ball_Un)
  show "steady ?w = steady w" by (intro ext) (simp add: steady_def)
qed

section \<open>The reader\<close>

definition sd_jobs :: "swmr_reader \<Rightarrow> nat list" where
  "sd_jobs r = map fst (sd_outstanding r) @ map fst (sd_queued r) @ sd_pool r"

definition reader_ok :: "nat \<Rightarrow> int \<Rightarrow> (bool \<times> nat) list \<Rightarrow> swmr_reader \<Rightarrow> bool" where
  "reader_ok n now wcs r \<longleftrightarrow> distinct (sd_jobs r) \<and> sorted_keys (sd_completed r) \<and>
     set (sd_jobs r) \<inter> fst ` set (sd_completed r) = {} \<and>
     set (sd_jobs r) \<union> fst ` set (sd_completed r) \<subseteq> {0 ..< length (sd_memory r)} \<and>
     (\<forall>b \<in> set (sd_memory r). length b = 2 * slot_len (sd_value_size r)) \<and>
     map fst (sd_outstanding r) = map snd wcs @ qp_owed (sd_rc r) \<and>
     (\<forall>wc \<in> set wcs \<union> set (qp_cq (sd_rc r)). fst wc) \<and>
     (\<forall>(job, i, start) \<in> set (sd_outstanding r). i < n \<and> start \<le> now) \<and>
     (\<forall>(job, i) \<in> set (sd_queued r). i < n) \<and>
     (\<forall>(job, i, moved) \<in> set (qp_sq (sd_rc r)). \<exists>start. (job, i, start) \<in> set (sd_outstanding r))"

text \<open>A position of the local buffer of a job holds what the card fetched, once it has moved it.\<close>

definition fetched :: "swmr_reader \<Rightarrow> nat \<Rightarrow> nat \<Rightarrow> bool" where
  "fetched r job p \<longleftrightarrow> (\<forall>(job', i, moved) \<in> set (qp_sq (sd_rc r)). job' = job \<longrightarrow> p \<in> set moved)"

definition read_ok :: "(bytes \<Rightarrow> u64) \<Rightarrow> swmr_writer \<Rightarrow> (nat \<Rightarrow> byte) \<Rightarrow> int \<Rightarrow> u32 \<Rightarrow> swmr_reader \<Rightarrow> nat \<times> nat \<times> int \<Rightarrow> bool" where
  "read_ok xxh w h now base r = (\<lambda>(job, i, start). now < start + write_cooldown \<longrightarrow>
     (\<exists>k. steady w start i k \<and> intact xxh (host_slot (sw_value_size w) h i k) \<and>
        slot_incarnation (host_slot (sw_value_size w) h i k) = base \<and>
        (\<forall>p < slot_len (sw_value_size w). fetched r job (slot_len (sw_value_size w) * k + p) \<longrightarrow>
           sd_memory r ! job ! (slot_len (sw_value_size w) * k + p) = host_slot (sw_value_size w) h i k ! p)))"

definition sys_ok :: "(bytes \<Rightarrow> u64) \<Rightarrow> swmr_sys \<Rightarrow> bool" where
  "sys_ok xxh s \<longleftrightarrow> writer_ok xxh (sy_host s) [] (sy_writer s) \<and> sd_value_size (sy_reader s) = sw_value_size (sy_writer s) \<and>
     reader_ok (length (sw_registers (sy_writer s))) (sy_now s) [] (sy_reader s) \<and>
     (\<forall>e \<in> set (sd_outstanding (sy_reader s)).
        read_ok xxh (sy_writer s) (sy_host s) (sy_now s) (sy_base s (fst e)) (sy_reader s) e)"

lemma sd_push_result:
  "sd_push now r = Inr r' \<Longrightarrow> \<exists>new rest. sd_queued r = new @ rest \<and>
     r' = r\<lparr>sd_queued := rest, sd_rc := (sd_rc r)\<lparr>qp_sq := qp_sq (sd_rc r) @ map (\<lambda>(job, i). (job, i, [])) new\<rparr>,
            sd_outstanding := sd_outstanding r @ map (\<lambda>(job, i). (job, i, now)) new\<rparr>"
proof (induction now r arbitrary: r' rule: sd_push.induct)
  case (1 now r)
  show ?case
  proof (cases "\<exists>job index queued. sd_queued r = (job, index) # queued \<and> length (sd_outstanding r) < 128")
    case False
    with "1.prems" have "r' = r" by (subst (asm) sd_push.simps) (auto split: list.splits if_splits)
    then show ?thesis by (intro exI [of _ "[]"] exI [of _ "sd_queued r"]) auto
  next
    case True
    then obtain job index queued where q: "sd_queued r = (job, index) # queued" "length (sd_outstanding r) < 128" by blast
    obtain posted rc where p: "qp_post (job, index, []) (sd_rc r) = (posted, rc)" by force
    let ?r = "r\<lparr>sd_queued := queued, sd_rc := rc, sd_outstanding := sd_outstanding r @ [(job, index, now)]\<rparr>"
    from "1.prems" q p have r: "posted \<and> sd_push now ?r = Inr r'"
      by (subst (asm) sd_push.simps) (simp split: if_split_asm)
    from "1.IH" [OF q(1) refl q(2) refl p [symmetric]] r obtain new rest where n: "queued = new @ rest"
      "r' = ?r\<lparr>sd_queued := rest, sd_rc := rc\<lparr>qp_sq := qp_sq rc @ map (\<lambda>(job, i). (job, i, [])) new\<rparr>,
            sd_outstanding := (sd_outstanding r @ [(job, index, now)]) @ map (\<lambda>(job, i). (job, i, now)) new\<rparr>"
      by auto
    from p r have rc: "rc = (sd_rc r)\<lparr>qp_sq := qp_sq (sd_rc r) @ [(job, index, [])]\<rparr>"
      by (auto simp: qp_post_def split: if_split_asm)
    show ?thesis
      by (rule exI [of _ "(job, index) # new"], rule exI [of _ rest]) (simp add: q n rc)
  qed
qed

lemma reader_ok_push:
  assumes "sd_push now r = Inr r'" "reader_ok n now wcs r"
  shows "reader_ok n now wcs r'"
proof -
  from sd_push_result [OF assms(1)] obtain new rest where q: "sd_queued r = new @ rest"
    and r': "r' = r\<lparr>sd_queued := rest, sd_rc := (sd_rc r)\<lparr>qp_sq := qp_sq (sd_rc r) @ map (\<lambda>(job, i). (job, i, [])) new\<rparr>,
            sd_outstanding := sd_outstanding r @ map (\<lambda>(job, i). (job, i, now)) new\<rparr>" by blast
  have j: "sd_jobs r' = sd_jobs r" by (simp add: sd_jobs_def q r' comp_def case_prod_beta)
  have o: "map fst (sd_outstanding r') = map fst (sd_outstanding r) @ map fst new"
    "qp_owed (sd_rc r') = qp_owed (sd_rc r) @ map fst new"
    by (simp_all add: r' qp_owed_def comp_def case_prod_beta)
  have f: "sd_completed r' = sd_completed r" "sd_memory r' = sd_memory r" "sd_value_size r' = sd_value_size r"
    "qp_cq (sd_rc r') = qp_cq (sd_rc r)" by (simp_all add: r')
  have "\<forall>(job, i) \<in> set new. i < n" using assms(2) by (auto simp: reader_ok_def q)
  then have "\<forall>(job, i, start) \<in> set (sd_outstanding r'). i < n \<and> start \<le> now"
    using assms(2) by (auto simp: reader_ok_def r')
  moreover have "\<forall>(job, i, moved) \<in> set (qp_sq (sd_rc r')). \<exists>start. (job, i, start) \<in> set (sd_outstanding r')"
    using assms(2) by (fastforce simp: reader_ok_def r')
  moreover have "\<forall>(job, i) \<in> set (sd_queued r'). i < n" using assms(2) by (simp add: reader_ok_def r' q)
  ultimately show ?thesis using assms(2) unfolding reader_ok_def j o f by simp
qed

end
