(* ===== verification/Swmr_Reads.thy ===== *)
theory Swmr_Reads
  imports Swmr_Safety
begin

text \<open>
  The invariant of the register system, and what it means for reads: a read that is answered within
  the cooldown finds an intact subslot and is at least as recent as the last write completed before it.
\<close>

lemma sd_completeE:
  assumes "sd_complete xxh now wc r = Inr r'"
  obtains (good) i start outs inc k where "sd_outstanding r = (snd wc, i, start) # outs"
      "best_subslot xxh (sd_value_size r) (sd_memory r ! snd wc) = Some (inc, k)"
      "r' = r\<lparr>sd_outstanding := outs, sd_completed := alist_insert (snd wc) (k, inc - 2) (sd_completed r)\<rparr>"
  | (again) i start outs where "sd_outstanding r = (snd wc, i, start) # outs"
      "best_subslot xxh (sd_value_size r) (sd_memory r ! snd wc) = None" "start + write_cooldown < now"
      "r' = r\<lparr>sd_outstanding := outs, sd_queued := sd_queued r @ [(snd wc, i)]\<rparr>"
proof -
  from assms obtain i start outs where o: "sd_outstanding r = (snd wc, i, start) # outs"
    by (cases "sd_outstanding r") (auto simp: sd_complete_def split: if_split_asm)
  show thesis
  proof (cases "best_subslot xxh (sd_value_size r) (sd_memory r ! snd wc)")
    case None
    with assms o show thesis
      by (intro again [OF o None]) (simp_all add: sd_complete_def rbind_Inr_iff uat_Inr_iff split: if_split_asm)
  next
    case (Some best)
    obtain inc k where b: "best = (inc, k)" by force
    with Some assms o show thesis
      by (intro good [OF o, of inc k]) (simp_all add: sd_complete_def rbind_Inr_iff uat_Inr_iff split: if_split_asm)
  qed
qed

lemma reader_ok_tail:
  assumes "reader_ok n now (wc # wcs) r" "sd_outstanding r = (snd wc, i, start) # outs"
  shows "\<forall>(job, i, moved) \<in> set (qp_sq (sd_rc r)). \<exists>start. (job, i, start) \<in> set outs"
proof (intro ballI, clarify)
  fix job i' moved
  assume m: "(job, i', moved) \<in> set (qp_sq (sd_rc r))"
  have "\<forall>(job, i, moved) \<in> set (qp_sq (sd_rc r)). \<exists>start. (job, i, start) \<in> set (sd_outstanding r)"
    using assms(1) by (simp add: reader_ok_def)
  with m obtain start' where s: "(job, i', start') \<in> set (sd_outstanding r)" by fastforce
  have "job \<in> set (qp_owed (sd_rc r))" using m by (force simp: qp_owed_def)
  moreover have e: "map fst outs = map snd wcs @ qp_owed (sd_rc r)"
    using assms by (simp add: reader_ok_def sd_jobs_def)
  have "distinct (map fst (sd_outstanding r))"
    using assms(1) unfolding reader_ok_def sd_jobs_def distinct_append by blast
  then have "snd wc \<notin> set (qp_owed (sd_rc r))" unfolding assms(2) list.map distinct.simps fst_conv e by simp
  ultimately have "job \<noteq> snd wc" by blast
  with s assms(2) show "\<exists>start. (job, i', start) \<in> set outs" by auto
qed

lemma reader_ok_complete:
  assumes "sd_complete xxh now wc r = Inr r'" "reader_ok n now (wc # wcs) r"
  shows "reader_ok n now wcs r'"
  using assms(1)
proof (cases rule: sd_completeE)
  case (good i start outs inc k)
  have j: "sd_jobs r = snd wc # sd_jobs r'" by (simp add: sd_jobs_def good)
  have d: "distinct (sd_jobs r')" "snd wc \<notin> set (sd_jobs r')" "sorted_keys (sd_completed r)"
    "set (sd_jobs r') \<inter> fst ` set (sd_completed r) = {}"
    "insert (snd wc) (set (sd_jobs r')) \<union> fst ` set (sd_completed r) \<subseteq> {0 ..< length (sd_memory r)}"
    using assms(2) unfolding reader_ok_def j by simp_all
  have c: "sorted_keys (sd_completed r')" "fst ` set (sd_completed r') = insert (snd wc) (fst ` set (sd_completed r))"
    using d(3) by (simp_all add: good sorted_alist_insert set_alist_insert)
  have f: "sd_memory r' = sd_memory r" "sd_value_size r' = sd_value_size r" "sd_rc r' = sd_rc r" "sd_queued r' = sd_queued r"
    by (simp_all add: good)
  have "\<forall>(job, i, moved) \<in> set (qp_sq (sd_rc r')). \<exists>start. (job, i, start) \<in> set (sd_outstanding r')"
    using reader_ok_tail [OF assms(2) good(1)] by (simp add: good)
  moreover have "map fst (sd_outstanding r') = map snd wcs @ qp_owed (sd_rc r')"
    "\<forall>(job, i, start) \<in> set (sd_outstanding r'). i < n \<and> start \<le> now"
    using assms(2) by (simp_all add: reader_ok_def good)
  moreover have "set (sd_jobs r') \<inter> fst ` set (sd_completed r') = {}"
    "set (sd_jobs r') \<union> fst ` set (sd_completed r') \<subseteq> {0 ..< length (sd_memory r')}"
    unfolding c f using d(2,4,5) by auto
  ultimately show ?thesis using assms(2) d(1) c(1) unfolding reader_ok_def f by simp
next
  case (again i start outs)
  have j: "mset (sd_jobs r') = mset (sd_jobs r)" by (simp add: sd_jobs_def again)
  then have d: "distinct (sd_jobs r') = distinct (sd_jobs r)" "set (sd_jobs r') = set (sd_jobs r)"
    by (metis mset_eq_imp_distinct_iff, metis mset_eq_setD)
  have f: "sd_memory r' = sd_memory r" "sd_value_size r' = sd_value_size r" "sd_rc r' = sd_rc r" "sd_completed r' = sd_completed r"
    by (simp_all add: again)
  have "\<forall>(job, i, moved) \<in> set (qp_sq (sd_rc r')). \<exists>start. (job, i, start) \<in> set (sd_outstanding r')"
    using reader_ok_tail [OF assms(2) again(1)] by (simp add: again)
  moreover have "map fst (sd_outstanding r') = map snd wcs @ qp_owed (sd_rc r')"
    "\<forall>(job, i, start) \<in> set (sd_outstanding r'). i < n \<and> start \<le> now" "\<forall>(job, i) \<in> set (sd_queued r'). i < n"
    using assms(2) by (simp_all add: reader_ok_def again)
  ultimately show ?thesis using assms(2) unfolding reader_ok_def d f by simp
qed

lemma reader_ok_complete_all:
  assumes "rfold (sd_complete xxh now) wcs r = Inr r'" "reader_ok n now wcs r"
  shows "reader_ok n now [] r' \<and> sd_rc r' = sd_rc r \<and> sd_memory r' = sd_memory r \<and>
    sd_value_size r' = sd_value_size r \<and> (\<exists>done. sd_outstanding r = done @ sd_outstanding r') \<and>
    (\<forall>job i. (job, i) \<in> set (sd_queued r') \<longrightarrow> (job, i) \<in> set (sd_queued r) \<or>
       (\<exists>start. (job, i, start) \<in> set (sd_outstanding r) \<and> start + write_cooldown < now))"
  using assms
proof (induction wcs arbitrary: r)
  case (Cons wc wcs)
  then obtain r1 where r1: "sd_complete xxh now wc r = Inr r1" "rfold (sd_complete xxh now) wcs r1 = Inr r'"
    by (auto simp: rbind_Inr_iff)
  from Cons.IH [OF r1(2) reader_ok_complete [OF r1(1) Cons.prems(2)]]
  have IH: "reader_ok n now [] r'" "sd_rc r' = sd_rc r1" "sd_memory r' = sd_memory r1" "sd_value_size r' = sd_value_size r1"
    "\<exists>done. sd_outstanding r1 = done @ sd_outstanding r'"
    "\<And>job i. (job, i) \<in> set (sd_queued r') \<Longrightarrow> (job, i) \<in> set (sd_queued r1) \<or>
       (\<exists>start. (job, i, start) \<in> set (sd_outstanding r1) \<and> start + write_cooldown < now)" by blast+
  from r1(1) show ?case
  proof (cases rule: sd_completeE)
    case (good i start outs inc k)
    then show ?thesis using IH by (auto intro: exI [of _ "(snd wc, i, start) # _"])
  next
    case (again i start outs)
    have "(job, i') \<in> set (sd_queued r) \<or> (\<exists>start. (job, i', start) \<in> set (sd_outstanding r) \<and> start + write_cooldown < now)"
      if "(job, i') \<in> set (sd_queued r')" for job i'
      using IH(6) [OF that] again by auto
    then show ?thesis using IH(1-5) again by auto
  qed
qed auto

lemma reader_ok_poll:
  assumes "reader_ok n now [] r" "qp_poll m (sd_rc r) = Some (wcs, rc)"
  shows "reader_ok n now wcs (r\<lparr>sd_rc := rc\<rparr>)" "qp_sq rc = qp_sq (sd_rc r)"
proof -
  show "qp_sq rc = qp_sq (sd_rc r)" using assms(2) by (auto simp: qp_poll_def split: if_split_asm)
  moreover have "map snd wcs @ qp_owed rc = qp_owed (sd_rc r)" using qp_owed_poll [OF assms(2)] by simp
  moreover have "set wcs \<union> set (qp_cq rc) = set (qp_cq (sd_rc r))"
    using assms(2) by (auto simp: qp_poll_def split: if_split_asm simp flip: set_append)
  moreover have "sd_jobs (r\<lparr>sd_rc := rc\<rparr>) = sd_jobs r" by (simp add: sd_jobs_def)
  ultimately show "reader_ok n now wcs (r\<lparr>sd_rc := rc\<rparr>)" using assms(1) unfolding reader_ok_def by simp
qed

section \<open>Preservation of the reads\<close>

lemma read_ok_writer:
  assumes "read_ok xxh w h now base r (job, i, start)" "sw_value_size w' = sw_value_size w"
    and "\<And>k. steady w start i k \<Longrightarrow> now < start + write_cooldown \<Longrightarrow>
      steady w' start i k \<and> host_slot (sw_value_size w) h' i k = host_slot (sw_value_size w) h i k"
  shows "read_ok xxh w' h' now base r (job, i, start)"
  using assms unfolding read_ok_def by simp metis

lemma read_ok_reader:
  assumes "read_ok xxh w h now base r (job, i, start)" "sd_memory r' ! job = sd_memory r ! job"
    and "\<And>q. fetched r' job q \<Longrightarrow> fetched r job q"
  shows "read_ok xxh w h now base r' (job, i, start)"
  using assms unfolding read_ok_def by simp metis

lemma read_ok_time: "read_ok xxh w h now base r e \<Longrightarrow> now \<le> t \<Longrightarrow> read_ok xxh w h t base r e"
  by (cases e) (simp add: read_ok_def)

lemma read_ok_new:
  assumes "writer_ok xxh h [] w" "i < length (sw_registers w)" "(job, i, []) \<in> set (qp_sq (sd_rc r))"
  shows "read_ok xxh w h now (last_done w h i) r (job, i, start)"
proof -
  let ?reg = "sw_registers w ! i"
  have "reg_ok xxh (sw_value_size w) h i ?reg" using assms(1,2) by (simp add: writer_ok_def)
  then have "steady w start i (complete_slot ?reg)" "intact xxh (host_slot (sw_value_size w) h i (complete_slot ?reg))"
    by (auto simp: steady_def reg_ok_def complete_slot_def Let_def)
  moreover have "\<not> fetched r job q" for q using assms(3) by (force simp: fetched_def)
  ultimately show ?thesis unfolding read_ok_def last_done_def by (simp; blast)
qed

lemma fetched_frame:
  "qp_sq (sd_rc r') = qp_sq (sd_rc r) \<Longrightarrow> fetched r' job q = fetched r job q"
  by (simp add: fetched_def)

text \<open>A step of the reader: what was outstanding keeps its base, what is posted now takes the current one.\<close>

lemma sys_ok_with_reader:
  assumes "sys_ok xxh s" "sd_value_size r = sd_value_size (sy_reader s)"
    and "reader_ok (length (sw_registers (sy_writer s))) (sy_now s) [] r"
    and "\<And>e. e \<in> set (sd_outstanding r) \<Longrightarrow> e \<in> set (sd_outstanding (sy_reader s)) \<Longrightarrow>
      read_ok xxh (sy_writer s) (sy_host s) (sy_now s) (sy_base s (fst e)) r e"
    and "\<And>job i start. (job, i, start) \<in> set (sd_outstanding r) \<Longrightarrow> (job, i, start) \<notin> set (sd_outstanding (sy_reader s)) \<Longrightarrow>
      read_ok xxh (sy_writer s) (sy_host s) (sy_now s) (last_done (sy_writer s) (sy_host s) i) r (job, i, start)"
  shows "sys_ok xxh (with_reader r s)"
proof -
  have d: "distinct (map fst (sd_outstanding r))" using assms(3) unfolding reader_ok_def sd_jobs_def distinct_append by blast
  have d': "distinct (map fst (sd_outstanding (sy_reader s)))"
    using assms(1) unfolding sys_ok_def reader_ok_def sd_jobs_def distinct_append by blast
  have "read_ok xxh (sy_writer s) (sy_host s) (sy_now s) (rebase s r (fst e)) r e" if e: "e \<in> set (sd_outstanding r)" for e
  proof -
    obtain job i start where [simp]: "e = (job, i, start)" by (cases e)
    have "map_of (sd_outstanding r) job = Some (i, start)" using e d by (simp add: map_of_eq_Some_iff)
    moreover have "map_of (sd_outstanding (sy_reader s)) job = Some (i, start) \<longleftrightarrow> e \<in> set (sd_outstanding (sy_reader s))"
      using d' by (simp add: map_of_eq_Some_iff)
    ultimately show ?thesis using assms(4) [OF e] assms(5) [of job i start] e by (auto simp: rebase_def)
  qed
  then show ?thesis using assms(1-3) by (auto simp: sys_ok_def with_reader_def)
qed

text \<open>Pushing posts reads with the current time.\<close>

lemma push_reads:
  assumes "sd_push now r = Inr r'" "e \<in> set (sd_outstanding r')"
  shows "e \<in> set (sd_outstanding r) \<or> (\<exists>job i. e = (job, i, now) \<and> (job, i) \<in> set (sd_queued r) \<and> (job, i, []) \<in> set (qp_sq (sd_rc r')))"
    and "fetched r' job q \<Longrightarrow> fetched r job q" and "sd_memory r' = sd_memory r" and "sd_value_size r' = sd_value_size r"
proof -
  from sd_push_result [OF assms(1)] obtain new rest where q: "sd_queued r = new @ rest"
    and r': "r' = r\<lparr>sd_queued := rest, sd_rc := (sd_rc r)\<lparr>qp_sq := qp_sq (sd_rc r) @ map (\<lambda>(job, i). (job, i, [])) new\<rparr>,
            sd_outstanding := sd_outstanding r @ map (\<lambda>(job, i). (job, i, now)) new\<rparr>" by blast
  show "e \<in> set (sd_outstanding r) \<or> (\<exists>job i. e = (job, i, now) \<and> (job, i) \<in> set (sd_queued r) \<and> (job, i, []) \<in> set (qp_sq (sd_rc r')))"
    using assms(2) by (force simp: r' q)
  show "fetched r' job q \<Longrightarrow> fetched r job q" by (auto simp: fetched_def r')
  show "sd_memory r' = sd_memory r" "sd_value_size r' = sd_value_size r" by (simp_all add: r')
qed

lemma sys_ok_push:
  assumes "sys_ok xxh s" "sd_push (sy_now s) r1 = Inr r"
    and "reader_ok (length (sw_registers (sy_writer s))) (sy_now s) [] r1"
    and "sd_value_size r1 = sd_value_size (sy_reader s)" "sd_memory r1 = sd_memory (sy_reader s)"
    and "qp_sq (sd_rc r1) = qp_sq (sd_rc (sy_reader s))"
    and "set (sd_outstanding r1) \<subseteq> set (sd_outstanding (sy_reader s))"
    and "\<And>job i. (job, i) \<in> set (sd_queued r1) \<Longrightarrow> (job, i, sy_now s) \<notin> set (sd_outstanding (sy_reader s))"
  shows "sys_ok xxh (with_reader r s)"
proof (rule sys_ok_with_reader [OF assms(1)])
  have w: "writer_ok xxh (sy_host s) [] (sy_writer s)" using assms(1) by (simp add: sys_ok_def)
  note p = push_reads [OF assms(2)]
  show ok: "reader_ok (length (sw_registers (sy_writer s))) (sy_now s) [] r" by (rule reader_ok_push [OF assms(2,3)])
  show "sd_value_size r = sd_value_size (sy_reader s)" using sd_push_result [OF assms(2)] assms(4) by auto
  show "read_ok xxh (sy_writer s) (sy_host s) (sy_now s) (sy_base s (fst e)) r e"
    if "e \<in> set (sd_outstanding r)" "e \<in> set (sd_outstanding (sy_reader s))" for e
  proof -
    obtain job i start where [simp]: "e = (job, i, start)" by (cases e)
    have "read_ok xxh (sy_writer s) (sy_host s) (sy_now s) (sy_base s job) (sy_reader s) (job, i, start)"
      using assms(1) that(2) by (auto simp: sys_ok_def)
    then have "read_ok xxh (sy_writer s) (sy_host s) (sy_now s) (sy_base s job) r (job, i, start)"
    proof (rule read_ok_reader)
      show "sd_memory r ! job = sd_memory (sy_reader s) ! job" using p(3) [OF that(1)] assms(5) by simp
      show "fetched (sy_reader s) job q" if "fetched r job q" for q
        using p(2) [OF \<open>e \<in> set (sd_outstanding r)\<close> that] fetched_frame [OF assms(6)] by simp
    qed
    then show ?thesis by simp
  qed
  fix job i start
  assume n: "(job, i, start) \<in> set (sd_outstanding r)" "(job, i, start) \<notin> set (sd_outstanding (sy_reader s))"
  with p(1) [OF n(1)] assms(7) have "(job, i, []) \<in> set (qp_sq (sd_rc r))" by auto
  moreover have "i < length (sw_registers (sy_writer s))" using ok n(1) by (auto simp: reader_ok_def)
  ultimately show "read_ok xxh (sy_writer s) (sy_host s) (sy_now s) (last_done (sy_writer s) (sy_host s) i) r (job, i, start)"
    using read_ok_new [OF w] by blast
qed

lemma distinct_fst: "distinct (map fst xs) \<Longrightarrow> (a, b) \<in> set xs \<Longrightarrow> (a, c) \<in> set xs \<Longrightarrow> b = c"
  using map_of_eq_Some_iff by (metis option.inject)

lemma queued_not_outstanding:
  "reader_ok n now wcs r \<Longrightarrow> (job, i) \<in> set (sd_queued r) \<Longrightarrow> (job, x) \<notin> set (sd_outstanding r)"
proof
  assume r: "reader_ok n now wcs r" "(job, i) \<in> set (sd_queued r)" "(job, x) \<in> set (sd_outstanding r)"
  then have "job \<in> set (map fst (sd_queued r))" "job \<in> set (map fst (sd_outstanding r))" by force+
  moreover have "set (map fst (sd_outstanding r)) \<inter> set (map fst (sd_queued r) @ sd_pool r) = {}"
    using r(1) unfolding reader_ok_def sd_jobs_def distinct_append by blast
  ultimately show False by auto
qed

lemma sys_ok_read:
  assumes "sys_ok xxh s" "i < length (sw_registers (sy_writer s))" "sd_read (sy_now s) i (sy_reader s) = Inr (job, r)"
  shows "sys_ok xxh (with_reader r s)"
proof (cases "sd_pool (sy_reader s) = []")
  case True
  with assms(3) have r: "r = sy_reader s" by (simp add: sd_read_def)
  show ?thesis
    by (rule sys_ok_with_reader [OF assms(1)]) (use assms(1) in \<open>auto simp: r sys_ok_def\<close>)
next
  case False
  let ?r = "sy_reader s" and ?n = "length (sw_registers (sy_writer s))"
  let ?j = "last (sd_pool ?r)"
  let ?r1 = "?r\<lparr>sd_pool := butlast (sd_pool ?r), sd_queued := sd_queued ?r @ [(?j, i)]\<rparr>"
  have p: "sd_push (sy_now s) ?r1 = Inr r" using assms(3) False by (auto simp: sd_read_def Let_def rbind_Inr_iff)
  have ok: "reader_ok ?n (sy_now s) [] ?r" using assms(1) by (simp add: sys_ok_def)
  have pool: "sd_pool ?r = butlast (sd_pool ?r) @ [?j]" using False by simp
  have m: "mset (sd_jobs ?r1) = mset (sd_jobs ?r)" unfolding sd_jobs_def
    by (subst (2) pool) (simp del: append_butlast_last_id)
  then have d: "distinct (sd_jobs ?r1) = distinct (sd_jobs ?r)" "set (sd_jobs ?r1) = set (sd_jobs ?r)"
    by (metis mset_eq_imp_distinct_iff, metis mset_eq_setD)
  have ok1: "reader_ok ?n (sy_now s) [] ?r1" using ok assms(2) unfolding reader_ok_def d by simp
  show ?thesis
  proof (rule sys_ok_push [OF assms(1) p ok1])
    show "(job', i', sy_now s) \<notin> set (sd_outstanding ?r)" if "(job', i') \<in> set (sd_queued ?r1)" for job' i'
      using queued_not_outstanding [OF ok1 that] by simp
  qed simp_all
qed

lemma sys_ok_reader_tick:
  assumes "sys_ok xxh s" "sd_tick xxh (sy_now s) (sy_reader s) = Inr r"
  shows "sys_ok xxh (with_reader r s)"
proof (cases "sd_outstanding (sy_reader s) = []")
  case True
  with assms(2) have r: "r = sy_reader s" by (simp add: sd_tick_def)
  show ?thesis
    by (rule sys_ok_with_reader [OF assms(1)]) (use assms(1) in \<open>auto simp: r sys_ok_def\<close>)
next
  case False
  let ?r = "sy_reader s" and ?n = "length (sw_registers (sy_writer s))"
  have ok: "reader_ok ?n (sy_now s) [] ?r" using assms(1) by (simp add: sys_ok_def)
  from assms(2) False obtain r1 where r1: "sd_poll_completion xxh (sy_now s) ?r = Inr r1" "sd_push (sy_now s) r1 = Inr r"
    by (auto simp: sd_tick_def rbind_Inr_iff)
  from r1(1) obtain wcs rc where q: "qp_poll (length (sd_outstanding ?r)) (sd_rc ?r) = Some (wcs, rc)"
    "rfold (sd_complete xxh (sy_now s)) wcs (?r\<lparr>sd_rc := rc\<rparr>) = Inr r1"
    by (auto simp: sd_poll_completion_def split: option.split_asm)
  note o = reader_ok_poll [OF ok q(1)]
  note c = reader_ok_complete_all [OF q(2) o(1)]
  show ?thesis
  proof (rule sys_ok_push [OF assms(1) r1(2)])
    show "set (sd_outstanding r1) \<subseteq> set (sd_outstanding ?r)" using c by auto
    show "(job, i, sy_now s) \<notin> set (sd_outstanding ?r)" if "(job, i) \<in> set (sd_queued r1)" for job i
    proof -
      have "distinct (map fst (sd_outstanding ?r))" using ok unfolding reader_ok_def sd_jobs_def distinct_append by blast
      moreover have "(job, i) \<in> set (sd_queued ?r) \<or> (\<exists>start. (job, i, start) \<in> set (sd_outstanding ?r) \<and> start + write_cooldown < sy_now s)"
        using c that by auto
      then have "(job, i) \<in> set (sd_queued ?r) \<or> (\<exists>start. (job, i, start) \<in> set (sd_outstanding ?r) \<and> start < sy_now s)"
        by (auto simp: write_cooldown_def)
      ultimately show ?thesis using queued_not_outstanding [OF ok] by (fastforce dest: distinct_fst)
    qed
  qed (use c o(2) in simp_all)
qed

lemma map_of_mem_fst: "map_of xs k = Some v \<Longrightarrow> k \<in> fst ` set xs"
  by (force dest: map_of_SomeD)

lemma reader_ok_release:
  assumes "reader_ok n now [] r" "sd_release job r = Inr r'"
  shows "reader_ok n now [] r'"
proof -
  from assms(2) have c: "job \<in> fst ` set (sd_completed r)"
    and r': "r' = r\<lparr>sd_pool := sd_pool r @ [job], sd_completed := alist_erase job (sd_completed r)\<rparr>"
    by (auto simp: sd_release_def dest: map_of_mem_fst split: if_split_asm)
  have k: "sorted_keys (sd_completed r)" "set (sd_jobs r) \<inter> fst ` set (sd_completed r) = {}" "distinct (sd_jobs r)"
    "set (sd_jobs r) \<union> fst ` set (sd_completed r) \<subseteq> {0 ..< length (sd_memory r)}"
    using assms(1) unfolding reader_ok_def by blast+
  have j: "sd_jobs r' = sd_jobs r @ [job]" by (simp add: r' sd_jobs_def)
  have e: "fst ` set (sd_completed r') = fst ` set (sd_completed r) - {job}" by (force simp: r' alist_erase_def)
  have "sorted_keys (sd_completed r')" using k(1) by (simp add: r' sorted_alist_erase)
  moreover have "distinct (sd_jobs r')" "set (sd_jobs r') \<inter> fst ` set (sd_completed r') = {}"
    "set (sd_jobs r') \<union> fst ` set (sd_completed r') \<subseteq> {0 ..< length (sd_memory r')}"
    using k(2-4) c unfolding j e by (auto simp: r')
  ultimately show ?thesis using assms(1) unfolding reader_ok_def by (simp add: r')
qed

lemma sys_ok_release:
  assumes "sys_ok xxh s" "sd_release job (sy_reader s) = Inr r"
  shows "sys_ok xxh (with_reader r s)"
proof -
  have f: "sd_outstanding r = sd_outstanding (sy_reader s)" "sd_memory r = sd_memory (sy_reader s)"
    "sd_rc r = sd_rc (sy_reader s)" "sd_value_size r = sd_value_size (sy_reader s)"
    using assms(2) by (auto simp: sd_release_def split: if_split_asm)
  show ?thesis
  proof (rule sys_ok_with_reader [OF assms(1) f(4)])
    show "reader_ok (length (sw_registers (sy_writer s))) (sy_now s) [] r"
      using reader_ok_release [OF _ assms(2)] assms(1) by (simp add: sys_ok_def)
    show "read_ok xxh (sy_writer s) (sy_host s) (sy_now s) (sy_base s (fst e)) r e"
      if "e \<in> set (sd_outstanding (sy_reader s))" for e
    proof -
      have "read_ok xxh (sy_writer s) (sy_host s) (sy_now s) (sy_base s (fst e)) (sy_reader s) e"
        using assms(1) that by (auto simp: sys_ok_def)
      then show ?thesis by (cases e) (simp add: read_ok_def fetched_def f)
    qed
  qed (simp add: f)
qed

lemma same_reads:
  assumes "sys_ok xxh s" "sd_outstanding r = sd_outstanding (sy_reader s)" "sd_value_size r = sd_value_size (sy_reader s)"
    and "reader_ok (length (sw_registers (sy_writer s))) (sy_now s) [] r"
    and "\<And>job i start. (job, i, start) \<in> set (sd_outstanding (sy_reader s)) \<Longrightarrow>
      read_ok xxh (sy_writer s) (sy_host s) (sy_now s) (sy_base s job) (sy_reader s) (job, i, start) \<Longrightarrow>
      read_ok xxh (sy_writer s) (sy_host s) (sy_now s) (sy_base s job) r (job, i, start)"
  shows "sys_ok xxh (s\<lparr>sy_reader := r\<rparr>)"
  using assms unfolding sys_ok_def by auto

lemma sys_ok_read_done:
  assumes "sys_ok xxh s" "qp_sq (sd_rc (sy_reader s)) = (job, i, moved) # rest"
    and "{0 ..< 2 * slot_len (sd_value_size (sy_reader s))} \<subseteq> set moved"
  shows "sys_ok xxh (s\<lparr>sy_reader := (sy_reader s)\<lparr>sd_rc := qp_complete 1 (sd_rc (sy_reader s))\<rparr>\<rparr>)"
proof (rule same_reads [OF assms(1)])
  let ?r = "sy_reader s"
  let ?r' = "?r\<lparr>sd_rc := qp_complete 1 (sd_rc ?r)\<rparr>"
  have c: "qp_sq (sd_rc ?r') = rest" "qp_cq (sd_rc ?r') = qp_cq (sd_rc ?r) @ [(True, job)]"
    using assms(2) by (simp_all add: qp_complete_def)
  have "sd_jobs ?r' = sd_jobs ?r" by (simp add: sd_jobs_def)
  with assms(1) show "reader_ok (length (sw_registers (sy_writer s))) (sy_now s) [] ?r'"
    unfolding sys_ok_def reader_ok_def c by (simp add: assms(2))
  show "read_ok xxh (sy_writer s) (sy_host s) (sy_now s) (sy_base s j) ?r' (j, i', start)"
    if "read_ok xxh (sy_writer s) (sy_host s) (sy_now s) (sy_base s j) ?r (j, i', start)" for j i' start
  proof -
    have vs: "sw_value_size (sy_writer s) = sd_value_size ?r" using assms(1) by (simp add: sys_ok_def)
    have "fetched ?r j q" if "fetched ?r' j q" "q < 2 * slot_len (sd_value_size ?r)" for q
      using that assms(2,3) c(1) by (auto simp: fetched_def)
    moreover have "slot_len (sd_value_size ?r) * k + p < 2 * slot_len (sd_value_size ?r)"
      if "k < 2" "p < slot_len (sd_value_size ?r)" for k p
      using that by (auto simp: less_2_cases_iff)
    moreover have "k < 2" if "steady (sy_writer s) start i' k" for k using that by (simp add: steady_def)
    ultimately have "fetched ?r j (slot_len (sd_value_size ?r) * k + p)"
      if "steady (sy_writer s) start i' k" "p < slot_len (sd_value_size ?r)" "fetched ?r' j (slot_len (sd_value_size ?r) * k + p)" for k p
      using that by blast
    with that show ?thesis unfolding read_ok_def vs by auto
  qed
qed simp_all

lemma sys_ok_move_read:
  assumes "sys_ok xxh s" "j < length (qp_sq (sd_rc (sy_reader s)))" "p < 2 * slot_len (sd_value_size (sy_reader s))"
  shows "sys_ok xxh (s\<lparr>sy_reader := move_read j p (sy_host s) (sy_reader s)\<rparr>)"
proof (rule same_reads [OF assms(1)])
  let ?r = "sy_reader s" and ?vs = "sd_value_size (sy_reader s)"
  obtain job0 i0 moved where e: "qp_sq (sd_rc ?r) ! j = (job0, i0, moved)" by (metis prod.exhaust)
  then have mem: "(job0, i0, moved) \<in> set (qp_sq (sd_rc ?r))" using assms(2) by (metis nth_mem)
  let ?r' = "move_read j p (sy_host s) ?r"
  have r': "?r' = ?r\<lparr>sd_rc := (sd_rc ?r)\<lparr>qp_sq := (qp_sq (sd_rc ?r))[j := (job0, i0, p # moved)]\<rparr>,
      sd_memory := (sd_memory ?r)[job0 := (sd_memory ?r ! job0)[p := sy_host s (host_offset ?vs i0 0 p)]]\<rparr>"
    by (simp add: move_read_def e)
  have ok: "reader_ok (length (sw_registers (sy_writer s))) (sy_now s) [] ?r" and vs: "sw_value_size (sy_writer s) = ?vs"
    using assms(1) by (simp_all add: sys_ok_def)
  show "sd_outstanding ?r' = sd_outstanding ?r" "sd_value_size ?r' = ?vs" by (simp_all add: r')
  have sq: "\<forall>(job, i, moved) \<in> set (qp_sq (sd_rc ?r)). \<exists>start. (job, i, start) \<in> set (sd_outstanding ?r)"
    using ok unfolding reader_ok_def by blast
  obtain start0 where start0: "(job0, i0, start0) \<in> set (sd_outstanding ?r)" using sq mem by fastforce
  have "job0 \<in> set (sd_jobs ?r)" using start0 by (force simp: sd_jobs_def)
  then have job0: "job0 < length (sd_memory ?r)" using ok unfolding reader_ok_def by fastforce
  have len: "\<forall>b \<in> set (sd_memory ?r). length b = 2 * slot_len ?vs" using ok unfolding reader_ok_def by blast
  have "map fst ((qp_sq (sd_rc ?r))[j := (job0, i0, p # moved)]) = map fst (qp_sq (sd_rc ?r))"
    using e assms(2) by (simp add: map_update list_update_same_conv)
  then have o: "qp_owed (sd_rc ?r') = qp_owed (sd_rc ?r)" by (simp add: qp_owed_def r')
  have f: "sd_jobs ?r' = sd_jobs ?r" "sd_completed ?r' = sd_completed ?r" "length (sd_memory ?r') = length (sd_memory ?r)"
    "sd_value_size ?r' = ?vs" "sd_outstanding ?r' = sd_outstanding ?r" "sd_queued ?r' = sd_queued ?r"
    "qp_cq (sd_rc ?r') = qp_cq (sd_rc ?r)"
    by (simp_all add: sd_jobs_def r')
  have "\<forall>b \<in> set (sd_memory ?r'). length b = 2 * slot_len ?vs"
    using len job0 by (auto simp: r' dest!: set_update_subset_insert [THEN subsetD])
  moreover have "\<forall>(job, i, moved) \<in> set (qp_sq (sd_rc ?r')). \<exists>start. (job, i, start) \<in> set (sd_outstanding ?r)"
    using sq start0 by (auto simp: r' dest!: set_update_subset_insert [THEN subsetD])
  ultimately show "reader_ok (length (sw_registers (sy_writer s))) (sy_now s) [] ?r'"
    using ok unfolding reader_ok_def o f by simp
  show "read_ok xxh (sy_writer s) (sy_host s) (sy_now s) (sy_base s job) ?r' (job, i, start)"
    if out: "(job, i, start) \<in> set (sd_outstanding ?r)"
      and rd: "read_ok xxh (sy_writer s) (sy_host s) (sy_now s) (sy_base s job) ?r (job, i, start)" for job i start
  proof (cases "job = job0")
    case False
    have old: "fetched ?r job q" if "fetched ?r' job q" for q
      unfolding fetched_def
    proof (safe)
      fix i' moved'
      assume "(job, i', moved') \<in> set (qp_sq (sd_rc ?r))"
      then obtain l where "l < length (qp_sq (sd_rc ?r))" "qp_sq (sd_rc ?r) ! l = (job, i', moved')" by (auto simp: in_set_conv_nth)
      with False e assms(2) have "(job, i', moved') \<in> set (qp_sq (sd_rc ?r'))"
        by (auto simp: r' in_set_conv_nth nth_list_update intro!: exI [of _ l])
      with that show "q \<in> set moved'" by (force simp: fetched_def)
    qed
    show ?thesis by (rule read_ok_reader [OF rd _ old]) (use False in \<open>simp_all add: r'\<close>)
  next
    case True
    have "distinct (map fst (sd_outstanding ?r))" using ok unfolding reader_ok_def sd_jobs_def distinct_append by blast
    with out start0 True have i: "i = i0" by (auto dest: distinct_fst)
    have old: "fetched ?r job q" if "fetched ?r' job q" "q \<noteq> p" for q
      unfolding fetched_def
    proof (safe)
      fix i' moved'
      assume "(job, i', moved') \<in> set (qp_sq (sd_rc ?r))"
      then obtain l where l: "l < length (qp_sq (sd_rc ?r))" "qp_sq (sd_rc ?r) ! l = (job, i', moved')" by (auto simp: in_set_conv_nth)
      show "q \<in> set moved'"
      proof (cases "l = j")
        case True
        with e l have m: "moved' = moved" "(job, i0, p # moved) \<in> set (qp_sq (sd_rc ?r'))"
          using set_update_memI [OF assms(2)] \<open>job = job0\<close> by (auto simp: r')
        with that show ?thesis by (force simp: fetched_def)
      next
        case False
        with l have "(job, i', moved') \<in> set (qp_sq (sd_rc ?r'))"
          by (auto simp: r' in_set_conv_nth nth_list_update intro!: exI [of _ l])
        with that show ?thesis by (force simp: fetched_def)
      qed
    qed
    have "sd_memory ?r' ! job = (sd_memory ?r ! job)[p := sy_host s (host_offset ?vs i 0 p)]"
      using job0 True by (simp add: r' i)
    moreover have "length (sd_memory ?r ! job) = 2 * slot_len ?vs" using len job0 True by simp
    ultimately have new: "sd_memory ?r' ! job ! q = (if q = p then sy_host s (host_offset ?vs i 0 p) else sd_memory ?r ! job ! q)" for q
      using assms(3) by (simp add: nth_list_update)
    show ?thesis unfolding read_ok_def vs
    proof (clarify)
      assume "sy_now s < start + write_cooldown"
      with rd obtain k where k: "steady (sy_writer s) start i k" "intact xxh (host_slot ?vs (sy_host s) i k)"
        "slot_incarnation (host_slot ?vs (sy_host s) i k) = sy_base s job"
        "\<And>p. p < slot_len ?vs \<Longrightarrow> fetched ?r job (slot_len ?vs * k + p) \<Longrightarrow>
           sd_memory ?r ! job ! (slot_len ?vs * k + p) = host_slot ?vs (sy_host s) i k ! p"
        unfolding read_ok_def vs by auto
      have "sd_memory ?r' ! job ! (slot_len ?vs * k + q) = host_slot ?vs (sy_host s) i k ! q"
        if "q < slot_len ?vs" "fetched ?r' job (slot_len ?vs * k + q)" for q
        using that k(4) old new host_offset_slot [of ?vs i k q] by (auto simp: host_slot_nth)
      with k(1-3) show "\<exists>k. steady (sy_writer s) start i k \<and> intact xxh (host_slot ?vs (sy_host s) i k) \<and>
        slot_incarnation (host_slot ?vs (sy_host s) i k) = sy_base s job \<and>
        (\<forall>p < slot_len ?vs. fetched ?r' job (slot_len ?vs * k + p) \<longrightarrow>
           sd_memory ?r' ! job ! (slot_len ?vs * k + p) = host_slot ?vs (sy_host s) i k ! p)" by blast
    qed
  qed
qed

section \<open>The invariant\<close>

lemma sys_ok_writer:
  assumes "sys_ok xxh s" "writer_ok xxh h [] w" "same_shape (sy_writer s) w"
    and "\<And>start i k. steady (sy_writer s) start i k \<Longrightarrow> start \<le> sy_now s \<Longrightarrow> sy_now s < start + write_cooldown \<Longrightarrow>
      i < length (sw_registers (sy_writer s)) \<Longrightarrow>
      steady w start i k \<and> host_slot (sw_value_size w) h i k = host_slot (sw_value_size w) (sy_host s) i k"
  shows "sys_ok xxh (s\<lparr>sy_writer := w, sy_host := h\<rparr>)"
proof -
  have shape: "length (sw_registers w) = length (sw_registers (sy_writer s))" "sw_value_size w = sw_value_size (sy_writer s)"
    using assms(3) by (simp_all add: same_shape_def)
  have "read_ok xxh w h (sy_now s) (sy_base s job) (sy_reader s) (job, i, start)"
    if "(job, i, start) \<in> set (sd_outstanding (sy_reader s))" for job i start
  proof -
    have "\<forall>(job, i, start) \<in> set (sd_outstanding (sy_reader s)). i < length (sw_registers (sy_writer s)) \<and> start \<le> sy_now s"
      using assms(1) unfolding sys_ok_def reader_ok_def by blast
    with that have "i < length (sw_registers (sy_writer s))" "start \<le> sy_now s" by auto
    moreover have "read_ok xxh (sy_writer s) (sy_host s) (sy_now s) (sy_base s job) (sy_reader s) (job, i, start)"
      using assms(1) that by (auto simp: sys_ok_def)
    ultimately show ?thesis using assms(4) [of start i] shape(2) by (auto intro: read_ok_writer)
  qed
  with assms(1,2) show ?thesis by (auto simp: sys_ok_def shape)
qed

theorem sys_ok_step: "swmr_step xxh s s' \<Longrightarrow> sys_ok xxh s \<Longrightarrow> sys_ok xxh s'"
proof (induction rule: swmr_step.induct)
  case (step_time s t)
  have "reader_ok (length (sw_registers (sy_writer s))) t [] (sy_reader s)"
    using step_time unfolding sys_ok_def reader_ok_def by auto
  with step_time read_ok_time show ?case by (fastforce simp: sys_ok_def)
next
  case (step_write i s slot v inc w)
  note g = sw_get_slotD [OF step_write(1)]
  have ok: "writer_ok xxh (sy_host s) [] (sy_writer s)" using step_write(4) by (simp add: sys_ok_def)
  from sw_write_ok [OF _ _ _ ok step_write(2)] step_write(3) g have
    "writer_ok xxh (sy_host s) [] w" "same_shape (sy_writer s) w"
    "\<And>start j k. steady (sy_writer s) start j k \<Longrightarrow> sy_now s < start + write_cooldown \<Longrightarrow>
       j < length (sw_registers (sy_writer s)) \<Longrightarrow> steady w start j k" by auto
  from sys_ok_writer [OF step_write(4) this(1,2)] this(3) show ?case by simp
next
  case (step_writer_tick s w)
  have ok: "writer_ok xxh (sy_host s) [] (sy_writer s)" using step_writer_tick(2) by (simp add: sys_ok_def)
  from sw_tick_ok [OF step_writer_tick(1) ok] have
    "writer_ok xxh (sy_host s) [] w" "same_shape (sy_writer s) w"
    "\<And>start j k. steady (sy_writer s) start j k \<Longrightarrow> start \<le> sy_now s \<Longrightarrow> sy_now s < start + write_cooldown \<Longrightarrow>
       j < length (sw_registers (sy_writer s)) \<Longrightarrow> steady w start j k" by auto
  from sys_ok_writer [OF step_writer_tick(2) this(1,2)] this(3) show ?case by simp
next
  case (step_move_write j s p w h)
  have ok: "writer_ok xxh (sy_host s) [] (sy_writer s)" using step_move_write(4) by (simp add: sys_ok_def)
  note m = move_write_ok [OF ok step_move_write(1-3)]
  have "sw_value_size w = sw_value_size (sy_writer s)" using m(2) by (simp add: same_shape_def)
  with sys_ok_writer [OF step_move_write(4) m(1,2)] m(3,4) show ?case by auto
next
  case (step_write_done s i k moved rest)
  have ok: "writer_ok xxh (sy_host s) [] (sy_writer s)" using step_write_done(3) by (simp add: sys_ok_def)
  note m = write_done_ok [OF ok step_write_done(1,2)]
  from sys_ok_writer [OF step_write_done(3) m(1)] m(2) show ?case by (auto simp: same_shape_def)
next
  case (step_move_read j s p)
  then show ?case by (rule sys_ok_move_read [rotated])
next
  case (step_read_done s job i moved rest)
  then show ?case by (intro sys_ok_read_done)
qed (auto intro: sys_ok_read sys_ok_reader_tick sys_ok_release)

text \<open>The state once writer and reader have been constructed.\<close>

definition swmr_ready :: "(bytes \<Rightarrow> u64) \<Rightarrow> swmr_sys \<Rightarrow> bool" where
  "swmr_ready xxh s \<longleftrightarrow> fits (sw_value_size (sy_writer s)) \<and> sw_queued (sy_writer s) = [] \<and> sw_outstanding (sy_writer s) = 0 \<and>
     qp_owed (sw_rc (sy_writer s)) = [] \<and>
     (\<forall>i < length (sw_registers (sy_writer s)).
        \<not> sr_scheduled (sw_registers (sy_writer s) ! i) \<and>
        reg_ok xxh (sw_value_size (sy_writer s)) (sy_host s) i (sw_registers (sy_writer s) ! i)) \<and>
     (\<exists>nb rs ls local. sd_new nb (sw_value_size (sy_writer s)) rs ls local = Inr (sy_reader s) \<and>
        (\<forall>i. length (local i) = 2 * slot_len (sw_value_size (sy_writer s))))"

lemma swmr_ready_ok:
  assumes "swmr_ready xxh s"
  shows "sys_ok xxh s"
proof -
  obtain nb rs ls local where r: "sd_new nb (sw_value_size (sy_writer s)) rs ls local = Inr (sy_reader s)"
    "\<forall>i. length (local i) = 2 * slot_len (sw_value_size (sy_writer s))"
    using assms by (auto simp: swmr_ready_def)
  have rd: "sy_reader s = \<lparr>sd_nb = nb, sd_value_size = sw_value_size (sy_writer s), sd_rc = qp_new,
      sd_memory = map local [0 ..< unat (ls div register_size (sw_value_size (sy_writer s)))],
      sd_pool = [0 ..< unat (ls div register_size (sw_value_size (sy_writer s)))], sd_queued = [], sd_outstanding = [], sd_completed = []\<rparr>"
    using r(1) by (auto simp: sd_new_def Let_def split: if_split_asm)
  have "reader_ok n now [] (sy_reader s)" for n now
    unfolding rd reader_ok_def sd_jobs_def using r(2) by (auto simp: qp_new_def qp_owed_def)
  moreover have "qp_sq (sw_rc (sy_writer s)) = []" "qp_cq (sw_rc (sy_writer s)) = []"
    using assms by (simp_all add: swmr_ready_def qp_owed_def)
  ultimately show ?thesis using assms
    by (auto simp: sys_ok_def rd swmr_ready_def writer_ok_def books_ok_def owes_def)
qed

theorem swmr_reach_ok: "(swmr_step xxh)\<^sup>*\<^sup>* s0 s \<Longrightarrow> swmr_ready xxh s0 \<Longrightarrow> sys_ok xxh s"
  by (induction rule: rtranclp_induct) (auto intro: swmr_ready_ok sys_ok_step)

section \<open>What a read returns\<close>

lemma polled_fetched:
  assumes "reader_ok n now wcs r" "job \<in> snd ` set wcs"
  shows "fetched r job q"
proof -
  have "distinct (map fst (sd_outstanding r))" "map fst (sd_outstanding r) = map snd wcs @ qp_owed (sd_rc r)"
    using assms(1) unfolding reader_ok_def sd_jobs_def distinct_append by blast+
  then have "job \<notin> set (qp_owed (sd_rc r))" using assms(2) by auto
  then show ?thesis by (force simp: fetched_def qp_owed_def)
qed

lemma best_in_time:
  assumes "read_ok xxh w h now base r (job, i, start)" "now < start + write_cooldown"
    and "length (sd_memory r ! job) = 2 * slot_len (sw_value_size w)" "\<And>q. fetched r job q"
  shows "\<exists>inc k. best_subslot xxh (sw_value_size w) (sd_memory r ! job) = Some (inc, k) \<and> base \<le> inc"
proof -
  from assms obtain k where k: "k < 2" "intact xxh (host_slot (sw_value_size w) h i k)"
    "slot_incarnation (host_slot (sw_value_size w) h i k) = base"
    "\<And>p. p < slot_len (sw_value_size w) \<Longrightarrow>
       sd_memory r ! job ! (slot_len (sw_value_size w) * k + p) = host_slot (sw_value_size w) h i k ! p"
    by (auto simp: read_ok_def steady_def)
  have "subslot_of (sw_value_size w) k (sd_memory r ! job) = host_slot (sw_value_size w) h i k"
    by (rule subslot_of_eqI [OF assms(3) k(1)]) (use k(4) in \<open>simp add: host_slot_nth\<close>)
  with best_subslot_ge [OF k(1), of xxh "sw_value_size w" "sd_memory r ! job"] k(2,3) show ?thesis by auto
qed

lemma queue_grows: "rfold (sd_complete xxh now) wcs r = Inr r' \<Longrightarrow> set (sd_queued r) \<subseteq> set (sd_queued r')"
proof (induction wcs arbitrary: r)
  case (Cons wc wcs)
  then obtain r1 where r1: "sd_complete xxh now wc r = Inr r1" "rfold (sd_complete xxh now) wcs r1 = Inr r'"
    by (auto simp: rbind_Inr_iff)
  have "set (sd_queued r) \<subseteq> set (sd_queued r1)" using r1(1) by (elim sd_completeE) auto
  with Cons.IH [OF r1(2)] show ?case by blast
qed simp

lemma completed_stays:
  "rfold (sd_complete xxh now) wcs r = Inr r' \<Longrightarrow> map_of (sd_completed r) job = Some x \<Longrightarrow>
   reader_ok n now wcs r \<Longrightarrow> map_of (sd_completed r') job = Some x"
proof (induction wcs arbitrary: r)
  case (Cons wc wcs)
  from Cons.prems(1) obtain r1 where r1: "sd_complete xxh now wc r = Inr r1" "rfold (sd_complete xxh now) wcs r1 = Inr r'"
    by (auto simp: rbind_Inr_iff)
  have "sorted_keys (sd_completed r)" using Cons.prems(3) unfolding reader_ok_def by blast
  with r1(1) Cons.prems(2) have "map_of (sd_completed r1) job = Some x"
    by (elim sd_completeE) (auto simp: map_of_alist_insert)
  with Cons.IH [OF r1(2)] reader_ok_complete [OF r1(1) Cons.prems(3)] show ?case by blast
qed simp

text \<open>What becomes of the reads whose completions are processed.\<close>

lemma complete_all_outcome:
  assumes "rfold (sd_complete xxh now) wcs r = Inr r'" "reader_ok n now wcs r" "(job, i, start) \<in> set (sd_outstanding r)"
    and "map_of (sd_completed r') job = Some (k, inc)"
  shows "job \<in> snd ` set wcs \<and>
    (\<exists>inc'. best_subslot xxh (sd_value_size r) (sd_memory r ! job) = Some (inc', k) \<and> inc = inc' - 2)"
  using assms
proof (induction wcs arbitrary: r)
  case Nil
  then have "job \<in> set (sd_jobs r)" "job \<in> fst ` set (sd_completed r)"
    by (auto simp: sd_jobs_def dest: map_of_mem_fst intro: rev_image_eqI)
  with Nil(2) show ?case unfolding reader_ok_def by blast
next
  case (Cons wc wcs)
  from Cons.prems(1) obtain r1 where r1: "sd_complete xxh now wc r = Inr r1" "rfold (sd_complete xxh now) wcs r1 = Inr r'"
    by (auto simp: rbind_Inr_iff)
  note ok1 = reader_ok_complete [OF r1(1) Cons.prems(2)]
  have d: "sorted_keys (sd_completed r)" "set (sd_jobs r) \<inter> fst ` set (sd_completed r) = {}"
    using Cons.prems(2) unfolding reader_ok_def by blast+
  have ok': "set (sd_jobs r') \<inter> fst ` set (sd_completed r') = {}"
    using reader_ok_complete_all [OF r1(2) ok1] unfolding reader_ok_def by blast
  from r1(1) show ?case
  proof (cases rule: sd_completeE)
    case (good i0 start0 outs inc' k')
    show ?thesis
    proof (cases "job = snd wc")
      case True
      have "job \<in> set (sd_jobs r)" using Cons.prems(3) by (force simp: sd_jobs_def)
      then have "map_of (sd_completed r) job = None" using d(2) by (auto simp: map_of_eq_None_iff)
      then have "map_of (sd_completed r1) job = Some (k', inc' - 2)" using d(1) True good(3) by (simp add: map_of_alist_insert)
      from completed_stays [OF r1(2) this ok1] Cons.prems(4) good True show ?thesis by auto
    next
      case False
      then have "(job, i, start) \<in> set (sd_outstanding r1)" using Cons.prems(3) good by auto
      from Cons.IH [OF r1(2) ok1 this Cons.prems(4)] good show ?thesis by auto
    qed
  next
    case (again i0 start0 outs)
    show ?thesis
    proof (cases "job = snd wc")
      case True
      have "job \<in> fst ` set (sd_completed r')" using Cons.prems(4) by (rule map_of_mem_fst)
      moreover have "(job, i0) \<in> set (sd_queued r')" using queue_grows [OF r1(2)] again True by auto
      then have "job \<in> set (sd_jobs r')" by (force simp: sd_jobs_def)
      ultimately show ?thesis using ok' by blast
    next
      case False
      then have "(job, i, start) \<in> set (sd_outstanding r1)" using Cons.prems(3) again by auto
      from Cons.IH [OF r1(2) ok1 this Cons.prems(4)] again show ?thesis by auto
    qed
  qed
qed

lemma sd_complete_error:
  assumes "sd_complete xxh now wc r = Inl e" "reader_ok n now (wc # wcs) r"
  shows "e = Runtime_error ''Byzantine behavior detected, we should handle it.'' \<and>
    (\<exists>i start. (snd wc, i, start) \<in> set (sd_outstanding r) \<and> now \<le> start + write_cooldown \<and>
       best_subslot xxh (sd_value_size r) (sd_memory r ! snd wc) = None)"
proof -
  have m: "map fst (sd_outstanding r) = snd wc # map snd wcs @ qp_owed (sd_rc r)" "fst wc"
    "set (sd_jobs r) \<union> fst ` set (sd_completed r) \<subseteq> {0 ..< length (sd_memory r)}"
    using assms(2) by (simp_all add: reader_ok_def)
  then obtain i start outs where o: "sd_outstanding r = (snd wc, i, start) # outs" by (cases "sd_outstanding r") auto
  then have "snd wc < length (sd_memory r)" using m(3) by (simp add: sd_jobs_def)
  with assms(1) o m(2) have "e = Runtime_error ''Byzantine behavior detected, we should handle it.'' \<and> now \<le> start + write_cooldown \<and>
      best_subslot xxh (sd_value_size r) (sd_memory r ! snd wc) = None"
    by (simp add: sd_complete_def not_less split: option.split_asm prod.split_asm if_split_asm)
  with o show ?thesis by (metis list.set_intros(1))
qed

lemma complete_all_error:
  assumes "rfold (sd_complete xxh now) wcs r = Inl e" "reader_ok n now wcs r"
  shows "e = Runtime_error ''Byzantine behavior detected, we should handle it.'' \<and>
    (\<exists>job i start. job \<in> snd ` set wcs \<and> (job, i, start) \<in> set (sd_outstanding r) \<and> now \<le> start + write_cooldown \<and>
       best_subslot xxh (sd_value_size r) (sd_memory r ! job) = None)"
  using assms
proof (induction wcs arbitrary: r)
  case (Cons wc wcs)
  show ?case
  proof (cases "sd_complete xxh now wc r")
    case (Inl e')
    with Cons.prems sd_complete_error [OF Inl Cons.prems(2)] show ?thesis by auto
  next
    case (Inr r1)
    with Cons.prems(1) have "rfold (sd_complete xxh now) wcs r1 = Inl e" by simp
    from Cons.IH [OF this reader_ok_complete [OF Inr Cons.prems(2)]]
    obtain job i start where *: "e = Runtime_error ''Byzantine behavior detected, we should handle it.''" "job \<in> snd ` set wcs"
      "(job, i, start) \<in> set (sd_outstanding r1)" "now \<le> start + write_cooldown"
      "best_subslot xxh (sd_value_size r1) (sd_memory r1 ! job) = None" by blast
    from Inr have "set (sd_outstanding r1) \<subseteq> set (sd_outstanding r)" "sd_value_size r1 = sd_value_size r" "sd_memory r1 = sd_memory r"
      by (elim sd_completeE; auto)+
    with * have "job \<in> snd ` set (wc # wcs) \<and> (job, i, start) \<in> set (sd_outstanding r) \<and>
        best_subslot xxh (sd_value_size r) (sd_memory r ! job) = None" by auto
    with *(1,4) show ?thesis by blast
  qed
qed simp

text \<open>The queue pair of the reader accepts requests and polls, as it does at the start.\<close>

definition qp_up :: "'r qp \<Rightarrow> bool" where
  "qp_up q \<longleftrightarrow> qp_post_ok q \<and> qp_poll_ok q"

lemma sd_push_total: "qp_up (sd_rc r) \<Longrightarrow> \<exists>r'. sd_push now r = Inr r'"
proof (induction now r rule: sd_push.induct)
  case (1 now r)
  show ?case
  proof (cases "\<exists>job index queued. sd_queued r = (job, index) # queued \<and> length (sd_outstanding r) < 128")
    case False
    then show ?thesis by (subst sd_push.simps) (auto split: list.splits)
  next
    case True
    then obtain job index queued where q: "sd_queued r = (job, index) # queued" "length (sd_outstanding r) < 128" by blast
    let ?rc = "(sd_rc r)\<lparr>qp_sq := qp_sq (sd_rc r) @ [(job, index, [])]\<rparr>"
    have p: "qp_post (job, index, []) (sd_rc r) = (True, ?rc)" using "1.prems" by (simp add: qp_post_def qp_up_def)
    have "qp_up ?rc" using "1.prems" by (simp add: qp_up_def)
    with "1.IH" [OF q(1) refl q(2) refl p [symmetric]] show ?thesis
      by (subst sd_push.simps) (simp add: q p)
  qed
qed

lemma sd_push_up: "sd_push now r = Inr r' \<Longrightarrow> qp_up (sd_rc r') = qp_up (sd_rc r)"
  using sd_push_result [of now r r'] by (auto simp: qp_up_def)

lemma sd_tick_up:
  assumes "sd_tick xxh now r = Inr r'" "reader_ok n now [] r" "qp_up (sd_rc r)"
  shows "qp_up (sd_rc r')"
proof (cases "sd_outstanding r = []")
  case True
  with assms show ?thesis by (simp add: sd_tick_def)
next
  case False
  with assms(1) obtain wcs rc r1 where q: "qp_poll (length (sd_outstanding r)) (sd_rc r) = Some (wcs, rc)"
    "rfold (sd_complete xxh now) wcs (r\<lparr>sd_rc := rc\<rparr>) = Inr r1" "sd_push now r1 = Inr r'"
    by (auto simp: sd_tick_def sd_poll_completion_def rbind_Inr_iff split: option.split_asm)
  have "qp_up rc" using q(1) assms(3) by (auto simp: qp_poll_def qp_up_def split: if_split_asm)
  with reader_ok_complete_all [OF q(2) reader_ok_poll(1) [OF assms(2) q(1)]] sd_push_up [OF q(3)] show ?thesis by simp
qed

lemma sd_new_rc: "sd_new nb vs rs ls local = Inr r \<Longrightarrow> sd_rc r = qp_new"
  by (auto simp: sd_new_def Let_def split: if_split_asm)

lemma swmr_reach_up: "(swmr_step xxh)\<^sup>*\<^sup>* s0 s \<Longrightarrow> swmr_ready xxh s0 \<Longrightarrow> qp_up (sd_rc (sy_reader s))"
proof (induction rule: rtranclp_induct)
  case base
  then show ?case by (auto simp: swmr_ready_def qp_new_def qp_up_def dest!: sd_new_rc)
next
  case (step s s')
  have ok: "reader_ok (length (sw_registers (sy_writer s))) (sy_now s) [] (sy_reader s)"
    using swmr_reach_ok [OF step(1,4)] by (simp add: sys_ok_def)
  from step(2) step(3) [OF step(4)] ok show ?case
  proof (induction rule: swmr_step.induct)
    case (step_read i s job r)
    then show ?case
      by (auto simp: with_reader_def sd_read_def Let_def rbind_Inr_iff dest!: sd_push_up split: if_split_asm)
  next
    case (step_reader_tick s r)
    from sd_tick_up [OF this(1,3,2)] show ?case by (simp add: with_reader_def)
  next
    case (step_release job s r)
    then show ?case by (auto simp: with_reader_def sd_release_def split: if_split_asm)
  next
    case (step_move_read j s p)
    then show ?case by (simp add: move_read_def qp_up_def split: prod.split)
  next
    case (step_read_done s job i moved rest)
    then show ?case by (simp add: qp_up_def qp_complete_def)
  qed simp_all
qed

lemma reader_memory_length:
  assumes "reader_ok n now wcs r" "(job, x) \<in> set (sd_outstanding r)"
  shows "length (sd_memory r ! job) = 2 * slot_len (sd_value_size r)"
proof -
  have "job \<in> set (sd_jobs r)" using assms(2) by (force simp: sd_jobs_def)
  moreover have "set (sd_jobs r) \<union> fst ` set (sd_completed r) \<subseteq> {0 ..< length (sd_memory r)}"
    "\<forall>b \<in> set (sd_memory r). length b = 2 * slot_len (sd_value_size r)"
    using assms(1) unfolding reader_ok_def by blast+
  ultimately show ?thesis by auto
qed

text \<open>The reads whose completions a tick processes, when they are in time.\<close>

lemma tick_best:
  assumes "sys_ok xxh s" "qp_poll m (sd_rc (sy_reader s)) = Some (wcs, rc)"
    and "(job, i, start) \<in> set (sd_outstanding (sy_reader s))" "job \<in> snd ` set wcs" "sy_now s < start + write_cooldown"
  shows "\<exists>inc k. best_subslot xxh (sd_value_size (sy_reader s)) (sd_memory (sy_reader s) ! job) = Some (inc, k) \<and> sy_base s job \<le> inc"
proof -
  let ?r = "sy_reader s"
  have ok: "reader_ok (length (sw_registers (sy_writer s))) (sy_now s) [] ?r"
    "read_ok xxh (sy_writer s) (sy_host s) (sy_now s) (sy_base s job) ?r (job, i, start)"
    "sd_value_size ?r = sw_value_size (sy_writer s)"
    using assms(1,3) by (auto simp: sys_ok_def)
  note p = reader_ok_poll [OF ok(1) assms(2)]
  have "fetched ?r job q" for q
    using polled_fetched [OF p(1) assms(4), of q] by (simp add: fetched_def p(2))
  with best_in_time [OF ok(2) assms(5)] reader_memory_length [OF ok(1) assms(3)] ok(3) show ?thesis by auto
qed

theorem reader_tick_error:
  assumes "sys_ok xxh s" "qp_up (sd_rc (sy_reader s))" "sd_tick xxh (sy_now s) (sy_reader s) = Inl e"
  shows "e = Runtime_error ''Byzantine behavior detected, we should handle it.'' \<and>
    (\<exists>job i start. (job, i, start) \<in> set (sd_outstanding (sy_reader s)) \<and> sy_now s = start + write_cooldown)"
proof -
  let ?r = "sy_reader s" and ?n = "length (sw_registers (sy_writer s))"
  have ok: "reader_ok ?n (sy_now s) [] ?r" using assms(1) by (simp add: sys_ok_def)
  obtain wcs rc where q: "qp_poll (length (sd_outstanding ?r)) (sd_rc ?r) = Some (wcs, rc)" "qp_up rc"
    using assms(2) by (auto simp: qp_poll_def qp_up_def)
  note o = reader_ok_poll [OF ok q(1)]
  have "rfold (sd_complete xxh (sy_now s)) wcs (?r\<lparr>sd_rc := rc\<rparr>) = Inl e"
  proof (cases "rfold (sd_complete xxh (sy_now s)) wcs (?r\<lparr>sd_rc := rc\<rparr>)")
    case (Inr r1)
    then have "qp_up (sd_rc r1)" using reader_ok_complete_all [OF Inr o(1)] q(2) by simp
    with sd_push_total [of r1 "sy_now s"] assms(3) q(1) Inr show ?thesis
      by (auto simp: sd_tick_def sd_poll_completion_def split: if_split_asm)
  qed (use assms(3) q in \<open>auto simp: sd_tick_def sd_poll_completion_def split: if_split_asm\<close>)
  from complete_all_error [OF this o(1)] obtain job i start where
    j: "e = Runtime_error ''Byzantine behavior detected, we should handle it.''" "job \<in> snd ` set wcs"
    "(job, i, start) \<in> set (sd_outstanding ?r)" "sy_now s \<le> start + write_cooldown"
    "best_subslot xxh (sd_value_size ?r) (sd_memory ?r ! job) = None" by auto
  with tick_best [OF assms(1) q(1) j(3,2)] have "sy_now s = start + write_cooldown" by fastforce
  with j(1,3) show ?thesis by blast
qed

theorem reader_tick_fresh:
  assumes "sys_ok xxh s" "sd_tick xxh (sy_now s) (sy_reader s) = Inr r'"
    and "(job, i, start) \<in> set (sd_outstanding (sy_reader s))" "sy_now s < start + write_cooldown"
    and "sd_poll job r' = Some (slot, inc)"
  shows "\<exists>inc'. inc = inc' - 2 \<and> sy_base s job \<le> inc' \<and> fst slot = job \<and>
    intact xxh (subslot_of (sd_value_size r') (snd slot) (sd_memory r' ! job)) \<and>
    slot_incarnation (subslot_of (sd_value_size r') (snd slot) (sd_memory r' ! job)) = inc'"
proof -
  let ?r = "sy_reader s" and ?n = "length (sw_registers (sy_writer s))"
  have ok: "reader_ok ?n (sy_now s) [] ?r" using assms(1) by (simp add: sys_ok_def)
  from assms(2,3) obtain wcs rc r1 where q: "qp_poll (length (sd_outstanding ?r)) (sd_rc ?r) = Some (wcs, rc)"
    "rfold (sd_complete xxh (sy_now s)) wcs (?r\<lparr>sd_rc := rc\<rparr>) = Inr r1" "sd_push (sy_now s) r1 = Inr r'"
    by (auto simp: sd_tick_def sd_poll_completion_def rbind_Inr_iff split: option.split_asm if_split_asm)
  note o = reader_ok_poll [OF ok q(1)]
  note c = reader_ok_complete_all [OF q(2) o(1)]
  from sd_push_result [OF q(3)] c have f: "sd_completed r' = sd_completed r1" "sd_memory r' = sd_memory ?r"
    "sd_value_size r' = sd_value_size ?r" by auto
  from assms(5) f(1) obtain k where k: "slot = (job, k)" "map_of (sd_completed r1) job = Some (k, inc)"
    by (auto simp: sd_poll_def)
  from complete_all_outcome [OF q(2) o(1) _ k(2)] assms(3) obtain inc' where
    b: "job \<in> snd ` set wcs" "best_subslot xxh (sd_value_size ?r) (sd_memory ?r ! job) = Some (inc', k)" "inc = inc' - 2"
    by auto
  from tick_best [OF assms(1) q(1) assms(3) b(1) assms(4)] b(2) have "sy_base s job \<le> inc'" by auto
  with best_subslot_sound [OF b(2)] b(3) k(1) show ?thesis by (simp add: f)
qed

end
