(* ===== verification/Replicated_Swmr.thy ===== *)
theory Replicated_Swmr
  imports Swmr_Reads
begin

text \<open>
  Registers replicated over several hosts (ubft/src/replicated-swmr): a writer over one \<open>swmr::Writer\<close>
  per host and a reader over one \<open>swmr::Reader\<close> per host. A write is complete, and a read is answered,
  once half of the hosts, rounded up, have done it.

  A scheduled write holds a pointer to the buffer of the register: it is the index of the register, and
  the buffer is read when the write is handed to the host's writer. The iteration over the
  unordered maps and sets is in increasing order of the keys. \<open>release\<close> reads an iterator after its element was
  erased: what the freed element still says is the parameter \<open>freed\<close>. \<open>push\<close> of the reader uses a reference to the
  front of its queue after it has popped it: \<open>mr_push\<close> takes the handle to be what it was before the pop.
\<close>

section \<open>Writer\<close>

record rw_register =
  rr_buffer :: bytes
  rr_outstanding :: bool
  rr_incarnation :: u32

definition rr_new :: "u64 \<Rightarrow> rw_register" where
  "rr_new value_size = \<lparr>rr_buffer = replicate (unat value_size) 0, rr_outstanding = False, rr_incarnation = 0\<rparr>"

definition rr_set_incarnation :: "u32 \<Rightarrow> rw_register \<Rightarrow> rw_register result" where
  "rr_set_incarnation custom r =
     (if custom \<le> rr_incarnation r then Inl (Runtime_error ''Incarnation numbers must be monotonic'')
      else Inr (r\<lparr>rr_incarnation := custom\<rparr>))"

record managed_writer =
  mw_writer :: swmr_writer
  mw_to_write :: "(nat \<times> u32) list"

definition mw_push_one :: "(bytes \<Rightarrow> u64) \<Rightarrow> int \<Rightarrow> rw_register list \<Rightarrow> nat \<times> u32 \<Rightarrow> managed_writer \<Rightarrow> managed_writer result" where
  "mw_push_one xxh now regs job mw =
     rbind (sw_get_slot (fst job) (mw_writer mw)) (\<lambda>opt_slot.
       case opt_slot of
         None \<Rightarrow> Inr mw
       | Some slot \<Rightarrow>
           rbind (uat regs (fst job)) (\<lambda>reg.
           rbind (sw_write xxh now (fst job) (Some (snd job)) (sw_memcpy slot (rr_buffer reg) (mw_writer mw))) (\<lambda>w.
           Inr (mw\<lparr>mw_writer := w, mw_to_write := alist_erase (fst job) (mw_to_write mw)\<rparr>))))"

definition mw_push :: "(bytes \<Rightarrow> u64) \<Rightarrow> int \<Rightarrow> rw_register list \<Rightarrow> managed_writer \<Rightarrow> managed_writer result" where
  "mw_push xxh now regs mw = rfold (mw_push_one xxh now regs) (mw_to_write mw) mw"

definition mw_tick :: "(bytes \<Rightarrow> u64) \<Rightarrow> int \<Rightarrow> rw_register list \<Rightarrow> managed_writer \<Rightarrow> managed_writer result" where
  "mw_tick xxh now regs mw =
     rbind (sw_tick now (mw_writer mw)) (\<lambda>w. mw_push xxh now regs (mw\<lparr>mw_writer := w\<rparr>))"

definition mw_write :: "(bytes \<Rightarrow> u64) \<Rightarrow> int \<Rightarrow> rw_register list \<Rightarrow> nat \<Rightarrow> u32 \<Rightarrow> managed_writer \<Rightarrow> managed_writer result" where
  "mw_write xxh now regs index inc mw =
     mw_push xxh now regs (mw\<lparr>mw_to_write := alist_set index inc (mw_to_write mw)\<rparr>)"

definition mw_completed :: "nat \<Rightarrow> managed_writer \<Rightarrow> bool result" where
  "mw_completed index mw =
     (if map_of (mw_to_write mw) index = None then sw_completed index (mw_writer mw) else Inr False)"

record rep_writer =
  rw_allow_custom :: bool
  rw_registers :: "rw_register list"
  rw_writers :: "managed_writer list"

definition rw_new :: "bool \<Rightarrow> swmr_writer list \<Rightarrow> rep_writer result" where
  "rw_new allow_custom writers =
     (case writers of
        [] \<Rightarrow> Inl (Runtime_error ''There should be at least one sub-writer.'')
      | w # _ \<Rightarrow> Inr \<lparr>rw_allow_custom = allow_custom,
          rw_registers = replicate (unat (sw_nb w)) (rr_new (sw_value_size w)),
          rw_writers = map (\<lambda>w. \<lparr>mw_writer = w, mw_to_write = []\<rparr>) writers\<rparr>)"

definition rw_get_slot :: "nat \<Rightarrow> rep_writer \<Rightarrow> nat option result" where
  "rw_get_slot index w =
     rbind (uat (rw_registers w) index) (\<lambda>reg. Inr (if rr_outstanding reg then None else Some index))"

text \<open>What a client does with the slot.\<close>

definition rw_memcpy :: "nat \<Rightarrow> bytes \<Rightarrow> rep_writer \<Rightarrow> rep_writer" where
  "rw_memcpy slot v w =
     w\<lparr>rw_registers := (rw_registers w)[slot := (rw_registers w ! slot)\<lparr>rr_buffer := v\<rparr>]\<rparr>"

definition rw_write :: "(bytes \<Rightarrow> u64) \<Rightarrow> int \<Rightarrow> nat \<Rightarrow> u32 option \<Rightarrow> rep_writer \<Rightarrow> rep_writer result" where
  "rw_write xxh now index inc w =
     rbind (uat (rw_registers w) index) (\<lambda>reg.
       if rr_outstanding reg then Inl (Runtime_error ''Cannot write before the completion of the previous WRITE.'')
       else
         rbind (case inc of
                  Some i \<Rightarrow>
                    if \<not> rw_allow_custom w
                    then Inl (Runtime_error ''Custom incarnation numbers were disabled in the constructor.'')
                    else rr_set_incarnation i reg
                | None \<Rightarrow> Inr (reg\<lparr>rr_incarnation := rr_incarnation reg + 1\<rparr>)) (\<lambda>reg1.
         let regs = (rw_registers w)[index := reg1] in
         rbind (rmap (mw_write xxh now regs index (rr_incarnation reg1)) (rw_writers w)) (\<lambda>writers.
         Inr (w\<lparr>rw_registers := (rw_registers w)[index := reg1\<lparr>rr_outstanding := True\<rparr>], rw_writers := writers\<rparr>))))"

definition rw_completed :: "nat \<Rightarrow> rep_writer \<Rightarrow> (bool \<times> rep_writer) result" where
  "rw_completed index w =
     rbind (uat (rw_registers w) index) (\<lambda>reg.
       if \<not> rr_outstanding reg then Inl (Runtime_error ''No outstanding write'')
       else
         rbind (rmap (mw_completed index) (rw_writers w)) (\<lambda>cs.
           if length (filter id cs) \<ge> (length (rw_writers w) + 1) div 2
           then Inr (True, w\<lparr>rw_registers := (rw_registers w)[index := reg\<lparr>rr_outstanding := False\<rparr>]\<rparr>)
           else Inr (False, w)))"

definition rw_tick :: "(bytes \<Rightarrow> u64) \<Rightarrow> int \<Rightarrow> rep_writer \<Rightarrow> rep_writer result" where
  "rw_tick xxh now w =
     rbind (rmap (mw_tick xxh now (rw_registers w)) (rw_writers w)) (\<lambda>writers. Inr (w\<lparr>rw_writers := writers\<rparr>))"

section \<open>Reader\<close>

record managed_reader =
  mr_reader :: swmr_reader
  mr_queued :: "(u64 \<times> nat) list"
  mr_scheduled :: "(u64 \<times> nat) list"
  mr_to_release :: "nat list"

definition mr_new :: "swmr_reader \<Rightarrow> managed_reader" where
  "mr_new r = \<lparr>mr_reader = r, mr_queued = [], mr_scheduled = [], mr_to_release = []\<rparr>"

function mr_push :: "int \<Rightarrow> managed_reader \<Rightarrow> managed_reader result" where
  "mr_push now mr =
     (case mr_queued mr of
        [] \<Rightarrow> Inr mr
      | (handle, index) # queued \<Rightarrow>
          rbind (sd_read now index (mr_reader mr)) (\<lambda>(opt_handle, r).
            case opt_handle of
              None \<Rightarrow> Inr (mr\<lparr>mr_reader := r\<rparr>)
            | Some job \<Rightarrow>
                mr_push now (mr\<lparr>mr_reader := r, mr_queued := queued,
                                mr_scheduled := alist_insert handle job (mr_scheduled mr)\<rparr>)))"
  by pat_completeness auto
termination
  by (relation "measure (\<lambda>(now, mr). length (mr_queued mr))") auto

declare mr_push.simps [simp del]

definition mr_try_release :: "nat \<Rightarrow> managed_reader \<Rightarrow> managed_reader result" where
  "mr_try_release job mr =
     (if sd_poll job (mr_reader mr) = None then Inr mr
      else rbind (sd_release job (mr_reader mr)) (\<lambda>r.
        Inr (mr\<lparr>mr_reader := r, mr_to_release := filter (\<lambda>j. j \<noteq> job) (mr_to_release mr)\<rparr>)))"

definition mr_tick :: "(bytes \<Rightarrow> u64) \<Rightarrow> int \<Rightarrow> managed_reader \<Rightarrow> managed_reader result" where
  "mr_tick xxh now mr =
     rbind (sd_tick xxh now (mr_reader mr)) (\<lambda>r.
     rbind (rfold mr_try_release (mr_to_release mr) (mr\<lparr>mr_reader := r\<rparr>)) (\<lambda>mr'.
     mr_push now mr'))"

definition mr_read :: "int \<Rightarrow> u64 \<Rightarrow> nat \<Rightarrow> managed_reader \<Rightarrow> managed_reader result" where
  "mr_read now handle index mr = mr_push now (mr\<lparr>mr_queued := mr_queued mr @ [(handle, index)]\<rparr>)"

definition mr_poll :: "u64 \<Rightarrow> managed_reader \<Rightarrow> ((nat \<times> nat) \<times> u32) option" where
  "mr_poll handle mr = Option.bind (map_of (mr_scheduled mr) handle) (\<lambda>job. sd_poll job (mr_reader mr))"

fun erase_handle :: "u64 \<Rightarrow> (u64 \<times> nat) list \<Rightarrow> (u64 \<times> nat) list option" where
  "erase_handle h [] = None"
| "erase_handle h (e # es) = (if fst e = h then Some es else map_option ((#) e) (erase_handle h es))"

definition mr_release :: "(nat \<Rightarrow> nat) \<Rightarrow> u64 \<Rightarrow> managed_reader \<Rightarrow> managed_reader result" where
  "mr_release freed handle mr =
     (case map_of (mr_scheduled mr) handle of
        Some job \<Rightarrow>
          Inr (mr\<lparr>mr_scheduled := alist_erase handle (mr_scheduled mr),
                  mr_to_release := List.insert (freed job) (mr_to_release mr)\<rparr>)
      | None \<Rightarrow>
          (case erase_handle handle (mr_queued mr) of
             None \<Rightarrow> Inl Undefined_behaviour
           | Some queued \<Rightarrow> Inr (mr\<lparr>mr_queued := queued\<rparr>)))"

record rep_reader =
  rd_value_size :: u64
  rd_readers :: "managed_reader list"
  rd_next_handle :: u64

text \<open>The value size is taken from the first reader before the vector is found empty.\<close>

definition rd_new :: "swmr_reader list \<Rightarrow> rep_reader result" where
  "rd_new readers =
     (case readers of
        [] \<Rightarrow> Inl Undefined_behaviour
      | r # _ \<Rightarrow> Inr \<lparr>rd_value_size = sd_value_size r, rd_readers = map mr_new readers, rd_next_handle = 0\<rparr>)"

definition rd_read :: "int \<Rightarrow> nat \<Rightarrow> rep_reader \<Rightarrow> (u64 \<times> rep_reader) result" where
  "rd_read now index rd =
     rbind (rmap (mr_read now (rd_next_handle rd) index) (rd_readers rd)) (\<lambda>rs.
     Inr (rd_next_handle rd, rd\<lparr>rd_readers := rs, rd_next_handle := rd_next_handle rd + 1\<rparr>))"

text \<open>The bytes behind the pointer that a host's reader answers with.\<close>

definition deref :: "managed_reader \<Rightarrow> nat \<times> nat \<Rightarrow> bytes" where
  "deref mr slot = slot_value (subslot_of (sd_value_size (mr_reader mr)) (snd slot) (sd_memory (mr_reader mr) ! fst slot))"

fun highest_of :: "u64 \<Rightarrow> managed_reader list \<Rightarrow> nat \<Rightarrow> (bytes \<times> u32) option \<Rightarrow> nat \<times> (bytes \<times> u32) option" where
  "highest_of handle [] reads highest = (reads, highest)"
| "highest_of handle (mr # mrs) reads highest =
     (case mr_poll handle mr of
        None \<Rightarrow> highest_of handle mrs reads highest
      | Some (slot, inc) \<Rightarrow>
          highest_of handle mrs (reads + 1)
            (if (case highest of None \<Rightarrow> True | Some (_, i) \<Rightarrow> i < inc) then Some (deref mr slot, inc) else highest))"

definition rd_poll :: "(nat \<Rightarrow> nat) \<Rightarrow> u64 \<Rightarrow> rep_reader \<Rightarrow> ((bytes \<times> u32) option \<times> rep_reader) result" where
  "rd_poll freed handle rd =
     (let (reads, highest) = highest_of handle (rd_readers rd) 0 None in
      if reads < (length (rd_readers rd) + 1) div 2 then Inr (None, rd)
      else case highest of
        None \<Rightarrow> Inl Undefined_behaviour
      | Some (v, inc) \<Rightarrow>
          rbind (rmap (mr_release freed handle) (rd_readers rd)) (\<lambda>rs.
          Inr (Some (take (unat (rd_value_size rd)) v, inc), rd\<lparr>rd_readers := rs\<rparr>)))"

definition rd_tick :: "(bytes \<Rightarrow> u64) \<Rightarrow> int \<Rightarrow> rep_reader \<Rightarrow> rep_reader result" where
  "rd_tick xxh now rd = rbind (rmap (mr_tick xxh now) (rd_readers rd)) (\<lambda>rs. Inr (rd\<lparr>rd_readers := rs\<rparr>))"

end
