(* ===== verification/Replicated_Safety.thy ===== *)
theory Replicated_Safety
  imports Replicated_Swmr
begin

text \<open>
  Writer and reader of replicated registers by themselves: an invariant of the writer under every step,
  by which a write that is reported complete was completed by the writers of half of the hosts; a read that is
  answered is at least as recent as every answer it got, of half of the hosts; and majorities meet. What
  the memories of the hosts then hold is in \<open>Replicated_Hosts\<close>.
\<close>

section \<open>Loops over vectors\<close>

lemma rmap_Inr_iff:
  "rmap f xs = Inr ys \<longleftrightarrow> length ys = length xs \<and> (\<forall>i < length xs. f (xs ! i) = Inr (ys ! i))"
proof (induction xs arbitrary: ys)
  case (Cons x xs)
  show ?case
  proof
    assume "rmap f (x # xs) = Inr ys"
    then obtain y zs where "ys = y # zs" "f x = Inr y" "rmap f xs = Inr zs" by (auto simp: rbind_Inr_iff)
    with Cons.IH show "length ys = length (x # xs) \<and> (\<forall>i < length (x # xs). f ((x # xs) ! i) = Inr (ys ! i))"
      by (auto simp: nth_Cons split: nat.split)
  next
    assume r: "length ys = length (x # xs) \<and> (\<forall>i < length (x # xs). f ((x # xs) ! i) = Inr (ys ! i))"
    then obtain y zs where y: "ys = y # zs" by (cases ys) auto
    with r have "f x = Inr y" "\<forall>i < length xs. f (xs ! i) = Inr (zs ! i)" by fastforce+
    moreover from this have "rmap f xs = Inr zs" using Cons.IH [of zs] r y by simp
    ultimately show "rmap f (x # xs) = Inr ys" using y by simp
  qed
qed auto

lemma rmap_all:
  "rmap f xs = Inr ys \<Longrightarrow> \<forall>x \<in> set xs. P x \<Longrightarrow> (\<And>x y. P x \<Longrightarrow> f x = Inr y \<Longrightarrow> Q y) \<Longrightarrow> \<forall>y \<in> set ys. Q y"
  unfolding rmap_Inr_iff by (metis in_set_conv_nth)

section \<open>The writer\<close>

lemma sw_write_registers:
  assumes "sw_write xxh now i (Some inc) (sw_memcpy i v w) = Inr w'" "i < length (sw_registers w)"
  shows "\<exists>r. sw_registers w' = (sw_registers w)[i := r] \<and> sr_content r = v \<and> sr_incarnation r = inc + 2"
proof -
  obtain reg where r: "sr_set_incarnation inc ((sw_registers w ! i)\<lparr>sr_content := v, sr_scheduled := True\<rparr>) = Inr reg"
    and w1: "sw_push now (w\<lparr>sw_registers := (sw_registers w)[i := (sr_change_subslot reg)\<lparr>sr_hash :=
        xxh (le_inc (sr_incarnation (sr_change_subslot reg)) @ sr_content (sr_change_subslot reg))\<rparr>],
        sw_queued := sw_queued w @ [i]\<rparr>) = Inr w'"
    using assms by (auto simp: sw_write_def sw_memcpy_def rbind_Inr_iff uat_Inr_iff Let_def split: if_split_asm)
  have "sw_registers w' = (sw_registers w)[i := (sr_change_subslot reg)\<lparr>sr_hash :=
        xxh (le_inc (sr_incarnation (sr_change_subslot reg)) @ sr_content (sr_change_subslot reg))\<rparr>]"
    using sw_push_pushed [OF w1] by (auto simp: pushed_def)
  with r show ?thesis
    by (auto simp: sr_set_incarnation_def sr_change_subslot_def Let_def split: if_split_asm)
qed

text \<open>Ticks leave what registers hold.\<close>

definition holds_same :: "swmr_writer \<Rightarrow> swmr_writer \<Rightarrow> bool" where
  "holds_same w w' \<longleftrightarrow> map (\<lambda>r. (sr_content r, sr_incarnation r)) (sw_registers w') =
     map (\<lambda>r. (sr_content r, sr_incarnation r)) (sw_registers w)"

lemma holds_same_trans: "holds_same w w1 \<Longrightarrow> holds_same w1 w2 \<Longrightarrow> holds_same w w2"
  by (simp add: holds_same_def)

lemma holds_same_complete:
  assumes "sw_complete bypass now wc w = Inr w'"
  shows "holds_same w w'"
  using assms by (elim sw_completeE) (simp add: holds_same_def map_update list_update_same_conv)

lemma holds_same_tick:
  assumes "sw_tick now w = Inr w'"
  shows "holds_same w w'"
proof -
  have all: "rfold (sw_complete b now) wcs w = Inr w' \<Longrightarrow> holds_same w w'" for b wcs w w'
    by (rule rfold_invariant [where P = "holds_same w"])
       (auto simp: holds_same_def dest: holds_same_complete intro: holds_same_trans)
  obtain w1 where w1: "(if sw_outstanding w \<noteq> 0 then sw_poll False now w else Inr w) = Inr w1" "sw_push now w1 = Inr w'"
    using assms by (auto simp: sw_tick_def rbind_Inr_iff)
  have "holds_same w w1"
  proof (cases "sw_outstanding w = 0")
    case False
    with w1(1) obtain wcs rc where q: "qp_poll (unat (sw_outstanding w)) (sw_rc w) = Some (wcs, rc)"
      "rfold (sw_complete False now) wcs (w\<lparr>sw_rc := rc\<rparr>) = Inr w1"
      by (auto simp: sw_poll_def split: option.split_asm)
    from all [OF q(2)] show ?thesis by (simp add: holds_same_def)
  qed (use w1(1) in \<open>simp add: holds_same_def\<close>)
  moreover have "holds_same w1 w'" using sw_push_pushed [OF w1(2)] by (auto simp: pushed_def holds_same_def)
  ultimately show ?thesis by (rule holds_same_trans)
qed

text \<open>
  A host has still to be given the current incarnation of a register, or its writer holds it with the
  value in the buffer. The writers of the hosts count from two.
\<close>

definition host_has :: "rw_register \<Rightarrow> nat \<Rightarrow> swmr_writer \<Rightarrow> bool" where
  "host_has reg i w \<longleftrightarrow> sr_content (sw_registers w ! i) = rr_buffer reg \<and>
     sr_incarnation (sw_registers w ! i) = rr_incarnation reg + 2"

definition mw_ok :: "rw_register list \<Rightarrow> managed_writer \<Rightarrow> bool" where
  "mw_ok regs mw \<longleftrightarrow> length (sw_registers (mw_writer mw)) = length regs \<and> sorted_keys (mw_to_write mw) \<and>
     (\<forall>i < length regs. \<forall>inc. map_of (mw_to_write mw) i = Some inc \<longrightarrow> inc = rr_incarnation (regs ! i)) \<and>
     (\<forall>i < length regs. map_of (mw_to_write mw) i = None \<longrightarrow> host_has (regs ! i) i (mw_writer mw))"

lemma mw_push_one_ok:
  assumes "mw_push_one xxh now regs job mw = Inr mw'" "mw_ok regs mw"
    and "map_of (mw_to_write mw) (fst job) = Some (snd job)" "distinct (map fst js)"
    and "\<forall>j \<in> set js. map_of (mw_to_write mw) (fst j) = Some (snd j) \<and> fst j \<noteq> fst job"
  shows "mw_ok regs mw' \<and> (\<forall>j \<in> set js. map_of (mw_to_write mw') (fst j) = Some (snd j))"
proof (cases "mw' = mw")
  case False
  let ?w = "mw_writer mw" and ?i = "fst job"
  from assms(1) False obtain w reg slot where s: "sw_get_slot ?i ?w = Inr (Some slot)"
    and w: "uat regs ?i = Inr reg" "sw_write xxh now ?i (Some (snd job)) (sw_memcpy slot (rr_buffer reg) ?w) = Inr w"
    "mw' = mw\<lparr>mw_writer := w, mw_to_write := alist_erase ?i (mw_to_write mw)\<rparr>"
    by (auto simp: mw_push_one_def rbind_Inr_iff split: option.split_asm)
  have slot: "slot = ?i" using sw_get_slotD [OF s] by simp
  have i: "?i < length regs" "reg = regs ! ?i" "?i < length (sw_registers ?w)"
    using w(1) assms(2) by (auto simp: uat_Inr_iff mw_ok_def)
  obtain r where r: "sw_registers w = (sw_registers ?w)[?i := r]" "sr_content r = rr_buffer reg" "sr_incarnation r = snd job + 2"
    using sw_write_registers [OF w(2) [unfolded slot] i(3)] by blast
  have "snd job = rr_incarnation reg" using assms(2,3) i by (auto simp: mw_ok_def dest!: spec [of _ ?i])
  with r i assms(2) have "mw_ok regs mw'"
    by (auto simp: mw_ok_def w(3) host_has_def sorted_alist_erase map_of_alist_erase nth_upd)
  moreover have "\<forall>j \<in> set js. map_of (mw_to_write mw') (fst j) = Some (snd j)"
    using assms(5) by (auto simp: w(3) map_of_alist_erase)
  ultimately show ?thesis by blast
qed (use assms in auto)

lemma mw_push_ok:
  assumes "mw_push xxh now regs mw = Inr mw'" "mw_ok regs mw"
  shows "mw_ok regs mw'"
proof -
  have "rfold (mw_push_one xxh now regs) js mw = Inr mw' \<Longrightarrow> mw_ok regs mw \<Longrightarrow> distinct (map fst js) \<Longrightarrow>
      \<forall>j \<in> set js. map_of (mw_to_write mw) (fst j) = Some (snd j) \<Longrightarrow> mw_ok regs mw'" for js mw
  proof (induction js arbitrary: mw)
    case (Cons job js)
    then obtain mw1 where mw1: "mw_push_one xxh now regs job mw = Inr mw1" "rfold (mw_push_one xxh now regs) js mw1 = Inr mw'"
      by (auto simp: rbind_Inr_iff)
    from mw_push_one_ok [OF mw1(1) Cons.prems(2), of js] Cons.prems(3,4)
    have "mw_ok regs mw1 \<and> (\<forall>j \<in> set js. map_of (mw_to_write mw1) (fst j) = Some (snd j))" by force
    with Cons.IH [OF mw1(2)] Cons.prems(3) show ?case by simp
  qed simp
  moreover have "distinct (map fst (mw_to_write mw))" using assms(2) by (auto simp: mw_ok_def sorted_keys_distinct)
  ultimately show ?thesis using assms by (auto simp: mw_push_def)
qed

lemma mw_ok_writer:
  assumes "mw_ok regs mw" "holds_same (mw_writer mw) w"
  shows "mw_ok regs (mw\<lparr>mw_writer := w\<rparr>)"
proof -
  have l: "length (sw_registers w) = length (sw_registers (mw_writer mw))"
    using arg_cong [OF assms(2) [unfolded holds_same_def], of length] by simp
  have "sr_content (sw_registers w ! i) = sr_content (sw_registers (mw_writer mw) ! i) \<and>
      sr_incarnation (sw_registers w ! i) = sr_incarnation (sw_registers (mw_writer mw) ! i)"
    if "i < length regs" for i
  proof -
    have "i < length (sw_registers w)" using that l assms(1) by (simp add: mw_ok_def)
    with arg_cong [OF assms(2) [unfolded holds_same_def], of "\<lambda>xs. xs ! i"] l show ?thesis by simp
  qed
  with assms(1) l show ?thesis by (auto simp: mw_ok_def host_has_def)
qed

lemma mw_tick_ok: "mw_tick xxh now regs mw = Inr mw' \<Longrightarrow> mw_ok regs mw \<Longrightarrow> mw_ok regs mw'"
  by (auto simp: mw_tick_def rbind_Inr_iff intro: mw_push_ok mw_ok_writer holds_same_tick)

lemma mw_write_ok:
  assumes "mw_write xxh now (regs[i := reg]) i (rr_incarnation reg) mw = Inr mw'" "mw_ok regs mw" "i < length regs"
  shows "mw_ok (regs[i := reg]) mw'"
proof (rule mw_push_ok [OF assms(1) [unfolded mw_write_def]])
  have "sorted_keys (mw_to_write mw)" using assms(2) by (simp add: mw_ok_def)
  then show "mw_ok (regs[i := reg]) (mw\<lparr>mw_to_write := alist_set i (rr_incarnation reg) (mw_to_write mw)\<rparr>)"
    using assms(2,3) by (auto simp: mw_ok_def sorted_alist_set map_of_alist_set nth_upd)
qed

definition rw_ok :: "rep_writer \<Rightarrow> bool" where
  "rw_ok w \<longleftrightarrow> (\<forall>mw \<in> set (rw_writers w). mw_ok (rw_registers w) mw)"

text \<open>The steps: a client fills a slot and writes it, ticks, asks; the network cards change queue pairs.\<close>

inductive rw_step :: "(bytes \<Rightarrow> u64) \<Rightarrow> rep_writer \<Rightarrow> rep_writer \<Rightarrow> bool" for xxh where
  rw_put: "rw_get_slot i w = Inr (Some slot) \<Longrightarrow> rw_write xxh now i inc (rw_memcpy slot v w) = Inr w' \<Longrightarrow> rw_step xxh w w'"
| rw_ticks: "rw_tick xxh now w = Inr w' \<Longrightarrow> rw_step xxh w w'"
| rw_asks: "rw_completed i w = Inr (b, w') \<Longrightarrow> rw_step xxh w w'"
| rw_network: "h < length (rw_writers w) \<Longrightarrow>
    rw_step xxh w (w\<lparr>rw_writers := (rw_writers w)[h := (rw_writers w ! h)\<lparr>mw_writer := (mw_writer (rw_writers w ! h))\<lparr>sw_rc := rc\<rparr>\<rparr>]\<rparr>)"

lemma mw_ok_registers:
  "mw_ok regs mw \<Longrightarrow> map (\<lambda>r. (rr_buffer r, rr_incarnation r)) regs' = map (\<lambda>r. (rr_buffer r, rr_incarnation r)) regs \<Longrightarrow>
   mw_ok regs' mw"
proof -
  assume ok: "mw_ok regs mw" and e: "map (\<lambda>r. (rr_buffer r, rr_incarnation r)) regs' = map (\<lambda>r. (rr_buffer r, rr_incarnation r)) regs"
  have l: "length regs' = length regs" using arg_cong [OF e, of length] by simp
  have "rr_buffer (regs' ! i) = rr_buffer (regs ! i) \<and> rr_incarnation (regs' ! i) = rr_incarnation (regs ! i)"
    if "i < length regs" for i
    using arg_cong [OF e, of "\<lambda>xs. xs ! i"] l that by simp
  with ok l show ?thesis by (auto simp: mw_ok_def host_has_def)
qed

lemma rw_put_ok:
  assumes "rw_get_slot i w = Inr (Some slot)" "rw_write xxh now i inc (rw_memcpy slot v w) = Inr w'" "rw_ok w"
  shows "rw_ok w' \<and> rr_buffer (rw_registers w' ! i) = v \<and> rr_outstanding (rw_registers w' ! i)"
proof -
  have i: "slot = i" "i < length (rw_registers w)" using assms(1) by (auto simp: rw_get_slot_def rbind_Inr_iff uat_Inr_iff split: if_split_asm)
  obtain inc' ws where e: "rmap (mw_write xxh now ((rw_registers w)[i := (rw_registers w ! i)\<lparr>rr_buffer := v, rr_incarnation := inc'\<rparr>]) i inc')
      (rw_writers w) = Inr ws"
    "w' = w\<lparr>rw_registers := (rw_registers w)[i := (rw_registers w ! i)\<lparr>rr_buffer := v, rr_incarnation := inc', rr_outstanding := True\<rparr>],
        rw_writers := ws\<rparr>"
    using assms(2) i
    by (cases inc) (auto simp: rw_write_def rw_memcpy_def rbind_Inr_iff uat_Inr_iff Let_def rr_set_incarnation_def split: if_split_asm)
  obtain reg where reg_def: "reg = (rw_registers w ! i)\<lparr>rr_buffer := v, rr_incarnation := inc'\<rparr>" by blast
  have r: "rr_buffer reg = v" "rmap (mw_write xxh now ((rw_registers w)[i := reg]) i (rr_incarnation reg)) (rw_writers w) = Inr ws"
    "w' = w\<lparr>rw_registers := (rw_registers w)[i := reg\<lparr>rr_outstanding := True\<rparr>], rw_writers := ws\<rparr>"
    using e by (simp_all add: reg_def)
  have "\<forall>mw \<in> set ws. mw_ok ((rw_registers w)[i := reg]) mw"
    by (rule rmap_all [OF r(2), where P = "mw_ok (rw_registers w)"]) (use assms(3) i(2) in \<open>auto simp: rw_ok_def intro: mw_write_ok\<close>)
  moreover have "map (\<lambda>r. (rr_buffer r, rr_incarnation r)) (rw_registers w') =
      map (\<lambda>r. (rr_buffer r, rr_incarnation r)) ((rw_registers w)[i := reg])"
    by (simp add: r(3) map_update)
  ultimately have "rw_ok w'" using mw_ok_registers by (auto simp: rw_ok_def r(3))
  with i(2) r(1) show ?thesis by (simp add: r(3))
qed

theorem rw_step_ok: "rw_step xxh w w' \<Longrightarrow> rw_ok w \<Longrightarrow> rw_ok w'"
proof (induction rule: rw_step.induct)
  case (rw_put i w slot now inc v w')
  then show ?case using rw_put_ok by blast
next
  case (rw_ticks now w w')
  then obtain ws where ws: "rmap (mw_tick xxh now (rw_registers w)) (rw_writers w) = Inr ws" "w' = w\<lparr>rw_writers := ws\<rparr>"
    by (auto simp: rw_tick_def rbind_Inr_iff)
  have "\<forall>mw \<in> set ws. mw_ok (rw_registers w) mw"
    by (rule rmap_all [OF ws(1), where P = "mw_ok (rw_registers w)"]) (use rw_ticks(2) in \<open>auto simp: rw_ok_def intro: mw_tick_ok\<close>)
  then show ?case by (simp add: rw_ok_def ws(2))
next
  case (rw_asks i w b w')
  then have "map (\<lambda>r. (rr_buffer r, rr_incarnation r)) (rw_registers w') = map (\<lambda>r. (rr_buffer r, rr_incarnation r)) (rw_registers w)"
    "rw_writers w' = rw_writers w"
    by (auto simp: rw_completed_def rbind_Inr_iff uat_Inr_iff map_update list_update_same_conv split: if_split_asm)
  with rw_asks(2) mw_ok_registers show ?case by (auto simp: rw_ok_def)
next
  case (rw_network h w rc)
  then have "mw_ok (rw_registers w) (rw_writers w ! h)" by (simp add: rw_ok_def)
  then have "mw_ok (rw_registers w) ((rw_writers w ! h)\<lparr>mw_writer := (mw_writer (rw_writers w ! h))\<lparr>sw_rc := rc\<rparr>\<rparr>)"
    by (rule mw_ok_writer) (simp add: holds_same_def)
  with rw_network show ?case by (auto simp: rw_ok_def dest!: set_update_subset_insert [THEN subsetD])
qed

text \<open>Writers of hosts as their constructors leave them, see \<open>Swmr_Init\<close>.\<close>

definition fresh_writer :: "nat \<Rightarrow> u64 \<Rightarrow> swmr_writer \<Rightarrow> bool" where
  "fresh_writer n vs w \<longleftrightarrow> length (sw_registers w) = n \<and> unat (sw_nb w) = n \<and> sw_value_size w = vs \<and>
     (\<forall>r \<in> set (sw_registers w). sr_content r = replicate (unat vs) 0 \<and> sr_incarnation r = 2)"

lemma rw_new_ok:
  assumes "rw_new custom ws = Inr w" "\<forall>x \<in> set ws. fresh_writer n vs x"
  shows "rw_ok w"
  using assms by (auto simp: rw_new_def rw_ok_def mw_ok_def host_has_def fresh_writer_def rr_new_def split: list.split_asm)

definition done_at :: "nat \<Rightarrow> rep_writer \<Rightarrow> nat set" where
  "done_at i w = {h. h < length (rw_writers w) \<and> \<not> sr_scheduled (sw_registers (mw_writer (rw_writers w ! h)) ! i) \<and>
     host_has (rw_registers w ! i) i (mw_writer (rw_writers w ! h))}"

lemma finite_done_at [simp]: "finite (done_at i w)"
  by (simp add: done_at_def)

lemma card_filter_nth: "length (filter P xs) = card {h. h < length xs \<and> P (xs ! h)}"
  by (rule length_filter_conv_card)

theorem rw_completed_majority:
  assumes "rw_completed i w = Inr (True, w')" "rw_ok w"
  shows "(length (rw_writers w) + 1) div 2 \<le> card (done_at i w)"
proof -
  from assms(1) obtain cs where cs: "rmap (mw_completed i) (rw_writers w) = Inr cs" "i < length (rw_registers w)"
    "(length (rw_writers w) + 1) div 2 \<le> length (filter id cs)"
    by (auto simp: rw_completed_def rbind_Inr_iff uat_Inr_iff split: if_split_asm)
  have "h \<in> done_at i w" if "h < length cs" "cs ! h" for h
  proof -
    have h: "h < length (rw_writers w)" "mw_completed i (rw_writers w ! h) = Inr True"
      using cs(1) that by (auto simp: rmap_Inr_iff)
    then have "map_of (mw_to_write (rw_writers w ! h)) i = None" "\<not> sr_scheduled (sw_registers (mw_writer (rw_writers w ! h)) ! i)"
      by (auto simp: mw_completed_def sw_completed_def rbind_Inr_iff uat_Inr_iff split: if_split_asm)
    moreover have "mw_ok (rw_registers w) (rw_writers w ! h)" using assms(2) h(1) by (simp add: rw_ok_def)
    ultimately show ?thesis using h(1) cs(2) by (simp add: done_at_def mw_ok_def)
  qed
  then have "{h. h < length cs \<and> id (cs ! h)} \<subseteq> done_at i w" by auto
  then have "card {h. h < length cs \<and> id (cs ! h)} \<le> card (done_at i w)" by (rule card_mono [rotated]) simp
  with cs(3) card_filter_nth [of id cs] show ?thesis by simp
qed

section \<open>The reader\<close>

definition polled_at :: "u64 \<Rightarrow> managed_reader list \<Rightarrow> nat set" where
  "polled_at handle mrs = {h. h < length mrs \<and> mr_poll handle (mrs ! h) \<noteq> None}"

lemma highest_of_reads:
  "fst (highest_of handle mrs reads highest) = reads + length (filter (\<lambda>mr. mr_poll handle mr \<noteq> None) mrs)"
  by (induction handle mrs reads highest rule: highest_of.induct) (auto split: option.split)

lemma highest_of_ge:
  "highest_of handle mrs reads highest = (reads', highest') \<Longrightarrow>
   (\<forall>v i. highest = Some (v, i) \<longrightarrow> (\<exists>v' i'. highest' = Some (v', i') \<and> i \<le> i')) \<and>
   (\<forall>mr \<in> set mrs. \<forall>slot i. mr_poll handle mr = Some (slot, i) \<longrightarrow> (\<exists>v' i'. highest' = Some (v', i') \<and> i \<le> i'))"
proof (induction handle mrs reads highest rule: highest_of.induct)
  case (2 handle mr mrs reads highest)
  show ?case
  proof (cases "mr_poll handle mr")
    case None
    with 2 show ?thesis by auto
  next
    case (Some p)
    obtain slot inc where p: "p = (slot, inc)" by (rule prod.exhaust)
    let ?next = "if (case highest of None \<Rightarrow> True | Some (_, i) \<Rightarrow> i < inc) then Some (deref mr slot, inc) else highest"
    have nxt: "\<exists>v' i'. ?next = Some (v', i') \<and> inc \<le> i' \<and> (\<forall>v i. highest = Some (v, i) \<longrightarrow> i \<le> i')"
      by (cases highest) (auto simp: not_less)
    from 2(2) [OF Some p [symmetric]] "2.prems" Some p have ih: "\<forall>v i. ?next = Some (v, i) \<longrightarrow> (\<exists>v' i'. highest' = Some (v', i') \<and> i \<le> i')"
      "\<forall>mr \<in> set mrs. \<forall>slot i. mr_poll handle mr = Some (slot, i) \<longrightarrow> (\<exists>v' i'. highest' = Some (v', i') \<and> i \<le> i')"
      by simp_all
    from nxt ih(1) obtain v' i' where "highest' = Some (v', i')" "inc \<le> i'" "\<forall>v i. highest = Some (v, i) \<longrightarrow> i \<le> i'"
      by (meson order_trans)
    with ih(2) Some p show ?thesis by auto
  qed
qed simp

text \<open>An answer comes from one of the hosts and is the most recent of at least half of them.\<close>

theorem rd_poll_majority:
  assumes "rd_poll freed handle rd = Inr (Some (v, inc), rd')"
  shows "(length (rd_readers rd) + 1) div 2 \<le> card (polled_at handle (rd_readers rd)) \<and>
    (\<forall>h \<in> polled_at handle (rd_readers rd). \<forall>slot i. mr_poll handle (rd_readers rd ! h) = Some (slot, i) \<longrightarrow> i \<le> inc)"
proof -
  obtain reads highest where e: "highest_of handle (rd_readers rd) 0 None = (reads, highest)" by force
  with assms obtain v' where h: "(length (rd_readers rd) + 1) div 2 \<le> reads" "highest = Some (v', inc)"
    by (auto simp: rd_poll_def rbind_Inr_iff split: if_split_asm option.split_asm)
  have "reads = card (polled_at handle (rd_readers rd))"
    using highest_of_reads [of handle "rd_readers rd" 0 None] e
    by (simp add: card_filter_nth polled_at_def)
  moreover have "i \<le> inc" if "x < length (rd_readers rd)" "mr_poll handle (rd_readers rd ! x) = Some (slot, i)" for x slot i
    using highest_of_ge [OF e] nth_mem [OF that(1)] that(2) h(2) by fastforce
  ultimately show ?thesis using h(1) by (auto simp: polled_at_def)
qed

lemma majorities_meet:
  assumes "A \<subseteq> {..< n}" "B \<subseteq> {..< n}" "(n + 1) div 2 \<le> card A" "(n + 1) div 2 \<le> card B" "odd n"
  shows "A \<inter> B \<noteq> {}"
proof
  assume "A \<inter> B = {}"
  have fin: "finite A" "finite B" using assms(1,2) finite_subset by blast+
  have "card A + card B = card (A \<union> B)" using fin \<open>A \<inter> B = {}\<close> by (simp add: card_Un_disjoint)
  also have "\<dots> \<le> n" using card_mono [of "{..< n}" "A \<union> B"] assms(1,2) by simp
  finally show False using assms(3-5) by presburger
qed

end
