(* ===== verification/Replicated_Hosts.thy ===== *)
theory Replicated_Hosts
  imports Replicated_Safety
begin

text \<open>
  The replicated writer and reader with the memories of their hosts. An event is a call of the
  application, a tick, or one network card moving one byte of one request, so that writes and reads of the
  hosts interleave byte by byte. The invariant says for every host that it is a register system
  of \<open>Swmr_Safety\<close>, that the incarnation it holds complete never goes back, and that the reads that
  are being followed will not be answered with an older one.
\<close>

section \<open>The system\<close>

record rep_sys =
  ry_now :: int
  ry_writer :: rep_writer
  ry_reader :: rep_reader
  ry_hosts :: "(nat \<Rightarrow> byte) list"

datatype rep_event =
    Rep_time int
  | Rep_put nat "u32 option" bytes
  | Rep_tick
  | Rep_ask nat
  | Card_writes nat nat nat
  | Card_wrote nat
  | Rep_read nat
  | Rep_reader_tick
  | Rep_poll u64
  | Card_reads nat nat nat
  | Card_read nat

definition returned :: "'a result \<Rightarrow> 'a option" where
  "returned r = (case r of Inl _ \<Rightarrow> None | Inr x \<Rightarrow> Some x)"

lemma returned_Some [simp]: "returned r = Some x \<longleftrightarrow> r = Inr x"
  by (cases r) (auto simp: returned_def)

text \<open>The writer and the reader of one host.\<close>

definition ry_host_writer :: "nat \<Rightarrow> rep_sys \<Rightarrow> swmr_writer" where
  "ry_host_writer h s = mw_writer (rw_writers (ry_writer s) ! h)"

definition ry_host_reader :: "nat \<Rightarrow> rep_sys \<Rightarrow> swmr_reader" where
  "ry_host_reader h s = mr_reader (rd_readers (ry_reader s) ! h)"

definition ry_put_writer :: "nat \<Rightarrow> swmr_writer \<Rightarrow> rep_sys \<Rightarrow> rep_sys" where
  "ry_put_writer h w s = s\<lparr>ry_writer := (ry_writer s)
     \<lparr>rw_writers := (rw_writers (ry_writer s))[h := (rw_writers (ry_writer s) ! h)\<lparr>mw_writer := w\<rparr>]\<rparr>\<rparr>"

definition ry_put_reader :: "nat \<Rightarrow> swmr_reader \<Rightarrow> rep_sys \<Rightarrow> rep_sys" where
  "ry_put_reader h r s = s\<lparr>ry_reader := (ry_reader s)
     \<lparr>rd_readers := (rd_readers (ry_reader s))[h := (rd_readers (ry_reader s) ! h)\<lparr>mr_reader := r\<rparr>]\<rparr>\<rparr>"

text \<open>The reads that the reader of a host would process now were posted less than the cooldown ago.\<close>

definition reads_in_time :: "int \<Rightarrow> swmr_reader \<Rightarrow> bool" where
  "reads_in_time now r \<longleftrightarrow>
     list_all (\<lambda>(job, i, start). job \<in> set (map snd (qp_cq (sd_rc r))) \<longrightarrow> now < start + write_cooldown) (sd_outstanding r)"

text \<open>
  An event that is possible and ends without an exception gives the next state. Time goes on; a value has the size
  of the registers; the card of a host moves byte \<open>p\<close> of request \<open>j\<close> and completes the oldest request when it
  has moved all its bytes; the reader ticks often enough for its reads; handles do not wrap, and a freed element still
  says what it said.
\<close>

fun rep_apply :: "(bytes \<Rightarrow> u64) \<Rightarrow> rep_event \<Rightarrow> rep_sys \<Rightarrow> rep_sys option" where
  "rep_apply xxh (Rep_time t) s = (if ry_now s \<le> t then Some (s\<lparr>ry_now := t\<rparr>) else None)"
| "rep_apply xxh (Rep_put i inc v) s =
     (case rw_get_slot i (ry_writer s) of
        Inr (Some slot) \<Rightarrow>
          if list_all (\<lambda>mw. length v = unat (sw_value_size (mw_writer mw))) (rw_writers (ry_writer s))
          then map_option (\<lambda>w. s\<lparr>ry_writer := w\<rparr>)
                 (returned (rw_write xxh (ry_now s) i inc (rw_memcpy slot v (ry_writer s))))
          else None
      | _ \<Rightarrow> None)"
| "rep_apply xxh Rep_tick s = map_option (\<lambda>w. s\<lparr>ry_writer := w\<rparr>) (returned (rw_tick xxh (ry_now s) (ry_writer s)))"
| "rep_apply xxh (Rep_ask i) s = map_option (\<lambda>(b, w). s\<lparr>ry_writer := w\<rparr>) (returned (rw_completed i (ry_writer s)))"
| "rep_apply xxh (Card_writes h j p) s =
     (if h < length (ry_hosts s) \<and> j < length (qp_sq (sw_rc (ry_host_writer h s))) \<and>
         p < slot_len (sw_value_size (ry_host_writer h s))
      then let (w, m) = move_write j p (ry_host_writer h s) (ry_hosts s ! h) in
           Some (ry_put_writer h w s\<lparr>ry_hosts := (ry_hosts s)[h := m]\<rparr>)
      else None)"
| "rep_apply xxh (Card_wrote h) s =
     (if h < length (ry_hosts s)
      then case qp_sq (sw_rc (ry_host_writer h s)) of
             [] \<Rightarrow> None
           | (i, k, moved) # rest \<Rightarrow>
               if list_all (\<lambda>p. p \<in> set moved) [0 ..< slot_len (sw_value_size (ry_host_writer h s))]
               then Some (ry_put_writer h ((ry_host_writer h s)\<lparr>sw_rc := qp_complete 1 (sw_rc (ry_host_writer h s))\<rparr>) s)
               else None
      else None)"
| "rep_apply xxh (Rep_read i) s =
     (if i < length (rw_registers (ry_writer s)) \<and> rd_next_handle (ry_reader s) < rd_next_handle (ry_reader s) + 1
      then map_option (\<lambda>(handle, rd). s\<lparr>ry_reader := rd\<rparr>) (returned (rd_read (ry_now s) i (ry_reader s)))
      else None)"
| "rep_apply xxh Rep_reader_tick s =
     (if list_all (\<lambda>mr. reads_in_time (ry_now s) (mr_reader mr)) (rd_readers (ry_reader s))
      then map_option (\<lambda>rd. s\<lparr>ry_reader := rd\<rparr>) (returned (rd_tick xxh (ry_now s) (ry_reader s)))
      else None)"
| "rep_apply xxh (Rep_poll handle) s =
     map_option (\<lambda>(answer, rd). s\<lparr>ry_reader := rd\<rparr>) (returned (rd_poll id handle (ry_reader s)))"
| "rep_apply xxh (Card_reads h j p) s =
     (if h < length (ry_hosts s) \<and> j < length (qp_sq (sd_rc (ry_host_reader h s))) \<and>
         p < 2 * slot_len (sd_value_size (ry_host_reader h s))
      then Some (ry_put_reader h (move_read j p (ry_hosts s ! h) (ry_host_reader h s)) s)
      else None)"
| "rep_apply xxh (Card_read h) s =
     (if h < length (ry_hosts s)
      then case qp_sq (sd_rc (ry_host_reader h s)) of
             [] \<Rightarrow> None
           | (job, i, moved) # rest \<Rightarrow>
               if list_all (\<lambda>p. p \<in> set moved) [0 ..< 2 * slot_len (sd_value_size (ry_host_reader h s))]
               then Some (ry_put_reader h ((ry_host_reader h s)\<lparr>sd_rc := qp_complete 1 (sd_rc (ry_host_reader h s))\<rparr>) s)
               else None
      else None)"

fun rep_run :: "(bytes \<Rightarrow> u64) \<Rightarrow> rep_event list \<Rightarrow> rep_sys \<Rightarrow> rep_sys option" where
  "rep_run xxh [] s = Some s"
| "rep_run xxh (ev # evs) s = Option.bind (rep_apply xxh ev s) (rep_run xxh evs)"

section \<open>What a host holds complete never goes back\<close>

text \<open>
  While a register is being written, the other subslot is not newer; incarnations start at two, so a
  custom one whose sum with two wraps is refused.
\<close>

definition ord_ok :: "(nat \<Rightarrow> byte) \<Rightarrow> swmr_writer \<Rightarrow> bool" where
  "ord_ok h w \<longleftrightarrow> (\<forall>i < length (sw_registers w). 2 \<le> sr_incarnation (sw_registers w ! i) \<and>
     (sr_scheduled (sw_registers w ! i) \<longrightarrow> last_done w h i \<le> sr_incarnation (sw_registers w ! i)))"

lemma slot_incarnation_raw [simp]: "slot_incarnation (raw_buffer r) = sr_incarnation r"
proof -
  have "unat (sr_incarnation r) mod 256 ^ 4 = unat (sr_incarnation r)"
    using unsigned_less [of "sr_incarnation r", where ?'a = nat] by simp
  then show ?thesis by (simp only: slot_incarnation_def raw_buffer_def un_inc_def le_inc_def le_nat_le_bytes
      take_append drop_append length_le_bytes) (simp add: le_nat_le_bytes)
qed

lemma last_done_idle:
  "writer_ok xxh h wcs w \<Longrightarrow> i < length (sw_registers w) \<Longrightarrow> \<not> sr_scheduled (sw_registers w ! i) \<Longrightarrow>
   last_done w h i = sr_incarnation (sw_registers w ! i)"
  by (simp add: writer_ok_def reg_ok_def last_done_def complete_slot_def)

text \<open>What an operation of the writer of a host keeps while the memory of the host does not change.\<close>

definition writer_keeps :: "(bytes \<Rightarrow> u64) \<Rightarrow> int \<Rightarrow> (nat \<Rightarrow> byte) \<Rightarrow> swmr_writer \<Rightarrow> swmr_writer \<Rightarrow> bool" where
  "writer_keeps xxh now h w w' \<longleftrightarrow> (writer_ok xxh h [] w \<longrightarrow> ord_ok h w \<longrightarrow>
     writer_ok xxh h [] w' \<and> ord_ok h w' \<and> same_shape w w' \<and>
     (\<forall>i < length (sw_registers w). last_done w h i \<le> last_done w' h i) \<and>
     (\<forall>start i k. steady w start i k \<longrightarrow> start \<le> now \<longrightarrow> now < start + write_cooldown \<longrightarrow>
        i < length (sw_registers w) \<longrightarrow> steady w' start i k))"

lemma writer_keeps_refl: "writer_keeps xxh now h w w"
  by (simp add: writer_keeps_def same_shape_def)

lemma writer_keeps_trans: "writer_keeps xxh now h w w1 \<Longrightarrow> writer_keeps xxh now h w1 w2 \<Longrightarrow> writer_keeps xxh now h w w2"
  unfolding writer_keeps_def same_shape_def by (auto intro: order_trans)

lemma last_done_registers:
  "sw_registers w' = sw_registers w \<Longrightarrow> sw_value_size w' = sw_value_size w \<Longrightarrow> last_done w' h i = last_done w h i"
  by (simp add: last_done_def)

lemma ord_ok_registers:
  "sw_registers w' = sw_registers w \<Longrightarrow> sw_value_size w' = sw_value_size w \<Longrightarrow> ord_ok h w' = ord_ok h w"
  by (simp add: ord_ok_def last_done_def)

lemma pushed_registers: "pushed now w new w' \<Longrightarrow> sw_registers w' = sw_registers w \<and> sw_value_size w' = sw_value_size w"
  by (auto simp: pushed_def)

lemma sw_write_keeps:
  assumes "sw_write xxh now i (Some inc) (sw_memcpy i v w) = Inr w'" "i < length (sw_registers w)"
    and "\<not> sr_scheduled (sw_registers w ! i)" "length v = unat (sw_value_size w)"
  shows "writer_keeps xxh now h w w'"
  unfolding writer_keeps_def
proof (intro impI)
  assume ok: "writer_ok xxh h [] w" and ord: "ord_ok h w"
  have k: "sr_subslot (sw_registers w ! i) < 2" using ok assms(2) by (simp add: writer_ok_def reg_ok_def)
  obtain r new where r: "sr_scheduled r" "sr_subslot r = 1 - sr_subslot (sw_registers w ! i)"
      "sr_incarnation r = inc + 2" "sr_incarnation (sw_registers w ! i) < sr_incarnation r"
    and new: "pushed now (w\<lparr>sw_registers := (sw_registers w)[i := r], sw_queued := sw_queued w @ [i]\<rparr>) new w'"
    using sw_writeE [OF assms(1,2) k] by metis
  have w': "sw_registers w' = (sw_registers w)[i := r]" "sw_value_size w' = sw_value_size w"
    using pushed_registers [OF new] by simp_all
  have "1 - (1 - sr_subslot (sw_registers w ! i)) = sr_subslot (sw_registers w ! i)" using k by simp
  then have same: "last_done w' h j = last_done w h j" for j
    using assms(2,3) r(1,2) by (cases "j = i") (simp_all add: last_done_def w' complete_slot_def)
  have "2 \<le> sr_incarnation (sw_registers w ! i)" using ord assms(2) by (simp add: ord_ok_def)
  then have "2 \<le> sr_incarnation r" using r(4) by (meson less_imp_le order_trans)
  moreover have "last_done w h i \<le> sr_incarnation r" using last_done_idle [OF ok assms(2,3)] r(4) by simp
  ultimately have "ord_ok h w'" using ord same by (simp add: ord_ok_def w' nth_upd)
  with sw_write_ok [OF assms(1-3) ok assms(4)] same
  show "writer_ok xxh h [] w' \<and> ord_ok h w' \<and> same_shape w w' \<and>
     (\<forall>i < length (sw_registers w). last_done w h i \<le> last_done w' h i) \<and>
     (\<forall>start i k. steady w start i k \<longrightarrow> start \<le> now \<longrightarrow> now < start + write_cooldown \<longrightarrow>
        i < length (sw_registers w) \<longrightarrow> steady w' start i k)" by simp
qed

lemma complete_order:
  assumes "sw_complete bypass now wc w = Inr w'" "writer_ok xxh h (wc # wcs) w" "ord_ok h w"
  shows "ord_ok h w' \<and> (\<forall>i < length (sw_registers w). last_done w h i \<le> last_done w' h i)"
proof -
  from assms(1) obtain r where w': "sw_registers w' = (sw_registers w)[snd wc := r]" "sw_value_size w' = sw_value_size w"
    and i: "snd wc < length (sw_registers w)" "sr_scheduled (sw_registers w ! snd wc)"
    and r: "sr_subslot r = sr_subslot (sw_registers w ! snd wc)" "sr_incarnation r = sr_incarnation (sw_registers w ! snd wc)" "\<not> sr_scheduled r"
    by (elim sw_completeE) simp
  have "host_slot (sw_value_size w) h (snd wc) (sr_subslot (sw_registers w ! snd wc)) = raw_buffer (sw_registers w ! snd wc)"
    using assms(2) by (simp add: writer_ok_def)
  then have "last_done w' h j = (if j = snd wc then sr_incarnation (sw_registers w ! j) else last_done w h j)" for j
    using i r by (auto simp: last_done_def w' complete_slot_def nth_upd)
  with assms(3) i r show ?thesis by (auto simp: ord_ok_def w' nth_upd)
qed

lemma complete_all_order:
  assumes "rfold (sw_complete False now) wcs w = Inr w'" "writer_ok xxh h wcs w" "ord_ok h w"
  shows "ord_ok h w' \<and> (\<forall>i < length (sw_registers w). last_done w h i \<le> last_done w' h i)"
  using assms
proof (induction wcs arbitrary: w)
  case (Cons wc wcs)
  then obtain w1 where w1: "sw_complete False now wc w = Inr w1" "rfold (sw_complete False now) wcs w1 = Inr w'"
    by (auto simp: rbind_Inr_iff)
  have "length (sw_registers w1) = length (sw_registers w)" using w1(1) by (elim sw_completeE) simp
  with complete_order [OF w1(1) Cons.prems(2,3)] Cons.IH [OF w1(2) writer_ok_complete [OF Cons.prems(2) w1(1)]]
  show ?case by (auto intro: order_trans)
qed simp

lemma sw_tick_keeps:
  assumes "sw_tick now w = Inr w'"
  shows "writer_keeps xxh now h w w'"
  unfolding writer_keeps_def
proof (intro impI)
  assume ok: "writer_ok xxh h [] w" and ord: "ord_ok h w"
  obtain w1 where w1: "(if sw_outstanding w \<noteq> 0 then sw_poll False now w else Inr w) = Inr w1" "sw_push now w1 = Inr w'"
    using assms by (auto simp: sw_tick_def rbind_Inr_iff)
  have 1: "ord_ok h w1 \<and> (\<forall>i < length (sw_registers w). last_done w h i \<le> last_done w1 h i)"
  proof (cases "sw_outstanding w = 0")
    case False
    let ?n = "unat (sw_outstanding w)"
    have e: "rfold (sw_complete False now) (take ?n (qp_cq (sw_rc w)))
        (w\<lparr>sw_rc := (sw_rc w)\<lparr>qp_cq := drop ?n (qp_cq (sw_rc w))\<rparr>\<rparr>) = Inr w1" (is "rfold _ ?wcs ?w = _")
      using w1(1) False by (auto simp: sw_poll_def qp_poll_def split: if_split_asm)
    have o: "owes ?wcs ?w = owes [] w" by (simp add: owes_def qp_owed_def flip: map_append)
    have c: "set ?wcs \<union> set (qp_cq (sw_rc ?w)) = set (qp_cq (sw_rc w))" by (simp flip: set_append)
    have "writer_ok xxh h ?wcs ?w" using ok unfolding writer_ok_def books_ok_def o c by simp
    from complete_all_order [OF e this] ord ord_ok_registers [of ?w w h] last_done_registers [of ?w w h]
    show ?thesis by simp
  qed (use w1(1) ord in simp)
  obtain new where "pushed now w1 new w'" using sw_push_pushed [OF w1(2)] by blast
  then have "sw_registers w' = sw_registers w1" "sw_value_size w' = sw_value_size w1"
    using pushed_registers by blast+
  note same = ord_ok_registers [OF this] last_done_registers [OF this]
  from 1 sw_tick_ok [OF assms ok] show "writer_ok xxh h [] w' \<and> ord_ok h w' \<and> same_shape w w' \<and>
     (\<forall>i < length (sw_registers w). last_done w h i \<le> last_done w' h i) \<and>
     (\<forall>start i k. steady w start i k \<longrightarrow> start \<le> now \<longrightarrow> now < start + write_cooldown \<longrightarrow>
        i < length (sw_registers w) \<longrightarrow> steady w' start i k)"
    by (simp add: same)
qed

section \<open>The writer over all hosts\<close>

lemma mw_push_one_keeps:
  assumes "mw_push_one xxh now regs job mw = Inr mw'"
    and "\<forall>reg \<in> set regs. length (rr_buffer reg) = unat (sw_value_size (mw_writer mw))"
  shows "writer_keeps xxh now h (mw_writer mw) (mw_writer mw')"
proof (cases "mw' = mw")
  case False
  let ?w = "mw_writer mw" and ?i = "fst job"
  from assms(1) False obtain w reg slot where s: "sw_get_slot ?i ?w = Inr (Some slot)"
    and w: "uat regs ?i = Inr reg" "sw_write xxh now ?i (Some (snd job)) (sw_memcpy slot (rr_buffer reg) ?w) = Inr w"
    "mw_writer mw' = w"
    by (auto simp: mw_push_one_def rbind_Inr_iff split: option.split_asm)
  have "reg \<in> set regs" using w(1) by (auto simp: uat_Inr_iff)
  with assms(2) have len: "length (rr_buffer reg) = unat (sw_value_size ?w)" by blast
  from sw_get_slotD [OF s] w(2) have "sw_write xxh now ?i (Some (snd job)) (sw_memcpy ?i (rr_buffer reg) ?w) = Inr w"
    "?i < length (sw_registers ?w)" "\<not> sr_scheduled (sw_registers ?w ! ?i)" by simp_all
  from sw_write_keeps [OF this len] w(3) show ?thesis by simp
qed (simp add: writer_keeps_refl)

lemma sw_write_value_size: "sw_write xxh now i inc w = Inr w' \<Longrightarrow> sw_value_size w' = sw_value_size w"
proof -
  assume "sw_write xxh now i inc w = Inr w'"
  then obtain reg q where "sw_push now (w\<lparr>sw_registers := reg, sw_queued := q\<rparr>) = Inr w'"
    by (auto simp: sw_write_def rbind_Inr_iff Let_def)
  then obtain new where "pushed now (w\<lparr>sw_registers := reg, sw_queued := q\<rparr>) new w'" using sw_push_pushed by blast
  from pushed_registers [OF this] show ?thesis by simp
qed

lemma mw_push_one_shape: "mw_push_one xxh now regs job mw = Inr mw' \<Longrightarrow> sw_value_size (mw_writer mw') = sw_value_size (mw_writer mw)"
  by (auto simp: mw_push_one_def rbind_Inr_iff sw_memcpy_def split: option.split_asm dest!: sw_write_value_size)

lemma sw_tick_value_size: "sw_tick now w = Inr w' \<Longrightarrow> sw_value_size w' = sw_value_size w"
proof -
  assume "sw_tick now w = Inr w'"
  then obtain w1 new where w1: "(if sw_outstanding w \<noteq> 0 then sw_poll False now w else Inr w) = Inr w1" "pushed now w1 new w'"
    using sw_push_pushed by (fastforce simp: sw_tick_def rbind_Inr_iff)
  have "rfold (sw_complete b now) wcs v = Inr v' \<Longrightarrow> sw_value_size v' = sw_value_size v" for b wcs v v'
    by (rule rfold_invariant [where P = "\<lambda>x. sw_value_size x = sw_value_size v"]) (auto elim: sw_completeE)
  with w1(1) have "sw_value_size w1 = sw_value_size w"
    by (fastforce simp: sw_poll_def split: option.split_asm if_split_asm)
  with pushed_registers [OF w1(2)] show ?thesis by simp
qed

lemma mw_push_keeps:
  assumes "mw_push xxh now regs mw = Inr mw'"
    and "\<forall>reg \<in> set regs. length (rr_buffer reg) = unat (sw_value_size (mw_writer mw))"
  shows "writer_keeps xxh now h (mw_writer mw) (mw_writer mw') \<and> sw_value_size (mw_writer mw') = sw_value_size (mw_writer mw)"
  using assms(1) unfolding mw_push_def
proof (rule rfold_invariant)
  fix job m m'
  assume "mw_push_one xxh now regs job m = Inr m'"
    "writer_keeps xxh now h (mw_writer mw) (mw_writer m) \<and> sw_value_size (mw_writer m) = sw_value_size (mw_writer mw)"
  with assms(2) mw_push_one_keeps [of xxh now regs job m m' h] mw_push_one_shape
  show "writer_keeps xxh now h (mw_writer mw) (mw_writer m') \<and> sw_value_size (mw_writer m') = sw_value_size (mw_writer mw)"
    by (metis writer_keeps_trans)
qed (simp add: writer_keeps_refl)

lemma mw_write_keeps:
  assumes "mw_write xxh now regs i inc mw = Inr mw'"
    and "\<forall>reg \<in> set regs. length (rr_buffer reg) = unat (sw_value_size (mw_writer mw))"
  shows "writer_keeps xxh now h (mw_writer mw) (mw_writer mw') \<and> sw_value_size (mw_writer mw') = sw_value_size (mw_writer mw)"
  using mw_push_keeps [of xxh now regs "mw\<lparr>mw_to_write := alist_set i inc (mw_to_write mw)\<rparr>" mw' h] assms
  by (simp add: mw_write_def)

lemma mw_tick_keeps:
  assumes "mw_tick xxh now regs mw = Inr mw'"
    and "\<forall>reg \<in> set regs. length (rr_buffer reg) = unat (sw_value_size (mw_writer mw))"
  shows "writer_keeps xxh now h (mw_writer mw) (mw_writer mw') \<and> sw_value_size (mw_writer mw') = sw_value_size (mw_writer mw)"
proof -
  obtain w where w: "sw_tick now (mw_writer mw) = Inr w" "mw_push xxh now regs (mw\<lparr>mw_writer := w\<rparr>) = Inr mw'"
    using assms(1) by (auto simp: mw_tick_def rbind_Inr_iff)
  have v: "sw_value_size w = sw_value_size (mw_writer mw)" by (rule sw_tick_value_size [OF w(1)])
  from mw_push_keeps [OF w(2), of h] assms(2)
  have "writer_keeps xxh now h w (mw_writer mw')" "sw_value_size (mw_writer mw') = sw_value_size (mw_writer mw)"
    by (simp_all add: v)
  with writer_keeps_trans [OF sw_tick_keeps [OF w(1)]] show ?thesis by blast
qed

section \<open>The reads that are followed\<close>

text \<open>
  A job of the reader of a host that will be answered with an incarnation of at least \<open>low\<close>, and a handle
  that was given out for register \<open>i\<close>: waiting, or scheduled as such a job, or gone.
\<close>

definition job_above :: "u32 \<Rightarrow> nat \<Rightarrow> (nat \<Rightarrow> u32) \<Rightarrow> swmr_reader \<Rightarrow> nat \<Rightarrow> bool" where
  "job_above low i base r job \<longleftrightarrow> (job, i) \<in> set (sd_queued r) \<or>
     (\<exists>start. (job, i, start) \<in> set (sd_outstanding r) \<and> low \<le> base job) \<or>
     (\<exists>k inc. map_of (sd_completed r) job = Some (k, inc - 2) \<and> low \<le> inc)"

definition handle_above :: "u32 \<Rightarrow> nat \<Rightarrow> (nat \<Rightarrow> u32) \<Rightarrow> managed_reader \<Rightarrow> u64 \<Rightarrow> bool" where
  "handle_above low i base mr handle \<longleftrightarrow> (\<forall>j. (handle, j) \<in> set (mr_queued mr) \<longrightarrow> j = i) \<and>
     (\<forall>job. map_of (mr_scheduled mr) handle = Some job \<longrightarrow> job_above low i base (mr_reader mr) job)"

text \<open>Handles are used once; scheduled jobs and jobs to be released are distinct and not free.\<close>

definition mr_ok :: "nat \<Rightarrow> u64 \<Rightarrow> managed_reader \<Rightarrow> bool" where
  "mr_ok n bound mr \<longleftrightarrow> distinct (map fst (mr_queued mr)) \<and> sorted_keys (mr_scheduled mr) \<and>
     fst ` set (mr_queued mr) \<inter> fst ` set (mr_scheduled mr) = {} \<and> inj_on snd (set (mr_scheduled mr)) \<and>
     distinct (mr_to_release mr) \<and> snd ` set (mr_scheduled mr) \<inter> set (mr_to_release mr) = {} \<and>
     (snd ` set (mr_scheduled mr) \<union> set (mr_to_release mr)) \<inter> set (sd_pool (mr_reader mr)) = {} \<and>
     (\<forall>handle \<in> fst ` set (mr_queued mr) \<union> fst ` set (mr_scheduled mr). handle < bound) \<and>
     (\<forall>q \<in> set (mr_queued mr). snd q < n)"

text \<open>Posting queued reads.\<close>

lemma job_above_push:
  assumes "sys_ok xxh s" "sd_push (sy_now s) r1 = Inr r" "reader_ok n now [] r"
    and "set (sd_outstanding r1) \<subseteq> set (sd_outstanding (sy_reader s))"
    and "(job, i, sy_now s) \<notin> set (sd_outstanding (sy_reader s)) \<or> (job, i) \<notin> set (sd_queued r1)"
    and "job_above low i (sy_base s) r1 job" "low \<le> last_done (sy_writer s) (sy_host s) i"
  shows "job_above low i (rebase s r) r job"
proof -
  from sd_push_result [OF assms(2)] obtain new rest where q: "sd_queued r1 = new @ rest"
    and r: "r = r1\<lparr>sd_queued := rest, sd_rc := (sd_rc r1)\<lparr>qp_sq := qp_sq (sd_rc r1) @ map (\<lambda>(job, i). (job, i, [])) new\<rparr>,
            sd_outstanding := sd_outstanding r1 @ map (\<lambda>(job, i). (job, i, sy_now s)) new\<rparr>" by blast
  have d: "distinct (map fst (sd_outstanding r))" using assms(3) unfolding reader_ok_def sd_jobs_def distinct_append by blast
  have d': "distinct (map fst (sd_outstanding (sy_reader s)))"
    using assms(1) unfolding sys_ok_def reader_ok_def sd_jobs_def distinct_append by blast
  consider (rest) "(job, i) \<in> set rest" | (new) "(job, i) \<in> set new"
    | (old) start where "(job, i, start) \<in> set (sd_outstanding r1)" "low \<le> sy_base s job"
    | (completed) "\<exists>k inc. map_of (sd_completed r1) job = Some (k, inc - 2) \<and> low \<le> inc"
    using assms(6) by (auto simp: job_above_def q)
  then show ?thesis
  proof cases
    case rest
    then show ?thesis by (simp add: job_above_def r)
  next
    case new
    then have o: "(job, i, sy_now s) \<in> set (sd_outstanding r)" by (force simp: r)
    have "map_of (sd_outstanding r) job = Some (i, sy_now s)" using o d by (simp add: map_of_eq_Some_iff)
    moreover have "map_of (sd_outstanding (sy_reader s)) job \<noteq> Some (i, sy_now s)"
      using assms(5) new d' by (auto simp: q map_of_eq_Some_iff)
    ultimately have "low \<le> rebase s r job" using assms(7) by (simp add: rebase_def)
    with o show ?thesis by (auto simp: job_above_def)
  next
    case old
    then have o: "(job, i, start) \<in> set (sd_outstanding r)" by (simp add: r)
    have "map_of (sd_outstanding r) job = Some (i, start)" using o d by (simp add: map_of_eq_Some_iff)
    moreover have "map_of (sd_outstanding (sy_reader s)) job = Some (i, start)"
      using old(1) assms(4) d' by (auto simp: map_of_eq_Some_iff)
    ultimately have "low \<le> rebase s r job" using old(2) by (simp add: rebase_def)
    with o show ?thesis by (auto simp: job_above_def)
  next
    case completed
    then show ?thesis by (simp add: job_above_def r)
  qed
qed

lemma pool_not_outstanding: "reader_ok n now wcs r \<Longrightarrow> job \<in> set (sd_pool r) \<Longrightarrow> (job, x) \<notin> set (sd_outstanding r)"
proof
  assume r: "reader_ok n now wcs r" "job \<in> set (sd_pool r)" "(job, x) \<in> set (sd_outstanding r)"
  then have "job \<in> set (map fst (sd_outstanding r))" by force
  moreover have "set (map fst (sd_outstanding r)) \<inter> set (map fst (sd_queued r) @ sd_pool r) = {}"
    using r(1) unfolding reader_ok_def sd_jobs_def distinct_append by blast
  ultimately show False using r(2) by auto
qed

lemma job_above_read:
  assumes "sys_ok xxh s" "i' < length (sw_registers (sy_writer s))" "sd_read (sy_now s) i' (sy_reader s) = Inr (opt, r)"
    and "low \<le> last_done (sy_writer s) (sy_host s) i"
    and "job_above low i (sy_base s) (sy_reader s) job \<or> opt = Some job \<and> i' = i"
  shows "job_above low i (rebase s r) r job"
proof (cases "sd_pool (sy_reader s) = []")
  case True
  with assms(3) have r: "r = sy_reader s" "opt = None" by (simp_all add: sd_read_def)
  then have "rebase s r = sy_base s" by (auto simp: rebase_def fun_eq_iff split: option.split)
  with assms(5) r show ?thesis by simp
next
  case False
  let ?r = "sy_reader s" and ?n = "length (sw_registers (sy_writer s))"
  let ?j = "last (sd_pool ?r)"
  let ?r1 = "?r\<lparr>sd_pool := butlast (sd_pool ?r), sd_queued := sd_queued ?r @ [(?j, i')]\<rparr>"
  have p: "sd_push (sy_now s) ?r1 = Inr r" and o: "opt = Some ?j"
    using assms(3) False by (auto simp: sd_read_def Let_def rbind_Inr_iff)
  have ok: "reader_ok ?n (sy_now s) [] ?r" using assms(1) by (simp add: sys_ok_def)
  have ok': "reader_ok ?n (sy_now s) [] r" using sys_ok_read [OF assms(1-3)] by (simp add: sys_ok_def with_reader_def)
  have pool: "?j \<in> set (sd_pool ?r)" using False by simp
  have "job_above low i (sy_base s) ?r1 job" using assms(5) o by (auto simp: job_above_def)
  moreover have "(job, i, sy_now s) \<notin> set (sd_outstanding ?r) \<or> (job, i) \<notin> set (sd_queued ?r1)"
    using pool_not_outstanding [OF ok pool] queued_not_outstanding [OF ok] by auto
  ultimately show ?thesis using job_above_push [OF assms(1) p ok'] assms(4) by simp
qed

text \<open>Completions: a read that was outstanding still is, or is queued again, or is answered.\<close>

lemma complete_all_cases:
  assumes "rfold (sd_complete xxh now) wcs r = Inr r'" "reader_ok n now wcs r" "(job, i, start) \<in> set (sd_outstanding r)"
  shows "(job, i, start) \<in> set (sd_outstanding r') \<or> (job, i) \<in> set (sd_queued r') \<or>
    job \<in> snd ` set wcs \<and> (\<exists>inc k. best_subslot xxh (sd_value_size r) (sd_memory r ! job) = Some (inc, k) \<and>
      map_of (sd_completed r') job = Some (k, inc - 2))"
  using assms
proof (induction wcs arbitrary: r)
  case (Cons wc wcs)
  from Cons.prems(1) obtain r1 where r1: "sd_complete xxh now wc r = Inr r1" "rfold (sd_complete xxh now) wcs r1 = Inr r'"
    by (auto simp: rbind_Inr_iff)
  note ok1 = reader_ok_complete [OF r1(1) Cons.prems(2)]
  from r1(1) show ?case
  proof (cases rule: sd_completeE)
    case (good i0 start0 outs inc k)
    show ?thesis
    proof (cases "(job, i, start) \<in> set outs")
      case True
      with Cons.IH [OF r1(2) ok1] good show ?thesis by auto
    next
      case False
      with Cons.prems(3) good(1) have j: "job = snd wc" by auto
      have d: "sorted_keys (sd_completed r)" "set (sd_jobs r) \<inter> fst ` set (sd_completed r) = {}"
        using Cons.prems(2) unfolding reader_ok_def by blast+
      have "job \<in> set (sd_jobs r)" using Cons.prems(3) by (force simp: sd_jobs_def)
      then have "map_of (sd_completed r) job = None" using d(2) by (auto simp: map_of_eq_None_iff)
      then have "map_of (sd_completed r1) job = Some (k, inc - 2)"
        using d(1) good(3) j by (simp add: map_of_alist_insert)
      from completed_stays [OF r1(2) this ok1] good(2) j show ?thesis by auto
    qed
  next
    case (again i0 start0 outs)
    show ?thesis
    proof (cases "(job, i, start) \<in> set outs")
      case True
      with Cons.IH [OF r1(2) ok1] again show ?thesis by auto
    next
      case False
      with Cons.prems(3) again(1) have "(job, i) \<in> set (sd_queued r1)" by (auto simp: again(4))
      with queue_grows [OF r1(2)] show ?thesis by blast
    qed
  qed
qed simp

lemma rebase_same: "sd_outstanding r = sd_outstanding (sy_reader s) \<Longrightarrow> rebase s r = sy_base s"
  by (auto simp: rebase_def fun_eq_iff split: option.split)

lemma job_above_tick:
  assumes "sys_ok xxh s" "sd_tick xxh (sy_now s) (sy_reader s) = Inr r" "reads_in_time (sy_now s) (sy_reader s)"
    and "low \<le> last_done (sy_writer s) (sy_host s) i" "job_above low i (sy_base s) (sy_reader s) job"
  shows "job_above low i (rebase s r) r job"
proof (cases "sd_outstanding (sy_reader s) = []")
  case True
  with assms(2) have "r = sy_reader s" by (simp add: sd_tick_def)
  with rebase_same [of r s] assms(5) show ?thesis by simp
next
  case False
  let ?r = "sy_reader s" and ?n = "length (sw_registers (sy_writer s))"
  have ok: "reader_ok ?n (sy_now s) [] ?r" using assms(1) by (simp add: sys_ok_def)
  from assms(2) False obtain wcs rc r1 where q: "qp_poll (length (sd_outstanding ?r)) (sd_rc ?r) = Some (wcs, rc)"
    "rfold (sd_complete xxh (sy_now s)) wcs (?r\<lparr>sd_rc := rc\<rparr>) = Inr r1" "sd_push (sy_now s) r1 = Inr r"
    by (auto simp: sd_tick_def sd_poll_completion_def rbind_Inr_iff split: option.split_asm)
  note o = reader_ok_poll [OF ok q(1)]
  note c = reader_ok_complete_all [OF q(2) o(1)]
  have ok1: "reader_ok ?n (sy_now s) [] r1" using c by blast
  have sub: "set (sd_outstanding r1) \<subseteq> set (sd_outstanding ?r)" using c by auto
  have fresh: "(job, i, sy_now s) \<notin> set (sd_outstanding ?r) \<or> (job, i) \<notin> set (sd_queued r1)"
  proof (rule ccontr)
    assume "\<not> ?thesis"
    then have m: "(job, i, sy_now s) \<in> set (sd_outstanding ?r)" "(job, i) \<in> set (sd_queued r1)" by blast+
    have "distinct (map fst (sd_outstanding ?r))" using ok unfolding reader_ok_def sd_jobs_def distinct_append by blast
    moreover have "(job, i) \<in> set (sd_queued ?r) \<or> (\<exists>start. (job, i, start) \<in> set (sd_outstanding ?r) \<and> start + write_cooldown < sy_now s)"
      using c m(2) by auto
    ultimately show False using queued_not_outstanding [OF ok, of job i] m(1)
      by (auto simp: write_cooldown_def dest: distinct_fst)
  qed
  have "job_above low i (sy_base s) r1 job"
  proof -
    consider (queued) "(job, i) \<in> set (sd_queued ?r)"
      | (out) start where "(job, i, start) \<in> set (sd_outstanding ?r)" "low \<le> sy_base s job"
      | (completed) k inc where "map_of (sd_completed ?r) job = Some (k, inc - 2)" "low \<le> inc"
      using assms(5) by (auto simp: job_above_def)
    then show ?thesis
    proof cases
      case queued
      with queue_grows [OF q(2)] show ?thesis by (auto simp: job_above_def)
    next
      case out
      have "job \<in> snd ` set wcs \<Longrightarrow> sy_now s < start + write_cooldown"
      proof -
        assume "job \<in> snd ` set wcs"
        then have "job \<in> set (map snd (qp_cq (sd_rc ?r)))"
          using q(1) by (auto simp: qp_poll_def split: if_split_asm dest: in_set_takeD)
        with assms(3) out(1) show ?thesis by (auto simp: reads_in_time_def list_all_iff)
      qed
      with tick_best [OF assms(1) q(1) out(1)] complete_all_cases [OF q(2) o(1), of job i start] out
      show ?thesis by (fastforce simp: job_above_def)
    next
      case completed
      with completed_stays [OF q(2) _ o(1), of job] show ?thesis by (auto simp: job_above_def)
    qed
  qed
  moreover have "reader_ok ?n (sy_now s) [] r"
    using sys_ok_reader_tick [OF assms(1,2)] by (simp add: sys_ok_def with_reader_def)
  ultimately show ?thesis using job_above_push [OF assms(1) q(3) _ sub fresh] assms(4) by blast
qed

lemma job_above_release:
  assumes "sd_release job' (sy_reader s) = Inr r" "job \<noteq> job'" "job_above low i (sy_base s) (sy_reader s) job"
    and "sorted_keys (sd_completed (sy_reader s))"
  shows "job_above low i (rebase s r) r job"
proof -
  have r: "r = (sy_reader s)\<lparr>sd_pool := sd_pool (sy_reader s) @ [job'], sd_completed := alist_erase job' (sd_completed (sy_reader s))\<rparr>"
    using assms(1) by (auto simp: sd_release_def split: if_split_asm)
  then have "rebase s r = sy_base s" by (intro rebase_same) simp
  with assms(2,3) show ?thesis by (auto simp: job_above_def r map_of_alist_erase)
qed

section \<open>The reader over a host\<close>

abbreviation host_sys :: "int \<Rightarrow> swmr_writer \<Rightarrow> (nat \<Rightarrow> byte) \<Rightarrow> swmr_reader \<Rightarrow> (nat \<Rightarrow> u32) \<Rightarrow> swmr_sys" where
  "host_sys now w h r base \<equiv> \<lparr>sy_now = now, sy_writer = w, sy_host = h, sy_reader = r, sy_base = base\<rparr>"

text \<open>
  The reader of a host is in order and will answer the handles of \<open>T\<close>, each paired with its register, with
  what \<open>low\<close> says or newer.
\<close>

definition host_reads ::
  "(bytes \<Rightarrow> u64) \<Rightarrow> int \<Rightarrow> swmr_writer \<Rightarrow> (nat \<Rightarrow> byte) \<Rightarrow> (nat \<Rightarrow> u32) \<Rightarrow> (u64 \<times> nat) set \<Rightarrow> u64 \<Rightarrow> managed_reader \<Rightarrow> bool" where
  "host_reads xxh now w h low T bound mr \<longleftrightarrow> mr_ok (length (sw_registers w)) bound mr \<and>
     (\<exists>base. sys_ok xxh (host_sys now w h (mr_reader mr) base) \<and>
        (\<forall>(handle, i) \<in> T. handle_above (low i) i base mr handle))"

lemma sd_read_pool:
  assumes "sd_read now i r = Inr (Some job, r')"
  shows "sd_pool r = sd_pool r' @ [job]"
proof -
  have "sd_pool r \<noteq> []" using assms by (auto simp: sd_read_def)
  with assms have "job = last (sd_pool r)" "sd_pool r' = butlast (sd_pool r)"
    by (auto simp: sd_read_def Let_def rbind_Inr_iff dest!: sd_push_result)
  with \<open>sd_pool r \<noteq> []\<close> show ?thesis by simp
qed

lemma sd_read_None: "sd_read now i r = Inr (None, r') \<Longrightarrow> r' = r"
  by (auto simp: sd_read_def Let_def rbind_Inr_iff split: if_split_asm)

lemma set_alist_insert_new: "map_of ps k = None \<Longrightarrow> set (alist_insert k v ps) = insert (k, v) (set ps)"
  by (induction k v ps rule: alist_insert.induct) (auto split: if_split_asm)

lemma mr_schedule_reads:
  assumes "host_reads xxh now w h low T bound mr" "mr_queued mr = (handle, index) # queued"
    and "sd_read now index (mr_reader mr) = Inr (Some job, r)" "\<forall>(handle, i) \<in> T. low i \<le> last_done w h i"
  shows "host_reads xxh now w h low T bound
    (mr\<lparr>mr_reader := r, mr_queued := queued, mr_scheduled := alist_insert handle job (mr_scheduled mr)\<rparr>)"
    (is "host_reads _ _ _ _ _ _ _ ?mr")
proof -
  from assms(1) obtain base where ok: "mr_ok (length (sw_registers w)) bound mr"
    and sys: "sys_ok xxh (host_sys now w h (mr_reader mr) base)"
    and above: "\<forall>(handle, i) \<in> T. handle_above (low i) i base mr handle"
    by (auto simp: host_reads_def)
  let ?s = "host_sys now w h (mr_reader mr) base"
  have index: "index < length (sw_registers w)" using ok assms(2) by (simp add: mr_ok_def)
  have new: "map_of (mr_scheduled mr) handle = None" using ok assms(2) by (auto simp: mr_ok_def map_of_eq_None_iff)
  have sorted: "sorted_keys (mr_scheduled mr)" using ok by (simp add: mr_ok_def)
  have pool: "sd_pool (mr_reader mr) = sd_pool r @ [job]" by (rule sd_read_pool [OF assms(3)])
  have "distinct (sd_pool (mr_reader mr))"
    using sys unfolding sys_ok_def reader_ok_def sd_jobs_def distinct_append by simp
  then have job: "job \<notin> set (sd_pool r)" "job \<in> set (sd_pool (mr_reader mr))" unfolding pool by auto
  have "mr_ok (length (sw_registers w)) bound ?mr"
    using ok job assms(2) set_alist_insert_new [OF new, of job] sorted_alist_insert [OF sorted]
    unfolding mr_ok_def pool by (auto simp: inj_on_def)
  moreover have "sys_ok xxh (host_sys now w h r (rebase ?s r))"
    using sys_ok_read [OF sys, of index "Some job" r] index assms(3) by (simp add: with_reader_def)
  moreover have "handle_above (low i) i (rebase ?s r) ?mr hd" if "(hd, i) \<in> T" for hd i
  proof -
    have low: "low i \<le> last_done w h i" using assms(4) that by blast
    have old: "handle_above (low i) i base mr hd" using above that by blast
    have "job_above (low i) i (rebase ?s r) r job'"
      if "map_of (alist_insert handle job (mr_scheduled mr)) hd = Some job'" for job'
    proof (rule job_above_read [of xxh ?s index "Some job" r])
      show "job_above (low i) i (sy_base ?s) (sy_reader ?s) job' \<or> Some job = Some job' \<and> index = i"
        using that old new assms(2) by (auto simp: handle_above_def map_of_alist_insert [OF sorted] split: if_split_asm)
    qed (use sys index assms(3) low in simp_all)
    with old assms(2) show ?thesis by (simp add: handle_above_def)
  qed
  ultimately show ?thesis unfolding host_reads_def by auto
qed

lemma mr_push_reads:
  assumes "mr_push now mr = Inr mr'" "host_reads xxh now w h low T bound mr" "\<forall>(handle, i) \<in> T. low i \<le> last_done w h i"
  shows "host_reads xxh now w h low T bound mr'"
  using assms
proof (induction now mr arbitrary: mr' rule: mr_push.induct)
  case (1 now mr)
  show ?case
  proof (cases "mr_queued mr")
    case Nil
    with "1.prems" show ?thesis by (subst (asm) mr_push.simps) simp
  next
    case (Cons q queued)
    obtain handle index where q: "q = (handle, index)" by fastforce
    from "1.prems"(1) Cons q obtain opt r where r: "sd_read now index (mr_reader mr) = Inr (opt, r)"
      by (subst (asm) mr_push.simps) (auto simp: rbind_Inr_iff)
    show ?thesis
    proof (cases opt)
      case None
      with "1.prems" Cons q r sd_read_None [of now index "mr_reader mr" r] show ?thesis
        by (subst (asm) mr_push.simps) simp
    next
      case (Some job)
      let ?mr = "mr\<lparr>mr_reader := r, mr_queued := queued, mr_scheduled := alist_insert handle job (mr_scheduled mr)\<rparr>"
      have run: "mr_push now ?mr = Inr mr'"
        using "1.prems"(1) Cons q r Some by (subst (asm) mr_push.simps) simp
      have "host_reads xxh now w h low T bound ?mr"
        using mr_schedule_reads [OF "1.prems"(2) Cons [unfolded q] _ "1.prems"(3)] r Some by simp
      from "1.IH" [OF Cons q [symmetric] Some run this "1.prems"(3)] show ?thesis .
    qed
  qed
qed

lemma mr_try_release_reads:
  assumes "mr_try_release job mr = Inr mr'" "host_reads xxh now w h low T bound mr" "job \<in> set (mr_to_release mr)"
  shows "host_reads xxh now w h low T bound mr' \<and> set (mr_to_release mr) - {job} \<subseteq> set (mr_to_release mr')"
proof (cases "sd_poll job (mr_reader mr) = None")
  case True
  with assms show ?thesis by (auto simp: mr_try_release_def)
next
  case False
  with assms(1) obtain r where r: "sd_release job (mr_reader mr) = Inr r"
    and mr': "mr' = mr\<lparr>mr_reader := r, mr_to_release := filter (\<lambda>j. j \<noteq> job) (mr_to_release mr)\<rparr>"
    by (auto simp: mr_try_release_def rbind_Inr_iff)
  from assms(2) obtain base where ok: "mr_ok (length (sw_registers w)) bound mr"
    and sys: "sys_ok xxh (host_sys now w h (mr_reader mr) base)"
    and above: "\<forall>(handle, i) \<in> T. handle_above (low i) i base mr handle"
    by (auto simp: host_reads_def)
  let ?s = "host_sys now w h (mr_reader mr) base"
  have pool: "sd_pool r = sd_pool (mr_reader mr) @ [job]" using r by (auto simp: sd_release_def split: if_split_asm)
  have "mr_ok (length (sw_registers w)) bound mr'"
    using ok assms(3) unfolding mr_ok_def by (auto simp: mr' pool)
  moreover have "sys_ok xxh (host_sys now w h r (rebase ?s r))"
    using sys_ok_release [OF sys, of job r] r by (simp add: with_reader_def)
  moreover have "handle_above (low i) i (rebase ?s r) mr' hd" if "(hd, i) \<in> T" for hd i
  proof -
    have old: "handle_above (low i) i base mr hd" using above that by blast
    have sorted: "sorted_keys (sd_completed (mr_reader mr))" using sys by (simp add: sys_ok_def reader_ok_def)
    have "job_above (low i) i (rebase ?s r) r job'" if "map_of (mr_scheduled mr) hd = Some job'" for job'
    proof -
      have "job' \<in> snd ` set (mr_scheduled mr)" using map_of_SomeD [OF that] by force
      then have "job' \<noteq> job" using ok assms(3) by (auto simp: mr_ok_def)
      with job_above_release [of job ?s r job'] r old that sorted show ?thesis by (simp add: handle_above_def)
    qed
    with old show ?thesis by (simp add: handle_above_def mr')
  qed
  ultimately show ?thesis by (auto simp: host_reads_def mr')
qed

lemma mr_releases_reads:
  "rfold mr_try_release js mr = Inr mr' \<Longrightarrow> host_reads xxh now w h low T bound mr \<Longrightarrow> distinct js \<Longrightarrow>
   set js \<subseteq> set (mr_to_release mr) \<Longrightarrow> host_reads xxh now w h low T bound mr'"
proof (induction js arbitrary: mr)
  case (Cons job js)
  then obtain mr1 where mr1: "mr_try_release job mr = Inr mr1" "rfold mr_try_release js mr1 = Inr mr'"
    by (auto simp: rbind_Inr_iff)
  from mr_try_release_reads [OF mr1(1) Cons.prems(2)] Cons.prems(3,4)
  have "host_reads xxh now w h low T bound mr1" "set js \<subseteq> set (mr_to_release mr1)" by auto
  with Cons.IH [OF mr1(2)] Cons.prems(3) show ?case by simp
qed simp

lemma sd_tick_pool: "sd_tick xxh now r = Inr r' \<Longrightarrow> sd_pool r' = sd_pool r"
proof (cases "sd_outstanding r = []")
  case False
  assume "sd_tick xxh now r = Inr r'"
  with False obtain wcs rc r1 where q: "rfold (sd_complete xxh now) wcs (r\<lparr>sd_rc := rc\<rparr>) = Inr r1" "sd_push now r1 = Inr r'"
    by (auto simp: sd_tick_def sd_poll_completion_def rbind_Inr_iff split: option.split_asm)
  have "sd_pool r1 = sd_pool (r\<lparr>sd_rc := rc\<rparr>)"
    by (rule rfold_invariant [OF q(1), where P = "\<lambda>x. sd_pool x = sd_pool (r\<lparr>sd_rc := rc\<rparr>)"]) (auto elim: sd_completeE)
  with sd_push_result [OF q(2)] show ?thesis by auto
qed (simp add: sd_tick_def)

lemma mr_tick_reads:
  assumes "mr_tick xxh now mr = Inr mr'" "reads_in_time now (mr_reader mr)" "host_reads xxh now w h low T bound mr"
    and "\<forall>(handle, i) \<in> T. low i \<le> last_done w h i"
  shows "host_reads xxh now w h low T bound mr'"
proof -
  from assms(1) obtain r mr1 where r: "sd_tick xxh now (mr_reader mr) = Inr r"
    "rfold mr_try_release (mr_to_release mr) (mr\<lparr>mr_reader := r\<rparr>) = Inr mr1" "mr_push now mr1 = Inr mr'"
    by (auto simp: mr_tick_def rbind_Inr_iff)
  from assms(3) obtain base where ok: "mr_ok (length (sw_registers w)) bound mr"
    and sys: "sys_ok xxh (host_sys now w h (mr_reader mr) base)"
    and above: "\<forall>(handle, i) \<in> T. handle_above (low i) i base mr handle"
    by (auto simp: host_reads_def)
  let ?s = "host_sys now w h (mr_reader mr) base"
  have "mr_ok (length (sw_registers w)) bound (mr\<lparr>mr_reader := r\<rparr>)"
    using ok sd_tick_pool [OF r(1)] by (simp add: mr_ok_def)
  moreover have "sys_ok xxh (host_sys now w h r (rebase ?s r))"
    using sys_ok_reader_tick [OF sys, of r] r(1) by (simp add: with_reader_def)
  moreover have "handle_above (low i) i (rebase ?s r) (mr\<lparr>mr_reader := r\<rparr>) hd" if "(hd, i) \<in> T" for hd i
  proof -
    have "low i \<le> last_done w h i" "handle_above (low i) i base mr hd" using assms(4) above that by blast+
    with job_above_tick [OF sys, of r "low i" i] r(1) assms(2) show ?thesis by (simp add: handle_above_def)
  qed
  ultimately have "host_reads xxh now w h low T bound (mr\<lparr>mr_reader := r\<rparr>)" by (auto simp: host_reads_def)
  moreover have "distinct (mr_to_release mr)" using ok by (simp add: mr_ok_def)
  ultimately have "host_reads xxh now w h low T bound mr1" using mr_releases_reads [OF r(2)] by simp
  from mr_push_reads [OF r(3) this assms(4)] show ?thesis .
qed

text \<open>A read with the next handle; the handle may be followed from now on.\<close>

lemma mr_read_reads:
  assumes "mr_read now bound index mr = Inr mr'" "host_reads xxh now w h low T bound mr"
    and "\<forall>(handle, i) \<in> T. low i \<le> last_done w h i \<and> handle < bound"
    and "index < length (sw_registers w)" "bound < bound + 1" "low index \<le> last_done w h index"
  shows "host_reads xxh now w h low (insert (bound, index) T) (bound + 1) mr'"
proof -
  from assms(2) obtain base where ok: "mr_ok (length (sw_registers w)) bound mr"
    and sys: "sys_ok xxh (host_sys now w h (mr_reader mr) base)"
    and above: "\<forall>(handle, i) \<in> T. handle_above (low i) i base mr handle"
    by (auto simp: host_reads_def)
  let ?mr = "mr\<lparr>mr_queued := mr_queued mr @ [(bound, index)]\<rparr>"
  have fresh: "bound \<notin> fst ` set (mr_queued mr)" "bound \<notin> fst ` set (mr_scheduled mr)"
    using ok by (auto simp: mr_ok_def)
  have "mr_ok (length (sw_registers w)) (bound + 1) ?mr"
    using ok fresh assms(4,5) unfolding mr_ok_def by (auto intro: less_trans)
  moreover have "handle_above (low i) i base ?mr hd" if "(hd, i) \<in> insert (bound, index) T" for hd i
  proof (cases "hd = bound")
    case True
    then have "i = index" using that assms(3) by auto
    with True fresh show ?thesis by (force simp: handle_above_def dest: map_of_SomeD)
  next
    case False
    with that above have "handle_above (low i) i base mr hd" by auto
    with False show ?thesis by (auto simp: handle_above_def)
  qed
  ultimately have "host_reads xxh now w h low (insert (bound, index) T) (bound + 1) ?mr"
    using sys by (auto simp: host_reads_def)
  from mr_push_reads [OF assms(1) [unfolded mr_read_def] this] assms(3,6) show ?thesis by auto
qed

lemma mr_release_reads:
  assumes "mr_release id handle mr = Inr mr'" "host_reads xxh now w h low T bound mr"
  shows "host_reads xxh now w h low T bound mr'"
proof -
  from assms(2) obtain base where ok: "mr_ok (length (sw_registers w)) bound mr"
    and sys: "sys_ok xxh (host_sys now w h (mr_reader mr) base)"
    and above: "\<forall>(handle, i) \<in> T. handle_above (low i) i base mr handle"
    by (auto simp: host_reads_def)
  have "mr_ok (length (sw_registers w)) bound mr' \<and> mr_reader mr' = mr_reader mr \<and>
    (\<forall>(hd, i) \<in> T. handle_above (low i) i base mr' hd)"
  proof (cases "map_of (mr_scheduled mr) handle")
    case (Some job)
    then have mr': "mr' = mr\<lparr>mr_scheduled := alist_erase handle (mr_scheduled mr),
        mr_to_release := List.insert job (mr_to_release mr)\<rparr>"
      using assms(1) by (simp add: mr_release_def)
    let ?s = "set (mr_scheduled mr)" and ?s' = "set (alist_erase handle (mr_scheduled mr))" and ?pool = "set (sd_pool (mr_reader mr))"
    have e: "?s' \<subseteq> ?s" "sorted_keys (alist_erase handle (mr_scheduled mr))"
      using ok by (auto simp: mr_ok_def sorted_alist_erase) (simp add: alist_erase_def)
    have m: "(handle, job) \<in> ?s" using Some by (rule map_of_SomeD)
    have o: "fst ` set (mr_queued mr) \<inter> fst ` ?s = {}" "inj_on snd ?s" "snd ` ?s \<inter> set (mr_to_release mr) = {}"
      "(snd ` ?s \<union> set (mr_to_release mr)) \<inter> ?pool = {}" "\<forall>hd \<in> fst ` set (mr_queued mr) \<union> fst ` ?s. hd < bound"
      using ok by (simp_all add: mr_ok_def)
    have job: "job \<notin> snd ` ?s'" "job \<notin> ?pool" "job \<notin> set (mr_to_release mr)"
    proof -
      show "job \<notin> snd ` ?s'"
      proof
        assume "job \<in> snd ` ?s'"
        then obtain a where "(a, job) \<in> ?s" "a \<noteq> handle" by (auto simp: alist_erase_def)
        with inj_onD [OF o(2), of "(a, job)" "(handle, job)"] m show False by simp
      qed
      have "job \<in> snd ` ?s" using m by force
      with o show "job \<notin> ?pool" "job \<notin> set (mr_to_release mr)" by blast+
    qed
    have "fst ` set (mr_queued mr) \<inter> fst ` ?s' = {}" using o(1) e(1) by blast
    moreover have "inj_on snd ?s'" by (rule inj_on_subset [OF o(2) e(1)])
    moreover have "snd ` ?s' \<inter> set (List.insert job (mr_to_release mr)) = {}"
      using image_mono [OF e(1), of snd] o(3) job(1) by auto
    moreover have "(snd ` ?s' \<union> set (List.insert job (mr_to_release mr))) \<inter> ?pool = {}"
      using image_mono [OF e(1), of snd] o(4) job(2) by auto
    moreover have "\<forall>hd \<in> fst ` set (mr_queued mr) \<union> fst ` ?s'. hd < bound" using o(5) image_mono [OF e(1), of fst] by blast
    ultimately have "mr_ok (length (sw_registers w)) bound mr'"
      using ok e(2) job(3) unfolding mr_ok_def mr' by simp
    with above show ?thesis by (auto simp: mr' handle_above_def map_of_alist_erase split: if_split_asm)
  next
    case None
    then obtain queued where q: "erase_handle handle (mr_queued mr) = Some queued" "mr' = mr\<lparr>mr_queued := queued\<rparr>"
      using assms(1) by (auto simp: mr_release_def split: option.split_asm)
    have "erase_handle handle es = Some fs \<Longrightarrow> set fs \<subseteq> set es \<and> (distinct (map fst es) \<longrightarrow> distinct (map fst fs))" for es fs
      by (induction es arbitrary: fs) (force split: if_split_asm)+
    with q(1) have sub: "set queued \<subseteq> set (mr_queued mr)"
      and dist: "distinct (map fst (mr_queued mr)) \<longrightarrow> distinct (map fst queued)" by blast+
    have o: "fst ` set (mr_queued mr) \<inter> fst ` set (mr_scheduled mr) = {}"
      "\<forall>hd \<in> fst ` set (mr_queued mr) \<union> fst ` set (mr_scheduled mr). hd < bound"
      "\<forall>q \<in> set (mr_queued mr). snd q < length (sw_registers w)" "distinct (map fst (mr_queued mr))"
      using ok by (simp_all add: mr_ok_def)
    have "fst ` set queued \<inter> fst ` set (mr_scheduled mr) = {}" using o(1) image_mono [OF sub, of fst] by blast
    moreover have "\<forall>hd \<in> fst ` set queued \<union> fst ` set (mr_scheduled mr). hd < bound"
      using o(2) image_mono [OF sub, of fst] by blast
    moreover have "\<forall>q \<in> set queued. snd q < length (sw_registers w)" using o(3) sub by blast
    ultimately have "mr_ok (length (sw_registers w)) bound mr'"
      using ok dist o(4) unfolding mr_ok_def q(2) by simp
    moreover have "\<forall>(hd, i) \<in> T. handle_above (low i) i base mr' hd"
      using above sub unfolding q(2) handle_above_def by fastforce
    ultimately show ?thesis by (simp add: q(2))
  qed
  with sys show ?thesis by (auto simp: host_reads_def)
qed

section \<open>A host\<close>

text \<open>The host \<open>h\<close> holds what \<open>low\<close> says complete, or newer, and its reader answers accordingly.\<close>

definition host_ok ::
  "(bytes \<Rightarrow> u64) \<Rightarrow> int \<Rightarrow> (nat \<Rightarrow> u32) \<Rightarrow> (u64 \<times> nat) set \<Rightarrow> u64 \<Rightarrow> swmr_writer \<Rightarrow> (nat \<Rightarrow> byte) \<Rightarrow> managed_reader \<Rightarrow> bool" where
  "host_ok xxh now low T bound w h mr \<longleftrightarrow> ord_ok h w \<and> (\<forall>i < length (sw_registers w). low i \<le> last_done w h i) \<and>
     (\<forall>(handle, i) \<in> T. i < length (sw_registers w) \<and> handle < bound) \<and> host_reads xxh now w h low T bound mr"

lemma host_ok_writer_ok: "host_ok xxh now low T bound w h mr \<Longrightarrow> writer_ok xxh h [] w"
  by (auto simp: host_ok_def host_reads_def sys_ok_def)

lemma host_ok_memory:
  assumes "host_ok xxh now low T bound w h mr" "writer_ok xxh h' [] w'" "same_shape w w'" "ord_ok h' w'"
    and "\<And>i. i < length (sw_registers w) \<Longrightarrow> last_done w h i \<le> last_done w' h' i"
    and "\<And>start i k. steady w start i k \<Longrightarrow> start \<le> now \<Longrightarrow> now < start + write_cooldown \<Longrightarrow> i < length (sw_registers w) \<Longrightarrow>
      steady w' start i k \<and> host_slot (sw_value_size w') h' i k = host_slot (sw_value_size w') h i k"
  shows "host_ok xxh now low T bound w' h' mr"
proof -
  have len: "length (sw_registers w') = length (sw_registers w)" using assms(3) by (simp add: same_shape_def)
  from assms(1) obtain base where sys: "sys_ok xxh (host_sys now w h (mr_reader mr) base)"
    and above: "\<forall>(handle, i) \<in> T. handle_above (low i) i base mr handle"
    by (auto simp: host_ok_def host_reads_def)
  from sys_ok_writer [OF sys, of h' w'] assms(2,3,6) have "sys_ok xxh (host_sys now w' h' (mr_reader mr) base)" by simp
  with above assms(1,4,5) show ?thesis by (auto simp: host_ok_def host_reads_def len intro: order_trans)
qed

lemma host_ok_writer:
  assumes "host_ok xxh now low T bound w h mr" "writer_keeps xxh now h w w'"
  shows "host_ok xxh now low T bound w' h mr"
proof -
  have "ord_ok h w" using assms(1) by (simp add: host_ok_def)
  with assms(2) host_ok_writer_ok [OF assms(1)] have k: "writer_ok xxh h [] w'" "ord_ok h w'" "same_shape w w'"
    "\<forall>i < length (sw_registers w). last_done w h i \<le> last_done w' h i"
    "\<And>start i k. steady w start i k \<Longrightarrow> start \<le> now \<Longrightarrow> now < start + write_cooldown \<Longrightarrow>
       i < length (sw_registers w) \<Longrightarrow> steady w' start i k"
    by (auto simp: writer_keeps_def)
  show ?thesis by (rule host_ok_memory [OF assms(1) k(1,3,2)]) (use k(4,5) in simp_all)
qed

lemma complete_steady: "writer_ok xxh h wcs w \<Longrightarrow> i < length (sw_registers w) \<Longrightarrow> steady w start i (complete_slot (sw_registers w ! i))"
  by (auto simp: writer_ok_def reg_ok_def steady_def complete_slot_def Let_def)

lemma host_ok_move_write:
  assumes "host_ok xxh now low T bound w h mr" "j < length (qp_sq (sw_rc w))" "p < slot_len (sw_value_size w)"
    and "move_write j p w h = (w', h')"
  shows "host_ok xxh now low T bound w' h' mr"
proof -
  note ok = host_ok_writer_ok [OF assms(1)]
  note m = move_write_ok [OF ok assms(2-4)]
  have r: "sw_registers w' = sw_registers w" "sw_value_size w' = sw_value_size w"
    using assms(4) by (auto simp: move_write_def split: prod.split_asm)
  have same: "last_done w' h' i = last_done w h i" if "i < length (sw_registers w)" for i
    using m(4) [OF complete_steady [OF ok that] that] by (simp add: last_done_def r)
  have "ord_ok h' w'" using assms(1) same by (simp add: host_ok_def ord_ok_def r)
  with m(1,2) show ?thesis
    by (rule host_ok_memory [OF assms(1)]) (use same m(3,4) r in simp_all)
qed

lemma host_ok_wrote:
  assumes "host_ok xxh now low T bound w h mr" "qp_sq (sw_rc w) = (i, k, moved) # rest"
    and "{0 ..< slot_len (sw_value_size w)} \<subseteq> set moved"
  shows "host_ok xxh now low T bound (w\<lparr>sw_rc := qp_complete 1 (sw_rc w)\<rparr>) h mr"
proof -
  define w' where "w' = w\<lparr>sw_rc := qp_complete 1 (sw_rc w)\<rparr>"
  have r: "sw_registers w' = sw_registers w" "sw_value_size w' = sw_value_size w" by (simp_all add: w'_def)
  have m: "writer_ok xxh h [] w'" "steady w' = steady w"
    unfolding w'_def by (rule write_done_ok [OF host_ok_writer_ok [OF assms(1)] assms(2,3)])+
  have "ord_ok h w'" "same_shape w w'" using assms(1) ord_ok_registers [OF r] by (simp_all add: host_ok_def same_shape_def r)
  then have "host_ok xxh now low T bound w' h mr"
    by (intro host_ok_memory [OF assms(1) m(1)]) (simp_all add: last_done_registers [OF r] m(2))
  then show ?thesis by (simp only: w'_def)
qed

lemma host_ok_time:
  assumes "host_ok xxh now low T bound w h mr" "now \<le> t"
  shows "host_ok xxh t low T bound w h mr"
proof -
  have "sys_ok xxh (host_sys t w h (mr_reader mr) base)" if "sys_ok xxh (host_sys now w h (mr_reader mr) base)" for base
    using sys_ok_step [OF step_time that] assms(2) by simp
  with assms(1) show ?thesis unfolding host_ok_def host_reads_def by blast
qed

text \<open>What the card of the reader does leaves the books of the reader alone.\<close>

lemma host_ok_reader:
  assumes "host_ok xxh now low T bound w h mr"
    and "\<And>base. sys_ok xxh (host_sys now w h (mr_reader mr) base) \<Longrightarrow> sys_ok xxh (host_sys now w h r base)"
    and "sd_queued r = sd_queued (mr_reader mr)" "sd_outstanding r = sd_outstanding (mr_reader mr)"
    and "sd_completed r = sd_completed (mr_reader mr)" "sd_pool r = sd_pool (mr_reader mr)"
  shows "host_ok xxh now low T bound w h (mr\<lparr>mr_reader := r\<rparr>)"
proof -
  have "handle_above low i base (mr\<lparr>mr_reader := r\<rparr>) hd = handle_above low i base mr hd" for low i base hd
    by (simp add: handle_above_def job_above_def assms(3-5))
  moreover have "mr_ok n bound (mr\<lparr>mr_reader := r\<rparr>) = mr_ok n bound mr" for n bound by (simp add: mr_ok_def assms(6))
  moreover obtain base where "mr_ok (length (sw_registers w)) bound mr" "sys_ok xxh (host_sys now w h (mr_reader mr) base)"
    "\<forall>(handle, i) \<in> T. handle_above (low i) i base mr handle"
    using assms(1) by (auto simp: host_ok_def host_reads_def)
  ultimately have "host_reads xxh now w h low T bound (mr\<lparr>mr_reader := r\<rparr>)"
    unfolding host_reads_def using assms(2) [of base] by (intro conjI exI [of _ base]) simp_all
  with assms(1) show ?thesis by (simp add: host_ok_def)
qed

lemma host_ok_move_read:
  assumes "host_ok xxh now low T bound w h mr" "j < length (qp_sq (sd_rc (mr_reader mr)))"
    and "p < 2 * slot_len (sd_value_size (mr_reader mr))"
  shows "host_ok xxh now low T bound w h (mr\<lparr>mr_reader := move_read j p h (mr_reader mr)\<rparr>)"
proof (rule host_ok_reader [OF assms(1)])
  show "sys_ok xxh (host_sys now w h (move_read j p h (mr_reader mr)) base)"
    if "sys_ok xxh (host_sys now w h (mr_reader mr) base)" for base
    using sys_ok_move_read [OF that] assms(2,3) by simp
qed (simp_all add: move_read_def split: prod.split)

lemma host_ok_read:
  assumes "host_ok xxh now low T bound w h mr" "qp_sq (sd_rc (mr_reader mr)) = (job, i, moved) # rest"
    and "{0 ..< 2 * slot_len (sd_value_size (mr_reader mr))} \<subseteq> set moved"
  shows "host_ok xxh now low T bound w h (mr\<lparr>mr_reader := (mr_reader mr)\<lparr>sd_rc := qp_complete 1 (sd_rc (mr_reader mr))\<rparr>\<rparr>)"
proof (rule host_ok_reader [OF assms(1)])
  show "sys_ok xxh (host_sys now w h ((mr_reader mr)\<lparr>sd_rc := qp_complete 1 (sd_rc (mr_reader mr))\<rparr>) base)"
    if "sys_ok xxh (host_sys now w h (mr_reader mr) base)" for base
    using sys_ok_read_done [OF that] assms(2,3) by simp
qed simp_all

section \<open>The invariant\<close>

definition rep_ok :: "(bytes \<Rightarrow> u64) \<Rightarrow> (nat \<Rightarrow> nat \<Rightarrow> u32) \<Rightarrow> (u64 \<times> nat) set \<Rightarrow> rep_sys \<Rightarrow> bool" where
  "rep_ok xxh low T s \<longleftrightarrow> rw_ok (ry_writer s) \<and>
     length (rw_writers (ry_writer s)) = length (ry_hosts s) \<and> length (rd_readers (ry_reader s)) = length (ry_hosts s) \<and>
     (\<forall>h < length (ry_hosts s). \<forall>reg \<in> set (rw_registers (ry_writer s)).
        length (rr_buffer reg) = unat (sw_value_size (ry_host_writer h s))) \<and>
     (\<forall>h < length (ry_hosts s). host_ok xxh (ry_now s) (low h) T (rd_next_handle (ry_reader s))
        (ry_host_writer h s) (ry_hosts s ! h) (rd_readers (ry_reader s) ! h))"

lemma rep_ok_host:
  "rep_ok xxh low T s \<Longrightarrow> h < length (ry_hosts s) \<Longrightarrow>
   host_ok xxh (ry_now s) (low h) T (rd_next_handle (ry_reader s)) (ry_host_writer h s) (ry_hosts s ! h) (rd_readers (ry_reader s) ! h)"
  by (simp add: rep_ok_def)

text \<open>A call of the writer.\<close>

lemma rep_ok_writer:
  assumes "rep_ok xxh low T s" "rw_ok w" "length (rw_writers w) = length (ry_hosts s)"
    and "\<And>h. h < length (ry_hosts s) \<Longrightarrow> writer_keeps xxh (ry_now s) (ry_hosts s ! h) (ry_host_writer h s) (mw_writer (rw_writers w ! h)) \<and>
      sw_value_size (mw_writer (rw_writers w ! h)) = sw_value_size (ry_host_writer h s)"
    and "\<And>reg h. h < length (ry_hosts s) \<Longrightarrow> reg \<in> set (rw_registers w) \<Longrightarrow> length (rr_buffer reg) = unat (sw_value_size (ry_host_writer h s))"
  shows "rep_ok xxh low T (s\<lparr>ry_writer := w\<rparr>)"
proof -
  have hw: "ry_host_writer h (s\<lparr>ry_writer := w\<rparr>) = mw_writer (rw_writers w ! h)" for h by (simp add: ry_host_writer_def)
  show ?thesis
    using assms(1-3,5) host_ok_writer [OF rep_ok_host [OF assms(1)] conjunct1 [OF assms(4)]] assms(4)
    unfolding rep_ok_def hw by simp
qed

lemma rep_ok_tick:
  assumes "rep_ok xxh low T s" "rw_tick xxh (ry_now s) (ry_writer s) = Inr w"
  shows "rep_ok xxh low T (s\<lparr>ry_writer := w\<rparr>)"
proof -
  obtain ws where ws: "rmap (mw_tick xxh (ry_now s) (rw_registers (ry_writer s))) (rw_writers (ry_writer s)) = Inr ws"
    "w = (ry_writer s)\<lparr>rw_writers := ws\<rparr>"
    using assms(2) by (auto simp: rw_tick_def rbind_Inr_iff)
  have len: "length ws = length (ry_hosts s)" using ws(1) assms(1) by (simp add: rmap_Inr_iff rep_ok_def)
  have bufs: "length (rr_buffer reg) = unat (sw_value_size (ry_host_writer h s))"
    if "h < length (ry_hosts s)" "reg \<in> set (rw_registers (ry_writer s))" for h reg
    using assms(1) that by (simp add: rep_ok_def)
  have "writer_keeps xxh (ry_now s) (ry_hosts s ! h) (ry_host_writer h s) (mw_writer (ws ! h)) \<and>
      sw_value_size (mw_writer (ws ! h)) = sw_value_size (ry_host_writer h s)" if "h < length (ry_hosts s)" for h
    using mw_tick_keeps [of xxh "ry_now s" "rw_registers (ry_writer s)" "rw_writers (ry_writer s) ! h" "ws ! h"] ws(1) that
      bufs assms(1) by (simp add: rmap_Inr_iff rep_ok_def ry_host_writer_def)
  moreover have "rw_ok w" using rw_step_ok [OF rw_ticks [OF assms(2)]] assms(1) by (simp add: rep_ok_def)
  ultimately show ?thesis using rep_ok_writer [OF assms(1), of w] len bufs by (simp add: ws(2))
qed

lemma rep_ok_put:
  assumes "rep_ok xxh low T s" "rw_get_slot i (ry_writer s) = Inr (Some slot)"
    and "\<forall>mw \<in> set (rw_writers (ry_writer s)). length v = unat (sw_value_size (mw_writer mw))"
    and "rw_write xxh (ry_now s) i inc (rw_memcpy slot v (ry_writer s)) = Inr w"
  shows "rep_ok xxh low T (s\<lparr>ry_writer := w\<rparr>)"
proof -
  have i: "slot = i" "i < length (rw_registers (ry_writer s))"
    using assms(2) by (auto simp: rw_get_slot_def rbind_Inr_iff uat_Inr_iff split: if_split_asm)
  obtain inc' ws where e: "rmap (mw_write xxh (ry_now s) ((rw_registers (ry_writer s))
        [i := (rw_registers (ry_writer s) ! i)\<lparr>rr_buffer := v, rr_incarnation := inc'\<rparr>]) i inc') (rw_writers (ry_writer s)) = Inr ws"
    "w = (ry_writer s)\<lparr>rw_registers := (rw_registers (ry_writer s))
        [i := (rw_registers (ry_writer s) ! i)\<lparr>rr_buffer := v, rr_incarnation := inc', rr_outstanding := True\<rparr>], rw_writers := ws\<rparr>"
    using assms(4) i
    by (cases inc) (auto simp: rw_write_def rw_memcpy_def rbind_Inr_iff uat_Inr_iff Let_def rr_set_incarnation_def split: if_split_asm)
  have len: "length ws = length (ry_hosts s)" using e(1) assms(1) by (simp add: rmap_Inr_iff rep_ok_def)
  have v: "length v = unat (sw_value_size (ry_host_writer h s))" if "h < length (ry_hosts s)" for h
    using assms(1,3) that by (simp add: rep_ok_def ry_host_writer_def)
  have bufs: "length (rr_buffer reg) = unat (sw_value_size (ry_host_writer h s))"
    if "h < length (ry_hosts s)" "reg \<in> set ((rw_registers (ry_writer s))[i := r])" "rr_buffer r = v" for h reg r
    using assms(1) that v [OF that(1)] set_update_subset_insert [of "rw_registers (ry_writer s)" i r] by (auto simp: rep_ok_def)
  have "writer_keeps xxh (ry_now s) (ry_hosts s ! h) (ry_host_writer h s) (mw_writer (ws ! h)) \<and>
      sw_value_size (mw_writer (ws ! h)) = sw_value_size (ry_host_writer h s)" if "h < length (ry_hosts s)" for h
    unfolding ry_host_writer_def
  proof (rule mw_write_keeps)
    show "mw_write xxh (ry_now s) ((rw_registers (ry_writer s))
        [i := (rw_registers (ry_writer s) ! i)\<lparr>rr_buffer := v, rr_incarnation := inc'\<rparr>]) i inc' (rw_writers (ry_writer s) ! h) = Inr (ws ! h)"
      using e(1) that assms(1) by (simp add: rmap_Inr_iff rep_ok_def)
  qed (use bufs [OF that] in \<open>simp add: ry_host_writer_def\<close>)
  moreover have "rw_ok w" using rw_step_ok [OF rw_put [OF assms(2,4)]] assms(1) by (simp add: rep_ok_def)
  ultimately show ?thesis using rep_ok_writer [OF assms(1), of w] len bufs by (simp add: e(2))
qed

lemma rep_ok_ask:
  assumes "rep_ok xxh low T s" "rw_completed i (ry_writer s) = Inr (b, w)"
  shows "rep_ok xxh low T (s\<lparr>ry_writer := w\<rparr>)"
proof -
  have w: "rw_writers w = rw_writers (ry_writer s)"
    "map rr_buffer (rw_registers w) = map rr_buffer (rw_registers (ry_writer s))"
    using assms(2) by (auto simp: rw_completed_def rbind_Inr_iff uat_Inr_iff map_update list_update_same_conv split: if_split_asm)
  have "rr_buffer ` set (rw_registers w) = rr_buffer ` set (rw_registers (ry_writer s))"
    using arg_cong [OF w(2), of set] by simp
  moreover from this have "length (rr_buffer reg) = unat (sw_value_size (ry_host_writer h s))"
    if "h < length (ry_hosts s)" "reg \<in> set (rw_registers w)" for h reg
  proof -
    have "rr_buffer reg \<in> rr_buffer ` set (rw_registers (ry_writer s))" using imageI [OF that(2)] calculation by metis
    then obtain old where "old \<in> set (rw_registers (ry_writer s))" "rr_buffer reg = rr_buffer old" by blast
    with assms(1) that(1) show ?thesis by (simp add: rep_ok_def)
  qed
  moreover have "rw_ok w" using rw_step_ok [OF rw_asks [OF assms(2)]] assms(1) by (simp add: rep_ok_def)
  ultimately show ?thesis using rep_ok_writer [OF assms(1), of w] assms(1)
    by (simp add: w(1) writer_keeps_refl ry_host_writer_def rep_ok_def)
qed

text \<open>A call of the reader, and what a card does for a host.\<close>

lemma rep_ok_reader:
  assumes "rep_ok xxh low T s" "length (rd_readers rd) = length (ry_hosts s)"
    and "\<And>h. h < length (ry_hosts s) \<Longrightarrow> host_ok xxh (ry_now s) (low h) T' (rd_next_handle rd) (ry_host_writer h s) (ry_hosts s ! h) (rd_readers rd ! h)"
  shows "rep_ok xxh low T' (s\<lparr>ry_reader := rd\<rparr>)"
  using assms by (simp add: rep_ok_def ry_host_writer_def)

lemma host_ok_reads:
  assumes "host_ok xxh now low T bound w h mr" "host_reads xxh now w h low T bound mr'"
  shows "host_ok xxh now low T bound w h mr'"
  using assms by (simp add: host_ok_def)

lemma rep_ok_reader_tick:
  assumes "rep_ok xxh low T s" "\<forall>mr \<in> set (rd_readers (ry_reader s)). reads_in_time (ry_now s) (mr_reader mr)"
    and "rd_tick xxh (ry_now s) (ry_reader s) = Inr rd"
  shows "rep_ok xxh low T (s\<lparr>ry_reader := rd\<rparr>)"
proof -
  obtain rs where rs: "rmap (mr_tick xxh (ry_now s)) (rd_readers (ry_reader s)) = Inr rs" "rd = (ry_reader s)\<lparr>rd_readers := rs\<rparr>"
    using assms(3) by (auto simp: rd_tick_def rbind_Inr_iff)
  have len: "length (rd_readers (ry_reader s)) = length (ry_hosts s)" using assms(1) by (simp add: rep_ok_def)
  have "host_ok xxh (ry_now s) (low h) T (rd_next_handle (ry_reader s)) (ry_host_writer h s) (ry_hosts s ! h) (rs ! h)"
    if "h < length (ry_hosts s)" for h
  proof (rule host_ok_reads [OF rep_ok_host [OF assms(1) that]], rule mr_tick_reads)
    show "mr_tick xxh (ry_now s) (rd_readers (ry_reader s) ! h) = Inr (rs ! h)"
      using rs(1) that len by (simp add: rmap_Inr_iff)
    show "reads_in_time (ry_now s) (mr_reader (rd_readers (ry_reader s) ! h))" using assms(2) that len by simp
  qed (use rep_ok_host [OF assms(1) that] in \<open>auto simp: host_ok_def\<close>)
  then show ?thesis by (intro rep_ok_reader [OF assms(1)]) (use rs len in \<open>simp_all add: rmap_Inr_iff\<close>)
qed

lemma rep_ok_read:
  assumes "rep_ok xxh low T s" "i < length (rw_registers (ry_writer s))"
    and "rd_next_handle (ry_reader s) < rd_next_handle (ry_reader s) + 1" "rd_read (ry_now s) i (ry_reader s) = Inr (handle, rd)"
  shows "handle = rd_next_handle (ry_reader s) \<and> rep_ok xxh low (insert (handle, i) T) (s\<lparr>ry_reader := rd\<rparr>)"
proof -
  let ?n = "rd_next_handle (ry_reader s)"
  obtain rs where rs: "rmap (mr_read (ry_now s) ?n i) (rd_readers (ry_reader s)) = Inr rs" "handle = ?n"
    "rd = (ry_reader s)\<lparr>rd_readers := rs, rd_next_handle := ?n + 1\<rparr>"
    using assms(4) by (auto simp: rd_read_def rbind_Inr_iff)
  have len: "length (rd_readers (ry_reader s)) = length (ry_hosts s)" using assms(1) by (simp add: rep_ok_def)
  have "host_ok xxh (ry_now s) (low h) (insert (?n, i) T) (?n + 1) (ry_host_writer h s) (ry_hosts s ! h) (rs ! h)"
    if "h < length (ry_hosts s)" for h
  proof -
    have ok: "host_ok xxh (ry_now s) (low h) T ?n (ry_host_writer h s) (ry_hosts s ! h) (rd_readers (ry_reader s) ! h)"
      by (rule rep_ok_host [OF assms(1) that])
    have "rw_writers (ry_writer s) ! h \<in> set (rw_writers (ry_writer s))" using assms(1) that by (simp add: rep_ok_def)
    with assms(1) have i: "i < length (sw_registers (ry_host_writer h s))"
      using assms(2) by (auto simp: rep_ok_def rw_ok_def mw_ok_def ry_host_writer_def)
    have "host_reads xxh (ry_now s) (ry_host_writer h s) (ry_hosts s ! h) (low h) (insert (?n, i) T) (?n + 1) (rs ! h)"
    proof (rule mr_read_reads)
      show "mr_read (ry_now s) ?n i (rd_readers (ry_reader s) ! h) = Inr (rs ! h)"
        using rs(1) that len by (simp add: rmap_Inr_iff)
    qed (use ok i assms(3) in \<open>auto simp: host_ok_def\<close>)
    with ok i assms(3) show ?thesis by (auto simp: host_ok_def intro: less_trans)
  qed
  with rep_ok_reader [OF assms(1), of rd] rs len show ?thesis by (simp add: rmap_Inr_iff)
qed

lemma rep_ok_poll:
  assumes "rep_ok xxh low T s" "rd_poll id handle (ry_reader s) = Inr (answer, rd)"
  shows "rep_ok xxh low T (s\<lparr>ry_reader := rd\<rparr>)"
proof (cases answer)
  case None
  with assms(2) have "rd = ry_reader s"
    by (auto simp: rd_poll_def rbind_Inr_iff split: prod.split_asm if_split_asm option.split_asm)
  with assms(1) show ?thesis by simp
next
  case (Some a)
  with assms(2) obtain rs where rs: "rmap (mr_release id handle) (rd_readers (ry_reader s)) = Inr rs"
    "rd = (ry_reader s)\<lparr>rd_readers := rs\<rparr>"
    by (auto simp: rd_poll_def rbind_Inr_iff split: prod.split_asm if_split_asm option.split_asm)
  have len: "length (rd_readers (ry_reader s)) = length (ry_hosts s)" using assms(1) by (simp add: rep_ok_def)
  have "host_ok xxh (ry_now s) (low h) T (rd_next_handle (ry_reader s)) (ry_host_writer h s) (ry_hosts s ! h) (rs ! h)"
    if "h < length (ry_hosts s)" for h
  proof (rule host_ok_reads [OF rep_ok_host [OF assms(1) that]], rule mr_release_reads)
    show "mr_release id handle (rd_readers (ry_reader s) ! h) = Inr (rs ! h)"
      using rs(1) that len by (simp add: rmap_Inr_iff)
  qed (use rep_ok_host [OF assms(1) that] in \<open>simp add: host_ok_def\<close>)
  then show ?thesis by (intro rep_ok_reader [OF assms(1)]) (use rs len in \<open>simp_all add: rmap_Inr_iff\<close>)
qed

lemma rep_ok_put_reader:
  assumes "rep_ok xxh low T s" "h < length (ry_hosts s)"
    and "host_ok xxh (ry_now s) (low h) T (rd_next_handle (ry_reader s)) (ry_host_writer h s) (ry_hosts s ! h)
      ((rd_readers (ry_reader s) ! h)\<lparr>mr_reader := r\<rparr>)"
  shows "rep_ok xxh low T (ry_put_reader h r s)"
  unfolding ry_put_reader_def
  by (rule rep_ok_reader [OF assms(1)]) (use assms in \<open>auto simp: rep_ok_def nth_upd\<close>)

lemma rep_ok_put_writer:
  assumes "rep_ok xxh low T s" "h < length (ry_hosts s)" "sw_registers w = sw_registers (ry_host_writer h s)"
    and "sw_value_size w = sw_value_size (ry_host_writer h s)"
    and "host_ok xxh (ry_now s) (low h) T (rd_next_handle (ry_reader s)) w m (rd_readers (ry_reader s) ! h)"
  shows "rep_ok xxh low T (ry_put_writer h w s\<lparr>ry_hosts := (ry_hosts s)[h := m]\<rparr>)" (is "rep_ok _ _ _ ?s")
proof -
  have len: "length (rw_writers (ry_writer s)) = length (ry_hosts s)" using assms(1) by (simp add: rep_ok_def)
  have hw: "ry_host_writer h' ?s = (if h' = h then w else ry_host_writer h' s)" if "h' < length (ry_hosts s)" for h'
    using that len by (simp add: ry_host_writer_def ry_put_writer_def nth_upd)
  have "holds_same (ry_host_writer h s) w" by (simp add: holds_same_def assms(3))
  then have "mw_ok (rw_registers (ry_writer s)) ((rw_writers (ry_writer s) ! h)\<lparr>mw_writer := w\<rparr>)"
    using assms(1,2) len by (intro mw_ok_writer) (auto simp: rep_ok_def rw_ok_def ry_host_writer_def)
  then have "rw_ok (ry_writer ?s)"
    using assms(1) by (auto simp: rep_ok_def rw_ok_def ry_put_writer_def dest!: set_update_subset_insert [THEN subsetD])
  moreover have "rw_registers (ry_writer ?s) = rw_registers (ry_writer s)" "ry_reader ?s = ry_reader s" "ry_now ?s = ry_now s"
    "length (rw_writers (ry_writer ?s)) = length (ry_hosts s)" "ry_hosts ?s = (ry_hosts s)[h := m]"
    by (simp_all add: ry_put_writer_def len)
  ultimately show ?thesis
    using assms(1,2,4,5) unfolding rep_ok_def by (simp add: hw nth_upd)
qed

theorem rep_ok_apply:
  assumes "rep_apply xxh ev s = Some s'" "rep_ok xxh low T s"
  shows "rep_ok xxh low T s' \<or> (\<exists>i. ev = Rep_read i \<and> rep_ok xxh low (insert (rd_next_handle (ry_reader s), i) T) s')"
proof (cases ev)
  case (Rep_time t)
  with assms have "ry_now s \<le> t" "s' = s\<lparr>ry_now := t\<rparr>" by (simp_all split: if_split_asm)
  with assms(2) host_ok_time show ?thesis by (auto simp: rep_ok_def ry_host_writer_def)
next
  case (Rep_put i inc v)
  with assms(1) obtain slot w where w: "rw_get_slot i (ry_writer s) = Inr (Some slot)" "s' = s\<lparr>ry_writer := w\<rparr>"
    "\<forall>mw \<in> set (rw_writers (ry_writer s)). length v = unat (sw_value_size (mw_writer mw))"
    "rw_write xxh (ry_now s) i inc (rw_memcpy slot v (ry_writer s)) = Inr w"
    by (auto simp: list_all_iff split: sum.split_asm option.split_asm if_split_asm)
  with rep_ok_put [OF assms(2) w(1,3,4)] show ?thesis by simp
next
  case Rep_tick
  with assms(1) rep_ok_tick [OF assms(2)] show ?thesis by auto
next
  case (Rep_ask i)
  with assms(1) rep_ok_ask [OF assms(2)] show ?thesis by auto
next
  case (Card_writes h j p)
  with assms(1) obtain w m where m: "h < length (ry_hosts s)" "j < length (qp_sq (sw_rc (ry_host_writer h s)))"
    "p < slot_len (sw_value_size (ry_host_writer h s))" "move_write j p (ry_host_writer h s) (ry_hosts s ! h) = (w, m)"
    "s' = ry_put_writer h w s\<lparr>ry_hosts := (ry_hosts s)[h := m]\<rparr>"
    by (auto split: if_split_asm prod.split_asm)
  have "sw_registers w = sw_registers (ry_host_writer h s)" "sw_value_size w = sw_value_size (ry_host_writer h s)"
    using m(4) by (auto simp: move_write_def split: prod.split_asm)
  from rep_ok_put_writer [OF assms(2) m(1) this host_ok_move_write [OF rep_ok_host [OF assms(2) m(1)] m(2-4)]] m(5)
  show ?thesis by simp
next
  case (Card_wrote h)
  with assms(1) obtain i k moved rest where m: "h < length (ry_hosts s)" "qp_sq (sw_rc (ry_host_writer h s)) = (i, k, moved) # rest"
    "{0 ..< slot_len (sw_value_size (ry_host_writer h s))} \<subseteq> set moved"
    "s' = ry_put_writer h ((ry_host_writer h s)\<lparr>sw_rc := qp_complete 1 (sw_rc (ry_host_writer h s))\<rparr>) s"
    by (auto simp: list_all_iff subset_eq split: if_split_asm list.split_asm)
  let ?w = "(ry_host_writer h s)\<lparr>sw_rc := qp_complete 1 (sw_rc (ry_host_writer h s))\<rparr>"
  have "rep_ok xxh low T (ry_put_writer h ?w s\<lparr>ry_hosts := (ry_hosts s)[h := ry_hosts s ! h]\<rparr>)"
    using host_ok_wrote [OF rep_ok_host [OF assms(2) m(1)] m(2,3)]
    by (intro rep_ok_put_writer [OF assms(2) m(1)]) simp_all
  moreover have "ry_put_writer h ?w s\<lparr>ry_hosts := (ry_hosts s)[h := ry_hosts s ! h]\<rparr> = s'"
    using m(1) by (simp add: m(4) ry_put_writer_def)
  ultimately show ?thesis by simp
next
  case (Rep_read i)
  with assms(1) obtain handle rd where r: "i < length (rw_registers (ry_writer s))"
    "rd_next_handle (ry_reader s) < rd_next_handle (ry_reader s) + 1" "rd_read (ry_now s) i (ry_reader s) = Inr (handle, rd)"
    "s' = s\<lparr>ry_reader := rd\<rparr>"
    by (auto split: if_split_asm)
  with rep_ok_read [OF assms(2) r(1-3)] Rep_read show ?thesis by auto
next
  case Rep_reader_tick
  with assms(1) rep_ok_reader_tick [OF assms(2)] show ?thesis by (auto simp: list_all_iff split: if_split_asm)
next
  case (Rep_poll handle)
  with assms(1) rep_ok_poll [OF assms(2)] show ?thesis by auto
next
  case (Card_reads h j p)
  with assms(1) have m: "h < length (ry_hosts s)" "j < length (qp_sq (sd_rc (ry_host_reader h s)))"
    "p < 2 * slot_len (sd_value_size (ry_host_reader h s))" "s' = ry_put_reader h (move_read j p (ry_hosts s ! h) (ry_host_reader h s)) s"
    by (auto split: if_split_asm)
  from rep_ok_put_reader [OF assms(2) m(1)] host_ok_move_read [OF rep_ok_host [OF assms(2) m(1)]] m
  show ?thesis by (simp add: ry_host_reader_def)
next
  case (Card_read h)
  with assms(1) obtain job i moved rest where m: "h < length (ry_hosts s)" "qp_sq (sd_rc (ry_host_reader h s)) = (job, i, moved) # rest"
    "{0 ..< 2 * slot_len (sd_value_size (ry_host_reader h s))} \<subseteq> set moved"
    "s' = ry_put_reader h ((ry_host_reader h s)\<lparr>sd_rc := qp_complete 1 (sd_rc (ry_host_reader h s))\<rparr>) s"
    by (auto simp: list_all_iff subset_eq split: if_split_asm list.split_asm)
  from rep_ok_put_reader [OF assms(2) m(1)] host_ok_read [OF rep_ok_host [OF assms(2) m(1)]] m
  show ?thesis by (simp add: ry_host_reader_def)
qed

text \<open>More handles can only be followed for longer.\<close>

lemma rep_ok_less: "rep_ok xxh low T s \<Longrightarrow> T' \<subseteq> T \<Longrightarrow> rep_ok xxh low T' s"
  unfolding rep_ok_def host_ok_def host_reads_def by (fast intro: order_refl)

theorem rep_ok_run:
  assumes "rep_run xxh evs s = Some s'" "rep_ok xxh low T s"
  shows "rep_ok xxh low T s'"
  using assms
proof (induction evs arbitrary: s)
  case (Cons ev evs)
  then obtain s1 where s1: "rep_apply xxh ev s = Some s1" "rep_run xxh evs s1 = Some s'"
    by (auto simp: bind_eq_Some_conv)
  from rep_ok_apply [OF s1(1) Cons.prems(2)] rep_ok_less [of xxh low _ s1 T] have "rep_ok xxh low T s1" by blast
  with Cons.IH [OF s1(2)] show ?case .
qed simp

section \<open>The state once writers and readers have been constructed\<close>

definition rep_ready :: "(bytes \<Rightarrow> u64) \<Rightarrow> rep_sys \<Rightarrow> bool" where
  "rep_ready xxh s \<longleftrightarrow> (\<exists>custom ws rs n vs.
     rw_new custom ws = Inr (ry_writer s) \<and> rd_new rs = Inr (ry_reader s) \<and>
     length ws = length (ry_hosts s) \<and> length rs = length (ry_hosts s) \<and>
     (\<forall>h < length (ry_hosts s). fresh_writer n vs (ws ! h) \<and>
        swmr_ready xxh (host_sys (ry_now s) (ws ! h) (ry_hosts s ! h) (rs ! h) (\<lambda>_. 0))))"

lemma rep_ready_ok:
  assumes "rep_ready xxh s"
  shows "rep_ok xxh (\<lambda>_ _. 0) {} s"
proof -
  obtain custom ws rs n vs where
    rw: "rw_new custom ws = Inr (ry_writer s)" and rd: "rd_new rs = Inr (ry_reader s)"
    and len: "length ws = length (ry_hosts s)" "length rs = length (ry_hosts s)"
    and ready: "\<And>h. h < length (ry_hosts s) \<Longrightarrow> fresh_writer n vs (ws ! h)"
      "\<And>h. h < length (ry_hosts s) \<Longrightarrow> swmr_ready xxh (host_sys (ry_now s) (ws ! h) (ry_hosts s ! h) (rs ! h) (\<lambda>_. 0))"
    using assms unfolding rep_ready_def by blast
  have fresh: "\<forall>w \<in> set ws. fresh_writer n vs w" using ready(1) len(1) by (auto simp: in_set_conv_nth)
  have w: "rw_writers (ry_writer s) = map (\<lambda>w. \<lparr>mw_writer = w, mw_to_write = []\<rparr>) ws"
    "\<forall>reg \<in> set (rw_registers (ry_writer s)). length (rr_buffer reg) = unat vs"
    using rw [symmetric] fresh by (cases ws; simp add: rw_new_def rr_new_def fresh_writer_def)+
  have r: "rd_readers (ry_reader s) = map mr_new rs" "rd_next_handle (ry_reader s) = 0"
    using rd [symmetric] by (cases rs; simp add: rd_new_def)+
  have hw: "ry_host_writer h s = ws ! h" if "h < length (ry_hosts s)" for h
    using that len(1) by (simp add: ry_host_writer_def w(1))
  have "host_ok xxh (ry_now s) (\<lambda>_. 0) {} 0 (ws ! h) (ry_hosts s ! h) (mr_new (rs ! h))" if h: "h < length (ry_hosts s)" for h
  proof -
    have sys: "sys_ok xxh (host_sys (ry_now s) (ws ! h) (ry_hosts s ! h) (rs ! h) (\<lambda>_. 0))"
      by (rule swmr_ready_ok [OF ready(2) [OF h]])
    have "\<forall>i < length (sw_registers (ws ! h)). \<not> sr_scheduled (sw_registers (ws ! h) ! i) \<and> sr_incarnation (sw_registers (ws ! h) ! i) = 2"
      using ready [OF h] by (auto simp: swmr_ready_def fresh_writer_def)
    then have "ord_ok (ry_hosts s ! h) (ws ! h)" by (simp add: ord_ok_def)
    with sys show ?thesis by (auto simp: host_ok_def host_reads_def mr_ok_def mr_new_def)
  qed
  moreover have "rw_ok (ry_writer s)" by (rule rw_new_ok [OF rw fresh])
  moreover have "length (rr_buffer reg) = unat (sw_value_size (ry_host_writer h s))"
    if "h < length (ry_hosts s)" "reg \<in> set (rw_registers (ry_writer s))" for h reg
    using that w(2) ready(1) by (simp add: hw fresh_writer_def)
  ultimately show ?thesis by (simp add: rep_ok_def w(1) r len hw)
qed

section \<open>What a replicated read returns\<close>

text \<open>Host \<open>h\<close> holds \<open>v\<close> with incarnation \<open>inc\<close> in an intact subslot of register \<open>i\<close>.\<close>

definition holds_at :: "(bytes \<Rightarrow> u64) \<Rightarrow> nat \<Rightarrow> bytes \<Rightarrow> u32 \<Rightarrow> nat \<Rightarrow> rep_sys \<Rightarrow> bool" where
  "holds_at xxh i v inc h s \<longleftrightarrow> (\<exists>k < 2.
     let b = host_slot (sw_value_size (ry_host_writer h s)) (ry_hosts s ! h) i k in
     intact xxh b \<and> slot_incarnation b = inc \<and> slot_value b = v)"

definition holders :: "(bytes \<Rightarrow> u64) \<Rightarrow> nat \<Rightarrow> rep_sys \<Rightarrow> nat set" where
  "holders xxh i s = {h. h < length (ry_hosts s) \<and> holds_at xxh i (rr_buffer (rw_registers (ry_writer s) ! i))
     (rr_incarnation (rw_registers (ry_writer s) ! i) + 2) h s}"

lemma done_at_holds:
  assumes "rep_ok xxh low T s" "h \<in> done_at i (ry_writer s)" "i < length (rw_registers (ry_writer s))"
  shows "h \<in> holders xxh i s \<and> rr_incarnation (rw_registers (ry_writer s) ! i) + 2 = last_done (ry_host_writer h s) (ry_hosts s ! h) i \<and>
    2 \<le> last_done (ry_host_writer h s) (ry_hosts s ! h) i"
proof -
  let ?reg = "rw_registers (ry_writer s) ! i" and ?w = "ry_host_writer h s" and ?m = "ry_hosts s ! h"
  have h: "h < length (ry_hosts s)" "\<not> sr_scheduled (sw_registers ?w ! i)" "host_has ?reg i ?w"
    using assms(1,2) by (auto simp: done_at_def rep_ok_def ry_host_writer_def)
  note ok = rep_ok_host [OF assms(1) h(1)]
  have "rw_writers (ry_writer s) ! h \<in> set (rw_writers (ry_writer s))" using assms(1) h(1) by (simp add: rep_ok_def)
  with assms(1,3) have i: "i < length (sw_registers ?w)" by (auto simp: rep_ok_def rw_ok_def mw_ok_def ry_host_writer_def)
  have w: "writer_ok xxh ?m [] ?w" by (rule host_ok_writer_ok [OF ok])
  then have r: "reg_ok xxh (sw_value_size ?w) ?m i (sw_registers ?w ! i)" using i by (simp add: writer_ok_def)
  then have slot: "host_slot (sw_value_size ?w) ?m i (sr_subslot (sw_registers ?w ! i)) = raw_buffer (sw_registers ?w ! i)"
    "sr_subslot (sw_registers ?w ! i) < 2" "intact xxh (raw_buffer (sw_registers ?w ! i))"
    using h(2) by (simp_all add: reg_ok_def)
  have "slot_value (raw_buffer (sw_registers ?w ! i)) = sr_content (sw_registers ?w ! i)"
    by (simp add: slot_value_def raw_buffer_def le_inc_def)
  with slot h(3) have "holds_at xxh i (rr_buffer ?reg) (rr_incarnation ?reg + 2) h s"
    unfolding holds_at_def Let_def by (intro exI [of _ "sr_subslot (sw_registers ?w ! i)"]) (simp add: host_has_def)
  moreover have "last_done ?w ?m i = rr_incarnation ?reg + 2"
    using last_done_idle [OF w i h(2)] h(3) by (simp add: host_has_def)
  moreover have "2 \<le> sr_incarnation (sw_registers ?w ! i)" using ok i by (simp add: host_ok_def ord_ok_def)
  ultimately show ?thesis using h(1) last_done_idle [OF w i h(2)] by (simp add: holders_def)
qed

theorem completed_write_held:
  assumes "rep_ok xxh low T s" "rw_completed i (ry_writer s) = Inr (True, w')"
  shows "(length (ry_hosts s) + 1) div 2 \<le> card (holders xxh i s)"
proof -
  have i: "i < length (rw_registers (ry_writer s))" using assms(2) by (auto simp: rw_completed_def rbind_Inr_iff uat_Inr_iff)
  have "done_at i (ry_writer s) \<subseteq> holders xxh i s" using done_at_holds [OF assms(1) _ i] by blast
  then have "card (done_at i (ry_writer s)) \<le> card (holders xxh i s)" by (rule card_mono [rotated]) (simp add: holders_def)
  moreover have "rw_ok (ry_writer s)" "length (rw_writers (ry_writer s)) = length (ry_hosts s)"
    using assms(1) by (simp_all add: rep_ok_def)
  ultimately show ?thesis using rw_completed_majority [OF assms(2)] by simp
qed

text \<open>From then on, these hosts hold what was written, or newer, complete.\<close>

lemma rep_ok_raise:
  assumes "rep_ok xxh low {} s" "rw_completed i (ry_writer s) = Inr (True, w')"
  shows "rep_ok xxh (\<lambda>h j. if h \<in> done_at i (ry_writer s) \<and> j = i then rr_incarnation (rw_registers (ry_writer s) ! i) + 2 else 0) {} s"
proof -
  have i: "i < length (rw_registers (ry_writer s))" using assms(2) by (auto simp: rw_completed_def rbind_Inr_iff uat_Inr_iff)
  from assms(1) done_at_holds [OF assms(1) _ i] show ?thesis
    by (auto simp: rep_ok_def host_ok_def host_reads_def)
qed

lemma rep_apply_hosts: "rep_apply xxh ev s = Some s' \<Longrightarrow> length (ry_hosts s') = length (ry_hosts s)"
  by (cases ev) (auto simp: ry_put_writer_def ry_put_reader_def
      split: if_split_asm sum.split_asm option.split_asm prod.split_asm list.split_asm)

lemma rep_run_hosts: "rep_run xxh evs s = Some s' \<Longrightarrow> length (ry_hosts s') = length (ry_hosts s)"
  by (induction evs arbitrary: s) (auto simp: bind_eq_Some_conv dest: rep_apply_hosts)

lemma answered_above:
  assumes "sys_ok xxh (host_sys now w h (mr_reader mr) base)" "handle_above low i base mr handle"
    and "mr_poll handle mr = Some (slot, inc)"
  shows "\<exists>c. inc = c - 2 \<and> low \<le> c"
proof -
  from assms(3) obtain job k where job: "map_of (mr_scheduled mr) handle = Some job"
    "map_of (sd_completed (mr_reader mr)) job = Some (k, inc)"
    by (auto simp: mr_poll_def sd_poll_def bind_eq_Some_conv)
  have "job_above low i base (mr_reader mr) job" using assms(2) job(1) by (simp add: handle_above_def)
  moreover have "job \<notin> set (sd_jobs (mr_reader mr))"
    using assms(1) map_of_mem_fst [OF job(2)] by (auto simp: sys_ok_def reader_ok_def)
  then have "(job, i) \<notin> set (sd_queued (mr_reader mr))" "\<And>start. (job, i, start) \<notin> set (sd_outstanding (mr_reader mr))"
    by (force simp: sd_jobs_def)+
  ultimately show ?thesis using job(2) by (auto simp: job_above_def)
qed

lemma u32_minus_mono: "(2 :: u32) \<le> a \<Longrightarrow> a \<le> b \<Longrightarrow> a - 2 \<le> b - 2"
  by (simp add: word_le_nat_alt unat_sub)

theorem replicated_read_fresh:
  assumes "rep_ok xxh low {} s1" "rw_completed i (ry_writer s1) = Inr (True, w')"
    and "rep_run xxh es1 s1 = Some s2" "rep_run xxh (Rep_read i # es2) s2 = Some s3"
    and "rd_poll freed (rd_next_handle (ry_reader s2)) (ry_reader s3) = Inr (Some (v, inc), rd')" "odd (length (ry_hosts s1))"
  shows "rr_incarnation (rw_registers (ry_writer s1) ! i) \<le> inc"
proof -
  let ?F = "rr_incarnation (rw_registers (ry_writer s1) ! i) + 2" and ?D = "done_at i (ry_writer s1)"
  let ?low = "\<lambda>h j. if h \<in> ?D \<and> j = i then ?F else 0" and ?hd = "rd_next_handle (ry_reader s2)"
  have i: "i < length (rw_registers (ry_writer s1))" using assms(2) by (auto simp: rw_completed_def rbind_Inr_iff uat_Inr_iff)
  have s2: "rep_ok xxh ?low {} s2" using rep_ok_run [OF assms(3) rep_ok_raise [OF assms(1,2)]] .
  obtain s where s: "rep_apply xxh (Rep_read i) s2 = Some s" "rep_run xxh es2 s = Some s3"
    using assms(4) by (auto simp: bind_eq_Some_conv)
  from s(1) obtain hd rd where r: "i < length (rw_registers (ry_writer s2))"
    "rd_next_handle (ry_reader s2) < rd_next_handle (ry_reader s2) + 1" "rd_read (ry_now s2) i (ry_reader s2) = Inr (hd, rd)"
    "s = s2\<lparr>ry_reader := rd\<rparr>" by (auto split: if_split_asm)
  from rep_ok_read [OF s2 r(1-3)] r(4) have "rep_ok xxh ?low {(?hd, i)} s" by auto
  from rep_ok_run [OF s(2) this] have s3: "rep_ok xxh ?low {(?hd, i)} s3" .
  have hosts: "length (ry_hosts s3) = length (ry_hosts s1)"
    using rep_run_hosts [OF assms(3)] rep_run_hosts [OF assms(4)] by simp
  have rds: "length (rd_readers (ry_reader s3)) = length (ry_hosts s1)" using s3 hosts by (simp add: rep_ok_def)
  have ws: "length (rw_writers (ry_writer s1)) = length (ry_hosts s1)" "rw_ok (ry_writer s1)"
    using assms(1) by (simp_all add: rep_ok_def)
  note p = rd_poll_majority [OF assms(5)]
  have "?D \<inter> polled_at ?hd (rd_readers (ry_reader s3)) \<noteq> {}"
    using rw_completed_majority [OF assms(2) ws(2)] p assms(6)
    by (intro majorities_meet [of _ "length (ry_hosts s1)"]) (auto simp: done_at_def polled_at_def ws(1) rds)
  then obtain h where h: "h \<in> ?D" "h \<in> polled_at ?hd (rd_readers (ry_reader s3))" by blast
  then obtain slot inc' where a: "mr_poll ?hd (rd_readers (ry_reader s3) ! h) = Some (slot, inc')" "inc' \<le> inc"
    using p by (fastforce simp: polled_at_def)
  have hl: "h < length (ry_hosts s3)" using h(1) by (simp add: done_at_def ws(1) hosts)
  from done_at_holds [OF assms(1) h(1) i] have F: "2 \<le> ?F" by metis
  from rep_ok_host [OF s3 hl] obtain base where
    "sys_ok xxh (host_sys (ry_now s3) (ry_host_writer h s3) (ry_hosts s3 ! h) (mr_reader (rd_readers (ry_reader s3) ! h)) base)"
    "handle_above (?low h i) i base (rd_readers (ry_reader s3) ! h) ?hd"
    by (auto simp: host_ok_def host_reads_def)
  from answered_above [OF this a(1)] h(1) obtain c where c: "inc' = c - 2" "?F \<le> c" by auto
  have "?F - 2 \<le> c - 2" using F c(2) by (rule u32_minus_mono)
  with a(2) c(1) show ?thesis by (simp add: order_trans)
qed

end
