(* ===== verification/Swmr_Init.thy ===== *)
theory Swmr_Init
  imports Swmr_Reads
begin

text \<open>
  The constructor of the writer: it writes every register twice and waits, each time, only for the
  last register. As requests are posted and completed in order, it returns with every register complete.
\<close>

definition written :: "(bytes \<Rightarrow> u64) \<Rightarrow> u64 \<Rightarrow> nat \<Rightarrow> swmr_register \<Rightarrow> bool" where
  "written xxh vs c r \<longleftrightarrow> sr_incarnation r = of_nat c \<and> sr_subslot r = c mod 2 \<and> sr_last_write r = None \<and>
     (0 < c \<longrightarrow> sr_content r = replicate (unat vs) 0 \<and> intact xxh (raw_buffer r))"

text \<open>In a round, registers below \<open>b\<close> have been written and those below \<open>a\<close> have been completed.\<close>

definition init_state :: "(bytes \<Rightarrow> u64) \<Rightarrow> nat \<Rightarrow> nat \<Rightarrow> nat \<Rightarrow> swmr_writer \<Rightarrow> bool" where
  "init_state xxh a b c w \<longleftrightarrow> a \<le> b \<and> b \<le> length (sw_registers w) \<and> qp_owed (sw_rc w) @ sw_queued w = [a ..< b] \<and>
     sw_outstanding w = of_nat (length (qp_owed (sw_rc w))) \<and>
     (\<forall>l < length (sw_registers w). (sr_scheduled (sw_registers w ! l) \<longleftrightarrow> a \<le> l \<and> l < b) \<and>
        (l < b \<longrightarrow> written xxh (sw_value_size w) (Suc c) (sw_registers w ! l)) \<and>
        (\<not> l < b \<longrightarrow> written xxh (sw_value_size w) c (sw_registers w ! l)))"

lemma push_fifo:
  "sw_push_from i now w = Inr w' \<Longrightarrow> \<forall>r \<in> set (sw_registers w). sr_last_write r = None \<Longrightarrow>
   \<exists>new rest. sw_queued w = new @ rest \<and> w' = w\<lparr>sw_queued := rest,
     sw_rc := (sw_rc w)\<lparr>qp_sq := qp_sq (sw_rc w) @ map (\<lambda>i. (i, sr_subslot (sw_registers w ! i), [])) new\<rparr>,
     sw_outstanding := sw_outstanding w + of_nat (length new)\<rparr>"
proof (induction i now w arbitrary: w' rule: sw_push_from.induct)
  case (1 i now w)
  show ?case
  proof (cases "\<exists>index queued. sw_queued w = index # queued \<and> i < length (sw_queued w) \<and> sw_outstanding w < 128")
    case False
    with "1.prems"(1) have "w' = w" by (subst (asm) sw_push_from.simps) (auto split: list.splits if_splits)
    then show ?thesis by (intro exI [of _ "[]"] exI [of _ "sw_queued w"]) auto
  next
    case True
    then obtain index queued where q: "sw_queued w = index # queued" "i < length (sw_queued w)" "sw_outstanding w < 128"
      by blast
    from "1.prems"(1) q have index: "index < length (sw_registers w)"
      by (subst (asm) sw_push_from.simps) (auto simp: rbind_Inr_iff uat_Inr_iff)
    let ?reg = "sw_registers w ! index"
    have warm: "\<not> cooling now ?reg" using "1.prems"(2) index by (simp add: cooling_def)
    obtain posted rc where p: "qp_post (index, sr_subslot ?reg, []) (sw_rc w) = (posted, rc)" by force
    let ?w = "w\<lparr>sw_queued := queued, sw_rc := rc, sw_outstanding := sw_outstanding w + 1\<rparr>"
    from "1.prems"(1) q index warm p have r: "posted \<and> sw_push_from (i + 1) now ?w = Inr w'"
      by (subst (asm) sw_push_from.simps) (simp split: if_split_asm)
    have rc: "rc = (sw_rc w)\<lparr>qp_sq := qp_sq (sw_rc w) @ [(index, sr_subslot ?reg, [])]\<rparr>"
      using p r by (auto simp: qp_post_def split: if_split_asm)
    from "1.IH"(2) [OF q(1) _ warm refl p [symmetric]] r q(2,3) "1.prems"(2) obtain new rest where
      n: "queued = new @ rest" "w' = ?w\<lparr>sw_queued := rest,
        sw_rc := rc\<lparr>qp_sq := qp_sq rc @ map (\<lambda>i. (i, sr_subslot (sw_registers w ! i), [])) new\<rparr>,
        sw_outstanding := (sw_outstanding w + 1) + of_nat (length new)\<rparr>" by auto
    show ?thesis
      by (rule exI [of _ "index # new"], rule exI [of _ rest]) (simp add: q n rc add.commute)
  qed
qed

lemma init_state_push:
  assumes "init_state xxh a b c w" "sw_push now w = Inr w'"
  shows "init_state xxh a b c w' \<and> same_shape w w'"
proof -
  have "\<forall>r \<in> set (sw_registers w). sr_last_write r = None"
    using assms(1) by (auto simp: init_state_def written_def in_set_conv_nth)
  from push_fifo [OF assms(2) [unfolded sw_push_def] this] obtain new rest where
    "sw_queued w = new @ rest" "w' = w\<lparr>sw_queued := rest,
     sw_rc := (sw_rc w)\<lparr>qp_sq := qp_sq (sw_rc w) @ map (\<lambda>i. (i, sr_subslot (sw_registers w ! i), [])) new\<rparr>,
     sw_outstanding := sw_outstanding w + of_nat (length new)\<rparr>" by blast
  with assms(1) show ?thesis by (simp add: init_state_def qp_owed_def same_shape_def comp_def)
qed

lemma init_state_write:
  assumes "init_state xxh 0 i c w" "sw_init_register xxh now i w = Inr w'" "i < length (sw_registers w)"
  shows "init_state xxh 0 (Suc i) c w' \<and> same_shape w w'"
proof -
  let ?v = "replicate (unat (sw_value_size w)) 0"
  from assms(2) obtain slot where s: "sw_get_slot i w = Inr (Some slot)" "sw_write xxh now i None (sw_memcpy slot ?v w) = Inr w'"
    by (auto simp: sw_init_register_def rbind_Inr_iff split: option.split_asm)
  have wr: "written xxh (sw_value_size w) c (sw_registers w ! i)"
    using assms(1,3) unfolding init_state_def by (metis less_irrefl)
  let ?r = "sw_registers w ! i"
  let ?r1 = "?r\<lparr>sr_content := ?v, sr_scheduled := True, sr_incarnation := sr_incarnation ?r + 1, sr_subslot := (sr_subslot ?r + 1) mod 2\<rparr>"
  let ?r2 = "?r1\<lparr>sr_hash := xxh (le_inc (sr_incarnation ?r1) @ sr_content ?r1)\<rparr>"
  let ?w = "w\<lparr>sw_registers := (sw_registers w)[i := ?r2], sw_queued := sw_queued w @ [i]\<rparr>"
  have p: "sw_push now ?w = Inr w'"
    using s sw_get_slotD [OF s(1)]
    by (simp add: sw_write_def sw_memcpy_def sr_increment_def sr_change_subslot_def Let_def)
  have "intact xxh (raw_buffer ?r2)" by (simp add: intact_raw_buffer)
  then have "written xxh (sw_value_size w) (Suc c) ?r2" using wr by (auto simp: written_def mod_Suc_eq)
  then have "init_state xxh 0 (Suc i) c ?w"
    using assms(1,3) by (auto simp: init_state_def nth_upd simp flip: append_assoc)
  from init_state_push [OF this p] show ?thesis by (auto simp: same_shape_def)
qed

lemma init_state_round:
  assumes "rfold (sw_init_register xxh now) [0 ..< n] w = Inr w'" "init_state xxh 0 0 c w" "n = length (sw_registers w)"
  shows "init_state xxh 0 n c w' \<and> same_shape w w'"
proof -
  have "rfold (sw_init_register xxh now) [0 ..< m] w = Inr w' \<Longrightarrow> m \<le> n \<Longrightarrow> init_state xxh 0 m c w' \<and> same_shape w w'" for m w'
  proof (induction m arbitrary: w')
    case (Suc m)
    then obtain w1 where w1: "rfold (sw_init_register xxh now) [0 ..< m] w = Inr w1" "sw_init_register xxh now m w1 = Inr w'"
      by (auto simp: rfold_append rbind_Inr_iff)
    with Suc.IH [OF w1(1)] Suc.prems(2) init_state_write [OF _ w1(2)] assms(3) show ?case by (auto simp: same_shape_def)
  qed (use assms(2) in \<open>auto simp: same_shape_def\<close>)
  with assms(1) show ?thesis by blast
qed

lemma init_state_completes:
  assumes "rfold (sw_complete True now) wcs w = Inr w'" "map snd wcs = [a ..< a + length wcs]" "a + length wcs \<le> b" "b \<le> length (sw_registers w)"
    and "\<forall>l < length (sw_registers w). (sr_scheduled (sw_registers w ! l) \<longleftrightarrow> a \<le> l \<and> l < b) \<and>
        (l < b \<longrightarrow> written xxh (sw_value_size w) (Suc c) (sw_registers w ! l)) \<and>
        (\<not> l < b \<longrightarrow> written xxh (sw_value_size w) c (sw_registers w ! l))"
  shows "(\<forall>l < length (sw_registers w'). (sr_scheduled (sw_registers w' ! l) \<longleftrightarrow> a + length wcs \<le> l \<and> l < b) \<and>
        (l < b \<longrightarrow> written xxh (sw_value_size w') (Suc c) (sw_registers w' ! l)) \<and>
        (\<not> l < b \<longrightarrow> written xxh (sw_value_size w') c (sw_registers w' ! l))) \<and> same_shape w w' \<and>
    sw_outstanding w' = sw_outstanding w - of_nat (length wcs) \<and> sw_rc w' = sw_rc w \<and> sw_queued w' = sw_queued w"
  using assms
proof (induction wcs arbitrary: a w)
  case (Cons wc wcs)
  then obtain w1 where w1: "sw_complete True now wc w = Inr w1" "rfold (sw_complete True now) wcs w1 = Inr w'"
    by (auto simp: rbind_Inr_iff)
  have up: "[a ..< a + length (wc # wcs)] = a # [Suc a ..< Suc a + length wcs]" using upt_rec [of a "a + length (wc # wcs)"] by simp
  with Cons.prems(2) have wc: "snd wc = a" "map snd wcs = [Suc a ..< Suc a + length wcs]" by simp_all
  from w1(1) obtain r where r: "w1 = w\<lparr>sw_registers := (sw_registers w)[a := r], sw_outstanding := sw_outstanding w - 1\<rparr>"
    "a < length (sw_registers w)" "r = (sw_registers w ! a)\<lparr>sr_scheduled := False\<rparr>"
    by (elim sw_completeE) (simp add: wc)
  have "written xxh (sw_value_size w) (Suc c) r" using Cons.prems(3,5) r(2) by (auto simp: r(3) written_def)
  then have "\<forall>l < length (sw_registers w1). (sr_scheduled (sw_registers w1 ! l) \<longleftrightarrow> Suc a \<le> l \<and> l < b) \<and>
        (l < b \<longrightarrow> written xxh (sw_value_size w1) (Suc c) (sw_registers w1 ! l)) \<and>
        (\<not> l < b \<longrightarrow> written xxh (sw_value_size w1) c (sw_registers w1 ! l))"
    using Cons.prems(3,5) r(3) by (auto simp: r(1) nth_upd)
  from Cons.IH [OF w1(2) wc(2) _ _ this] Cons.prems(3,4) show ?case by (auto simp: r(1) same_shape_def)
qed (simp add: same_shape_def)

lemma qp_owed_poll_take:
  assumes "qp_poll m q = Some (wcs, q')"
  shows "map snd wcs @ qp_owed q' = qp_owed q"
  using qp_owed_poll [OF assms] by simp

lemma upt_split: "xs @ ys = [a ..< b] \<Longrightarrow> xs = [a ..< a + length xs] \<and> ys = [a + length xs ..< b] \<and> (a \<le> b \<longrightarrow> a + length xs \<le> b)"
proof -
  assume e: "xs @ ys = [a ..< b]"
  then have l: "length xs + length ys = b - a" by (metis length_append length_upt)
  have "xs = take (length xs) [a ..< b]" "ys = drop (length xs) [a ..< b]" using e by (metis append_eq_conv_conj)+
  with l show ?thesis by (cases "a \<le> b") (auto simp: take_upt)
qed

lemma init_state_wait:
  assumes "sw_init_wait now script w = Inr (script', w')" "init_state xxh a (length (sw_registers w)) c w" "0 < length (sw_registers w)"
    and "length (sw_registers w) < 18446744073709551616"
  shows "init_state xxh (length (sw_registers w)) (length (sw_registers w)) c w' \<and> same_shape w w'"
  using assms
proof (induction now script w arbitrary: a rule: sw_init_wait.induct)
  case (1 now script w)
  let ?n = "length (sw_registers w)"
  have last: "unat (of_nat ?n - 1 :: u64) = ?n - 1"
  proof -
    have "(of_nat ?n - 1 :: u64) = of_nat (?n - 1)" using "1.prems"(3) by (cases "sw_registers w") simp_all
    then show ?thesis using "1.prems"(4) by (simp add: unat_u64_of_nat)
  qed
  have sched: "sr_scheduled (sw_registers w ! (?n - 1)) \<longleftrightarrow> a \<le> ?n - 1"
    using "1.prems"(2,3) by (simp add: init_state_def)
  have le: "a \<le> ?n" using "1.prems"(2) by (simp add: init_state_def)
  show ?case
  proof (cases "a \<le> ?n - 1")
    case False
    with le "1.prems"(3) have "a = ?n" by simp
    moreover have "w' = w" using "1.prems"(1,3) False sched last
      by (subst (asm) sw_init_wait.simps) (simp add: sw_completed_def)
    ultimately show ?thesis using "1.prems"(2) by (simp add: same_shape_def)
  next
    case True
    with "1.prems"(1,3) sched last obtain n s1 where s: "script = n # s1"
      by (subst (asm) sw_init_wait.simps) (cases script; simp add: sw_completed_def)
    let ?wc = "w\<lparr>sw_rc := qp_complete n (sw_rc w)\<rparr>"
    from "1.prems"(1,3) sched last True obtain w1 w2 where
      w1: "sw_poll True now ?wc = Inr w1" "sw_push now w1 = Inr w2" "sw_init_wait now s1 w2 = Inr (script', w')"
      by (subst (asm) sw_init_wait.simps) (simp add: sw_completed_def s rbind_Inr_iff; blast)
    from w1(1) obtain wcs rc where q: "qp_poll (unat (sw_outstanding ?wc)) (sw_rc ?wc) = Some (wcs, rc)"
      "rfold (sw_complete True now) wcs (?wc\<lparr>sw_rc := rc\<rparr>) = Inr w1"
      by (auto simp: sw_poll_def split: option.split_asm)
    have o: "map snd wcs @ qp_owed rc = qp_owed (sw_rc w)" using qp_owed_poll_take [OF q(1)] by simp
    have i: "qp_owed (sw_rc w) @ sw_queued w = [a ..< ?n]" "sw_outstanding w = of_nat (length (qp_owed (sw_rc w)))"
      using "1.prems"(2) by (simp_all add: init_state_def)
    have "map snd wcs @ (qp_owed rc @ sw_queued w) = [a ..< ?n]" using i(1) o by (metis append_assoc)
    from upt_split [OF this] le have u: "map snd wcs = [a ..< a + length wcs]" "qp_owed rc @ sw_queued w = [a + length wcs ..< ?n]"
      "a + length wcs \<le> ?n" by simp_all
    have "length (qp_owed (sw_rc w)) = length wcs + length (qp_owed rc)" using o by (metis length_append length_map)
    then have d: "sw_outstanding w - of_nat (length wcs) = of_nat (length (qp_owed rc))" by (simp add: i(2))
    from init_state_completes [OF q(2) u(1,3), where c = c and xxh = xxh] "1.prems"(2)
    have c: "same_shape w w1" "sw_rc w1 = rc" "sw_queued w1 = sw_queued w" "sw_outstanding w1 = sw_outstanding w - of_nat (length wcs)"
      "\<forall>l < length (sw_registers w1). (sr_scheduled (sw_registers w1 ! l) \<longleftrightarrow> a + length wcs \<le> l \<and> l < ?n) \<and>
        (l < ?n \<longrightarrow> written xxh (sw_value_size w1) (Suc c) (sw_registers w1 ! l)) \<and>
        (\<not> l < ?n \<longrightarrow> written xxh (sw_value_size w1) c (sw_registers w1 ! l))"
      by (auto simp: init_state_def same_shape_def)
    then have "init_state xxh (a + length wcs) ?n c w1"
      using u(2,3) d by (simp add: init_state_def same_shape_def)
    from init_state_push [OF this w1(2)] have 2: "init_state xxh (a + length wcs) ?n c w2" "same_shape w w2"
      using c(1) by (simp_all add: same_shape_def)
    have n2: "length (sw_registers w2) = ?n" using 2(2) by (simp add: same_shape_def)
    with "1.IH" [of False n s1 w2 "a + length wcs"] s w1(3) 2 "1.prems"(3,4)
    have "init_state xxh ?n ?n c w' \<and> same_shape w2 w'" by (simp del: length_greater_0_conv)
    with 2(2)
    show ?thesis by (auto simp: same_shape_def)
  qed
qed

theorem sw_new_result:
  assumes "sw_new xxh now script nb vs custom rs ls local = Inr w" "0 < unat nb"
  shows "length (sw_registers w) = unat nb \<and> sw_value_size w = vs \<and> sw_queued w = [] \<and> sw_outstanding w = 0 \<and>
    qp_owed (sw_rc w) = [] \<and>
    (\<forall>l < unat nb. \<not> sr_scheduled (sw_registers w ! l) \<and> sr_incarnation (sw_registers w ! l) = 2 \<and>
       sr_subslot (sw_registers w ! l) = 0 \<and> sr_content (sw_registers w ! l) = replicate (unat vs) 0 \<and>
       intact xxh (raw_buffer (sw_registers w ! l)))"
proof -
  let ?w0 = "\<lparr>sw_nb = nb, sw_value_size = vs, sw_allow_custom = custom, sw_rc = qp_new,
         sw_registers = map (\<lambda>i. sr_new (local i)) [0 ..< unat nb], sw_queued = [], sw_outstanding = 0\<rparr>"
  let ?n = "unat nb"
  from assms(1) obtain w1 w2 w3 s2 s4 where s: "rfold (sw_init_register xxh now) [0 ..< length (sw_registers ?w0)] ?w0 = Inr w1"
    "sw_init_wait now script w1 = Inr (s2, w2)" "rfold (sw_init_register xxh now) [0 ..< length (sw_registers w2)] w2 = Inr w3"
    "sw_init_wait now s2 w3 = Inr (s4, w)"
    by (auto simp: sw_new_def sw_init_def rbind_Inr_iff split: if_split_asm)
  have "init_state xxh 0 0 0 ?w0" by (simp add: init_state_def sr_new_def written_def)
  from init_state_round [OF s(1) this refl] have 1: "init_state xxh 0 ?n 0 w1" "same_shape ?w0 w1" by simp_all
  then have n1: "length (sw_registers w1) = ?n" "sw_value_size w1 = vs" by (simp_all add: same_shape_def)
  from init_state_wait [OF s(2), of xxh 0 0] 1 n1 assms(2) have 2: "init_state xxh ?n ?n 0 w2" "same_shape w1 w2" by simp_all
  then have n2: "length (sw_registers w2) = ?n" "sw_value_size w2 = vs" using n1 by (simp_all add: same_shape_def)
  have "init_state xxh 0 0 1 w2" using 2(1) n2 by (simp add: init_state_def)
  from init_state_round [OF s(3) this refl] n2 have 3: "init_state xxh 0 ?n 1 w3" "same_shape w2 w3" by simp_all
  then have n3: "length (sw_registers w3) = ?n" "sw_value_size w3 = vs" using n2 by (simp_all add: same_shape_def)
  from init_state_wait [OF s(4), of xxh 0 1] 3 n3 assms(2) have 4: "init_state xxh ?n ?n 1 w" "same_shape w3 w" by simp_all
  then have n4: "length (sw_registers w) = ?n" "sw_value_size w = vs" using n3 by (simp_all add: same_shape_def)
  with 4(1) show ?thesis by (auto simp: init_state_def written_def)
qed

end
