(* ===== verification/Toy_Swmr.thy ===== *)
theory Toy_Swmr
  imports Swmr_Init
begin

text \<open>Runs of the register system, as lists of events that are executed one after the other.\<close>

datatype swmr_event =
    At int
  | Put nat bytes
  | Writer_tick
  | Move_write "nat list"
  | Write_done
  | Get nat
  | Reader_tick
  | Move_read "nat list"
  | Read_done

definition opt :: "'a result \<Rightarrow> 'a option" where
  "opt r = (case r of Inl _ \<Rightarrow> None | Inr x \<Rightarrow> Some x)"

fun moves_write :: "nat list \<Rightarrow> swmr_sys \<Rightarrow> swmr_sys option" where
  "moves_write [] s = Some s"
| "moves_write (p # ps) s =
     (if qp_sq (sw_rc (sy_writer s)) \<noteq> [] \<and> p < slot_len (sw_value_size (sy_writer s))
      then let (w, h) = move_write 0 p (sy_writer s) (sy_host s) in moves_write ps (s\<lparr>sy_writer := w, sy_host := h\<rparr>)
      else None)"

fun moves_read :: "nat list \<Rightarrow> swmr_sys \<Rightarrow> swmr_sys option" where
  "moves_read [] s = Some s"
| "moves_read (p # ps) s =
     (if qp_sq (sd_rc (sy_reader s)) \<noteq> [] \<and> p < 2 * slot_len (sd_value_size (sy_reader s))
      then moves_read ps (s\<lparr>sy_reader := move_read 0 p (sy_host s) (sy_reader s)\<rparr>)
      else None)"

fun swmr_run1 :: "(bytes \<Rightarrow> u64) \<Rightarrow> swmr_event \<Rightarrow> swmr_sys \<Rightarrow> swmr_sys option" where
  "swmr_run1 xxh (At t) s = (if sy_now s \<le> t then Some (s\<lparr>sy_now := t\<rparr>) else None)"
| "swmr_run1 xxh (Put i v) s =
     (case opt (sw_get_slot i (sy_writer s)) of
        Some (Some slot) \<Rightarrow>
          if length v = unat (sw_value_size (sy_writer s))
          then map_option (\<lambda>w. s\<lparr>sy_writer := w\<rparr>) (opt (sw_write xxh (sy_now s) i None (sw_memcpy slot v (sy_writer s))))
          else None
      | _ \<Rightarrow> None)"
| "swmr_run1 xxh Writer_tick s = map_option (\<lambda>w. s\<lparr>sy_writer := w\<rparr>) (opt (sw_tick (sy_now s) (sy_writer s)))"
| "swmr_run1 xxh (Move_write ps) s = moves_write ps s"
| "swmr_run1 xxh Write_done s =
     (case qp_sq (sw_rc (sy_writer s)) of
        (i, k, moved) # rest \<Rightarrow>
          if list_all (\<lambda>p. p \<in> set moved) [0 ..< slot_len (sw_value_size (sy_writer s))]
          then Some (s\<lparr>sy_writer := (sy_writer s)\<lparr>sw_rc := qp_complete 1 (sw_rc (sy_writer s))\<rparr>\<rparr>) else None
      | [] \<Rightarrow> None)"
| "swmr_run1 xxh (Get i) s =
     (if i < length (sw_registers (sy_writer s))
      then map_option (\<lambda>(job, r). with_reader r s) (opt (sd_read (sy_now s) i (sy_reader s))) else None)"
| "swmr_run1 xxh Reader_tick s = map_option (\<lambda>r. with_reader r s) (opt (sd_tick xxh (sy_now s) (sy_reader s)))"
| "swmr_run1 xxh (Move_read ps) s = moves_read ps s"
| "swmr_run1 xxh Read_done s =
     (case qp_sq (sd_rc (sy_reader s)) of
        (job, i, moved) # rest \<Rightarrow>
          if list_all (\<lambda>p. p \<in> set moved) [0 ..< 2 * slot_len (sd_value_size (sy_reader s))]
          then Some (s\<lparr>sy_reader := (sy_reader s)\<lparr>sd_rc := qp_complete 1 (sd_rc (sy_reader s))\<rparr>\<rparr>) else None
      | [] \<Rightarrow> None)"

fun swmr_run :: "(bytes \<Rightarrow> u64) \<Rightarrow> swmr_event list \<Rightarrow> swmr_sys \<Rightarrow> swmr_sys option" where
  "swmr_run xxh [] s = Some s"
| "swmr_run xxh (e # es) s = Option.bind (swmr_run1 xxh e s) (swmr_run xxh es)"

lemma opt_Some [simp]: "opt r = Some x \<longleftrightarrow> r = Inr x"
  by (cases r) (auto simp: opt_def)

lemma moves_write_reach: "moves_write ps s = Some s' \<Longrightarrow> (swmr_step xxh)\<^sup>*\<^sup>* s s'"
proof (induction ps s rule: moves_write.induct)
  case (2 p ps s)
  obtain w h where m: "move_write 0 p (sy_writer s) (sy_host s) = (w, h)" by force
  with 2 have "swmr_step xxh s (s\<lparr>sy_writer := w, sy_host := h\<rparr>)" "(swmr_step xxh)\<^sup>*\<^sup>* (s\<lparr>sy_writer := w, sy_host := h\<rparr>) s'"
    by (auto intro!: step_move_write [of 0] split: if_split_asm)
  then show ?case by (rule converse_rtranclp_into_rtranclp)
qed simp

lemma moves_read_reach: "moves_read ps s = Some s' \<Longrightarrow> (swmr_step xxh)\<^sup>*\<^sup>* s s'"
proof (induction ps s rule: moves_read.induct)
  case (2 p ps s)
  then have "swmr_step xxh s (s\<lparr>sy_reader := move_read 0 p (sy_host s) (sy_reader s)\<rparr>)"
    "(swmr_step xxh)\<^sup>*\<^sup>* (s\<lparr>sy_reader := move_read 0 p (sy_host s) (sy_reader s)\<rparr>) s'"
    by (auto intro!: step_move_read [of 0] split: if_split_asm)
  then show ?case by (rule converse_rtranclp_into_rtranclp)
qed simp

lemma swmr_run1_reach:
  assumes "swmr_run1 xxh e s = Some s'"
  shows "(swmr_step xxh)\<^sup>*\<^sup>* s s'"
proof (cases e)
  case (At t)
  with assms show ?thesis by (auto intro: step_time split: if_split_asm)
next
  case (Put i v)
  with assms show ?thesis by (auto split: option.split_asm if_split_asm intro!: r_into_rtranclp step_write)
next
  case Writer_tick
  with assms show ?thesis by (auto intro: step_writer_tick)
next
  case (Move_write ps)
  with assms show ?thesis by (auto intro: moves_write_reach)
next
  case Write_done
  with assms obtain i k moved rest where "qp_sq (sw_rc (sy_writer s)) = (i, k, moved) # rest"
    "{0 ..< slot_len (sw_value_size (sy_writer s))} \<subseteq> set moved"
    "s' = s\<lparr>sy_writer := (sy_writer s)\<lparr>sw_rc := qp_complete 1 (sw_rc (sy_writer s))\<rparr>\<rparr>"
    by (cases "qp_sq (sw_rc (sy_writer s))") (auto simp: list_all_iff subset_iff split: if_split_asm)
  then show ?thesis by (blast intro: step_write_done)
next
  case (Get i)
  with assms show ?thesis by (auto intro: step_read split: if_split_asm)
next
  case Reader_tick
  with assms show ?thesis by (auto intro: step_reader_tick)
next
  case (Move_read ps)
  with assms show ?thesis by (auto intro: moves_read_reach)
next
  case Read_done
  with assms obtain i k moved rest where "qp_sq (sd_rc (sy_reader s)) = (i, k, moved) # rest"
    "{0 ..< 2 * slot_len (sd_value_size (sy_reader s))} \<subseteq> set moved"
    "s' = s\<lparr>sy_reader := (sy_reader s)\<lparr>sd_rc := qp_complete 1 (sd_rc (sy_reader s))\<rparr>\<rparr>"
    by (cases "qp_sq (sd_rc (sy_reader s))") (auto simp: list_all_iff subset_iff split: if_split_asm)
  then show ?thesis by (blast intro: step_read_done)
qed

lemma swmr_run_reach: "swmr_run xxh es s = Some s' \<Longrightarrow> (swmr_step xxh)\<^sup>*\<^sup>* s s'"
proof (induction es arbitrary: s)
  case (Cons e es)
  then obtain s1 where "swmr_run1 xxh e s = Some s1" "swmr_run xxh es s1 = Some s'" by (auto simp: bind_eq_Some_conv)
  with Cons.IH swmr_run1_reach show ?case by (blast intro: rtranclp_trans)
qed simp

text \<open>One register of one byte, and a checksum for a hash.\<close>

definition toy_xxh :: "bytes \<Rightarrow> u64" where
  "toy_xxh b = fold (\<lambda>x acc. ucast x + acc) b 1"

definition toy_writer :: swmr_writer where
  "toy_writer = \<lparr>sw_nb = 1, sw_value_size = 1, sw_allow_custom = True, sw_rc = qp_new,
     sw_registers = [\<lparr>sr_content = [0], sr_hash = 3, sr_incarnation = 2, sr_scheduled = False,
       sr_last_write = None, sr_subslot = 0\<rparr>],
     sw_queued = [], sw_outstanding = 0\<rparr>"

definition toy_reader :: swmr_reader where
  "toy_reader = \<lparr>sd_nb = 1, sd_value_size = 1, sd_rc = qp_new, sd_memory = [replicate 26 0], sd_pool = [0],
     sd_queued = [], sd_outstanding = [], sd_completed = []\<rparr>"

text \<open>The first subslot holds the initial value, complete; of the second, nothing is known.\<close>

definition toy_host :: "nat \<Rightarrow> byte" where
  "toy_host a = (if a < 13 then [3, 0, 0, 0, 0, 0, 0, 0, 2, 0, 0, 0, 0] ! a else 0)"

definition toy_sys :: swmr_sys where
  "toy_sys = \<lparr>sy_now = 0, sy_writer = toy_writer, sy_host = toy_host, sy_reader = toy_reader, sy_base = (\<lambda>_. 0)\<rparr>"

lemma toy_writer_new: "sw_new toy_xxh 0 [1, 1] 1 1 True 26 26 (\<lambda>_. replicate 13 0) = Inr toy_writer"
  by code_simp

lemma toy_reader_new: "sd_new 1 1 26 26 (\<lambda>_. replicate 26 0) = Inr toy_reader"
  by code_simp

lemma toy_host_slot: "host_slot 1 toy_host 0 0 = raw_buffer (sw_registers toy_writer ! 0)"
  by code_simp

lemma toy_sys_ready: "swmr_ready toy_xxh toy_sys"
proof -
  note w = sw_new_result [OF toy_writer_new]
  then have w: "length (sw_registers toy_writer) = 1" "sw_value_size toy_writer = 1" "sw_queued toy_writer = []"
    "sw_outstanding toy_writer = 0" "qp_owed (sw_rc toy_writer) = []"
    "\<not> sr_scheduled (sw_registers toy_writer ! 0)" "sr_subslot (sw_registers toy_writer ! 0) = 0"
    "sr_content (sw_registers toy_writer ! 0) = [0]" "intact toy_xxh (raw_buffer (sw_registers toy_writer ! 0))"
    by simp_all
  have "slot_len 1 = 13" by (simp add: subslot_size_def)
  with w toy_host_slot toy_reader_new show ?thesis
    by (auto simp: swmr_ready_def toy_sys_def fits_def reg_ok_def intro!: exI)
qed

text \<open>
  Three runs. In the first a read after a completed write is answered in time. In the second the read
  is so slow that the writer overwrites one subslot after it was fetched and the other while it is
  fetched: what is left is older than the write completed before the read. In the third the
  clocks of the writer and of the reader tie.
\<close>

definition fresh_run :: "swmr_event list" where
  "fresh_run =
     [Put 0 [7], Move_write [0 ..< 13], Write_done, Writer_tick, Get 0, Move_read [0 ..< 26], Read_done]"

definition stale_run :: "swmr_event list" where
  "stale_run =
     [Put 0 [7], Move_write [0 ..< 13], Write_done, Writer_tick, Get 0, Move_read [0 ..< 13],
      At 2000000, Put 0 [8], Move_write [0 ..< 13], Write_done, Writer_tick,
      At 4000000, Put 0 [9], Move_write [12], Move_read [13 ..< 26], Read_done]"

definition tie_run :: "swmr_event list" where
  "tie_run =
     [Put 0 [7], Get 0, Move_read [13 ..< 25], Move_write [0 ..< 13], Move_read [25], Write_done, Writer_tick,
      At 1000000, Put 0 [8], Move_write [12], Move_read [0 ..< 13], Read_done]"

text \<open>What can be seen of a state: its time, the base of job 0, the reads, and what the next tick of the reader gives.\<close>

definition seen :: "swmr_sys \<Rightarrow> int \<times> u32 \<times> (nat \<times> nat \<times> int) list \<times> ((nat \<times> nat) \<times> u32) option result" where
  "seen s = (sy_now s, sy_base s 0, sd_outstanding (sy_reader s),
     rbind (sd_tick toy_xxh (sy_now s) (sy_reader s)) (\<lambda>r. Inr (sd_poll 0 r)))"

lemma fresh_run_seen: "map_option seen (swmr_run toy_xxh fresh_run toy_sys) = Some (0, 3, [(0, 0, 0)], Inr (Some ((0, 1), 1)))"
  by code_simp

lemma stale_run_seen: "map_option seen (swmr_run toy_xxh stale_run toy_sys) = Some (4000000, 3, [(0, 0, 0)], Inr (Some ((0, 0), 0)))"
  by code_simp

lemma tie_run_seen: "map_option seen (swmr_run toy_xxh tie_run toy_sys) =
    Some (1000000, 2, [(0, 0, 0)], Inl (Runtime_error ''Byzantine behavior detected, we should handle it.''))"
  by code_simp

lemma seen_reach:
  "map_option seen (swmr_run toy_xxh es toy_sys) = Some x \<Longrightarrow> \<exists>s. (swmr_step toy_xxh)\<^sup>*\<^sup>* toy_sys s \<and> seen s = x"
  by (auto dest!: swmr_run_reach)

end
