(* ===== verification/Toy_Replicated.thy ===== *)
theory Toy_Replicated
  imports Replicated_Hosts Toy_Swmr
begin

text \<open>Replicated registers of one byte over hosts that are in the state of \<open>Toy_Swmr\<close>, and a run of three of them.\<close>

definition toy_hosts :: "nat \<Rightarrow> rep_writer" where
  "toy_hosts n = (case rw_new True (replicate n toy_writer) of Inr w \<Rightarrow> w)"

text \<open>
  A run of three hosts with their memories: hosts 0 and 1 take the write of 7, the writer ticks, then a read is answered
  by hosts 1 and 2.
\<close>

definition toy_rep :: rep_sys where
  "toy_rep = \<lparr>ry_now = 0, ry_writer = toy_hosts 3,
     ry_reader = \<lparr>rd_value_size = 1, rd_readers = replicate 3 (mr_new toy_reader), rd_next_handle = 0\<rparr>,
     ry_hosts = replicate 3 toy_host\<rparr>"

definition rep_write_run :: "rep_event list" where
  "rep_write_run = Rep_put 0 (Some 1) [7] #
     concat (map (\<lambda>h. map (Card_writes h 0) [0 ..< 13] @ [Card_wrote h]) [0, 1]) @ [Rep_tick]"

definition rep_read_run :: "rep_event list" where
  "rep_read_run = concat (map (\<lambda>h. map (Card_reads h 0) [0 ..< 26] @ [Card_read h]) [1, 2]) @ [Rep_reader_tick]"

lemma toy_rep_ready: "rep_ready toy_xxh toy_rep"
proof -
  have "rw_new True (replicate 3 toy_writer) = Inr (ry_writer toy_rep)"
    by (simp add: toy_rep_def toy_hosts_def rw_new_def numeral_3_eq_3)
  moreover have "rd_new (replicate 3 toy_reader) = Inr (ry_reader toy_rep)"
    by (simp add: toy_rep_def rd_new_def numeral_3_eq_3) (simp add: toy_reader_def)
  moreover have "fresh_writer 1 1 toy_writer" by (simp add: fresh_writer_def toy_writer_def)
  moreover have "swmr_ready toy_xxh (host_sys 0 toy_writer toy_host toy_reader (\<lambda>_. 0))"
    using toy_sys_ready by (simp add: toy_sys_def)
  ultimately show ?thesis
    unfolding rep_ready_def
    by (intro exI [of _ True] exI [of _ "replicate 3 toy_writer"] exI [of _ "replicate 3 toy_reader"] exI [of _ 1])
      (simp add: toy_rep_def)
qed

text \<open>What the writer says after the first part, how many hosts hold the value, and what the read gives.\<close>

definition rep_written_seen :: "rep_sys \<Rightarrow> bool result \<times> u32 \<times> u64 \<times> nat" where
  "rep_written_seen s = (rbind (rw_completed 0 (ry_writer s)) (\<lambda>r. Inr (fst r)),
     rr_incarnation (rw_registers (ry_writer s) ! 0), rd_next_handle (ry_reader s), length (ry_hosts s))"

definition rep_read_seen :: "rep_sys \<Rightarrow> (bytes \<times> u32) option result" where
  "rep_read_seen s = rbind (rd_poll id 0 (ry_reader s)) (\<lambda>r. Inr (fst r))"

lemma rep_write_run_seen: "map_option rep_written_seen (rep_run toy_xxh rep_write_run toy_rep) = Some (Inr True, 1, 0, 3)"
  by code_simp

lemma rep_read_run_seen:
  "map_option rep_read_seen (rep_run toy_xxh (rep_write_run @ Rep_read 0 # rep_read_run) toy_rep) = Some (Inr (Some ([7], 1)))"
  by code_simp

lemma rep_run_append: "rep_run xxh (es1 @ es2) s = Option.bind (rep_run xxh es1 s) (rep_run xxh es2)"
  by (induction es1 arbitrary: s) (auto split: bind_split)

end
