(* ===== verification/Tail_Queue.thy ===== *)
theory Tail_Queue
  imports Ubft_Prelude
begin

text \<open>
  The bounded queues of \<open>ubft/src/tail-queue/\<close>: \<open>VectorTailQueue\<close> (in use,
  \<open>TAIL_QUEUE_VECTOR_IMPL\<close> is true), a ring of \<open>tail\<close> slots addressed by two counters that
  only grow, and \<open>DequeTailQueue\<close>. Both promise the last \<open>tail\<close> of the elements pushed and not
  popped; the locale \<open>bounded_fifo\<close> states it and both implementations discharge it.
\<close>

section \<open>VectorTailQueue\<close>

record 'a vector_queue =
  vq_tail :: u64
  vq_array :: "'a option list"
  vq_head :: u64
  vq_next :: u64

definition vq_new :: "u64 \<Rightarrow> 'a vector_queue" where
  "vq_new tail = \<lparr>vq_tail = tail, vq_array = replicate (unat tail) None, vq_head = 0, vq_next = 0\<rparr>"

definition vq_size :: "'a vector_queue \<Rightarrow> u64" where
  "vq_size q = vq_next q - vq_head q"

definition vq_empty :: "'a vector_queue \<Rightarrow> bool" where
  "vq_empty q \<longleftrightarrow> vq_size q = 0"

text \<open>\<open>uat(dyn_array, p % tail)\<close>, and an assignment to that slot.\<close>

definition vq_slot :: "'a vector_queue \<Rightarrow> u64 \<Rightarrow> nat result" where
  "vq_slot q p =
     (if vq_tail q = 0 then Inl Undefined_behaviour
      else let i = unat (p mod vq_tail q) in
        if i < length (vq_array q) then Inr i else Inl Undefined_behaviour)"

definition vq_store :: "'a vector_queue \<Rightarrow> u64 \<Rightarrow> 'a option \<Rightarrow> 'a vector_queue result" where
  "vq_store q p x = rbind (vq_slot q p) (\<lambda>i. Inr (q\<lparr>vq_array := (vq_array q)[i := x]\<rparr>))"

definition vq_emplace_back :: "'a vector_queue \<Rightarrow> 'a \<Rightarrow> 'a vector_queue result" where
  "vq_emplace_back q x =
     (let dest = vq_next q;
          q1 = q\<lparr>vq_next := dest + 1\<rparr>;
          q2 = (if vq_head q1 + vq_tail q1 = dest then q1\<lparr>vq_head := vq_head q1 + 1\<rparr> else q1)
      in vq_store q2 dest (Some x))"

text \<open>\<open>clear()\<close> counts \<open>p\<close> up from \<open>head\<close>, modulo \<open>2 ^ 64\<close>, until it meets \<open>next\<close>.\<close>

function vq_clear_from :: "u64 \<Rightarrow> 'a vector_queue \<Rightarrow> 'a vector_queue result" where
  "vq_clear_from p q =
     (if p = vq_next q then Inr q
      else case vq_store q p None of Inl e \<Rightarrow> Inl e | Inr q' \<Rightarrow> vq_clear_from (p + 1) q')"
  by pat_completeness auto

lemma vq_store_next: "vq_store q p x = Inr q' \<Longrightarrow> vq_next q' = vq_next q"
  by (auto simp: vq_store_def rbind_Inr_iff)

lemma u64_distance_step:
  assumes "p \<noteq> (n :: u64)"
  shows "unat (n - (p + 1)) < unat (n - p)"
proof -
  have "n - p \<noteq> 0" using assms by simp
  then have "unat (n - p - 1) < unat (n - p)" by (metis measure_unat)
  then show ?thesis by (simp add: algebra_simps)
qed

termination vq_clear_from
  by (relation "measure (\<lambda>(p, q). unat (vq_next q - p))") (auto simp: vq_store_next u64_distance_step)

declare vq_clear_from.simps [simp del]

definition vq_clear :: "'a vector_queue \<Rightarrow> 'a vector_queue result" where
  "vq_clear q = rbind (vq_clear_from (vq_head q) q) (\<lambda>q'. Inr (q'\<lparr>vq_head := vq_next q'\<rparr>))"

definition vq_get :: "'a vector_queue \<Rightarrow> nat \<Rightarrow> 'a result" where
  "vq_get q i = rbind (uat (vq_array q) i)
     (\<lambda>opt. case opt of None \<Rightarrow> Inl Undefined_behaviour | Some x \<Rightarrow> Inr x)"

definition vq_at :: "'a vector_queue \<Rightarrow> u64 \<Rightarrow> 'a result" where
  "vq_at q p =
     (if p < vq_head q \<or> p \<ge> vq_next q then Inl (Invalid_argument ''Out of bounds'')
      else rbind (vq_slot q p) (vq_get q))"

definition vq_front :: "'a vector_queue \<Rightarrow> 'a result" where
  "vq_front q = vq_at q (vq_head q)"

definition vq_pop_front :: "'a vector_queue \<Rightarrow> 'a vector_queue result" where
  "vq_pop_front q = rbind (vq_store q (vq_head q) None) (\<lambda>q'. Inr (q'\<lparr>vq_head := vq_head q' + 1\<rparr>))"

text \<open>\<open>back()\<close> indexes with \<open>next - 1\<close> itself, not with its remainder by \<open>tail\<close>.\<close>

definition vq_back :: "'a vector_queue \<Rightarrow> 'a result" where
  "vq_back q = vq_get q (unat (vq_next q - 1))"

definition vq_pop_back :: "'a vector_queue \<Rightarrow> 'a vector_queue result" where
  "vq_pop_back q = rbind (vq_store q (vq_next q - 1) None) (\<lambda>q'. Inr (q'\<lparr>vq_next := vq_next q' - 1\<rparr>))"

text \<open>Iteration from \<open>begin()\<close> to \<open>end()\<close>.\<close>

function vq_iterate :: "'a vector_queue \<Rightarrow> u64 \<Rightarrow> 'a list result" where
  "vq_iterate q p =
     (if p = vq_next q then Inr []
      else rbind (vq_at q p) (\<lambda>x. rbind (vq_iterate q (p + 1)) (\<lambda>xs. Inr (x # xs))))"
  by pat_completeness auto
termination
  by (relation "measure (\<lambda>(q, p). unat (vq_next q - p))") (auto simp: u64_distance_step)

declare vq_iterate.simps [simp del]

definition vq_entries :: "'a vector_queue \<Rightarrow> 'a list result" where
  "vq_entries q = vq_iterate q (vq_head q)"

section \<open>DequeTailQueue\<close>

record 'a deque_queue =
  dq_tail :: u64
  dq_deque :: "'a list"

definition dq_new :: "u64 \<Rightarrow> 'a deque_queue" where
  "dq_new tail = \<lparr>dq_tail = tail, dq_deque = []\<rparr>"

definition dq_pop_front :: "'a deque_queue \<Rightarrow> 'a deque_queue result" where
  "dq_pop_front q = (case dq_deque q of [] \<Rightarrow> Inl Undefined_behaviour | _ # xs \<Rightarrow> Inr (q\<lparr>dq_deque := xs\<rparr>))"

definition dq_emplace_back :: "'a deque_queue \<Rightarrow> 'a \<Rightarrow> 'a deque_queue result" where
  "dq_emplace_back q x =
     rbind (if length (dq_deque q) + 1 > unat (dq_tail q) then dq_pop_front q else Inr q)
       (\<lambda>q'. Inr (q'\<lparr>dq_deque := dq_deque q' @ [x]\<rparr>))"

definition dq_clear :: "'a deque_queue \<Rightarrow> 'a deque_queue" where
  "dq_clear q = q\<lparr>dq_deque := []\<rparr>"

definition dq_front :: "'a deque_queue \<Rightarrow> 'a result" where
  "dq_front q = (case dq_deque q of [] \<Rightarrow> Inl Undefined_behaviour | x # _ \<Rightarrow> Inr x)"

definition dq_back :: "'a deque_queue \<Rightarrow> 'a result" where
  "dq_back q = (if dq_deque q = [] then Inl Undefined_behaviour else Inr (last (dq_deque q)))"

definition dq_pop_back :: "'a deque_queue \<Rightarrow> 'a deque_queue result" where
  "dq_pop_back q =
     (if dq_deque q = [] then Inl Undefined_behaviour else Inr (q\<lparr>dq_deque := butlast (dq_deque q)\<rparr>))"

section \<open>The ring represents a list\<close>

definition vq_rep :: "'a vector_queue \<Rightarrow> 'a list \<Rightarrow> bool" where
  "vq_rep q xs \<longleftrightarrow>
     vq_tail q \<noteq> 0 \<and> length (vq_array q) = unat (vq_tail q) \<and> length xs \<le> unat (vq_tail q) \<and>
     unat (vq_head q) + length xs = unat (vq_next q) \<and>
     (\<forall>i < length xs. vq_array q ! ((unat (vq_head q) + i) mod unat (vq_tail q)) = Some (xs ! i))"

definition dq_rep :: "'a deque_queue \<Rightarrow> 'a list \<Rightarrow> bool" where
  "dq_rep q xs \<longleftrightarrow> dq_tail q \<noteq> 0 \<and> dq_deque q = xs \<and> length xs \<le> unat (dq_tail q)"

lemma vq_new_rep: "t \<noteq> 0 \<Longrightarrow> vq_rep (vq_new t) []"
  by (simp add: vq_rep_def vq_new_def)

lemma vq_rep_slot:
  assumes "vq_rep q xs"
  shows "vq_slot q p = Inr (unat p mod unat (vq_tail q))"
proof -
  have t: "0 < unat (vq_tail q)" using assms by (simp add: vq_rep_def unat_gt_0)
  have "vq_tail q \<noteq> 0" "length (vq_array q) = unat (vq_tail q)" using assms by (simp_all add: vq_rep_def)
  then show ?thesis using t by (simp add: vq_slot_def unat_mod)
qed

lemma vq_rep_size: "vq_rep q xs \<Longrightarrow> unat (vq_size q) = length xs"
proof -
  assume "vq_rep q xs"
  then have e: "unat (vq_head q) + length xs = unat (vq_next q)" by (simp add: vq_rep_def)
  then have "vq_head q \<le> vq_next q" by (simp add: u64_le_iff)
  then show ?thesis using e by (simp add: vq_size_def unat_sub)
qed

lemma vq_rep_empty: "vq_rep q xs \<Longrightarrow> vq_empty q \<longleftrightarrow> xs = []"
  using vq_rep_size [of q xs] by (metis length_0_conv unat_eq_zero vq_empty_def)

lemma ring_slot_neq:
  fixes h t :: nat
  assumes "i < j" "j < i + t"
  shows "(h + i) mod t \<noteq> (h + j) mod t"
proof
  assume "(h + i) mod t = (h + j) mod t"
  then have "t dvd (h + j) - (h + i)" using assms(1) by (metis add_le_mono1 add.commute less_imp_le mod_eq_dvd_iff_nat)
  then have "t dvd j - i" by simp
  then show False using assms by (auto dest: dvd_imp_le)
qed

lemma vq_rep_emplace_back:
  assumes "vq_rep q xs" "unat (vq_next q) + 1 < 18446744073709551616"
  shows "\<exists>q'. vq_emplace_back q x = Inr q' \<and> vq_tail q' = vq_tail q \<and> vq_next q' = vq_next q + 1 \<and>
    vq_rep q' (drop (Suc (length xs) - unat (vq_tail q)) (xs @ [x]))"
proof -
  let ?t = "unat (vq_tail q)" and ?h = "unat (vq_head q)" and ?n = "unat (vq_next q)"
  have r: "vq_tail q \<noteq> 0" "length (vq_array q) = ?t" "length xs \<le> ?t" "?h + length xs = ?n"
    "\<And>i. i < length xs \<Longrightarrow> vq_array q ! ((?h + i) mod ?t) = Some (xs ! i)"
    using assms(1) by (simp_all add: vq_rep_def)
  have t: "0 < ?t" using r(1) by (simp add: unat_gt_0)
  have full: "vq_head q + vq_tail q = vq_next q \<longleftrightarrow> length xs = ?t"
  proof -
    have "vq_head q + vq_tail q = vq_next q \<longleftrightarrow> vq_size q = vq_tail q"
      by (auto simp: vq_size_def algebra_simps)
    then show ?thesis by (simp add: u64_eq_iff vq_rep_size [OF assms(1)])
  qed
  let ?a = "(vq_array q)[?n mod ?t := Some x]"
  let ?h' = "if length xs = ?t then vq_head q + 1 else vq_head q"
  let ?q' = "q\<lparr>vq_array := ?a, vq_head := ?h', vq_next := vq_next q + 1\<rparr>"
  have run: "vq_emplace_back q x = Inr ?q'"
    using r(1,2) t full by (simp add: vq_emplace_back_def vq_store_def vq_slot_def unat_mod Let_def)
  have n: "unat (vq_next q + 1) = ?n + 1" using assms(2) by (rule unat_u64_Suc)
  have slot: "?a ! ((?h + i) mod ?t) = Some ((xs @ [x]) ! i)"
    if "i \<le> length xs" "length xs < i + ?t" for i
  proof (cases "i = length xs")
    case True
    then show ?thesis using r(2,4) t by simp
  next
    case False
    then have "i < length xs" using that(1) by simp
    then show ?thesis
      using ring_slot_neq [of i "length xs" ?t ?h] that r(2,4,5) by (simp add: nth_append)
  qed
  have "vq_rep ?q' (drop (Suc (length xs) - ?t) (xs @ [x]))"
  proof (cases "length xs = ?t")
    case True
    have h: "unat (vq_head q + 1) = ?h + 1" using assms(2) r(4) t True by (intro unat_u64_Suc) simp
    define ys where "ys = drop 1 (xs @ [x])"
    have ys: "length ys = length xs" "\<And>i. i < length xs \<Longrightarrow> ys ! i = (xs @ [x]) ! Suc i"
      unfolding ys_def by (simp, metis One_nat_def length_append_singleton less_Suc_eq_le
        less_imp_le nat_le_linear nth_drop not_less_eq_eq plus_1_eq_Suc zero_less_Suc)
    have "?a ! ((unat (vq_head q + 1) + i) mod ?t) = Some (ys ! i)" if "i < ?t" for i
      using slot [of "Suc i"] that True ys(2) unfolding h by simp
    moreover have "drop (Suc (length xs) - ?t) (xs @ [x]) = ys" using True by (simp add: ys_def)
    ultimately show ?thesis using True r n h t ys(1) by (simp add: vq_rep_def)
  next
    case False
    then have "Suc (length xs) - ?t = 0" using r(3) by simp
    with False show ?thesis using r n slot by (simp add: vq_rep_def)
  qed
  with run show ?thesis by auto
qed

lemma vq_rep_pop_front:
  assumes "vq_rep q (x # xs)"
  shows "\<exists>q'. vq_pop_front q = Inr q' \<and> vq_tail q' = vq_tail q \<and> vq_next q' = vq_next q \<and> vq_rep q' xs"
proof -
  let ?t = "unat (vq_tail q)" and ?h = "unat (vq_head q)" and ?n = "unat (vq_next q)"
  have r: "vq_tail q \<noteq> 0" "length (vq_array q) = ?t" "Suc (length xs) \<le> ?t" "?h + Suc (length xs) = ?n"
    "\<And>i. i < Suc (length xs) \<Longrightarrow> vq_array q ! ((?h + i) mod ?t) = Some ((x # xs) ! i)"
    using assms by (simp_all add: vq_rep_def)
  have h: "unat (vq_head q + 1) = ?h + 1"
    using r(4) unat_u64_less [of "vq_next q"] by (intro unat_u64_Suc) linarith
  let ?a = "(vq_array q)[?h mod ?t := None]"
  let ?q' = "q\<lparr>vq_array := ?a, vq_head := vq_head q + 1\<rparr>"
  have run: "vq_pop_front q = Inr ?q'"
    by (simp add: vq_pop_front_def vq_store_def vq_rep_slot [OF assms])
  have "?a ! ((?h + 1 + i) mod ?t) = Some (xs ! i)" if "i < length xs" for i
  proof -
    have "?h mod ?t \<noteq> (?h + Suc i) mod ?t"
      using ring_slot_neq [of 0 "Suc i" ?t ?h] that r(3) by simp
    then show ?thesis using r(5) [of "Suc i"] that by simp
  qed
  then have "vq_rep ?q' xs" using r h by (simp add: vq_rep_def)
  with run show ?thesis by auto
qed

lemma vq_rep_at:
  assumes "vq_rep q xs" "i < length xs" "unat p = unat (vq_head q) + i"
  shows "vq_at q p = Inr (xs ! i)"
proof -
  let ?t = "unat (vq_tail q)"
  have r: "length (vq_array q) = ?t" "unat (vq_head q) + length xs = unat (vq_next q)"
    "vq_array q ! ((unat (vq_head q) + i) mod ?t) = Some (xs ! i)" "vq_tail q \<noteq> 0"
    using assms(1,2) by (simp_all add: vq_rep_def)
  have "\<not> (p < vq_head q \<or> p \<ge> vq_next q)"
    using assms(2,3) r(2) by (simp add: u64_less_iff u64_le_iff)
  then show ?thesis
    using r assms(3) by (simp add: vq_at_def vq_rep_slot [OF assms(1)] vq_get_def unat_gt_0)
qed

lemma vq_rep_front: "vq_rep q (x # xs) \<Longrightarrow> vq_front q = Inr x"
  using vq_rep_at [of q "x # xs" 0 "vq_head q"] by (simp add: vq_front_def)

lemma vq_rep_empty_front: "vq_rep q [] \<Longrightarrow> vq_front q = Inl (Invalid_argument ''Out of bounds'')"
  by (simp add: vq_rep_def vq_front_def vq_at_def u64_eq_iff u64_le_iff)

text \<open>
  \<open>back()\<close> is right only while \<open>next\<close> has not gone past the ring: it then reads out of range.
\<close>

lemma vq_back_first_lap:
  assumes "vq_rep q xs" "xs \<noteq> []" "unat (vq_next q) \<le> unat (vq_tail q)"
  shows "vq_back q = Inr (last xs)"
proof -
  let ?t = "unat (vq_tail q)"
  have r: "length (vq_array q) = ?t" "unat (vq_head q) + length xs = unat (vq_next q)"
    "\<And>i. i < length xs \<Longrightarrow> vq_array q ! ((unat (vq_head q) + i) mod ?t) = Some (xs ! i)"
    using assms(1) by (simp_all add: vq_rep_def)
  have len: "0 < length xs" using assms(2) by simp
  have n: "unat (vq_next q - 1) = unat (vq_head q) + (length xs - 1)"
  proof -
    have "1 \<le> unat (vq_next q)" using r(2) len by linarith
    then have "(1 :: u64) \<le> vq_next q" by (simp add: u64_le_iff)
    then have "unat (vq_next q - 1) = unat (vq_next q) - 1" by (simp add: unat_sub)
    then show ?thesis using r(2) len by linarith
  qed
  have "unat (vq_next q - 1) < ?t" using n r(2) len assms(3) by linarith
  then show ?thesis
    using r(1) r(3) [of "length xs - 1"] n len by (simp add: vq_back_def vq_get_def last_conv_nth)
qed

lemma vq_back_later:
  assumes "vq_rep q xs" "unat (vq_tail q) < unat (vq_next q)"
  shows "vq_back q = Inl Undefined_behaviour"
proof -
  have "unat (vq_next q - 1) = unat (vq_next q) - 1"
    using assms(2) by (subst unat_sub) (auto simp: u64_le_iff)
  then have "\<not> unat (vq_next q - 1) < length (vq_array q)"
    using assms by (simp add: vq_rep_def)
  then show ?thesis by (simp add: vq_back_def vq_get_def uat_def)
qed

section \<open>The contract of a bounded queue\<close>

text \<open>
  \<open>room q n\<close> says that \<open>n\<close> more pushes stay clear of the wrap-around of the counters. Pushing
  always succeeds and forgets the oldest element of a full queue.
\<close>

locale bounded_fifo =
  fixes rep :: "'q \<Rightarrow> 'a list \<Rightarrow> bool"
    and cap :: "'q \<Rightarrow> nat"
    and room :: "'q \<Rightarrow> nat \<Rightarrow> bool"
    and push :: "'q \<Rightarrow> 'a \<Rightarrow> 'q result"
    and pop :: "'q \<Rightarrow> 'q result"
    and front :: "'q \<Rightarrow> 'a result"
  assumes rep_cap: "rep q xs \<Longrightarrow> 0 < cap q \<and> length xs \<le> cap q"
    and push_rep: "rep q xs \<Longrightarrow> room q (Suc n) \<Longrightarrow> \<exists>q'. push q x = Inr q' \<and> cap q' = cap q \<and>
      room q' n \<and> rep q' (drop (Suc (length xs) - cap q) (xs @ [x]))"
    and pop_rep: "rep q (x # xs) \<Longrightarrow> room q n \<Longrightarrow> \<exists>q'. pop q = Inr q' \<and> cap q' = cap q \<and> room q' n \<and> rep q' xs"
    and front_rep: "rep q (x # xs) \<Longrightarrow> front q = Inr x"
begin

lemma push_all_rep:
  "rep q xs \<Longrightarrow> room q (length ys + n) \<Longrightarrow> \<exists>q'. rfold (\<lambda>y q. push q y) ys q = Inr q' \<and> cap q' = cap q \<and>
     room q' n \<and> rep q' (drop (length xs + length ys - cap q) (xs @ ys))"
proof (induction ys arbitrary: q xs)
  case Nil
  then show ?case using rep_cap [OF Nil(1)] by auto
next
  case (Cons y ys)
  have cap: "length xs \<le> cap q" "0 < cap q" using rep_cap [OF Cons.prems(1)] by auto
  let ?zs = "drop (Suc (length xs) - cap q) (xs @ [y])"
  obtain q1 where q1: "push q y = Inr q1" "cap q1 = cap q" "room q1 (length ys + n)" "rep q1 ?zs"
    using push_rep [OF Cons.prems(1), of "length ys + n" y] Cons.prems(2) by auto
  obtain q' where q': "rfold (\<lambda>y q. push q y) ys q1 = Inr q'" "cap q' = cap q" "room q' n"
    "rep q' (drop (length ?zs + length ys - cap q) (?zs @ ys))"
    using Cons.IH [OF q1(4,3)] q1(2) by auto
  have "drop (length ?zs + length ys - cap q) (?zs @ ys) =
      drop (length xs + length (y # ys) - cap q) (xs @ y # ys)"
  proof -
    have "length ?zs + length ys - cap q + (Suc (length xs) - cap q) = length xs + length (y # ys) - cap q"
      using cap by (cases "length xs = cap q") auto
    moreover have "?zs @ ys = drop (Suc (length xs) - cap q) (xs @ y # ys)"
      using cap by simp
    ultimately show ?thesis by (simp only: drop_drop)
  qed
  with q1(1) q' show ?case by auto
qed

lemma push_then_front:
  assumes "rep q []" "room q (length ys)" "length ys \<le> cap q" "ys \<noteq> []"
  shows "\<exists>q'. rfold (\<lambda>y q. push q y) ys q = Inr q' \<and> front q' = Inr (hd ys)"
proof -
  obtain q' where "rfold (\<lambda>y q. push q y) ys q = Inr q'" "rep q' ys"
    using push_all_rep [OF assms(1), of ys 0] assms(2,3) by auto
  with front_rep [of q' "hd ys" "tl ys"] assms(4) show ?thesis by simp
qed

end

definition vq_room :: "'a vector_queue \<Rightarrow> nat \<Rightarrow> bool" where
  "vq_room q n \<longleftrightarrow> unat (vq_next q) + n < 18446744073709551616"

interpretation vector_fifo: bounded_fifo vq_rep "\<lambda>q. unat (vq_tail q)" vq_room vq_emplace_back
  vq_pop_front vq_front
proof
  show "0 < unat (vq_tail q) \<and> length xs \<le> unat (vq_tail q)" if "vq_rep q xs" for q and xs :: "'a list"
    using that by (simp add: vq_rep_def unat_gt_0)
  show "\<exists>q'. vq_emplace_back q x = Inr q' \<and> unat (vq_tail q') = unat (vq_tail q) \<and> vq_room q' n \<and>
      vq_rep q' (drop (Suc (length xs) - unat (vq_tail q)) (xs @ [x]))"
    if "vq_rep q xs" "vq_room q (Suc n)" for q xs n and x :: 'a
  proof -
    have "unat (vq_next q + 1) = unat (vq_next q) + 1"
      using that(2) by (intro unat_u64_Suc) (simp add: vq_room_def)
    with vq_rep_emplace_back [OF that(1), of x] that(2) show ?thesis by (auto simp: vq_room_def)
  qed
  show "\<exists>q'. vq_pop_front q = Inr q' \<and> unat (vq_tail q') = unat (vq_tail q) \<and> vq_room q' n \<and> vq_rep q' xs"
    if "vq_rep q (x # xs)" "vq_room q n" for q n xs and x :: 'a
    using vq_rep_pop_front [OF that(1)] that(2) by (auto simp: vq_room_def)
  show "vq_front q = Inr x" if "vq_rep q (x # xs)" for q xs and x :: 'a
    using that by (rule vq_rep_front)
qed

interpretation deque_fifo: bounded_fifo dq_rep "\<lambda>q. unat (dq_tail q)" "\<lambda>_ _. True" dq_emplace_back
  dq_pop_front dq_front
proof
  show "0 < unat (dq_tail q) \<and> length xs \<le> unat (dq_tail q)" if "dq_rep q xs" for q and xs :: "'a list"
    using that by (simp add: dq_rep_def unat_gt_0)
  show "\<exists>q'. dq_emplace_back q x = Inr q' \<and> unat (dq_tail q') = unat (dq_tail q) \<and> True \<and>
      dq_rep q' (drop (Suc (length xs) - unat (dq_tail q)) (xs @ [x]))"
    if "dq_rep q xs" for q xs and x :: 'a
  proof -
    have "0 < unat (dq_tail q)" using that by (simp add: dq_rep_def unat_gt_0)
    with that show ?thesis
      by (cases xs) (auto simp: dq_rep_def dq_emplace_back_def dq_pop_front_def Suc_diff_le le_Suc_eq)
  qed
qed (auto simp: dq_rep_def dq_pop_front_def dq_front_def)

end
