(* ===== verification/Tail_Cb.thy ===== *)
theory Tail_Cb
  imports Certifier Tail_Queue Replicated_Swmr
begin

text \<open>
  Consistent broadcast with a bounded tail: \<open>tail_cb::Receiver\<close> (\<open>ubft/src/tail-cb/receiver.hpp\<close>) and
  \<open>tail_cb::Broadcaster\<close> (\<open>tail-cb/broadcaster.hpp\<close>). A receiver echoes every message of the broadcaster to the
  other receivers and delivers it once all of them echoed the same (fast path), or once it has written the
  broadcaster's signature to its own register and found no other signed message in the registers of the
  others (slow path).

  \<^item> A \<open>std::map\<close> is the list of its entries in key order, a \<open>deque\<close> and the queue between the workers and
    the thread of the receiver are lists.
  \<^item> A point-to-point receiver is the list of what it will deliver, a sender the list of what was sent.
  \<^item> A task queue is the list of its closures' data, the oldest dropped beyond \<open>tail\<close>; \<open>tr_run_recv_check\<close>,
    \<open>tr_run_read_check\<close> and \<open>tb_run_task\<close> are a worker that runs one of them.
  \<^item> \<open>cr\<close> is the crypto object, \<open>xxh\<close> and \<open>freed\<close> are the parameters of the registers, \<open>now\<close> the clock. A tick
    is one step: results of workers that arrive while it runs are seen by the next one.
\<close>

section \<open>Searches in a map\<close>

definition map_find_front :: "u64 \<Rightarrow> (u64 \<times> 'v) list \<Rightarrow> 'v option" where
  "map_find_front key es =
     (case es of
        b # _ \<Rightarrow> if fst b = key then Some (snd b) else map_of es key
      | [] \<Rightarrow> map_of es key)"

definition map_pessimistic_find :: "u64 \<Rightarrow> (u64 \<times> 'v) list \<Rightarrow> 'v option" where
  "map_pessimistic_find key es = (case es of [] \<Rightarrow> None | _ \<Rightarrow> map_of es key)"

lemma map_find_front [simp]: "map_find_front key es = map_of es key"
  by (cases es) (auto simp: map_find_front_def)

lemma map_pessimistic_find [simp]: "map_pessimistic_find key es = map_of es key"
  by (cases es) (auto simp: map_pessimistic_find_def)

section \<open>Messages and registers\<close>

definition HashThreshold :: nat where
  "HashThreshold = 8192"

definition HashLength :: nat where
  "HashLength = 32"

definition cb_buffer_size :: "nat \<Rightarrow> nat" where
  "cb_buffer_size msg_size = 8 + msg_size"

definition max_echo_size :: "nat \<Rightarrow> nat" where
  "max_echo_size max_msg_size = cb_buffer_size (min max_msg_size (HashThreshold - 1))"

definition RegisterValueSize :: nat where
  "RegisterValueSize = HashLength + SignatureLength"

definition cb_size :: "cb_message \<Rightarrow> nat" where
  "cb_size m = length (cb_data m)"

definition cb_hash :: "crypto \<Rightarrow> cb_message \<Rightarrow> bytes" where
  "cb_hash cr m = blake3 cr (cb_message_bytes m)"

text \<open>\<open>std::equal\<close> over the length of the left buffer.\<close>

definition cb_equal :: "cb_message \<Rightarrow> cb_message \<Rightarrow> bool result" where
  "cb_equal a b =
     (let xs = cb_message_bytes a; ys = cb_message_bytes b in
      if take (length ys) xs \<noteq> take (length xs) ys then Inr False
      else if length xs \<le> length ys then Inr True else Inl Undefined_behaviour)"

definition register_bytes :: "bytes \<Rightarrow> signature \<Rightarrow> bytes" where
  "register_bytes hash sig = hash @ sig"

definition register_from :: "bytes \<Rightarrow> (bytes \<times> signature) result" where
  "register_from bs =
     rbind (slice bs 0 HashLength) (\<lambda>h. rbind (slice bs HashLength SignatureLength) (\<lambda>s. Inr (h, s)))"

section \<open>MessageData\<close>

record cb_entry =
  te_message :: cb_message
  te_hash :: "bytes option"
  te_other_receivers :: u64
  te_echoes :: dynamic_bitset
  te_echoes_match :: bool
  te_signature :: "share_message option"
  te_checked :: u64

definition te_new :: "cb_message \<Rightarrow> u64 \<Rightarrow> cb_entry result" where
  "te_new m other_receivers =
     rbind (bitset_new other_receivers) (\<lambda>echoes.
     Inr \<lparr>te_message = m, te_hash = None, te_other_receivers = other_receivers, te_echoes = echoes,
          te_echoes_match = True, te_signature = None, te_checked = 0\<rparr>)"

definition te_compute_hash :: "crypto \<Rightarrow> cb_entry \<Rightarrow> bytes \<times> cb_entry" where
  "te_compute_hash cr e =
     (case te_hash e of
        Some h \<Rightarrow> (h, e)
      | None \<Rightarrow> let h = cb_hash cr (te_message e) in (h, e\<lparr>te_hash := Some h\<rparr>))"

definition te_set_echo :: "nat \<Rightarrow> cb_entry \<Rightarrow> (cb_entry \<times> bool) result" where
  "te_set_echo replica e =
     rbind (bitset_set (te_echoes e) replica) (\<lambda>(b, fresh). Inr (e\<lparr>te_echoes := b\<rparr>, fresh))"

definition te_echoed :: "crypto \<Rightarrow> nat \<Rightarrow> cb_message \<Rightarrow> cb_entry \<Rightarrow> (cb_entry \<times> bool) result" where
  "te_echoed cr replica echo e =
     (if cb_size (te_message e) < HashThreshold then
        rbind (cb_equal (te_message e) echo) (\<lambda>same.
        te_set_echo replica (if same then e else e\<lparr>te_echoes_match := False\<rparr>))
      else if cb_size echo \<noteq> HashLength then te_set_echo replica (e\<lparr>te_echoes_match := False\<rparr>)
      else
        let (h, e1) = te_compute_hash cr e in
        te_set_echo replica (if cb_data echo = h then e1 else e1\<lparr>te_echoes_match := False\<rparr>))"

definition te_has_signature :: "cb_entry \<Rightarrow> bool" where
  "te_has_signature e \<longleftrightarrow> te_signature e \<noteq> None"

definition te_set_signature :: "share_message \<Rightarrow> cb_entry \<Rightarrow> cb_entry \<times> bool" where
  "te_set_signature s e =
     (if te_signature e \<noteq> None then (e, False) else (e\<lparr>te_signature := Some s\<rparr>, True))"

definition te_signature_matches :: "signature \<Rightarrow> cb_entry \<Rightarrow> bool" where
  "te_signature_matches sig e = (case te_signature e of None \<Rightarrow> False | Some s \<Rightarrow> sig = sm_signature s)"

definition te_get_signature :: "cb_entry \<Rightarrow> signature result" where
  "te_get_signature e =
     (case te_signature e of
        None \<Rightarrow> Inl (Logic_error ''Cannot get the signature before receiving it.'')
      | Some s \<Rightarrow> Inr (sm_signature s))"

definition te_checked_a_receiver :: "cb_entry \<Rightarrow> cb_entry" where
  "te_checked_a_receiver e = e\<lparr>te_checked := te_checked e + 1\<rparr>"

definition te_pollable :: "cb_entry \<Rightarrow> bool" where
  "te_pollable e \<longleftrightarrow>
     (bitset_full (te_echoes e) \<and> te_echoes_match e) \<or> te_checked e = te_other_receivers e"

section \<open>Receiver\<close>

datatype signature_origin = Broadcaster | Receiver_Register

record tcb_receiver =
  tr_broadcaster :: proc_id
  tr_tail :: u64
  tr_max_msg_size :: nat
  tr_slow_path_on :: bool
  tr_messages_in :: "bytes list"
  tr_signatures_in :: "bytes list"
  tr_echoes_in :: "bytes list list"
  tr_echoes_out :: "bytes list list"
  tr_writer :: rep_writer
  tr_readers :: "rep_reader list"
  tr_msg_tail :: "(u64 \<times> cb_entry) list"
  tr_latest :: "u64 option"
  tr_buffered :: "cb_message list list"
  tr_verified :: "(u64 \<times> bool \<times> signature_origin) list"
  tr_writes :: "(u64 \<times> u64) list"
  tr_reads :: "(u64 \<times> u64 option list) list"
  tr_recv_checks :: "(u64 \<times> bytes \<times> signature) list"
  tr_read_checks :: "(u64 \<times> bytes \<times> signature) list list"

definition tr_new :: "proc_id \<Rightarrow> u64 \<Rightarrow> nat \<Rightarrow> nat \<Rightarrow> nat \<Rightarrow> rep_writer \<Rightarrow> rep_reader list \<Rightarrow> tcb_receiver result" where
  "tr_new broadcaster tail max_msg_size echo_receivers echo_senders writer readers =
     (if echo_receivers \<noteq> echo_senders \<or> echo_senders \<noteq> length readers
      then Inl Aborts
      else Inr \<lparr>tr_broadcaster = broadcaster, tr_tail = tail, tr_max_msg_size = max_msg_size,
        tr_slow_path_on = False, tr_messages_in = [], tr_signatures_in = [],
        tr_echoes_in = replicate echo_receivers [], tr_echoes_out = replicate echo_senders [],
        tr_writer = writer, tr_readers = readers, tr_msg_tail = [], tr_latest = None,
        tr_buffered = replicate echo_receivers [], tr_verified = [], tr_writes = [], tr_reads = [],
        tr_recv_checks = [], tr_read_checks = replicate (length readers) []\<rparr>)"

definition tr_toggle_slow_path :: "bool \<Rightarrow> tcb_receiver \<Rightarrow> tcb_receiver" where
  "tr_toggle_slow_path enable r = r\<lparr>tr_slow_path_on := enable\<rparr>"

text \<open>A buffer of a pool refuses more than its size.\<close>

definition tr_take :: "nat \<Rightarrow> bytes \<Rightarrow> 'a result \<Rightarrow> 'a result" where
  "tr_take limit bs k =
     (if limit < length bs
      then Inl (Runtime_error ''Resize tried to reallocate beyond the initial size.'') else k)"

subsection \<open>Messages of the broadcaster\<close>

definition tr_replay_echo :: "crypto \<Rightarrow> u64 \<Rightarrow> nat \<Rightarrow> tcb_receiver \<Rightarrow> tcb_receiver result" where
  "tr_replay_echo cr index replica r =
     rbind (uat (tr_buffered r) replica) (\<lambda>buffered.
       let rest = dropWhile (\<lambda>m. cb_index m < index) buffered in
       case rest of
         [] \<Rightarrow> Inr (r\<lparr>tr_buffered := (tr_buffered r)[replica := rest]\<rparr>)
       | echo # rest' \<Rightarrow>
           if cb_index echo \<noteq> index then Inr (r\<lparr>tr_buffered := (tr_buffered r)[replica := rest]\<rparr>)
           else
             (case map_of (tr_msg_tail r) index of
                None \<Rightarrow> Inl Undefined_behaviour
              | Some e \<Rightarrow>
                  rbind (te_echoed cr replica echo e) (\<lambda>(e', fresh).
                    if \<not> fresh then Inl (Logic_error ''Unimplemented (Byzantine behavior, replica Echoed twice)!'')
                    else Inr (r\<lparr>tr_msg_tail := alist_set index e' (tr_msg_tail r),
                                tr_buffered := (tr_buffered r)[replica := rest']\<rparr>))))"

definition tr_send_echo :: "crypto \<Rightarrow> u64 \<Rightarrow> nat \<Rightarrow> tcb_receiver \<Rightarrow> tcb_receiver result" where
  "tr_send_echo cr index sender r =
     (case map_of (tr_msg_tail r) index of
        None \<Rightarrow> Inl Undefined_behaviour
      | Some e \<Rightarrow>
          rbind (uat (tr_echoes_out r) sender) (\<lambda>sent.
          let m = te_message e in
          if cb_size m < HashThreshold
          then Inr (r\<lparr>tr_echoes_out := (tr_echoes_out r)[sender := sent @ [cb_message_bytes m]]\<rparr>)
          else
            let (h, e') = te_compute_hash cr e in
            Inr (r\<lparr>tr_msg_tail := alist_set index e' (tr_msg_tail r),
                   tr_echoes_out := (tr_echoes_out r)[sender := sent @ [le64 (cb_index m) @ h]]\<rparr>)))"

text \<open>
  With \<open>tail\<close> 0 the new entry is itself erased: the reference to it dangles, and the lookups below find
  nothing.
\<close>

definition tr_insert :: "u64 \<Rightarrow> cb_entry \<Rightarrow> tcb_receiver \<Rightarrow> tcb_receiver" where
  "tr_insert index e r =
     (let es = alist_insert index e (tr_msg_tail r) in
      r\<lparr>tr_msg_tail := if unat (tr_tail r) < length es then tl es else es\<rparr>)"

definition tr_already :: "u64 \<Rightarrow> tcb_receiver \<Rightarrow> bool" where
  "tr_already index r \<longleftrightarrow>
     map_pessimistic_find index (tr_msg_tail r) \<noteq> None \<or>
     (case tr_latest r of None \<Rightarrow> False | Some l \<Rightarrow> index \<le> l)"

definition tr_handle_message :: "crypto \<Rightarrow> cb_message \<Rightarrow> tcb_receiver \<Rightarrow> tcb_receiver result" where
  "tr_handle_message cr m r =
     (let index = cb_index m in
      if tr_already index r
      then Inl (Logic_error ''Unimplemented (Byzantine Broadcaster sent the same message more than once)!'')
      else if tr_msg_tail r \<noteq> [] \<and> index \<le> fst (last (tr_msg_tail r)) then Inr r
      else
        rbind (te_new m (of_nat (length (tr_echoes_in r)))) (\<lambda>e.
        rbind (rfold (tr_replay_echo cr index) [0 ..< length (tr_buffered r)] (tr_insert index e r)) (\<lambda>r1.
        rfold (tr_send_echo cr index) [0 ..< length (tr_echoes_out r1)] r1)))"

definition tr_poll_message :: "crypto \<Rightarrow> tcb_receiver \<Rightarrow> tcb_receiver result" where
  "tr_poll_message cr r =
     (case tr_messages_in r of
        [] \<Rightarrow> Inr r
      | bs # rest \<Rightarrow>
          tr_take (cb_buffer_size (tr_max_msg_size r)) bs
            (rbind (cb_try_from bs) (\<lambda>v.
              case v of
                Inl _ \<Rightarrow> Inl (Logic_error ''Unimplemented: {}'')
              | Inr m \<Rightarrow> tr_handle_message cr m (r\<lparr>tr_messages_in := rest\<rparr>))))"

subsection \<open>Echoes\<close>

definition tr_buffer_echo :: "cb_message \<Rightarrow> nat \<Rightarrow> tcb_receiver \<Rightarrow> tcb_receiver result" where
  "tr_buffer_echo echo replica r =
     rbind (uat (tr_buffered r) replica) (\<lambda>buffered.
       if buffered \<noteq> [] \<and> cb_index echo < cb_index (last buffered)
       then Inl (Logic_error ''Unimplemented (Byzantine behavior, Echoes sent out of order)!'')
       else Inr (r\<lparr>tr_buffered := (tr_buffered r)[replica := push_bounded (tr_tail r) echo buffered]\<rparr>))"

definition tr_useless_echo :: "u64 \<Rightarrow> tcb_receiver \<Rightarrow> bool" where
  "tr_useless_echo index r \<longleftrightarrow>
     (case tr_latest r of None \<Rightarrow> False | Some l \<Rightarrow> index < l) \<or>
     (tr_msg_tail r \<noteq> [] \<and> index < fst (hd (tr_msg_tail r)))"

definition tr_handle_echo :: "crypto \<Rightarrow> cb_message \<Rightarrow> nat \<Rightarrow> tcb_receiver \<Rightarrow> tcb_receiver result" where
  "tr_handle_echo cr echo replica r =
     (let index = cb_index echo in
      if tr_useless_echo index r then Inr r
      else
        (case map_find_front index (tr_msg_tail r) of
           Some e \<Rightarrow>
             rbind (te_echoed cr replica echo e) (\<lambda>(e', fresh).
               if \<not> fresh then Inl (Logic_error ''Unimplemented (Byzantine behavior, replica Echoed twice)!'')
               else Inr (r\<lparr>tr_msg_tail := alist_set index e' (tr_msg_tail r)\<rparr>))
         | None \<Rightarrow> tr_buffer_echo echo replica r))"

definition tr_poll_echo :: "crypto \<Rightarrow> nat \<Rightarrow> tcb_receiver \<Rightarrow> tcb_receiver result" where
  "tr_poll_echo cr replica r =
     rbind (uat (tr_echoes_in r) replica) (\<lambda>incoming.
       case incoming of
         [] \<Rightarrow> Inr r
       | bs # rest \<Rightarrow>
           let r1 = r\<lparr>tr_echoes_in := (tr_echoes_in r)[replica := rest]\<rparr> in
           tr_take (max_echo_size (tr_max_msg_size r)) bs
             (rbind (cb_try_from bs) (\<lambda>v.
               case v of Inl _ \<Rightarrow> Inr r1 | Inr echo \<Rightarrow> tr_handle_echo cr echo replica r1)))"

definition tr_poll_echoes :: "crypto \<Rightarrow> tcb_receiver \<Rightarrow> tcb_receiver result" where
  "tr_poll_echoes cr r = rfold (tr_poll_echo cr) [0 ..< length (tr_echoes_in r)] r"

subsection \<open>Signatures of the broadcaster\<close>

definition tr_handle_signature :: "crypto \<Rightarrow> share_message \<Rightarrow> tcb_receiver \<Rightarrow> tcb_receiver result" where
  "tr_handle_signature cr s r =
     (let index = sm_index s in
      case map_find_front index (tr_msg_tail r) of
        None \<Rightarrow> Inr r
      | Some e \<Rightarrow>
          if te_has_signature e
          then Inl (Logic_error ''Unimplemented (Byzantine Broadcaster {} sent the signature more than once)!'')
          else
            let (h, e1) = te_compute_hash cr (fst (te_set_signature s e)) in
            rbind (te_get_signature e1) (\<lambda>sig.
            Inr (r\<lparr>tr_msg_tail := alist_set index e1 (tr_msg_tail r),
                   tr_recv_checks := push_bounded (tr_tail r) (index, h, sig) (tr_recv_checks r)\<rparr>)))"

definition tr_poll_signature :: "crypto \<Rightarrow> tcb_receiver \<Rightarrow> tcb_receiver result" where
  "tr_poll_signature cr r =
     (case tr_signatures_in r of
        [] \<Rightarrow> Inr r
      | bs # rest \<Rightarrow>
          tr_take (8 + SignatureLength) bs
            (rbind (signature_try_from bs) (\<lambda>v.
              case v of
                Inl _ \<Rightarrow> Inl (Logic_error ''Unimplemented: {}'')
              | Inr s \<Rightarrow> tr_handle_signature cr s (r\<lparr>tr_signatures_in := rest\<rparr>))))"

text \<open>A worker at one of the two kinds of tasks.\<close>

definition tr_run_recv_check :: "crypto \<Rightarrow> nat \<Rightarrow> tcb_receiver \<Rightarrow> tcb_receiver result" where
  "tr_run_recv_check cr i r =
     (if length (tr_recv_checks r) \<le> i then Inr r
      else
        let (index, h, sig) = tr_recv_checks r ! i in
        rbind (crypto_verify cr sig h (tr_broadcaster r)) (\<lambda>ok.
        Inr (r\<lparr>tr_recv_checks := remove_nth i (tr_recv_checks r),
               tr_verified := tr_verified r @ [(index, ok, Broadcaster)]\<rparr>)))"

definition tr_run_read_check :: "crypto \<Rightarrow> nat \<Rightarrow> nat \<Rightarrow> tcb_receiver \<Rightarrow> tcb_receiver result" where
  "tr_run_read_check cr replica i r =
     (if length (tr_read_checks r) \<le> replica \<or> length (tr_read_checks r ! replica) \<le> i then Inr r
      else
        let (index, h, sig) = tr_read_checks r ! replica ! i in
        rbind (crypto_verify cr sig h (tr_broadcaster r)) (\<lambda>ok.
        Inr (r\<lparr>tr_read_checks := (tr_read_checks r)[replica := remove_nth i (tr_read_checks r ! replica)],
               tr_verified := tr_verified r @ [(index, ok, Receiver_Register)]\<rparr>)))"

subsection \<open>The slow path\<close>

definition cb_incarnation :: "u64 \<Rightarrow> u64 \<Rightarrow> u64" where
  "cb_incarnation tail index = index div tail + 1"

text \<open>The incarnation is narrowed to 32 bits on its way to the register.\<close>

definition tr_write_register ::
  "crypto \<Rightarrow> (bytes \<Rightarrow> u64) \<Rightarrow> int \<Rightarrow> u64 \<Rightarrow> cb_entry \<Rightarrow> tcb_receiver \<Rightarrow> tcb_receiver result" where
  "tr_write_register cr xxh now index e r =
     (if tr_tail r = 0 then Inl Undefined_behaviour
      else
        let swmr_index = index mod tr_tail r in
        if map_of (tr_writes r) swmr_index \<noteq> None
        then Inl (Logic_error ''Unimplemented: recycled swmr before completion of the previous WRITE.'')
        else
          rbind (rw_get_slot (unat swmr_index) (tr_writer r)) (\<lambda>opt_slot.
          case opt_slot of
            None \<Rightarrow> Inl (Logic_error ''Called getSlot before the previous WRITE completed.'')
          | Some slot \<Rightarrow>
              let (h, e1) = te_compute_hash cr e in
              rbind (te_get_signature e1) (\<lambda>sig.
              rbind (wr_bytes (rr_buffer (rw_registers (tr_writer r) ! slot)) 0 (register_bytes h sig)) (\<lambda>v.
              rbind (rw_write xxh now (unat swmr_index) (Some (ucast (cb_incarnation (tr_tail r) index)))
                       (rw_memcpy slot v (tr_writer r))) (\<lambda>w.
              Inr (r\<lparr>tr_msg_tail := alist_set index e1 (tr_msg_tail r), tr_writer := w,
                     tr_writes := alist_insert swmr_index index (tr_writes r)\<rparr>))))))"

definition tr_verified_one ::
  "crypto \<Rightarrow> (bytes \<Rightarrow> u64) \<Rightarrow> int \<Rightarrow> u64 \<times> bool \<times> signature_origin \<Rightarrow> tcb_receiver \<Rightarrow> tcb_receiver result" where
  "tr_verified_one cr xxh now v r =
     (let (index, ok, origin) = v in
      case map_find_front index (tr_msg_tail r) of
        None \<Rightarrow> Inr r
      | Some e \<Rightarrow>
          (case origin of
             Broadcaster \<Rightarrow>
               if \<not> ok
               then Inl (Logic_error ''Unimplemented: Byzantine broadcaster {} sent an invalid signature for {}.'')
               else tr_write_register cr xxh now index e r
           | Receiver_Register \<Rightarrow>
               if ok then Inl (Logic_error ''Unimplemented: Byzantine broadcaster {} equivocated for index {}.'')
               else Inr (r\<lparr>tr_msg_tail := alist_set index (te_checked_a_receiver e) (tr_msg_tail r)\<rparr>)))"

definition tr_poll_verifications :: "crypto \<Rightarrow> (bytes \<Rightarrow> u64) \<Rightarrow> int \<Rightarrow> tcb_receiver \<Rightarrow> tcb_receiver result" where
  "tr_poll_verifications cr xxh now r =
     rfold (tr_verified_one cr xxh now) (tr_verified r) (r\<lparr>tr_verified := []\<rparr>)"

text \<open>A completed write starts a read of the register with the same index of every other receiver.\<close>

definition tr_start_read :: "int \<Rightarrow> u64 \<Rightarrow> u64 \<Rightarrow> nat \<Rightarrow> tcb_receiver \<Rightarrow> tcb_receiver result" where
  "tr_start_read now swmr_index index replica r =
     rbind (uat (tr_readers r) replica) (\<lambda>rd.
     rbind (rd_read now (unat swmr_index) rd) (\<lambda>(handle, rd').
       let handles = (case map_of (tr_reads r) index of None \<Rightarrow> [] | Some hs \<Rightarrow> hs) in
       Inr (r\<lparr>tr_readers := (tr_readers r)[replica := rd'],
              tr_reads := alist_set index (handles @ [Some handle]) (tr_reads r)\<rparr>)))"

definition tr_poll_write :: "int \<Rightarrow> u64 \<times> u64 \<Rightarrow> tcb_receiver \<Rightarrow> tcb_receiver result" where
  "tr_poll_write now write r =
     (let (swmr_index, index) = write in
      rbind (rw_completed (unat swmr_index) (tr_writer r)) (\<lambda>(completed, w).
        let r1 = r\<lparr>tr_writer := w\<rparr> in
        if \<not> completed then Inr r1
        else
          let r2 = r1\<lparr>tr_writes := alist_erase swmr_index (tr_writes r1)\<rparr> in
          if map_find_front index (tr_msg_tail r2) = None then Inr r2
          else rfold (tr_start_read now swmr_index index) [0 ..< length (tr_readers r2)]
                 (r2\<lparr>tr_reads := alist_insert index [] (tr_reads r2)\<rparr>)))"

definition tr_poll_writes :: "int \<Rightarrow> tcb_receiver \<Rightarrow> tcb_receiver result" where
  "tr_poll_writes now r = rfold (tr_poll_write now) (tr_writes r) r"

text \<open>
  \<open>auto [index, opt_job_handles] = *it\<close> copies the handles: resetting one of them leaves the map as it was.
\<close>

definition tr_check_register ::
  "u64 \<Rightarrow> nat \<Rightarrow> bytes \<Rightarrow> u32 \<Rightarrow> cb_entry \<Rightarrow> tcb_receiver \<Rightarrow> tcb_receiver result" where
  "tr_check_register index replica value inc e r =
     (let checked = r\<lparr>tr_msg_tail := alist_set index (te_checked_a_receiver e) (tr_msg_tail r)\<rparr> in
      if ucast inc < cb_incarnation (tr_tail r) index then Inr checked
      else
        rbind (register_from value) (\<lambda>(h, sig).
          if te_signature_matches sig e then Inr checked
          else rbind (uat (tr_read_checks r) replica) (\<lambda>tasks.
            Inr (r\<lparr>tr_read_checks := (tr_read_checks r)[replica := push_bounded (tr_tail r) (index, h, sig) tasks]\<rparr>))))"

definition tr_poll_read ::
  "(nat \<Rightarrow> nat) \<Rightarrow> u64 \<Rightarrow> u64 option list \<Rightarrow> nat \<Rightarrow> nat \<times> tcb_receiver \<Rightarrow> (nat \<times> tcb_receiver) result" where
  "tr_poll_read freed index handles replica s =
     (let (completed_reads, r) = s in
      rbind (uat handles replica) (\<lambda>opt_handle.
      case opt_handle of
        None \<Rightarrow> Inr (completed_reads + 1, r)
      | Some handle \<Rightarrow>
          rbind (uat (tr_readers r) replica) (\<lambda>rd.
          rbind (rd_poll freed handle rd) (\<lambda>(opt_polled, rd').
            let r1 = r\<lparr>tr_readers := (tr_readers r)[replica := rd']\<rparr> in
            case opt_polled of
              None \<Rightarrow> Inr (completed_reads, r1)
            | Some (value, inc) \<Rightarrow>
                if tr_tail r = 0 then Inl Undefined_behaviour
                else if cb_incarnation (tr_tail r) index < ucast inc
                then Inl (Logic_error ''Unimplemented: SWMR was recycled: incarnation {} found, {} expected.'')
                else
                  (case map_find_front index (tr_msg_tail r1) of
                     None \<Rightarrow> Inr (completed_reads + 1, r1)
                   | Some e \<Rightarrow>
                       rbind (tr_check_register index replica value inc e r1) (\<lambda>r2.
                       Inr (completed_reads + 1, r2)))))))"

definition tr_poll_entry :: "(nat \<Rightarrow> nat) \<Rightarrow> u64 \<times> u64 option list \<Rightarrow> tcb_receiver \<Rightarrow> tcb_receiver result" where
  "tr_poll_entry freed entry r =
     (let (index, handles) = entry in
      rbind (rfold (tr_poll_read freed index handles) [0 ..< length (tr_readers r)] (0, r)) (\<lambda>(completed_reads, r1).
        Inr (if completed_reads = length (tr_readers r1)
             then r1\<lparr>tr_reads := alist_erase index (tr_reads r1)\<rparr> else r1)))"

definition tr_poll_reads :: "(nat \<Rightarrow> nat) \<Rightarrow> tcb_receiver \<Rightarrow> tcb_receiver result" where
  "tr_poll_reads freed r = rfold (tr_poll_entry freed) (tr_reads r) r"

subsection \<open>Tick and poll\<close>

definition tr_slow_path ::
  "crypto \<Rightarrow> (bytes \<Rightarrow> u64) \<Rightarrow> (nat \<Rightarrow> nat) \<Rightarrow> int \<Rightarrow> tcb_receiver \<Rightarrow> tcb_receiver result" where
  "tr_slow_path cr xxh freed now r =
     rbind (tr_poll_signature cr r) (\<lambda>r1.
     rbind (tr_poll_verifications cr xxh now r1) (\<lambda>r2.
     rbind (rw_tick xxh now (tr_writer r2)) (\<lambda>w.
     rbind (tr_poll_writes now (r2\<lparr>tr_writer := w\<rparr>)) (\<lambda>r3.
     rbind (rmap (rd_tick xxh now) (tr_readers r3)) (\<lambda>rds.
     tr_poll_reads freed (r3\<lparr>tr_readers := rds\<rparr>))))))"

definition tr_tick ::
  "crypto \<Rightarrow> (bytes \<Rightarrow> u64) \<Rightarrow> (nat \<Rightarrow> nat) \<Rightarrow> int \<Rightarrow> tcb_receiver \<Rightarrow> tcb_receiver result" where
  "tr_tick cr xxh freed now r =
     rbind (tr_poll_message cr r) (\<lambda>r1.
       if tr_msg_tail r1 = [] then Inr r1
       else rbind (tr_poll_echoes cr r1) (\<lambda>r2.
         if \<not> tr_slow_path_on r2 then Inr r2 else tr_slow_path cr xxh freed now r2))"

definition tr_poll :: "tcb_receiver \<Rightarrow> cb_message option \<times> tcb_receiver" where
  "tr_poll r =
     (case tr_msg_tail r of
        [] \<Rightarrow> (None, r)
      | (index, e) # rest \<Rightarrow>
          if te_pollable e then (Some (te_message e), r\<lparr>tr_latest := Some index, tr_msg_tail := rest\<rparr>)
          else (None, r))"

section \<open>Broadcaster\<close>

record tcb_broadcaster =
  tb_tail :: u64
  tb_max_msg_size :: nat
  tb_next_index :: u64
  tb_slow_path_on :: bool
  tb_messages_out :: "bytes list list"
  tb_signatures_out :: "bytes list list"
  tb_queued :: "(u64 \<times> bytes) vector_queue"
  tb_tasks :: "(u64 \<times> bytes) list"
  tb_computed :: "(u64 \<times> signature) list"

definition tb_new :: "u64 \<Rightarrow> nat \<Rightarrow> nat \<Rightarrow> nat \<Rightarrow> tcb_broadcaster" where
  "tb_new tail max_msg_size message_senders signature_senders =
     \<lparr>tb_tail = tail, tb_max_msg_size = max_msg_size, tb_next_index = 0, tb_slow_path_on = False,
      tb_messages_out = replicate message_senders [], tb_signatures_out = replicate signature_senders [],
      tb_queued = vq_new tail, tb_tasks = [], tb_computed = []\<rparr>"

definition tb_toggle_slow_path :: "bool \<Rightarrow> tcb_broadcaster \<Rightarrow> tcb_broadcaster" where
  "tb_toggle_slow_path enable b = b\<lparr>tb_slow_path_on := enable\<rparr>"

definition tb_broadcast :: "bytes \<Rightarrow> tcb_broadcaster \<Rightarrow> (cb_message \<times> tcb_broadcaster) result" where
  "tb_broadcast data b =
     (let index = tb_next_index b;
          m = \<lparr>cb_index = index, cb_data = data\<rparr>;
          b1 = b\<lparr>tb_next_index := index + 1,
                  tb_messages_out := map (\<lambda>out. out @ [cb_message_bytes m]) (tb_messages_out b)\<rparr> in
      tr_take (tb_max_msg_size b) data
        (rbind (vq_emplace_back (tb_queued b1) (index, data)) (\<lambda>q.
        rbind (cb_try_from (cb_message_bytes m)) (\<lambda>v.
        case v of Inl _ \<Rightarrow> Inl Bad_variant_access | Inr msg \<Rightarrow> Inr (msg, b1\<lparr>tb_queued := q\<rparr>)))))"

definition tb_offload :: "tcb_broadcaster \<Rightarrow> tcb_broadcaster result" where
  "tb_offload b =
     rbind (vq_entries (tb_queued b)) (\<lambda>qs.
     rbind (vq_clear (tb_queued b)) (\<lambda>q.
     Inr (b\<lparr>tb_tasks := fold (push_bounded (tb_tail b)) qs (tb_tasks b), tb_queued := q\<rparr>)))"

definition tb_run_task :: "crypto \<Rightarrow> nat \<Rightarrow> tcb_broadcaster \<Rightarrow> tcb_broadcaster" where
  "tb_run_task cr i b =
     (if length (tb_tasks b) \<le> i then b
      else
        let (index, data) = tb_tasks b ! i in
        b\<lparr>tb_tasks := remove_nth i (tb_tasks b),
          tb_computed := tb_computed b @ [(index, sign_hash cr (blake3 cr (le64 index @ data)))]\<rparr>)"

definition tb_send_signature :: "u64 \<times> signature \<Rightarrow> tcb_broadcaster \<Rightarrow> tcb_broadcaster" where
  "tb_send_signature c b =
     (let (index, sig) = c in
      if tb_tail b < tb_next_index b - index then b
      else b\<lparr>tb_signatures_out :=
               map (\<lambda>out. out @ [share_message_bytes \<lparr>sm_index = index, sm_signature = sig\<rparr>]) (tb_signatures_out b)\<rparr>)"

definition tb_poll_signatures :: "tcb_broadcaster \<Rightarrow> tcb_broadcaster" where
  "tb_poll_signatures b = fold tb_send_signature (tb_computed b) (b\<lparr>tb_computed := []\<rparr>)"

definition tb_tick :: "tcb_broadcaster \<Rightarrow> tcb_broadcaster result" where
  "tb_tick b =
     (if \<not> tb_slow_path_on b then Inr b else rbind (tb_offload b) (\<lambda>b'. Inr (tb_poll_signatures b')))"

end
