(* ===== verification/Cb_Safety.thy ===== *)
theory Cb_Safety
  imports Tail_Cb
begin

text \<open>
  What holds in every state of a receiver of the broadcast, whatever the other processes, the registers and
  the network do: the bounds of its maps and queues, the order of what it delivers, and which echoes stand
  behind a message that is delivered on the fast path.

  \<open>E q\<close> is the set of echoes that replica \<open>q\<close> may have sent, \<open>ms\<close> the messages that the receiver has
  accepted, in order, and \<open>D\<close> the indices of those it has delivered.
\<close>

section \<open>Echoes\<close>

definition echo_of :: "crypto \<Rightarrow> cb_message \<Rightarrow> cb_message" where
  "echo_of cr m = (if cb_size m < HashThreshold then m else m\<lparr>cb_data := cb_hash cr m\<rparr>)"

definition echo_matches :: "crypto \<Rightarrow> cb_message \<Rightarrow> cb_message \<Rightarrow> bool" where
  "echo_matches cr m x \<longleftrightarrow>
     (if cb_size m < HashThreshold then \<exists>ys. cb_message_bytes x = cb_message_bytes m @ ys
      else cb_size x = HashLength \<and> cb_data x = cb_hash cr m)"

definition parsed :: "bytes list \<Rightarrow> cb_message set" where
  "parsed bss = {x. \<exists>bs \<in> set bss. cb_try_from bs = Inr (Inr x)}"

lemma parsed_Cons: "parsed (bs # bss) = {x. cb_try_from bs = Inr (Inr x)} \<union> parsed bss"
  by (auto simp: parsed_def)

lemma parsed_append: "parsed (as @ bs) = parsed as \<union> parsed bs"
  by (auto simp: parsed_def)

lemma parsed_bytes: "parsed (map cb_message_bytes xs) = set xs"
  by (auto simp: parsed_def cb_try_from_bytes)

lemma if_compared:
  "(if a \<noteq> b then Inr False else if c then Inr True else Inl f) = Inr True \<longleftrightarrow> a = b \<and> c"
  by auto

lemma cb_equal_Inr: "cb_equal a b = Inr True \<longleftrightarrow> (\<exists>ys. cb_message_bytes b = cb_message_bytes a @ ys)"
proof -
  have "take (length ys) xs = take (length xs) ys \<and> length xs \<le> length ys \<longleftrightarrow> (\<exists>zs. ys = xs @ zs)" for xs ys :: bytes
    by (metis append_take_drop_id append_eq_conv_conj le_add1 length_append take_all)
  then show ?thesis unfolding cb_equal_def Let_def if_compared by blast
qed

lemma cb_message_prefix:
  assumes "cb_message_bytes x = cb_message_bytes m @ ys"
  shows "cb_index x = cb_index m \<and> cb_data x = cb_data m @ ys"
proof -
  have "take 8 (cb_message_bytes x) = take 8 (cb_message_bytes m @ ys)" using assms by simp
  then have "le64 (cb_index x) = le64 (cb_index m)" by (simp add: cb_message_bytes_def)
  with assms show ?thesis by (simp add: cb_message_bytes_def le64_inj)
qed

text \<open>An echo that is shorter than the message and agrees with its beginning is read past its end.\<close>

lemma cb_equal_short:
  assumes "cb_message_bytes m = cb_message_bytes x @ ys" "ys \<noteq> []"
  shows "cb_equal m x = Inl Undefined_behaviour"
  using assms by (simp add: cb_equal_def Let_def)

section \<open>Entries\<close>

definition hash_ok :: "crypto \<Rightarrow> cb_entry \<Rightarrow> bool" where
  "hash_ok cr e \<longleftrightarrow> te_hash e = None \<or> te_hash e = Some (cb_hash cr (te_message e))"

definition echoes_ok :: "crypto \<Rightarrow> (nat \<Rightarrow> cb_message set) \<Rightarrow> u64 \<Rightarrow> cb_entry \<Rightarrow> bool" where
  "echoes_ok cr E k e \<longleftrightarrow> (te_echoes_match e \<longrightarrow>
     (\<forall>q \<in> bitset_elems (te_echoes e). \<exists>x \<in> E q. cb_index x = k \<and> echo_matches cr (te_message e) x))"

definition entry_ok :: "crypto \<Rightarrow> (nat \<Rightarrow> cb_message set) \<Rightarrow> nat \<Rightarrow> u64 \<Rightarrow> cb_entry \<Rightarrow> bool" where
  "entry_ok cr E n k e \<longleftrightarrow>
     cb_index (te_message e) = k \<and> te_other_receivers e = of_nat n \<and> n \<le> MaxCapacity \<and>
     bitset_inv (te_echoes e) \<and> bcapacity (te_echoes e) = of_nat n \<and> bitset_elems (te_echoes e) \<subseteq> {..<n} \<and>
     hash_ok cr e \<and> echoes_ok cr E k e"

lemma te_compute_hash_ok:
  "hash_ok cr e \<Longrightarrow>
   te_compute_hash cr e = (cb_hash cr (te_message e), e\<lparr>te_hash := Some (cb_hash cr (te_message e))\<rparr>)"
  by (auto simp: te_compute_hash_def hash_ok_def Let_def)

lemma entry_ok_hash:
  "entry_ok cr E n k e \<Longrightarrow> entry_ok cr E n k (e\<lparr>te_hash := Some (cb_hash cr (te_message e))\<rparr>)"
  by (simp add: entry_ok_def hash_ok_def echoes_ok_def)

lemma entry_ok_checked: "entry_ok cr E n k e \<Longrightarrow> entry_ok cr E n k (te_checked_a_receiver e)"
  by (simp add: entry_ok_def hash_ok_def echoes_ok_def te_checked_a_receiver_def)

lemma entry_ok_signature: "entry_ok cr E n k e \<Longrightarrow> entry_ok cr E n k (fst (te_set_signature s e))"
  by (simp add: entry_ok_def hash_ok_def echoes_ok_def te_set_signature_def)

lemma entry_ok_mono:
  "entry_ok cr E n k e \<Longrightarrow> (\<And>q. q < n \<Longrightarrow> E q \<subseteq> F q) \<Longrightarrow> entry_ok cr F n k e"
  unfolding entry_ok_def echoes_ok_def by (meson lessThan_iff subsetD)

lemma te_set_echo_ok:
  assumes "entry_ok cr E n k e" "q < n" "hash_ok cr e'" "echoes_ok cr E k e'"
    and "te_message e' = te_message e" "te_other_receivers e' = te_other_receivers e" "te_echoes e' = te_echoes e"
    and "te_echoes_match e' \<Longrightarrow> \<exists>x \<in> E q. cb_index x = k \<and> echo_matches cr (te_message e) x"
  shows "\<exists>e''. te_set_echo q e' = Inr (e'', q \<notin> bitset_elems (te_echoes e)) \<and> entry_ok cr E n k e'' \<and>
    te_message e'' = te_message e \<and> te_echoes_match e'' = te_echoes_match e' \<and>
    bitset_elems (te_echoes e'') = insert q (bitset_elems (te_echoes e))"
proof -
  have ok: "bitset_inv (te_echoes e)" "n \<le> MaxCapacity" "bcapacity (te_echoes e) = of_nat n"
    "bitset_elems (te_echoes e) \<subseteq> {..<n}" "cb_index (te_message e) = k" "te_other_receivers e = of_nat n"
    using assms(1) by (simp_all add: entry_ok_def)
  obtain b where b: "bitset_set (te_echoes e) q = Inr (b, q \<notin> bitset_elems (te_echoes e))" "bitset_inv b"
    "bitset_elems b = insert q (bitset_elems (te_echoes e))" "bcapacity b = bcapacity (te_echoes e)"
    using bitset_set_result [of "te_echoes e" q] ok assms(2) by fastforce
  let ?e = "e'\<lparr>te_echoes := b\<rparr>"
  have "te_set_echo q e' = Inr (?e, q \<notin> bitset_elems (te_echoes e))" using b(1) assms(7) by (simp add: te_set_echo_def)
  moreover have "hash_ok cr ?e" using assms(3) by (simp add: hash_ok_def)
  moreover have "echoes_ok cr E k ?e" using assms(4,5,7,8) b(3) by (auto simp: echoes_ok_def)
  ultimately show ?thesis using b ok assms(2,5,6) by (simp add: entry_ok_def)
qed

lemma te_echoed_ok:
  assumes e: "entry_ok cr E n k e" and q: "q < n" and x: "x \<in> E q" "cb_index x = k"
    and r: "te_echoed cr q x e = Inr (e', fresh)"
  shows "entry_ok cr E n k e' \<and> te_message e' = te_message e \<and> fresh = (q \<notin> bitset_elems (te_echoes e)) \<and>
    bitset_elems (te_echoes e') = insert q (bitset_elems (te_echoes e)) \<and>
    te_echoes_match e' = (te_echoes_match e \<and> echo_matches cr (te_message e) x)"
proof -
  have h: "hash_ok cr e" and ec: "echoes_ok cr E k e" using e by (simp_all add: entry_ok_def)
  let ?no = "e\<lparr>te_echoes_match := False\<rparr>"
  let ?e1 = "e\<lparr>te_hash := Some (cb_hash cr (te_message e))\<rparr>"
  let ?no1 = "?e1\<lparr>te_echoes_match := False\<rparr>"
  have no: "hash_ok cr ?no" "echoes_ok cr E k ?no" "hash_ok cr ?e1" "echoes_ok cr E k ?e1" "hash_ok cr ?no1"
    "echoes_ok cr E k ?no1"
    using h ec by (simp_all add: hash_ok_def echoes_ok_def)
  have put: "entry_ok cr E n k e' \<and> te_message e' = te_message e \<and> fresh = (q \<notin> bitset_elems (te_echoes e)) \<and>
    bitset_elems (te_echoes e') = insert q (bitset_elems (te_echoes e)) \<and> te_echoes_match e' = te_echoes_match f"
    if "te_set_echo q f = Inr (e', fresh)" "hash_ok cr f" "echoes_ok cr E k f" "te_message f = te_message e"
      "te_other_receivers f = te_other_receivers e" "te_echoes f = te_echoes e"
      "te_echoes_match f \<Longrightarrow> echo_matches cr (te_message e) x" for f
    using te_set_echo_ok [OF e q that(2-6)] that(1,7) x by auto
  show ?thesis
  proof (cases "cb_size (te_message e) < HashThreshold")
    case True
    then obtain same where s: "cb_equal (te_message e) x = Inr same"
      "te_set_echo q (if same then e else ?no) = Inr (e', fresh)"
      using r by (auto simp: te_echoed_def rbind_Inr_iff)
    have m: "same \<longleftrightarrow> echo_matches cr (te_message e) x"
      using s(1) cb_equal_Inr [of "te_message e" x] True by (cases same) (auto simp: echo_matches_def)
    show ?thesis
    proof (cases same)
      case True
      with put [of e] s(2) h ec m show ?thesis by simp
    next
      case False
      with put [of ?no] s(2) no m show ?thesis by simp
    qed
  next
    case False
    note big = this
    show ?thesis
    proof (cases "cb_size x = HashLength \<and> cb_data x = cb_hash cr (te_message e)")
      case True
      with r big have "te_set_echo q ?e1 = Inr (e', fresh)" by (simp add: te_echoed_def te_compute_hash_ok [OF h])
      with put [of ?e1] no True big show ?thesis by (simp add: echo_matches_def)
    next
      case False
      show ?thesis
      proof (cases "cb_size x = HashLength")
        case True
        with r big False have "te_set_echo q ?no1 = Inr (e', fresh)" by (simp add: te_echoed_def te_compute_hash_ok [OF h])
        with put [of ?no1] no False True big show ?thesis by (simp add: echo_matches_def)
      next
        case False
        with r big have "te_set_echo q ?no = Inr (e', fresh)" by (simp add: te_echoed_def)
        with put [of ?no] no False big show ?thesis by (simp add: echo_matches_def)
      qed
    qed
  qed
qed

section \<open>The invariant of a receiver\<close>

definition newest :: "tcb_receiver \<Rightarrow> u64 option" where
  "newest r = (if tr_msg_tail r = [] then tr_latest r else Some (fst (last (tr_msg_tail r))))"

definition tr_shape_ok :: "u64 set \<Rightarrow> nat \<Rightarrow> tcb_receiver \<Rightarrow> bool" where
  "tr_shape_ok D n r \<longleftrightarrow> length (tr_echoes_in r) = n \<and> length (tr_echoes_out r) = n \<and> length (tr_buffered r) = n \<and>
     length (tr_readers r) = n \<and> length (tr_read_checks r) = n \<and> tr_tail r \<noteq> 0 \<and>
     n < 18446744073709551616 \<and> (\<forall>d \<in> D. \<exists>l. tr_latest r = Some l \<and> d \<le> l)"

definition tail_ok :: "crypto \<Rightarrow> (nat \<Rightarrow> cb_message set) \<Rightarrow> nat \<Rightarrow> tcb_receiver \<Rightarrow> bool" where
  "tail_ok cr E n r \<longleftrightarrow> sorted_keys (tr_msg_tail r) \<and> length (tr_msg_tail r) \<le> unat (tr_tail r) \<and>
     (\<forall>(k, e) \<in> set (tr_msg_tail r). entry_ok cr E n k e) \<and>
     (\<forall>l. tr_latest r = Some l \<longrightarrow> (\<forall>k \<in> fst ` set (tr_msg_tail r). l < k))"

definition inbox_ok :: "(nat \<Rightarrow> cb_message set) \<Rightarrow> nat \<Rightarrow> tcb_receiver \<Rightarrow> bool" where
  "inbox_ok E n r \<longleftrightarrow> (\<forall>q < n. set (tr_buffered r ! q) \<subseteq> E q \<and> length (tr_buffered r ! q) \<le> unat (tr_tail r) \<and>
     parsed (tr_echoes_in r ! q) \<subseteq> E q)"

definition checks_ok :: "nat \<Rightarrow> tcb_receiver \<Rightarrow> bool" where
  "checks_ok n r \<longleftrightarrow> length (tr_recv_checks r) \<le> unat (tr_tail r) \<and>
     (\<forall>q < n. length (tr_read_checks r ! q) \<le> unat (tr_tail r))"

definition accepted_ok :: "cb_message list \<Rightarrow> tcb_receiver \<Rightarrow> bool" where
  "accepted_ok ms r \<longleftrightarrow> sorted_wrt (<) (map cb_index ms) \<and> te_message ` snd ` set (tr_msg_tail r) \<subseteq> set ms \<and>
     (\<forall>m \<in> set ms. \<exists>l. newest r = Some l \<and> cb_index m \<le> l)"

definition tr_base :: "u64 set \<Rightarrow> crypto \<Rightarrow> (nat \<Rightarrow> cb_message set) \<Rightarrow> nat \<Rightarrow> cb_message list \<Rightarrow> tcb_receiver \<Rightarrow> bool" where
  "tr_base D cr E n ms r \<longleftrightarrow> tr_shape_ok D n r \<and> tail_ok cr E n r \<and> inbox_ok E n r \<and> checks_ok n r \<and> accepted_ok ms r"

definition echoes_for :: "crypto \<Rightarrow> cb_message list \<Rightarrow> bytes list" where
  "echoes_for cr ms = map (\<lambda>m. cb_message_bytes (echo_of cr m)) ms"

definition tr_inv :: "u64 set \<Rightarrow> crypto \<Rightarrow> (nat \<Rightarrow> cb_message set) \<Rightarrow> nat \<Rightarrow> cb_message list \<Rightarrow> tcb_receiver \<Rightarrow> bool" where
  "tr_inv D cr E n ms r \<longleftrightarrow> tr_base D cr E n ms r \<and> (\<forall>out \<in> set (tr_echoes_out r). out = echoes_for cr ms)"

lemma alist_set_keys:
  "sorted_keys es \<Longrightarrow> map_of es k = Some v \<Longrightarrow> map fst (alist_set k w es) = map fst es"
proof (induction k w es rule: alist_set.induct)
  case (2 k w a b ps)
  show ?case
  proof (cases "k < a")
    case True
    with "2.prems" map_of_None_below [OF "2.prems"(1) True] show ?thesis by (auto split: if_splits)
  qed (use 2 in auto)
qed simp

lemma set_alist_set_mem:
  "sorted_keys es \<Longrightarrow> map_of es k = Some v \<Longrightarrow> set (alist_set k w es) \<subseteq> insert (k, w) (set es)"
  by (induction k w es rule: alist_set.induct) auto

lemma alist_set_same_fst_last:
  assumes "sorted_keys es" "map_of es k = Some v"
  shows "alist_set k w es \<noteq> [] \<longleftrightarrow> es \<noteq> []" "es \<noteq> [] \<Longrightarrow> fst (last (alist_set k w es)) = fst (last es)"
    "length (alist_set k w es) = length es" "fst ` set (alist_set k w es) = fst ` set es"
proof -
  note same = alist_set_keys [OF assms]
  show l: "length (alist_set k w es) = length es" using arg_cong [OF same, of length] by simp
  show "fst ` set (alist_set k w es) = fst ` set es" using arg_cong [OF same, of set] by simp
  show ne: "alist_set k w es \<noteq> [] \<longleftrightarrow> es \<noteq> []" using l by (metis length_0_conv)
  show "es \<noteq> [] \<Longrightarrow> fst (last (alist_set k w es)) = fst (last es)"
    using arg_cong [OF same [of w], of last] ne last_map [of "alist_set k w es" fst] by (simp add: last_map)
qed

text \<open>Replacing the data of an entry.\<close>

lemma tr_base_put:
  assumes b: "tr_base D cr E n ms r" and e: "map_of (tr_msg_tail r) k = Some e"
    and e': "entry_ok cr E n k e'" "te_message e' = te_message e"
  shows "tr_base D cr E n ms (r\<lparr>tr_msg_tail := alist_set k e' (tr_msg_tail r)\<rparr>)"
proof -
  let ?r = "r\<lparr>tr_msg_tail := alist_set k e' (tr_msg_tail r)\<rparr>"
  have t: "tail_ok cr E n r" and a: "accepted_ok ms r" using b by (simp_all add: tr_base_def)
  have s: "sorted_keys (tr_msg_tail r)" using t by (simp add: tail_ok_def)
  note same = alist_set_same_fst_last [OF s e, of e']
  note mem = set_alist_set_mem [OF s e, of e']
  have "tail_ok cr E n ?r"
    using t mem e'(1) unfolding tail_ok_def by (auto simp: same(3,4) sorted_alist_set)
  moreover have "newest ?r = newest r" using same(1,2) by (auto simp: newest_def)
  moreover have "te_message ` snd ` set (tr_msg_tail ?r) \<subseteq> set ms"
  proof -
    have "te_message e \<in> set ms" using a map_of_SomeD [OF e] unfolding accepted_ok_def by force
    with mem e'(2) a show ?thesis unfolding accepted_ok_def by fastforce
  qed
  ultimately show ?thesis using b a unfolding tr_base_def accepted_ok_def by (simp add: tr_shape_ok_def inbox_ok_def checks_ok_def)
qed

lemma tr_base_entry: "tr_base D cr E n ms r \<Longrightarrow> map_of (tr_msg_tail r) k = Some e \<Longrightarrow> entry_ok cr E n k e"
  unfolding tr_base_def tail_ok_def by (auto dest: map_of_SomeD)

lemma tr_base_tail: "tr_base D cr E n ms r \<Longrightarrow> tr_tail r \<noteq> 0" "tr_base D cr E n ms r \<Longrightarrow> unat (tr_tail r) \<noteq> 0"
  by (simp_all add: tr_base_def tr_shape_ok_def unat_eq_0)

lemma length_push_bounded: "length xs \<le> unat b \<Longrightarrow> length (push_bounded b x xs) \<le> unat b"
  by (auto simp: push_bounded_def Let_def)

text \<open>What does not touch the messages.\<close>

lemma tr_base_frame:
  assumes "tr_base D cr E n ms r" "tr_msg_tail r' = tr_msg_tail r" "tr_latest r' = tr_latest r" "tr_tail r' = tr_tail r"
    and "tr_shape_ok D n r'" "inbox_ok E n r'" "checks_ok n r'"
  shows "tr_base D cr E n ms r'"
proof -
  have "newest r' = newest r" using assms by (simp add: newest_def)
  then have "accepted_ok ms r' = accepted_ok ms r" using assms by (simp add: accepted_ok_def)
  moreover have "tail_ok cr E n r' = tail_ok cr E n r" using assms by (simp add: tail_ok_def)
  ultimately show ?thesis using assms by (simp add: tr_base_def)
qed

lemmas tr_parts = tr_base_def tr_shape_ok_def checks_ok_def

lemma inbox_ok_frame:
  "tr_buffered r' = tr_buffered r \<Longrightarrow> tr_echoes_in r' = tr_echoes_in r \<Longrightarrow> tr_tail r' = tr_tail r \<Longrightarrow>
   inbox_ok E n r' = inbox_ok E n r"
  by (simp add: inbox_ok_def)

section \<open>Messages\<close>

lemma tr_base_buffered:
  assumes "tr_base D cr E n ms r" "set xs \<subseteq> E q" "length xs \<le> unat (tr_tail r)"
  shows "tr_base D cr E n ms (r\<lparr>tr_buffered := (tr_buffered r)[q := xs]\<rparr>)"
proof (rule tr_base_frame [OF assms(1)])
  show "inbox_ok E n (r\<lparr>tr_buffered := (tr_buffered r)[q := xs]\<rparr>)"
    using assms unfolding tr_base_def inbox_ok_def by (simp add: nth_upd)
qed (use assms(1) in \<open>simp_all add: tr_parts\<close>)

lemma alist_insert_newest: "\<forall>k \<in> fst ` set es. k < i \<Longrightarrow> alist_insert i e es = es @ [(i, e)]"
  by (induction es) auto

lemma te_new_ok:
  assumes "te_new m (of_nat n) = Inr e" "n < 18446744073709551616"
  shows "entry_ok cr E n (cb_index m) e \<and> te_message e = m"
proof -
  obtain b where b: "bitset_new (of_nat n) = Inr b" and e: "e = \<lparr>te_message = m, te_hash = None,
      te_other_receivers = of_nat n, te_echoes = b, te_echoes_match = True, te_signature = None, te_checked = 0\<rparr>"
    using assms(1) by (auto simp: te_new_def rbind_Inr_iff)
  have "n \<le> MaxCapacity" using b assms(2) by (simp add: bitset_new_def u64_less_iff unat_u64_of_nat MaxCapacity_def split: if_splits)
  with bitset_new_inv [OF b] show ?thesis
    by (simp add: e entry_ok_def hash_ok_def echoes_ok_def)
qed

text \<open>A message that is not refused is newer than everything the receiver has accepted.\<close>

definition fresh_index :: "u64 \<Rightarrow> tcb_receiver \<Rightarrow> bool" where
  "fresh_index index r \<longleftrightarrow> (\<forall>k \<in> fst ` set (tr_msg_tail r). k < index) \<and> (\<forall>l. newest r = Some l \<longrightarrow> l < index) \<and>
     (\<forall>l. tr_latest r = Some l \<longrightarrow> l < index)"

lemma sorted_keys_last:
  assumes "sorted_keys es" "k \<in> fst ` set es"
  shows "k \<le> fst (last es)"
proof -
  obtain ys y where es: "es = ys @ [y]" using assms(2) by (cases es rule: rev_cases) auto
  with assms show ?thesis by (auto simp: sorted_wrt_append)
qed

lemma fresh_indexI:
  assumes "tr_base D cr E n ms r" "\<not> tr_already index r" "\<not> (tr_msg_tail r \<noteq> [] \<and> index \<le> fst (last (tr_msg_tail r)))"
  shows "fresh_index index r"
proof -
  have s: "sorted_keys (tr_msg_tail r)" using assms(1) by (simp add: tr_base_def tail_ok_def)
  have l: "\<forall>l. tr_latest r = Some l \<longrightarrow> l < index" using assms(2) by (auto simp: tr_already_def)
  have "k < index" if "k \<in> fst ` set (tr_msg_tail r)" for k
    using sorted_keys_last [OF s that] assms(3) that by (cases "tr_msg_tail r") auto
  with l assms(3) show ?thesis by (auto simp: fresh_index_def newest_def)
qed

lemma tr_insert_base:
  assumes b: "tr_base D cr E n ms r" and f: "fresh_index (cb_index m) r"
    and e: "entry_ok cr E n (cb_index m) e" "te_message e = m"
  shows "tr_base D cr E n (ms @ [m]) (tr_insert (cb_index m) e r) \<and>
    map_of (tr_msg_tail (tr_insert (cb_index m) e r)) (cb_index m) = Some e"
proof -
  let ?i = "cb_index m" let ?es = "tr_msg_tail r" let ?r = "tr_insert ?i e r"
  have t: "tail_ok cr E n r" and a: "accepted_ok ms r" and tl: "unat (tr_tail r) \<noteq> 0"
    using b by (simp_all add: tr_base_def tr_shape_ok_def unat_eq_0)
  have ins: "alist_insert ?i e ?es = ?es @ [(?i, e)]" using f by (simp add: alist_insert_newest fresh_index_def)
  have below: "\<forall>k \<in> fst ` set ?es. k < ?i" using f by (simp add: fresh_index_def)
  have sorted: "sorted_keys (?es @ [(?i, e)])" using t below by (simp add: tail_ok_def sorted_wrt_append)
  obtain ds where ds: "tr_msg_tail ?r = ds @ [(?i, e)]" "set ds \<subseteq> set ?es" "length ds < unat (tr_tail r)"
    "sorted_keys (ds @ [(?i, e)])"
  proof (cases "unat (tr_tail r) < length (?es @ [(?i, e)])")
    case True
    with tl obtain x xs where es: "?es = x # xs" by (cases ?es) auto
    with True t have "tr_msg_tail ?r = xs @ [(?i, e)]" "length xs < unat (tr_tail r)"
      using ins by (simp_all add: tr_insert_def tail_ok_def Let_def)
    with sorted es that [of xs] show thesis by auto
  next
    case False
    with sorted that [of ?es] show thesis by (auto simp: tr_insert_def ins)
  qed
  have frame: "tr_latest ?r = tr_latest r" "tr_tail ?r = tr_tail r" by (simp_all add: tr_insert_def Let_def)
  have notin: "?i \<notin> fst ` set ds" using below ds(2) by blast
  have "tail_ok cr E n ?r"
  proof -
    have "\<forall>(k, x) \<in> set ds. entry_ok cr E n k x" using t ds(2) unfolding tail_ok_def by blast
    moreover have "\<forall>l. tr_latest r = Some l \<longrightarrow> (\<forall>k \<in> fst ` set ds. l < k)"
      using t ds(2) unfolding tail_ok_def by blast
    ultimately show ?thesis using f ds(3,4) e(1) unfolding tail_ok_def frame fresh_index_def ds(1) by simp
  qed
  moreover have nw: "newest ?r = Some ?i" by (simp add: newest_def ds(1))
  moreover have "accepted_ok (ms @ [m]) ?r"
  proof -
    have old: "cb_index x < ?i" if "x \<in> set ms" for x
      using a f that unfolding accepted_ok_def fresh_index_def by fastforce
    have "te_message ` snd ` set (tr_msg_tail ?r) \<subseteq> set (ms @ [m])"
      using a ds(2) e(2) unfolding accepted_ok_def ds(1) by fastforce
    with old a nw show ?thesis unfolding accepted_ok_def by (auto simp: sorted_wrt_append order.strict_implies_order)
  qed
  moreover have "tr_shape_ok D n ?r" "inbox_ok E n ?r" "checks_ok n ?r"
    using b by (simp_all add: tr_insert_def Let_def tr_base_def tr_shape_ok_def inbox_ok_def checks_ok_def)
  moreover have "map_of (tr_msg_tail ?r) ?i = Some e" using notin by (simp add: ds(1) map_add_def map_of_notin)
  ultimately show ?thesis by (simp add: tr_base_def)
qed

text \<open>While a message is being handled: it has its entry, and \<open>j\<close> of the echoes are sent.\<close>

definition handling :: "u64 set \<Rightarrow> crypto \<Rightarrow> (nat \<Rightarrow> cb_message set) \<Rightarrow> nat \<Rightarrow> cb_message list \<Rightarrow> cb_message \<Rightarrow> nat \<Rightarrow> tcb_receiver \<Rightarrow> bool" where
  "handling D cr E n ms m j r \<longleftrightarrow> tr_base D cr E n (ms @ [m]) r \<and>
     (\<exists>e. map_of (tr_msg_tail r) (cb_index m) = Some e \<and> te_message e = m) \<and>
     (\<forall>i < n. tr_echoes_out r ! i = echoes_for cr (if i < j then ms @ [m] else ms))"

lemma handling_put:
  assumes "handling D cr E n ms m j r" "map_of (tr_msg_tail r) (cb_index m) = Some e"
    and "entry_ok cr E n (cb_index m) e'" "te_message e' = m"
  shows "handling D cr E n ms m j (r\<lparr>tr_msg_tail := alist_set (cb_index m) e' (tr_msg_tail r)\<rparr>)"
proof -
  have b: "tr_base D cr E n (ms @ [m]) r" and m: "te_message e = m" using assms(1,2) by (auto simp: handling_def)
  then have "sorted_keys (tr_msg_tail r)" by (simp add: tr_base_def tail_ok_def)
  with tr_base_put [OF b assms(2,3)] assms m show ?thesis by (simp add: handling_def map_of_alist_set)
qed

lemma handling_buffered:
  assumes "handling D cr E n ms m j r" "set xs \<subseteq> E q" "length xs \<le> unat (tr_tail r)"
  shows "handling D cr E n ms m j (r\<lparr>tr_buffered := (tr_buffered r)[q := xs]\<rparr>)"
  using assms tr_base_buffered [of D cr E n "ms @ [m]" r xs q] by (simp add: handling_def)

lemma dropWhile_ok: "set xs \<subseteq> A \<Longrightarrow> length xs \<le> k \<Longrightarrow> set (dropWhile P xs) \<subseteq> A \<and> length (dropWhile P xs) \<le> k"
  using length_dropWhile_le [of P xs] by (auto dest: set_dropWhileD)

lemma tr_replay_echo_ok:
  assumes h: "handling D cr E n ms m j r" and q: "q < n"
  shows "always (handling D cr E n ms m j) (tr_replay_echo cr (cb_index m) q r)"
proof (rule alwaysI)
  fix r' assume r': "tr_replay_echo cr (cb_index m) q r = Inr r'"
  have b: "tr_base D cr E n (ms @ [m]) r" using h by (simp add: handling_def)
  obtain e where e: "map_of (tr_msg_tail r) (cb_index m) = Some e" "te_message e = m" using h by (auto simp: handling_def)
  have len: "q < length (tr_buffered r)" using b q by (simp add: tr_parts)
  have old: "set (tr_buffered r ! q) \<subseteq> E q" "length (tr_buffered r ! q) \<le> unat (tr_tail r)"
    using b q by (simp_all add: tr_base_def inbox_ok_def)
  obtain rest where rest: "rest = dropWhile (\<lambda>x. cb_index x < cb_index m) (tr_buffered r ! q)" by blast
  have rest_ok: "set rest \<subseteq> E q" "length rest \<le> unat (tr_tail r)" using dropWhile_ok [OF old] by (simp_all add: rest)
  show "handling D cr E n ms m j r'"
  proof (cases rest)
    case Nil
    with r' len have "r' = r\<lparr>tr_buffered := (tr_buffered r)[q := []]\<rparr>" by (simp add: tr_replay_echo_def flip: rest)
    with handling_buffered [OF h, of "[]" q] show ?thesis by simp
  next
    case (Cons x xs)
    show ?thesis
    proof (cases "cb_index x = cb_index m")
      case False
      with r' len Cons have "r' = r\<lparr>tr_buffered := (tr_buffered r)[q := rest]\<rparr>"
        by (simp add: tr_replay_echo_def Let_def flip: rest)
      with handling_buffered [OF h rest_ok] show ?thesis by simp
    next
      case True
      have "rbind (te_echoed cr q x e) (\<lambda>(e', fresh).
          if \<not> fresh then Inl (Logic_error ''Unimplemented (Byzantine behavior, replica Echoed twice)!'')
          else Inr (r\<lparr>tr_msg_tail := alist_set (cb_index m) e' (tr_msg_tail r), tr_buffered := (tr_buffered r)[q := xs]\<rparr>)) = Inr r'"
        using r' len Cons e(1) True by (simp add: tr_replay_echo_def Let_def flip: rest)
      then obtain e' where f: "te_echoed cr q x e = Inr (e', True)" and
        r'': "r' = r\<lparr>tr_msg_tail := alist_set (cb_index m) e' (tr_msg_tail r), tr_buffered := (tr_buffered r)[q := xs]\<rparr>"
        unfolding rbind_Inr_iff by (auto split: if_splits)
      have "entry_ok cr E n (cb_index m) e' \<and> te_message e' = te_message e"
        using te_echoed_ok [OF tr_base_entry [OF b e(1)] q _ True f] rest_ok(1) Cons by simp
      with handling_put [OF h e(1)] e(2) have "handling D cr E n ms m j (r\<lparr>tr_msg_tail := alist_set (cb_index m) e' (tr_msg_tail r)\<rparr>)"
        by simp
      from handling_buffered [OF this, of xs q] rest_ok Cons show ?thesis by (simp add: r'')
    qed
  qed
qed

lemma echo_bytes_of:
  "cb_message_bytes (echo_of cr m) =
   (if cb_size m < HashThreshold then cb_message_bytes m else le64 (cb_index m) @ cb_hash cr m)"
  by (simp add: echo_of_def cb_message_bytes_def)

lemma handling_send:
  assumes "handling D cr E n ms m j r" "j < n"
  shows "handling D cr E n ms m (Suc j)
    (r\<lparr>tr_echoes_out := (tr_echoes_out r)[j := tr_echoes_out r ! j @ [cb_message_bytes (echo_of cr m)]]\<rparr>)"
proof -
  let ?r = "r\<lparr>tr_echoes_out := (tr_echoes_out r)[j := tr_echoes_out r ! j @ [cb_message_bytes (echo_of cr m)]]\<rparr>"
  have b: "tr_base D cr E n (ms @ [m]) r" and len: "length (tr_echoes_out r) = n"
    using assms(1) by (simp_all add: handling_def tr_parts)
  have "tr_base D cr E n (ms @ [m]) ?r"
    by (rule tr_base_frame [OF b]) (use b in \<open>simp_all add: tr_parts inbox_ok_def\<close>)
  moreover have "tr_echoes_out ?r ! i = echoes_for cr (if i < Suc j then ms @ [m] else ms)" if "i < n" for i
    using assms that len by (auto simp: handling_def echoes_for_def nth_upd less_Suc_eq)
  ultimately show ?thesis using assms(1) by (simp add: handling_def)
qed

lemma tr_send_echo_ok:
  assumes h: "handling D cr E n ms m j r" and j: "j < n"
  shows "always (handling D cr E n ms m (Suc j)) (tr_send_echo cr (cb_index m) j r)"
proof (rule alwaysI)
  fix r' assume r': "tr_send_echo cr (cb_index m) j r = Inr r'"
  obtain e where e: "map_of (tr_msg_tail r) (cb_index m) = Some e" "te_message e = m" using h by (auto simp: handling_def)
  have b: "tr_base D cr E n (ms @ [m]) r" using h by (simp add: handling_def)
  then have len: "j < length (tr_echoes_out r)" using j by (simp add: tr_parts)
  have ok: "entry_ok cr E n (cb_index m) e" "hash_ok cr e" using tr_base_entry [OF b e(1)] by (simp_all add: entry_ok_def)
  let ?e = "e\<lparr>te_hash := Some (cb_hash cr m)\<rparr>"
  have h': "handling D cr E n ms m j (r\<lparr>tr_msg_tail := alist_set (cb_index m) ?e (tr_msg_tail r)\<rparr>)"
    using handling_put [OF h e(1), of ?e] entry_ok_hash [OF ok(1)] e(2) by simp
  show "handling D cr E n ms m (Suc j) r'"
  proof (cases "cb_size m < HashThreshold")
    case True
    with r' e len handling_send [OF h j] show ?thesis by (simp add: tr_send_echo_def echo_bytes_of)
  next
    case False
    with r' e len have "r' = r\<lparr>tr_msg_tail := alist_set (cb_index m) ?e (tr_msg_tail r),
      tr_echoes_out := (tr_echoes_out r)[j := tr_echoes_out r ! j @ [le64 (cb_index m) @ cb_hash cr m]]\<rparr>"
      by (simp add: tr_send_echo_def te_compute_hash_ok [OF ok(2)])
    with handling_send [OF h' j] False show ?thesis by (simp add: echo_bytes_of)
  qed
qed

lemma rfold_upt_always:
  assumes "P a s" "a \<le> b" "\<And>i s. a \<le> i \<Longrightarrow> i < b \<Longrightarrow> P i s \<Longrightarrow> always (P (Suc i)) (f i s)"
  shows "always (P b) (rfold f [a ..< b] s)"
  using assms
proof (induction "b - a" arbitrary: a s)
  case (Suc d)
  then have "[a ..< b] = a # [Suc a ..< b]" by (simp add: upt_conv_Cons)
  moreover have "always (P (Suc a)) (f a s)" using Suc.prems Suc.hyps(2) by simp
  moreover have "always (P b) (rfold f [Suc a ..< b] t)" if "P (Suc a) t" for t
    using Suc.hyps Suc.prems(3) that by (intro Suc.hyps(1)) simp_all
  ultimately show ?case by (simp add: always_bind)
qed simp

lemma tr_handle_message_ok:
  assumes inv: "tr_inv D cr E n ms r"
  shows "always (\<lambda>r'. \<exists>xs. tr_inv D cr E n (ms @ xs) r') (tr_handle_message cr m r)"
proof (rule alwaysI)
  fix r' assume r': "tr_handle_message cr m r = Inr r'"
  let ?i = "cb_index m"
  have b: "tr_base D cr E n ms r" and out: "\<forall>out \<in> set (tr_echoes_out r). out = echoes_for cr ms"
    using inv by (simp_all add: tr_inv_def)
  have n: "length (tr_echoes_in r) = n" "length (tr_echoes_out r) = n" "n < 18446744073709551616"
    using b by (simp_all add: tr_parts)
  show "\<exists>xs. tr_inv D cr E n (ms @ xs) r'"
  proof (cases "tr_msg_tail r \<noteq> [] \<and> ?i \<le> fst (last (tr_msg_tail r))")
    case True
    with r' have "r' = r" by (auto simp: tr_handle_message_def Let_def split: if_splits)
    with inv have "tr_inv D cr E n (ms @ []) r'" by simp
    then show ?thesis by (rule exI)
  next
    case False
    with r' obtain e r1 where fresh: "\<not> tr_already ?i r" and e: "te_new m (of_nat n) = Inr e"
      and r1: "rfold (tr_replay_echo cr ?i) [0 ..< length (tr_buffered r)] (tr_insert ?i e r) = Inr r1"
      and sent: "rfold (tr_send_echo cr ?i) [0 ..< length (tr_echoes_out r1)] r1 = Inr r'"
      by (auto simp: tr_handle_message_def Let_def rbind_Inr_iff n split: if_splits)
    have "handling D cr E n ms m 0 (tr_insert ?i e r)"
      using tr_insert_base [OF b fresh_indexI [OF b fresh False]] te_new_ok [OF e n(3)] out n(2)
      by (simp add: handling_def) (simp add: tr_insert_def Let_def)
    then have "always (handling D cr E n ms m 0) (rfold (tr_replay_echo cr ?i) [0 ..< length (tr_buffered r)] (tr_insert ?i e r))"
      using b by (intro always_rfold tr_replay_echo_ok) (simp_all add: tr_parts)
    with r1 have h: "handling D cr E n ms m 0 r1" by (simp add: alwaysD)
    then have "length (tr_echoes_out r1) = n" by (simp add: handling_def tr_parts)
    then have "always (handling D cr E n ms m n) (rfold (tr_send_echo cr ?i) [0 ..< length (tr_echoes_out r1)] r1)"
      using rfold_upt_always [of "handling D cr E n ms m" 0 r1 n, OF h] tr_send_echo_ok by simp
    with sent have "handling D cr E n ms m n r'" by (simp add: alwaysD)
    then have "tr_inv D cr E n (ms @ [m]) r'" by (auto simp: handling_def tr_inv_def in_set_conv_nth tr_parts)
    then show ?thesis by (rule exI)
  qed
qed

lemma tr_inv_frame:
  assumes "tr_inv D cr E n ms r" "tr_msg_tail r' = tr_msg_tail r" "tr_latest r' = tr_latest r" "tr_tail r' = tr_tail r"
    and "tr_echoes_out r' = tr_echoes_out r" "tr_shape_ok D n r'" "inbox_ok E n r'" "checks_ok n r'"
  shows "tr_inv D cr E n ms r'"
  using assms tr_base_frame [of D cr E n ms r r'] by (simp add: tr_inv_def)

lemma tr_inv_parts:
  assumes "tr_inv D cr E n ms r"
  shows "tr_shape_ok D n r" "inbox_ok E n r" "checks_ok n r" "tr_base D cr E n ms r" "sorted_keys (tr_msg_tail r)"
  using assms by (simp_all add: tr_inv_def tr_base_def tail_ok_def)

lemma tr_inv_put:
  assumes "tr_inv D cr E n ms r" "map_of (tr_msg_tail r) k = Some e" "entry_ok cr E n k e'" "te_message e' = te_message e"
  shows "tr_inv D cr E n ms (r\<lparr>tr_msg_tail := alist_set k e' (tr_msg_tail r)\<rparr>)"
  using assms tr_base_put [of D cr E n ms r k e e'] by (simp add: tr_inv_def)

lemma tr_inv_entry: "tr_inv D cr E n ms r \<Longrightarrow> map_of (tr_msg_tail r) k = Some e \<Longrightarrow> entry_ok cr E n k e"
  by (auto simp: tr_inv_def tr_base_entry)

lemma tr_poll_message_ok:
  assumes "tr_inv D cr E n ms r"
  shows "always (\<lambda>r'. \<exists>xs. tr_inv D cr E n (ms @ xs) r') (tr_poll_message cr r)"
proof (cases "tr_messages_in r")
  case Nil
  have "\<exists>xs. tr_inv D cr E n (ms @ xs) r" by (rule exI [of _ "[]"]) (simp add: assms)
  with Nil show ?thesis by (simp add: tr_poll_message_def)
next
  case (Cons bs rest)
  have "tr_inv D cr E n ms (r\<lparr>tr_messages_in := rest\<rparr>)"
    by (rule tr_inv_frame [OF assms]) (use tr_inv_parts [OF assms] in \<open>simp_all add: tr_parts inbox_ok_def\<close>)
  from tr_handle_message_ok [OF this] Cons show ?thesis
    by (auto simp: tr_poll_message_def tr_take_def intro!: always_rbind split: sum.split)
qed

section \<open>Echoes\<close>

lemma tr_inv_buffered:
  assumes "tr_inv D cr E n ms r" "set xs \<subseteq> E q" "length xs \<le> unat (tr_tail r)"
  shows "tr_inv D cr E n ms (r\<lparr>tr_buffered := (tr_buffered r)[q := xs]\<rparr>)"
  using assms tr_base_buffered [of D cr E n ms r xs q] by (simp add: tr_inv_def)

lemma tr_handle_echo_ok:
  assumes inv: "tr_inv D cr E n ms r" and q: "q < n" and x: "x \<in> E q"
  shows "always (tr_inv D cr E n ms) (tr_handle_echo cr x q r)"
proof (rule alwaysI)
  fix r' assume r': "tr_handle_echo cr x q r = Inr r'"
  show "tr_inv D cr E n ms r'"
  proof (cases "tr_useless_echo (cb_index x) r")
    case True
    with r' inv show ?thesis by (simp add: tr_handle_echo_def)
  next
    case False
    note useful = this
    show ?thesis
    proof (cases "map_of (tr_msg_tail r) (cb_index x)")
      case None
      have len: "q < length (tr_buffered r)" and old: "set (tr_buffered r ! q) \<subseteq> E q" "length (tr_buffered r ! q) \<le> unat (tr_tail r)"
        using tr_inv_parts [OF inv] q by (simp_all add: tr_shape_ok_def inbox_ok_def)
      have "r' = r\<lparr>tr_buffered := (tr_buffered r)[q := push_bounded (tr_tail r) x (tr_buffered r ! q)]\<rparr>"
        using r' useful None len by (auto simp: tr_handle_echo_def tr_buffer_echo_def Let_def split: if_splits)
      moreover have "set (push_bounded (tr_tail r) x (tr_buffered r ! q)) \<subseteq> E q"
        using set_push_bounded [of "tr_tail r" x "tr_buffered r ! q"] x old(1) by blast
      ultimately show ?thesis using tr_inv_buffered [OF inv _ length_push_bounded [OF old(2)]] by simp
    next
      case (Some e)
      then have "rbind (te_echoed cr q x e) (\<lambda>(e', fresh).
          if \<not> fresh then Inl (Logic_error ''Unimplemented (Byzantine behavior, replica Echoed twice)!'')
          else Inr (r\<lparr>tr_msg_tail := alist_set (cb_index x) e' (tr_msg_tail r)\<rparr>)) = Inr r'"
        using r' useful by (simp add: tr_handle_echo_def Let_def)
      then obtain e' where f: "te_echoed cr q x e = Inr (e', True)"
        and r'': "r' = r\<lparr>tr_msg_tail := alist_set (cb_index x) e' (tr_msg_tail r)\<rparr>"
        unfolding rbind_Inr_iff by (auto split: if_splits)
      show ?thesis using tr_inv_put [OF inv Some] te_echoed_ok [OF tr_inv_entry [OF inv Some] q x refl f] r'' by simp
    qed
  qed
qed

lemma tr_inv_echoes_in:
  assumes "tr_inv D cr E n ms r" "q < n \<Longrightarrow> parsed xs \<subseteq> E q"
  shows "tr_inv D cr E n ms (r\<lparr>tr_echoes_in := (tr_echoes_in r)[q := xs]\<rparr>)"
proof (rule tr_inv_frame [OF assms(1)])
  show "inbox_ok E n (r\<lparr>tr_echoes_in := (tr_echoes_in r)[q := xs]\<rparr>)"
    using tr_inv_parts(2) [OF assms(1)] assms(2) by (auto simp: inbox_ok_def nth_upd)
qed (use tr_inv_parts [OF assms(1)] in \<open>simp_all add: tr_parts\<close>)

lemma tr_poll_echo_ok:
  assumes inv: "tr_inv D cr E n ms r" and q: "q < n"
  shows "always (tr_inv D cr E n ms) (tr_poll_echo cr q r)"
proof -
  have len: "q < length (tr_echoes_in r)" and old: "parsed (tr_echoes_in r ! q) \<subseteq> E q"
    using tr_inv_parts [OF inv] q by (simp_all add: tr_shape_ok_def inbox_ok_def)
  show ?thesis
  proof (cases "tr_echoes_in r ! q")
    case Nil
    with len inv show ?thesis by (simp add: tr_poll_echo_def)
  next
    case (Cons bs rest)
    let ?r = "r\<lparr>tr_echoes_in := (tr_echoes_in r)[q := rest]\<rparr>"
    have r1: "tr_inv D cr E n ms ?r" using old Cons by (intro tr_inv_echoes_in [OF inv]) (auto simp: parsed_Cons)
    have "always (tr_inv D cr E n ms) (case v of Inl _ \<Rightarrow> Inr ?r | Inr echo \<Rightarrow> tr_handle_echo cr echo q ?r)"
      if "cb_try_from bs = Inr v" for v
    proof (cases v)
      case (Inr x)
      with that old Cons have "x \<in> E q" by (auto simp: parsed_def)
      with Inr show ?thesis using tr_handle_echo_ok [OF r1 q] by simp
    qed (simp add: r1)
    with Cons len show ?thesis by (simp add: tr_poll_echo_def tr_take_def Let_def always_rbind)
  qed
qed

lemma tr_poll_echoes_ok:
  assumes "tr_inv D cr E n ms r"
  shows "always (tr_inv D cr E n ms) (tr_poll_echoes cr r)"
  unfolding tr_poll_echoes_def
  using assms tr_inv_parts(1) [OF assms] by (intro always_rfold tr_poll_echo_ok) (simp_all add: tr_shape_ok_def)

section \<open>The slow path\<close>

lemma tr_handle_signature_ok:
  assumes inv: "tr_inv D cr E n ms r"
  shows "always (tr_inv D cr E n ms) (tr_handle_signature cr s r)"
proof (cases "map_of (tr_msg_tail r) (sm_index s)")
  case None
  with inv show ?thesis by (simp add: tr_handle_signature_def)
next
  case (Some e)
  let ?i = "sm_index s" let ?e = "fst (te_set_signature s e)"
  let ?e1 = "?e\<lparr>te_hash := Some (cb_hash cr (te_message ?e))\<rparr>"
  have ok: "entry_ok cr E n ?i ?e" by (rule entry_ok_signature [OF tr_inv_entry [OF inv Some]])
  have put: "tr_inv D cr E n ms (r\<lparr>tr_msg_tail := alist_set ?i ?e1 (tr_msg_tail r)\<rparr>)"
    by (rule tr_inv_put [OF inv Some entry_ok_hash [OF ok]]) (simp add: te_set_signature_def)
  have "tr_inv D cr E n ms (r\<lparr>tr_msg_tail := alist_set ?i ?e1 (tr_msg_tail r),
      tr_recv_checks := push_bounded (tr_tail r) t (tr_recv_checks r)\<rparr>)" for t
    by (rule tr_inv_frame [OF put]) (use tr_inv_parts [OF inv] in \<open>simp_all add: tr_parts inbox_ok_def length_push_bounded\<close>)
  moreover have "te_compute_hash cr ?e = (cb_hash cr (te_message ?e), ?e1)"
    using ok by (intro te_compute_hash_ok) (simp add: entry_ok_def)
  ultimately show ?thesis using Some by (simp add: tr_handle_signature_def Let_def always_rbind)
qed

lemma tr_poll_signature_ok:
  assumes "tr_inv D cr E n ms r"
  shows "always (tr_inv D cr E n ms) (tr_poll_signature cr r)"
proof (cases "tr_signatures_in r")
  case Nil
  with assms show ?thesis by (simp add: tr_poll_signature_def)
next
  case (Cons bs rest)
  have "tr_inv D cr E n ms (r\<lparr>tr_signatures_in := rest\<rparr>)"
    by (rule tr_inv_frame [OF assms]) (use tr_inv_parts [OF assms] in \<open>simp_all add: tr_parts inbox_ok_def\<close>)
  from tr_handle_signature_ok [OF this] Cons show ?thesis
    by (auto simp: tr_poll_signature_def tr_take_def intro!: always_rbind split: sum.split)
qed

text \<open>The fields that the rest of the slow path may set freely.\<close>

lemma tr_inv_writer: "tr_inv D cr E n ms r \<Longrightarrow> tr_inv D cr E n ms (r\<lparr>tr_writer := w\<rparr>)"
  by (rule tr_inv_frame) (use tr_inv_parts in \<open>auto simp: tr_parts inbox_ok_def\<close>)

lemma tr_inv_writes: "tr_inv D cr E n ms r \<Longrightarrow> tr_inv D cr E n ms (r\<lparr>tr_writes := w\<rparr>)"
  by (rule tr_inv_frame) (use tr_inv_parts in \<open>auto simp: tr_parts inbox_ok_def\<close>)

lemma tr_inv_reads: "tr_inv D cr E n ms r \<Longrightarrow> tr_inv D cr E n ms (r\<lparr>tr_reads := w\<rparr>)"
  by (rule tr_inv_frame) (use tr_inv_parts in \<open>auto simp: tr_parts inbox_ok_def\<close>)

lemma tr_inv_verified: "tr_inv D cr E n ms r \<Longrightarrow> tr_inv D cr E n ms (r\<lparr>tr_verified := w\<rparr>)"
  by (rule tr_inv_frame) (use tr_inv_parts in \<open>auto simp: tr_parts inbox_ok_def\<close>)

lemma tr_inv_readers: "tr_inv D cr E n ms r \<Longrightarrow> length w = n \<Longrightarrow> tr_inv D cr E n ms (r\<lparr>tr_readers := w\<rparr>)"
  by (rule tr_inv_frame) (use tr_inv_parts in \<open>auto simp: tr_parts inbox_ok_def\<close>)

lemma tr_inv_toggle: "tr_inv D cr E n ms r \<Longrightarrow> tr_inv D cr E n ms (tr_toggle_slow_path b r)"
  by (rule tr_inv_frame) (use tr_inv_parts in \<open>auto simp: tr_parts inbox_ok_def tr_toggle_slow_path_def\<close>)

lemma tr_inv_messages: "tr_inv D cr E n ms r \<Longrightarrow> tr_inv D cr E n ms (r\<lparr>tr_messages_in := w\<rparr>)"
  by (rule tr_inv_frame) (use tr_inv_parts in \<open>auto simp: tr_parts inbox_ok_def\<close>)

lemma tr_inv_signatures: "tr_inv D cr E n ms r \<Longrightarrow> tr_inv D cr E n ms (r\<lparr>tr_signatures_in := w\<rparr>)"
  by (rule tr_inv_frame) (use tr_inv_parts in \<open>auto simp: tr_parts inbox_ok_def\<close>)

lemmas tr_inv_sets = tr_inv_toggle tr_inv_messages tr_inv_signatures tr_inv_writer tr_inv_writes tr_inv_reads tr_inv_verified tr_inv_readers

lemma tr_write_register_ok:
  assumes inv: "tr_inv D cr E n ms r" and e: "map_of (tr_msg_tail r) k = Some e"
  shows "always (tr_inv D cr E n ms) (tr_write_register cr xxh now k e r)"
proof (rule alwaysI)
  fix r' assume r': "tr_write_register cr xxh now k e r = Inr r'"
  let ?e = "e\<lparr>te_hash := Some (cb_hash cr (te_message e))\<rparr>"
  have ok: "entry_ok cr E n k e" by (rule tr_inv_entry [OF inv e])
  then have h: "te_compute_hash cr e = (cb_hash cr (te_message e), ?e)" by (intro te_compute_hash_ok) (simp add: entry_ok_def)
  have put: "tr_inv D cr E n ms (r\<lparr>tr_msg_tail := alist_set k ?e (tr_msg_tail r)\<rparr>)"
    by (rule tr_inv_put [OF inv e entry_ok_hash [OF ok]]) simp
  obtain w ws where "r' = r\<lparr>tr_msg_tail := alist_set k ?e (tr_msg_tail r), tr_writer := w, tr_writes := ws\<rparr>"
    using r' by (auto simp: tr_write_register_def Let_def h rbind_Inr_iff split: if_splits option.splits)
  with tr_inv_writes [OF tr_inv_writer [OF put, of w], of ws] show "tr_inv D cr E n ms r'" by simp
qed

lemma tr_verified_one_ok:
  assumes inv: "tr_inv D cr E n ms r"
  shows "always (tr_inv D cr E n ms) (tr_verified_one cr xxh now v r)"
proof -
  obtain k ok origin where v: "v = (k, ok, origin)" by (cases v) auto
  show ?thesis
  proof (cases "map_of (tr_msg_tail r) k")
    case None
    with inv v show ?thesis by (simp add: tr_verified_one_def)
  next
    case (Some e)
    have put: "tr_inv D cr E n ms (r\<lparr>tr_msg_tail := alist_set k (te_checked_a_receiver e) (tr_msg_tail r)\<rparr>)"
      by (rule tr_inv_put [OF inv Some entry_ok_checked [OF tr_inv_entry [OF inv Some]]]) (simp add: te_checked_a_receiver_def)
    with Some v tr_write_register_ok [OF inv Some] show ?thesis
      by (simp add: tr_verified_one_def split: signature_origin.split)
  qed
qed

lemma tr_poll_verifications_ok:
  "tr_inv D cr E n ms r \<Longrightarrow> always (tr_inv D cr E n ms) (tr_poll_verifications cr xxh now r)"
  unfolding tr_poll_verifications_def by (intro always_rfold tr_verified_one_ok tr_inv_verified)

lemma tr_start_read_ok:
  assumes "tr_inv D cr E n ms r"
  shows "always (tr_inv D cr E n ms) (tr_start_read now i k q r)"
proof (rule alwaysI)
  fix r' assume "tr_start_read now i k q r = Inr r'"
  then obtain rd rs where "r' = r\<lparr>tr_readers := (tr_readers r)[q := rd], tr_reads := rs\<rparr>"
    by (auto simp: tr_start_read_def rbind_Inr_iff Let_def)
  with tr_inv_reads [OF tr_inv_readers [OF assms, of "(tr_readers r)[q := rd]"], of rs] tr_inv_parts(1) [OF assms]
  show "tr_inv D cr E n ms r'" by (simp add: tr_shape_ok_def)
qed

lemma tr_poll_write_ok:
  assumes inv: "tr_inv D cr E n ms r"
  shows "always (tr_inv D cr E n ms) (tr_poll_write now wr r)"
proof -
  obtain i k where wr: "wr = (i, k)" by (cases wr)
  have "always (tr_inv D cr E n ms) (rfold (tr_start_read now i k) qs
      (r\<lparr>tr_writer := w, tr_writes := ws, tr_reads := rs\<rparr>))" for w ws rs qs
    by (intro always_rfold tr_start_read_ok tr_inv_reads tr_inv_writes tr_inv_writer inv)
  moreover have "tr_inv D cr E n ms (r\<lparr>tr_writer := w, tr_writes := ws\<rparr>)" "tr_inv D cr E n ms (r\<lparr>tr_writer := w\<rparr>)" for w ws
    by (intro tr_inv_writes tr_inv_writer inv)+
  ultimately show ?thesis by (auto simp: tr_poll_write_def wr Let_def intro!: always_rbind)
qed

lemma tr_poll_writes_ok:
  "tr_inv D cr E n ms r \<Longrightarrow> always (tr_inv D cr E n ms) (tr_poll_writes now r)"
  unfolding tr_poll_writes_def by (intro always_rfold tr_poll_write_ok)

lemma tr_check_register_ok:
  assumes inv: "tr_inv D cr E n ms r" and e: "map_of (tr_msg_tail r) k = Some e"
  shows "always (tr_inv D cr E n ms) (tr_check_register k q value inc e r)"
proof (rule alwaysI)
  fix r' assume r': "tr_check_register k q value inc e r = Inr r'"
  have put: "tr_inv D cr E n ms (r\<lparr>tr_msg_tail := alist_set k (te_checked_a_receiver e) (tr_msg_tail r)\<rparr>)"
    by (rule tr_inv_put [OF inv e entry_ok_checked [OF tr_inv_entry [OF inv e]]]) (simp add: te_checked_a_receiver_def)
  have "tr_inv D cr E n ms (r\<lparr>tr_read_checks := (tr_read_checks r)[q := push_bounded (tr_tail r) t (tr_read_checks r ! q)]\<rparr>)"
    if "q < length (tr_read_checks r)" for t
  proof (rule tr_inv_frame [OF inv])
    have "length (push_bounded (tr_tail r) t (tr_read_checks r ! q)) \<le> unat (tr_tail r)"
      using tr_inv_parts [OF inv] that by (intro length_push_bounded) (simp add: tr_shape_ok_def checks_ok_def)
    then show "checks_ok n (r\<lparr>tr_read_checks := (tr_read_checks r)[q := push_bounded (tr_tail r) t (tr_read_checks r ! q)]\<rparr>)"
      using tr_inv_parts(3) [OF inv] by (simp add: checks_ok_def nth_upd)
  qed (use tr_inv_parts [OF inv] in \<open>simp_all add: tr_parts inbox_ok_def\<close>)
  with put r' show "tr_inv D cr E n ms r'"
    by (auto simp: tr_check_register_def Let_def rbind_Inr_iff uat_Inr_iff split: if_splits)
qed

lemma tr_poll_read_ok:
  assumes inv: "tr_inv D cr E n ms (snd s)"
  shows "always (\<lambda>s'. tr_inv D cr E n ms (snd s')) (tr_poll_read freed k handles q s)"
proof -
  obtain c r where s: "s = (c, r)" by (cases s)
  with inv have r: "tr_inv D cr E n ms r" by simp
  have "tr_inv D cr E n ms (r\<lparr>tr_readers := (tr_readers r)[q := rd]\<rparr>)" for rd
    using tr_inv_readers [OF r, of "(tr_readers r)[q := rd]"] tr_inv_parts(1) [OF r] by (simp add: tr_shape_ok_def)
  note r1 = this
  have "tr_inv D cr E n ms x" if "map_of (tr_msg_tail r) k = Some e"
    "tr_check_register k q v inc e (r\<lparr>tr_readers := (tr_readers r)[q := rd]\<rparr>) = Inr x" for v inc e rd x
    using alwaysD [OF tr_check_register_ok [OF r1] that(2)] that(1) by simp
  note check = this
  show ?thesis
    unfolding s tr_poll_read_def by (auto simp: Let_def r r1 intro!: always_rbind split: option.split prod.split) (rule check)
qed

lemma tr_poll_entry_ok:
  assumes "tr_inv D cr E n ms r"
  shows "always (tr_inv D cr E n ms) (tr_poll_entry freed entry r)"
proof -
  obtain k handles where e: "entry = (k, handles)" by (cases entry)
  have "always (\<lambda>s. tr_inv D cr E n ms (snd s)) (rfold (tr_poll_read freed k handles) [0 ..< length (tr_readers r)] (0, r))"
    by (intro always_rfold tr_poll_read_ok) (simp_all add: assms)
  then show ?thesis
    unfolding tr_poll_entry_def e by (auto intro!: always_bind tr_inv_reads)
qed

lemma tr_poll_reads_ok:
  "tr_inv D cr E n ms r \<Longrightarrow> always (tr_inv D cr E n ms) (tr_poll_reads freed r)"
  unfolding tr_poll_reads_def by (intro always_rfold tr_poll_entry_ok)

lemma tr_slow_path_ok:
  assumes "tr_inv D cr E n ms r"
  shows "always (tr_inv D cr E n ms) (tr_slow_path cr xxh freed now r)"
  unfolding tr_slow_path_def
proof (rule always_bind [OF tr_poll_signature_ok [OF assms]], rule always_bind [OF tr_poll_verifications_ok], assumption,
    rule always_rbind, rule always_bind [OF tr_poll_writes_ok], erule tr_inv_writer)
  fix r3 assume r3: "tr_inv D cr E n ms r3"
  show "always (tr_inv D cr E n ms) (rbind (rmap (rd_tick xxh now) (tr_readers r3)) (\<lambda>rds. tr_poll_reads freed (r3\<lparr>tr_readers := rds\<rparr>)))"
    using tr_inv_parts(1) [OF r3]
    by (intro always_rbind tr_poll_reads_ok tr_inv_readers [OF r3]) (simp add: tr_shape_ok_def rmap_length)
qed

lemma tr_run_recv_check_ok:
  assumes "tr_inv D cr E n ms r"
  shows "always (tr_inv D cr E n ms) (tr_run_recv_check cr i r)"
proof -
  have "length (remove_nth i (tr_recv_checks r)) \<le> length (tr_recv_checks r)" by (simp add: remove_nth_def)
  then have "tr_inv D cr E n ms (r\<lparr>tr_recv_checks := remove_nth i (tr_recv_checks r), tr_verified := v\<rparr>)" for v
    by (intro tr_inv_frame [OF assms]) (use tr_inv_parts [OF assms] in \<open>auto simp: tr_parts inbox_ok_def\<close>)
  with assms show ?thesis by (auto simp: tr_run_recv_check_def intro!: always_rbind split: prod.split)
qed

lemma tr_run_read_check_ok:
  assumes "tr_inv D cr E n ms r"
  shows "always (tr_inv D cr E n ms) (tr_run_read_check cr q i r)"
proof -
  let ?q = "remove_nth i (tr_read_checks r ! q)"
  have l: "length ?q \<le> length (tr_read_checks r ! q)" by (simp add: remove_nth_def)
  have "tr_inv D cr E n ms (r\<lparr>tr_read_checks := (tr_read_checks r)[q := ?q], tr_verified := v\<rparr>)" for v
  proof (rule tr_inv_frame [OF assms])
    show "checks_ok n (r\<lparr>tr_read_checks := (tr_read_checks r)[q := ?q], tr_verified := v\<rparr>)"
      using tr_inv_parts [OF assms] l by (auto simp: tr_shape_ok_def checks_ok_def nth_upd)
  qed (use tr_inv_parts [OF assms] in \<open>simp_all add: tr_parts inbox_ok_def\<close>)
  with assms show ?thesis by (auto simp: tr_run_read_check_def intro!: always_rbind split: prod.split)
qed

section \<open>Tick and poll\<close>

lemma tr_tick_ok:
  assumes "tr_inv D cr E n ms r"
  shows "always (\<lambda>r'. \<exists>xs. tr_inv D cr E n (ms @ xs) r') (tr_tick cr xxh freed now r)"
  unfolding tr_tick_def
proof (rule always_bind [OF tr_poll_message_ok [OF assms]])
  fix r1 assume "\<exists>xs. tr_inv D cr E n (ms @ xs) r1"
  then obtain xs where r1: "tr_inv D cr E n (ms @ xs) r1" by blast
  have "always (tr_inv D cr E n (ms @ xs)) (rbind (tr_poll_echoes cr r1)
      (\<lambda>r2. if \<not> tr_slow_path_on r2 then Inr r2 else tr_slow_path cr xxh freed now r2))"
    by (rule always_bind [OF tr_poll_echoes_ok [OF r1]]) (simp add: tr_slow_path_ok)
  then show "always (\<lambda>r'. \<exists>xs. tr_inv D cr E n (ms @ xs) r') (if tr_msg_tail r1 = [] then Inr r1
      else rbind (tr_poll_echoes cr r1) (\<lambda>r2. if \<not> tr_slow_path_on r2 then Inr r2 else tr_slow_path cr xxh freed now r2))"
    using r1 by (auto intro: always_mono)
qed

text \<open>A message that is delivered because of the echoes was echoed, and the same, by every other receiver.\<close>

definition te_fast :: "cb_entry \<Rightarrow> bool" where
  "te_fast e \<longleftrightarrow> bitset_full (te_echoes e) \<and> te_echoes_match e"

lemma entry_fast:
  assumes "entry_ok cr E n k e" "te_fast e" "q < n"
  shows "\<exists>x \<in> E q. cb_index x = k \<and> echo_matches cr (te_message e) x"
proof -
  have "unat (of_nat n :: u64) = n" using assms(1) by (intro unat_u64_of_nat) (simp add: entry_ok_def MaxCapacity_def)
  then have "bitset_elems (te_echoes e) = {..<n}"
    using bitset_full_iff [of "te_echoes e"] assms(1,2) by (simp add: entry_ok_def te_fast_def)
  with assms show ?thesis by (simp add: entry_ok_def echoes_ok_def te_fast_def)
qed

lemma tr_poll_ok:
  assumes inv: "tr_inv D cr E n ms r" and p: "tr_poll r = (Some m, r')"
  shows "tr_inv (insert (cb_index m) D) cr E n ms r' \<and> m \<in> set ms \<and> tr_latest r' = Some (cb_index m) \<and>
    (\<forall>d \<in> D. d < cb_index m) \<and>
    (\<exists>e. tr_msg_tail r = (cb_index m, e) # tr_msg_tail r' \<and> te_message e = m \<and> te_pollable e \<and> entry_ok cr E n (cb_index m) e)"
proof -
  obtain k e rest where t: "tr_msg_tail r = (k, e) # rest" "te_pollable e" "m = te_message e"
    and r': "r' = r\<lparr>tr_latest := Some k, tr_msg_tail := rest\<rparr>"
    using p by (auto simp: tr_poll_def split: list.splits if_splits)
  have tail: "tail_ok cr E n r" and acc: "accepted_ok ms r" using inv by (simp_all add: tr_inv_def tr_base_def)
  have ok: "entry_ok cr E n k e" and k: "cb_index m = k" and above: "\<forall>x \<in> fst ` set rest. k < x"
    using tail t(1,3) by (auto simp: tail_ok_def entry_ok_def)
  have nw: "newest r' = newest r" by (simp add: newest_def r' t(1))
  have "tail_ok cr E n r'" using tail above unfolding tail_ok_def r' t(1) by simp
  moreover have "te_message ` snd ` set (tr_msg_tail r') \<subseteq> set ms" "m \<in> set ms"
    using acc unfolding accepted_ok_def r' t(1) by (auto simp: t(3))
  moreover have "accepted_ok ms r'" using acc calculation(2) unfolding accepted_ok_def nw by simp
  moreover have below: "\<forall>l. tr_latest r = Some l \<longrightarrow> l < cb_index m" using tail by (simp add: tail_ok_def t(1) k)
  moreover have old: "\<forall>d \<in> D. \<exists>l. tr_latest r = Some l \<and> d \<le> l" using inv by (simp add: tr_inv_def tr_base_def tr_shape_ok_def)
  then have D: "\<forall>d \<in> D. d < cb_index m" using below by force
  moreover have "tr_shape_ok (insert (cb_index m) D) n r'" "inbox_ok E n r'" "checks_ok n r'"
    using inv D by (auto simp: r' k tr_inv_def tr_base_def tr_shape_ok_def inbox_ok_def checks_ok_def order.strict_implies_order)
  moreover have "\<forall>out \<in> set (tr_echoes_out r'). out = echoes_for cr ms" using inv by (simp add: r' tr_inv_def)
  ultimately show ?thesis using ok t k by (simp add: tr_inv_def tr_base_def r')
qed

end
