(* ===== verification/Cb_System.thy ===== *)
theory Cb_System
  imports Cb_Safety
begin

text \<open>
  Receivers of one broadcast that echo to each other. \<open>feeds i q\<close> says which receiver and which of its
  senders is at the other end of the \<open>q\<close>-th echo link of receiver \<open>i\<close>; a link without an entry belongs to a
  process that may send anything. The broadcaster, the clock, the workers, and whatever the registers do
  are free: any bytes may arrive as messages and signatures, and any writer and readers may replace those there are.
\<close>

record cb_node =
  nd_recv :: tcb_receiver
  nd_delivered :: "(cb_message \<times> bool) list"

type_synonym cb_nodes = "nat \<Rightarrow> cb_node"

definition nd_set :: "nat \<Rightarrow> tcb_receiver \<Rightarrow> cb_nodes \<Rightarrow> cb_nodes" where
  "nd_set i r s = s(i := (s i)\<lparr>nd_recv := r\<rparr>)"

definition link_carries :: "(nat \<Rightarrow> nat \<Rightarrow> (nat \<times> nat) option) \<Rightarrow> cb_nodes \<Rightarrow> nat \<Rightarrow> nat \<Rightarrow> bytes \<Rightarrow> bool" where
  "link_carries feeds s i q bs =
     (case feeds i q of None \<Rightarrow> True | Some (j, k) \<Rightarrow> bs \<in> set (tr_echoes_out (nd_recv (s j)) ! k))"

inductive cb_step ::
  "crypto \<Rightarrow> (bytes \<Rightarrow> u64) \<Rightarrow> (nat \<Rightarrow> nat) \<Rightarrow> (nat \<Rightarrow> nat \<Rightarrow> (nat \<times> nat) option) \<Rightarrow> cb_nodes \<Rightarrow> cb_nodes \<Rightarrow> bool"
  for cr xxh freed feeds where
  cb_tick: "tr_tick cr xxh freed now (nd_recv (s i)) = Inr r \<Longrightarrow> cb_step cr xxh freed feeds s (nd_set i r s)"
| cb_poll: "tr_poll (nd_recv (s i)) = (Some m, r) \<Longrightarrow>
    cb_step cr xxh freed feeds s
      (s(i := \<lparr>nd_recv = r, nd_delivered = nd_delivered (s i) @ [(m, te_fast (snd (hd (tr_msg_tail (nd_recv (s i))))))]\<rparr>))"
| cb_toggle: "cb_step cr xxh freed feeds s (nd_set i (tr_toggle_slow_path b (nd_recv (s i))) s)"
| cb_message: "cb_step cr xxh freed feeds s
    (nd_set i ((nd_recv (s i))\<lparr>tr_messages_in := tr_messages_in (nd_recv (s i)) @ [bs]\<rparr>) s)"
| cb_signature: "cb_step cr xxh freed feeds s
    (nd_set i ((nd_recv (s i))\<lparr>tr_signatures_in := tr_signatures_in (nd_recv (s i)) @ [bs]\<rparr>) s)"
| cb_echo: "link_carries feeds s i q bs \<Longrightarrow> cb_step cr xxh freed feeds s
    (nd_set i ((nd_recv (s i))\<lparr>tr_echoes_in := (tr_echoes_in (nd_recv (s i)))[q := tr_echoes_in (nd_recv (s i)) ! q @ [bs]]\<rparr>) s)"
| cb_recv_check: "tr_run_recv_check cr t (nd_recv (s i)) = Inr r \<Longrightarrow> cb_step cr xxh freed feeds s (nd_set i r s)"
| cb_read_check: "tr_run_read_check cr q t (nd_recv (s i)) = Inr r \<Longrightarrow> cb_step cr xxh freed feeds s (nd_set i r s)"
| cb_registers: "length rds = length (tr_readers (nd_recv (s i))) \<Longrightarrow>
    cb_step cr xxh freed feeds s (nd_set i ((nd_recv (s i))\<lparr>tr_writer := w, tr_readers := rds\<rparr>) s)"

inductive_cases cb_stepE: "cb_step cr xxh freed feeds s t"

definition cb_start :: "nat \<Rightarrow> cb_nodes \<Rightarrow> bool" where
  "cb_start n s \<longleftrightarrow> (\<forall>i. nd_delivered (s i) = [] \<and>
     (\<exists>b tail sz w rds. tr_new b tail sz n n w rds = Inr (nd_recv (s i)) \<and> tail \<noteq> 0 \<and> n < 18446744073709551616))"

definition feeds_ok :: "nat \<Rightarrow> (nat \<Rightarrow> nat \<Rightarrow> (nat \<times> nat) option) \<Rightarrow> bool" where
  "feeds_ok n feeds \<longleftrightarrow> (\<forall>i q j k. feeds i q = Some (j, k) \<longrightarrow> k < n)"

text \<open>The echoes a link may carry when receiver \<open>j\<close> has accepted \<open>ms j\<close>.\<close>

definition link_echoes ::
  "crypto \<Rightarrow> (nat \<Rightarrow> nat \<Rightarrow> (nat \<times> nat) option) \<Rightarrow> (nat \<Rightarrow> cb_message list) \<Rightarrow> nat \<Rightarrow> nat \<Rightarrow> cb_message set" where
  "link_echoes cr feeds ms i q = (case feeds i q of None \<Rightarrow> UNIV | Some (j, k) \<Rightarrow> echo_of cr ` set (ms j))"

definition delivered_ok ::
  "crypto \<Rightarrow> (nat \<Rightarrow> cb_message set) \<Rightarrow> nat \<Rightarrow> cb_message list \<Rightarrow> cb_node \<Rightarrow> bool" where
  "delivered_ok cr E n ms nd \<longleftrightarrow>
     fst ` set (nd_delivered nd) \<subseteq> set ms \<and>
     sorted_wrt (<) (map (cb_index \<circ> fst) (nd_delivered nd)) \<and>
     (\<forall>d \<in> set (nd_delivered nd). snd d \<longrightarrow>
        (\<forall>q < n. \<exists>x \<in> E q. cb_index x = cb_index (fst d) \<and> echo_matches cr (fst d) x))"

definition delivered_indices :: "cb_node \<Rightarrow> u64 set" where
  "delivered_indices nd = (\<lambda>d. cb_index (fst d)) ` set (nd_delivered nd)"

definition node_ok ::
  "crypto \<Rightarrow> (nat \<Rightarrow> cb_message set) \<Rightarrow> nat \<Rightarrow> cb_message list \<Rightarrow> cb_node \<Rightarrow> bool" where
  "node_ok cr E n ms nd \<longleftrightarrow>
     tr_inv (delivered_indices nd) cr E n ms (nd_recv nd) \<and> delivered_ok cr E n ms nd"

definition nodes_ok ::
  "crypto \<Rightarrow> (nat \<Rightarrow> nat \<Rightarrow> (nat \<times> nat) option) \<Rightarrow> nat \<Rightarrow> (nat \<Rightarrow> cb_message list) \<Rightarrow> cb_nodes \<Rightarrow> bool" where
  "nodes_ok cr feeds n ms s \<longleftrightarrow> (\<forall>i. node_ok cr (link_echoes cr feeds ms i) n (ms i) (s i))"

lemma tr_inv_mono:
  assumes "tr_inv D cr E n ms r" "\<And>q. E q \<subseteq> F q"
  shows "tr_inv D cr F n ms r"
proof -
  have t: "tail_ok cr E n r" and i: "inbox_ok E n r" using assms(1) by (simp_all add: tr_inv_def tr_base_def)
  have "\<forall>(k, e) \<in> set (tr_msg_tail r). entry_ok cr F n k e"
    using t entry_ok_mono [OF _ assms(2)] unfolding tail_ok_def by fast
  with t have "tail_ok cr F n r" by (simp add: tail_ok_def)
  moreover have "inbox_ok F n r" using i assms(2) unfolding inbox_ok_def by (meson subset_trans)
  ultimately show ?thesis using assms(1) by (simp add: tr_inv_def tr_base_def)
qed

lemma delivered_ok_mono:
  "delivered_ok cr E n ms nd \<Longrightarrow> (\<And>q. E q \<subseteq> F q) \<Longrightarrow> set ms \<subseteq> set ms' \<Longrightarrow> delivered_ok cr F n ms' nd"
  unfolding delivered_ok_def by (meson subset_iff)

lemma node_ok_mono:
  "node_ok cr E n ms nd \<Longrightarrow> (\<And>q. E q \<subseteq> F q) \<Longrightarrow> node_ok cr F n ms nd"
  unfolding node_ok_def using tr_inv_mono delivered_ok_mono by blast

lemma link_echoes_mono:
  "(\<And>j. set (ms j) \<subseteq> set (ms' j)) \<Longrightarrow> link_echoes cr feeds ms i q \<subseteq> link_echoes cr feeds ms' i q"
  by (auto simp: link_echoes_def split: option.splits)

text \<open>One node moves, and may accept more messages.\<close>

lemma nodes_ok_update:
  assumes ok: "nodes_ok cr feeds n ms s" and nd: "node_ok cr (link_echoes cr feeds ms i) n (ms i @ xs) nd"
  shows "nodes_ok cr feeds n (ms(i := ms i @ xs)) (s(i := nd))"
proof -
  let ?ms = "ms(i := ms i @ xs)"
  have grow: "link_echoes cr feeds ms j q \<subseteq> link_echoes cr feeds ?ms j q" for j q
    by (rule link_echoes_mono) simp
  have "node_ok cr (link_echoes cr feeds ?ms j) n (?ms j) ((s(i := nd)) j)" for j
  proof (cases "j = i")
    case True
    with node_ok_mono [OF nd grow] show ?thesis by simp
  next
    case False
    have "node_ok cr (link_echoes cr feeds ms j) n (ms j) (s j)" using ok by (simp add: nodes_ok_def)
    from node_ok_mono [OF this grow] False show ?thesis by simp
  qed
  then show ?thesis unfolding nodes_ok_def by blast
qed

lemma nodes_ok_set:
  assumes ok: "nodes_ok cr feeds n ms s"
    and r: "tr_inv (delivered_indices (s i)) cr (link_echoes cr feeds ms i) n (ms i @ xs) r"
  shows "\<exists>ms. nodes_ok cr feeds n ms (nd_set i r s)"
proof -
  have "delivered_ok cr (link_echoes cr feeds ms i) n (ms i) (s i)" using ok by (simp add: nodes_ok_def node_ok_def)
  then have "delivered_ok cr (link_echoes cr feeds ms i) n (ms i @ xs) ((s i)\<lparr>nd_recv := r\<rparr>)"
    by (auto simp: delivered_ok_def)
  with r have "node_ok cr (link_echoes cr feeds ms i) n (ms i @ xs) ((s i)\<lparr>nd_recv := r\<rparr>)"
    by (simp add: node_ok_def delivered_indices_def)
  from nodes_ok_update [OF ok this] show ?thesis unfolding nd_set_def by blast
qed

lemma nodes_ok_node:
  "nodes_ok cr feeds n ms s \<Longrightarrow>
   tr_inv (delivered_indices (s i)) cr (link_echoes cr feeds ms i) n (ms i) (nd_recv (s i))"
  by (simp add: nodes_ok_def node_ok_def)

lemma nodes_ok_set':
  assumes "nodes_ok cr feeds n ms s"
    and "tr_inv (delivered_indices (s i)) cr (link_echoes cr feeds ms i) n (ms i) r"
  shows "\<exists>ms. nodes_ok cr feeds n ms (nd_set i r s)"
  using nodes_ok_set [OF assms(1), of i "[]" r] assms(2) by simp

lemma link_carries_echo:
  assumes ok: "nodes_ok cr feeds n ms s" and f: "feeds_ok n feeds" and c: "link_carries feeds s i q bs"
  shows "parsed [bs] \<subseteq> link_echoes cr feeds ms i q"
proof (cases "feeds i q")
  case (Some jk)
  then obtain j k where jk: "feeds i q = Some (j, k)" by (cases jk) auto
  have inv: "tr_inv (delivered_indices (s j)) cr (link_echoes cr feeds ms j) n (ms j) (nd_recv (s j))" by (rule nodes_ok_node [OF ok])
  have "k < length (tr_echoes_out (nd_recv (s j)))"
    using f jk tr_inv_parts(1) [OF inv] by (simp add: feeds_ok_def tr_shape_ok_def)
  then have "tr_echoes_out (nd_recv (s j)) ! k \<in> set (tr_echoes_out (nd_recv (s j)))" by simp
  with inv have "tr_echoes_out (nd_recv (s j)) ! k = echoes_for cr (ms j)" unfolding tr_inv_def by blast
  with c jk show ?thesis
    by (auto simp: link_carries_def parsed_def echoes_for_def link_echoes_def cb_try_from_bytes)
qed (simp add: link_echoes_def)

lemma nodes_ok_poll:
  assumes ok: "nodes_ok cr feeds n ms s" and p: "tr_poll (nd_recv (s i)) = (Some m, r)"
  shows "nodes_ok cr feeds n (ms(i := ms i @ []))
    (s(i := \<lparr>nd_recv = r, nd_delivered = nd_delivered (s i) @ [(m, te_fast (snd (hd (tr_msg_tail (nd_recv (s i))))))]\<rparr>))"
proof (rule nodes_ok_update [OF ok])
  let ?E = "link_echoes cr feeds ms i" and ?d = "(m, te_fast (snd (hd (tr_msg_tail (nd_recv (s i))))))"
  let ?nd = "\<lparr>nd_recv = r, nd_delivered = nd_delivered (s i) @ [?d]\<rparr>"
  have inv: "tr_inv (delivered_indices (s i)) cr ?E n (ms i) (nd_recv (s i))" and del: "delivered_ok cr ?E n (ms i) (s i)"
    using ok by (simp_all add: nodes_ok_def node_ok_def)
  have r: "tr_inv (insert (cb_index m) (delivered_indices (s i))) cr ?E n (ms i) r" and m: "m \<in> set (ms i)"
    and new: "\<forall>d \<in> delivered_indices (s i). d < cb_index m"
    using tr_poll_ok [OF inv p] by blast+
  obtain e where e: "tr_msg_tail (nd_recv (s i)) = (cb_index m, e) # tr_msg_tail r" "te_message e = m"
    "entry_ok cr ?E n (cb_index m) e"
    using tr_poll_ok [OF inv p] by blast
  have fast: "\<exists>x \<in> ?E q. cb_index x = cb_index m \<and> echo_matches cr m x" if "snd ?d" "q < n" for q
    using entry_fast [OF e(3) _ that(2)] that(1) e by simp
  have "sorted_wrt (<) (map (cb_index \<circ> fst) (nd_delivered (s i)) @ [cb_index m])"
    using del new by (auto simp: delivered_ok_def delivered_indices_def sorted_wrt_append)
  then have "delivered_ok cr ?E n (ms i) ?nd"
    using del m fast by (simp add: delivered_ok_def)
  moreover have "delivered_indices ?nd = insert (cb_index m) (delivered_indices (s i))"
    by (simp add: delivered_indices_def)
  ultimately show "node_ok cr ?E n (ms i @ []) ?nd" using r by (simp add: node_ok_def)
qed

lemma nodes_ok_step:
  assumes step: "cb_step cr xxh freed feeds s t" and ok: "nodes_ok cr feeds n ms s" and f: "feeds_ok n feeds"
  shows "\<exists>ms. nodes_ok cr feeds n ms t"
  using step
proof (cases rule: cb_step.cases)
  case (cb_tick now i r)
  then obtain xs where "tr_inv (delivered_indices (s i)) cr (link_echoes cr feeds ms i) n (ms i @ xs) r"
    using alwaysD [OF tr_tick_ok [OF nodes_ok_node [OF ok]]] by blast
  from nodes_ok_set [OF ok this] cb_tick show ?thesis by blast
next
  case (cb_poll i m r)
  then show ?thesis using nodes_ok_poll [OF ok cb_poll(2)] by blast
next
  case (cb_toggle i b)
  then show ?thesis using nodes_ok_set' [OF ok tr_inv_toggle [OF nodes_ok_node [OF ok]]] by blast
next
  case (cb_message i bs)
  then show ?thesis using nodes_ok_set' [OF ok tr_inv_messages [OF nodes_ok_node [OF ok]]] by blast
next
  case (cb_signature i bs)
  then show ?thesis using nodes_ok_set' [OF ok tr_inv_signatures [OF nodes_ok_node [OF ok]]] by blast
next
  case (cb_echo i q bs)
  note inv = nodes_ok_node [OF ok, of i]
  have "parsed (tr_echoes_in (nd_recv (s i)) ! q @ [bs]) \<subseteq> link_echoes cr feeds ms i q" if "q < n"
    using tr_inv_parts(2) [OF inv] link_carries_echo [OF ok f cb_echo(2)] that
    by (simp add: parsed_append inbox_ok_def)
  from nodes_ok_set' [OF ok tr_inv_echoes_in [OF inv this]] cb_echo(1) show ?thesis by simp
next
  case (cb_recv_check i' i r)
  then show ?thesis
    using alwaysD [OF tr_run_recv_check_ok [OF nodes_ok_node [OF ok]]] nodes_ok_set' [OF ok] by blast
next
  case (cb_read_check q i' i r)
  then show ?thesis
    using alwaysD [OF tr_run_read_check_ok [OF nodes_ok_node [OF ok]]] nodes_ok_set' [OF ok] by blast
next
  case (cb_registers rds i w)
  have "length rds = n" using cb_registers(2) tr_inv_parts(1) [OF nodes_ok_node [OF ok, of i]] by (simp add: tr_shape_ok_def)
  from nodes_ok_set' [OF ok tr_inv_readers [OF tr_inv_writer [OF nodes_ok_node [OF ok]] this]] cb_registers(1)
  show ?thesis by simp
qed

lemma tr_new_inv:
  assumes "tr_new b tail sz n n w rds = Inr r" "tail \<noteq> 0" "n < 18446744073709551616"
  shows "tr_inv {} cr E n [] r"
proof -
  have "length rds = n" and r: "r = \<lparr>tr_broadcaster = b, tr_tail = tail, tr_max_msg_size = sz,
        tr_slow_path_on = False, tr_messages_in = [], tr_signatures_in = [],
        tr_echoes_in = replicate n [], tr_echoes_out = replicate n [],
        tr_writer = w, tr_readers = rds, tr_msg_tail = [], tr_latest = None,
        tr_buffered = replicate n [], tr_verified = [], tr_writes = [], tr_reads = [],
        tr_recv_checks = [], tr_read_checks = replicate (length rds) []\<rparr>"
    using assms(1) by (auto simp: tr_new_def split: if_splits)
  with assms(2,3) show ?thesis
    by (simp add: r tr_inv_def tr_parts tail_ok_def inbox_ok_def accepted_ok_def echoes_for_def parsed_def)
qed

lemma cb_start_ok: "cb_start n s \<Longrightarrow> nodes_ok cr feeds n (\<lambda>i. []) s"
  using tr_new_inv by (fastforce simp: cb_start_def nodes_ok_def node_ok_def delivered_indices_def delivered_ok_def)

lemma cb_reach_ok:
  assumes "(cb_step cr xxh freed feeds)\<^sup>*\<^sup>* s t" "cb_start n s" "feeds_ok n feeds"
  shows "\<exists>ms. nodes_ok cr feeds n ms t"
  using assms(1)
proof (induction rule: rtranclp_induct)
  case base
  show ?case using cb_start_ok [OF assms(2)] by blast
next
  case (step t u)
  then show ?case using nodes_ok_step [OF _ _ assms(3)] by blast
qed

section \<open>Order and agreement\<close>

lemma delivered_in_order:
  assumes "(cb_step cr xxh freed feeds)\<^sup>*\<^sup>* s t" "cb_start n s" "feeds_ok n feeds"
  shows "sorted_wrt (<) (map (\<lambda>d. cb_index (fst d)) (nd_delivered (t i)))"
  using cb_reach_ok [OF assms] by (auto simp: nodes_ok_def node_ok_def delivered_ok_def comp_def)

lemma reach_bounds:
  assumes "(cb_step cr xxh freed feeds)\<^sup>*\<^sup>* s t" "cb_start n s" "feeds_ok n feeds"
  shows "length (tr_msg_tail (nd_recv (t i))) \<le> unat (tr_tail (nd_recv (t i)))"
    and "length (tr_recv_checks (nd_recv (t i))) \<le> unat (tr_tail (nd_recv (t i)))"
    and "q < n \<Longrightarrow> length (tr_buffered (nd_recv (t i)) ! q) \<le> unat (tr_tail (nd_recv (t i)))"
    and "q < n \<Longrightarrow> length (tr_read_checks (nd_recv (t i)) ! q) \<le> unat (tr_tail (nd_recv (t i)))"
proof -
  obtain ms where "nodes_ok cr feeds n ms t" using cb_reach_ok [OF assms] by blast
  from nodes_ok_node [OF this, of i] show
    "length (tr_msg_tail (nd_recv (t i))) \<le> unat (tr_tail (nd_recv (t i)))"
    "length (tr_recv_checks (nd_recv (t i))) \<le> unat (tr_tail (nd_recv (t i)))"
    "q < n \<Longrightarrow> length (tr_buffered (nd_recv (t i)) ! q) \<le> unat (tr_tail (nd_recv (t i)))"
    "q < n \<Longrightarrow> length (tr_read_checks (nd_recv (t i)) ! q) \<le> unat (tr_tail (nd_recv (t i)))"
    by (auto simp: tr_inv_def tr_base_def tail_ok_def inbox_ok_def checks_ok_def)
qed

lemma sorted_index_unique:
  "sorted_wrt (<) (map cb_index ms) \<Longrightarrow> a \<in> set ms \<Longrightarrow> b \<in> set ms \<Longrightarrow> cb_index a = cb_index b \<Longrightarrow> a = b"
  by (metis distinct_map inj_onD strict_sorted_iff)

text \<open>Messages of the same size match only if they are the same, or if their hashes collide.\<close>

lemma echo_matches_same:
  assumes "echo_matches cr m (echo_of cr m')" "cb_index m = cb_index m'" "cb_size m = cb_size m'"
    and "cb_hash cr m = cb_hash cr m' \<Longrightarrow> m = m'"
  shows "m = m'"
proof (cases "cb_size m < HashThreshold")
  case True
  then obtain ys where "cb_message_bytes m' = cb_message_bytes m @ ys"
    using assms(1,3) by (auto simp: echo_matches_def echo_of_def)
  from cb_message_prefix [OF this] assms(3) have "cb_data m' = cb_data m" by (simp add: cb_size_def)
  with assms(2) show ?thesis by simp
next
  case False
  with assms(1,3) have "cb_hash cr m = cb_hash cr m'" by (simp add: echo_matches_def echo_of_def)
  with assms(4) show ?thesis by simp
qed

lemma fast_agreement:
  assumes "(cb_step cr xxh freed feeds)\<^sup>*\<^sup>* s t" "cb_start n s" "feeds_ok n feeds"
    and "(m, True) \<in> set (nd_delivered (t i))" "(m', b) \<in> set (nd_delivered (t j))"
    and "feeds i q = Some (j, k)" "q < n" "cb_index m = cb_index m'" "cb_size m = cb_size m'"
    and "cb_hash cr m = cb_hash cr m' \<Longrightarrow> m = m'"
  shows "m = m'"
proof -
  obtain ms where ok: "nodes_ok cr feeds n ms t" using cb_reach_ok [OF assms(1-3)] by blast
  have "delivered_ok cr (link_echoes cr feeds ms i) n (ms i) (t i)" using ok by (simp add: nodes_ok_def node_ok_def)
  then obtain x where "x \<in> link_echoes cr feeds ms i q" "cb_index x = cb_index m" "echo_matches cr m x"
    using assms(4,7) unfolding delivered_ok_def by force
  then obtain y where y: "y \<in> set (ms j)" "cb_index y = cb_index m'" "echo_matches cr m (echo_of cr y)"
    using assms(6,8) by (auto simp: link_echoes_def echo_of_def split: if_splits)
  have "delivered_ok cr (link_echoes cr feeds ms j) n (ms j) (t j)" using ok by (simp add: nodes_ok_def node_ok_def)
  then have "m' \<in> set (ms j)" using assms(5) unfolding delivered_ok_def by force
  moreover have "sorted_wrt (<) (map cb_index (ms j))"
    using nodes_ok_node [OF ok, of j] by (simp add: tr_inv_def tr_base_def accepted_ok_def)
  ultimately have "y = m'" using sorted_index_unique y(1,2) by blast
  with echo_matches_same y(3) assms(8-10) show ?thesis by blast
qed

end
