(* ===== verification/Cb_Confusion.thy ===== *)
theory Cb_Confusion
  imports Cb_System
begin

text \<open>
  Two receivers, one echo link each way, and a broadcaster that sends a message of 8 KiB or more to one of
  them and, as the other's message, the hash of the first: the raw echo of the second is the hashed
  echo of the first, so both deliver on the fast path.
\<close>

definition pair_feeds :: "nat \<Rightarrow> nat \<Rightarrow> (nat \<times> nat) option" where
  "pair_feeds i q = (if i = 0 \<and> q = 0 then Some (1, 0) else if i = 1 \<and> q = 0 then Some (0, 0) else None)"

definition solo :: "proc_id \<Rightarrow> u64 \<Rightarrow> nat \<Rightarrow> rep_writer \<Rightarrow> rep_reader \<Rightarrow> tcb_receiver" where
  "solo b tail sz w rd =
     \<lparr>tr_broadcaster = b, tr_tail = tail, tr_max_msg_size = sz, tr_slow_path_on = False,
      tr_messages_in = [], tr_signatures_in = [], tr_echoes_in = [[]], tr_echoes_out = [[]],
      tr_writer = w, tr_readers = [rd], tr_msg_tail = [], tr_latest = None, tr_buffered = [[]],
      tr_verified = [], tr_writes = [], tr_reads = [], tr_recv_checks = [], tr_read_checks = [[]]\<rparr>"

lemma solo_new: "tr_new b tail sz 1 1 w [rd] = Inr (solo b tail sz w rd)"
  by (simp add: tr_new_def solo_def)

definition one_bit :: "bool \<Rightarrow> dynamic_bitset" where
  "one_bit b = \<lparr>bits = [b, False, False, False, False, False, False, False], bcapacity = 1, bsize = (if b then 1 else 0)\<rparr>"

definition solo_entry :: "crypto \<Rightarrow> cb_message \<Rightarrow> bool \<Rightarrow> cb_entry" where
  "solo_entry cr m echoed =
     \<lparr>te_message = m, te_hash = (if cb_size m < HashThreshold then None else Some (cb_hash cr m)),
      te_other_receivers = 1, te_echoes = one_bit echoed, te_echoes_match = True, te_signature = None, te_checked = 0\<rparr>"

definition solo_has :: "crypto \<Rightarrow> cb_message \<Rightarrow> bool \<Rightarrow> tcb_receiver \<Rightarrow> tcb_receiver" where
  "solo_has cr m echoed r =
     r\<lparr>tr_echoes_out := [[cb_message_bytes (echo_of cr m)]], tr_msg_tail := [(cb_index m, solo_entry cr m echoed)]\<rparr>"

lemma eight_bits: "replicate 8 False = [False, False, False, False, False, False, False, False]"
  by (simp add: numeral_eq_Suc)

lemma solo_te_new: "te_new m 1 = Inr ((solo_entry cr m False)\<lparr>te_hash := None\<rparr>)"
  by (simp add: te_new_def bitset_new_def MaxCapacity_def solo_entry_def one_bit_def eight_bits)

lemma length_cb_bytes: "length (cb_message_bytes m) = 8 + cb_size m"
  by (simp add: cb_message_bytes_def cb_size_def)

lemma solo_accepts:
  assumes "tail \<noteq> 0" "cb_size m \<le> sz"
  shows "tr_tick cr xxh freed now ((solo b tail sz w rd)\<lparr>tr_messages_in := [cb_message_bytes m]\<rparr>)
    = Inr (solo_has cr m False (solo b tail sz w rd))"
proof -
  let ?e = "(solo_entry cr m False)\<lparr>te_hash := None\<rparr>"
  have t: "\<not> unat tail < 1" using assms(1) by (metis less_one unat_eq_0)
  have ins: "tr_handle_message cr m (solo b tail sz w rd) = Inr (solo_has cr m False (solo b tail sz w rd))"
    using assms(1) t
    by (simp add: tr_handle_message_def tr_already_def solo_def Let_def solo_te_new [of m cr] tr_insert_def
        tr_replay_echo_def tr_send_echo_def te_compute_hash_def solo_has_def solo_entry_def echo_bytes_of)
  have "tr_poll_message cr ((solo b tail sz w rd)\<lparr>tr_messages_in := [cb_message_bytes m]\<rparr>)
      = tr_handle_message cr m (solo b tail sz w rd)"
    using assms(2) by (simp add: tr_poll_message_def tr_take_def cb_buffer_size_def length_cb_bytes cb_try_from_bytes solo_def)
  then show ?thesis
    by (simp add: tr_tick_def ins) (simp add: solo_has_def solo_def tr_poll_echoes_def tr_poll_echo_def)
qed

lemma solo_echoed:
  assumes "echo_matches cr m x" "cb_index x = cb_index m" "cb_size x \<le> min sz (HashThreshold - 1)"
  shows "tr_tick cr xxh freed now
      ((solo_has cr m False (solo b tail sz w rd))\<lparr>tr_echoes_in := [[cb_message_bytes x]]\<rparr>)
    = Inr (solo_has cr m True (solo b tail sz w rd))"
proof -
  have f: "te_echoed cr 0 x (solo_entry cr m False) = Inr (solo_entry cr m True, True)"
  proof (cases "cb_size m < HashThreshold")
    case True
    then have "cb_equal m x = Inr True" using assms(1) by (simp add: echo_matches_def cb_equal_Inr)
    with True show ?thesis by (simp add: te_echoed_def solo_entry_def te_set_echo_def bitset_set_def one_bit_def)
  next
    case False
    with assms(1) show ?thesis
      by (simp add: te_echoed_def solo_entry_def te_set_echo_def bitset_set_def one_bit_def echo_matches_def te_compute_hash_def)
  qed
  have "length (cb_message_bytes x) \<le> max_echo_size sz"
    using assms(3) by (simp add: max_echo_size_def cb_buffer_size_def length_cb_bytes)
  then show ?thesis
    by (simp add: tr_tick_def tr_poll_message_def tr_poll_echoes_def tr_poll_echo_def tr_take_def Let_def cb_try_from_bytes
        tr_handle_echo_def tr_useless_echo_def solo_has_def solo_def assms(2) f)
qed

lemma solo_delivers:
  "tr_poll (solo_has cr m True r) = (Some m, r\<lparr>tr_echoes_out := [[cb_message_bytes (echo_of cr m)]],
     tr_msg_tail := [], tr_latest := Some (cb_index m)\<rparr>)"
  "te_fast (snd (hd (tr_msg_tail (solo_has cr m True r))))"
  by (simp_all add: tr_poll_def solo_has_def te_pollable_def solo_entry_def one_bit_def bitset_full_def te_fast_def)

text \<open>The two receivers; the other indices of the state are not used.\<close>

definition pair :: "cb_node \<Rightarrow> cb_node \<Rightarrow> cb_node \<Rightarrow> cb_nodes" where
  "pair a b c i = (if i = 0 then a else if i = 1 then b else c)"

lemma pair_simps:
  "pair a b c 0 = a" "pair a b c 1 = b" "pair a b c (Suc 0) = b"
  "(pair a b c)(0 := x) = pair x b c" "(pair a b c)(1 := x) = pair a x c" "(pair a b c)(Suc 0 := x) = pair a x c"
  "nd_set 0 r (pair a b c) = pair (a\<lparr>nd_recv := r\<rparr>) b c" "nd_set 1 r (pair a b c) = pair a (b\<lparr>nd_recv := r\<rparr>) c"
  "nd_set (Suc 0) r (pair a b c) = pair a (b\<lparr>nd_recv := r\<rparr>) c"
  by (auto simp: pair_def nd_set_def fun_eq_iff)

text \<open>Each accepts its message, hears the other's echo, and delivers.\<close>

lemma pair_run:
  assumes m: "cb_size m \<le> sz" "cb_size m' \<le> sz" "cb_index m = cb_index m'" "(tail :: u64) \<noteq> 0"
    and e: "echo_matches cr m (echo_of cr m')" "echo_matches cr m' (echo_of cr m)"
    and sz: "cb_size (echo_of cr m) \<le> min sz (HashThreshold - 1)" "cb_size (echo_of cr m') \<le> min sz (HashThreshold - 1)"
  shows "\<exists>s t. cb_start 1 s \<and> (cb_step cr xxh freed pair_feeds)\<^sup>*\<^sup>* s t \<and>
    (m, True) \<in> set (nd_delivered (t 0)) \<and> (m', True) \<in> set (nd_delivered (t 1))"
proof -
  obtain b w rd r where r: "r = solo b tail sz w rd" by blast
  let ?S = "(cb_step cr xxh freed pair_feeds)"
  let ?nd = "\<lambda>r ds. \<lparr>nd_recv = r, nd_delivered = ds\<rparr>"
  let ?in = "\<lambda>m. ?nd (r\<lparr>tr_messages_in := [cb_message_bytes m]\<rparr>) []"
  let ?has = "\<lambda>m b. ?nd (solo_has cr m b r) []"
  let ?ec = "\<lambda>m m'. ?nd ((solo_has cr m False r)\<lparr>tr_echoes_in := [[cb_message_bytes (echo_of cr m')]]\<rparr>) []"
  let ?out = "\<lambda>m. ?nd (r\<lparr>tr_echoes_out := [[cb_message_bytes (echo_of cr m)]], tr_msg_tail := [],
    tr_latest := Some (cb_index m)\<rparr>) [(m, True)]"
  let ?c = "?nd r []"
  have idx: "cb_index (echo_of cr x) = cb_index x" for x by (simp add: echo_of_def)
  have "?S (pair ?c ?c ?c) (pair (?in m) ?c ?c)"
    using cb_step.cb_message [of cr xxh freed pair_feeds "pair ?c ?c ?c" 0 "cb_message_bytes m"]
    by (simp add: pair_simps r solo_def)
  moreover have "?S (pair (?in m) ?c ?c) (pair (?in m) (?in m') ?c)"
    using cb_step.cb_message [of cr xxh freed pair_feeds "pair (?in m) ?c ?c" 1 "cb_message_bytes m'"]
    by (simp add: pair_simps r solo_def)
  moreover have "?S (pair (?in m) (?in m') ?c) (pair (?has m False) (?in m') ?c)"
    using cb_step.cb_tick [of cr xxh freed now "pair (?in m) (?in m') ?c" 0] solo_accepts [OF m(4,1)]
    by (simp add: pair_simps r)
  moreover have "?S (pair (?has m False) (?in m') ?c) (pair (?has m False) (?has m' False) ?c)"
    using cb_step.cb_tick [of cr xxh freed now "pair (?has m False) (?in m') ?c" 1] solo_accepts [OF m(4,2)]
    by (simp add: pair_simps r)
  moreover have "?S (pair (?has m False) (?has m' False) ?c) (pair (?ec m m') (?has m' False) ?c)"
    using cb_step.cb_echo [of pair_feeds "pair (?has m False) (?has m' False) ?c" 0 0 "cb_message_bytes (echo_of cr m')" cr xxh freed]
    by (simp add: pair_simps link_carries_def pair_feeds_def solo_has_def r solo_def)
  moreover have "?S (pair (?ec m m') (?has m' False) ?c) (pair (?ec m m') (?ec m' m) ?c)"
    using cb_step.cb_echo [of pair_feeds "pair (?ec m m') (?has m' False) ?c" 1 0 "cb_message_bytes (echo_of cr m)" cr xxh freed]
    by (simp add: pair_simps link_carries_def pair_feeds_def solo_has_def r solo_def)
  moreover have "?S (pair (?ec m m') (?ec m' m) ?c) (pair (?has m True) (?ec m' m) ?c)"
    using cb_step.cb_tick [of cr xxh freed now "pair (?ec m m') (?ec m' m) ?c" 0] solo_echoed [OF e(1) _ sz(2)] idx m(3)
    by (simp add: pair_simps r)
  moreover have "?S (pair (?has m True) (?ec m' m) ?c) (pair (?has m True) (?has m' True) ?c)"
    using cb_step.cb_tick [of cr xxh freed now "pair (?has m True) (?ec m' m) ?c" 1] solo_echoed [OF e(2) _ sz(1)] idx m(3)
    by (simp add: pair_simps r)
  moreover have "?S (pair (?has m True) (?has m' True) ?c) (pair (?out m) (?has m' True) ?c)"
    using cb_step.cb_poll [of "pair (?has m True) (?has m' True) ?c" 0] solo_delivers
    by (simp add: pair_simps)
  moreover have "?S (pair (?out m) (?has m' True) ?c) (pair (?out m) (?out m') ?c)"
    using cb_step.cb_poll [of "pair (?out m) (?has m' True) ?c" 1] solo_delivers
    by (simp add: pair_simps)
  ultimately have "?S\<^sup>*\<^sup>* (pair ?c ?c ?c) (pair (?out m) (?out m') ?c)"
    by (meson converse_rtranclp_into_rtranclp rtranclp.rtrancl_refl)
  moreover have "cb_start 1 (pair ?c ?c ?c)"
  proof -
    have "\<exists>b tail sz w rds. tr_new b tail sz 1 1 w rds = Inr r \<and> tail \<noteq> 0 \<and> 1 < (18446744073709551616 :: nat)"
      using m(4) solo_new [of b tail sz w rd] r by (intro exI conjI) simp_all
    then show ?thesis by (simp add: cb_start_def pair_def)
  qed
  ultimately show ?thesis by (intro exI [of _ "pair ?c ?c ?c"] exI [of _ "pair (?out m) (?out m') ?c"]) (simp add: pair_simps)
qed

text \<open>The hash of a long message, sent as a message.\<close>

lemma hash_is_echo:
  assumes "HashThreshold \<le> cb_size m" "length (cb_hash cr m) = HashLength"
  shows "echo_matches cr m (echo_of cr (m\<lparr>cb_data := cb_hash cr m\<rparr>))"
    "echo_matches cr (m\<lparr>cb_data := cb_hash cr m\<rparr>) (echo_of cr m)"
    "echo_of cr (m\<lparr>cb_data := cb_hash cr m\<rparr>) = echo_of cr m"
proof -
  have small: "cb_size (m\<lparr>cb_data := cb_hash cr m\<rparr>) < HashThreshold"
    using assms(2) by (simp add: cb_size_def HashLength_def HashThreshold_def)
  have big: "\<not> cb_size m < HashThreshold" using assms(1) by simp
  show "echo_of cr (m\<lparr>cb_data := cb_hash cr m\<rparr>) = echo_of cr m" using small big by (simp add: echo_of_def)
  show "echo_matches cr m (echo_of cr (m\<lparr>cb_data := cb_hash cr m\<rparr>))"
    using small big assms(2) by (simp add: echo_of_def echo_matches_def cb_size_def)
  show "echo_matches cr (m\<lparr>cb_data := cb_hash cr m\<rparr>) (echo_of cr m)"
    using small big by (simp add: echo_of_def echo_matches_def)
qed

lemma hash_as_message:
  assumes "HashThreshold \<le> cb_size m" "cb_size m \<le> sz" "length (cb_hash cr m) = HashLength"
  shows "\<exists>s t. cb_start 1 s \<and> (cb_step cr xxh freed pair_feeds)\<^sup>*\<^sup>* s t \<and>
    (m, True) \<in> set (nd_delivered (t 0)) \<and> (m\<lparr>cb_data := cb_hash cr m\<rparr>, True) \<in> set (nd_delivered (t 1))"
proof (rule pair_run [where tail = 1 and sz = sz])
  show "cb_size (echo_of cr m) \<le> min sz (HashThreshold - 1)"
    "cb_size (echo_of cr (m\<lparr>cb_data := cb_hash cr m\<rparr>)) \<le> min sz (HashThreshold - 1)"
    "cb_size (m\<lparr>cb_data := cb_hash cr m\<rparr>) \<le> sz"
    using assms by (simp_all add: echo_of_def cb_size_def HashLength_def HashThreshold_def)
qed (use assms hash_is_echo [OF assms(1,3)] in simp_all)

end
