(* ===== verification/Cb_Slow.thy ===== *)
theory Cb_Slow
  imports Cb_Safety
begin

text \<open>
  The slow path of the broadcast, one operation after the other: a signature of a correct broadcaster passes
  the check of a receiver that has the message, a signature of any other message in a register counts as an
  equivocation, the incarnation of a register runs out, and a read is only forgotten when all of its parts
  are answered by the same poll.
\<close>

section \<open>Echoes that are too short\<close>

lemma short_echo_handled:
  assumes "map_of (tr_msg_tail r) (cb_index x) = Some e" "\<not> tr_useless_echo (cb_index x) r"
    and "cb_size (te_message e) < HashThreshold" "cb_message_bytes (te_message e) = cb_message_bytes x @ ys" "ys \<noteq> []"
  shows "tr_handle_echo cr x q r = Inl Undefined_behaviour"
  using assms cb_equal_short [OF assms(4,5)] by (simp add: tr_handle_echo_def te_echoed_def Let_def)

section \<open>Signatures\<close>

lemma tb_broadcast_result:
  assumes "tb_broadcast data b = Inr (m, b')"
  shows "m = \<lparr>cb_index = tb_next_index b, cb_data = data\<rparr> \<and> tb_next_index b' = tb_next_index b + 1 \<and>
    tb_messages_out b' = map (\<lambda>out. out @ [cb_message_bytes m]) (tb_messages_out b) \<and>
    vq_emplace_back (tb_queued b) (tb_next_index b, data) = Inr (tb_queued b') \<and> tb_tail b' = tb_tail b"
proof -
  obtain v where v: "cb_try_from (cb_message_bytes \<lparr>cb_index = tb_next_index b, cb_data = data\<rparr>) = Inr v"
    by (simp add: cb_try_from_bytes)
  show ?thesis
    using assms by (auto simp: tb_broadcast_def Let_def tr_take_def rbind_Inr_iff cb_try_from_bytes split: if_splits)
qed

lemma vq_iterate_rep:
  assumes "vq_rep q xs" "unat p = unat (vq_head q) + i" "i \<le> length xs"
  shows "vq_iterate q p = Inr (drop i xs)"
  using assms(2,3)
proof (induction "length xs - i" arbitrary: i p)
  case 0
  then have "p = vq_next q" using assms(1) by (simp add: u64_eq_iff vq_rep_def)
  with 0 show ?case by (subst vq_iterate.simps) simp
next
  case (Suc n)
  then have i: "i < length xs" by simp
  have nx: "unat (vq_head q) + length xs = unat (vq_next q)" using assms(1) by (simp add: vq_rep_def)
  then have "p \<noteq> vq_next q" using Suc.prems(1) i by auto
  moreover have "vq_at q p = Inr (xs ! i)" by (rule vq_rep_at [OF assms(1) i Suc.prems(1)])
  moreover have "unat (p + 1) = unat (vq_head q) + Suc i"
    using unat_u64_Suc [of p] nx Suc.prems(1) i unat_u64_less [of "vq_next q"] by linarith
  then have "vq_iterate q (p + 1) = Inr (drop (Suc i) xs)" using Suc.hyps i by (intro Suc.hyps(1)) simp_all
  ultimately show ?case using i by (subst vq_iterate.simps) (simp add: Cons_nth_drop_Suc)
qed

lemma vq_rep_entries: "vq_rep q xs \<Longrightarrow> vq_entries q = Inr xs"
  using vq_iterate_rep [of q xs "vq_head q" 0] by (simp add: vq_entries_def)

lemma last_push_bounded: "0 < unat b \<Longrightarrow> push_bounded b x xs \<noteq> [] \<and> last (push_bounded b x xs) = x"
  by (cases xs) (auto simp: push_bounded_def Let_def)

text \<open>The next tick makes the newest message a task, whatever was queued before.\<close>

lemma broadcast_queues_task:
  assumes q: "vq_rep (tb_queued b) xs" "unat (vq_next (tb_queued b)) + 1 < 18446744073709551616" "tb_tail b \<noteq> 0"
    and m: "tb_broadcast data b = Inr (m, b1)" and off: "tb_offload b1 = Inr b2"
  shows "tb_tasks b2 \<noteq> [] \<and> last (tb_tasks b2) = (cb_index m, data)"
proof -
  note r = tb_broadcast_result [OF m]
  obtain ys where "vq_rep (tb_queued b1) (drop ys (xs @ [(tb_next_index b, data)]))" "ys \<le> length xs"
  proof -
    obtain q' where q': "vq_emplace_back (tb_queued b) (tb_next_index b, data) = Inr q'"
      "vq_rep q' (drop (Suc (length xs) - unat (vq_tail (tb_queued b))) (xs @ [(tb_next_index b, data)]))"
      using vq_rep_emplace_back [OF q(1,2)] by blast
    moreover have "0 < unat (vq_tail (tb_queued b))" using q(1) by (simp add: vq_rep_def unat_gt_0)
    ultimately show thesis using r that by auto
  qed
  then have e: "vq_entries (tb_queued b1) = Inr (drop ys xs @ [(tb_next_index b, data)])"
    by (simp add: vq_rep_entries)
  have "tb_tail b1 = tb_tail b" using r by simp
  then have "0 < unat (tb_tail b1)" using q(3) by (simp add: unat_gt_0)
  moreover have "tb_tasks b2 = push_bounded (tb_tail b1) (tb_next_index b, data) (fold (push_bounded (tb_tail b1)) (drop ys xs) (tb_tasks b1))"
    using off e by (auto simp: tb_offload_def rbind_Inr_iff)
  ultimately show ?thesis using r last_push_bounded by simp
qed

definition signs_for :: "crypto \<Rightarrow> crypto \<Rightarrow> proc_id \<Rightarrow> bool" where
  "signs_for bcr cr b \<longleftrightarrow> b \<in> set (public_keys cr) \<and> blake3 bcr = blake3 cr \<and>
     (\<forall>h. length (sign_hash bcr h) = SignatureLength \<and> verify_hash cr (sign_hash bcr h) h b)"

definition cb_signature :: "crypto \<Rightarrow> cb_message \<Rightarrow> signature" where
  "cb_signature bcr m = sign_hash bcr (cb_hash bcr m)"

lemma tb_run_task_result:
  assumes "i < length (tb_tasks b)" "tb_tasks b ! i = (cb_index m, cb_data m)"
  shows "tb_computed (tb_run_task bcr i b) = tb_computed b @ [(cb_index m, cb_signature bcr m)]"
  using assms by (simp add: tb_run_task_def cb_signature_def cb_hash_def cb_message_bytes_def)

text \<open>The receiver verifies the signature that the broadcaster computed for the same message.\<close>

lemma signature_checked:
  assumes e: "map_of (tr_msg_tail r) (cb_index m) = Some e" "te_message e = m" "hash_ok cr e" "\<not> te_has_signature e"
    and s: "signs_for bcr cr (tr_broadcaster r)" "sm_index s = cb_index m" "sm_signature s = cb_signature bcr m"
    and q: "tr_recv_checks r = []" "tr_tail r \<noteq> 0"
  shows "\<exists>r1 r2. tr_handle_signature cr s r = Inr r1 \<and> tr_run_recv_check cr 0 r1 = Inr r2 \<and>
    tr_verified r2 = tr_verified r @ [(cb_index m, True, Broadcaster)]"
proof -
  have one: "\<not> unat (tr_tail r) < 1" using q(2) by (metis less_one unat_eq_0)
  let ?e = "fst (te_set_signature s e)"
  have "te_compute_hash cr ?e = (cb_hash cr m, ?e\<lparr>te_hash := Some (cb_hash cr m)\<rparr>)"
    using e(2,3) te_compute_hash_ok [of cr ?e] by (simp add: te_set_signature_def hash_ok_def)
  moreover have "te_signature ?e = Some s" using e(4) by (simp add: te_set_signature_def te_has_signature_def)
  ultimately have "tr_handle_signature cr s r = Inr (r\<lparr>
      tr_msg_tail := alist_set (cb_index m) (?e\<lparr>te_hash := Some (cb_hash cr m)\<rparr>) (tr_msg_tail r),
      tr_recv_checks := [(cb_index m, cb_hash cr m, cb_signature bcr m)]\<rparr>)"
    using e(1,4) s(2,3) q one by (simp add: tr_handle_signature_def te_get_signature_def push_bounded_def Let_def)
  moreover have "crypto_verify cr (cb_signature bcr m) (cb_hash cr m) (tr_broadcaster r) = Inr True"
    using s(1) by (simp add: signs_for_def crypto_verify_def cb_signature_def cb_hash_def)
  ultimately show ?thesis by (simp add: tr_run_recv_check_def remove_nth_def)
qed

lemma share_bytes_parsed:
  "length sig = SignatureLength \<Longrightarrow>
   signature_try_from (share_message_bytes \<lparr>sm_index = k, sm_signature = sig\<rparr>) = Inr (Inr \<lparr>sm_index = k, sm_signature = sig\<rparr>)"
  by (simp add: signature_try_from_def share_message_bytes_def bytes_read)

lemma broadcast_signature_accepted:
  assumes "vq_rep (tb_queued b) xs" "unat (vq_next (tb_queued b)) + 1 < 18446744073709551616" "tb_tail b \<noteq> 0"
    and m: "tb_broadcast data b = Inr (m, b1)" "tb_offload b1 = Inr b2"
    and e: "map_of (tr_msg_tail r) (cb_index m) = Some e" "te_message e = m" "hash_ok cr e" "\<not> te_has_signature e"
    and s: "signs_for bcr cr (tr_broadcaster r)" "tr_recv_checks r = []" "tr_tail r \<noteq> 0"
  shows "\<exists>i sig r1 r2. tb_computed (tb_run_task bcr i b2) = tb_computed b2 @ [(cb_index m, sig)] \<and>
    signature_try_from (share_message_bytes \<lparr>sm_index = cb_index m, sm_signature = sig\<rparr>) =
      Inr (Inr \<lparr>sm_index = cb_index m, sm_signature = sig\<rparr>) \<and>
    tr_handle_signature cr \<lparr>sm_index = cb_index m, sm_signature = sig\<rparr> r = Inr r1 \<and>
    tr_run_recv_check cr 0 r1 = Inr r2 \<and> tr_verified r2 = tr_verified r @ [(cb_index m, True, Broadcaster)]"
proof -
  let ?i = "length (tb_tasks b2) - 1" and ?sig = "cb_signature bcr m"
  have data: "cb_data m = data" using tb_broadcast_result [OF m(1)] by simp
  have "tb_tasks b2 \<noteq> []" "last (tb_tasks b2) = (cb_index m, cb_data m)"
    using broadcast_queues_task [OF assms(1-3) m] data by simp_all
  then have "?i < length (tb_tasks b2)" "tb_tasks b2 ! ?i = (cb_index m, cb_data m)" by (simp_all add: last_conv_nth)
  from tb_run_task_result [OF this]
  have "tb_computed (tb_run_task bcr ?i b2) = tb_computed b2 @ [(cb_index m, ?sig)]" .
  moreover have "length ?sig = SignatureLength" using s(1) by (simp add: signs_for_def cb_signature_def)
  moreover obtain r1 r2 where "tr_handle_signature cr \<lparr>sm_index = cb_index m, sm_signature = ?sig\<rparr> r = Inr r1"
    "tr_run_recv_check cr 0 r1 = Inr r2" "tr_verified r2 = tr_verified r @ [(cb_index m, True, Broadcaster)]"
    using signature_checked [OF e s(1) _ _ s(2,3), of "\<lparr>sm_index = cb_index m, sm_signature = ?sig\<rparr>"] by auto
  ultimately show ?thesis using share_bytes_parsed by blast
qed

section \<open>Registers\<close>

lemma register_from_bytes:
  "length h = HashLength \<Longrightarrow> length s = SignatureLength \<Longrightarrow> register_from (register_bytes h s) = Inr (h, s)"
  by (simp add: register_from_def register_bytes_def slice_def)

text \<open>The hash in a register is not compared with anything: it may be that of a message with another index.\<close>

lemma foreign_signature_convicts:
  assumes e: "map_of (tr_msg_tail r) k = Some e" "\<not> te_signature_matches (cb_signature bcr m) e"
    and s: "signs_for bcr cr (tr_broadcaster r)" "length (cb_hash cr m) = HashLength"
    and inc: "ucast inc = cb_incarnation (tr_tail r) k"
    and q: "q < length (tr_read_checks r)" "tr_read_checks r ! q = []" "tr_verified r = []" "tr_tail r \<noteq> 0"
  shows "\<exists>r1 r2. tr_check_register k q (register_bytes (cb_hash cr m) (cb_signature bcr m)) inc e r = Inr r1 \<and>
    tr_run_read_check cr q 0 r1 = Inr r2 \<and>
    tr_poll_verifications cr xxh now r2 =
      Inl (Logic_error ''Unimplemented: Byzantine broadcaster {} equivocated for index {}.'')"
proof -
  have one: "\<not> unat (tr_tail r) < 1" using q(4) by (metis less_one unat_eq_0)
  let ?h = "cb_hash cr m" and ?s = "cb_signature bcr m"
  have "length ?s = SignatureLength" using s(1) by (simp add: signs_for_def cb_signature_def)
  then have "tr_check_register k q (register_bytes ?h ?s) inc e r =
      Inr (r\<lparr>tr_read_checks := (tr_read_checks r)[q := [(k, ?h, ?s)]]\<rparr>)"
    using e(2) inc q one s(2) by (simp add: tr_check_register_def register_from_bytes push_bounded_def)
  moreover have "crypto_verify cr ?s ?h (tr_broadcaster r) = Inr True"
    using s(1) by (simp add: signs_for_def crypto_verify_def cb_signature_def cb_hash_def)
  ultimately show ?thesis
    using q(1,3) e(1) by (simp add: tr_run_read_check_def remove_nth_def tr_poll_verifications_def tr_verified_one_def)
qed

text \<open>Incarnation \<open>2 ^ 32\<close> is 0 when it reaches the register, which is never above the one before.\<close>

lemma two_32: "(4294967296 :: u32) = 0"
  by transfer simp

lemma incarnation_overflow:
  assumes "tr_tail r \<noteq> 0" "map_of (tr_writes r) (k mod tr_tail r) = None" "te_signature e = Some s"
    and "rw_get_slot (unat (k mod tr_tail r)) (tr_writer r) = Inr (Some slot)"
    and "wr_bytes (rr_buffer (rw_registers (tr_writer r) ! slot)) 0
           (register_bytes (fst (te_compute_hash cr e)) (sm_signature s)) = Inr v"
    and "rw_allow_custom (tr_writer r)" "cb_incarnation (tr_tail r) k = 4294967296"
  shows "tr_write_register cr xxh now k e r = Inl (Runtime_error ''Incarnation numbers must be monotonic'')"
proof -
  let ?i = "unat (k mod tr_tail r)"
  obtain h e1 where h: "te_compute_hash cr e = (h, e1)" by fastforce
  then have e1: "te_signature e1 = Some s"
    using assms(3) by (auto simp: te_compute_hash_def Let_def split: option.splits)
  have slot: "slot = ?i" "?i < length (rw_registers (tr_writer r))" "\<not> rr_outstanding (rw_registers (tr_writer r) ! ?i)"
    using assms(4) by (auto simp: rw_get_slot_def rbind_Inr_iff uat_Inr_iff split: if_splits)
  have "rw_write xxh now ?i (Some (ucast (4294967296 :: u64))) (rw_memcpy slot v (tr_writer r))
      = Inl (Runtime_error ''Incarnation numbers must be monotonic'')"
    using slot assms(6) by (simp add: rw_write_def rw_memcpy_def rr_set_incarnation_def two_32)
  with assms(1,2,4,5,7) h e1 show ?thesis
    by (simp add: tr_write_register_def Let_def te_get_signature_def)
qed

section \<open>Outstanding reads\<close>

definition no_handle :: "u64 \<Rightarrow> rep_reader \<Rightarrow> bool" where
  "no_handle h rd \<longleftrightarrow> rd_readers rd \<noteq> [] \<and> (\<forall>mr \<in> set (rd_readers rd). map_of (mr_scheduled mr) h = None)"

lemma no_handle_silent: "no_handle h rd \<Longrightarrow> rd_poll freed h rd = Inr (None, rd)"
proof -
  assume a: "no_handle h rd"
  have "highest_of h mrs 0 None = (0, None)" if "set mrs \<subseteq> set (rd_readers rd)" for mrs
    using that
  proof (induction mrs)
    case (Cons mr mrs)
    then have "mr_poll h mr = None" using a by (simp add: mr_poll_def no_handle_def)
    with Cons show ?case by simp
  qed simp
  from this [of "rd_readers rd"] a show ?thesis by (cases "rd_readers rd") (auto simp: rd_poll_def no_handle_def)
qed

lemma mr_release_scheduled:
  "mr_release freed h mr = Inr mr' \<Longrightarrow>
   map_of (mr_scheduled mr') h = None \<and> (map_of (mr_scheduled mr) h' = None \<longrightarrow> map_of (mr_scheduled mr') h' = None)"
  by (auto simp: mr_release_def map_of_alist_erase split: option.splits)

lemma rd_poll_readers:
  assumes "rd_poll freed h rd = Inr (opt, rd')"
  shows "(opt = None \<and> rd' = rd) \<or>
    (rd_readers rd \<noteq> [] \<and> (\<exists>rs. rmap (mr_release freed h) (rd_readers rd) = Inr rs \<and> rd' = rd\<lparr>rd_readers := rs\<rparr>))"
  using assms by (cases "rd_readers rd") (auto simp: rd_poll_def rbind_Inr_iff split: prod.splits if_splits option.splits)

lemma rmap_not_Nil: "rmap f xs = Inr ys \<Longrightarrow> xs \<noteq> [] \<Longrightarrow> ys \<noteq> []"
  by (cases xs) (auto simp: rbind_Inr_iff)

lemma answered_once:
  assumes "rd_poll freed h rd = Inr (Some x, rd')"
  shows "no_handle h rd'"
proof -
  obtain rs where rs: "rmap (mr_release freed h) (rd_readers rd) = Inr rs" "rd' = rd\<lparr>rd_readers := rs\<rparr>" "rd_readers rd \<noteq> []"
    using rd_poll_readers [OF assms] by auto
  have "map_of (mr_scheduled mr) h = None" if mr: "mr \<in> set rs" for mr
    using rmap_mem [OF rs(1) mr] mr_release_scheduled by blast
  with rmap_not_Nil [OF rs(1,3)] show ?thesis by (simp add: no_handle_def rs(2))
qed

lemma no_handle_poll:
  assumes "rd_poll freed h' rd = Inr (opt, rd')" "no_handle h rd"
  shows "no_handle h rd'"
  using rd_poll_readers [OF assms(1)]
proof
  assume "rd_readers rd \<noteq> [] \<and> (\<exists>rs. rmap (mr_release freed h') (rd_readers rd) = Inr rs \<and> rd' = rd\<lparr>rd_readers := rs\<rparr>)"
  then obtain rs where rs: "rmap (mr_release freed h') (rd_readers rd) = Inr rs" "rd' = rd\<lparr>rd_readers := rs\<rparr>" "rd_readers rd \<noteq> []"
    by blast
  have "map_of (mr_scheduled mr) h = None" if mr: "mr \<in> set rs" for mr
    using rmap_mem [OF rs(1) mr] mr_release_scheduled assms(2) unfolding no_handle_def by blast
  with rmap_not_Nil [OF rs(1,3)] show ?thesis by (simp add: no_handle_def rs(2))
qed (use assms in simp)

text \<open>The part of a read that is answered by no later poll keeps the whole entry in the map.\<close>

lemma tr_check_register_reads:
  "tr_check_register k q v inc e r = Inr r' \<Longrightarrow> tr_reads r' = tr_reads r \<and> tr_readers r' = tr_readers r"
  by (auto simp: tr_check_register_def Let_def rbind_Inr_iff uat_Inr_iff split: if_splits)

lemma tr_poll_read_count:
  assumes "tr_poll_read freed k handles q (c, r) = Inr (c', r')"
  shows "c' \<le> c + 1 \<and> tr_reads r' = tr_reads r \<and> length (tr_readers r') = length (tr_readers r) \<and>
    (\<forall>q' h. no_handle h (tr_readers r ! q') \<longrightarrow> no_handle h (tr_readers r' ! q')) \<and>
    (\<forall>q'. q' \<noteq> q \<longrightarrow> tr_readers r' ! q' = tr_readers r ! q') \<and>
    (\<forall>h rd'. handles ! q = Some h \<and> rd_poll freed h (tr_readers r ! q) = Inr (None, rd') \<longrightarrow> c' = c) \<and>
    (\<forall>h x rd'. handles ! q = Some h \<and> rd_poll freed h (tr_readers r ! q) = Inr (Some x, rd') \<longrightarrow>
       no_handle h (tr_readers r' ! q))"
proof -
  obtain oh where oh: "uat handles q = Inr oh" using assms by (auto simp: tr_poll_read_def rbind_Inr_iff)
  show ?thesis
  proof (cases oh)
    case None
    with assms oh show ?thesis by (auto simp: tr_poll_read_def uat_Inr_iff)
  next
    case (Some h)
    obtain rd rd' opt where rd: "uat (tr_readers r) q = Inr rd" "rd_poll freed h rd = Inr (opt, rd')"
      using assms oh Some by (auto simp: tr_poll_read_def rbind_Inr_iff)
    have result: "c' \<le> c + 1 \<and> tr_reads r' = tr_reads r \<and> tr_readers r' = (tr_readers r)[q := rd'] \<and> (opt = None \<longrightarrow> c' = c)"
    proof (cases opt)
      case None
      with assms oh Some rd show ?thesis by (auto simp: tr_poll_read_def)
    next
      case (Some a)
      then obtain v inc where a: "opt = Some (v, inc)" by (cases a) auto
      show ?thesis
      proof (cases "map_of (tr_msg_tail r) k")
        case None
        with assms oh \<open>oh = Some h\<close> rd a show ?thesis by (auto simp: tr_poll_read_def Let_def split: if_splits)
      next
        case (Some e)
        with assms oh \<open>oh = Some h\<close> rd a have "c' = c + 1 \<and>
          tr_check_register k q v inc e (r\<lparr>tr_readers := (tr_readers r)[q := rd']\<rparr>) = Inr r'"
          by (auto simp: tr_poll_read_def Let_def rbind_Inr_iff split: if_splits)
        with a show ?thesis by (auto dest: tr_check_register_reads)
      qed
    qed
    have q: "q < length (tr_readers r)" "rd = tr_readers r ! q" "handles ! q = Some h"
      using rd(1) oh Some by (simp_all add: uat_Inr_iff)
    have "no_handle h' (tr_readers r' ! q')" if "no_handle h' (tr_readers r ! q')" for q' h'
      using result that no_handle_poll [OF rd(2)] q by (cases "q' = q") auto
    moreover have "no_handle h (tr_readers r' ! q)" if "opt = Some x" for x
      using answered_once [of freed h rd x rd'] rd(2) that result q(1) by simp
    ultimately show ?thesis using result q rd(2) by auto
  qed
qed

lemma poll_reads_count:
  assumes "rfold (tr_poll_read freed k handles) qs (c, r) = Inr (c', r')"
  shows "c' \<le> c + length qs \<and> tr_reads r' = tr_reads r \<and> length (tr_readers r') = length (tr_readers r) \<and>
    (\<forall>q h. no_handle h (tr_readers r ! q) \<longrightarrow> no_handle h (tr_readers r' ! q))"
  using assms
proof (induction qs arbitrary: c r)
  case (Cons a qs)
  from Cons.prems obtain c1 r1 where one: "tr_poll_read freed k handles a (c, r) = Inr (c1, r1)"
    and rest: "rfold (tr_poll_read freed k handles) qs (c1, r1) = Inr (c', r')"
    by (auto simp: rbind_Inr_iff)
  from tr_poll_read_count [OF one] Cons.IH [OF rest] show ?case by auto
qed simp

lemma poll_reads_part:
  assumes "rfold (tr_poll_read freed k handles) qs (c, r) = Inr (c', r')" "q \<in> set qs" "distinct qs" "handles ! q = Some h"
  shows "(rd_poll freed h (tr_readers r ! q) = Inr (None, rd') \<longrightarrow> c' < c + length qs) \<and>
    (rd_poll freed h (tr_readers r ! q) = Inr (Some x, rd') \<longrightarrow> no_handle h (tr_readers r' ! q))"
  using assms
proof (induction qs arbitrary: c r)
  case (Cons a qs)
  from Cons.prems obtain c1 r1 where one: "tr_poll_read freed k handles a (c, r) = Inr (c1, r1)"
    and rest: "rfold (tr_poll_read freed k handles) qs (c1, r1) = Inr (c', r')"
    by (auto simp: rbind_Inr_iff)
  note p = tr_poll_read_count [OF one] and all = poll_reads_count [OF rest]
  show ?case
  proof (cases "q = a")
    case True
    have "c' < c + length (a # qs)" if "rd_poll freed h (tr_readers r ! q) = Inr (None, rd')"
    proof -
      have "c1 = c" using p Cons.prems(4) that True by blast
      with all show ?thesis by simp
    qed
    moreover have "no_handle h (tr_readers r' ! q)" if "rd_poll freed h (tr_readers r ! q) = Inr (Some x, rd')"
      using p all Cons.prems(4) that True by blast
    ultimately show ?thesis by blast
  next
    case False
    then have same: "tr_readers r1 ! q = tr_readers r ! q" and "q \<in> set qs" "distinct qs"
      using p Cons.prems(2,3) by auto
    from Cons.IH [OF rest this(2,3) Cons.prems(4)] p show ?thesis unfolding same by auto
  qed
qed simp

text \<open>Reads of one message of which a part is answered and gone.\<close>

definition half_answered :: "u64 \<Rightarrow> tcb_receiver \<Rightarrow> bool" where
  "half_answered k r \<longleftrightarrow> (\<exists>q handles h. q < length (tr_readers r) \<and> map_of (tr_reads r) k = Some handles \<and>
     handles ! q = Some h \<and> no_handle h (tr_readers r ! q))"

lemma half_answered_kept: "half_answered k r \<Longrightarrow> map_of (tr_reads r) k \<noteq> None"
  by (auto simp: half_answered_def)

lemma half_answered_entry:
  assumes "half_answered k r" "tr_poll_entry freed (k', handles') r = Inr r'" "map_of (tr_reads r) k' = Some handles'"
  shows "half_answered k r' \<and> (\<forall>x. x \<noteq> k' \<longrightarrow> map_of (tr_reads r') x = map_of (tr_reads r) x)"
proof -
  obtain q handles h where h: "q < length (tr_readers r)" "map_of (tr_reads r) k = Some handles" "handles ! q = Some h"
    "no_handle h (tr_readers r ! q)"
    using assms(1) by (auto simp: half_answered_def)
  obtain c r1 where r1: "rfold (tr_poll_read freed k' handles') [0 ..< length (tr_readers r)] (0, r) = Inr (c, r1)"
    and r': "r' = (if c = length (tr_readers r1) then r1\<lparr>tr_reads := alist_erase k' (tr_reads r1)\<rparr> else r1)"
    using assms(2) by (auto simp: tr_poll_entry_def rbind_Inr_iff)
  note count = poll_reads_count [OF r1]
  have "no_handle h (tr_readers r' ! q)" "q < length (tr_readers r')" using count h(1,4) by (simp_all add: r')
  moreover have "map_of (tr_reads r') k = Some handles"
  proof (cases "k' = k")
    case True
    then have "handles' = handles" using assms(3) h(2) by simp
    with poll_reads_part [OF r1, of q h "tr_readers r ! q"] h no_handle_silent [OF h(4)] have "c < length (tr_readers r)" by simp
    with count h(2) show ?thesis by (simp add: r')
  next
    case False
    with count h(2) show ?thesis by (simp add: r' map_of_alist_erase)
  qed
  moreover have "\<forall>x. x \<noteq> k' \<longrightarrow> map_of (tr_reads r') x = map_of (tr_reads r) x"
    using count by (simp add: r' map_of_alist_erase)
  ultimately show ?thesis using h(3) by (auto simp: half_answered_def)
qed

lemma half_answered_stays:
  assumes "half_answered k r" "distinct (map fst (tr_reads r))" "tr_poll_reads freed r = Inr r'"
  shows "half_answered k r'"
proof -
  have "half_answered k r'"
    if "rfold (tr_poll_entry freed) es r = Inr r'" "half_answered k r" "distinct (map fst es)"
      "\<forall>(x, hs) \<in> set es. map_of (tr_reads r) x = Some hs" for es r
    using that
  proof (induction es arbitrary: r)
    case (Cons e es)
    obtain k' hs where e: "e = (k', hs)" by (cases e)
    obtain r1 where r1: "tr_poll_entry freed (k', hs) r = Inr r1" "rfold (tr_poll_entry freed) es r1 = Inr r'"
      using Cons.prems(1) e by (auto simp: rbind_Inr_iff)
    have "map_of (tr_reads r) k' = Some hs" using Cons.prems(4) e by simp
    note step = half_answered_entry [OF Cons.prems(2) r1(1) this]
    have "\<forall>(x, hs) \<in> set es. map_of (tr_reads r1) x = Some hs"
    proof clarify
      fix x hs' assume x: "(x, hs') \<in> set es"
      then have "x \<noteq> k'" using Cons.prems(3) e by force
      with step x Cons.prems(4) show "map_of (tr_reads r1) x = Some hs'" by force
    qed
    with Cons.IH [OF r1(2)] step Cons.prems(3) show ?case by simp
  qed simp
  from this [of "tr_reads r" r] assms show ?thesis by (auto simp: tr_poll_reads_def)
qed

text \<open>One reader has answered when another has not: the read becomes one that never ends.\<close>

lemma half_answered_starts:
  assumes "tr_poll_entry freed (k, handles) r = Inr r1" "map_of (tr_reads r) k = Some handles"
    and q: "q < length (tr_readers r)" "handles ! q = Some h" "rd_poll freed h (tr_readers r ! q) = Inr (Some x, rd)"
    and p: "p < length (tr_readers r)" "handles ! p = Some h'" "rd_poll freed h' (tr_readers r ! p) = Inr (None, rd')"
  shows "half_answered k r1"
proof -
  obtain c r2 where r2: "rfold (tr_poll_read freed k handles) [0 ..< length (tr_readers r)] (0, r) = Inr (c, r2)"
    and r1: "r1 = (if c = length (tr_readers r2) then r2\<lparr>tr_reads := alist_erase k (tr_reads r2)\<rparr> else r2)"
    using assms(1) by (auto simp: tr_poll_entry_def rbind_Inr_iff)
  have "c < length (tr_readers r)" using poll_reads_part [OF r2, of p h' rd'] p by simp
  moreover have "no_handle h (tr_readers r2 ! q)" using poll_reads_part [OF r2, of q h rd x] q by simp
  ultimately show ?thesis using poll_reads_count [OF r2] assms(2) q by (auto simp: r1 half_answered_def)
qed

end
