(* ===== verification/Toy_Cb.thy ===== *)
theory Toy_Cb
  imports Cb_Confusion Cb_Slow Toy_Replicated
begin

text \<open>
  Small instances for the broadcast: a hash that keeps the first 32 bytes, a signature that is the
  hash, receivers with one message, and runs of a broadcaster into a receiver.
\<close>

definition cb_crypto :: crypto where
  "cb_crypto = \<lparr>my_id = 0, public_keys = [0], sign_hash = (\<lambda>h. take 64 (h @ replicate 64 0)),
     verify_hash = (\<lambda>s h p. s = take 64 (h @ replicate 64 0)), blake3 = (\<lambda>bs. take 32 (bs @ replicate 32 0))\<rparr>"

lemma cb_crypto_hash: "length (cb_hash cb_crypto m) = HashLength"
  by (simp add: cb_hash_def cb_crypto_def HashLength_def)

lemma cb_crypto_signs: "signs_for cb_crypto cb_crypto 0"
  by (simp add: signs_for_def cb_crypto_def SignatureLength_def min_def)

definition toy_cb_message :: "u64 \<Rightarrow> byte \<Rightarrow> cb_message" where
  "toy_cb_message k b = \<lparr>cb_index = k, cb_data = [b]\<rparr>"

definition toy_cb_writer :: rep_writer where
  "toy_cb_writer = \<lparr>rw_allow_custom = True,
     rw_registers = [\<lparr>rr_buffer = replicate 96 0, rr_outstanding = False, rr_incarnation = 0\<rparr>], rw_writers = []\<rparr>"

definition toy_cb_reader :: rep_reader where
  "toy_cb_reader = \<lparr>rd_value_size = 96, rd_readers = [], rd_next_handle = 0\<rparr>"

definition toy_cb_signed :: "cb_message \<Rightarrow> cb_entry" where
  "toy_cb_signed m = (solo_entry cb_crypto m False)
     \<lparr>te_signature := Some \<lparr>sm_index = cb_index m, sm_signature = cb_signature cb_crypto m\<rparr>\<rparr>"

definition toy_cb_receiver :: "u64 \<Rightarrow> cb_entry \<Rightarrow> tcb_receiver" where
  "toy_cb_receiver tail e =
     (solo 0 tail 16 toy_cb_writer toy_cb_reader)\<lparr>tr_msg_tail := [(cb_index (te_message e), e)]\<rparr>"

lemma toy_cb_signatures_differ: "cb_signature cb_crypto (toy_cb_message 4 2) \<noteq> cb_signature cb_crypto (toy_cb_message 5 1)"
  by code_simp

lemma toy_cb_start: "cb_size (toy_cb_message k b) = 1" "cb_size (echo_of cr (toy_cb_message k b)) = 1"
  "echo_matches cr (toy_cb_message k b) (echo_of cr (toy_cb_message k b))"
  by (simp_all add: toy_cb_message_def cb_size_def echo_of_def HashThreshold_def echo_matches_def)

lemma toy_cb_broadcast_run:
  "rbind (tb_broadcast [1] (tb_new 2 16 1 1)) (\<lambda>(m, b). rbind (tb_offload b) (\<lambda>b'. Inr (m, tb_tasks b'))) =
   Inr (toy_cb_message 0 1, [(0, [1])])"
  by code_simp

lemma toy_cb_broadcast:
  "\<exists>b1 b2. tb_broadcast [1] (tb_new 2 16 1 1) = Inr (toy_cb_message 0 1, b1) \<and> tb_offload b1 = Inr b2"
  using toy_cb_broadcast_run by (auto simp: rbind_Inr_iff)

lemma pair_feeds_ok: "feeds_ok 1 pair_feeds"
  by (simp add: feeds_ok_def pair_feeds_def)

lemma cb_crypto_signature_length: "length (cb_signature cb_crypto m) = SignatureLength"
  using cb_crypto_signs by (simp add: signs_for_def cb_signature_def)

lemma toy_cb_pair:
  "\<exists>s t. cb_start 1 s \<and> (cb_step cr xxh freed pair_feeds)\<^sup>*\<^sup>* s t \<and>
     (toy_cb_message k b, True) \<in> set (nd_delivered (t 0)) \<and> (toy_cb_message k b, True) \<in> set (nd_delivered (t 1))"
  by (rule pair_run [where tail = 1 and sz = 16]) (simp_all add: toy_cb_start HashThreshold_def)

text \<open>Two other receivers: the register of the first is answered, that of the second is not.\<close>

definition toy_split :: "rep_reader \<Rightarrow> tcb_receiver" where
  "toy_split rd = (solo 0 4 16 toy_cb_writer rd)
     \<lparr>tr_readers := [rd, \<lparr>rd_value_size = 96, rd_readers = [mr_new toy_reader], rd_next_handle = 1\<rparr>],
      tr_reads := [(5, [Some 0, Some 0])]\<rparr>"

lemma toy_split_silent:
  "rd_poll freed 0 \<lparr>rd_value_size = 96, rd_readers = [mr_new toy_reader], rd_next_handle = 1\<rparr> =
   Inr (None, \<lparr>rd_value_size = 96, rd_readers = [mr_new toy_reader], rd_next_handle = 1\<rparr>)"
  by (simp add: rd_poll_def mr_poll_def mr_new_def)

lemma two_readers: "[0 ..< Suc (Suc 0)] = [0, 1]"
  by simp

lemma toy_split_polled:
  assumes "rd_poll id 0 rd = Inr (Some ([7], 1), rd')"
  shows "\<exists>r1. tr_poll_entry id (5, [Some 0, Some 0]) (toy_split rd) = Inr r1 \<and> map fst (tr_reads r1) = [5]"
  using assms toy_split_silent [of id]
  by (simp add: tr_poll_entry_def tr_poll_read_def toy_split_def solo_def cb_incarnation_def two_readers Let_def)

end
