(* ===== verification/P2p.thy ===== *)
theory P2p
  imports Rdma Buffers
begin

text \<open>
  Point-to-point links that guarantee the last \<open>tail\<close> messages (ubft/src/tail-p2p): \<open>SyncSender\<close> fills the
  slots of a ring and writes them into the ring of the receiver, \<open>AsyncSender\<close> keeps messages in front of
  it while the ring is full, and \<open>Receiver\<close> scans its ring for the next message it can deliver.

  A slot is a header (hash, incarnation, size) and the bytes behind it. An address into a ring is the index of
  a slot. A request of the queue pair is the local slot, the slot in the remote ring and the length.
  The receiver reads memory that the network card writes at the same time: what one attempt
  reads is an observation, and the incarnation is read twice.
\<close>

unbundle bit_operations_syntax

section \<open>Rings\<close>

record p2p_slot =
  ps_hash :: u64
  ps_incarnation :: u32
  ps_size :: u32
  ps_data :: bytes

definition WrDepth :: u64 where
  "WrDepth = 128"

definition P2pHeader :: u64 where
  "P2pHeader = 16"

definition p2p_slot_size :: "u64 \<Rightarrow> u64" where
  "p2p_slot_size max_msg_size = (P2pHeader + max_msg_size + 8 - 1) AND - 8"

definition p2p_buffer_size :: "u64 \<Rightarrow> u64 \<Rightarrow> u64" where
  "p2p_buffer_size tail max_msg_size = tail * p2p_slot_size max_msg_size"

record ring =
  rg_elems :: u64
  rg_next_alloc :: u64
  rg_next_free :: u64

definition rg_new :: "u64 \<Rightarrow> u64 \<Rightarrow> u64 \<Rightarrow> ring result" where
  "rg_new elems buffer_len slot_size =
     (if buffer_len < elems * slot_size then Inl (Runtime_error ''Buffer too small: {} given, {} required.'')
      else Inr \<lparr>rg_elems = elems, rg_next_alloc = 0, rg_next_free = 0\<rparr>)"

definition rg_acquire :: "ring \<Rightarrow> (nat option \<times> ring) result" where
  "rg_acquire g =
     (if rg_next_alloc g = rg_next_free g + rg_elems g then Inr (None, g)
      else if rg_elems g = 0 then Inl Undefined_behaviour
      else Inr (Some (unat (rg_next_alloc g mod rg_elems g)), g\<lparr>rg_next_alloc := rg_next_alloc g + 1\<rparr>))"

definition rg_release :: "ring \<Rightarrow> ring result" where
  "rg_release g =
     (if rg_next_alloc g = rg_next_free g then Inl (Runtime_error ''Cannot release faster than alloc.'')
      else Inr (g\<lparr>rg_next_free := rg_next_free g + 1\<rparr>))"

section \<open>SyncSender\<close>

record sync_sender =
  ss_tail :: u64
  ss_slot_size :: u64
  ss_slots :: "p2p_slot list"
  ss_ring :: ring
  ss_to_send :: "nat list"
  ss_next_slot :: u64
  ss_send_before :: u64
  ss_next_send :: u64
  ss_outstanding :: u64
  ss_qp :: "(u64 \<times> u32) qp"

definition p2p_blank :: "u64 \<Rightarrow> p2p_slot" where
  "p2p_blank slot_size = \<lparr>ps_hash = 0, ps_incarnation = 0, ps_size = 0, ps_data = replicate (unat (slot_size - P2pHeader)) 0\<rparr>"

definition ss_new :: "u64 \<Rightarrow> u64 \<Rightarrow> u64 \<Rightarrow> u64 \<Rightarrow> sync_sender result" where
  "ss_new tail max_msg_size mr_size remote_size =
     (let slot_size = p2p_slot_size max_msg_size in
      rbind (rg_new tail mr_size slot_size) (\<lambda>g.
        if mr_size < p2p_buffer_size tail max_msg_size
        then Inl (Runtime_error ''Buffer is not large enough to store the tail: {} required, {} given.'')
        else if mr_size \<noteq> remote_size then Inl (Runtime_error ''Local and remote MR sizes do not match ({} vs {}).'')
        else Inr \<lparr>ss_tail = tail, ss_slot_size = slot_size, ss_slots = replicate (unat tail) (p2p_blank slot_size),
               ss_ring = g, ss_to_send = [], ss_next_slot = 0, ss_send_before = 0, ss_next_send = 0,
               ss_outstanding = 0, ss_qp = qp_new\<rparr>))"

definition ss_get_slot :: "u32 \<Rightarrow> sync_sender \<Rightarrow> (nat option \<times> sync_sender) result" where
  "ss_get_slot sz s =
     (if ss_slot_size s < ucast sz then Inl (Runtime_error ''p2p slot size {} is smaller than requested {}.'')
      else
        rbind (rg_acquire (ss_ring s)) (\<lambda>(full_slot, g).
          case full_slot of
            None \<Rightarrow> Inr (None, s\<lparr>ss_ring := g\<rparr>)
          | Some i \<Rightarrow>
              rbind (uat (ss_slots s) i) (\<lambda>slot.
              Inr (Some i, s\<lparr>ss_ring := g,
                ss_slots := (ss_slots s)[i := slot\<lparr>ps_incarnation := ucast (ss_next_slot s div ss_tail s + 1), ps_size := sz\<rparr>],
                ss_next_slot := ss_next_slot s + 1, ss_to_send := ss_to_send s @ [i]\<rparr>))))"

text \<open>What a client does with the slot; bytes beyond the slot would be those of the next one.\<close>

definition ss_memcpy :: "nat \<Rightarrow> bytes \<Rightarrow> sync_sender \<Rightarrow> sync_sender result" where
  "ss_memcpy i data s =
     rbind (uat (ss_slots s) i) (\<lambda>slot.
     rbind (wr_bytes (ps_data slot) 0 data) (\<lambda>d.
     Inr (s\<lparr>ss_slots := (ss_slots s)[i := slot\<lparr>ps_data := d\<rparr>]\<rparr>)))"

definition ss_post :: "(bytes \<Rightarrow> u64) \<Rightarrow> nat \<Rightarrow> sync_sender \<Rightarrow> sync_sender result" where
  "ss_post xxh i s =
     rbind (uat (ss_slots s) i) (\<lambda>slot.
     rbind (slice (ps_data slot) 0 (unat (ps_size slot))) (\<lambda>data.
       if ss_tail s = 0 then Inl Undefined_behaviour
       else
         let (ok, q) = qp_post (i, ss_next_send s mod ss_tail s, 16 + ps_size slot) (ss_qp s) in
         if \<not> ok then Inl (Runtime_error ''Error while posting RDMA write.'')
         else Inr (s\<lparr>ss_slots := (ss_slots s)[i := slot\<lparr>ps_hash := xxh data\<rparr>], ss_qp := q,
                     ss_outstanding := ss_outstanding s + 1, ss_to_send := tl (ss_to_send s),
                     ss_next_send := ss_next_send s + 1\<rparr>)))"

fun ss_push_from :: "(bytes \<Rightarrow> u64) \<Rightarrow> nat list \<Rightarrow> sync_sender \<Rightarrow> sync_sender result" where
  "ss_push_from xxh [] s = Inr s"
| "ss_push_from xxh (i # is) s =
     (if ss_next_send s < ss_send_before s \<and> ss_outstanding s < WrDepth
      then rbind (ss_post xxh i s) (ss_push_from xxh is) else Inr s)"

definition ss_push :: "(bytes \<Rightarrow> u64) \<Rightarrow> sync_sender \<Rightarrow> sync_sender result" where
  "ss_push xxh s = ss_push_from xxh (ss_to_send s) s"

definition ss_completed :: "bool \<times> nat \<Rightarrow> sync_sender \<Rightarrow> sync_sender result" where
  "ss_completed wc s =
     (if \<not> fst wc then Inl (Runtime_error ''Error in RDMA WRITE: {}'')
      else rbind (rg_release (ss_ring s)) (\<lambda>g. Inr (s\<lparr>ss_ring := g, ss_outstanding := ss_outstanding s - 1\<rparr>)))"

definition ss_tick :: "(bytes \<Rightarrow> u64) \<Rightarrow> sync_sender \<Rightarrow> sync_sender result" where
  "ss_tick xxh s =
     rbind (if ss_outstanding s = 0 then Inr s
            else case qp_poll (unat (ss_outstanding s)) (ss_qp s) of
                   None \<Rightarrow> Inl (Runtime_error ''Error while polling CQ.'')
                 | Some (wcs, q) \<Rightarrow> rfold ss_completed wcs (s\<lparr>ss_qp := q\<rparr>))
       (ss_push xxh)"

definition ss_send :: "(bytes \<Rightarrow> u64) \<Rightarrow> sync_sender \<Rightarrow> sync_sender result" where
  "ss_send xxh s = ss_push xxh (s\<lparr>ss_send_before := ss_next_slot s\<rparr>)"

section \<open>AsyncSender\<close>

record async_sender =
  as_pool :: pool
  as_being_written :: "buffer list"
  as_tail_buffer :: "buffer list"
  as_sender :: sync_sender
  as_calls :: u64

definition as_new :: "(nat \<Rightarrow> byte) \<Rightarrow> u64 \<Rightarrow> u64 \<Rightarrow> u64 \<Rightarrow> u64 \<Rightarrow> async_sender result" where
  "as_new junk tail max_msg_size mr_size remote_size =
     rbind (ss_new tail max_msg_size mr_size remote_size) (\<lambda>s.
     Inr \<lparr>as_pool = pool_new junk tail max_msg_size, as_being_written = [], as_tail_buffer = [], as_sender = s, as_calls = 0\<rparr>)"

fun as_push_from :: "(nat \<Rightarrow> byte) \<Rightarrow> (bytes \<Rightarrow> u64) \<Rightarrow> buffer list \<Rightarrow> async_sender \<Rightarrow> async_sender result" where
  "as_push_from junk xxh [] a = Inr a"
| "as_push_from junk xxh (b # bs) a =
     rbind (ss_get_slot (ucast (buffer_size b)) (as_sender a)) (\<lambda>(opt_slot, s).
       case opt_slot of
         None \<Rightarrow> Inr (a\<lparr>as_sender := s\<rparr>)
       | Some i \<Rightarrow>
           rbind (ss_memcpy i (buffer_bytes b) s) (\<lambda>s1.
           rbind (buffer_destroy junk b (as_pool a)) (\<lambda>p.
           rbind (ss_send xxh s1) (\<lambda>s2.
           as_push_from junk xxh bs (a\<lparr>as_sender := s2, as_tail_buffer := bs, as_pool := p\<rparr>)))))"

definition as_push :: "(nat \<Rightarrow> byte) \<Rightarrow> (bytes \<Rightarrow> u64) \<Rightarrow> async_sender \<Rightarrow> async_sender result" where
  "as_push junk xxh a = as_push_from junk xxh (as_tail_buffer a) a"

datatype p2p_pointer = In_slot nat | In_buffer

definition as_get_slot ::
  "(nat \<Rightarrow> byte) \<Rightarrow> (bytes \<Rightarrow> u64) \<Rightarrow> u32 \<Rightarrow> async_sender \<Rightarrow> (p2p_pointer \<times> async_sender) result" where
  "as_get_slot junk xxh sz a =
     rbind (as_push junk xxh a) (\<lambda>a1.
     rbind (ss_get_slot sz (as_sender a1)) (\<lambda>(opt_slot, s).
       let a2 = a1\<lparr>as_sender := s\<rparr> in
       case opt_slot of
         Some i \<Rightarrow> Inr (In_slot i, a2)
       | None \<Rightarrow>
           rbind (pool_take junk (Some (ucast sz)) (as_pool a2)) (\<lambda>(opt_buffer, p).
             case opt_buffer of
               Some b \<Rightarrow> Inr (In_buffer, a2\<lparr>as_pool := p, as_being_written := as_being_written a2 @ [b]\<rparr>)
             | None \<Rightarrow>
                 (case as_tail_buffer a2 of
                    [] \<Rightarrow> Inl (Runtime_error ''Called getSlot too many times without calling send.'')
                  | b # bs \<Rightarrow>
                      rbind (buffer_resize junk (ucast sz) b) (\<lambda>b'.
                      Inr (In_buffer, a2\<lparr>as_pool := p, as_tail_buffer := bs, as_being_written := as_being_written a2 @ [b']\<rparr>))))))"

definition as_memcpy :: "p2p_pointer \<Rightarrow> bytes \<Rightarrow> async_sender \<Rightarrow> async_sender result" where
  "as_memcpy ptr data a =
     (case ptr of
        In_slot i \<Rightarrow> rbind (ss_memcpy i data (as_sender a)) (\<lambda>s. Inr (a\<lparr>as_sender := s\<rparr>))
      | In_buffer \<Rightarrow>
          (if as_being_written a = [] then Inl Undefined_behaviour
           else
             let b = last (as_being_written a) in
             rbind (wr_bytes (dynarray b) (unat (left_offset b)) data) (\<lambda>d.
             Inr (a\<lparr>as_being_written := butlast (as_being_written a) @ [b\<lparr>dynarray := d\<rparr>]\<rparr>))))"

definition as_push_to_tail :: "async_sender \<Rightarrow> async_sender" where
  "as_push_to_tail a = a\<lparr>as_tail_buffer := as_tail_buffer a @ as_being_written a, as_being_written := []\<rparr>"

definition as_send :: "(nat \<Rightarrow> byte) \<Rightarrow> (bytes \<Rightarrow> u64) \<Rightarrow> async_sender \<Rightarrow> async_sender result" where
  "as_send junk xxh a =
     rbind (ss_send xxh (as_sender a)) (\<lambda>s. as_push junk xxh (as_push_to_tail (a\<lparr>as_sender := s\<rparr>)))"

definition as_tick :: "(nat \<Rightarrow> byte) \<Rightarrow> (bytes \<Rightarrow> u64) \<Rightarrow> async_sender \<Rightarrow> async_sender result" where
  "as_tick junk xxh a = rbind (ss_tick xxh (as_sender a)) (\<lambda>s. as_push junk xxh (a\<lparr>as_sender := s\<rparr>))"

definition as_tick_every :: "(nat \<Rightarrow> byte) \<Rightarrow> (bytes \<Rightarrow> u64) \<Rightarrow> u64 \<Rightarrow> async_sender \<Rightarrow> async_sender result" where
  "as_tick_every junk xxh calls a =
     (if calls \<le> as_calls a + 1
      then rbind (as_tick junk xxh (a\<lparr>as_calls := as_calls a + 1\<rparr>)) (\<lambda>a'. Inr (a'\<lparr>as_calls := 0\<rparr>))
      else Inr (a\<lparr>as_calls := as_calls a + 1\<rparr>))"

definition as_tick_for_correctness :: "(nat \<Rightarrow> byte) \<Rightarrow> (bytes \<Rightarrow> u64) \<Rightarrow> async_sender \<Rightarrow> async_sender result" where
  "as_tick_for_correctness junk xxh a = as_tick_every junk xxh 256 a"

section \<open>Receiver\<close>

type_synonym msg_id = "u32 \<times> u64"

definition first_msg :: msg_id where
  "first_msg = (1, 0)"

definition id_less :: "msg_id \<Rightarrow> msg_id \<Rightarrow> bool" where
  "id_less a b \<longleftrightarrow> fst a < fst b \<or> (fst a = fst b \<and> snd a < snd b)"

record p2p_receiver =
  pr_tail :: u64
  pr_slot_size :: u64
  pr_straggling :: "msg_id option"
  pr_next :: msg_id
  pr_best :: msg_id

definition pr_new :: "u64 \<Rightarrow> u64 \<Rightarrow> u64 \<Rightarrow> u64 \<Rightarrow> p2p_receiver result" where
  "pr_new tail max_msg_size mr_size remote_size =
     (if mr_size < p2p_buffer_size tail max_msg_size
      then Inl (Runtime_error ''Buffer is not large enough to store the tail: {} required, {} given.'')
      else if mr_size \<noteq> remote_size then Inl (Runtime_error ''Local and remote MR sizes do not match ({} vs {}).'')
      else Inr \<lparr>pr_tail = tail, pr_slot_size = p2p_slot_size max_msg_size, pr_straggling = None,
             pr_next = first_msg, pr_best = first_msg\<rparr>)"

definition pr_successor :: "p2p_receiver \<Rightarrow> msg_id \<Rightarrow> msg_id" where
  "pr_successor r m =
     (if pr_tail r \<le> snd m + 1 then (fst m + 1, 0) else (fst m, snd m + 1))"

text \<open>
  One attempt reads the incarnation, then hash and size, then the bytes, then the incarnation again.
  \<open>ob_data\<close> are the bytes from the data of the slot to the end of the memory region.
\<close>

record p2p_obs =
  ob_incarnation :: u32
  ob_hash :: u64
  ob_size :: u32
  ob_data :: bytes
  ob_again :: u32

datatype try_result = Polled bytes | Empty | Straggling

definition pr_try_poll ::
  "(bytes \<Rightarrow> u64) \<Rightarrow> nat \<Rightarrow> p2p_obs \<Rightarrow> p2p_receiver \<Rightarrow> (try_result \<times> p2p_receiver) result" where
  "pr_try_poll xxh capacity ob r =
     (if ob_incarnation ob < fst (pr_best r) then Inr (Empty, r)
      else
        let scanning = (ob_incarnation ob, snd (pr_next r)) in
        if scanning = pr_best r \<or> (case pr_straggling r of None \<Rightarrow> False | Some m \<Rightarrow> id_less scanning m) then
          rbind (slice (ob_data ob) 0 (unat (ob_size ob))) (\<lambda>data.
            if capacity < length data then Inl Undefined_behaviour
            else if ob_incarnation ob \<noteq> ob_again ob then Inr (Straggling, r)
            else if ob_hash ob = xxh data then
              Inr (Polled data, r\<lparr>pr_best := pr_successor r scanning, pr_next := pr_successor r scanning\<rparr>)
            else Inr (Straggling, r))
        else Inr (Straggling, r\<lparr>pr_straggling := Some scanning, pr_next := pr_successor r scanning\<rparr>))"

text \<open>\<open>obs\<close>: what the attempts that are left read from the slot they look at.\<close>

fun pr_tries ::
  "(bytes \<Rightarrow> u64) \<Rightarrow> nat \<Rightarrow> (u64 \<Rightarrow> p2p_obs) list \<Rightarrow> p2p_receiver \<Rightarrow> (bytes option \<times> p2p_receiver) result" where
  "pr_tries xxh capacity [] r = Inr (None, r)"
| "pr_tries xxh capacity (ob # obs) r =
     rbind (pr_try_poll xxh capacity (ob (snd (pr_next r))) r) (\<lambda>(res, r').
       case res of
         Polled data \<Rightarrow> Inr (Some data, r')
       | Empty \<Rightarrow> Inr (None, r')
       | Straggling \<Rightarrow> pr_tries xxh capacity obs r')"

definition pr_poll ::
  "(bytes \<Rightarrow> u64) \<Rightarrow> nat \<Rightarrow> (nat \<Rightarrow> u64 \<Rightarrow> p2p_obs) \<Rightarrow> p2p_receiver \<Rightarrow> (bytes option \<times> p2p_receiver) result" where
  "pr_poll xxh capacity obs r = pr_tries xxh capacity (map obs [0 ..< unat (pr_tail r)]) r"

end
