(* ===== verification/P2p_Receiver.thy ===== *)
theory P2p_Receiver
  imports P2p
begin

text \<open>
  The receiver of a point-to-point link whose sender is correct. Message number \<open>n\<close> goes to slot \<open>n mod T\<close> with
  incarnation \<open>n div T + 1\<close>, where \<open>T\<close> is the tail. When the headers of the first \<open>L\<close> messages have arrived, the
  incarnation in slot \<open>j\<close> is \<open>landed T L j\<close>; the hash tells whether the rest of the slot has arrived too.
\<close>

definition id_of :: "nat \<Rightarrow> nat \<Rightarrow> msg_id" where
  "id_of T n = (of_nat (n div T + 1), of_nat (n mod T))"

definition landed :: "nat \<Rightarrow> nat \<Rightarrow> nat \<Rightarrow> nat" where
  "landed T L j = (L + T - 1 - j) div T"

definition latest :: "nat \<Rightarrow> nat \<Rightarrow> nat \<Rightarrow> nat" where
  "latest T L j = (landed T L j - 1) * T + j"

text \<open>Incarnations do not overflow before message number \<open>n\<close>.\<close>

definition link_fits :: "nat \<Rightarrow> nat \<Rightarrow> bool" where
  "link_fits T n \<longleftrightarrow> 0 < T \<and> T < 18446744073709551616 \<and> n div T + 2 < 4294967296"

lemma link_fits_mono: "link_fits T n \<Longrightarrow> m \<le> n \<Longrightarrow> link_fits T m"
  using div_le_mono [of m n T] by (simp add: link_fits_def)

lemma unat_u32_of_nat: "n < 4294967296 \<Longrightarrow> unat (of_nat n :: u32) = n"
  by (simp add: unsigned_of_nat take_bit_nat_eq_self)

lemma id_of_parts:
  assumes "link_fits T n"
  shows "unat (fst (id_of T n)) = n div T + 1" "unat (snd (id_of T n)) = n mod T"
proof -
  have "n mod T < 18446744073709551616" using assms by (auto simp: link_fits_def intro: less_trans [OF mod_less_divisor])
  then show "unat (snd (id_of T n)) = n mod T" by (simp add: id_of_def unat_u64_of_nat)
  have "unat (of_nat (n div T + 1) :: u32) = n div T + 1" using assms by (intro unat_u32_of_nat) (simp add: link_fits_def)
  then show "unat (fst (id_of T n)) = n div T + 1" by (simp add: id_of_def)
qed

lemma div_mod_less:
  fixes m n T :: nat
  assumes "0 < T"
  shows "m < n \<longleftrightarrow> m div T < n div T \<or> (m div T = n div T \<and> m mod T < n mod T)"
proof -
  have m: "m = m div T * T + m mod T" and n: "n = n div T * T + n mod T" by simp_all
  have lt: "a * T + i < c * T + j" if "a < c" "i < T" for a c i j :: nat
  proof -
    have "Suc a * T \<le> c * T" using that(1) by (intro mult_right_mono) simp_all
    with that(2) show ?thesis by simp
  qed
  consider "m div T < n div T" | "m div T = n div T" | "n div T < m div T" by linarith
  then show ?thesis
  proof cases
    case 1
    with lt [OF 1, of "m mod T" "n mod T"] assms m n show ?thesis by simp
  next
    case 2
    with m n show ?thesis by (metis nat_add_left_cancel_less less_irrefl)
  next
    case 3
    with lt [OF 3, of "n mod T" "m mod T"] assms m n show ?thesis by simp
  qed
qed

lemma id_less_of: "link_fits T m \<Longrightarrow> link_fits T n \<Longrightarrow> id_less (id_of T m) (id_of T n) \<longleftrightarrow> m < n"
  using div_mod_less [of T m n]
  by (simp add: id_less_def id_of_parts word_less_nat_alt u64_less_iff word_unat_eq_iff link_fits_def)

lemma id_of_eq: "link_fits T m \<Longrightarrow> link_fits T n \<Longrightarrow> id_of T m = id_of T n \<longleftrightarrow> m = n"
  by (metis id_less_of linorder_neq_iff)

lemma landed_latest:
  assumes "j < T" "0 < landed T L j"
  shows "latest T L j < L" "latest T L j mod T = j" "L \<le> latest T L j + T" "latest T L j div T + 1 = landed T L j"
proof -
  let ?k = "landed T L j"
  have k: "?k * T \<le> L + T - 1 - j" "L + T - 1 - j < ?k * T + T"
    using div_mult_mod_eq [of "L + T - 1 - j" T] mod_less_divisor [of T "L + T - 1 - j"] assms(1)
    unfolding landed_def by linarith+
  have kT: "?k * T = (?k - 1) * T + T" using assms(2) by (cases ?k) simp_all
  then have le: "(?k - 1) * T + T \<le> L + T - 1 - j" using k(1) by simp
  then have "(?k - 1) * T + 1 + j \<le> L" using assms by linarith
  then show "latest T L j < L" by (simp add: latest_def)
  show "latest T L j mod T = j" using assms(1) by (simp add: latest_def)
  show "L \<le> latest T L j + T" using k(2) kT assms(1) unfolding latest_def by linarith
  show "latest T L j div T + 1 = ?k" using assms by (simp add: latest_def)
qed

lemma latest_unique:
  fixes m n :: nat
  assumes "m mod T = n mod T" "m < L" "n < L" "L \<le> m + T" "L \<le> n + T"
  shows "m = n"
proof -
  have "False" if "a < b" "a mod T = b mod T" "b < L" "L \<le> a + T" for a b :: nat
  proof -
    have "T dvd b - a" using that(1,2) by (metis mod_eq_dvd_iff_nat less_imp_le)
    with that show False by (auto dest!: dvd_imp_le)
  qed
  from this [of m n] this [of n m] assms show ?thesis by (metis linorder_neqE_nat)
qed

lemma landed_pos: "i < L \<Longrightarrow> 0 < T \<Longrightarrow> 0 < landed T L (i mod T)"
proof -
  assume a: "i < L" "0 < T"
  have "i mod T \<le> i" "i mod T < T" using a by simp_all
  then have "T \<le> L + T - 1 - i mod T" using a(1) by linarith
  then show ?thesis using a(2) by (simp add: landed_def div_greater_zero_iff)
qed

lemma latest_is:
  assumes "n < L" "L \<le> n + T" "0 < T"
  shows "latest T L (n mod T) = n"
  using landed_latest [OF mod_less_divisor [OF assms(3)] landed_pos [OF assms(1,3)]] assms
  by (intro latest_unique [of _ T n L]) simp_all

section \<open>The invariant\<close>

definition rinv :: "nat \<Rightarrow> nat \<Rightarrow> nat \<Rightarrow> p2p_receiver \<Rightarrow> bool" where
  "rinv T L b r \<longleftrightarrow> unat (pr_tail r) = T \<and> link_fits T L \<and> b \<le> L \<and> pr_best r = id_of T b \<and>
     (pr_next r = id_of T b \<and> (\<forall>x. pr_straggling r = Some x \<longrightarrow> (\<exists>m. x = id_of T m \<and> m < b + T \<and> m < L)) \<or>
      (\<exists>m. pr_straggling r = Some (id_of T m) \<and> b + T \<le> m \<and> m < L \<and> pr_next r = id_of T (m + 1)))"

lemma pr_successor_of:
  assumes "link_fits T n" "unat (pr_tail r) = T"
  shows "pr_successor r (id_of T n) = id_of T (n + 1)"
proof -
  have n: "unat (snd (id_of T n)) = n mod T" by (rule id_of_parts [OF assms(1)])
  have T: "0 < T" "n mod T < T" using assms(1) by (simp_all add: link_fits_def)
  have s: "unat (snd (id_of T n) + 1) = n mod T + 1"
    using n T assms(2) unat_u64_less [of "pr_tail r"] by (subst unat_u64_Suc) simp_all
  have "(n + 1) mod T = (if n mod T + 1 = T then 0 else n mod T + 1)" "(n + 1) div T = (if n mod T + 1 = T then n div T + 1 else n div T)"
    using T by (simp_all add: mod_Suc div_Suc)
  moreover have "pr_tail r \<le> snd (id_of T n) + 1 \<longleftrightarrow> n mod T + 1 = T"
    using T s assms(2) by (auto simp: u64_le_iff)
  ultimately show ?thesis by (auto simp: pr_successor_def id_of_def)
qed

text \<open>What an attempt reads from slot \<open>j\<close> at a time when \<open>L\<close> headers have arrived.\<close>

definition sees :: "(bytes \<Rightarrow> u64) \<Rightarrow> nat \<Rightarrow> nat \<Rightarrow> bytes list \<Rightarrow> nat \<Rightarrow> nat \<Rightarrow> p2p_obs \<Rightarrow> bool" where
  "sees xxh capacity T ms L j ob \<longleftrightarrow> L \<le> length ms \<and> ob_incarnation ob = of_nat (landed T L j) \<and>
     unat (ob_size ob) \<le> length (ob_data ob) \<and> unat (ob_size ob) \<le> capacity \<and>
     (0 < landed T L j \<and> ob_again ob = ob_incarnation ob \<and> ob_hash ob = xxh (take (unat (ob_size ob)) (ob_data ob)) \<longrightarrow>
        take (unat (ob_size ob)) (ob_data ob) = ms ! latest T L j)"

lemma landed_fits:
  assumes "link_fits T L" "j < T"
  shows "landed T L j < 4294967296"
proof -
  have "landed T L j \<le> (L + T) div T" unfolding landed_def by (rule div_le_mono) simp
  also have "\<dots> = L div T + 1" using assms(2) by (simp add: div_add_self2)
  finally show ?thesis using assms(1) by (simp add: link_fits_def)
qed

lemma rinv_mono: "rinv T L b r \<Longrightarrow> L \<le> L' \<Longrightarrow> link_fits T L' \<Longrightarrow> rinv T L' b r"
  unfolding rinv_def by (meson le_trans less_le_trans)

text \<open>Where the receiver looks, and what it takes the message there to be.\<close>

lemma rinv_slot:
  assumes "rinv T L b r"
  shows "unat (snd (pr_next r)) < T"
proof -
  have T: "0 < T" "link_fits T L" "b \<le> L" using assms by (simp_all add: rinv_def link_fits_def)
  have "pr_next r = id_of T b \<or> (\<exists>m. pr_next r = id_of T (m + 1) \<and> m < L)" using assms unfolding rinv_def by blast
  then show ?thesis
  proof
    assume "pr_next r = id_of T b"
    with id_of_parts(2) [OF link_fits_mono [OF T(2,3)]] T(1) show ?thesis by simp
  next
    assume "\<exists>m. pr_next r = id_of T (m + 1) \<and> m < L"
    then obtain m where m: "pr_next r = id_of T (m + 1)" "m + 1 \<le> L" by auto
    with id_of_parts(2) [OF link_fits_mono [OF T(2) m(2)]] T(1) show ?thesis by simp
  qed
qed

lemma scanning_id:
  assumes "link_fits T L" "j < T" "0 < landed T L j" "unat w = j"
  shows "(of_nat (landed T L j), w) = id_of T (latest T L j)"
proof -
  have "w = of_nat j" using assms(4) by auto
  then show ?thesis using landed_latest(2,4) [OF assms(2,3)] by (simp add: id_of_def)
qed

lemma try_poll_ok:
  assumes inv: "rinv T L b r" and L: "L \<le> L'" "link_fits T L'" and o: "sees xxh capacity T ms L' (unat (snd (pr_next r))) ob"
  shows "\<exists>res r'. pr_try_poll xxh capacity ob r = Inr (res, r') \<and>
    (case res of
       Empty \<Rightarrow> rinv T L' b r'
     | Straggling \<Rightarrow> rinv T L' b r'
     | Polled data \<Rightarrow> \<exists>n. b \<le> n \<and> n < L' \<and> data = ms ! n \<and> rinv T L' (n + 1) r')"
proof -
  let ?j = "unat (snd (pr_next r))" let ?k = "landed T L' ?j" let ?n = "latest T L' ?j"
  have same: "rinv T L' b r" by (rule rinv_mono [OF inv L])
  have T: "0 < T" "unat (pr_tail r) = T" and best: "pr_best r = id_of T b" and b: "b \<le> L'" "link_fits T b"
    using same link_fits_mono [of T L' b] by (simp_all add: rinv_def link_fits_def)
  have j: "?j < T" by (rule rinv_slot [OF inv])
  have k: "unat (ob_incarnation ob) = ?k"
    using o landed_fits [OF L(2) j] by (simp add: sees_def unat_u32_of_nat)
  have data: "slice (ob_data ob) 0 (unat (ob_size ob)) = Inr (take (unat (ob_size ob)) (ob_data ob))"
    and cap: "\<not> capacity < length (take (unat (ob_size ob)) (ob_data ob))"
    using o by (simp_all add: sees_def slice_def)
  show ?thesis
  proof (cases "ob_incarnation ob < fst (pr_best r)")
    case True
    with same show ?thesis by (simp add: pr_try_poll_def)
  next
    case False
    then have kb: "b div T + 1 \<le> ?k"
      using k id_of_parts(1) [OF b(2)] best by (simp add: word_less_nat_alt)
    note n = landed_latest [OF j, of L']
    have pos: "0 < ?k" using kb by simp
    have nL: "?n < L'" "?n mod T = ?j" "L' \<le> ?n + T" "?n div T + 1 = ?k" using n pos by simp_all
    have fn: "link_fits T ?n" using link_fits_mono [OF L(2)] nL(1) by simp
    have scan: "(ob_incarnation ob, snd (pr_next r)) = id_of T ?n"
      using scanning_id [OF L(2) j pos refl] o by (simp add: sees_def)
    have deliver: "\<exists>res r'. pr_try_poll xxh capacity ob r = Inr (res, r') \<and>
        (case res of Empty \<Rightarrow> rinv T L' b r' | Straggling \<Rightarrow> rinv T L' b r'
         | Polled data \<Rightarrow> \<exists>n. b \<le> n \<and> n < L' \<and> data = ms ! n \<and> rinv T L' (n + 1) r')"
      if "id_of T ?n = pr_best r \<or> (case pr_straggling r of None \<Rightarrow> False | Some m \<Rightarrow> id_less (id_of T ?n) m)"
        "b \<le> ?n" "\<And>x. pr_straggling r = Some x \<Longrightarrow> \<exists>m. x = id_of T m \<and> m < ?n + 1 + T \<and> m < L'"
    proof -
      let ?d = "take (unat (ob_size ob)) (ob_data ob)"
      have "?d = ms ! ?n" if "ob_incarnation ob = ob_again ob" "ob_hash ob = xxh ?d"
        using o pos that by (simp add: sees_def)
      moreover have "rinv T L' (?n + 1) (r\<lparr>pr_best := pr_successor r (id_of T ?n), pr_next := pr_successor r (id_of T ?n)\<rparr>)"
        using same T(2) that(3) nL(1) pr_successor_of [OF fn T(2)] by (auto simp: rinv_def)
      ultimately show ?thesis
        using False that(1,2) scan data cap nL(1) same unfolding pr_try_poll_def by (auto simp: Let_def)
    qed
    have straggle: "\<exists>res r'. pr_try_poll xxh capacity ob r = Inr (res, r') \<and>
        (case res of Empty \<Rightarrow> rinv T L' b r' | Straggling \<Rightarrow> rinv T L' b r'
         | Polled data \<Rightarrow> \<exists>n. b \<le> n \<and> n < L' \<and> data = ms ! n \<and> rinv T L' (n + 1) r')"
      if "\<not> (id_of T ?n = pr_best r \<or> (case pr_straggling r of None \<Rightarrow> False | Some m \<Rightarrow> id_less (id_of T ?n) m))" "b + T \<le> ?n"
    proof -
      have "rinv T L' b (r\<lparr>pr_straggling := Some (id_of T ?n), pr_next := pr_successor r (id_of T ?n)\<rparr>)"
        using same that(2) nL(1) pr_successor_of [OF fn T(2)] by (auto simp: rinv_def)
      with False that(1) scan show ?thesis unfolding pr_try_poll_def by (auto simp: Let_def)
    qed
    from same consider
        (at) "pr_next r = id_of T b" "\<And>x. pr_straggling r = Some x \<Longrightarrow> \<exists>m. x = id_of T m \<and> m < b + T \<and> m < L'"
      | (past) m where "pr_straggling r = Some (id_of T m)" "b + T \<le> m" "m < L'" "pr_next r = id_of T (m + 1)"
      unfolding rinv_def by blast
    then show ?thesis
    proof cases
      case at
      have jb: "?n mod T = b mod T" using at(1) id_of_parts(2) [OF b(2)] nL(2) by simp
      have ge: "b \<le> ?n"
      proof -
        have "b div T \<le> ?n div T" using kb nL(4) by simp
        then show ?thesis using jb T(1) div_mod_less [of T ?n b] by (metis less_irrefl not_le)
      qed
      show ?thesis
      proof (cases "?n = b")
        case True
        show ?thesis
        proof (rule deliver)
          show "id_of T ?n = pr_best r \<or> (case pr_straggling r of None \<Rightarrow> False | Some m \<Rightarrow> id_less (id_of T ?n) m)"
            using True best by simp
          show "\<exists>m. x = id_of T m \<and> m < ?n + 1 + T \<and> m < L'" if "pr_straggling r = Some x" for x
            using at(2) [OF that] True by auto
        qed (rule ge)
      next
        case False
        have "T dvd ?n - b" using jb ge by (metis mod_eq_dvd_iff_nat)
        then have far: "b + T \<le> ?n" using False ge by (auto dest!: dvd_imp_le)
        show ?thesis
        proof (rule straggle [OF _ far])
          have "\<not> id_less (id_of T ?n) x" if x: "pr_straggling r = Some x" for x
          proof -
            obtain m where m: "x = id_of T m" "m < b + T" "m < L'" using at(2) [OF x] by blast
            have "link_fits T m" using link_fits_mono [OF L(2)] m(3) by simp
            then show ?thesis using m far id_less_of [OF fn] by simp
          qed
          then show "\<not> (id_of T ?n = pr_best r \<or> (case pr_straggling r of None \<Rightarrow> False | Some m \<Rightarrow> id_less (id_of T ?n) m))"
            using False best id_of_eq [OF fn b(2)] by (auto split: option.split)
        qed
      qed
    next
      case (past m)
      have fm: "link_fits T m" "link_fits T (m + 1)" using link_fits_mono [OF L(2)] past(3) by simp_all
      have jm: "?n mod T = (m + 1) mod T" using past(4) id_of_parts(2) [OF fm(2)] nL(2) by simp
      have low: "m + 1 \<le> ?n + T" using nL(3) past(3) by simp
      have nb: "?n \<noteq> b" "b \<le> ?n" using low past(2) by simp_all
      show ?thesis
      proof (cases "?n < m")
        case True
        show ?thesis
          by (rule deliver) (use True nb past low id_less_of [OF fn fm(1)] in auto)
      next
        case False
        show ?thesis
          by (rule straggle) (use False nb past best id_less_of [OF fn fm(1)] id_of_eq [OF fn b(2)] in auto)
      qed
    qed
  qed
qed

section \<open>Polls\<close>

text \<open>Attempts at times when \<open>Ls\<close> headers have arrived.\<close>

definition attempts ::
  "(bytes \<Rightarrow> u64) \<Rightarrow> nat \<Rightarrow> nat \<Rightarrow> bytes list \<Rightarrow> nat \<Rightarrow> nat list \<Rightarrow> (u64 \<Rightarrow> p2p_obs) list \<Rightarrow> bool" where
  "attempts xxh capacity T ms L Ls obs \<longleftrightarrow> length Ls = length obs \<and> sorted (L # Ls) \<and>
     (\<forall>i < length obs. \<forall>w. unat w < T \<longrightarrow> sees xxh capacity T ms (Ls ! i) (unat w) ((obs ! i) w))"

lemma attempts_Cons:
  "attempts xxh capacity T ms L Ls (ob # obs) \<longleftrightarrow> (\<exists>L' Ls'. Ls = L' # Ls' \<and> L \<le> L' \<and>
     (\<forall>w. unat w < T \<longrightarrow> sees xxh capacity T ms L' (unat w) (ob w)) \<and> attempts xxh capacity T ms L' Ls' obs)"
proof (cases Ls)
  case (Cons L' Ls')
  then show ?thesis by (auto simp: attempts_def All_less_Suc2)
qed (simp add: attempts_def)

lemma tries_ok:
  assumes "rinv T L b r" "attempts xxh capacity T ms L Ls obs" "\<forall>l \<in> set Ls. link_fits T l"
  shows "\<exists>res r' L'. pr_tries xxh capacity obs r = Inr (res, r') \<and> L' \<in> set (L # Ls) \<and>
    (case res of
       None \<Rightarrow> rinv T L' b r'
     | Some data \<Rightarrow> \<exists>n. b \<le> n \<and> n < L' \<and> data = ms ! n \<and> rinv T L' (n + 1) r')"
  using assms
proof (induction obs arbitrary: L Ls r)
  case Nil
  then show ?case by auto
next
  case (Cons ob obs)
  from Cons.prems(2) obtain L' Ls' where Ls: "Ls = L' # Ls'" "L \<le> L'"
    and w: "\<forall>w. unat w < T \<longrightarrow> sees xxh capacity T ms L' (unat w) (ob w)" and rest: "attempts xxh capacity T ms L' Ls' obs"
    unfolding attempts_Cons by blast
  have f: "link_fits T L'" using Cons.prems(3) Ls(1) by simp
  obtain res r1 where one: "pr_try_poll xxh capacity (ob (snd (pr_next r))) r = Inr (res, r1)"
    "case res of Empty \<Rightarrow> rinv T L' b r1 | Straggling \<Rightarrow> rinv T L' b r1
       | Polled data \<Rightarrow> \<exists>n. b \<le> n \<and> n < L' \<and> data = ms ! n \<and> rinv T L' (n + 1) r1"
    using try_poll_ok [OF Cons.prems(1) Ls(2) f] w rinv_slot [OF Cons.prems(1)] by blast
  show ?case
  proof (cases res)
    case (Polled data)
    with one Ls(1) show ?thesis by auto
  next
    case Empty
    with one Ls(1) show ?thesis by auto
  next
    case Straggling
    with one(2) have "rinv T L' b r1" by simp
    from Cons.IH [OF this rest] Cons.prems(3) Ls(1) obtain res' r' L'' where "pr_tries xxh capacity obs r1 = Inr (res', r')"
      "L'' \<in> set (L' # Ls')" "case res' of None \<Rightarrow> rinv T L'' b r'
         | Some data \<Rightarrow> \<exists>n. b \<le> n \<and> n < L'' \<and> data = ms ! n \<and> rinv T L'' (n + 1) r'"
      by auto
    with one(1) Straggling Ls(1) show ?thesis by auto
  qed
qed

text \<open>Polls of a receiver, from its constructor on: \<open>ds\<close> is what they returned.\<close>

inductive link_run ::
  "(bytes \<Rightarrow> u64) \<Rightarrow> nat \<Rightarrow> nat \<Rightarrow> bytes list \<Rightarrow> nat \<Rightarrow> p2p_receiver \<Rightarrow> bytes list \<Rightarrow> bool"
  for xxh capacity T ms where
  link_new: "pr_new tail sz mr rm = Inr r \<Longrightarrow> unat tail = T \<Longrightarrow> link_run xxh capacity T ms 0 r []"
| link_poll: "link_run xxh capacity T ms L r ds \<Longrightarrow> attempts xxh capacity T ms L Ls (map obs [0 ..< T]) \<Longrightarrow>
    pr_poll xxh capacity obs r = Inr (res, r') \<Longrightarrow>
    link_run xxh capacity T ms (last (L # Ls)) r' (case res of None \<Rightarrow> ds | Some d \<Rightarrow> ds @ [d])"

lemma pr_new_rinv:
  assumes "pr_new tail sz mr rm = Inr r" "unat tail = T" "link_fits T L"
  shows "rinv T L 0 r"
  using assms by (auto simp: pr_new_def rinv_def first_msg_def id_of_def link_fits_def split: if_splits)

lemma sorted_last: "sorted (L # Ls) \<Longrightarrow> x \<in> set (L # Ls) \<Longrightarrow> x \<le> last (L # Ls)"
  by (induction Ls arbitrary: L x) (auto split: if_splits)

lemma attempts_bound:
  "attempts xxh capacity T ms L Ls obs \<Longrightarrow> 0 < T \<Longrightarrow> l \<in> set Ls \<Longrightarrow> l \<le> length ms"
proof -
  assume a: "attempts xxh capacity T ms L Ls obs" "0 < T" "l \<in> set Ls"
  then obtain i where i: "i < length Ls" "l = Ls ! i" by (metis in_set_conv_nth)
  then have "\<forall>w. unat w < T \<longrightarrow> sees xxh capacity T ms (Ls ! i) (unat w) ((obs ! i) w)" using a(1) by (simp add: attempts_def)
  from this [THEN spec, of 0] have "sees xxh capacity T ms (Ls ! i) (unat (0 :: u64)) ((obs ! i) 0)" using a(2) by simp
  with i show ?thesis by (simp add: sees_def)
qed

text \<open>The message after those that were delivered.\<close>

definition next_up :: "nat list \<Rightarrow> nat" where
  "next_up ns = (if ns = [] then 0 else last ns + 1)"

lemma next_up_above: "sorted_wrt (<) ns \<Longrightarrow> n \<in> set ns \<Longrightarrow> n < next_up ns"
  by (induction ns rule: rev_induct) (auto simp: next_up_def sorted_wrt_append)

lemma next_up_append: "sorted_wrt (<) ns \<Longrightarrow> next_up ns \<le> n \<Longrightarrow> sorted_wrt (<) (ns @ [n])"
  using next_up_above [of ns] by (fastforce simp: sorted_wrt_append)

lemma link_run_ok:
  assumes "link_run xxh capacity T ms L r ds" "link_fits T (length ms)"
  shows "L \<le> length ms \<and> (\<exists>ns. rinv T L (next_up ns) r \<and> ds = map ((!) ms) ns \<and> sorted_wrt (<) ns)"
  using assms(1)
proof induction
  case (link_new tail sz mr rm r)
  have "link_fits T 0" by (rule link_fits_mono [OF assms(2)]) simp
  from pr_new_rinv [OF link_new this] have "rinv T 0 (next_up []) r \<and> [] = map ((!) ms) [] \<and> sorted_wrt (<) ([] :: nat list)"
    by (simp add: next_up_def)
  then show ?case by blast
next
  case (link_poll L r ds Ls obs res r')
  then obtain ns where b: "rinv T L (next_up ns) r" "ds = map ((!) ms) ns" "sorted_wrt (<) ns" "L \<le> length ms"
    by blast
  have T: "unat (pr_tail r) = T" "0 < T" using b(1) by (simp_all add: rinv_def link_fits_def)
  have le: "l \<le> length ms" if "l \<in> set (L # Ls)" for l
    using attempts_bound [OF link_poll.hyps(2) T(2)] b(4) that by auto
  have f: "link_fits T l" if "l \<in> set (L # Ls)" for l by (rule link_fits_mono [OF assms(2) le [OF that]])
  obtain L' where L': "L' \<in> set (L # Ls)" "case res of None \<Rightarrow> rinv T L' (next_up ns) r'
     | Some data \<Rightarrow> \<exists>n. next_up ns \<le> n \<and> n < L' \<and> data = ms ! n \<and> rinv T L' (n + 1) r'"
    using tries_ok [OF b(1) link_poll.hyps(2)] f link_poll.hyps(3) T(1) by (auto simp: pr_poll_def)
  have last: "last (L # Ls) \<in> set (L # Ls)" by (rule last_in_set) simp
  have up: "rinv T (last (L # Ls)) c r'" if "rinv T L' c r'" for c
    using rinv_mono [OF that sorted_last [OF _ L'(1)] f [OF last]] link_poll.hyps(2) by (simp add: attempts_def)
  show ?case
  proof (cases res)
    case None
    with L'(2) up have "rinv T (last (L # Ls)) (next_up ns) r'" by simp
    with b le [OF last] None show ?thesis by (intro conjI exI [of _ ns]) simp_all
  next
    case (Some d)
    with L'(2) obtain n where n: "next_up ns \<le> n" "d = ms ! n" "rinv T L' (n + 1) r'" by auto
    have "sorted_wrt (<) (ns @ [n])" by (rule next_up_append [OF b(3) n(1)])
    moreover have "rinv T (last (L # Ls)) (next_up (ns @ [n])) r'" using up [OF n(3)] by (simp add: next_up_def)
    ultimately show ?thesis
      using b(2) n(2) Some le [OF last] by (intro conjI exI [of _ "ns @ [n]"]) simp_all
  qed
qed

text \<open>Messages are delivered in the order in which they were sent, none twice.\<close>

lemma link_in_order:
  assumes "link_run xxh capacity T ms L r ds" "link_fits T (length ms)"
  shows "\<exists>ns. ds = map ((!) ms) ns \<and> sorted_wrt (<) ns \<and> (\<forall>n \<in> set ns. n < length ms)"
proof -
  obtain ns where ns: "rinv T L (next_up ns) r" "ds = map ((!) ms) ns" "sorted_wrt (<) ns" "L \<le> length ms"
    using link_run_ok [OF assms] by blast
  have "n < length ms" if "n \<in> set ns" for n
    using next_up_above [OF ns(3) that] ns(1,4) by (simp add: rinv_def)
  with ns show ?thesis by (intro exI [of _ ns]) simp
qed

end
