(* ===== verification/P2p_Sender.thy ===== *)
theory P2p_Sender
  imports P2p_Receiver
begin

text \<open>
  The sender of a point-to-point link. The network card copies the slots of the requests it completes, oldest first;
  \<open>wire\<close> is what it has copied: the slot of the remote ring and the contents of the local one. Message number \<open>n\<close>
  is copied to slot \<open>n mod T\<close> with incarnation \<open>n div T + 1\<close>: what \<open>P2p_Receiver\<close> expects of a correct sender.
\<close>

type_synonym copied = "u64 \<times> p2p_slot"

definition ss_copies :: "nat \<Rightarrow> sync_sender \<Rightarrow> copied list" where
  "ss_copies k s = map (\<lambda>(i, r, len). (r, ss_slots s ! i)) (take k (qp_sq (ss_qp s)))"

text \<open>What a client and the card do with a sender: \<open>ms\<close> are the messages it was given.\<close>

inductive sender_run :: "(bytes \<Rightarrow> u64) \<Rightarrow> nat \<Rightarrow> sync_sender \<Rightarrow> bytes list \<Rightarrow> copied list \<Rightarrow> bool" for xxh T where
  sender_new: "ss_new tail sz mr rm = Inr s \<Longrightarrow> unat tail = T \<Longrightarrow> 0 < T \<Longrightarrow> sender_run xxh T s [] []"
| sender_put: "sender_run xxh T s ms wire \<Longrightarrow> ss_get_slot sz s = Inr (Some i, s1) \<Longrightarrow> unat sz = length m \<Longrightarrow>
    ss_memcpy i m s1 = Inr s2 \<Longrightarrow> sender_run xxh T s2 (ms @ [m]) wire"
| sender_full: "sender_run xxh T s ms wire \<Longrightarrow> ss_get_slot sz s = Inr (None, s1) \<Longrightarrow> sender_run xxh T s1 ms wire"
| sender_send: "sender_run xxh T s ms wire \<Longrightarrow> ss_send xxh s = Inr s1 \<Longrightarrow> sender_run xxh T s1 ms wire"
| sender_tick: "sender_run xxh T s ms wire \<Longrightarrow> ss_tick xxh s = Inr s1 \<Longrightarrow> sender_run xxh T s1 ms wire"
| sender_card: "sender_run xxh T s ms wire \<Longrightarrow>
    sender_run xxh T (s\<lparr>ss_qp := qp_complete k (ss_qp s)\<rparr>) ms (wire @ ss_copies k s)"
| sender_fault: "sender_run xxh T s ms wire \<Longrightarrow>
    sender_run xxh T (s\<lparr>ss_qp := (ss_qp s)\<lparr>qp_post_ok := p, qp_poll_ok := q\<rparr>\<rparr>) ms wire"

text \<open>The slot of message \<open>n\<close>, with or without its hash.\<close>

definition holds_msg :: "nat \<Rightarrow> bytes list \<Rightarrow> nat \<Rightarrow> p2p_slot \<Rightarrow> bool" where
  "holds_msg T ms n slot \<longleftrightarrow> ps_incarnation slot = of_nat (n div T + 1) \<and> unat (ps_size slot) = length (ms ! n) \<and>
     take (length (ms ! n)) (ps_data slot) = ms ! n"

definition wired :: "(bytes \<Rightarrow> u64) \<Rightarrow> nat \<Rightarrow> bytes list \<Rightarrow> nat \<Rightarrow> copied \<Rightarrow> bool" where
  "wired xxh T ms n c \<longleftrightarrow> fst c = of_nat (n mod T) \<and> holds_msg T ms n (snd c) \<and> ps_hash (snd c) = xxh (ms ! n)"

text \<open>
  \<open>F\<close> slots were released, \<open>C\<close> completions polled, \<open>W\<close> slots copied and \<open>P\<close> requests posted. Between the polling
  of completions and their treatment \<open>F\<close> is behind \<open>C\<close>.
\<close>

definition sender_inv ::
  "(bytes \<Rightarrow> u64) \<Rightarrow> nat \<Rightarrow> bytes list \<Rightarrow> nat \<Rightarrow> nat \<Rightarrow> nat \<Rightarrow> nat \<Rightarrow> sync_sender \<Rightarrow> bool" where
  "sender_inv xxh T ms F C W P s \<longleftrightarrow>
     0 < T \<and> unat (ss_tail s) = T \<and> length (ss_slots s) = T \<and> length ms + T < 18446744073709551616 \<and>
     rg_elems (ss_ring s) = ss_tail s \<and> rg_next_alloc (ss_ring s) = ss_next_slot s \<and>
     unat (ss_next_slot s) = length ms \<and> unat (rg_next_free (ss_ring s)) = F \<and> unat (ss_next_send s) = P \<and>
     F \<le> C \<and> C \<le> W \<and> W \<le> P \<and> P \<le> length ms \<and> length ms \<le> F + T \<and> unat (ss_outstanding s) = P - F \<and>
     ss_to_send s = map (\<lambda>n. n mod T) [P ..< length ms] \<and>
     map (\<lambda>(i, r, len). (i, r)) (qp_sq (ss_qp s)) = map (\<lambda>n. (n mod T, of_nat (n mod T))) [W ..< P] \<and>
     map snd (qp_cq (ss_qp s)) = map (\<lambda>n. n mod T) [C ..< W] \<and>
     (\<forall>n. F \<le> n \<and> n < length ms \<longrightarrow> holds_msg T ms n (ss_slots s ! (n mod T))) \<and>
     (\<forall>n. F \<le> n \<and> n < P \<longrightarrow> ps_hash (ss_slots s ! (n mod T)) = xxh (ms ! n))"

lemma sender_invD:
  assumes "sender_inv xxh T ms F C W P s"
  shows "0 < T" "unat (ss_tail s) = T" "length (ss_slots s) = T" "length ms + T < 18446744073709551616"
    "rg_elems (ss_ring s) = ss_tail s" "rg_next_alloc (ss_ring s) = ss_next_slot s"
    "unat (ss_next_slot s) = length ms" "unat (rg_next_free (ss_ring s)) = F" "unat (ss_next_send s) = P"
    "F \<le> C" "C \<le> W" "W \<le> P" "P \<le> length ms" "length ms \<le> F + T" "unat (ss_outstanding s) = P - F"
    "ss_to_send s = map (\<lambda>n. n mod T) [P ..< length ms]"
    "map (\<lambda>(i, r, len). (i, r)) (qp_sq (ss_qp s)) = map (\<lambda>n. (n mod T, of_nat (n mod T))) [W ..< P]"
    "map snd (qp_cq (ss_qp s)) = map (\<lambda>n. n mod T) [C ..< W]"
    "\<And>n. F \<le> n \<Longrightarrow> n < length ms \<Longrightarrow> holds_msg T ms n (ss_slots s ! (n mod T))"
    "\<And>n. F \<le> n \<Longrightarrow> n < P \<Longrightarrow> ps_hash (ss_slots s ! (n mod T)) = xxh (ms ! n)"
  using assms unfolding sender_inv_def by blast+

lemma same_slot:
  fixes m n :: nat
  assumes "m mod T = n mod T" "F \<le> m" "F \<le> n" "m < L" "n < L" "L \<le> F + T"
  shows "m = n"
  using assms by (intro latest_unique [of m T n L]) linarith+

lemma uat_Inr: "uat xs i = Inr x \<longleftrightarrow> i < length xs \<and> x = xs ! i"
  by (auto simp: uat_def)

lemma holds_append: "n < length ms \<Longrightarrow> holds_msg T (ms @ [m]) n slot = holds_msg T ms n slot"
  by (simp add: holds_msg_def nth_append)

lemma holds_hash: "holds_msg T ms n (slot\<lparr>ps_hash := h\<rparr>) = holds_msg T ms n slot"
  by (simp add: holds_msg_def)

lemma div_incarnation:
  assumes "unat n = k" "unat t = T" "k + T < 18446744073709551616" "0 < T"
  shows "ucast ((n :: u64) div t + 1) = (of_nat (k div T + 1) :: u32)"
proof -
  have "unat (n div t) = k div T" using assms(1,2) by (simp add: unat_div)
  moreover have "k div T \<le> k" by simp
  ultimately have "unat (n div t + 1) = k div T + 1"
    using assms(3,4) by (subst unat_u64_Suc) linarith+
  then show ?thesis by (metis of_nat_unat)
qed

lemma sender_new_inv:
  assumes "ss_new tail sz mr rm = Inr s" "unat tail = T" "0 < T"
  shows "sender_inv xxh T [] 0 0 0 0 s"
  using assms unat_u64_less [of tail] unfolding sender_inv_def
  by (auto simp: ss_new_def rg_new_def rbind_Inr_iff Let_def qp_new_def u64_less_iff split: if_splits)

lemma sender_put_inv:
  assumes inv: "sender_inv xxh T ms F F W P s" and get: "ss_get_slot sz s = Inr (Some i, s1)"
    and m: "unat sz = length m" "ss_memcpy i m s1 = Inr s2" and len: "length (ms @ [m]) + T < 18446744073709551616"
  shows "sender_inv xxh T (ms @ [m]) F F W P s2"
proof -
  note I = sender_invD [OF inv]
  let ?n = "length ms"
  have new: "?n \<noteq> F + T \<and> i = ?n mod T \<and> i < T \<and> s1 = s\<lparr>ss_ring := (ss_ring s)\<lparr>rg_next_alloc := ss_next_slot s + 1\<rparr>,
      ss_slots := (ss_slots s)[i := (ss_slots s ! i)\<lparr>ps_incarnation := of_nat (?n div T + 1), ps_size := sz\<rparr>],
      ss_next_slot := ss_next_slot s + 1, ss_to_send := ss_to_send s @ [i]\<rparr>"
  proof -
    have sum: "unat (rg_next_free (ss_ring s) + ss_tail s) = F + T"
      using I(2,4,8,10-13) by (simp add: unat_word_ariths)
    have mod: "unat (ss_next_slot s mod ss_tail s) = ?n mod T" using I(2,7) by (simp add: unat_mod)
    have inc: "ucast (ss_next_slot s div ss_tail s + 1) = (of_nat (?n div T + 1) :: u32)"
      by (rule div_incarnation [OF I(7,2,4,1)])
    have ne: "ss_next_slot s \<noteq> rg_next_free (ss_ring s) + ss_tail s" and ac: "rg_acquire (ss_ring s) =
        Inr (Some (?n mod T), (ss_ring s)\<lparr>rg_next_alloc := ss_next_slot s + 1\<rparr>)"
      using get I(1,2,5,6) mod by (auto simp: ss_get_slot_def rg_acquire_def split: if_splits)
    have "?n \<noteq> F + T" using ne sum I(7) by (metis word_unat_eq_iff)
    moreover have "i = ?n mod T" "s1 = s\<lparr>ss_ring := (ss_ring s)\<lparr>rg_next_alloc := ss_next_slot s + 1\<rparr>,
      ss_slots := (ss_slots s)[?n mod T := (ss_slots s ! (?n mod T))\<lparr>ps_incarnation := of_nat (?n div T + 1), ps_size := sz\<rparr>],
      ss_next_slot := ss_next_slot s + 1, ss_to_send := ss_to_send s @ [?n mod T]\<rparr>"
      using get ac inc by (auto simp: ss_get_slot_def rbind_Inr_iff uat_Inr split: if_splits)
    ultimately show ?thesis using I(1) by simp
  qed
  then have acq: "?n \<noteq> F + T" "i = ?n mod T" "i < T" by simp_all
  note s1 = new [THEN conjunct2, THEN conjunct2, THEN conjunct2]
  let ?slot = "(ss_slots s ! i)\<lparr>ps_incarnation := of_nat (?n div T + 1), ps_size := sz\<rparr>"
  obtain d where d: "wr_bytes (ps_data (ss_slots s ! i)) 0 m = Inr d"
    and s2: "s2 = s1\<lparr>ss_slots := (ss_slots s)[i := ?slot\<lparr>ps_data := d\<rparr>]\<rparr>"
    using m(2) acq(3) I(3) by (auto simp: ss_memcpy_def s1 rbind_Inr_iff uat_Inr)
  have data: "take (length m) d = m" using d by (auto simp: wr_bytes_def split: if_splits)
  have slots: "ss_slots s2 ! (n mod T) = (if n = ?n then ?slot\<lparr>ps_data := d\<rparr> else ss_slots s ! (n mod T))"
    if "F \<le> n" "n < Suc ?n" for n
    using same_slot [of n T ?n F "Suc ?n"] that I(3,10-14) acq by (auto simp: s2 nth_list_update)
  have "unat (ss_next_slot s + 1) = Suc ?n" using I(7) len by (subst unat_u64_Suc) simp_all
  moreover have "holds_msg T (ms @ [m]) n (ss_slots s2 ! (n mod T))" if "F \<le> n" "n < Suc ?n" for n
    using slots [OF that] I(19) [of n] that data m(1) holds_append [of n ms]
    by (cases "n = ?n") (simp_all add: holds_msg_def [of _ _ ?n])
  moreover have "ps_hash (ss_slots s2 ! (n mod T)) = xxh ((ms @ [m]) ! n)" if "F \<le> n" "n < P" for n
    using slots [of n] I(20) [of n] I(13) that by (simp add: nth_append)
  moreover have "F + T \<noteq> ?n" using acq(1) by simp
  ultimately show ?thesis
    unfolding sender_inv_def using I len acq(2) by (simp add: s1 s2)
qed

lemma sender_post_inv:
  assumes inv: "sender_inv xxh T ms F C W P s" and P: "P < length ms" and post: "ss_post xxh (P mod T) s = Inr s'"
  shows "sender_inv xxh T ms F C W (P + 1) s' \<and> ss_to_send s' = tl (ss_to_send s)"
proof -
  note I = sender_invD [OF inv]
  let ?slot = "ss_slots s ! (P mod T)"
  have holds: "holds_msg T ms P ?slot" using I(10-12) P by (intro I(19)) simp_all
  obtain data q where data: "slice (ps_data ?slot) 0 (unat (ps_size ?slot)) = Inr data"
    and q: "qp_post (P mod T, ss_next_send s mod ss_tail s, 16 + ps_size ?slot) (ss_qp s) = (True, q)"
    and s': "s' = s\<lparr>ss_slots := (ss_slots s)[P mod T := ?slot\<lparr>ps_hash := xxh data\<rparr>], ss_qp := q,
       ss_outstanding := ss_outstanding s + 1, ss_to_send := tl (ss_to_send s), ss_next_send := ss_next_send s + 1\<rparr>"
    using post by (auto simp: ss_post_def rbind_Inr_iff uat_Inr Let_def split: if_splits prod.splits)
  have d: "data = ms ! P" using data holds by (auto simp: slice_def holds_msg_def split: if_splits)
  have rest: "ss_to_send s = P mod T # map (\<lambda>n. n mod T) [P + 1 ..< length ms]" using I(16) P by (simp add: upt_conv_Cons)
  have slots: "ss_slots s' ! (n mod T) = (if n = P then ?slot\<lparr>ps_hash := xxh (ms ! P)\<rparr> else ss_slots s ! (n mod T))"
    if "F \<le> n" "n < length ms" for n
    using same_slot [of n T P F "length ms"] that I(1,3,10-14) P by (auto simp: s' d nth_list_update)
  have "unat (ss_next_send s + 1) = P + 1" using I(1,4,9,13) by (subst unat_u64_Suc) simp_all
  moreover have "unat (ss_outstanding s + 1) = P + 1 - F" using I(4,10-15) by (subst unat_u64_Suc) simp_all
  moreover have index: "ss_next_send s mod ss_tail s = of_nat (P mod T)"
  proof -
    have "ss_next_send s mod ss_tail s = of_nat (unat (ss_next_send s mod ss_tail s))" by simp
    then show ?thesis unfolding unat_mod I(2,9) .
  qed
  have "map (\<lambda>(i, r, len). (i, r)) (qp_sq q) = map (\<lambda>n. (n mod T, of_nat (n mod T))) [W ..< P + 1]"
    using q I(12,17) index by (auto simp: qp_post_def split: if_splits)
  moreover have "qp_cq q = qp_cq (ss_qp s)" using q by (auto simp: qp_post_def split: if_splits)
  moreover have "holds_msg T ms n (ss_slots s' ! (n mod T))" if "F \<le> n" "n < length ms" for n
    using slots [OF that] I(19) [OF that] holds by (simp add: holds_hash)
  moreover have "ps_hash (ss_slots s' ! (n mod T)) = xxh (ms ! n)" if "F \<le> n" "n < P + 1" for n
    using slots [of n] I(20) [of n] P that by simp
  ultimately show ?thesis
    unfolding sender_inv_def using I(1-15,17-20) P rest by (simp add: s')
qed

lemma sender_push_inv:
  assumes "sender_inv xxh T ms F C W P s" "ss_push_from xxh is s = Inr s'" "is = ss_to_send s"
  shows "\<exists>P'. sender_inv xxh T ms F C W P' s'"
  using assms
proof (induction "is" arbitrary: s P)
  case Nil
  then show ?case by auto
next
  case (Cons i "is")
  note I = sender_invD [OF Cons.prems(1)]
  show ?case
  proof (cases "ss_next_send s < ss_send_before s \<and> ss_outstanding s < WrDepth")
    case True
    with Cons.prems(2) obtain s1 where s1: "ss_post xxh i s = Inr s1" "ss_push_from xxh is s1 = Inr s'"
      by (auto simp: rbind_Inr_iff)
    have P: "P < length ms" "i = P mod T" using I(16) Cons.prems(3) by (cases "P < length ms"; auto simp: upt_conv_Cons)+
    from sender_post_inv [OF Cons.prems(1) P(1)] s1(1) P(2)
    have "sender_inv xxh T ms F C W (P + 1) s1" "is = ss_to_send s1" using Cons.prems(3) by (auto simp flip: Cons.prems(3))
    with Cons.IH s1(2) show ?thesis by blast
  next
    case False
    with Cons.prems(2) have "s' = s" by auto
    with Cons.prems(1) show ?thesis by blast
  qed
qed

lemma sender_completed_inv:
  assumes inv: "sender_inv xxh T ms F C W P s" and "F < C" and wc: "ss_completed wc s = Inr s'"
  shows "sender_inv xxh T ms (F + 1) C W P s'"
proof -
  note I = sender_invD [OF inv]
  have s': "s' = s\<lparr>ss_ring := (ss_ring s)\<lparr>rg_next_free := rg_next_free (ss_ring s) + 1\<rparr>, ss_outstanding := ss_outstanding s - 1\<rparr>"
    using wc by (auto simp: ss_completed_def rg_release_def rbind_Inr_iff split: if_splits)
  have "unat (rg_next_free (ss_ring s) + 1) = F + 1" using I(4,8,10-13) assms(2) by (subst unat_u64_Suc) simp_all
  moreover have "unat (ss_outstanding s - 1) = P - (F + 1)"
    using I(10-12,15) assms(2) by (subst unat_sub) (simp_all add: word_le_nat_alt)
  ultimately show ?thesis unfolding sender_inv_def using I assms(2) by (simp add: s')
qed

lemma sender_completions_inv:
  assumes "sender_inv xxh T ms F (F + length wcs) W P s" "rfold ss_completed wcs s = Inr s'"
  shows "sender_inv xxh T ms (F + length wcs) (F + length wcs) W P s'"
  using assms
proof (induction wcs arbitrary: F s)
  case (Cons wc wcs)
  obtain s1 where s1: "ss_completed wc s = Inr s1" "rfold ss_completed wcs s1 = Inr s'"
    using Cons.prems(2) by (auto simp: rbind_Inr_iff)
  have "sender_inv xxh T ms (F + 1) (F + length (wc # wcs)) W P s1"
    by (rule sender_completed_inv [OF Cons.prems(1) _ s1(1)]) simp
  with Cons.IH [of "F + 1"] s1(2) show ?case by simp
qed simp

lemma sender_tick_inv:
  assumes inv: "sender_inv xxh T ms F F W P s" and tick: "ss_tick xxh s = Inr s'"
  shows "\<exists>F' P'. sender_inv xxh T ms F' F' W P' s'"
proof -
  note I = sender_invD [OF inv]
  show ?thesis
  proof (cases "ss_outstanding s = 0")
    case True
    with tick sender_push_inv [OF inv] show ?thesis by (fastforce simp: ss_tick_def ss_push_def)
  next
    case False
    with tick obtain wcs q s1 where q: "qp_poll (unat (ss_outstanding s)) (ss_qp s) = Some (wcs, q)"
      and s1: "rfold ss_completed wcs (s\<lparr>ss_qp := q\<rparr>) = Inr s1" "ss_push xxh s1 = Inr s'"
      by (auto simp: ss_tick_def rbind_Inr_iff split: option.splits)
    let ?k = "unat (ss_outstanding s)"
    have wcs: "wcs = take ?k (qp_cq (ss_qp s))" and qq: "q = (ss_qp s)\<lparr>qp_cq := drop ?k (qp_cq (ss_qp s))\<rparr>"
      using q by (auto simp: qp_poll_def split: if_splits)
    have cq: "length (qp_cq (ss_qp s)) = W - F" using arg_cong [OF I(18), of length] by simp
    have len: "length wcs = W - F" unfolding wcs using cq I(11,12,15) by simp
    have "drop ?k (qp_cq (ss_qp s)) = []" using cq I(12,15) by simp
    then have "qp_cq q = []" "qp_sq q = qp_sq (ss_qp s)" by (simp_all add: qq)
    moreover have "F + length wcs = W" using len I(10,11) by simp
    ultimately have "sender_inv xxh T ms F (F + length wcs) W P (s\<lparr>ss_qp := q\<rparr>)"
      unfolding sender_inv_def using I(1-9,11-17,19,20) by simp
    from sender_completions_inv [OF this s1(1)] s1(2) sender_push_inv show ?thesis
      unfolding ss_push_def by blast
  qed
qed

lemma sender_card_inv:
  assumes inv: "sender_inv xxh T ms F F W P s"
  shows "sender_inv xxh T ms F F (min (W + k) P) P (s\<lparr>ss_qp := qp_complete k (ss_qp s)\<rparr>)"
    "length (ss_copies k s) = min (W + k) P - W"
    "\<And>n. n < length (ss_copies k s) \<Longrightarrow> wired xxh T ms (W + n) (ss_copies k s ! n)"
proof -
  note I = sender_invD [OF inv]
  have sq: "length (qp_sq (ss_qp s)) = P - W" using arg_cong [OF I(17), of length] by simp
  have nth: "fst (qp_sq (ss_qp s) ! n) = (W + n) mod T \<and> fst (snd (qp_sq (ss_qp s) ! n)) = of_nat ((W + n) mod T)" if "n < P - W" for n
  proof -
    have "map (\<lambda>(i, r, len). (i, r)) (qp_sq (ss_qp s)) ! n = ((W + n) mod T, of_nat ((W + n) mod T))"
      unfolding I(17) using that by simp
    then have "(\<lambda>(i, r, len). (i, r)) (qp_sq (ss_qp s) ! n) = ((W + n) mod T, of_nat ((W + n) mod T) :: u64)"
      using that sq by simp
    then show ?thesis unfolding split_beta by (simp only: prod.inject simp_thms)
  qed
  show len: "length (ss_copies k s) = min (W + k) P - W" using sq I(12) unfolding ss_copies_def by simp
  show "wired xxh T ms (W + n) (ss_copies k s ! n)" if "n < length (ss_copies k s)" for n
  proof -
    have n: "n < k" "n < P - W" using that len by auto
    have "ss_copies k s ! n = (of_nat ((W + n) mod T), ss_slots s ! ((W + n) mod T))"
      using n sq nth [OF n(2)] by (simp add: ss_copies_def split_beta)
    with I(19) [of "W + n"] I(20) [of "W + n"] n I(11-13) show ?thesis by (simp add: wired_def)
  qed
  have "[W + k ..< P] = [min (W + k) P ..< P]" by (simp add: min_def)
  then have "map (\<lambda>(i, r, len). (i, r)) (drop k (qp_sq (ss_qp s))) = map (\<lambda>n. (n mod T, of_nat (n mod T))) [min (W + k) P ..< P]"
    using arg_cong [OF I(17), of "drop k"] by (simp add: drop_map)
  moreover have "map snd (qp_cq (qp_complete k (ss_qp s))) = map (\<lambda>n. n mod T) [F ..< min (W + k) P]"
  proof -
    have "map fst (take k (qp_sq (ss_qp s))) = map (\<lambda>n. n mod T) [W ..< min (W + k) P]"
    proof (rule nth_equalityI)
      show "length (map fst (take k (qp_sq (ss_qp s)))) = length (map (\<lambda>n. n mod T) [W ..< min (W + k) P])" using sq by simp
      show "map fst (take k (qp_sq (ss_qp s))) ! i = map (\<lambda>n. n mod T) [W ..< min (W + k) P] ! i"
        if "i < length (map fst (take k (qp_sq (ss_qp s))))" for i
      proof -
        have "i < k" "i < P - W" "i < min (W + k) P - W" using that sq by auto
        then show ?thesis using sq nth [of i] by (simp add: nth_append del: min_less_iff_conj)
      qed
    qed
    moreover have "[F ..< min (W + k) P] = [F ..< W] @ [W ..< min (W + k) P]"
      using I(10-12) upt_add_eq_append [of F W "min (W + k) P - W"] by simp
    ultimately show ?thesis using I(18) by (simp add: qp_complete_def comp_def)
  qed
  ultimately show "sender_inv xxh T ms F F (min (W + k) P) P (s\<lparr>ss_qp := qp_complete k (ss_qp s)\<rparr>)"
    unfolding sender_inv_def using I by (simp add: qp_complete_def)
qed

lemma sender_run_ok:
  assumes "sender_run xxh T s ms wire" "length ms + T < 18446744073709551616"
  shows "\<exists>F P. sender_inv xxh T ms F F (length wire) P s \<and> (\<forall>n < length wire. wired xxh T ms n (wire ! n))"
  using assms
proof induction
  case (sender_new tail sz mr rm s)
  with sender_new_inv show ?case by fastforce
next
  case (sender_put s ms wire sz i s1 m s2)
  then obtain F P where
    ih: "sender_inv xxh T ms F F (length wire) P s" "\<forall>n < length wire. wired xxh T ms n (wire ! n)"
    by auto
  have "sender_inv xxh T (ms @ [m]) F F (length wire) P s2"
    by (rule sender_put_inv [OF ih(1) sender_put.hyps(2-4)]) (use sender_put.prems in simp)
  moreover have "length wire \<le> length ms" using sender_invD(12,13) [OF ih(1)] by simp
  then have "\<forall>n < length wire. wired xxh T (ms @ [m]) n (wire ! n)"
    using ih(2) by (simp add: wired_def holds_append nth_append)
  ultimately show ?case by blast
next
  case (sender_full s ms wire sz s1)
  obtain o1 g where "rg_acquire (ss_ring s) = Inr (o1, g)" "s1 = s\<lparr>ss_ring := g\<rparr>" "o1 = None"
    using sender_full.hyps(2) by (auto simp: ss_get_slot_def rbind_Inr_iff split: if_splits option.splits)
  then have "s1 = s" by (auto simp: rg_acquire_def split: if_splits)
  with sender_full show ?case by simp
next
  case (sender_send s ms wire s1)
  then obtain F P where
    ih: "sender_inv xxh T ms F F (length wire) P s" "\<forall>n < length wire. wired xxh T ms n (wire ! n)"
    by auto
  have "sender_inv xxh T ms F F (length wire) P (s\<lparr>ss_send_before := ss_next_slot s\<rparr>)"
    using ih(1) unfolding sender_inv_def by simp
  from sender_push_inv [OF this _ refl] sender_send.hyps(2) ih(2) show ?case
    unfolding ss_send_def ss_push_def by blast
next
  case (sender_tick s ms wire s1)
  then obtain F P where
    ih: "sender_inv xxh T ms F F (length wire) P s" "\<forall>n < length wire. wired xxh T ms n (wire ! n)"
    by auto
  from sender_tick_inv [OF ih(1) sender_tick.hyps(2)] ih(2) show ?case by blast
next
  case (sender_card s ms wire k)
  then obtain F P where
    ih: "sender_inv xxh T ms F F (length wire) P s" "\<forall>n < length wire. wired xxh T ms n (wire ! n)"
    by auto
  note c = sender_card_inv [where k = k, OF ih(1)]
  have "length (wire @ ss_copies k s) = min (length wire + k) P"
    using c(2) sender_invD(12) [OF ih(1)] by simp
  moreover have "wired xxh T ms n ((wire @ ss_copies k s) ! n)" if "n < length (wire @ ss_copies k s)" for n
    using c(3) [of "n - length wire"] ih(2) that by (cases "n < length wire") (simp_all add: nth_append)
  ultimately show ?case using c(1) by metis
next
  case (sender_fault s ms wire q p)
  then obtain F P where
    ih: "sender_inv xxh T ms F F (length wire) P s" "\<forall>n < length wire. wired xxh T ms n (wire ! n)"
    by auto
  have "sender_inv xxh T ms F F (length wire) P (s\<lparr>ss_qp := (ss_qp s)\<lparr>qp_post_ok := p, qp_poll_ok := q\<rparr>\<rparr>)"
    using ih(1) unfolding sender_inv_def by simp
  with ih(2) show ?case by blast
qed

text \<open>What the card copied are the messages, in the order in which they were given to the sender.\<close>

lemma sender_feeds_link:
  assumes "sender_run xxh T s ms wire" "length ms + T < 18446744073709551616"
  shows "length wire \<le> length ms \<and> (\<forall>n < length wire. wired xxh T ms n (wire ! n))"
proof -
  obtain F P where inv: "sender_inv xxh T ms F F (length wire) P s"
    and w: "\<forall>n < length wire. wired xxh T ms n (wire ! n)"
    using sender_run_ok [OF assms] by blast
  from w sender_invD(12,13) [OF inv] show ?thesis by simp
qed

end
