(* ===== verification/P2p_Tail.thy ===== *)
theory P2p_Tail
  imports P2p_Receiver
begin

text \<open>
  What a receiver of a point-to-point link delivers once the sender has stopped: the next message of the ring within two
  polls, unless the tail has a single slot, where a message that was missed blocks the link for good.
\<close>

section \<open>Tail validity\<close>

text \<open>All \<open>L\<close> messages have arrived completely and nothing is written any more.\<close>

definition quiet :: "(bytes \<Rightarrow> u64) \<Rightarrow> nat \<Rightarrow> nat \<Rightarrow> bytes list \<Rightarrow> nat \<Rightarrow> (u64 \<Rightarrow> p2p_obs) \<Rightarrow> bool" where
  "quiet xxh capacity T ms L ob \<longleftrightarrow> (\<forall>w. unat w < T \<longrightarrow> sees xxh capacity T ms L (unat w) (ob w) \<and>
     ob_again (ob w) = ob_incarnation (ob w) \<and>
     (0 < landed T L (unat w) \<longrightarrow> ob_hash (ob w) = xxh (take (unat (ob_size (ob w))) (ob_data (ob w)))))"

definition deliverable :: "nat \<Rightarrow> nat \<Rightarrow> p2p_receiver \<Rightarrow> bool" where
  "deliverable T n r \<longleftrightarrow> id_of T n = pr_best r \<or> (\<exists>m. pr_straggling r = Some m \<and> id_less (id_of T n) m)"

text \<open>An attempt that does not find an older incarnation, at the slot that holds message \<open>n\<close>.\<close>

lemma try_exact:
  assumes inv: "rinv T L b r" and q: "quiet xxh capacity T ms L ob"
    and n: "n mod T = unat (snd (pr_next r))" "n < L" "L \<le> n + T" "b \<le> n"
  shows "pr_try_poll xxh capacity (ob (snd (pr_next r))) r = Inr
    (if deliverable T n r then (Polled (ms ! n), r\<lparr>pr_best := id_of T (n + 1), pr_next := id_of T (n + 1)\<rparr>)
     else (Straggling, r\<lparr>pr_straggling := Some (id_of T n), pr_next := id_of T (n + 1)\<rparr>))"
proof -
  let ?w = "snd (pr_next r)" let ?d = "take (unat (ob_size (ob ?w))) (ob_data (ob ?w))"
  have j: "unat ?w < T" by (rule rinv_slot [OF inv])
  have T: "0 < T" "unat (pr_tail r) = T" "link_fits T L" and best: "pr_best r = id_of T b" using inv by (simp_all add: rinv_def link_fits_def)
  have pos: "0 < landed T L (unat ?w)" using landed_pos [OF n(2) T(1)] n(1) by simp
  have o: "sees xxh capacity T ms L (unat ?w) (ob ?w)" "ob_again (ob ?w) = ob_incarnation (ob ?w)" "ob_hash (ob ?w) = xxh ?d"
    using q j pos by (simp_all add: quiet_def)
  have late: "latest T L (unat ?w) = n" using latest_is [OF n(2,3) T(1)] n(1) by simp
  have fn: "link_fits T n" "link_fits T b" using link_fits_mono [OF T(3)] n(2,4) by simp_all
  have scan: "(ob_incarnation (ob ?w), ?w) = id_of T n"
    using scanning_id [OF T(3) j pos refl] o(1) late by (simp add: sees_def)
  have "b div T \<le> n div T" by (rule div_le_mono [OF n(4)])
  moreover have "ob_incarnation (ob ?w) = fst (id_of T n)" by (simp flip: scan)
  ultimately have fresh: "\<not> ob_incarnation (ob ?w) < fst (pr_best r)"
    using id_of_parts(1) [OF fn(1)] id_of_parts(1) [OF fn(2)] by (simp add: word_less_nat_alt best)
  have read: "slice (ob_data (ob ?w)) 0 (unat (ob_size (ob ?w))) = Inr ?d" "\<not> capacity < length ?d"
    using o by (simp_all add: sees_def slice_def)
  have d: "?d = ms ! n" using o pos late by (simp add: sees_def)
  have del: "id_of T n = pr_best r \<or> (case pr_straggling r of None \<Rightarrow> False | Some m \<Rightarrow> id_less (id_of T n) m) \<longleftrightarrow>
      deliverable T n r"
    unfolding deliverable_def by (cases "pr_straggling r") simp_all
  note step = pr_try_poll_def [of xxh capacity "ob ?w" r] if_not_P [OF fresh] Let_def scan del
  show ?thesis
  proof (cases "deliverable T n r")
    case True
    show ?thesis unfolding step if_P [OF True] read(1) rbind_simps if_not_P [OF read(2)] o(2,3) d
        pr_successor_of [OF fn(1) T(2)] using read(2) d by simp
  next
    case False
    show ?thesis unfolding step if_not_P [OF False] pr_successor_of [OF fn(1) T(2)] by (rule refl)
  qed
qed

definition passing :: "nat \<Rightarrow> nat \<Rightarrow> nat \<Rightarrow> nat \<Rightarrow> p2p_receiver \<Rightarrow> bool" where
  "passing T L b m r \<longleftrightarrow> rinv T L b r \<and> pr_straggling r = Some (id_of T m) \<and> b + T \<le> m \<and> m < L \<and> L \<le> m + T \<and>
     pr_next r = id_of T (m + 1)"

lemma try_passing:
  assumes p: "passing T L b m r" and q: "quiet xxh capacity T ms L ob" and T: "1 < T"
  shows "\<exists>r'. (if m + 1 < L
    then pr_try_poll xxh capacity (ob (snd (pr_next r))) r = Inr (Straggling, r') \<and> passing T L b (m + 1) r'
    else pr_try_poll xxh capacity (ob (snd (pr_next r))) r = Inr (Polled (ms ! (L - T)), r') \<and> rinv T L (L - T + 1) r')"
proof -
  have inv: "rinv T L b r" and m: "pr_straggling r = Some (id_of T m)" "b + T \<le> m" "m < L" "L \<le> m + T" "pr_next r = id_of T (m + 1)"
    using p by (simp_all add: passing_def)
  have tail: "unat (pr_tail r) = T" "link_fits T L" "pr_best r = id_of T b" using inv by (simp_all add: rinv_def)
  have f: "link_fits T m" "link_fits T (m + 1)" "link_fits T b" "link_fits T (L - T)" using link_fits_mono [OF tail(2)] m(2,3) by simp_all
  have slot: "unat (snd (pr_next r)) = (m + 1) mod T" using id_of_parts(2) [OF f(2)] m(5) by simp
  show ?thesis
  proof (cases "m + 1 < L")
    case True
    have "\<not> deliverable T (m + 1) r"
      using m(1,2) tail(3) id_of_eq [OF f(2,3)] id_less_of [OF f(2,1)] by (simp add: deliverable_def)
    moreover have "passing T L b (m + 1) (r\<lparr>pr_straggling := Some (id_of T (m + 1)), pr_next := id_of T (m + 1 + 1)\<rparr>)"
      using inv m True by (auto simp: passing_def rinv_def)
    ultimately show ?thesis using try_exact [OF inv q, of "m + 1"] slot m True by simp
  next
    case False
    then have L: "L = m + 1" using m(3) by simp
    have mT: "(L - T) mod T = (m + 1) mod T" using m(2) T L by (simp add: le_mod_geq)
    have less: "L - T < m" using T L m(2) by linarith
    have "deliverable T (L - T) r"
      using m(1) id_less_of [OF f(4,1)] less by (simp add: deliverable_def)
    moreover have "rinv T L (L - T + 1) (r\<lparr>pr_best := id_of T (L - T + 1), pr_next := id_of T (L - T + 1)\<rparr>)"
      using inv m T L by (auto simp: rinv_def)
    ultimately show ?thesis using try_exact [OF inv q, of "L - T"] slot mT m T False L by simp
  qed
qed

lemma tries_passing:
  assumes "passing T L b m r" "\<forall>ob \<in> set obs. quiet xxh capacity T ms L ob" "1 < T"
  shows "\<exists>r'. (if L - m \<le> length obs
    then pr_tries xxh capacity obs r = Inr (Some (ms ! (L - T)), r') \<and> rinv T L (L - T + 1) r'
    else pr_tries xxh capacity obs r = Inr (None, r') \<and> passing T L b (m + length obs) r')"
  using assms(1,2)
proof (induction obs arbitrary: m r)
  case Nil
  then show ?case by (auto simp: passing_def)
next
  case (Cons ob obs)
  have m: "m < L" using Cons.prems(1) by (simp add: passing_def)
  have q: "quiet xxh capacity T ms L ob" using Cons.prems(2) by simp
  obtain r1 where one: "if m + 1 < L
    then pr_try_poll xxh capacity (ob (snd (pr_next r))) r = Inr (Straggling, r1) \<and> passing T L b (m + 1) r1
    else pr_try_poll xxh capacity (ob (snd (pr_next r))) r = Inr (Polled (ms ! (L - T)), r1) \<and> rinv T L (L - T + 1) r1"
    using try_passing [OF Cons.prems(1) q assms(3)] by blast
  show ?case
  proof (cases "m + 1 < L")
    case True
    with one have r1: "pr_try_poll xxh capacity (ob (snd (pr_next r))) r = Inr (Straggling, r1)" "passing T L b (m + 1) r1"
      by simp_all
    have "L - m \<le> length (ob # obs) \<longleftrightarrow> L - (m + 1) \<le> length obs" using True by auto
    with Cons.IH [OF r1(2)] Cons.prems(2) r1(1) show ?thesis by auto
  next
    case False
    with one m show ?thesis by auto
  qed
qed

lemma try_first:
  assumes inv: "rinv T L b r" and q: "quiet xxh capacity T ms L ob" and T: "1 < T" and b: "b < L"
  shows "\<exists>r'. (pr_try_poll xxh capacity (ob (snd (pr_next r))) r = Inr (Polled (ms ! max b (L - T)), r') \<and>
      rinv T L (max b (L - T) + 1) r') \<or>
    (\<exists>n. pr_try_poll xxh capacity (ob (snd (pr_next r))) r = Inr (Straggling, r') \<and> passing T L b n r')"
proof -
  let ?j = "unat (snd (pr_next r))" let ?n = "latest T L ?j"
  have tail: "unat (pr_tail r) = T" "link_fits T L" "pr_best r = id_of T b" using inv by (simp_all add: rinv_def)
  have j: "?j < T" by (rule rinv_slot [OF inv])
  have fb: "link_fits T b" using link_fits_mono [OF tail(2)] b by simp
  from inv consider
      (at) "pr_next r = id_of T b" "\<And>x. pr_straggling r = Some x \<Longrightarrow> \<exists>m. x = id_of T m \<and> m < b + T \<and> m < L"
    | (past) m where "pr_straggling r = Some (id_of T m)" "b + T \<le> m" "m < L" "pr_next r = id_of T (m + 1)"
    unfolding rinv_def by blast
  then show ?thesis
  proof cases
    case at
    have jb: "?j = b mod T" using at(1) id_of_parts(2) [OF fb] by simp
    have "0 < landed T L ?j" using landed_pos [OF b] T jb by simp
    note n = landed_latest [OF j this]
    have cong: "?n mod T = b mod T" using n(2) jb by simp
    show ?thesis
    proof (cases "L \<le> b + T")
      case True
      have nb: "?n = b" using latest_is [OF b True] T jb by simp
      have "rinv T L (b + 1) (r\<lparr>pr_best := id_of T (b + 1), pr_next := id_of T (b + 1)\<rparr>)"
        using inv at b by (fastforce simp: rinv_def)
      moreover have "deliverable T b r" using tail(3) by (simp add: deliverable_def)
      moreover have "max b (L - T) = b" using True by simp
      ultimately show ?thesis using try_exact [OF inv q, of b] True b jb by auto
    next
      case False
      with n(3) have far: "b < ?n" by simp
      then have "T dvd ?n - b" using cong by (metis mod_eq_dvd_iff_nat less_imp_le)
      then have bT: "b + T \<le> ?n" using far by (auto dest!: dvd_imp_le)
      have fn: "link_fits T ?n" using link_fits_mono [OF tail(2)] n(1) by simp
      have "\<not> id_less (id_of T ?n) x" if x: "pr_straggling r = Some x" for x
      proof -
        obtain m where m: "x = id_of T m" "m < b + T" "m < L" using at(2) [OF x] by blast
        have "link_fits T m" using link_fits_mono [OF tail(2)] m(3) by simp
        then show ?thesis using m bT id_less_of [OF fn] by simp
      qed
      then have "\<not> deliverable T ?n r" using far tail(3) id_of_eq [OF fn fb] by (auto simp: deliverable_def)
      moreover have "passing T L b ?n (r\<lparr>pr_straggling := Some (id_of T ?n), pr_next := id_of T (?n + 1)\<rparr>)"
        using inv n bT by (auto simp: passing_def rinv_def)
      ultimately show ?thesis using try_exact [OF inv q, of ?n] n far by auto
    qed
  next
    case (past m)
    have fm: "link_fits T m" "link_fits T (m + 1)" using link_fits_mono [OF tail(2)] past(3) by simp_all
    have jm: "?j = (m + 1) mod T" using past(4) id_of_parts(2) [OF fm(2)] by simp
    have "0 < landed T L ?j"
    proof -
      have "(m + 1 - T) mod T = (m + 1) mod T" using past(2) by (simp add: le_mod_geq)
      with landed_pos [of "m + 1 - T" L T] past(2,3) T jm show ?thesis by simp
    qed
    note n = landed_latest [OF j this]
    have cong: "?n mod T = (m + 1) mod T" using n(2) jm by simp
    have fn: "link_fits T ?n" using link_fits_mono [OF tail(2)] n(1) by simp
    have low: "b < ?n" using n(3) past(2,3) by simp
    show ?thesis
    proof (cases "?n < m")
      case True
      have "T dvd m + 1 - ?n" using cong True by (metis mod_eq_dvd_iff_nat less_imp_le le_SucI Suc_eq_plus1)
      then have "?n + T \<le> m + 1" using True by (auto dest!: dvd_imp_le)
      then have nL: "?n = L - T" "max b (L - T) = L - T" using n(3) past(3) low by simp_all
      have "deliverable T ?n r" using True past(1) id_less_of [OF fn fm(1)] by (simp add: deliverable_def)
      moreover have "rinv T L (?n + 1) (r\<lparr>pr_best := id_of T (?n + 1), pr_next := id_of T (?n + 1)\<rparr>)"
        using inv past n(1,3) by (auto simp: rinv_def)
      ultimately show ?thesis using try_exact [OF inv q, of ?n] n low nL by auto
    next
      case False
      have "\<not> deliverable T ?n r"
        using False low past(1) tail(3) id_of_eq [OF fn fb] id_less_of [OF fn fm(1)] by (auto simp: deliverable_def)
      moreover have "passing T L b ?n (r\<lparr>pr_straggling := Some (id_of T ?n), pr_next := id_of T (?n + 1)\<rparr>)"
        using inv n past False by (auto simp: passing_def rinv_def)
      ultimately show ?thesis using try_exact [OF inv q, of ?n] n low by auto
    qed
  qed
qed

text \<open>The next message is polled by one of two polls: the oldest that the ring still has, from the best on.\<close>

lemma two_polls:
  assumes inv: "rinv T L b r" and q: "\<And>i. quiet xxh capacity T ms L (obs i)" "\<And>i. quiet xxh capacity T ms L (obs' i)"
    and T: "1 < T" and b: "b < L"
  shows "\<exists>r1. (pr_poll xxh capacity obs r = Inr (Some (ms ! max b (L - T)), r1) \<and> rinv T L (max b (L - T) + 1) r1) \<or>
    (pr_poll xxh capacity obs r = Inr (None, r1) \<and>
     (\<exists>r2. pr_poll xxh capacity obs' r1 = Inr (Some (ms ! max b (L - T)), r2) \<and> rinv T L (max b (L - T) + 1) r2))"
proof -
  have tail: "unat (pr_tail r) = T" using inv by (simp add: rinv_def)
  have split: "map obs [0 ..< T] = obs 0 # map obs [1 ..< T]" using T by (simp add: upt_conv_Cons)
  from try_first [OF inv q(1) [of 0] T b] show ?thesis
  proof (elim exE disjE)
    fix r1 assume "pr_try_poll xxh capacity (obs 0 (snd (pr_next r))) r = Inr (Polled (ms ! max b (L - T)), r1) \<and>
      rinv T L (max b (L - T) + 1) r1"
    then show ?thesis unfolding pr_poll_def tail split by auto
  next
    fix r1 n assume "pr_try_poll xxh capacity (obs 0 (snd (pr_next r))) r = Inr (Straggling, r1) \<and> passing T L b n r1"
    then have r1: "pr_try_poll xxh capacity (obs 0 (snd (pr_next r))) r = Inr (Straggling, r1)" "passing T L b n r1" by simp_all
    have n: "L \<le> n + T" "n < L" "b + T \<le> n" and mx: "max b (L - T) = L - T" using r1(2) by (auto simp: passing_def)
    have first: "pr_poll xxh capacity obs r = pr_tries xxh capacity (map obs [1 ..< T]) r1"
      unfolding pr_poll_def tail split using r1(1) by simp
    have rest: "\<forall>ob \<in> set (map obs [1 ..< T]). quiet xxh capacity T ms L ob" using q(1) by auto
    obtain r2 where r2: "if L - n \<le> T - 1
      then pr_tries xxh capacity (map obs [1 ..< T]) r1 = Inr (Some (ms ! (L - T)), r2) \<and> rinv T L (L - T + 1) r2
      else pr_tries xxh capacity (map obs [1 ..< T]) r1 = Inr (None, r2) \<and> passing T L b (n + (T - 1)) r2"
      using tries_passing [OF r1(2) rest T] unfolding length_map length_upt by blast
    show ?thesis
    proof (cases "L - n \<le> T - 1")
      case True
      with r2 first mx show ?thesis by auto
    next
      case False
      with r2 have r2': "pr_poll xxh capacity obs r = Inr (None, r2)" "passing T L b (n + (T - 1)) r2" by (simp_all add: first)
      have tail2: "unat (pr_tail r2) = T" using r2'(2) by (simp add: passing_def rinv_def)
      have "L - (n + (T - 1)) \<le> length (map obs' [0 ..< T])" using n T by simp
      with tries_passing [OF r2'(2) _ T, of "map obs' [0 ..< T]" xxh capacity ms] q(2)
      obtain r3 where "pr_tries xxh capacity (map obs' [0 ..< T]) r2 = Inr (Some (ms ! (L - T)), r3) \<and> rinv T L (L - T + 1) r3"
        by auto
      then have "pr_poll xxh capacity obs' r2 = Inr (Some (ms ! (L - T)), r3) \<and> rinv T L (L - T + 1) r3"
        unfolding pr_poll_def tail2 .
      with r2'(1) mx show ?thesis by auto
    qed
  qed
qed

text \<open>Polls of a receiver, one after the other, and what they returned.\<close>

fun pr_polls ::
  "(bytes \<Rightarrow> u64) \<Rightarrow> nat \<Rightarrow> (nat \<Rightarrow> u64 \<Rightarrow> p2p_obs) list \<Rightarrow> p2p_receiver \<Rightarrow> (bytes list \<times> p2p_receiver) result" where
  "pr_polls xxh capacity [] r = Inr ([], r)"
| "pr_polls xxh capacity (obs # obss) r =
     rbind (pr_poll xxh capacity obs r) (\<lambda>(res, r1).
     rbind (pr_polls xxh capacity obss r1) (\<lambda>(ds, r2).
     Inr (case res of None \<Rightarrow> ds | Some d \<Rightarrow> d # ds, r2)))"

lemma poll_caught_up:
  assumes inv: "rinv T L L r" and q: "\<And>i. quiet xxh capacity T ms L (obs i)"
  shows "pr_poll xxh capacity obs r = Inr (None, r)"
proof -
  have T: "0 < T" "unat (pr_tail r) = T" "link_fits T L" "pr_best r = id_of T L" using inv by (simp_all add: rinv_def link_fits_def)
  have nxt: "pr_next r = id_of T L" using inv unfolding rinv_def by auto
  have j: "unat (snd (pr_next r)) = L mod T" using id_of_parts(2) [OF T(3)] nxt by simp
  have "landed T L (L mod T) = L div T"
  proof -
    have "L = L div T * T + L mod T" by simp
    then have "L + T - 1 - L mod T = L div T * T + (T - 1)" using T(1) mod_less_divisor [OF T(1), of L] by linarith
    then have "landed T L (L mod T) = (L div T * T + (T - 1)) div T" by (simp only: landed_def)
    also have "\<dots> = L div T + (T - 1) div T" by (rule div_mult_self3) (use T(1) in simp)
    finally show ?thesis using T(1) by simp
  qed
  moreover have "sees xxh capacity T ms L (L mod T) (obs 0 (snd (pr_next r)))"
    using q [of 0] j T(1) unfolding quiet_def by (metis mod_less_divisor)
  ultimately have "unat (ob_incarnation (obs 0 (snd (pr_next r)))) = L div T"
    using T(3) by (simp add: sees_def link_fits_def unat_u32_of_nat)
  then have "ob_incarnation (obs 0 (snd (pr_next r))) < fst (pr_best r)"
    using id_of_parts(1) [OF T(3)] T(4) by (simp add: word_less_nat_alt)
  then have "pr_try_poll xxh capacity (obs 0 (snd (pr_next r))) r = Inr (Empty, r)"
    by (simp add: pr_try_poll_def)
  then show ?thesis unfolding pr_poll_def T(2) using T(1) by (simp add: upt_conv_Cons)
qed

lemma polls_caught_up:
  assumes "rinv T L L r" "\<forall>obs \<in> set obss. \<forall>i. quiet xxh capacity T ms L (obs i)"
  shows "pr_polls xxh capacity obss r = Inr ([], r)"
  using assms(2)
proof (induction obss)
  case (Cons obs obss)
  have "pr_poll xxh capacity obs r = Inr (None, r)"
    by (rule poll_caught_up [OF assms(1)]) (use Cons.prems in auto)
  with Cons show ?case by simp
qed simp

lemma polls_drain:
  assumes "rinv T L b r" "\<forall>obs \<in> set obss. \<forall>i. quiet xxh capacity T ms L (obs i)" "1 < T"
    "2 * (L - max b (L - T)) \<le> length obss"
  shows "\<exists>r'. pr_polls xxh capacity obss r = Inr (map ((!) ms) [max b (L - T) ..< L], r')"
  using assms
proof (induction "L - max b (L - T)" arbitrary: b r obss)
  case 0
  then have "b = L" by (auto simp: rinv_def max_def split: if_splits)
  with 0 polls_caught_up show ?case by fastforce
next
  case (Suc k)
  let ?n = "max b (L - T)"
  have b: "b < L" using Suc.hyps(2) by (auto simp: rinv_def max_def split: if_splits)
  have n: "?n < L" "max (?n + 1) (L - T) = ?n + 1" "L - (?n + 1) = k" using Suc.hyps(2) by auto
  have range: "[?n ..< L] = ?n # [?n + 1 ..< L]" using n(1) by (simp add: upt_conv_Cons)
  obtain o1 o2 obss' where obss: "obss = o1 # o2 # obss'"
  proof -
    have "2 \<le> length obss" using Suc.prems(4) Suc.hyps(2) by linarith
    then obtain o1 os where "obss = o1 # os" "1 \<le> length os" by (cases obss) auto
    with that show thesis by (cases os) auto
  qed
  have q: "quiet xxh capacity T ms L (o1 i)" "quiet xxh capacity T ms L (o2 i)" for i using Suc.prems(2) obss by auto
  have rest: "\<exists>r'. pr_polls xxh capacity obss'' r1 = Inr (map ((!) ms) [?n + 1 ..< L], r')"
    if "rinv T L (?n + 1) r1" "obss'' = obss' \<or> obss'' = o2 # obss'" for r1 obss''
  proof -
    have "\<forall>obs \<in> set obss''. \<forall>i. quiet xxh capacity T ms L (obs i)" using that(2) Suc.prems(2) obss by auto
    moreover have "2 * Suc k \<le> Suc (Suc (length obss'))"
      using Suc.prems(4) unfolding Suc.hyps(2) [symmetric] obss by simp
    then have "2 * (L - max (?n + 1) (L - T)) \<le> length obss''" unfolding n(2,3) using that(2) by (elim disjE) simp_all
    ultimately show ?thesis
      using Suc.hyps(1) [of "?n + 1" r1 obss'', unfolded n(2,3), OF refl that(1) _ Suc.prems(3)] unfolding n(2,3) by blast
  qed
  from two_polls [where obs = o1 and obs' = o2, OF Suc.prems(1) q Suc.prems(3) b] obtain r1 where
    "(pr_poll xxh capacity o1 r = Inr (Some (ms ! ?n), r1) \<and> rinv T L (?n + 1) r1) \<or>
     (pr_poll xxh capacity o1 r = Inr (None, r1) \<and>
      (\<exists>r2. pr_poll xxh capacity o2 r1 = Inr (Some (ms ! ?n), r2) \<and> rinv T L (?n + 1) r2))"
    by blast
  then show ?case
  proof (elim disjE conjE exE)
    assume one: "pr_poll xxh capacity o1 r = Inr (Some (ms ! ?n), r1)" "rinv T L (?n + 1) r1"
    from rest [OF one(2), of "o2 # obss'"] obtain r' where
      "pr_polls xxh capacity (o2 # obss') r1 = Inr (map ((!) ms) [?n + 1 ..< L], r')" by blast
    with one(1) show ?thesis unfolding obss range pr_polls.simps(2) [of _ _ o1] by simp
  next
    fix r2
    assume two: "pr_poll xxh capacity o1 r = Inr (None, r1)" "pr_poll xxh capacity o2 r1 = Inr (Some (ms ! ?n), r2)"
      "rinv T L (?n + 1) r2"
    from rest [OF two(3), of obss'] obtain r' where
      "pr_polls xxh capacity obss' r2 = Inr (map ((!) ms) [?n + 1 ..< L], r')" by blast
    with two(1,2) show ?thesis unfolding obss range by simp
  qed
qed

text \<open>After any run, the messages that the ring still has are delivered, in order and nothing else.\<close>

lemma tail_is_delivered:
  assumes "link_run xxh capacity T ms L r ds" "link_fits T (length ms)" "1 < T"
    "\<forall>obs \<in> set obss. \<forall>i. quiet xxh capacity T ms (length ms) (obs i)" "2 * T \<le> length obss"
  shows "\<exists>ns r'. ds = map ((!) ms) ns \<and> sorted_wrt (<) ns \<and>
    pr_polls xxh capacity obss r = Inr (map ((!) ms) [max (next_up ns) (length ms - T) ..< length ms], r')"
proof -
  obtain ns where ns: "rinv T L (next_up ns) r" "ds = map ((!) ms) ns" "sorted_wrt (<) ns" "L \<le> length ms"
    using link_run_ok [OF assms(1,2)] by blast
  have inv: "rinv T (length ms) (next_up ns) r" by (rule rinv_mono [OF ns(1,4) assms(2)])
  have "2 * (length ms - max (next_up ns) (length ms - T)) \<le> length obss" using assms(5) by linarith
  from polls_drain [OF inv assms(4,3) this] ns show ?thesis by blast
qed

section \<open>A tail of one message\<close>

text \<open>With one slot there is no falling edge: once a message was missed, nothing is delivered any more.\<close>

definition stuck :: "nat \<Rightarrow> p2p_receiver \<Rightarrow> bool" where
  "stuck L r \<longleftrightarrow> (\<exists>b m. rinv 1 L b r \<and> pr_straggling r = Some (id_of 1 m) \<and> b + 1 \<le> m \<and> m < L \<and> pr_next r = id_of 1 (m + 1))"

lemma stuck_try:
  assumes "stuck L r" "L \<le> L'" "link_fits 1 L'" "sees xxh capacity 1 ms L' (unat (snd (pr_next r))) ob"
  shows "\<exists>r'. pr_try_poll xxh capacity ob r = Inr (Straggling, r') \<and> stuck L' r'"
proof -
  obtain b m where m: "rinv 1 L b r" "pr_straggling r = Some (id_of 1 m)" "b + 1 \<le> m" "m < L" "pr_next r = id_of 1 (m + 1)"
    using assms(1) unfolding stuck_def by blast
  have inv: "rinv 1 L' b r" by (rule rinv_mono [OF m(1) assms(2,3)])
  have j: "unat (snd (pr_next r)) = 0" using rinv_slot [OF m(1)] by simp
  have land: "landed 1 L' 0 = L'" "latest 1 L' 0 = L' - 1" "0 < L'" using m(4) assms(2) by (simp_all add: landed_def latest_def)
  have f: "link_fits 1 b" "link_fits 1 (L' - 1)" "link_fits 1 m" using link_fits_mono [OF assms(3)] m(3,4) assms(2) by simp_all
  have tail: "unat (pr_tail r) = 1" "pr_best r = id_of 1 b" using inv by (simp_all add: rinv_def)
  have scan: "(ob_incarnation ob, snd (pr_next r)) = id_of 1 (L' - 1)"
    using scanning_id [OF assms(3) _ _ j] land assms(4) j by (simp add: sees_def)
  have inc: "ob_incarnation ob = of_nat L'" using assms(4) j land by (simp add: sees_def)
  have "\<not> ob_incarnation ob < fst (pr_best r)"
    using id_of_parts(1) [OF f(1)] inc unat_u32_of_nat [of L'] assms(2,3) m(3,4) tail(2)
    by (simp add: word_less_nat_alt link_fits_def)
  moreover have "id_of 1 (L' - 1) \<noteq> pr_best r" using id_of_eq [OF f(2,1)] tail(2) m(3,4) assms(2) by simp
  moreover have "\<not> id_less (id_of 1 (L' - 1)) (id_of 1 m)" using id_less_of [OF f(2,3)] m(4) assms(2) by simp
  ultimately have "pr_try_poll xxh capacity ob r =
      Inr (Straggling, r\<lparr>pr_straggling := Some (id_of 1 (L' - 1)), pr_next := id_of 1 (L' - 1 + 1)\<rparr>)"
    using scan m(2) pr_successor_of [OF f(2) tail(1)] unfolding pr_try_poll_def by (simp add: Let_def)
  moreover have "stuck L' (r\<lparr>pr_straggling := Some (id_of 1 (L' - 1)), pr_next := id_of 1 (L' - 1 + 1)\<rparr>)"
    unfolding stuck_def
    by (intro exI [of _ b] exI [of _ "L' - 1"]) (use inv m assms(2) in \<open>auto simp: rinv_def\<close>)
  ultimately show ?thesis by blast
qed

lemma stuck_poll:
  assumes "stuck L r" "attempts xxh capacity 1 ms L (L' # Ls) (obs 0 # obs')" "link_fits 1 (length ms)"
  shows "\<exists>r'. pr_poll xxh capacity obs r = Inr (None, r') \<and> stuck L' r'"
proof -
  obtain b m where m: "rinv 1 L b r" using assms(1) unfolding stuck_def by blast
  have tail: "unat (pr_tail r) = 1" using m by (simp add: rinv_def)
  have L': "L \<le> L'" "\<forall>w. unat w < 1 \<longrightarrow> sees xxh capacity 1 ms L' (unat w) (obs 0 w)"
    using assms(2) by (simp_all add: attempts_Cons)
  have "L' \<le> length ms" using L'(2) [THEN spec, of 0] by (simp add: sees_def)
  then have f: "link_fits 1 L'" by (rule link_fits_mono [OF assms(3)])
  have "unat (snd (pr_next r)) < 1" by (rule rinv_slot [OF m])
  with L'(2) obtain r' where "pr_try_poll xxh capacity (obs 0 (snd (pr_next r))) r = Inr (Straggling, r')" "stuck L' r'"
    using stuck_try [OF assms(1) L'(1) f] by blast
  then show ?thesis unfolding pr_poll_def tail by simp
qed

lemma stuck_polls:
  assumes "stuck L r" "attempts xxh capacity 1 ms L Ls (map (\<lambda>obs. obs 0) obss)" "link_fits 1 (length ms)"
  shows "\<exists>r'. pr_polls xxh capacity obss r = Inr ([], r')"
  using assms(1,2)
proof (induction obss arbitrary: L Ls r)
  case (Cons obs obss)
  then obtain L' Ls' where Ls: "Ls = L' # Ls'" and rest: "attempts xxh capacity 1 ms L' Ls' (map (\<lambda>obs. obs 0) obss)"
    by (auto simp: attempts_Cons)
  obtain r1 where r1: "pr_poll xxh capacity obs r = Inr (None, r1)" "stuck L' r1"
    using stuck_poll [where obs = obs, OF Cons.prems(1) Cons.prems(2) [unfolded Ls list.map] assms(3)] by blast
  from Cons.IH [OF r1(2) rest] r1(1) show ?case by auto
qed simp

lemma first_poll_sticks:
  assumes "rinv 1 0 0 r" "attempts xxh capacity 1 ms 0 (L # Ls) (obs 0 # obs')" "link_fits 1 (length ms)" "1 < L"
  shows "\<exists>r'. pr_poll xxh capacity obs r = Inr (None, r') \<and> stuck L r'"
proof -
  have o: "\<forall>w. unat w < 1 \<longrightarrow> sees xxh capacity 1 ms L (unat w) (obs 0 w)" using assms(2) by (simp add: attempts_Cons)
  have "L \<le> length ms" using o [THEN spec, of 0] by (simp add: sees_def)
  then have f: "link_fits 1 L" "link_fits 1 (L - 1)" "link_fits 1 0" using link_fits_mono [OF assms(3)] by simp_all
  have inv: "rinv 1 L 0 r" by (rule rinv_mono [OF assms(1) _ f(1)]) simp
  have r: "unat (pr_tail r) = 1" "pr_best r = id_of 1 0" "pr_next r = id_of 1 0" "pr_straggling r = None"
    using assms(1) by (cases "pr_straggling r"; auto simp: rinv_def)+
  have j: "unat (snd (pr_next r)) = 0" using rinv_slot [OF assms(1)] by simp
  have land: "landed 1 L 0 = L" "latest 1 L 0 = L - 1" using assms(4) by (simp_all add: landed_def latest_def)
  have s: "sees xxh capacity 1 ms L 0 (obs 0 (snd (pr_next r)))" using o j by (metis zero_less_one)
  then have inc: "ob_incarnation (obs 0 (snd (pr_next r))) = of_nat L" using land by (simp add: sees_def)
  have scan: "(ob_incarnation (obs 0 (snd (pr_next r))), snd (pr_next r)) = id_of 1 (L - 1)"
    using scanning_id [OF f(1) _ _ j] land assms(4) inc by simp
  have "\<not> ob_incarnation (obs 0 (snd (pr_next r))) < fst (pr_best r)"
    using id_of_parts(1) [OF f(3)] inc unat_u32_of_nat [of L] f(1) assms(4) r(2) by (simp add: word_less_nat_alt link_fits_def)
  moreover have "id_of 1 (L - 1) \<noteq> pr_best r" using id_of_eq [OF f(2,3)] r(2) assms(4) by simp
  ultimately have "pr_try_poll xxh capacity (obs 0 (snd (pr_next r))) r =
      Inr (Straggling, r\<lparr>pr_straggling := Some (id_of 1 (L - 1)), pr_next := id_of 1 (L - 1 + 1)\<rparr>)"
    using scan r(4) pr_successor_of [OF f(2) r(1)] unfolding pr_try_poll_def by (simp add: Let_def)
  moreover have "stuck L (r\<lparr>pr_straggling := Some (id_of 1 (L - 1)), pr_next := id_of 1 (L - 1 + 1)\<rparr>)"
    unfolding stuck_def using inv assms(4) by (intro exI [of _ 0] exI [of _ "L - 1"]) (auto simp: rinv_def)
  ultimately show ?thesis unfolding pr_poll_def r(1) by simp
qed

lemma tail_of_one_blocks:
  assumes "pr_new tail sz mr rm = Inr r" "unat tail = 1" "link_fits 1 (length ms)" "1 < L"
    "attempts xxh capacity 1 ms 0 (L # Ls) (map (\<lambda>obs. obs 0) (obs # obss))"
  shows "\<exists>r'. pr_polls xxh capacity (obs # obss) r = Inr ([], r')"
proof -
  have "link_fits 1 0" by (rule link_fits_mono [OF assms(3)]) simp
  from pr_new_rinv [OF assms(1,2) this] have inv: "rinv 1 0 0 r" .
  obtain r1 where r1: "pr_poll xxh capacity obs r = Inr (None, r1)" "stuck L r1"
    using first_poll_sticks [where obs = obs, OF inv assms(5) [unfolded list.map] assms(3,4)] by blast
  have "attempts xxh capacity 1 ms L Ls (map (\<lambda>obs. obs 0) obss)" using assms(5) by (simp add: attempts_Cons)
  from stuck_polls [OF r1(2) this assms(3)] r1(1) show ?thesis by auto
qed

text \<open>The size in the header is the sender's: a larger one than the caller's buffer is written behind its end.\<close>

lemma size_from_header_overflows:
  assumes "scanning = (ob_incarnation ob, snd (pr_next r))" "scanning = pr_best r"
    "capacity < unat (ob_size ob)" "unat (ob_size ob) \<le> length (ob_data ob)"
  shows "pr_try_poll xxh capacity ob r = Inl Undefined_behaviour"
proof -
  have "\<not> ob_incarnation ob < fst (pr_best r)" by (metis assms(1,2) fst_conv order_less_irrefl)
  then show ?thesis using assms by (simp add: pr_try_poll_def slice_def Let_def)
qed

end
