(* ===== verification/P2p_Link.thy ===== *)
theory P2p_Link
  imports P2p_Sender P2p_Tail
begin

text \<open>
  A sender and a receiver together: the ring of the receiver is what the card copied into it.
\<close>

definition remote_ring :: "p2p_slot list \<Rightarrow> copied list \<Rightarrow> p2p_slot list" where
  "remote_ring ring wire = foldl (\<lambda>ring (r, slot). ring[unat r := slot]) ring wire"

text \<open>An attempt between two copies.\<close>

definition reads :: "p2p_slot list \<Rightarrow> u64 \<Rightarrow> p2p_obs" where
  "reads ring w = (let slot = ring ! unat w in
     \<lparr>ob_incarnation = ps_incarnation slot, ob_hash = ps_hash slot, ob_size = ps_size slot, ob_data = ps_data slot,
      ob_again = ps_incarnation slot\<rparr>)"

definition blank_ring :: "nat \<Rightarrow> u64 \<Rightarrow> p2p_slot list" where
  "blank_ring T slot_size = replicate T (p2p_blank slot_size)"

lemma remote_ring_length [simp]: "length (remote_ring ring wire) = length ring"
  unfolding remote_ring_def by (induction wire arbitrary: ring) (auto simp: split_beta)

lemma remote_ring_snoc: "remote_ring ring (wire @ [c]) = (remote_ring ring wire)[unat (fst c) := snd c]"
  by (simp add: remote_ring_def split_beta)

lemma remote_ring_holds:
  assumes "\<forall>n < length wire. fst (wire ! n) = of_nat (n mod T)" "length ring = T" "T < 18446744073709551616"
    "n < length wire" "length wire \<le> n + T"
  shows "remote_ring ring wire ! (n mod T) = snd (wire ! n)"
  using assms(1,4,5)
proof (induction wire rule: rev_induct)
  case (snoc c wire)
  let ?L = "length wire"
  have T: "0 < T" using snoc.prems(2,3) by (cases T) auto
  have small: "k mod T < 18446744073709551616" for k using T assms(3) mod_less_divisor [of T k] by linarith
  have c: "unat (fst c) = ?L mod T"
    using snoc.prems(1) [rule_format, of ?L] small by (simp add: unat_u64_of_nat)
  have old: "\<forall>n < ?L. fst (wire ! n) = of_nat (n mod T)"
  proof (intro allI impI)
    fix k assume "k < ?L"
    with snoc.prems(1) [rule_format, of k] show "fst (wire ! k) = of_nat (k mod T)" by (simp add: nth_append)
  qed
  show ?case
  proof (cases "n = ?L")
    case True
    with c T assms(2) show ?thesis by (simp add: remote_ring_snoc)
  next
    case False
    then have n: "n < ?L" "?L < n + T" using snoc.prems(2,3) by simp_all
    have "n mod T \<noteq> ?L mod T"
    proof
      assume "n mod T = ?L mod T"
      then have "T dvd ?L - n" using n(1) by (metis mod_eq_dvd_iff_nat less_imp_le)
      with n show False by (auto dest!: dvd_imp_le)
    qed
    then show ?thesis using snoc.IH [OF old] n c by (simp add: remote_ring_snoc nth_append)
  qed
qed simp

lemma remote_ring_empty:
  assumes "\<forall>n < length wire. fst (wire ! n) = of_nat (n mod T)" "length ring = T" "T < 18446744073709551616"
    "length wire \<le> j" "j < T"
  shows "remote_ring ring wire ! j = ring ! j"
  using assms(1,4)
proof (induction wire rule: rev_induct)
  case (snoc c wire)
  let ?L = "length wire"
  have c: "unat (fst c) = ?L"
    using snoc.prems(1) [rule_format, of ?L] snoc.prems(2) assms(3,5) by (simp add: unat_u64_of_nat)
  have "\<forall>n < ?L. fst (wire ! n) = of_nat (n mod T)"
  proof (intro allI impI)
    fix k assume "k < ?L"
    with snoc.prems(1) [rule_format, of k] show "fst (wire ! k) = of_nat (k mod T)" by (simp add: nth_append)
  qed
  from snoc.IH [OF this] c snoc.prems(2) show ?case by (simp add: remote_ring_snoc)
qed (simp add: remote_ring_def)

lemma ring_is_quiet:
  assumes "sender_run xxh T s ms wire" "length ms + T < 18446744073709551616" "link_fits T (length ms)"
    "\<forall>m \<in> set ms. length m \<le> capacity"
  shows "quiet xxh capacity T ms (length wire) (reads (remote_ring (blank_ring T slot_size) wire))"
  unfolding quiet_def
proof (intro allI impI)
  fix w :: u64
  let ?L = "length wire" let ?j = "unat w" let ?ring = "remote_ring (blank_ring T slot_size) wire"
  assume j: "?j < T"
  from sender_feeds_link [OF assms(1,2)] have L: "?L \<le> length ms" and w: "\<forall>n < ?L. wired xxh T ms n (wire ! n)" by simp_all
  have f: "\<forall>n < ?L. fst (wire ! n) = of_nat (n mod T)" using w by (simp add: wired_def)
  have T: "T < 18446744073709551616" using assms(3) by (simp add: link_fits_def)
  have ring: "length (blank_ring T slot_size) = T" by (simp add: blank_ring_def)
  show "sees xxh capacity T ms ?L ?j (reads ?ring w) \<and> ob_again (reads ?ring w) = ob_incarnation (reads ?ring w) \<and>
      (0 < landed T ?L ?j \<longrightarrow> ob_hash (reads ?ring w) = xxh (take (unat (ob_size (reads ?ring w))) (ob_data (reads ?ring w))))"
  proof (cases "?j < ?L")
    case True
    have pos: "0 < landed T ?L ?j" using landed_pos [OF True, of T] j by simp
    note n = landed_latest [OF j pos]
    let ?n = "latest T ?L ?j"
    have slot: "?ring ! ?j = snd (wire ! ?n)" using remote_ring_holds [OF f ring T n(1,3)] n(2) by simp
    have h: "holds_msg T ms ?n (snd (wire ! ?n))" "ps_hash (snd (wire ! ?n)) = xxh (ms ! ?n)"
      using w n(1) by (simp_all add: wired_def)
    have land: "(of_nat (landed T ?L ?j) :: u32) = 1 + of_nat (?n div T)" by (simp flip: n(4))
    have "length (ms ! ?n) \<le> capacity" using assms(4) n(1) L by (simp add: nth_mem)
    moreover have "length (ms ! ?n) \<le> length (ps_data (snd (wire ! ?n)))"
      using arg_cong [OF h(1) [unfolded holds_msg_def, THEN conjunct2, THEN conjunct2], of length] by simp
    ultimately show ?thesis
      using h L slot land by (simp add: sees_def reads_def Let_def holds_msg_def)
  next
    case False
    then have slot: "?ring ! ?j = p2p_blank slot_size"
      using remote_ring_empty [OF f ring T _ j] j by (simp add: blank_ring_def)
    have "landed T ?L ?j = 0" using False j by (simp add: landed_def)
    with L slot show ?thesis by (simp add: sees_def reads_def Let_def p2p_blank_def)
  qed
qed

text \<open>Everything was sent and copied, then a receiver is polled.\<close>

lemma link_delivers_tail:
  assumes "sender_run xxh T s ms wire" "length wire = length ms" "length ms + T < 18446744073709551616"
    "link_fits T (length ms)" "1 < T" "\<forall>m \<in> set ms. length m \<le> capacity"
    "pr_new tail sz mr rm = Inr r" "unat tail = T" "2 * T \<le> n"
  shows "\<exists>r'. pr_polls xxh capacity (replicate n (\<lambda>i. reads (remote_ring (blank_ring T slot_size) wire))) r =
    Inr (map ((!) ms) [length ms - T ..< length ms], r')"
proof -
  have run: "rinv T (length ms) 0 r" by (rule pr_new_rinv [OF assms(7,8,4)])
  have q: "\<forall>obs \<in> set (replicate n (\<lambda>i. reads (remote_ring (blank_ring T slot_size) wire))).
      \<forall>i. quiet xxh capacity T ms (length ms) (obs i)"
    using ring_is_quiet [OF assms(1,3,4,6)] assms(2) by simp
  have "2 * (length ms - max 0 (length ms - T)) \<le> length (replicate n (\<lambda>i. reads (remote_ring (blank_ring T slot_size) wire)))"
    using assms(9) by simp
  from polls_drain [OF run q assms(5) this] show ?thesis by simp
qed

end
