(* ===== verification/Toy_P2p.thy ===== *)
theory Toy_P2p
  imports P2p_Link Toy_Swmr
begin

text \<open>A sender that runs on events, and links of one and two slots.\<close>

datatype sender_event = Put bytes | Send_all | Tick_once | Card nat

type_synonym sender_state = "sync_sender \<times> bytes list \<times> copied list"

fun sender_do :: "(bytes \<Rightarrow> u64) \<Rightarrow> sender_event \<Rightarrow> sender_state \<Rightarrow> sender_state result" where
  "sender_do xxh (Put m) (s, ms, wire) =
     (if unat (of_nat (length m) :: u32) \<noteq> length m then Inl Undefined_behaviour
      else rbind (ss_get_slot (of_nat (length m)) s) (\<lambda>(opt, s1).
        case opt of
          None \<Rightarrow> Inr (s1, ms, wire)
        | Some i \<Rightarrow> rbind (ss_memcpy i m s1) (\<lambda>s2. Inr (s2, ms @ [m], wire))))"
| "sender_do xxh Send_all (s, ms, wire) = rbind (ss_send xxh s) (\<lambda>s1. Inr (s1, ms, wire))"
| "sender_do xxh Tick_once (s, ms, wire) = rbind (ss_tick xxh s) (\<lambda>s1. Inr (s1, ms, wire))"
| "sender_do xxh (Card k) (s, ms, wire) =
     Inr (s\<lparr>ss_qp := qp_complete k (ss_qp s)\<rparr>, ms, wire @ ss_copies k s)"

lemma sender_do_run:
  assumes "sender_run xxh T s ms wire" "sender_do xxh e (s, ms, wire) = Inr (s', ms', wire')"
  shows "sender_run xxh T s' ms' wire'"
proof (cases e)
  case (Put m)
  with assms(2) obtain opt s1 where g: "unat (of_nat (length m) :: u32) = length m" "ss_get_slot (of_nat (length m)) s = Inr (opt, s1)"
    and r: "(case opt of None \<Rightarrow> Inr (s1, ms, wire) | Some i \<Rightarrow> rbind (ss_memcpy i m s1) (\<lambda>s2. Inr (s2, ms @ [m], wire)))
      = Inr (s', ms', wire')"
    by (auto simp: rbind_Inr_iff split: if_splits)
  show ?thesis
  proof (cases opt)
    case None
    with r g(2) sender_full [OF assms(1)] show ?thesis by simp
  next
    case (Some i)
    with r obtain s2 where "ss_memcpy i m s1 = Inr s2" "s' = s2" "ms' = ms @ [m]" "wire' = wire"
      by (auto simp: rbind_Inr_iff)
    with Some g(2) sender_put [OF assms(1) _ g(1)] show ?thesis by blast
  qed
next
  case Send_all
  with assms show ?thesis by (auto simp: rbind_Inr_iff intro: sender_send)
next
  case Tick_once
  with assms show ?thesis by (auto simp: rbind_Inr_iff intro: sender_tick)
next
  case (Card k)
  with assms show ?thesis by (auto intro: sender_card)
qed

lemma sender_play_run:
  "sender_run xxh T s ms wire \<Longrightarrow> rfold (sender_do xxh) es (s, ms, wire) = Inr (s', ms', wire') \<Longrightarrow>
    sender_run xxh T s' ms' wire'"
proof (induction es arbitrary: s ms wire)
  case (Cons e es)
  then obtain x where x: "sender_do xxh e (s, ms, wire) = Inr x" "rfold (sender_do xxh) es x = Inr (s', ms', wire')"
    by (auto simp: rbind_Inr_iff)
  obtain s1 ms1 wire1 where p: "x = (s1, ms1, wire1)" by (cases x)
  from Cons.IH [OF sender_do_run [OF Cons.prems(1) x(1) [unfolded p]] x(2) [unfolded p]] show ?case .
qed simp

definition toy_sent :: "u64 \<Rightarrow> sender_event list \<Rightarrow> sender_state result" where
  "toy_sent tail es = rbind (ss_new tail 8 (24 * tail) (24 * tail)) (\<lambda>s. rfold (sender_do toy_xxh) es (s, [], []))"

lemma toy_sent_run:
  assumes "toy_sent tail es = Inr (s, ms, wire)" "0 < tail"
  shows "sender_run toy_xxh (unat tail) s ms wire"
proof -
  obtain s0 where s0: "ss_new tail 8 (24 * tail) (24 * tail) = Inr s0" "rfold (sender_do toy_xxh) es (s0, [], []) = Inr (s, ms, wire)"
    using assms(1) by (auto simp: toy_sent_def rbind_Inr_iff)
  show ?thesis
    by (rule sender_play_run [OF sender_new [OF s0(1) refl] s0(2)]) (use assms(2) in \<open>simp add: u64_less_iff\<close>)
qed

text \<open>Three messages through two slots, two through one.\<close>

definition three_sent :: "sender_state result" where
  "three_sent = toy_sent 2 [Put [1], Put [2, 2], Send_all, Card 1, Tick_once, Put [3], Send_all, Card 5]"

definition two_sent :: "sender_state result" where
  "two_sent = toy_sent 1 [Put [1], Send_all, Card 1, Tick_once, Put [2], Send_all, Card 1]"

definition three_wire :: "copied list" where
  "three_wire = (case three_sent of Inr (s, ms, wire) \<Rightarrow> wire)"

definition two_wire :: "copied list" where
  "two_wire = (case two_sent of Inr (s, ms, wire) \<Rightarrow> wire)"

lemma three_sent_ok: "rbind three_sent (\<lambda>(s, ms, wire). Inr (ms, length wire)) = Inr ([[1], [2, 2], [3]], 3)"
  by code_simp

lemma two_sent_ok: "rbind two_sent (\<lambda>(s, ms, wire). Inr (ms, length wire)) = Inr ([[1], [2]], 2)"
  by code_simp

lemma three_run: "\<exists>s. sender_run toy_xxh 2 s [[1], [2, 2], [3]] three_wire" and three_wire_length: "length three_wire = 3"
proof -
  obtain s ms wire where w: "three_sent = Inr (s, ms, wire)" "ms = [[1], [2, 2], [3]]" "length wire = 3"
    using three_sent_ok by (auto simp: rbind_Inr_iff)
  have t: "three_wire = wire" by (simp add: three_wire_def w(1))
  with w show "length three_wire = 3" by simp
  have "sender_run toy_xxh (unat (2 :: u64)) s ms wire" by (rule toy_sent_run) (use w in \<open>simp_all add: three_sent_def\<close>)
  with w t show "\<exists>s. sender_run toy_xxh 2 s [[1], [2, 2], [3]] three_wire" by auto
qed

lemma two_run: "\<exists>s. sender_run toy_xxh 1 s [[1], [2]] two_wire" and two_wire_length: "length two_wire = 2"
proof -
  obtain s ms wire where w: "two_sent = Inr (s, ms, wire)" "ms = [[1], [2]]" "length wire = 2"
    using two_sent_ok by (auto simp: rbind_Inr_iff)
  have t: "two_wire = wire" by (simp add: two_wire_def w(1))
  with w show "length two_wire = 2" by simp
  have "sender_run toy_xxh (unat (1 :: u64)) s ms wire" by (rule toy_sent_run) (use w in \<open>simp_all add: two_sent_def\<close>)
  with w t show "\<exists>s. sender_run toy_xxh 1 s [[1], [2]] two_wire" by auto
qed

lemma toy_fits: "link_fits 1 2" "link_fits 2 3" "link_fits 1 (length [[1 :: byte], [2]])" "link_fits 2 (length [[1 :: byte], [2, 2], [3]])"
  by (simp_all add: link_fits_def)

text \<open>What the receivers see of the rings.\<close>

definition three_seen :: "nat \<Rightarrow> u64 \<Rightarrow> p2p_obs" where
  "three_seen i = reads (remote_ring (blank_ring 2 24) three_wire)"

definition two_seen :: "nat \<Rightarrow> u64 \<Rightarrow> p2p_obs" where
  "two_seen i = reads (remote_ring (blank_ring 1 24) two_wire)"

lemma three_quiet: "quiet toy_xxh 8 2 [[1], [2, 2], [3]] 3 (three_seen i)"
proof -
  obtain s where s: "sender_run toy_xxh 2 s [[1], [2, 2], [3]] three_wire" using three_run by blast
  show ?thesis using ring_is_quiet [OF s _ toy_fits(4), of 8 24] three_wire_length by (simp add: three_seen_def)
qed

lemma two_quiet: "quiet toy_xxh 8 1 [[1], [2]] 2 (two_seen i)"
proof -
  obtain s where s: "sender_run toy_xxh 1 s [[1], [2]] two_wire" using two_run by blast
  show ?thesis using ring_is_quiet [OF s _ toy_fits(3), of 8 24] two_wire_length by (simp add: two_seen_def)
qed

lemma quiet_attempts:
  assumes "\<And>i. quiet xxh capacity T ms L (obs i)" "l \<le> L"
  shows "attempts xxh capacity T ms l (replicate n L) (map obs (map (\<lambda>i. 0) [0 ..< n]))"
    "attempts xxh capacity T ms l (replicate n L) (map obs [0 ..< n])"
  using assms by (auto simp: attempts_def quiet_def nth_Cons' sorted_replicate)

definition toy_receiver :: "u64 \<Rightarrow> p2p_receiver" where
  "toy_receiver tail = \<lparr>pr_tail = tail, pr_slot_size = 24, pr_straggling = None, pr_next = (1, 0), pr_best = (1, 0)\<rparr>"

lemma toy_receiver_new: "pr_new 2 8 48 48 = Inr (toy_receiver 2)" "pr_new 1 8 24 24 = Inr (toy_receiver 1)"
  by (simp_all add: toy_receiver_def, code_simp+)

lemma three_polled: "rbind (pr_poll toy_xxh 8 three_seen (toy_receiver 2)) (\<lambda>(d, r). Inr d) = Inr (Some [2, 2])"
  by code_simp

text \<open>One poll of the two slots, when everything has arrived.\<close>

lemma three_link_run: "\<exists>r. link_run toy_xxh 8 2 [[1], [2, 2], [3]] 3 r [[2, 2]]"
proof -
  obtain r where r: "pr_poll toy_xxh 8 three_seen (toy_receiver 2) = Inr (Some [2, 2], r)"
    using three_polled by (auto simp: rbind_Inr_iff)
  have "link_run toy_xxh 8 2 [[1], [2, 2], [3]] 0 (toy_receiver 2) []"
    by (rule link_new [OF toy_receiver_new(1)]) simp
  from link_poll [OF this quiet_attempts(2) [OF three_quiet, of 0 2] r] show ?thesis by (auto simp: numeral_2_eq_2)
qed

text \<open>
  A buffered message is overtaken: the ring of one slot is full when [5] asks for a slot and gets a buffer; the slot is
  free when [6] asks, and \<open>send\<close> posts [6] at once.
\<close>

definition overtaking :: "(p2p_pointer \<times> p2p_pointer \<times> bytes list) result" where
  "overtaking =
     (let zero = (\<lambda>_. 0) in
      rbind (as_new zero 1 8 24 24) (\<lambda>a0.
      rbind (as_get_slot zero toy_xxh 1 a0) (\<lambda>(p0, a1).
      rbind (as_memcpy p0 [4] a1) (\<lambda>a2.
      rbind (as_send zero toy_xxh a2) (\<lambda>a3.
      rbind (as_get_slot zero toy_xxh 1 a3) (\<lambda>(p1, a4).
      rbind (as_memcpy p1 [5] a4) (\<lambda>a5.
      rbind (as_tick zero toy_xxh (a5\<lparr>as_sender := (as_sender a5)\<lparr>ss_qp := qp_complete 1 (ss_qp (as_sender a5))\<rparr>\<rparr>)) (\<lambda>a6.
      rbind (as_get_slot zero toy_xxh 1 a6) (\<lambda>(p2, a7).
      rbind (as_memcpy p2 [6] a7) (\<lambda>a8.
      rbind (as_send zero toy_xxh a8) (\<lambda>a9.
      Inr (p1, p2, map (\<lambda>(r, slot). take 1 (ps_data slot)) (ss_copies 1 (as_sender a9)) @ map buffer_bytes (as_tail_buffer a9)))))))))))))"

lemma buffered_message_overtaken: "overtaking = Inr (In_buffer, In_slot 0, [[6], [5]])"
  by code_simp

end
