(* ===== verification/Rpc_Ingress.thy ===== *)
theory Rpc_Ingress
  imports Certifier Requests Tail_Queue
begin

text \<open>
  Requests on their way to the engine: \<open>rpc/internal/request.hpp\<close> and \<open>response.hpp\<close> (the messages) and
  \<open>rpc/internal/ingress.hpp\<close>: a replica collects the requests of each client, the echoes of the other
  replicas and the verified signatures, and hands requests out to be accepted, echoed, forwarded and proposed.

  \<^item> A request is the bytes of its buffer; \<open>tryFrom\<close> has tested their number before anything is read.
  \<^item> A task queue is the list of its closures' data, the oldest dropped beyond the window; \<open>ci_run_client_task\<close> and
    \<open>ci_run_leader_task\<close> are a worker that runs one of them. The queue from the workers is a list.
  \<^item> The clients that are connected are the indices of their entries, in the order in which they appeared.
  \<^item> \<open>cr\<close> is the crypto object. Fetching a public key waits until the client has published it: \<open>ri_keys\<close> are
    those that were fetched.
\<close>

section \<open>Requests\<close>

definition rr_client :: "bytes \<Rightarrow> proc_id" where
  "rr_client b = un32 (take 4 b)"

definition rr_id :: "bytes \<Rightarrow> u64" where
  "rr_id b = un64 (take 8 (drop 8 b))"

definition rr_size :: "bytes \<Rightarrow> u64" where
  "rr_size b = un64 (take 8 (drop 16 b))"

definition rr_payload :: "bytes \<Rightarrow> bytes result" where
  "rr_payload b = slice b RequestHeader (unat (rr_size b))"

definition rr_try_from :: "bytes \<Rightarrow> bytes result" where
  "rr_try_from b =
     (if of_nat (length b) < request_buffer_size 0 then Inl (Invalid_argument ''Buffer too small for a Request!'')
      else if of_nat (length b) \<noteq> request_buffer_size (rr_size b) then Inl (Invalid_argument ''Buffer size does not match: {} vs {}.'')
      else Inr b)"

definition signed_buffer_size :: "u64 \<Rightarrow> u64" where
  "signed_buffer_size request_size = request_buffer_size request_size + of_nat SignatureLength"

definition sr_try_from :: "bytes \<Rightarrow> bytes result" where
  "sr_try_from b =
     (if of_nat (length b) < signed_buffer_size 0 then Inl (Invalid_argument ''Buffer too small for a SignedRequest!'')
      else if of_nat (length b) \<noteq> signed_buffer_size (rr_size b) then Inl (Invalid_argument ''Buffer size does not match: {} vs {}.'')
      else Inr b)"

definition sr_signature :: "bytes \<Rightarrow> signature result" where
  "sr_signature b = slice b (RequestHeader + unat (rr_size b)) SignatureLength"

text \<open>\<open>split()\<close>: the signature is copied, the buffer shrinks to the request.\<close>

definition sr_split :: "bytes \<Rightarrow> (bytes \<times> signature) result" where
  "sr_split b = rbind (sr_signature b) (\<lambda>sig. Inr (take (unat (request_buffer_size (rr_size b))) b, sig))"

text \<open>\<open>operator==\<close> of two messages, as in \<open>Buffers\<close>: over the length of the left one.\<close>

definition raw_equal :: "bytes \<Rightarrow> bytes \<Rightarrow> bool result" where
  "raw_equal xs ys =
     (if take (length ys) xs \<noteq> take (length xs) ys then Inr False
      else if length xs \<le> length ys then Inr True else Inl Undefined_behaviour)"

section \<open>Responses\<close>

definition ResponseHeader :: nat where
  "ResponseHeader = 8"

definition response_buffer_size :: "u64 \<Rightarrow> u64" where
  "response_buffer_size response_size = of_nat ResponseHeader + response_size"

definition rs_try_from :: "bytes \<Rightarrow> bytes result" where
  "rs_try_from b = (if of_nat (length b) < response_buffer_size 0 then Inl (Invalid_argument ''Buffer too small!'') else Inr b)"

definition rs_request_id :: "bytes \<Rightarrow> u64" where
  "rs_request_id b = un64 (take 8 b)"

definition rs_body :: "bytes \<Rightarrow> bytes" where
  "rs_body b = drop ResponseHeader b"

definition response_bytes :: "u64 \<Rightarrow> bytes \<Rightarrow> bytes" where
  "response_bytes request_id response = le64 request_id @ response"

section \<open>RequestStateMachine\<close>

record request_state =
  rm_req :: bytes
  rm_unanimity :: u64
  rm_echoes :: dynamic_bitset
  rm_signature :: "signature option"

definition rm_new :: "bytes \<Rightarrow> u64 \<Rightarrow> signature option \<Rightarrow> request_state result" where
  "rm_new req unanimity sig =
     rbind (bitset_new unanimity) (\<lambda>b.
     rbind (bitset_set b (unat (unanimity - 1))) (\<lambda>(b', _).
     Inr \<lparr>rm_req = req, rm_unanimity = unanimity, rm_echoes = b', rm_signature = sig\<rparr>))"

definition rm_echoed :: "bytes \<Rightarrow> nat \<Rightarrow> request_state \<Rightarrow> (request_state \<times> bool) result" where
  "rm_echoed echo follower m =
     rbind (bitset_get (rm_echoes m) follower) (\<lambda>twice.
       if twice then Inr (m, False)
       else rbind (raw_equal echo (rm_req m)) (\<lambda>same.
         if \<not> same then Inr (m, False)
         else rbind (bitset_set (rm_echoes m) follower) (\<lambda>(b, _). Inr (m\<lparr>rm_echoes := b\<rparr>, True))))"

definition rm_checked_signature :: "signature \<Rightarrow> request_state \<Rightarrow> request_state \<times> bool" where
  "rm_checked_signature sig m = (m\<lparr>rm_signature := Some sig\<rparr>, rm_signature m = None)"

definition rm_all_echoed :: "request_state \<Rightarrow> bool" where
  "rm_all_echoed m = bitset_full (rm_echoes m)"

definition rm_proposable :: "bool \<Rightarrow> bool \<Rightarrow> request_state \<Rightarrow> bool" where
  "rm_proposable fast_path optimistic m =
     (if optimistic then True else if fast_path then rm_all_echoed m else rm_signature m \<noteq> None)"

section \<open>ClientRequestIngress\<close>

record client_ingress =
  ci_id :: proc_id
  ci_window :: u64
  ci_pollable_below :: u64
  ci_next_received :: u64
  ci_next_to_echo :: "u64 list"
  ci_next_to_forward :: "u64 list"
  ci_next_proposable :: u64
  ci_requests :: "request_state tail_map"
  ci_buffered :: "bytes vector_queue list"
  ci_verified :: "(bytes \<times> signature \<times> bool) list"
  ci_client_tasks :: "bytes list"
  ci_leader_tasks :: "bytes list"

definition ci_new :: "proc_id \<Rightarrow> u64 \<Rightarrow> nat \<Rightarrow> client_ingress" where
  "ci_new i window nb_followers =
     \<lparr>ci_id = i, ci_window = window, ci_pollable_below = window, ci_next_received = 0,
      ci_next_to_echo = replicate nb_followers 0, ci_next_to_forward = replicate nb_followers 0,
      ci_next_proposable = 0, ci_requests = tm_new window, ci_buffered = replicate nb_followers (vq_new window),
      ci_verified = [], ci_client_tasks = [], ci_leader_tasks = []\<rparr>"

text \<open>\<open>std::vector::at\<close> is checked.\<close>

definition vat :: "'a list \<Rightarrow> nat \<Rightarrow> 'a result" where
  "vat xs i = (if i < length xs then Inr (xs ! i) else Inl Out_of_range)"

definition ci_from_follower :: "bytes \<Rightarrow> nat \<Rightarrow> client_ingress \<Rightarrow> client_ingress result" where
  "ci_from_follower req follower c =
     rbind (tm_find (ci_requests c) (rr_id req)) (\<lambda>it.
       if it = tm_end (ci_requests c) then
         rbind (vat (ci_buffered c) follower) (\<lambda>q.
         rbind (vq_emplace_back q req) (\<lambda>q'.
         Inr (c\<lparr>ci_buffered := (ci_buffered c)[follower := q']\<rparr>)))
       else
         rbind (tm_deref (ci_requests c) it) (\<lambda>e.
         rbind (rm_echoed req follower (snd e)) (\<lambda>(m, _).
         rbind (tm_assign (ci_requests c) it m) (\<lambda>ms. Inr (c\<lparr>ci_requests := ms\<rparr>)))))"

text \<open>What \<open>catch (const std::exception &e)\<close> catches.\<close>

fun is_exception :: "failure \<Rightarrow> bool" where
  "is_exception Undefined_behaviour = False"
| "is_exception Aborts = False"
| "is_exception Spins = False"
| "is_exception _ = True"

definition ci_emplace :: "bytes \<Rightarrow> u64 \<Rightarrow> signature option \<Rightarrow> client_ingress \<Rightarrow> client_ingress result" where
  "ci_emplace req unanimity sig c =
     rbind (rm_new req unanimity sig) (\<lambda>m.
     rbind (tm_try_emplace (ci_requests c) (rr_id req) m) (\<lambda>(ms, _, _).
     Inr (c\<lparr>ci_requests := ms\<rparr>)))"

text \<open>\<open>while (!buffer.empty() && buffer.front().id() < req_id) popFront\<close>; every turn shortens the queue.\<close>

function pop_below :: "u64 \<Rightarrow> bytes vector_queue \<Rightarrow> bytes vector_queue result" where
  "pop_below req_id q =
     (if vq_empty q then Inr q
      else case vq_front q of
        Inl e \<Rightarrow> Inl e
      | Inr x \<Rightarrow>
          if rr_id x < req_id
          then (case vq_pop_front q of Inl e \<Rightarrow> Inl e | Inr q' \<Rightarrow> pop_below req_id q')
          else Inr q)"
  by pat_completeness auto
termination
proof (relation "measure (\<lambda>(_, q). unat (vq_size q))")
  fix req_id :: u64 and q q' :: "bytes vector_queue" and x
  assume "\<not> vq_empty q" "vq_pop_front q = Inr q'"
  then have "vq_next q \<noteq> vq_head q" "vq_head q' = vq_head q + 1" "vq_next q' = vq_next q"
    by (auto simp: vq_empty_def vq_size_def vq_pop_front_def vq_store_def rbind_Inr_iff)
  then show "((req_id, q'), (req_id, q)) \<in> measure (\<lambda>(_, q). unat (vq_size q))"
    using u64_distance_step [of "vq_head q" "vq_next q"] by (simp add: vq_size_def)
qed simp

declare pop_below.simps [simp del]

definition ci_replay :: "u64 \<Rightarrow> nat \<Rightarrow> client_ingress \<Rightarrow> client_ingress result" where
  "ci_replay req_id follower c =
     rbind (vat (ci_buffered c) follower) (\<lambda>q.
     rbind (pop_below req_id q) (\<lambda>q1.
       let c1 = c\<lparr>ci_buffered := (ci_buffered c)[follower := q1]\<rparr> in
       if vq_empty q1 then Inr c1
       else rbind (vq_front q1) (\<lambda>x.
         if rr_id x \<noteq> req_id then Inr c1
         else rbind (vq_pop_front q1) (\<lambda>q2.
              ci_from_follower x follower (c1\<lparr>ci_buffered := (ci_buffered c1)[follower := q2]\<rparr>)))))"

definition ci_from_client :: "bytes \<Rightarrow> u64 \<Rightarrow> client_ingress \<Rightarrow> client_ingress result" where
  "ci_from_client req unanimity c =
     rbind (tm_find (ci_requests c) (rr_id req)) (\<lambda>it.
       if it \<noteq> tm_end (ci_requests c) then Inl (Runtime_error ''Byzantine behavior: client sent request twice.'')
       else
         case ci_emplace req unanimity None c of
           Inl e \<Rightarrow> Inl (if is_exception e then Runtime_error ''Byzantine behavior: client re-sent a past request.'' else e)
         | Inr c1 \<Rightarrow> rfold (ci_replay (rr_id req)) [0 ..< length (ci_buffered c1)] c1)"

text \<open>\<open>enqueueSignatureVerification\<close>: nothing to do for a request that has a signature.\<close>

definition ci_needs_check :: "bytes \<Rightarrow> client_ingress \<Rightarrow> bool result" where
  "ci_needs_check req c =
     rbind (tm_find (ci_requests c) (rr_id req)) (\<lambda>it.
       if it = tm_end (ci_requests c) then Inr True
       else rbind (tm_deref (ci_requests c) it) (\<lambda>e. Inr (rm_signature (snd e) = None)))"

definition ci_signed_from_client :: "bytes \<Rightarrow> client_ingress \<Rightarrow> client_ingress result" where
  "ci_signed_from_client req c =
     rbind (ci_needs_check req c) (\<lambda>needed.
       Inr (if needed then c\<lparr>ci_client_tasks := push_bounded (ci_window c) req (ci_client_tasks c)\<rparr> else c))"

definition ci_from_leader :: "bytes \<Rightarrow> client_ingress \<Rightarrow> client_ingress result" where
  "ci_from_leader req c =
     rbind (ci_needs_check req c) (\<lambda>needed.
       Inr (if needed then c\<lparr>ci_leader_tasks := push_bounded (ci_window c) req (ci_leader_tasks c)\<rparr> else c))"

definition ci_check :: "crypto \<Rightarrow> bytes \<Rightarrow> client_ingress \<Rightarrow> client_ingress result" where
  "ci_check cr req c =
     rbind (sr_split req) (\<lambda>(raw, sig).
     rbind (crypto_verify cr sig raw (ci_id c)) (\<lambda>valid.
     Inr (c\<lparr>ci_verified := ci_verified c @ [(raw, sig, valid)]\<rparr>)))"

definition ci_run_client_task :: "crypto \<Rightarrow> nat \<Rightarrow> client_ingress \<Rightarrow> client_ingress result" where
  "ci_run_client_task cr i c =
     (if i < length (ci_client_tasks c)
      then ci_check cr (ci_client_tasks c ! i) (c\<lparr>ci_client_tasks := remove_nth i (ci_client_tasks c)\<rparr>) else Inr c)"

definition ci_run_leader_task :: "crypto \<Rightarrow> nat \<Rightarrow> client_ingress \<Rightarrow> client_ingress result" where
  "ci_run_leader_task cr i c =
     (if i < length (ci_leader_tasks c)
      then ci_check cr (ci_leader_tasks c ! i) (c\<lparr>ci_leader_tasks := remove_nth i (ci_leader_tasks c)\<rparr>) else Inr c)"

definition ci_verified_one :: "u64 \<Rightarrow> bytes \<times> signature \<times> bool \<Rightarrow> client_ingress \<Rightarrow> client_ingress result" where
  "ci_verified_one unanimity v c =
     (case v of (req, sig, valid) \<Rightarrow>
       if \<not> valid then Inl (Runtime_error ''Byzantine Behavior: invalid signature received.'')
       else rbind (tm_find (ci_requests c) (rr_id req)) (\<lambda>it.
         if it = tm_end (ci_requests c) then
           (case ci_emplace req unanimity (Some sig) c of
              Inl e \<Rightarrow> if is_exception e then Inr c else Inl e
            | Inr c1 \<Rightarrow> Inr c1)
         else rbind (tm_deref (ci_requests c) it) (\<lambda>e.
              rbind (tm_assign (ci_requests c) it (fst (rm_checked_signature sig (snd e)))) (\<lambda>ms.
              Inr (c\<lparr>ci_requests := ms\<rparr>)))))"

definition ci_poll_verified :: "u64 \<Rightarrow> client_ingress \<Rightarrow> client_ingress result" where
  "ci_poll_verified unanimity c = rfold (ci_verified_one unanimity) (ci_verified c) (c\<lparr>ci_verified := []\<rparr>)"

text \<open>\<open>requests.begin()->first\<close>: jumping over gaps.\<close>

definition ci_first :: "client_ingress \<Rightarrow> u64 result" where
  "ci_first c = rbind (tm_deref (ci_requests c) (tm_begin (ci_requests c))) (\<lambda>e. Inr (fst e))"

definition ci_poll_received :: "client_ingress \<Rightarrow> (bytes option \<times> client_ingress) result" where
  "ci_poll_received c =
     (if tm_empty (ci_requests c) then Inr (None, c)
      else rbind (ci_first c) (\<lambda>first_id.
        let c1 = (if ci_next_received c < first_id then c\<lparr>ci_next_received := first_id\<rparr> else c) in
        rbind (tm_find (ci_requests c1) (ci_next_received c1)) (\<lambda>it.
          if it = tm_end (ci_requests c1) then Inr (None, c1)
          else rbind (tm_deref (ci_requests c1) it) (\<lambda>e.
            if ci_pollable_below c1 \<le> fst e then Inr (None, c1)
            else Inr (Some (rm_req (snd e)), c1\<lparr>ci_next_received := ci_next_received c1 + 1\<rparr>)))))"

definition ci_poll_to_echo :: "nat \<Rightarrow> client_ingress \<Rightarrow> (bytes option \<times> client_ingress) result" where
  "ci_poll_to_echo leader c =
     (if tm_empty (ci_requests c) then Inr (None, c)
      else
        rbind (vat (ci_next_to_echo c) leader) (\<lambda>npte0.
        rbind (ci_first c) (\<lambda>first_id.
          let npte = max npte0 first_id;
              c1 = c\<lparr>ci_next_to_echo := (ci_next_to_echo c)[leader := npte]\<rparr> in
          if ci_next_received c1 \<le> npte then Inr (None, c1)
          else rbind (tm_find (ci_requests c1) npte) (\<lambda>it.
            if it = tm_end (ci_requests c1) then Inr (None, c1)
            else rbind (tm_deref (ci_requests c1) it) (\<lambda>e.
              Inr (Some (rm_req (snd e)), c1\<lparr>ci_next_to_echo := (ci_next_to_echo c1)[leader := npte + 1]\<rparr>))))))"

text \<open>The message of \<open>fmt::format\<close> is not used, but its argument is read through the iterator.\<close>

definition ci_poll_to_forward :: "nat \<Rightarrow> client_ingress \<Rightarrow> ((bytes \<times> signature) option \<times> client_ingress) result" where
  "ci_poll_to_forward dest c =
     (if tm_empty (ci_requests c) then Inr (None, c)
      else
        rbind (vat (ci_next_to_forward c) dest) (\<lambda>nptf0.
        rbind (ci_first c) (\<lambda>first_id.
          let nptf = max nptf0 first_id;
              c1 = c\<lparr>ci_next_to_forward := (ci_next_to_forward c)[dest := nptf]\<rparr> in
          rbind (tm_find (ci_requests c1) nptf) (\<lambda>it.
          rbind (tm_deref (ci_requests c1) it) (\<lambda>e.
            case rm_signature (snd e) of
              None \<Rightarrow> Inr (None, c1)
            | Some sig \<Rightarrow>
                Inr (Some (rm_req (snd e), sig), c1\<lparr>ci_next_to_forward := (ci_next_to_forward c1)[dest := nptf + 1]\<rparr>))))))"

definition ci_poll_proposable :: "bool \<Rightarrow> bool \<Rightarrow> client_ingress \<Rightarrow> (bytes option \<times> client_ingress) result" where
  "ci_poll_proposable fast_path optimistic c =
     (if tm_empty (ci_requests c) then Inr (None, c)
      else rbind (ci_first c) (\<lambda>first_id.
        let c1 = (if ci_next_proposable c < first_id then c\<lparr>ci_next_proposable := first_id\<rparr> else c) in
        if ci_next_received c1 \<le> ci_next_proposable c1 then Inr (None, c1)
        else rbind (tm_find (ci_requests c1) (ci_next_proposable c1)) (\<lambda>it.
          if it = tm_end (ci_requests c1) then Inr (None, c1)
          else rbind (tm_deref (ci_requests c1) it) (\<lambda>e.
            if \<not> rm_proposable fast_path optimistic (snd e) then Inr (None, c1)
            else Inr (Some (rm_req (snd e)), c1\<lparr>ci_next_proposable := ci_next_proposable c1 + 1\<rparr>)))))"

definition ci_executed :: "u64 \<Rightarrow> client_ingress \<Rightarrow> client_ingress" where
  "ci_executed request_id c = c\<lparr>ci_pollable_below := request_id + ci_window c + 1\<rparr>"

section \<open>RequestIngress\<close>

record request_ingress =
  ri_min_client :: proc_id
  ri_unanimity :: u64
  ri_window :: u64
  ri_clients :: "client_ingress option list"
  ri_connected :: "nat list"
  ri_keys :: "proc_id list"
  ri_next_received :: u64
  ri_next_to_echo :: u64
  ri_next_to_forward :: u64
  ri_next_proposable :: u64

definition ri_new :: "proc_id list \<Rightarrow> proc_id \<Rightarrow> proc_id \<Rightarrow> u64 \<Rightarrow> u64 \<Rightarrow> request_ingress" where
  "ri_new keys min_client_id max_client_id window unanimity =
     \<lparr>ri_min_client = min_client_id, ri_unanimity = unanimity, ri_window = window,
      ri_clients = replicate (nat (max_client_id - min_client_id + 1)) None, ri_connected = [], ri_keys = keys,
      ri_next_received = 0, ri_next_to_echo = 0, ri_next_to_forward = 0, ri_next_proposable = 0\<rparr>"

definition ri_valid_client :: "proc_id \<Rightarrow> request_ingress \<Rightarrow> bool" where
  "ri_valid_client client_id r \<longleftrightarrow>
     ri_min_client r \<le> client_id \<and> client_id - ri_min_client r < int (length (ri_clients r))"

definition ri_slot :: "proc_id \<Rightarrow> request_ingress \<Rightarrow> nat" where
  "ri_slot client_id r = nat (client_id - ri_min_client r)"

definition ri_get_or_create :: "proc_id \<Rightarrow> request_ingress \<Rightarrow> (client_ingress \<times> request_ingress) result" where
  "ri_get_or_create client_id r =
     (if \<not> ri_valid_client client_id r then Inl (Runtime_error ''Byzantine behavior: Invalid invalid client id {}.'')
      else
        let i = ri_slot client_id r in
        case ri_clients r ! i of
          Some c \<Rightarrow> Inr (c, r)
        | None \<Rightarrow>
            let c = ci_new client_id (ri_window r) (unat (ri_unanimity r - 1)) in
            Inr (c, r\<lparr>ri_keys := client_id # ri_keys r, ri_clients := (ri_clients r)[i := Some c],
                      ri_connected := ri_connected r @ [i]\<rparr>))"

definition ri_put :: "nat \<Rightarrow> client_ingress \<Rightarrow> request_ingress \<Rightarrow> request_ingress" where
  "ri_put i c r = r\<lparr>ri_clients := (ri_clients r)[i := Some c]\<rparr>"

definition ri_with :: "proc_id \<Rightarrow> (client_ingress \<Rightarrow> client_ingress result) \<Rightarrow> request_ingress \<Rightarrow> request_ingress result" where
  "ri_with client_id f r =
     rbind (ri_get_or_create client_id r) (\<lambda>(c, r1).
     rbind (f c) (\<lambda>c'. Inr (ri_put (ri_slot client_id r1) c' r1)))"

definition ri_from_follower :: "bytes \<Rightarrow> nat \<Rightarrow> request_ingress \<Rightarrow> request_ingress result" where
  "ri_from_follower req follower r = ri_with (rr_client req) (ci_from_follower req follower) r"

definition ri_from_client :: "bytes \<Rightarrow> request_ingress \<Rightarrow> request_ingress result" where
  "ri_from_client req r = ri_with (rr_client req) (ci_from_client req (ri_unanimity r)) r"

definition ri_from_leader :: "bytes \<Rightarrow> request_ingress \<Rightarrow> request_ingress result" where
  "ri_from_leader req r = ri_with (rr_client req) (ci_from_leader req) r"

definition ri_signed_from_client :: "bytes \<Rightarrow> request_ingress \<Rightarrow> request_ingress result" where
  "ri_signed_from_client req r = ri_with (rr_client req) (ci_signed_from_client req) r"

definition ri_executed :: "proc_id \<Rightarrow> u64 \<Rightarrow> request_ingress \<Rightarrow> request_ingress result" where
  "ri_executed client_id request_id r = ri_with client_id (\<lambda>c. Inr (ci_executed request_id c)) r"

definition ri_client_at :: "nat \<Rightarrow> request_ingress \<Rightarrow> client_ingress result" where
  "ri_client_at i r = rbind (uat (ri_clients r) i) (\<lambda>opt. case opt of None \<Rightarrow> Inl Undefined_behaviour | Some c \<Rightarrow> Inr c)"

definition ri_tick :: "request_ingress \<Rightarrow> request_ingress result" where
  "ri_tick r =
     rfold (\<lambda>i r. rbind (ri_client_at i r) (\<lambda>c. rbind (ci_poll_verified (ri_unanimity r) c) (\<lambda>c'. Inr (ri_put i c' r))))
       (ri_connected r) r"

text \<open>
  The four polls over the clients: from the client after the one that was served last, round once. \<open>js\<close> are the
  positions left; the second result is the next client to start from, when one was served.
\<close>

fun ri_poll_from ::
  "(client_ingress \<Rightarrow> ('a option \<times> client_ingress) result) \<Rightarrow> nat list \<Rightarrow> request_ingress \<Rightarrow>
   ('a option \<times> u64 option \<times> request_ingress) result" where
  "ri_poll_from poll [] r = Inr (None, None, r)"
| "ri_poll_from poll (j # js) r =
     rbind (vat (ri_connected r) j) (\<lambda>i.
     rbind (ri_client_at i r) (\<lambda>c.
     rbind (poll c) (\<lambda>(polled, c').
       let r' = ri_put i c' r in
       case polled of
         Some x \<Rightarrow> Inr (Some x, Some (of_nat j + 1), r')
       | None \<Rightarrow> ri_poll_from poll js r')))"

definition ri_positions :: "u64 \<Rightarrow> nat \<Rightarrow> nat list" where
  "ri_positions start n = map (\<lambda>i. unat ((start + of_nat i) mod of_nat n)) [0 ..< n]"

definition ri_poll ::
  "(client_ingress \<Rightarrow> ('a option \<times> client_ingress) result) \<Rightarrow> u64 \<Rightarrow> request_ingress \<Rightarrow>
   ('a option \<times> u64 option \<times> request_ingress) result" where
  "ri_poll poll start r =
     (let n = length (ri_connected r) in
      if n = 0 then Inr (None, None, r) else ri_poll_from poll (ri_positions start n) r)"

definition ri_poll_received :: "request_ingress \<Rightarrow> (bytes option \<times> request_ingress) result" where
  "ri_poll_received r =
     rbind (ri_poll ci_poll_received (ri_next_received r) r) (\<lambda>(x, nxt, r').
     Inr (x, case nxt of None \<Rightarrow> r' | Some i \<Rightarrow> r'\<lparr>ri_next_received := i\<rparr>))"

definition ri_poll_to_echo :: "nat \<Rightarrow> request_ingress \<Rightarrow> (bytes option \<times> request_ingress) result" where
  "ri_poll_to_echo leader r =
     rbind (ri_poll (ci_poll_to_echo leader) (ri_next_to_echo r) r) (\<lambda>(x, nxt, r').
     Inr (x, case nxt of None \<Rightarrow> r' | Some i \<Rightarrow> r'\<lparr>ri_next_to_echo := i\<rparr>))"

definition ri_poll_to_forward :: "nat \<Rightarrow> request_ingress \<Rightarrow> ((bytes \<times> signature) option \<times> request_ingress) result" where
  "ri_poll_to_forward dest r =
     rbind (ri_poll (ci_poll_to_forward dest) (ri_next_to_forward r) r) (\<lambda>(x, nxt, r').
     Inr (x, case nxt of None \<Rightarrow> r' | Some i \<Rightarrow> r'\<lparr>ri_next_to_forward := i\<rparr>))"

definition ri_poll_proposable :: "bool \<Rightarrow> bool \<Rightarrow> request_ingress \<Rightarrow> (bytes option \<times> request_ingress) result" where
  "ri_poll_proposable fast_path optimistic r =
     rbind (ri_poll (ci_poll_proposable fast_path optimistic) (ri_next_proposable r) r) (\<lambda>(x, nxt, r').
     Inr (x, case nxt of None \<Rightarrow> r' | Some i \<Rightarrow> r'\<lparr>ri_next_proposable := i\<rparr>))"

end
