(* ===== verification/Rpc_Client.thy ===== *)
theory Rpc_Client
  imports Rpc_Ingress
begin

text \<open>
  The client side of the RPC layer, \<open>rpc/client.hpp\<close>: requests are sent to all servers, and the result of a
  request is polled once a majority of them has sent identical responses.

  \<^item> The links to a server are the lists of what was sent to it and of what the receiver will deliver.
  \<^item> \<open>signature_computation\<close> is the list of the requests that were not signed yet, the oldest dropped beyond the
    window; \<open>cl_run_sign\<close> is a worker that signs one of them.
  \<^item> A buffer of \<open>request_pool\<close> only matters through the size it refuses; \<open>junk\<close> is what it holds.
\<close>

section \<open>RequestData\<close>

definition MaxNbServers :: nat where
  "MaxNbServers = 5"

record request_data =
  cd_request_bytes :: bytes
  cd_quorum :: u64
  cd_nb_responses :: u64
  cd_responses :: "bytes option list"
  cd_all_identical :: bool

definition cd_new :: "bytes \<Rightarrow> u64 \<Rightarrow> request_data" where
  "cd_new request nb_servers =
     \<lparr>cd_request_bytes = request, cd_quorum = nb_servers div 2 + 1, cd_nb_responses = 0,
      cd_responses = replicate MaxNbServers None, cd_all_identical = True\<rparr>"

text \<open>\<open>||\<close> and \<open>&&\<close> compare only when they have to; \<open>operator[]\<close> of the array is not checked.\<close>

definition cd_new_response :: "bytes \<Rightarrow> request_data \<Rightarrow> request_data result" where
  "cd_new_response response d =
     rbind (case cd_responses d ! 0 of
              None \<Rightarrow> Inr True
            | Some front \<Rightarrow> if cd_all_identical d then raw_equal response front else Inr False) (\<lambda>identical.
     rbind (uat (cd_responses d) (unat (cd_nb_responses d))) (\<lambda>_.
     Inr (d\<lparr>cd_all_identical := identical, cd_nb_responses := cd_nb_responses d + 1,
            cd_responses := (cd_responses d)[unat (cd_nb_responses d) := Some response]\<rparr>)))"

definition cd_poll :: "request_data \<Rightarrow> bytes option result" where
  "cd_poll d =
     (if cd_nb_responses d < cd_quorum d then Inr None
      else if cd_all_identical d then
        (case cd_responses d ! 0 of None \<Rightarrow> Inl Undefined_behaviour | Some response \<Rightarrow> Inr (Some (rs_body response)))
      else Inl (Logic_error ''Byzantine behavior, responses did not match.''))"

section \<open>Client\<close>

record rpc_peer =
  pe_next_response :: u64
  pe_sent :: "bytes list"
  pe_sig_sent :: "bytes list"
  pe_inbox :: "bytes list"

record rpc_client =
  cl_local_id :: proc_id
  cl_window :: u64
  cl_max_full_request :: u64
  cl_max_full_response :: u64
  cl_servers :: "rpc_peer list"
  cl_next_request :: u64
  cl_slow_path :: bool
  cl_next_to_offload :: u64
  cl_requests :: "request_data tail_map"
  cl_being_written :: "bytes list"
  cl_to_sign :: "bytes list"
  cl_signatures :: "(signature \<times> bytes) list"

definition cl_new :: "proc_id \<Rightarrow> nat \<Rightarrow> u64 \<Rightarrow> u64 \<Rightarrow> u64 \<Rightarrow> rpc_client" where
  "cl_new local_id nb_servers window max_request_size max_response_size =
     \<lparr>cl_local_id = local_id, cl_window = window, cl_max_full_request = request_buffer_size max_request_size,
      cl_max_full_response = response_buffer_size max_response_size,
      cl_servers = replicate nb_servers \<lparr>pe_next_response = 0, pe_sent = [], pe_sig_sent = [], pe_inbox = []\<rparr>,
      cl_next_request = 0, cl_slow_path = False, cl_next_to_offload = 0, cl_requests = tm_new window,
      cl_being_written = [], cl_to_sign = [], cl_signatures = []\<rparr>"

definition cl_get_slot :: "(nat \<Rightarrow> byte) \<Rightarrow> u64 \<Rightarrow> rpc_client \<Rightarrow> rpc_client result" where
  "cl_get_slot junk request_size c =
     (let sz = request_buffer_size request_size in
      if cl_max_full_request c < sz then Inl (Runtime_error ''Resize tried to reallocate beyond the initial size.'')
      else
        rbind (wr32 (map junk [0 ..< unat sz]) 0 (cl_local_id c)) (\<lambda>b1.
        rbind (wr64 b1 8 (cl_next_request c)) (\<lambda>b2.
        rbind (wr64 b2 16 request_size) (\<lambda>b3.
        Inr (c\<lparr>cl_next_request := cl_next_request c + 1, cl_being_written := cl_being_written c @ [b3]\<rparr>)))))"

text \<open>What the application does with the slot.\<close>

definition cl_fill :: "bytes \<Rightarrow> rpc_client \<Rightarrow> rpc_client result" where
  "cl_fill payload c =
     (if cl_being_written c = [] then Inl Undefined_behaviour
      else rbind (wr_bytes (last (cl_being_written c)) RequestHeader payload) (\<lambda>b.
           Inr (c\<lparr>cl_being_written := butlast (cl_being_written c) @ [b]\<rparr>)))"

definition cl_post_one :: "bytes \<Rightarrow> rpc_client \<Rightarrow> rpc_client result" where
  "cl_post_one request c =
     rbind (tm_try_emplace (cl_requests c) (rr_id request) (cd_new request (of_nat (length (cl_servers c))))) (\<lambda>(ms, _, _).
     Inr (c\<lparr>cl_servers := map (\<lambda>s. s\<lparr>pe_sent := pe_sent s @ [request]\<rparr>) (cl_servers c), cl_requests := ms\<rparr>))"

text \<open>
  The loop of \<open>offloadSignatureComputations\<close> walks the map from the request to sign next; the fuel is one more than
  the map has slots (as for \<open>tm_collect\<close>).
\<close>

fun cl_offload_from :: "nat \<Rightarrow> tm_iterator \<Rightarrow> rpc_client \<Rightarrow> rpc_client result" where
  "cl_offload_from 0 it c = Inl Spins"
| "cl_offload_from (Suc n) it c =
     (if it = tm_end (cl_requests c) then Inr c
      else
        rbind (tm_deref (cl_requests c) it) (\<lambda>e.
          let raw = cd_request_bytes (snd e) in
          if unat (cl_max_full_request c) < length raw
          then Inl (Runtime_error ''Resize tried to reallocate beyond the initial size.'')
          else
            rbind (tm_next (cl_requests c) it) (\<lambda>it'.
            cl_offload_from n it'
              (c\<lparr>cl_to_sign := push_bounded (cl_window c) raw (cl_to_sign c), cl_next_to_offload := cl_next_to_offload c + 1\<rparr>))))"

definition cl_offload :: "rpc_client \<Rightarrow> rpc_client result" where
  "cl_offload c =
     (if tm_empty (cl_requests c) then Inr c
      else
        rbind (tm_deref (cl_requests c) (tm_begin (cl_requests c))) (\<lambda>b.
          let c1 = c\<lparr>cl_next_to_offload := max (cl_next_to_offload c) (fst b)\<rparr> in
          rbind (tm_find (cl_requests c1) (cl_next_to_offload c1)) (\<lambda>it.
          cl_offload_from (Suc (length (dyn_array (cl_requests c1)))) it c1)))"

definition cl_post :: "rpc_client \<Rightarrow> rpc_client result" where
  "cl_post c =
     rbind (rfold cl_post_one (cl_being_written c) c) (\<lambda>c1.
       let c2 = c1\<lparr>cl_being_written := []\<rparr> in
       if cl_slow_path c2 then cl_offload c2 else Inr c2)"

definition cl_poll :: "rpc_client \<Rightarrow> (bytes option \<times> rpc_client) result" where
  "cl_poll c =
     (if tm_empty (cl_requests c) then Inr (None, c)
      else
        rbind (tm_front (cl_requests c)) (\<lambda>d.
        rbind (cd_poll d) (\<lambda>polled.
          case polled of
            None \<Rightarrow> Inr (None, c)
          | Some res \<Rightarrow> rbind (tm_pop_front (cl_requests c)) (\<lambda>ms. Inr (Some res, c\<lparr>cl_requests := ms\<rparr>)))))"

definition cl_toggle_slow_path :: "bool \<Rightarrow> rpc_client \<Rightarrow> rpc_client result" where
  "cl_toggle_slow_path enable c =
     (let c1 = c\<lparr>cl_slow_path := enable\<rparr> in if enable then cl_offload c1 else Inr c1)"

text \<open>One server of \<open>pollResponses\<close>. A response for a request that is gone is dropped.\<close>

definition cl_response :: "nat \<Rightarrow> bytes \<Rightarrow> rpc_client \<Rightarrow> rpc_client result" where
  "cl_response i b c =
     rbind (rs_try_from b) (\<lambda>response.
     rbind (uat (cl_servers c) i) (\<lambda>s.
       let c1 = c\<lparr>cl_servers := (cl_servers c)[i := s\<lparr>pe_next_response := rs_request_id response + 1\<rparr>]\<rparr> in
       rbind (tm_find (cl_requests c1) (rs_request_id response)) (\<lambda>it.
         if it = tm_end (cl_requests c1) then Inr c1
         else
           rbind (tm_deref (cl_requests c1) it) (\<lambda>e.
           rbind (cd_new_response response (snd e)) (\<lambda>d.
           rbind (tm_assign (cl_requests c1) it d) (\<lambda>ms. Inr (c1\<lparr>cl_requests := ms\<rparr>)))))))"

definition cl_poll_server :: "nat \<Rightarrow> rpc_client \<Rightarrow> rpc_client result" where
  "cl_poll_server i c =
     rbind (uat (cl_servers c) i) (\<lambda>s.
       if cl_next_request c \<le> pe_next_response s then Inr c
       else case pe_inbox s of
         [] \<Rightarrow> Inr c
       | b # inbox \<Rightarrow>
           if unat (cl_max_full_response c) < length b then Inl Undefined_behaviour
           else cl_response i b (c\<lparr>cl_servers := (cl_servers c)[i := s\<lparr>pe_inbox := inbox\<rparr>]\<rparr>))"

definition cl_poll_responses :: "rpc_client \<Rightarrow> rpc_client result" where
  "cl_poll_responses c = rfold cl_poll_server [0 ..< length (cl_servers c)] c"

definition cl_run_sign :: "crypto \<Rightarrow> nat \<Rightarrow> rpc_client \<Rightarrow> rpc_client" where
  "cl_run_sign cr i c =
     (if i < length (cl_to_sign c)
      then c\<lparr>cl_to_sign := remove_nth i (cl_to_sign c),
             cl_signatures := cl_signatures c @ [(sign_hash cr (cl_to_sign c ! i), cl_to_sign c ! i)]\<rparr>
      else c)"

text \<open>At most \<open>window\<close> signatures per call; with a window of 0 there is no bound.\<close>

definition cl_poll_signatures :: "rpc_client \<Rightarrow> rpc_client" where
  "cl_poll_signatures c =
     (let n = (if cl_window c = 0 then length (cl_signatures c) else unat (cl_window c));
          signed = map (\<lambda>(sig, raw). raw @ sig) (take n (cl_signatures c))
      in c\<lparr>cl_signatures := drop n (cl_signatures c),
           cl_servers := map (\<lambda>s. s\<lparr>pe_sig_sent := pe_sig_sent s @ signed\<rparr>) (cl_servers c)\<rparr>)"

definition cl_tick :: "rpc_client \<Rightarrow> rpc_client result" where
  "cl_tick c =
     rbind (cl_poll_responses c) (\<lambda>c1. Inr (if cl_slow_path c1 then cl_poll_signatures c1 else c1))"

end
