(* ===== verification/Client_Safety.thy ===== *)
theory Client_Safety
  imports Rpc_Client "HOL-Library.Multiset" "HOL-Library.Sublist"
begin

text \<open>
  What a polled result rests on. Runs of a client are any order of its operations and of what the links deliver;
  their ghost is the list of responses that the links handed over, with the server each came from. The invariant
  says which of them each request has counted.
\<close>

section \<open>Runs\<close>

definition hear :: "nat \<Rightarrow> bytes \<Rightarrow> rpc_client \<Rightarrow> rpc_client" where
  "hear i b c = c\<lparr>cl_servers := (cl_servers c)[i := (cl_servers c ! i)\<lparr>pe_inbox := pe_inbox (cl_servers c ! i) @ [b]\<rparr>]\<rparr>"

text \<open>The link to server \<open>i\<close> delivers \<open>b\<close>: what a receiver polls is put in the inbox.\<close>

inductive client_run :: "crypto \<Rightarrow> nat \<Rightarrow> (nat \<times> bytes) list \<Rightarrow> rpc_client \<Rightarrow> bool" for cr n where
  run_client_new: "0 < n \<Longrightarrow> n < 18446744073709551616 \<Longrightarrow> window \<noteq> 0 \<Longrightarrow> client_run cr n [] (cl_new local_id n window max_request max_response)"
| run_hear: "client_run cr n evs c \<Longrightarrow> i < n \<Longrightarrow> client_run cr n (evs @ [(i, b)]) (hear i b c)"
| run_slot: "client_run cr n evs c \<Longrightarrow> cl_get_slot junk sz c = Inr c' \<Longrightarrow> client_run cr n evs c'"
| run_fill: "client_run cr n evs c \<Longrightarrow> cl_fill payload c = Inr c' \<Longrightarrow> client_run cr n evs c'"
| run_post: "client_run cr n evs c \<Longrightarrow> cl_post c = Inr c' \<Longrightarrow> client_run cr n evs c'"
| run_poll: "client_run cr n evs c \<Longrightarrow> cl_poll c = Inr (x, c') \<Longrightarrow> client_run cr n evs c'"
| run_toggle: "client_run cr n evs c \<Longrightarrow> cl_toggle_slow_path enable c = Inr c' \<Longrightarrow> client_run cr n evs c'"
| run_sign: "client_run cr n evs c \<Longrightarrow> client_run cr n evs (cl_run_sign cr k c)"
| run_tick: "client_run cr n evs c \<Longrightarrow> cl_tick c = Inr c' \<Longrightarrow> client_run cr n evs c'"

section \<open>The invariant\<close>

text \<open>
  Of the delivered responses, \<open>T\<close> were taken from the inboxes. What a request has counted is among them; as long as
  \<open>all_identical\<close> holds every counted response is a prefix of the first one.
\<close>

definition balanced :: "(nat \<times> bytes) list \<Rightarrow> (nat \<times> bytes) multiset \<Rightarrow> bytes list list \<Rightarrow> bool" where
  "balanced evs T boxes \<longleftrightarrow> (\<forall>x \<in># T. fst x < length boxes) \<and>
     (\<forall>i < length boxes. \<forall>b. count T (i, b) + count_list (boxes ! i) b = count_list evs (i, b))"

definition answers_ok :: "nat \<Rightarrow> (nat \<times> bytes) multiset \<Rightarrow> u64 \<Rightarrow> request_data \<Rightarrow> bool" where
  "answers_ok n T k d \<longleftrightarrow> cd_quorum d = of_nat n div 2 + 1 \<and> (\<exists>ans.
     length ans \<le> MaxNbServers \<and> unat (cd_nb_responses d) = length ans \<and> mset ans \<subseteq># T \<and>
     cd_responses d = map (\<lambda>x. Some (snd x)) ans @ replicate (MaxNbServers - length ans) None \<and>
     (\<forall>x \<in> set ans. rs_request_id (snd x) = k) \<and>
     (cd_all_identical d \<longrightarrow> (\<forall>x \<in> set ans. prefix (snd x) (snd (hd ans)))))"

definition client_inv :: "nat \<Rightarrow> (nat \<times> bytes) list \<Rightarrow> (nat \<times> bytes) multiset \<Rightarrow> rpc_client \<Rightarrow> bool" where
  "client_inv n evs T c \<longleftrightarrow> length (cl_servers c) = n \<and> balanced evs T (map pe_inbox (cl_servers c)) \<and>
     tm_all (answers_ok n T) (cl_requests c)"

lemma client_inv_same:
  "client_inv n evs T c \<Longrightarrow> cl_requests c' = cl_requests c \<Longrightarrow> map pe_inbox (cl_servers c') = map pe_inbox (cl_servers c) \<Longrightarrow>
    client_inv n evs T c'"
  unfolding client_inv_def by (metis length_map)

lemma client_inv_requests:
  "client_inv n evs T c \<Longrightarrow> tm_all (answers_ok n T) ms \<Longrightarrow> client_inv n evs T (c\<lparr>cl_requests := ms\<rparr>)"
  by (simp add: client_inv_def)

lemma answers_ok_mono: "answers_ok n T k d \<Longrightarrow> T \<subseteq># T' \<Longrightarrow> answers_ok n T' k d"
  unfolding answers_ok_def by (meson subset_mset.order_trans)

lemma answers_ok_new: "answers_ok n T k (cd_new request (of_nat n))"
  by (simp add: answers_ok_def cd_new_def)

text \<open>\<open>==\<close> holds for every response that is a prefix of the first one.\<close>

lemma raw_equal_prefix: "raw_equal xs ys = Inr True \<longleftrightarrow> prefix xs ys"
  by (auto simp: raw_equal_def prefix_def) (metis append_take_drop_id take_all_iff)

lemma new_response_ok:
  assumes ok: "answers_ok n T k d" and r: "rs_request_id b = k" and d': "cd_new_response b d = Inr d'"
  shows "answers_ok n (add_mset (i, b) T) k d'"
proof -
  obtain ans where a: "cd_quorum d = of_nat n div 2 + 1" "length ans \<le> MaxNbServers" "unat (cd_nb_responses d) = length ans"
    "mset ans \<subseteq># T" "cd_responses d = map (\<lambda>x. Some (snd x)) ans @ replicate (MaxNbServers - length ans) None"
    "\<forall>x \<in> set ans. rs_request_id (snd x) = k" "cd_all_identical d \<longrightarrow> (\<forall>x \<in> set ans. prefix (snd x) (snd (hd ans)))"
    using ok by (auto simp: answers_ok_def)
  obtain identical where id: "(case cd_responses d ! 0 of None \<Rightarrow> Inr True
      | Some front \<Rightarrow> if cd_all_identical d then raw_equal b front else Inr False) = Inr identical"
    and lt: "unat (cd_nb_responses d) < length (cd_responses d)"
    and d'_eq: "d' = d\<lparr>cd_all_identical := identical, cd_nb_responses := cd_nb_responses d + 1,
      cd_responses := (cd_responses d)[unat (cd_nb_responses d) := Some b]\<rparr>"
    using d' by (auto simp: cd_new_response_def rbind_Inr_iff uat_Inr_iff)
  have len: "length ans < MaxNbServers" using lt a(2,3,5) by simp
  have one: "unat (cd_nb_responses d + 1) = Suc (length ans)"
    using a(3) len unat_u64_Suc [of "cd_nb_responses d"] by (simp add: MaxNbServers_def)
  have store: "(cd_responses d)[length ans := Some b] =
      map (\<lambda>x. Some (snd x)) (ans @ [(i, b)]) @ replicate (MaxNbServers - length (ans @ [(i, b)])) None"
    using a(5) len by (simp add: list_update_append Suc_diff_Suc [symmetric] del: replicate.simps)
      (simp add: Suc_diff_Suc [symmetric])
  have pre: "identical \<longrightarrow> (\<forall>x \<in> set (ans @ [(i, b)]). prefix (snd x) (snd (hd (ans @ [(i, b)]))))"
  proof (cases ans)
    case (Cons x xs)
    then have "cd_responses d ! 0 = Some (snd x)" using a(5) by simp
    with id have "identical \<longrightarrow> cd_all_identical d \<and> prefix b (snd x)"
      using raw_equal_prefix [of b "snd x"] by (auto split: if_splits)
    with a(7) Cons show ?thesis by auto
  qed simp
  have sub: "mset (ans @ [(i, b)]) \<subseteq># add_mset (i, b) T" using a(4) by simp
  have "\<forall>x \<in> set (ans @ [(i, b)]). rs_request_id (snd x) = k" using a(6) r by simp
  with a(1,3) len one store pre sub show ?thesis
    unfolding answers_ok_def d'_eq by (intro conjI exI [of _ "ans @ [(i, b)]"]) simp_all
qed


lemma balanced_take:
  assumes "balanced evs T boxes" "i < length boxes" "boxes ! i = b # rest"
  shows "balanced evs (add_mset (i, b) T) (boxes[i := rest])"
  unfolding balanced_def
proof (intro conjI ballI allI impI)
  fix x assume "x \<in># add_mset (i, b) T"
  then show "fst x < length (boxes[i := rest])" using assms(1,2) by (auto simp: balanced_def)
next
  fix j b' assume j: "j < length (boxes[i := rest])"
  then have "count T (j, b') + count_list (boxes ! j) b' = count_list evs (j, b')" using assms(1) by (simp add: balanced_def)
  then show "count (add_mset (i, b) T) (j, b') + count_list (boxes[i := rest] ! j) b' = count_list evs (j, b')"
    using assms(2,3) by (cases "j = i") auto
qed

lemma balanced_hear:
  assumes "balanced evs T boxes" "i < length boxes"
  shows "balanced (evs @ [(i, b)]) T (boxes[i := boxes ! i @ [b]])"
  using assms by (auto simp: balanced_def nth_list_update)

lemma boxes_update: "i < length ss \<Longrightarrow> map pe_inbox (ss[i := s]) = (map pe_inbox ss)[i := pe_inbox s]"
  by (simp add: map_update)

lemma hear_inv: "client_inv n evs T c \<Longrightarrow> i < n \<Longrightarrow> client_inv n (evs @ [(i, b)]) T (hear i b c)"
  using balanced_hear [of evs T "map pe_inbox (cl_servers c)" i b]
  by (simp add: client_inv_def hear_def boxes_update)

lemma response_inv:
  assumes inv: "client_inv n evs T c" and m: "tm_all (answers_ok n T0) (cl_requests c)" and T: "T = add_mset (i, b) T0"
    and r: "cl_response i b c = Inr c'"
  shows "client_inv n evs T c'"
proof -
  obtain s it where s: "i < length (cl_servers c)" "s = cl_servers c ! i" and it: "tm_find (cl_requests c) (rs_request_id b) = Inr it"
    and c': "(if it = tm_end (cl_requests c) then Inr (c\<lparr>cl_servers := (cl_servers c)[i := s\<lparr>pe_next_response := rs_request_id b + 1\<rparr>]\<rparr>)
      else rbind (tm_deref (cl_requests c) it) (\<lambda>e. rbind (cd_new_response b (snd e)) (\<lambda>d. rbind (tm_assign (cl_requests c) it d)
        (\<lambda>ms. Inr (c\<lparr>cl_servers := (cl_servers c)[i := s\<lparr>pe_next_response := rs_request_id b + 1\<rparr>], cl_requests := ms\<rparr>))))) = Inr c'"
  proof -
    have "rs_try_from b = Inr b"
      using r by (auto simp: cl_response_def rs_try_from_def split: if_splits)
    moreover obtain s where "uat (cl_servers c) i = Inr s"
      using r by (auto simp: cl_response_def rbind_Inr_iff)
    moreover obtain it where "tm_find (cl_requests c) (rs_request_id b) = Inr it"
      using r calculation by (auto simp: cl_response_def rbind_Inr_iff [of "tm_find _ _"] Let_def)
    ultimately show ?thesis
      using r by (intro that [of s it]) (simp_all add: cl_response_def uat_Inr_iff Let_def cong: if_cong)
  qed
  let ?c1 = "c\<lparr>cl_servers := (cl_servers c)[i := s\<lparr>pe_next_response := rs_request_id b + 1\<rparr>]\<rparr>"
  have c1: "client_inv n evs T ?c1"
    by (rule client_inv_same [OF inv]) (use s in \<open>simp_all add: boxes_update list_update_same_conv\<close>)
  show ?thesis
  proof (cases "it = tm_end (cl_requests c)")
    case True
    with c' c1 show ?thesis by simp
  next
    case False
    then obtain e d ms where e: "tm_deref (cl_requests c) it = Inr e" "cd_new_response b (snd e) = Inr d"
      "tm_assign (cl_requests c) it d = Inr ms" "c' = ?c1\<lparr>cl_requests := ms\<rparr>"
      using c' by (auto simp: rbind_Inr_iff)
    have "answers_ok n T (fst e) d"
      unfolding T using tm_find_key [OF it e(1)] by (intro new_response_ok [OF tm_all_deref [OF m e(1)] _ e(2)]) simp
    moreover have "tm_all (answers_ok n T) (cl_requests c)" using inv by (simp add: client_inv_def)
    ultimately have "tm_all (answers_ok n T) ms" by (intro tm_all_assign [OF _ e(1) _ e(3)])
    then show ?thesis unfolding e(4) by (rule client_inv_requests [OF c1])
  qed
qed

definition client_state :: "nat \<Rightarrow> (nat \<times> bytes) list \<Rightarrow> rpc_client \<Rightarrow> bool" where
  "client_state n evs c \<longleftrightarrow> (\<exists>T. client_inv n evs T c)"

lemma poll_server_inv:
  assumes "client_state n evs c"
  shows "always (client_state n evs) (cl_poll_server i c)"
proof -
  obtain T where inv: "client_inv n evs T c" using assms by (auto simp: client_state_def)
  show ?thesis
    unfolding cl_poll_server_def
  proof (intro always_rbind always_cases)
    fix s b inbox assume s: "uat (cl_servers c) i = Inr s" "pe_inbox s = b # inbox"
    let ?c = "c\<lparr>cl_servers := (cl_servers c)[i := s\<lparr>pe_inbox := inbox\<rparr>]\<rparr>"
    have i: "i < length (cl_servers c)" "s = cl_servers c ! i" using s(1) by (simp_all add: uat_Inr_iff)
    have "balanced evs (add_mset (i, b) T) ((map pe_inbox (cl_servers c))[i := inbox])"
      by (rule balanced_take) (use inv i s(2) in \<open>simp_all add: client_inv_def\<close>)
    moreover have all: "tm_all (answers_ok n T) (cl_requests c)" using inv by (simp add: client_inv_def)
    then have "tm_all (answers_ok n (add_mset (i, b) T)) (cl_requests c)"
      by (rule tm_all_mono) (auto intro: answers_ok_mono)
    ultimately have c1: "client_inv n evs (add_mset (i, b) T) ?c"
      using inv i by (simp add: client_inv_def boxes_update)
    have "tm_all (answers_ok n T) (cl_requests ?c)" using all by simp
    from response_inv [OF c1 this refl]
    show "always (client_state n evs) (cl_response i b ?c)"
      by (intro alwaysI) (auto simp: client_state_def)
  qed (use assms in simp_all)
qed

lemma poll_responses_inv: "client_state n evs c \<Longrightarrow> always (client_state n evs) (cl_poll_responses c)"
  unfolding cl_poll_responses_def by (rule always_rfold) (simp_all add: poll_server_inv)

lemma client_state_same:
  "client_state n evs c \<Longrightarrow> cl_requests c' = cl_requests c \<Longrightarrow> map pe_inbox (cl_servers c') = map pe_inbox (cl_servers c) \<Longrightarrow>
    client_state n evs c'"
  unfolding client_state_def using client_inv_same by blast

lemma tick_inv: "client_state n evs c \<Longrightarrow> always (client_state n evs) (cl_tick c)"
  unfolding cl_tick_def
proof (rule always_bind [OF poll_responses_inv])
  fix c1 assume "client_state n evs c1"
  then show "always (client_state n evs) (Inr (if cl_slow_path c1 then cl_poll_signatures c1 else c1))"
    using client_state_same [of n evs c1 "cl_poll_signatures c1"] by (simp add: cl_poll_signatures_def Let_def o_def)
qed

lemma offload_from_same:
  "always (\<lambda>c'. cl_requests c' = cl_requests c \<and> cl_servers c' = cl_servers c) (cl_offload_from fuel it c)"
proof (induction fuel it c rule: cl_offload_from.induct)
  case (2 fuel it c)
  show ?case
    unfolding cl_offload_from.simps
  proof (intro always_intros)
    fix e raw it' assume *: "it \<noteq> tm_end (cl_requests c)" "tm_deref (cl_requests c) it = Inr e" "raw = cd_request_bytes (snd e)"
      "\<not> unat (cl_max_full_request c) < length raw" "tm_next (cl_requests c) it = Inr it'"
    show "always (\<lambda>c'. cl_requests c' = cl_requests c \<and> cl_servers c' = cl_servers c)
      (cl_offload_from fuel it' (c\<lparr>cl_to_sign := push_bounded (cl_window c) raw (cl_to_sign c), cl_next_to_offload := cl_next_to_offload c + 1\<rparr>))"
      using "2.IH" [OF *(1) *(3,4), of it'] by simp
  qed simp_all
qed simp

lemma offload_inv:
  assumes "client_state n evs c"
  shows "always (client_state n evs) (cl_offload c)"
proof -
  have "always (\<lambda>c'. cl_requests c' = cl_requests c \<and> cl_servers c' = cl_servers c) (cl_offload c)"
    unfolding cl_offload_def
  proof (intro always_rbind always_let always_if)
    fix b c1 it assume c1: "c1 = c\<lparr>cl_next_to_offload := max (cl_next_to_offload c) (fst b)\<rparr>"
    show "always (\<lambda>c'. cl_requests c' = cl_requests c \<and> cl_servers c' = cl_servers c)
        (cl_offload_from (Suc (length (dyn_array (cl_requests c1)))) it c1)"
      using offload_from_same [where fuel = "Suc (length (dyn_array (cl_requests c1)))" and it = it and c = c1] c1
      by (simp del: cl_offload_from.simps)
  qed simp
  then show ?thesis by (rule always_mono) (auto intro: client_state_same [OF assms])
qed

lemma post_one_inv: "client_state n evs c \<Longrightarrow> always (client_state n evs) (cl_post_one b c)"
  unfolding cl_post_one_def
proof (intro always_intros)
  fix z ms y it ok assume c: "client_state n evs c"
    and z: "tm_try_emplace (cl_requests c) (rr_id b) (cd_new b (of_nat (length (cl_servers c)))) = Inr z" "z = (ms, y)" "y = (it, ok)"
  obtain T where inv: "client_inv n evs T c" using c by (auto simp: client_state_def)
  have "tm_all (answers_ok n T) ms"
    by (rule tm_all_try_emplace) (use inv z answers_ok_new [of n T "rr_id b" b] in \<open>auto simp: client_inv_def\<close>)
  then have "client_inv n evs T (c\<lparr>cl_servers := map (\<lambda>s. s\<lparr>pe_sent := pe_sent s @ [b]\<rparr>) (cl_servers c), cl_requests := ms\<rparr>)"
    using inv by (simp add: client_inv_def o_def)
  then show "always (client_state n evs)
      (Inr (c\<lparr>cl_servers := map (\<lambda>s. s\<lparr>pe_sent := pe_sent s @ [b]\<rparr>) (cl_servers c), cl_requests := ms\<rparr>))"
    by (auto simp: client_state_def)
qed

lemma post_inv: "client_state n evs c \<Longrightarrow> always (client_state n evs) (cl_post c)"
  unfolding cl_post_def Let_def
proof (rule always_bind [where Q = "client_state n evs"])
  assume "client_state n evs c"
  then show "always (client_state n evs) (rfold cl_post_one (cl_being_written c) c)"
    by (rule always_rfold) (rule post_one_inv)
next
  fix c1 assume "client_state n evs c1"
  then have "client_state n evs (c1\<lparr>cl_being_written := []\<rparr>)" by (rule client_state_same) simp_all
  then show "always (client_state n evs)
      (if cl_slow_path (c1\<lparr>cl_being_written := []\<rparr>) then cl_offload (c1\<lparr>cl_being_written := []\<rparr>) else Inr (c1\<lparr>cl_being_written := []\<rparr>))"
    using offload_inv by simp
qed

lemma poll_inv:
  assumes c: "client_state n evs c" and p: "cl_poll c = Inr (x, c')"
  shows "client_state n evs c'"
proof -
  obtain T where inv: "client_inv n evs T c" using c by (auto simp: client_state_def)
  have "c' = c \<or> (\<exists>ms. tm_pop_front (cl_requests c) = Inr ms \<and> c' = c\<lparr>cl_requests := ms\<rparr>)"
    using p by (auto simp: cl_poll_def rbind_Inr_iff split: if_splits option.splits)
  moreover have "tm_all (answers_ok n T) ms" if "tm_pop_front (cl_requests c) = Inr ms" for ms
    using inv that by (auto simp: client_inv_def intro: tm_all_pop_front)
  ultimately have "client_inv n evs T c'" using inv client_inv_requests [OF inv] by blast
  then show ?thesis by (auto simp: client_state_def)
qed

theorem client_run_state: "client_run cr n evs c \<Longrightarrow> client_state n evs c \<and> n < 18446744073709551616"
proof (induction rule: client_run.induct)
  case (run_client_new window local_id max_request max_response)
  then have "client_inv n [] {#} (cl_new local_id n window max_request max_response)"
    by (auto simp: client_inv_def cl_new_def balanced_def tm_all_new)
  with run_client_new show ?case by (auto simp: client_state_def)
next
  case (run_hear evs c i b)
  then show ?case using hear_inv [of n evs _ c i b] unfolding client_state_def by blast
next
  case (run_slot evs c junk sz c')
  then show ?case using client_state_same [of n evs c c'] by (auto simp: cl_get_slot_def rbind_Inr_iff Let_def split: if_splits)
next
  case (run_fill evs c payload c')
  then show ?case using client_state_same [of n evs c c'] by (auto simp: cl_fill_def rbind_Inr_iff split: if_splits)
next
  case (run_sign evs c k)
  then show ?case using client_state_same [of n evs c "cl_run_sign cr k c"] by (simp add: cl_run_sign_def)
next
  case (run_toggle evs c enable c')
  have "client_state n evs (c\<lparr>cl_slow_path := enable\<rparr>)" using run_toggle.IH client_state_same [of n evs c "c\<lparr>cl_slow_path := enable\<rparr>"] by simp
  then show ?case using run_toggle alwaysD [OF offload_inv] by (auto simp: cl_toggle_slow_path_def Let_def split: if_splits)
qed (auto dest: alwaysD [OF tick_inv] alwaysD [OF post_inv] poll_inv)

section \<open>What a result rests on\<close>

lemma polled_result:
  assumes run: "client_run cr n evs c" and p: "cl_poll c = Inr (Some res, c')"
  shows "\<exists>e ans. tm_deref (cl_requests c) (tm_begin (cl_requests c)) = Inr e \<and>
    n div 2 < length ans \<and> mset ans \<subseteq># mset evs \<and>
    (\<forall>x \<in> set ans. fst x < n \<and> rs_request_id (snd x) = fst e \<and> prefix (snd x) (snd (hd ans))) \<and>
    res = rs_body (snd (hd ans))"
proof -
  obtain T where inv: "client_inv n evs T c" and n: "n < 18446744073709551616"
    using client_run_state [OF run] by (auto simp: client_state_def)
  obtain e where e: "tm_deref (cl_requests c) (tm_begin (cl_requests c)) = Inr e" "cd_poll (snd e) = Inr (Some res)"
    using p by (auto simp: cl_poll_def tm_front_def rbind_Inr_iff split: if_splits option.splits)
  have "answers_ok n T (fst e) (snd e)" using tm_all_deref [OF _ e(1)] inv by (auto simp: client_inv_def)
  then obtain ans where a: "cd_quorum (snd e) = of_nat n div 2 + 1" "length ans \<le> MaxNbServers"
    "unat (cd_nb_responses (snd e)) = length ans" "mset ans \<subseteq># T"
    "cd_responses (snd e) = map (\<lambda>x. Some (snd x)) ans @ replicate (MaxNbServers - length ans) None"
    "\<forall>x \<in> set ans. rs_request_id (snd x) = fst e"
    "cd_all_identical (snd e) \<longrightarrow> (\<forall>x \<in> set ans. prefix (snd x) (snd (hd ans)))"
    by (auto simp: answers_ok_def)
  have polled: "\<not> cd_nb_responses (snd e) < cd_quorum (snd e)" "cd_all_identical (snd e)" "map_option rs_body (cd_responses (snd e) ! 0) = Some res"
    using e(2) by (auto simp: cd_poll_def split: if_splits option.splits)
  have "unat (of_nat n div 2 :: u64) = n div 2" using n by (simp add: unat_div unat_u64_of_nat)
  then have "unat (cd_quorum (snd e)) = n div 2 + 1" unfolding a(1) using n by (subst unat_u64_Suc) auto
  then have long: "n div 2 < length ans" using polled(1) a(3) by (simp add: u64_less_iff)
  then obtain y ys where ys: "ans = y # ys" by (cases ans) auto
  have res: "res = rs_body (snd (hd ans))" using polled(3) a(5) ys by simp
  have bal: "balanced evs T (map pe_inbox (cl_servers c))" "length (cl_servers c) = n" using inv by (simp_all add: client_inv_def)
  have T: "T \<subseteq># mset evs"
  proof (rule mset_subset_eqI)
    fix x
    show "count T x \<le> count (mset evs) x"
    proof (cases "x \<in># T")
      case True
      then have "fst x < length (cl_servers c)" using bal(1) by (auto simp: balanced_def)
      then have "count T (fst x, snd x) + count_list (pe_inbox (cl_servers c ! fst x)) (snd x) = count_list evs (fst x, snd x)"
        using bal(1) unfolding balanced_def by (metis length_map nth_map)
      then show ?thesis by (simp add: count_mset)
    qed (simp add: not_in_iff)
  qed
  have "\<forall>x \<in> set ans. fst x < n" using a(4) bal by (auto simp: balanced_def dest: mset_subset_eqD)
  with a(4,6,7) polled(2) long res e(1) T show ?thesis by (intro exI [of _ e] exI [of _ ans]) (auto intro: subset_mset.order_trans)
qed

text \<open>
  If each server answers a request at most once and less than a majority is faulty, one of the counted responses
  is of a correct server. The result is that response or continues it.
\<close>

lemma count_by_server:
  assumes "mset ans \<subseteq># mset evs" "\<forall>x \<in> set ans. rs_request_id (snd x) = k"
    and "length (filter (\<lambda>x. fst x = i \<and> rs_request_id (snd x) = k) evs) \<le> 1"
  shows "length (filter (\<lambda>x. fst x = i) ans) \<le> 1"
proof -
  have "filter_mset (\<lambda>x. fst x = i) (mset ans) \<subseteq># filter_mset (\<lambda>x. fst x = i \<and> rs_request_id (snd x) = k) (mset evs)"
  proof -
    have "filter_mset (\<lambda>x. fst x = i) (mset ans) = filter_mset (\<lambda>x. fst x = i \<and> rs_request_id (snd x) = k) (mset ans)"
      using assms(2) by (intro filter_mset_cong) auto
    then show ?thesis using assms(1) by (simp add: multiset_filter_mono)
  qed
  then have "size (filter_mset (\<lambda>x. fst x = i) (mset ans)) \<le> size (filter_mset (\<lambda>x. fst x = i \<and> rs_request_id (snd x) = k) (mset evs))"
    by (rule size_mset_mono)
  then show ?thesis using assms(3) by (simp flip: mset_filter)
qed

lemma one_each_distinct: "(\<And>i. length (filter (\<lambda>x. fst x = i) xs) \<le> 1) \<Longrightarrow> distinct (map fst xs)"
proof (induction xs)
  case (Cons x xs)
  have "length (filter (\<lambda>y. fst y = i) xs) \<le> 1" for i using Cons.prems [of i] by (simp split: if_splits)
  moreover have "filter (\<lambda>y. fst y = fst x) xs = []" using Cons.prems [of "fst x"] by simp
  ultimately show ?case using Cons.IH by (auto simp: filter_empty_conv)
qed simp

lemma rs_body_prefix: "prefix r s \<Longrightarrow> prefix (rs_body r) (rs_body s)"
  by (auto simp: rs_body_def prefix_def)

lemma result_continues_correct:
  assumes run: "client_run cr n evs c" and p: "cl_poll c = Inr (Some res, c')"
    and once: "\<And>i k. length (filter (\<lambda>x. fst x = i \<and> rs_request_id (snd x) = k) evs) \<le> 1"
    and F: "finite F" "card F \<le> n div 2"
    and correct: "\<forall>x \<in> set evs. fst x \<notin> F \<longrightarrow> rs_body (snd x) = answer (rs_request_id (snd x))"
  shows "\<exists>e. tm_deref (cl_requests c) (tm_begin (cl_requests c)) = Inr e \<and> prefix (answer (fst e)) res"
proof -
  obtain e ans where e: "tm_deref (cl_requests c) (tm_begin (cl_requests c)) = Inr e" "n div 2 < length ans"
    "mset ans \<subseteq># mset evs" "\<forall>x \<in> set ans. rs_request_id (snd x) = fst e \<and> prefix (snd x) (snd (hd ans))"
    "res = rs_body (snd (hd ans))"
    using polled_result [OF run p] by blast
  have "length (filter (\<lambda>x. fst x = i) ans) \<le> 1" for i
    by (rule count_by_server [OF e(3), of "fst e"]) (use e(4) once in auto)
  then have "distinct (map fst ans)" by (rule one_each_distinct)
  then have "card (fst ` set ans) = length ans" by (metis distinct_card length_map set_map)
  then have "\<not> fst ` set ans \<subseteq> F" using card_mono [OF F(1)] F(2) e(2) by (metis leD le_trans)
  then obtain x where x: "x \<in> set ans" "fst x \<notin> F" by auto
  have "x \<in> set evs" using x(1) e(3) mset_subset_eqD by fastforce
  then have "rs_body (snd x) = answer (fst e)" using correct x e(4) by auto
  moreover have "prefix (rs_body (snd x)) res" unfolding e(5) using e(4) x(1) by (intro rs_body_prefix) auto
  ultimately show ?thesis using e(1) by auto
qed

end
