(* ===== verification/Ingress_Safety.thy ===== *)
theory Ingress_Safety
  imports Rpc_Ingress
begin

text \<open>
  Runs of the ingress of one client: any order of requests, echoes, signed requests, workers and polls. Their
  events say what came from the client, what the other replicas echoed, and what was handed out. The invariant
  relates every request in the map to them.
\<close>

section \<open>Well-formed requests\<close>

definition rr_ok :: "bytes \<Rightarrow> bool" where
  "rr_ok b \<longleftrightarrow> length b < 18446744073709551616 \<and> length b = RequestHeader + unat (rr_size b)"

definition sr_ok :: "bytes \<Rightarrow> bool" where
  "sr_ok b \<longleftrightarrow> length b < 18446744073709551616 \<and> length b = RequestHeader + unat (rr_size b) + SignatureLength"

lemma word_sum_eq:
  assumes "k \<le> len" "len < 18446744073709551616"
  shows "of_nat len = of_nat k + (w :: u64) \<longleftrightarrow> len = k + unat w"
proof -
  have "of_nat len = of_nat k + w \<longleftrightarrow> w = of_nat (len - k)"
    unfolding of_nat_diff [OF assms(1)] by (metis add.commute add_diff_cancel_left' diff_add_cancel)
  also have "\<dots> \<longleftrightarrow> unat w = len - k"
    using unat_u64_of_nat [of "len - k"] assms(2) by (simp only: u64_eq_iff)
  finally show ?thesis using assms(1) by auto
qed

lemma of_nat_less_u64:
  assumes "len < 18446744073709551616" "k < 18446744073709551616"
  shows "(of_nat len :: u64) < of_nat k \<longleftrightarrow> len < k"
  using assms by (simp add: u64_less_iff unat_u64_of_nat)

lemma rr_try_from_iff:
  assumes "length b < 18446744073709551616"
  shows "rr_try_from b = Inr b' \<longleftrightarrow> b' = b \<and> rr_ok b"
proof -
  have small: "(of_nat (length b) :: u64) < request_buffer_size 0 \<longleftrightarrow> length b < 24"
    using of_nat_less_u64 [OF assms, of 24] by (simp add: request_buffer_size_def RequestHeader_def)
  have "24 \<le> length b \<Longrightarrow> of_nat (length b) = request_buffer_size (rr_size b) \<longleftrightarrow> length b = 24 + unat (rr_size b)"
    using word_sum_eq [of 24 "length b" "rr_size b"] assms by (simp add: request_buffer_size_def RequestHeader_def)
  with small assms show ?thesis
    by (cases "length b < 24") (auto simp: rr_try_from_def rr_ok_def RequestHeader_def)
qed

lemma sr_try_from_iff:
  assumes "length b < 18446744073709551616"
  shows "sr_try_from b = Inr b' \<longleftrightarrow> b' = b \<and> sr_ok b"
proof -
  have size: "signed_buffer_size x = of_nat 88 + x" for x
    by (simp add: signed_buffer_size_def request_buffer_size_def RequestHeader_def SignatureLength_def)
  have small: "(of_nat (length b) :: u64) < signed_buffer_size 0 \<longleftrightarrow> length b < 88"
    using of_nat_less_u64 [OF assms, of 88] by (simp add: size)
  have "88 \<le> length b \<Longrightarrow> of_nat (length b) = signed_buffer_size (rr_size b) \<longleftrightarrow> length b = 88 + unat (rr_size b)"
    unfolding size by (rule word_sum_eq [OF _ assms])
  with small assms show ?thesis
    by (cases "length b < 88") (auto simp: sr_try_from_def sr_ok_def RequestHeader_def SignatureLength_def)
qed

lemma rr_prefix:
  assumes "RequestHeader \<le> n"
  shows "rr_id (take n b) = rr_id b" "rr_size (take n b) = rr_size b" "rr_client (take n b) = rr_client b"
  using assms by (simp_all add: rr_id_def rr_size_def rr_client_def RequestHeader_def drop_take min_def)

text \<open>A prefix of a well-formed request that is well-formed is the request.\<close>

lemma raw_equal_ok:
  assumes "rr_ok a" "rr_ok b"
  shows "raw_equal a b = Inr (a = b)"
proof -
  have len: "length x = length y" if "rr_ok x" "rr_ok y" "take (length x) y = x" for x y
    using rr_prefix(2) [of "length x" y] that by (simp add: rr_ok_def)
  show ?thesis
  proof (cases "take (length b) a = take (length a) b")
    case True
    have "a = b"
    proof (cases "length a \<le> length b")
      case le: True
      with True have "take (length a) b = a" by simp
      with len [OF assms this] le show ?thesis by simp
    next
      case False
      with True have "take (length b) a = b" by simp
      with len [OF assms(2,1) this] False show ?thesis by simp
    qed
    then show ?thesis by (simp add: raw_equal_def)
  next
    case False
    then show ?thesis by (auto simp: raw_equal_def)
  qed
qed

lemma sr_split_ok:
  assumes "sr_ok b" "sr_split b = Inr (raw, sig)"
  shows "rr_ok raw \<and> rr_id raw = rr_id b \<and> rr_client raw = rr_client b \<and> raw @ sig = b"
proof -
  have sum: "unat (request_buffer_size (rr_size b)) = RequestHeader + unat (rr_size b)"
  proof -
    have "RequestHeader + unat (rr_size b) < 18446744073709551616" using assms(1) by (simp add: sr_ok_def)
    then show ?thesis by (simp add: request_buffer_size_def unat_u64_add unat_u64_of_nat RequestHeader_def)
  qed
  have "raw = take (RequestHeader + unat (rr_size b)) b" "sig = take SignatureLength (drop (RequestHeader + unat (rr_size b)) b)"
    using assms(2) sum by (auto simp: sr_split_def sr_signature_def slice_def rbind_Inr_iff split: if_splits)
  then show ?thesis using assms(1) by (simp add: rr_ok_def sr_ok_def rr_prefix)
qed

lemma sr_parts:
  assumes "sr_try_from b = Inr s" "length b < 18446744073709551616"
  shows "\<exists>raw sig. sr_split s = Inr (raw, sig) \<and> b = raw @ sig \<and> length sig = SignatureLength \<and>
    rr_try_from raw = Inr raw \<and> rr_id raw = rr_id b \<and> rr_client raw = rr_client b"
proof -
  have s: "s = b" "sr_ok b" using sr_try_from_iff [OF assms(2)] assms(1) by auto
  then obtain raw sig where split: "sr_split b = Inr (raw, sig)"
    by (auto simp: sr_split_def sr_signature_def slice_def sr_ok_def)
  note parts = sr_split_ok [OF s(2) this]
  have raw: "rr_ok raw" "RequestHeader \<le> length raw" "raw @ sig = b" using parts by (simp_all add: rr_ok_def)
  have size: "rr_size raw = rr_size b" using rr_prefix(2) [OF raw(2), of b] unfolding raw(3) [symmetric] by simp
  have len: "length raw + length sig = length b" using arg_cong [OF raw(3), of length] by simp
  have "length raw = RequestHeader + unat (rr_size b)" using raw(1) size by (simp add: rr_ok_def)
  moreover have "length b = RequestHeader + unat (rr_size b) + SignatureLength" using s(2) by (simp add: sr_ok_def)
  ultimately have sig: "length sig = SignatureLength" using len by linarith
  have "length raw < 18446744073709551616" using len assms(2) by linarith
  then have "rr_try_from raw = Inr raw" using rr_try_from_iff [of raw raw] raw(1) by simp
  with parts split s(1) sig show ?thesis by (intro exI [of _ raw] exI [of _ sig]) simp
qed

section \<open>Runs\<close>

datatype rpc_event =
    Client_sent bytes
  | Follower_echoed bytes nat
  | Accepted bytes
  | Proposed bool bool bytes

inductive ingress_run :: "crypto \<Rightarrow> proc_id \<Rightarrow> u64 \<Rightarrow> u64 \<Rightarrow> rpc_event list \<Rightarrow> client_ingress \<Rightarrow> bool"
  for cr i window n where
  run_new: "window \<noteq> 0 \<Longrightarrow> 0 < n \<Longrightarrow> ingress_run cr i window n [] (ci_new i window (unat (n - 1)))"
| run_client: "ingress_run cr i window n evs c \<Longrightarrow> rr_ok req \<Longrightarrow> ci_from_client req n c = Inr c' \<Longrightarrow>
    ingress_run cr i window n (evs @ [Client_sent req]) c'"
| run_follower: "ingress_run cr i window n evs c \<Longrightarrow> rr_ok echo \<Longrightarrow> f < unat n - 1 \<Longrightarrow> ci_from_follower echo f c = Inr c' \<Longrightarrow>
    ingress_run cr i window n (evs @ [Follower_echoed echo f]) c'"
| run_signed: "ingress_run cr i window n evs c \<Longrightarrow> sr_ok b \<Longrightarrow>
    ci_signed_from_client b c = Inr c' \<or> ci_from_leader b c = Inr c' \<Longrightarrow> ingress_run cr i window n evs c'"
| run_worker: "ingress_run cr i window n evs c \<Longrightarrow>
    ci_run_client_task cr k c = Inr c' \<or> ci_run_leader_task cr k c = Inr c' \<Longrightarrow> ingress_run cr i window n evs c'"
| run_verified: "ingress_run cr i window n evs c \<Longrightarrow> ci_poll_verified n c = Inr c' \<Longrightarrow> ingress_run cr i window n evs c'"
| run_received: "ingress_run cr i window n evs c \<Longrightarrow> ci_poll_received c = Inr (x, c') \<Longrightarrow>
    ingress_run cr i window n (evs @ (case x of None \<Rightarrow> [] | Some r \<Rightarrow> [Accepted r])) c'"
| run_proposable: "ingress_run cr i window n evs c \<Longrightarrow> ci_poll_proposable fp opt c = Inr (x, c') \<Longrightarrow>
    ingress_run cr i window n (evs @ (case x of None \<Rightarrow> [] | Some r \<Rightarrow> [Proposed fp opt r])) c'"
| run_to_echo: "ingress_run cr i window n evs c \<Longrightarrow> ci_poll_to_echo k c = Inr (x, c') \<Longrightarrow> ingress_run cr i window n evs c'"
| run_to_forward: "ingress_run cr i window n evs c \<Longrightarrow> ci_poll_to_forward k c = Inr (y, c') \<Longrightarrow> ingress_run cr i window n evs c'"
| run_executed: "ingress_run cr i window n evs c \<Longrightarrow> ingress_run cr i window n evs (ci_executed request_id c)"

section \<open>The invariant\<close>

definition client_signed :: "crypto \<Rightarrow> proc_id \<Rightarrow> bytes \<Rightarrow> signature \<Rightarrow> bool" where
  "client_signed cr i req sig \<longleftrightarrow> crypto_verify cr sig req i = Inr True"

text \<open>The signature of an entry is one of the client for its id, but maybe for another request.\<close>

definition request_ok :: "crypto \<Rightarrow> proc_id \<Rightarrow> u64 \<Rightarrow> rpc_event list \<Rightarrow> u64 \<Rightarrow> request_state \<Rightarrow> bool" where
  "request_ok cr i n evs k m \<longleftrightarrow>
     rr_ok (rm_req m) \<and> rr_id (rm_req m) = k \<and> bitset_inv (rm_echoes m) \<and> bcapacity (rm_echoes m) = n \<and> 0 < n \<and>
     (\<forall>f \<in> bitset_elems (rm_echoes m). f < unat n \<and> (f < unat n - 1 \<longrightarrow> Follower_echoed (rm_req m) f \<in> set evs)) \<and>
     (Client_sent (rm_req m) \<in> set evs \<or> (\<exists>sig. client_signed cr i (rm_req m) sig)) \<and>
     (\<forall>sig. rm_signature m = Some sig \<longrightarrow> (\<exists>req. rr_id req = k \<and> client_signed cr i req sig))"

definition buffered_ok :: "rpc_event list \<Rightarrow> nat \<Rightarrow> bytes vector_queue \<Rightarrow> bool" where
  "buffered_ok evs f q \<longleftrightarrow> (\<forall>x. Some x \<in> set (vq_array q) \<longrightarrow> rr_ok x \<and> Follower_echoed x f \<in> set evs)"

definition ingress_inv :: "crypto \<Rightarrow> proc_id \<Rightarrow> u64 \<Rightarrow> rpc_event list \<Rightarrow> client_ingress \<Rightarrow> bool" where
  "ingress_inv cr i n evs c \<longleftrightarrow>
     ci_id c = i \<and> tm_all (request_ok cr i n evs) (ci_requests c) \<and>
     length (ci_buffered c) = unat n - 1 \<and> (\<forall>f < length (ci_buffered c). buffered_ok evs f (ci_buffered c ! f)) \<and>
     (\<forall>v \<in> set (ci_verified c). case v of (req, sig, valid) \<Rightarrow> valid \<longrightarrow> rr_ok req \<and> client_signed cr i req sig) \<and>
     (\<forall>b \<in> set (ci_client_tasks c). sr_ok b) \<and> (\<forall>b \<in> set (ci_leader_tasks c). sr_ok b)"

lemma request_ok_mono: "request_ok cr i n evs k m \<Longrightarrow> set evs \<subseteq> set evs' \<Longrightarrow> request_ok cr i n evs' k m"
  unfolding request_ok_def by blast

lemma ingress_inv_mono: "ingress_inv cr i n evs c \<Longrightarrow> set evs \<subseteq> set evs' \<Longrightarrow> ingress_inv cr i n evs' c"
  unfolding ingress_inv_def buffered_ok_def using tm_all_mono request_ok_mono by (smt (verit) subsetD)

lemma rm_new_ok:
  assumes "rm_new req n sig = Inr m" "rr_ok req"
    "Client_sent req \<in> set evs \<or> (\<exists>s. client_signed cr i req s)"
    "\<And>s. sig = Some s \<Longrightarrow> client_signed cr i req s"
  shows "request_ok cr i n evs (rr_id req) m"
proof -
  obtain b b' x where b: "bitset_new n = Inr b" "bitset_set b (unat (n - 1)) = Inr (b', x)"
    and m: "m = \<lparr>rm_req = req, rm_unanimity = n, rm_echoes = b', rm_signature = sig\<rparr>"
    using assms(1) by (auto simp: rm_new_def rbind_Inr_iff)
  have new: "bitset_inv b" "bitset_elems b = {}" "bcapacity b = n" using bitset_new_inv [OF b(1)] by simp_all
  have "unat (n - 1) < MaxCapacity"
    using b(2) new(1) by (auto simp: bitset_set_def rbind_Inr_iff uat_Inr_iff bitset_inv_def)
  moreover have n: "n \<noteq> 0" using calculation by (auto simp: MaxCapacity_def unsigned_minus_1_eq_mask mask_eq_exp_minus_1)
  moreover have "unat (n - 1) = unat n - 1" using n by (metis unat_minus_one)
  ultimately show ?thesis
    using bitset_set_result [OF new(1), of "unat (n - 1)"] b(2) new assms(2-4)
    by (auto simp: request_ok_def m word_gt_0 unat_gt_0)
qed

lemma rm_echoed_ok:
  assumes ok: "request_ok cr i n evs k m" and echo: "rr_ok echo" "Follower_echoed echo f \<in> set evs" "f < unat n - 1"
    and e: "rm_echoed echo f m = Inr (m', same)"
  shows "request_ok cr i n evs k m'"
proof -
  have m: "rr_ok (rm_req m)" "bitset_inv (rm_echoes m)" "bcapacity (rm_echoes m) = n" using ok by (simp_all add: request_ok_def)
  have f: "f < MaxCapacity" "f < unat n" using m(2,3) echo(3) by (auto simp: bitset_inv_def)
  obtain b where b: "bitset_set (rm_echoes m) f = Inr (b, f \<notin> bitset_elems (rm_echoes m))" "bitset_inv b"
    "bitset_elems b = insert f (bitset_elems (rm_echoes m))" "bcapacity b = n"
    using bitset_set_result [OF m(2) f(1)] m(3) by blast
  have "m' = m \<or> (echo = rm_req m \<and> m' = m\<lparr>rm_echoes := b\<rparr>)"
    using e b(1) raw_equal_ok [OF echo(1) m(1)] by (auto simp: rm_echoed_def rbind_Inr_iff split: if_splits)
  then show ?thesis
  proof
    assume m': "echo = rm_req m \<and> m' = m\<lparr>rm_echoes := b\<rparr>"
    then have "Follower_echoed (rm_req m) f \<in> set evs" using echo(2) by simp
    with ok b(2-4) f(2) m' show ?thesis by (auto simp: request_ok_def)
  qed (use ok in simp)
qed

lemma vq_store_set: "vq_store q p x = Inr q' \<Longrightarrow> set (vq_array q') \<subseteq> insert x (set (vq_array q))"
  by (auto simp: vq_store_def rbind_Inr_iff dest: set_update_subset_insert [THEN subsetD])

lemma buffered_more [simp]: "buffered_ok evs f (q\<lparr>vq_head := h\<rparr>) = buffered_ok evs f q"
  by (simp add: buffered_ok_def)

lemma buffered_store:
  "vq_store q p x = Inr q' \<Longrightarrow> buffered_ok evs f q \<Longrightarrow> (\<And>y. x = Some y \<Longrightarrow> rr_ok y \<and> Follower_echoed y f \<in> set evs) \<Longrightarrow>
    buffered_ok evs f q'"
  using vq_store_set [of q p x q'] unfolding buffered_ok_def by blast

lemma buffered_emplace:
  assumes "vq_emplace_back q x = Inr q'" "buffered_ok evs f q" "rr_ok x" "Follower_echoed x f \<in> set evs"
  shows "buffered_ok evs f q'"
proof -
  let ?q1 = "q\<lparr>vq_next := vq_next q + 1\<rparr>"
  let ?q2 = "if vq_head ?q1 + vq_tail ?q1 = vq_next q then ?q1\<lparr>vq_head := vq_head ?q1 + 1\<rparr> else ?q1"
  have "vq_store ?q2 (vq_next q) (Some x) = Inr q'" using assms(1) by (simp add: vq_emplace_back_def Let_def)
  moreover have "buffered_ok evs f ?q2" using assms(2) by (simp add: buffered_ok_def)
  ultimately show ?thesis by (rule buffered_store) (use assms(3,4) in simp)
qed

lemma buffered_pop: "vq_pop_front q = Inr q' \<Longrightarrow> buffered_ok evs f q \<Longrightarrow> buffered_ok evs f q'"
  by (auto simp: vq_pop_front_def rbind_Inr_iff elim: buffered_store)

lemma buffered_front:
  assumes "vq_front q = Inr x" "buffered_ok evs f q"
  shows "rr_ok x \<and> Follower_echoed x f \<in> set evs"
proof -
  obtain j where "j < length (vq_array q)" "vq_array q ! j = Some x"
    using assms(1) by (auto simp: vq_front_def vq_at_def vq_get_def rbind_Inr_iff uat_Inr_iff split: if_splits option.splits)
  then have "Some x \<in> set (vq_array q)" by (metis nth_mem)
  with assms(2) show ?thesis by (simp add: buffered_ok_def)
qed

lemma buffered_pop_below: "buffered_ok evs f q \<Longrightarrow> always (buffered_ok evs f) (pop_below k q)"
proof (induction k q rule: pop_below.induct)
  case (1 k q)
  have "always (buffered_ok evs f)
    (if vq_empty q then Inr q
      else case vq_front q of Inl e \<Rightarrow> Inl e
      | Inr x \<Rightarrow> if rr_id x < k then (case vq_pop_front q of Inl e \<Rightarrow> Inl e | Inr q' \<Rightarrow> pop_below k q') else Inr q)"
  proof (intro always_cases)
    fix x q' assume "\<not> vq_empty q" "vq_front q = Inr x" "rr_id x < k" "vq_pop_front q = Inr q'"
    with 1 buffered_pop show "always (buffered_ok evs f) (pop_below k q')" by blast
  qed (use 1 in simp_all)
  then show ?case by (simp only: pop_below.simps [of k q])
qed

lemma ingress_buffered:
  assumes "ingress_inv cr i n evs c" "f < length (ci_buffered c)" "buffered_ok evs f q"
  shows "ingress_inv cr i n evs (c\<lparr>ci_buffered := (ci_buffered c)[f := q]\<rparr>)"
  using assms by (auto simp: ingress_inv_def nth_list_update)

lemma ingress_requests:
  "ingress_inv cr i n evs c \<Longrightarrow> tm_all (request_ok cr i n evs) ms \<Longrightarrow> ingress_inv cr i n evs (c\<lparr>ci_requests := ms\<rparr>)"
  by (simp add: ingress_inv_def)

lemma ingress_inv_requests: "ingress_inv cr i n evs c \<Longrightarrow> tm_all (request_ok cr i n evs) (ci_requests c)"
  by (simp add: ingress_inv_def)

lemma vat_Inr: "vat xs i = Inr x \<longleftrightarrow> i < length xs \<and> x = xs ! i"
  by (auto simp: vat_def)

lemma from_follower_inv:
  assumes inv: "ingress_inv cr i n evs c" and echo: "rr_ok echo" "Follower_echoed echo f \<in> set evs" "f < unat n - 1"
  shows "always (ingress_inv cr i n evs) (ci_from_follower echo f c)"
  unfolding ci_from_follower_def
proof (intro always_intros)
  fix it q q' assume q: "vat (ci_buffered c) f = Inr q" "vq_emplace_back q echo = Inr q'"
  then have f: "f < length (ci_buffered c)" "q = ci_buffered c ! f" by (simp_all add: vat_Inr)
  then have "buffered_ok evs f q" using inv by (simp add: ingress_inv_def)
  from ingress_buffered [OF inv f(1) buffered_emplace [OF q(2) this echo(1,2)]]
  show "always (ingress_inv cr i n evs) (Inr (c\<lparr>ci_buffered := (ci_buffered c)[f := q']\<rparr>))" by simp
next
  fix it e m same ms z
  assume e: "tm_deref (ci_requests c) it = Inr e" "rm_echoed echo f (snd e) = Inr z" "z = (m, same)"
    "tm_assign (ci_requests c) it m = Inr ms"
  note all = ingress_inv_requests [OF inv]
  have "request_ok cr i n evs (fst e) m"
    using rm_echoed_ok [OF tm_all_deref [OF all e(1)] echo] e(2,3) by simp
  from ingress_requests [OF inv tm_all_assign [OF all e(1) this e(4)]]
  show "always (ingress_inv cr i n evs) (Inr (c\<lparr>ci_requests := ms\<rparr>))" by simp
qed

lemma emplace_inv:
  assumes inv: "ingress_inv cr i n evs c" and req: "rr_ok req" "Client_sent req \<in> set evs \<or> (\<exists>s. client_signed cr i req s)"
    "\<And>s. sig = Some s \<Longrightarrow> client_signed cr i req s"
  shows "always (\<lambda>c'. ingress_inv cr i n evs c' \<and> ci_buffered c' = ci_buffered c) (ci_emplace req n sig c)"
  unfolding ci_emplace_def
proof (intro always_intros)
  fix m z ms y it ok
  assume m: "rm_new req n sig = Inr m" "tm_try_emplace (ci_requests c) (rr_id req) m = Inr z" "z = (ms, y)" "y = (it, ok)"
  have "tm_all (request_ok cr i n evs) ms"
    by (rule tm_all_try_emplace [OF ingress_inv_requests [OF inv]]) (use m rm_new_ok [OF m(1) req] in auto)
  with ingress_requests [OF inv] show "always (\<lambda>c'. ingress_inv cr i n evs c' \<and> ci_buffered c' = ci_buffered c)
      (Inr (c\<lparr>ci_requests := ms\<rparr>))" by simp
qed

lemma replay_inv:
  assumes inv: "ingress_inv cr i n evs c" and f: "f < length (ci_buffered c)"
  shows "always (ingress_inv cr i n evs) (ci_replay k f c)"
  unfolding ci_replay_def
proof (intro always_rbind always_let always_if)
  fix q q1 c1 assume q: "vat (ci_buffered c) f = Inr q" "pop_below k q = Inr q1"
    and c1: "c1 = c\<lparr>ci_buffered := (ci_buffered c)[f := q1]\<rparr>"
  have "buffered_ok evs f q" using q(1) inv by (simp add: vat_Inr ingress_inv_def)
  then have q1: "buffered_ok evs f q1" using buffered_pop_below q(2) by (blast dest: alwaysD)
  have i1: "ingress_inv cr i n evs c1" unfolding c1 by (rule ingress_buffered [OF inv f q1])
  then show "always (ingress_inv cr i n evs) (Inr c1)" by simp
  from i1 show "always (ingress_inv cr i n evs) (Inr c1)" by simp
  fix x q2 assume x: "vq_front q1 = Inr x" "vq_pop_front q1 = Inr q2"
  note fx = buffered_front [OF x(1) q1]
  have lt: "f < unat n - 1" using inv f by (simp add: ingress_inv_def)
  have "ingress_inv cr i n evs (c1\<lparr>ci_buffered := (ci_buffered c1)[f := q2]\<rparr>)"
    by (rule ingress_buffered [OF i1]) (use f c1 buffered_pop [OF x(2) q1] in simp_all)
  from from_follower_inv [OF this] fx lt
  show "always (ingress_inv cr i n evs) (ci_from_follower x f (c1\<lparr>ci_buffered := (ci_buffered c1)[f := q2]\<rparr>))" by blast
qed

lemma from_client_inv:
  assumes inv: "ingress_inv cr i n evs c" and req: "rr_ok req" "Client_sent req \<in> set evs"
  shows "always (ingress_inv cr i n evs) (ci_from_client req n c)"
  unfolding ci_from_client_def
proof (intro always_rbind always_if always_sum)
  fix c1 assume "ci_emplace req n None c = Inr c1"
  with emplace_inv [OF inv req(1), of None] req(2) have c1: "ingress_inv cr i n evs c1" by (auto dest: alwaysD)
  have len: "length (ci_buffered c') = unat n - 1" if "ingress_inv cr i n evs c'" for c'
    using that by (simp add: ingress_inv_def)
  show "always (ingress_inv cr i n evs) (rfold (ci_replay (rr_id req)) [0 ..< length (ci_buffered c1)] c1)"
  proof (rule always_rfold [where P = "ingress_inv cr i n evs", OF c1])
    fix f c' assume "f \<in> set [0 ..< length (ci_buffered c1)]" "ingress_inv cr i n evs c'"
    then show "always (ingress_inv cr i n evs) (ci_replay (rr_id req) f c')"
      using len [OF c1] len [of c'] by (intro replay_inv) simp_all
  qed
qed simp_all

lemma signed_inv:
  assumes "ingress_inv cr i n evs c" "sr_ok b"
  shows "always (ingress_inv cr i n evs) (ci_signed_from_client b c)" "always (ingress_inv cr i n evs) (ci_from_leader b c)"
  using assms unfolding ci_signed_from_client_def ci_from_leader_def
  by (auto intro!: always_rbind simp: ingress_inv_def dest!: set_push_bounded [THEN subsetD])

lemma check_inv:
  assumes "ingress_inv cr i n evs c" "sr_ok b"
  shows "always (ingress_inv cr i n evs) (ci_check cr b c)"
  unfolding ci_check_def
proof (intro always_intros)
  fix z raw sig valid assume z: "sr_split b = Inr z" "z = (raw, sig)" "crypto_verify cr sig raw (ci_id c) = Inr valid"
  have "rr_ok raw" using sr_split_ok [OF assms(2)] z(1,2) by blast
  moreover have "valid \<longrightarrow> client_signed cr i raw sig" using z(3) assms(1) by (simp add: client_signed_def ingress_inv_def)
  ultimately show "always (ingress_inv cr i n evs) (Inr (c\<lparr>ci_verified := ci_verified c @ [(raw, sig, valid)]\<rparr>))"
    using assms(1) by (auto simp: ingress_inv_def)
qed

lemma worker_inv:
  assumes inv: "ingress_inv cr i n evs c"
  shows "always (ingress_inv cr i n evs) (ci_run_client_task cr k c)" "always (ingress_inv cr i n evs) (ci_run_leader_task cr k c)"
proof -
  have "ingress_inv cr i n evs (c\<lparr>ci_client_tasks := remove_nth k (ci_client_tasks c)\<rparr>)"
    "ingress_inv cr i n evs (c\<lparr>ci_leader_tasks := remove_nth k (ci_leader_tasks c)\<rparr>)"
    using inv by (auto simp: ingress_inv_def dest!: set_remove_nth [THEN subsetD])
  then show "always (ingress_inv cr i n evs) (ci_run_client_task cr k c)" "always (ingress_inv cr i n evs) (ci_run_leader_task cr k c)"
    using inv unfolding ci_run_client_task_def ci_run_leader_task_def
    by (auto intro!: check_inv simp: ingress_inv_def [of _ _ _ _ c])
qed

lemma verified_one_inv:
  assumes inv: "ingress_inv cr i n evs c" and v: "case v of (req, sig, valid) \<Rightarrow> valid \<longrightarrow> rr_ok req \<and> client_signed cr i req sig"
  shows "always (ingress_inv cr i n evs) (ci_verified_one n v c)"
proof -
  obtain req sig valid where v': "v = (req, sig, valid)" by (cases v)
  note all = ingress_inv_requests [OF inv]
  show ?thesis
    unfolding ci_verified_one_def v' prod.case
  proof (intro always_rbind always_if)
    assume "\<not> \<not> valid"
    then have ok: "rr_ok req" "client_signed cr i req sig" using v v' by simp_all
    fix it
    show "always (ingress_inv cr i n evs) (case ci_emplace req n (Some sig) c of
        Inl e \<Rightarrow> if is_exception e then Inr c else Inl e | Inr c1 \<Rightarrow> Inr c1)"
      using emplace_inv [OF inv ok(1), of "Some sig"] ok inv
      by (cases "ci_emplace req n (Some sig) c") auto
    fix e ms assume it: "tm_find (ci_requests c) (rr_id req) = Inr it" and e: "tm_deref (ci_requests c) it = Inr e"
      and ms: "tm_assign (ci_requests c) it (fst (rm_checked_signature sig (snd e))) = Inr ms"
    have "fst e = rr_id req" by (rule tm_find_key [OF it e])
    then have "request_ok cr i n evs (fst e) (fst (rm_checked_signature sig (snd e)))"
      using tm_all_deref [OF all e] ok(2) by (auto simp: request_ok_def rm_checked_signature_def)
    from ingress_requests [OF inv tm_all_assign [OF all e this ms]]
    show "always (ingress_inv cr i n evs) (Inr (c\<lparr>ci_requests := ms\<rparr>))" by simp
  qed simp_all
qed

lemma poll_verified_inv:
  assumes inv: "ingress_inv cr i n evs c"
  shows "always (ingress_inv cr i n evs) (ci_poll_verified n c)"
  unfolding ci_poll_verified_def
proof (rule always_rfold)
  show "ingress_inv cr i n evs (c\<lparr>ci_verified := []\<rparr>)" using inv by (simp add: ingress_inv_def)
  fix v c' assume "v \<in> set (ci_verified c)" "ingress_inv cr i n evs c'"
  moreover from this inv have "case v of (req, sig, valid) \<Rightarrow> valid \<longrightarrow> rr_ok req \<and> client_signed cr i req sig"
    by (simp add: ingress_inv_def)
  ultimately show "always (ingress_inv cr i n evs) (ci_verified_one n v c')" by (intro verified_one_inv)
qed

section \<open>Polls\<close>

lemma poll_received_result:
  assumes "ci_poll_received c = Inr (x, c')"
  shows "\<exists>k. ci_next_received c \<le> k \<and>
    (case x of
       None \<Rightarrow> c' = c\<lparr>ci_next_received := k\<rparr>
     | Some r \<Rightarrow> c' = c\<lparr>ci_next_received := k + 1\<rparr> \<and> k < ci_pollable_below c \<and>
         (\<exists>it m. tm_find (ci_requests c) k = Inr it \<and> tm_deref (ci_requests c) it = Inr (k, m) \<and> r = rm_req m))"
proof (cases "tm_empty (ci_requests c)")
  case True
  with assms show ?thesis by (auto simp: ci_poll_received_def intro!: exI [of _ "ci_next_received c"])
next
  case False
  then obtain b where b: "ci_first c = Inr b" using assms by (auto simp: ci_poll_received_def rbind_Inr_iff)
  obtain k where k: "k = max (ci_next_received c) b" by blast
  then have ge: "ci_next_received c \<le> k" by simp
  have c1: "(if ci_next_received c < b then c\<lparr>ci_next_received := b\<rparr> else c) = c\<lparr>ci_next_received := k\<rparr>"
    by (simp add: k max_def)
  note step = assms [unfolded ci_poll_received_def if_not_P [OF False] b rbind_simps Let_def c1, simplified]
  obtain it where it: "tm_find (ci_requests c) k = Inr it"
    using step by (auto simp: rbind_Inr_iff)
  have eq: "(if it = tm_end (ci_requests c) then Inr (None, c\<lparr>ci_next_received := k\<rparr>)
      else rbind (tm_deref (ci_requests c) it) (\<lambda>e.
        if ci_pollable_below c \<le> fst e then Inr (None, c\<lparr>ci_next_received := k\<rparr>)
        else Inr (Some (rm_req (snd e)), c\<lparr>ci_next_received := k + 1\<rparr>))) = Inr (x, c')"
    using step it by (simp cong: if_cong)
  show ?thesis
  proof (cases "it = tm_end (ci_requests c)")
    case True
    with eq show ?thesis by (intro exI [of _ k]) (use ge in auto)
  next
    case False
    with eq obtain e where e: "tm_deref (ci_requests c) it = Inr e" by (auto simp: rbind_Inr_iff)
    have "fst e = k" by (rule tm_find_key [OF it e])
    with eq e False it show ?thesis by (intro exI [of _ k]) (cases e, use ge in \<open>auto split: if_splits\<close>)
  qed
qed

lemma poll_proposable_result:
  assumes "ci_poll_proposable fp opt c = Inr (x, c')"
  shows "\<exists>k. ci_next_proposable c \<le> k \<and>
    (case x of
       None \<Rightarrow> c' = c\<lparr>ci_next_proposable := k\<rparr>
     | Some r \<Rightarrow> c' = c\<lparr>ci_next_proposable := k + 1\<rparr> \<and> k < ci_next_received c \<and>
         (\<exists>it m. tm_find (ci_requests c) k = Inr it \<and> tm_deref (ci_requests c) it = Inr (k, m) \<and> r = rm_req m \<and>
            rm_proposable fp opt m))"
proof (cases "tm_empty (ci_requests c)")
  case True
  with assms show ?thesis by (auto simp: ci_poll_proposable_def intro!: exI [of _ "ci_next_proposable c"])
next
  case False
  then obtain b where b: "ci_first c = Inr b" using assms by (auto simp: ci_poll_proposable_def rbind_Inr_iff)
  obtain k where k: "k = max (ci_next_proposable c) b" by blast
  then have ge: "ci_next_proposable c \<le> k" by simp
  have c1: "(if ci_next_proposable c < b then c\<lparr>ci_next_proposable := b\<rparr> else c) = c\<lparr>ci_next_proposable := k\<rparr>"
    by (simp add: k max_def)
  note step = assms [unfolded ci_poll_proposable_def if_not_P [OF False] b rbind_simps Let_def c1, simplified]
  show ?thesis
  proof (cases "ci_next_received c \<le> k")
    case True
    with step show ?thesis by (intro exI [of _ k]) (use ge in auto)
  next
    case lt: False
    obtain it where it: "tm_find (ci_requests c) k = Inr it"
      using step lt by (auto simp: rbind_Inr_iff)
    have eq: "(if it = tm_end (ci_requests c) then Inr (None, c\<lparr>ci_next_proposable := k\<rparr>)
        else rbind (tm_deref (ci_requests c) it) (\<lambda>e.
          if \<not> rm_proposable fp opt (snd e) then Inr (None, c\<lparr>ci_next_proposable := k\<rparr>)
          else Inr (Some (rm_req (snd e)), c\<lparr>ci_next_proposable := k + 1\<rparr>))) = Inr (x, c')"
      using step lt it by (simp cong: if_cong)
    show ?thesis
    proof (cases "it = tm_end (ci_requests c)")
      case True
      with eq show ?thesis by (intro exI [of _ k]) (use ge in auto)
    next
      case False
      with eq obtain e where e: "tm_deref (ci_requests c) it = Inr e" by (auto simp: rbind_Inr_iff)
      have "fst e = k" by (rule tm_find_key [OF it e])
      with eq e False it lt show ?thesis by (intro exI [of _ k]) (cases e, use ge in \<open>auto split: if_splits\<close>)
    qed
  qed
qed

lemma only_counter_inv:
  assumes "ingress_inv cr i n evs c"
  shows "ingress_inv cr i n evs (c\<lparr>ci_next_received := a\<rparr>)" "ingress_inv cr i n evs (c\<lparr>ci_next_proposable := a\<rparr>)"
    "ingress_inv cr i n evs (c\<lparr>ci_next_to_echo := l\<rparr>)" "ingress_inv cr i n evs (c\<lparr>ci_next_to_forward := l\<rparr>)"
    "ingress_inv cr i n evs (c\<lparr>ci_pollable_below := a\<rparr>)"
  using assms by (simp_all add: ingress_inv_def)

lemma poll_to_echo_counter: "ci_poll_to_echo k c = Inr (x, c') \<Longrightarrow> \<exists>l. c' = c\<lparr>ci_next_to_echo := l\<rparr>"
  by (auto simp: ci_poll_to_echo_def rbind_Inr_iff Let_def split: if_splits) (metis (no_types) client_ingress.surjective client_ingress.update_convs(5))

lemma poll_to_forward_counter: "ci_poll_to_forward k c = Inr (x, c') \<Longrightarrow> \<exists>l. c' = c\<lparr>ci_next_to_forward := l\<rparr>"
  by (auto simp: ci_poll_to_forward_def rbind_Inr_iff Let_def split: if_splits option.splits) (metis (no_types) client_ingress.surjective client_ingress.update_convs(6))

text \<open>The ids handed out, in order.\<close>

definition accepted_ids :: "rpc_event list \<Rightarrow> u64 list" where
  "accepted_ids evs = concat (map (\<lambda>e. case e of Accepted r \<Rightarrow> [rr_id r] | _ \<Rightarrow> []) evs)"

definition proposed_ids :: "rpc_event list \<Rightarrow> u64 list" where
  "proposed_ids evs = concat (map (\<lambda>e. case e of Proposed _ _ r \<Rightarrow> [rr_id r] | _ \<Rightarrow> []) evs)"

lemma ids_append [simp]:
  "accepted_ids (evs @ fs) = accepted_ids evs @ accepted_ids fs" "proposed_ids (evs @ fs) = proposed_ids evs @ proposed_ids fs"
  "accepted_ids [] = []" "proposed_ids [] = []"
  "accepted_ids [e] = (case e of Accepted r \<Rightarrow> [rr_id r] | _ \<Rightarrow> [])"
  "proposed_ids [e] = (case e of Proposed _ _ r \<Rightarrow> [rr_id r] | _ \<Rightarrow> [])"
  by (simp_all add: accepted_ids_def proposed_ids_def split: rpc_event.split)

definition ids_below :: "u64 list \<Rightarrow> u64 \<Rightarrow> bool" where
  "ids_below ks b \<longleftrightarrow> sorted_wrt (<) ks \<and> (\<forall>k \<in> set ks. k < b)"

lemma ids_below_step:
  assumes "ids_below ks b" "b \<le> k" "k < w"
  shows "ids_below (ks @ [k]) (k + 1)"
proof -
  have "unat k + 1 < 18446744073709551616"
    using assms(3) unat_u64_less [of w] unfolding u64_less_iff by linarith
  then have "k < k + 1" by (simp add: u64_less_iff unat_u64_Suc)
  with assms show ?thesis by (fastforce simp: ids_below_def sorted_wrt_append)
qed

lemma ids_below_mono: "ids_below ks b \<Longrightarrow> b \<le> c \<Longrightarrow> ids_below ks c"
  by (auto simp: ids_below_def)

lemma ingress_run_inv:
  "ingress_run cr i window n evs c \<Longrightarrow> ingress_inv cr i n evs c"
proof (induction rule: ingress_run.induct)
  case run_new
  then have "unat (n - 1) = unat n - 1" by (metis unat_minus_one word_gt_0)
  with run_new show ?case
    by (auto simp: ingress_inv_def ci_new_def tm_all_new buffered_ok_def vq_new_def)
next
  case (run_client evs c req c')
  have "ingress_inv cr i n (evs @ [Client_sent req]) c" by (rule ingress_inv_mono [OF run_client.IH]) auto
  from from_client_inv [OF this run_client.hyps(2)] run_client.hyps(3) show ?case by (auto dest: alwaysD)
next
  case (run_follower evs c echo f c')
  have "ingress_inv cr i n (evs @ [Follower_echoed echo f]) c" by (rule ingress_inv_mono [OF run_follower.IH]) auto
  from from_follower_inv [OF this run_follower.hyps(2)] run_follower.hyps(3,4) show ?case by (auto dest: alwaysD)
next
  case (run_signed evs c b c')
  with signed_inv [OF run_signed.IH run_signed.hyps(2)] show ?case by (auto dest: alwaysD)
next
  case (run_worker evs c k c')
  with worker_inv [OF run_worker.IH, of k] show ?case by (auto dest: alwaysD)
next
  case (run_verified evs c c')
  with poll_verified_inv [OF run_verified.IH] show ?case by (auto dest: alwaysD)
next
  case (run_received evs c x c')
  obtain a where "c' = c\<lparr>ci_next_received := a\<rparr>"
    using poll_received_result [OF run_received.hyps(2)] by (auto split: option.splits)
  with only_counter_inv(1) [OF ingress_inv_mono [OF run_received.IH]] show ?case by simp
next
  case (run_proposable evs c fp opt x c')
  obtain a where "c' = c\<lparr>ci_next_proposable := a\<rparr>"
    using poll_proposable_result [OF run_proposable.hyps(2)] by (auto split: option.splits)
  with only_counter_inv(2) [OF ingress_inv_mono [OF run_proposable.IH]] show ?case by simp
next
  case (run_to_echo evs c k x c')
  with poll_to_echo_counter only_counter_inv(3) show ?case by metis
next
  case (run_to_forward evs c k y c')
  with poll_to_forward_counter only_counter_inv(4) show ?case by metis
next
  case (run_executed evs c request_id)
  with only_counter_inv(5) show ?case by (simp add: ci_executed_def)
qed

text \<open>A request that is proposed on the fast path.\<close>

lemma fast_path_echoed:
  assumes run: "ingress_run cr i window n evs c" and poll: "ci_poll_proposable True False c = Inr (Some req, c')"
  shows "(\<forall>f < unat n - 1. Follower_echoed req f \<in> set evs) \<and>
    (Client_sent req \<in> set evs \<or> (\<exists>sig. client_signed cr i req sig)) \<and> rr_id req < ci_next_received c"
proof -
  note inv = ingress_run_inv [OF run]
  obtain k it m where m: "k < ci_next_received c" "tm_deref (ci_requests c) it = Inr (k, m)" "req = rm_req m" "rm_all_echoed m"
    using poll_proposable_result [OF poll] by (auto simp: rm_proposable_def)
  have ok: "request_ok cr i n evs k m" using tm_all_deref [OF ingress_inv_requests [OF inv] m(2)] by simp
  have sub: "bitset_elems (rm_echoes m) \<subseteq> {..<unat (bcapacity (rm_echoes m))}" using ok by (auto simp: request_ok_def)
  have "bitset_elems (rm_echoes m) = {..<unat n}"
    using bitset_full_iff [OF _ sub] ok m(4) by (simp add: request_ok_def rm_all_echoed_def)
  moreover have "f \<in> bitset_elems (rm_echoes m) \<Longrightarrow> f < unat n - 1 \<Longrightarrow> Follower_echoed req f \<in> set evs" for f
    using ok m(3) unfolding request_ok_def by blast
  ultimately show ?thesis using ok m by (auto simp: request_ok_def)
qed

text \<open>On the slow path there is a signature of the client for that id.\<close>

lemma slow_path_signed:
  assumes run: "ingress_run cr i window n evs c" and poll: "ci_poll_proposable False False c = Inr (Some req, c')"
  shows "\<exists>req' sig. rr_id req' = rr_id req \<and> client_signed cr i req' sig"
proof -
  obtain k it m where m: "tm_deref (ci_requests c) it = Inr (k, m)" "req = rm_req m" "rm_signature m \<noteq> None"
    using poll_proposable_result [OF poll] by (auto simp: rm_proposable_def)
  have "request_ok cr i n evs k m" using tm_all_deref [OF ingress_inv_requests [OF ingress_run_inv [OF run]] m(1)] by simp
  with m(2,3) show ?thesis unfolding request_ok_def by blast
qed

text \<open>Requests are handed out with increasing ids, once each.\<close>

abbreviation counters :: "client_ingress \<Rightarrow> u64 \<times> u64" where
  "counters c \<equiv> (ci_next_received c, ci_next_proposable c)"

lemma from_follower_counters: "always (\<lambda>c'. counters c' = counters c) (ci_from_follower req f c)"
  unfolding ci_from_follower_def by (intro always_intros) simp_all

lemma emplace_counters: "always (\<lambda>c'. counters c' = counters c) (ci_emplace req n sig c)"
  unfolding ci_emplace_def by (intro always_intros) simp_all

lemma replay_counters: "always (\<lambda>c'. counters c' = counters c) (ci_replay k f c)"
  unfolding ci_replay_def Let_def
proof (intro always_rbind always_if)
  fix q q1 x q2
  show "always (\<lambda>c'. counters c' = counters c) (ci_from_follower x f
      (c\<lparr>ci_buffered := (ci_buffered c)[f := q1], ci_buffered := (ci_buffered (c\<lparr>ci_buffered := (ci_buffered c)[f := q1]\<rparr>))[f := q2]\<rparr>))"
    by (rule always_mono [OF from_follower_counters]) simp
qed simp_all

lemma from_client_counters: "always (\<lambda>c'. counters c' = counters c) (ci_from_client req n c)"
  unfolding ci_from_client_def
proof (intro always_rbind always_if always_sum)
  fix c1 assume "ci_emplace req n None c = Inr c1"
  then have "counters c1 = counters c" using emplace_counters by (rule alwaysD [rotated])
  then show "always (\<lambda>c'. counters c' = counters c) (rfold (ci_replay (rr_id req)) [0 ..< length (ci_buffered c1)] c1)"
  proof (rule always_rfold)
    fix f s assume "counters s = counters c"
    then show "always (\<lambda>c'. counters c' = counters c) (ci_replay (rr_id req) f s)"
      by (intro always_mono [OF replay_counters]) simp
  qed
qed simp_all

lemma verified_one_counters: "always (\<lambda>c'. counters c' = counters c) (ci_verified_one n v c)"
proof -
  have "always (\<lambda>c'. counters c' = counters c) (case ci_emplace req n sig c of
      Inl e \<Rightarrow> if is_exception e then Inr c else Inl e | Inr c1 \<Rightarrow> Inr c1)" for req sig
    using emplace_counters [of c req n sig] by (cases "ci_emplace req n sig c") auto
  then show ?thesis unfolding ci_verified_one_def by (intro always_rbind always_if always_prod) simp_all
qed

lemma poll_verified_counters: "always (\<lambda>c'. counters c' = counters c) (ci_poll_verified n c)"
  unfolding ci_poll_verified_def
proof (rule always_rfold)
  fix v s assume "counters s = counters c"
  then show "always (\<lambda>c'. counters c' = counters c) (ci_verified_one n v s)"
    by (intro always_mono [OF verified_one_counters]) simp
qed simp

lemma handed_out_in_order:
  assumes "ingress_run cr i window n evs c"
  shows "ids_below (accepted_ids evs) (ci_next_received c) \<and> ids_below (proposed_ids evs) (ci_next_proposable c)"
  using assms
proof (induction rule: ingress_run.induct)
  case run_new
  then show ?case by (simp add: ids_below_def)
next
  case (run_client evs c req c')
  have "counters c' = counters c" by (rule alwaysD [OF from_client_counters run_client.hyps(3)])
  with run_client.IH show ?case by simp
next
  case (run_follower evs c echo f c')
  have "counters c' = counters c" by (rule alwaysD [OF from_follower_counters run_follower.hyps(4)])
  with run_follower.IH show ?case by simp
next
  case (run_signed evs c b c')
  then have "ci_next_received c' = ci_next_received c \<and> ci_next_proposable c' = ci_next_proposable c"
    by (auto simp: ci_signed_from_client_def ci_from_leader_def rbind_Inr_iff split: if_splits)
  with run_signed.IH show ?case by simp
next
  case (run_worker evs c k c')
  then have "ci_next_received c' = ci_next_received c \<and> ci_next_proposable c' = ci_next_proposable c"
    by (auto simp: ci_run_client_task_def ci_run_leader_task_def ci_check_def rbind_Inr_iff split: if_splits)
  with run_worker.IH show ?case by simp
next
  case (run_verified evs c c')
  have "counters c' = counters c" by (rule alwaysD [OF poll_verified_counters run_verified.hyps(2)])
  with run_verified.IH show ?case by simp
next
  case (run_received evs c x c')
  note all = ingress_inv_requests [OF ingress_run_inv [OF run_received.hyps(1)]]
  from poll_received_result [OF run_received.hyps(2)] obtain k where k: "ci_next_received c \<le> k"
    "case x of None \<Rightarrow> c' = c\<lparr>ci_next_received := k\<rparr>
     | Some r \<Rightarrow> c' = c\<lparr>ci_next_received := k + 1\<rparr> \<and> k < ci_pollable_below c \<and>
         (\<exists>it m. tm_find (ci_requests c) k = Inr it \<and> tm_deref (ci_requests c) it = Inr (k, m) \<and> r = rm_req m)"
    by blast
  show ?case
  proof (cases x)
    case None
    with k run_received.IH ids_below_mono show ?thesis by fastforce
  next
    case (Some r)
    with k(2) obtain it m where r: "c' = c\<lparr>ci_next_received := k + 1\<rparr>" "k < ci_pollable_below c"
      "tm_deref (ci_requests c) it = Inr (k, m)" "r = rm_req m"
      by auto
    have "rr_id r = k" using tm_all_deref [OF all r(3)] r(4) by (simp add: request_ok_def)
    with ids_below_step [OF _ k(1) r(2)] run_received.IH Some r(1) show ?thesis by simp
  qed
next
  case (run_proposable evs c fp opt x c')
  note all = ingress_inv_requests [OF ingress_run_inv [OF run_proposable.hyps(1)]]
  from poll_proposable_result [OF run_proposable.hyps(2)] obtain k where k: "ci_next_proposable c \<le> k"
    "case x of None \<Rightarrow> c' = c\<lparr>ci_next_proposable := k\<rparr>
     | Some r \<Rightarrow> c' = c\<lparr>ci_next_proposable := k + 1\<rparr> \<and> k < ci_next_received c \<and>
         (\<exists>it m. tm_find (ci_requests c) k = Inr it \<and> tm_deref (ci_requests c) it = Inr (k, m) \<and> r = rm_req m \<and>
            rm_proposable fp opt m)"
    by blast
  show ?case
  proof (cases x)
    case None
    with k run_proposable.IH ids_below_mono show ?thesis by fastforce
  next
    case (Some r)
    with k(2) obtain it m where r: "c' = c\<lparr>ci_next_proposable := k + 1\<rparr>" "k < ci_next_received c"
      "tm_deref (ci_requests c) it = Inr (k, m)" "r = rm_req m"
      by auto
    have "rr_id r = k" using tm_all_deref [OF all r(3)] r(4) by (simp add: request_ok_def)
    with ids_below_step [OF _ k(1) r(2)] run_proposable.IH Some r(1) show ?thesis by simp
  qed
next
  case (run_to_echo evs c k x c')
  with poll_to_echo_counter show ?case by fastforce
next
  case (run_to_forward evs c k y c')
  with poll_to_forward_counter show ?case by fastforce
next
  case (run_executed evs c request_id)
  then show ?case by (simp add: ci_executed_def)
qed

end
