(* ===== verification/Ingress_Errors.thy ===== *)
theory Ingress_Errors
  imports Ingress_Safety
begin

text \<open>
  Where the ingress fails: a signature for one request attached to another of the same id, and the iterator that
  \<open>pollToForward\<close> reads when there is nothing to forward.
\<close>

lemma sr_split_append:
  assumes "rr_ok raw" "length sig = SignatureLength" "length raw + SignatureLength < 18446744073709551616"
  shows "sr_split (raw @ sig) = Inr (raw, sig)" "sr_ok (raw @ sig)" "rr_id (raw @ sig) = rr_id raw"
proof -
  have len: "length raw = RequestHeader + unat (rr_size raw)" "RequestHeader \<le> length raw" using assms(1) by (simp_all add: rr_ok_def)
  have same: "rr_size (raw @ sig) = rr_size raw" "rr_id (raw @ sig) = rr_id raw"
    using rr_prefix [OF len(2), of "raw @ sig"] by simp_all
  then show "rr_id (raw @ sig) = rr_id raw" "sr_ok (raw @ sig)"
    using assms len(1) by (simp_all add: sr_ok_def)
  have "unat (request_buffer_size (rr_size raw)) = length raw"
    using assms(3) len(1) by (simp add: request_buffer_size_def unat_u64_add unat_u64_of_nat RequestHeader_def)
  then show "sr_split (raw @ sig) = Inr (raw, sig)"
    using same assms(2) len(1) by (simp add: sr_split_def sr_signature_def slice_def)
qed

lemma push_first: "w \<noteq> 0 \<Longrightarrow> push_bounded w x [] = [x]"
  by (simp add: push_bounded_def unat_eq_zero)

lemma vq_new_empty: "vq_empty (vq_new w)"
  by (simp add: vq_empty_def vq_size_def vq_new_def)

lemma replay_nothing:
  assumes "f < length (ci_buffered c)" "vq_empty (ci_buffered c ! f)"
  shows "ci_replay k f c = Inr c"
proof -
  have "pop_below k (ci_buffered c ! f) = Inr (ci_buffered c ! f)" using assms(2) by (simp add: pop_below.simps [of k "ci_buffered c ! f"])
  with assms show ?thesis by (simp add: ci_replay_def vat_def)
qed

lemma rfold_same: "(\<And>x. x \<in> set xs \<Longrightarrow> f x s = Inr s) \<Longrightarrow> rfold f xs s = Inr s"
  by (induction xs) simp_all

lemma rm_new_total:
  assumes "0 < n" "unat n \<le> 8"
  shows "\<exists>m. rm_new req n sig = Inr m \<and> rm_req m = req \<and> rm_signature m = sig"
proof -
  have "\<not> of_nat MaxCapacity < n" using assms(2) by (simp add: MaxCapacity_def u64_less_iff)
  then obtain b where b: "bitset_new n = Inr b" unfolding bitset_new_def by simp
  have inv: "bitset_inv b" using bitset_new_inv [OF b] by simp
  have "unat (n - 1) = unat n - 1" using assms(1) by (metis unat_minus_one word_gt_0)
  then have "unat (n - 1) < MaxCapacity" using assms by (simp add: MaxCapacity_def word_gt_0 unat_gt_0)
  from bitset_set_result [OF inv this] obtain b' x where "bitset_set b (unat (n - 1)) = Inr (b', x)" by blast
  with b show ?thesis by (simp add: rm_new_def)
qed

lemma fresh_from_client:
  assumes "window \<noteq> 0" "unat (rr_id req) + unat window < 18446744073709551616" "0 < n" "unat n \<le> 8"
  shows "\<exists>ms m. ci_from_client req n (ci_new i window nb) = Inr ((ci_new i window nb)\<lparr>ci_requests := ms\<rparr>) \<and>
    tm_rep ms [(rr_id req, m)] \<and> rm_req m = req \<and> rm_signature m = None"
proof -
  let ?c = "ci_new i window nb"
  have rep: "tm_rep (tm_new window :: request_state tail_map) []" using tm_new_rep [OF assms(1)] by (simp add: tm_rep_def)
  obtain m where m: "rm_new req n None = Inr m" "rm_req m = req" "rm_signature m = None" using rm_new_total [OF assms(3,4)] by blast
  obtain ms where ms: "tm_try_emplace (tm_new window) (rr_id req) m = Inr (ms, Some (tm_slot window (rr_id req)), True)"
    "tm_rep ms [(rr_id req, m)]"
    using tm_rep_try_emplace [OF rep, of "rr_id req" m] assms(2) by (auto simp: tm_new_def tm_kept_def)
  let ?c1 = "?c\<lparr>ci_requests := ms\<rparr>"
  have em: "ci_emplace req n None ?c = Inr ?c1" using m(1) ms(1) by (simp add: ci_emplace_def ci_new_def)
  have fold: "rfold (ci_replay (rr_id req)) [0 ..< length (ci_buffered ?c1)] ?c1 = Inr ?c1"
    by (intro rfold_same replay_nothing) (simp_all add: ci_new_def vq_new_empty)
  have "ci_requests ?c = tm_new window" by (simp add: ci_new_def)
  then have "tm_find (ci_requests ?c) (rr_id req) = Inr (tm_end (ci_requests ?c))"
    using tm_core_find [OF tm_rep_core [OF rep]] by (simp add: tm_end_def)
  with em fold have "ci_from_client req n ?c = Inr ?c1" by (simp add: ci_from_client_def)
  with ms(2) m(2,3) show ?thesis by blast
qed

lemma first_entry:
  assumes "tm_rep ms ((k, m) # es)"
  shows "tm_find ms k = Inr (Some (tm_slot (tm_tail ms) k))" "tm_deref ms (Some (tm_slot (tm_tail ms) k)) = Inr (k, m)"
    "tm_begin ms = Some (tm_slot (tm_tail ms) k)" "\<not> tm_empty ms"
    "\<exists>ms'. tm_assign ms (Some (tm_slot (tm_tail ms) k)) m' = Inr ms' \<and> tm_rep ms' ((k, m') # es) \<and> tm_tail ms' = tm_tail ms"
proof -
  let ?i = "tm_slot (tm_tail ms) k"
  note core = tm_rep_core [OF assms]
  show "tm_find ms k = Inr (Some ?i)" by (simp add: tm_core_find [OF core])
  show "tm_deref ms (Some ?i) = Inr (k, m)" using tm_core_first [OF core] by simp
  show "tm_begin ms = Some ?i" using tm_core_begin [OF core] by simp
  show "\<not> tm_empty ms" by (simp add: tm_core_empty [OF core])
  let ?nxt = "if es = [] then None else Some (tm_slot (tm_tail ms) (fst (hd es)))"
  let ?ms' = "ms\<lparr>dyn_array := (dyn_array ms)[?i := Some ((k, m'), ?nxt)]\<rparr>"
  have i: "?i < length (dyn_array ms)" "dyn_array ms ! ?i = Some ((k, m), ?nxt)"
    using core tm_slot_less by (auto simp: tm_core_def tm_chain_Cons)
  have "k \<notin> fst ` set es" using core by (fastforce simp: tm_core_def)
  then have "?i \<notin> tm_slot (tm_tail ms) ` fst ` set es"
    using tm_window_inj [OF tm_core_window [OF core]] by (auto simp: inj_on_def)
  then have "tm_rep ?ms' ((k, m') # es)"
    using assms i by (auto simp: tm_rep_def tm_core_def tm_chain_Cons tm_chain_update nth_list_update)
  moreover have "tm_assign ms (Some ?i) m' = Inr ?ms'" using i by (simp add: tm_assign_def tm_node_def)
  ultimately show "\<exists>ms'. tm_assign ms (Some ?i) m' = Inr ms' \<and> tm_rep ms' ((k, m') # es) \<and> tm_tail ms' = tm_tail ms"
    by simp
qed

text \<open>
  The client sends request \<open>a\<close> in the clear and, under the same id, \<open>b\<close> signed. The leader attaches the signature to
  \<open>a\<close>, forwards both, and the follower that checks them throws.
\<close>

definition leader_run :: "crypto \<Rightarrow> u64 \<Rightarrow> bytes \<Rightarrow> bytes \<Rightarrow> client_ingress \<Rightarrow> ((bytes \<times> signature) option \<times> client_ingress) result" where
  "leader_run cr n a signed_b c =
     rbind (ci_from_client a n c) (\<lambda>c1.
     rbind (ci_signed_from_client signed_b c1) (\<lambda>c2.
     rbind (ci_run_client_task cr 0 c2) (\<lambda>c3.
     rbind (ci_poll_verified n c3) (\<lambda>c4.
     ci_poll_to_forward 0 c4))))"

definition follower_run :: "crypto \<Rightarrow> u64 \<Rightarrow> bytes \<Rightarrow> client_ingress \<Rightarrow> client_ingress result" where
  "follower_run cr n forwarded c =
     rbind (ci_from_leader forwarded c) (\<lambda>c1.
     rbind (ci_run_leader_task cr 0 c1) (\<lambda>c2.
     ci_poll_verified n c2))"

lemma leader_forwards_other_signature:
  assumes w: "window \<noteq> 0" "unat (rr_id a) + unat window < 18446744073709551616" "0 < n" "unat n \<le> 8" "0 < nb"
    and b: "rr_ok b" "rr_id b = rr_id a" "length sb = SignatureLength" "length b + SignatureLength < 18446744073709551616"
      "client_signed cr i b sb"
  shows "\<exists>c es. leader_run cr n a (b @ sb) (ci_new i window nb) = Inr (Some (a, sb), c) \<and>
    tm_rep (ci_requests c) es \<and> es \<noteq> [] \<and> fst (last es) = rr_id a \<and> ci_next_to_forward c = (rr_id a + 1) # replicate (nb - 1) 0"
proof -
  let ?c0 = "ci_new i window nb" let ?k = "rr_id a"
  obtain ms m where c1: "ci_from_client a n ?c0 = Inr (?c0\<lparr>ci_requests := ms\<rparr>)" "tm_rep ms [(?k, m)]"
    "rm_req m = a" "rm_signature m = None"
    using fresh_from_client [OF w(1-4)] by blast
  note s = sr_split_append [OF b(1,3,4)] note one = first_entry [OF c1(2)]
  let ?c1 = "?c0\<lparr>ci_requests := ms\<rparr>"
  have n1: "ci_needs_check (b @ sb) ?c1 = Inr True" using one(1,2) s(3) b(2) c1(4) by (simp add: ci_needs_check_def tm_end_def)
  have c2: "ci_signed_from_client (b @ sb) ?c1 = Inr (?c1\<lparr>ci_client_tasks := [b @ sb]\<rparr>)"
    using n1 push_first [OF w(1)] by (simp add: ci_signed_from_client_def ci_new_def)
  have c3: "ci_run_client_task cr 0 (?c1\<lparr>ci_client_tasks := [b @ sb]\<rparr>) =
      Inr (?c1\<lparr>ci_client_tasks := [], ci_verified := [(b, sb, True)]\<rparr>)"
    using s(1) b(5) by (simp add: ci_run_client_task_def ci_check_def remove_nth_def client_signed_def ci_new_def)
  obtain ms' where ms': "tm_assign ms (Some (tm_slot (tm_tail ms) ?k)) (m\<lparr>rm_signature := Some sb\<rparr>) = Inr ms'"
    "tm_rep ms' [(?k, m\<lparr>rm_signature := Some sb\<rparr>)]" "tm_tail ms' = tm_tail ms"
    using one(5) by blast
  have c4: "ci_poll_verified n (?c1\<lparr>ci_client_tasks := [], ci_verified := [(b, sb, True)]\<rparr>) =
      Inr (?c0\<lparr>ci_requests := ms', ci_client_tasks := [], ci_verified := []\<rparr>)"
    using one(1,2) ms'(1) b(2)
    by (simp add: ci_poll_verified_def ci_verified_one_def rm_checked_signature_def tm_end_def ci_new_def)
  note two = first_entry [OF ms'(2)]
  let ?c5 = "?c0\<lparr>ci_requests := ms', ci_client_tasks := [], ci_verified := [], ci_next_to_forward := (?k + 1) # replicate (nb - 1) 0\<rparr>"
  have upd: "(replicate nb (0 :: u64))[0 := x] = x # replicate (nb - 1) 0" for x using w(5) by (cases nb) auto
  have "ci_poll_to_forward 0 (?c0\<lparr>ci_requests := ms', ci_client_tasks := [], ci_verified := []\<rparr>) = Inr (Some (a, sb), ?c5)"
    using two(1-4) w(5) c1(3) upd by (simp add: ci_poll_to_forward_def ci_first_def vat_def ci_new_def Let_def)
  then have "leader_run cr n a (b @ sb) ?c0 = Inr (Some (a, sb), ?c5)"
    using c1(1) c2 c3 c4 unfolding leader_run_def by simp
  with ms'(2) show ?thesis by (intro exI [of _ ?c5] exI [of _ "[(?k, m\<lparr>rm_signature := Some sb\<rparr>)]"]) simp
qed

lemma follower_convicts:
  assumes "window \<noteq> 0" "rr_ok a" "length sb = SignatureLength" "length a + SignatureLength < 18446744073709551616"
    "crypto_verify cr sb a i = Inr False"
  shows "follower_run cr n (a @ sb) (ci_new i window nb) = Inl (Runtime_error ''Byzantine Behavior: invalid signature received.'')"
proof -
  let ?c0 = "ci_new i window nb"
  note s = sr_split_append [OF assms(2-4)]
  have rep: "tm_core (tm_new window :: request_state tail_map) []" using tm_new_rep [OF assms(1)] .
  have "ci_needs_check (a @ sb) ?c0 = Inr True"
    using tm_core_find [OF rep] by (simp add: ci_needs_check_def ci_new_def tm_end_def)
  then have c1: "ci_from_leader (a @ sb) ?c0 = Inr (?c0\<lparr>ci_leader_tasks := [a @ sb]\<rparr>)"
    using push_first [OF assms(1)] by (simp add: ci_from_leader_def ci_new_def)
  have c2: "ci_run_leader_task cr 0 (?c0\<lparr>ci_leader_tasks := [a @ sb]\<rparr>) = Inr (?c0\<lparr>ci_leader_tasks := [], ci_verified := [(a, sb, False)]\<rparr>)"
    using s(1) assms(5) by (simp add: ci_run_leader_task_def ci_check_def remove_nth_def ci_new_def)
  show ?thesis using c1 c2 by (simp add: follower_run_def ci_poll_verified_def ci_verified_one_def)
qed

text \<open>Everything was forwarded: \<open>find\<close> returns \<open>end()\<close>, which is read.\<close>

lemma forward_past_end:
  assumes "tm_rep (ci_requests c) es" "es \<noteq> []" "dest < length (ci_next_to_forward c)"
    "fst (last es) < ci_next_to_forward c ! dest"
  shows "ci_poll_to_forward dest c = Inl Undefined_behaviour"
proof -
  note core = tm_rep_core [OF assms(1)]
  have sk: "sorted_keys es" using core by (simp add: tm_core_def)
  obtain e es' where es: "es = e # es'" using assms(2) by (cases es) auto
  have "fst e \<le> fst (last es)" using sorted_keys_le_last [OF sk, of e] es by simp
  then have mx: "max (ci_next_to_forward c ! dest) (fst e) = ci_next_to_forward c ! dest" using assms(4) by (intro max_absorb1) simp
  have "ci_next_to_forward c ! dest \<notin> fst ` set es"
    using sorted_keys_le_last [OF sk] assms(4) by (metis (no_types) imageE leD)
  then have "tm_find (ci_requests c) (ci_next_to_forward c ! dest) = Inr None" by (simp add: tm_core_find [OF core])
  moreover have "ci_first c = Inr (fst e)"
    using tm_core_begin [of "ci_requests c" e es'] tm_core_deref [OF core, of e] core es by (simp add: ci_first_def)
  moreover have "\<not> tm_empty (ci_requests c)" using tm_core_empty [OF core] assms(2) by simp
  ultimately show ?thesis
    using assms(3) mx by (simp add: ci_poll_to_forward_def vat_def Let_def tm_deref_def tm_node_def)
qed

end
