(* ===== verification/Client_Errors.thy ===== *)
theory Client_Errors
  imports Client_Safety Ingress_Errors
begin

text \<open>
  Where the client counts what it should not: a response that continues the others is taken for them, and nothing
  keeps a server from answering a request more than once.
\<close>

section \<open>One poll of a server\<close>

lemma poll_server_idle: "i < length (cl_servers c) \<Longrightarrow> pe_inbox (cl_servers c ! i) = [] \<Longrightarrow> cl_poll_server i c = Inr c"
  by (simp add: cl_poll_server_def)

definition response_fits :: "rpc_client \<Rightarrow> u64 \<Rightarrow> bytes \<Rightarrow> bool" where
  "response_fits c k b \<longleftrightarrow> ResponseHeader \<le> length b \<and> length b \<le> unat (cl_max_full_response c) \<and> rs_request_id b = k"

lemma poll_server_counts:
  assumes "tm_rep (cl_requests c) ((k, d) # es)" "i < length (cl_servers c)" "pe_inbox (cl_servers c ! i) = b # rest"
    and "pe_next_response (cl_servers c ! i) < cl_next_request c" "response_fits c k b" "cd_new_response b d = Inr d'"
  shows "\<exists>ms. tm_rep ms ((k, d') # es) \<and> cl_poll_server i c = Inr (c\<lparr>cl_servers := (cl_servers c)[i :=
    (cl_servers c ! i)\<lparr>pe_inbox := rest, pe_next_response := k + 1\<rparr>], cl_requests := ms\<rparr>)"
proof -
  note f = first_entry [OF assms(1)]
  obtain ms where ms: "tm_assign (cl_requests c) (Some (tm_slot (tm_tail (cl_requests c)) k)) d' = Inr ms" "tm_rep ms ((k, d') # es)"
    using f(5) [where m' = d'] by blast
  have b: "8 \<le> length b" "length b < 18446744073709551616" "length b \<le> unat (cl_max_full_response c)" "rs_request_id b = k"
    using assms(5) unat_u64_less [of "cl_max_full_response c"] by (simp_all add: response_fits_def ResponseHeader_def del: unat_u64_less)
  have "\<not> of_nat (length b) < response_buffer_size 0"
    using of_nat_less_u64 [of "length b" 8] b(1,2) by (simp add: response_buffer_size_def ResponseHeader_def)
  then have "rs_try_from b = Inr b" by (simp add: rs_try_from_def)
  with f(1,2) ms assms(2-4,6) b(3,4) show ?thesis
    by (intro exI [of _ ms]) (simp add: cl_poll_server_def cl_response_def Let_def tm_end_def)
qed

lemma poll_front:
  assumes "tm_rep (cl_requests c) ((k, d) # es)" "cd_poll d = Inr (Some res)"
  shows "\<exists>c'. cl_poll c = Inr (Some res, c')"
proof -
  obtain ms where "tm_pop_front (cl_requests c) = Inr ms" using tm_rep_pop_front [OF assms(1)] by blast
  then show ?thesis
    using tm_rep_front [OF assms(1)] first_entry(4) [OF assms(1)] assms(2) by (simp add: cl_poll_def)
qed

section \<open>A response that continues the others\<close>

text \<open>\<open>response == *responses.front()\<close> compares as many bytes as the new response has.\<close>

lemma continued_response:
  assumes rep: "tm_rep (cl_requests c) ((k, cd_new req 3) # es)"
    and s: "cl_servers c = [s0, s1, s2]" "pe_inbox s0 = [r @ t]" "pe_inbox s1 = [r]" "pe_inbox s2 = []"
    and ready: "pe_next_response s0 < cl_next_request c" "pe_next_response s1 < cl_next_request c"
    and fits: "response_fits c k (r @ t)" "response_fits c k r"
  shows "\<exists>c1 c2. cl_poll_responses c = Inr c1 \<and> cl_poll c1 = Inr (Some (rs_body r @ t), c2)"
proof -
  let ?d1 = "(cd_new req 3)\<lparr>cd_nb_responses := 1, cd_responses := [Some (r @ t), None, None, None, None]\<rparr>"
  let ?d2 = "?d1\<lparr>cd_nb_responses := 2, cd_responses := [Some (r @ t), Some r, None, None, None]\<rparr>"
  have d1: "cd_new_response (r @ t) (cd_new req 3) = Inr ?d1"
    by (simp add: cd_new_response_def cd_new_def MaxNbServers_def numeral_nat)
  have "raw_equal r (r @ t) = Inr True" by (simp add: raw_equal_prefix)
  then have d2: "cd_new_response r ?d1 = Inr ?d2"
    by (simp add: cd_new_response_def cd_new_def MaxNbServers_def numeral_nat)
  obtain ms where ms: "tm_rep ms ((k, ?d1) # es)"
    "cl_poll_server 0 c = Inr (c\<lparr>cl_servers := [s0\<lparr>pe_inbox := [], pe_next_response := k + 1\<rparr>, s1, s2], cl_requests := ms\<rparr>)"
    using poll_server_counts [OF rep, of 0, OF _ _ _ fits(1) d1] s ready by auto
  let ?c1 = "c\<lparr>cl_servers := [s0\<lparr>pe_inbox := [], pe_next_response := k + 1\<rparr>, s1, s2], cl_requests := ms\<rparr>"
  obtain ms2 where ms2: "tm_rep ms2 ((k, ?d2) # es)"
    "cl_poll_server 1 ?c1 = Inr (?c1\<lparr>cl_servers := [s0\<lparr>pe_inbox := [], pe_next_response := k + 1\<rparr>,
      s1\<lparr>pe_inbox := [], pe_next_response := k + 1\<rparr>, s2], cl_requests := ms2\<rparr>)"
    using poll_server_counts [of ?c1 k ?d1 es 1 r "[]" ?d2] ms(1) s ready fits(2) d2 by (auto simp: response_fits_def)
  let ?c2 = "?c1\<lparr>cl_servers := [s0\<lparr>pe_inbox := [], pe_next_response := k + 1\<rparr>,
      s1\<lparr>pe_inbox := [], pe_next_response := k + 1\<rparr>, s2], cl_requests := ms2\<rparr>"
  have "cl_poll_server 2 ?c2 = Inr ?c2" using s(4) by (intro poll_server_idle) simp_all
  then have poll: "cl_poll_responses c = Inr ?c2"
    using ms(2) ms2(2) s(1) by (simp add: cl_poll_responses_def upt_rec numeral_2_eq_2)
  have "rs_body (r @ t) = rs_body r @ t" using fits(2) by (simp add: rs_body_def response_fits_def)
  then have "cd_poll ?d2 = Inr (Some (rs_body r @ t))" by (simp add: cd_poll_def cd_new_def)
  from poll_front [OF _ this, of ?c2 k es] ms2(1) poll show ?thesis by auto
qed

text \<open>The other order reads the first response past its end.\<close>

lemma continued_response_late:
  assumes "t \<noteq> []"
  shows "rbind (cd_new_response r (cd_new req n)) (cd_new_response (r @ t)) = Inl Undefined_behaviour"
  using assms by (simp add: cd_new_response_def cd_new_def MaxNbServers_def raw_equal_def)

section \<open>Many responses of one server\<close>

definition forged :: "bytes \<Rightarrow> u64 \<Rightarrow> bytes \<Rightarrow> nat \<Rightarrow> request_data" where
  "forged req n r j = (cd_new req n)\<lparr>cd_nb_responses := of_nat j,
     cd_responses := replicate j (Some r) @ replicate (MaxNbServers - j) None\<rparr>"

lemma forged_next:
  assumes "j < MaxNbServers"
  shows "cd_new_response r (forged req n r j) = Inr (forged req n r (Suc j))"
proof -
  have j: "unat (of_nat j :: u64) = j" using assms by (simp add: unat_u64_of_nat MaxNbServers_def)
  have "raw_equal r r = Inr True" by (simp add: raw_equal_prefix)
  moreover have "(replicate j (Some r) @ replicate (MaxNbServers - j) None)[j := Some r] =
      replicate (Suc j) (Some r) @ replicate (MaxNbServers - Suc j) None"
    using list_update_length [of "replicate j (Some r)" None "replicate (MaxNbServers - Suc j) None" "Some r"] assms
    by (simp add: Suc_diff_Suc [symmetric] replicate_app_Cons_same)
  ultimately show ?thesis
    using assms j by (cases j) (simp_all add: cd_new_response_def forged_def cd_new_def MaxNbServers_def)
qed

lemma forged_overflow: "cd_new_response r (forged req n r MaxNbServers) = Inl Undefined_behaviour"
  by (simp add: cd_new_response_def forged_def cd_new_def MaxNbServers_def raw_equal_def uat_def)

text \<open>\<open>flooding c\<close>: the first server answers request \<open>k\<close> again and again, the others are silent.\<close>

definition flooding :: "bytes \<Rightarrow> u64 \<Rightarrow> bytes \<Rightarrow> (u64 \<times> request_data) list \<Rightarrow> nat \<Rightarrow> nat \<Rightarrow> rpc_client \<Rightarrow> bool" where
  "flooding req k r es j m c \<longleftrightarrow>
     tm_rep (cl_requests c) ((k, forged req (of_nat (length (cl_servers c))) r j) # es) \<and> response_fits c k r \<and>
     k + 1 < cl_next_request c \<and> cl_servers c \<noteq> [] \<and> pe_inbox (hd (cl_servers c)) = replicate m r \<and>
     pe_next_response (hd (cl_servers c)) < cl_next_request c \<and> (\<forall>s \<in> set (tl (cl_servers c)). pe_inbox s = [])"

lemma flooding_round:
  assumes f: "flooding req k r es j (Suc m) c"
  shows "j < MaxNbServers \<Longrightarrow> \<exists>c'. cl_poll_responses c = Inr c' \<and> flooding req k r es (Suc j) m c' \<and>
      length (cl_servers c') = length (cl_servers c)"
    and "j = MaxNbServers \<Longrightarrow> cl_poll_responses c = Inl Undefined_behaviour"
proof -
  let ?n = "of_nat (length (cl_servers c)) :: u64"
  obtain s ss where s: "cl_servers c = s # ss" using f by (cases "cl_servers c") (auto simp: flooding_def)
  have hd: "pe_inbox s = r # replicate m r" "pe_next_response s < cl_next_request c" "\<forall>s \<in> set ss. pe_inbox s = []"
    "tm_rep (cl_requests c) ((k, forged req ?n r j) # es)" "response_fits c k r" "k + 1 < cl_next_request c"
    using f s by (simp_all add: flooding_def)
  have polls: "cl_poll_responses c = rbind (cl_poll_server 0 c) (rfold cl_poll_server [1 ..< length (cl_servers c)])"
    using s by (simp add: cl_poll_responses_def upt_conv_Cons del: upt_Suc)
  {
    assume "j < MaxNbServers"
    note d = forged_next [OF this, of r req ?n]
    let ?ss = "s\<lparr>pe_inbox := replicate m r, pe_next_response := k + 1\<rparr> # ss"
    obtain ms where ms: "tm_rep ms ((k, forged req ?n r (Suc j)) # es)"
      "cl_poll_server 0 c = Inr (c\<lparr>cl_servers := ?ss, cl_requests := ms\<rparr>)"
      using poll_server_counts [OF hd(4) _ _ _ hd(5) d, of 0 "replicate m r"] hd(1,2) s by auto
    let ?c = "c\<lparr>cl_servers := ?ss, cl_requests := ms\<rparr>"
    have "rfold cl_poll_server [1 ..< length (cl_servers c)] ?c = Inr ?c"
      using hd(3) s by (intro rfold_same poll_server_idle) (auto simp: nth_Cons')
    with polls ms(2) have "cl_poll_responses c = Inr ?c" by simp
    moreover have "flooding req k r es (Suc j) m ?c"
      using ms(1) hd(3,5,6) s by (simp add: flooding_def response_fits_def)
    ultimately show "\<exists>c'. cl_poll_responses c = Inr c' \<and> flooding req k r es (Suc j) m c' \<and>
      length (cl_servers c') = length (cl_servers c)" using s by auto
  }
  assume j: "j = MaxNbServers"
  let ?c = "c\<lparr>cl_servers := s\<lparr>pe_inbox := replicate m r\<rparr> # ss\<rparr>"
  have b: "8 \<le> length r" "length r < 18446744073709551616"
    using hd(5) unat_u64_less [of "cl_max_full_response c"] by (simp_all add: response_fits_def ResponseHeader_def del: unat_u64_less)
  have "\<not> of_nat (length r) < response_buffer_size 0"
    using of_nat_less_u64 [of "length r" 8] b by (simp add: response_buffer_size_def ResponseHeader_def)
  then have "rs_try_from r = Inr r" by (simp add: rs_try_from_def)
  then have "cl_response 0 r ?c = Inl Undefined_behaviour"
    using first_entry(1,2) [OF hd(4)] hd(5) forged_overflow [of r req ?n] j
    by (simp add: cl_response_def Let_def tm_end_def response_fits_def)
  then have "cl_poll_server 0 c = Inl Undefined_behaviour"
    using s hd(1,2,5) by (simp add: cl_poll_server_def response_fits_def)
  with polls show "cl_poll_responses c = Inl Undefined_behaviour" by simp
qed

lemma flooding_rounds:
  "flooding req k r es j (q + m) c \<Longrightarrow> j + q \<le> MaxNbServers \<Longrightarrow>
    \<exists>c'. rfold (\<lambda>_. cl_poll_responses) [0 ..< q] c = Inr c' \<and> flooding req k r es (j + q) m c' \<and>
      length (cl_servers c') = length (cl_servers c)"
proof (induction q arbitrary: m)
  case (Suc q)
  from Suc.IH [of "Suc m"] Suc.prems obtain c1 where c1: "rfold (\<lambda>_. cl_poll_responses) [0 ..< q] c = Inr c1"
    "flooding req k r es (j + q) (Suc m) c1" "length (cl_servers c1) = length (cl_servers c)" by auto
  from flooding_round(1) [OF c1(2)] Suc.prems(2) c1(1,3) show ?case by (auto simp: rfold_append)
qed simp

text \<open>
  A quorum of copies of its response makes one server decide alone, and one copy more than the array has places
  writes behind it.
\<close>

lemma server_floods:
  assumes f: "flooding req k r es 0 m c" and q: "length (cl_servers c) div 2 + 1 \<le> MaxNbServers"
  shows "length (cl_servers c) div 2 + 1 \<le> m \<Longrightarrow>
      \<exists>c1 c2. rfold (\<lambda>_. cl_poll_responses) [0 ..< length (cl_servers c) div 2 + 1] c = Inr c1 \<and> cl_poll c1 = Inr (Some (rs_body r), c2)"
    and "MaxNbServers < m \<Longrightarrow> rfold (\<lambda>_. cl_poll_responses) [0 ..< MaxNbServers + 1] c = Inl Undefined_behaviour"
proof -
  let ?q = "length (cl_servers c) div 2 + 1"
  {
    assume "?q \<le> m"
    then obtain m' where "m = ?q + m'" by (metis le_Suc_ex)
    with flooding_rounds [of req k r es 0 ?q m' c] f q obtain c1 where c1: "rfold (\<lambda>_. cl_poll_responses) [0 ..< ?q] c = Inr c1"
      "flooding req k r es ?q m' c1" "length (cl_servers c1) = length (cl_servers c)" by auto
    have len: "length (cl_servers c) < 10" using q by (simp add: MaxNbServers_def)
    have "unat (of_nat (length (cl_servers c)) div 2 :: u64) = unat (of_nat (length (cl_servers c) div 2) :: u64)"
      using len by (simp add: unat_div unat_u64_of_nat)
    then have "(of_nat (length (cl_servers c)) :: u64) div 2 = of_nat (length (cl_servers c) div 2)" by (simp only: u64_eq_iff)
    then have "(of_nat (length (cl_servers c)) :: u64) div 2 + 1 = of_nat ?q" by simp
    then have "cd_poll (forged req (of_nat (length (cl_servers c1))) r ?q) = Inr (Some (rs_body r))"
      using c1(3) by (simp add: cd_poll_def forged_def cd_new_def add.commute)
    from poll_front [OF _ this] c1(1,2)
    show "\<exists>c1 c2. rfold (\<lambda>_. cl_poll_responses) [0 ..< ?q] c = Inr c1 \<and> cl_poll c1 = Inr (Some (rs_body r), c2)"
      unfolding flooding_def by blast
  }
  assume "MaxNbServers < m"
  then obtain m' where "m = MaxNbServers + Suc m'" by (metis less_iff_Suc_add add_Suc_right)
  with flooding_rounds [of req k r es 0 MaxNbServers "Suc m'" c] f obtain c1 where
    c1: "rfold (\<lambda>_. cl_poll_responses) [0 ..< MaxNbServers] c = Inr c1" "flooding req k r es MaxNbServers (Suc m') c1" by auto
  then show "rfold (\<lambda>_. cl_poll_responses) [0 ..< MaxNbServers + 1] c = Inl Undefined_behaviour"
    using flooding_round(2) [OF c1(2) refl] by (simp add: rfold_append)
qed

end
