(* ===== verification/Toy_Rpc.thy ===== *)
theory Toy_Rpc
  imports Client_Errors Toy_Instances
begin

text \<open>
  Concrete inputs for the properties of the RPC layer: client 2 with one request of one byte, three replicas that
  echo it, and a client of three servers with two requests that have been posted.
\<close>

lemma map_sum_fst: "map_sum id fst r = Inr x \<Longrightarrow> \<exists>y. r = Inr (x, y)"
  by (cases r) auto

section \<open>Ingress\<close>

definition toy_request :: "u64 \<Rightarrow> byte \<Rightarrow> bytes" where
  "toy_request k x = le32 2 @ [0, 0, 0, 0] @ le64 k @ le64 1 @ [x]"

lemma toy_request_ok: "rr_ok (toy_request 0 x)" "rr_id (toy_request 0 x) = 0" "length (toy_request 0 x) = 25"
proof -
  have len: "length (le64 w) = 8" "length (le32 w') = 4" for w w' by (simp_all add: le64_def le32_def)
  show "length (toy_request 0 x) = 25" by (simp add: toy_request_def len)
  have "un64 (le64 1) = 1" "un64 (le64 0) = 0" by code_simp+
  then show "rr_ok (toy_request 0 x)" "rr_id (toy_request 0 x) = 0"
    by (simp_all add: rr_ok_def rr_size_def rr_id_def toy_request_def len RequestHeader_def)
qed

definition toy_echoed :: "client_ingress result" where
  "toy_echoed = rbind (ci_from_follower (toy_request 0 7) 0 (ci_new 2 4 2)) (\<lambda>c.
     rbind (ci_from_client (toy_request 0 7) 3 c) (\<lambda>c.
     rbind (ci_poll_received c) (\<lambda>(_, c). ci_from_follower (toy_request 0 7) 1 c)))"

lemma toy_ingress_polls:
  "map_sum id fst (rbind toy_echoed (ci_poll_proposable True False)) = Inr (Some (toy_request 0 7))"
  "map_sum id fst (rbind (rbind (ci_from_follower (toy_request 0 7) 0 (ci_new 2 4 2)) (ci_from_client (toy_request 0 7) 3))
     ci_poll_received) = Inr (Some (toy_request 0 7))"
  by code_simp+

lemma toy_ingress_run:
  "\<exists>evs c c'. ingress_run cr 2 4 3 evs c \<and> set evs = {Follower_echoed (toy_request 0 7) 0, Client_sent (toy_request 0 7),
     Accepted (toy_request 0 7), Follower_echoed (toy_request 0 7) 1} \<and>
     ci_poll_proposable True False c = Inr (Some (toy_request 0 7), c')"
proof -
  let ?r = "toy_request 0 7"
  obtain c c' where c: "toy_echoed = Inr c" "ci_poll_proposable True False c = Inr (Some ?r, c')"
    using map_sum_fst [OF toy_ingress_polls(1)] by (auto simp: rbind_Inr_iff)
  obtain c1 c2 x c3 where s: "ci_from_follower ?r 0 (ci_new 2 4 2) = Inr c1" "ci_from_client ?r 3 c1 = Inr c2"
    "ci_poll_received c2 = Inr (x, c3)" "ci_from_follower ?r 1 c3 = Inr c"
    using c(1) by (auto simp: toy_echoed_def rbind_Inr_iff)
  have x: "x = Some ?r" using toy_ingress_polls(2) s(1-3) by simp
  have r0: "ingress_run cr 2 4 3 [] (ci_new 2 4 2)" using run_new [of "4 :: u64" "3 :: u64" cr 2] by simp
  have n: "unat (3 :: u64) - 1 = 2" by simp
  note r1 = run_follower [OF r0 toy_request_ok(1) _ s(1), unfolded n, simplified]
  note r2 = run_client [OF r1 toy_request_ok(1) s(2), simplified]
  note r3 = run_received [OF r2 s(3), unfolded x option.case, simplified]
  note r4 = run_follower [OF r3 toy_request_ok(1) _ s(4), unfolded n, simplified]
  show ?thesis using r4 c(2) by (intro exI conjI) auto
qed

text \<open>Signatures of client 2; \<open>toy_request 0 8\<close> is what it signs.\<close>

lemma toy_signatures:
  "client_signed (toy_crypto 1) 2 (toy_request 0 8) (toy_sign 2 (toy_request 0 8))"
  "crypto_verify (toy_crypto 1) (toy_sign 2 (toy_request 0 8)) (toy_request 0 7) 2 = Inr False"
  "length (toy_sign 2 b) = SignatureLength"
proof -
  show "client_signed (toy_crypto 1) 2 (toy_request 0 8) (toy_sign 2 (toy_request 0 8))"
    by (simp add: client_signed_def crypto_verify_def toy_crypto_def)
  show "crypto_verify (toy_crypto 1) (toy_sign 2 (toy_request 0 8)) (toy_request 0 7) 2 = Inr False" by code_simp
  show "length (toy_sign 2 b) = SignatureLength" by (simp add: toy_sign_def SignatureLength_def)
qed

section \<open>Client\<close>

definition toy_posted :: "rpc_client result" where
  "toy_posted = rbind (cl_get_slot (\<lambda>_. 0) 1 (cl_new 9 3 2 1 4)) (\<lambda>c.
     rbind (cl_fill [7] c) (\<lambda>c. rbind (cl_get_slot (\<lambda>_. 0) 1 c) (\<lambda>c. rbind (cl_fill [8] c) cl_post)))"

definition toy_responses :: "(nat \<times> bytes) list" where
  "toy_responses = [(0, le64 0 @ [5, 6, 7]), (1, le64 0 @ [5, 6])]"

lemma toy_client_polls:
  "map_sum id fst (rbind toy_posted (\<lambda>c. rbind (cl_tick (fold (\<lambda>(i, b). hear i b) toy_responses c)) cl_poll)) = Inr (Some [5, 6, 7])"
  by code_simp

lemma toy_client_run:
  "\<exists>c c'. client_run cr 3 toy_responses c \<and> cl_poll c = Inr (Some [5, 6, 7], c')"
proof -
  let ?b0 = "le64 0 @ [5, 6, 7]" let ?b1 = "le64 0 @ [5, 6]"
  obtain c c1 c2 where c: "toy_posted = Inr c" "cl_tick (hear 1 ?b1 (hear 0 ?b0 c)) = Inr c1" "cl_poll c1 = Inr (Some [5, 6, 7], c2)"
    using map_sum_fst [OF toy_client_polls] by (auto simp: rbind_Inr_iff toy_responses_def)
  have r: "client_run cr 3 [] (cl_new 9 3 2 1 4)" by (rule run_client_new) simp_all
  obtain p1 p2 p3 p4 where p: "cl_get_slot (\<lambda>_. 0) 1 (cl_new 9 3 2 1 4) = Inr p1" "cl_fill [7] p1 = Inr p2"
    "cl_get_slot (\<lambda>_. 0) 1 p2 = Inr p3" "cl_fill [8] p3 = Inr p4" "cl_post p4 = Inr c"
    using c(1) unfolding toy_posted_def by (elim rbind_InrE)
  have "client_run cr 3 [] c"
    by (rule run_post [OF run_fill [OF run_slot [OF run_fill [OF run_slot [OF r p(1)] p(2)] p(3)] p(4)] p(5)])
  then have "client_run cr 3 ([] @ [(0, ?b0)]) (hear 0 ?b0 c)" by (rule run_hear) simp
  then have "client_run cr 3 (([] @ [(0, ?b0)]) @ [(1, ?b1)]) (hear 1 ?b1 (hear 0 ?b0 c))" by (rule run_hear) simp
  from run_tick [OF this c(2)] c(3) show ?thesis by (auto simp: toy_responses_def)
qed

definition toy_waiting :: "request_data tail_map \<Rightarrow> bytes list \<Rightarrow> bytes list \<Rightarrow> rpc_client" where
  "toy_waiting ms in0 in1 = (cl_new 9 3 2 1 4)\<lparr>cl_next_request := 2, cl_requests := ms,
     cl_servers := map (\<lambda>bs. \<lparr>pe_next_response = 0, pe_sent = [], pe_sig_sent = [], pe_inbox = bs\<rparr>) [in0, in1, []]\<rparr>"

lemma toy_two_requests:
  "\<exists>ms es. tm_rep ms ((0, cd_new (toy_request 0 7) 3) # es)"
proof -
  have "tm_rep (tm_new 2 :: request_data tail_map) []" using tm_new_rep [of 2] by (simp add: tm_rep_def)
  from tm_rep_try_emplace [OF this, of 0 "cd_new (toy_request 0 7) 3"] show ?thesis
    by (auto simp: tm_new_def tm_kept_def)
qed

lemma toy_response_fits: "length b \<le> 4 \<Longrightarrow> response_fits (toy_waiting ms in0 in1) 0 (le64 0 @ b)"
proof -
  assume b: "length b \<le> 4"
  have len: "length (le64 w) = 8" for w by (simp add: le64_def)
  have "un64 (le64 0) = 0" by code_simp
  moreover have "unat (cl_max_full_response (toy_waiting ms in0 in1)) = 12"
    by (simp add: toy_waiting_def cl_new_def response_buffer_size_def ResponseHeader_def)
  ultimately show ?thesis using b by (simp add: response_fits_def rs_request_id_def len ResponseHeader_def)
qed

lemma forged_zero: "forged req n r 0 = cd_new req n"
  by (simp add: forged_def cd_new_def)

text \<open>A request that was forwarded: its entry is still the last one of the map.\<close>

lemma toy_forwarded:
  "\<exists>c es. leader_run (toy_crypto 1) 3 (toy_request 0 8) (toy_request 0 8 @ toy_sign 2 (toy_request 0 8)) (ci_new 2 4 2) =
      Inr (Some (toy_request 0 8, toy_sign 2 (toy_request 0 8)), c) \<and>
    tm_rep (ci_requests c) es \<and> es \<noteq> [] \<and> fst (last es) = 0 \<and> ci_next_to_forward c = [1, 0]"
  using leader_forwards_other_signature [of 4 "toy_request 0 8" 3 2 "toy_request 0 8" "toy_sign 2 (toy_request 0 8)" "toy_crypto 1" 2]
    toy_request_ok toy_signatures by (auto simp: SignatureLength_def)

end
