(* ===== verification/Rpc_Server.thy ===== *)
theory Rpc_Server
  imports Rpc_Ingress
begin

text \<open>
  The server side of the RPC layer, \<open>rpc/server.hpp\<close>: it takes requests from the connected clients, echoes them
  between leader and followers with a bound on those that were not acknowledged, and answers the clients.

  \<^item> Links are lists: what the receiver at this end will deliver, and what was sent. A message that is longer than
    the buffer it is polled into is written behind it.
  \<^item> The data of a connection is shared by the dynamic connections and by \<open>clients\<close>: \<open>rv_conns\<close> is the store of
    these objects, the others hold positions in it. \<open>rv_dynamic\<close> is what the thread that accepts connections offers.
\<close>

section \<open>State\<close>

record other_server =
  os_outstanding :: u64
  os_request_in :: "bytes list"
  os_sig_in :: "bytes list"
  os_ack_in :: "bytes list"
  os_request_out :: "bytes list"
  os_sig_out :: "bytes list"
  os_ack_out :: "bytes list"

record server_conn =
  co_active :: bool
  co_requests :: "bytes list"
  co_signed :: "bytes list"
  co_sent :: "bytes list"

record rpc_server =
  rv_local :: proc_id
  rv_min_client :: proc_id
  rv_max_request :: u64
  rv_server_window :: u64
  rv_server_ids :: "proc_id list"
  rv_leader :: proc_id
  rv_leader_index :: nat
  rv_slow_path :: bool
  rv_optimistic :: bool
  rv_ticks :: u64
  rv_conns :: "server_conn list"
  rv_dynamic :: "(proc_id \<times> nat) list"
  rv_connections :: "(proc_id \<times> nat) list option"
  rv_clients :: "nat option list"
  rv_ingress :: request_ingress
  rv_servers :: "other_server list"

text \<open>\<open>move_back\<close> of helpers.hpp, and \<open>std::find\<close> as a position.\<close>

definition move_back :: "'a list \<Rightarrow> 'a \<Rightarrow> 'a list" where
  "move_back xs x = (if x \<in> set xs then filter (\<lambda>y. y \<noteq> x) xs @ [x] else xs)"

definition position_of :: "'a \<Rightarrow> 'a list \<Rightarrow> nat" where
  "position_of x xs = length (takeWhile (\<lambda>y. y \<noteq> x) xs)"

text \<open>The constructor; the connections to the other servers are set up elsewhere.\<close>

definition rv_new ::
  "proc_id list \<Rightarrow> proc_id \<Rightarrow> proc_id \<Rightarrow> proc_id \<Rightarrow> u64 \<Rightarrow> u64 \<Rightarrow> u64 \<Rightarrow> proc_id list \<Rightarrow> rpc_server" where
  "rv_new keys local_id min_client max_client window max_request server_window server_ids =
     (let ids = move_back server_ids local_id; first = Min (set ids) in
      \<lparr>rv_local = local_id, rv_min_client = min_client, rv_max_request = max_request, rv_server_window = server_window,
       rv_server_ids = ids, rv_leader = first, rv_leader_index = position_of first ids,
       rv_slow_path = False, rv_optimistic = False, rv_ticks = 0, rv_conns = [], rv_dynamic = [], rv_connections = None,
       rv_clients = replicate (nat (max_client - min_client + 1)) None,
       rv_ingress = ri_new keys min_client max_client window (of_nat (length server_ids)),
       rv_servers = replicate (length (filter (\<lambda>i. i \<noteq> local_id) server_ids))
         \<lparr>os_outstanding = 0, os_request_in = [], os_sig_in = [], os_ack_in = [], os_request_out = [], os_sig_out = [], os_ack_out = []\<rparr>\<rparr>)"

section \<open>Requests of clients\<close>

definition rv_update_connections :: "rpc_server \<Rightarrow> rpc_server" where
  "rv_update_connections s = s\<lparr>rv_connections := Some (rv_dynamic s)\<rparr>"

text \<open>\<open>getClient\<close> is not checked.\<close>

definition rv_client :: "proc_id \<Rightarrow> rpc_server \<Rightarrow> nat option result" where
  "rv_client client_id s =
     (if client_id < rv_min_client s then Inl Undefined_behaviour
      else uat (rv_clients s) (nat (client_id - rv_min_client s)))"

definition rv_know_client :: "proc_id \<Rightarrow> nat \<Rightarrow> rpc_server \<Rightarrow> rpc_server result" where
  "rv_know_client from_id conn s =
     rbind (rv_client from_id s) (\<lambda>known.
     Inr (if known = None then s\<lparr>rv_clients := (rv_clients s)[nat (from_id - rv_min_client s) := Some conn]\<rparr> else s))"

definition rv_handle_request :: "proc_id \<Rightarrow> bytes \<Rightarrow> nat \<Rightarrow> rpc_server \<Rightarrow> rpc_server result" where
  "rv_handle_request from_id request conn s =
     (if from_id \<noteq> rr_client request then Inl (Runtime_error ''Byzantine behavior, received a client request with invalid id.'')
      else rbind (ri_from_client request (rv_ingress s)) (\<lambda>ing. rv_know_client from_id conn (s\<lparr>rv_ingress := ing\<rparr>)))"

definition rv_handle_signed :: "proc_id \<Rightarrow> bytes \<Rightarrow> nat \<Rightarrow> rpc_server \<Rightarrow> rpc_server result" where
  "rv_handle_signed from_id request conn s =
     (if from_id \<noteq> rr_client request then Inl (Runtime_error ''Byzantine behavior, received a signed client request with invalid id.'')
      else rbind (ri_signed_from_client request (rv_ingress s)) (\<lambda>ing. rv_know_client from_id conn (s\<lparr>rv_ingress := ing\<rparr>)))"

definition rv_poll_client :: "proc_id \<times> nat \<Rightarrow> rpc_server \<Rightarrow> rpc_server result" where
  "rv_poll_client pc s =
     rbind (uat (rv_conns s) (snd pc)) (\<lambda>conn.
       if \<not> co_active conn then Inr s
       else case co_requests conn of
         [] \<Rightarrow> Inr s
       | b # rest \<Rightarrow>
           if unat (request_buffer_size (rv_max_request s)) < length b then Inl Undefined_behaviour
           else rbind (rr_try_from b) (\<lambda>request.
             rv_handle_request (fst pc) request (snd pc) (s\<lparr>rv_conns := (rv_conns s)[snd pc := conn\<lparr>co_requests := rest\<rparr>]\<rparr>)))"

definition rv_poll_signed_client :: "proc_id \<times> nat \<Rightarrow> rpc_server \<Rightarrow> rpc_server result" where
  "rv_poll_signed_client pc s =
     rbind (uat (rv_conns s) (snd pc)) (\<lambda>conn.
       if \<not> co_active conn then Inr s
       else case co_signed conn of
         [] \<Rightarrow> Inr s
       | b # rest \<Rightarrow>
           if unat (signed_buffer_size (rv_max_request s)) < length b then Inl Undefined_behaviour
           else rbind (sr_try_from b) (\<lambda>request.
             rv_handle_signed (fst pc) request (snd pc) (s\<lparr>rv_conns := (rv_conns s)[snd pc := conn\<lparr>co_signed := rest\<rparr>]\<rparr>)))"

text \<open>A \<open>DelayedRef\<close> is an option that is read without a test.\<close>

definition rv_poll_client_requests :: "rpc_server \<Rightarrow> rpc_server result" where
  "rv_poll_client_requests s =
     (case rv_connections s of None \<Rightarrow> Inl Undefined_behaviour | Some cs \<Rightarrow> rfold rv_poll_client cs s)"

definition rv_poll_client_signed_requests :: "rpc_server \<Rightarrow> rpc_server result" where
  "rv_poll_client_signed_requests s =
     (case rv_connections s of None \<Rightarrow> Inl Undefined_behaviour | Some cs \<Rightarrow> rfold rv_poll_signed_client cs s)"

section \<open>Echoes\<close>

definition rv_put :: "nat \<Rightarrow> other_server \<Rightarrow> rpc_server \<Rightarrow> rpc_server" where
  "rv_put i srv s = s\<lparr>rv_servers := (rv_servers s)[i := srv]\<rparr>"

text \<open>The acknowledgements that were received; \<open>Ack\<close> is a \<open>size_t\<close> on the stack.\<close>

fun take_acks :: "bytes list \<Rightarrow> u64 \<Rightarrow> (bytes list \<times> u64) result" where
  "take_acks [] out = Inr ([], out)"
| "take_acks (b # bs) out =
     (if 8 < length b then Inl Undefined_behaviour
      else if length b \<noteq> 8 then Inl (Runtime_error ''Byzantine behavior: ack of invalid size.'')
      else if out < un64 b then Inl (Runtime_error ''Byzantine behavior: acked too much.'')
      else take_acks bs (out - un64 b))"

definition rv_acks :: "nat \<Rightarrow> rpc_server \<Rightarrow> rpc_server result" where
  "rv_acks i s =
     rbind (vat (rv_servers s) i) (\<lambda>srv.
       if os_outstanding srv = 0 then Inr s
       else rbind (take_acks (os_ack_in srv) (os_outstanding srv)) (\<lambda>(rest, out).
            Inr (rv_put i (srv\<lparr>os_ack_in := rest, os_outstanding := out\<rparr>) s)))"

text \<open>
  \<open>while (outstanding < server_window)\<close>: each turn adds one, so the first argument, the difference at the start, counts
  the turns that are left.
\<close>

fun rv_forward :: "nat \<Rightarrow> nat \<Rightarrow> rpc_server \<Rightarrow> rpc_server result" where
  "rv_forward 0 i s = Inr s"
| "rv_forward (Suc n) i s =
     rbind (ri_poll_to_forward i (rv_ingress s)) (\<lambda>(to_forward, ing).
       let s1 = s\<lparr>rv_ingress := ing\<rparr> in
       case to_forward of
         None \<Rightarrow> Inr s1
       | Some (request, sig) \<Rightarrow>
           rbind (vat (rv_servers s1) i) (\<lambda>srv.
           rv_forward n i (rv_put i (srv\<lparr>os_sig_out := os_sig_out srv @ [request @ sig], os_outstanding := os_outstanding srv + 1\<rparr>) s1)))"

definition rv_room :: "nat \<Rightarrow> rpc_server \<Rightarrow> nat result" where
  "rv_room i s = rbind (vat (rv_servers s) i) (\<lambda>srv.
     Inr (if os_outstanding srv < rv_server_window s then unat (rv_server_window s - os_outstanding srv) else 0))"

definition rv_echo_to_follower :: "nat \<Rightarrow> rpc_server \<Rightarrow> rpc_server result" where
  "rv_echo_to_follower i s = rbind (rv_acks i s) (\<lambda>s1. rbind (rv_room i s1) (\<lambda>n. rv_forward n i s1))"

definition rv_echo_to_followers :: "rpc_server \<Rightarrow> rpc_server result" where
  "rv_echo_to_followers s = rfold rv_echo_to_follower [0 ..< length (rv_servers s)] s"

fun rv_echo :: "nat \<Rightarrow> nat \<Rightarrow> rpc_server \<Rightarrow> rpc_server result" where
  "rv_echo 0 i s = Inr s"
| "rv_echo (Suc n) i s =
     rbind (ri_poll_to_echo i (rv_ingress s)) (\<lambda>(to_echo, ing).
       let s1 = s\<lparr>rv_ingress := ing\<rparr> in
       case to_echo of
         None \<Rightarrow> Inr s1
       | Some request \<Rightarrow>
           rbind (vat (rv_servers s1) i) (\<lambda>srv.
           rv_echo n i (rv_put i (srv\<lparr>os_request_out := os_request_out srv @ [request], os_outstanding := os_outstanding srv + 1\<rparr>) s1)))"

definition rv_echo_to_leader :: "rpc_server \<Rightarrow> rpc_server result" where
  "rv_echo_to_leader s =
     (let i = rv_leader_index s in rbind (rv_acks i s) (\<lambda>s1. rbind (rv_room i s1) (\<lambda>n. rv_echo n i s1)))"

text \<open>At most three echoes of a server at a time; what was taken is acknowledged.\<close>

definition MaxPolls :: nat where
  "MaxPolls = 3"

fun rv_take_echoes :: "nat \<Rightarrow> nat \<Rightarrow> nat \<Rightarrow> rpc_server \<Rightarrow> (nat \<times> rpc_server) result" where
  "rv_take_echoes 0 polled i s = Inr (polled, s)"
| "rv_take_echoes (Suc n) polled i s =
     rbind (vat (rv_servers s) i) (\<lambda>srv.
       case os_request_in srv of
         [] \<Rightarrow> Inr (polled, s)
       | b # rest \<Rightarrow>
           if unat (request_buffer_size (rv_max_request s)) < length b then Inl Undefined_behaviour
           else rbind (rr_try_from b) (\<lambda>echo.
             rbind (ri_from_follower echo i (rv_ingress s)) (\<lambda>ing.
             rv_take_echoes n (polled + 1) i (rv_put i (srv\<lparr>os_request_in := rest\<rparr>) (s\<lparr>rv_ingress := ing\<rparr>)))))"

fun rv_take_signed :: "nat \<Rightarrow> nat \<Rightarrow> nat \<Rightarrow> rpc_server \<Rightarrow> (nat \<times> rpc_server) result" where
  "rv_take_signed 0 polled i s = Inr (polled, s)"
| "rv_take_signed (Suc n) polled i s =
     rbind (vat (rv_servers s) i) (\<lambda>srv.
       case os_sig_in srv of
         [] \<Rightarrow> Inr (polled, s)
       | b # rest \<Rightarrow>
           if unat (signed_buffer_size (rv_max_request s)) < length b then Inl Undefined_behaviour
           else rbind (sr_try_from b) (\<lambda>echo.
             rbind (ri_from_leader echo (rv_ingress s)) (\<lambda>ing.
             rv_take_signed n (polled + 1) i (rv_put i (srv\<lparr>os_sig_in := rest\<rparr>) (s\<lparr>rv_ingress := ing\<rparr>)))))"

definition rv_ack :: "nat \<Rightarrow> nat \<Rightarrow> rpc_server \<Rightarrow> rpc_server result" where
  "rv_ack i polled s =
     (if polled = 0 then Inr s
      else rbind (vat (rv_servers s) i) (\<lambda>srv. Inr (rv_put i (srv\<lparr>os_ack_out := os_ack_out srv @ [le64 (of_nat polled)]\<rparr>) s)))"

definition rv_poll_follower_echoes :: "rpc_server \<Rightarrow> rpc_server result" where
  "rv_poll_follower_echoes s =
     rfold (\<lambda>i s. rbind (rv_take_echoes MaxPolls 0 i s) (\<lambda>(polled, s'). rv_ack i polled s')) [0 ..< length (rv_servers s)] s"

definition rv_poll_leader_echoes :: "rpc_server \<Rightarrow> rpc_server result" where
  "rv_poll_leader_echoes s =
     (let i = rv_leader_index s in
      rbind (vat (rv_servers s) i) (\<lambda>_. rbind (rv_take_signed MaxPolls 0 i s) (\<lambda>(polled, s'). rv_ack i polled s')))"

section \<open>The interface\<close>

definition rv_tick :: "rpc_server \<Rightarrow> rpc_server result" where
  "rv_tick s0 =
     (let s = (let s1 = s0\<lparr>rv_ticks := rv_ticks s0 + 1\<rparr> in
               if rv_ticks s0 mod 1024 = 0 then rv_update_connections s1 else s1) in
      if \<not> rv_slow_path s then
        rbind (rv_poll_client_requests s) (\<lambda>s2.
          if rv_optimistic s2 then Inr s2
          else if rv_leader s2 = rv_local s2 then rv_poll_follower_echoes s2
          else rv_echo_to_leader s2)
      else
        rbind (rv_poll_client_signed_requests s) (\<lambda>s2.
        rbind (ri_tick (rv_ingress s2)) (\<lambda>ing.
          let s3 = s2\<lparr>rv_ingress := ing\<rparr> in
          if rv_optimistic s3 then Inr s3
          else if rv_leader s3 = rv_local s3 then rv_echo_to_followers s3
          else rv_poll_leader_echoes s3)))"

definition rv_toggle_slow_path :: "bool \<Rightarrow> rpc_server \<Rightarrow> rpc_server" where
  "rv_toggle_slow_path enable s = s\<lparr>rv_slow_path := enable\<rparr>"

definition rv_toggle_optimism :: "bool \<Rightarrow> rpc_server \<Rightarrow> rpc_server" where
  "rv_toggle_optimism optimism s = s\<lparr>rv_optimistic := optimism\<rparr>"

definition rv_poll_received :: "rpc_server \<Rightarrow> (bytes option \<times> rpc_server) result" where
  "rv_poll_received s = rbind (ri_poll_received (rv_ingress s)) (\<lambda>(x, ing). Inr (x, s\<lparr>rv_ingress := ing\<rparr>))"

definition rv_poll_proposable :: "rpc_server \<Rightarrow> (bytes option \<times> rpc_server) result" where
  "rv_poll_proposable s =
     rbind (ri_poll_proposable (\<not> rv_slow_path s) (rv_optimistic s) (rv_ingress s)) (\<lambda>(x, ing). Inr (x, s\<lparr>rv_ingress := ing\<rparr>))"

text \<open>
  \<open>!client->active\<close> tests the shared pointer and not the flag it points to, which is never null: an inactive client is
  answered like any other.
\<close>

definition rv_executed :: "proc_id \<Rightarrow> u64 \<Rightarrow> bytes \<Rightarrow> rpc_server \<Rightarrow> rpc_server result" where
  "rv_executed client_id request_id response s =
     rbind (rv_client client_id s) (\<lambda>client.
       case client of
         None \<Rightarrow> Inr s
       | Some i \<Rightarrow>
           rbind (ri_executed client_id request_id (rv_ingress s)) (\<lambda>ing.
             let s1 = s\<lparr>rv_ingress := ing\<rparr> in
             if rv_local s1 = 3 then Inr s1
             else rbind (uat (rv_conns s1) i) (\<lambda>conn.
               Inr (s1\<lparr>rv_conns := (rv_conns s1)[i := conn\<lparr>co_sent := co_sent conn @ [response_bytes request_id response]\<rparr>]\<rparr>))))"

definition rv_set_leader :: "proc_id \<Rightarrow> rpc_server \<Rightarrow> rpc_server" where
  "rv_set_leader new_leader s =
     s\<lparr>rv_leader := new_leader, rv_leader_index := position_of new_leader (rv_server_ids s)\<rparr>"

end
