(* ===== verification/Server_Safety.thy ===== *)
theory Server_Safety
  imports Rpc_Server "HOL-Library.Sublist"
begin

text \<open>
  Runs of the RPC server, with the messages of the other servers as events, and the invariant behind its flow
  control: what it sent to another server is what is outstanding and what was acknowledged, and what it
  acknowledged is what it took.
\<close>

section \<open>Runs\<close>

datatype server_event = Heard_request nat bytes | Heard_signed nat bytes | Heard_ack nat bytes

definition rv_hear :: "server_event \<Rightarrow> rpc_server \<Rightarrow> rpc_server" where
  "rv_hear e s = (case e of
     Heard_request i b \<Rightarrow> rv_put i ((rv_servers s ! i)\<lparr>os_request_in := os_request_in (rv_servers s ! i) @ [b]\<rparr>) s
   | Heard_signed i b \<Rightarrow> rv_put i ((rv_servers s ! i)\<lparr>os_sig_in := os_sig_in (rv_servers s ! i) @ [b]\<rparr>) s
   | Heard_ack i b \<Rightarrow> rv_put i ((rv_servers s ! i)\<lparr>os_ack_in := os_ack_in (rv_servers s ! i) @ [b]\<rparr>) s)"

text \<open>Clients come and go, and send what they like, at any time.\<close>

inductive server_run :: "u64 \<Rightarrow> nat \<Rightarrow> server_event list \<Rightarrow> rpc_server \<Rightarrow> bool" for w n where
  run_new: "s = rv_new keys local_id min_client max_client window max_request w server_ids \<Longrightarrow> n = length (rv_servers s) \<Longrightarrow>
    server_run w n [] s"
| run_hear: "server_run w n evs s \<Longrightarrow> server_run w n (evs @ [e]) (rv_hear e s)"
| run_clients: "server_run w n evs s \<Longrightarrow> server_run w n evs (s\<lparr>rv_conns := conns, rv_dynamic := dynamic\<rparr>)"
| run_tick: "server_run w n evs s \<Longrightarrow> rv_tick s = Inr s' \<Longrightarrow> server_run w n evs s'"
| run_slow: "server_run w n evs s \<Longrightarrow> server_run w n evs (rv_toggle_slow_path enable s)"
| run_optimism: "server_run w n evs s \<Longrightarrow> server_run w n evs (rv_toggle_optimism optimism s)"
| run_received: "server_run w n evs s \<Longrightarrow> rv_poll_received s = Inr (x, s') \<Longrightarrow> server_run w n evs s'"
| run_proposable: "server_run w n evs s \<Longrightarrow> rv_poll_proposable s = Inr (x, s') \<Longrightarrow> server_run w n evs s'"
| run_executed: "server_run w n evs s \<Longrightarrow> rv_executed client_id request_id response s = Inr s' \<Longrightarrow> server_run w n evs s'"
| run_leader: "server_run w n evs s \<Longrightarrow> server_run w n evs (rv_set_leader new_leader s)"

definition acks_heard :: "nat \<Rightarrow> server_event list \<Rightarrow> bytes list" where
  "acks_heard i evs = concat (map (\<lambda>e. case e of Heard_ack j b \<Rightarrow> if j = i then [b] else [] | _ \<Rightarrow> []) evs)"

definition echoes_heard :: "nat \<Rightarrow> server_event list \<Rightarrow> bytes list" where
  "echoes_heard i evs = concat (map (\<lambda>e. case e of
     Heard_request j b \<Rightarrow> if j = i then [b] else [] | Heard_signed j b \<Rightarrow> if j = i then [b] else [] | Heard_ack j b \<Rightarrow> []) evs)"

lemma heard_append [simp]:
  "acks_heard i [] = []" "echoes_heard i [] = []"
  "acks_heard i (evs @ [e]) = acks_heard i evs @ (case e of Heard_ack j b \<Rightarrow> if j = i then [b] else [] | _ \<Rightarrow> [])"
  "echoes_heard i (evs @ [e]) = echoes_heard i evs @ (case e of
     Heard_request j b \<Rightarrow> if j = i then [b] else [] | Heard_signed j b \<Rightarrow> if j = i then [b] else [] | Heard_ack j b \<Rightarrow> [])"
  by (simp_all add: acks_heard_def echoes_heard_def)

section \<open>The invariant\<close>

definition sum_acks :: "bytes list \<Rightarrow> nat" where
  "sum_acks bs = sum_list (map (\<lambda>b. unat (un64 b)) bs)"

lemma sum_acks_simps [simp]: "sum_acks [] = 0" "sum_acks (b # bs) = unat (un64 b) + sum_acks bs" "sum_acks (as @ bs) = sum_acks as + sum_acks bs"
  by (simp_all add: sum_acks_def)

text \<open>\<open>A\<close> are the acknowledgements heard, \<open>e\<close> is the number of echoes heard, \<open>p\<close> of them were taken but not yet acknowledged.\<close>

definition flow_ok :: "u64 \<Rightarrow> bytes list \<Rightarrow> nat \<Rightarrow> nat \<Rightarrow> other_server \<Rightarrow> bool" where
  "flow_ok w A e p srv \<longleftrightarrow>
     (\<exists>consumed. A = consumed @ os_ack_in srv \<and>
        unat (os_outstanding srv) + sum_acks consumed = length (os_request_out srv) + length (os_sig_out srv)) \<and>
     os_outstanding srv \<le> w \<and>
     sum_acks (os_ack_out srv) + p + length (os_request_in srv) + length (os_sig_in srv) = e"

definition server_ok :: "u64 \<Rightarrow> (nat \<Rightarrow> bytes list) \<Rightarrow> (nat \<Rightarrow> nat) \<Rightarrow> (nat \<Rightarrow> nat) \<Rightarrow> rpc_server \<Rightarrow> bool" where
  "server_ok w A e p s \<longleftrightarrow> rv_server_window s = w \<and>
     (\<forall>i < length (rv_servers s). flow_ok w (A i) (e i) (p i) (rv_servers s ! i))"

lemma server_ok_same:
  "server_ok w A e p s \<Longrightarrow> rv_servers s' = rv_servers s \<Longrightarrow> rv_server_window s' = rv_server_window s \<Longrightarrow> server_ok w A e p s'"
  by (simp add: server_ok_def)

lemma server_ok_put:
  assumes "server_ok w A e p s" "flow_ok w (A i) (e i) q srv"
  shows "server_ok w A e (p(i := q)) (rv_put i srv s)"
  using assms by (auto simp: server_ok_def rv_put_def nth_list_update)

lemma server_ok_flow: "server_ok w A e p s \<Longrightarrow> vat (rv_servers s) i = Inr srv \<Longrightarrow> flow_ok w (A i) (e i) (p i) srv"
  by (auto simp: server_ok_def vat_def split: if_splits)

lemma rv_put_fields [simp]:
  "rv_ingress (rv_put i srv s) = rv_ingress s" "rv_server_window (rv_put i srv s) = rv_server_window s"
  "rv_servers (rv_put i srv s) = (rv_servers s)[i := srv]"
  by (simp_all add: rv_put_def)

section \<open>Acknowledgements and echoes\<close>

lemma take_acks_result:
  "take_acks bs out = Inr (rest, out') \<Longrightarrow> rest = [] \<and> unat out' + sum_acks bs = unat out"
proof (induction bs out rule: take_acks.induct)
  case (2 b bs out)
  then have c: "\<not> out < un64 b" "take_acks bs (out - un64 b) = Inr (rest, out')" "length b = 8" by (auto split: if_splits)
  have "unat (out - un64 b) = unat out - unat (un64 b)" using c(1) by (simp add: unat_sub not_less)
  moreover have "unat (un64 b) \<le> unat out" using c(1) by (simp add: u64_le_iff not_less)
  ultimately show ?case using "2.IH" [OF _ _ c(1,2)] c by auto
qed simp

lemma acks_ok:
  assumes "server_ok w A e p s"
  shows "always (server_ok w A e p) (rv_acks i s)"
  unfolding rv_acks_def
proof (intro always_rbind always_if always_prod)
  fix srv z rest out
  assume srv: "vat (rv_servers s) i = Inr srv" and z: "take_acks (os_ack_in srv) (os_outstanding srv) = Inr z" "z = (rest, out)"
  note t = take_acks_result [OF z(1) [unfolded z(2)]]
  obtain consumed where f: "A i = consumed @ os_ack_in srv"
    "unat (os_outstanding srv) + sum_acks consumed = length (os_request_out srv) + length (os_sig_out srv)"
    "os_outstanding srv \<le> w" "sum_acks (os_ack_out srv) + p i + length (os_request_in srv) + length (os_sig_in srv) = e i"
    using server_ok_flow [OF assms srv] by (auto simp: flow_ok_def)
  have "flow_ok w (A i) (e i) (p i) (srv\<lparr>os_ack_in := rest, os_outstanding := out\<rparr>)"
    using f t by (auto simp: flow_ok_def u64_le_iff)
  from server_ok_put [OF assms this]
  show "always (server_ok w A e p) (Inr (rv_put i (srv\<lparr>os_ack_in := rest, os_outstanding := out\<rparr>) s))" by simp
qed (use assms in simp)

definition room :: "nat \<Rightarrow> nat \<Rightarrow> rpc_server \<Rightarrow> bool" where
  "room n i s \<longleftrightarrow> i < length (rv_servers s) \<longrightarrow> unat (os_outstanding (rv_servers s ! i)) + n \<le> unat (rv_server_window s)"

lemma rv_room_room:
  assumes "rv_room i s = Inr n" "server_ok w A e p s"
  shows "room n i s"
proof -
  obtain srv where srv: "vat (rv_servers s) i = Inr srv"
    and n: "n = (if os_outstanding srv < rv_server_window s then unat (rv_server_window s - os_outstanding srv) else 0)"
    using assms(1) by (auto simp: rv_room_def rbind_Inr_iff)
  then have i: "i < length (rv_servers s)" "srv = rv_servers s ! i" by (auto simp: vat_def split: if_splits)
  have "unat (os_outstanding srv) \<le> unat (rv_server_window s)"
    using server_ok_flow [OF assms(2) srv] assms(2) by (auto simp: flow_ok_def server_ok_def u64_le_iff)
  moreover have "unat (rv_server_window s - os_outstanding srv) = unat (rv_server_window s) - unat (os_outstanding srv)"
    using calculation by (intro unat_sub) (simp add: u64_le_iff)
  ultimately show ?thesis using n i by (simp add: room_def)
qed

text \<open>One more message to server \<open>i\<close>.\<close>

lemma send_ok:
  assumes ok: "server_ok w A e p s" and room: "room (Suc n) i s" and srv: "vat (rv_servers s) i = Inr srv"
    and srv': "os_outstanding srv' = os_outstanding srv + 1" "os_ack_in srv' = os_ack_in srv" "os_ack_out srv' = os_ack_out srv"
      "os_request_in srv' = os_request_in srv" "os_sig_in srv' = os_sig_in srv"
      "length (os_request_out srv') + length (os_sig_out srv') = Suc (length (os_request_out srv) + length (os_sig_out srv))"
  shows "server_ok w A e p (rv_put i srv' s) \<and> room n i (rv_put i srv' s)"
proof -
  have i: "i < length (rv_servers s)" "srv = rv_servers s ! i" using srv by (auto simp: vat_def split: if_splits)
  have le: "unat (os_outstanding srv) + Suc n \<le> unat w" using room i ok by (simp add: room_def server_ok_def)
  then have out: "unat (os_outstanding srv') = Suc (unat (os_outstanding srv))"
    using srv'(1) unat_u64_Suc [of "os_outstanding srv"] unat_u64_less [of w] by (simp del: unat_u64_less)
  have "flow_ok w (A i) (e i) (p i) srv'"
    using server_ok_flow [OF ok srv] srv' out le by (auto simp: flow_ok_def u64_le_iff)
  from server_ok_put [OF ok this] have "server_ok w A e p (rv_put i srv' s)" by simp
  moreover have "room n i (rv_put i srv' s)" using le out i ok by (simp add: room_def server_ok_def)
  ultimately show ?thesis ..
qed

lemma forward_ok: "server_ok w A e p s \<Longrightarrow> room n i s \<Longrightarrow> always (server_ok w A e p) (rv_forward n i s)"
proof (induction n arbitrary: s)
  case (Suc n)
  show ?case
    unfolding rv_forward.simps
  proof (intro always_rbind always_prod always_let always_option)
    fix z to_forward ing s1 assume s1: "s1 = s\<lparr>rv_ingress := ing\<rparr>"
    have ok1: "server_ok w A e p s1" "room (Suc n) i s1" using Suc.prems by (auto simp: s1 server_ok_def room_def)
    then show "always (server_ok w A e p) (Inr s1)" by simp
    fix y request sig srv assume "vat (rv_servers s1) i = Inr srv"
    from send_ok [OF ok1 this] Suc.IH
    show "always (server_ok w A e p)
      (rv_forward n i (rv_put i (srv\<lparr>os_sig_out := os_sig_out srv @ [request @ sig], os_outstanding := os_outstanding srv + 1\<rparr>) s1))"
      by simp
  qed
qed simp

lemma echo_ok: "server_ok w A e p s \<Longrightarrow> room n i s \<Longrightarrow> always (server_ok w A e p) (rv_echo n i s)"
proof (induction n arbitrary: s)
  case (Suc n)
  show ?case
    unfolding rv_echo.simps
  proof (intro always_rbind always_prod always_let always_option)
    fix z to_echo ing s1 assume s1: "s1 = s\<lparr>rv_ingress := ing\<rparr>"
    have ok1: "server_ok w A e p s1" "room (Suc n) i s1" using Suc.prems by (auto simp: s1 server_ok_def room_def)
    then show "always (server_ok w A e p) (Inr s1)" by simp
    fix request srv assume "vat (rv_servers s1) i = Inr srv"
    from send_ok [OF ok1 this] Suc.IH
    show "always (server_ok w A e p)
      (rv_echo n i (rv_put i (srv\<lparr>os_request_out := os_request_out srv @ [request], os_outstanding := os_outstanding srv + 1\<rparr>) s1))"
      by simp
  qed
qed simp

lemma acks_then_send:
  assumes ok: "server_ok w A e p s" and f: "\<And>n s. server_ok w A e p s \<Longrightarrow> room n i s \<Longrightarrow> always (server_ok w A e p) (f n s)"
  shows "always (server_ok w A e p) (rbind (rv_acks i s) (\<lambda>s1. rbind (rv_room i s1) (\<lambda>n. f n s1)))"
proof (rule always_bind [OF acks_ok [OF ok]])
  fix s1 assume s1: "server_ok w A e p s1"
  show "always (server_ok w A e p) (rbind (rv_room i s1) (\<lambda>n. f n s1))"
    using rv_room_room [OF _ s1] f [OF s1] by (intro always_rbind) blast
qed

lemma echo_to_followers_ok: "server_ok w A e p s \<Longrightarrow> always (server_ok w A e p) (rv_echo_to_followers s)"
  unfolding rv_echo_to_followers_def rv_echo_to_follower_def
  by (rule always_rfold) (simp_all add: acks_then_send forward_ok)

lemma echo_to_leader_ok: "server_ok w A e p s \<Longrightarrow> always (server_ok w A e p) (rv_echo_to_leader s)"
  unfolding rv_echo_to_leader_def Let_def by (rule acks_then_send) (simp_all add: echo_ok)

section \<open>Taking echoes\<close>

definition pending :: "nat \<Rightarrow> nat \<Rightarrow> nat \<Rightarrow> nat" where
  "pending i k = (\<lambda>j. if j = i then k else 0)"

lemma pending_simps [simp]: "(pending i k)(i := q) = pending i q" "(pending i k)(i := 0) = (\<lambda>_. 0)" "pending i k i = k" "pending i 0 = (\<lambda>_. 0)"
  by (auto simp: pending_def)

definition taken_ok :: "u64 \<Rightarrow> (nat \<Rightarrow> bytes list) \<Rightarrow> (nat \<Rightarrow> nat) \<Rightarrow> nat \<Rightarrow> nat \<Rightarrow> nat \<times> rpc_server \<Rightarrow> bool" where
  "taken_ok w A e i m z \<longleftrightarrow> fst z \<le> m \<and> server_ok w A e (pending i (fst z)) (snd z)"

lemma take_one_ok:
  assumes ok: "server_ok w A e (pending i k) s" and srv: "vat (rv_servers s) i = Inr srv"
    and srv': "os_outstanding srv' = os_outstanding srv" "os_ack_in srv' = os_ack_in srv" "os_ack_out srv' = os_ack_out srv"
      "os_request_out srv' = os_request_out srv" "os_sig_out srv' = os_sig_out srv"
      "Suc (length (os_request_in srv') + length (os_sig_in srv')) = length (os_request_in srv) + length (os_sig_in srv)"
  shows "server_ok w A e (pending i (Suc k)) (rv_put i srv' (s\<lparr>rv_ingress := ing\<rparr>))"
proof -
  have "flow_ok w (A i) (e i) (Suc k) srv'" using server_ok_flow [OF ok srv] srv' by (auto simp: flow_ok_def)
  moreover have "server_ok w A e (pending i k) (s\<lparr>rv_ingress := ing\<rparr>)" by (rule server_ok_same [OF ok]) simp_all
  ultimately show ?thesis using server_ok_put by fastforce
qed

lemma take_echoes_ok:
  "server_ok w A e (pending i k) s \<Longrightarrow> always (taken_ok w A e i (k + n)) (rv_take_echoes n k i s)"
proof (induction n arbitrary: k s)
  case (Suc n)
  show ?case
    unfolding rv_take_echoes.simps
  proof (intro always_rbind always_list always_if)
    show "always (taken_ok w A e i (k + Suc n)) (Inr (k, s))" using Suc.prems by (simp add: taken_ok_def)
    fix srv b rest echo ing
    assume srv: "vat (rv_servers s) i = Inr srv" "os_request_in srv = b # rest"
    have "server_ok w A e (pending i (Suc k)) (rv_put i (srv\<lparr>os_request_in := rest\<rparr>) (s\<lparr>rv_ingress := ing\<rparr>))"
      by (rule take_one_ok [OF Suc.prems srv(1)]) (simp_all add: srv(2))
    from Suc.IH [OF this]
    show "always (taken_ok w A e i (k + Suc n)) (rv_take_echoes n (k + 1) i (rv_put i (srv\<lparr>os_request_in := rest\<rparr>) (s\<lparr>rv_ingress := ing\<rparr>)))"
      by simp
  qed simp_all
qed (simp add: taken_ok_def)

lemma take_signed_ok:
  "server_ok w A e (pending i k) s \<Longrightarrow> always (taken_ok w A e i (k + n)) (rv_take_signed n k i s)"
proof (induction n arbitrary: k s)
  case (Suc n)
  show ?case
    unfolding rv_take_signed.simps
  proof (intro always_rbind always_list always_if)
    show "always (taken_ok w A e i (k + Suc n)) (Inr (k, s))" using Suc.prems by (simp add: taken_ok_def)
    fix srv b rest echo ing
    assume srv: "vat (rv_servers s) i = Inr srv" "os_sig_in srv = b # rest"
    have "server_ok w A e (pending i (Suc k)) (rv_put i (srv\<lparr>os_sig_in := rest\<rparr>) (s\<lparr>rv_ingress := ing\<rparr>))"
      by (rule take_one_ok [OF Suc.prems srv(1)]) (simp_all add: srv(2))
    from Suc.IH [OF this]
    show "always (taken_ok w A e i (k + Suc n)) (rv_take_signed n (k + 1) i (rv_put i (srv\<lparr>os_sig_in := rest\<rparr>) (s\<lparr>rv_ingress := ing\<rparr>)))"
      by simp
  qed simp_all
qed (simp add: taken_ok_def)

lemma rv_ack_ok:
  assumes "taken_ok w A e i MaxPolls (k, s)"
  shows "always (server_ok w A e (\<lambda>_. 0)) (rv_ack i k s)"
  unfolding rv_ack_def
proof (intro always_if always_rbind)
  have ok: "server_ok w A e (pending i k) s" "k \<le> 3" using assms by (simp_all add: taken_ok_def MaxPolls_def)
  then show "always (server_ok w A e (\<lambda>_. 0)) (Inr s)" if "k = 0" using that by simp
  fix srv assume srv: "vat (rv_servers s) i = Inr srv"
  have "unat (un64 (le64 (of_nat k))) = k" using ok(2) by (simp add: un64_le64 unat_u64_of_nat)
  then have "flow_ok w (A i) (e i) 0 (srv\<lparr>os_ack_out := os_ack_out srv @ [le64 (of_nat k)]\<rparr>)"
    using server_ok_flow [OF ok(1) srv] by (auto simp: flow_ok_def)
  from server_ok_put [OF ok(1) this]
  show "always (server_ok w A e (\<lambda>_. 0)) (Inr (rv_put i (srv\<lparr>os_ack_out := os_ack_out srv @ [le64 (of_nat k)]\<rparr>) s))"
    by simp
qed

lemma take_then_ack:
  assumes "always (taken_ok w A e i MaxPolls) r"
  shows "always (server_ok w A e (\<lambda>_. 0)) (rbind r (\<lambda>(polled, s'). rv_ack i polled s'))"
  using assms rv_ack_ok by (intro always_bind [OF assms]) (auto split: prod.split)

lemma poll_follower_echoes_ok: "server_ok w A e (\<lambda>_. 0) s \<Longrightarrow> always (server_ok w A e (\<lambda>_. 0)) (rv_poll_follower_echoes s)"
  unfolding rv_poll_follower_echoes_def
proof (rule always_rfold)
  fix i s assume "server_ok w A e (\<lambda>_. 0) s"
  then have "server_ok w A e (pending i 0) s" by (simp only: pending_simps)
  from take_echoes_ok [OF this, of MaxPolls]
  show "always (server_ok w A e (\<lambda>_. 0)) (rbind (rv_take_echoes MaxPolls 0 i s) (\<lambda>(polled, s'). rv_ack i polled s'))"
    by (intro take_then_ack) simp
qed

lemma poll_leader_echoes_ok: "server_ok w A e (\<lambda>_. 0) s \<Longrightarrow> always (server_ok w A e (\<lambda>_. 0)) (rv_poll_leader_echoes s)"
  unfolding rv_poll_leader_echoes_def Let_def
proof (rule always_rbind)
  assume "server_ok w A e (\<lambda>_. 0) s"
  then have "server_ok w A e (pending (rv_leader_index s) 0) s" by simp
  from take_signed_ok [OF this, of MaxPolls]
  show "always (server_ok w A e (\<lambda>_. 0)) (rbind (rv_take_signed MaxPolls 0 (rv_leader_index s) s) (\<lambda>(polled, s'). rv_ack (rv_leader_index s) polled s'))"
    by (intro take_then_ack) simp
qed

section \<open>The rest\<close>

definition same_links :: "rpc_server \<Rightarrow> rpc_server \<Rightarrow> bool" where
  "same_links s s' \<longleftrightarrow> rv_servers s' = rv_servers s \<and> rv_server_window s' = rv_server_window s"

lemma know_client_links: "always (same_links s) (rv_know_client from_id conn s)"
  unfolding rv_know_client_def by (intro always_rbind) (simp add: same_links_def)

lemma handle_request_links:
  "always (same_links s) (rv_handle_request from_id request conn s)" "always (same_links s) (rv_handle_signed from_id request conn s)"
proof -
  have "always (same_links s) (rv_know_client from_id conn (s\<lparr>rv_ingress := ing\<rparr>))" for ing
    by (rule always_mono [OF know_client_links]) (simp add: same_links_def)
  then show "always (same_links s) (rv_handle_request from_id request conn s)" "always (same_links s) (rv_handle_signed from_id request conn s)"
    unfolding rv_handle_request_def rv_handle_signed_def by (intro always_if always_rbind; simp)+
qed

lemma poll_client_links: "always (same_links s) (rv_poll_client pc s)" "always (same_links s) (rv_poll_signed_client pc s)"
proof -
  have "always (same_links s) (rv_handle_request from_id request conn (s\<lparr>rv_conns := conns\<rparr>))"
    "always (same_links s) (rv_handle_signed from_id request conn (s\<lparr>rv_conns := conns\<rparr>))" for from_id request conn conns
    by (rule always_mono [OF handle_request_links(1)], simp add: same_links_def)
      (rule always_mono [OF handle_request_links(2)], simp add: same_links_def)
  moreover have "same_links s s" by (simp add: same_links_def)
  ultimately show "always (same_links s) (rv_poll_client pc s)" "always (same_links s) (rv_poll_signed_client pc s)"
    unfolding rv_poll_client_def rv_poll_signed_client_def by (intro always_rbind always_if always_list; simp)+
qed

lemma server_ok_links: "server_ok w A e p s \<Longrightarrow> same_links s s' \<Longrightarrow> server_ok w A e p s'"
  by (simp add: same_links_def server_ok_def)

lemma poll_clients_ok:
  assumes "server_ok w A e p s"
  shows "always (server_ok w A e p) (rv_poll_client_requests s)" "always (server_ok w A e p) (rv_poll_client_signed_requests s)"
proof -
  have "always (server_ok w A e p) (rv_poll_client pc s)" "always (server_ok w A e p) (rv_poll_signed_client pc s)"
    if "server_ok w A e p s" for pc s
    using that by (auto intro: always_mono [OF poll_client_links(1)] always_mono [OF poll_client_links(2)] server_ok_links)
  with assms show "always (server_ok w A e p) (rv_poll_client_requests s)" "always (server_ok w A e p) (rv_poll_client_signed_requests s)"
    unfolding rv_poll_client_requests_def rv_poll_client_signed_requests_def
    by (auto intro!: always_option always_rfold)
qed

lemma tick_ok:
  assumes "server_ok w A e (\<lambda>_. 0) s0"
  shows "always (server_ok w A e (\<lambda>_. 0)) (rv_tick s0)"
proof -
  let ?ok = "server_ok w A e (\<lambda>_. 0)"
  obtain s where s: "s = (let s1 = s0\<lparr>rv_ticks := rv_ticks s0 + 1\<rparr> in if rv_ticks s0 mod 1024 = 0 then rv_update_connections s1 else s1)" "?ok s"
    using assms by (simp add: Let_def rv_update_connections_def server_ok_def)
  have fast: "always ?ok (if rv_optimistic s2 then Inr s2 else if rv_leader s2 = rv_local s2 then rv_poll_follower_echoes s2 else rv_echo_to_leader s2)"
    if "?ok s2" for s2 using that by (simp add: poll_follower_echoes_ok echo_to_leader_ok)
  have slow: "always ?ok (rbind (ri_tick (rv_ingress s2)) (\<lambda>ing. let s3 = s2\<lparr>rv_ingress := ing\<rparr> in
      if rv_optimistic s3 then Inr s3 else if rv_leader s3 = rv_local s3 then rv_echo_to_followers s3 else rv_poll_leader_echoes s3))"
    if "?ok s2" for s2
  proof (intro always_rbind always_let)
    fix ing s3 assume "s3 = s2\<lparr>rv_ingress := ing\<rparr>"
    then have "?ok s3" using server_ok_same [OF that] by simp
    then show "always ?ok (if rv_optimistic s3 then Inr s3 else if rv_leader s3 = rv_local s3 then rv_echo_to_followers s3 else rv_poll_leader_echoes s3)"
      by (simp add: echo_to_followers_ok poll_leader_echoes_ok)
  qed
  show ?thesis
    unfolding rv_tick_def s(1) [symmetric] Let_def [of s]
    using always_bind [OF poll_clients_ok(1) [OF s(2)] fast] always_bind [OF poll_clients_ok(2) [OF s(2)] slow] by simp
qed

lemma executed_ok: "server_ok w A e p s \<Longrightarrow> always (server_ok w A e p) (rv_executed client_id request_id response s)"
  unfolding rv_executed_def
  by (intro always_rbind always_option always_let always_if) (auto intro: server_ok_same)

lemma hear_ok:
  assumes "server_ok w (\<lambda>i. acks_heard i evs) (\<lambda>i. length (echoes_heard i evs)) (\<lambda>_. 0) s"
  shows "server_ok w (\<lambda>i. acks_heard i (evs @ [ev])) (\<lambda>i. length (echoes_heard i (evs @ [ev]))) (\<lambda>_. 0) (rv_hear ev s)"
  using assms by (cases ev) (auto simp: server_ok_def flow_ok_def rv_hear_def nth_list_update)

theorem server_run_ok:
  "server_run w n evs s \<Longrightarrow> server_ok w (\<lambda>i. acks_heard i evs) (\<lambda>i. length (echoes_heard i evs)) (\<lambda>_. 0) s"
proof (induction rule: server_run.induct)
  case (run_new s keys local_id min_client max_client window max_request server_ids)
  then show ?case by (simp add: server_ok_def flow_ok_def rv_new_def Let_def)
next
  case (run_hear evs s e)
  then show ?case by (intro hear_ok)
next
  case (run_tick evs s s')
  then show ?case using tick_ok by (blast dest: alwaysD)
next
  case (run_executed evs s client_id request_id response s')
  then show ?case using executed_ok by (blast dest: alwaysD)
qed (auto simp: rv_toggle_slow_path_def rv_toggle_optimism_def rv_poll_received_def rv_poll_proposable_def rv_set_leader_def
    rbind_Inr_iff elim!: server_ok_same)

text \<open>
  Two servers: \<open>a\<close> sends to \<open>b\<close>, and hears some of the acknowledgements of \<open>b\<close>. Of what \<open>a\<close> sent, at most a window
  has not been taken by \<open>b\<close>.
\<close>

lemma sum_acks_subseq: "subseq as bs \<Longrightarrow> sum_acks as \<le> sum_acks bs"
  by (induction rule: list_emb.induct) auto

lemma window_of_echoes:
  assumes a: "server_run w n evs a" "i < length (rv_servers a)" and b: "server_run w' n' evs' b" "j < length (rv_servers b)"
    and acks: "subseq (acks_heard i evs) (os_ack_out (rv_servers b ! j))"
  shows "length (os_request_out (rv_servers a ! i)) + length (os_sig_out (rv_servers a ! i)) \<le>
    unat w + (length (echoes_heard j evs') - length (os_request_in (rv_servers b ! j)) - length (os_sig_in (rv_servers b ! j)))"
proof -
  have fa: "flow_ok w (acks_heard i evs) (length (echoes_heard i evs)) 0 (rv_servers a ! i)"
    and fb: "flow_ok w' (acks_heard j evs') (length (echoes_heard j evs')) 0 (rv_servers b ! j)"
    using server_run_ok [OF a(1)] server_run_ok [OF b(1)] a(2) b(2) by (simp_all add: server_ok_def)
  obtain consumed where c: "acks_heard i evs = consumed @ os_ack_in (rv_servers a ! i)"
    "unat (os_outstanding (rv_servers a ! i)) + sum_acks consumed =
      length (os_request_out (rv_servers a ! i)) + length (os_sig_out (rv_servers a ! i))"
    "unat (os_outstanding (rv_servers a ! i)) \<le> unat w"
    using fa by (auto simp: flow_ok_def u64_le_iff)
  have "sum_acks consumed \<le> sum_acks (os_ack_out (rv_servers b ! j))" using sum_acks_subseq [OF acks] c(1) by simp
  moreover have "sum_acks (os_ack_out (rv_servers b ! j)) + length (os_request_in (rv_servers b ! j)) + length (os_sig_in (rv_servers b ! j)) =
      length (echoes_heard j evs')"
    using fb by (simp add: flow_ok_def)
  ultimately show ?thesis using c(2,3) by linarith
qed

section \<open>Clients that come back\<close>

text \<open>
  \<open>clients\<close> remembers the first connection of a client. What a later connection brings is accepted, but answered on
  the first one, active or not.
\<close>

lemma know_client_known: "rv_client from_id s = Inr (Some j) \<Longrightarrow> rv_know_client from_id k s = Inr s"
  by (simp add: rv_know_client_def)

lemma answered_on_first_connection:
  assumes known: "rv_client client_id s = Inr (Some j)" and handled: "rv_handle_request client_id request k s = Inr s1"
    and executed: "rv_executed client_id request_id response s1 = Inr s2" and "rv_local s \<noteq> 3"
  shows "rv_client client_id s1 = Inr (Some j) \<and>
    rv_conns s2 = (rv_conns s)[j := (rv_conns s ! j)\<lparr>co_sent := co_sent (rv_conns s ! j) @ [response_bytes request_id response]\<rparr>]"
proof -
  obtain ing where "rv_know_client client_id k (s\<lparr>rv_ingress := ing\<rparr>) = Inr s1"
    using handled by (auto simp: rv_handle_request_def rbind_Inr_iff split: if_splits)
  moreover have "rv_client client_id (s\<lparr>rv_ingress := ing\<rparr>) = Inr (Some j)" using known by (simp add: rv_client_def cong: if_cong)
  ultimately have s1: "s1 = s\<lparr>rv_ingress := ing\<rparr>" using know_client_known by fastforce
  then have known1: "rv_client client_id s1 = Inr (Some j)" using known by (simp add: rv_client_def cong: if_cong)
  then obtain ing' where "s2 = s1\<lparr>rv_ingress := ing', rv_conns := (rv_conns s1)[j := (rv_conns s1 ! j)\<lparr>co_sent :=
      co_sent (rv_conns s1 ! j) @ [response_bytes request_id response]\<rparr>]\<rparr>"
    using executed assms(4) s1 by (auto simp: rv_executed_def rbind_Inr_iff uat_Inr_iff Let_def)
  with known1 s1 show ?thesis by simp
qed

end
