(* ===== verification/Server_Loop.thy ===== *)
theory Server_Loop
  imports Rpc_Server Consensus
begin

text \<open>
  The server of a replica, \<open>server.hpp\<close>: what the RPC server received goes to the engine, what all replicas echoed is
  proposed in batches, and the requests of decided batches are handed to the application one by one.

  \<^item> The batch that is being executed is its bytes with the offset of the next request; it is gone when the
    iterator is done. \<open>sl_max_batch\<close> is the capacity of \<open>to_propose\<close>.
  \<^item> \<open>slotAvailable()\<close> is always true, as the pool creates a buffer when it has none (see \<open>Buffers\<close>).
  \<^item> Loops over what the RPC server has take fuel; \<open>n\<close> is also the fuel of the engine.
\<close>

record server_loop =
  sl_local :: proc_id
  sl_leader :: proc_id
  sl_rpc :: rpc_server
  sl_engine :: consensus
  sl_max_batch :: nat
  sl_optimistic_rpc :: bool
  sl_next_batch :: u64
  sl_waiting :: "u64 option"
  sl_should_repropose :: bool
  sl_batch :: "(bytes \<times> u64) option"
  sl_pad :: bytes

definition sl_new :: "proc_id \<Rightarrow> proc_id list \<Rightarrow> rpc_server \<Rightarrow> consensus \<Rightarrow> nat \<Rightarrow> bytes \<Rightarrow> server_loop" where
  "sl_new local_id server_ids rpc engine max_batch pad =
     \<lparr>sl_local = local_id, sl_leader = Min (set server_ids), sl_rpc = rpc, sl_engine = engine, sl_max_batch = max_batch,
      sl_optimistic_rpc = False, sl_next_batch = 0, sl_waiting = None, sl_should_repropose = False, sl_batch = None, sl_pad = pad\<rparr>"

section \<open>From the clients to the engine\<close>

fun sl_poll_client_requests :: "nat \<Rightarrow> server_loop \<Rightarrow> server_loop result" where
  "sl_poll_client_requests 0 s = Inl Spins"
| "sl_poll_client_requests (Suc n) s =
     rbind (rv_poll_received (sl_rpc s)) (\<lambda>(opt_request, rpc).
       let s1 = s\<lparr>sl_rpc := rpc\<rparr> in
       case opt_request of
         None \<Rightarrow> Inr s1
       | Some request \<Rightarrow>
           rbind (rr_payload request) (\<lambda>payload.
           rbind (accept_request (rr_client request) (rr_id request) payload (sl_engine s1)) (\<lambda>(_, c).
           sl_poll_client_requests n (s1\<lparr>sl_engine := c\<rparr>))))"

text \<open>The requests to propose, at most \<open>n\<close>.\<close>

fun sl_collect :: "nat \<Rightarrow> rpc_server \<Rightarrow> (bytes list \<times> rpc_server) result" where
  "sl_collect 0 rpc = Inr ([], rpc)"
| "sl_collect (Suc n) rpc =
     rbind (rv_poll_proposable rpc) (\<lambda>(opt_request, rpc').
       case opt_request of
         None \<Rightarrow> Inr ([], rpc')
       | Some request \<Rightarrow> rbind (sl_collect n rpc') (\<lambda>(rs, rpc''). Inr (request # rs, rpc'')))"

text \<open>
  Copying them into the slot of the given size: the iterator moves by what was just written. The bytes between the
  client and the id are those of the buffer.
\<close>

definition sl_copy :: "bytes \<Rightarrow> u64 \<Rightarrow> bytes \<Rightarrow> bytes \<times> u64 \<Rightarrow> (bytes \<times> u64) result" where
  "sl_copy pad size_of_batch request z =
     (if snd z \<ge> size_of_batch then Inl (Logic_error ''Should be able to copy ALL requests.'')
      else rbind (rr_payload request) (\<lambda>payload.
        Inr (fst z @ le32 (rr_client request) @ pad @ le64 (rr_id request) @ le64 (rr_size request) @ payload,
             snd z + request_buffer_size (rr_size request))))"

text \<open>The size of the slot is a \<open>uint32_t\<close>.\<close>

definition sl_batch_size :: "bytes list \<Rightarrow> u64" where
  "sl_batch_size rs = ucast (ucast (sum_list (map (\<lambda>r. request_buffer_size (rr_size r)) rs)) :: 32 word)"

definition sl_fill_batch :: "bytes \<Rightarrow> bytes list \<Rightarrow> bytes result" where
  "sl_fill_batch pad rs =
     rbind (rfold (sl_copy pad (sl_batch_size rs)) rs ([], 0)) (\<lambda>(contents, off).
     if off < sl_batch_size rs then Inl (Logic_error ''The requests should fit perfectly the batch.'') else Inr contents)"

definition sl_propose :: "nat \<Rightarrow> server_loop \<Rightarrow> server_loop result" where
  "sl_propose n s =
     rbind (propose (handle_cb_message n) n (sl_engine s)) (\<lambda>(err, c).
       let s1 = s\<lparr>sl_engine := c\<rparr> in
       if err = No_error then Inr (s1\<lparr>sl_should_repropose := False\<rparr>)
       else if err = Wait_checkpoint then Inr (s1\<lparr>sl_should_repropose := True\<rparr>)
       else Inl (Runtime_error ''Proposing failed: {}''))"

text \<open>\<open>getSlot\<close> tests the size before anything is copied.\<close>

definition sl_poll_proposable :: "nat \<Rightarrow> server_loop \<Rightarrow> server_loop result" where
  "sl_poll_proposable n s =
     rbind (can_propose (sl_engine s)) (\<lambda>can.
       if \<not> can then Inr s
       else rbind (sl_collect (sl_max_batch s) (sl_rpc s)) (\<lambda>(rs, rpc).
         let s1 = s\<lparr>sl_rpc := rpc\<rparr> in
         if rs = [] then Inr s1
         else if max_proposal_size (sl_engine s1) < sl_batch_size rs
              then Inl (Invalid_argument ''Requested size {} > max proposal size {}.'')
         else rbind (sl_fill_batch (sl_pad s1) rs) (\<lambda>contents.
              rbind (get_slot contents (sl_engine s1)) (\<lambda>c. sl_propose n (s1\<lparr>sl_engine := c\<rparr>)))))"

definition sl_tick :: "nat \<Rightarrow> server_loop \<Rightarrow> server_loop result" where
  "sl_tick n s =
     (if sl_waiting s \<noteq> None then Inl (Runtime_error ''Cannot tick before having checkpointed the app state.'')
      else if sl_batch s \<noteq> None then Inl (Runtime_error ''Cannot tick before having fully consummed last batch.'')
      else
        rbind (rv_tick (sl_rpc s)) (\<lambda>rpc.
        rbind (consensus_tick n (sl_engine s)) (\<lambda>c.
        rbind (sl_poll_client_requests n (s\<lparr>sl_rpc := rpc, sl_engine := c\<rparr>)) (\<lambda>s1.
          if sl_leader s1 \<noteq> sl_local s1 then Inr s1
          else if sl_should_repropose s1 then sl_propose n s1
          else sl_poll_proposable n s1))))"

section \<open>From the engine to the application\<close>

text \<open>The next decision becomes the current batch; \<open>False\<close> when there is none.\<close>

definition sl_fetch :: "server_loop \<Rightarrow> (bool \<times> server_loop) result" where
  "sl_fetch s =
     rbind (poll_decision (sl_engine s)) (\<lambda>(decision, c).
       let s1 = s\<lparr>sl_engine := c\<rparr> in
       case decision of
         None \<Rightarrow> Inr (False, s1)
       | Some (inst, batch, cp) \<Rightarrow>
           if sl_next_batch s1 \<noteq> inst then Inl (Logic_error ''Missed a decision and state transfer not implemented.'')
           else Inr (True, s1\<lparr>sl_next_batch := inst + 1, sl_waiting := if cp then Some inst else sl_waiting s1,
                              sl_batch := Some (batch, 0)\<rparr>))"

text \<open>The request is read, and the iterator moved, before \<open>done()\<close> is asked.\<close>

definition sl_next_request :: "server_loop \<Rightarrow> ((request \<times> bool) option \<times> server_loop) result" where
  "sl_next_request s =
     (case sl_batch s of
        None \<Rightarrow> Inl Undefined_behaviour
      | Some (batch, off) \<Rightarrow>
          rbind (rd_request batch (unat off)) (\<lambda>rq.
            let off' = off + request_buffer_size (rq_size rq) in
            Inr (Some (rq, sl_waiting s \<noteq> None),
                 s\<lparr>sl_batch := if off' \<ge> of_nat (length batch) then None else Some (batch, off')\<rparr>)))"

definition sl_poll_to_execute :: "server_loop \<Rightarrow> ((request \<times> bool) option \<times> server_loop) result" where
  "sl_poll_to_execute s =
     (if sl_batch s \<noteq> None then sl_next_request s
      else rbind (sl_fetch s) (\<lambda>(fetched, s1). if fetched then sl_next_request s1 else Inr (None, s1)))"

definition sl_executed :: "request \<Rightarrow> bytes \<Rightarrow> server_loop \<Rightarrow> server_loop result" where
  "sl_executed rq response s =
     rbind (rv_executed (rq_client rq) (rq_id rq) response (sl_rpc s)) (\<lambda>rpc. Inr (s\<lparr>sl_rpc := rpc\<rparr>))"

definition sl_checkpoint_app_state :: "bytes \<Rightarrow> server_loop \<Rightarrow> server_loop result" where
  "sl_checkpoint_app_state state s =
     (case sl_waiting s of
        None \<Rightarrow> Inl (Logic_error ''No checkpoint expected.'')
      | Some inst \<Rightarrow>
          rbind (trigger_checkpoint inst state (sl_engine s)) (\<lambda>c. Inr (s\<lparr>sl_engine := c, sl_waiting := None\<rparr>)))"

definition sl_toggle_slow_path :: "bool \<Rightarrow> server_loop \<Rightarrow> server_loop" where
  "sl_toggle_slow_path enable s =
     s\<lparr>sl_engine := cn_toggle_slow_path enable (sl_engine s), sl_rpc := rv_toggle_slow_path enable (sl_rpc s)\<rparr>"

definition sl_toggle_rpc_optimism :: "bool \<Rightarrow> server_loop \<Rightarrow> server_loop" where
  "sl_toggle_rpc_optimism optimism s =
     s\<lparr>sl_optimistic_rpc := optimism, sl_rpc := rv_toggle_optimism optimism (sl_rpc s)\<rparr>"

end
