(* ===== verification/Server_Execution.thy ===== *)
theory Server_Execution
  imports Server_Loop
begin

text \<open>
  What the application is given to execute: the requests of the decided batches, in the order of the instances. And
  two ways in which it is not: a batch without requests, and a checkpoint in the middle of a batch.
\<close>

section \<open>One request\<close>

definition rq_is :: "request \<Rightarrow> proc_id \<times> u64 \<times> bytes \<Rightarrow> bool" where
  "rq_is rq r \<longleftrightarrow> rq_client rq = fst r \<and> rq_id rq = fst (snd r) \<and> rq_payload rq = Inr (snd (snd r))"

definition batch_ok :: "bytes \<Rightarrow> (proc_id \<times> u64 \<times> bytes) list \<Rightarrow> bool" where
  "batch_ok b rs \<longleftrightarrow> rs \<noteq> [] \<and> length b < 18446744073709551616 \<and> (\<forall>r \<in> set rs. proc_ok (fst r)) \<and>
     (\<exists>pad. length pad = 4 \<and> b = batch_bytes pad rs)"

text \<open>\<open>at_request b pre post off\<close>: the iterator stands behind the requests \<open>pre\<close>.\<close>

definition at_request :: "bytes \<Rightarrow> (proc_id \<times> u64 \<times> bytes) list \<Rightarrow> (proc_id \<times> u64 \<times> bytes) list \<Rightarrow> u64 \<Rightarrow> bool" where
  "at_request b pre post off \<longleftrightarrow> batch_ok b (pre @ post) \<and> post \<noteq> [] \<and>
     (\<exists>pad. length pad = 4 \<and> b = batch_bytes pad (pre @ post) \<and> off = of_nat (length (batch_bytes pad pre)))"

lemma batch_bytes_append [simp]: "batch_bytes pad (rs @ ss) = batch_bytes pad rs @ batch_bytes pad ss"
  by (simp add: batch_bytes_def)

lemma at_first: "batch_ok b rs \<Longrightarrow> at_request b [] rs 0"
  by (auto simp: batch_ok_def at_request_def batch_bytes_def)

lemma next_of_batch:
  assumes "at_request b pre (r # post) off"
  shows "\<exists>rq. rd_request b (unat off) = Inr rq \<and> rq_is rq r \<and>
    (if post = [] then off + request_buffer_size (rq_size rq) \<ge> of_nat (length b)
     else \<not> off + request_buffer_size (rq_size rq) \<ge> of_nat (length b) \<and>
       at_request b (pre @ [r]) post (off + request_buffer_size (rq_size rq)))"
proof -
  obtain pad where pad: "length pad = 4" "b = batch_bytes pad (pre @ r # post)" "off = of_nat (length (batch_bytes pad pre))"
    using assms by (auto simp: at_request_def)
  have ok: "batch_ok b (pre @ r # post)" using assms by (simp add: at_request_def)
  let ?rb = "request_bytes pad r" let ?rq = "request_view r (batch_bytes pad post)"
  have b: "b = batch_bytes pad pre @ ?rb @ batch_bytes pad post" using pad(2) by (simp add: batch_bytes_def)
  have len: "length b < 18446744073709551616" using ok by (simp add: batch_ok_def)
  have lr: "length ?rb = RequestHeader + length (snd (snd r))" by (rule length_request_bytes [OF pad(1)])
  have "unat off = length (batch_bytes pad pre)" using pad(3) b len by (simp add: unat_u64_of_nat)
  moreover have "rd_request b (length (batch_bytes pad pre)) = Inr ?rq"
    unfolding b using ok pad(1) by (intro rd_request_bytes) (auto simp: batch_ok_def)
  ultimately have rd: "rd_request b (unat off) = Inr ?rq" by simp
  have "length (snd (snd r)) < 18446744073709551616" using len b lr by simp
  then have ok_rq: "rq_is ?rq r" using rq_payload_view [of r] by (cases r) (simp add: rq_is_def request_view_def)
  have "request_buffer_size (rq_size ?rq) = of_nat (length ?rb)"
    unfolding lr by (cases r) (simp add: request_view_def request_buffer_size_def)
  then have off: "off + request_buffer_size (rq_size ?rq) = of_nat (length (batch_bytes pad (pre @ [r])))"
    using pad(3) by (simp add: batch_bytes_def)
  have le: "length (batch_bytes pad (pre @ [r])) + length (batch_bytes pad post) = length b" using b by (simp add: batch_bytes_def)
  have cmp: "(of_nat (length b) :: u64) \<le> of_nat (length (batch_bytes pad (pre @ [r]))) \<longleftrightarrow> length (batch_bytes pad post) = 0"
  proof -
    have "unat (of_nat (length b) :: u64) = length b" using len by (rule unat_u64_of_nat)
    moreover have "unat (of_nat (length (batch_bytes pad (pre @ [r]))) :: u64) = length (batch_bytes pad (pre @ [r]))"
      using le len by (intro unat_u64_of_nat) linarith
    ultimately show ?thesis using le by (simp only: u64_le_iff) linarith
  qed
  have nil: "length (batch_bytes pad post) = 0 \<longleftrightarrow> post = []"
    using length_request_bytes [OF pad(1)] by (cases post) (auto simp: batch_bytes_def RequestHeader_def)
  have at: "post \<noteq> [] \<Longrightarrow> at_request b (pre @ [r]) post (off + request_buffer_size (rq_size ?rq))"
    using ok pad off by (auto simp: at_request_def)
  have "if post = [] then off + request_buffer_size (rq_size ?rq) \<ge> of_nat (length b)
     else \<not> off + request_buffer_size (rq_size ?rq) \<ge> of_nat (length b) \<and>
       at_request b (pre @ [r]) post (off + request_buffer_size (rq_size ?rq))"
    using at cmp nil unfolding off by (cases "post = []") (simp_all del: batch_bytes_append)
  with rd ok_rq show ?thesis by blast
qed

section \<open>Runs\<close>

text \<open>
  \<open>ds\<close> are the decisions that were fetched, \<open>xs\<close> the requests that were polled. Everything else the server does is in
  between.
\<close>

inductive execution_run :: "(u64 \<times> bytes) list \<Rightarrow> request list \<Rightarrow> server_loop \<Rightarrow> bool" where
  ex_new: "execution_run [] [] (sl_new local_id server_ids rpc engine max_batch pad)"
| ex_tick: "execution_run ds xs s \<Longrightarrow> sl_tick n s = Inr s' \<Longrightarrow> execution_run ds xs s'"
| ex_executed: "execution_run ds xs s \<Longrightarrow> sl_executed rq response s = Inr s' \<Longrightarrow> execution_run ds xs s'"
| ex_checkpoint: "execution_run ds xs s \<Longrightarrow> sl_checkpoint_app_state state s = Inr s' \<Longrightarrow> execution_run ds xs s'"
| ex_slow: "execution_run ds xs s \<Longrightarrow> execution_run ds xs (sl_toggle_slow_path enable s)"
| ex_optimism: "execution_run ds xs s \<Longrightarrow> execution_run ds xs (sl_toggle_rpc_optimism optimism s)"
| ex_network: "execution_run ds xs s \<Longrightarrow> execution_run ds xs (s\<lparr>sl_rpc := rpc, sl_engine := engine\<rparr>)"
| ex_none: "execution_run ds xs s \<Longrightarrow> sl_poll_to_execute s = Inr (None, s') \<Longrightarrow> execution_run ds xs s'"
| ex_more: "execution_run ds xs s \<Longrightarrow> sl_batch s \<noteq> None \<Longrightarrow> sl_poll_to_execute s = Inr (Some (rq, cp), s') \<Longrightarrow>
    execution_run ds (xs @ [rq]) s'"
| ex_fetch: "execution_run ds xs s \<Longrightarrow> sl_batch s = None \<Longrightarrow> poll_decision (sl_engine s) = Inr (Some (inst, batch, cp'), c) \<Longrightarrow>
    sl_poll_to_execute s = Inr (Some (rq, cp), s') \<Longrightarrow> execution_run (ds @ [(inst, batch)]) (xs @ [rq]) s'"

section \<open>What stays\<close>

definition same_batch :: "server_loop \<Rightarrow> server_loop \<Rightarrow> bool" where
  "same_batch s s' \<longleftrightarrow> sl_batch s' = sl_batch s \<and> sl_next_batch s' = sl_next_batch s"

lemma same_batch_refl [simp]: "same_batch s s"
  by (simp add: same_batch_def)

lemma same_batch_trans: "same_batch s t \<Longrightarrow> same_batch t u \<Longrightarrow> same_batch s u"
  by (simp add: same_batch_def)

lemma same_batch_update [simp]:
  "same_batch s (s'\<lparr>sl_rpc := rpc\<rparr>) = same_batch s s'" "same_batch s (s'\<lparr>sl_engine := c\<rparr>) = same_batch s s'"
  "same_batch s (s'\<lparr>sl_should_repropose := b\<rparr>) = same_batch s s'" "same_batch s (s'\<lparr>sl_waiting := w\<rparr>) = same_batch s s'"
  "same_batch (s\<lparr>sl_rpc := rpc\<rparr>) s' = same_batch s s'" "same_batch (s\<lparr>sl_engine := c\<rparr>) s' = same_batch s s'"
  by (simp_all add: same_batch_def)

lemma client_requests_batch: "always (same_batch s) (sl_poll_client_requests n s)"
proof (induction n arbitrary: s)
  case (Suc n)
  show ?case
    unfolding sl_poll_client_requests.simps
  proof (intro always_rbind always_prod always_let always_option)
    fix z opt rpc s1 assume s1: "s1 = s\<lparr>sl_rpc := rpc\<rparr>"
    then show "always (same_batch s) (Inr s1)" by simp
    fix request payload ok c
    show "always (same_batch s) (sl_poll_client_requests n (s1\<lparr>sl_engine := c\<rparr>))"
      by (rule always_mono [OF Suc.IH]) (simp add: s1)
  qed
qed simp

lemma propose_batch: "always (same_batch s) (sl_propose n s)"
  unfolding sl_propose_def by (intro always_rbind always_prod always_let always_if) simp_all

lemma poll_proposable_batch: "always (same_batch s) (sl_poll_proposable n s)"
  unfolding sl_poll_proposable_def
proof (intro always_rbind always_if always_prod always_let)
  fix can z rs rpc s1 contents c assume s1: "s1 = s\<lparr>sl_rpc := rpc\<rparr>"
  show "always (same_batch s) (sl_propose n (s1\<lparr>sl_engine := c\<rparr>))"
    by (rule always_mono [OF propose_batch]) (simp add: s1)
qed simp_all

lemma tick_batch: "always (same_batch s) (sl_tick n s)"
  unfolding sl_tick_def
proof (intro always_if always_rbind)
  fix rpc c s1 assume "sl_poll_client_requests n (s\<lparr>sl_rpc := rpc, sl_engine := c\<rparr>) = Inr s1"
  from alwaysD [OF client_requests_batch this] have s1: "same_batch s s1" by simp
  then show "always (same_batch s) (Inr s1)" by simp
  show "always (same_batch s) (sl_propose n s1)" "always (same_batch s) (sl_poll_proposable n s1)"
    using s1 by (auto intro: always_mono [OF propose_batch] always_mono [OF poll_proposable_batch] same_batch_trans)
qed simp_all

section \<open>The order of execution\<close>

definition executing :: "(proc_id \<times> u64 \<times> bytes) list list \<Rightarrow> request list \<Rightarrow> server_loop \<Rightarrow> bool" where
  "executing rss xs s \<longleftrightarrow> (case sl_batch s of
     None \<Rightarrow> list_all2 rq_is xs (concat rss)
   | Some (b, off) \<Rightarrow> \<exists>rss' pre post. rss = rss' @ [pre @ post] \<and> at_request b pre post off \<and> list_all2 rq_is xs (concat rss' @ pre))"

lemma next_request_executing:
  assumes "sl_next_request s = Inr (Some (rq, cp), s')" "sl_batch s = Some (b, off)" "at_request b pre post off"
    and "list_all2 rq_is xs (concat rss @ pre)"
  shows "executing (rss @ [pre @ post]) (xs @ [rq]) s'"
proof -
  obtain r post' where post: "post = r # post'" using assms(3) by (cases post) (auto simp: at_request_def)
  note n = next_of_batch [OF assms(3) [unfolded post]]
  have rq: "rd_request b (unat off) = Inr rq"
    and s': "s' = s\<lparr>sl_batch := if of_nat (length b) \<le> off + request_buffer_size (rq_size rq) then None
      else Some (b, off + request_buffer_size (rq_size rq))\<rparr>"
    using assms(1,2) by (auto simp: sl_next_request_def rbind_Inr_iff Let_def)
  then have ok_rq: "rq_is rq r" using n by simp
  show ?thesis
  proof (cases "post' = []")
    case True
    then have "sl_batch s' = None" using n rq s' by simp
    moreover have "list_all2 rq_is (xs @ [rq]) ((concat rss @ pre) @ [r])"
      using list_all2_appendI [OF assms(4), of "[rq]" "[r]"] ok_rq by simp
    ultimately show ?thesis using True post by (simp add: executing_def)
  next
    case False
    then have at: "at_request b (pre @ [r]) post' (off + request_buffer_size (rq_size rq))"
      and "sl_batch s' = Some (b, off + request_buffer_size (rq_size rq))" using n rq s' by (auto split: if_splits)
    moreover have "list_all2 rq_is (xs @ [rq]) (concat rss @ pre @ [r])"
      using ok_rq assms(4) list_all2_appendI [of rq_is xs "concat rss @ pre" "[rq]" "[r]"] by simp
    moreover have "rss @ [pre @ post] = rss @ [(pre @ [r]) @ post']" by (simp add: post)
    ultimately show ?thesis unfolding executing_def by (simp only: option.case prod.case) blast
  qed
qed

lemma fetch_result:
  assumes "sl_fetch s = Inr (True, s1)"
  shows "sl_next_batch s1 = sl_next_batch s + 1 \<and> (\<exists>b cp c. poll_decision (sl_engine s) = Inr (Some (sl_next_batch s, b, cp), c) \<and>
    sl_batch s1 = Some (b, 0))"
proof -
  obtain d c where d: "poll_decision (sl_engine s) = Inr (d, c)"
    using assms by (cases "poll_decision (sl_engine s)") (auto simp: sl_fetch_def)
  show ?thesis
  proof (cases d)
    case (Some x)
    obtain inst b cp where x: "x = (inst, b, cp)" by (cases x)
    show ?thesis using assms d Some x by (cases "sl_next_batch s = inst") (auto simp: sl_fetch_def Let_def)
  qed (use assms d in \<open>simp add: sl_fetch_def Let_def\<close>)
qed

lemma fetch_some:
  assumes "poll_decision (sl_engine s) = Inr (Some (inst, b, cp), c)" "sl_next_batch s = inst"
  shows "\<exists>s1. sl_fetch s = Inr (True, s1) \<and> sl_engine s1 = c \<and> sl_batch s1 = Some (b, 0) \<and> sl_next_batch s1 = inst + 1 \<and>
    sl_waiting s1 = (if cp then Some inst else sl_waiting s)"
  using assms by (simp add: sl_fetch_def Let_def)

lemma fetch_nothing:
  assumes "sl_fetch s = Inr (False, s1)"
  shows "same_batch s s1"
proof -
  obtain d c where d: "poll_decision (sl_engine s) = Inr (d, c)"
    using assms by (cases "poll_decision (sl_engine s)") (auto simp: sl_fetch_def)
  show ?thesis
  proof (cases d)
    case None
    with assms d have "s1 = s\<lparr>sl_engine := c\<rparr>" by (simp add: sl_fetch_def Let_def)
    then show ?thesis by simp
  next
    case (Some x)
    obtain inst b cp where x: "x = (inst, b, cp)" by (cases x)
    show ?thesis using assms d Some x by (cases "sl_next_batch s = inst") (auto simp: sl_fetch_def Let_def)
  qed
qed

lemma poll_none: "sl_poll_to_execute s = Inr (None, s') \<Longrightarrow> same_batch s s'"
  by (auto simp: sl_poll_to_execute_def sl_next_request_def rbind_Inr_iff Let_def fetch_nothing split: if_splits option.splits)

lemma execution_run_ok:
  "execution_run ds xs s \<Longrightarrow> sl_next_batch s = of_nat (length ds) \<and> map fst ds = map of_nat [0 ..< length ds] \<and>
    (\<forall>rss. list_all2 (\<lambda>d rs. batch_ok (snd d) rs) ds rss \<longrightarrow> executing rss xs s)"
proof (induction rule: execution_run.induct)
  case ex_new
  then show ?case by (simp add: sl_new_def executing_def)
next
  case (ex_tick ds xs s n s')
  from alwaysD [OF tick_batch ex_tick.hyps(2)] ex_tick.IH show ?case by (simp add: same_batch_def executing_def)
next
  case (ex_none ds xs s s')
  from poll_none [OF ex_none.hyps(2)] ex_none.IH show ?case by (simp add: same_batch_def executing_def)
next
  case (ex_more ds xs s rq cp s')
  have poll: "sl_next_request s = Inr (Some (rq, cp), s')" using ex_more.hyps(2,3) by (simp add: sl_poll_to_execute_def)
  obtain b off where b: "sl_batch s = Some (b, off)" using ex_more.hyps(2) by auto
  have "sl_next_batch s' = sl_next_batch s" using poll b by (auto simp: sl_next_request_def rbind_Inr_iff Let_def)
  moreover have "executing rss (xs @ [rq]) s'" if "list_all2 (\<lambda>d rs. batch_ok (snd d) rs) ds rss" for rss
  proof -
    have "executing rss xs s" using ex_more.IH that by blast
    then obtain rss' pre post where "rss = rss' @ [pre @ post]" "at_request b pre post off" "list_all2 rq_is xs (concat rss' @ pre)"
      unfolding executing_def b by (simp only: option.case prod.case) blast
    with next_request_executing [OF poll b] show ?thesis by blast
  qed
  ultimately show ?case using ex_more.IH by simp
next
  case (ex_fetch ds xs s inst batch cp' c rq cp s')
  obtain s1 where s1: "sl_fetch s = Inr (True, s1)" "sl_next_request s1 = Inr (Some (rq, cp), s')"
    using ex_fetch.hyps(2,4) by (auto simp: sl_poll_to_execute_def rbind_Inr_iff split: if_splits)
  have inst: "inst = sl_next_batch s" and s1_batch: "sl_batch s1 = Some (batch, 0)" and nb1: "sl_next_batch s1 = inst + 1"
    using fetch_result [OF s1(1)] ex_fetch.hyps(3) by auto
  have "sl_next_batch s' = sl_next_batch s1" using s1(2) s1_batch by (auto simp: sl_next_request_def rbind_Inr_iff Let_def)
  then have nb: "sl_next_batch s' = of_nat (length (ds @ [(inst, batch)]))" using nb1 inst ex_fetch.IH by simp
  have ids: "map fst (ds @ [(inst, batch)]) = map of_nat [0 ..< length (ds @ [(inst, batch)])]"
    using ex_fetch.IH inst by simp
  have "executing rss (xs @ [rq]) s'" if rss: "list_all2 (\<lambda>d rs. batch_ok (snd d) rs) (ds @ [(inst, batch)]) rss" for rss
  proof -
    obtain rss0 rs where r: "rss = rss0 @ [rs]" "list_all2 (\<lambda>d rs. batch_ok (snd d) rs) ds rss0" "batch_ok batch rs"
      using rss by (auto simp: list_all2_append1 list_all2_Cons1)
    have "list_all2 rq_is xs (concat rss0 @ [])" using ex_fetch.IH r(2) ex_fetch.hyps(2) by (simp add: executing_def)
    from next_request_executing [OF s1(2) s1_batch at_first [OF r(3)] this] r(1) show ?thesis by simp
  qed
  with nb ids show ?case by blast
next
  case (ex_executed ds xs s rq response s')
  have "same_batch s s'" using ex_executed.hyps(2) by (auto simp: sl_executed_def rbind_Inr_iff)
  with ex_executed.IH show ?case by (simp add: same_batch_def executing_def)
next
  case (ex_checkpoint ds xs s state s')
  have "same_batch s s'"
    using ex_checkpoint.hyps(2) by (auto simp: sl_checkpoint_app_state_def rbind_Inr_iff split: option.splits)
  with ex_checkpoint.IH show ?case by (simp add: same_batch_def executing_def)
qed (simp_all add: sl_toggle_slow_path_def sl_toggle_rpc_optimism_def executing_def)

lemma executing_prefix: "executing rss xs s \<Longrightarrow> list_all2 rq_is xs (take (length xs) (concat rss)) \<and>
    (sl_batch s = None \<longrightarrow> length xs = length (concat rss))"
proof (cases "sl_batch s")
  case None
  assume "executing rss xs s"
  with None have "list_all2 rq_is xs (concat rss)" by (simp add: executing_def)
  moreover have "length xs = length (concat rss)" using calculation by (rule list_all2_lengthD)
  ultimately show ?thesis by simp
next
  case (Some z)
  assume e: "executing rss xs s"
  obtain b off where "z = (b, off)" by (cases z)
  with Some e obtain rss' pre post where r: "rss = rss' @ [pre @ post]" "list_all2 rq_is xs (concat rss' @ pre)"
    by (auto simp: executing_def)
  have "length xs = length (concat rss' @ pre)" using r(2) by (rule list_all2_lengthD)
  moreover have "concat rss = (concat rss' @ pre) @ post" using r(1) by simp
  ultimately have "take (length xs) (concat rss) = concat rss' @ pre" by (simp del: append_assoc)
  with r(2) Some show ?thesis by simp
qed

section \<open>A batch without requests\<close>

lemma empty_batch_read:
  assumes "poll_decision (sl_engine s) = Inr (Some (sl_next_batch s, [], cp), c)" "sl_batch s = None"
  shows "sl_poll_to_execute s = Inl Undefined_behaviour"
proof -
  have "rd_request [] 0 = Inl Undefined_behaviour" by (simp add: rd_request_def rd32_def slice_def)
  with assms show ?thesis by (simp add: sl_poll_to_execute_def sl_fetch_def Let_def sl_next_request_def)
qed

text \<open>After a view change the new leader itself proposes it, for an instance without a value.\<close>

lemma gap_gets_empty_batch:
  assumes "tm_find vv i = Inr (tm_end vv)" "i \<le> last_instance" "local_state c = Inr st"
  shows "\<exists>c'. fill_slots (Suc n) vv i last_instance c = fill_slots n vv (i + 1) last_instance c' \<and>
    to_propose c' = to_propose c @ [\<lparr>pm_view = at_view st, pm_instance = next_proposal c, pm_data = []\<rparr>]"
proof -
  have "\<not> last_instance < i" using assms(2) by simp
  with assms(1,3) show ?thesis
    by (intro exI [of _ "c\<lparr>to_propose := to_propose c @ [\<lparr>pm_view = at_view st, pm_instance = next_proposal c, pm_data = []\<rparr>],
      next_proposal := next_proposal c + 1\<rparr>"]) (simp add: get_slot_def)
qed

lemma empty_batch_valid: "log_is_valid [] l = Inr True"
  by (simp add: log_is_valid_def batch_loop_def)

section \<open>A checkpoint in the middle of a batch\<close>

lemma checkpoint_after_first:
  assumes d: "poll_decision (sl_engine s) = Inr (Some (sl_next_batch s, b, True), c)" "batch_ok b (r1 # r2 # rs)" "sl_batch s = None"
  shows "\<exists>rq1 s1. sl_poll_to_execute s = Inr (Some (rq1, True), s1) \<and> rq_is rq1 r1 \<and>
    (\<forall>state s2. sl_checkpoint_app_state state s1 = Inr s2 \<longrightarrow>
      (\<exists>rq2 s3. sl_poll_to_execute s2 = Inr (Some (rq2, False), s3) \<and> rq_is rq2 r2))"
proof -
  let ?s = "s\<lparr>sl_engine := c, sl_next_batch := sl_next_batch s + 1, sl_waiting := Some (sl_next_batch s), sl_batch := Some (b, 0)\<rparr>"
  have f: "sl_fetch s = Inr (True, ?s)" using d(1) by (simp add: sl_fetch_def Let_def)
  obtain rq1 where rq1: "rd_request b 0 = Inr rq1" "rq_is rq1 r1" "\<not> of_nat (length b) \<le> request_buffer_size (rq_size rq1)"
    "at_request b [r1] (r2 # rs) (request_buffer_size (rq_size rq1))"
    using next_of_batch [OF at_first [OF d(2)]] by auto
  let ?s1 = "?s\<lparr>sl_batch := Some (b, request_buffer_size (rq_size rq1))\<rparr>"
  have p1: "sl_poll_to_execute s = Inr (Some (rq1, True), ?s1)"
    using f d(3) rq1(1,3) by (simp add: sl_poll_to_execute_def sl_next_request_def Let_def)
  obtain rq2 where rq2: "rd_request b (unat (request_buffer_size (rq_size rq1))) = Inr rq2" "rq_is rq2 r2"
    using next_of_batch [OF rq1(4)] by blast
  have "\<exists>s3. sl_poll_to_execute s2 = Inr (Some (rq2, False), s3)" if "sl_checkpoint_app_state state ?s1 = Inr s2" for state s2
    using that rq2(1) by (auto simp: sl_checkpoint_app_state_def rbind_Inr_iff sl_poll_to_execute_def sl_next_request_def Let_def)
  with p1 rq1(2) rq2(2) show ?thesis by blast
qed

end
