(* ===== verification/Toy_Server.thy ===== *)
theory Toy_Server
  imports Toy_Rpc Server_Safety Server_Execution Toy_Engine
begin

text \<open>
  Concrete inputs for the properties of the servers: replicas 1 and 2 with client 2, and engines that decide a batch of
  two requests.
\<close>

lemma map_sum_value: "map_sum id f r = Inr x \<Longrightarrow> \<exists>y. r = Inr y \<and> f y = x"
  by (cases r) auto

section \<open>Two RPC servers\<close>

definition toy_server :: "proc_id \<Rightarrow> rpc_server" where
  "toy_server local_id = rv_new [] local_id 2 2 4 1 4 [1, 2]"

definition toy_conn :: "bool \<Rightarrow> bytes list \<Rightarrow> server_conn" where
  "toy_conn active bs = \<lparr>co_active = active, co_requests = bs, co_signed = [], co_sent = []\<rparr>"

definition toy_connected :: rpc_server where
  "toy_connected = (toy_server 2)\<lparr>rv_conns := [toy_conn True [toy_request 0 7]], rv_dynamic := [(2, 0)]\<rparr>"

definition toy_echoing :: "rpc_server result" where
  "toy_echoing = rbind (rv_tick toy_connected) (\<lambda>s. rbind (rv_poll_received s) (\<lambda>(_, s). rv_tick s))"

definition toy_acking :: "rpc_server result" where
  "toy_acking = rv_tick (rv_hear (Heard_request 0 (toy_request 0 7)) (toy_server 1))"

lemma toy_servers_value:
  "map_sum id (\<lambda>s. map os_request_out (rv_servers s)) toy_echoing = Inr [[toy_request 0 7]]"
  "map_sum id (\<lambda>s. map (\<lambda>o'. (os_ack_out o', os_request_in o', os_sig_in o')) (rv_servers s)) toy_acking = Inr [([le64 1], [], [])]"
  by code_simp+

lemma toy_server_start: "server_run 4 1 [] (toy_server 1)" "server_run 4 1 [] (toy_server 2)"
  by (rule server_run.run_new [OF toy_server_def], code_simp)+

lemma toy_servers_run:
  "\<exists>a b. server_run 4 1 [] a \<and> server_run 4 1 [Heard_request 0 (toy_request 0 7)] b \<and>
     map os_request_out (rv_servers a) = [[toy_request 0 7]] \<and> length (rv_servers b) = 1 \<and> os_ack_out (rv_servers b ! 0) = [le64 1] \<and>
     os_request_in (rv_servers b ! 0) = [] \<and> os_sig_in (rv_servers b ! 0) = []"
proof -
  obtain a where a: "toy_echoing = Inr a" "map os_request_out (rv_servers a) = [[toy_request 0 7]]"
    using map_sum_value [OF toy_servers_value(1)] by (elim exE conjE) (rule that)
  obtain b where b: "toy_acking = Inr b" "map (\<lambda>o'. (os_ack_out o', os_request_in o', os_sig_in o')) (rv_servers b) = [([le64 1], [], [])]"
    using map_sum_value [OF toy_servers_value(2)] by (elim exE conjE) (rule that)
  have "server_run 4 1 [] toy_connected" unfolding toy_connected_def by (rule server_run.run_clients [OF toy_server_start(2)])
  moreover obtain s1 x s2 where "rv_tick toy_connected = Inr s1" "rv_poll_received s1 = Inr (x, s2)" "rv_tick s2 = Inr a"
    using a(1) by (auto simp: toy_echoing_def rbind_Inr_iff)
  ultimately have ra: "server_run 4 1 [] a" using server_run.run_tick server_run.run_received by blast
  have "server_run 4 1 ([] @ [Heard_request 0 (toy_request 0 7)]) b"
    using server_run.run_tick [OF server_run.run_hear [OF toy_server_start(1)]] b(1) unfolding toy_acking_def by blast
  moreover obtain srv where "rv_servers b = [srv]" "os_ack_out srv = [le64 1]" "os_request_in srv = []" "os_sig_in srv = []"
    using b(2) by auto
  ultimately show ?thesis using ra a(2) by (intro exI [of _ a] exI [of _ b]) simp
qed

text \<open>Client 2 has been here on connection 0 and sends on connection 1.\<close>

definition toy_returning :: rpc_server where
  "toy_returning = (toy_server 1)\<lparr>rv_conns := [toy_conn False [], toy_conn True []], rv_dynamic := [(2, 1)], rv_clients := [Some 0]\<rparr>"

lemma toy_returning_value:
  "rv_client 2 toy_returning = Inr (Some 0)"
  "map_sum id (\<lambda>_. ()) (rbind (rv_handle_request 2 (toy_request 0 7) 1 toy_returning) (rv_executed 2 0 [5])) = Inr ()"
  by code_simp+

section \<open>Engines that decide\<close>

definition toy_two :: "(proc_id \<times> u64 \<times> bytes) list" where
  "toy_two = [(2, 0, [7]), (2, 1, [8])]"

definition toy_batch :: bytes where
  "toy_batch = batch_bytes [0, 0, 0, 0] toy_two"

definition toy_log :: request_log where
  "toy_log = (case log_add_client 2 (log_new 4 1) of Inr (l, _) \<Rightarrow> l | Inl _ \<Rightarrow> log_new 4 1)"

definition toy_decided :: "u64 \<Rightarrow> instance_state" where
  "toy_decided i = \<lparr>is_prepare = \<lparr>pm_view = 0, pm_instance = i, pm_data = toy_batch\<rparr>, fast_committed = toy_bits [True, True, True],
     slow_committed = toy_bits [False, False, False], is_decided = False, certified_prepare = True\<rparr>"

definition toy_deciding :: "u64 \<Rightarrow> consensus" where
  "toy_deciding i = toy_engine\<lparr>instance_states := (case tm_try_emplace (tm_new 4) i (toy_decided i) of Inr (m, _) \<Rightarrow> m | Inl _ \<Rightarrow> tm_new 4),
     next_to_decide := i, cn_request_log := toy_log\<rparr>"

lemma toy_log_decides: "\<exists>l. log_decided toy_batch toy_log = Inr l"
  by (rule case_sum_returns) code_simp

lemma toy_deciding_result:
  assumes "i = 0 \<or> i = 1"
  shows "\<exists>c. poll_decision (toy_deciding i) = Inr (Some (i, toy_batch, i mod 2 = 1), c)"
proof -
  have "unat i + unat (4 :: u64) < 18446744073709551616" using assms by auto
  moreover have "tm_rep (tm_new 4 :: instance_state tail_map) []" using tm_new_rep [of 4] by (simp add: tm_rep_def)
  ultimately obtain m where m: "tm_try_emplace (tm_new 4) i (toy_decided i) = Inr (m, Some (tm_slot 4 i), True)" "tm_rep m [(i, toy_decided i)]"
    using tm_rep_try_emplace [of "tm_new 4" "[]" i "toy_decided i"] by (auto simp: tm_new_def tm_kept_def)
  note one = first_entry [OF m(2)]
  obtain m' where m': "tm_assign m (Some (tm_slot (tm_tail m) i)) ((toy_decided i)\<lparr>is_decided := True\<rparr>) = Inr m'" using one(5) by blast
  have d: "decidable (toy_decided i)" by (simp add: decidable_def toy_decided_def bitset_full_def toy_bits_def)
  obtain l where l: "log_decided toy_batch toy_log = Inr l" using toy_log_decides by blast
  have data: "pm_data (is_prepare (toy_decided i)) = toy_batch" by (simp add: toy_decided_def)
  show ?thesis
    unfolding poll_decision_def toy_deciding_def m(1) by (simp add: one(1,2,4) m' d l data tm_end_def Let_def)
qed

lemma toy_batch_ok: "batch_ok toy_batch toy_two"
proof -
  have "length toy_batch = 50" by code_simp
  then show ?thesis
    unfolding batch_ok_def by (auto simp: toy_two_def proc_ok_def toy_batch_def intro: exI [of _ "[0, 0, 0, 0]"])
qed

definition toy_loop :: "consensus \<Rightarrow> server_loop" where
  "toy_loop engine = sl_new 1 [1, 2] (toy_server 1) engine 4 [0, 0, 0, 0]"

lemma toy_execution: "\<exists>rq s. execution_run [(0, toy_batch)] [rq] s"
proof -
  let ?s = "toy_loop (toy_deciding 0)"
  obtain c where c: "poll_decision (toy_deciding 0) = Inr (Some (0, toy_batch, False), c)" using toy_deciding_result [of 0] by auto
  have start: "execution_run [] [] ?s" "sl_batch ?s = None" "sl_next_batch ?s = 0"
    unfolding toy_loop_def by (rule ex_new) (simp_all add: sl_new_def)
  have "sl_engine ?s = toy_deciding 0" by (simp add: toy_loop_def sl_new_def)
  then obtain s1 where fetch: "sl_fetch ?s = Inr (True, s1)" "sl_batch s1 = Some (toy_batch, 0)"
    using fetch_some [of ?s 0 toy_batch False c] c start(3) by auto
  obtain rq where "rd_request toy_batch (unat (0 :: u64)) = Inr rq"
    using next_of_batch [OF at_first [OF toy_batch_ok, unfolded toy_two_def]] by (elim exE conjE) (rule that)
  then obtain s' cp where "sl_next_request s1 = Inr (Some (rq, cp), s')" using fetch(2) by (simp add: sl_next_request_def Let_def)
  with fetch(1) start(2) have "sl_poll_to_execute ?s = Inr (Some (rq, cp), s')" by (simp add: sl_poll_to_execute_def)
  moreover have "poll_decision (sl_engine ?s) = Inr (Some (0, toy_batch, False), c)" using c by (simp add: toy_loop_def sl_new_def)
  ultimately show ?thesis using ex_fetch [OF start(1,2)] by fastforce
qed

lemma toy_checkpointed: "\<exists>c. trigger_checkpoint 1 [] (toy_deciding 1) = Inr c"
  by (rule case_sum_returns) code_simp

text \<open>A checkpoint does not depend on what a decision changes.\<close>

lemma trigger_checkpoint_cong:
  "local_checkpoint c' = local_checkpoint c \<Longrightarrow> checkpoint_certifier c' = checkpoint_certifier c \<Longrightarrow> cn_window c' = cn_window c \<Longrightarrow>
    trigger_checkpoint i state c = Inr d \<Longrightarrow> \<exists>d'. trigger_checkpoint i state c' = Inr d'"
  by (auto simp: trigger_checkpoint_def Let_def rbind_Inr_iff split: if_splits)

lemma poll_decision_checkpoints:
  assumes "poll_decision c = Inr (Some x, c')"
  shows "local_checkpoint c' = local_checkpoint c \<and> checkpoint_certifier c' = checkpoint_certifier c \<and> cn_window c' = cn_window c"
proof -
  have "always (\<lambda>z. local_checkpoint (snd z) = local_checkpoint c \<and> checkpoint_certifier (snd z) = checkpoint_certifier c \<and>
      cn_window (snd z) = cn_window c) (poll_decision c)"
    unfolding poll_decision_def by (intro always_intros) simp_all
  from alwaysD [OF this assms] show ?thesis by simp
qed

lemma toy_mid_checkpoint:
  assumes "sl_poll_to_execute ((toy_loop (toy_deciding 1))\<lparr>sl_next_batch := 1\<rparr>) = Inr (Some (rq1, True), s1)"
  shows "\<exists>s2. sl_checkpoint_app_state [] s1 = Inr s2"
proof -
  let ?s = "(toy_loop (toy_deciding 1))\<lparr>sl_next_batch := 1\<rparr>"
  obtain c where c: "poll_decision (toy_deciding 1) = Inr (Some (1, toy_batch, True), c)" using toy_deciding_result [of 1] by auto
  have s: "sl_engine ?s = toy_deciding 1" "sl_next_batch ?s = 1" "sl_batch ?s = None" by (simp_all add: toy_loop_def sl_new_def)
  then obtain s0 where s0: "sl_fetch ?s = Inr (True, s0)" "sl_engine s0 = c" "sl_waiting s0 = Some 1"
    using fetch_some [of ?s 1 toy_batch True c] c by auto
  then have "sl_next_request s0 = Inr (Some (rq1, True), s1)" using assms s(3) by (simp add: sl_poll_to_execute_def)
  then have s1: "sl_engine s1 = c" "sl_waiting s1 = Some 1"
    using s0(2,3) by (auto simp: sl_next_request_def rbind_Inr_iff Let_def split: option.splits)
  obtain d where "trigger_checkpoint 1 [] (toy_deciding 1) = Inr d" using toy_checkpointed by blast
  from trigger_checkpoint_cong [OF _ _ _ this, of c] poll_decision_checkpoints [OF c] s1 show ?thesis
    by (auto simp: sl_checkpoint_app_state_def)
qed

end
