(* ===== verification/Spec2Isabelle.thy ===== *)
theory Spec2Isabelle
  imports Toy_Engine Thread_Pool Toy_Replicated Toy_Cb Toy_P2p Toy_Server
begin

text \<open>
  uBFT (src/ubft): Byzantine fault tolerant state machine replication. This library models the core
  of its C++ code and proves what makes it correct, and where it is not.

  \<^bold>\<open>The program.\<close> A replica runs one \<open>Consensus\<close> engine. The leader of a view broadcasts prepares over a
  tail broadcast that only remembers the last messages of a sender. An instance is decided when all
  replicas have sent a fast commit, or, on the slow path, when a majority has broadcast a commit: a
  certificate of the prepare, built by a \<open>Certifier\<close> from the signatures of a majority. Further
  certifiers serve checkpoints of the application, checkpoints of the broadcast, and the states that
  the leader of the next view needs. All memory is bounded: maps and queues keep a tail of their
  entries, buffers come from pools.

  \<^bold>\<open>The theories\<close>, in the order of the layers:
  \<^item> \<open>Ubft_Prelude\<close>: words, the values an operation returns (\<open>'a result\<close>, with an undefined behaviour, an
    exception or an endless loop as a value), sequencing, sorted association lists, the predicate
    \<open>always\<close> and its rules.
  \<^item> \<open>Dynamic_Bitset\<close> (shared/src/dynamic-bitset.hpp), \<open>Tail_Map\<close> (tail-map/, optimistic-find.hpp),
    \<open>Tail_Queue\<close> (tail-queue/), \<open>Buffers\<close> (buffer.hpp), \<open>Bytes\<close> (memory as bytes, little endian).
    The contracts of map and queue are the locales \<open>bounded_map\<close>, \<open>total_bounded_map\<close> and
    \<open>bounded_fifo\<close>, interpreted on both implementations.
  \<^item> \<open>Wire\<close> (certifier/certificate.hpp, share-message.hpp, tail-cb/message.hpp), \<open>Packing\<close>
    (packing.hpp, types.hpp), \<open>Requests\<close> (requests.hpp), \<open>Messages\<close> (messages.hpp,
    broadcast-commit.hpp, serialized-state.hpp, cb-checkpoint.hpp, view-change.hpp): layouts, parsers
    and round trips.
  \<^item> \<open>Certifier\<close> (certifier.hpp), \<open>Certifier_Safety\<close> (its invariant, reachable certifiers, what its
    certificates prove), \<open>Certifier_Config\<close> (what no operation changes, and that
    every operation keeps a certifier sound).
  \<^item> \<open>Consensus_State\<close> (instance-state.hpp, replica-state.hpp), \<open>Consensus\<close> (consensus.hpp),
    \<open>Engine_Invariant\<close> (an invariant of the engine and its preservation by every operation),
    \<open>Engine_Properties\<close> (what follows for runs, and the behaviour of the handlers).
  \<^item> \<open>Thread_Pool\<close> (thread-pool/locking.hpp): the bounded task queues and the pool that serves them; a queue
    that has been cleared is neither queued nor running, and clearing ends.
  \<^item> \<open>Rdma\<close> (conn/src/rc.cpp, posting and polling), \<open>Swmr\<close> (swmr/writer.hpp, reader.hpp, host.hpp):
    single-writer registers in remote memory. \<open>Swmr_Safety\<close> lets the network cards move the bytes of
    requests one by one and gives the invariant of the writer and the host, \<open>Swmr_Reads\<close> that of the reader
    and what a read returns, \<open>Swmr_Init\<close> the constructor; \<open>Toy_Swmr\<close> runs the system on events.
  \<^item> \<open>Replicated_Swmr\<close> (replicated-swmr/writer.hpp, reader.hpp): registers over several hosts;
    \<open>Replicated_Safety\<close>: an invariant of the writer, and majorities. \<open>Replicated_Hosts\<close> joins writer and
    reader with the memories of the hosts, whose bytes move one by one, and shows what a completed write has left
    on the hosts and what a read posted later returns; \<open>Toy_Replicated\<close> runs it on three hosts.
  \<^item> \<open>Tail_Cb\<close> (tail-cb/receiver.hpp, broadcaster.hpp, message.hpp): consistent broadcast. \<open>Cb_Safety\<close> is the
    invariant of a receiver and its preservation by every operation, \<open>Cb_System\<close> receivers that echo to
    each other, with the order of delivery and agreement on the fast path, \<open>Cb_Confusion\<close> a run in which raw
    and hashed echoes are confused, \<open>Cb_Slow\<close> signatures, registers and outstanding reads; \<open>Toy_Cb\<close> has
    the instances.
  \<^item> \<open>P2p\<close> (tail-p2p/receiver.hpp, internal/sync-sender.hpp, async-sender.hpp): point-to-point links that keep the last
    messages. \<open>P2p_Receiver\<close> has the invariant of a receiver whose slots are torn and the order of delivery,
    \<open>P2p_Tail\<close> what is delivered once the sender has stopped, \<open>P2p_Sender\<close> the invariant of the sender and
    its network card, \<open>P2p_Link\<close> both ends together; \<open>Toy_P2p\<close> runs them on events.
  \<^item> \<open>Rpc_Ingress\<close> (rpc/internal/request.hpp, response.hpp, ingress.hpp): requests and their way to the engine.
    \<open>Ingress_Safety\<close> has the invariant of the ingress of a client over all orders of requests, echoes, signatures
    and polls, \<open>Ingress_Errors\<close> two ways in which it fails. \<open>Rpc_Client\<close> (rpc/client.hpp): the client;
    \<open>Client_Safety\<close> shows what a result rests on, \<open>Client_Errors\<close> what it does not; \<open>Toy_Rpc\<close> has instances.
  \<^item> \<open>Rpc_Server\<close> (rpc/server.hpp): requests of clients, echoes between the servers and their backpressure, for which
    \<open>Server_Safety\<close> has the invariant. \<open>Server_Loop\<close> (server.hpp) joins RPC server, engine and application;
    \<open>Server_Execution\<close>: what is executed, and in which order. \<open>Toy_Server\<close> has instances.
  \<^item> \<open>Toy_Instances\<close>, \<open>Toy_Engine\<close>: concrete certifiers, engines and messages for the witnesses.

  \<^bold>\<open>Conventions.\<close> A C++ object is a record, a method a function from the record to the new record (and
  the value it returns). \<open>size_t\<close> and \<open>uint64_t\<close> are 64-bit words that wrap; process ids are
  32-bit signed integers as \<open>int\<close>. Memory nobody wrote is a parameter (\<open>junk\<close>). Signatures and the hash
  are parameters (\<open>crypto\<close>). Network and workers are inboxes, queues of tasks and events that fill or
  run them in any order; loops that wait for them consume a script of such events (\<open>cn_env\<close>). Metrics,
  logging and assertions that only log are left out.

  \<^bold>\<open>Bounds and fuel.\<close> \<open>batch_each\<close> is given two rounds more than the batch has bytes, which is
  enough for every loop that ends because each request takes at least its header. \<open>handle_cb_message\<close>
  takes the depth of the calls (a handler may broadcast, and broadcasting may handle messages) and the
  rounds of the waiting loops; theorems hold for every amount. A loop without an end is the
  value \<open>Spins\<close>.

  \<^bold>\<open>What is proved.\<close> Certificates: sound in every reachable state, with a correct signer. Engine: an
  invariant of all runs; decisions are consecutive, backed by all or by a majority of commits whose
  certificates hold verified signatures of a majority; checkpoints move forward and are verified; prepares are justified; new views keep the latest values;
  broadcasts wait for slack. Formats: round trips. Containers: refinement of their
  abstract counterparts. Registers: a read is fresh; a completed write is in the memory of a majority
  of hosts, and a later read returns it or a newer one. Broadcast: order, and agreement
  on the fast path. Links: order, the contract of the sender, delivery of the tail. RPC: what a proposed request, a
  response, and the echoes in flight rest on; execution follows the decisions. Theorems of kind \<open>error\<close>, \<open>bounds\<close> and
  \<open>termination\<close> also state the defects found: see their texts.

  \<^bold>\<open>Not modelled.\<close> Connections between replicas
  and with clients are represented by what they deliver; the set-up of connections (also of the RPC server and client), the
  connection manager, builders, RDMA wrappers, latency measurements, tests, applications and third-party code are left out as
  they hold no protocol logic.

\<close>

section \<open>Certificates\<close>

text \<open>
  C1: in every state a certifier can reach, whatever the network delivers and in whatever order
  workers run, a certificate returned by \<open>pollCertificate\<close> is valid: a majority of signatures by
  distinct known replicas that verify over (identifier, index, message), the message being the
  one acknowledged under that index. The index grows with every poll.
\<close>

theorem poll_certificate_sound:
  assumes "cf_reach cr ident recv H c" "crypto_ok cr recv" "length recv < 18446744073709551616"
    and "poll_certificate c = Inr (Some cert, c')"
  shows "cert_valid cr ident (length recv) cert \<and> H (cert_index cert) = Some (cert_message cert) \<and>
    fst ` set (cert_shares cert) \<subseteq> set (my_id cr # recv) \<and>
    next_certificate c \<le> cert_index cert \<and> next_certificate c' = cert_index cert + 1"
  using poll_certificate_valid [OF cf_reach_inv [OF assms(1)] assms(2-4)] .

theorem poll_certificate_sound_witness:
  "\<exists>H c cert c'. cf_reach (toy_crypto 1) 9 [2, 3] H c \<and> poll_certificate c = Inr (Some cert, c') \<and>
     cert_valid (toy_crypto 1) 9 2 cert"
proof -
  obtain H c cert c' where r: "cf_reach (toy_crypto 1) 9 [2, 3] H c" "poll_certificate c = Inr (Some cert, c')"
    using toy_poll_some by blast
  have "cert_valid (toy_crypto 1) 9 (length [2, 3 :: proc_id]) cert"
    using poll_certificate_sound [OF r(1) toy_crypto_ok _ r(2)] by simp
  then show ?thesis using r by (auto simp: numeral_2_eq_2)
qed

section \<open>Certificates of other replicas\<close>

text \<open>
  C2: \<open>Certifier::check\<close> is sound: whatever it accepts, by the shortcut through signatures that it
  has already verified or by verifying them, is a valid certificate, if no other message was
  acknowledged under its index.
\<close>

theorem check_accepts_valid_only:
  assumes "cf_reach cr ident recv H c" "crypto_ok cr recv" "length recv + 1 < 18446744073709551616"
    and "length (cert_shares cert) < 18446744073709551616"
    and "\<And>m. H (cert_index cert) = Some m \<Longrightarrow> m = cert_message cert" "certifier_check c cert = Inr True"
  shows "cert_valid cr ident (length recv) cert"
  by (rule check_sound [OF cf_reach_inv [OF assms(1)] assms(2-6)])

theorem check_accepts_valid_only_witness:
  "\<exists>c cert. certifier_check c cert = Inr True \<and> cert_valid (toy_crypto 1) 9 2 cert"
proof -
  obtain H c cert c' where r: "cf_reach (toy_crypto 1) 9 [2, 3] H c" "poll_certificate c = Inr (Some cert, c')"
    using toy_poll_some by blast
  note p = poll_certificate_valid [OF cf_reach_inv [OF r(1)] toy_crypto_ok _ r(2), simplified]
  have check: "certifier_check c cert = Inr True"
    using check_complete [OF cf_reach_inv [OF r(1)], of cert] p by simp
  have few: "length (cert_shares cert) < 18446744073709551616"
    using p by (simp add: cert_valid_def)
  from check_accepts_valid_only [OF r(1) toy_crypto_ok _ few _ check] p check show ?thesis
    by (auto simp: numeral_2_eq_2)
qed

text \<open>
  C3: \<open>Certifier::check\<close> does not verify a signature again that it has seen for the same index, without
  comparing the messages: after a certificate has been polled, \<open>check\<close> accepts its shares for every message.
\<close>

theorem check_ignores_message_of_known_shares:
  assumes "cf_reach cr ident recv H c" "crypto_ok cr recv" "length recv + 1 < 18446744073709551616"
    and "poll_certificate c = Inr (Some cert, c')"
  shows "certifier_check c' (cert\<lparr>cert_message := m\<rparr>) = Inr True"
  by (rule check_ignores_message [OF cf_reach_inv [OF assms(1)] assms(2-4)])

theorem check_ignores_message_of_known_shares_witness:
  "\<exists>c c' cert. poll_certificate c = Inr (Some cert, c') \<and> cert_index cert = 5 \<and>
     certifier_check c' (cert\<lparr>cert_message := [0]\<rparr>) = Inr True \<and> certifier_check c' (cert\<lparr>cert_message := [1]\<rparr>) = Inr True"
proof -
  obtain H c cert c' where r: "cf_reach (toy_crypto 1) 9 [2, 3] H c" "poll_certificate c = Inr (Some cert, c')"
    "cert_index cert = 5"
    using toy_poll_some by blast
  from check_ignores_message_of_known_shares [OF r(1) toy_crypto_ok _ r(2)] r show ?thesis by auto
qed

section \<open>The consensus engine\<close>

text \<open>
  C4: the engine starts with the invariant \<open>cn_inv\<close> of theory \<open>Engine_Invariant\<close> and no call, message or
  worker breaks it, whatever Byzantine replicas send: the two sets of committers of every instance
  only name replicas, a slow commit of another replica is backed by a prepare certificate for that
  instance that \<open>Certifier::check\<close> accepted, the commits of a replica are a map, and no replica is ahead of the
  certified checkpoint.
\<close>

theorem engine_invariant:
  fixes receivers :: "proc_id list"
  assumes "window \<noteq> 0" "length receivers + 1 < 18446744073709551616"
    and "c = consensus_new tail receivers prepare vcs cp cbs me window mrs mbs cw junk" "cn_run c ds d"
  shows "cn_inv (engine_after ds (engine_new c)) 0 d"
  by (rule cn_run_inv [OF assms(4) consensus_new_inv [OF assms(1-3)]])

theorem engine_invariant_witness:
  "cn_inv (engine_new toy_engine) 0 (cn_toggle_slow_path True toy_engine)"
proof -
  have "cn_apply 1 (Call_toggle_slow_path True) toy_engine = Inr ([], cn_toggle_slow_path True toy_engine)" by simp
  from cn_run_step [OF cn_run_refl this] have "cn_run toy_engine [] (cn_toggle_slow_path True toy_engine)" by simp
  from engine_invariant [OF _ _ toy_node_def this] show ?thesis by simp
qed

text \<open>
  C5: the instances that successive calls of \<open>pollDecision\<close> return are consecutive numbers starting
  with \<open>next_to_decide\<close>, whatever calls, messages and events come in between.
\<close>

theorem decisions_in_order:
  assumes "cn_run c ds d" "cn_inv e low c"
  shows "ds = map (\<lambda>k. ec_next e + of_nat k) [0 ..< length ds] \<and> next_to_decide d = ec_next e + of_nat (length ds)"
  using run_decisions [OF assms] cn_run_inv [OF assms] by (simp add: cn_inv_def shape_ok_def engine_after_next)

theorem decisions_in_order_witness:
  "\<exists>d. cn_run (toy_with (toy_data [True, True, True] [False, False, False])) [0] d \<and> next_to_decide d = 1"
proof -
  let ?c = "toy_with (toy_data [True, True, True] [False, False, False])"
  obtain d where "cn_apply 1 Call_poll_decision ?c = Inr ([0], d)" by (simp add: toy_decision)
  from cn_run_step [OF cn_run_refl this] have r: "cn_run ?c [0] d" by simp
  from decisions_in_order [OF r toy_with_inv] r show ?thesis by (auto simp: engine_new_def)
qed

text \<open>
  C6: what \<open>pollDecision\<close> returns is the next instance in order, with the batch of the prepare that
  the engine holds for it in \<open>instance_states\<close>, undecided so far, and either every replica has fast
  committed this entry or more than half of the replicas have committed it. If any of these is
  another replica than the engine's own, there is a certificate for the instance: a quorum of
  signatures of distinct known replicas that verify, each over the hash of a message under an index of the
  instance. (With a scheme in which only what was signed verifies, so many replicas have signed it.)
  The engine is one whose prepare certifier was sound when it was built; every certifier is that
  comes from its constructor.
\<close>

theorem decision_needs_commits:
  assumes "cn_inv e low c" "ec_sound e" "ec_config e = (cr, ident, recv)"
    and "crypto_ok cr recv" "length recv + 1 < 18446744073709551616"
    and "poll_decision c = Inr (Some (inst, batch, flag), c')"
  shows "inst = ec_next e \<and> (\<exists>d. tm_lookup (instance_states c) inst = Inr (Some d) \<and>
    instance_inv (ec_replicas e) d \<and> pm_instance (is_prepare d) = inst \<and>
    pm_data (is_prepare d) = batch \<and> is_decided d = False \<and>
    (bitset_elems (fast_committed d) = {..<ec_replicas e} \<or>
     ec_replicas e < 2 * card (bitset_elems (slow_committed d)) \<and>
     (bitset_elems (slow_committed d) \<subseteq> {ec_local e} \<or>
      (\<exists>cert. quorum_certificate cr ident (length recv) inst cert))))"
proof -
  obtain d where d: "inst = ec_next e" "tm_lookup (instance_states c) inst = Inr (Some d)" "instance_ok e inst d"
    "pm_data (is_prepare d) = batch" "\<not> is_decided d" "bitset_elems (fast_committed d) = {..<ec_replicas e} \<or>
      ec_replicas e < 2 * card (bitset_elems (slow_committed d))"
    using decision_backed [OF assms(1,6)] by blast
  then have "bitset_elems (slow_committed d) \<subseteq> {ec_local e} \<or> commit_backed e inst"
    by (auto simp: instance_ok_def)
  with d commit_backed_quorum [OF _ assms(2-5)] show ?thesis by (auto simp: instance_ok_def)
qed

theorem decision_needs_commits_witness:
  "poll_decision (toy_with (toy_data [False, False, False] [True, False, True])) =
     Inr (Some (0, [], False), toy_after_poll (toy_data [False, False, False] [True, False, True])) \<and>
   (\<exists>cert. quorum_certificate (toy_crypto 1) 9 2 0 cert)"
proof -
  let ?d = "toy_data [False, False, False] [True, False, True]"
  have len: "length [2, 3 :: proc_id] + 1 < 18446744073709551616" and two: "length [2, 3 :: proc_id] = 2" by simp_all
  obtain d where d: "tm_lookup (instance_states (toy_with ?d)) 0 = Inr (Some d)"
    "bitset_elems (fast_committed d) = {..<3} \<or> bitset_elems (slow_committed d) \<subseteq> {2} \<or>
     (\<exists>cert. quorum_certificate (toy_crypto 1) 9 2 0 cert)"
    using decision_needs_commits [OF toy_with_inv toy_engine_sound toy_engine_config toy_engine_crypto len
        toy_slow_decision [of False False False]]
    unfolding toy_engine_shape two by blast
  have "d = ?d" using d(1) unfolding toy_with_lookup by simp
  then have "bitset_elems (fast_committed d) = {}" "0 \<in> bitset_elems (slow_committed d)"
    by (simp_all add: toy_bits_elems)
  moreover have "{..<3::nat} \<noteq> {}" by (simp add: lessThan_empty_iff)
  ultimately show ?thesis using d(2) toy_slow_decision by auto
qed

text \<open>
  C7: along every run the lower bound of the certified checkpoint only grows, and it bounds the
  checkpoints of all replica states.
\<close>

theorem checkpoints_never_go_back:
  assumes "cn_run c ds d" "cn_inv e low c"
  shows "\<exists>a b. certified_checkpoint c = Inr a \<and> certified_checkpoint d = Inr b \<and> cp_low a \<le> cp_low b \<and>
    (\<forall>s \<in> set (replica_states d). cp_low (rs_checkpoint s) \<le> cp_low b)"
  by (rule run_checkpoint_monotone [OF assms])

theorem checkpoints_never_go_back_witness:
  "\<exists>b. certified_checkpoint (cn_toggle_slow_path True toy_engine) = Inr b"
proof -
  have "cn_apply 1 (Call_toggle_slow_path True) toy_engine = Inr ([], cn_toggle_slow_path True toy_engine)" by simp
  from cn_run_step [OF cn_run_refl this] have "cn_run toy_engine [] (cn_toggle_slow_path True toy_engine)" by simp
  from checkpoints_never_go_back [OF this toy_engine_inv] show ?thesis by blast
qed

text \<open>
  C8: \<open>handlePrepare\<close> reports everything else as Byzantine. A prepare that passes comes from the
  leader of its view, matches the view its sender is in, is not behind the sender's last prepare,
  lies within the sender's checkpoint, is for no instance we know and, in a view above 0, carries the
  value the new view allows. It is ignored, or it is for our own view and not behind the certified
  checkpoint, and then accepted.
\<close>

theorem prepare_accepted_if_justified:
  assumes "handle_prepare i p c = Inr c'"
  shows "prepare_justified i p c \<and> (c' = c \<or> accept_prepare i p c = Inr c' \<and>
    (\<exists>s cp. local_state c = Inr s \<and> pm_view p = at_view s \<and> certified_checkpoint c = Inr cp \<and>
       cp_low cp \<le> pm_instance p))"
  by (rule handle_prepare_result [OF assms])

theorem prepare_accepted_if_justified_witness:
  "\<exists>c'. handle_prepare 2 (toy_prepare 0) toy_engine = Inr c' \<and> prepare_justified 2 (toy_prepare 0) toy_engine"
  using toy_prepare_handled prepare_accepted_if_justified by blast

text \<open>
  C9: in a view above 0, if the new-view message of replica \<open>i\<close> determines a value for an instance, then
  \<open>handlePrepare\<close> lets no other value of that replica pass for this instance.
\<close>

theorem prepare_keeps_new_view_value:
  assumes "handle_prepare i p c = Inr c'" "pm_view p \<noteq> 0"
    and "get_state c i = Inr s" "rs_valid_values s = Some (v, vv)" "tm_lookup vv (pm_instance p) = Inr (Some value)"
  shows "pm_data p = value"
  by (rule new_view_value_kept [OF assms])

theorem prepare_keeps_new_view_value_witness:
  "\<exists>c' s. handle_prepare 1 \<lparr>pm_view = 1, pm_instance = 0, pm_data = []\<rparr> toy_early = Inr c' \<and>
     get_state toy_early 1 = Inr s \<and> rs_valid_values s = Some (1, toy_values) \<and>
     pm_data \<lparr>pm_view = 1, pm_instance = 0, pm_data = []\<rparr> = []"
proof -
  let ?p = "\<lparr>pm_view = 1, pm_instance = 0, pm_data = []\<rparr>"
  obtain c' where h: "handle_prepare 1 ?p toy_early = Inr c'" using toy_early_handled by blast
  have s: "get_state toy_early 1 = Inr (toy_state\<lparr>at_view := 1, rs_valid_values := Some (1, toy_values)\<rparr>)"
    by (simp add: get_state_def toy_early_def)
  from prepare_keeps_new_view_value [OF h _ s, of 1 toy_values "[]"] h s toy_values_lookup show ?thesis by simp
qed

text \<open>
  C10: \<open>handleVerifiedCommit\<close> on every branch: no entry for the instance buffers the certificate,
  dropping the oldest beyond the window; a sender that has not committed is added to the set of slow
  committers and nothing else about the instance changes; a sender that already has throws.
\<close>

theorem verified_commit_counted_once:
  assumes "cn_inv e low c" "get_state c i = Inr s" "tm_lookup (instance_states c) (snd (unpack (cert_index cert))) = Inr x"
    and "i < length (buffered_commits c)"
  shows "case x of
      None \<Rightarrow> \<exists>c'. handle_verified_commit i cert c = Inr c' \<and> instance_states c' = instance_states c \<and>
        buffered_commits c' ! i = push_bounded (cn_window c) cert (buffered_commits c ! i)
    | Some d \<Rightarrow>
        if i \<in> bitset_elems (slow_committed d)
        then handle_verified_commit i cert c = Inl (Logic_error ''Should have been detected before.'')
        else \<exists>c' d'. handle_verified_commit i cert c = Inr c' \<and>
          tm_lookup (instance_states c') (snd (unpack (cert_index cert))) = Inr (Some d') \<and>
          bitset_elems (slow_committed d') = insert i (bitset_elems (slow_committed d)) \<and>
          fast_committed d' = fast_committed d \<and> is_prepare d' = is_prepare d"
  by (rule verified_commit_result [OF assms])

theorem verified_commit_counted_once_witness:
  "\<exists>c' d'. handle_verified_commit 0 (toy_cert 9 0 []) (toy_with (toy_data [False, False, False] [False, False, True])) = Inr c' \<and>
     tm_lookup (instance_states c') 0 = Inr (Some d') \<and> bitset_elems (slow_committed d') = {0, 2}"
proof -
  let ?d = "toy_data [False, False, False] [False, False, True]"
  have "get_state (toy_with ?d) 0 = Inr toy_state" "snd (unpack (cert_index (toy_cert 9 0 []))) = 0"
    by (simp_all add: toy_with_def get_state_def unpack_def)
  with verified_commit_counted_once [OF toy_with_inv [of False False False False False True], where i = 0 and s = toy_state and
      cert = "toy_cert 9 0 []" and x = "Some ?d"]
  show ?thesis by (auto simp: toy_with_def toy_bits_elems)
qed

text \<open>
  C11: two certificates that only agree in the instance, whatever their views and messages, have the
  same effect on an instance the engine knows. A commit of an old view thus counts towards the decision on
  the value of the current one.
\<close>

theorem stale_commit_counted:
  assumes "snd (unpack (cert_index cert)) = snd (unpack (cert_index old))"
    and "tm_lookup (instance_states c) (snd (unpack (cert_index cert))) = Inr (Some d)"
  shows "handle_verified_commit i old c = handle_verified_commit i cert c"
  by (rule old_commit_counts [OF assms])

theorem stale_commit_counted_witness:
  "handle_verified_commit 0 (toy_cert 9 (pack 0 0) [1]) (toy_with (toy_data [False, False, False] [False, False, False])) =
     handle_verified_commit 0 (toy_cert 9 (pack 5 0) [2]) (toy_with (toy_data [False, False, False] [False, False, False]))"
  by (rule stale_commit_counted) (simp_all add: toy_with_def unpack_def pack_def)

text \<open>
  C12: a commit that arrives before its prepare is counted as verified when it is buffered and once more
  when \<open>handlePrepare\<close> replays it. With nothing outstanding the counter wraps around, and then, as
  long as there is no other commit under verification, \<open>handleSealView\<close> returns for no number of
  rounds.
\<close>

theorem replayed_commit_blocks_view_change:
  assumes "buffered_commits c ! i = cert # rest" "i < length (buffered_commits c)" "cert_index cert = useful"
    and "tm_lookup (instance_states c) (snd (unpack useful)) = Inr (Some d)"
    and "instance_inv (length (cn_ids c)) d" "i < length (cn_ids c)" "i \<notin> bitset_elems (slow_committed d)"
    and "get_state c i = Inr s" "outstanding s = 0" "\<forall>q \<in> set (commit_tasks c). q = []" "verified_commits c = []"
  shows "\<exists>c' s'. replay_commit useful i c = Inr c' \<and> get_state c' i = Inr s' \<and>
    outstanding s' = 18446744073709551615 \<and> (\<forall>n c''. handle_seal_view n i c' \<noteq> Inr c'')"
proof -
  obtain c' s' where r: "replay_commit useful i c = Inr c'" "get_state c' i = Inr s'"
    "outstanding s' = 18446744073709551615" "commit_tasks c' = commit_tasks c" "verified_commits c' = verified_commits c"
    using replay_counts_again [OF assms(1-9)] by blast
  then have "wait_for_verifications n i c' \<noteq> Inr c''" for n c''
    using wait_never_ends [of c' i s'] assms(10,11) by simp
  then have "handle_seal_view n i c' \<noteq> Inr c''" for n c'' by (auto simp: handle_seal_view_def rbind_Inr_iff)
  with r show ?thesis by blast
qed

theorem replayed_commit_blocks_view_change_witness:
  "\<exists>c'. replay_commit 0 0 ((toy_with (toy_data [False, False, False] [False, False, False]))
       \<lparr>buffered_commits := [[toy_cert 9 0 []], [], []]\<rparr>) = Inr c' \<and> (\<forall>n c''. handle_seal_view n 0 c' \<noteq> Inr c'')"
proof -
  let ?d = "toy_data [False, False, False] [False, False, False]"
  let ?c = "(toy_with ?d)\<lparr>buffered_commits := [[toy_cert 9 0 []], [], []]\<rparr>"
  have "instance_inv (length (cn_ids ?c)) ?d"
    using toy_data_inv [of False False False False False False] by (simp add: toy_with_def eval_nat_numeral)
  then show ?thesis
    using replayed_commit_blocks_view_change [of ?c 0 "toy_cert 9 0 []" "[]" 0 ?d toy_state]
    by (auto simp: toy_with_def get_state_def unpack_def toy_bits_elems)
qed

text \<open>
  C13: \<open>handleCheckpoint\<close> skips the verification of a certificate whose checkpoint is the certified
  one already; but whenever a message of another replica makes it replace the certificate, the new one
  has been verified and its checkpoint is strictly above the old one.
\<close>

theorem adopted_checkpoint_verified:
  assumes "handle_checkpoint i bs c = Inr c'" "i \<noteq> local_index c"
    and "checkpoint_certificate c' \<noteq> checkpoint_certificate c"
  shows "certifier_check (checkpoint_certifier c) (checkpoint_certificate c') = Inr True \<and>
    (\<exists>a b. certified_checkpoint c = Inr a \<and> certified_checkpoint c' = Inr b \<and> cp_low a < cp_low b)"
  by (rule checkpoint_adopted_checked [OF assms])

theorem adopted_checkpoint_verified_witness:
  "\<exists>c'. handle_checkpoint 0 (CheckpointKind # cert_bytes toy_checkpoint_cert) toy_engine = Inr c' \<and>
     certifier_check (checkpoint_certifier toy_engine) (checkpoint_certificate c') = Inr True"
proof -
  obtain c' where h: "handle_checkpoint 0 (CheckpointKind # cert_bytes toy_checkpoint_cert) toy_engine = Inr c'"
    "checkpoint_certificate c' = toy_checkpoint_cert"
    using toy_checkpoint_handled by blast
  have "cert_index (checkpoint_certificate toy_engine) = 0"
    by (simp add: toy_node_def consensus_new_def Let_def genesis_certificate_def cert_build_def)
  moreover have "cert_index (checkpoint_certificate c') = 2" by (simp add: h(2) toy_checkpoint_cert_def)
  ultimately have "checkpoint_certificate c' \<noteq> checkpoint_certificate toy_engine" by auto
  from adopted_checkpoint_verified [OF h(1) _ this] h(1) show ?thesis by auto
qed

text \<open>
  C14: the test of \<open>NewViewMessage\<close> verifies every certificate on its own. If all of them are the same
  valid certificate of one replica, the message is accepted, so a single certified state stands in for
  the quorum the new view needs.
\<close>

theorem one_certificate_is_a_quorum:
  assumes "\<And>j. j \<in> set is \<Longrightarrow> nv_clone_certificate (cn_window c) (max_proposal_size c) (cn_quorum c) bs j = Inr (p, raw)"
    and "cert_try_from raw = Inr (Inr checked)" "cert_parse checked = Inr cert"
    and "map_of (cn_indices c) p = Some k" "k < length (vc_state_certifiers c)"
    and "certifier_check (vc_state_certifiers c ! k) cert = Inr True"
  shows "is_byzantine_new_view is bs c = Inr (False, c)"
  by (rule repeated_certificate_accepted [OF assms])

theorem one_certificate_is_a_quorum_witness:
  "\<exists>bs. build_new_view (replicate 7 0) (replicate 4 0) (\<lambda>_ _. 0) 4 (batch_buffer_size 1 8) 2 0 toy_view_certs = Inr bs \<and>
     map fst toy_view_certs = [2, 2] \<and> is_byzantine_new_view [0, 1] bs toy_engine = Inr (False, toy_engine)"
proof -
  obtain bs where b: "build_new_view (replicate 7 0) (replicate 4 0) (\<lambda>_ _. 0) 4 (batch_buffer_size 1 8) 2 0 toy_view_certs = Inr bs"
    using toy_new_view by blast
  have "is_byzantine_new_view [0, 1] bs toy_engine = Inr (False, toy_engine)"
    by (rule one_certificate_is_a_quorum [OF _ cert_try_from_bytes cert_parse_bytes, where p = 2 and k = 0])
       (use toy_new_view_certificates [OF b] toy_view_cert_ok toy_cert_checked in auto)
  with b show ?thesis by (simp add: toy_view_certs_def)
qed



text \<open>
  C16: if the engine holds the instance it has to decide next, it is decidable, and its batch is the
  bytes of requests of clients that the log knows (numbered below \<open>2 ^ 31\<close>), then \<open>pollDecision\<close> returns it
  with its batch and goes on to the next one. The window must have two instances at least: its half
  is a divisor.
\<close>

theorem decidable_instance_is_decided:
  assumes "tm_rep (instance_states c) es" "map_of es (next_to_decide c) = Some d" "decidable d"
    and "cn_window c div 2 \<noteq> 0"
    and "pm_data (is_prepare d) = batch_bytes pad rs" "length pad = 4"
    and "length (batch_bytes pad rs) < 18446744073709551616"
    and "\<forall>r \<in> set rs. log_knows (cn_request_log c) (fst r)" "length (rl_clients (cn_request_log c)) < 2147483648"
  shows "\<exists>c' flag. poll_decision c = Inr (Some (next_to_decide c, batch_bytes pad rs, flag), c') \<and>
    next_to_decide c' = next_to_decide c + 1"
proof -
  obtain l where "log_decided (pm_data (is_prepare d)) (cn_request_log c) = Inr l"
    using log_decided_known [OF assms(9,6,7,8)] assms(5) by auto
  from poll_decision_progress [OF assms(1-4) this] assms(5) show ?thesis by simp
qed

theorem decidable_instance_is_decided_witness:
  "\<exists>c' flag. poll_decision toy_one_request = Inr (Some (0, batch_bytes [0, 0, 0, 0] [(0, 1, [9])], flag), c') \<and>
    next_to_decide c' = 1"
proof -
  have "\<exists>c' flag. poll_decision toy_one_request =
      Inr (Some (next_to_decide toy_one_request, batch_bytes [0, 0, 0, 0] [(0, 1, [9])], flag), c') \<and>
    next_to_decide c' = next_to_decide toy_one_request + 1"
    by (rule decidable_instance_is_decided [OF toy_one_request_rep toy_one_request_value])
      (simp_all add: toy_one_request_def toy_with_def batch_bytes_def length_request_bytes RequestHeader_def log_knows_def)
  then show ?thesis by (simp add: toy_one_request_def toy_with_def)
qed

text \<open>
  C17: \<open>Certificate::tryFrom\<close> accepts the bytes of a certificate and the accessors read it back;
  conversely, bytes whose accessors read a certificate are exactly its bytes: the format has one
  encoding per certificate.
\<close>

theorem certificate_roundtrip:
  assumes "cert_ok c" "length bs < 18446744073709551616"
  shows "cert_try_from (cert_bytes c) = Inr (Inr (cert_bytes c)) \<and> cert_parse (cert_bytes c) = Inr c \<and>
    (cert_parse bs = Inr c \<longrightarrow> bs = cert_bytes c)"
  using cert_try_from_bytes [OF assms(1)] cert_parse_bytes [OF assms(1)] cert_parse_sound [OF _ assms(2)] by blast

theorem certificate_roundtrip_witness:
  "cert_parse (cert_bytes (toy_cert 9 5 [7])) = Inr (toy_cert 9 5 [7])"
  using certificate_roundtrip [OF toy_cert_ok, of "[7]" "[]" 9 5] by simp

text \<open>
  C18: a follower certifies a batch exactly if it holds every request of the batch, by client,
  identifier and payload.
\<close>

theorem batch_validity:
  assumes "log_rep l R" "length pad = 4" "length (batch_bytes pad rs) < 18446744073709551616"
    and "\<forall>r \<in> set rs. 0 \<le> fst r \<and> fst r < 2147483648"
  shows "log_is_valid (batch_bytes pad rs) l =
    Inr (\<forall>r \<in> set rs. log_lookup R (fst r) (fst (snd r)) = Some (snd (snd r)))"
  by (rule log_is_valid_rep [OF assms])

theorem batch_validity_witness:
  "\<exists>c. client_add_request 1 [9] (client_new 4 8) = Inr (c, True) \<and>
     log_is_valid (batch_bytes [0, 0, 0, 0] [(0, 1, [9])]) \<lparr>rl_client_window = 4, rl_max_request_size = 8, rl_clients = [Some c]\<rparr> =
       Inr True"
proof -
  obtain c where c: "client_add_request 1 [9] (client_new 4 8) = Inr (c, True)" "sc_rep c [(1, [9])]"
    using client_add_request_rep [OF client_new_rep [of 4 8], of 1 "[9]"]
    by (simp add: client_new_def sc_accepts_def tm_new_def) blast
  let ?l = "\<lparr>rl_client_window = 4, rl_max_request_size = 8, rl_clients = [Some c]\<rparr>"
  have "log_rep ?l (\<lambda>p. if p = 0 then Some [(1, [9])] else None)" using c(2) by (auto simp: log_rep_def)
  from batch_validity [OF this, of "[0, 0, 0, 0]" "[(0, 1, [9])]"]
  have "log_is_valid (batch_bytes [0, 0, 0, 0] [(0, 1, [9])]) ?l = Inr True"
    by (simp add: log_lookup_def batch_bytes_def length_request_bytes RequestHeader_def)
  with c(1) show ?thesis by blast
qed

section \<open>Containers\<close>

text \<open>
  C19: the linked ring of \<open>VectorTailMap\<close> refines a finite map: \<open>tryEmplace\<close> of a key above all others
  succeeds, whether the map is empty, the key displaces everything or some entries stay, and then a
  lookup finds the new value under its key, the old values of the keys less than the capacity
  behind it, and nothing else. The minimum only matters for a map that was emptied.
\<close>

theorem tail_map_keeps_window:
  assumes "tm_rep m es" "\<forall>e \<in> set es. fst e < k" "tm_min m \<le> k"
    and "unat k + unat (tm_tail m) < 18446744073709551616"
  shows "\<exists>m' i. tm_try_emplace m k v = Inr (m', i, True) \<and> (\<forall>j. tm_lookup m' j = Inr (
    if j = k then Some v
    else if unat k < unat j + unat (tm_tail m) then map_of es j else None))"
  by (rule vector_map.lookup_ins_always [OF assms])

theorem tail_map_keeps_window_witness:
  "\<forall>d d'. \<exists>m i m2 i2. tm_try_emplace (toy_map d) 3 d' = Inr (m, i, True) \<and>
     tm_lookup m 0 = Inr (Some d) \<and> tm_lookup m 3 = Inr (Some d') \<and>
     tm_try_emplace (toy_map d) 4 d' = Inr (m2, i2, True) \<and> tm_lookup m2 0 = Inr None"
proof (intro allI)
  fix d d'
  show "\<exists>m i m2 i2. tm_try_emplace (toy_map d) 3 d' = Inr (m, i, True) \<and>
     tm_lookup m 0 = Inr (Some d) \<and> tm_lookup m 3 = Inr (Some d') \<and>
     tm_try_emplace (toy_map d) 4 d' = Inr (m2, i2, True) \<and> tm_lookup m2 0 = Inr None"
    using tail_map_keeps_window [OF toy_map_rep [of d], of 3 d'] tail_map_keeps_window [OF toy_map_rep [of d], of 4 d']
    by (auto simp: toy_map_value)
qed

text \<open>
  C20: after \<open>TaskQueue::clear\<close> no task of the queue is queued and no worker runs one, in every state
  the pool can reach and however the workers run meanwhile; and the wait ends once every worker has
  finished the task it was at.
\<close>

theorem cleared_queue_is_quiet:
  assumes "(tp_step pick)\<^sup>*\<^sup>* (tp_new n) p" "pick_ok pick" "n < 18446744073709551616" "i < length (tp_running p)"
  shows "(\<forall>es p'. tp_clear pick i es p = Inr p' \<longrightarrow>
      tp_inv p' \<and> queue_empty i p' \<and> (\<forall>t. At_task i t \<notin> set (tp_workers p'))) \<and>
    (\<exists>p'. tp_clear pick i (map (\<lambda>w. (w, False)) [0 ..< length (tp_workers p)]) p = Inr p')"
proof -
  have "tp_inv p" by (rule tp_reach_inv [OF assms(1-3)])
  then show ?thesis using tp_clear_result [of pick i _ p] tp_clear_ends [of p i pick] assms(2,4) by blast
qed

theorem cleared_queue_is_quiet_witness:
  "\<exists>p p'. (tp_step first_max)\<^sup>*\<^sup>* (tp_new 2) p \<and> length (tp_running p) = 1 \<and>
     tp_clear first_max 0 [(0, False), (1, False)] p = Inr p' \<and> (\<forall>t :: nat. At_task 0 t \<notin> set (tp_workers p'))"
proof -
  let ?p = "snd (tp_init_task_queue 4 (tp_new 2)) :: nat thread_pool"
  have r: "(tp_step first_max)\<^sup>*\<^sup>* (tp_new 2) ?p" by (rule r_into_rtranclp) (rule step_init)
  have l: "length (tp_running ?p) = 1" "length (tp_workers ?p) = 2"
    by (simp_all add: tp_init_task_queue_def tq_create_def tp_new_def tq_new_def)
  have "map (\<lambda>w. (w, False)) [0 ..< length (tp_workers ?p)] = [(0, False), (1, False)]"
    unfolding l(2) by (simp add: upt_rec numeral_2_eq_2)
  with cleared_queue_is_quiet [OF r first_max_ok, of 0] l r show ?thesis by auto
qed

section \<open>Registers\<close>

text \<open>
  C21: in every state that a writer, a host and a reader can reach, with the bytes of writes and reads
  moved in any order: if a tick of the reader completes a read within the cooldown after it was
  posted, what \<open>poll\<close> points to is an intact subslot, of the incarnation that is returned, and not older
  than the last write that was complete when the read was posted.
\<close>

theorem register_read_is_fresh:
  assumes "swmr_ready xxh s0" "(swmr_step xxh)\<^sup>*\<^sup>* s0 s"
    and "sd_tick xxh (sy_now s) (sy_reader s) = Inr r'" "(job, i, start) \<in> set (sd_outstanding (sy_reader s))"
    and "sy_now s < start + write_cooldown" "sd_poll job r' = Some (slot, inc)"
  shows "\<exists>inc'. inc = inc' - 2 \<and> sy_base s job \<le> inc' \<and> fst slot = job \<and>
    intact xxh (subslot_of (sd_value_size r') (snd slot) (sd_memory r' ! job)) \<and>
    slot_incarnation (subslot_of (sd_value_size r') (snd slot) (sd_memory r' ! job)) = inc'"
  by (rule reader_tick_fresh [OF swmr_reach_ok [OF assms(2,1)] assms(3-6)])

theorem register_read_is_fresh_witness:
  "\<exists>s r'. (swmr_step toy_xxh)\<^sup>*\<^sup>* toy_sys s \<and> sd_tick toy_xxh (sy_now s) (sy_reader s) = Inr r' \<and>
     sy_base s 0 = 3 \<and> sd_poll 0 r' = Some ((0, 1), 1) \<and>
     (\<exists>inc'. 1 = inc' - 2 \<and> sy_base s 0 \<le> inc' \<and> intact toy_xxh (subslot_of (sd_value_size r') 1 (sd_memory r' ! 0)))"
proof -
  obtain s where s: "(swmr_step toy_xxh)\<^sup>*\<^sup>* toy_sys s" "seen s = (0, 3, [(0, 0, 0)], Inr (Some ((0, 1), 1)))"
    using seen_reach [OF fresh_run_seen] by blast
  then obtain r' where r: "sd_tick toy_xxh (sy_now s) (sy_reader s) = Inr r'" "sd_poll 0 r' = Some ((0, 1), 1)"
    by (auto simp: seen_def rbind_Inr_iff)
  have "sy_now s < 0 + write_cooldown" "(0, 0, 0) \<in> set (sd_outstanding (sy_reader s))" "sy_base s 0 = 3"
    using s(2) by (auto simp: seen_def write_cooldown_def)
  with register_read_is_fresh [OF toy_sys_ready s(1) r(1) _ _ r(2)] s(1) r show ?thesis by (auto intro!: exI)
qed

text \<open>
  C22: a register is not even regular for slow reads: there is a reachable state in which the reader
  returns incarnation 0, although incarnation 1 (3 on the wire) was complete when the read was posted.
\<close>

theorem slow_read_is_stale:
  "\<exists>s r'. (swmr_step toy_xxh)\<^sup>*\<^sup>* toy_sys s \<and> sd_tick toy_xxh (sy_now s) (sy_reader s) = Inr r' \<and>
     sd_outstanding (sy_reader s) = [(0, 0, 0)] \<and> sy_base s 0 = 3 \<and> sd_poll 0 r' = Some ((0, 0), 0)"
proof -
  obtain s where s: "(swmr_step toy_xxh)\<^sup>*\<^sup>* toy_sys s" "seen s = (4000000, 3, [(0, 0, 0)], Inr (Some ((0, 0), 0)))"
    using seen_reach [OF stale_run_seen] by blast
  then show ?thesis by (auto simp: seen_def rbind_Inr_iff)
qed

text \<open>
  C23: in every run of the replicated writer and reader over the memories of their hosts, from the state after
  construction on: when \<open>completed\<close> answers true, at least half of the hosts, rounded up, hold the value
  and the incarnation of the write, intact, in their memories (the writers of the hosts count from two). If the
  number of hosts is odd, every read of the register that is issued after that and answered at any later time
  returns an incarnation that is not below the one of the write. Network cards move the bytes of the
  requests one by one and in any order; a host that does not answer is one whose card does nothing. Not covered are
  reads that are polled after the cooldown, for which one host alone can give a stale answer, the wrap of
  handles, and what is read through an iterator or reference after its element was erased, which is taken to be unchanged.
\<close>

theorem replicated_read_meets_write:
  assumes "rep_ready xxh s0" "rep_run xxh es0 s0 = Some s1" "rw_completed i (ry_writer s1) = Inr (True, w')"
  shows "(length (ry_hosts s0) + 1) div 2 \<le> card (holders xxh i s1) \<and>
    (odd (length (ry_hosts s0)) \<longrightarrow> (\<forall>es1 s2 es2 s3 v inc rd'.
       rep_run xxh es1 s1 = Some s2 \<longrightarrow> rep_run xxh (Rep_read i # es2) s2 = Some s3 \<longrightarrow>
       rd_poll id (rd_next_handle (ry_reader s2)) (ry_reader s3) = Inr (Some (v, inc), rd') \<longrightarrow>
       rr_incarnation (rw_registers (ry_writer s1) ! i) \<le> inc))"
proof -
  have ok: "rep_ok xxh (\<lambda>_ _. 0) {} s1" using rep_ok_run [OF assms(2) rep_ready_ok [OF assms(1)]] .
  have n: "length (ry_hosts s1) = length (ry_hosts s0)" by (rule rep_run_hosts [OF assms(2)])
  show ?thesis
  proof (intro conjI impI allI)
    show "(length (ry_hosts s0) + 1) div 2 \<le> card (holders xxh i s1)"
      using completed_write_held [OF ok assms(3)] by (simp only: n)
  qed (rule replicated_read_fresh [OF ok assms(3)], simp_all add: n del: rep_run.simps)
qed

theorem replicated_read_meets_write_witness:
  "\<exists>s1 s3 rd'. rep_run toy_xxh rep_write_run toy_rep = Some s1 \<and> 2 \<le> card (holders toy_xxh 0 s1) \<and>
     rep_run toy_xxh (Rep_read 0 # rep_read_run) s1 = Some s3 \<and> rd_poll id 0 (ry_reader s3) = Inr (Some ([7], 1), rd') \<and>
     rr_incarnation (rw_registers (ry_writer s1) ! 0) \<le> 1"
proof -
  obtain s1 where s1: "rep_run toy_xxh rep_write_run toy_rep = Some s1" "rep_written_seen s1 = (Inr True, 1, 0, 3)"
    using rep_write_run_seen by (auto simp del: rep_run.simps)
  obtain s3 where s3: "rep_run toy_xxh (Rep_read 0 # rep_read_run) s1 = Some s3" "rep_read_seen s3 = Inr (Some ([7], 1))"
    using rep_read_run_seen s1(1) by (auto simp: rep_run_append simp del: rep_run.simps)
  obtain w' where w: "rw_completed 0 (ry_writer s1) = Inr (True, w')" "rd_next_handle (ry_reader s1) = 0"
    using s1(2) by (auto simp: rep_written_seen_def rbind_Inr_iff)
  obtain rd' where p: "rd_poll id 0 (ry_reader s3) = Inr (Some ([7], 1), rd')"
    using s3(2) by (auto simp: rep_read_seen_def rbind_Inr_iff)
  note met = replicated_read_meets_write [OF toy_rep_ready s1(1) w(1)]
  have n: "length (ry_hosts toy_rep) = 3" by (simp add: toy_rep_def)
  have "2 \<le> card (holders toy_xxh 0 s1)" using conjunct1 [OF met] by (simp add: n)
  moreover have "rr_incarnation (rw_registers (ry_writer s1) ! 0) \<le> 1"
    by (rule conjunct2 [OF met, unfolded n, rule_format, of "[]" s1 rep_read_run s3 "[7]" 1 rd'])
      (simp_all only: s3(1) p w(2) rep_run.simps(1), simp)
  ultimately show ?thesis using s1(1) s3(1) p by blast
qed

text \<open>
  C24: in every reachable state of the receivers of a broadcast the indices of the messages a receiver has
  delivered increase strictly, so none is delivered twice, and its maps and queues stay within the tail. Any
  bytes may arrive from the broadcaster, and from every echo link that no correct receiver feeds.
\<close>

theorem broadcast_delivers_in_order:
  assumes "(cb_step cr xxh freed feeds)\<^sup>*\<^sup>* s t" "cb_start n s" "feeds_ok n feeds" "q < n"
  shows "sorted_wrt (<) (map (\<lambda>d. cb_index (fst d)) (nd_delivered (t i))) \<and>
    length (tr_msg_tail (nd_recv (t i))) \<le> unat (tr_tail (nd_recv (t i))) \<and>
    length (tr_recv_checks (nd_recv (t i))) \<le> unat (tr_tail (nd_recv (t i))) \<and>
    length (tr_buffered (nd_recv (t i)) ! q) \<le> unat (tr_tail (nd_recv (t i))) \<and>
    length (tr_read_checks (nd_recv (t i)) ! q) \<le> unat (tr_tail (nd_recv (t i)))"
  using delivered_in_order [OF assms(1-3)] reach_bounds [OF assms(1-3)] assms(4) by simp

theorem broadcast_delivers_in_order_witness:
  "\<exists>s t. (cb_step cb_crypto toy_xxh id pair_feeds)\<^sup>*\<^sup>* s t \<and> (toy_cb_message 0 1, True) \<in> set (nd_delivered (t 0)) \<and>
     sorted_wrt (<) (map (\<lambda>d. cb_index (fst d)) (nd_delivered (t 0)))"
proof -
  obtain s t where "cb_start 1 s" "(cb_step cb_crypto toy_xxh id pair_feeds)\<^sup>*\<^sup>* s t"
    "(toy_cb_message 0 1, True) \<in> set (nd_delivered (t 0))"
    using toy_cb_pair [where k = 0 and b = 1] by blast
  with broadcast_delivers_in_order [OF this(2,1) pair_feeds_ok, where q = 0 and i = 0] show ?thesis by auto
qed

text \<open>
  C25: consistent broadcast, for messages of the same size whose hashes do not collide: a message that was
  delivered because all the others echoed it is the one that any correct receiver among them delivers at
  that index, on whichever path. The broadcaster and the rest of the receivers may be Byzantine.
\<close>

theorem fast_path_agreement:
  assumes "(cb_step cr xxh freed feeds)\<^sup>*\<^sup>* s t" "cb_start n s" "feeds_ok n feeds"
    and "(m, True) \<in> set (nd_delivered (t i))" "(m', b) \<in> set (nd_delivered (t j))"
    and "feeds i q = Some (j, k)" "q < n" "cb_index m = cb_index m'" "cb_size m = cb_size m'"
    and "cb_hash cr m = cb_hash cr m' \<Longrightarrow> m = m'"
  shows "m = m'"
  using fast_agreement [OF assms] .

theorem fast_path_agreement_witness:
  "\<exists>s t m. (cb_step cb_crypto toy_xxh id pair_feeds)\<^sup>*\<^sup>* s t \<and> (m, True) \<in> set (nd_delivered (t 0)) \<and>
     (toy_cb_message 0 1, True) \<in> set (nd_delivered (t 1)) \<and> cb_index m = 0 \<and> m = toy_cb_message 0 1"
proof -
  obtain s t where st: "cb_start 1 s" "(cb_step cb_crypto toy_xxh id pair_feeds)\<^sup>*\<^sup>* s t"
    "(toy_cb_message 0 1, True) \<in> set (nd_delivered (t 0))" "(toy_cb_message 0 1, True) \<in> set (nd_delivered (t 1))"
    using toy_cb_pair [where k = 0 and b = 1] by blast
  have "toy_cb_message 0 1 = toy_cb_message 0 1"
    by (rule fast_path_agreement [OF st(2,1) pair_feeds_ok st(3,4), where q = 0 and k = 0]) (simp_all add: pair_feeds_def)
  with st show ?thesis by (intro exI [of _ s] exI [of _ t] exI [of _ "toy_cb_message 0 1"]) (simp add: toy_cb_message_def)
qed

text \<open>
  C26: the echo of a long message is its index and its hash; the echo of a short one is the message. A
  message whose bytes are the hash of the long one has the same echo, so two correct receivers, the only
  ones, each take the other's echo for their own message, and deliver different messages at one index.
\<close>

theorem hash_sent_as_message_splits_receivers:
  assumes "HashThreshold \<le> cb_size m" "cb_size m \<le> sz" "length (cb_hash cr m) = HashLength"
  shows "\<exists>s t. cb_start 1 s \<and> (cb_step cr xxh freed pair_feeds)\<^sup>*\<^sup>* s t \<and>
    (m, True) \<in> set (nd_delivered (t 0)) \<and> (m\<lparr>cb_data := cb_hash cr m\<rparr>, True) \<in> set (nd_delivered (t 1))"
  by (rule hash_as_message [OF assms])

theorem hash_sent_as_message_splits_receivers_witness:
  "\<exists>s t m m'. cb_start 1 s \<and> (cb_step cb_crypto toy_xxh id pair_feeds)\<^sup>*\<^sup>* s t \<and>
     (m, True) \<in> set (nd_delivered (t 0)) \<and> (m', True) \<in> set (nd_delivered (t 1)) \<and> cb_size m = 8192 \<and> cb_size m' = 32"
proof -
  let ?m = "\<lparr>cb_index = 0, cb_data = replicate 8192 0\<rparr>"
  have size: "cb_size ?m = 8192" "HashThreshold \<le> cb_size ?m" "cb_size ?m \<le> 8192" by (simp_all add: cb_size_def HashThreshold_def)
  have "cb_size (?m\<lparr>cb_data := cb_hash cb_crypto ?m\<rparr>) = 32" using cb_crypto_hash [of ?m] by (simp add: cb_size_def HashLength_def)
  with hash_sent_as_message_splits_receivers [OF size(2,3) cb_crypto_hash, of toy_xxh id] size(1) show ?thesis by blast
qed

section \<open>Point-to-point links\<close>

text \<open>
  C27: a receiver reads slots that the network card is writing: the incarnation may be new while hash, size or data are
  old. If the hash tells whether the bytes are those of the message the incarnation announces, the polls of
  any run return messages of the sender in increasing order of their numbers, whatever was overwritten in between.
\<close>

theorem link_messages_in_order:
  assumes "link_run xxh capacity T ms L r ds" "link_fits T (length ms)"
  shows "\<exists>ns. ds = map ((!) ms) ns \<and> sorted_wrt (<) ns \<and> (\<forall>n \<in> set ns. n < length ms)"
  by (rule link_in_order [OF assms])

theorem link_messages_in_order_witness:
  "\<exists>ns. [[2, 2]] = map ((!) [[1 :: byte], [2, 2], [3]]) ns \<and> sorted_wrt (<) ns \<and> (\<forall>n \<in> set ns. n < 3)"
proof -
  obtain r where "link_run toy_xxh 8 2 [[1], [2, 2], [3]] 3 r [[2, 2]]" using three_link_run by blast
  from link_messages_in_order [OF this toy_fits(4)] show ?thesis by (simp add: numeral_3_eq_3)
qed

text \<open>
  C28: \<open>SyncSender\<close> implements the link: in every run of \<open>getSlot\<close>, \<open>send\<close>, \<open>tick\<close> and completions, the
  requests that the card carries out copy the messages in order, each complete when it is copied, to the slots and with the
  incarnations that the receiver computes. No slot is reused before its request has completed.
\<close>

theorem sender_keeps_link_contract:
  assumes "sender_run xxh T s ms wire" "length ms + T < 18446744073709551616"
  shows "length wire \<le> length ms \<and>
    (\<forall>n < length wire. fst (wire ! n) = of_nat (n mod T) \<and>
       ps_incarnation (snd (wire ! n)) = of_nat (n div T + 1) \<and>
       unat (ps_size (snd (wire ! n))) = length (ms ! n) \<and>
       take (length (ms ! n)) (ps_data (snd (wire ! n))) = ms ! n \<and>
       ps_hash (snd (wire ! n)) = xxh (ms ! n))"
  using sender_feeds_link [OF assms] by (simp add: wired_def holds_msg_def)

theorem sender_keeps_link_contract_witness:
  "fst (three_wire ! 2) = 0 \<and> ps_incarnation (snd (three_wire ! 2)) = 2 \<and> take 1 (ps_data (snd (three_wire ! 2))) = [3]"
proof -
  obtain s where "sender_run toy_xxh 2 s [[1], [2, 2], [3]] three_wire" using three_run by blast
  from sender_keeps_link_contract [OF this, THEN conjunct2, rule_format, of 2] show ?thesis by (simp add: three_wire_length)
qed

text \<open>
  C29: tail validity, for sender and receiver together and a tail of at least two slots: after all messages have been copied,
  \<open>2 * tail\<close> polls return the last \<open>tail\<close> messages (all, if there are fewer), in order and nothing else.
\<close>

theorem tail_reaches_receiver:
  assumes "sender_run xxh T s ms wire" "length wire = length ms" "length ms + T < 18446744073709551616"
    "link_fits T (length ms)" "1 < T" "\<forall>m \<in> set ms. length m \<le> capacity"
    "pr_new tail sz mr rm = Inr r" "unat tail = T" "2 * T \<le> n"
  shows "\<exists>r'. pr_polls xxh capacity (replicate n (\<lambda>i. reads (remote_ring (blank_ring T slot_size) wire))) r =
    Inr (map ((!) ms) [length ms - T ..< length ms], r')"
  by (rule link_delivers_tail [OF assms])

theorem tail_reaches_receiver_witness:
  "\<exists>r'. pr_polls toy_xxh 8 (replicate 4 three_seen) (toy_receiver 2) = Inr ([[2, 2], [3]], r')"
proof -
  obtain s where s: "sender_run toy_xxh 2 s [[1], [2, 2], [3]] three_wire" using three_run by blast
  have "three_seen = (\<lambda>i. reads (remote_ring (blank_ring 2 24) three_wire))" by (simp add: three_seen_def fun_eq_iff)
  with tail_reaches_receiver [OF s _ _ toy_fits(4) _ _ toy_receiver_new(1), of 8 4 24] show ?thesis
    by (simp add: three_wire_length upt_rec [of _ 3] upt_rec [of _ "Suc _"])
qed

section \<open>Requests and responses\<close>

text \<open>
  C30: \<open>SignedRequest::tryFrom\<close> compares the size of the buffer, computed with 64 bits, to what the request claims. What it
  accepts is a request followed by a signature: \<open>split\<close> is defined and its parts are those of the buffer.
\<close>

theorem signed_request_splits:
  assumes "sr_try_from b = Inr s" "length b < 18446744073709551616"
  shows "\<exists>raw sig. sr_split s = Inr (raw, sig) \<and> b = raw @ sig \<and> length sig = SignatureLength \<and>
    rr_try_from raw = Inr raw \<and> rr_id raw = rr_id b \<and> rr_client raw = rr_client b"
  by (rule sr_parts [OF assms])

theorem signed_request_splits_witness:
  "\<exists>raw sig. sr_split (toy_request 0 7 @ toy_sign 2 [1]) = Inr (raw, sig) \<and> rr_try_from raw = Inr raw \<and> rr_id raw = 0"
proof -
  have "sr_try_from (toy_request 0 7 @ toy_sign 2 [1]) = Inr (toy_request 0 7 @ toy_sign 2 [1])" by code_simp
  moreover have "rr_id (toy_request 0 7 @ toy_sign 2 [1]) = 0" by code_simp
  ultimately show ?thesis
    using signed_request_splits [of "toy_request 0 7 @ toy_sign 2 [1]"] toy_request_ok(3) toy_signatures(3)
    by (fastforce simp: SignatureLength_def)
qed

text \<open>
  C31: in every order of requests, echoes (before or after the request, of requests with the same id too), signed
  requests, workers and polls: what \<open>pollProposable(true, false)\<close> returns has an identical echo of every other replica, came
  from the client in the clear or with a signature that verified, and was handed to the engine before.
\<close>

theorem fast_path_needs_all_echoes:
  assumes "ingress_run cr i window n evs c" "ci_poll_proposable True False c = Inr (Some req, c')"
  shows "(\<forall>f < unat n - 1. Follower_echoed req f \<in> set evs) \<and>
    (Client_sent req \<in> set evs \<or> (\<exists>sig. client_signed cr i req sig)) \<and> rr_id req < ci_next_received c"
  by (rule fast_path_echoed [OF assms])

theorem fast_path_needs_all_echoes_witness:
  "\<exists>evs c c'. ingress_run (toy_crypto 1) 2 4 3 evs c \<and> ci_poll_proposable True False c = Inr (Some (toy_request 0 7), c') \<and>
     Follower_echoed (toy_request 0 7) 0 \<in> set evs \<and> Follower_echoed (toy_request 0 7) 1 \<in> set evs"
proof -
  obtain evs c c' where r: "ingress_run (toy_crypto 1) 2 4 3 evs c" "ci_poll_proposable True False c = Inr (Some (toy_request 0 7), c')"
    using toy_ingress_run by blast
  from fast_path_needs_all_echoes [OF r] have "\<forall>f < 2. Follower_echoed (toy_request 0 7) f \<in> set evs" by simp
  with r show ?thesis by (intro exI [of _ evs]) auto
qed

text \<open>
  C32: in every run, the ids of the requests \<open>pollReceived\<close> returned are strictly increasing and below the next one it
  will return, whatever gaps the tail map left; the same holds for \<open>pollProposable\<close> on every path.
\<close>

theorem requests_handed_out_in_order:
  assumes "ingress_run cr i window n evs c"
  shows "ids_below (accepted_ids evs) (ci_next_received c) \<and> ids_below (proposed_ids evs) (ci_next_proposable c)"
  by (rule handed_out_in_order [OF assms])

theorem requests_handed_out_in_order_witness:
  "\<exists>evs (c :: client_ingress). Accepted (toy_request 0 7) \<in> set evs \<and> ids_below (accepted_ids evs) (ci_next_received c)"
proof -
  obtain evs c where r: "ingress_run (toy_crypto 1) 2 4 3 evs c" "Accepted (toy_request 0 7) \<in> set evs"
    using toy_ingress_run [of "toy_crypto 1"] by blast
  from requests_handed_out_in_order [OF r(1)] r(2) show ?thesis by (intro exI [of _ evs] exI [of _ c]) simp
qed

text \<open>
  C33: \<open>pollVerifiedSignatures\<close> finds the request by its id and stores the verified signature without comparing the
  request that was signed. The leader then forwards \<open>a\<close> with the signature over \<open>b\<close>; the follower's worker finds
  it invalid and the follower throws.
\<close>

theorem client_convicts_leader:
  assumes "window \<noteq> 0" "unat (rr_id a) + unat window < 18446744073709551616" "0 < n" "unat n \<le> 8" "0 < followers"
    and "rr_ok a" "rr_ok b" "rr_id b = rr_id a" "length sig = SignatureLength"
    and "length a + SignatureLength < 18446744073709551616" "length b + SignatureLength < 18446744073709551616"
    and "client_signed cr i b sig" "crypto_verify cr sig a i = Inr False"
  shows "\<exists>c. leader_run cr n a (b @ sig) (ci_new i window followers) = Inr (Some (a, sig), c) \<and>
    follower_run cr n (a @ sig) (ci_new i window followers) = Inl (Runtime_error ''Byzantine Behavior: invalid signature received.'')"
  using leader_forwards_other_signature [OF assms(1-5,7-9,11,12)] follower_convicts [OF assms(1,6,9,10,13)] by blast

theorem client_convicts_leader_witness:
  "\<exists>c. leader_run (toy_crypto 1) 3 (toy_request 0 7) (toy_request 0 8 @ toy_sign 2 (toy_request 0 8)) (ci_new 2 4 2) =
      Inr (Some (toy_request 0 7, toy_sign 2 (toy_request 0 8)), c) \<and>
    follower_run (toy_crypto 1) 3 (toy_request 0 7 @ toy_sign 2 (toy_request 0 8)) (ci_new 2 4 2) =
      Inl (Runtime_error ''Byzantine Behavior: invalid signature received.'')"
  by (rule client_convicts_leader [OF _ _ _ _ _ toy_request_ok(1) toy_request_ok(1) _ toy_signatures(3) _ _ toy_signatures(1,2)])
    (simp_all add: toy_request_ok(2,3) SignatureLength_def)

text \<open>
  C34: in every run of a client of \<open>n\<close> servers, a result rests on more than \<open>n / 2\<close> responses to the oldest
  request, each a prefix of the first. If no link delivered two responses to the same request, they are of different
  servers, one of them correct. The result need not be equal to that response.
\<close>

theorem client_result_continues_correct:
  assumes "client_run cr n evs c" "cl_poll c = Inr (Some res, c')"
    and "\<And>i k. length (filter (\<lambda>x. fst x = i \<and> rs_request_id (snd x) = k) evs) \<le> 1"
    and "finite F" "card F \<le> n div 2"
    and "\<forall>x \<in> set evs. fst x \<notin> F \<longrightarrow> rs_body (snd x) = answer (rs_request_id (snd x))"
  shows "\<exists>e. tm_deref (cl_requests c) (tm_begin (cl_requests c)) = Inr e \<and> prefix (answer (fst e)) res"
  by (rule result_continues_correct [OF assms])

theorem client_result_continues_correct_witness:
  "\<exists>c c' e. client_run (toy_crypto 1) 3 toy_responses c \<and> cl_poll c = Inr (Some [5, 6, 7], c') \<and>
     tm_deref (cl_requests c) (tm_begin (cl_requests c)) = Inr e \<and> prefix [5, 6] [5, 6, 7 :: byte]"
proof -
  obtain c c' where r: "client_run (toy_crypto 1) 3 toy_responses c" "cl_poll c = Inr (Some [5, 6, 7], c')"
    using toy_client_run by blast
  have len: "length (le64 w) = 8" for w by (simp add: le64_def)
  have "length (filter (\<lambda>x. fst x = i \<and> rs_request_id (snd x) = k) toy_responses) \<le> 1" for i k
    by (simp add: toy_responses_def)
  from client_result_continues_correct [OF r this, of "{0}" "\<lambda>_. [5, 6]"] r
  show ?thesis by (auto simp: toy_responses_def rs_body_def ResponseHeader_def len)
qed

text \<open>
  C35: responses are counted in \<open>nb_responses\<close> whoever sent them; \<open>next_response\<close> only decides who is polled, and the
  server chooses it by the id it answers. While the client has a younger request, one server gives a quorum of
  responses; nothing bounds \<open>nb_responses\<close> by \<open>MaxNbServers\<close>.
\<close>

theorem one_server_forges_result:
  assumes "flooding req k r es 0 m c" "length (cl_servers c) div 2 + 1 \<le> MaxNbServers" "MaxNbServers < m"
  shows "(\<exists>c1 c2. rfold (\<lambda>_. cl_poll_responses) [0 ..< length (cl_servers c) div 2 + 1] c = Inr c1 \<and>
      cl_poll c1 = Inr (Some (rs_body r), c2)) \<and>
    rfold (\<lambda>_. cl_poll_responses) [0 ..< MaxNbServers + 1] c = Inl Undefined_behaviour"
  using server_floods [OF assms(1,2)] assms(2,3) by simp

theorem one_server_forges_result_witness:
  "\<exists>ms c1 c2. rfold (\<lambda>_. cl_poll_responses) [0 ..< 2] (toy_waiting ms (replicate 6 (le64 0 @ [9])) []) = Inr c1 \<and>
     cl_poll c1 = Inr (Some [9], c2)"
proof -
  obtain ms es where ms: "tm_rep ms ((0, cd_new (toy_request 0 7) 3) # es)" using toy_two_requests by blast
  let ?c = "toy_waiting ms (replicate 6 (le64 0 @ [9])) []"
  have n: "length (cl_servers ?c) = 3" by (simp add: toy_waiting_def)
  have "flooding (toy_request 0 7) 0 (le64 0 @ [9]) es 0 6 ?c"
    using ms toy_response_fits [of "[9]" ms "replicate 6 (le64 0 @ [9])" "[]"] forged_zero [of "toy_request 0 7" 3]
    by (simp add: flooding_def toy_waiting_def)
  note forges = one_server_forges_result [OF this, unfolded n]
  have two: "3 div 2 + 1 = (2 :: nat)" "(2 :: nat) \<le> MaxNbServers" "MaxNbServers < (6 :: nat)" by (simp_all add: MaxNbServers_def)
  obtain c1 c2 where
    "rfold (\<lambda>_. cl_poll_responses) [0 ..< 2] ?c = Inr c1" "cl_poll c1 = Inr (Some (rs_body (le64 0 @ [9])), c2)"
    using forges [unfolded two(1), OF two(2,3)] by blast
  moreover have "rs_body (le64 0 @ [9]) = [9 :: byte]" by (simp add: rs_body_def ResponseHeader_def le64_def)
  ultimately show ?thesis by auto
qed

section \<open>Servers\<close>

text \<open>
  C36: backpressure, for two servers each in any run, on both paths and across changes of leader and path: if \<open>a\<close> has
  heard only acknowledgements that \<open>b\<close> sent, what \<open>a\<close> sent to \<open>b\<close> exceeds what \<open>b\<close> has taken by at most \<open>server_window\<close>,
  the tail of the link between them. So no echo is overwritten before it is read.
\<close>

theorem echoes_within_window:
  assumes "server_run w n evs a" "i < length (rv_servers a)" "server_run w' n' evs' b" "j < length (rv_servers b)"
    and "subseq (acks_heard i evs) (os_ack_out (rv_servers b ! j))"
  shows "length (os_request_out (rv_servers a ! i)) + length (os_sig_out (rv_servers a ! i)) \<le>
    unat w + (length (echoes_heard j evs') - length (os_request_in (rv_servers b ! j)) - length (os_sig_in (rv_servers b ! j)))"
  by (rule window_of_echoes [OF assms])

theorem echoes_within_window_witness:
  "\<exists>a b. server_run 4 1 [] a \<and> server_run 4 1 [Heard_request 0 (toy_request 0 7)] b \<and>
     os_request_out (rv_servers a ! 0) = [toy_request 0 7] \<and>
     length (os_request_out (rv_servers a ! 0)) + length (os_sig_out (rv_servers a ! 0)) \<le> unat (4 :: u64) + (1 - 0 - 0)"
proof -
  obtain a b where r: "server_run 4 1 [] a" "server_run 4 1 [Heard_request 0 (toy_request 0 7)] b"
    "map os_request_out (rv_servers a) = [[toy_request 0 7]]" "length (rv_servers b) = 1"
    "os_request_in (rv_servers b ! 0) = []" "os_sig_in (rv_servers b ! 0) = []"
    using toy_servers_run by (elim exE conjE) (rule that)
  then obtain srv where srv: "rv_servers a = [srv]" "os_request_out srv = [toy_request 0 7]" by auto
  have "echoes_heard 0 [Heard_request 0 (toy_request 0 7)] = [toy_request 0 7]" by (simp add: echoes_heard_def)
  with echoes_within_window [OF r(1) _ r(2), of 0 0] r srv show ?thesis by (intro exI [of _ a] exI [of _ b]) simp
qed

text \<open>
  C37: \<open>handleRequest\<close> stores the connection of a client only when it has none, and \<open>executed\<close> tests the pointer
  \<open>client->active\<close> instead of the flag it points to. Nothing is sent on any other connection than the first.
\<close>

theorem returning_client_unanswered:
  assumes "rv_client client_id s = Inr (Some j)" "rv_handle_request client_id request k s = Inr s1"
    and "rv_executed client_id request_id response s1 = Inr s2" "rv_local s \<noteq> 3"
  shows "rv_client client_id s1 = Inr (Some j) \<and>
    rv_conns s2 = (rv_conns s)[j := (rv_conns s ! j)\<lparr>co_sent := co_sent (rv_conns s ! j) @ [response_bytes request_id response]\<rparr>]"
  by (rule answered_on_first_connection [OF assms])

theorem returning_client_unanswered_witness:
  "\<exists>s1 s2. rv_handle_request 2 (toy_request 0 7) 1 toy_returning = Inr s1 \<and> rv_executed 2 0 [5] s1 = Inr s2 \<and>
     \<not> co_active (rv_conns s2 ! 0) \<and> co_sent (rv_conns s2 ! 0) = [response_bytes 0 [5]] \<and> co_sent (rv_conns s2 ! 1) = []"
proof -
  obtain s1 s2 where s: "rv_handle_request 2 (toy_request 0 7) 1 toy_returning = Inr s1" "rv_executed 2 0 [5] s1 = Inr s2"
    using map_sum_value [OF toy_returning_value(2)] by (auto simp: rbind_Inr_iff)
  have "rv_local toy_returning \<noteq> 3" by (simp add: toy_returning_def toy_server_def rv_new_def Let_def)
  from returning_client_unanswered [OF toy_returning_value(1) s this] s show ?thesis
    by (intro exI [of _ s1] exI [of _ s2]) (simp add: toy_returning_def toy_conn_def)
qed

text \<open>
  C38: in every run of a server, whatever the engine and the network do between the calls: the batches that were
  fetched are those of instances 0, 1, 2 and so on, and what \<open>pollToExecute\<close> has returned is a prefix of their requests,
  all of them whenever no batch is open. The batches are well-formed and not empty.
\<close>

theorem executed_in_order:
  assumes "execution_run ds xs s" "list_all2 (\<lambda>d rs. batch_ok (snd d) rs) ds rss"
  shows "map fst ds = map of_nat [0 ..< length ds] \<and> list_all2 rq_is xs (take (length xs) (concat rss)) \<and>
    (sl_batch s = None \<longrightarrow> length xs = length (concat rss))"
  using execution_run_ok [OF assms(1)] executing_prefix assms(2) by blast

theorem executed_in_order_witness:
  "\<exists>xs s. execution_run [(0, toy_batch)] xs s \<and> list_all2 rq_is xs [(2, 0, [7])]"
proof -
  obtain rq s where r: "execution_run [(0, toy_batch)] [rq] s" using toy_execution by blast
  have "list_all2 (\<lambda>d rs. batch_ok (snd d) rs) [(0 :: u64, toy_batch)] [toy_two]" using toy_batch_ok by simp
  from executed_in_order [OF r this] r show ?thesis
    by (intro exI [of _ "[rq]"] exI [of _ s]) (simp add: toy_two_def)
qed

text \<open>
  C39: \<open>repropose\<close> of the engine fills gaps with batches of size 0. \<open>pollToExecute\<close> dereferences and advances the
  iterator before it asks \<open>done()\<close>, which is already true for such a batch.
\<close>

theorem gap_crashes_replicas:
  assumes "tm_find vv i = Inr (tm_end vv)" "i \<le> last_instance" "local_state c = Inr st"
    and "poll_decision (sl_engine s) = Inr (Some (sl_next_batch s, [], cp), c1)" "sl_batch s = None"
  shows "(\<exists>c'. fill_slots (Suc n) vv i last_instance c = fill_slots n vv (i + 1) last_instance c' \<and>
      to_propose c' = to_propose c @ [\<lparr>pm_view = at_view st, pm_instance = next_proposal c, pm_data = []\<rparr>]) \<and>
    log_is_valid [] l = Inr True \<and> sl_poll_to_execute s = Inl Undefined_behaviour"
  using gap_gets_empty_batch [OF assms(1-3)] empty_batch_valid empty_batch_read [OF assms(4,5)] by blast

theorem gap_crashes_replicas_witness:
  "sl_poll_to_execute (toy_loop (toy_with (toy_data [True, True, True] [False, False, False]))) = Inl Undefined_behaviour"
proof -
  let ?s = "toy_loop (toy_with (toy_data [True, True, True] [False, False, False]))"
  have s: "sl_engine ?s = toy_with (toy_data [True, True, True] [False, False, False])" "sl_next_batch ?s = 0" "sl_batch ?s = None"
    by (simp_all add: toy_loop_def sl_new_def)
  have st: "local_state toy_engine = Inr toy_state" by (simp add: local_state_def get_state_def)
  have "tm_find (tm_new 4 :: bytes tail_map) 0 = Inr (tm_end (tm_new 4 :: bytes tail_map))" by code_simp
  from gap_crashes_replicas [OF this _ st, where s = ?s and last_instance = 0 and cp = False] s toy_decision
  show ?thesis by simp
qed

text \<open>
  C40: \<open>pollToExecute\<close> returns \<open>waiting_for_checkpoint_after.has_value()\<close> with every request of the batch. An
  application that checkpoints when it is told to does so after the first one; the rest of the batch follows without the flag.
\<close>

theorem checkpoint_in_mid_batch:
  assumes "poll_decision (sl_engine s) = Inr (Some (sl_next_batch s, b, True), c)" "batch_ok b (r1 # r2 # rs)" "sl_batch s = None"
  shows "\<exists>rq1 s1. sl_poll_to_execute s = Inr (Some (rq1, True), s1) \<and> rq_is rq1 r1 \<and>
    (\<forall>state s2. sl_checkpoint_app_state state s1 = Inr s2 \<longrightarrow>
      (\<exists>rq2 s3. sl_poll_to_execute s2 = Inr (Some (rq2, False), s3) \<and> rq_is rq2 r2))"
  by (rule checkpoint_after_first [OF assms])

theorem checkpoint_in_mid_batch_witness:
  "\<exists>rq1 s1 s2 rq2 s3. sl_poll_to_execute ((toy_loop (toy_deciding 1))\<lparr>sl_next_batch := 1\<rparr>) = Inr (Some (rq1, True), s1) \<and>
     sl_checkpoint_app_state [] s1 = Inr s2 \<and> sl_poll_to_execute s2 = Inr (Some (rq2, False), s3) \<and> rq_is rq2 (2, 1, [8])"
proof -
  let ?s = "(toy_loop (toy_deciding 1))\<lparr>sl_next_batch := 1\<rparr>"
  obtain c where "poll_decision (toy_deciding 1) = Inr (Some (1, toy_batch, True), c)" using toy_deciding_result [of 1] by auto
  then have "poll_decision (sl_engine ?s) = Inr (Some (sl_next_batch ?s, toy_batch, True), c)" by (simp add: toy_loop_def sl_new_def)
  from checkpoint_in_mid_batch [OF this toy_batch_ok [unfolded toy_two_def]] obtain rq1 s1 where
    p: "sl_poll_to_execute ?s = Inr (Some (rq1, True), s1)"
    "\<forall>state s2. sl_checkpoint_app_state state s1 = Inr s2 \<longrightarrow>
      (\<exists>rq2 s3. sl_poll_to_execute s2 = Inr (Some (rq2, False), s3) \<and> rq_is rq2 (2, 1, [8]))"
    by (auto simp: toy_loop_def sl_new_def)
  obtain s2 where "sl_checkpoint_app_state [] s1 = Inr s2" using toy_mid_checkpoint [OF p(1)] by blast
  with p show ?thesis by blast
qed

end
